(* ===== verification/Prelude.thy ===== *)
theory Prelude
  imports Main "HOL-Library.Word" "HOL-Library.Signed_Division"
begin

text \<open>
  Shared vocabulary of the development: how a C++ function that may stop the process is modelled,
  the machine integers of the source, and the list and word facts that several components use.

  \<^item> A function that can fail is a value of \<open>'a res\<close>: \<open>Inl f\<close> for a run that stops with the
    fault \<open>f\<close>, \<open>Inr x\<close> for one that returns \<open>x\<close>. \<open>RTC_DCHECK\<close> and \<open>RTC_CHECK\<close>
    (rtc_base/checks.h) are the branches \<open>dcheck\<close> and \<open>check\<close>; the build files of the
    repository never define \<open>NDEBUG\<close>, so \<open>RTC_DCHECK_IS_ON\<close> holds and both stop the
    process. Behaviour that the C++ standard leaves undefined (a signed overflow, a shift by
    the width of the type or more, a null dereference, the use of an object outside its lifetime)
    is a fault as well, and so is a loop that exceeds the number of rounds its model is given.
  \<^item> A method that changes an object and may stop is a function into \<open>'s outcome\<close>, which
    keeps the state that was reached when the run stopped.
\<close>

named_theorems model_defs \<open>definitions that component proofs unfold\<close>
named_theorems res_simps \<open>evaluation of checks and of sequenced results\<close>

section \<open>Results that may be faults\<close>

datatype fault =
    DCheckFailed
  | CheckFailed
  | SignedOverflow
  | ShiftTooWide
  | DivideByZero
  | OutOfRange
  | NullDereference
  | DeadObject
  | Diverges

type_synonym 'a res = "fault + 'a"

definition guardr :: "'e \<Rightarrow> bool \<Rightarrow> 'e + 'a \<Rightarrow> 'e + 'a" where
  "guardr f b r = (if b then r else Inl f)"

abbreviation dcheck :: "bool \<Rightarrow> 'a res \<Rightarrow> 'a res" where
  "dcheck \<equiv> guardr DCheckFailed"

abbreviation check :: "bool \<Rightarrow> 'a res \<Rightarrow> 'a res" where
  "check \<equiv> guardr CheckFailed"

fun rbind :: "'e + 'a \<Rightarrow> ('a \<Rightarrow> 'e + 'b) \<Rightarrow> 'e + 'b" where
  "rbind (Inl f) k = Inl f"
| "rbind (Inr x) k = k x"

lemma guardr_True [simp, res_simps]: "guardr f True r = r"
  by (simp add: guardr_def)

lemma guardr_False [simp, res_simps]: "guardr f False r = Inl f"
  by (simp add: guardr_def)

lemma guardr_eq_Inr [simp, res_simps]: "guardr f b r = Inr x \<longleftrightarrow> b \<and> r = Inr x"
  by (simp add: guardr_def)

lemma guardr_eq_Inl: "guardr f b r = Inl g \<longleftrightarrow> (\<not> b \<and> f = g) \<or> (b \<and> r = Inl g)"
  by (auto simp: guardr_def)

lemma rbind_eq_Inr: "rbind m k = Inr y \<longleftrightarrow> (\<exists>x. m = Inr x \<and> k x = Inr y)"
  by (cases m) auto

lemma rbind_eq_Inl: "rbind m k = Inl f \<longleftrightarrow> m = Inl f \<or> (\<exists>x. m = Inr x \<and> k x = Inl f)"
  by (cases m) auto

lemma rbind_assoc: "rbind (rbind m k) h = rbind m (\<lambda>x. rbind (k x) h)"
  by (cases m) auto

lemma res_not_Inl: "(\<nexists>f. r = Inl f) \<longleftrightarrow> (\<exists>x. r = Inr x)"
  by (cases r) auto

text \<open>A loop that runs one step per element of a list and stops at the first fault.\<close>

fun run_list :: "('s \<Rightarrow> 'a \<Rightarrow> ('b \<times> 's) res) \<Rightarrow> 's \<Rightarrow> 'a list \<Rightarrow> ('b list \<times> 's) res" where
  "run_list step s [] = Inr ([], s)"
| "run_list step s (x # xs) =
     rbind (step s x) (\<lambda>(y, s'). rbind (run_list step s' xs) (\<lambda>(ys, s''). Inr (y # ys, s'')))"

text \<open>Who is called by a loop over a list whose calls remove others from it: everyone who was not removed before.\<close>

function visit :: "('a \<Rightarrow> 'a list) \<Rightarrow> 'a list \<Rightarrow> 'a list" where
  "visit removes [] = []"
| "visit removes (x # xs) = x # visit removes (filter (\<lambda>y. y \<notin> set (removes x)) xs)"
  by pat_completeness auto
termination by (relation "measure (\<lambda>(r, xs). length xs)") (auto simp: le_imp_less_Suc)

section \<open>Objects whose methods may stop the process\<close>

datatype ('e, 's) outcome = Running 's | Stopped 'e 's

fun andthen :: "('e, 's) outcome \<Rightarrow> ('s \<Rightarrow> ('e, 's) outcome) \<Rightarrow> ('e, 's) outcome" where
  "andthen (Running s) k = k s"
| "andthen (Stopped e s) k = Stopped e s"

fun state_of :: "('e, 's) outcome \<Rightarrow> 's" where
  "state_of (Running s) = s"
| "state_of (Stopped e s) = s"

fun running :: "('e, 's) outcome \<Rightarrow> bool" where
  "running (Running s) = True"
| "running (Stopped e s) = False"

lemma andthen_eq_Running:
  "andthen m k = Running t \<longleftrightarrow> (\<exists>s. m = Running s \<and> k s = Running t)"
  by (cases m) auto

lemma andthen_eq_Stopped:
  "andthen m k = Stopped e t \<longleftrightarrow> m = Stopped e t \<or> (\<exists>s. m = Running s \<and> k s = Stopped e t)"
  by (cases m) auto

lemma running_iff: "running m \<longleftrightarrow> (\<exists>s. m = Running s)"
  by (cases m) auto

section \<open>Decimal text\<close>

text \<open>What \<open>operator<<\<close> prints for an integer.\<close>

definition digit_char :: "nat \<Rightarrow> char" where
  "digit_char d = char_of (48 + d)"

fun show_nat :: "nat \<Rightarrow> string" where
  "show_nat n = (if n < 10 then [digit_char n] else show_nat (n div 10) @ [digit_char (n mod 10)])"

declare show_nat.simps [simp del]

definition show_int :: "int \<Rightarrow> string" where
  "show_int i = (if i < 0 then CHR ''-'' # show_nat (nat (- i)) else show_nat (nat i))"

definition read_digit :: "char \<Rightarrow> nat" where
  "read_digit c = of_char c - 48"

definition read_nat :: "string \<Rightarrow> nat" where
  "read_nat s = foldl (\<lambda>n c. 10 * n + read_digit c) 0 s"

lemma read_digit_char: "d < 10 \<Longrightarrow> read_digit (digit_char d) = d"
  by (simp add: read_digit_def digit_char_def)

lemma read_show_nat: "read_nat (show_nat n) = n"
proof (induction n rule: show_nat.induct)
  case (1 n)
  show ?case
  proof (cases "n < 10")
    case True
    then show ?thesis by (simp add: show_nat.simps [of n] read_nat_def read_digit_char)
  next
    case False
    with 1 have "foldl (\<lambda>n c. 10 * n + read_digit c) 0 (show_nat (n div 10)) = n div 10"
      by (simp add: read_nat_def)
    with False show ?thesis
      by (simp add: show_nat.simps [of n] read_nat_def read_digit_char)
  qed
qed

definition is_digit :: "char \<Rightarrow> bool" where
  "is_digit c \<longleftrightarrow> 48 \<le> (of_char c :: nat) \<and> (of_char c :: nat) \<le> 57"

lemma is_digit_char: "d < 10 \<Longrightarrow> is_digit (digit_char d)"
  by (simp add: is_digit_def digit_char_def)

lemma show_nat_digits: "\<forall>c \<in> set (show_nat n). is_digit c"
proof (induction n rule: show_nat.induct)
  case (1 n)
  then show ?case
    by (cases "n < 10") (auto simp: show_nat.simps [of n] is_digit_char)
qed

lemma show_nat_nonempty: "show_nat n \<noteq> []"
  by (simp add: show_nat.simps)

section \<open>Machine integers\<close>

type_synonym u8 = "8 word"
type_synonym u16 = "16 word"
type_synonym u32 = "32 word"
type_synonym u64 = "64 word"
type_synonym c_int = "32 word"

abbreviation int64_max :: int where "int64_max \<equiv> 9223372036854775807"
abbreviation int64_min :: int where "int64_min \<equiv> - 9223372036854775808"

definition in_int64 :: "int \<Rightarrow> bool" where
  "in_int64 n \<longleftrightarrow> int64_min \<le> n \<and> n \<le> int64_max"

text \<open>An \<open>int64_t\<close> computation: a result outside the type is a signed overflow.\<close>

definition i64 :: "int \<Rightarrow> int res" where
  "i64 n = guardr SignedOverflow (in_int64 n) (Inr n)"

lemma i64_eq_Inr [simp, res_simps]: "i64 n = Inr m \<longleftrightarrow> in_int64 n \<and> m = n"
  by (auto simp: i64_def)

lemma i64_ok: "in_int64 n \<Longrightarrow> i64 n = Inr n"
  by simp

section \<open>Words\<close>

lemma uint_minus_word:
  fixes a b :: "'w::len word"
  shows "uint (a - b) = (uint a - uint b) mod 2 ^ LENGTH('w)"
  by (simp add: uint_word_ariths)

lemma uint_lt_power: "uint (a :: 'w::len word) < 2 ^ LENGTH('w)"
  by (rule uint_lt2p)

lemma two_power_half:
  "0 < n \<Longrightarrow> (2::int) ^ n = 2 * 2 ^ (n - 1)"
  by (cases n) auto

lemma half_power_div: "0 < n \<Longrightarrow> (2::int) ^ n div 2 = 2 ^ (n - 1)"
  by (simp add: two_power_half)

section \<open>Modular distances\<close>

lemma mod_diff_cases:
  fixes a b m :: int
  assumes "0 \<le> a" "a < m" "0 \<le> b" "b < m"
  shows "(b - a) mod m = (if a \<le> b then b - a else m - (a - b))"
proof (cases "a \<le> b")
  case True
  then show ?thesis using assms by simp
next
  case False
  then have "(b - a) mod m = (b - a + m) mod m" by simp
  also have "\<dots> = b - a + m" using False assms by (intro mod_pos_pos_trivial) auto
  finally show ?thesis using False by simp
qed

lemma mod_add_small:
  fixes d m x :: int
  assumes "0 \<le> d" "d < m"
  shows "((x + d) mod m - x mod m) mod m = d"
proof -
  have "((x + d) mod m - x mod m) mod m = (x + d - x) mod m"
    by (rule mod_diff_eq)
  then show ?thesis using assms by simp
qed

end
