(* ===== verification/ModOps.thy ===== *)
theory ModOps
  imports Prelude
begin

unbundle bit_operations_syntax

text \<open>
  Arithmetic on wrapping numbers, rtc_base/numerics/mod_ops.h. An unsigned template type \<open>T\<close> is a
  word type, the template value \<open>M\<close> an argument; the two \<open>enable_if\<close> overloads of a function are
  the two branches of one definition. The lemmas relate each function to the distance
  \<open>(y - x) mod M\<close> on the integers.
\<close>

section \<open>Definitions\<close>

definition Add :: "u64 \<Rightarrow> u64 \<Rightarrow> u64 \<Rightarrow> u64 res" where
  "Add M a b =
     dcheck (a < M)
       (let t = M - b mod M; r = a - t
        in Inr (if t > a then r + M else r))"

definition Subtract :: "u64 \<Rightarrow> u64 \<Rightarrow> u64 \<Rightarrow> u64 res" where
  "Subtract M a b =
     dcheck (a < M)
       (let sub = b mod M
        in Inr (if a < sub then M - (sub - a) else a - sub))"

definition ForwardDiff :: "'w::len word \<Rightarrow> 'w word \<Rightarrow> 'w word \<Rightarrow> 'w word res" where
  "ForwardDiff M a b =
     (if M > 0
      then dcheck (a < M) (dcheck (b < M) (Inr (if a \<le> b then b - a else M - (a - b))))
      else Inr (b - a))"

definition ReverseDiff :: "'w::len word \<Rightarrow> 'w word \<Rightarrow> 'w word \<Rightarrow> 'w word res" where
  "ReverseDiff M a b =
     (if M > 0
      then dcheck (a < M) (dcheck (b < M) (Inr (if b \<le> a then a - b else M - (b - a))))
      else Inr (a - b))"

definition MinDiff :: "'w::len word \<Rightarrow> 'w word \<Rightarrow> 'w word \<Rightarrow> 'w word res" where
  "MinDiff M a b =
     rbind (ForwardDiff M a b) (\<lambda>f. rbind (ReverseDiff M a b) (\<lambda>r. Inr (min f r)))"

section \<open>The modulus as an integer and the specification distance\<close>

text \<open>\<open>M = 0\<close> stands for the number of values of the type.\<close>

definition modulus :: "'w::len word \<Rightarrow> int" where
  "modulus M = (if M > 0 then uint M else 2 ^ LENGTH('w))"

definition dist :: "int \<Rightarrow> int \<Rightarrow> int \<Rightarrow> int" where
  "dist m x y = (y - x) mod m"

definition in_range :: "'w::len word \<Rightarrow> 'w word \<Rightarrow> bool" where
  "in_range M a \<longleftrightarrow> (M > 0 \<longrightarrow> a < M)"

lemma modulus_pos [simp]: "0 < modulus M"
  by (auto simp: modulus_def word_less_def)

lemma uint_lt_modulus: "in_range M a \<Longrightarrow> uint a < modulus M"
  by (auto simp: in_range_def modulus_def word_less_def intro: uint_lt_power)

lemma modulus_le: "modulus (M :: 'w::len word) \<le> 2 ^ LENGTH('w)"
  by (auto simp: modulus_def intro: less_imp_le uint_lt_power)

lemma dist_bounds: "0 < m \<Longrightarrow> 0 \<le> dist m x y \<and> dist m x y < m"
  by (simp add: dist_def)

lemma dist_self [simp]: "dist m x x = 0"
  by (simp add: dist_def)

lemma dist_cases:
  assumes "0 \<le> x" "x < m" "0 \<le> y" "y < m"
  shows "dist m x y = (if x \<le> y then y - x else m - (x - y))"
  unfolding dist_def by (rule mod_diff_cases) (use assms in auto)

lemma dist_sum:
  assumes "0 \<le> x" "x < m" "0 \<le> y" "y < m" "x \<noteq> y"
  shows "dist m x y + dist m y x = m"
  using assms by (simp add: dist_cases)

section \<open>What the functions compute\<close>

lemma uint_sub_le: "b \<le> a \<Longrightarrow> uint (a - b) = uint a - uint (b :: 'w::len word)"
  by (simp add: uint_minus_simple_alt word_le_def)

lemma uint_wrap_sub:
  fixes a b M :: "'w::len word"
  assumes "b < M" "a < b"
  shows "uint (M - (b - a)) = uint M - (uint b - uint a)"
proof -
  have ba: "uint (b - a) = uint b - uint a"
    using assms by (intro uint_sub_le) simp
  have "uint b - uint a \<le> uint M"
    using assms uint_ge_0 [of a] unfolding word_less_def by linarith
  then have "b - a \<le> M" by (simp add: word_le_def ba)
  then show ?thesis by (simp add: uint_sub_le ba)
qed

lemma ForwardDiff_ok:
  assumes "in_range M a" "in_range M b"
  shows "\<exists>d. ForwardDiff M a b = Inr d \<and> uint d = dist (modulus M) (uint a) (uint b)"
proof (cases "M > 0")
  case True
  with assms have lt: "a < M" "b < M" by (auto simp: in_range_def)
  have d: "dist (uint M) (uint a) (uint b) =
      (if uint a \<le> uint b then uint b - uint a else uint M - (uint a - uint b))"
    by (rule dist_cases) (use lt in \<open>auto simp: word_less_def\<close>)
  show ?thesis
  proof (cases "a \<le> b")
    case le: True
    then show ?thesis using True lt d
      by (simp add: ForwardDiff_def modulus_def uint_sub_le word_le_def)
  next
    case False
    then have "b < a" by simp
    with lt(1) have "uint (M - (a - b)) = uint M - (uint a - uint b)"
      by (rule uint_wrap_sub)
    then show ?thesis using True lt d False
      by (simp add: ForwardDiff_def modulus_def word_le_def)
  qed
next
  case False
  then show ?thesis
    by (simp add: ForwardDiff_def modulus_def dist_def uint_minus_word)
qed

lemma ReverseDiff_swap: "in_range M a \<Longrightarrow> in_range M b \<Longrightarrow> ReverseDiff M a b = ForwardDiff M b a"
  by (auto simp: ReverseDiff_def ForwardDiff_def in_range_def)

lemma ReverseDiff_ok:
  assumes "in_range M a" "in_range M b"
  shows "\<exists>d. ReverseDiff M a b = Inr d \<and> uint d = dist (modulus M) (uint b) (uint a)"
  using ForwardDiff_ok [OF assms(2,1)] assms by (simp add: ReverseDiff_swap)

lemma uint_min: "uint (min a b) = min (uint a) (uint (b :: 'w::len word))"
  by (simp add: min_def word_le_def)

lemma MinDiff_ok:
  assumes "in_range M a" "in_range M b"
  shows "\<exists>d. MinDiff M a b = Inr d \<and>
    uint d = min (dist (modulus M) (uint a) (uint b)) (dist (modulus M) (uint b) (uint a))"
proof -
  obtain f where f: "ForwardDiff M a b = Inr f" "uint f = dist (modulus M) (uint a) (uint b)"
    using ForwardDiff_ok [OF assms] by blast
  obtain r where r: "ReverseDiff M a b = Inr r" "uint r = dist (modulus M) (uint b) (uint a)"
    using ReverseDiff_ok [OF assms] by blast
  show ?thesis using f r by (simp add: MinDiff_def uint_min)
qed

lemma Subtract_ok:
  assumes "a < M"
  shows "\<exists>d. Subtract M a b = Inr d \<and> uint d = (uint a - uint b) mod uint M"
proof -
  have M: "0 < uint M" using assms by (metis uint_ge_0 le_less_trans word_less_def)
  have sub: "uint (b mod M) = uint b mod uint M" by (rule uint_mod)
  have lt: "b mod M < M" using M by (simp add: word_less_def sub)
  have "(uint a - uint b) mod uint M = (uint a - uint (b mod M)) mod uint M"
    by (simp add: sub mod_diff_right_eq)
  also have "\<dots> = (if uint (b mod M) \<le> uint a then uint a - uint (b mod M)
      else uint M - (uint (b mod M) - uint a))"
    by (rule mod_diff_cases) (use assms lt in \<open>auto simp: word_less_def\<close>)
  finally have spec: "(uint a - uint b) mod uint M = \<dots>" .
  show ?thesis
  proof (cases "a < b mod M")
    case True
    with lt have "uint (M - (b mod M - a)) = uint M - (uint (b mod M) - uint a)"
      by (rule uint_wrap_sub)
    with True show ?thesis using assms
      by (simp add: Subtract_def Let_def spec) (simp add: word_less_def)
  next
    case False
    then have "b mod M \<le> a" by simp
    then have "uint (a - b mod M) = uint a - uint (b mod M)" by (rule uint_sub_le)
    with False show ?thesis using assms
      by (simp add: Subtract_def Let_def spec) (simp add: word_less_def)
  qed
qed

text \<open>
  \<open>Add\<close> never forms \<open>a + b\<close>, which may not fit 64 bits: it subtracts the complement of \<open>b\<close>.
\<close>

lemma Add_ok:
  assumes "a < M"
  shows "\<exists>d. Add M a b = Inr d \<and> uint d = (uint a + uint b) mod uint M"
proof -
  have M: "0 < uint M" using assms by (metis uint_ge_0 le_less_trans word_less_def)
  define t where "t = M - b mod M"
  have sub: "uint (b mod M) = uint b mod uint M" by (rule uint_mod)
  have le: "b mod M \<le> M" using M by (simp add: word_le_def sub less_imp_le)
  have t: "uint t = uint M - uint b mod uint M"
    using uint_sub_le [OF le] by (simp add: t_def sub)
  have tM: "t \<le> M" using M by (simp add: word_le_def t)
  have "uint a - uint t = uint a + uint b mod uint M - uint M" by (simp add: t)
  then have spec: "(uint a + uint b) mod uint M = (uint a - uint t) mod uint M"
    by (simp only:) (simp add: mod_add_right_eq)
  have A: "Add M a b = Inr (if t > a then a - t + M else a - t)"
    using assms by (simp add: Add_def Let_def t_def)
  show ?thesis
  proof (cases "t > a")
    case True
    then have "Add M a b = Inr (M - (t - a))" by (simp add: A)
    moreover have "uint (M - (t - a)) = uint M - (uint t - uint a)"
    proof -
      have ta: "uint (t - a) = uint t - uint a" using True by (intro uint_sub_le) simp
      have "uint t - uint a \<le> uint M"
        using tM uint_ge_0 [of a] unfolding word_le_def by linarith
      then have "t - a \<le> M" by (simp add: word_le_def ta)
      then show ?thesis by (simp add: uint_sub_le ta)
    qed
    moreover have "(uint a - uint t) mod uint M = uint M - (uint t - uint a)"
    proof -
      have "(uint a - uint t) mod uint M = (uint a - uint t + uint M) mod uint M" by simp
      also have "\<dots> = uint a - uint t + uint M"
      proof (rule mod_pos_pos_trivial)
        show "0 \<le> uint a - uint t + uint M"
          using tM uint_ge_0 [of a] unfolding word_le_def by linarith
        show "uint a - uint t + uint M < uint M"
          using True by (simp add: word_less_def)
      qed
      finally show ?thesis by simp
    qed
    ultimately show ?thesis by (simp add: spec)
  next
    case False
    then have "t \<le> a" by simp
    then have "uint (a - t) = uint a - uint t" by (rule uint_sub_le)
    moreover have "(uint a - uint t) mod uint M = uint a - uint t"
    proof (rule mod_pos_pos_trivial)
      show "0 \<le> uint a - uint t" using \<open>t \<le> a\<close> by (simp add: word_le_def)
      show "uint a - uint t < uint M"
        using assms uint_ge_0 [of t] unfolding word_less_def by linarith
    qed
    moreover have "Add M a b = Inr (a - t)" using False by (simp add: A)
    ultimately show ?thesis by (simp add: spec)
  qed
qed

end
