(* ===== verification/UnwrapSpec.thy ===== *)
theory UnwrapSpec
  imports Prelude
begin

text \<open>
  The contract of an unwrapper, an object that is fed the wrapped numbers of a stream and returns
  positions: from a state that stands at position \<open>p\<close>, the number carried by an admissible next
  position \<open>q\<close> is unwrapped to \<open>q\<close> itself, and the object then stands at \<open>q\<close>. The lemma of the
  locale lifts the contract to whole streams.
\<close>

fun successive :: "('a \<Rightarrow> 'a \<Rightarrow> bool) \<Rightarrow> 'a \<Rightarrow> 'a list \<Rightarrow> bool" where
  "successive r p [] = True"
| "successive r p (q # qs) = (r p q \<and> successive r q qs)"

locale unwrapper =
  fixes unwrap :: "'s \<Rightarrow> 'v \<Rightarrow> (int \<times> 's) res"
    and stands_at :: "'s \<Rightarrow> int \<Rightarrow> bool"
    and wrap :: "int \<Rightarrow> 'v"
    and admissible :: "int \<Rightarrow> int \<Rightarrow> bool"
  assumes unwrap_admissible:
    "stands_at s p \<Longrightarrow> admissible p q \<Longrightarrow> \<exists>s'. unwrap s (wrap q) = Inr (q, s') \<and> stands_at s' q"
begin

lemma unwrap_stream:
  "stands_at s p \<Longrightarrow> successive admissible p qs \<Longrightarrow>
    \<exists>s'. run_list unwrap s (map wrap qs) = Inr (qs, s')"
proof (induction qs arbitrary: s p)
  case Nil
  then show ?case by simp
next
  case (Cons q qs)
  then obtain s1 where "unwrap s (wrap q) = Inr (q, s1)" "stands_at s1 q"
    using unwrap_admissible [of s p q] by auto
  moreover from this Cons obtain s2 where "run_list unwrap s1 (map wrap qs) = Inr (qs, s2)"
    by fastforce
  ultimately show ?case by simp
qed

end

end
