(* ===== verification/SeqNum.thy ===== *)
theory SeqNum
  imports ModOps UnwrapSpec
begin

text \<open>
  Wrapping sequence numbers, rtc_base/numerics/sequence_number_util.h: which of two numbers is
  ahead, the comparators built on it, and the unwrapper that turns a stream of wrapping numbers
  into 64-bit positions. \<open>dist\<close> of the theory on modular distances is the specification.
\<close>

section \<open>Definitions\<close>

text \<open>
  \<open>a - b\<close> in C++ for an unsigned type: a type narrower than \<open>int\<close> is promoted first, so the
  difference is a signed integer; a wider type wraps around.
\<close>

definition promoted_diff :: "'w::len word \<Rightarrow> 'w word \<Rightarrow> int" where
  "promoted_diff a b = (if LENGTH('w) < 32 then uint a - uint b else uint (a - b))"

definition AheadOrAt :: "'w::len word \<Rightarrow> 'w word \<Rightarrow> 'w word \<Rightarrow> bool res" where
  "AheadOrAt M a b =
     (if M > 0
      then (let maxDist = M div 2
            in rbind (if M AND 1 = 0 then rbind (MinDiff M a b) (\<lambda>d. Inr (d = maxDist)) else Inr False)
                 (\<lambda>tie. if tie then Inr (b < a)
                        else rbind (ForwardDiff M b a) (\<lambda>d. Inr (d \<le> maxDist))))
      else (let maxDist = (- 1 :: 'w word) div 2 + 1
            in if promoted_diff a b = uint maxDist then Inr (b < a)
               else rbind (ForwardDiff 0 b a) (\<lambda>d. Inr (d < maxDist))))"

definition AheadOf :: "'w::len word \<Rightarrow> 'w word \<Rightarrow> 'w word \<Rightarrow> bool res" where
  "AheadOf M a b = (if a \<noteq> b then AheadOrAt M a b else Inr False)"

definition AscendingSeqNumComp :: "'w::len word \<Rightarrow> 'w word \<Rightarrow> 'w word \<Rightarrow> bool res" where
  "AscendingSeqNumComp M a b = AheadOf M a b"

definition DescendingSeqNumComp :: "'w::len word \<Rightarrow> 'w word \<Rightarrow> 'w word \<Rightarrow> bool res" where
  "DescendingSeqNumComp M a b = AheadOf M b a"

record 't seq_num_unwrapper =
  last_unwrapped :: int
  last_value :: "'t option"

definition SeqNumUnwrapper_init :: "'w::len word seq_num_unwrapper" where
  "SeqNumUnwrapper_init = \<lparr>last_unwrapped = 0, last_value = None\<rparr>"

definition Unwrap ::
  "'w::len word \<Rightarrow> 'w word seq_num_unwrapper \<Rightarrow> 'w word \<Rightarrow> (int \<times> 'w word seq_num_unwrapper) res" where
  "Unwrap M u value =
     rbind
       (case last_value u of
          None \<Rightarrow> i64 (uint value)
        | Some l \<Rightarrow>
            rbind (ForwardDiff M l value) (\<lambda>d.
            rbind (i64 (last_unwrapped u + uint d)) (\<lambda>n.
            rbind (AheadOrAt M value l) (\<lambda>ahead.
            if \<not> ahead
            then i64 (n - (if M = 0 then uint (- 1 :: 'w word) + 1 else uint M))
            else Inr n))))
       (\<lambda>n. Inr (n, u\<lparr>last_unwrapped := n, last_value := Some value\<rparr>))"

section \<open>Which number is ahead\<close>

text \<open>
  \<open>a\<close> is at most half the modulus in front of \<open>b\<close>; at exactly half, the larger number is ahead.
\<close>

definition ahead_spec :: "int \<Rightarrow> int \<Rightarrow> int \<Rightarrow> bool" where
  "ahead_spec m x y \<longleftrightarrow>
     (if 2 * dist m y x = m then y < x else 2 * dist m y x < m)"

lemma uint_div_2:
  "1 < LENGTH('w) \<Longrightarrow> uint (a div 2 :: 'w::len word) = uint a div 2"
  by (simp add: uint_div)

lemma uint_minus_1: "uint (- 1 :: 'w::len word) = 2 ^ LENGTH('w) - 1"
  by (simp add: unsigned_minus_1_eq_mask mask_eq_exp_minus_1)

lemma half_max_word:
  assumes "1 < LENGTH('w)"
  shows "uint ((- 1 :: 'w::len word) div 2 + 1) = 2 ^ (LENGTH('w) - 1)"
proof -
  have h: "(2::int) ^ LENGTH('w) = 2 * 2 ^ (LENGTH('w) - 1)" by (rule two_power_half) simp
  have "uint ((- 1 :: 'w word) div 2) = uint (- 1 :: 'w word) div 2"
    by (rule uint_div_2 [OF assms])
  also have "\<dots> = (2 * 2 ^ (LENGTH('w) - 1) - 1) div 2"
    by (simp only: uint_minus_1 h)
  also have "\<dots> = 2 ^ (LENGTH('w) - 1) - 1" by simp
  finally have "uint ((- 1 :: 'w word) div 2) = 2 ^ (LENGTH('w) - 1) - 1" .
  then have "uint ((- 1 :: 'w word) div 2 + 1) = 2 ^ (LENGTH('w) - 1) mod 2 ^ LENGTH('w)"
    by (simp add: uint_word_ariths)
  then show ?thesis by (simp add: h)
qed

lemma and_1_eq_0: "(M :: 'w::len word) AND 1 = 0 \<longleftrightarrow> even (uint M)"
proof -
  have "odd (uint M) \<longleftrightarrow> bit M 0" by (simp only: bit_0 [symmetric] bit_uint_iff) simp
  then show ?thesis by (simp add: and_one_eq mod_2_eq_odd bit_0)
qed

lemma tie_arith:
  fixes f b m :: int
  assumes "0 < m" "f + b = (if c then 0 else m)" "0 \<le> f" "0 \<le> b"
  shows "even m \<and> min b f = m div 2 \<longleftrightarrow> 2 * f = m"
  using assms by (cases c; simp add: min_def; presburger)

lemma AheadOrAt_spec_pos:
  fixes M :: "'w::len word"
  assumes w: "1 < LENGTH('w)" and M: "M > 0" and r: "in_range M a" "in_range M b"
  shows "AheadOrAt M a b = Inr (ahead_spec (modulus M) (uint a) (uint b))"
proof -
  let ?m = "modulus M" and ?fwd = "dist (modulus M) (uint b) (uint a)"
    and ?bwd = "dist (modulus M) (uint a) (uint b)"
  obtain d where d: "MinDiff M a b = Inr d" "uint d = min ?bwd ?fwd"
    using MinDiff_ok [OF r] by blast
  obtain f where f: "ForwardDiff M b a = Inr f" "uint f = ?fwd"
    using ForwardDiff_ok [OF r(2,1)] by blast
  have m: "?m = uint M" using M by (simp add: modulus_def)
  have half: "uint (M div 2) = ?m div 2" using w by (simp add: uint_div_2 m)
  have "?fwd + ?bwd = (if uint a = uint b then 0 else ?m)"
    using r dist_sum [of "uint a" ?m "uint b"] by (auto simp: uint_lt_modulus)
  then have tie: "even ?m \<and> min ?bwd ?fwd = ?m div 2 \<longleftrightarrow> 2 * ?fwd = ?m"
    by (intro tie_arith) (auto simp: dist_bounds)
  have dd: "d = M div 2 \<longleftrightarrow> min ?bwd ?fwd = ?m div 2"
    by (metis d(2) half word_uint_eq_iff)
  have "AheadOrAt M a b =
      Inr (if even ?m \<and> min ?bwd ?fwd = ?m div 2 then b < a else ?fwd \<le> ?m div 2)"
    using M by (simp add: AheadOrAt_def d f dd and_1_eq_0 m [symmetric] word_le_def half Let_def)
  then show ?thesis
    unfolding tie by (auto simp: ahead_spec_def word_less_def)
qed


lemma AheadOrAt_spec_zero:
  fixes a b :: "'w::len word"
  assumes w: "1 < LENGTH('w)"
  shows "AheadOrAt 0 a b = Inr (ahead_spec (2 ^ LENGTH('w)) (uint a) (uint b))"
proof -
  let ?m = "2 ^ LENGTH('w) :: int" and ?h = "2 ^ (LENGTH('w) - 1) :: int"
  let ?fwd = "dist ?m (uint b) (uint a)"
  have m: "?m = 2 * ?h" by (rule two_power_half) simp
  define H where "H = (- 1 :: 'w word) div 2 + 1"
  have half: "uint H = ?h" unfolding H_def by (rule half_max_word [OF w])
  have f: "uint (a - b) = ?fwd" by (simp add: dist_def uint_minus_word)
  have fwd: "?fwd = (if uint b \<le> uint a then uint a - uint b else ?m - (uint b - uint a))"
    by (rule dist_cases) (auto intro: uint_lt_power)
  have A: "AheadOrAt 0 a b =
      Inr (if promoted_diff a b = ?h then b < a else ?fwd < ?h)"
    unfolding AheadOrAt_def Let_def H_def [symmetric]
    by (simp add: ForwardDiff_def word_less_def half f)
  show ?thesis
  proof (cases "LENGTH('w) < 32")
    case True
    then have "promoted_diff a b = uint a - uint b" by (simp add: promoted_diff_def)
    then show ?thesis using fwd m
      by (auto simp: A ahead_spec_def word_less_def split: if_splits)
  next
    case False
    then have "promoted_diff a b = ?fwd" by (simp add: promoted_diff_def f)
    then show ?thesis using m by (auto simp: A ahead_spec_def word_less_def)
  qed
qed

text \<open>Both overloads compute the same relation; the promotion to \<open>int\<close> makes no difference.\<close>

lemma AheadOrAt_spec:
  fixes M :: "'w::len word"
  assumes "1 < LENGTH('w)" "in_range M a" "in_range M b"
  shows "AheadOrAt M a b = Inr (ahead_spec (modulus M) (uint a) (uint b))"
proof (cases "M > 0")
  case True
  then show ?thesis using assms by (simp add: AheadOrAt_spec_pos)
next
  case False
  then have "M = 0" by (simp add: word_greater_zero_iff)
  then show ?thesis using assms AheadOrAt_spec_zero [of a b] by (simp add: modulus_def)
qed

lemma AheadOf_spec:
  fixes M :: "'w::len word"
  assumes "1 < LENGTH('w)" "in_range M a" "in_range M b"
  shows "AheadOf M a b = Inr (a \<noteq> b \<and> ahead_spec (modulus M) (uint a) (uint b))"
  using assms by (simp add: AheadOf_def AheadOrAt_spec)

section \<open>The order on a window\<close>

lemma ahead_spec_total:
  assumes "0 \<le> x" "x < m" "0 \<le> y" "y < m" "x \<noteq> y"
  shows "ahead_spec m x y \<longleftrightarrow> \<not> ahead_spec m y x"
  using dist_sum [OF assms] assms by (auto simp: ahead_spec_def)

text \<open>
  Positions of a window of fewer than half the modulus, reduced: the relation is the order of
  the positions.
\<close>

lemma dist_mod: "0 < m \<Longrightarrow> dist m (x mod m) (y mod m) = (y - x) mod m"
  by (simp add: dist_def mod_diff_eq)

lemma ahead_spec_window:
  assumes m: "0 < m" and "2 * \<bar>x - y\<bar> < m"
  shows "ahead_spec m (x mod m) (y mod m) \<longleftrightarrow> y \<le> x"
proof (cases "y \<le> x")
  case True
  with assms have "dist m (y mod m) (x mod m) = x - y" by (simp add: dist_mod)
  then show ?thesis using assms True by (simp add: ahead_spec_def)
next
  case False
  have "(x - y) mod m = (x - y + m) mod m" by simp
  also have "\<dots> = x - y + m" using assms False by (intro mod_pos_pos_trivial) auto
  finally have "dist m (y mod m) (x mod m) = x - y + m" using m by (simp add: dist_mod)
  then show ?thesis using assms False by (simp add: ahead_spec_def)
qed

section \<open>Unwrapping\<close>

lemma kBackwardAdjustment: "(if M = 0 then uint (- 1 :: 'w::len word) + 1 else uint M) = modulus (M :: 'w word)"
  by (auto simp: modulus_def uint_minus_1 word_greater_zero_iff)

definition unwrap_next :: "int \<Rightarrow> int \<Rightarrow> int \<Rightarrow> int \<Rightarrow> int" where
  "unwrap_next m last_u l v = last_u + dist m l v - (if ahead_spec m v l then 0 else m)"

lemma Unwrap_first:
  "LENGTH('w) < 64 \<Longrightarrow> last_value u = None \<Longrightarrow>
    Unwrap M u (v :: 'w::len word) = Inr (uint v, u\<lparr>last_unwrapped := uint v, last_value := Some v\<rparr>)"
proof -
  assume "LENGTH('w) < 64"
  then have "(2::int) ^ LENGTH('w) \<le> 2 ^ 63" by (intro power_increasing) auto
  then have "(2::int) ^ LENGTH('w) \<le> 9223372036854775808" by simp
  then have "in_int64 (uint v)"
    using uint_lt_power [of v] uint_ge_0 [of v] unfolding in_int64_def by (intro conjI; linarith)
  then show "last_value u = None \<Longrightarrow> ?thesis" by (simp add: Unwrap_def i64_ok)
qed

lemma Unwrap_next_value:
  fixes M :: "'w::len word"
  assumes "1 < LENGTH('w)" "in_range M l" "in_range M v" "last_value u = Some l"
    "in_int64 (last_unwrapped u + dist (modulus M) (uint l) (uint v))"
    "in_int64 (unwrap_next (modulus M) (last_unwrapped u) (uint l) (uint v))"
  shows "Unwrap M u v =
    (let n = unwrap_next (modulus M) (last_unwrapped u) (uint l) (uint v)
     in Inr (n, u\<lparr>last_unwrapped := n, last_value := Some v\<rparr>))"
proof -
  obtain d where d: "ForwardDiff M l v = Inr d" "uint d = dist (modulus M) (uint l) (uint v)"
    using ForwardDiff_ok [OF assms(2,3)] by blast
  show ?thesis
    using assms by (auto simp: Unwrap_def d AheadOrAt_spec kBackwardAdjustment unwrap_next_def
        i64_ok Let_def)
qed


definition wrap_number :: "'w::len word \<Rightarrow> int \<Rightarrow> 'w word" where
  "wrap_number M q = word_of_int (q mod modulus M)"

definition unwrapper_at :: "'w::len word \<Rightarrow> 'w word seq_num_unwrapper \<Rightarrow> int \<Rightarrow> bool" where
  "unwrapper_at M u p \<longleftrightarrow> last_unwrapped u = p \<and> last_value u = Some (wrap_number M p)"

definition near :: "int \<Rightarrow> int \<Rightarrow> int \<Rightarrow> bool" where
  "near m p q \<longleftrightarrow> 2 * \<bar>q - p\<bar> < m \<and> int64_min \<le> q \<and> q + m \<le> int64_max"

lemma uint_wrap_number: "uint (wrap_number M q) = q mod modulus M"
proof -
  have "q mod modulus M < 2 ^ LENGTH('a)"
    using modulus_le [of M] pos_mod_bound [OF modulus_pos [of M], of q] by linarith
  then show ?thesis by (simp add: wrap_number_def uint_word_of_int)
qed

lemma in_range_wrap_number: "in_range M (wrap_number M q)"
proof (cases "M > 0")
  case True
  then have "modulus M = uint M" by (simp add: modulus_def)
  then show ?thesis
    using pos_mod_bound [OF modulus_pos [of M], of q]
    by (simp add: in_range_def word_less_def uint_wrap_number)
qed (simp add: in_range_def)

lemma unwrap_next_near:
  assumes "0 < m" "2 * \<bar>q - p\<bar> < m"
  shows "unwrap_next m p (p mod m) (q mod m) = q"
    and "p + dist m (p mod m) (q mod m) = (if p \<le> q then q else q + m)"
proof -
  have a: "ahead_spec m (q mod m) (p mod m) \<longleftrightarrow> p \<le> q"
    using assms by (intro ahead_spec_window) auto
  have "(q - p) mod m = (if p \<le> q then q - p else q - p + m)"
  proof (cases "p \<le> q")
    case False
    have "(q - p) mod m = (q - p + m) mod m" by simp
    also have "\<dots> = q - p + m" using False assms by (intro mod_pos_pos_trivial) auto
    finally show ?thesis using False by simp
  qed (use assms in simp)
  then have d: "dist m (p mod m) (q mod m) = (if p \<le> q then q - p else q - p + m)"
    using assms(1) by (simp add: dist_mod)
  show "unwrap_next m p (p mod m) (q mod m) = q" by (simp add: unwrap_next_def a d)
  show "p + dist m (p mod m) (q mod m) = (if p \<le> q then q else q + m)" by (simp add: d)
qed

lemma Unwrap_near:
  fixes M :: "'w::len word"
  assumes w: "1 < LENGTH('w)" and at: "unwrapper_at M u p" and n: "near (modulus M) p q"
  shows "\<exists>u'. Unwrap M u (wrap_number M q) = Inr (q, u') \<and> unwrapper_at M u' q"
proof -
  let ?m = "modulus M"
  have n': "2 * \<bar>q - p\<bar> < ?m" and b: "int64_min \<le> q" "q + ?m \<le> int64_max"
    using n by (auto simp: near_def)
  have m: "0 < ?m" by (rule modulus_pos)
  have q: "in_int64 q" "in_int64 (q + ?m)"
    unfolding in_int64_def using b m by (intro conjI; linarith)+
  note next_q = unwrap_next_near [OF modulus_pos n']
  have "Unwrap M u (wrap_number M q) =
      (let n = unwrap_next ?m (last_unwrapped u) (uint (wrap_number M p)) (uint (wrap_number M q))
       in Inr (n, u\<lparr>last_unwrapped := n, last_value := Some (wrap_number M q)\<rparr>))"
    using w at q by (intro Unwrap_next_value)
      (auto simp: in_range_wrap_number unwrapper_at_def uint_wrap_number next_q)
  then show ?thesis
    using at by (simp add: uint_wrap_number next_q unwrapper_at_def Let_def)
qed

interpretation snu16: unwrapper "Unwrap (M :: u16)" "unwrapper_at M" "wrap_number M" "near (modulus M)"
  for M
  by unfold_locales (rule Unwrap_near; simp)

interpretation snu8: unwrapper "Unwrap (M :: u8)" "unwrapper_at M" "wrap_number M" "near (modulus M)"
  for M
  by unfold_locales (rule Unwrap_near; simp)

interpretation snu32: unwrapper "Unwrap (M :: u32)" "unwrapper_at M" "wrap_number M" "near (modulus M)"
  for M
  by unfold_locales (rule Unwrap_near; simp)


section \<open>Properties\<close>

text \<open>
  C19. Sequence numbers are compared correctly across the wrap: for any modulus \<open>M\<close> (0 for the whole
  range of the type), the numbers carried by two positions less than half the modulus apart are
  ordered by \<open>AheadOf\<close> as the positions are, without failing a check.
\<close>

theorem AheadOf_window_order:
  fixes M :: "'w::len word"
  assumes "1 < LENGTH('w)" and "2 * \<bar>x - y\<bar> < modulus M"
  shows "AheadOf M (wrap_number M x) (wrap_number M y) = Inr (y < x)"
proof -
  have "wrap_number M x = wrap_number M y \<longleftrightarrow> x = y"
  proof
    assume "wrap_number M x = wrap_number M y"
    then have "x mod modulus M = y mod modulus M" by (metis uint_wrap_number)
    then have "modulus M dvd x - y" by (simp add: mod_eq_dvd_iff)
    then show "x = y" using assms(2) dvd_imp_le_int [of "x - y" "modulus M"] by fastforce
  qed simp
  then show ?thesis
    using assms ahead_spec_window [of "modulus M" x y]
    by (auto simp: AheadOf_spec in_range_wrap_number uint_wrap_number)
qed

theorem AheadOf_window_order_witness:
  "AheadOf (0 :: u16) (wrap_number 0 65540) (wrap_number 0 65530) = Inr True"
  using AheadOf_window_order [of 65540 65530 "0 :: u16"] by (simp add: modulus_def)

text \<open>
  Of two different sequence numbers exactly one is ahead of the other, also at the distance of
  half an even modulus, so \<open>AscendingSeqNumComp\<close> and \<open>DescendingSeqNumComp\<close> are each other's
  complement.
\<close>

theorem AheadOf_exactly_one:
  fixes M :: "'w::len word"
  assumes "1 < LENGTH('w)" "in_range M a" "in_range M b" "a \<noteq> b"
  shows "\<exists>r. AscendingSeqNumComp M a b = Inr r \<and> DescendingSeqNumComp M a b = Inr (\<not> r)"
proof -
  have "uint a \<noteq> uint b" using assms(4) by (simp add: word_uint_eq_iff)
  then have "ahead_spec (modulus M) (uint b) (uint a) \<longleftrightarrow> \<not> ahead_spec (modulus M) (uint a) (uint b)"
    using assms by (intro ahead_spec_total) (auto simp: uint_lt_modulus)
  then show ?thesis
    using assms by (simp add: AscendingSeqNumComp_def DescendingSeqNumComp_def AheadOf_spec)
qed

theorem AheadOf_exactly_one_witness:
  "\<exists>r. AscendingSeqNumComp (4 :: u8) 1 3 = Inr r \<and> DescendingSeqNumComp (4 :: u8) 1 3 = Inr (\<not> r)"
  by (rule AheadOf_exactly_one) (simp_all add: in_range_def)

lemma unwrapper_of_width:
  fixes M :: "'w::len word"
  assumes "1 < LENGTH('w)"
  shows "unwrapper (Unwrap M) (unwrapper_at M) (wrap_number M) (near (modulus M))"
  using Unwrap_near [OF assms] by (intro unwrapper.intro) blast

lemma wrap_number_shift: "wrap_number M (q - k * modulus M) = wrap_number M q"
proof -
  have "(q - k * modulus M) mod modulus M = q mod modulus M" by (simp add: mod_diff_right_eq [symmetric, of q])
  then show ?thesis by (simp only: wrap_number_def)
qed

lemma successive_shift:
  assumes "successive (\<lambda>p q. 2 * \<bar>q - p\<bar> < m) p qs" "\<forall>q \<in> set qs. int64_min \<le> q - k \<and> q - k + m \<le> int64_max"
  shows "successive (near m) (p - k) (map (\<lambda>q. q - k) qs)"
  using assms by (induction qs arbitrary: p) (simp_all add: near_def)

text \<open>
  C20. The unwrapper recovers every stream of positions that moves by less than half the modulus per
  step, forwards or backwards and across any number of wraps, up to the multiple of the modulus at
  which the stream starts: the first value is returned as the number itself, every later one at its
  exact distance from it. The type has at least two and less than 64 bits, and the positions that are returned stay
  one modulus away from the upper end of \<open>int64_t\<close>.
\<close>

theorem SeqNumUnwrapper_recovers_stream:
  fixes M :: "'w::len word"
  assumes "1 < LENGTH('w)" "LENGTH('w) < 64" "successive (\<lambda>p q. 2 * \<bar>q - p\<bar> < modulus M) q0 qs"
    "start = q0 - q0 mod modulus M"
    "\<forall>q \<in> set qs. int64_min \<le> q - start \<and> q - start + modulus M \<le> int64_max"
  shows "\<exists>u. run_list (Unwrap M) SeqNumUnwrapper_init (map (wrap_number M) (q0 # qs)) =
    Inr (map (\<lambda>q. q - start) (q0 # qs), u)"
proof -
  let ?u = "SeqNumUnwrapper_init\<lparr>last_unwrapped := q0 - start, last_value := Some (wrap_number M q0)\<rparr>"
  have k: "start = q0 div modulus M * modulus M" using assms(4) by (simp add: minus_mod_eq_div_mult)
  have w: "wrap_number M (q - start) = wrap_number M q" for q unfolding k by (rule wrap_number_shift)
  have "uint (wrap_number M q0) = q0 - start" using assms(4) by (simp add: uint_wrap_number)
  then have "Unwrap M SeqNumUnwrapper_init (wrap_number M q0) = Inr (q0 - start, ?u)"
    using assms(2) by (simp add: Unwrap_first SeqNumUnwrapper_init_def)
  moreover have "unwrapper_at M ?u (q0 - start)" by (simp add: unwrapper_at_def w)
  moreover obtain u where "run_list (Unwrap M) ?u (map (wrap_number M) (map (\<lambda>q. q - start) qs)) = Inr (map (\<lambda>q. q - start) qs, u)"
    using unwrapper.unwrap_stream [OF unwrapper_of_width [OF assms(1)] \<open>unwrapper_at M ?u _\<close> successive_shift [OF assms(3,5)]] by blast
  ultimately show ?thesis by (simp add: w comp_def)
qed

theorem SeqNumUnwrapper_recovers_stream_witness:
  "\<exists>u. run_list (Unwrap (0 :: u16)) SeqNumUnwrapper_init
     (map (wrap_number 0) [65537, 65530, 90000]) = Inr (map (\<lambda>q. q - 65536) [65537, 65530, 90000], u)"
  by (rule SeqNumUnwrapper_recovers_stream) (simp_all add: modulus_def)

end
