(* ===== verification/Unwrapper.thy ===== *)
theory Unwrapper
  imports SeqNum
begin

text \<open>
  modules/include/module_common_types_public.h: the test whether a wrapping number is newer than
  another, and the RTP sequence-number and timestamp unwrapper, which never returns a negative
  position. The class template is modelled at its own width: \<open>SequenceNumberUnwrapper\<close> is the
  instance at 16 bits, \<open>TimestampUnwrapper\<close> the one at 32 bits. The two widths differ in the C++
  arithmetic (a 16-bit difference is promoted to a signed \<open>int\<close>, a 32-bit one wraps), which
  \<open>promoted_diff\<close> keeps.
\<close>

section \<open>Definitions\<close>

definition kBreakpoint :: "'w::len word" where
  "kBreakpoint = drop_bit 1 (- 1) + 1"

definition IsNewer :: "'w::len word \<Rightarrow> 'w word \<Rightarrow> bool" where
  "IsNewer value prev_value =
     (if promoted_diff value prev_value = uint (kBreakpoint :: 'w word)
      then value > prev_value
      else value \<noteq> prev_value \<and> value - prev_value < kBreakpoint)"

type_synonym unwrapper_state = "int option"

definition kMaxPlusOne :: "'w::len word itself \<Rightarrow> int" where
  "kMaxPlusOne T = uint (- 1 :: 'w word) + 1"

definition UnwrapWithoutUpdate :: "unwrapper_state \<Rightarrow> 'w::len word \<Rightarrow> int res" where
  "UnwrapWithoutUpdate st value =
     (case st of
        None \<Rightarrow> Inr (uint value)
      | Some l \<Rightarrow>
          (let m = kMaxPlusOne TYPE('w word);
               cropped_last = word_of_int l :: 'w word;
               delta = promoted_diff value cropped_last
           in rbind
                (if IsNewer value cropped_last
                 then (if delta < 0 then i64 (delta + m) else Inr delta)
                 else if delta > 0
                 then rbind (i64 (l + delta)) (\<lambda>t. rbind (i64 (t - m)) (\<lambda>u.
                        if u \<ge> 0 then i64 (delta - m) else Inr delta))
                 else Inr delta)
                (\<lambda>d. i64 (l + d))))"

definition UpdateLast :: "unwrapper_state \<Rightarrow> int \<Rightarrow> unwrapper_state" where
  "UpdateLast st n = Some n"

definition Unwrapper_Unwrap :: "unwrapper_state \<Rightarrow> 'w::len word \<Rightarrow> (int \<times> unwrapper_state) res" where
  "Unwrapper_Unwrap st value =
     rbind (UnwrapWithoutUpdate st value) (\<lambda>unwrapped. Inr (unwrapped, UpdateLast st unwrapped))"

definition IsNewerSequenceNumber :: "u16 \<Rightarrow> u16 \<Rightarrow> bool" where
  "IsNewerSequenceNumber sequence_number prev_sequence_number =
     IsNewer sequence_number prev_sequence_number"

definition IsNewerTimestamp :: "u32 \<Rightarrow> u32 \<Rightarrow> bool" where
  "IsNewerTimestamp timestamp prev_timestamp = IsNewer timestamp prev_timestamp"

definition LatestSequenceNumber :: "u16 \<Rightarrow> u16 \<Rightarrow> u16" where
  "LatestSequenceNumber a b = (if IsNewerSequenceNumber a b then a else b)"

definition LatestTimestamp :: "u32 \<Rightarrow> u32 \<Rightarrow> u32" where
  "LatestTimestamp a b = (if IsNewerTimestamp a b then a else b)"

section \<open>IsNewer and AheadOf are the same relation\<close>

lemma uint_kBreakpoint:
  assumes "1 < LENGTH('w)"
  shows "uint (kBreakpoint :: 'w::len word) = 2 ^ (LENGTH('w) - 1)"
proof -
  have "drop_bit 1 (- 1 :: 'w word) = (- 1) div 2"
    by (simp only: drop_bit_eq_div) simp
  then show ?thesis using half_max_word [OF assms] by (simp only: kBreakpoint_def)
qed

lemma IsNewer_ahead:
  fixes a b :: "'w::len word"
  assumes w: "1 < LENGTH('w)"
  shows "IsNewer a b \<longleftrightarrow> a \<noteq> b \<and> ahead_spec (2 ^ LENGTH('w)) (uint a) (uint b)"
proof -
  have "AheadOrAt 0 a b = Inr (if promoted_diff a b = uint (kBreakpoint :: 'w word) then b < a
      else a - b < kBreakpoint)"
  proof -
    have "(- 1 :: 'w word) div 2 + 1 = kBreakpoint"
      by (rule word_uint_eqI) (use w in \<open>simp only: half_max_word uint_kBreakpoint\<close>)
    then show ?thesis unfolding AheadOrAt_def Let_def by (simp add: ForwardDiff_def)
  qed
  moreover have "AheadOrAt 0 a b = Inr (ahead_spec (2 ^ LENGTH('w)) (uint a) (uint b))"
    by (rule AheadOrAt_spec_zero [OF w])
  ultimately have "(if promoted_diff a b = uint (kBreakpoint :: 'w word) then b < a
      else a - b < kBreakpoint) \<longleftrightarrow> ahead_spec (2 ^ LENGTH('w)) (uint a) (uint b)" by simp
  then show ?thesis by (auto simp: IsNewer_def split: if_splits)
qed


section \<open>Unwrapping without going below zero\<close>

definition unwrap_spec :: "int \<Rightarrow> int \<Rightarrow> int \<Rightarrow> int" where
  "unwrap_spec m l v =
     (let d = dist m (l mod m) v
      in if ahead_spec m v (l mod m) then l + d
         else if 0 \<le> l + d - m then l + d - m else l + d)"

lemma kMaxPlusOne_eq: "kMaxPlusOne TYPE('w::len word) = 2 ^ LENGTH('w)"
  by (simp add: kMaxPlusOne_def uint_minus_1)

lemma promoted_diff_self [simp]: "promoted_diff a a = 0"
  by (simp add: promoted_diff_def)

lemma promoted_diff_dist:
  fixes a b :: "'w::len word"
  shows "promoted_diff a b =
    (if LENGTH('w) < 32 \<and> uint a < uint b then dist (2 ^ LENGTH('w)) (uint b) (uint a) - 2 ^ LENGTH('w)
     else dist (2 ^ LENGTH('w)) (uint b) (uint a))"
proof -
  have d: "dist (2 ^ LENGTH('w)) (uint b) (uint a) =
      (if uint b \<le> uint a then uint a - uint b else 2 ^ LENGTH('w) - (uint b - uint a))"
    by (rule dist_cases) (auto intro: uint_lt_power)
  show ?thesis
  proof (cases "LENGTH('w) < 32")
    case True
    then show ?thesis unfolding d by (simp add: promoted_diff_def)
  next
    case False
    then show ?thesis by (simp add: promoted_diff_def dist_def uint_minus_word)
  qed
qed

lemma UnwrapWithoutUpdate_spec:
  fixes v :: "'w::len word"
  assumes w: "1 < LENGTH('w)" and l: "0 \<le> l" "l + 2 ^ LENGTH('w) \<le> int64_max"
  shows "UnwrapWithoutUpdate (Some l) v = Inr (unwrap_spec (2 ^ LENGTH('w)) l (uint v))"
proof -
  let ?m = "2 ^ LENGTH('w) :: int" and ?c = "word_of_int l :: 'w word"
  define d where "d = dist ?m (l mod ?m) (uint v)"
  have m: "0 < ?m" by simp
  have c: "uint ?c = l mod ?m" by (simp add: uint_word_of_int)
  have d_eq: "d = dist ?m (uint ?c) (uint v)" by (simp add: d_def c)
  have d: "0 \<le> d" "d < ?m" using dist_bounds [OF m] by (auto simp: d_def)
  have d0: "v = ?c \<Longrightarrow> d = 0" by (simp add: d_eq)
  have cases: "d = (if uint ?c \<le> uint v then uint v - uint ?c else ?m - (uint ?c - uint v))"
    unfolding d_eq by (rule dist_cases) (auto intro: uint_lt_power)
  have cl: "uint ?c \<le> l" unfolding c using l(1) m by (simp add: zmod_le_nonneg_dividend)
  have delta: "promoted_diff v ?c = (if LENGTH('w) < 32 \<and> uint v < uint ?c then d - ?m else d)"
    by (simp add: promoted_diff_dist d_eq)
  have newer: "IsNewer v ?c \<longleftrightarrow> v \<noteq> ?c \<and> ahead_spec ?m (uint v) (l mod ?m)"
    using IsNewer_ahead [OF w, of v ?c] by (simp only: c)
  have eq_ahead: "v = ?c \<Longrightarrow> ahead_spec ?m (uint v) (l mod ?m)"
    by (simp only: ahead_spec_def c dist_self) simp
  have backw: "uint v < uint ?c \<Longrightarrow> 0 \<le> l + d - ?m"
  proof -
    assume "uint v < uint ?c"
    with cases have "d = ?m - (uint ?c - uint v)" by (simp only: not_le [symmetric] if_False)
    then show "0 \<le> l + d - ?m" using cl uint_ge_0 [of v] by linarith
  qed
  have ok: "in_int64 d" "in_int64 (d - ?m)" "in_int64 (l + d)" "in_int64 (l + d - ?m)"
    using l d unfolding in_int64_def by (intro conjI; linarith)+
  show ?thesis
  proof (cases "ahead_spec ?m (uint v) (l mod ?m)")
    case True
    then show ?thesis
      using newer eq_ahead d0 ok d
      by (auto simp: UnwrapWithoutUpdate_def kMaxPlusOne_eq delta unwrap_spec_def d_def [symmetric]
          Let_def i64_ok add.commute)
  next
    case False
    then have "\<not> IsNewer v ?c" "v \<noteq> ?c" using newer eq_ahead by auto
    moreover have "d \<noteq> 0" using False by (auto simp: ahead_spec_def d_def [symmetric])
    ultimately show ?thesis
      using False ok d backw
      by (auto simp: UnwrapWithoutUpdate_def kMaxPlusOne_eq delta unwrap_spec_def d_def [symmetric]
          Let_def i64_ok add_diff_eq)
  qed
qed

lemma unwrap_spec_nonneg: "0 < m \<Longrightarrow> 0 \<le> l \<Longrightarrow> 0 \<le> unwrap_spec m l v"
  using dist_bounds [of m "l mod m" v] dist_bounds [of m l v]
  by (auto simp: unwrap_spec_def Let_def)

lemma unwrap_spec_mod:
  assumes "0 < m" "0 \<le> v" "v < m"
  shows "unwrap_spec m l v mod m = v"
proof -
  have "(l + dist m (l mod m) v) mod m = v mod m"
    by (simp add: dist_def mod_simps)
  moreover have "(l + dist m (l mod m) v - m) mod m = (l + dist m (l mod m) v) mod m" by simp
  ultimately show ?thesis using assms by (auto simp: unwrap_spec_def Let_def)
qed

lemma unwrap_spec_near:
  assumes "0 < m" "2 * \<bar>q - p\<bar> < m" "0 \<le> q"
  shows "unwrap_spec m p (q mod m) = q"
  using assms ahead_spec_window [of m q p] unwrap_next_near(2) [OF assms(1,2)]
  by (auto simp: unwrap_spec_def Let_def split: if_splits)

definition position_at :: "unwrapper_state \<Rightarrow> int \<Rightarrow> bool" where
  "position_at st p \<longleftrightarrow> st = Some p \<and> 0 \<le> p"

definition near_position :: "int \<Rightarrow> int \<Rightarrow> int \<Rightarrow> bool" where
  "near_position m p q \<longleftrightarrow> 2 * \<bar>q - p\<bar> < m \<and> 0 \<le> q \<and> p + m \<le> int64_max"

lemma Unwrapper_Unwrap_near:
  assumes "1 < LENGTH('w::len)" "position_at st p" "near_position (2 ^ LENGTH('w)) p q"
  shows "\<exists>st'. Unwrapper_Unwrap st (word_of_int q :: 'w word) = Inr (q, st') \<and> position_at st' q"
  using assms UnwrapWithoutUpdate_spec [of p "word_of_int q :: 'w word"] unwrap_spec_near
  by (auto simp: Unwrapper_Unwrap_def position_at_def near_position_def UpdateLast_def uint_word_of_int)

interpretation SequenceNumberUnwrapper: unwrapper
  "Unwrapper_Unwrap :: unwrapper_state \<Rightarrow> u16 \<Rightarrow> _" position_at word_of_int "near_position (2 ^ 16)"
  by unfold_locales (use Unwrapper_Unwrap_near [where 'w = 16] in simp)

interpretation TimestampUnwrapper: unwrapper
  "Unwrapper_Unwrap :: unwrapper_state \<Rightarrow> u32 \<Rightarrow> _" position_at word_of_int "near_position (2 ^ 32)"
  by unfold_locales (use Unwrapper_Unwrap_near [where 'w = 32] in simp)

section \<open>Properties\<close>

text \<open>
  A position is never unwrapped below zero and always stands for the number it was read from:
  at every width, from any earlier position that leaves room for one more period, the result is a
  non-negative position congruent to the value, at most half a period before the last one.
\<close>

theorem UnwrapWithoutUpdate_sound:
  fixes v :: "'w::len word"
  assumes "1 < LENGTH('w)" "0 \<le> l" "l + 2 ^ LENGTH('w) \<le> int64_max"
  shows "\<exists>n. UnwrapWithoutUpdate (Some l) v = Inr n \<and> 0 \<le> n \<and> n mod 2 ^ LENGTH('w) = uint v
    \<and> 2 * (l - n) \<le> 2 ^ LENGTH('w) \<and> n < l + 2 ^ LENGTH('w)"
proof -
  let ?m = "2 ^ LENGTH('w) :: int"
  let ?n = "unwrap_spec ?m l (uint v)"
  have "2 * (l - ?n) \<le> ?m \<and> ?n < l + ?m"
    using dist_bounds [of ?m "l mod ?m" "uint v"]
    by (auto simp: unwrap_spec_def Let_def ahead_spec_def split: if_splits)
  then show ?thesis
    using assms unwrap_spec_nonneg [of ?m l "uint v"] unwrap_spec_mod [of ?m "uint v" l]
    by (simp add: UnwrapWithoutUpdate_spec uint_lt_power)
qed

theorem UnwrapWithoutUpdate_sound_witness:
  "\<exists>n. UnwrapWithoutUpdate (Some 5) (65535 :: u16) = Inr n \<and> 0 \<le> n \<and> n mod 2 ^ 16 = uint (65535 :: u16)
    \<and> 2 * (5 - n) \<le> 2 ^ 16 \<and> n < 5 + 2 ^ 16"
  using UnwrapWithoutUpdate_sound [of 5 "65535 :: u16"] by simp

text \<open>
  RTP timestamps are recovered: a stream of non-negative media times that moves by less than
  half the 32-bit period per packet is returned unchanged by the \<open>TimestampUnwrapper\<close>, whatever the
  number of wraps, if its first time lies in the first period.
\<close>

theorem TimestampUnwrapper_recovers_stream:
  assumes "0 \<le> q0" "q0 < 2 ^ 32" "successive (near_position (2 ^ 32)) q0 qs"
  shows "\<exists>st. run_list Unwrapper_Unwrap None (map (word_of_int :: int \<Rightarrow> u32) (q0 # qs)) = Inr (q0 # qs, st)"
proof -
  have "Unwrapper_Unwrap None (word_of_int q0 :: u32) = Inr (q0, Some q0)"
    using assms(1,2) by (simp add: Unwrapper_Unwrap_def UnwrapWithoutUpdate_def UpdateLast_def
        uint_word_of_int)
  moreover have "position_at (Some q0) q0" using assms(1) by (simp add: position_at_def)
  ultimately show ?thesis using TimestampUnwrapper.unwrap_stream [OF _ assms(3)] by fastforce
qed

theorem TimestampUnwrapper_recovers_stream_witness:
  "\<exists>st. run_list Unwrapper_Unwrap None
     (map (word_of_int :: int \<Rightarrow> u32) [4294967290, 4294967300, 4294967200]) =
     Inr ([4294967290, 4294967300, 4294967200], st)"
  by (rule TimestampUnwrapper_recovers_stream) (simp_all add: near_position_def)

end
