(* ===== verification/IceMessage.thy ===== *)
theory IceMessage
  imports JsonUtils
begin

text \<open>
  The structure \<open>Ice\<close> of src/util/webrtc_manager.h: an ICE candidate as it travels in a signaling
  message, with its conversions to and from a JSON text.
\<close>

section \<open>Definitions\<close>

record ice =
  candidate :: string
  sdp_mid :: string
  sdp_mline_index :: c_int

definition ToJsonString :: "'j json_lib \<Rightarrow> ice \<Rightarrow> string" where
  "ToJsonString J i =
     (let json = jl_null J;
          json = jl_set J json ''type'' (jl_string J ''ice'');
          json = jl_set J json ''candidate'' (jl_string J (candidate i));
          json = jl_set J json ''sdpMid'' (jl_string J (sdp_mid i));
          json = jl_set J json ''sdpMLineIndex'' (jl_int J (sdp_mline_index i))
      in JsonToString J json)"

definition FromJsonString :: "'j json_lib \<Rightarrow> string \<Rightarrow> exn + ice" where
  "FromJsonString J json_str =
     rbind (StringToJson J json_str) (\<lambda>json.
     rbind (get_string J json ''type'') (\<lambda>type.
     if type = ''ice'' then
       rbind (get_string J json ''candidate'') (\<lambda>cand.
       rbind (get_string J json ''sdpMid'') (\<lambda>mid.
       rbind (rbind (jl_get J json ''sdpMLineIndex'' (jl_int J (- 1))) (jl_asInt J)) (\<lambda>index.
       if cand = [] \<or> mid = [] \<or> index = - 1
       then Inl (RuntimeError ''Invalid json string for ICE.'')
       else Inr \<lparr>candidate = cand, sdp_mid = mid, sdp_mline_index = index\<rparr>)))
     else Inl (RuntimeError (''Unkown json message type: '' @ type))))"

definition ice_complete :: "ice \<Rightarrow> bool" where
  "ice_complete i \<longleftrightarrow> candidate i \<noteq> [] \<and> sdp_mid i \<noteq> [] \<and> sdp_mline_index i \<noteq> - 1"

section \<open>What the conversions give\<close>

lemma FromJsonString_complete: "FromJsonString J s = Inr i \<Longrightarrow> ice_complete i"
  by (auto simp: FromJsonString_def ice_complete_def rbind_eq_Inr split: if_splits)

context json_library
begin

lemma message_type_ice:
  "text_ok (candidate i) \<Longrightarrow> text_ok (sdp_mid i) \<Longrightarrow>
    \<exists>json. StringToJson J (ToJsonString J i) = Inr json \<and> get_string J json ''type'' = Inr ''ice''"
  by (simp add: ToJsonString_def Let_def StringToJson_JsonToString doc_intros get_simps)

lemma FromJsonString_ToJsonString:
  assumes "text_ok (candidate i)" "text_ok (sdp_mid i)"
  shows "FromJsonString J (ToJsonString J i) =
    (if ice_complete i then Inr i else Inl (RuntimeError ''Invalid json string for ICE.''))"
  using assms
  by (simp add: FromJsonString_def ToJsonString_def Let_def StringToJson_JsonToString doc_intros
      get_simps get_set_string get_set_int asInt_int ice_complete_def)

end

end
