(* ===== verification/JsonRef.thy ===== *)
theory JsonRef
  imports IceMessage
begin

text \<open>
  A small JSON codec that satisfies the contract \<open>json_library\<close>: objects of strings and integers,
  written as JSON text with escaped quotes and read back. It is no model of jsoncpp; it shows that
  the laws the sample relies on can hold together, and the witnesses run on it.
\<close>

section \<open>Values and text\<close>

datatype jscalar = JStr string | JInt c_int

datatype jval = JNull | JScalar jscalar | JObj "(string \<times> jscalar) list"

fun esc :: "string \<Rightarrow> string" where
  "esc [] = []"
| "esc (c # cs) =
     (if c = CHR 0x22 \<or> c = CHR 0x5C then [CHR 0x5C, c] else [c]) @ esc cs"

fun unesc :: "string \<Rightarrow> (string \<times> string) option" where
  "unesc [] = None"
| "unesc (c # cs) =
     (if c = CHR 0x22 then Some ([], cs)
      else if c = CHR 0x5C
      then (case cs of [] \<Rightarrow> None | d # ds \<Rightarrow> map_option (map_prod ((#) d) id) (unesc ds))
      else map_option (map_prod ((#) c) id) (unesc cs))"

definition quote_str :: "string \<Rightarrow> string" where
  "quote_str s = CHR 0x22 # esc s @ [CHR 0x22]"

fun write_scalar :: "jscalar \<Rightarrow> string" where
  "write_scalar (JStr s) = quote_str s"
| "write_scalar (JInt i) = show_int (sint i)"

definition read_int :: "string \<Rightarrow> (c_int \<times> string) option" where
  "read_int s =
     (let (neg, t) = (case s of c # cs \<Rightarrow> if c = CHR ''-'' then (True, cs) else (False, s) | [] \<Rightarrow> (False, []));
          ds = takeWhile is_digit t
      in if ds = [] then None
         else Some (word_of_int (if neg then - int (read_nat ds) else int (read_nat ds)),
                    dropWhile is_digit t))"

definition read_scalar :: "string \<Rightarrow> (jscalar \<times> string) option" where
  "read_scalar s =
     (case s of
        [] \<Rightarrow> None
      | c # cs \<Rightarrow> if c = CHR 0x22 then map_option (map_prod JStr id) (unesc cs)
                  else map_option (map_prod JInt id) (read_int s))"

fun write_members :: "(string \<times> jscalar) list \<Rightarrow> string" where
  "write_members [] = ''}''"
| "write_members ((k, v) # ms) =
     quote_str k @ '':'' @ write_scalar v @ (if ms = [] then [] else '','') @ write_members ms"

fun read_members :: "nat \<Rightarrow> string \<Rightarrow> (string \<times> jscalar) list option" where
  "read_members 0 s = None"
| "read_members (Suc n) s =
     (if s = ''}'' then Some []
      else case s of
        [] \<Rightarrow> None
      | q # s1 \<Rightarrow>
          (case unesc s1 of
             None \<Rightarrow> None
           | Some (k, s2) \<Rightarrow>
               (case read_scalar (tl s2) of
                  None \<Rightarrow> None
                | Some (v, s3) \<Rightarrow>
                    map_option ((#) (k, v))
                      (read_members n (if s3 \<noteq> [] \<and> hd s3 = CHR '','' then tl s3 else s3)))))"

fun write_json :: "jval \<Rightarrow> string" where
  "write_json JNull = ''null''"
| "write_json (JScalar v) = write_scalar v"
| "write_json (JObj ms) = ''{'' @ write_members ms"

definition parse_json :: "string \<Rightarrow> string + jval" where
  "parse_json s =
     (if s = ''null'' then Inr JNull
      else if s \<noteq> [] \<and> hd s = CHR ''{''
      then (case read_members (length s) (tl s) of
              None \<Rightarrow> Inl ''bad object'' | Some ms \<Rightarrow> Inr (JObj ms))
      else (case read_scalar s of
              Some (v, []) \<Rightarrow> Inr (JScalar v) | _ \<Rightarrow> Inl ''bad value''))"

fun set_member :: "(string \<times> jscalar) list \<Rightarrow> string \<Rightarrow> jscalar \<Rightarrow> (string \<times> jscalar) list" where
  "set_member [] k v = [(k, v)]"
| "set_member ((k', v') # ms) k v = (if k = k' then (k, v) # ms else (k', v') # set_member ms k v)"

definition ref_json :: "jval json_lib" where
  "ref_json =
     \<lparr>jl_null = JNull,
      jl_string = (\<lambda>s. JScalar (JStr s)),
      jl_int = (\<lambda>i. JScalar (JInt i)),
      jl_set = (\<lambda>j k x. case x of
           JScalar v \<Rightarrow> JObj (set_member (case j of JObj ms \<Rightarrow> ms | _ \<Rightarrow> []) k v)
         | _ \<Rightarrow> j),
      jl_get = (\<lambda>j k d. case j of
           JNull \<Rightarrow> Inr d
         | JObj ms \<Rightarrow> Inr (case map_of ms k of Some v \<Rightarrow> JScalar v | None \<Rightarrow> d)
         | _ \<Rightarrow> Inl (JsonLogicError ''not an object'')),
      jl_asString = (\<lambda>j. case j of
           JScalar (JStr s) \<Rightarrow> Inr s
         | JScalar (JInt i) \<Rightarrow> Inr (show_int (sint i))
         | JNull \<Rightarrow> Inr []
         | _ \<Rightarrow> Inl (JsonLogicError ''not convertible to string'')),
      jl_asInt = (\<lambda>j. case j of
           JScalar (JInt i) \<Rightarrow> Inr i
         | JNull \<Rightarrow> Inr 0
         | _ \<Rightarrow> Inl (JsonLogicError ''not convertible to int'')),
      jl_write = write_json,
      jl_parse = parse_json\<rparr>"

fun ref_doc :: "jval \<Rightarrow> bool" where
  "ref_doc (JScalar v) = False"
| "ref_doc _ = True"

section \<open>Reading back what was written\<close>

lemma unesc_esc: "unesc (esc s @ CHR 0x22 # r) = Some (s, r)"
  by (induction s) auto

lemma takeWhile_digits:
  "\<forall>c \<in> set ds. is_digit c \<Longrightarrow> r = [] \<or> \<not> is_digit (hd r) \<Longrightarrow>
    takeWhile is_digit (ds @ r) = ds \<and> dropWhile is_digit (ds @ r) = r"
  by (cases r) (auto simp: takeWhile_append2 dropWhile_append2)

lemma hd_show_nat: "is_digit (hd (show_nat n))"
  using show_nat_digits [of n] show_nat_nonempty [of n] by (auto simp: neq_Nil_conv)

lemma read_int_show:
  assumes "r = [] \<or> \<not> is_digit (hd r)"
  shows "read_int (show_int (sint i) @ r) = Some (i, r)"
proof (cases "sint i < 0")
  case True
  then show ?thesis
    using takeWhile_digits [OF show_nat_digits assms, of "nat (- sint i)"]
    by (simp add: read_int_def show_int_def Let_def show_nat_nonempty read_show_nat)
next
  case False
  obtain c cs where s: "show_nat (nat (sint i)) = c # cs"
    using show_nat_nonempty [of "nat (sint i)"] by (auto simp: neq_Nil_conv)
  then have "is_digit c" using hd_show_nat [of "nat (sint i)"] by simp
  then have "c \<noteq> CHR ''-''" by (auto simp: is_digit_def)
  then show ?thesis
    using False takeWhile_digits [OF show_nat_digits assms, of "nat (sint i)"] read_show_nat [of "nat (sint i)"]
    by (simp add: read_int_def show_int_def Let_def s)
qed

lemma read_scalar_write:
  assumes "r = [] \<or> \<not> is_digit (hd r)"
  shows "read_scalar (write_scalar v @ r) = Some (v, r)"
proof (cases v)
  case (JStr s)
  then show ?thesis by (simp add: read_scalar_def quote_str_def unesc_esc)
next
  case (JInt i)
  obtain c cs where s: "show_int (sint i) = c # cs"
    using show_nat_nonempty [of "nat (sint i)"] by (cases "show_int (sint i)") (auto simp: show_int_def split: if_splits)
  have "c \<noteq> CHR 0x22"
    using s hd_show_nat [of "nat (sint i)"]
    by (auto simp: show_int_def is_digit_def split: if_splits)
  then have "read_scalar (show_int (sint i) @ r) = map_option (map_prod JInt id) (read_int (show_int (sint i) @ r))"
    by (simp add: read_scalar_def s)
  then show ?thesis using JInt read_int_show [OF assms] by simp
qed

lemma write_members_head: "write_members ms = ''}'' \<or> (\<exists>t. write_members ms = CHR 0x22 # t)"
  by (cases ms) (auto simp: quote_str_def)

lemma read_members_write: "length ms < n \<Longrightarrow> read_members n (write_members ms) = Some ms"
proof (induction ms arbitrary: n)
  case Nil
  then show ?case by (cases n) auto
next
  case (Cons m ms)
  obtain k v where m: "m = (k, v)" by (cases m)
  obtain n' where n: "n = Suc n'" using Cons.prems by (cases n) auto
  let ?r = "(if ms = [] then [] else '','') @ write_members ms"
  have r: "read_scalar (write_scalar v @ ?r) = Some (v, ?r)"
    by (rule read_scalar_write) (auto simp: is_digit_def)
  have "read_members n' (if ?r \<noteq> [] \<and> hd ?r = CHR '','' then tl ?r else ?r) = Some ms"
    using Cons n write_members_head [of ms] by (cases "ms = []") auto
  then show ?case
    using r by (simp add: m n quote_str_def unesc_esc)
qed

lemma length_write_members: "length ms < length (write_members ms)"
  by (induction ms rule: write_members.induct) (auto simp: quote_str_def)

lemma parse_write_doc: "ref_doc v \<Longrightarrow> parse_json (write_json v) = Inr v"
proof (cases v)
  case (JObj ms)
  have "read_members (length (write_json v)) (write_members ms) = Some ms"
    using length_write_members [of ms] JObj by (intro read_members_write) simp
  then show ?thesis using JObj by (simp add: parse_json_def)
qed (auto simp: parse_json_def)

lemma map_of_set_member: "map_of (set_member ms k v) k' = (if k' = k then Some v else map_of ms k')"
  by (induction ms k v rule: set_member.induct) auto

interpretation ref_json: json_library ref_json ref_doc "\<lambda>_. True"
  by unfold_locales
    (auto simp: ref_json_def parse_write_doc map_of_set_member split: jval.splits option.splits)

end
