(* ===== verification/RtcLib.thy ===== *)
theory RtcLib
  imports IceMessage
begin

text \<open>
  The vocabulary shared by the WebRTC side and the WebSocket side of the sample.

  The peer-connection library (libwebrtc.a) and the WebSocket library (websocketpp) are no source
  code of the repository. Their objects are handles, and what their calls return is given by the
  record \<open>rtc_lib\<close>, an argument of every definition that calls them. Each answer may depend on
  everything that happened before, the \<open>event list\<close> of the process. A call that returns nothing is
  an event itself, so the order of calls is part of the result.

  The enumerations and plain structures of api/data_channel_interface.h and
  api/peer_connection_interface.h are modelled with their defaults.
\<close>

section \<open>Enumerations and structures of the API\<close>

datatype DataState = kConnecting | kOpen | kClosing | kClosed

fun DataStateString :: "DataState \<Rightarrow> string" where
  "DataStateString kConnecting = ''connecting''"
| "DataStateString kOpen = ''open''"
| "DataStateString kClosing = ''closing''"
| "DataStateString kClosed = ''closed''"

fun data_state_code :: "DataState \<Rightarrow> nat" where
  "data_state_code kConnecting = 0"
| "data_state_code kOpen = 1"
| "data_state_code kClosing = 2"
| "data_state_code kClosed = 3"

datatype SignalingState =
    kStable | kHaveLocalOffer | kHaveLocalPrAnswer | kHaveRemoteOffer | kHaveRemotePrAnswer
  | kSignalingClosed

fun signaling_code :: "SignalingState \<Rightarrow> nat" where
  "signaling_code kStable = 0"
| "signaling_code kHaveLocalOffer = 1"
| "signaling_code kHaveLocalPrAnswer = 2"
| "signaling_code kHaveRemoteOffer = 3"
| "signaling_code kHaveRemotePrAnswer = 4"
| "signaling_code kSignalingClosed = 5"

datatype IceGatheringState = kIceGatheringNew | kIceGatheringGathering | kIceGatheringComplete

fun gathering_code :: "IceGatheringState \<Rightarrow> nat" where
  "gathering_code kIceGatheringNew = 0"
| "gathering_code kIceGatheringGathering = 1"
| "gathering_code kIceGatheringComplete = 2"

datatype IceConnectionState =
    kIceConnectionNew | kIceConnectionChecking | kIceConnectionConnected | kIceConnectionCompleted
  | kIceConnectionFailed | kIceConnectionDisconnected | kIceConnectionClosed | kIceConnectionMax

fun ice_connection_code :: "IceConnectionState \<Rightarrow> nat" where
  "ice_connection_code kIceConnectionNew = 0"
| "ice_connection_code kIceConnectionChecking = 1"
| "ice_connection_code kIceConnectionConnected = 2"
| "ice_connection_code kIceConnectionCompleted = 3"
| "ice_connection_code kIceConnectionFailed = 4"
| "ice_connection_code kIceConnectionDisconnected = 5"
| "ice_connection_code kIceConnectionClosed = 6"
| "ice_connection_code kIceConnectionMax = 7"

datatype Priority = kVeryLow | kLow | kMedium | kHigh

record DataChannelInit =
  reliable :: bool
  ordered :: bool
  maxRetransmitTime :: "c_int option"
  maxRetransmits :: "c_int option"
  protocol :: string
  negotiated :: bool
  dc_id :: c_int
  priority :: "Priority option"

definition DataChannelInit_default :: DataChannelInit where
  "DataChannelInit_default =
     \<lparr>reliable = False, ordered = True, maxRetransmitTime = None, maxRetransmits = None,
      protocol = [], negotiated = False, dc_id = - 1, priority = None\<rparr>"

text \<open>The bytes of a string, and the string of some bytes.\<close>

definition bytes_of :: "string \<Rightarrow> u8 list" where
  "bytes_of s = map of_char s"

definition string_of_bytes :: "u8 list \<Rightarrow> string" where
  "string_of_bytes bs = map (\<lambda>b. char_of (unat b)) bs"

record DataBuffer =
  db_data :: "u8 list"
  db_binary :: bool

definition DataBuffer_make :: "u8 list \<Rightarrow> bool \<Rightarrow> DataBuffer" where
  "DataBuffer_make d binary = \<lparr>db_data = d, db_binary = binary\<rparr>"

definition DataBuffer_of_text :: "string \<Rightarrow> DataBuffer" where
  "DataBuffer_of_text t = \<lparr>db_data = bytes_of t, db_binary = False\<rparr>"

definition DataBuffer_size :: "DataBuffer \<Rightarrow> nat" where
  "DataBuffer_size b = length (db_data b)"

section \<open>What the process does, in order\<close>

type_synonym pc_ref = nat
type_synonym dc_ref = nat
type_synonym desc_ref = nat
type_synonym cand_ref = nat
type_synonym hdl = "nat option"

datatype rtc_thread = NetworkThread | WorkerThread | SignalingThread

datatype ws_call =
    ClearAccessChannels
  | SetHandler string
  | InitAsio
  | SetReuseAddr bool
  | Listen u16
  | StartAccept
  | GetConnection string
  | Connect
  | Run
  | Send hdl string
  | StopListening
  | PauseReading hdl
  | CloseWs hdl

datatype event =
    Cout string
  | ThreadStart rtc_thread
  | ThreadStop rtc_thread
  | PcCreated pc_ref "string list"
  | DcCreated pc_ref string DataChannelInit dc_ref
  | ObserverRegistered dc_ref
  | OfferRequested pc_ref
  | AnswerRequested pc_ref
  | LocalDescriptionSet pc_ref desc_ref
  | RemoteDescriptionSet pc_ref desc_ref
  | CandidateAdded pc_ref "cand_ref option"
  | PcClosed pc_ref
  | DataSent dc_ref DataBuffer
  | Ws ws_call

section \<open>The libraries as an argument\<close>

record rtc_lib =
  rl_tid :: "event list \<Rightarrow> string"
  rl_show_ptr :: "nat option \<Rightarrow> string"
  rl_create_factory :: "event list \<Rightarrow> nat option"
  rl_create_pc :: "event list \<Rightarrow> pc_ref option"
  rl_create_dc :: "event list \<Rightarrow> pc_ref \<Rightarrow> string \<Rightarrow> DataChannelInit \<Rightarrow> dc_ref option"
  rl_dc_state :: "event list \<Rightarrow> dc_ref \<Rightarrow> DataState"
  rl_create_desc :: "string \<Rightarrow> string \<Rightarrow> desc_ref option \<times> string \<times> string"
  rl_desc_alive :: "event list \<Rightarrow> desc_ref \<Rightarrow> bool"
  rl_desc_to_string :: "desc_ref \<Rightarrow> string"
  rl_create_cand :: "string \<Rightarrow> c_int \<Rightarrow> string \<Rightarrow> cand_ref option \<times> string \<times> string"
  rl_cand_to_string :: "cand_ref \<Rightarrow> string"
  rl_cand_mid :: "cand_ref \<Rightarrow> string"
  rl_cand_index :: "cand_ref \<Rightarrow> c_int"
  rl_ws_error :: "event list \<Rightarrow> ws_call \<Rightarrow> string option"
  rl_now_ns :: "event list \<Rightarrow> int"

section \<open>Steps of a process\<close>

datatype app_fault = Threw exn | ExitFailure | NullPointer | UseAfterFree

type_synonym 's step = "'s \<Rightarrow> (app_fault, 's) outcome"

fun seq :: "'s step list \<Rightarrow> 's step" where
  "seq [] s = Running s"
| "seq (f # fs) s = andthen (f s) (seq fs)"

definition deref :: "nat option \<Rightarrow> (nat \<Rightarrow> 's step) \<Rightarrow> 's step" where
  "deref p k s = (case p of None \<Rightarrow> Stopped NullPointer s | Some x \<Rightarrow> k x s)"

lemma deref_simps [simp]:
  "deref None k s = Stopped NullPointer s"
  "deref (Some x) k s = k x s"
  by (simp_all add: deref_def)

lemma string_of_bytes_of [simp]: "string_of_bytes (bytes_of s) = s"
proof -
  have "unat (of_char c :: u8) = of_char c" for c
  proof -
    have "(of_char c :: u8) = of_nat (of_char c)" by (simp only: of_nat_of_char)
    moreover have "(of_char c :: nat) < 2 ^ LENGTH(8)" using nat_of_char_less_256 [of c] by simp
    ultimately show ?thesis by (simp only: unat_of_nat mod_less)
  qed
  then show ?thesis by (simp add: string_of_bytes_def bytes_of_def comp_def)
qed


section \<open>A library that always answers\<close>

text \<open>
  A concrete instance of the library argument: every object is created, a session description is
  its decimal text, every candidate is accepted. Witnesses run on it and on variants of it.
\<close>

definition ref_lib :: rtc_lib where
  "ref_lib =
     \<lparr>rl_tid = (\<lambda>_. ''main''),
      rl_show_ptr = (\<lambda>p. case p of None \<Rightarrow> ''0'' | Some n \<Rightarrow> show_nat n),
      rl_create_factory = (\<lambda>_. Some 1),
      rl_create_pc = (\<lambda>_. Some 2),
      rl_create_dc = (\<lambda>_ _ _ _. Some 3),
      rl_dc_state = (\<lambda>_ _. kOpen),
      rl_create_desc = (\<lambda>_ p. (Some (read_nat p), [], [])),
      rl_desc_alive = (\<lambda>_ _. True),
      rl_desc_to_string = show_nat,
      rl_create_cand = (\<lambda>_ _ _. (Some 4, [], [])),
      rl_cand_to_string = (\<lambda>_. ''candidate''),
      rl_cand_mid = (\<lambda>_. ''data''),
      rl_cand_index = (\<lambda>_. 0),
      rl_ws_error = (\<lambda>_ _. None),
      rl_now_ns = (\<lambda>_. 0)\<rparr>"

end
