(* ===== verification/RtcManager.thy ===== *)
theory RtcManager
  imports RtcLib
begin

text \<open>
  The classes \<open>Connection\<close> (with its four observers) and \<open>WebRTCManager\<close> of
  src/util/webrtc_manager.h. \<open>connection\<close> holds the fields of a \<open>Connection\<close> and the event list of
  the process; \<open>manager\<close> extends it by the fields of a \<open>WebRTCManager\<close>, so that every method of the
  inner object is a method of the outer one. The \<open>std::function\<close> members are optional values of the
  type \<open>'h\<close> of callables of the program that owns the manager; a method that calls one takes the
  meaning of the callables as its argument \<open>call\<close>.
\<close>

section \<open>Connection\<close>

record 'h connection =
  trace :: "event list"
  conn_name :: string
  peer_connection :: "pc_ref option"
  data_channel :: "dc_ref option"
  cb_on_sdp :: "'h option"
  cb_on_accept_ice :: "'h option"
  cb_on_ice :: "'h option"
  cb_on_success :: "'h option"
  cb_on_message :: "'h option"

datatype call_arg = NoArg | SdpArg string | IceArg ice | MessageArg string

definition nl :: string where
  "nl = [CHR 0x0A]"

definition emit :: "event \<Rightarrow> ('h, 'm) connection_scheme step" where
  "emit e s = Running (s\<lparr>trace := trace s @ [e]\<rparr>)"

definition cout :: "string \<Rightarrow> ('h, 'm) connection_scheme step" where
  "cout txt = emit (Cout txt)"

definition log_text :: "rtc_lib \<Rightarrow> string \<Rightarrow> string \<Rightarrow> event list \<Rightarrow> string" where
  "log_text L nm txt tr = nm @ '':'' @ rl_tid L tr @ '':'' @ txt @ nl"

definition log_line :: "rtc_lib \<Rightarrow> string \<Rightarrow> string \<Rightarrow> ('h, 'm) connection_scheme step" where
  "log_line L nm txt s = cout (log_text L nm txt (trace s)) s"

definition invoke ::
  "('h \<Rightarrow> call_arg \<Rightarrow> 's step) \<Rightarrow> 'h option \<Rightarrow> call_arg \<Rightarrow> 's step" where
  "invoke call f a s = (case f of None \<Rightarrow> Stopped (Threw BadFunctionCall) s | Some h \<Rightarrow> call h a s)"

definition on_state_change ::
  "rtc_lib \<Rightarrow> ('h \<Rightarrow> call_arg \<Rightarrow> ('h, 'm) connection_scheme step) \<Rightarrow> ('h, 'm) connection_scheme step" where
  "on_state_change L call = seq
     [\<lambda>s. deref (data_channel s) (\<lambda>dc s.
        cout (''on_state_change state: '' @ show_nat (data_state_code (rl_dc_state L (trace s) dc)) @ nl) s) s,
      \<lambda>s. deref (data_channel s) (\<lambda>dc s.
        if rl_dc_state L (trace s) dc = kOpen \<and> cb_on_success s \<noteq> None
        then invoke call (cb_on_success s) NoArg s
        else Running s) s]"

definition on_success_csd ::
  "rtc_lib \<Rightarrow> ('h \<Rightarrow> call_arg \<Rightarrow> ('h, 'm) connection_scheme step) \<Rightarrow> desc_ref \<Rightarrow> ('h, 'm) connection_scheme step" where
  "on_success_csd L call desc = seq
     [\<lambda>s. deref (peer_connection s) (\<lambda>pc. emit (LocalDescriptionSet pc desc)) s,
      \<lambda>s. if rl_desc_alive L (trace s) desc
          then invoke call (cb_on_sdp s) (SdpArg (rl_desc_to_string L desc)) s
          else Stopped UseAfterFree s]"

definition on_ice_candidate ::
  "rtc_lib \<Rightarrow> ('h \<Rightarrow> call_arg \<Rightarrow> ('h, 'm) connection_scheme step) \<Rightarrow> cand_ref \<Rightarrow> ('h, 'm) connection_scheme step" where
  "on_ice_candidate L call cand s =
     invoke call (cb_on_ice s)
       (IceArg \<lparr>candidate = rl_cand_to_string L cand, sdp_mid = rl_cand_mid L cand,
                sdp_mline_index = rl_cand_index L cand\<rparr>) s"

subsection \<open>PCO, the peer connection observer\<close>

definition OnSignalingChange :: "rtc_lib \<Rightarrow> SignalingState \<Rightarrow> ('h, 'm) connection_scheme step" where
  "OnSignalingChange L new_state s =
     log_line L (conn_name s)
       (''PeerConnectionObserver::SignalingChange('' @ show_nat (signaling_code new_state) @ '')'') s"

definition OnAddStream :: "rtc_lib \<Rightarrow> ('h, 'm) connection_scheme step" where
  "OnAddStream L s = log_line L (conn_name s) ''PeerConnectionObserver::AddStream'' s"

definition OnRemoveStream :: "rtc_lib \<Rightarrow> ('h, 'm) connection_scheme step" where
  "OnRemoveStream L s = log_line L (conn_name s) ''PeerConnectionObserver::RemoveStream'' s"

definition OnDataChannel :: "rtc_lib \<Rightarrow> dc_ref option \<Rightarrow> ('h, 'm) connection_scheme step" where
  "OnDataChannel L dc = seq
     [\<lambda>s. log_line L (conn_name s)
        (''PeerConnectionObserver::DataChannel('' @ rl_show_ptr L dc @ '', '' @
         rl_show_ptr L (data_channel s) @ '')'') s,
      \<lambda>s. Running (s\<lparr>data_channel := dc\<rparr>),
      \<lambda>s. deref (data_channel s) (\<lambda>d. emit (ObserverRegistered d)) s]"

definition OnRenegotiationNeeded :: "rtc_lib \<Rightarrow> ('h, 'm) connection_scheme step" where
  "OnRenegotiationNeeded L s = log_line L (conn_name s) ''PeerConnectionObserver::RenegotiationNeeded'' s"

definition OnIceConnectionChange :: "rtc_lib \<Rightarrow> IceConnectionState \<Rightarrow> ('h, 'm) connection_scheme step" where
  "OnIceConnectionChange L new_state s =
     log_line L (conn_name s)
       (''PeerConnectionObserver::IceConnectionChange('' @ show_nat (ice_connection_code new_state) @ '')'') s"

definition OnIceGatheringChange :: "rtc_lib \<Rightarrow> IceGatheringState \<Rightarrow> ('h, 'm) connection_scheme step" where
  "OnIceGatheringChange L new_state s =
     log_line L (conn_name s)
       (''PeerConnectionObserver::IceGatheringChange('' @ show_nat (gathering_code new_state) @ '')'') s"

definition OnIceCandidate ::
  "rtc_lib \<Rightarrow> ('h \<Rightarrow> call_arg \<Rightarrow> ('h, 'm) connection_scheme step) \<Rightarrow> cand_ref \<Rightarrow> ('h, 'm) connection_scheme step" where
  "OnIceCandidate L call cand = seq
     [\<lambda>s. log_line L (conn_name s) ''PeerConnectionObserver::IceCandidate'' s,
      on_ice_candidate L call cand]"

subsection \<open>DCO, the data channel observer\<close>

definition OnStateChange ::
  "rtc_lib \<Rightarrow> ('h \<Rightarrow> call_arg \<Rightarrow> ('h, 'm) connection_scheme step) \<Rightarrow> ('h, 'm) connection_scheme step" where
  "OnStateChange L call = seq
     [\<lambda>s. log_line L (conn_name s) ''DataChannelObserver::StateChange'' s,
      on_state_change L call]"

definition OnMessage ::
  "rtc_lib \<Rightarrow> ('h \<Rightarrow> call_arg \<Rightarrow> ('h, 'm) connection_scheme step) \<Rightarrow> DataBuffer \<Rightarrow> ('h, 'm) connection_scheme step" where
  "OnMessage L call buffer = seq
     [\<lambda>s. log_line L (conn_name s) ''DataChannelObserver::Message'' s,
      \<lambda>s. if cb_on_message s \<noteq> None
          then invoke call (cb_on_message s) (MessageArg (string_of_bytes (db_data buffer))) s
          else Running s]"

definition OnBufferedAmountChange :: "rtc_lib \<Rightarrow> u64 \<Rightarrow> ('h, 'm) connection_scheme step" where
  "OnBufferedAmountChange L previous_amount s =
     log_line L (conn_name s)
       (''DataChannelObserver::BufferedAmountChange('' @ show_nat (unat previous_amount) @ '')'') s"

subsection \<open>CSDO and SSDO, the session description observers\<close>

definition CSDO_OnSuccess ::
  "rtc_lib \<Rightarrow> ('h \<Rightarrow> call_arg \<Rightarrow> ('h, 'm) connection_scheme step) \<Rightarrow> desc_ref \<Rightarrow> ('h, 'm) connection_scheme step" where
  "CSDO_OnSuccess L call desc = seq
     [\<lambda>s. log_line L (conn_name s) ''CreateSessionDescriptionObserver::OnSuccess'' s,
      on_success_csd L call desc]"

definition CSDO_OnFailure :: "rtc_lib \<Rightarrow> string \<Rightarrow> ('h, 'm) connection_scheme step" where
  "CSDO_OnFailure L message s =
     log_line L (conn_name s) (''CreateSessionDescriptionObserver::OnFailure'' @ nl @ message) s"

definition SSDO_OnSuccess ::
  "rtc_lib \<Rightarrow> ('h \<Rightarrow> call_arg \<Rightarrow> ('h, 'm) connection_scheme step) \<Rightarrow> ('h, 'm) connection_scheme step" where
  "SSDO_OnSuccess L call = seq
     [\<lambda>s. log_line L (conn_name s) ''SetSessionDescriptionObserver::OnSuccess'' s,
      \<lambda>s. if cb_on_accept_ice s \<noteq> None then invoke call (cb_on_accept_ice s) NoArg s else Running s]"

definition SSDO_OnFailure :: "rtc_lib \<Rightarrow> string \<Rightarrow> ('h, 'm) connection_scheme step" where
  "SSDO_OnFailure L message s =
     log_line L (conn_name s) (''SetSessionDescriptionObserver::OnFailure'' @ nl @ message) s"

section \<open>WebRTCManager\<close>

record 'h manager = "'h connection" +
  mgr_name :: string
  network_thread :: "bool option"
  worker_thread :: "bool option"
  signaling_thread :: "bool option"
  peer_connection_factory :: "nat option"
  configuration_servers :: "string list"

definition WebRTCManager_new :: "string \<Rightarrow> 'h manager" where
  "WebRTCManager_new nm =
     \<lparr>trace = [], conn_name = nm, peer_connection = None, data_channel = None,
      cb_on_sdp = None, cb_on_accept_ice = None, cb_on_ice = None, cb_on_success = None,
      cb_on_message = None, mgr_name = nm, network_thread = None, worker_thread = None,
      signaling_thread = None, peer_connection_factory = None, configuration_servers = []\<rparr>"

definition on_sdp :: "'h \<Rightarrow> ('h, 'm) connection_scheme \<Rightarrow> ('h, 'm) connection_scheme" where
  "on_sdp f s = s\<lparr>cb_on_sdp := Some f\<rparr>"

definition on_accept_ice :: "'h \<Rightarrow> ('h, 'm) connection_scheme \<Rightarrow> ('h, 'm) connection_scheme" where
  "on_accept_ice f s = s\<lparr>cb_on_accept_ice := Some f\<rparr>"

definition on_ice :: "'h \<Rightarrow> ('h, 'm) connection_scheme \<Rightarrow> ('h, 'm) connection_scheme" where
  "on_ice f s = s\<lparr>cb_on_ice := Some f\<rparr>"

definition on_success :: "'h \<Rightarrow> ('h, 'm) connection_scheme \<Rightarrow> ('h, 'm) connection_scheme" where
  "on_success f s = s\<lparr>cb_on_success := Some f\<rparr>"

definition on_message :: "'h \<Rightarrow> ('h, 'm) connection_scheme \<Rightarrow> ('h, 'm) connection_scheme" where
  "on_message f s = s\<lparr>cb_on_message := Some f\<rparr>"

definition mlog :: "rtc_lib \<Rightarrow> string \<Rightarrow> ('h, 'm) manager_scheme step" where
  "mlog L txt s = log_line L (mgr_name s) txt s"

definition init :: "rtc_lib \<Rightarrow> ('h, 'm) manager_scheme step" where
  "init L = seq
     [mlog L ''init Main thread'',
      \<lambda>s. Running (s\<lparr>configuration_servers := configuration_servers s @ [''stun:stun.l.google.com:19302'']\<rparr>),
      \<lambda>s. emit (ThreadStart NetworkThread) (s\<lparr>network_thread := Some True\<rparr>),
      \<lambda>s. emit (ThreadStart WorkerThread) (s\<lparr>worker_thread := Some True\<rparr>),
      \<lambda>s. emit (ThreadStart SignalingThread) (s\<lparr>signaling_thread := Some True\<rparr>),
      \<lambda>s. Running (s\<lparr>peer_connection_factory := rl_create_factory L (trace s)\<rparr>),
      \<lambda>s. if peer_connection_factory s = None
          then andthen (mlog L ''Error on CreateModularPeerConnectionFactory.'' s) (Stopped ExitFailure)
          else Running s]"

text \<open>\<open>peer_connection_factory->CreatePeerConnection(...)\<close>, assigned to \<open>connection.peer_connection\<close>.\<close>

definition create_peer_connection :: "rtc_lib \<Rightarrow> ('h, 'm) manager_scheme step" where
  "create_peer_connection L s = deref (peer_connection_factory s) (\<lambda>f s.
     let p = rl_create_pc L (trace s)
     in case p of
          None \<Rightarrow> Running (s\<lparr>peer_connection := None\<rparr>)
        | Some pc \<Rightarrow> emit (PcCreated pc (configuration_servers s)) (s\<lparr>peer_connection := Some pc\<rparr>)) s"

definition create_offer_sdp :: "rtc_lib \<Rightarrow> ('h, 'm) manager_scheme step" where
  "create_offer_sdp L = seq
     [mlog L ''create_offer_sdp'',
      create_peer_connection L,
      \<lambda>s. deref (peer_connection s) (\<lambda>pc s.
        case rl_create_dc L (trace s) pc ''data_channel'' DataChannelInit_default of
          None \<Rightarrow> Running (s\<lparr>data_channel := None\<rparr>)
        | Some dc \<Rightarrow> emit (DcCreated pc ''data_channel'' DataChannelInit_default dc)
                       (s\<lparr>data_channel := Some dc\<rparr>)) s,
      \<lambda>s. deref (data_channel s) (\<lambda>dc. emit (ObserverRegistered dc)) s,
      \<lambda>s. if peer_connection s = None
          then andthen (mlog L ''Error on CreatePeerConnection.'' (s\<lparr>peer_connection_factory := None\<rparr>))
                 (Stopped ExitFailure)
          else Running s,
      \<lambda>s. deref (peer_connection s) (\<lambda>pc. emit (OfferRequested pc)) s]"

definition set_remote_sdp :: "rtc_lib \<Rightarrow> string \<Rightarrow> string \<Rightarrow> string \<Rightarrow> ('h, 'm) manager_scheme step" where
  "set_remote_sdp L typ title parameter =
     (case rl_create_desc L typ parameter of (sd, error_line, error_description) \<Rightarrow>
      (case sd of
         None \<Rightarrow> seq
           [mlog L (''Error on CreateSessionDescription.'' @ nl @ error_line @ nl @ error_description),
            mlog L (title @ '' SDP:begin'' @ nl @ parameter @ nl @ title @ '' SDP:end''),
            Stopped ExitFailure]
       | Some desc \<Rightarrow> (\<lambda>s. deref (peer_connection s) (\<lambda>pc. emit (RemoteDescriptionSet pc desc)) s)))"

definition create_answer_sdp :: "rtc_lib \<Rightarrow> string \<Rightarrow> ('h, 'm) manager_scheme step" where
  "create_answer_sdp L parameter = seq
     [mlog L ''create_answer_sdp'',
      create_peer_connection L,
      \<lambda>s. if peer_connection s = None
          then andthen (mlog L ''Error on CreatePeerConnection.'' (s\<lparr>peer_connection_factory := None\<rparr>))
                 (Stopped ExitFailure)
          else Running s,
      set_remote_sdp L ''offer'' ''Offer'' parameter,
      \<lambda>s. deref (peer_connection s) (\<lambda>pc. emit (AnswerRequested pc)) s]"

definition push_reply_sdp :: "rtc_lib \<Rightarrow> string \<Rightarrow> ('h, 'm) manager_scheme step" where
  "push_reply_sdp L parameter = seq
     [mlog L ''push_reply_sdp'',
      set_remote_sdp L ''answer'' ''Answer'' parameter]"

definition push_ice :: "rtc_lib \<Rightarrow> ice \<Rightarrow> ('h, 'm) manager_scheme step" where
  "push_ice L i =
     (case rl_create_cand L (sdp_mid i) (sdp_mline_index i) (candidate i) of
        (c, err_line, err_description) \<Rightarrow> seq
          [mlog L ''push_ice'',
           \<lambda>s. if err_line \<noteq> [] \<and> err_description \<noteq> []
               then andthen (mlog L (''Error on CreateIceCandidate'' @ nl @ err_line @ nl @ err_description) s)
                      (Stopped ExitFailure)
               else Running s,
           \<lambda>s. deref (peer_connection s) (\<lambda>pc. emit (CandidateAdded pc c)) s])"

definition send :: "rtc_lib \<Rightarrow> string \<Rightarrow> ('h, 'm) manager_scheme step" where
  "send L parameter = seq
     [mlog L ''send'',
      \<lambda>s. deref (data_channel s) (\<lambda>dc s.
        mlog L (''Send('' @ show_nat (data_state_code (rl_dc_state L (trace s) dc)) @ '')'') s) s,
      \<lambda>s. deref (data_channel s) (\<lambda>dc. emit (DataSent dc (DataBuffer_make (bytes_of parameter) True))) s]"

definition quit :: "rtc_lib \<Rightarrow> ('h, 'm) manager_scheme step" where
  "quit L = seq
     [mlog L ''quit'',
      \<lambda>s. deref (peer_connection s) (\<lambda>pc. emit (PcClosed pc)) s,
      \<lambda>s. Running (s\<lparr>peer_connection := None\<rparr>),
      \<lambda>s. Running (s\<lparr>data_channel := None\<rparr>),
      \<lambda>s. Running (s\<lparr>peer_connection_factory := None\<rparr>),
      \<lambda>s. case network_thread s of
            None \<Rightarrow> Stopped NullPointer s
          | Some _ \<Rightarrow> emit (ThreadStop NetworkThread) (s\<lparr>network_thread := Some False\<rparr>),
      \<lambda>s. case worker_thread s of
            None \<Rightarrow> Stopped NullPointer s
          | Some _ \<Rightarrow> emit (ThreadStop WorkerThread) (s\<lparr>worker_thread := Some False\<rparr>),
      \<lambda>s. case signaling_thread s of
            None \<Rightarrow> Stopped NullPointer s
          | Some _ \<Rightarrow> emit (ThreadStop SignalingThread) (s\<lparr>signaling_thread := Some False\<rparr>)]"

section \<open>Events a process receives from the library\<close>

text \<open>One constructor per observer method; \<open>rtc_handle\<close> is the call the library makes.\<close>

datatype rtc_input =
    InSignalingChange SignalingState
  | InAddStream
  | InRemoveStream
  | InDataChannel "dc_ref option"
  | InRenegotiationNeeded
  | InIceConnectionChange IceConnectionState
  | InIceGatheringChange IceGatheringState
  | InIceCandidate cand_ref
  | InStateChange
  | InMessage DataBuffer
  | InBufferedAmountChange u64
  | InCsdSuccess desc_ref
  | InCsdFailure string
  | InSsdSuccess
  | InSsdFailure string

fun rtc_handle ::
  "rtc_lib \<Rightarrow> ('h \<Rightarrow> call_arg \<Rightarrow> ('h, 'm) connection_scheme step) \<Rightarrow> rtc_input \<Rightarrow> ('h, 'm) connection_scheme step" where
  "rtc_handle L call (InSignalingChange st) = OnSignalingChange L st"
| "rtc_handle L call InAddStream = OnAddStream L"
| "rtc_handle L call InRemoveStream = OnRemoveStream L"
| "rtc_handle L call (InDataChannel dc) = OnDataChannel L dc"
| "rtc_handle L call InRenegotiationNeeded = OnRenegotiationNeeded L"
| "rtc_handle L call (InIceConnectionChange st) = OnIceConnectionChange L st"
| "rtc_handle L call (InIceGatheringChange st) = OnIceGatheringChange L st"
| "rtc_handle L call (InIceCandidate c) = OnIceCandidate L call c"
| "rtc_handle L call InStateChange = OnStateChange L call"
| "rtc_handle L call (InMessage b) = OnMessage L call b"
| "rtc_handle L call (InBufferedAmountChange n) = OnBufferedAmountChange L n"
| "rtc_handle L call (InCsdSuccess d) = CSDO_OnSuccess L call d"
| "rtc_handle L call (InCsdFailure m) = CSDO_OnFailure L m"
| "rtc_handle L call InSsdSuccess = SSDO_OnSuccess L call"
| "rtc_handle L call (InSsdFailure m) = SSDO_OnFailure L m"

section \<open>Evaluation of steps\<close>

lemma emit_Running [simp]: "emit e s = Running (s\<lparr>trace := trace s @ [e]\<rparr>)"
  by (simp add: emit_def)

lemma invoke_simps [simp]:
  "invoke call None a s = Stopped (Threw BadFunctionCall) s"
  "invoke call (Some h) a s = call h a s"
  by (simp_all add: invoke_def)

lemma trace_update_eq [simp]: "s\<lparr>trace := x\<rparr> = s\<lparr>trace := y\<rparr> \<longleftrightarrow> x = y"
proof
  assume "s\<lparr>trace := x\<rparr> = s\<lparr>trace := y\<rparr>"
  then have "trace (s\<lparr>trace := x\<rparr>) = trace (s\<lparr>trace := y\<rparr>)" by (rule arg_cong)
  then show "x = y" by simp
qed simp

lemmas log_defs = cout_def log_line_def mlog_def

declare log_defs [model_defs]


section \<open>What was sent\<close>

definition data_sent :: "event list \<Rightarrow> (dc_ref \<times> DataBuffer) list" where
  "data_sent tr = List.map_filter (\<lambda>e. case e of DataSent dc b \<Rightarrow> Some (dc, b) | _ \<Rightarrow> None) tr"

definition ws_sent :: "event list \<Rightarrow> string list" where
  "ws_sent tr = List.map_filter (\<lambda>e. case e of Ws (Send h m) \<Rightarrow> Some m | _ \<Rightarrow> None) tr"

lemma map_filter_append: "List.map_filter f (xs @ ys) = List.map_filter f xs @ List.map_filter f ys"
  by (simp add: List.map_filter_def)

lemma data_sent_simps [simp]:
  "data_sent [] = []"
  "data_sent (tr @ tr') = data_sent tr @ data_sent tr'"
  "data_sent (DataSent dc b # tr) = (dc, b) # data_sent tr"
  "data_sent (Cout t # tr) = data_sent tr"
  "data_sent (PcClosed pc # tr) = data_sent tr"
  "data_sent (ThreadStop th # tr) = data_sent tr"
  "data_sent (Ws c # tr) = data_sent tr"
  by (simp_all add: data_sent_def map_filter_append List.map_filter_simps)

lemma ws_sent_simps [simp]:
  "ws_sent [] = []"
  "ws_sent (tr @ tr') = ws_sent tr @ ws_sent tr'"
  "ws_sent (Ws (Send h m) # tr) = m # ws_sent tr"
  "ws_sent (Ws ClearAccessChannels # tr) = ws_sent tr"
  "ws_sent (Ws (SetHandler k) # tr) = ws_sent tr"
  "ws_sent (Ws InitAsio # tr) = ws_sent tr"
  "ws_sent (Ws (SetReuseAddr on) # tr) = ws_sent tr"
  "ws_sent (Ws (Listen p) # tr) = ws_sent tr"
  "ws_sent (Ws StartAccept # tr) = ws_sent tr"
  "ws_sent (Ws (GetConnection u) # tr) = ws_sent tr"
  "ws_sent (Ws Connect # tr) = ws_sent tr"
  "ws_sent (Ws Run # tr) = ws_sent tr"
  "ws_sent (Ws StopListening # tr) = ws_sent tr"
  "ws_sent (Ws (PauseReading h) # tr) = ws_sent tr"
  "ws_sent (Ws (CloseWs h) # tr) = ws_sent tr"
  "ws_sent (Cout t # tr) = ws_sent tr"
  "ws_sent (ThreadStart th # tr) = ws_sent tr"
  "ws_sent (ThreadStop th # tr) = ws_sent tr"
  "ws_sent (PcCreated pc cfg # tr) = ws_sent tr"
  "ws_sent (DcCreated pc lbl ini dc # tr) = ws_sent tr"
  "ws_sent (ObserverRegistered dc # tr) = ws_sent tr"
  "ws_sent (OfferRequested pc # tr) = ws_sent tr"
  "ws_sent (AnswerRequested pc # tr) = ws_sent tr"
  "ws_sent (LocalDescriptionSet pc d # tr) = ws_sent tr"
  "ws_sent (RemoteDescriptionSet pc d # tr) = ws_sent tr"
  "ws_sent (CandidateAdded pc c # tr) = ws_sent tr"
  "ws_sent (PcClosed pc # tr) = ws_sent tr"
  "ws_sent (DataSent dc b # tr) = ws_sent tr"
  by (simp_all add: ws_sent_def map_filter_append List.map_filter_simps)

section \<open>Methods of the manager\<close>

abbreviation text_buffer :: "string \<Rightarrow> DataBuffer" where
  "text_buffer m \<equiv> DataBuffer_make (bytes_of m) True"

lemma send_Running:
  assumes "data_channel s = Some dc"
  shows "\<exists>tr. send L m s = Running (s\<lparr>trace := trace s @ tr\<rparr>) \<and>
    data_sent tr = [(dc, text_buffer m)] \<and> ws_sent tr = []"
  using assms by (simp add: send_def log_defs)

lemma send_null: "data_channel s = None \<Longrightarrow> \<exists>s'. send L m s = Stopped NullPointer s'"
  by (simp add: send_def log_defs)

text \<open>A manager whose \<open>init\<close> has run.\<close>

definition initialised :: "('h, 'm) manager_scheme \<Rightarrow> bool" where
  "initialised s \<longleftrightarrow> network_thread s \<noteq> None \<and> worker_thread s \<noteq> None \<and> signaling_thread s \<noteq> None
     \<and> peer_connection_factory s \<noteq> None"

lemma quit_Running:
  assumes "initialised s" "peer_connection s = Some pc"
  shows "\<exists>s'. quit L s = Running s' \<and> data_sent (trace s') = data_sent (trace s)
    \<and> PcClosed pc \<in> set (trace s') \<and> peer_connection s' = None \<and> data_channel s' = None"
  using assms by (auto simp: quit_def log_defs initialised_def)

text \<open>
  C8. \<open>create_answer_sdp\<close> on every branch: without a peer connection or with an offer that does not
  parse, the process exits; otherwise the offer becomes the remote description of the new peer
  connection, and the answer is requested after that, with nothing in between.
\<close>

theorem create_answer_sdp_branches:
  assumes "peer_connection_factory s = Some f" "mlog L ''create_answer_sdp'' s = Running s1"
  shows "case rl_create_pc L (trace s1) of
      None \<Rightarrow> \<exists>s'. create_answer_sdp L p s = Stopped ExitFailure s' \<and> peer_connection_factory s' = None
    | Some pc \<Rightarrow>
        (case fst (rl_create_desc L ''offer'' p) of
           None \<Rightarrow> \<exists>s'. create_answer_sdp L p s = Stopped ExitFailure s'
         | Some d \<Rightarrow> create_answer_sdp L p s = Running (s1\<lparr>peer_connection := Some pc,
             trace := trace s1 @ [PcCreated pc (configuration_servers s), RemoteDescriptionSet pc d,
               AnswerRequested pc]\<rparr>))"
  using assms
  by (auto simp: create_answer_sdp_def create_peer_connection_def set_remote_sdp_def log_defs
      split: option.splits prod.splits)

text \<open>
  C9. The check of \<open>create_offer_sdp\<close> for a failed \<open>CreatePeerConnection\<close> comes too late: the null
  pointer is dereferenced by the call of \<open>CreateDataChannel\<close> before it, and no run of the method
  ever takes the branch that reports the error and exits.
\<close>

theorem create_offer_sdp_null_check_dead:
  "create_offer_sdp L s \<noteq> Stopped ExitFailure s' \<and>
   (peer_connection_factory s = Some f \<and> mlog L ''create_offer_sdp'' s = Running s1
      \<and> rl_create_pc L (trace s1) = None
    \<longrightarrow> (\<exists>s2. create_offer_sdp L s = Stopped NullPointer s2))"
  by (auto simp: create_offer_sdp_def create_peer_connection_def log_defs deref_def
      split: option.splits)


theorem create_answer_sdp_branches_witness:
  "\<exists>s' :: unit manager. create_answer_sdp (ref_lib\<lparr>rl_create_pc := (\<lambda>_. None)\<rparr>) ''7''
     ((WebRTCManager_new ''server'')\<lparr>peer_connection_factory := Some 1\<rparr>) = Stopped ExitFailure s'
     \<and> peer_connection_factory s' = None"
  using create_answer_sdp_branches
    [of "(WebRTCManager_new ''server'' :: unit manager)\<lparr>peer_connection_factory := Some 1\<rparr>" 1
      "ref_lib\<lparr>rl_create_pc := (\<lambda>_. None)\<rparr>" _ "''7''"]
  by (simp add: log_defs)

theorem create_offer_sdp_null_check_dead_witness:
  "\<exists>s2 :: unit manager. create_offer_sdp (ref_lib\<lparr>rl_create_pc := (\<lambda>_. None)\<rparr>)
     ((WebRTCManager_new ''client'')\<lparr>peer_connection_factory := Some 1\<rparr>) = Stopped NullPointer s2"
  using create_offer_sdp_null_check_dead
    [of "ref_lib\<lparr>rl_create_pc := (\<lambda>_. None)\<rparr>"
      "(WebRTCManager_new ''client'' :: unit manager)\<lparr>peer_connection_factory := Some 1\<rparr>" _ 1]
  by (simp add: log_defs)

end
