(* ===== verification/WsServer.thy ===== *)
theory WsServer
  imports RtcManager
begin

text \<open>
  The server process, src/server/server.cpp: the class \<open>WebSocketServerManager\<close> and \<open>main\<close>. The four
  lambdas its constructor registers are the callables \<open>srv_callback\<close>; the record \<open>server\<close> extends
  the manager it owns.
\<close>

section \<open>State\<close>

datatype srv_callback = SrvOnIce | SrvOnMessage | SrvOnSdp | SrvOnSuccess

record server = "srv_callback manager" +
  srv_port :: u16
  srv_ws_hdl :: hdl
  srv_ice_list :: "ice list"

definition ws_do :: "rtc_lib \<Rightarrow> ws_call \<Rightarrow> ('h, 'm) connection_scheme step" where
  "ws_do L c s =
     (case rl_ws_error L (trace s) c of
        None \<Rightarrow> emit (Ws c) s
      | Some e \<Rightarrow> Stopped (Threw (WebSocketError e)) s)"

definition server_new :: "u16 \<Rightarrow> server" where
  "server_new port =
     \<lparr>trace = [], conn_name = ''server'', peer_connection = None, data_channel = None,
      cb_on_sdp = None, cb_on_accept_ice = None, cb_on_ice = None, cb_on_success = None,
      cb_on_message = None, mgr_name = ''server'', network_thread = None, worker_thread = None,
      signaling_thread = None, peer_connection_factory = None, configuration_servers = [],
      srv_port = port, srv_ws_hdl = None, srv_ice_list = []\<rparr>"

section \<open>The lambdas of the constructor\<close>

definition srv_on_ice :: "rtc_lib \<Rightarrow> 'j json_lib \<Rightarrow> ice \<Rightarrow> server step" where
  "srv_on_ice L J i = seq
     [cout (''[RTCServer::on_ice] '' @ nl),
      \<lambda>s. Running (s\<lparr>srv_ice_list := srv_ice_list s @ [i]\<rparr>),
      cout (''========== Sending ICE begin =========='' @ nl),
      cout (ToJsonString J i),
      cout (''========== Sending ICE end ============'' @ nl),
      \<lambda>s. ws_do L (Send (srv_ws_hdl s) (ToJsonString J i)) s]"

definition srv_on_message :: "rtc_lib \<Rightarrow> string \<Rightarrow> server step" where
  "srv_on_message L message = seq
     [cout (''[RTCServer::on_message] '' @ message @ nl),
      cout (''========= Receive message begin ========='' @ nl),
      cout (message @ nl),
      cout (''========= Receive message end ==========='' @ nl),
      if message = ''exit''
      then ws_do L StopListening
      else (let reply_message = ''Echo of: '' @ message in seq
        [cout (''========= Send message begin ========='' @ nl),
         cout (reply_message @ nl),
         cout (''========= Send message end ==========='' @ nl),
         send L reply_message])]"

definition answer_message :: "'j json_lib \<Rightarrow> string \<Rightarrow> string" where
  "answer_message J sdp =
     (let json = jl_null J;
          json = jl_set J json ''type'' (jl_string J ''answer'');
          json = jl_set J json ''answer'' (jl_string J sdp)
      in JsonToString J json)"

definition srv_on_sdp :: "rtc_lib \<Rightarrow> 'j json_lib \<Rightarrow> string \<Rightarrow> server step" where
  "srv_on_sdp L J sdp = seq
     [cout (''[RTCServer::on_sdp] '' @ nl),
      cout (''========== Answer SDP begin =========='' @ nl),
      cout sdp,
      cout (''========== Answer SDP end ============'' @ nl),
      \<lambda>s. ws_do L (Send (srv_ws_hdl s) (answer_message J sdp)) s]"

definition srv_on_success :: "rtc_lib \<Rightarrow> server step" where
  "srv_on_success L = seq
     [cout (''[RTCServer::on_success]'' @ nl),
      \<lambda>s. ws_do L (PauseReading (srv_ws_hdl s)) s,
      \<lambda>s. ws_do L (CloseWs (srv_ws_hdl s)) s]"

fun srv_call :: "rtc_lib \<Rightarrow> 'j json_lib \<Rightarrow> srv_callback \<Rightarrow> call_arg \<Rightarrow> server step" where
  "srv_call L J SrvOnIce (IceArg i) = srv_on_ice L J i"
| "srv_call L J SrvOnMessage (MessageArg m) = srv_on_message L m"
| "srv_call L J SrvOnSdp (SdpArg sdp) = srv_on_sdp L J sdp"
| "srv_call L J SrvOnSuccess NoArg = srv_on_success L"
| "srv_call L J _ _ = Stopped (Threw BadFunctionCall)"

section \<open>The constructor, the WebSocket handlers and main\<close>

definition server_construct :: "rtc_lib \<Rightarrow> u16 \<Rightarrow> (app_fault, server) outcome" where
  "server_construct L port = seq
     [\<lambda>s. Running (on_ice SrvOnIce s),
      \<lambda>s. Running (on_message SrvOnMessage s),
      \<lambda>s. Running (on_sdp SrvOnSdp s),
      \<lambda>s. Running (on_success SrvOnSuccess s),
      init L,
      ws_do L ClearAccessChannels,
      ws_do L (SetHandler ''open''),
      ws_do L (SetHandler ''close''),
      ws_do L (SetHandler ''message''),
      ws_do L InitAsio,
      ws_do L (SetReuseAddr True),
      \<lambda>s. ws_do L (Listen (srv_port s)) s,
      ws_do L StartAccept,
      ws_do L Run] (server_new port)"

definition srv_OpenHandler :: "hdl \<Rightarrow> server step" where
  "srv_OpenHandler h s = cout (''[WebSocketServerManager::OpenHandler]'' @ nl) (s\<lparr>srv_ws_hdl := h\<rparr>)"

definition srv_CloseHandler :: "hdl \<Rightarrow> server step" where
  "srv_CloseHandler h s = cout (''[WebSocketServerManager::CloseHandler]'' @ nl) (s\<lparr>srv_ws_hdl := h\<rparr>)"

text \<open>The value of a C++ expression that may throw, used by the rest of the method.\<close>

definition or_throw :: "exn + 'a \<Rightarrow> ('a \<Rightarrow> 's step) \<Rightarrow> 's step" where
  "or_throw r k s = (case r of Inl e \<Rightarrow> Stopped (Threw e) s | Inr x \<Rightarrow> k x s)"

definition srv_MessageHandler :: "rtc_lib \<Rightarrow> 'j json_lib \<Rightarrow> hdl \<Rightarrow> string \<Rightarrow> server step" where
  "srv_MessageHandler L J h message = seq
     [\<lambda>s. Running (s\<lparr>srv_ws_hdl := h\<rparr>),
      cout (''[WebSocketServerManager::MessageHandler]'' @ nl),
      or_throw (StringToJson J message) (\<lambda>json.
      or_throw (get_string J json ''type'') (\<lambda>type. seq
        [cout (''Received message type: '' @ type @ nl),
         cout (''Received message: '' @ message @ nl),
         if type = ''offer''
         then or_throw (get_string J json ''sdp'') (\<lambda>offer. seq
           [cout (''========== Offer SDP begin =========='' @ nl),
            cout offer,
            cout (''========== Offer SDP end ============'' @ nl),
            create_answer_sdp L offer])
         else if type = ''ice''
         then or_throw (FromJsonString J message) (\<lambda>i. seq
           [push_ice L i,
            cout (''========== Receive ICE begin =========='' @ nl),
            cout (ToJsonString J i),
            cout (''========== Receive ICE end ============'' @ nl)])
         else Stopped (Threw (RuntimeError (''Unkown json message type: '' @ type)))]))]"

definition server_main_exit :: "rtc_lib \<Rightarrow> server step" where
  "server_main_exit L = seq [quit L, cout (''Server exits gracefully.'' @ nl)]"

datatype ws_input = WsOpen hdl | WsClose hdl | WsMessage hdl string | FromRtc rtc_input

fun srv_handle :: "rtc_lib \<Rightarrow> 'j json_lib \<Rightarrow> ws_input \<Rightarrow> server step" where
  "srv_handle L J (WsOpen h) = srv_OpenHandler h"
| "srv_handle L J (WsClose h) = srv_CloseHandler h"
| "srv_handle L J (WsMessage h m) = srv_MessageHandler L J h m"
| "srv_handle L J (FromRtc i) = rtc_handle L (srv_call L J) i"

lemma or_throw_simps [simp]:
  "or_throw (Inl e) k s = Stopped (Threw e) s"
  "or_throw (Inr x) k s = k x s"
  by (simp_all add: or_throw_def)


section \<open>What the server does with a data-channel message\<close>

definition new_events :: "('h, 'm) connection_scheme \<Rightarrow> ('h, 'm) connection_scheme \<Rightarrow> event list" where
  "new_events s s' = drop (length (trace s)) (trace s')"



end
