(* ===== verification/WsClient.thy ===== *)
theory WsClient
  imports WsServer
begin

text \<open>
  The client process, src/client/client.cpp: the class \<open>WebSocketClientManager\<close>, the global
  \<open>g_last_sent_time\<close> and \<open>main\<close> with its loop over the lines of the standard input.
\<close>

section \<open>State\<close>

datatype cl_callback = ClOnIce | ClOnMessage | ClOnSdp | ClOnSuccess

record client = "cl_callback manager" +
  cl_uri :: string
  cl_ws_hdl :: hdl
  cl_ice_list :: "ice list"
  g_last_sent_time :: int

definition client_new :: "string \<Rightarrow> client" where
  "client_new uri =
     \<lparr>trace = [], conn_name = ''client'', peer_connection = None, data_channel = None,
      cb_on_sdp = None, cb_on_accept_ice = None, cb_on_ice = None, cb_on_success = None,
      cb_on_message = None, mgr_name = ''client'', network_thread = None, worker_thread = None,
      signaling_thread = None, peer_connection_factory = None, configuration_servers = [],
      cl_uri = uri, cl_ws_hdl = None, cl_ice_list = [], g_last_sent_time = 0\<rparr>"

section \<open>The lambdas of the constructor\<close>

definition cl_on_ice :: "rtc_lib \<Rightarrow> 'j json_lib \<Rightarrow> ice \<Rightarrow> client step" where
  "cl_on_ice L J i = seq
     [cout (''[RTCClient::on_ice] '' @ nl),
      \<lambda>s. Running (s\<lparr>cl_ice_list := cl_ice_list s @ [i]\<rparr>),
      cout (''========== Sending ICE begin =========='' @ nl),
      cout (ToJsonString J i),
      cout (''========== Sending ICE end ============'' @ nl),
      \<lambda>s. ws_do L (Send (cl_ws_hdl s) (ToJsonString J i)) s]"

definition cl_on_message :: "rtc_lib \<Rightarrow> string \<Rightarrow> client step" where
  "cl_on_message L message = seq
     [cout (''[RTCClient::on_message]'' @ nl),
      cout (''========= Receive message begin ======'' @ nl),
      cout (message @ nl),
      cout (''========= Receive message end ========'' @ nl),
      \<lambda>s. let now_time = rl_now_ns L (trace s)
          in cout (''Time since last sent: '' @
                   show_int ((now_time - g_last_sent_time s) sdiv 1000000) @ ''ms'' @ nl) s]"

definition offer_message :: "'j json_lib \<Rightarrow> string \<Rightarrow> string" where
  "offer_message J sdp =
     (let json = jl_null J;
          json = jl_set J json ''type'' (jl_string J ''offer'');
          json = jl_set J json ''sdp'' (jl_string J sdp)
      in JsonToString J json)"

definition cl_on_sdp :: "rtc_lib \<Rightarrow> 'j json_lib \<Rightarrow> string \<Rightarrow> client step" where
  "cl_on_sdp L J sdp = seq
     [cout (''[RTCClient::on_sdp] '' @ nl),
      cout (''========== Offer SDP begin =========='' @ nl),
      cout sdp,
      cout (''========== Offer SDP end ============'' @ nl),
      \<lambda>s. ws_do L (Send (cl_ws_hdl s) (offer_message J sdp)) s]"

definition cl_on_success :: "client step" where
  "cl_on_success = cout (''[RTCClient::on_success]'' @ nl)"

fun cl_call :: "rtc_lib \<Rightarrow> 'j json_lib \<Rightarrow> cl_callback \<Rightarrow> call_arg \<Rightarrow> client step" where
  "cl_call L J ClOnIce (IceArg i) = cl_on_ice L J i"
| "cl_call L J ClOnMessage (MessageArg m) = cl_on_message L m"
| "cl_call L J ClOnSdp (SdpArg sdp) = cl_on_sdp L J sdp"
| "cl_call L J ClOnSuccess NoArg = cl_on_success"
| "cl_call L J _ _ = Stopped (Threw BadFunctionCall)"

section \<open>The constructor and the WebSocket handlers\<close>

definition client_construct :: "rtc_lib \<Rightarrow> string \<Rightarrow> (app_fault, client) outcome" where
  "client_construct L uri = seq
     [\<lambda>s. Running (on_ice ClOnIce s),
      \<lambda>s. Running (on_message ClOnMessage s),
      \<lambda>s. Running (on_sdp ClOnSdp s),
      \<lambda>s. Running (on_success ClOnSuccess s),
      init L,
      ws_do L ClearAccessChannels,
      ws_do L (SetHandler ''open''),
      ws_do L (SetHandler ''close''),
      ws_do L (SetHandler ''message''),
      ws_do L InitAsio,
      ws_do L (GetConnection uri),
      ws_do L Connect,
      ws_do L Run] (client_new uri)"

definition cl_OpenHandler :: "rtc_lib \<Rightarrow> hdl \<Rightarrow> client step" where
  "cl_OpenHandler L h = seq
     [\<lambda>s. Running (s\<lparr>cl_ws_hdl := h\<rparr>),
      cout (''[WebSocketClientManager::OpenHandler]'' @ nl),
      create_offer_sdp L]"

definition cl_CloseHandler :: "hdl \<Rightarrow> client step" where
  "cl_CloseHandler h s = cout (''[WebSocketClientManager::CloseHandler]'' @ nl) (s\<lparr>cl_ws_hdl := h\<rparr>)"

definition cl_MessageHandler :: "rtc_lib \<Rightarrow> 'j json_lib \<Rightarrow> hdl \<Rightarrow> string \<Rightarrow> client step" where
  "cl_MessageHandler L J h message = seq
     [\<lambda>s. Running (s\<lparr>cl_ws_hdl := h\<rparr>),
      cout (''[WebSocketClientManager::MessageHandler]'' @ nl),
      or_throw (StringToJson J message) (\<lambda>json.
      or_throw (get_string J json ''type'') (\<lambda>type. seq
        [cout (''Received message type: '' @ type @ nl),
         cout (''Received message: '' @ message @ nl),
         if type = ''answer''
         then or_throw (get_string J json ''answer'') (\<lambda>answer. seq
           [cout (''========== Answer SDP begin =========='' @ nl),
            cout answer,
            cout (''========== Answer SDP end ============'' @ nl),
            push_reply_sdp L answer])
         else if type = ''ice''
         then or_throw (FromJsonString J message) (\<lambda>i. seq
           [push_ice L i,
            cout (''========== Receive ICE begin =========='' @ nl),
            cout (ToJsonString J i),
            cout (''========== Receive ICE end ============'' @ nl)])
         else Stopped (Threw (RuntimeError (''Unkown json message type: '' @ type)))]))]"

fun cl_handle :: "rtc_lib \<Rightarrow> 'j json_lib \<Rightarrow> ws_input \<Rightarrow> client step" where
  "cl_handle L J (WsOpen h) = cl_OpenHandler L h"
| "cl_handle L J (WsClose h) = cl_CloseHandler h"
| "cl_handle L J (WsMessage h m) = cl_MessageHandler L J h m"
| "cl_handle L J (FromRtc i) = rtc_handle L (cl_call L J) i"

section \<open>main\<close>

text \<open>
  The lines that \<open>std::getline\<close> returns before the end of the input are the second argument. Each
  line is sent; \<open>exit\<close> is sent, closes the connection and ends the loop.
\<close>

fun client_loop :: "rtc_lib \<Rightarrow> string list \<Rightarrow> client step" where
  "client_loop L [] s = Running s"
| "client_loop L (message # rest) s =
     (if message = ''exit''
      then seq [cout (''message == exit, exiting...'' @ nl), send L ''exit'', quit L] s
      else andthen
        (seq [cout (''========= Send message begin ========='' @ nl),
              cout (message @ nl),
              cout (''========= Send message end ==========='' @ nl),
              \<lambda>s. Running (s\<lparr>g_last_sent_time := rl_now_ns L (trace s)\<rparr>),
              send L message] s)
        (client_loop L rest))"

definition client_main_loop :: "rtc_lib \<Rightarrow> string list \<Rightarrow> client step" where
  "client_main_loop L input = seq [client_loop L input, cout (''Client exits gracefully.'' @ nl)]"


section \<open>What the main loop sends\<close>

fun until_exit :: "string list \<Rightarrow> string list" where
  "until_exit [] = []"
| "until_exit (m # ms) = (if m = ''exit'' then [m] else m # until_exit ms)"

definition connected :: "dc_ref \<Rightarrow> pc_ref \<Rightarrow> client \<Rightarrow> bool" where
  "connected dc pc s \<longleftrightarrow> initialised s \<and> data_channel s = Some dc \<and> peer_connection s = Some pc"

lemma client_line_Running:
  assumes "connected dc pc s"
  shows "\<exists>s'. seq [cout t1, cout t2, cout t3,
      \<lambda>s. Running (s\<lparr>g_last_sent_time := rl_now_ns L (trace s)\<rparr>), send L message] s = Running s' \<and>
    connected dc pc s' \<and> data_sent (trace s') = data_sent (trace s) @ [(dc, text_buffer message)] \<and>
    (PcClosed pc \<in> set (trace s') \<longleftrightarrow> PcClosed pc \<in> set (trace s))"
  using assms by (auto simp: send_def log_defs connected_def initialised_def)

lemma client_exit_Running:
  assumes "connected dc pc s"
  shows "\<exists>s'. seq [cout t, send L ''exit'', quit L] s = Running s' \<and>
    data_sent (trace s') = data_sent (trace s) @ [(dc, text_buffer ''exit'')] \<and>
    PcClosed pc \<in> set (trace s')"
  using assms by (auto simp: send_def quit_def log_defs connected_def initialised_def)

lemma client_loop_Running:
  assumes "connected dc pc s"
  shows "\<exists>s'. client_loop L input s = Running s' \<and>
    data_sent (trace s') = data_sent (trace s) @ map (\<lambda>m. (dc, text_buffer m)) (until_exit input) \<and>
    (PcClosed pc \<in> set (trace s') \<longleftrightarrow> PcClosed pc \<in> set (trace s) \<or> ''exit'' \<in> set input)"
  using assms
proof (induction input arbitrary: s)
  case Nil
  then show ?case by simp
next
  case (Cons message rest)
  show ?case
  proof (cases "message = ''exit''")
    case True
    then show ?thesis
      using client_exit_Running [OF Cons.prems, of "''message == exit, exiting...'' @ nl" L]
      by (auto simp del: seq.simps)
  next
    case False
    then show ?thesis
      using client_line_Running [OF Cons.prems, of "''========= Send message begin ========='' @ nl"
          "message @ nl" "''========= Send message end ==========='' @ nl" L message] Cons.IH
      by (fastforce simp del: seq.simps)
  qed
qed

text \<open>
  C7. The main loop of a connected client sends every line of the input up to the first \<open>exit\<close>, in
  order and one message each, and nothing after it. It closes the peer connection exactly when an
  \<open>exit\<close> was read: an input that merely ends leaves the connection open.
\<close>

theorem client_main_sends_lines:
  assumes "connected dc pc s" "PcClosed pc \<notin> set (trace s)" "data_sent (trace s) = []"
  shows "\<exists>s'. client_main_loop L input s = Running s' \<and>
    data_sent (trace s') = map (\<lambda>m. (dc, text_buffer m)) (until_exit input) \<and>
    (PcClosed pc \<in> set (trace s') \<longleftrightarrow> ''exit'' \<in> set input)"
  using client_loop_Running [OF assms(1), of L input] assms(2,3)
  by (auto simp: client_main_loop_def cout_def)

theorem client_main_sends_lines_witness:
  "\<exists>s'. client_main_loop ref_lib [''hello'', ''exit'', ''late'']
      ((client_new ''ws://localhost:8888'')\<lparr>peer_connection := Some 2, data_channel := Some 3,
        network_thread := Some True, worker_thread := Some True, signaling_thread := Some True,
        peer_connection_factory := Some 1\<rparr>) = Running s' \<and>
    data_sent (trace s') = [(3, text_buffer ''hello''), (3, text_buffer ''exit'')] \<and>
    PcClosed 2 \<in> set (trace s')"
  using client_main_sends_lines [of 3 2
      "(client_new ''ws://localhost:8888'')\<lparr>peer_connection := Some 2, data_channel := Some 3,
        network_thread := Some True, worker_thread := Some True, signaling_thread := Some True,
        peer_connection_factory := Some 1\<rparr>" ref_lib "[''hello'', ''exit'', ''late'']"]
  by (simp add: connected_def initialised_def client_new_def)

end
