(* ===== verification/Signaling.thy ===== *)
theory Signaling
  imports WsClient JsonRef
begin

text \<open>
  Client and server together. A state of the system holds both processes, the state of either end of their WebSocket
  connection, and how many of each process's messages were delivered to the other one (the connection is reliable and
  ordered). A step runs one handler of one process to its end. The environment chooses the step,
  within what the libraries document: one completion per requested description, candidates only
  after a local description was set, data-channel callbacks only to a registered observer; an end of the connection is opened once
  and closed at most once, a message is delivered only to an end that is open and whose process has not called
  \<open>close\<close>, and what a process sends after its end was closed never arrives. Every answer of the libraries may be a failure: the
  process then stops, and \<open>lib_fault\<close> is the set of stops that such an answer accounts for.
\<close>

section \<open>Observables of a run\<close>

fun ev_request :: "event \<Rightarrow> bool" where
  "ev_request (OfferRequested pc) = True"
| "ev_request (AnswerRequested pc) = True"
| "ev_request _ = False"

fun ev_local :: "event \<Rightarrow> bool" where
  "ev_local (LocalDescriptionSet pc d) = True"
| "ev_local _ = False"

fun ev_observer :: "event \<Rightarrow> bool" where
  "ev_observer (ObserverRegistered dc) = True"
| "ev_observer _ = False"

definition n_requests :: "event list \<Rightarrow> nat" where
  "n_requests tr = length (filter ev_request tr)"

definition n_locals :: "event list \<Rightarrow> nat" where
  "n_locals tr = length (filter ev_local tr)"

definition observed :: "event list \<Rightarrow> bool" where
  "observed tr = list_ex ev_observer tr"

fun ev_close :: "event \<Rightarrow> bool" where
  "ev_close (Ws (CloseWs h)) = True"
| "ev_close _ = False"

definition closed_ws :: "event list \<Rightarrow> bool" where
  "closed_ws tr = list_ex ev_close tr"

section \<open>The system\<close>

text \<open>An end of the connection; a closed one remembers how many messages had left it.\<close>

datatype link = NotOpen | Opened | Closed nat

definition receiving :: "link \<Rightarrow> event list \<Rightarrow> bool" where
  "receiving l tr \<longleftrightarrow> l = Opened \<and> \<not> closed_ws tr"

text \<open>The messages of a process that the other end can still get.\<close>

definition in_transit :: "link \<Rightarrow> event list \<Rightarrow> string list" where
  "in_transit l tr =
     (let ms = ws_sent (takeWhile (\<lambda>e. \<not> ev_close e) tr) in
      case l of NotOpen \<Rightarrow> [] | Opened \<Rightarrow> ms | Closed n \<Rightarrow> take n ms)"

record sys =
  cl :: "(app_fault, client) outcome"
  sv :: "(app_fault, server) outcome"
  cl_link :: link
  sv_link :: link
  to_sv :: nat
  to_cl :: nat

definition sys_init :: "rtc_lib \<Rightarrow> rtc_lib \<Rightarrow> sys" where
  "sys_init Lc Ls =
     \<lparr>cl = client_construct Lc ''ws://localhost:8888'', sv = server_construct Ls 8888,
      cl_link = NotOpen, sv_link = NotOpen, to_sv = 0, to_cl = 0\<rparr>"

fun enabled :: "event list \<Rightarrow> rtc_input \<Rightarrow> bool" where
  "enabled tr (InCsdSuccess d) = (n_locals tr < n_requests tr)"
| "enabled tr (InIceCandidate c) = (n_locals tr > 0)"
| "enabled tr InStateChange = observed tr"
| "enabled tr (InMessage b) = observed tr"
| "enabled tr (InBufferedAmountChange n) = observed tr"
| "enabled tr (InDataChannel dc) = (dc \<noteq> None)"
| "enabled tr _ = True"

inductive sys_step :: "rtc_lib \<Rightarrow> rtc_lib \<Rightarrow> 'j json_lib \<Rightarrow> sys \<Rightarrow> sys \<Rightarrow> bool"
  for Lc Ls :: rtc_lib and J :: "'j json_lib" where
  client_open: "cl S = Running c \<Longrightarrow> cl_link S = NotOpen \<Longrightarrow>
    sys_step Lc Ls J S (S\<lparr>cl := cl_handle Lc J (WsOpen h) c, cl_link := Opened\<rparr>)"
| server_open: "sv S = Running s \<Longrightarrow> sv_link S = NotOpen \<Longrightarrow>
    sys_step Lc Ls J S (S\<lparr>sv := srv_handle Ls J (WsOpen h) s, sv_link := Opened\<rparr>)"
| client_close: "cl S = Running c \<Longrightarrow> cl_link S = Opened \<Longrightarrow>
    sys_step Lc Ls J S (S\<lparr>cl := cl_handle Lc J (WsClose h) c, cl_link := Closed (length (ws_sent (trace c)))\<rparr>)"
| server_close: "sv S = Running s \<Longrightarrow> sv_link S = Opened \<Longrightarrow>
    sys_step Lc Ls J S (S\<lparr>sv := srv_handle Ls J (WsClose h) s, sv_link := Closed (length (ws_sent (trace s)))\<rparr>)"
| client_rtc: "cl S = Running c \<Longrightarrow> enabled (trace c) i \<Longrightarrow>
    sys_step Lc Ls J S (S\<lparr>cl := cl_handle Lc J (FromRtc i) c\<rparr>)"
| server_rtc: "sv S = Running s \<Longrightarrow> enabled (trace s) i \<Longrightarrow>
    sys_step Lc Ls J S (S\<lparr>sv := srv_handle Ls J (FromRtc i) s\<rparr>)"
| deliver_sv: "sv S = Running s \<Longrightarrow> receiving (sv_link S) (trace s) \<Longrightarrow>
    to_sv S < length (in_transit (cl_link S) (trace (state_of (cl S)))) \<Longrightarrow>
    sys_step Lc Ls J S
      (S\<lparr>sv := srv_handle Ls J (WsMessage h (in_transit (cl_link S) (trace (state_of (cl S))) ! to_sv S)) s,
         to_sv := Suc (to_sv S)\<rparr>)"
| deliver_cl: "cl S = Running c \<Longrightarrow> receiving (cl_link S) (trace c) \<Longrightarrow>
    to_cl S < length (in_transit (sv_link S) (trace (state_of (sv S)))) \<Longrightarrow>
    sys_step Lc Ls J S
      (S\<lparr>cl := cl_handle Lc J (WsMessage h (in_transit (sv_link S) (trace (state_of (sv S))) ! to_cl S)) c,
         to_cl := Suc (to_cl S)\<rparr>)"

inductive sys_reachable :: "rtc_lib \<Rightarrow> rtc_lib \<Rightarrow> 'j json_lib \<Rightarrow> sys \<Rightarrow> bool"
  for Lc Ls :: rtc_lib and J :: "'j json_lib" where
  start: "sys_reachable Lc Ls J (sys_init Lc Ls)"
| step: "sys_reachable Lc Ls J S \<Longrightarrow> sys_step Lc Ls J S T \<Longrightarrow> sys_reachable Lc Ls J T"

section \<open>Answers that stop a process\<close>

definition good_ice :: "(string \<Rightarrow> bool) \<Rightarrow> ice \<Rightarrow> bool" where
  "good_ice text_ok i \<longleftrightarrow> ice_complete i \<and> text_ok (candidate i) \<and> text_ok (sdp_mid i)"

text \<open>A candidate of a library as a message carries it.\<close>

definition own_ice :: "rtc_lib \<Rightarrow> cand_ref \<Rightarrow> ice" where
  "own_ice L k = \<lparr>candidate = rl_cand_to_string L k, sdp_mid = rl_cand_mid L k, sdp_mline_index = rl_cand_index L k\<rparr>"

definition cand_rejected :: "rtc_lib \<Rightarrow> ice \<Rightarrow> bool" where
  "cand_rejected L i \<longleftrightarrow> (case rl_create_cand L (sdp_mid i) (sdp_mline_index i) (candidate i) of
     (c, err_line, err_description) \<Rightarrow> err_line \<noteq> [] \<and> err_description \<noteq> [])"

text \<open>
  The stops of a process with library \<open>L\<close> and trace \<open>tr\<close> that an answer of a library accounts for: a WebSocket call that failed at
  this moment, an object that could not be created (at this moment, or before the last line of the log), a description that is gone after it was set, a description (of type \<open>typ\<close>) or
  candidate of the other process (library \<open>R\<close>, trace \<open>otr\<close>) that did not parse, and a candidate of the other process without one of its fields.
\<close>

definition lib_fault ::
  "rtc_lib \<Rightarrow> rtc_lib \<Rightarrow> 'j json_lib \<Rightarrow> string \<Rightarrow> event list \<Rightarrow> app_fault \<Rightarrow> event list \<Rightarrow> bool" where
  "lib_fault L R J typ otr f tr \<longleftrightarrow>
     (case f of
        Threw e \<Rightarrow>
          (\<exists>call txt. rl_ws_error L tr call = Some txt \<and> e = WebSocketError txt) \<or>
          (\<exists>k. ToJsonString J (own_ice R k) \<in> set (ws_sent otr) \<and> \<not> ice_complete (own_ice R k) \<and>
             e = RuntimeError ''Invalid json string for ICE.'')
      | ExitFailure \<Rightarrow>
          rl_create_factory L (butlast tr) = None \<or> rl_create_pc L (butlast tr) = None \<or>
          (\<exists>pc d. LocalDescriptionSet pc d \<in> set otr \<and> fst (rl_create_desc L typ (rl_desc_to_string R d)) = None) \<or>
          (\<exists>k. ToJsonString J (own_ice R k) \<in> set (ws_sent otr) \<and> cand_rejected L (own_ice R k))
      | NullPointer \<Rightarrow>
          rl_create_pc L tr = None \<or>
          (\<exists>pc. rl_create_dc L tr pc ''data_channel'' DataChannelInit_default = None)
      | UseAfterFree \<Rightarrow> (\<exists>pc d. LocalDescriptionSet pc d \<in> set tr \<and> \<not> rl_desc_alive L tr d))"

text \<open>
  What the messages rely on: the JSON library keeps its contract, and the texts that the peer-connection library prints can be
  written as JSON strings.
\<close>

locale rtc_env = json_library J doc text_ok
  for J :: "'j json_lib" and doc text_ok +
  fixes L :: rtc_lib
  assumes desc_text: "text_ok (rl_desc_to_string L d)"
    and cand_text: "text_ok (rl_cand_to_string L k)" "text_ok (rl_cand_mid L k)"

locale handshake_env = C: rtc_env J doc text_ok Lc + S: rtc_env J doc text_ok Ls
  for J :: "'j json_lib" and doc text_ok Lc Ls

section \<open>The invariant of one process\<close>

lemma n_requests_simps [simp]:
  "n_requests [] = 0" "n_requests (tr @ tr') = n_requests tr + n_requests tr'"
  "n_requests (e # tr) = (if ev_request e then Suc (n_requests tr) else n_requests tr)"
  by (simp_all add: n_requests_def)

lemma n_locals_simps [simp]:
  "n_locals [] = 0" "n_locals (tr @ tr') = n_locals tr + n_locals tr'"
  "n_locals (e # tr) = (if ev_local e then Suc (n_locals tr) else n_locals tr)"
  by (simp_all add: n_locals_def)

lemma observed_simps [simp]:
  "\<not> observed []" "observed (tr @ tr') \<longleftrightarrow> observed tr \<or> observed tr'"
  "observed (e # tr) \<longleftrightarrow> ev_observer e \<or> observed tr"
  by (simp_all add: observed_def)

lemma closed_ws_simps [simp]:
  "\<not> closed_ws []" "closed_ws (tr @ tr') \<longleftrightarrow> closed_ws tr \<or> closed_ws tr'"
  "closed_ws (e # tr) \<longleftrightarrow> ev_close e \<or> closed_ws tr"
  by (simp_all add: closed_ws_def)

lemma in_transit_open: "\<not> closed_ws tr \<Longrightarrow> in_transit Opened tr = ws_sent tr"
proof -
  assume "\<not> closed_ws tr"
  then have "takeWhile (\<lambda>e. \<not> ev_close e) tr = tr" by (auto simp: closed_ws_def list_ex_iff takeWhile_eq_all_conv)
  then show ?thesis by (simp only: in_transit_def Let_def link.case)
qed

lemma in_transit_sent: "\<exists>ms. ws_sent tr = in_transit l tr @ ms"
proof -
  have "ws_sent tr = ws_sent (takeWhile (\<lambda>e. \<not> ev_close e) tr) @ ws_sent (dropWhile (\<lambda>e. \<not> ev_close e) tr)"
    by (metis takeWhile_dropWhile_id ws_sent_simps(2))
  moreover obtain ms where "ws_sent (takeWhile (\<lambda>e. \<not> ev_close e) tr) = in_transit l tr @ ms"
    by (cases l) (auto simp: in_transit_def Let_def intro: append_take_drop_id [symmetric])
  ultimately show ?thesis by simp
qed

definition sent_ok ::
  "rtc_lib \<Rightarrow> 'j json_lib \<Rightarrow> (string \<Rightarrow> string) \<Rightarrow> event list \<Rightarrow> bool" where
  "sent_ok L J mk tr \<longleftrightarrow>
     (\<exists>pc d ks. LocalDescriptionSet pc d \<in> set tr \<and>
        ws_sent tr = mk (rl_desc_to_string L d) # map (\<lambda>k. ToJsonString J (own_ice L k)) ks)"

definition proc_inv ::
  "rtc_lib \<Rightarrow> 'j json_lib \<Rightarrow> (string \<Rightarrow> string) \<Rightarrow> ('h, 'm) manager_scheme \<Rightarrow> bool" where
  "proc_inv L J mk s \<longleftrightarrow>
     peer_connection_factory s \<noteq> None \<and>
     n_locals (trace s) \<le> n_requests (trace s) \<and> n_requests (trace s) \<le> 1 \<and>
     (n_requests (trace s) > 0 \<longrightarrow> peer_connection s \<noteq> None) \<and>
     (observed (trace s) \<longrightarrow> data_channel s \<noteq> None) \<and>
     (if n_locals (trace s) = 0 then ws_sent (trace s) = [] else sent_ok L J mk (trace s))"

definition cl_callbacks :: "client \<Rightarrow> bool" where
  "cl_callbacks c \<longleftrightarrow> cb_on_sdp c = Some ClOnSdp \<and> cb_on_ice c = Some ClOnIce \<and>
     cb_on_success c = Some ClOnSuccess \<and> cb_on_message c = Some ClOnMessage \<and> cb_on_accept_ice c = None"

definition srv_callbacks :: "server \<Rightarrow> bool" where
  "srv_callbacks s \<longleftrightarrow> cb_on_sdp s = Some SrvOnSdp \<and> cb_on_ice s = Some SrvOnIce \<and>
     cb_on_success s = Some SrvOnSuccess \<and> cb_on_message s = Some SrvOnMessage \<and> cb_on_accept_ice s = None"

end
