(* ===== verification/Handshake.thy ===== *)
theory Handshake
  imports Signaling
begin

text \<open>
  The handshake of client and server: the invariant of the system over \<open>sys_step\<close>, proved from one lemma per
  handler and input under the contract of the locales \<open>rtc_env\<close> and \<open>handshake_env\<close>. A handler either keeps the
  invariant or stops its process by an answer of a library; the stops are part of the invariant.
\<close>

section \<open>Steps of one process\<close>

lemma sent_ok_quiet: "sent_ok L J mk tr \<Longrightarrow> ws_sent es = [] \<Longrightarrow> sent_ok L J mk (tr @ es)"
  by (auto simp: sent_ok_def)

lemma sent_ok_candidate:
  assumes "sent_ok L J mk tr" "ws_sent es = [ToJsonString J (own_ice L k)]"
  shows "sent_ok L J mk (tr @ es)"
proof -
  obtain pc d ks where "LocalDescriptionSet pc d \<in> set tr"
    "ws_sent tr = mk (rl_desc_to_string L d) # map (\<lambda>k. ToJsonString J (own_ice L k)) ks"
    using assms(1) by (auto simp: sent_ok_def)
  then have "LocalDescriptionSet pc d \<in> set (tr @ es) \<and>
      ws_sent (tr @ es) = mk (rl_desc_to_string L d) # map (\<lambda>k. ToJsonString J (own_ice L k)) (ks @ [k])"
    using assms(2) by simp
  then show ?thesis unfolding sent_ok_def by blast
qed

lemma sent_ok_local:
  assumes "ws_sent tr = []" "LocalDescriptionSet pc d \<in> set es" "ws_sent es = [mk (rl_desc_to_string L d)]"
  shows "sent_ok L J mk (tr @ es)"
proof -
  have "LocalDescriptionSet pc d \<in> set (tr @ es) \<and>
      ws_sent (tr @ es) = mk (rl_desc_to_string L d) # map (\<lambda>k. ToJsonString J (own_ice L k)) []"
    using assms by simp
  then show ?thesis unfolding sent_ok_def by blast
qed

lemma proc_inv_quiet:
  assumes "proc_inv L J mk s"
    "peer_connection_factory s' = peer_connection_factory s"
    "peer_connection s' = peer_connection s"
    "data_channel s' = data_channel s \<or> data_channel s' \<noteq> None"
    "trace s' = trace s @ es" "n_requests es = 0" "n_locals es = 0" "ws_sent es = []"
    "observed es \<longrightarrow> data_channel s' \<noteq> None"
  shows "proc_inv L J mk s'"
  using assms unfolding proc_inv_def by (auto simp: sent_ok_quiet split: if_splits)

lemma proc_inv_candidate:
  assumes "proc_inv L J mk s" "n_locals (trace s) > 0"
    "peer_connection_factory s' = peer_connection_factory s"
    "peer_connection s' = peer_connection s" "data_channel s' = data_channel s"
    "trace s' = trace s @ es" "n_requests es = 0" "n_locals es = 0" "ws_sent es = [ToJsonString J (own_ice L k)]"
    "\<not> observed es"
  shows "proc_inv L J mk s'"
  using assms unfolding proc_inv_def by (auto intro: sent_ok_candidate)

lemma proc_inv_local:
  assumes "proc_inv L J mk s" "n_locals (trace s) < n_requests (trace s)"
    "peer_connection_factory s' = peer_connection_factory s"
    "peer_connection s' = peer_connection s" "data_channel s' = data_channel s"
    "trace s' = trace s @ es" "n_requests es = 0" "n_locals es = 1"
    "LocalDescriptionSet pc d \<in> set es" "ws_sent es = [mk (rl_desc_to_string L d)]" "\<not> observed es"
  shows "proc_inv L J mk s'"
  using assms unfolding proc_inv_def by (auto intro: sent_ok_local split: if_splits)

lemma proc_inv_facts:
  assumes "proc_inv L J mk s"
  shows "n_locals (trace s) < n_requests (trace s) \<Longrightarrow> \<exists>pc. peer_connection s = Some pc"
    and "observed (trace s) \<Longrightarrow> \<exists>dc. data_channel s = Some dc"
    and "ws_sent (trace s) \<noteq> [] \<Longrightarrow> n_requests (trace s) = 1 \<and> sent_ok L J mk (trace s)"
    and "n_requests (trace s) > 0 \<Longrightarrow> \<exists>pc. peer_connection s = Some pc"
    and "\<exists>f. peer_connection_factory s = Some f"
  using assms by (auto simp: proc_inv_def split: if_splits)

text \<open>Inputs that only write to the log.\<close>

fun log_only :: "rtc_input \<Rightarrow> bool" where
  "log_only (InSignalingChange st) = True"
| "log_only InAddStream = True"
| "log_only InRemoveStream = True"
| "log_only InRenegotiationNeeded = True"
| "log_only (InIceConnectionChange st) = True"
| "log_only (InIceGatheringChange st) = True"
| "log_only (InBufferedAmountChange n) = True"
| "log_only (InCsdFailure m) = True"
| "log_only InSsdSuccess = True"
| "log_only (InSsdFailure m) = True"
| "log_only _ = False"

lemma rtc_handle_log_only:
  assumes "log_only i" "cb_on_accept_ice s = None"
  shows "\<exists>t. rtc_handle L call i s = Running (s\<lparr>trace := trace s @ [Cout t]\<rparr>)"
  using assms
  by (cases i) (auto simp: OnSignalingChange_def OnAddStream_def OnRemoveStream_def
      OnRenegotiationNeeded_def OnIceConnectionChange_def OnIceGatheringChange_def
      OnBufferedAmountChange_def CSDO_OnFailure_def SSDO_OnSuccess_def SSDO_OnFailure_def log_defs)

section \<open>What a step may do\<close>

definition no_remote :: "event list \<Rightarrow> bool" where
  "no_remote es \<longleftrightarrow> (\<forall>pc d. RemoteDescriptionSet pc d \<notin> set es)"

lemma no_remote_simps [simp]:
  "no_remote []" "no_remote (tr @ tr') \<longleftrightarrow> no_remote tr \<and> no_remote tr'"
  "no_remote (e # tr) \<longleftrightarrow> (\<forall>pc d. e \<noteq> RemoteDescriptionSet pc d) \<and> no_remote tr"
  by (auto simp: no_remote_def)

definition frame :: "('h, 'm) manager_scheme \<Rightarrow> ('h, 'm) manager_scheme \<Rightarrow> bool" where
  "frame s s' \<longleftrightarrow> peer_connection_factory s' = peer_connection_factory s \<and>
     cb_on_sdp s' = cb_on_sdp s \<and> cb_on_ice s' = cb_on_ice s \<and> cb_on_success s' = cb_on_success s \<and>
     cb_on_message s' = cb_on_message s \<and> cb_on_accept_ice s' = cb_on_accept_ice s"

definition quiet :: "('h, 'm) manager_scheme \<Rightarrow> ('h, 'm) manager_scheme \<Rightarrow> event list \<Rightarrow> bool" where
  "quiet s s' es \<longleftrightarrow> trace s' = trace s @ es \<and> frame s s' \<and> peer_connection s' = peer_connection s \<and>
     n_requests es = 0 \<and> no_remote es"

definition same_channel :: "('h, 'm) manager_scheme \<Rightarrow> ('h, 'm) manager_scheme \<Rightarrow> event list \<Rightarrow> bool" where
  "same_channel s s' es \<longleftrightarrow> data_channel s' = data_channel s \<and> \<not> observed es"

lemma cl_callbacks_frame: "cl_callbacks c \<Longrightarrow> frame c c' \<Longrightarrow> cl_callbacks c'"
  by (simp add: cl_callbacks_def frame_def)

lemma srv_callbacks_frame: "srv_callbacks c \<Longrightarrow> frame c c' \<Longrightarrow> srv_callbacks c'"
  by (simp add: srv_callbacks_def frame_def)

text \<open>A step that stops the process for a reason \<open>F\<close> has requested, sent and accepted nothing.\<close>

definition halts :: "(app_fault \<Rightarrow> event list \<Rightarrow> bool) \<Rightarrow> ('h, 'm) manager_scheme \<Rightarrow>
    (app_fault, ('h, 'm) manager_scheme) outcome \<Rightarrow> bool" where
  "halts F s r \<longleftrightarrow> (\<exists>f s' es. r = Stopped f s' \<and> trace s' = trace s @ es \<and> n_requests es = 0 \<and> ws_sent es = [] \<and>
     no_remote es \<and> F f (trace s'))"

lemma halts_Stopped [simp]:
  "halts F s (Stopped f s') \<longleftrightarrow> (\<exists>es. trace s' = trace s @ es \<and> n_requests es = 0 \<and> ws_sent es = [] \<and> no_remote es) \<and> F f (trace s')"
  "\<not> halts F s (Running s')"
  by (auto simp: halts_def)

definition sends :: "(app_fault \<Rightarrow> event list \<Rightarrow> bool) \<Rightarrow> string list \<Rightarrow> ('h, 'm) manager_scheme \<Rightarrow>
    (app_fault, ('h, 'm) manager_scheme) outcome \<Rightarrow> bool" where
  "sends F ms s r \<longleftrightarrow> (\<exists>s' es. r = Running s' \<and> quiet s s' es \<and> same_channel s s' es \<and> n_locals es = 0 \<and> ws_sent es = ms) \<or> halts F s r"

lemma sends_simps [simp]:
  "sends F ms s (Running s') \<longleftrightarrow> (\<exists>es. quiet s s' es \<and> same_channel s s' es \<and> n_locals es = 0 \<and> ws_sent es = ms)"
  "sends F ms s (Stopped f s') \<longleftrightarrow> halts F s (Stopped f s')"
  by (auto simp: sends_def)

lemma lib_fault_simps [simp]:
  "rl_ws_error L tr call = Some txt \<Longrightarrow> lib_fault L R J typ otr (Threw (WebSocketError txt)) tr"
  "lib_fault L R J typ otr NullPointer tr \<longleftrightarrow> rl_create_pc L tr = None \<or>
     (\<exists>pc. rl_create_dc L tr pc ''data_channel'' DataChannelInit_default = None)"
  "lib_fault L R J typ otr UseAfterFree tr \<longleftrightarrow> (\<exists>pc d. LocalDescriptionSet pc d \<in> set tr \<and> \<not> rl_desc_alive L tr d)"
  by (auto simp: lib_fault_def)

lemma lib_fault_mono: "lib_fault L R J typ otr f tr \<Longrightarrow> lib_fault L R J typ (otr @ es) f tr"
  unfolding lib_fault_def by (cases f) (simp_all, blast+)

lemmas step_defs = log_defs quiet_def same_channel_def frame_def

section \<open>The handlers\<close>

lemma cl_candidate:
  assumes "cl_callbacks c"
  shows "sends (lib_fault L R J typ otr) [ToJsonString J (own_ice L k)] c (cl_handle L J (FromRtc (InIceCandidate k)) c)"
  using assms
  by (auto simp: cl_callbacks_def OnIceCandidate_def on_ice_candidate_def cl_on_ice_def ws_do_def own_ice_def step_defs split: option.splits)

lemma cl_message:
  assumes "cl_callbacks c"
  shows "sends F [] c (cl_handle L J (FromRtc (InMessage b)) c)"
  using assms by (simp add: cl_callbacks_def OnMessage_def cl_on_message_def step_defs Let_def)

lemma cl_state_change:
  assumes "cl_callbacks c" "data_channel c = Some dc"
  shows "sends F [] c (cl_handle L J (FromRtc InStateChange) c)"
  using assms by (simp add: cl_callbacks_def OnStateChange_def on_state_change_def cl_on_success_def step_defs)

lemma sv_candidate:
  assumes "srv_callbacks s"
  shows "sends (lib_fault L R J typ otr) [ToJsonString J (own_ice L k)] s (srv_handle L J (FromRtc (InIceCandidate k)) s)"
  using assms
  by (auto simp: srv_callbacks_def OnIceCandidate_def on_ice_candidate_def srv_on_ice_def ws_do_def own_ice_def step_defs split: option.splits)

lemma sv_message:
  assumes "srv_callbacks s" "data_channel s = Some dc"
  shows "sends (lib_fault L R J typ otr) [] s (srv_handle L J (FromRtc (InMessage b)) s)"
  using assms
  by (cases "string_of_bytes (db_data b) = ''exit''")
    (auto simp: srv_callbacks_def OnMessage_def srv_on_message_def send_def ws_do_def step_defs Let_def split: option.splits)

lemma sv_state_change:
  assumes "srv_callbacks s" "data_channel s = Some dc"
  shows "sends (lib_fault L R J typ otr) [] s (srv_handle L J (FromRtc InStateChange) s)"
  using assms
  by (auto simp: srv_callbacks_def OnStateChange_def on_state_change_def srv_on_success_def ws_do_def step_defs split: option.splits)

lemma rtc_log_only:
  assumes "log_only i" "cb_on_accept_ice s = None"
  shows "sends F [] s (rtc_handle L call i s)"
proof -
  obtain t where "rtc_handle L call i s = Running (s\<lparr>trace := trace s @ [Cout t]\<rparr>)"
    using rtc_handle_log_only [OF assms] by blast
  then show ?thesis by (simp add: step_defs)
qed

lemma rtc_data_channel:
  "\<exists>s' es. rtc_handle L call (InDataChannel (Some dc)) s = Running s' \<and> quiet s s' es \<and>
    data_channel s' = Some dc \<and> n_locals es = 0 \<and> ws_sent es = []"
  by (simp add: OnDataChannel_def step_defs)

lemma ws_events:
  "sends F [] c (cl_handle L J (WsClose h) c)" "sends F [] s (srv_handle L J (WsOpen h) s)" "sends F [] s (srv_handle L J (WsClose h) s)"
  by (simp_all add: cl_CloseHandler_def srv_OpenHandler_def srv_CloseHandler_def step_defs)

text \<open>A description is set as the local one and sent.\<close>

definition sends_local :: "(app_fault \<Rightarrow> event list \<Rightarrow> bool) \<Rightarrow> string \<Rightarrow> pc_ref \<Rightarrow> desc_ref \<Rightarrow> ('h, 'm) manager_scheme \<Rightarrow>
    (app_fault, ('h, 'm) manager_scheme) outcome \<Rightarrow> bool" where
  "sends_local F m pc d s r \<longleftrightarrow> (\<exists>s' es. r = Running s' \<and> quiet s s' es \<and> same_channel s s' es \<and> n_locals es = 1 \<and>
     LocalDescriptionSet pc d \<in> set es \<and> ws_sent es = [m]) \<or> halts F s r"

lemma cl_csd:
  assumes "cl_callbacks c" "peer_connection c = Some pc"
  shows "sends_local (lib_fault L R J typ otr) (offer_message J (rl_desc_to_string L d)) pc d c (cl_handle L J (FromRtc (InCsdSuccess d)) c)"
  using assms
  by (auto simp: sends_local_def cl_callbacks_def CSDO_OnSuccess_def on_success_csd_def cl_on_sdp_def ws_do_def step_defs split: option.splits)

lemma sv_csd:
  assumes "srv_callbacks s" "peer_connection s = Some pc"
  shows "sends_local (lib_fault L R J typ otr) (answer_message J (rl_desc_to_string L d)) pc d s (srv_handle L J (FromRtc (InCsdSuccess d)) s)"
  using assms
  by (auto simp: sends_local_def srv_callbacks_def CSDO_OnSuccess_def on_success_csd_def srv_on_sdp_def ws_do_def step_defs split: option.splits)

text \<open>The opened client requests a description.\<close>

lemma cl_open:
  assumes "peer_connection_factory c = Some f"
  shows "(\<exists>c' es. cl_handle L J (WsOpen h) c = Running c' \<and> trace c' = trace c @ es \<and> frame c c' \<and>
    peer_connection c' \<noteq> None \<and> data_channel c' \<noteq> None \<and>
    n_requests es = 1 \<and> n_locals es = 0 \<and> ws_sent es = [] \<and> no_remote es) \<or>
    halts (lib_fault L R J typ otr) c (cl_handle L J (WsOpen h) c)"
  using assms
  by (auto simp: cl_OpenHandler_def create_offer_sdp_def create_peer_connection_def step_defs Let_def
      split: option.splits)

section \<open>Messages of the other process\<close>

definition has_remote :: "event list \<Rightarrow> bool" where
  "has_remote tr \<longleftrightarrow> (\<exists>pc d. RemoteDescriptionSet pc d \<in> set tr)"

lemma has_remote_simps [simp]:
  "has_remote (tr @ es) \<longleftrightarrow> has_remote tr \<or> has_remote es" "\<not> has_remote []"
  "has_remote (e # tr) \<longleftrightarrow> (\<exists>pc d. e = RemoteDescriptionSet pc d) \<or> has_remote tr"
  by (auto simp: has_remote_def)

text \<open>The step sets no remote description but \<open>d\<close>, and that one.\<close>

definition sets_remote :: "desc_ref \<Rightarrow> event list \<Rightarrow> bool" where
  "sets_remote d es \<longleftrightarrow> has_remote es \<and> (\<forall>pc e. RemoteDescriptionSet pc e \<in> set es \<longrightarrow> e = d)"

text \<open>The text is parsed, and its description set.\<close>

definition accepts :: "rtc_lib \<Rightarrow> string \<Rightarrow> string \<Rightarrow> event list \<Rightarrow> bool" where
  "accepts L typ sdp es \<longleftrightarrow> (\<exists>d. fst (rl_create_desc L typ sdp) = Some d \<and> sets_remote d es)"

lemma lib_fault_exit:
  "rl_create_factory L (butlast tr) = None \<Longrightarrow> lib_fault L R J typ otr ExitFailure tr"
  "rl_create_pc L (butlast tr) = None \<Longrightarrow> lib_fault L R J typ otr ExitFailure tr"
  "LocalDescriptionSet pc d \<in> set otr \<Longrightarrow> rl_create_desc L typ (rl_desc_to_string R d) = (None, e) \<Longrightarrow> lib_fault L R J typ otr ExitFailure tr"
  "ToJsonString J (own_ice R k) \<in> set (ws_sent otr) \<Longrightarrow> cand_rejected L (own_ice R k) \<Longrightarrow> lib_fault L R J typ otr ExitFailure tr"
  by (simp_all add: lib_fault_def) (metis fst_conv, blast)

context json_library
begin

lemma offer_message_read:
  assumes "text_ok sdp"
  shows "\<exists>json. StringToJson J (offer_message J sdp) = Inr json \<and>
    get_string J json ''type'' = Inr ''offer'' \<and> get_string J json ''sdp'' = Inr sdp"
  using assms by (simp add: offer_message_def Let_def StringToJson_JsonToString doc_intros get_simps)

lemma answer_message_read:
  assumes "text_ok sdp"
  shows "\<exists>json. StringToJson J (answer_message J sdp) = Inr json \<and>
    get_string J json ''type'' = Inr ''answer'' \<and> get_string J json ''answer'' = Inr sdp"
  using assms by (simp add: answer_message_def Let_def StringToJson_JsonToString doc_intros get_simps)

lemma sv_offer:
  fixes L :: rtc_lib and h :: hdl
  assumes "text_ok (rl_desc_to_string R d)" "LocalDescriptionSet pc d \<in> set otr" "peer_connection_factory s = Some f"
  defines "r \<equiv> srv_handle L J (WsMessage h (offer_message J (rl_desc_to_string R d))) s"
  shows "(\<exists>s' es e. r = Running s' \<and> trace s' = trace s @ es \<and> frame s s' \<and> peer_connection s' \<noteq> None \<and> same_channel s s' es \<and>
      n_requests es = 1 \<and> n_locals es = 0 \<and> ws_sent es = [] \<and> sets_remote e es \<and>
      fst (rl_create_desc L ''offer'' (rl_desc_to_string R d)) = Some e) \<or>
    halts (lib_fault L R J ''offer'' otr) s r"
proof -
  let ?sdp = "rl_desc_to_string R d"
  obtain json where j: "StringToJson J (offer_message J ?sdp) = Inr json"
    "get_string J json ''type'' = Inr ''offer''" "get_string J json ''sdp'' = Inr ?sdp"
    using offer_message_read [OF assms(1)] by blast
  obtain sd e where sd: "rl_create_desc L ''offer'' ?sdp = (sd, e)" by (cases "rl_create_desc L ''offer'' ?sdp")
  show ?thesis
    using assms(3) lib_fault_exit(3) [OF assms(2), of L "''offer''" R e J]
    by (cases e; cases sd) (auto simp: r_def srv_MessageHandler_def j sd create_answer_sdp_def create_peer_connection_def
        set_remote_sdp_def sets_remote_def step_defs Let_def butlast_append split: option.splits intro!: lib_fault_exit(2))
qed

lemma cl_answer:
  fixes L :: rtc_lib and h :: hdl
  assumes "text_ok (rl_desc_to_string R d)" "LocalDescriptionSet p d \<in> set otr" "peer_connection c = Some pc"
  defines "r \<equiv> cl_handle L J (WsMessage h (answer_message J (rl_desc_to_string R d))) c"
  shows "(\<exists>c' es e. r = Running c' \<and> trace c' = trace c @ es \<and> frame c c' \<and> peer_connection c' = peer_connection c \<and> same_channel c c' es \<and>
      n_requests es = 0 \<and> n_locals es = 0 \<and> ws_sent es = [] \<and> sets_remote e es \<and>
      fst (rl_create_desc L ''answer'' (rl_desc_to_string R d)) = Some e) \<or>
    halts (lib_fault L R J ''answer'' otr) c r"
proof -
  let ?sdp = "rl_desc_to_string R d"
  obtain json where j: "StringToJson J (answer_message J ?sdp) = Inr json"
    "get_string J json ''type'' = Inr ''answer''" "get_string J json ''answer'' = Inr ?sdp"
    using answer_message_read [OF assms(1)] by blast
  obtain sd e where sd: "rl_create_desc L ''answer'' ?sdp = (sd, e)" by (cases "rl_create_desc L ''answer'' ?sdp")
  show ?thesis
    using assms(3) lib_fault_exit(3) [OF assms(2), of L "''answer''" R e J]
    by (cases e; cases sd) (auto simp: r_def cl_MessageHandler_def j sd push_reply_sdp_def set_remote_sdp_def sets_remote_def step_defs)
qed

lemma ice_read:
  assumes "text_ok (rl_cand_to_string R k)" "text_ok (rl_cand_mid R k)"
  shows "\<exists>json. StringToJson J (ToJsonString J (own_ice R k)) = Inr json \<and> get_string J json ''type'' = Inr ''ice''"
    "FromJsonString J (ToJsonString J (own_ice R k)) =
      (if ice_complete (own_ice R k) then Inr (own_ice R k) else Inl (RuntimeError ''Invalid json string for ICE.''))"
  using assms message_type_ice [of "own_ice R k"] FromJsonString_ToJsonString [of "own_ice R k"] by (simp_all add: own_ice_def)

lemma sv_ice:
  assumes "text_ok (rl_cand_to_string R k)" "text_ok (rl_cand_mid R k)" "ToJsonString J (own_ice R k) \<in> set (ws_sent otr)"
    "peer_connection s = Some pc"
  shows "sends (lib_fault L R J typ otr) [] s (srv_handle L J (WsMessage h (ToJsonString J (own_ice R k))) s)"
proof -
  obtain json where j: "StringToJson J (ToJsonString J (own_ice R k)) = Inr json" "get_string J json ''type'' = Inr ''ice''"
    using ice_read(1) [OF assms(1,2)] by blast
  have bad: "\<not> ice_complete (own_ice R k) \<Longrightarrow> lib_fault L R J typ otr (Threw (RuntimeError ''Invalid json string for ICE.'')) tr" for tr
    using assms(3) by (auto simp: lib_fault_def)
  show ?thesis
    using assms(4) bad lib_fault_exit(4) [OF assms(3), of L "typ"]
    by (auto simp: srv_MessageHandler_def j ice_read(2) [OF assms(1,2)] push_ice_def cand_rejected_def step_defs split: prod.splits)
qed

lemma cl_ice:
  assumes "text_ok (rl_cand_to_string R k)" "text_ok (rl_cand_mid R k)" "ToJsonString J (own_ice R k) \<in> set (ws_sent otr)"
    "peer_connection c = Some pc"
  shows "sends (lib_fault L R J typ otr) [] c (cl_handle L J (WsMessage h (ToJsonString J (own_ice R k))) c)"
proof -
  obtain json where j: "StringToJson J (ToJsonString J (own_ice R k)) = Inr json" "get_string J json ''type'' = Inr ''ice''"
    using ice_read(1) [OF assms(1,2)] by blast
  have bad: "\<not> ice_complete (own_ice R k) \<Longrightarrow> lib_fault L R J typ otr (Threw (RuntimeError ''Invalid json string for ICE.'')) tr" for tr
    using assms(3) by (auto simp: lib_fault_def)
  show ?thesis
    using assms(4) bad lib_fault_exit(4) [OF assms(3), of L "typ"]
    by (auto simp: cl_MessageHandler_def j ice_read(2) [OF assms(1,2)] push_ice_def cand_rejected_def step_defs split: prod.splits)
qed

end

section \<open>Steps keep the invariant or stop\<close>

definition moves :: "rtc_lib \<Rightarrow> 'j json_lib \<Rightarrow> (string \<Rightarrow> string) \<Rightarrow> (app_fault \<Rightarrow> event list \<Rightarrow> bool) \<Rightarrow> nat \<Rightarrow> (event list \<Rightarrow> bool) \<Rightarrow>
    ('h, 'm) manager_scheme \<Rightarrow> (app_fault, ('h, 'm) manager_scheme) outcome \<Rightarrow> bool" where
  "moves L J mk F k P s r \<longleftrightarrow>
     (\<exists>s' es. r = Running s' \<and> trace s' = trace s @ es \<and> frame s s' \<and> proc_inv L J mk s' \<and> n_requests es = k \<and>
        P es) \<or> halts F s r"

lemma moves_sends:
  assumes "proc_inv L J mk s" "sends F [] s r"
  shows "moves L J mk F 0 no_remote s r"
  using assms(2) unfolding sends_def moves_def
proof (elim disjE exE conjE)
  fix s' es assume s': "r = Running s'" "quiet s s' es" "same_channel s s' es" "n_locals es = 0" "ws_sent es = []"
  then have "proc_inv L J mk s'"
    by (intro proc_inv_quiet [OF assms(1), of s' es]) (simp_all add: quiet_def same_channel_def frame_def)
  with s' show "(\<exists>s' es. r = Running s' \<and> trace s' = trace s @ es \<and> frame s s' \<and> proc_inv L J mk s' \<and> n_requests es = 0 \<and>
      no_remote es) \<or> halts F s r" by (simp add: quiet_def)
qed simp

lemma moves_channel:
  assumes "proc_inv L J mk s"
    "\<exists>s' es. r = Running s' \<and> quiet s s' es \<and> data_channel s' = Some dc \<and> n_locals es = 0 \<and> ws_sent es = []"
  shows "moves L J mk F 0 no_remote s r"
proof -
  obtain s' es where s': "r = Running s'" "quiet s s' es" "data_channel s' = Some dc" "n_locals es = 0" "ws_sent es = []"
    using assms(2) by blast
  then have "proc_inv L J mk s'"
    by (intro proc_inv_quiet [OF assms(1), of s' es]) (simp_all add: quiet_def frame_def)
  with s' show ?thesis by (simp add: moves_def quiet_def)
qed

lemma moves_candidate:
  assumes "proc_inv L J mk s" "n_locals (trace s) > 0" "sends F [ToJsonString J (own_ice L k)] s r"
  shows "moves L J mk F 0 no_remote s r"
  using assms(3) unfolding sends_def
proof (elim disjE exE conjE)
  fix s' es assume s': "r = Running s'" "quiet s s' es" "same_channel s s' es" "n_locals es = 0"
    "ws_sent es = [ToJsonString J (own_ice L k)]"
  then have "proc_inv L J mk s'"
    by (intro proc_inv_candidate [OF assms(1,2), of s' es]) (simp_all add: quiet_def same_channel_def frame_def)
  with s' show ?thesis by (simp add: moves_def quiet_def)
qed (simp add: moves_def)

lemma moves_local:
  assumes "proc_inv L J mk s" "n_locals (trace s) < n_requests (trace s)" "sends_local F (mk (rl_desc_to_string L d)) pc d s r"
  shows "moves L J mk F 0 no_remote s r"
  using assms(3) unfolding sends_local_def
proof (elim disjE exE conjE)
  fix s' es assume s': "r = Running s'" "quiet s s' es" "same_channel s s' es" "n_locals es = 1"
    "LocalDescriptionSet pc d \<in> set es" "ws_sent es = [mk (rl_desc_to_string L d)]"
  then have "proc_inv L J mk s'"
    by (intro proc_inv_local [OF assms(1,2), of s' es]) (simp_all add: quiet_def same_channel_def frame_def)
  with s' show ?thesis by (simp add: moves_def quiet_def)
qed (simp add: moves_def)

lemma cl_rtc_moves:
  assumes "proc_inv L J (offer_message J) c" "cl_callbacks c" "enabled (trace c) i"
  shows "moves L J (offer_message J) (lib_fault L R J typ otr) 0 no_remote c (cl_handle L J (FromRtc i) c)"
proof (cases "log_only i")
  case True
  have "cb_on_accept_ice c = None" using assms(2) by (simp add: cl_callbacks_def)
  then show ?thesis using moves_sends [OF assms(1) rtc_log_only [OF True]] by simp
next
  case False
  note inv = proc_inv_facts [OF assms(1)]
  show ?thesis
  proof (cases i)
    case (InDataChannel dc)
    then obtain d where "dc = Some d" using assms(3) by auto
    with InDataChannel show ?thesis using moves_channel [OF assms(1) rtc_data_channel] by simp
  next
    case (InIceCandidate k)
    then show ?thesis using moves_candidate [OF assms(1) _ cl_candidate [OF assms(2)]] assms(3) by simp
  next
    case InStateChange
    then show ?thesis using moves_sends [OF assms(1) cl_state_change [OF assms(2)]] inv(2) assms(3) by auto
  next
    case (InMessage b)
    then show ?thesis using moves_sends [OF assms(1) cl_message [OF assms(2)]] by simp
  next
    case (InCsdSuccess d)
    then show ?thesis using moves_local [OF assms(1) _ cl_csd [OF assms(2)]] inv(1) assms(3) by auto
  qed (use False in auto)
qed

lemma sv_rtc_moves:
  assumes "proc_inv L J (answer_message J) s" "srv_callbacks s" "enabled (trace s) i"
  shows "moves L J (answer_message J) (lib_fault L R J typ otr) 0 no_remote s (srv_handle L J (FromRtc i) s)"
proof (cases "log_only i")
  case True
  have "cb_on_accept_ice s = None" using assms(2) by (simp add: srv_callbacks_def)
  then show ?thesis using moves_sends [OF assms(1) rtc_log_only [OF True]] by simp
next
  case False
  note inv = proc_inv_facts [OF assms(1)]
  show ?thesis
  proof (cases i)
    case (InDataChannel dc)
    then obtain d where "dc = Some d" using assms(3) by auto
    with InDataChannel show ?thesis using moves_channel [OF assms(1) rtc_data_channel] by simp
  next
    case (InIceCandidate k)
    then show ?thesis using moves_candidate [OF assms(1) _ sv_candidate [OF assms(2)]] assms(3) by simp
  next
    case InStateChange
    then obtain dc where "data_channel s = Some dc" using inv(2) assms(3) by auto
    with InStateChange show ?thesis using moves_sends [OF assms(1) sv_state_change [OF assms(2)]] by blast
  next
    case (InMessage b)
    then obtain dc where "data_channel s = Some dc" using inv(2) assms(3) by auto
    with InMessage show ?thesis using moves_sends [OF assms(1) sv_message [OF assms(2)]] by blast
  next
    case (InCsdSuccess d)
    then show ?thesis using moves_local [OF assms(1) _ sv_csd [OF assms(2)]] inv(1) assms(3) by auto
  qed (use False in auto)
qed

lemma cl_open_moves:
  assumes "proc_inv L J (offer_message J) c" "n_requests (trace c) = 0"
  shows "moves L J (offer_message J) (lib_fault L R J typ otr) 1 no_remote c (cl_handle L J (WsOpen h) c)"
proof -
  obtain f where "peer_connection_factory c = Some f" using proc_inv_facts(5) [OF assms(1)] by blast
  from cl_open [OF this, of L J h R "typ" otr] show ?thesis
    using assms unfolding moves_def proc_inv_def by (elim disjE exE conjE) (auto simp: frame_def)
qed

section \<open>The constructors\<close>

lemma sends_andthen:
  assumes "sends F [] s r" "\<And>t. sends F [] t (k t)"
  shows "sends F [] s (andthen r k)"
proof (cases r)
  case (Running t)
  then show ?thesis using assms(1) assms(2) [of t]
    by (cases "k t") (auto simp: quiet_def same_channel_def frame_def)
next
  case (Stopped f t)
  then show ?thesis using assms(1) by simp
qed

lemma sends_seq: "list_all (\<lambda>f. \<forall>s. sends F [] s (f s)) fs \<Longrightarrow> sends F [] s (seq fs s)"
  by (induction fs arbitrary: s) (auto simp: quiet_def same_channel_def frame_def intro: sends_andthen)

lemma ws_do_sends: "ws_sent [Ws c] = ms \<Longrightarrow> sends (lib_fault L R J typ otr) ms s (ws_do L c s)"
  by (auto simp: ws_do_def quiet_def same_channel_def frame_def split: option.splits)

text \<open>A process that has been set up: no peer connection is requested yet, no message sent.\<close>

definition fresh :: "('h, 'm) manager_scheme \<Rightarrow> bool" where
  "fresh s \<longleftrightarrow> peer_connection s = None \<and> data_channel s = None \<and> n_requests (trace s) = 0 \<and> n_locals (trace s) = 0 \<and>
     ws_sent (trace s) = [] \<and> no_remote (trace s) \<and> \<not> observed (trace s)"

lemma init_fresh:
  assumes "fresh s"
  shows "(\<exists>s' f. init L s = Running s' \<and> fresh s' \<and> peer_connection_factory s' = Some f \<and>
    cb_on_sdp s' = cb_on_sdp s \<and> cb_on_ice s' = cb_on_ice s \<and> cb_on_success s' = cb_on_success s \<and>
    cb_on_message s' = cb_on_message s \<and> cb_on_accept_ice s' = cb_on_accept_ice s) \<or>
    halts (lib_fault L R J typ otr) s (init L s)"
proof -
  let ?t = "trace s @ [Cout (log_text L (mgr_name s) ''init Main thread'' (trace s)),
    ThreadStart NetworkThread, ThreadStart WorkerThread, ThreadStart SignalingThread]"
  have "rl_create_factory L ?t = None \<Longrightarrow> lib_fault L R J typ otr ExitFailure (?t @ [e])" for e
    by (rule lib_fault_exit(1)) (simp add: butlast_append)
  then show ?thesis using assms
    by (cases "rl_create_factory L ?t") (simp_all add: init_def fresh_def log_defs)
qed

lemma fresh_sends: "fresh s \<Longrightarrow> sends F [] s (Running s') \<Longrightarrow> fresh s' \<and> frame s s'"
  by (auto simp: fresh_def quiet_def same_channel_def)

text \<open>The outcome of a constructor.\<close>

definition built :: "rtc_lib \<Rightarrow> 'j json_lib \<Rightarrow> (string \<Rightarrow> string) \<Rightarrow> (app_fault \<Rightarrow> event list \<Rightarrow> bool) \<Rightarrow> ('h, 'm) manager_scheme \<Rightarrow>
    (app_fault, ('h, 'm) manager_scheme) outcome \<Rightarrow> bool" where
  "built L J mk F s r \<longleftrightarrow> n_requests (trace (state_of r)) = 0 \<and> ws_sent (trace (state_of r)) = [] \<and> no_remote (trace (state_of r)) \<and>
     (case r of
        Running s' \<Rightarrow> proc_inv L J mk s' \<and> cb_on_sdp s' = cb_on_sdp s \<and> cb_on_ice s' = cb_on_ice s \<and>
          cb_on_success s' = cb_on_success s \<and> cb_on_message s' = cb_on_message s \<and> cb_on_accept_ice s' = cb_on_accept_ice s
      | Stopped f s' \<Rightarrow> F f (trace s'))"

lemma init_built:
  fixes s :: "('h, 'm) manager_scheme"
  assumes "fresh s" "\<And>t. sends (lib_fault L R J typ otr) [] t (seq fs t)"
  shows "built L J mk (lib_fault L R J typ otr) s (andthen (init L s) (seq fs))"
  using init_fresh [OF assms(1), of L R J "typ" otr]
proof (elim disjE exE conjE)
  fix s' f
  assume s': "init L s = Running s'" "fresh s'" "peer_connection_factory s' = Some f"
    "cb_on_sdp s' = cb_on_sdp s" "cb_on_ice s' = cb_on_ice s" "cb_on_success s' = cb_on_success s"
    "cb_on_message s' = cb_on_message s" "cb_on_accept_ice s' = cb_on_accept_ice s"
  show ?thesis
  proof (cases "seq fs s'")
    case (Running t)
    then have "fresh t" "frame s' t" using fresh_sends [OF s'(2)] assms(2) [of s'] by auto
    then show ?thesis using s' Running by (simp add: built_def proc_inv_def fresh_def frame_def)
  next
    case (Stopped f t)
    then show ?thesis using assms(2) [of s'] s' by (auto simp: built_def fresh_def)
  qed
next
  assume "halts (lib_fault L R J typ otr) s (init L s)"
  then show ?thesis using assms(1) by (cases "init L s") (auto simp: built_def fresh_def)
qed

lemma client_built:
  "\<exists>s. cl_callbacks s \<and> built L J mk (lib_fault L R J typ otr) s (client_construct L uri)"
proof -
  let ?s = "on_success ClOnSuccess (on_sdp ClOnSdp (on_message ClOnMessage (on_ice ClOnIce (client_new uri))))"
  let ?fs = "[ws_do L ClearAccessChannels, ws_do L (SetHandler ''open''), ws_do L (SetHandler ''close''),
    ws_do L (SetHandler ''message''), ws_do L InitAsio, ws_do L (GetConnection uri), ws_do L Connect, ws_do L Run]"
  have "sends (lib_fault L R J typ otr) [] t (seq ?fs t)" for t :: client
    by (intro sends_seq) (simp add: ws_do_sends)
  moreover have "fresh ?s" "cl_callbacks ?s"
    by (simp_all add: fresh_def cl_callbacks_def client_new_def on_ice_def on_message_def on_sdp_def on_success_def)
  ultimately show ?thesis using init_built [of ?s L R J "typ" otr ?fs mk] by (intro exI [of _ ?s]) (simp add: client_construct_def)
qed

lemma server_built:
  "\<exists>s. srv_callbacks s \<and> built L J mk (lib_fault L R J typ otr) s (server_construct L port)"
proof -
  let ?s = "on_success SrvOnSuccess (on_sdp SrvOnSdp (on_message SrvOnMessage (on_ice SrvOnIce (server_new port))))"
  let ?fs = "[ws_do L ClearAccessChannels, ws_do L (SetHandler ''open''), ws_do L (SetHandler ''close''),
    ws_do L (SetHandler ''message''), ws_do L InitAsio, ws_do L (SetReuseAddr True), \<lambda>s. ws_do L (Listen (srv_port s)) s,
    ws_do L StartAccept, ws_do L Run]"
  have "sends (lib_fault L R J typ otr) [] t (seq ?fs t)" for t :: server
    by (intro sends_seq) (simp add: ws_do_sends)
  moreover have "fresh ?s" "srv_callbacks ?s"
    by (simp_all add: fresh_def srv_callbacks_def server_new_def on_ice_def on_message_def on_sdp_def on_success_def)
  ultimately show ?thesis using init_built [of ?s L R J "typ" otr ?fs mk] by (intro exI [of _ ?s]) (simp add: server_construct_def)
qed

section \<open>The invariant of the system\<close>

definition agrees :: "string \<Rightarrow> rtc_lib \<Rightarrow> event list \<Rightarrow> rtc_lib \<Rightarrow> event list \<Rightarrow> bool" where
  "agrees typ Ll tloc Lr tr \<longleftrightarrow>
     (\<forall>pc d. RemoteDescriptionSet pc d \<in> set tr \<longrightarrow>
       (\<exists>pc' d'. LocalDescriptionSet pc' d' \<in> set tloc \<and>
          fst (rl_create_desc Lr typ (rl_desc_to_string Ll d')) = Some d))"

lemma agrees_local: "agrees typ Ll tloc Lr tr \<Longrightarrow> agrees typ Ll (tloc @ es) Lr tr"
  unfolding agrees_def by fastforce

lemma agrees_append: "agrees typ Ll tloc Lr (tr @ es) \<longleftrightarrow> agrees typ Ll tloc Lr tr \<and> agrees typ Ll tloc Lr es"
  unfolding agrees_def by auto

lemma agrees_no_remote: "no_remote es \<Longrightarrow> agrees typ Ll tloc Lr es"
  by (simp add: agrees_def no_remote_def)

lemma agrees_accepts:
  "LocalDescriptionSet pc d \<in> set tloc \<Longrightarrow> accepts Lr typ (rl_desc_to_string Ll d) es \<Longrightarrow> agrees typ Ll tloc Lr es"
  unfolding agrees_def accepts_def sets_remote_def by blast

lemma accepts_remote: "accepts L typ sdp es \<Longrightarrow> has_remote es"
  by (auto simp: accepts_def sets_remote_def)

lemma sent_ok_nth:
  assumes "sent_ok L J mk tr" "n < length (ws_sent tr)"
  shows "(n = 0 \<and> (\<exists>pc d. LocalDescriptionSet pc d \<in> set tr \<and> ws_sent tr ! n = mk (rl_desc_to_string L d))) \<or>
    (n > 0 \<and> (\<exists>k. ToJsonString J (own_ice L k) \<in> set (ws_sent tr) \<and> ws_sent tr ! n = ToJsonString J (own_ice L k)))"
proof -
  obtain pc d ks where *: "LocalDescriptionSet pc d \<in> set tr"
    "ws_sent tr = mk (rl_desc_to_string L d) # map (\<lambda>k. ToJsonString J (own_ice L k)) ks"
    using assms(1) by (auto simp: sent_ok_def)
  show ?thesis
  proof (cases n)
    case 0
    then show ?thesis using * by auto
  next
    case (Suc m)
    then have "ws_sent tr ! n = ToJsonString J (own_ice L (ks ! m))" using * assms(2) by simp
    with Suc show ?thesis using nth_mem [OF assms(2)] by auto
  qed
qed

text \<open>One end: \<open>asked\<close> tells whether the process was asked to request its description.\<close>

definition end_ok ::
  "rtc_lib \<Rightarrow> rtc_lib \<Rightarrow> 'j json_lib \<Rightarrow> string \<Rightarrow> (string \<Rightarrow> string) \<Rightarrow> event list \<Rightarrow> bool \<Rightarrow>
     (app_fault, ('h, 'm) manager_scheme) outcome \<Rightarrow> bool" where
  "end_ok L R J typ mk otr asked r \<longleftrightarrow>
     n_requests (trace (state_of r)) \<le> of_bool asked \<and>
     (ws_sent (trace (state_of r)) = [] \<or> sent_ok L J mk (trace (state_of r)) \<and> n_requests (trace (state_of r)) = 1) \<and>
     (case r of
        Running s \<Rightarrow> proc_inv L J mk s \<and> n_requests (trace s) = of_bool asked
      | Stopped f s \<Rightarrow> lib_fault L R J typ otr f (trace s))"

lemma end_ok_mono: "end_ok L R J typ mk otr a r \<Longrightarrow> end_ok L R J typ mk (otr @ es) a r"
  by (cases r) (auto simp: end_ok_def lib_fault_mono)

lemma moves_end_ok:
  assumes "end_ok L R J typ mk otr a (Running s)" "moves L J mk (lib_fault L R J typ otr) k P s r" "of_bool b = of_bool a + k"
  shows "end_ok L R J typ mk otr b r"
  using assms(2) unfolding moves_def
proof (elim disjE exE conjE)
  fix s' es
  assume s': "r = Running s'" "trace s' = trace s @ es" "proc_inv L J mk s'" "n_requests es = k"
  then have "n_requests (trace s') = of_bool b" using assms(1,3) by (simp add: end_ok_def)
  moreover have "ws_sent (trace s') = [] \<or> sent_ok L J mk (trace s') \<and> n_requests (trace s') = 1"
    using proc_inv_facts(3) [OF s'(3)] by blast
  ultimately show ?thesis using s'(1,3) by (simp add: end_ok_def)
next
  assume "halts (lib_fault L R J typ otr) s r"
  then obtain f s' es where "r = Stopped f s'" "trace s' = trace s @ es" "n_requests es = 0" "ws_sent es = []"
      "lib_fault L R J typ otr f (trace s')"
    by (auto simp: halts_def)
  then show ?thesis using assms(1,3) by (auto simp: end_ok_def sent_ok_quiet)
qed

lemma moves_trace:
  assumes "moves L J mk F k P s r"
  obtains es where "trace (state_of r) = trace s @ es" "P es \<or> no_remote es"
    "running r \<Longrightarrow> P es \<and> frame s (state_of r)" "\<exists>ms. ws_sent (trace (state_of r)) = ws_sent (trace s) @ ms"
  using assms by (auto simp: moves_def halts_def)

definition sys_ok :: "rtc_lib \<Rightarrow> rtc_lib \<Rightarrow> 'j json_lib \<Rightarrow> sys \<Rightarrow> bool" where
  "sys_ok Lc Ls J S \<longleftrightarrow>
     (let c = state_of (cl S); s = state_of (sv S) in
      end_ok Lc Ls J ''answer'' (offer_message J) (trace s) (cl_link S \<noteq> NotOpen) (cl S) \<and>
      end_ok Ls Lc J ''offer'' (answer_message J) (trace c) (to_sv S > 0) (sv S) \<and>
      (running (cl S) \<longrightarrow> cl_callbacks c) \<and> (running (sv S) \<longrightarrow> srv_callbacks s) \<and>
      to_sv S \<le> length (ws_sent (trace c)) \<and> to_cl S \<le> length (ws_sent (trace s)) \<and>
      (running (sv S) \<and> to_sv S > 0 \<longrightarrow> has_remote (trace s)) \<and> (running (cl S) \<and> to_cl S > 0 \<longrightarrow> has_remote (trace c)) \<and>
      agrees ''offer'' Lc (trace c) Ls (trace s) \<and> agrees ''answer'' Ls (trace s) Lc (trace c))"

lemma cl_moves_ok:
  assumes "sys_ok Lc Ls J S" "cl S = Running c"
    "moves Lc J (offer_message J) (lib_fault Lc Ls J ''answer'' (trace (state_of (sv S)))) k P c r"
    "of_bool (l \<noteq> NotOpen) = of_bool (cl_link S \<noteq> NotOpen) + k"
    "n \<le> length (ws_sent (trace (state_of (sv S))))"
    "\<And>es. P es \<Longrightarrow> agrees ''answer'' Ls (trace (state_of (sv S))) Lc es \<and> (n > 0 \<longrightarrow> to_cl S > 0 \<or> has_remote es)"
  shows "sys_ok Lc Ls J (S\<lparr>cl := r, cl_link := l, to_cl := n\<rparr>)"
proof -
  have S: "end_ok Lc Ls J ''answer'' (offer_message J) (trace (state_of (sv S))) (cl_link S \<noteq> NotOpen) (Running c)"
    "end_ok Ls Lc J ''offer'' (answer_message J) (trace c) (to_sv S > 0) (sv S)"
    "cl_callbacks c" "running (sv S) \<longrightarrow> srv_callbacks (state_of (sv S))"
    "to_sv S \<le> length (ws_sent (trace c))" "running (sv S) \<and> to_sv S > 0 \<longrightarrow> has_remote (trace (state_of (sv S)))"
    "to_cl S > 0 \<longrightarrow> has_remote (trace c)"
    "agrees ''offer'' Lc (trace c) Ls (trace (state_of (sv S)))" "agrees ''answer'' Ls (trace (state_of (sv S))) Lc (trace c)"
    using assms(1,2) by (simp_all add: sys_ok_def Let_def)
  obtain es ms where es: "trace (state_of r) = trace c @ es" "P es \<or> no_remote es" "running r \<Longrightarrow> P es \<and> frame c (state_of r)"
      "ws_sent (trace (state_of r)) = ws_sent (trace c) @ ms"
    using moves_trace [OF assms(3)] by metis
  have "agrees ''answer'' Ls (trace (state_of (sv S))) Lc (trace c @ es)"
    using es(2) assms(6) S(9) agrees_no_remote by (auto simp: agrees_append)
  moreover have "running r \<longrightarrow> n > 0 \<longrightarrow> has_remote (trace c @ es)" using es(3) assms(6) S(7) by auto
  moreover have "end_ok Ls Lc J ''offer'' (answer_message J) (trace c @ es) (to_sv S > 0) (sv S)" using S(2) by (rule end_ok_mono)
  moreover have "agrees ''offer'' Lc (trace c @ es) Ls (trace (state_of (sv S)))" using S(8) by (rule agrees_local)
  ultimately show ?thesis
    using S es assms(5) moves_end_ok [OF S(1) assms(3,4)] cl_callbacks_frame [OF S(3)] by (simp add: sys_ok_def Let_def)
qed

lemma sv_moves_ok:
  assumes "sys_ok Lc Ls J S" "sv S = Running s"
    "moves Ls J (answer_message J) (lib_fault Ls Lc J ''offer'' (trace (state_of (cl S)))) k P s r"
    "of_bool (n > 0) = of_bool (to_sv S > 0) + k"
    "n \<le> length (ws_sent (trace (state_of (cl S))))"
    "\<And>es. P es \<Longrightarrow> agrees ''offer'' Lc (trace (state_of (cl S))) Ls es \<and> (n > 0 \<longrightarrow> to_sv S > 0 \<or> has_remote es)"
  shows "sys_ok Lc Ls J (S\<lparr>sv := r, sv_link := l, to_sv := n\<rparr>)"
proof -
  have S: "end_ok Ls Lc J ''offer'' (answer_message J) (trace (state_of (cl S))) (to_sv S > 0) (Running s)"
    "end_ok Lc Ls J ''answer'' (offer_message J) (trace s) (cl_link S \<noteq> NotOpen) (cl S)"
    "srv_callbacks s" "running (cl S) \<longrightarrow> cl_callbacks (state_of (cl S))"
    "to_cl S \<le> length (ws_sent (trace s))" "running (cl S) \<and> to_cl S > 0 \<longrightarrow> has_remote (trace (state_of (cl S)))"
    "to_sv S > 0 \<longrightarrow> has_remote (trace s)"
    "agrees ''answer'' Ls (trace s) Lc (trace (state_of (cl S)))" "agrees ''offer'' Lc (trace (state_of (cl S))) Ls (trace s)"
    using assms(1,2) by (simp_all add: sys_ok_def Let_def)
  obtain es ms where es: "trace (state_of r) = trace s @ es" "P es \<or> no_remote es" "running r \<Longrightarrow> P es \<and> frame s (state_of r)"
      "ws_sent (trace (state_of r)) = ws_sent (trace s) @ ms"
    using moves_trace [OF assms(3)] by metis
  have "agrees ''offer'' Lc (trace (state_of (cl S))) Ls (trace s @ es)"
    using es(2) assms(6) S(9) agrees_no_remote by (auto simp: agrees_append)
  moreover have "running r \<longrightarrow> n > 0 \<longrightarrow> has_remote (trace s @ es)" using es(3) assms(6) S(7) by auto
  moreover have "end_ok Lc Ls J ''answer'' (offer_message J) (trace s @ es) (cl_link S \<noteq> NotOpen) (cl S)" using S(2) by (rule end_ok_mono)
  moreover have "agrees ''answer'' Ls (trace s @ es) Lc (trace (state_of (cl S)))" using S(8) by (rule agrees_local)
  ultimately show ?thesis
    using S es assms(5) moves_end_ok [OF S(1) assms(3,4)] srv_callbacks_frame [OF S(3)] by (simp add: sys_ok_def Let_def)
qed

lemma start_ok: "sys_ok Lc Ls J (sys_init Lc Ls)"
proof -
  let ?c = "client_construct Lc ''ws://localhost:8888''" and ?s = "server_construct Ls 8888"
  obtain c where "cl_callbacks c" "built Lc J (offer_message J) (lib_fault Lc Ls J ''answer'' (trace (state_of ?s))) c ?c"
    using client_built by blast
  moreover obtain s where "srv_callbacks s" "built Ls J (answer_message J) (lib_fault Ls Lc J ''offer'' (trace (state_of ?c))) s ?s"
    using server_built by blast
  ultimately show ?thesis
    by (cases ?c; cases ?s)
      (simp_all add: sys_ok_def Let_def sys_init_def built_def end_ok_def agrees_no_remote cl_callbacks_def srv_callbacks_def)
qed

lemma sent_in_transit:
  assumes "n < length (in_transit l tr)"
  shows "n < length (ws_sent tr)" "in_transit l tr ! n = ws_sent tr ! n"
proof -
  obtain ms where "ws_sent tr = in_transit l tr @ ms" using in_transit_sent by blast
  then show "n < length (ws_sent tr)" "in_transit l tr ! n = ws_sent tr ! n" using assms by (simp_all add: nth_append)
qed

lemma requested_facts:
  assumes "sys_ok Lc Ls J S"
  shows "ws_sent (trace (state_of (cl S))) \<noteq> [] \<Longrightarrow> sent_ok Lc J (offer_message J) (trace (state_of (cl S))) \<and> cl_link S \<noteq> NotOpen"
    and "ws_sent (trace (state_of (sv S))) \<noteq> [] \<Longrightarrow> sent_ok Ls J (answer_message J) (trace (state_of (sv S))) \<and> to_sv S > 0"
    and "to_sv S > 0 \<Longrightarrow> ws_sent (trace (state_of (cl S))) \<noteq> []"
    and "cl S = Running c \<Longrightarrow> proc_inv Lc J (offer_message J) c \<and> cl_callbacks c \<and> n_requests (trace c) = of_bool (cl_link S \<noteq> NotOpen)"
    and "sv S = Running s \<Longrightarrow> proc_inv Ls J (answer_message J) s \<and> srv_callbacks s \<and> n_requests (trace s) = of_bool (to_sv S > 0)"
  using assms by (auto simp: sys_ok_def Let_def end_ok_def of_bool_def split: if_splits)

context handshake_env
begin

lemma sv_offer_moves:
  assumes "proc_inv Ls J (answer_message J) s" "n_requests (trace s) = 0" "LocalDescriptionSet pc d \<in> set otr"
  shows "moves Ls J (answer_message J) (lib_fault Ls Lc J ''offer'' otr) 1 (accepts Ls ''offer'' (rl_desc_to_string Lc d)) s
    (srv_handle Ls J (WsMessage h (offer_message J (rl_desc_to_string Lc d))) s)"
proof -
  obtain f where "peer_connection_factory s = Some f" using proc_inv_facts(5) [OF assms(1)] by blast
  from C.sv_offer [OF C.desc_text assms(3) this, of Ls h] show ?thesis
    using assms(1,2) unfolding moves_def proc_inv_def accepts_def same_channel_def
    by (elim disjE exE conjE) (auto simp: frame_def simp del: srv_handle.simps)
qed

lemma cl_answer_moves:
  assumes "proc_inv Lc J (offer_message J) c" "n_requests (trace c) = 1" "LocalDescriptionSet pc d \<in> set otr"
  shows "moves Lc J (offer_message J) (lib_fault Lc Ls J ''answer'' otr) 0 (accepts Lc ''answer'' (rl_desc_to_string Ls d)) c
    (cl_handle Lc J (WsMessage h (answer_message J (rl_desc_to_string Ls d))) c)"
proof -
  obtain q where "peer_connection c = Some q" using proc_inv_facts(4) [OF assms(1)] assms(2) by auto
  from C.cl_answer [OF S.desc_text assms(3) this, of Lc h] show ?thesis
  proof (elim disjE exE conjE)
    fix c' es e
    assume c': "cl_handle Lc J (WsMessage h (answer_message J (rl_desc_to_string Ls d))) c = Running c'"
      "trace c' = trace c @ es" "frame c c'" "peer_connection c' = peer_connection c" "same_channel c c' es"
      "n_requests es = 0" "n_locals es = 0" "ws_sent es = []" "sets_remote e es"
      "fst (rl_create_desc Lc ''answer'' (rl_desc_to_string Ls d)) = Some e"
    then have "proc_inv Lc J (offer_message J) c'"
      by (intro proc_inv_quiet [OF assms(1), of c' es]) (simp_all add: same_channel_def frame_def)
    with c' show ?thesis unfolding moves_def accepts_def by blast
  qed (simp add: moves_def)
qed

lemma deliver_sv_ok:
  assumes "sys_ok Lc Ls J S" "sv S = Running s" "to_sv S < length (ws_sent (trace (state_of (cl S))))"
  shows "sys_ok Lc Ls J (S\<lparr>sv := srv_handle Ls J (WsMessage h (ws_sent (trace (state_of (cl S))) ! to_sv S)) s,
    sv_link := l, to_sv := Suc (to_sv S)\<rparr>)"
proof -
  let ?tr = "trace (state_of (cl S))"
  have inv: "proc_inv Ls J (answer_message J) s" "n_requests (trace s) = of_bool (to_sv S > 0)"
    using requested_facts(5) [OF assms(1,2)] by simp_all
  have "sent_ok Lc J (offer_message J) ?tr" using requested_facts(1) [OF assms(1)] assms(3) by fastforce
  from sent_ok_nth [OF this assms(3)] show ?thesis
  proof (elim disjE exE conjE)
    fix pc d assume d: "to_sv S = 0" "LocalDescriptionSet pc d \<in> set ?tr" "ws_sent ?tr ! to_sv S = offer_message J (rl_desc_to_string Lc d)"
    have "n_requests (trace s) = 0" using inv(2) d(1) by simp
    note m = sv_offer_moves [OF inv(1) this d(2), of h]
    show ?thesis
      unfolding d(3) using d(1) assms(3) agrees_accepts [OF d(2)] accepts_remote
      by (intro sv_moves_ok [OF assms(1,2) m]) (auto simp: Suc_le_eq)
  next
    fix k assume k: "to_sv S > 0" "ToJsonString J (own_ice Lc k) \<in> set (ws_sent ?tr)" "ws_sent ?tr ! to_sv S = ToJsonString J (own_ice Lc k)"
    obtain pc where "peer_connection s = Some pc" using proc_inv_facts(4) [OF inv(1)] inv(2) k(1) by auto
    note m = moves_sends [OF inv(1) C.sv_ice [OF C.cand_text k(2) this]]
    show ?thesis
      unfolding k(3) using k(1) assms(3) by (intro sv_moves_ok [OF assms(1,2) m]) (auto simp: agrees_no_remote)
  qed
qed

lemma deliver_cl_ok:
  assumes "sys_ok Lc Ls J S" "cl S = Running c" "to_cl S < length (ws_sent (trace (state_of (sv S))))"
  shows "sys_ok Lc Ls J (S\<lparr>cl := cl_handle Lc J (WsMessage h (ws_sent (trace (state_of (sv S))) ! to_cl S)) c,
    cl_link := cl_link S, to_cl := Suc (to_cl S)\<rparr>)"
proof -
  let ?tr = "trace (state_of (sv S))"
  have ne: "ws_sent ?tr \<noteq> []" using assms(3) by auto
  have sent: "sent_ok Ls J (answer_message J) ?tr" "to_sv S > 0" using requested_facts(2) [OF assms(1) ne] by simp_all
  then have "cl_link S \<noteq> NotOpen" using requested_facts(1,3) [OF assms(1)] by blast
  then have inv: "proc_inv Lc J (offer_message J) c" "n_requests (trace c) = 1"
    using requested_facts(4) [OF assms(1,2)] by simp_all
  from sent_ok_nth [OF sent(1) assms(3)] show ?thesis
  proof (elim disjE exE conjE)
    fix pc d assume d: "to_cl S = 0" "LocalDescriptionSet pc d \<in> set ?tr" "ws_sent ?tr ! to_cl S = answer_message J (rl_desc_to_string Ls d)"
    note m = cl_answer_moves [OF inv d(2), of h]
    show ?thesis
      unfolding d(3) using d(1) assms(3) agrees_accepts [OF d(2)] accepts_remote
      by (intro cl_moves_ok [OF assms(1,2) m]) (auto simp: Suc_le_eq)
  next
    fix k assume k: "to_cl S > 0" "ToJsonString J (own_ice Ls k) \<in> set (ws_sent ?tr)" "ws_sent ?tr ! to_cl S = ToJsonString J (own_ice Ls k)"
    obtain pc where "peer_connection c = Some pc" using proc_inv_facts(4) [OF inv(1)] inv(2) by auto
    note m = moves_sends [OF inv(1) C.cl_ice [OF S.cand_text k(2) this]]
    show ?thesis
      unfolding k(3) using k(1) assms(3) by (intro cl_moves_ok [OF assms(1,2) m]) (auto simp: agrees_no_remote)
  qed
qed

lemma cl_quiet_ok:
  assumes "sys_ok Lc Ls J S" "cl S = Running c"
    "moves Lc J (offer_message J) (lib_fault Lc Ls J ''answer'' (trace (state_of (sv S)))) k no_remote c r"
    "of_bool (l \<noteq> NotOpen) = of_bool (cl_link S \<noteq> NotOpen) + k"
  shows "sys_ok Lc Ls J (S\<lparr>cl := r, cl_link := l\<rparr>)"
proof -
  have "to_cl S \<le> length (ws_sent (trace (state_of (sv S))))" using assms(1) by (simp add: sys_ok_def Let_def)
  then have "sys_ok Lc Ls J (S\<lparr>cl := r, cl_link := l, to_cl := to_cl S\<rparr>)"
    by (intro cl_moves_ok [OF assms]) (simp_all add: agrees_no_remote)
  then show ?thesis by (cases S) simp
qed

lemma sv_quiet_ok:
  assumes "sys_ok Lc Ls J S" "sv S = Running s"
    "moves Ls J (answer_message J) (lib_fault Ls Lc J ''offer'' (trace (state_of (cl S)))) 0 no_remote s r"
  shows "sys_ok Lc Ls J (S\<lparr>sv := r, sv_link := l\<rparr>)"
proof -
  have "to_sv S \<le> length (ws_sent (trace (state_of (cl S))))" using assms(1) by (simp add: sys_ok_def Let_def)
  then have "sys_ok Lc Ls J (S\<lparr>sv := r, sv_link := l, to_sv := to_sv S\<rparr>)"
    by (intro sv_moves_ok [OF assms]) (simp_all add: agrees_no_remote)
  then show ?thesis by (cases S) simp
qed

lemma same_link:
  "S\<lparr>cl := r, cl_link := cl_link S\<rparr> = S\<lparr>cl := r\<rparr>" "S\<lparr>sv := q, sv_link := sv_link S\<rparr> = S\<lparr>sv := q\<rparr>"
  "S\<lparr>cl := r, cl_link := cl_link S, to_cl := n\<rparr> = S\<lparr>cl := r, to_cl := n\<rparr>"
  "S\<lparr>sv := q, sv_link := sv_link S, to_sv := n\<rparr> = S\<lparr>sv := q, to_sv := n\<rparr>"
  by (cases S, simp)+

lemma step_ok:
  assumes "sys_step Lc Ls J S T" "sys_ok Lc Ls J S"
  shows "sys_ok Lc Ls J T"
  using assms(1)
proof cases
  case (client_open c h)
  then have "proc_inv Lc J (offer_message J) c" "n_requests (trace c) = 0"
    using requested_facts(4) [OF assms(2) client_open(2)] by simp_all
  from cl_quiet_ok [OF assms(2) client_open(2) cl_open_moves [OF this], of Opened] show ?thesis
    using client_open(1,3) by simp
next
  case (server_open s h)
  then have "proc_inv Ls J (answer_message J) s" using requested_facts(5) [OF assms(2) server_open(2)] by simp
  from sv_quiet_ok [OF assms(2) server_open(2) moves_sends [OF this ws_events(2)]] show ?thesis
    using server_open(1) by blast
next
  case (client_close c h)
  then have "proc_inv Lc J (offer_message J) c" using requested_facts(4) [OF assms(2) client_close(2)] by simp
  from cl_quiet_ok [OF assms(2) client_close(2) moves_sends [OF this ws_events(1)]] show ?thesis
    using client_close(1,3) by simp
next
  case (server_close s h)
  then have "proc_inv Ls J (answer_message J) s" using requested_facts(5) [OF assms(2) server_close(2)] by simp
  from sv_quiet_ok [OF assms(2) server_close(2) moves_sends [OF this ws_events(3)]] show ?thesis
    using server_close(1) by blast
next
  case (client_rtc c i)
  then have "proc_inv Lc J (offer_message J) c" "cl_callbacks c" using requested_facts(4) [OF assms(2) client_rtc(2)] by simp_all
  from cl_quiet_ok [OF assms(2) client_rtc(2) cl_rtc_moves [OF this client_rtc(3)], of "cl_link S"] show ?thesis
    using client_rtc(1) by (simp add: same_link)
next
  case (server_rtc s i)
  then have "proc_inv Ls J (answer_message J) s" "srv_callbacks s" using requested_facts(5) [OF assms(2) server_rtc(2)] by simp_all
  from sv_quiet_ok [OF assms(2) server_rtc(2) sv_rtc_moves [OF this server_rtc(3)], of "sv_link S"] show ?thesis
    using server_rtc(1) by (simp only: same_link)
next
  case (deliver_sv s h)
  note sent = sent_in_transit [OF deliver_sv(4)]
  show ?thesis using deliver_sv_ok [OF assms(2) deliver_sv(2) sent(1), of "sv_link S" h] deliver_sv(1) sent(2) by (simp only: same_link)
next
  case (deliver_cl c h)
  note sent = sent_in_transit [OF deliver_cl(4)]
  show ?thesis using deliver_cl_ok [OF assms(2) deliver_cl(2) sent(1), of h] deliver_cl(1) sent(2) by (simp only: same_link)
qed

lemma reachable_ok: "sys_reachable Lc Ls J S \<Longrightarrow> sys_ok Lc Ls J S"
  by (induction rule: sys_reachable.induct) (use start_ok step_ok in blast)+

end

section \<open>Cooperating libraries\<close>

text \<open>
  What has to go right from a trace on, as long as the process does not close its WebSocket \<open>h\<close>: peer connection and data channel are created,
  a description that was just set local can still be printed, and sending succeeds.
\<close>

definition cooperates_at :: "rtc_lib \<Rightarrow> event list \<Rightarrow> hdl \<Rightarrow> bool" where
  "cooperates_at L tr h \<longleftrightarrow>
     rl_create_pc L tr \<noteq> None \<and> (\<forall>pc. rl_create_dc L tr pc ''data_channel'' DataChannelInit_default \<noteq> None) \<and>
     (\<forall>pc d. rl_desc_alive L (tr @ [LocalDescriptionSet pc d]) d) \<and> (\<forall>m. rl_ws_error L tr (Send h m) = None)"

definition cooperative :: "rtc_lib \<Rightarrow> event list \<Rightarrow> hdl \<Rightarrow> bool" where
  "cooperative L tr h \<longleftrightarrow> (\<forall>es. \<not> closed_ws es \<longrightarrow> cooperates_at L (tr @ es) h)"

definition parses :: "rtc_lib \<Rightarrow> string \<Rightarrow> rtc_lib \<Rightarrow> bool" where
  "parses L typ R \<longleftrightarrow> (\<forall>d. fst (rl_create_desc L typ (rl_desc_to_string R d)) \<noteq> None)"

text \<open>An end that is not yet open or open with the handle \<open>h\<close>, and that its process has not closed.\<close>

definition usable :: "link \<Rightarrow> event list \<Rightarrow> hdl \<Rightarrow> hdl \<Rightarrow> bool" where
  "usable l tr h' h \<longleftrightarrow> \<not> closed_ws tr \<and> (l = NotOpen \<or> l = Opened \<and> h' = h)"

lemma cooperative_append: "cooperative L tr h \<Longrightarrow> \<not> closed_ws es \<Longrightarrow> cooperative L (tr @ es) h"
  by (simp add: cooperative_def)

lemma cooperativeD:
  assumes "cooperative L tr h" "\<not> closed_ws es"
  shows "\<exists>pc. rl_create_pc L (tr @ es) = Some pc"
    "\<exists>dc. rl_create_dc L (tr @ es) pc ''data_channel'' DataChannelInit_default = Some dc"
    "rl_desc_alive L (tr @ es @ [LocalDescriptionSet pc d]) d"
    "rl_ws_error L (tr @ es) (Send h m) = None"
  using assms by (auto simp: cooperative_def cooperates_at_def)

definition goes :: "hdl \<Rightarrow> (('h, 'm) manager_scheme \<Rightarrow> hdl) \<Rightarrow> nat \<Rightarrow> ('h, 'm) manager_scheme \<Rightarrow> (app_fault, ('h, 'm) manager_scheme) outcome \<Rightarrow> bool" where
  "goes h hdl_of n s r \<longleftrightarrow> (\<exists>s' es. r = Running s' \<and> trace s' = trace s @ es \<and> \<not> closed_ws es \<and> n_locals es = n \<and> hdl_of s' = h)"

lemma goes_Running: "goes h hdl_of n s (Running s') \<longleftrightarrow> (\<exists>es. trace s' = trace s @ es \<and> \<not> closed_ws es \<and> n_locals es = n \<and> hdl_of s' = h)"
  by (simp add: goes_def)

lemma cl_open_goes:
  assumes "peer_connection_factory c = Some f" "cooperative L (trace c) h"
  shows "goes h cl_ws_hdl 0 c (cl_handle L J (WsOpen h) c)"
proof -
  let ?t = "[Cout (''[WebSocketClientManager::OpenHandler]'' @ nl),
     Cout (log_text L (mgr_name c) ''create_offer_sdp'' (trace c @ [Cout (''[WebSocketClientManager::OpenHandler]'' @ nl)]))]"
  obtain pc where pc: "rl_create_pc L (trace c @ ?t) = Some pc" using cooperativeD(1) [OF assms(2), of ?t] by auto
  obtain dc where "rl_create_dc L (trace c @ ?t @ [PcCreated pc (configuration_servers c)]) pc ''data_channel'' DataChannelInit_default = Some dc"
    using cooperativeD(2) [OF assms(2), of "?t @ [PcCreated pc (configuration_servers c)]" pc] by auto
  with pc show ?thesis using assms(1)
    by (simp add: cl_OpenHandler_def create_offer_sdp_def create_peer_connection_def log_defs Let_def goes_Running)
qed

lemma sv_open_goes: "goes h srv_ws_hdl 0 s (srv_handle L J (WsOpen h) s)"
  by (simp add: srv_OpenHandler_def log_defs goes_Running)

lemma cl_csd_goes:
  assumes "cl_callbacks c" "peer_connection c = Some pc" "cooperative L (trace c) (cl_ws_hdl c)"
  shows "goes (cl_ws_hdl c) cl_ws_hdl 1 c (cl_handle L J (FromRtc (InCsdSuccess d)) c)"
  using assms(1,2) cooperativeD(3) [OF assms(3), of "[Cout t]" for t, simplified] cooperativeD(4) [OF assms(3)]
  by (simp add: cl_callbacks_def CSDO_OnSuccess_def on_success_csd_def cl_on_sdp_def ws_do_def log_defs goes_Running)

lemma sv_csd_goes:
  assumes "srv_callbacks s" "peer_connection s = Some pc" "cooperative L (trace s) (srv_ws_hdl s)"
  shows "goes (srv_ws_hdl s) srv_ws_hdl 1 s (srv_handle L J (FromRtc (InCsdSuccess d)) s)"
  using assms(1,2) cooperativeD(3) [OF assms(3), of "[Cout t]" for t, simplified] cooperativeD(4) [OF assms(3)]
  by (simp add: srv_callbacks_def CSDO_OnSuccess_def on_success_csd_def srv_on_sdp_def ws_do_def log_defs goes_Running)

context json_library
begin

lemma sv_offer_goes:
  assumes "text_ok (rl_desc_to_string R d)" "peer_connection_factory s = Some f" "cooperative L (trace s) h" "parses L ''offer'' R"
  shows "goes h srv_ws_hdl 0 s (srv_handle L J (WsMessage h (offer_message J (rl_desc_to_string R d))) s)"
proof -
  let ?sdp = "rl_desc_to_string R d"
  obtain json where j: "StringToJson J (offer_message J ?sdp) = Inr json"
    "get_string J json ''type'' = Inr ''offer''" "get_string J json ''sdp'' = Inr ?sdp"
    using offer_message_read [OF assms(1)] by blast
  obtain rd e e' where sd: "rl_create_desc L ''offer'' ?sdp = (Some rd, e, e')"
    using assms(4) unfolding parses_def by (cases "rl_create_desc L ''offer'' ?sdp") (metis fst_conv option.exhaust surj_pair)
  have pc: "\<not> closed_ws es \<Longrightarrow> rl_create_pc L (trace s @ es) \<noteq> None" for es using cooperativeD(1) [OF assms(3), of es] by auto
  show ?thesis
    using assms(2)
    by (auto simp: pc srv_MessageHandler_def j sd create_answer_sdp_def create_peer_connection_def
        set_remote_sdp_def log_defs Let_def goes_Running split: option.splits)
qed

lemma cl_answer_goes:
  assumes "text_ok (rl_desc_to_string R d)" "peer_connection c = Some pc" "parses L ''answer'' R"
  shows "goes h cl_ws_hdl 0 c (cl_handle L J (WsMessage h (answer_message J (rl_desc_to_string R d))) c)"
proof -
  let ?sdp = "rl_desc_to_string R d"
  obtain json where j: "StringToJson J (answer_message J ?sdp) = Inr json"
    "get_string J json ''type'' = Inr ''answer''" "get_string J json ''answer'' = Inr ?sdp"
    using answer_message_read [OF assms(1)] by blast
  obtain rd e e' where sd: "rl_create_desc L ''answer'' ?sdp = (Some rd, e, e')"
    using assms(3) unfolding parses_def by (cases "rl_create_desc L ''answer'' ?sdp") (metis fst_conv option.exhaust surj_pair)
  show ?thesis
    using assms(2) by (simp add: cl_MessageHandler_def j sd push_reply_sdp_def set_remote_sdp_def log_defs goes_Running)
qed

end

section \<open>Completing the handshake\<close>

definition ready :: "rtc_lib \<Rightarrow> rtc_lib \<Rightarrow> 'j json_lib \<Rightarrow> hdl \<Rightarrow> hdl \<Rightarrow> sys \<Rightarrow> client \<Rightarrow> server \<Rightarrow> bool" where
  "ready Lc Ls J hc hs S c s \<longleftrightarrow> sys_ok Lc Ls J S \<and> cl S = Running c \<and> sv S = Running s \<and>
     usable (cl_link S) (trace c) (cl_ws_hdl c) hc \<and> usable (sv_link S) (trace s) (srv_ws_hdl s) hs \<and>
     cooperative Lc (trace c) hc \<and> cooperative Ls (trace s) hs"

definition completes :: "rtc_lib \<Rightarrow> rtc_lib \<Rightarrow> 'j json_lib \<Rightarrow> sys \<Rightarrow> bool" where
  "completes Lc Ls J S \<longleftrightarrow> (\<exists>T c s. (sys_step Lc Ls J)\<^sup>*\<^sup>* S T \<and> cl T = Running c \<and> sv T = Running s \<and>
     has_remote (trace c) \<and> has_remote (trace s))"

lemma completes_step: "sys_step Lc Ls J S T \<Longrightarrow> completes Lc Ls J T \<Longrightarrow> completes Lc Ls J S"
  unfolding completes_def by (meson converse_rtranclp_into_rtranclp)

lemma completes_now:
  assumes "ready Lc Ls J hc hs S c s" "to_cl S > 0"
  shows "completes Lc Ls J S"
proof -
  have ok: "sys_ok Lc Ls J S" and run: "cl S = Running c" "sv S = Running s" using assms(1) by (simp_all add: ready_def)
  have "ws_sent (trace (state_of (sv S))) \<noteq> []" using ok assms(2) by (auto simp: sys_ok_def Let_def)
  then have "to_sv S > 0" using requested_facts(2) [OF ok] by blast
  then have "has_remote (trace c)" "has_remote (trace s)" using ok run assms(2) by (simp_all add: sys_ok_def Let_def)
  then show ?thesis unfolding completes_def using run by blast
qed

lemma ready_cl:
  assumes "ready Lc Ls J hc hs S c s" "goes hc cl_ws_hdl k c r" "sys_ok Lc Ls J (S\<lparr>cl := r, cl_link := Opened, to_cl := n\<rparr>)"
  shows "\<exists>c'. ready Lc Ls J hc hs (S\<lparr>cl := r, cl_link := Opened, to_cl := n\<rparr>) c' s \<and> n_locals (trace c') = n_locals (trace c) + k"
proof -
  obtain c' es where "r = Running c'" "trace c' = trace c @ es" "\<not> closed_ws es" "n_locals es = k" "cl_ws_hdl c' = hc"
    using assms(2) by (auto simp: goes_def)
  then show ?thesis using assms(1,3) by (auto simp: ready_def usable_def cooperative_append)
qed

lemma ready_sv:
  assumes "ready Lc Ls J hc hs S c s" "goes hs srv_ws_hdl k s r" "sys_ok Lc Ls J (S\<lparr>sv := r, sv_link := Opened, to_sv := n\<rparr>)"
  shows "\<exists>s'. ready Lc Ls J hc hs (S\<lparr>sv := r, sv_link := Opened, to_sv := n\<rparr>) c s' \<and> n_locals (trace s') = n_locals (trace s) + k"
proof -
  obtain s' es where "r = Running s'" "trace s' = trace s @ es" "\<not> closed_ws es" "n_locals es = k" "srv_ws_hdl s' = hs"
    using assms(2) by (auto simp: goes_def)
  then show ?thesis using assms(1,3) by (auto simp: ready_def usable_def cooperative_append)
qed

lemma same_end:
  "cl_link S = Opened \<Longrightarrow> S\<lparr>cl := r, cl_link := Opened, to_cl := n\<rparr> = S\<lparr>cl := r, to_cl := n\<rparr>"
  "sv_link S = Opened \<Longrightarrow> S\<lparr>sv := q, sv_link := Opened, to_sv := n\<rparr> = S\<lparr>sv := q, to_sv := n\<rparr>"
  "S\<lparr>cl := r, cl_link := l, to_cl := to_cl S\<rparr> = S\<lparr>cl := r, cl_link := l\<rparr>"
  "S\<lparr>sv := q, sv_link := l, to_sv := to_sv S\<rparr> = S\<lparr>sv := q, sv_link := l\<rparr>"
  "cl_link S = Opened \<Longrightarrow> S\<lparr>cl := r, cl_link := Opened\<rparr> = S\<lparr>cl := r\<rparr>"
  "sv_link S = Opened \<Longrightarrow> S\<lparr>sv := q, sv_link := Opened\<rparr> = S\<lparr>sv := q\<rparr>"
  by (cases S, simp)+

context handshake_env
begin

lemma cl_phase:
  assumes "ready Lc Ls J hc hs S c s" "goes hc cl_ws_hdl k c r" "sys_step Lc Ls J S (S\<lparr>cl := r, cl_link := Opened, to_cl := n\<rparr>)"
    "\<And>c'. ready Lc Ls J hc hs (S\<lparr>cl := r, cl_link := Opened, to_cl := n\<rparr>) c' s \<Longrightarrow> n_locals (trace c') = n_locals (trace c) + k \<Longrightarrow>
      completes Lc Ls J (S\<lparr>cl := r, cl_link := Opened, to_cl := n\<rparr>)"
  shows "completes Lc Ls J S"
proof -
  have "sys_ok Lc Ls J S" using assms(1) by (simp add: ready_def)
  from ready_cl [OF assms(1,2) step_ok [OF assms(3) this]] show ?thesis using assms(4) completes_step [OF assms(3)] by blast
qed

lemma sv_phase:
  assumes "ready Lc Ls J hc hs S c s" "goes hs srv_ws_hdl k s r" "sys_step Lc Ls J S (S\<lparr>sv := r, sv_link := Opened, to_sv := n\<rparr>)"
    "\<And>s'. ready Lc Ls J hc hs (S\<lparr>sv := r, sv_link := Opened, to_sv := n\<rparr>) c s' \<Longrightarrow> n_locals (trace s') = n_locals (trace s) + k \<Longrightarrow>
      completes Lc Ls J (S\<lparr>sv := r, sv_link := Opened, to_sv := n\<rparr>)"
  shows "completes Lc Ls J S"
proof -
  have "sys_ok Lc Ls J S" using assms(1) by (simp add: ready_def)
  from ready_sv [OF assms(1,2) step_ok [OF assms(3) this]] show ?thesis using assms(4) completes_step [OF assms(3)] by blast
qed

lemma completes_answered:
  assumes "ready Lc Ls J hc hs S c s" "parses Lc ''answer'' Ls" "cl_link S = Opened" "sv_link S = Opened" "n_locals (trace s) > 0"
  shows "completes Lc Ls J S"
proof (cases "to_cl S > 0")
  case True
  then show ?thesis using completes_now assms(1) by blast
next
  case False
  have ok: "sys_ok Lc Ls J S" and run: "cl S = Running c" "sv S = Running s" and nc: "\<not> closed_ws (trace s)" "\<not> closed_ws (trace c)"
    using assms(1) by (simp_all add: ready_def usable_def)
  have inv: "proc_inv Lc J (offer_message J) c" "n_requests (trace c) = 1" "proc_inv Ls J (answer_message J) s"
    using requested_facts(4) [OF ok run(1)] requested_facts(5) [OF ok run(2)] assms(3) by simp_all
  have sent: "sent_ok Ls J (answer_message J) (trace s)" using inv(3) assms(5) by (simp add: proc_inv_def)
  then have len: "0 < length (ws_sent (trace s))" by (auto simp: sent_ok_def)
  obtain d where d: "ws_sent (trace s) ! 0 = answer_message J (rl_desc_to_string Ls d)" using sent_ok_nth [OF sent len] by blast
  obtain pc where pc: "peer_connection c = Some pc" using proc_inv_facts(4) [OF inv(1)] inv(2) by auto
  show ?thesis
  proof (rule cl_phase [OF assms(1) C.cl_answer_goes [OF S.desc_text pc assms(2)], where n = "Suc 0"])
    show "sys_step Lc Ls J S (S\<lparr>cl := cl_handle Lc J (WsMessage hc (answer_message J (rl_desc_to_string Ls d))) c, cl_link := Opened, to_cl := Suc 0\<rparr>)"
      using sys_step.deliver_cl [OF run(1), of Lc Ls J hc] run(2) nc len False assms(3,4)
      by (simp add: same_end receiving_def in_transit_open d del: cl_handle.simps)
  qed (rule completes_now, assumption, simp)
qed

lemma completes_requested:
  assumes "ready Lc Ls J hc hs S c s" "parses Lc ''answer'' Ls" "cl_link S = Opened" "sv_link S = Opened" "to_sv S > 0"
  shows "completes Lc Ls J S"
proof (cases "n_locals (trace s) > 0")
  case True
  then show ?thesis using completes_answered [OF assms(1-4)] by blast
next
  case False
  have ok: "sys_ok Lc Ls J S" and run: "sv S = Running s" and coop: "cooperative Ls (trace s) (srv_ws_hdl s)" and h: "srv_ws_hdl s = hs"
    using assms(1,4) by (auto simp: ready_def usable_def)
  have inv: "proc_inv Ls J (answer_message J) s" "srv_callbacks s" "n_requests (trace s) = 1"
    using requested_facts(5) [OF ok run] assms(5) by simp_all
  obtain pc where pc: "peer_connection s = Some pc" using proc_inv_facts(4) [OF inv(1)] inv(3) by auto
  show ?thesis
  proof (rule sv_phase [OF assms(1) sv_csd_goes [OF inv(2) pc coop, unfolded h], where n = "to_sv S"])
    show "sys_step Lc Ls J S (S\<lparr>sv := srv_handle Ls J (FromRtc (InCsdSuccess 0)) s, sv_link := Opened, to_sv := to_sv S\<rparr>)"
      using sys_step.server_rtc [OF run, of "InCsdSuccess 0" Lc Ls J] False inv(3) assms(4)
      by (simp add: same_end del: srv_handle.simps)
  qed (erule completes_answered [OF _ assms(2)], use assms(3) in simp_all)
qed

lemma completes_offered:
  assumes "ready Lc Ls J hc hs S c s" "parses Lc ''answer'' Ls" "parses Ls ''offer'' Lc" "cl_link S = Opened" "sv_link S = Opened"
    "n_locals (trace c) > 0"
  shows "completes Lc Ls J S"
proof (cases "to_sv S > 0")
  case True
  then show ?thesis using completes_requested assms by blast
next
  case False
  have ok: "sys_ok Lc Ls J S" and run: "cl S = Running c" "sv S = Running s" and nc: "\<not> closed_ws (trace s)" "\<not> closed_ws (trace c)"
    and coop: "cooperative Ls (trace s) hs"
    using assms(1) by (simp_all add: ready_def usable_def)
  have inv: "proc_inv Lc J (offer_message J) c" "proc_inv Ls J (answer_message J) s"
    using requested_facts(4) [OF ok run(1)] requested_facts(5) [OF ok run(2)] by simp_all
  have sent: "sent_ok Lc J (offer_message J) (trace c)" using inv(1) assms(6) by (simp add: proc_inv_def)
  then have len: "0 < length (ws_sent (trace c))" by (auto simp: sent_ok_def)
  obtain d where d: "ws_sent (trace c) ! 0 = offer_message J (rl_desc_to_string Lc d)" using sent_ok_nth [OF sent len] by blast
  obtain f where f: "peer_connection_factory s = Some f" using proc_inv_facts(5) [OF inv(2)] by blast
  show ?thesis
  proof (rule sv_phase [OF assms(1) C.sv_offer_goes [OF C.desc_text f coop assms(3)], where n = "Suc 0"])
    show "sys_step Lc Ls J S (S\<lparr>sv := srv_handle Ls J (WsMessage hs (offer_message J (rl_desc_to_string Lc d))) s, sv_link := Opened, to_sv := Suc 0\<rparr>)"
      using sys_step.deliver_sv [OF run(2), of Lc Ls J hs] run(1) nc len False assms(4,5)
      by (simp add: same_end receiving_def in_transit_open d del: srv_handle.simps)
  qed (erule completes_requested [OF _ assms(2)], use assms(4) in simp_all)
qed

lemma completes_opened:
  assumes "ready Lc Ls J hc hs S c s" "parses Lc ''answer'' Ls" "parses Ls ''offer'' Lc" "cl_link S = Opened" "sv_link S = Opened"
  shows "completes Lc Ls J S"
proof (cases "n_locals (trace c) > 0")
  case True
  then show ?thesis using completes_offered assms by blast
next
  case False
  have ok: "sys_ok Lc Ls J S" and run: "cl S = Running c" and coop: "cooperative Lc (trace c) (cl_ws_hdl c)" and h: "cl_ws_hdl c = hc"
    using assms(1,4) by (auto simp: ready_def usable_def)
  have inv: "proc_inv Lc J (offer_message J) c" "cl_callbacks c" "n_requests (trace c) = 1"
    using requested_facts(4) [OF ok run] assms(4) by simp_all
  obtain pc where pc: "peer_connection c = Some pc" using proc_inv_facts(4) [OF inv(1)] inv(3) by auto
  show ?thesis
  proof (rule cl_phase [OF assms(1) cl_csd_goes [OF inv(2) pc coop, unfolded h], where n = "to_cl S"])
    show "sys_step Lc Ls J S (S\<lparr>cl := cl_handle Lc J (FromRtc (InCsdSuccess 0)) c, cl_link := Opened, to_cl := to_cl S\<rparr>)"
      using sys_step.client_rtc [OF run, of "InCsdSuccess 0" Lc Ls J] False inv(3) assms(4)
      by (simp add: same_end del: cl_handle.simps)
  qed (erule completes_offered [OF _ assms(2,3)], use assms(5) in simp_all)
qed

lemma completes_server_open:
  assumes "ready Lc Ls J hc hs S c s" "parses Lc ''answer'' Ls" "parses Ls ''offer'' Lc" "cl_link S = Opened"
  shows "completes Lc Ls J S"
proof (cases "sv_link S = Opened")
  case True
  then show ?thesis using completes_opened assms by blast
next
  case False
  then have run: "sv S = Running s" "sv_link S = NotOpen" using assms(1) by (auto simp: ready_def usable_def)
  show ?thesis
  proof (rule sv_phase [OF assms(1) sv_open_goes, where n = "to_sv S"])
    show "sys_step Lc Ls J S (S\<lparr>sv := srv_handle Ls J (WsOpen hs) s, sv_link := Opened, to_sv := to_sv S\<rparr>)"
      using sys_step.server_open [OF run] by (simp add: same_end del: srv_handle.simps)
  qed (erule completes_opened [OF _ assms(2,3)], use assms(4) in simp_all)
qed

lemma ready_completes:
  assumes "ready Lc Ls J hc hs S c s" "parses Lc ''answer'' Ls" "parses Ls ''offer'' Lc"
  shows "completes Lc Ls J S"
proof (cases "cl_link S = Opened")
  case True
  then show ?thesis using completes_server_open assms by blast
next
  case False
  then have run: "cl S = Running c" "cl_link S = NotOpen" and ok: "sys_ok Lc Ls J S" and coop: "cooperative Lc (trace c) hc"
    using assms(1) by (auto simp: ready_def usable_def)
  obtain f where f: "peer_connection_factory c = Some f"
    using proc_inv_facts(5) requested_facts(4) [OF ok run(1)] by blast
  show ?thesis
  proof (rule cl_phase [OF assms(1) cl_open_goes [OF f coop], where n = "to_cl S"])
    show "sys_step Lc Ls J S (S\<lparr>cl := cl_handle Lc J (WsOpen hc) c, cl_link := Opened, to_cl := to_cl S\<rparr>)"
      using sys_step.client_open [OF run] by (simp add: same_end del: cl_handle.simps)
  qed (erule completes_server_open [OF _ assms(2,3)], simp)
qed

end

interpretation ref_env: rtc_env ref_json ref_doc "\<lambda>_. True" ref_lib
  by unfold_locales simp_all

interpretation ref_handshake: handshake_env ref_json ref_doc "\<lambda>_. True" ref_lib ref_lib
  by unfold_locales

section \<open>Properties of the handshake\<close>

text \<open>
  C1. In every state that client and server reach by any interleaving of library callbacks, WebSocket events and message
  deliveries, each process runs or was stopped by a failing answer of a library: a WebSocket call that failed, an object that was not created, a
  description that was gone, a description or a candidate of the other process that did not parse, or a candidate whose text or media id is empty or whose index is -1. In particular no
  message of the other process is malformed, of an unknown type or without its text, no callback is missing, and neither order of events nor
  interleaving makes a process dereference a null pointer that the libraries did not return to it.
\<close>

theorem handshake_safe:
  assumes "handshake_env J doc text_ok Lc Ls" "sys_reachable Lc Ls J S"
  shows "(case cl S of Running c \<Rightarrow> True
            | Stopped f c \<Rightarrow> lib_fault Lc Ls J ''answer'' (trace (state_of (sv S))) f (trace c)) \<and>
    (case sv S of Running s \<Rightarrow> True
       | Stopped f s \<Rightarrow> lib_fault Ls Lc J ''offer'' (trace (state_of (cl S))) f (trace s))"
  using handshake_env.reachable_ok [OF assms] by (auto simp: sys_ok_def Let_def end_ok_def split: outcome.splits)

text \<open>
  C2. What the processes agree on, whether they run or were stopped: every remote description that the server sets is the parsed text
  of a description that the client set as its local one, and the other way round; each process
  requests at most one description, and its first message on the WebSocket is that description,
  followed by its own ICE candidates only.
\<close>

theorem handshake_agreement:
  assumes "handshake_env J doc text_ok Lc Ls" "sys_reachable Lc Ls J S"
  shows "agrees ''offer'' Lc (trace (state_of (cl S))) Ls (trace (state_of (sv S))) \<and>
    agrees ''answer'' Ls (trace (state_of (sv S))) Lc (trace (state_of (cl S))) \<and>
    n_requests (trace (state_of (cl S))) \<le> 1 \<and> n_requests (trace (state_of (sv S))) \<le> 1 \<and>
    (ws_sent (trace (state_of (cl S))) = [] \<or> sent_ok Lc J (offer_message J) (trace (state_of (cl S)))) \<and>
    (ws_sent (trace (state_of (sv S))) = [] \<or> sent_ok Ls J (answer_message J) (trace (state_of (sv S))))"
  using handshake_env.reachable_ok [OF assms]
  by (auto simp: sys_ok_def Let_def end_ok_def of_bool_def split: if_splits)

text \<open>
  C3. The handshake cannot get stuck by its own doing: from every reachable state in which both processes run and neither has closed
  its end of the WebSocket, and from which on the libraries cooperate (the peer connection and the data channel are created, a description that was just set
  can be printed, sending on the open WebSocket succeeds, each side parses the descriptions of the other one), some continuation over the open
  connection leads to a state in which both processes run and both have set the description of the other one.
\<close>

theorem handshake_completes:
  assumes "handshake_env J doc text_ok Lc Ls" "sys_reachable Lc Ls J S" "cl S = Running c" "sv S = Running s"
    and "usable (cl_link S) (trace c) (cl_ws_hdl c) hc" "usable (sv_link S) (trace s) (srv_ws_hdl s) hs"
    and "cooperative Lc (trace c) hc" "cooperative Ls (trace s) hs"
    and "parses Ls ''offer'' Lc" "parses Lc ''answer'' Ls"
  shows "\<exists>T c' s'. (sys_step Lc Ls J)\<^sup>*\<^sup>* S T \<and> cl T = Running c' \<and> sv T = Running s' \<and>
    has_remote (trace c') \<and> has_remote (trace s')"
proof -
  have "ready Lc Ls J hc hs S c s" using assms handshake_env.reachable_ok [OF assms(1,2)] by (simp add: ready_def)
  from handshake_env.ready_completes [OF assms(1) this assms(10,9)] show ?thesis unfolding completes_def .
qed

text \<open>
  C4. The order of the messages is needed: a well-formed ICE message that reaches the server before
  an offer makes \<open>push_ice\<close> dereference the null \<open>peer_connection\<close>, whatever the candidate
  parser answers, unless the parser reports an error and the server exits.
\<close>

theorem server_early_ice_stops:
  assumes "json_library J doc text_ok" "good_ice text_ok i" "peer_connection s = None"
  shows "\<exists>s'. srv_handle L J (WsMessage h (ToJsonString J i)) s = Stopped
    (if fst (snd (rl_create_cand L (sdp_mid i) (sdp_mline_index i) (candidate i))) \<noteq> [] \<and>
        snd (snd (rl_create_cand L (sdp_mid i) (sdp_mline_index i) (candidate i))) \<noteq> []
     then ExitFailure else NullPointer) s'"
proof -
  obtain json where j: "StringToJson J (ToJsonString J i) = Inr json" "get_string J json ''type'' = Inr ''ice''"
      "FromJsonString J (ToJsonString J i) = Inr i"
    using json_library.message_type_ice [OF assms(1)] json_library.FromJsonString_ToJsonString [OF assms(1)]
      assms(2) by (auto simp: good_ice_def)
  then show ?thesis
    using assms(3) by (simp add: srv_MessageHandler_def push_ice_def log_defs split: prod.splits)
qed

section \<open>Concrete libraries\<close>

lemma ref_no_fault: "\<not> lib_fault ref_lib ref_lib J typ otr f tr"
  by (cases f) (simp_all add: lib_fault_def ref_lib_def own_ice_def ice_complete_def cand_rejected_def)

lemma ref_cooperative: "cooperative ref_lib tr h" "parses ref_lib typ ref_lib"
  by (simp_all add: cooperative_def cooperates_at_def parses_def ref_lib_def)

lemma ref_start:
  "\<exists>c s. cl (sys_init ref_lib ref_lib) = Running c \<and> sv (sys_init ref_lib ref_lib) = Running s \<and>
    \<not> closed_ws (trace c) \<and> \<not> closed_ws (trace s)"
  by (simp add: sys_init_def client_construct_def server_construct_def init_def ws_do_def ref_lib_def log_defs
      client_new_def server_new_def on_ice_def on_message_def on_sdp_def on_success_def)

lemma opened_reachable:
  "\<exists>S. sys_reachable ref_lib ref_lib ref_json S \<and> cl_link S = Opened"
proof -
  obtain c where "cl (sys_init ref_lib ref_lib) = Running c" using ref_start by blast
  then have "sys_reachable ref_lib ref_lib ref_json ((sys_init ref_lib ref_lib)
      \<lparr>cl := cl_handle ref_lib ref_json (WsOpen None) c, cl_link := Opened\<rparr>)"
    by (intro sys_reachable.step [OF sys_reachable.start] sys_step.client_open) (simp_all add: sys_init_def)
  moreover have "cl_link ((sys_init ref_lib ref_lib)
      \<lparr>cl := cl_handle ref_lib ref_json (WsOpen None) c, cl_link := Opened\<rparr>) = Opened" by simp
  ultimately show ?thesis by blast
qed

theorem handshake_safe_witness:
  "\<exists>S. sys_reachable ref_lib ref_lib ref_json S \<and> cl_link S = Opened \<and> running (cl S) \<and> running (sv S)"
proof -
  obtain S where S: "sys_reachable ref_lib ref_lib ref_json S" "cl_link S = Opened" using opened_reachable by blast
  have "running (cl S) \<and> running (sv S)"
    using handshake_safe [OF ref_handshake.handshake_env_axioms S(1)] by (simp add: ref_no_fault split: outcome.splits)
  with S show ?thesis by blast
qed

theorem handshake_agreement_witness:
  "\<exists>S. sys_reachable ref_lib ref_lib ref_json S \<and> cl_link S = Opened \<and>
     agrees ''offer'' ref_lib (trace (state_of (cl S))) ref_lib (trace (state_of (sv S)))"
  using opened_reachable handshake_agreement [OF ref_handshake.handshake_env_axioms] by blast

theorem handshake_completes_witness:
  "\<exists>T c s. (sys_step ref_lib ref_lib ref_json)\<^sup>*\<^sup>* (sys_init ref_lib ref_lib) T \<and>
     cl T = Running c \<and> sv T = Running s \<and> has_remote (trace c) \<and> has_remote (trace s)"
proof -
  obtain c s where run: "cl (sys_init ref_lib ref_lib) = Running c" "sv (sys_init ref_lib ref_lib) = Running s"
    and nc: "\<not> closed_ws (trace c)" "\<not> closed_ws (trace s)" using ref_start by blast
  have "usable (cl_link (sys_init ref_lib ref_lib)) (trace c) (cl_ws_hdl c) None"
    "usable (sv_link (sys_init ref_lib ref_lib)) (trace s) (srv_ws_hdl s) None"
    using nc by (simp_all add: usable_def sys_init_def)
  from handshake_completes [OF ref_handshake.handshake_env_axioms sys_reachable.start run this ref_cooperative(1) ref_cooperative(1)
      ref_cooperative(2) ref_cooperative(2)]
  show ?thesis .
qed

theorem server_early_ice_stops_witness:
  "\<exists>s'. srv_handle ref_lib ref_json
      (WsMessage None (ToJsonString ref_json \<lparr>candidate = ''candidate'', sdp_mid = ''data'', sdp_mline_index = 0\<rparr>))
      (server_new 8888) = Stopped NullPointer s'"
  using server_early_ice_stops [OF ref_json.json_library_axioms, of
      "\<lparr>candidate = ''candidate'', sdp_mid = ''data'', sdp_mline_index = 0\<rparr>" "server_new 8888" ref_lib None]
  by (simp add: good_ice_def ice_complete_def server_new_def ref_lib_def del: srv_handle.simps)

end
