(* ===== verification/IntTypes.thy ===== *)
theory IntTypes
  imports Prelude
begin

text \<open>
  The integer types of C++ as data, for the headers whose templates compute with types: the ranges
  of \<open>std::numeric_limits\<close>, conversion (two's complement wrap-around), integral promotion and the
  usual arithmetic conversions of a binary operator, on a platform with 32-bit \<open>int\<close> and 64-bit
  pointers. A value of type \<open>t\<close> is an integer \<open>v\<close> with \<open>in_type t v\<close>.
\<close>

datatype int_type = Int8 | Int16 | Int32 | Int64 | UInt8 | UInt16 | UInt32 | UInt64

fun sizeof :: "int_type \<Rightarrow> nat" where
  "sizeof Int8 = 1" | "sizeof Int16 = 2" | "sizeof Int32 = 4" | "sizeof Int64 = 8"
| "sizeof UInt8 = 1" | "sizeof UInt16 = 2" | "sizeof UInt32 = 4" | "sizeof UInt64 = 8"

fun is_signed :: "int_type \<Rightarrow> bool" where
  "is_signed Int8 = True" | "is_signed Int16 = True" | "is_signed Int32 = True" | "is_signed Int64 = True"
| "is_signed UInt8 = False" | "is_signed UInt16 = False" | "is_signed UInt32 = False" | "is_signed UInt64 = False"

fun lowest :: "int_type \<Rightarrow> int" where
  "lowest Int8 = - 128" | "lowest Int16 = - 32768" | "lowest Int32 = - 2147483648"
| "lowest Int64 = - 9223372036854775808"
| "lowest UInt8 = 0" | "lowest UInt16 = 0" | "lowest UInt32 = 0" | "lowest UInt64 = 0"

fun highest :: "int_type \<Rightarrow> int" where
  "highest Int8 = 127" | "highest Int16 = 32767" | "highest Int32 = 2147483647"
| "highest Int64 = 9223372036854775807"
| "highest UInt8 = 255" | "highest UInt16 = 65535" | "highest UInt32 = 4294967295"
| "highest UInt64 = 18446744073709551615"

definition in_type :: "int_type \<Rightarrow> int \<Rightarrow> bool" where
  "in_type t v \<longleftrightarrow> lowest t \<le> v \<and> v \<le> highest t"

definition cast :: "int_type \<Rightarrow> int \<Rightarrow> int" where
  "cast t v = (v - lowest t) mod (highest t - lowest t + 1) + lowest t"

fun make_unsigned :: "int_type \<Rightarrow> int_type" where
  "make_unsigned Int8 = UInt8" | "make_unsigned Int16 = UInt16"
| "make_unsigned Int32 = UInt32" | "make_unsigned Int64 = UInt64"
| "make_unsigned t = t"

definition promote :: "int_type \<Rightarrow> int_type" where
  "promote t = (if sizeof t < 4 then Int32 else t)"

definition common_type :: "int_type \<Rightarrow> int_type \<Rightarrow> int_type" where
  "common_type t1 t2 =
     (let p1 = promote t1; p2 = promote t2 in
      if is_signed p1 = is_signed p2 then (if sizeof p1 \<ge> sizeof p2 then p1 else p2)
      else let s = (if is_signed p1 then p1 else p2); u = (if is_signed p1 then p2 else p1) in
        if sizeof u \<ge> sizeof s then u else s)"

lemma lowest_le_highest: "lowest t \<le> highest t"
  by (cases t) simp_all

lemma in_type_limits [simp]: "in_type t (lowest t)" "in_type t (highest t)"
  using lowest_le_highest [of t] by (simp_all add: in_type_def)

lemma cast_in_type: "in_type t (cast t v)"
proof -
  have "0 < highest t - lowest t + 1" using lowest_le_highest [of t] by simp
  then have "0 \<le> (v - lowest t) mod (highest t - lowest t + 1)"
    "(v - lowest t) mod (highest t - lowest t + 1) < highest t - lowest t + 1"
    by (rule pos_mod_sign, rule pos_mod_bound)
  then show ?thesis by (simp add: cast_def in_type_def)
qed

lemma cast_id [simp]: "in_type t v \<Longrightarrow> cast t v = v"
  by (simp add: cast_def in_type_def)

lemma in_type_int64: "in_type Int64 v \<longleftrightarrow> in_int64 v"
  by (simp add: in_type_def in_int64_def)

lemma in_type_mono: "in_type t v \<Longrightarrow> lowest u \<le> lowest t \<Longrightarrow> highest t \<le> highest u \<Longrightarrow> in_type u v"
  by (simp add: in_type_def)

lemma in_type_promote: "in_type t v \<Longrightarrow> in_type (promote t) v"
  by (cases t) (simp_all add: promote_def in_type_def)

text \<open>The types whose values survive the conversions of a mixed operation.\<close>

lemma in_common_same_sign:
  "is_signed t1 = is_signed t2 \<Longrightarrow> in_type t1 v \<Longrightarrow> in_type (common_type t1 t2) v"
  "is_signed t1 = is_signed t2 \<Longrightarrow> in_type t2 v \<Longrightarrow> in_type (common_type t1 t2) v"
  by (cases t1; cases t2; simp add: common_type_def promote_def in_type_def)+

end
