(* ===== verification/SafeNumerics.thy ===== *)
theory SafeNumerics
  imports IntTypes
begin

text \<open>
  rtc_base/numerics: comparison (safe_compare.h), conversion (safe_conversions.h and
  safe_conversions_impl.h), minimum, maximum and clamping (safe_minmax.h) of integers of different
  types, and rounding division (divide_round.h). A template parameter that is a type is an argument
  of type \<open>int_type\<close>; a \<open>static_assert\<close> that fails is the result \<open>None\<close>. The floating-point
  overloads are not modelled.
\<close>

section \<open>safe_compare.h\<close>

fun LargerIntImpl :: "nat \<Rightarrow> int_type option" where
  "LargerIntImpl n =
     (if n = sizeof Int8 then Some Int16
      else if n = sizeof Int16 then Some Int32
      else if n = sizeof Int32 then Some Int64
      else None)"

definition LargerInt :: "int_type \<Rightarrow> int_type \<Rightarrow> int_type option" where
  "LargerInt t1 t2 = LargerIntImpl (if sizeof t1 < sizeof t2 \<or> sizeof t1 < 8 then sizeof t1 else 0)"

definition MakeUnsigned :: "int_type \<Rightarrow> int \<Rightarrow> int" where
  "MakeUnsigned t a = cast (make_unsigned t) a"

datatype cmp_op = EqOp | NeOp | LtOp | LeOp | GtOp | GeOp

fun cmp_rel :: "cmp_op \<Rightarrow> int \<Rightarrow> int \<Rightarrow> bool" where
  "cmp_rel EqOp a b = (a = b)"
| "cmp_rel NeOp a b = (a \<noteq> b)"
| "cmp_rel LtOp a b = (a < b)"
| "cmp_rel LeOp a b = (a \<le> b)"
| "cmp_rel GtOp a b = (a > b)"
| "cmp_rel GeOp a b = (a \<ge> b)"

text \<open>\<open>a op b\<close>: both operands are converted to their common type first.\<close>

definition Op :: "cmp_op \<Rightarrow> int_type \<Rightarrow> int \<Rightarrow> int_type \<Rightarrow> int \<Rightarrow> bool" where
  "Op opr t1 a t2 b = cmp_rel opr (cast (common_type t1 t2) a) (cast (common_type t1 t2) b)"

text \<open>The five overloads of \<open>Cmp\<close>, selected by the signedness of the types and by \<open>LargerInt\<close>.\<close>

definition Cmp :: "cmp_op \<Rightarrow> int_type \<Rightarrow> int \<Rightarrow> int_type \<Rightarrow> int \<Rightarrow> bool" where
  "Cmp opr t1 a t2 b =
     (if is_signed t1 = is_signed t2 then Op opr t1 a t2 b
      else if is_signed t1 then
        (case LargerInt t2 t1 of
           Some l \<Rightarrow> Op opr t1 a l (cast l b)
         | None \<Rightarrow> if a < 0 then Op opr Int32 (- 1) Int32 0
                   else Op opr (make_unsigned t1) (MakeUnsigned t1 a) t2 b)
      else
        (case LargerInt t1 t2 of
           Some l \<Rightarrow> Op opr l (cast l a) t2 b
         | None \<Rightarrow> if b < 0 then Op opr Int32 0 Int32 (- 1)
                   else Op opr t1 a (make_unsigned t2) (MakeUnsigned t2 b)))"

definition SafeCmp :: "cmp_op \<Rightarrow> int_type \<Rightarrow> int \<Rightarrow> int_type \<Rightarrow> int \<Rightarrow> bool" where
  "SafeCmp opr t1 a t2 b = Cmp opr (promote t1) a (promote t2) b"

section \<open>safe_conversions_impl.h and safe_conversions.h\<close>

datatype DstRange = OVERLAPS_RANGE | CONTAINS_RANGE

definition StaticRangeCheck :: "int_type \<Rightarrow> int_type \<Rightarrow> DstRange" where
  "StaticRangeCheck dst src =
     (if is_signed dst \<and> is_signed src then
        (if sizeof dst * 8 - 1 \<ge> sizeof src * 8 - 1 then CONTAINS_RANGE else OVERLAPS_RANGE)
      else if \<not> is_signed dst \<and> \<not> is_signed src then
        (if sizeof dst \<ge> sizeof src then CONTAINS_RANGE else OVERLAPS_RANGE)
      else if is_signed dst \<and> \<not> is_signed src then
        (if sizeof dst * 8 - 1 \<ge> sizeof src * 8 then CONTAINS_RANGE else OVERLAPS_RANGE)
      else OVERLAPS_RANGE)"

datatype RangeCheckResult = TYPE_VALID | TYPE_UNDERFLOW | TYPE_OVERFLOW | TYPE_INVALID

definition BASE_NUMERIC_RANGE_CHECK_RESULT :: "bool \<Rightarrow> bool \<Rightarrow> RangeCheckResult" where
  "BASE_NUMERIC_RANGE_CHECK_RESULT is_in_upper_bound is_in_lower_bound =
     (if is_in_upper_bound
      then (if is_in_lower_bound then TYPE_VALID else TYPE_UNDERFLOW)
      else (if is_in_lower_bound then TYPE_OVERFLOW else TYPE_INVALID))"

definition RangeCheck :: "int_type \<Rightarrow> int_type \<Rightarrow> int \<Rightarrow> RangeCheckResult" where
  "RangeCheck dst src value =
     (if StaticRangeCheck dst src = CONTAINS_RANGE then TYPE_VALID
      else if is_signed dst \<and> is_signed src then
        BASE_NUMERIC_RANGE_CHECK_RESULT
          (value \<le> cast src (highest dst)) (value \<ge> cast src (lowest dst))
      else if \<not> is_signed dst \<and> \<not> is_signed src then
        BASE_NUMERIC_RANGE_CHECK_RESULT (value \<le> cast src (highest dst)) True
      else if is_signed dst then
        (if sizeof dst > sizeof src then TYPE_VALID
         else BASE_NUMERIC_RANGE_CHECK_RESULT (value \<le> cast src (highest dst)) True)
      else
        (if sizeof dst * 8 \<ge> sizeof src * 8 - 1
         then BASE_NUMERIC_RANGE_CHECK_RESULT True (value \<ge> 0)
         else BASE_NUMERIC_RANGE_CHECK_RESULT (value \<le> cast src (highest dst)) (value \<ge> 0)))"

definition IsValueInRangeForNumericType :: "int_type \<Rightarrow> int_type \<Rightarrow> int \<Rightarrow> bool" where
  "IsValueInRangeForNumericType dst src value \<longleftrightarrow> RangeCheck dst src value = TYPE_VALID"

definition checked_cast :: "int_type \<Rightarrow> int_type \<Rightarrow> int \<Rightarrow> int res" where
  "checked_cast dst src value =
     check (IsValueInRangeForNumericType dst src value) (Inr (cast dst value))"

definition dchecked_cast :: "int_type \<Rightarrow> int_type \<Rightarrow> int \<Rightarrow> int res" where
  "dchecked_cast dst src value =
     dcheck (IsValueInRangeForNumericType dst src value) (Inr (cast dst value))"

definition saturated_cast :: "int_type \<Rightarrow> int_type \<Rightarrow> int \<Rightarrow> int res" where
  "saturated_cast dst src value =
     (case RangeCheck dst src value of
        TYPE_VALID \<Rightarrow> Inr (cast dst value)
      | TYPE_UNDERFLOW \<Rightarrow> Inr (lowest dst)
      | TYPE_OVERFLOW \<Rightarrow> Inr (highest dst)
      | TYPE_INVALID \<Rightarrow> Inl CheckFailed)"

section \<open>safe_minmax.h\<close>

definition MType_min_t :: "int_type \<Rightarrow> int_type \<Rightarrow> int_type" where
  "MType_min_t t1 t2 =
     (if SafeCmp LtOp t1 (lowest t1) t2 (lowest t2) then t1
      else if SafeCmp GtOp t1 (lowest t1) t2 (lowest t2) then t2
      else if SafeCmp LeOp t1 (highest t1) t2 (highest t2) then t1 else t2)"

definition MType_max_t :: "int_type \<Rightarrow> int_type \<Rightarrow> int_type" where
  "MType_max_t t1 t2 = (if SafeCmp GeOp t1 (highest t1) t2 (highest t2) then t1 else t2)"

definition TypeOr :: "int_type option \<Rightarrow> int_type \<Rightarrow> int_type option" where
  "TypeOr a b =
     (let type = (case a of None \<Rightarrow> b | Some t \<Rightarrow> t) in
      if SafeCmp LeOp type (lowest type) b (lowest b) \<and> SafeCmp GeOp type (highest type) b (highest b)
      then Some type else None)"

definition SafeMin :: "int_type option \<Rightarrow> int_type \<Rightarrow> int \<Rightarrow> int_type \<Rightarrow> int \<Rightarrow> (int_type \<times> int) option" where
  "SafeMin r t1 a t2 b =
     map_option (\<lambda>r2. (r2, if SafeCmp LtOp t1 a t2 b then cast r2 a else cast r2 b))
       (TypeOr r (MType_min_t t1 t2))"

definition SafeMax :: "int_type option \<Rightarrow> int_type \<Rightarrow> int \<Rightarrow> int_type \<Rightarrow> int \<Rightarrow> (int_type \<times> int) option" where
  "SafeMax r t1 a t2 b =
     map_option (\<lambda>r2. (r2, if SafeCmp GtOp t1 a t2 b then cast r2 a else cast r2 b))
       (TypeOr r (MType_max_t t1 t2))"

text \<open>The bounds \<open>r_min\<close> and \<open>r_max\<close> of \<open>ClampType\<close>, each with its deduced type.\<close>

definition clamp_r_min :: "int_type \<Rightarrow> int_type \<Rightarrow> int_type \<Rightarrow> (int_type \<times> int) option" where
  "clamp_r_min t l h =
     (case SafeMin None h (lowest h) t (lowest t) of
        None \<Rightarrow> None
      | Some (tm, m) \<Rightarrow> SafeMax None l (lowest l) tm m)"

definition clamp_r_max :: "int_type \<Rightarrow> int_type \<Rightarrow> int_type \<Rightarrow> (int_type \<times> int) option" where
  "clamp_r_max t l h =
     (case SafeMax None l (highest l) t (highest t) of
        None \<Rightarrow> None
      | Some (tm, m) \<Rightarrow> SafeMin None h (highest h) tm m)"

definition AcceptableType :: "int_type \<Rightarrow> int_type \<Rightarrow> int_type \<Rightarrow> int_type \<Rightarrow> bool" where
  "AcceptableType t l h a =
     (let not_too_large = (sizeof a \<le> sizeof l \<or> sizeof a \<le> sizeof h \<or> sizeof a \<le> sizeof t);
          range_contained =
            (case (clamp_r_min t l h, clamp_r_max t l h) of
               (Some (tmin, r_min), Some (tmax, r_max)) \<Rightarrow>
                 SafeCmp LeOp a (lowest a) tmin r_min \<and> SafeCmp LeOp tmax r_max a (highest a)
             | _ \<Rightarrow> False)
      in not_too_large \<and> range_contained)"

definition best_signed_type :: "int_type \<Rightarrow> int_type \<Rightarrow> int_type \<Rightarrow> int_type" where
  "best_signed_type t l h =
     (if AcceptableType t l h Int8 then Int8
      else if AcceptableType t l h Int16 then Int16
      else if AcceptableType t l h Int32 then Int32 else Int64)"

definition best_unsigned_type :: "int_type \<Rightarrow> int_type \<Rightarrow> int_type \<Rightarrow> int_type" where
  "best_unsigned_type t l h =
     (if AcceptableType t l h UInt8 then UInt8
      else if AcceptableType t l h UInt16 then UInt16
      else if AcceptableType t l h UInt32 then UInt32 else UInt64)"

definition ClampType :: "int_type \<Rightarrow> int_type \<Rightarrow> int_type \<Rightarrow> int_type option" where
  "ClampType t l h =
     (let type =
        (if is_signed t
         then (if AcceptableType t l h (best_signed_type t l h)
               then best_signed_type t l h else best_unsigned_type t l h)
         else (if AcceptableType t l h (best_unsigned_type t l h)
               then best_unsigned_type t l h else best_signed_type t l h))
      in if AcceptableType t l h type then Some type else None)"

definition SafeClamp ::
  "int_type option \<Rightarrow> int_type \<Rightarrow> int \<Rightarrow> int_type \<Rightarrow> int \<Rightarrow> int_type \<Rightarrow> int \<Rightarrow> (int_type \<times> int) res option" where
  "SafeClamp r t x l mn h mx =
     (case ClampType t l h of
        None \<Rightarrow> None
      | Some ct \<Rightarrow> (case TypeOr r ct of
          None \<Rightarrow> None
        | Some r2 \<Rightarrow> Some (dcheck (SafeCmp LeOp l mn h mx)
            (Inr (r2, if SafeCmp LeOp t x l mn then cast r2 mn
                      else if SafeCmp GeOp t x h mx then cast r2 mx
                      else cast r2 x)))))"

section \<open>divide_round.h\<close>

definition DivideRoundUp :: "int \<Rightarrow> int \<Rightarrow> int res" where
  "DivideRoundUp dividend divisor =
     dcheck (dividend \<ge> 0) (dcheck (divisor > 0)
       (let quotient = dividend sdiv divisor; remainder = dividend smod divisor
        in Inr (quotient + (if remainder > 0 then 1 else 0))))"

definition DivideRoundToNearest :: "int \<Rightarrow> int \<Rightarrow> int res" where
  "DivideRoundToNearest dividend divisor =
     dcheck (dividend \<ge> 0) (dcheck (divisor > 0)
       (let half_of_divisor = (divisor - 1) sdiv 2;
            quotient = dividend sdiv divisor; remainder = dividend smod divisor
        in Inr (quotient + (if remainder > half_of_divisor then 1 else 0))))"

section \<open>Comparison\<close>

lemma common_type_commute: "is_signed t1 = is_signed t2 \<Longrightarrow> common_type t1 t2 = common_type t2 t1"
  by (cases t1; cases t2; simp add: common_type_def promote_def)

lemma Op_same_sign:
  "is_signed t1 = is_signed t2 \<Longrightarrow> in_type t1 a \<Longrightarrow> in_type t2 b \<Longrightarrow> Op opr t1 a t2 b = cmp_rel opr a b"
  by (simp add: Op_def in_common_same_sign)

lemma is_signed_make_unsigned [simp]: "\<not> is_signed (make_unsigned t)"
  by (cases t) simp_all

lemma LargerInt_signed:
  "LargerInt t u = Some l \<Longrightarrow> \<not> is_signed t \<Longrightarrow> is_signed l \<and> lowest l \<le> lowest t \<and> highest t \<le> highest l"
  by (cases t) (auto simp: LargerInt_def split: if_splits)

lemma in_make_unsigned: "in_type t a \<Longrightarrow> 0 \<le> a \<Longrightarrow> in_type (make_unsigned t) a"
  by (cases t) (simp_all add: in_type_def)

lemma Op_minus_one:
  "Op opr Int32 (- 1) Int32 0 = cmp_rel opr (- 1) 0" "Op opr Int32 0 Int32 (- 1) = cmp_rel opr 0 (- 1)"
  by (simp_all add: Op_same_sign in_type_def)

lemma unsigned_nonneg: "\<not> is_signed t \<Longrightarrow> in_type t v \<Longrightarrow> 0 \<le> v"
  by (cases t) (simp_all add: in_type_def)

lemma cmp_rel_sign:
  "a < 0 \<Longrightarrow> 0 \<le> b \<Longrightarrow> cmp_rel opr (- 1) 0 = cmp_rel opr a b"
  "0 \<le> a \<Longrightarrow> b < 0 \<Longrightarrow> cmp_rel opr 0 (- 1) = cmp_rel opr a b"
  by (cases opr; simp)+

lemma Cmp_exact:
  assumes "in_type t1 a" "in_type t2 b"
  shows "Cmp opr t1 a t2 b = cmp_rel opr a b"
proof (cases "is_signed t1 = is_signed t2")
  case True
  then show ?thesis using assms by (simp add: Cmp_def Op_same_sign)
next
  case False
  show ?thesis
  proof (cases "is_signed t1")
    case True
    with False have u: "\<not> is_signed t2" by simp
    show ?thesis
    proof (cases "LargerInt t2 t1")
      case None
      then show ?thesis
        using assms True u in_make_unsigned [OF assms(1)] unsigned_nonneg [OF u assms(2)]
        by (auto simp: Cmp_def MakeUnsigned_def Op_same_sign Op_minus_one cmp_rel_sign(1))
    next
      case (Some l)
      have l: "is_signed l" "in_type l b"
        using LargerInt_signed [OF Some u] in_type_mono [OF assms(2)] by blast+
      then show ?thesis using Some assms True u by (simp add: Cmp_def Op_same_sign)
    qed
  next
    case False
    with \<open>is_signed t1 \<noteq> is_signed t2\<close> have s: "is_signed t2" by simp
    show ?thesis
    proof (cases "LargerInt t1 t2")
      case None
      then show ?thesis
        using assms False s in_make_unsigned [OF assms(2)] unsigned_nonneg [OF False assms(1)]
        by (auto simp: Cmp_def MakeUnsigned_def Op_same_sign Op_minus_one cmp_rel_sign(2))
    next
      case (Some l)
      have l: "is_signed l" "in_type l a"
        using LargerInt_signed [OF Some False] in_type_mono [OF assms(1)] by blast+
      then show ?thesis using Some assms False s by (simp add: Cmp_def Op_same_sign)
    qed
  qed
qed

lemma SafeCmp_eq:
  "in_type t1 a \<Longrightarrow> in_type t2 b \<Longrightarrow> SafeCmp opr t1 a t2 b = cmp_rel opr a b"
  by (simp add: SafeCmp_def Cmp_exact in_type_promote)

text \<open>
  Comparison of integers of any two types is exact: \<open>SafeEq\<close>, \<open>SafeNe\<close>, \<open>SafeLt\<close>, \<open>SafeLe\<close>,
  \<open>SafeGt\<close> and \<open>SafeGe\<close> compare the mathematical values, although every overload of \<open>Cmp\<close> converts
  its operands.
\<close>

theorem safe_compare_exact:
  assumes "in_type t1 a" "in_type t2 b"
  shows "SafeCmp opr t1 a t2 b = cmp_rel opr a b"
  using assms by (rule SafeCmp_eq)

theorem safe_compare_exact_witness:
  "SafeCmp LtOp Int64 (- 1) UInt64 18446744073709551615 = True"
  using safe_compare_exact [of Int64 "- 1" UInt64 18446744073709551615 LtOp] by (simp add: in_type_def)

section \<open>Conversion\<close>

lemma RangeCheck_eq:
  assumes "in_type src v"
  shows "RangeCheck dst src v =
    (if v < lowest dst then TYPE_UNDERFLOW else if highest dst < v then TYPE_OVERFLOW else TYPE_VALID)"
  using assms
  by (cases dst; cases src;
      simp add: RangeCheck_def StaticRangeCheck_def BASE_NUMERIC_RANGE_CHECK_RESULT_def in_type_def cast_def)

lemma in_range_iff: "in_type src v \<Longrightarrow> IsValueInRangeForNumericType dst src v \<longleftrightarrow> in_type dst v"
  by (auto simp: IsValueInRangeForNumericType_def RangeCheck_eq in_type_def)

lemma dchecked_cast_eq:
  "in_type src v \<Longrightarrow> dchecked_cast dst src v = dcheck (in_type dst v) (Inr v)"
  by (cases "in_type dst v") (simp_all add: dchecked_cast_def in_range_iff)

text \<open>
  Conversions between integer types: \<open>checked_cast\<close> returns the value unchanged exactly when it
  fits the destination and stops otherwise; \<open>saturated_cast\<close> never stops and returns the value of the
  destination type nearest to the argument.
\<close>

theorem casts_exact:
  assumes "in_type src v"
  shows "checked_cast dst src v = (if in_type dst v then Inr v else Inl CheckFailed) \<and>
    saturated_cast dst src v = Inr (max (lowest dst) (min v (highest dst)))"
  using assms lowest_le_highest [of dst]
  by (auto simp: checked_cast_def saturated_cast_def in_range_iff RangeCheck_eq in_type_def)

theorem casts_exact_witness:
  "checked_cast UInt8 Int32 300 = Inl CheckFailed \<and> saturated_cast UInt8 Int32 300 = Inr 255"
  using casts_exact [of Int32 300 UInt8] by (simp add: in_type_def)

section \<open>Minimum, maximum, clamping\<close>

lemma MType_min_t_holds:
  "in_type t1 a \<Longrightarrow> in_type t2 b \<Longrightarrow> in_type (MType_min_t t1 t2) (min a b)"
  by (cases t1; cases t2; simp add: MType_min_t_def SafeCmp_eq in_type_def; linarith)

lemma MType_max_t_holds:
  "in_type t1 a \<Longrightarrow> in_type t2 b \<Longrightarrow> in_type (MType_max_t t1 t2) (max a b)"
  by (cases t1; cases t2; simp add: MType_max_t_def SafeCmp_eq in_type_def; linarith)

lemma TypeOr_default: "TypeOr None b = Some b"
  by (simp add: TypeOr_def SafeCmp_eq)

lemma TypeOr_holds: "TypeOr r b = Some t \<Longrightarrow> in_type b v \<Longrightarrow> in_type t v"
proof -
  assume "TypeOr r b = Some t"
  then have "lowest t \<le> lowest b" "highest b \<le> highest t"
    by (auto simp: TypeOr_def SafeCmp_eq Let_def split: if_splits)
  then show "in_type b v \<Longrightarrow> in_type t v" by (auto simp: in_type_def)
qed

lemma SafeMin_eq:
  assumes "in_type t1 a" "in_type t2 b" "TypeOr r (MType_min_t t1 t2) = Some t"
  shows "SafeMin r t1 a t2 b = Some (t, min a b) \<and> in_type t (min a b)"
proof -
  have "in_type t (min a b)" using TypeOr_holds assms(3) MType_min_t_holds [OF assms(1,2)] by blast
  then show ?thesis
    using assms by (auto simp: SafeMin_def SafeCmp_eq min_def split: if_splits)
qed

lemma SafeMax_eq:
  assumes "in_type t1 a" "in_type t2 b" "TypeOr r (MType_max_t t1 t2) = Some t"
  shows "SafeMax r t1 a t2 b = Some (t, max a b) \<and> in_type t (max a b)"
proof -
  have "in_type t (max a b)" using TypeOr_holds assms(3) MType_max_t_holds [OF assms(1,2)] by blast
  then show ?thesis
    using assms by (auto simp: SafeMax_def SafeCmp_eq max_def split: if_splits)
qed

text \<open>
  \<open>SafeMin\<close> and \<open>SafeMax\<close> return the smaller and the larger of the two mathematical values, and
  the type they choose can represent it: no truncation and no wrap-around. A requested result type
  either is rejected at compile time or gives the same value.
\<close>

theorem safe_min_max_exact:
  assumes "in_type t1 a" "in_type t2 b"
  shows "SafeMin None t1 a t2 b = Some (MType_min_t t1 t2, min a b) \<and> in_type (MType_min_t t1 t2) (min a b) \<and>
    SafeMax None t1 a t2 b = Some (MType_max_t t1 t2, max a b) \<and> in_type (MType_max_t t1 t2) (max a b) \<and>
    SafeMin (Some r) t1 a t2 b \<in> {None, Some (r, min a b)} \<and>
    SafeMax (Some r) t1 a t2 b \<in> {None, Some (r, max a b)}"
proof -
  have "SafeMin (Some r) t1 a t2 b \<in> {None, Some (r, min a b)}"
    using SafeMin_eq [OF assms, of "Some r" r]
    by (cases "TypeOr (Some r) (MType_min_t t1 t2)") (auto simp: SafeMin_def TypeOr_def Let_def split: if_splits)
  moreover have "SafeMax (Some r) t1 a t2 b \<in> {None, Some (r, max a b)}"
    using SafeMax_eq [OF assms, of "Some r" r]
    by (cases "TypeOr (Some r) (MType_max_t t1 t2)") (auto simp: SafeMax_def TypeOr_def Let_def split: if_splits)
  ultimately show ?thesis
    using SafeMin_eq [OF assms TypeOr_default] SafeMax_eq [OF assms TypeOr_default] by blast
qed

theorem safe_min_max_exact_witness:
  "SafeMin None Int8 (- 5) UInt64 7 = Some (MType_min_t Int8 UInt64, - 5)"
  using safe_min_max_exact [of Int8 "- 5" UInt64 7] by (simp add: in_type_def)

definition r_min_val :: "int_type \<Rightarrow> int_type \<Rightarrow> int_type \<Rightarrow> int" where
  "r_min_val t l h = max (lowest l) (min (lowest h) (lowest t))"

definition r_max_val :: "int_type \<Rightarrow> int_type \<Rightarrow> int_type \<Rightarrow> int" where
  "r_max_val t l h = min (highest h) (max (highest l) (highest t))"

lemma clamp_r_min_eq: "\<exists>ty. clamp_r_min t l h = Some (ty, r_min_val t l h) \<and> in_type ty (r_min_val t l h)"
proof -
  have *: "SafeMin None h (lowest h) t (lowest t) = Some (MType_min_t h t, min (lowest h) (lowest t))"
    "in_type (MType_min_t h t) (min (lowest h) (lowest t))"
    using SafeMin_eq [OF in_type_limits(1) in_type_limits(1) TypeOr_default] by blast+
  show ?thesis
    using SafeMax_eq [OF in_type_limits(1) [of l] *(2) TypeOr_default]
    by (simp add: clamp_r_min_def *(1) r_min_val_def)
qed

lemma clamp_r_max_eq: "\<exists>ty. clamp_r_max t l h = Some (ty, r_max_val t l h) \<and> in_type ty (r_max_val t l h)"
proof -
  have *: "SafeMax None l (highest l) t (highest t) = Some (MType_max_t l t, max (highest l) (highest t))"
    "in_type (MType_max_t l t) (max (highest l) (highest t))"
    using SafeMax_eq [OF in_type_limits(2) in_type_limits(2) TypeOr_default] by blast+
  show ?thesis
    using SafeMin_eq [OF in_type_limits(2) [of h] *(2) TypeOr_default]
    by (simp add: clamp_r_max_def *(1) r_max_val_def)
qed

lemma AcceptableType_iff:
  "AcceptableType t l h a \<longleftrightarrow> (sizeof a \<le> sizeof l \<or> sizeof a \<le> sizeof h \<or> sizeof a \<le> sizeof t) \<and>
     lowest a \<le> r_min_val t l h \<and> r_max_val t l h \<le> highest a"
proof -
  obtain t1 t2 where "clamp_r_min t l h = Some (t1, r_min_val t l h)" "in_type t1 (r_min_val t l h)"
    "clamp_r_max t l h = Some (t2, r_max_val t l h)" "in_type t2 (r_max_val t l h)"
    using clamp_r_min_eq clamp_r_max_eq by blast
  then show ?thesis by (simp add: AcceptableType_def SafeCmp_eq)
qed

lemma ClampType_acceptable: "ClampType t l h = Some c \<Longrightarrow> AcceptableType t l h c"
  by (auto simp: ClampType_def Let_def split: if_splits)

lemma acceptable_exists: "AcceptableType t l h Int64 \<or> AcceptableType t l h UInt64 \<or>
    AcceptableType t l h Int32 \<or> AcceptableType t l h UInt32 \<or> AcceptableType t l h Int16 \<or>
    AcceptableType t l h UInt16 \<or> AcceptableType t l h Int8 \<or> AcceptableType t l h UInt8"
  unfolding AcceptableType_iff r_min_val_def r_max_val_def
  by (cases t; cases l; cases h; simp)

lemma best_signed_acceptable:
  "AcceptableType t l h Int64 \<or> AcceptableType t l h Int32 \<or> AcceptableType t l h Int16 \<or>
   AcceptableType t l h Int8 \<Longrightarrow> AcceptableType t l h (best_signed_type t l h)"
  by (auto simp: best_signed_type_def)

lemma best_unsigned_acceptable:
  "AcceptableType t l h UInt64 \<or> AcceptableType t l h UInt32 \<or> AcceptableType t l h UInt16 \<or>
   AcceptableType t l h UInt8 \<Longrightarrow> AcceptableType t l h (best_unsigned_type t l h)"
  by (auto simp: best_unsigned_type_def)

lemma ClampType_exists: "\<exists>c. ClampType t l h = Some c"
proof -
  have "AcceptableType t l h (best_signed_type t l h) \<or> AcceptableType t l h (best_unsigned_type t l h)"
    using acceptable_exists best_signed_acceptable best_unsigned_acceptable by blast
  then show ?thesis by (auto simp: ClampType_def Let_def)
qed

lemma clamp_in_range:
  assumes "in_type t x" "in_type l mn" "in_type h mx" "mn \<le> mx"
  shows "r_min_val t l h \<le> max mn (min x mx)" "max mn (min x mx) \<le> r_max_val t l h"
  using assms by (auto simp: r_min_val_def r_max_val_def in_type_def)

text \<open>
  C25. \<open>SafeClamp\<close> with three arguments of any integer types: the choice of the return type never
  fails to compile, the type is no larger than the largest argument type, a violated \<open>min <= max\<close>
  stops the process, and otherwise the result is the value of the interval nearest to \<open>x\<close>, which the
  return type represents exactly.
\<close>

theorem safe_clamp_exact:
  assumes "in_type t x" "in_type l mn" "in_type h mx"
  shows "\<exists>c. ClampType t l h = Some c \<and> (sizeof c \<le> sizeof l \<or> sizeof c \<le> sizeof h \<or> sizeof c \<le> sizeof t) \<and>
    SafeClamp None t x l mn h mx =
      Some (if mn \<le> mx then Inr (c, max mn (min x mx)) else Inl DCheckFailed) \<and>
    (mn \<le> mx \<longrightarrow> in_type c (max mn (min x mx)))"
proof -
  obtain c where c: "ClampType t l h = Some c" using ClampType_exists by blast
  then have acc: "sizeof c \<le> sizeof l \<or> sizeof c \<le> sizeof h \<or> sizeof c \<le> sizeof t"
    "lowest c \<le> r_min_val t l h" "r_max_val t l h \<le> highest c"
    using ClampType_acceptable [OF c] unfolding AcceptableType_iff by blast+
  have fits: "in_type c (max mn (min x mx))" if "mn \<le> mx"
    using clamp_in_range [OF assms that] acc(2,3) by (simp add: in_type_def)
  have "SafeClamp None t x l mn h mx =
      Some (if mn \<le> mx then Inr (c, max mn (min x mx)) else Inl DCheckFailed)"
    using assms fits c by (auto simp: SafeClamp_def TypeOr_default SafeCmp_eq max_def min_def split: if_splits)
  then show ?thesis using c acc(1) fits by blast
qed

theorem safe_clamp_exact_witness:
  "\<exists>c. ClampType Int64 UInt8 UInt8 = Some c \<and> SafeClamp None Int64 (- 7) UInt8 3 UInt8 9 = Some (Inr (c, 3))"
  using safe_clamp_exact [of Int64 "- 7" UInt8 3 UInt8 9] by (auto simp: in_type_def)

section \<open>Rounding division\<close>

lemma sdiv_nonneg: "0 \<le> (a::int) \<Longrightarrow> 0 < b \<Longrightarrow> a sdiv b = a div b"
  by (simp add: signed_divide_int_def sgn_if)

lemma smod_nonneg: "0 \<le> (a::int) \<Longrightarrow> 0 < b \<Longrightarrow> a smod b = a mod b"
  by (simp add: signed_modulo_int_def sgn_if)

lemma ceiling_div:
  assumes "0 < (d::int)"
  shows "n div d + (if 0 < n mod d then 1 else 0) = (n + d - 1) div d"
proof -
  define r where "r = n mod d"
  define q where "q = n div d"
  have r: "0 \<le> r" "r < d" using assms by (simp_all add: r_def)
  have "n = r + d * q" by (simp add: r_def q_def)
  then have "n + d - 1 = (r + d - 1) + d * q" by linarith
  moreover have "((r + d - 1) + d * q) div d = q + (r + d - 1) div d"
    using assms by (intro div_mult_self2) simp
  ultimately have "(n + d - 1) div d = q + (r + d - 1) div d" by (rule ssubst)
  moreover have "(r + d - 1) div d = (if 0 < r then 1 else 0)"
    using r by (intro int_div_pos_eq [where r = "if 0 < r then r - 1 else d - 1"]) auto
  ultimately show ?thesis by (simp add: r_def q_def)
qed

lemma nearest_div:
  assumes "0 < (d::int)"
  shows "n div d + (if (d - 1) div 2 < n mod d then 1 else 0) = (2 * n + d) div (2 * d)"
proof -
  define r where "r = n mod d"
  define q where "q = n div d"
  have r: "0 \<le> r" "r < d" using assms by (simp_all add: r_def)
  have "n = r + d * q" by (simp add: r_def q_def)
  then have "2 * n + d = (2 * r + d) + (2 * d) * q" by (simp add: algebra_simps)
  moreover have "((2 * r + d) + (2 * d) * q) div (2 * d) = q + (2 * r + d) div (2 * d)"
    using assms by (intro div_mult_self2) simp
  ultimately have "(2 * n + d) div (2 * d) = q + (2 * r + d) div (2 * d)" by (rule ssubst)
  moreover have "(2 * r + d) div (2 * d) = (if d \<le> 2 * r then 1 else 0)"
    using r by (intro int_div_pos_eq [where r = "if d \<le> 2 * r then 2 * r - d else 2 * r + d"]) auto
  moreover have "(d - 1) div 2 < r \<longleftrightarrow> d \<le> 2 * r" using r by linarith
  ultimately show ?thesis by (simp add: r_def q_def)
qed

text \<open>
  \<open>DivideRoundUp\<close> is the ceiling of the quotient and \<open>DivideRoundToNearest\<close> a nearest integer to
  it, a tie going up; a negative dividend or a divisor that is not positive stops the process.
\<close>

theorem divide_round_exact:
  "DivideRoundUp n d = (if 0 \<le> n \<and> 0 < d then Inr ((n + d - 1) div d) else Inl DCheckFailed) \<and>
   DivideRoundToNearest n d = (if 0 \<le> n \<and> 0 < d then Inr ((2 * n + d) div (2 * d)) else Inl DCheckFailed)"
proof (cases "0 \<le> n \<and> 0 < d")
  case True
  then have "n sdiv d = n div d" "n smod d = n mod d" "(d - 1) sdiv 2 = (d - 1) div 2"
    by (simp_all add: sdiv_nonneg smod_nonneg)
  then show ?thesis
    using True ceiling_div [of d n] nearest_div [of d n]
    by (simp add: DivideRoundUp_def DivideRoundToNearest_def)
qed (auto simp: DivideRoundUp_def DivideRoundToNearest_def Let_def guardr_def)

end
