(* ===== verification/Units.thy ===== *)
theory Units
  imports SafeNumerics
begin

text \<open>
  The unit types of WebRTC: rtc_base/units/unit_base.h and api/units (TimeDelta, Timestamp, DataRate,
  DataSize, Frequency). A value stores an \<open>int64_t\<close> in which the two extreme numbers stand for plus
  and minus infinity. The template parameter \<open>Unit_T\<close> is a phantom type; its constant \<open>one_sided\<close> is
  the argument \<open>os\<close>. Integral template parameters are arguments of type \<open>int_type\<close>; the overloads for
  floating-point arguments and results are not modelled. A signed overflow is the fault
  \<open>SignedOverflow\<close>, a failed \<open>RTC_DCHECK\<close> the fault \<open>DCheckFailed\<close>.
\<close>

section \<open>Arithmetic on machine integers\<close>

definition arith :: "int_type \<Rightarrow> int \<Rightarrow> int res" where
  "arith t v = (if is_signed t then guardr SignedOverflow (in_type t v) (Inr v) else Inr (cast t v))"

definition cdiv :: "int \<Rightarrow> int \<Rightarrow> int res" where
  "cdiv n d = guardr DivideByZero (d \<noteq> 0) (i64 (n sdiv d))"

section \<open>UnitBase\<close>

datatype 'u unit_base = Unit (unit_value: int)

definition PlusInfinityVal :: int where
  "PlusInfinityVal = highest Int64"

definition MinusInfinityVal :: int where
  "MinusInfinityVal = lowest Int64"

definition Zero :: "'u unit_base" where
  "Zero = Unit 0"

definition PlusInfinity :: "'u unit_base" where
  "PlusInfinity = Unit PlusInfinityVal"

definition MinusInfinity :: "'u unit_base" where
  "MinusInfinity = Unit MinusInfinityVal"

definition IsZero :: "'u unit_base \<Rightarrow> bool" where
  "IsZero u \<longleftrightarrow> unit_value u = 0"

definition IsInfinite :: "'u unit_base \<Rightarrow> bool" where
  "IsInfinite u \<longleftrightarrow> unit_value u = PlusInfinityVal \<or> unit_value u = MinusInfinityVal"

definition IsFinite :: "'u unit_base \<Rightarrow> bool" where
  "IsFinite u \<longleftrightarrow> \<not> IsInfinite u"

definition IsPlusInfinity :: "'u unit_base \<Rightarrow> bool" where
  "IsPlusInfinity u \<longleftrightarrow> unit_value u = PlusInfinityVal"

definition IsMinusInfinity :: "'u unit_base \<Rightarrow> bool" where
  "IsMinusInfinity u \<longleftrightarrow> unit_value u = MinusInfinityVal"

definition unit_cmp :: "cmp_op \<Rightarrow> 'u unit_base \<Rightarrow> 'u unit_base \<Rightarrow> bool" where
  "unit_cmp opr a b = cmp_rel opr (unit_value a) (unit_value b)"

definition FromValue :: "bool \<Rightarrow> int_type \<Rightarrow> int \<Rightarrow> 'u unit_base res" where
  "FromValue os src value =
     dcheck (os \<longrightarrow> SafeCmp GeOp src value Int32 0)
       (dcheck (SafeCmp GtOp src value Int64 MinusInfinityVal)
         (dcheck (SafeCmp LtOp src value Int64 PlusInfinityVal)
           (rbind (dchecked_cast Int64 src value) (\<lambda>v. Inr (Unit v)))))"

definition FromFraction :: "bool \<Rightarrow> int \<Rightarrow> int_type \<Rightarrow> int \<Rightarrow> 'u unit_base res" where
  "FromFraction os denominator src value =
     dcheck (os \<longrightarrow> SafeCmp GeOp src value Int32 0)
       (rbind (cdiv MinusInfinityVal denominator) (\<lambda>lo.
        dcheck (SafeCmp GtOp src value Int64 lo)
          (rbind (cdiv PlusInfinityVal denominator) (\<lambda>hi.
           dcheck (SafeCmp LtOp src value Int64 hi)
             (rbind (arith (common_type src Int64) (value * denominator)) (\<lambda>p.
              rbind (dchecked_cast Int64 (common_type src Int64) p) (\<lambda>v. Inr (Unit v))))))))"

definition ToValue :: "int_type \<Rightarrow> 'u unit_base \<Rightarrow> int res" where
  "ToValue dst u = dcheck (IsFinite u) (dchecked_cast dst Int64 (unit_value u))"

definition ToValueOr :: "'u unit_base \<Rightarrow> int \<Rightarrow> int" where
  "ToValueOr u fallback_value = (if IsFinite u then unit_value u else fallback_value)"

definition DivRoundPositiveToNearest :: "int \<Rightarrow> int \<Rightarrow> int res" where
  "DivRoundPositiveToNearest n d =
     rbind (cdiv d 2) (\<lambda>h. rbind (i64 (n + h)) (\<lambda>s. cdiv s d))"

definition DivRoundToNearest :: "int \<Rightarrow> int \<Rightarrow> int res" where
  "DivRoundToNearest n d =
     rbind (if n \<ge> 0 then cdiv d 2 else rbind (i64 (- d)) (\<lambda>m. cdiv m 2)) (\<lambda>h.
     rbind (i64 (n + h)) (\<lambda>s. cdiv s d))"

definition ToFraction :: "bool \<Rightarrow> int \<Rightarrow> int_type \<Rightarrow> 'u unit_base \<Rightarrow> int res" where
  "ToFraction os Denominator dst u =
     dcheck (IsFinite u)
       (if os
        then rbind (DivRoundPositiveToNearest (unit_value u) Denominator) (dchecked_cast dst Int64)
        else rbind (DivRoundToNearest (unit_value u) Denominator) (dchecked_cast dst Int64))"

definition ToFractionOr :: "bool \<Rightarrow> int \<Rightarrow> 'u unit_base \<Rightarrow> int \<Rightarrow> int res" where
  "ToFractionOr os Denominator u fallback_value =
     (if IsFinite u
      then (if os then DivRoundPositiveToNearest (unit_value u) Denominator
            else DivRoundToNearest (unit_value u) Denominator)
      else Inr fallback_value)"

definition ToMultiple :: "int \<Rightarrow> int_type \<Rightarrow> 'u unit_base \<Rightarrow> int res" where
  "ToMultiple Factor dst u =
     rbind (ToValue Int64 u) (\<lambda>v.
     rbind (cdiv (lowest dst) Factor) (\<lambda>lo.
     dcheck (v \<ge> lo)
       (rbind (cdiv (highest dst) Factor) (\<lambda>hi.
        dcheck (v \<le> hi)
          (rbind (i64 (v * Factor)) (dchecked_cast dst Int64))))))"

section \<open>RelativeUnit\<close>

definition Clamped :: "'u unit_base \<Rightarrow> 'u unit_base \<Rightarrow> 'u unit_base \<Rightarrow> 'u unit_base" where
  "Clamped u min_value max_value =
     (let m = (if unit_value max_value < unit_value u then max_value else u)
      in if unit_value min_value < unit_value m then m else min_value)"

definition unit_plus :: "bool \<Rightarrow> 'u unit_base \<Rightarrow> 'u unit_base \<Rightarrow> 'u unit_base res" where
  "unit_plus os this other =
     (if IsPlusInfinity this \<or> IsPlusInfinity other then
        dcheck (\<not> IsMinusInfinity this) (dcheck (\<not> IsMinusInfinity other) (Inr PlusInfinity))
      else if IsMinusInfinity this \<or> IsMinusInfinity other then
        dcheck (\<not> IsPlusInfinity this) (dcheck (\<not> IsPlusInfinity other) (Inr MinusInfinity))
      else rbind (ToValue Int64 this) (\<lambda>x. rbind (ToValue Int64 other) (\<lambda>y.
        rbind (i64 (x + y)) (FromValue os Int64))))"

definition unit_minus :: "bool \<Rightarrow> 'u unit_base \<Rightarrow> 'u unit_base \<Rightarrow> 'u unit_base res" where
  "unit_minus os this other =
     (if IsPlusInfinity this \<or> IsMinusInfinity other then
        dcheck (\<not> IsMinusInfinity this) (dcheck (\<not> IsPlusInfinity other) (Inr PlusInfinity))
      else if IsMinusInfinity this \<or> IsPlusInfinity other then
        dcheck (\<not> IsPlusInfinity this) (dcheck (\<not> IsMinusInfinity other) (Inr MinusInfinity))
      else rbind (ToValue Int64 this) (\<lambda>x. rbind (ToValue Int64 other) (\<lambda>y.
        rbind (i64 (x - y)) (FromValue os Int64))))"

text \<open>\<open>operator*\<close> with an \<open>int64_t\<close> or \<open>int32_t\<close> scalar: the product is an \<open>int64_t\<close> in both cases.\<close>

definition unit_times :: "bool \<Rightarrow> 'u unit_base \<Rightarrow> int \<Rightarrow> 'u unit_base res" where
  "unit_times os this scalar =
     rbind (ToValue Int64 this) (\<lambda>v. rbind (i64 (v * scalar)) (FromValue os Int64))"

text \<open>
  The rounding methods of \<open>UnitBase\<close> build an intermediate \<open>Unit_T\<close> and multiply it, so they exist
  for the relative units only.
\<close>

definition RoundTo :: "bool \<Rightarrow> 'u unit_base \<Rightarrow> 'u unit_base \<Rightarrow> 'u unit_base res" where
  "RoundTo os u resolution =
     dcheck (IsFinite u) (dcheck (IsFinite resolution) (dcheck (unit_value resolution > 0)
       (rbind (cdiv (unit_value resolution) 2) (\<lambda>h.
        rbind (i64 (unit_value u + h)) (\<lambda>s.
        rbind (cdiv s (unit_value resolution)) (\<lambda>q.
        unit_times os (Unit q) (unit_value resolution)))))))"

definition RoundUpTo :: "bool \<Rightarrow> 'u unit_base \<Rightarrow> 'u unit_base \<Rightarrow> 'u unit_base res" where
  "RoundUpTo os u resolution =
     dcheck (IsFinite u) (dcheck (IsFinite resolution) (dcheck (unit_value resolution > 0)
       (rbind (i64 (unit_value u + unit_value resolution)) (\<lambda>s.
        rbind (i64 (s - 1)) (\<lambda>s1.
        rbind (cdiv s1 (unit_value resolution)) (\<lambda>q.
        unit_times os (Unit q) (unit_value resolution)))))))"

definition RoundDownTo :: "bool \<Rightarrow> 'u unit_base \<Rightarrow> 'u unit_base \<Rightarrow> 'u unit_base res" where
  "RoundDownTo os u resolution =
     dcheck (IsFinite u) (dcheck (IsFinite resolution) (dcheck (unit_value resolution > 0)
       (rbind (cdiv (unit_value u) (unit_value resolution)) (\<lambda>q.
        unit_times os (Unit q) (unit_value resolution)))))"

section \<open>The unit classes\<close>

datatype time_delta_tag = TimeDeltaTag
datatype timestamp_tag = TimestampTag
datatype data_rate_tag = DataRateTag
datatype data_size_tag = DataSizeTag
datatype frequency_tag = FrequencyTag

type_synonym TimeDelta = "time_delta_tag unit_base"
type_synonym Timestamp = "timestamp_tag unit_base"
type_synonym DataRate = "data_rate_tag unit_base"
type_synonym DataSize = "data_size_tag unit_base"
type_synonym Frequency = "frequency_tag unit_base"

subsection \<open>TimeDelta\<close>

definition TimeDelta_Seconds :: "int_type \<Rightarrow> int \<Rightarrow> TimeDelta res" where
  "TimeDelta_Seconds = FromFraction False 1000000"

definition TimeDelta_Millis :: "int_type \<Rightarrow> int \<Rightarrow> TimeDelta res" where
  "TimeDelta_Millis = FromFraction False 1000"

definition TimeDelta_Micros :: "int_type \<Rightarrow> int \<Rightarrow> TimeDelta res" where
  "TimeDelta_Micros = FromValue False"

definition TimeDelta_seconds :: "int_type \<Rightarrow> TimeDelta \<Rightarrow> int res" where
  "TimeDelta_seconds = ToFraction False 1000000"

definition TimeDelta_ms :: "int_type \<Rightarrow> TimeDelta \<Rightarrow> int res" where
  "TimeDelta_ms = ToFraction False 1000"

definition TimeDelta_us :: "int_type \<Rightarrow> TimeDelta \<Rightarrow> int res" where
  "TimeDelta_us = ToValue"

definition TimeDelta_ns :: "int_type \<Rightarrow> TimeDelta \<Rightarrow> int res" where
  "TimeDelta_ns = ToMultiple 1000"

definition TimeDelta_seconds_or :: "TimeDelta \<Rightarrow> int \<Rightarrow> int res" where
  "TimeDelta_seconds_or = ToFractionOr False 1000000"

definition TimeDelta_ms_or :: "TimeDelta \<Rightarrow> int \<Rightarrow> int res" where
  "TimeDelta_ms_or = ToFractionOr False 1000"

definition TimeDelta_us_or :: "TimeDelta \<Rightarrow> int \<Rightarrow> int" where
  "TimeDelta_us_or = ToValueOr"

definition TimeDelta_Abs :: "TimeDelta \<Rightarrow> TimeDelta res" where
  "TimeDelta_Abs this =
     rbind (TimeDelta_us Int64 this) (\<lambda>v.
     if v < 0 then rbind (i64 (- v)) (TimeDelta_Micros Int64) else Inr this)"

subsection \<open>Timestamp\<close>

definition Timestamp_Seconds :: "int_type \<Rightarrow> int \<Rightarrow> Timestamp res" where
  "Timestamp_Seconds = FromFraction True 1000000"

definition Timestamp_Millis :: "int_type \<Rightarrow> int \<Rightarrow> Timestamp res" where
  "Timestamp_Millis = FromFraction True 1000"

definition Timestamp_Micros :: "int_type \<Rightarrow> int \<Rightarrow> Timestamp res" where
  "Timestamp_Micros = FromValue True"

definition Timestamp_seconds :: "int_type \<Rightarrow> Timestamp \<Rightarrow> int res" where
  "Timestamp_seconds = ToFraction True 1000000"

definition Timestamp_ms :: "int_type \<Rightarrow> Timestamp \<Rightarrow> int res" where
  "Timestamp_ms = ToFraction True 1000"

definition Timestamp_us :: "int_type \<Rightarrow> Timestamp \<Rightarrow> int res" where
  "Timestamp_us = ToValue"

definition Timestamp_seconds_or :: "Timestamp \<Rightarrow> int \<Rightarrow> int res" where
  "Timestamp_seconds_or = ToFractionOr True 1000000"

definition Timestamp_ms_or :: "Timestamp \<Rightarrow> int \<Rightarrow> int res" where
  "Timestamp_ms_or = ToFractionOr True 1000"

definition Timestamp_us_or :: "Timestamp \<Rightarrow> int \<Rightarrow> int" where
  "Timestamp_us_or = ToValueOr"

definition Timestamp_plus :: "Timestamp \<Rightarrow> TimeDelta \<Rightarrow> Timestamp res" where
  "Timestamp_plus this delta =
     (if IsPlusInfinity this \<or> IsPlusInfinity delta then
        dcheck (\<not> IsMinusInfinity this) (dcheck (\<not> IsMinusInfinity delta) (Inr PlusInfinity))
      else if IsMinusInfinity this \<or> IsMinusInfinity delta then
        dcheck (\<not> IsPlusInfinity this) (dcheck (\<not> IsPlusInfinity delta) (Inr MinusInfinity))
      else rbind (Timestamp_us Int64 this) (\<lambda>x. rbind (TimeDelta_us Int64 delta) (\<lambda>y.
        rbind (i64 (x + y)) (Timestamp_Micros Int64))))"

definition Timestamp_minus :: "Timestamp \<Rightarrow> TimeDelta \<Rightarrow> Timestamp res" where
  "Timestamp_minus this delta =
     (if IsPlusInfinity this \<or> IsMinusInfinity delta then
        dcheck (\<not> IsMinusInfinity this) (dcheck (\<not> IsPlusInfinity delta) (Inr PlusInfinity))
      else if IsMinusInfinity this \<or> IsPlusInfinity delta then
        dcheck (\<not> IsPlusInfinity this) (dcheck (\<not> IsMinusInfinity delta) (Inr MinusInfinity))
      else rbind (Timestamp_us Int64 this) (\<lambda>x. rbind (TimeDelta_us Int64 delta) (\<lambda>y.
        rbind (i64 (x - y)) (Timestamp_Micros Int64))))"

definition Timestamp_diff :: "Timestamp \<Rightarrow> Timestamp \<Rightarrow> TimeDelta res" where
  "Timestamp_diff this other =
     (if IsPlusInfinity this \<or> IsMinusInfinity other then
        dcheck (\<not> IsMinusInfinity this) (dcheck (\<not> IsPlusInfinity other) (Inr PlusInfinity))
      else if IsMinusInfinity this \<or> IsPlusInfinity other then
        dcheck (\<not> IsPlusInfinity this) (dcheck (\<not> IsMinusInfinity other) (Inr MinusInfinity))
      else rbind (Timestamp_us Int64 this) (\<lambda>x. rbind (Timestamp_us Int64 other) (\<lambda>y.
        rbind (i64 (x - y)) (TimeDelta_Micros Int64))))"

subsection \<open>DataSize, Frequency, DataRate\<close>

definition DataSize_Bytes :: "int_type \<Rightarrow> int \<Rightarrow> DataSize res" where
  "DataSize_Bytes = FromValue True"

definition DataSize_bytes :: "int_type \<Rightarrow> DataSize \<Rightarrow> int res" where
  "DataSize_bytes = ToValue"

definition DataSize_bytes_or :: "DataSize \<Rightarrow> int \<Rightarrow> int" where
  "DataSize_bytes_or = ToValueOr"

definition Frequency_MilliHertz :: "int_type \<Rightarrow> int \<Rightarrow> Frequency res" where
  "Frequency_MilliHertz = FromValue True"

definition Frequency_Hertz :: "int_type \<Rightarrow> int \<Rightarrow> Frequency res" where
  "Frequency_Hertz = FromFraction True 1000"

definition Frequency_KiloHertz :: "int_type \<Rightarrow> int \<Rightarrow> Frequency res" where
  "Frequency_KiloHertz = FromFraction True 1000000"

definition Frequency_hertz :: "int_type \<Rightarrow> Frequency \<Rightarrow> int res" where
  "Frequency_hertz = ToFraction True 1000"

definition Frequency_millihertz :: "int_type \<Rightarrow> Frequency \<Rightarrow> int res" where
  "Frequency_millihertz = ToValue"

definition per_interval :: "int \<Rightarrow> TimeDelta \<Rightarrow> Frequency res" where
  "per_interval nominator interval =
     (let kKiloPerMicro = 1000 * 1000000 in
      rbind (cdiv (highest Int64) kKiloPerMicro) (\<lambda>m.
      dcheck (nominator \<le> m)
        (check (IsFinite interval) (check (\<not> IsZero interval)
          (rbind (i64 (nominator * kKiloPerMicro)) (\<lambda>n.
           rbind (TimeDelta_us Int64 interval) (\<lambda>us.
           rbind (cdiv n us) (Frequency_MilliHertz Int64))))))))"

definition per_frequency :: "int \<Rightarrow> Frequency \<Rightarrow> TimeDelta res" where
  "per_frequency nominator frequency =
     (let kMegaPerMilli = 1000000 * 1000 in
      rbind (cdiv (highest Int64) kMegaPerMilli) (\<lambda>m.
      dcheck (nominator \<le> m)
        (check (IsFinite frequency) (check (\<not> IsZero frequency)
          (rbind (i64 (nominator * kMegaPerMilli)) (\<lambda>n.
           rbind (Frequency_millihertz Int64 frequency) (\<lambda>f.
           rbind (cdiv n f) (TimeDelta_Micros Int64))))))))"

definition DataRate_BitsPerSec :: "int_type \<Rightarrow> int \<Rightarrow> DataRate res" where
  "DataRate_BitsPerSec = FromValue True"

definition DataRate_BytesPerSec :: "int_type \<Rightarrow> int \<Rightarrow> DataRate res" where
  "DataRate_BytesPerSec = FromFraction True 8"

definition DataRate_KilobitsPerSec :: "int_type \<Rightarrow> int \<Rightarrow> DataRate res" where
  "DataRate_KilobitsPerSec = FromFraction True 1000"

definition DataRate_bps :: "int_type \<Rightarrow> DataRate \<Rightarrow> int res" where
  "DataRate_bps = ToValue"

definition DataRate_bytes_per_sec :: "int_type \<Rightarrow> DataRate \<Rightarrow> int res" where
  "DataRate_bytes_per_sec = ToFraction True 8"

definition DataRate_kbps :: "int_type \<Rightarrow> DataRate \<Rightarrow> int res" where
  "DataRate_kbps = ToFraction True 1000"

definition DataRate_bps_or :: "DataRate \<Rightarrow> int \<Rightarrow> int" where
  "DataRate_bps_or = ToValueOr"

definition DataRate_kbps_or :: "DataRate \<Rightarrow> int \<Rightarrow> int res" where
  "DataRate_kbps_or = ToFractionOr True 1000"

definition Microbits :: "DataSize \<Rightarrow> int res" where
  "Microbits sz =
     rbind (cdiv (highest Int64) 8000000) (\<lambda>kMaxBeforeConversion.
     rbind (DataSize_bytes Int64 sz) (\<lambda>b.
     dcheck (b \<le> kMaxBeforeConversion) (i64 (b * 8000000))))"

definition MillibytePerSec :: "DataRate \<Rightarrow> int res" where
  "MillibytePerSec sz =
     rbind (cdiv (highest Int64) (1000 div 8)) (\<lambda>kMaxBeforeConversion.
     rbind (DataRate_bps Int64 sz) (\<lambda>b.
     dcheck (b \<le> kMaxBeforeConversion) (i64 (b * (1000 div 8)))))"

definition size_per_duration :: "DataSize \<Rightarrow> TimeDelta \<Rightarrow> DataRate res" where
  "size_per_duration sz duration =
     rbind (Microbits sz) (\<lambda>m. rbind (TimeDelta_us Int64 duration) (\<lambda>us.
     rbind (cdiv m us) (DataRate_BitsPerSec Int64)))"

definition size_per_rate :: "DataSize \<Rightarrow> DataRate \<Rightarrow> TimeDelta res" where
  "size_per_rate sz rate =
     rbind (Microbits sz) (\<lambda>m. rbind (DataRate_bps Int64 rate) (\<lambda>b.
     rbind (cdiv m b) (TimeDelta_Micros Int64)))"

definition rate_times_duration :: "DataRate \<Rightarrow> TimeDelta \<Rightarrow> DataSize res" where
  "rate_times_duration rate duration =
     rbind (DataRate_bps Int64 rate) (\<lambda>b. rbind (TimeDelta_us Int64 duration) (\<lambda>us.
     rbind (i64 (b * us)) (\<lambda>microbits. rbind (i64 (microbits + 4000000)) (\<lambda>s.
     rbind (cdiv s 8000000) (DataSize_Bytes Int64)))))"

definition rate_per_frequency :: "DataRate \<Rightarrow> Frequency \<Rightarrow> DataSize res" where
  "rate_per_frequency rate frequency =
     rbind (Frequency_millihertz Int64 frequency) (\<lambda>millihertz.
     rbind (MillibytePerSec rate) (\<lambda>m. rbind (cdiv m millihertz) (DataSize_Bytes Int64)))"

definition rate_per_size :: "DataRate \<Rightarrow> DataSize \<Rightarrow> Frequency res" where
  "rate_per_size rate sz =
     rbind (MillibytePerSec rate) (\<lambda>m. rbind (DataSize_bytes Int64 sz) (\<lambda>b.
     rbind (cdiv m b) (Frequency_MilliHertz Int64)))"

definition size_times_frequency :: "DataSize \<Rightarrow> Frequency \<Rightarrow> DataRate res" where
  "size_times_frequency sz frequency =
     rbind (if IsZero frequency then Inr True
            else rbind (DataSize_bytes Int64 sz) (\<lambda>b.
              rbind (cdiv (highest Int64) 8) (\<lambda>m. rbind (Frequency_millihertz Int64 frequency) (\<lambda>f.
              rbind (cdiv m f) (\<lambda>q. Inr (b \<le> q)))))) (\<lambda>ok.
     dcheck ok
       (rbind (DataSize_bytes Int64 sz) (\<lambda>b. rbind (i64 (b * 8)) (\<lambda>b8.
        rbind (Frequency_millihertz Int64 frequency) (\<lambda>f.
        rbind (i64 (b8 * f)) (\<lambda>millibits_per_second.
        rbind (i64 (millibits_per_second + 500)) (\<lambda>s.
        rbind (cdiv s 1000) (DataRate_BitsPerSec Int64))))))))"

section \<open>Evaluation on finite values\<close>

abbreviation finite_range :: "bool \<Rightarrow> int \<Rightarrow> bool" where
  "finite_range os v \<equiv> (os \<longrightarrow> 0 \<le> v) \<and> int64_min < v \<and> v < int64_max"

definition wf_unit :: "'u unit_base \<Rightarrow> bool" where
  "wf_unit u \<longleftrightarrow> in_int64 (unit_value u)"

lemmas infinity_defs = IsPlusInfinity_def IsMinusInfinity_def IsFinite_def IsInfinite_def
  PlusInfinity_def MinusInfinity_def PlusInfinityVal_def MinusInfinityVal_def

lemma FromValue_int64:
  "in_int64 v \<Longrightarrow> FromValue os Int64 v = dcheck (finite_range os v) (Inr (Unit v))"
  by (auto simp: FromValue_def SafeCmp_eq in_type_int64 dchecked_cast_eq in_type_def
      PlusInfinityVal_def MinusInfinityVal_def in_int64_def guardr_def)

lemma ToValue_int64:
  "wf_unit u \<Longrightarrow> ToValue Int64 u = dcheck (IsFinite u) (Inr (unit_value u))"
  by (simp add: ToValue_def dchecked_cast_eq in_type_int64 wf_unit_def)

lemma finite_iff: "wf_unit u \<Longrightarrow> IsFinite u \<longleftrightarrow> finite_range False (unit_value u)"
  by (auto simp: wf_unit_def infinity_defs in_int64_def)

lemma finite_wf [simp]:
  assumes "finite_range False v"
  shows "wf_unit (Unit v :: 'u unit_base)" "IsFinite (Unit v :: 'u unit_base)"
    "\<not> IsPlusInfinity (Unit v :: 'u unit_base)" "\<not> IsMinusInfinity (Unit v :: 'u unit_base)"
  using assms by (auto simp: wf_unit_def infinity_defs in_int64_def)

section \<open>Addition and subtraction refine the extended integers\<close>

datatype extended = Fin int | PInf | MInf

definition abs_unit :: "'u unit_base \<Rightarrow> extended" where
  "abs_unit u = (if IsPlusInfinity u then PInf else if IsMinusInfinity u then MInf else Fin (unit_value u))"

fun ext_plus :: "extended \<Rightarrow> extended \<Rightarrow> extended option" where
  "ext_plus (Fin a) (Fin b) = Some (Fin (a + b))"
| "ext_plus PInf MInf = None"
| "ext_plus MInf PInf = None"
| "ext_plus PInf _ = Some PInf"
| "ext_plus _ PInf = Some PInf"
| "ext_plus MInf _ = Some MInf"
| "ext_plus _ MInf = Some MInf"

fun ext_neg :: "extended \<Rightarrow> extended" where
  "ext_neg (Fin a) = Fin (- a)" | "ext_neg PInf = MInf" | "ext_neg MInf = PInf"

fun representable :: "bool \<Rightarrow> extended \<Rightarrow> bool" where
  "representable os (Fin v) = finite_range os v"
| "representable os _ = True"

lemma abs_unit_cases:
  obtains (plus) "u = PlusInfinity" "abs_unit u = PInf"
  | (minus) "u = MinusInfinity" "abs_unit u = MInf"
  | (fin) v where "u = Unit v" "abs_unit u = Fin v" "IsFinite u"
  by (cases u) (auto simp: abs_unit_def infinity_defs)

lemma abs_infinity [simp]:
  "abs_unit PlusInfinity = PInf" "abs_unit MinusInfinity = MInf"
  "IsPlusInfinity PlusInfinity" "IsMinusInfinity MinusInfinity"
  "\<not> IsPlusInfinity MinusInfinity" "\<not> IsMinusInfinity PlusInfinity"
  by (simp_all add: abs_unit_def infinity_defs)

lemma finite_not_infinity [simp]:
  "IsFinite u \<Longrightarrow> \<not> IsPlusInfinity u" "IsFinite u \<Longrightarrow> \<not> IsMinusInfinity u"
  by (simp_all add: infinity_defs)

lemma unit_plus_finite:
  assumes "finite_range False a" "finite_range False b"
  shows "unit_plus os (Unit a :: 'u unit_base) (Unit b) =
    guardr SignedOverflow (in_int64 (a + b)) (dcheck (finite_range os (a + b)) (Inr (Unit (a + b))))"
  using finite_wf [OF assms(1), where 'u = 'u] finite_wf [OF assms(2), where 'u = 'u]
  by (cases "in_int64 (a + b)") (simp_all add: unit_plus_def ToValue_int64 i64_def FromValue_int64)

lemma unit_minus_finite:
  assumes "finite_range False a" "finite_range False b"
  shows "unit_minus os (Unit a :: 'u unit_base) (Unit b) =
    guardr SignedOverflow (in_int64 (a - b)) (dcheck (finite_range os (a - b)) (Inr (Unit (a - b))))"
  using finite_wf [OF assms(1), where 'u = 'u] finite_wf [OF assms(2), where 'u = 'u]
  by (cases "in_int64 (a - b)") (simp_all add: unit_minus_def ToValue_int64 i64_def FromValue_int64)

lemma finite_range_in_int64: "finite_range os v \<Longrightarrow> in_int64 v"
  by (simp add: in_int64_def)

lemma abs_Unit: "finite_range os v \<Longrightarrow> abs_unit (Unit v) = Fin v"
  by (auto simp: abs_unit_def infinity_defs)

text \<open>
  What the operators do with an extended result: \<open>None\<close>, the sum of opposite infinities, fails a check; so does a finite
  result that cannot be stored. A finite sum outside of \<open>int64_t\<close> is formed before any check.
\<close>

fun ext_outcome :: "bool \<Rightarrow> extended option \<Rightarrow> extended res" where
  "ext_outcome os None = Inl DCheckFailed"
| "ext_outcome os (Some (Fin v)) = (if \<not> in_int64 v then Inl SignedOverflow else if representable os (Fin v) then Inr (Fin v) else Inl DCheckFailed)"
| "ext_outcome os (Some e) = Inr e"

lemma finite_outcome:
  "map_sum id abs_unit (guardr SignedOverflow (in_int64 v) (dcheck (finite_range os v) (Inr (Unit v)))) = ext_outcome os (Some (Fin v))"
  using abs_Unit [of os v] by (cases "finite_range os v"; cases "in_int64 v") (auto simp: guardr_def)

text \<open>
  C22. \<open>operator+\<close> and \<open>operator-\<close> of the relative units implement addition and subtraction of the
  integers extended by the two infinities, on every branch: a result is returned exactly when the extended operation
  is defined (no sum of opposite infinities) and representable (finite results stay strictly
  between the infinities, and are not negative for a one-sided unit), and it is that value. A result that is undefined,
  negative for a one-sided unit or equal to the number of an infinity fails an \<open>RTC_DCHECK\<close>. A finite result outside of
  \<open>int64_t\<close> is not checked: the addition itself overflows, which is undefined behaviour.
\<close>

theorem unit_arithmetic_refines:
  assumes "wf_unit a" "wf_unit b"
  shows "map_sum id abs_unit (unit_plus os a b) = ext_outcome os (ext_plus (abs_unit a) (abs_unit b)) \<and>
    map_sum id abs_unit (unit_minus os a b) = ext_outcome os (ext_plus (abs_unit a) (ext_neg (abs_unit b)))"
proof (cases a rule: abs_unit_cases; cases b rule: abs_unit_cases)
  fix x y assume ab: "a = Unit x" "abs_unit a = Fin x" "IsFinite a" "b = Unit y" "abs_unit b = Fin y" "IsFinite b"
  then have r: "finite_range False x" "finite_range False y" using assms finite_iff [of a] finite_iff [of b] by auto
  show ?thesis
    using ab(2,5) unfolding ab(1,4) unit_plus_finite [OF r] unit_minus_finite [OF r] finite_outcome by simp
qed (auto simp: unit_plus_def unit_minus_def)

theorem unit_arithmetic_refines_witness:
  "map_sum id abs_unit (unit_plus False (Unit 5 :: TimeDelta) PlusInfinity) = Inr PInf \<and>
   map_sum id abs_unit (unit_plus False (Unit (2 ^ 63 - 2) :: TimeDelta) (Unit (2 ^ 63 - 2))) = Inl SignedOverflow"
  using unit_arithmetic_refines [of "Unit 5 :: TimeDelta" PlusInfinity False]
    unit_arithmetic_refines [of "Unit (2 ^ 63 - 2) :: TimeDelta" "Unit (2 ^ 63 - 2)" False]
  by (simp add: wf_unit_def in_int64_def PlusInfinity_def PlusInfinityVal_def abs_unit_def infinity_defs)

end
