(* ===== verification/UnitArith.thy ===== *)
theory UnitArith
  imports Units
begin

text \<open>
  Properties of the unit types of \<open>Units\<close>: conversion between units, differences of timestamps,
  rounding to a resolution, and the products and quotients of rates, sizes and times.
\<close>

section \<open>Division\<close>

lemma sdiv_cases: "0 < (d::int) \<Longrightarrow> n sdiv d = (if 0 \<le> n then n div d else - ((- n) div d))"
  by (simp add: signed_divide_int_def sgn_if)

lemma div_le_self: "0 \<le> (n::int) \<Longrightarrow> 0 < d \<Longrightarrow> 0 \<le> n div d \<and> n div d \<le> n"
  by (metis div_by_1 int_one_le_iff_zero_less nonneg1_imp_zdiv_pos_iff pos_imp_zdiv_nonneg_iff zdiv_mono2 zero_less_one)

lemma div_bounds:
  assumes "0 < (D::int)"
  shows "D * (x div D) \<le> x" "x < D * (x div D) + D"
  using mult_div_mod_eq [of D x] pos_mod_sign [OF assms, of x] pos_mod_bound [OF assms, of x] by linarith+

lemma cdiv_pos: "in_int64 n \<Longrightarrow> 0 < d \<Longrightarrow> cdiv n d = Inr (n sdiv d)"
proof -
  assume n: "in_int64 n" and d: "0 < d"
  have "in_int64 (n sdiv d)"
    using n d div_le_self [of n d] div_le_self [of "- n" d] by (auto simp: sdiv_cases in_int64_def)
  then show ?thesis using d by (simp add: cdiv_def i64_def)
qed

lemma DivRoundToNearest_eq:
  assumes "0 < d" "in_int64 n" "in_int64 d" "in_int64 (\<bar>n\<bar> + d div 2)"
  shows "DivRoundToNearest n d = Inr (sgn n * ((\<bar>n\<bar> + d div 2) div d))"
proof (cases "0 \<le> n")
  case True
  then have "DivRoundToNearest n d = Inr ((n + d div 2) div d)"
    using assms by (simp add: DivRoundToNearest_def cdiv_pos sdiv_cases i64_def)
  moreover have "n = 0 \<Longrightarrow> (d div 2) div d = 0" using assms(1) by simp
  ultimately show ?thesis using True by (auto simp: sgn_if)
next
  case False
  have "(- d) sdiv 2 = - (d div 2)" using assms(1) by (simp add: sdiv_cases)
  moreover have "(n - d div 2) sdiv d = - ((- n + d div 2) div d)"
    using False assms(1) by (simp add: sdiv_cases)
  moreover have "in_int64 (n - d div 2)" "in_int64 (- d)"
    using False assms by (simp_all add: in_int64_def)
  ultimately show ?thesis
    using False assms by (simp add: DivRoundToNearest_def cdiv_pos i64_def)
qed

lemma DivRoundPositive_eq:
  assumes "0 < d" "0 \<le> n" "in_int64 d" "in_int64 (n + d div 2)"
  shows "DivRoundPositiveToNearest n d = Inr ((n + d div 2) div d)"
  using assms by (simp add: DivRoundPositiveToNearest_def cdiv_pos sdiv_cases i64_def)

lemma ToFraction_eq:
  assumes "0 < D" "in_int64 D" "finite_range os v" "in_int64 (\<bar>v\<bar> + D div 2)"
  shows "ToFraction os D Int64 (Unit v :: 'u unit_base) = Inr (sgn v * ((\<bar>v\<bar> + D div 2) div D))"
proof -
  have v: "in_int64 v" using assms(3) by (rule finite_range_in_int64)
  define q where "q = sgn v * ((\<bar>v\<bar> + D div 2) div D)"
  have fin: "IsFinite (Unit v :: 'u unit_base)" using assms(3) by (intro finite_wf(2)) simp
  have "0 \<le> (\<bar>v\<bar> + D div 2) div D \<and> (\<bar>v\<bar> + D div 2) div D \<le> \<bar>v\<bar> + D div 2"
    using assms(1) by (intro div_le_self) simp_all
  then have q: "in_int64 q" using assms(4) by (auto simp: q_def in_int64_def sgn_if)
  have "DivRoundToNearest v D = Inr q" using DivRoundToNearest_eq assms v q_def by simp
  moreover have "DivRoundPositiveToNearest v D = Inr q" if "os"
    using DivRoundPositive_eq [of D v] assms that by (auto simp: q_def sgn_if)
  ultimately show ?thesis
    using fin q by (simp add: ToFraction_def dchecked_cast_eq in_type_int64 q_def)
qed

text \<open>
  Conversion to a coarser unit (\<open>ms\<close>, \<open>seconds\<close>, \<open>kbps\<close>, \<open>bytes_per_sec\<close>, \<open>hertz\<close>) rounds to the
  nearest multiple: unless the value lies within half a step of the largest number, a result is
  returned, it is off by at most half a step, and a tie goes away from zero.
\<close>

theorem unit_fraction_nearest:
  assumes "0 < D" "in_int64 D" "finite_range os v" "in_int64 (\<bar>v\<bar> + D div 2)"
  shows "\<exists>q. ToFraction os D Int64 (Unit v :: 'u unit_base) = Inr q \<and> 2 * \<bar>v - D * q\<bar> \<le> D \<and>
    (2 * \<bar>v - D * q\<bar> = D \<longrightarrow> \<bar>v\<bar> < \<bar>D * q\<bar>)"
proof -
  define m where "m = (\<bar>v\<bar> + D div 2) div D"
  have m: "D * m \<le> \<bar>v\<bar> + D div 2" "\<bar>v\<bar> + D div 2 < D * m + D" "0 \<le> m"
    using assms(1) div_bounds [OF assms(1), of "\<bar>v\<bar> + D div 2"]
    by (simp_all add: m_def pos_imp_zdiv_nonneg_iff)
  have s: "D * (sgn v * m) = sgn v * (D * m)" by simp
  have "v = 0 \<Longrightarrow> m = 0" using assms(1) by (simp add: m_def)
  then have "2 * \<bar>v - D * (sgn v * m)\<bar> \<le> D \<and> (2 * \<bar>v - D * (sgn v * m)\<bar> = D \<longrightarrow> \<bar>v\<bar> < \<bar>D * (sgn v * m)\<bar>)"
    using m assms(1) unfolding s by (cases "v = 0"; cases "0 < v") (auto simp: abs_if split: if_splits)
  then show ?thesis using ToFraction_eq [OF assms, where 'u = 'u] by (auto simp: m_def)
qed

lemma common_int64: "common_type src Int64 = (if src = UInt64 then UInt64 else Int64)"
  by (cases src) (simp_all add: common_type_def promote_def)

lemma mult_below_limit:
  assumes "0 < (D::int)" "n < M div D" "0 \<le> M"
  shows "n * D \<le> M - D"
proof -
  have "n * D \<le> (M div D - 1) * D" using assms(1,2) by (intro mult_right_mono) auto
  also have "\<dots> = (M div D) * D - D" by (simp add: algebra_simps)
  also have "(M div D) * D \<le> M" using div_bounds [OF assms(1), of M] by (simp add: mult.commute)
  finally show ?thesis by simp
qed

lemma FromFraction_Inr:
  assumes "in_type src n" "0 < D" "in_int64 D" "FromFraction os D src n = Inr u"
  shows "u = Unit (n * D)" "n * D \<le> int64_max - D" "- (n * D) \<le> int64_max + 1 - D" "os \<longrightarrow> 0 \<le> n"
proof -
  have lo: "cdiv MinusInfinityVal D = Inr (- (9223372036854775808 div D))"
    using assms(2) by (simp add: cdiv_pos sdiv_cases MinusInfinityVal_def in_int64_def)
  have hi: "cdiv PlusInfinityVal D = Inr (int64_max div D)"
    using assms(2) by (simp add: cdiv_pos sdiv_cases PlusInfinityVal_def in_int64_def)
  have range: "in_type Int64 (- (9223372036854775808 div D))" "in_type Int64 (int64_max div D)"
    using div_le_self [OF _ assms(2), of 9223372036854775808] div_le_self [OF _ assms(2), of int64_max]
    by (simp_all add: in_type_def)
  have conds: "os \<longrightarrow> 0 \<le> n" "n > - (9223372036854775808 div D)" "n < int64_max div D"
    using assms(4) by (auto simp: FromFraction_def lo hi SafeCmp_eq [OF assms(1) range(1)]
        SafeCmp_eq [OF assms(1) range(2)] SafeCmp_eq [OF assms(1)] in_type_def rbind_eq_Inr)
  have up: "n * D \<le> int64_max - D" using conds(3) assms(2) by (intro mult_below_limit) auto
  have dn: "(- n) * D \<le> 9223372036854775808 - D" using conds(2) assms(2) by (intro mult_below_limit) auto
  show "n * D \<le> int64_max - D" "- (n * D) \<le> int64_max + 1 - D" using up dn by simp_all
  show "os \<longrightarrow> 0 \<le> n" by (rule conds(1))
  have "src = UInt64 \<Longrightarrow> 0 \<le> n * D" using assms(1,2) by (simp add: in_type_def)
  then have "in_type (common_type src Int64) (n * D)" "in_type Int64 (n * D)"
    using up dn assms(2) by (simp_all add: common_int64 in_type_def)
  then show "u = Unit (n * D)"
    using assms(4) by (auto simp: FromFraction_def lo hi rbind_eq_Inr arith_def dchecked_cast_eq split: if_splits)
qed

text \<open>
  Building a value in a coarser unit and reading it back in that unit returns the number, for
  every integer type of the argument, for all five unit classes.
\<close>

theorem unit_fraction_roundtrip:
  assumes "in_type src n" "0 < D" "in_int64 D" "FromFraction os D src n = Inr (u :: 'u unit_base)"
  shows "ToFraction os D Int64 u = Inr n"
proof -
  have u: "u = Unit (n * D)" "n * D \<le> int64_max - D" "- (n * D) \<le> int64_max + 1 - D" "os \<longrightarrow> 0 \<le> n"
    using FromFraction_Inr [OF assms] by blast+
  have h: "0 \<le> D div 2" "D div 2 < D" using assms(2) by auto
  have "os \<longrightarrow> 0 \<le> n * D" using u(4) assms(2) by simp
  then have fin: "finite_range os (n * D)" "in_int64 (\<bar>n * D\<bar> + D div 2)"
    using u(2,3) h assms(2) by (auto simp: in_int64_def abs_if)
  have "\<bar>n * D\<bar> = \<bar>n\<bar> * D" using assms(2) by (simp add: abs_mult)
  then have "(\<bar>n * D\<bar> + D div 2) div D = \<bar>n\<bar>" using assms(2) h by (simp add: div_add1_eq)
  moreover have "sgn (n * D) = sgn n" using assms(2) by (simp add: sgn_mult)
  ultimately show ?thesis
    using ToFraction_eq [OF assms(2,3) fin, where 'u = 'u] by (simp add: u(1) sgn_mult_abs)
qed

theorem unit_fraction_nearest_witness:
  "\<exists>q. TimeDelta_ms Int64 (Unit 1500) = Inr q \<and> 2 * \<bar>1500 - 1000 * q\<bar> \<le> 1000"
  using unit_fraction_nearest [of 1000 False 1500, where 'u = time_delta_tag]
  by (simp add: TimeDelta_ms_def in_int64_def) blast

theorem unit_fraction_roundtrip_witness:
  "TimeDelta_Millis Int32 (- 7) = Inr (Unit (- 7000)) \<and> TimeDelta_ms Int64 (Unit (- 7000)) = Inr (- 7)"
proof -
  have "TimeDelta_Millis Int32 (- 7) = Inr (Unit (- 7000))"
    by (simp add: TimeDelta_Millis_def FromFraction_def cdiv_pos sdiv_cases MinusInfinityVal_def
        PlusInfinityVal_def in_int64_def SafeCmp_eq in_type_def arith_def common_int64 dchecked_cast_eq)
  then show ?thesis
    using unit_fraction_roundtrip [of Int32 "- 7" 1000 False "Unit (- 7000) :: TimeDelta"]
    by (simp add: TimeDelta_Millis_def TimeDelta_ms_def in_type_def in_int64_def)
qed

section \<open>Timestamps\<close>

lemma finite_value:
  assumes "wf_unit (t :: 'u unit_base)" "IsFinite t"
  obtains v where "t = Unit v" "finite_range False v"
  using assms by (cases t) (auto simp: finite_iff)

lemma Timestamp_us_Unit: "finite_range False v \<Longrightarrow> Timestamp_us Int64 (Unit v) = Inr v"
  using finite_wf [of v, where 'u = timestamp_tag] by (simp add: Timestamp_us_def ToValue_int64)

lemma TimeDelta_us_Unit: "finite_range False v \<Longrightarrow> TimeDelta_us Int64 (Unit v) = Inr v"
  using finite_wf [of v, where 'u = time_delta_tag] by (simp add: TimeDelta_us_def ToValue_int64)

lemma Micros_Unit:
  "finite_range False v \<Longrightarrow> TimeDelta_Micros Int64 v = Inr (Unit v)"
  "finite_range True v \<Longrightarrow> Timestamp_Micros Int64 v = Inr (Unit v)"
  by (simp_all add: TimeDelta_Micros_def Timestamp_Micros_def FromValue_int64 in_int64_def)

text \<open>
  The difference of two finite timestamps is always a \<open>TimeDelta\<close>, and it leads back: added to
  the earlier operand it gives the first timestamp, subtracted from the first it gives the second.
\<close>

theorem timestamp_difference:
  assumes "finite_range True a" "finite_range True b"
  shows "\<exists>d. Timestamp_diff (Unit a) (Unit b) = Inr d \<and> Timestamp_plus (Unit b) d = Inr (Unit a) \<and>
    Timestamp_minus (Unit a) d = Inr (Unit b)"
proof (intro exI conjI)
  have fr: "finite_range False a" "finite_range False b" "finite_range False (a - b)"
    and i: "in_int64 (a - b)" "in_int64 a" "in_int64 b"
    using assms by (simp_all add: in_int64_def)
  note wf = finite_wf [OF fr(1)] finite_wf [OF fr(2)] finite_wf [OF fr(3)]
  show "Timestamp_diff (Unit a) (Unit b) = Inr (Unit (a - b))"
    using wf fr i by (simp add: Timestamp_diff_def Timestamp_us_Unit i64_def Micros_Unit)
  show "Timestamp_plus (Unit b) (Unit (a - b)) = Inr (Unit a)"
    using wf fr i assms by (simp add: Timestamp_plus_def Timestamp_us_Unit TimeDelta_us_Unit i64_def Micros_Unit)
  show "Timestamp_minus (Unit a) (Unit (a - b)) = Inr (Unit b)"
    using wf fr i assms by (simp add: Timestamp_minus_def Timestamp_us_Unit TimeDelta_us_Unit i64_def Micros_Unit)
qed

theorem timestamp_difference_witness:
  "\<exists>d. Timestamp_diff (Unit 3) (Unit 10) = Inr d \<and> Timestamp_plus (Unit 10) d = Inr (Unit 3)"
  using timestamp_difference [of 3 10] by auto

section \<open>Rounding to a resolution\<close>

lemma unit_times_Unit:
  assumes "finite_range False q" "finite_range os (q * r)"
  shows "unit_times os (Unit q :: 'u unit_base) r = Inr (Unit (q * r))"
  using finite_wf [OF assms(1), where 'u = 'u] assms(2)
  by (simp add: unit_times_def ToValue_int64 i64_def in_int64_def FromValue_int64)

text \<open>
  On values that are not negative, \<open>RoundDownTo\<close>, \<open>RoundUpTo\<close> and \<open>RoundTo\<close> return the largest
  multiple of the resolution below, the smallest one above, and the nearest one.
\<close>

theorem rounding_nonnegative:
  assumes "0 \<le> v" "0 < r" "v + r < int64_max"
  shows "RoundDownTo os (Unit v) (Unit r :: 'u unit_base) = Inr (Unit (v div r * r)) \<and>
    RoundUpTo os (Unit v) (Unit r :: 'u unit_base) = Inr (Unit ((v + r - 1) div r * r)) \<and>
    RoundTo os (Unit v) (Unit r :: 'u unit_base) = Inr (Unit ((v + r div 2) div r * r))"
proof -
  have fr: "finite_range False v" "finite_range False r" using assms by auto
  note wf = finite_wf [OF fr(1), where 'u = 'u] finite_wf [OF fr(2), where 'u = 'u]
  have le: "0 \<le> x div r \<and> x div r \<le> x \<and> 0 \<le> x div r * r \<and> x div r * r \<le> x" if "0 \<le> x" for x
    using that assms(2) div_le_self [of x r] div_bounds(1) [of r x] by (simp add: mult.commute)
  have ok: "unit_times os (Unit (x div r) :: 'u unit_base) r = Inr (Unit (x div r * r))"
    if "0 \<le> x" "x < int64_max" for x
    using le [OF that(1)] that(2) by (intro unit_times_Unit) auto
  have half: "0 \<le> r div 2" "r div 2 < r" using assms(2) by auto
  have i: "in_int64 v" "in_int64 r" "in_int64 (v + r)" "in_int64 (v + r - 1)" "in_int64 (v + r div 2)"
    using assms half by (auto simp: in_int64_def)
  have pos: "0 \<le> v + r - 1" "0 \<le> v + r div 2" "v + r - 1 < int64_max" "v + r div 2 < int64_max" "v < int64_max"
    using assms half by auto
  have "(v + r - 1) sdiv r = (v + r - 1) div r" "(v + r div 2) sdiv r = (v + r div 2) div r" "r sdiv 2 = r div 2"
    "v sdiv r = v div r" using pos assms(1,2) by (simp_all add: sdiv_cases)
  then show ?thesis
    using wf i assms(2) ok [OF assms(1) pos(5)] ok [OF pos(1,3)] ok [OF pos(2,4)]
    by (simp add: RoundDownTo_def RoundUpTo_def RoundTo_def cdiv_pos i64_def)
qed

text \<open>
  On negative values the same methods round in the wrong direction, because the division of C++
  truncates: \<open>RoundDownTo\<close> returns a larger value for every negative value that is no multiple of the
  resolution, and \<open>RoundUpTo\<close> can skip the next multiple.
\<close>

theorem rounding_negative:
  assumes "int64_min < v" "v < 0" "0 < r" "r < int64_max" "v mod r \<noteq> 0"
  shows "\<exists>w. RoundDownTo False (Unit v) (Unit r :: 'u unit_base) = Inr (Unit w) \<and> v < w \<and>
    RoundUpTo False (Unit (- 5)) (Unit 4 :: 'u unit_base) = Inr (Unit 0)"
proof -
  have fr: "finite_range False v" "finite_range False r" using assms by auto
  note wf = finite_wf [OF fr(1), where 'u = 'u] finite_wf [OF fr(2), where 'u = 'u]
  define q where "q = (- v) div r"
  have q: "0 \<le> q" "q \<le> - v" "r * q \<le> - v"
    using assms div_le_self [of "- v" r] div_bounds(1) [of r "- v"] by (auto simp: q_def)
  have "r * q \<noteq> - v"
  proof
    assume "r * q = - v"
    then have "v = r * (- q)" by simp
    then have "v mod r = 0" by (metis mod_mult_self1_is_0)
    then show False using assms(5) by simp
  qed
  then have less: "v < - (q * r)" using q(3) by (simp add: mult.commute)
  have "0 \<le> q * r" using q(1) assms(3) by simp
  then have "int64_min < - (q * r) \<and> - (q * r) < int64_max" using less assms(1) by linarith
  then have "finite_range False (- q)" "finite_range False (- q * r)" using q assms by auto
  then have "unit_times False (Unit (- q) :: 'u unit_base) r = Inr (Unit (- q * r))"
    by (rule unit_times_Unit)
  then have "RoundDownTo False (Unit v) (Unit r :: 'u unit_base) = Inr (Unit (- (q * r)))"
    using wf assms by (simp add: RoundDownTo_def cdiv_pos sdiv_cases in_int64_def q_def)
  moreover have "RoundUpTo False (Unit (- 5)) (Unit 4 :: 'u unit_base) = Inr (Unit 0)"
    using finite_wf [of "- 5", where 'u = 'u] finite_wf [of 4, where 'u = 'u]
      unit_times_Unit [of 0 False 4, where 'u = 'u]
    by (simp add: RoundUpTo_def cdiv_pos sdiv_cases in_int64_def i64_def)
  ultimately show ?thesis using less by blast
qed

theorem rounding_nonnegative_witness:
  "RoundUpTo False (Unit 5) (Unit 4 :: TimeDelta) = Inr (Unit 8)"
  using rounding_nonnegative [of 5 4 False, where 'u = time_delta_tag] by simp

theorem rounding_negative_witness:
  "\<exists>w. RoundDownTo False (Unit (- 5)) (Unit 4 :: TimeDelta) = Inr (Unit w) \<and> - 5 < w"
  using rounding_negative [of "- 5" 4, where 'u = time_delta_tag] by auto

section \<open>Rates, sizes and times\<close>

lemma ToValue_Unit: "finite_range False v \<Longrightarrow> ToValue Int64 (Unit v :: 'u unit_base) = Inr v"
  using finite_wf [of v, where 'u = 'u] by (simp add: ToValue_int64)

text \<open>
  The size sent at a rate during a time is the product rounded to whole bytes, as long as the
  number of microbits fits: the product is computed without a check, and a larger one is a signed
  overflow.
\<close>

theorem rate_times_duration_branches:
  assumes "finite_range True b" "finite_range True us"
  shows "rate_times_duration (Unit b) (Unit us) =
    (if b * us + 4000000 \<le> int64_max then Inr (Unit ((b * us + 4000000) div 8000000))
     else Inl SignedOverflow)"
proof -
  have nn: "0 \<le> b * us" using assms by simp
  have "ToValue Int64 (Unit b :: DataRate) = Inr b" "ToValue Int64 (Unit us :: TimeDelta) = Inr us"
    using assms by (auto intro: ToValue_Unit)
  moreover have "finite_range True ((b * us + 4000000) div 8000000)" if "b * us + 4000000 \<le> int64_max"
    using that nn div_le_self [of "b * us + 4000000" 8000000] by (auto simp: div_less_dividend)
  ultimately show ?thesis
    using nn by (auto simp: rate_times_duration_def DataRate_bps_def TimeDelta_us_def DataSize_Bytes_def
        i64_def guardr_def in_int64_def cdiv_pos sdiv_cases FromValue_int64)
qed

text \<open>
  \<open>DataSize * Frequency\<close> on every branch: the guard of the code rejects some products that are
  too large, but not all; the rounding term \<open>500\<close>, and the factor \<open>8\<close> when the frequency is zero,
  overflow behind it.
\<close>

theorem size_times_frequency_branches:
  assumes "finite_range True b" "finite_range True f"
  shows "size_times_frequency (Unit b) (Unit f) =
    (if f \<noteq> 0 \<and> int64_max div 8 div f < b then Inl DCheckFailed
     else if int64_max < b * 8 \<or> int64_max - 500 < b * 8 * f then Inl SignedOverflow
     else Inr (Unit ((b * 8 * f + 500) div 1000)))"
proof -
  have nn: "0 \<le> b * 8 * f" "0 \<le> b * 8" using assms by simp_all
  have v: "ToValue Int64 (Unit b :: DataSize) = Inr b" "ToValue Int64 (Unit f :: Frequency) = Inr f"
    using assms by (auto intro: ToValue_Unit)
  have fin: "finite_range True ((b * 8 * f + 500) div 1000)" if "b * 8 * f \<le> int64_max - 500"
    using that nn div_le_self [of "b * 8 * f + 500" 1000] by auto
  have dv: "cdiv (highest Int64) 8 = Inr (int64_max div 8)"
    "f \<noteq> 0 \<Longrightarrow> cdiv (int64_max div 8) f = Inr (int64_max div 8 div f)"
    using assms by (simp_all add: cdiv_pos sdiv_cases in_int64_def)
  show ?thesis
  proof (cases "f \<noteq> 0 \<and> int64_max div 8 div f < b")
    case True
    then show ?thesis
      using v dv by (simp add: size_times_frequency_def IsZero_def DataSize_bytes_def Frequency_millihertz_def)
  next
    case False
    then show ?thesis
      using nn v dv fin
      by (auto simp: size_times_frequency_def IsZero_def DataSize_bytes_def Frequency_millihertz_def
          DataRate_BitsPerSec_def i64_def guardr_def in_int64_def cdiv_pos sdiv_cases FromValue_int64)
  qed
qed

theorem rate_times_duration_branches_witness:
  "rate_times_duration (Unit 1000000) (Unit 1000000) = Inr (Unit 125000) \<and>
   rate_times_duration (Unit 10000000000) (Unit 1000000000) = Inl SignedOverflow"
  using rate_times_duration_branches [of 1000000 1000000]
    rate_times_duration_branches [of 10000000000 1000000000] by simp

theorem size_times_frequency_branches_witness:
  "size_times_frequency (Unit 1152921504606846975) (Unit 1) = Inl SignedOverflow"
  using size_times_frequency_branches [of 1152921504606846975 1] by simp

end
