(* ===== verification/ByteIO.thy ===== *)
theory ByteIO
  imports Prelude
begin

text \<open>
  modules/rtp_rtcp/source/byte_io.h: integers of \<open>B\<close> bytes read from and written to memory in either
  byte order. The template parameter \<open>T\<close> is the word type \<open>'w\<close>, whose bits are the same for the signed
  and the unsigned type of a width; memory from the pointer on is a list of bytes, and an access
  beyond it is the fault \<open>OutOfRange\<close>. The classes specialised for one, two, four and eight bytes are
  separate definitions, and \<open>compiles\<close> collects the \<open>static_assert\<close>s of the class that is chosen.
\<close>

unbundle bit_operations_syntax

section \<open>Unsigned integers\<close>

abbreviation sizeof_word :: "'w::len itself \<Rightarrow> nat" where
  "sizeof_word w \<equiv> LENGTH('w) div 8"

definition InternalReadBigEndian :: "nat \<Rightarrow> u8 list \<Rightarrow> 'w::len word" where
  "InternalReadBigEndian B data =
     foldl (\<lambda>val i. val OR push_bit ((B - 1 - i) * 8) (ucast (data ! i))) 0 [0..<B]"

definition InternalReadLittleEndian :: "nat \<Rightarrow> u8 list \<Rightarrow> 'w::len word" where
  "InternalReadLittleEndian B data =
     foldl (\<lambda>val i. val OR push_bit (i * 8) (ucast (data ! i))) 0 [0..<B]"

definition ReadBigEndian1 :: "u8 list \<Rightarrow> 'w::len word" where
  "ReadBigEndian1 data = ucast (data ! 0)"

definition ReadLittleEndian1 :: "u8 list \<Rightarrow> 'w::len word" where
  "ReadLittleEndian1 data = ucast (data ! 0)"

text \<open>Two bytes are combined as \<open>int\<close> and converted to \<open>T\<close> afterwards.\<close>

definition ReadBigEndian2 :: "u8 list \<Rightarrow> 'w::len word" where
  "ReadBigEndian2 data = scast (push_bit 8 (ucast (data ! 0) :: c_int) OR ucast (data ! 1))"

definition ReadLittleEndian2 :: "u8 list \<Rightarrow> 'w::len word" where
  "ReadLittleEndian2 data = scast ((ucast (data ! 0) :: c_int) OR push_bit 8 (ucast (data ! 1)))"

definition Get :: "u8 list \<Rightarrow> nat \<Rightarrow> 'w::len word" where
  "Get data index = ucast (data ! index)"

definition ReadBigEndian4 :: "u8 list \<Rightarrow> 'w::len word" where
  "ReadBigEndian4 data =
     push_bit 24 (Get data 0) OR push_bit 16 (Get data 1) OR push_bit 8 (Get data 2) OR Get data 3"

definition ReadLittleEndian4 :: "u8 list \<Rightarrow> 'w::len word" where
  "ReadLittleEndian4 data =
     Get data 0 OR push_bit 8 (Get data 1) OR push_bit 16 (Get data 2) OR push_bit 24 (Get data 3)"

definition ReadBigEndian8 :: "u8 list \<Rightarrow> 'w::len word" where
  "ReadBigEndian8 data =
     push_bit 56 (Get data 0) OR push_bit 48 (Get data 1) OR push_bit 40 (Get data 2) OR
     push_bit 32 (Get data 3) OR push_bit 24 (Get data 4) OR push_bit 16 (Get data 5) OR
     push_bit 8 (Get data 6) OR Get data 7"

definition ReadLittleEndian8 :: "u8 list \<Rightarrow> 'w::len word" where
  "ReadLittleEndian8 data =
     Get data 0 OR push_bit 8 (Get data 1) OR push_bit 16 (Get data 2) OR
     push_bit 24 (Get data 3) OR push_bit 32 (Get data 4) OR push_bit 40 (Get data 5) OR
     push_bit 48 (Get data 6) OR push_bit 56 (Get data 7)"

definition compiles :: "nat \<Rightarrow> nat \<Rightarrow> bool" where
  "compiles B n \<longleftrightarrow>
     (if B = 1 then n = 1 else if B = 2 then n \<ge> 2 else if B = 4 then n \<ge> 4
      else if B = 8 then n \<ge> 8 else B \<le> n)"

text \<open>The class template that the arguments select.\<close>

definition ReadBigEndian :: "nat \<Rightarrow> u8 list \<Rightarrow> 'w::len word res" where
  "ReadBigEndian B data = guardr OutOfRange (B \<le> length data)
     (Inr (if B = 1 then ReadBigEndian1 data else if B = 2 then ReadBigEndian2 data
           else if B = 4 then ReadBigEndian4 data else if B = 8 then ReadBigEndian8 data
           else InternalReadBigEndian B data))"

definition ReadLittleEndian :: "nat \<Rightarrow> u8 list \<Rightarrow> 'w::len word res" where
  "ReadLittleEndian B data = guardr OutOfRange (B \<le> length data)
     (Inr (if B = 1 then ReadLittleEndian1 data else if B = 2 then ReadLittleEndian2 data
           else if B = 4 then ReadLittleEndian4 data else if B = 8 then ReadLittleEndian8 data
           else InternalReadLittleEndian B data))"

definition put :: "u8 list \<Rightarrow> nat \<Rightarrow> 'w::len word \<Rightarrow> u8 list" where
  "put data i v = data[i := ucast v]"

definition WriteBigEndianGen :: "nat \<Rightarrow> u8 list \<Rightarrow> 'w::len word \<Rightarrow> u8 list" where
  "WriteBigEndianGen B data val = foldl (\<lambda>d i. put d i (drop_bit ((B - 1 - i) * 8) val)) data [0..<B]"

definition WriteLittleEndianGen :: "nat \<Rightarrow> u8 list \<Rightarrow> 'w::len word \<Rightarrow> u8 list" where
  "WriteLittleEndianGen B data val = foldl (\<lambda>d i. put d i (drop_bit (i * 8) val)) data [0..<B]"

definition WriteBigEndian1 :: "u8 list \<Rightarrow> 'w::len word \<Rightarrow> u8 list" where
  "WriteBigEndian1 data val = put data 0 val"

definition WriteLittleEndian1 :: "u8 list \<Rightarrow> 'w::len word \<Rightarrow> u8 list" where
  "WriteLittleEndian1 data val = put data 0 val"

definition WriteBigEndian2 :: "u8 list \<Rightarrow> 'w::len word \<Rightarrow> u8 list" where
  "WriteBigEndian2 data val =
     (let data = put data 0 (drop_bit 8 val); data = put data 1 val in data)"

definition WriteLittleEndian2 :: "u8 list \<Rightarrow> 'w::len word \<Rightarrow> u8 list" where
  "WriteLittleEndian2 data val =
     (let data = put data 0 val; data = put data 1 (drop_bit 8 val) in data)"

definition WriteBigEndian4 :: "u8 list \<Rightarrow> 'w::len word \<Rightarrow> u8 list" where
  "WriteBigEndian4 data val =
     (let data = put data 0 (drop_bit 24 val); data = put data 1 (drop_bit 16 val);
          data = put data 2 (drop_bit 8 val); data = put data 3 val in data)"

definition WriteLittleEndian4 :: "u8 list \<Rightarrow> 'w::len word \<Rightarrow> u8 list" where
  "WriteLittleEndian4 data val =
     (let data = put data 0 val; data = put data 1 (drop_bit 8 val);
          data = put data 2 (drop_bit 16 val); data = put data 3 (drop_bit 24 val) in data)"

definition WriteBigEndian8 :: "u8 list \<Rightarrow> 'w::len word \<Rightarrow> u8 list" where
  "WriteBigEndian8 data val =
     (let data = put data 0 (drop_bit 56 val); data = put data 1 (drop_bit 48 val);
          data = put data 2 (drop_bit 40 val); data = put data 3 (drop_bit 32 val);
          data = put data 4 (drop_bit 24 val); data = put data 5 (drop_bit 16 val);
          data = put data 6 (drop_bit 8 val); data = put data 7 val in data)"

definition WriteLittleEndian8 :: "u8 list \<Rightarrow> 'w::len word \<Rightarrow> u8 list" where
  "WriteLittleEndian8 data val =
     (let data = put data 0 val; data = put data 1 (drop_bit 8 val);
          data = put data 2 (drop_bit 16 val); data = put data 3 (drop_bit 24 val);
          data = put data 4 (drop_bit 32 val); data = put data 5 (drop_bit 40 val);
          data = put data 6 (drop_bit 48 val); data = put data 7 (drop_bit 56 val) in data)"

definition WriteBigEndian :: "nat \<Rightarrow> u8 list \<Rightarrow> 'w::len word \<Rightarrow> u8 list res" where
  "WriteBigEndian B data val = guardr OutOfRange (B \<le> length data)
     (Inr (if B = 1 then WriteBigEndian1 data val else if B = 2 then WriteBigEndian2 data val
           else if B = 4 then WriteBigEndian4 data val else if B = 8 then WriteBigEndian8 data val
           else WriteBigEndianGen B data val))"

definition WriteLittleEndian :: "nat \<Rightarrow> u8 list \<Rightarrow> 'w::len word \<Rightarrow> u8 list res" where
  "WriteLittleEndian B data val = guardr OutOfRange (B \<le> length data)
     (Inr (if B = 1 then WriteLittleEndian1 data val else if B = 2 then WriteLittleEndian2 data val
           else if B = 4 then WriteLittleEndian4 data val else if B = 8 then WriteLittleEndian8 data val
           else WriteLittleEndianGen B data val))"

section \<open>Signed integers\<close>

definition ReinterpretAsSigned :: "'w::len word \<Rightarrow> 'w word" where
  "ReinterpretAsSigned unsigned_val =
     (let kUnsignedHighestBitMask = push_bit (LENGTH('w) - 1) 1;
          kSignedHighestBitMask = push_bit (LENGTH('w) - 1) 1
      in if unsigned_val AND kUnsignedHighestBitMask \<noteq> 0
         then (unsigned_val AND NOT kUnsignedHighestBitMask) OR kSignedHighestBitMask
         else unsigned_val)"

text \<open>The mask is computed as \<open>int\<close>; a shift by 32 or more is undefined.\<close>

definition SignExtend :: "nat \<Rightarrow> 'w::len word \<Rightarrow> 'w word res" where
  "SignExtend B val =
     (let kMsb = (ucast (drop_bit ((B - 1) * 8) val) :: u8) in
      if kMsb AND 0x80 \<noteq> 0
      then guardr ShiftTooWide ((B mod (LENGTH('w) div 8)) * 8 < 32)
        (let kUsedBitsMask = (scast (push_bit ((B mod (LENGTH('w) div 8)) * 8) (1 :: c_int) - 1) :: 'w word)
         in Inr (NOT kUsedBitsMask OR val))
      else Inr val)"

definition ReadBigEndianSigned :: "nat \<Rightarrow> u8 list \<Rightarrow> 'w::len word res" where
  "ReadBigEndianSigned B data =
     rbind (ReadBigEndian B data) (\<lambda>unsigned_val.
     rbind (if B < LENGTH('w) div 8 then SignExtend B unsigned_val else Inr unsigned_val) (\<lambda>u.
     Inr (ReinterpretAsSigned u)))"

definition ReadLittleEndianSigned :: "nat \<Rightarrow> u8 list \<Rightarrow> 'w::len word res" where
  "ReadLittleEndianSigned B data =
     rbind (ReadLittleEndian B data) (\<lambda>unsigned_val.
     rbind (if B < LENGTH('w) div 8 then SignExtend B unsigned_val else Inr unsigned_val) (\<lambda>u.
     Inr (ReinterpretAsSigned u)))"

definition ReinterpretAsUnsigned :: "'w::len word \<Rightarrow> 'w word" where
  "ReinterpretAsUnsigned val = ucast val"

definition WriteBigEndianSigned :: "nat \<Rightarrow> u8 list \<Rightarrow> 'w::len word \<Rightarrow> u8 list res" where
  "WriteBigEndianSigned B data val = WriteBigEndian B data (ReinterpretAsUnsigned val)"

definition WriteLittleEndianSigned :: "nat \<Rightarrow> u8 list \<Rightarrow> 'w::len word \<Rightarrow> u8 list res" where
  "WriteLittleEndianSigned B data val = WriteLittleEndian B data (ReinterpretAsUnsigned val)"

section \<open>The generic loops, bit by bit\<close>

lemma bit_foldl_or:
  fixes v0 :: "'w::len word"
  shows "bit (foldl (\<lambda>val i. val OR f i) v0 xs) n \<longleftrightarrow> bit v0 n \<or> (\<exists>i \<in> set xs. bit (f i) n)"
  by (induction xs arbitrary: v0) (auto simp: bit_or_iff)

lemma bit_byte: "bit (b :: u8) k \<Longrightarrow> k < 8"
  using bit_imp_le_length by fastforce

lemma bit_read_big:
  "bit (InternalReadBigEndian B data :: 'w::len word) n \<longleftrightarrow>
     n < LENGTH('w) \<and> n < 8 * B \<and> bit (data ! (B - 1 - n div 8)) (n mod 8)"
proof -
  have "bit (InternalReadBigEndian B data :: 'w word) n \<longleftrightarrow>
      (\<exists>i < B. n < LENGTH('w) \<and> (B - 1 - i) * 8 \<le> n \<and> bit (data ! i) (n - (B - 1 - i) * 8))"
    by (auto simp: InternalReadBigEndian_def bit_foldl_or bit_push_bit_iff bit_unsigned_iff
        dest: bit_imp_le_length)
  also have "\<dots> \<longleftrightarrow> n < LENGTH('w) \<and> n < 8 * B \<and> bit (data ! (B - 1 - n div 8)) (n mod 8)"
  proof (intro iffI; elim exE conjE)
    fix i assume *: "i < B" "n < LENGTH('w)" "(B - 1 - i) * 8 \<le> n" "bit (data ! i) (n - (B - 1 - i) * 8)"
    then have "n - (B - 1 - i) * 8 < 8" using bit_byte by blast
    then have "n div 8 = B - 1 - i" "n mod 8 = n - (B - 1 - i) * 8" "n < 8 * B"
      using *(1,3) by (auto simp: div_nat_eqI mod_nat_eqI)
    then show "n < LENGTH('w) \<and> n < 8 * B \<and> bit (data ! (B - 1 - n div 8)) (n mod 8)"
      using * by auto
  next
    assume *: "n < LENGTH('w)" "n < 8 * B" "bit (data ! (B - 1 - n div 8)) (n mod 8)"
    have d: "n div 8 < B" using *(2) by (simp add: less_mult_imp_div_less mult.commute)
    then have "B - 1 - (B - 1 - n div 8) = n div 8" by simp
    moreover have "n - n div 8 * 8 = n mod 8" by (simp add: minus_div_mult_eq_mod)
    ultimately show "\<exists>i < B. n < LENGTH('w) \<and> (B - 1 - i) * 8 \<le> n \<and> bit (data ! i) (n - (B - 1 - i) * 8)"
      using * d by (intro exI [of _ "B - 1 - n div 8"]) auto
  qed
  finally show ?thesis .
qed

lemma bit_read_little:
  "bit (InternalReadLittleEndian B data :: 'w::len word) n \<longleftrightarrow>
     n < LENGTH('w) \<and> n < 8 * B \<and> bit (data ! (n div 8)) (n mod 8)"
proof -
  have "bit (InternalReadLittleEndian B data :: 'w word) n \<longleftrightarrow>
      (\<exists>i < B. n < LENGTH('w) \<and> i * 8 \<le> n \<and> bit (data ! i) (n - i * 8))"
    by (auto simp: InternalReadLittleEndian_def bit_foldl_or bit_push_bit_iff bit_unsigned_iff
        dest: bit_imp_le_length)
  also have "\<dots> \<longleftrightarrow> n < LENGTH('w) \<and> n < 8 * B \<and> bit (data ! (n div 8)) (n mod 8)"
  proof (intro iffI; elim exE conjE)
    fix i assume *: "i < B" "n < LENGTH('w)" "i * 8 \<le> n" "bit (data ! i) (n - i * 8)"
    then have "n - i * 8 < 8" using bit_byte by blast
    then have "n div 8 = i" "n mod 8 = n - i * 8" "n < 8 * B"
      using *(1,3) by (auto simp: div_nat_eqI mod_nat_eqI)
    then show "n < LENGTH('w) \<and> n < 8 * B \<and> bit (data ! (n div 8)) (n mod 8)" using * by auto
  next
    assume *: "n < LENGTH('w)" "n < 8 * B" "bit (data ! (n div 8)) (n mod 8)"
    have "n div 8 < B" using *(2) by (simp add: less_mult_imp_div_less mult.commute)
    moreover have "n - n div 8 * 8 = n mod 8" by (simp add: minus_div_mult_eq_mod)
    ultimately show "\<exists>i < B. n < LENGTH('w) \<and> i * 8 \<le> n \<and> bit (data ! i) (n - i * 8)"
      using * by (intro exI [of _ "n div 8"]) auto
  qed
  finally show ?thesis .
qed

lemma foldl_put:
  assumes "n \<le> length data"
  shows "length (foldl (\<lambda>d i. put d i (g i)) data [0..<n]) = length data \<and>
    (\<forall>j < length data. foldl (\<lambda>d i. put d i (g i)) data [0..<n] ! j = (if j < n then ucast (g j) else data ! j))"
  using assms
proof (induction n)
  case 0
  then show ?case by simp
next
  case (Suc n)
  then show ?case by (auto simp: put_def nth_list_update less_Suc_eq)
qed

lemma write_big_nth:
  "B \<le> length data \<Longrightarrow> j < length data \<Longrightarrow>
    WriteBigEndianGen B data val ! j = (if j < B then ucast (drop_bit ((B - 1 - j) * 8) val) else data ! j)"
  "B \<le> length data \<Longrightarrow> length (WriteBigEndianGen B data val) = length data"
  unfolding WriteBigEndianGen_def using foldl_put [of B data "\<lambda>i. drop_bit ((B - 1 - i) * 8) val"] by auto

lemma write_little_nth:
  "B \<le> length data \<Longrightarrow> j < length data \<Longrightarrow>
    WriteLittleEndianGen B data val ! j = (if j < B then ucast (drop_bit (j * 8) val) else data ! j)"
  "B \<le> length data \<Longrightarrow> length (WriteLittleEndianGen B data val) = length data"
  unfolding WriteLittleEndianGen_def using foldl_put [of B data "\<lambda>i. drop_bit (i * 8) val"] by auto

section \<open>The specialised classes equal the generic ones\<close>

lemma upt_small:
  "[0..<Suc 0] = [0]" "[0..<2] = [0, 1]" "[0..<4] = [0, 1, 2, 3]" "[0..<8] = [0, 1, 2, 3, 4, 5, 6, 7 :: nat]"
  by (simp_all add: upt_rec)

lemma scast_two_bytes:
  assumes "16 \<le> LENGTH('w::len)"
  shows "(scast (push_bit 8 (ucast (a :: u8) :: c_int) OR ucast (b :: u8)) :: 'w word) = push_bit 8 (ucast a) OR ucast b"
proof (rule bit_word_eqI)
  fix n assume n: "n < LENGTH('w)"
  have "\<not> bit a (n - 8)" if "16 \<le> n" using that bit_byte [of a "n - 8"] by auto
  moreover have "\<not> bit b n" if "8 \<le> n" using that bit_byte [of b n] by auto
  moreover have "\<not> bit a 23" "\<not> bit b 31" using bit_byte by fastforce+
  ultimately show "bit (scast (push_bit 8 (ucast a :: c_int) OR ucast b) :: 'w word) n =
      bit (push_bit 8 (ucast a) OR ucast b :: 'w word) n"
    using n assms
    by (cases "n < 31") (auto simp: bit_signed_iff bit_or_iff bit_push_bit_iff bit_unsigned_iff min_def)
qed

lemma ReadBigEndian_eq:
  assumes "compiles B (LENGTH('w::len) div 8)"
  shows "ReadBigEndian B data = guardr OutOfRange (B \<le> length data) (Inr (InternalReadBigEndian B data :: 'w word))"
  using assms
  by (auto simp: ReadBigEndian_def InternalReadBigEndian_def ReadBigEndian1_def ReadBigEndian2_def
      ReadBigEndian4_def ReadBigEndian8_def Get_def upt_small compiles_def scast_two_bytes guardr_def or.assoc)

lemma scast_two_bytes_little:
  assumes "16 \<le> LENGTH('w::len)"
  shows "(scast ((ucast (a :: u8) :: c_int) OR push_bit 8 (ucast (b :: u8))) :: 'w word) = ucast a OR push_bit 8 (ucast b)"
  using scast_two_bytes [OF assms, of b a] by (simp only: or.commute)

lemma ReadLittleEndian_eq:
  assumes "compiles B (LENGTH('w::len) div 8)"
  shows "ReadLittleEndian B data = guardr OutOfRange (B \<le> length data) (Inr (InternalReadLittleEndian B data :: 'w word))"
proof (cases "B = 2")
  case True
  then have "16 \<le> LENGTH('w)" using assms by (auto simp: compiles_def)
  then show ?thesis
    using True by (simp add: ReadLittleEndian_def InternalReadLittleEndian_def ReadLittleEndian2_def
        upt_small scast_two_bytes_little)
next
  case False
  then show ?thesis using assms
    by (auto simp: ReadLittleEndian_def InternalReadLittleEndian_def ReadLittleEndian1_def
        ReadLittleEndian4_def ReadLittleEndian8_def Get_def upt_small guardr_def or.assoc)
qed

lemma WriteBigEndian_eq:
  "WriteBigEndian B data val = guardr OutOfRange (B \<le> length data) (Inr (WriteBigEndianGen B data val))"
  by (auto simp: WriteBigEndian_def WriteBigEndianGen_def WriteBigEndian1_def WriteBigEndian2_def
      WriteBigEndian4_def WriteBigEndian8_def upt_small guardr_def Let_def)

lemma WriteLittleEndian_eq:
  "WriteLittleEndian B data val = guardr OutOfRange (B \<le> length data) (Inr (WriteLittleEndianGen B data val))"
  by (auto simp: WriteLittleEndian_def WriteLittleEndianGen_def WriteLittleEndian1_def WriteLittleEndian2_def
      WriteLittleEndian4_def WriteLittleEndian8_def upt_small guardr_def Let_def)

section \<open>Round trips\<close>

lemma compiles_fits: "compiles B (LENGTH('w::len) div 8) \<Longrightarrow> 8 * B \<le> LENGTH('w)"
proof -
  assume "compiles B (LENGTH('w) div 8)"
  then have "B \<le> LENGTH('w) div 8" by (auto simp: compiles_def split: if_splits)
  then show ?thesis by (simp add: div_le_mono less_eq_div_iff_mult_less_eq mult.commute)
qed

lemma bit_ucast_byte: "bit (ucast (w :: 'w::len word) :: u8) k \<longleftrightarrow> k < 8 \<and> bit w k"
  by (simp add: bit_unsigned_iff)

lemma read_write_big:
  fixes v :: "'w::len word"
  assumes "B \<le> length data" "8 * B \<le> LENGTH('w)"
  shows "InternalReadBigEndian B (WriteBigEndianGen B data v) = take_bit (8 * B) v"
proof (rule bit_word_eqI)
  fix n assume n: "n < LENGTH('w)"
  show "bit (InternalReadBigEndian B (WriteBigEndianGen B data v) :: 'w word) n = bit (take_bit (8 * B) v) n"
  proof (cases "n < 8 * B")
    case True
    then have d: "n div 8 < B" by (simp add: less_mult_imp_div_less mult.commute)
    then have "B - 1 - (B - 1 - n div 8) = n div 8" "B - 1 - n div 8 < B" by auto
    then show ?thesis
      using True n assms d
      by (simp add: bit_read_big write_big_nth bit_ucast_byte bit_drop_bit_eq bit_take_bit_iff)
  qed (simp add: bit_read_big bit_take_bit_iff)
qed

lemma read_write_little:
  fixes v :: "'w::len word"
  assumes "B \<le> length data" "8 * B \<le> LENGTH('w)"
  shows "InternalReadLittleEndian B (WriteLittleEndianGen B data v) = take_bit (8 * B) v"
proof (rule bit_word_eqI)
  fix n assume n: "n < LENGTH('w)"
  show "bit (InternalReadLittleEndian B (WriteLittleEndianGen B data v) :: 'w word) n = bit (take_bit (8 * B) v) n"
  proof (cases "n < 8 * B")
    case True
    then have d: "n div 8 < B" by (simp add: less_mult_imp_div_less mult.commute)
    then show ?thesis
      using True n assms
      by (simp add: bit_read_little write_little_nth bit_ucast_byte bit_drop_bit_eq bit_take_bit_iff)
  qed (simp add: bit_read_little bit_take_bit_iff)
qed

text \<open>
  C21. Unsigned round trip: for every width and every number of bytes that compiles, in either byte
  order, what was written is read back, reduced to the bytes written; the bytes behind them keep
  their contents; a buffer that is too short is never accessed.
\<close>

theorem byte_io_roundtrip:
  fixes v :: "'w::len word"
  assumes "compiles B (LENGTH('w) div 8)"
  shows "rbind (WriteBigEndian B data v) (ReadBigEndian B) =
      guardr OutOfRange (B \<le> length data) (Inr (take_bit (8 * B) v)) \<and>
    rbind (WriteLittleEndian B data v) (ReadLittleEndian B) =
      guardr OutOfRange (B \<le> length data) (Inr (take_bit (8 * B) v)) \<and>
    (WriteBigEndian B data v = Inr data' \<or> WriteLittleEndian B data v = Inr data' \<longrightarrow>
      length data' = length data \<and> drop B data' = drop B data)"
proof (cases "B \<le> length data")
  case True
  note fits = compiles_fits [OF assms]
  have "drop B (WriteBigEndianGen B data v) = drop B data" "drop B (WriteLittleEndianGen B data v) = drop B data"
    using True by (auto intro!: nth_equalityI simp: write_big_nth write_little_nth)
  then show ?thesis
    using True assms read_write_big [OF True fits, of v] read_write_little [OF True fits, of v]
    by (auto simp: WriteBigEndian_eq WriteLittleEndian_eq ReadBigEndian_eq ReadLittleEndian_eq
        write_big_nth write_little_nth)
qed (simp add: WriteBigEndian_eq WriteLittleEndian_eq)

theorem byte_io_roundtrip_witness:
  "rbind (WriteBigEndian 3 [0, 0, 0, 9] (0x12345678 :: u32)) (ReadBigEndian 3) = Inr (0x345678 :: u32)"
  using byte_io_roundtrip [of 3 "[0, 0, 0, 9]" "0x12345678 :: u32"]
  by (simp add: compiles_def take_bit_eq_mod)

text \<open>
  The two byte orders mirror each other, and the specialised classes for one, two, four and
  eight bytes compute what the generic loop does.
\<close>

theorem byte_order_mirror:
  assumes "compiles B (LENGTH('w::len) div 8)" "B \<le> length data"
  shows "(ReadLittleEndian B data :: 'w word res) = ReadBigEndian B (rev (take B data)) \<and>
    (ReadBigEndian B data :: 'w word res) = Inr (InternalReadBigEndian B data) \<and>
    (ReadLittleEndian B data :: 'w word res) = Inr (InternalReadLittleEndian B data)"
proof -
  have "(InternalReadLittleEndian B data :: 'w word) = InternalReadBigEndian B (rev (take B data))"
  proof (rule bit_word_eqI)
    fix n
    have "rev (take B data) ! (B - 1 - n div 8) = data ! (n div 8)" if "n < 8 * B"
    proof -
      have "n div 8 < B" using that by (simp add: less_mult_imp_div_less mult.commute)
      then show ?thesis using assms(2) by (simp add: rev_nth)
    qed
    then show "bit (InternalReadLittleEndian B data :: 'w word) n =
        bit (InternalReadBigEndian B (rev (take B data)) :: 'w word) n"
      by (auto simp: bit_read_big bit_read_little)
  qed
  then show ?thesis using assms by (simp add: ReadBigEndian_eq ReadLittleEndian_eq)
qed

theorem byte_order_mirror_witness:
  "(ReadLittleEndian 2 [1, 2, 7] :: u16 res) = ReadBigEndian 2 [2, 1]"
  using byte_order_mirror [of 2 "[1, 2, 7]", where 'w = 16] by (simp add: compiles_def)

section \<open>Sign extension\<close>

lemma ReinterpretAsSigned_id: "ReinterpretAsSigned u = (u :: 'w::len word)"
proof -
  let ?m = "push_bit (LENGTH('w) - 1) (1 :: 'w word)"
  have bm: "bit ?m n \<longleftrightarrow> n = LENGTH('w) - 1" for n
    by (auto simp: bit_exp_iff)
  have "(u AND NOT ?m) OR ?m = u" if "bit u (LENGTH('w) - 1)"
  proof (rule bit_word_eqI)
    fix n assume "n < LENGTH('w)"
    then show "bit ((u AND NOT ?m) OR ?m) n = bit u n"
      using that by (auto simp: bit_or_iff bit_and_iff bit_not_iff bit_exp_iff)
  qed
  moreover have "u AND ?m \<noteq> 0 \<longleftrightarrow> bit u (LENGTH('w) - 1)"
    by (simp add: push_bit_of_1 and_exp_eq_0_iff_not_bit)
  ultimately show ?thesis by (simp add: ReinterpretAsSigned_def Let_def)
qed

lemma byte_msb: "(b :: u8) AND 0x80 \<noteq> 0 \<longleftrightarrow> bit b 7"
proof -
  have "(0x80 :: u8) = 2 ^ 7" by simp
  then show ?thesis by (simp only: and_exp_eq_0_iff_not_bit not_not)
qed

lemma bit_used_mask:
  assumes "s < 32" "n < LENGTH('w::len)"
  shows "bit (scast (2 ^ s - 1 :: c_int) :: 'w word) n \<longleftrightarrow> n < s"
proof -
  have "2 ^ s - 1 = (mask s :: c_int)" by (simp add: mask_eq_exp_minus_1)
  then show ?thesis using assms by (auto simp: bit_signed_iff bit_mask_iff min_def)
qed

lemma SignExtend_eq:
  fixes u :: "'w::len word"
  assumes "0 < B" "B < LENGTH('w) div 8"
  shows "SignExtend B u =
    (if \<not> bit u (8 * B - 1) then Inr u
     else if 4 \<le> B then Inl ShiftTooWide
     else Inr (NOT (mask (8 * B)) OR u))"
proof -
  have idx: "(B - 1) * 8 + 7 = 8 * B - 1" using assms(1) by (cases B) auto
  have msb: "(ucast (drop_bit ((B - 1) * 8) u) :: u8) AND 0x80 \<noteq> 0 \<longleftrightarrow> bit u (8 * B - 1)"
    by (simp add: byte_msb bit_ucast_byte bit_drop_bit_eq idx [unfolded One_nat_def])
  have mask: "(scast (push_bit (B * 8) (1 :: c_int) - 1) :: 'w word) = mask (8 * B)" if "B < 4"
    using that by (intro bit_word_eqI) (simp add: bit_used_mask bit_mask_iff mult.commute)
  show ?thesis
    using assms(2) msb mask by (auto simp: SignExtend_def Let_def)
qed

lemma fits_bits:
  fixes v :: "'w::len word"
  assumes "- (2 ^ (8 * B - 1)) \<le> sint v" "sint v < 2 ^ (8 * B - 1)" "8 * B - 1 \<le> n" "n < LENGTH('w)"
  shows "bit v n = bit v (8 * B - 1)"
proof -
  have "signed_take_bit (8 * B - 1) (sint v) = sint v"
    using assms(1,2) by (intro signed_take_bit_int_eq_self) auto
  then have "bit (sint v) n = bit (sint v) (8 * B - 1)"
    using assms(3) bit_signed_take_bit_iff [of "8 * B - 1" "sint v" n] by (simp add: min_absorb1)
  then show ?thesis using assms(3,4) by (simp add: bit_sint_iff min_def)
qed

lemma signed_read_of_take_bit:
  fixes v :: "'w::len word"
  assumes "0 < B" "8 * B \<le> LENGTH('w)" "- (2 ^ (8 * B - 1)) \<le> sint v" "sint v < 2 ^ (8 * B - 1)"
  shows "(if B < LENGTH('w) div 8 then SignExtend B (take_bit (8 * B) v) else Inr (take_bit (8 * B) v)) =
    (if B < LENGTH('w) div 8 \<and> 4 \<le> B \<and> sint v < 0 then Inl ShiftTooWide
     else if B < LENGTH('w) div 8 then Inr v else Inr (take_bit (8 * B) v))"
proof (cases "B < LENGTH('w) div 8")
  case True
  have top: "bit v n = bit v (8 * B - 1)" if "8 * B - 1 \<le> n" "n < LENGTH('w)" for n
    using fits_bits [OF assms(3,4) that] .
  have "sint v < 0 \<longleftrightarrow> bit v (LENGTH('w) - 1)"
    by (simp add: bit_last_iff)
  also have "\<dots> \<longleftrightarrow> bit v (8 * B - 1)"
    using assms(1,2) by (intro top) (auto simp: diff_le_mono)
  finally have sign: "sint v < 0 \<longleftrightarrow> bit v (8 * B - 1)" .
  have "take_bit (8 * B) v = v" if "\<not> bit v (8 * B - 1)"
  proof (rule bit_word_eqI)
    fix n assume "n < LENGTH('w)"
    then show "bit (take_bit (8 * B) v) n = bit v n"
      using that top [of n] by (cases "n < 8 * B") (auto simp: bit_take_bit_iff)
  qed
  moreover have "NOT (mask (8 * B)) OR take_bit (8 * B) v = v" if "bit v (8 * B - 1)"
  proof (rule bit_word_eqI)
    fix n assume "n < LENGTH('w)"
    then show "bit (NOT (mask (8 * B)) OR take_bit (8 * B) v) n = bit v n"
      using that top [of n] by (cases "n < 8 * B") (auto simp: bit_take_bit_iff bit_or_iff bit_not_iff bit_mask_iff)
  qed
  moreover have "bit (take_bit (8 * B) v) (8 * B - 1) \<longleftrightarrow> bit v (8 * B - 1)"
    using assms(1) by (auto simp: bit_take_bit_iff)
  ultimately show ?thesis using True sign assms(1) by (simp add: SignExtend_eq)
qed simp

lemma take_bit_full: "take_bit n (v :: 'w::len word) = v" if "LENGTH('w) \<le> n"
  using that by (rule take_bit_word_eq_self)

text \<open>
  Signed round trip: a number that fits \<open>B\<close> bytes is read back after it was written, in either
  byte order, for every width and every \<open>B\<close> that compiles, with one exception: a negative number in
  four or more bytes of a wider type makes \<open>SignExtend\<close> shift an \<open>int\<close> by 32 bits or more, which is
  undefined.
\<close>

theorem byte_io_signed_roundtrip:
  fixes v :: "'w::len word"
  assumes "compiles B (LENGTH('w) div 8)" "0 < B" "B \<le> length data" "LENGTH('w) mod 8 = 0"
    "- (2 ^ (8 * B - 1)) \<le> sint v" "sint v < 2 ^ (8 * B - 1)"
  shows "rbind (WriteBigEndianSigned B data v) (ReadBigEndianSigned B) =
      (if B < LENGTH('w) div 8 \<and> 4 \<le> B \<and> sint v < 0 then Inl ShiftTooWide else Inr v) \<and>
    rbind (WriteLittleEndianSigned B data v) (ReadLittleEndianSigned B) =
      (if B < LENGTH('w) div 8 \<and> 4 \<le> B \<and> sint v < 0 then Inl ShiftTooWide else Inr v)"
proof -
  note fits = compiles_fits [OF assms(1)]
  have full: "take_bit (8 * B) v = v" if "\<not> B < LENGTH('w) div 8"
    using that assms(4) by (intro take_bit_full) auto
  show ?thesis
    using assms(1,3) signed_read_of_take_bit [OF assms(2) fits assms(5,6)] full
      read_write_big [OF assms(3) fits, of v] read_write_little [OF assms(3) fits, of v]
    by (auto simp: WriteBigEndianSigned_def WriteLittleEndianSigned_def ReadBigEndianSigned_def
        ReadLittleEndianSigned_def ReinterpretAsUnsigned_def ReinterpretAsSigned_id WriteBigEndian_eq
        WriteLittleEndian_eq ReadBigEndian_eq ReadLittleEndian_eq write_big_nth write_little_nth)
qed

theorem byte_io_signed_roundtrip_witness:
  "rbind (WriteBigEndianSigned 3 [0, 0, 0] (- 2 :: 32 word)) (ReadBigEndianSigned 3) = Inr (- 2 :: 32 word) \<and>
   rbind (WriteBigEndianSigned 5 [0, 0, 0, 0, 0] (- 2 :: 64 word)) (ReadBigEndianSigned 5) =
     (Inl ShiftTooWide :: 64 word res)"
  using byte_io_signed_roundtrip [of 3 "[0, 0, 0]" "- 2 :: 32 word"]
    byte_io_signed_roundtrip [of 5 "[0, 0, 0, 0, 0]" "- 2 :: 64 word"]
  by (simp add: compiles_def)

end
