(* ===== verification/Buffer.thy ===== *)
theory Buffer
  imports Prelude
begin

text \<open>
  rtc_base/buffer.h: the class \<open>BufferT\<close> with both values of its template argument \<open>ZeroOnFree\<close> (the
  argument \<open>zof\<close>). A heap block is the list of its cells; a cell is \<open>None\<close> while it was never written
  (\<open>new T[n]\<close> does not initialise) and \<open>Some x\<close> afterwards. The field \<open>freed\<close> records the contents of
  every block at the moment it is released, so that clearing before release can be stated. The zero
  value of \<open>T\<close> is the argument \<open>z\<close>. Sizes are natural numbers: a \<open>size_t\<close> sum can only wrap for
  blocks larger than the address space, whose allocation fails first.
\<close>

section \<open>State\<close>

record 'a buffer =
  bsize :: nat
  bcap :: nat
  bdata :: "'a option list option"
  freed :: "'a option list list"

definition IsConsistent :: "'a buffer \<Rightarrow> bool" where
  "IsConsistent b \<longleftrightarrow> (bdata b \<noteq> None \<or> bcap b = 0) \<and> bsize b \<le> bcap b"

definition cells :: "'a buffer \<Rightarrow> 'a option list" where
  "cells b = (case bdata b of None \<Rightarrow> [] | Some cs \<Rightarrow> cs)"

text \<open>\<open>memcpy\<close> and \<open>ExplicitZeroMemory\<close> on a block: overwrite cells from an offset on.\<close>

definition overwrite :: "nat \<Rightarrow> 'a option list \<Rightarrow> 'a option list \<Rightarrow> 'a option list" where
  "overwrite off xs cs = take off cs @ xs @ drop (off + length xs) cs"

definition write_cells :: "nat \<Rightarrow> 'a option list \<Rightarrow> 'a buffer \<Rightarrow> 'a buffer res" where
  "write_cells off xs b =
     guardr OutOfRange (off + length xs \<le> length (cells b))
       (Inr (case bdata b of None \<Rightarrow> b | Some cs \<Rightarrow> b\<lparr>bdata := Some (overwrite off xs cs)\<rparr>))"

text \<open>The assignment \<open>data_ = p\<close> of a \<open>unique_ptr\<close> releases the block it held.\<close>

definition set_data_ptr :: "'a option list option \<Rightarrow> 'a buffer \<Rightarrow> 'a buffer" where
  "set_data_ptr p b =
     b\<lparr>bdata := p, freed := freed b @ (case bdata b of None \<Rightarrow> [] | Some cs \<Rightarrow> [cs])\<rparr>"

section \<open>Private methods\<close>

definition MaybeZeroCompleteBuffer :: "bool \<Rightarrow> 'a \<Rightarrow> 'a buffer \<Rightarrow> 'a buffer res" where
  "MaybeZeroCompleteBuffer zof z b =
     (if zof \<and> bcap b > 0 then write_cells 0 (replicate (bcap b) (Some z)) b else Inr b)"

definition ZeroTrailingData :: "'a \<Rightarrow> nat \<Rightarrow> 'a buffer \<Rightarrow> 'a buffer res" where
  "ZeroTrailingData z count b =
     dcheck (IsConsistent b) (dcheck (count \<le> bcap b - bsize b)
       (write_cells (bsize b) (replicate count (Some z)) b))"

definition OnMovedFrom :: "'a buffer \<Rightarrow> 'a buffer res" where
  "OnMovedFrom b = dcheck (bdata b = None) (Inr (b\<lparr>bsize := 1, bcap := 0\<rparr>))"

definition EnsureCapacityWithHeadroom :: "bool \<Rightarrow> 'a \<Rightarrow> nat \<Rightarrow> bool \<Rightarrow> 'a buffer \<Rightarrow> 'a buffer res" where
  "EnsureCapacityWithHeadroom zof z capacity extra_headroom b =
     dcheck (IsConsistent b)
       (if capacity \<le> bcap b then Inr b
        else
          let new_capacity = (if extra_headroom then max capacity (bcap b + bcap b div 2) else capacity);
              new_data = replicate new_capacity None;
              new_data = (case bdata b of None \<Rightarrow> new_data
                          | Some cs \<Rightarrow> overwrite 0 (take (bsize b) cs) new_data)
          in rbind (MaybeZeroCompleteBuffer zof z b) (\<lambda>b.
             let b = (set_data_ptr (Some new_data) b)\<lparr>bcap := new_capacity\<rparr>
             in dcheck (IsConsistent b) (Inr b)))"

section \<open>Construction, move, destruction\<close>

definition Buffer_empty :: "'a buffer" where
  "Buffer_empty = \<lparr>bsize = 0, bcap = 0, bdata = None, freed = []\<rparr>"

definition Buffer_sized :: "nat \<Rightarrow> nat \<Rightarrow> 'a buffer res" where
  "Buffer_sized n capacity =
     (let cap = max n capacity;
          b = \<lparr>bsize = n, bcap = cap,
               bdata = (if cap > 0 then Some (replicate cap None) else None), freed = []\<rparr>
      in dcheck (IsConsistent b) (Inr b))"

definition Buffer_copy :: "'a list \<Rightarrow> nat \<Rightarrow> 'a buffer res" where
  "Buffer_copy data capacity =
     rbind (Buffer_sized (length data) capacity) (write_cells 0 (map Some data))"

definition Buffer_move :: "'a buffer \<Rightarrow> ('a buffer \<times> 'a buffer) res" where
  "Buffer_move buf =
     dcheck (IsConsistent buf)
       (let b = \<lparr>bsize = bsize buf, bcap = bcap buf, bdata = bdata buf, freed = []\<rparr>
        in dcheck (IsConsistent b)
          (rbind (OnMovedFrom (buf\<lparr>bdata := None\<rparr>)) (\<lambda>buf. Inr (b, buf))))"

definition Buffer_destroy :: "bool \<Rightarrow> 'a \<Rightarrow> 'a buffer \<Rightarrow> 'a buffer res" where
  "Buffer_destroy zof z b = rbind (MaybeZeroCompleteBuffer zof z b) (\<lambda>b. Inr (set_data_ptr None b))"

definition move_assign :: "bool \<Rightarrow> 'a \<Rightarrow> 'a buffer \<Rightarrow> 'a buffer \<Rightarrow> ('a buffer \<times> 'a buffer) res" where
  "move_assign zof z this buf =
     dcheck (IsConsistent buf)
       (rbind (MaybeZeroCompleteBuffer zof z this) (\<lambda>this.
        let old = bdata this;
            this = this\<lparr>bsize := bsize buf, bcap := bcap buf, bdata := bdata buf\<rparr>;
            buf = set_data_ptr None (buf\<lparr>bdata := old\<rparr>)
        in rbind (OnMovedFrom buf) (\<lambda>buf. Inr (this, buf))))"

section \<open>Observers\<close>

definition buf_empty :: "'a buffer \<Rightarrow> bool res" where
  "buf_empty b = dcheck (IsConsistent b) (Inr (bsize b = 0))"

definition buf_size :: "'a buffer \<Rightarrow> nat res" where
  "buf_size b = dcheck (IsConsistent b) (Inr (bsize b))"

definition buf_capacity :: "'a buffer \<Rightarrow> nat res" where
  "buf_capacity b = dcheck (IsConsistent b) (Inr (bcap b))"

definition buf_index :: "'a buffer \<Rightarrow> nat \<Rightarrow> 'a option res" where
  "buf_index b index = dcheck (index < bsize b) (dcheck (IsConsistent b) (Inr (cells b ! index)))"

definition buf_eq :: "'a buffer \<Rightarrow> 'a buffer \<Rightarrow> bool res" where
  "buf_eq b buf =
     dcheck (IsConsistent b)
       (if bsize b \<noteq> bsize buf then Inr False
        else Inr (list_all (\<lambda>i. cells b ! i = cells buf ! i) [0..<bsize b]))"

section \<open>Modifiers\<close>

definition SetSize :: "bool \<Rightarrow> 'a \<Rightarrow> nat \<Rightarrow> 'a buffer \<Rightarrow> 'a buffer res" where
  "SetSize zof z n b =
     (let old_size = bsize b in
      rbind (EnsureCapacityWithHeadroom zof z n True b) (\<lambda>b.
      let b = b\<lparr>bsize := n\<rparr> in
      if zof \<and> bsize b < old_size then ZeroTrailingData z (old_size - bsize b) b else Inr b))"

definition EnsureCapacity :: "bool \<Rightarrow> 'a \<Rightarrow> nat \<Rightarrow> 'a buffer \<Rightarrow> 'a buffer res" where
  "EnsureCapacity zof z capacity b = EnsureCapacityWithHeadroom zof z capacity False b"

definition AppendData :: "bool \<Rightarrow> 'a \<Rightarrow> 'a list \<Rightarrow> 'a buffer \<Rightarrow> 'a buffer res" where
  "AppendData zof z data b =
     dcheck (IsConsistent b)
       (let new_size = bsize b + length data in
        rbind (EnsureCapacityWithHeadroom zof z new_size True b) (\<lambda>b.
        rbind (write_cells (bsize b) (map Some data) b) (\<lambda>b.
        let b = b\<lparr>bsize := new_size\<rparr> in dcheck (IsConsistent b) (Inr b))))"

definition AppendData_item :: "bool \<Rightarrow> 'a \<Rightarrow> 'a \<Rightarrow> 'a buffer \<Rightarrow> 'a buffer res" where
  "AppendData_item zof z item = AppendData zof z [item]"

definition SetData :: "bool \<Rightarrow> 'a \<Rightarrow> 'a list \<Rightarrow> 'a buffer \<Rightarrow> 'a buffer res" where
  "SetData zof z data b =
     dcheck (IsConsistent b)
       (let old_size = bsize b in
        rbind (AppendData zof z data (b\<lparr>bsize := 0\<rparr>)) (\<lambda>b.
        if zof \<and> bsize b < old_size then ZeroTrailingData z (old_size - bsize b) b else Inr b))"

text \<open>
  The overloads with a setter: it receives the view of the cells and returns the cells it leaves
  there together with the number of elements it claims to have written.
\<close>

definition AppendData_setter ::
  "bool \<Rightarrow> 'a \<Rightarrow> nat \<Rightarrow> ('a option list \<Rightarrow> 'a option list \<times> nat) \<Rightarrow> 'a buffer \<Rightarrow> (nat \<times> 'a buffer) res" where
  "AppendData_setter zof z max_elements setter b =
     dcheck (IsConsistent b)
       (let old_size = bsize b in
        rbind (SetSize zof z (old_size + max_elements) b) (\<lambda>b.
        dcheck (IsConsistent b)
          (case setter (take max_elements (drop old_size (cells b))) of (view, written_elements) \<Rightarrow>
             rbind (write_cells old_size (take max_elements view) b) (\<lambda>b.
             check (written_elements \<le> max_elements)
               (let b = b\<lparr>bsize := old_size + written_elements\<rparr>
                in dcheck (IsConsistent b) (Inr (written_elements, b)))))))"

definition SetData_setter ::
  "bool \<Rightarrow> 'a \<Rightarrow> nat \<Rightarrow> ('a option list \<Rightarrow> 'a option list \<times> nat) \<Rightarrow> 'a buffer \<Rightarrow> (nat \<times> 'a buffer) res" where
  "SetData_setter zof z max_elements setter b =
     dcheck (IsConsistent b)
       (let old_size = bsize b in
        rbind (AppendData_setter zof z max_elements setter (b\<lparr>bsize := 0\<rparr>)) (\<lambda>(written, b).
        if zof \<and> bsize b < old_size
        then rbind (ZeroTrailingData z (old_size - bsize b) b) (\<lambda>b. Inr (written, b))
        else Inr (written, b)))"

definition Clear :: "bool \<Rightarrow> 'a \<Rightarrow> 'a buffer \<Rightarrow> 'a buffer res" where
  "Clear zof z b =
     rbind (MaybeZeroCompleteBuffer zof z b) (\<lambda>b.
     let b = b\<lparr>bsize := 0\<rparr> in dcheck (IsConsistent b) (Inr b))"

definition buf_swap :: "'a buffer \<Rightarrow> 'a buffer \<Rightarrow> 'a buffer \<times> 'a buffer" where
  "buf_swap a b =
     (a\<lparr>bsize := bsize b, bcap := bcap b, bdata := bdata b\<rparr>,
      b\<lparr>bsize := bsize a, bcap := bcap a, bdata := bdata a\<rparr>)"

section \<open>The invariant\<close>

text \<open>
  \<open>wf_buffer\<close>: the block has exactly the recorded capacity, and with \<open>ZeroOnFree\<close> every released
  block was cleared and no cell behind the size holds anything but zero.
\<close>

definition contents :: "'a buffer \<Rightarrow> 'a option list" where
  "contents b = take (bsize b) (cells b)"

definition blank :: "'a \<Rightarrow> 'a option \<Rightarrow> bool" where
  "blank z c \<longleftrightarrow> c = None \<or> c = Some z"

definition tail_blank :: "'a \<Rightarrow> nat \<Rightarrow> 'a buffer \<Rightarrow> bool" where
  "tail_blank z k b \<longleftrightarrow> list_all (blank z) (drop k (cells b))"

definition freed_zero :: "'a \<Rightarrow> 'a buffer \<Rightarrow> bool" where
  "freed_zero z b \<longleftrightarrow> list_all (list_all (\<lambda>c. c = Some z)) (freed b)"

definition shape :: "'a buffer \<Rightarrow> bool" where
  "shape b \<longleftrightarrow> bsize b \<le> bcap b \<and> length (cells b) = bcap b \<and>
     (bdata b = None \<longleftrightarrow> bcap b = 0)"

definition wf_buffer :: "bool \<Rightarrow> 'a \<Rightarrow> 'a buffer \<Rightarrow> bool" where
  "wf_buffer zof z b \<longleftrightarrow> shape b \<and> (zof \<longrightarrow> freed_zero z b \<and> tail_blank z (bsize b) b)"

section \<open>Blocks\<close>

lemma length_overwrite [simp]: "off + length xs \<le> length cs \<Longrightarrow> length (overwrite off xs cs) = length cs"
  by (simp add: overwrite_def)

lemma drop_overwrite:
  "off + length xs \<le> length cs \<Longrightarrow> off + length xs \<le> k \<Longrightarrow> drop k (overwrite off xs cs) = drop k cs"
  by (simp add: overwrite_def drop_append)

lemma take_overwrite:
  "off + length xs \<le> length cs \<Longrightarrow> take (off + length xs) (overwrite off xs cs) = take off cs @ xs"
  by (simp add: overwrite_def)

lemma shape_consistent: "shape b \<Longrightarrow> IsConsistent b"
  by (auto simp: shape_def IsConsistent_def)

lemma cells_simps [simp]:
  "cells (b\<lparr>bsize := n\<rparr>) = cells b" "cells (b\<lparr>bcap := n\<rparr>) = cells b" "cells (b\<lparr>freed := f\<rparr>) = cells b"
  "cells (b\<lparr>bdata := Some cs\<rparr>) = cs" "cells (b\<lparr>bdata := None\<rparr>) = []"
  by (simp_all add: cells_def)

lemma write_cells_ok:
  assumes "shape b" "off + length xs \<le> bcap b"
  shows "\<exists>b'. write_cells off xs b = Inr b' \<and> shape b' \<and> cells b' = overwrite off xs (cells b) \<and>
    bsize b' = bsize b \<and> bcap b' = bcap b \<and> freed b' = freed b"
proof (cases "bdata b")
  case None
  then show ?thesis using assms by (auto simp: write_cells_def shape_def cells_def overwrite_def)
next
  case (Some cs)
  then have "cells b = cs" by (simp add: cells_def)
  then show ?thesis using assms Some by (auto simp: write_cells_def shape_def)
qed

lemma shape_resize: "shape b \<Longrightarrow> n \<le> bcap b \<Longrightarrow> shape (b\<lparr>bsize := n\<rparr>)"
  by (simp add: shape_def)

lemma MaybeZero_ok:
  assumes "shape b"
  shows "\<exists>b'. MaybeZeroCompleteBuffer zof z b = Inr b' \<and> shape b' \<and> bsize b' = bsize b \<and> bcap b' = bcap b \<and>
    freed b' = freed b \<and> cells b' = (if zof then replicate (bcap b) (Some z) else cells b)"
proof (cases "zof \<and> bcap b > 0")
  case True
  have "overwrite 0 (replicate (bcap b) (Some z)) (cells b) = replicate (bcap b) (Some z)"
    using assms by (simp add: overwrite_def shape_def)
  then show ?thesis
    using True write_cells_ok [OF assms, of 0 "replicate (bcap b) (Some z)"]
    by (auto simp: MaybeZeroCompleteBuffer_def)
next
  case False
  then show ?thesis using assms by (auto simp: MaybeZeroCompleteBuffer_def shape_def)
qed

text \<open>What every caller needs to know of a growth of the capacity.\<close>

definition grown :: "bool \<Rightarrow> 'a \<Rightarrow> nat \<Rightarrow> 'a buffer \<Rightarrow> 'a buffer \<Rightarrow> bool" where
  "grown zof z capacity b b' \<longleftrightarrow> shape b' \<and> bsize b' = bsize b \<and> capacity \<le> bcap b' \<and> bcap b \<le> bcap b' \<and>
     contents b' = contents b \<and> (zof \<longrightarrow> freed_zero z b \<longrightarrow> freed_zero z b') \<and>
     (\<forall>k \<ge> bsize b. tail_blank z k b \<longrightarrow> tail_blank z k b') \<and> (capacity \<le> bcap b \<longrightarrow> b' = b)"

lemma Ensure_ok:
  assumes "shape b"
  shows "\<exists>b'. EnsureCapacityWithHeadroom zof z capacity h b = Inr b' \<and> grown zof z capacity b b' \<and>
    (bcap b < capacity \<longrightarrow> bcap b' = (if h then max capacity (bcap b + bcap b div 2) else capacity))"
proof (cases "capacity \<le> bcap b")
  case True
  then show ?thesis
    using assms shape_consistent [OF assms] by (auto simp: EnsureCapacityWithHeadroom_def grown_def)
next
  case False
  define nc where "nc = (if h then max capacity (bcap b + bcap b div 2) else capacity)"
  have nc: "capacity \<le> nc" "bcap b < nc" "h \<longrightarrow> bcap b + bcap b div 2 \<le> nc"
    using False by (auto simp: nc_def)
  obtain b1 where b1: "MaybeZeroCompleteBuffer zof z b = Inr b1" "shape b1" "bsize b1 = bsize b"
    "bcap b1 = bcap b" "freed b1 = freed b" "cells b1 = (if zof then replicate (bcap b) (Some z) else cells b)"
    using MaybeZero_ok [OF assms] by blast
  define nd where "nd = take (bsize b) (cells b) @ replicate (nc - bsize b) (None :: 'a option)"
  have nd: "(case bdata b of None \<Rightarrow> replicate nc None | Some cs \<Rightarrow> overwrite 0 (take (bsize b) cs) (replicate nc None)) = nd"
    using assms by (auto simp: nd_def overwrite_def cells_def shape_def split: option.splits)
  have len: "length nd = nc" using assms nc by (simp add: nd_def shape_def)
  define b2 where "b2 = (set_data_ptr (Some nd) b1)\<lparr>bcap := nc\<rparr>"
  have b2: "cells b2 = nd" "bsize b2 = bsize b" "bcap b2 = nc" "bdata b2 = Some nd"
    "freed b2 = freed b @ (case bdata b1 of None \<Rightarrow> [] | Some cs \<Rightarrow> [cs])"
    by (simp_all add: b2_def set_data_ptr_def cells_def b1)
  have sh: "shape b2" using assms nc len by (simp add: shape_def b2)
  have "EnsureCapacityWithHeadroom zof z capacity h b = Inr b2"
    using False b1(1) shape_consistent [OF assms] shape_consistent [OF sh] nd
    by (simp add: EnsureCapacityWithHeadroom_def Let_def nc_def [symmetric] b2_def)
  moreover have "freed_zero z b2" if "zof" "freed_zero z b"
  proof (cases "bdata b1")
    case (Some cs)
    then have "cs = replicate (bcap b) (Some z)" using b1(6) that(1) by (simp add: cells_def)
    then show ?thesis using that Some by (simp add: freed_zero_def b2 list_all_iff)
  qed (use that in \<open>simp add: freed_zero_def b2\<close>)
  moreover have "tail_blank z k b2" if "bsize b \<le> k" for k
    using that assms by (auto simp: tail_blank_def b2 nd_def shape_def list_all_iff blank_def dest: in_set_dropD)
  moreover have "contents b2 = contents b" using assms by (simp add: contents_def b2 nd_def shape_def)
  ultimately show ?thesis using False nc sh by (auto simp: grown_def b2 nc_def)
qed

section \<open>The operations\<close>

lemma tail_blank_mono: "tail_blank z k b \<Longrightarrow> k \<le> l \<Longrightarrow> tail_blank z l b"
  unfolding tail_blank_def by (metis drop_drop in_set_dropD le_add_diff_inverse2 list_all_iff)

lemma tail_blank_resize [simp]: "tail_blank z k (b\<lparr>bsize := n\<rparr>) = tail_blank z k b"
  "freed_zero z (b\<lparr>bsize := n\<rparr>) = freed_zero z b"
  by (simp_all add: tail_blank_def freed_zero_def)

lemma shape_cells: "shape b \<Longrightarrow> length (cells b) = bcap b" "shape b \<Longrightarrow> bsize b \<le> bcap b"
  by (simp_all add: shape_def)

lemma AppendData_gen:
  assumes "shape b"
  shows "\<exists>b'. AppendData zof z xs b = Inr b' \<and> shape b' \<and> bsize b' = bsize b + length xs \<and>
    contents b' = contents b @ map Some xs \<and> (zof \<longrightarrow> freed_zero z b \<longrightarrow> freed_zero z b') \<and>
    bcap b \<le> bcap b' \<and> (\<forall>k \<ge> bsize b'. tail_blank z k b \<longrightarrow> tail_blank z k b') \<and>
    (bcap b' = bcap b \<or> bcap b < bsize b' \<and> bcap b' = max (bsize b') (bcap b + bcap b div 2))"
proof -
  let ?n = "bsize b + length xs"
  obtain b1 where b1: "EnsureCapacityWithHeadroom zof z ?n True b = Inr b1" "grown zof z ?n b b1"
    "bcap b < ?n \<longrightarrow> bcap b1 = max ?n (bcap b + bcap b div 2)"
    using Ensure_ok [OF assms, of zof z ?n True] by auto
  then have g: "shape b1" "bsize b1 = bsize b" "?n \<le> bcap b1" "bcap b \<le> bcap b1" "contents b1 = contents b"
    "zof \<longrightarrow> freed_zero z b \<longrightarrow> freed_zero z b1" "\<And>k. bsize b \<le> k \<Longrightarrow> tail_blank z k b \<Longrightarrow> tail_blank z k b1"
    by (auto simp: grown_def)
  obtain b2 where b2: "write_cells (bsize b1) (map Some xs) b1 = Inr b2" "shape b2"
    "cells b2 = overwrite (bsize b1) (map Some xs) (cells b1)" "bsize b2 = bsize b1" "bcap b2 = bcap b1"
    "freed b2 = freed b1"
    using write_cells_ok [OF g(1), of "bsize b1" "map Some xs"] g by auto
  let ?b3 = "b2\<lparr>bsize := ?n\<rparr>"
  have sh: "shape ?b3" using b2 g by (intro shape_resize) auto
  have fit: "bsize b + length (map Some xs) \<le> length (cells b1)" using g by (simp add: shape_cells)
  have "contents ?b3 = contents b @ map Some xs"
    using take_overwrite [OF fit] g(5) by (simp add: contents_def b2 g)
  moreover have "tail_blank z k ?b3" if "?n \<le> k" "tail_blank z k b" for k
    using g(7) [of k] that drop_overwrite [OF fit, of k] by (simp add: tail_blank_def b2 g)
  moreover have "AppendData zof z xs b = Inr ?b3"
    using b1(1) b2(1) shape_consistent [OF assms] shape_consistent [OF sh] by (simp add: AppendData_def)
  moreover have "zof \<longrightarrow> freed_zero z b \<longrightarrow> freed_zero z ?b3" using g(6) b2(6) by (simp add: freed_zero_def)
  moreover have "bcap ?b3 = bcap b \<or> bcap b < ?n \<and> bcap ?b3 = max ?n (bcap b + bcap b div 2)"
    using b1(2,3) b2(5) by (auto simp: grown_def)
  ultimately show ?thesis using sh g b2 by auto
qed

lemma ZeroTrailing_ok:
  assumes "shape b" "count \<le> bcap b - bsize b"
  shows "\<exists>b'. ZeroTrailingData z count b = Inr b' \<and> shape b' \<and> bsize b' = bsize b \<and> bcap b' = bcap b \<and>
    contents b' = contents b \<and> freed b' = freed b \<and>
    (tail_blank z (bsize b + count) b \<longrightarrow> tail_blank z (bsize b) b')"
proof -
  have fit: "bsize b + length (replicate count (Some z)) \<le> bcap b"
    using assms(2) shape_cells(2) [OF assms(1)] by simp
  obtain b' where b': "write_cells (bsize b) (replicate count (Some z)) b = Inr b'" "shape b'"
    "cells b' = overwrite (bsize b) (replicate count (Some z)) (cells b)" "bsize b' = bsize b" "bcap b' = bcap b"
    "freed b' = freed b"
    using write_cells_ok [OF assms(1) fit] by blast
  have "contents b' = contents b" using assms fit by (simp add: contents_def b' overwrite_def shape_def)
  moreover have "tail_blank z (bsize b) b'" if "tail_blank z (bsize b + count) b"
    using that assms by (auto simp: tail_blank_def b' overwrite_def shape_def blank_def list_all_iff)
  ultimately show ?thesis
    using b' assms shape_consistent [OF assms(1)] by (simp add: ZeroTrailingData_def)
qed

lemma wf_simps: "wf_buffer zof z b \<longleftrightarrow> shape b \<and> (zof \<longrightarrow> freed_zero z b \<and> tail_blank z (bsize b) b)"
  by (simp add: wf_buffer_def)

lemma AppendData_ok:
  assumes "wf_buffer zof z b"
  shows "\<exists>b'. AppendData zof z xs b = Inr b' \<and> wf_buffer zof z b' \<and> contents b' = contents b @ map Some xs \<and>
    (2 * bcap b \<le> 3 * bsize b \<longrightarrow> 2 * bcap b' \<le> 3 * bsize b')"
proof -
  have sh: "shape b" using assms by (simp add: wf_simps)
  obtain b' where b': "AppendData zof z xs b = Inr b'" "shape b'" "bsize b' = bsize b + length xs"
    "contents b' = contents b @ map Some xs" "zof \<longrightarrow> freed_zero z b \<longrightarrow> freed_zero z b'" "bcap b \<le> bcap b'"
    "\<forall>k \<ge> bsize b'. tail_blank z k b \<longrightarrow> tail_blank z k b'"
    "bcap b' = bcap b \<or> bcap b < bsize b' \<and> bcap b' = max (bsize b') (bcap b + bcap b div 2)"
    using AppendData_gen [OF sh, of zof z xs] by blast
  have "2 * bcap b' \<le> 3 * bsize b'" if "2 * bcap b \<le> 3 * bsize b"
    using that b'(3,8) by (auto simp: max_def)
  moreover  have "zof \<longrightarrow> tail_blank z (bsize b') b'"
    using assms b'(3,7) tail_blank_mono [of z "bsize b" b "bsize b'"] by (auto simp: wf_simps)
  ultimately show ?thesis using b' assms by (auto simp: wf_simps)
qed

lemma trailing_ok:
  assumes "shape b" "bsize b \<le> old" "old \<le> bcap b" "zof \<longrightarrow> freed_zero z b \<and> tail_blank z old b"
  shows "\<exists>b'. (if zof \<and> bsize b < old then ZeroTrailingData z (old - bsize b) b else Inr b) = Inr b' \<and>
    wf_buffer zof z b' \<and> contents b' = contents b \<and> bsize b' = bsize b \<and> bcap b' = bcap b"
proof (cases "zof \<and> bsize b < old")
  case True
  then have "old - bsize b \<le> bcap b - bsize b" using assms(3) by simp
  from ZeroTrailing_ok [OF assms(1) this, of z] True show ?thesis
    using assms(4) by (auto simp: wf_simps freed_zero_def)
next
  case False
  then have "zof \<longrightarrow> bsize b = old" using assms(2) by auto
  then show ?thesis using assms False by (auto simp: wf_simps)
qed

lemma SetData_ok:
  assumes "wf_buffer zof z b"
  shows "\<exists>b'. SetData zof z xs b = Inr b' \<and> wf_buffer zof z b' \<and> contents b' = map Some xs \<and> bcap b \<le> bcap b'"
proof -
  let ?b0 = "b\<lparr>bsize := 0\<rparr>"
  have sh: "shape b" "shape ?b0" using assms by (auto simp: wf_simps intro: shape_resize)
  obtain b1 where b1: "AppendData zof z xs ?b0 = Inr b1" "shape b1" "bsize b1 = length xs"
    "contents b1 = map Some xs" "zof \<longrightarrow> freed_zero z b \<longrightarrow> freed_zero z b1" "bcap b \<le> bcap b1"
    "\<And>k. length xs \<le> k \<Longrightarrow> tail_blank z k b \<Longrightarrow> tail_blank z k b1"
    using AppendData_gen [OF sh(2), of zof z xs] by (fastforce simp: contents_def)
  have c: "IsConsistent b" using sh(1) by (rule shape_consistent)
  have old: "bsize b \<le> bcap b1" using sh(1) b1(6) by (simp add: shape_def)
  have fr: "zof \<longrightarrow> freed_zero z b1" using b1(5) assms by (simp add: wf_simps)
  have "\<exists>b'. (if zof \<and> bsize b1 < max (bsize b) (length xs)
      then ZeroTrailingData z (max (bsize b) (length xs) - bsize b1) b1 else Inr b1) = Inr b' \<and>
      wf_buffer zof z b' \<and> contents b' = contents b1 \<and> bsize b' = bsize b1 \<and> bcap b' = bcap b1"
  proof (rule trailing_ok [OF b1(2)])
    show "zof \<longrightarrow> freed_zero z b1 \<and> tail_blank z (max (bsize b) (length xs)) b1"
      using fr b1(7) [of "max (bsize b) (length xs)"] assms
        tail_blank_mono [of z "bsize b" b "max (bsize b) (length xs)"] by (auto simp: wf_simps)
  qed (use b1 old shape_cells(2) [OF b1(2)] in auto)
  then show ?thesis using b1 c by (auto simp: SetData_def max_def split: if_splits)
qed

lemma SetSize_ok:
  assumes "wf_buffer zof z b"
  shows "\<exists>b'. SetSize zof z n b = Inr b' \<and> wf_buffer zof z b' \<and> bsize b' = n \<and>
    take (bsize b) (contents b') = take n (contents b)"
proof -
  have sh: "shape b" using assms by (simp add: wf_simps)
  obtain b1 where b1: "EnsureCapacityWithHeadroom zof z n True b = Inr b1" "grown zof z n b b1"
    using Ensure_ok [OF sh] by blast
  then have g: "shape b1" "bsize b1 = bsize b" "n \<le> bcap b1" "contents b1 = contents b"
    "zof \<longrightarrow> freed_zero z b \<longrightarrow> freed_zero z b1" "\<And>k. bsize b \<le> k \<Longrightarrow> tail_blank z k b \<Longrightarrow> tail_blank z k b1"
    by (auto simp: grown_def)
  let ?b2 = "b1\<lparr>bsize := n\<rparr>"
  have sh2: "shape ?b2" using g by (intro shape_resize) auto
  have c: "take (bsize b) (contents ?b2) = take n (contents b)"
    using g(2,4) by (simp add: contents_def min.commute) (metis min.commute take_take)
  have "\<exists>b'. (if zof \<and> bsize ?b2 < max (bsize b) n
      then ZeroTrailingData z (max (bsize b) n - bsize ?b2) ?b2 else Inr ?b2) = Inr b' \<and>
      wf_buffer zof z b' \<and> contents b' = contents ?b2 \<and> bsize b' = bsize ?b2 \<and> bcap b' = bcap ?b2"
  proof (rule trailing_ok [OF sh2])
    show "zof \<longrightarrow> freed_zero z ?b2 \<and> tail_blank z (max (bsize b) n) ?b2"
      using g(5) g(6) [of "max (bsize b) n"] assms tail_blank_mono [of z "bsize b" b "max (bsize b) n"]
      by (auto simp: wf_simps)
  qed (use g shape_cells(2) [OF g(1)] in auto)
  then show ?thesis using b1(1) c by (auto simp: SetSize_def Let_def max_def split: if_splits)
qed

lemma Clear_ok:
  assumes "wf_buffer zof z b"
  shows "\<exists>b'. Clear zof z b = Inr b' \<and> wf_buffer zof z b' \<and> contents b' = [] \<and> bcap b' = bcap b"
proof -
  have sh: "shape b" using assms by (simp add: wf_simps)
  obtain b1 where b1: "MaybeZeroCompleteBuffer zof z b = Inr b1" "shape b1" "bcap b1 = bcap b"
    "freed b1 = freed b" "cells b1 = (if zof then replicate (bcap b) (Some z) else cells b)"
    using MaybeZero_ok [OF sh] by blast
  have "shape (b1\<lparr>bsize := 0\<rparr>)" using b1 by (intro shape_resize) auto
  moreover have "zof \<longrightarrow> freed_zero z (b1\<lparr>bsize := 0\<rparr>) \<and> tail_blank z 0 (b1\<lparr>bsize := 0\<rparr>)"
    using b1 assms by (simp add: wf_simps freed_zero_def tail_blank_def list_all_iff blank_def)
  ultimately show ?thesis
    using b1 by (simp add: Clear_def wf_simps shape_consistent contents_def)
qed

lemma EnsureCapacity_ok:
  assumes "wf_buffer zof z b"
  shows "\<exists>b'. EnsureCapacity zof z n b = Inr b' \<and> wf_buffer zof z b' \<and> contents b' = contents b \<and>
    bcap b' = max n (bcap b)"
proof -
  have sh: "shape b" using assms by (simp add: wf_simps)
  obtain b1 where b1: "EnsureCapacityWithHeadroom zof z n False b = Inr b1" "grown zof z n b b1"
    "bcap b < n \<longrightarrow> bcap b1 = n"
    using Ensure_ok [OF sh, of zof z n False] by auto
  then have "wf_buffer zof z b1" using assms by (auto simp: wf_simps grown_def)
  then show ?thesis using b1 by (auto simp: EnsureCapacity_def grown_def max_def)
qed

text \<open>A setter that returns a view of the same length and leaves the unused space as it was.\<close>

definition setter_ok :: "('a option list \<Rightarrow> 'a option list \<times> nat) \<Rightarrow> bool" where
  "setter_ok f \<longleftrightarrow> (\<forall>v. length (fst (f v)) = length v \<and> drop (snd (f v)) (fst (f v)) = drop (snd (f v)) v)"

lemma AppendData_setter_gen:
  assumes "shape b" "setter_ok f"
  shows "\<exists>v. length v = n \<and>
    (if snd (f v) \<le> n
     then \<exists>b'. AppendData_setter zof z n f b = Inr (snd (f v), b') \<and> shape b' \<and>
       contents b' = contents b @ take (snd (f v)) (fst (f v)) \<and> bsize b' = bsize b + snd (f v) \<and>
       bcap b \<le> bcap b' \<and> (zof \<longrightarrow> freed_zero z b \<longrightarrow> freed_zero z b') \<and>
       (\<forall>k \<ge> bsize b'. tail_blank z k b \<longrightarrow> tail_blank z k b')
     else AppendData_setter zof z n f b = Inl CheckFailed)"
proof -
  let ?m = "bsize b + n"
  obtain b1 where b1: "EnsureCapacityWithHeadroom zof z ?m True b = Inr b1" "grown zof z ?m b b1"
    using Ensure_ok [OF assms(1), of zof z ?m True] by blast
  then have g: "shape b1" "bsize b1 = bsize b" "?m \<le> bcap b1" "contents b1 = contents b" "bcap b \<le> bcap b1"
    "zof \<longrightarrow> freed_zero z b \<longrightarrow> freed_zero z b1" "\<And>k. bsize b \<le> k \<Longrightarrow> tail_blank z k b \<Longrightarrow> tail_blank z k b1"
    by (auto simp: grown_def)
  let ?b2 = "b1\<lparr>bsize := ?m\<rparr>"
  have sh2: "shape ?b2" using g by (intro shape_resize) auto
  have size: "SetSize zof z ?m b = Inr ?b2" using b1(1) g(2) by (simp add: SetSize_def Let_def)
  define v where "v = take n (drop (bsize b) (cells b1))"
  have len: "length v = n" using g by (simp add: v_def shape_cells)
  define w where "w = snd (f v)"
  define u where "u = fst (f v)"
  have u: "length u = n" "drop w u = drop w v" using assms(2) len by (simp_all add: setter_ok_def u_def w_def)
  have fit: "bsize b + length u \<le> bcap ?b2" using g u by simp
  obtain b3 where b3: "write_cells (bsize b) u ?b2 = Inr b3" "shape b3"
    "cells b3 = overwrite (bsize b) u (cells b1)" "bcap b3 = bcap b1" "freed b3 = freed b1"
    using write_cells_ok [OF sh2 fit] by auto
  let ?b4 = "b3\<lparr>bsize := bsize b + w\<rparr>"
  have run: "AppendData_setter zof z n f b =
      check (w \<le> n) (dcheck (IsConsistent ?b4) (Inr (w, ?b4)))"
    using size shape_consistent [OF assms(1)] shape_consistent [OF sh2] b3(1) u(1)
    by (simp add: AppendData_setter_def v_def [symmetric] u_def w_def case_prod_beta Let_def)
  show ?thesis
  proof (cases "w \<le> n")
    case True
    have sh4: "shape ?b4" using b3 g True by (intro shape_resize) auto
    have len1: "bsize b + n \<le> length (cells b1)" using g by (simp add: shape_cells)
    have "contents ?b4 = contents b @ take w u"
    proof -
      have "take (bsize b + w) (overwrite (bsize b) u (cells b1)) = take (bsize b) (cells b1) @ take w u"
        using True u(1) len1 by (simp add: overwrite_def)
      then show ?thesis using g(2,4) b3(3) by (simp add: contents_def)
    qed
    moreover have "tail_blank z k ?b4" if k: "bsize b + w \<le> k" "tail_blank z k b" for k
    proof -
      have "drop k (overwrite (bsize b) u (cells b1)) = drop k (cells b1)"
      proof -
        have "drop (k - bsize b) u = drop (k - bsize b) v"
          using u(2) k(1) by (metis add.commute add_le_imp_le_diff drop_drop le_add_diff_inverse2)
        moreover have "drop (bsize b) (cells b1) = v @ drop (bsize b + n) (cells b1)"
          by (simp add: v_def) (metis add.commute append_take_drop_id drop_drop)
        then have "drop k (cells b1) = drop (k - bsize b) (v @ drop (bsize b + n) (cells b1))"
          using k(1) by (metis add_leD1 drop_drop le_add_diff_inverse2)
        ultimately show ?thesis
          using k(1) u(1) len len1 by (simp add: overwrite_def)
      qed
      then show ?thesis using g(7) [of k] k by (simp add: tail_blank_def b3)
    qed
    moreover have "zof \<longrightarrow> freed_zero z b \<longrightarrow> freed_zero z ?b4" using g(6) b3(5) by (simp add: freed_zero_def)
    ultimately show ?thesis
      using True run sh4 shape_consistent [OF sh4] g(5) b3(4) len
      by (intro exI [of _ v]) (auto simp: w_def u_def)
  next
    case False
    then show ?thesis using run len by (intro exI [of _ v]) (simp add: w_def)
  qed
qed

lemma AppendData_setter_ok:
  assumes "wf_buffer zof z b" "setter_ok f"
  shows "\<exists>v. length v = n \<and>
    (if snd (f v) \<le> n
     then \<exists>b'. AppendData_setter zof z n f b = Inr (snd (f v), b') \<and> wf_buffer zof z b' \<and>
       contents b' = contents b @ take (snd (f v)) (fst (f v))
     else AppendData_setter zof z n f b = Inl CheckFailed)"
proof -
  have "shape b" using assms(1) by (simp add: wf_simps)
  from AppendData_setter_gen [OF this assms(2), of n zof z] obtain v where v: "length v = n"
    "if snd (f v) \<le> n
     then \<exists>b'. AppendData_setter zof z n f b = Inr (snd (f v), b') \<and> shape b' \<and>
       contents b' = contents b @ take (snd (f v)) (fst (f v)) \<and> bsize b' = bsize b + snd (f v) \<and>
       bcap b \<le> bcap b' \<and> (zof \<longrightarrow> freed_zero z b \<longrightarrow> freed_zero z b') \<and>
       (\<forall>k \<ge> bsize b'. tail_blank z k b \<longrightarrow> tail_blank z k b')
     else AppendData_setter zof z n f b = Inl CheckFailed" by blast
  show ?thesis
  proof (cases "snd (f v) \<le> n")
    case True
    then obtain b' where b': "AppendData_setter zof z n f b = Inr (snd (f v), b')" "shape b'"
      "contents b' = contents b @ take (snd (f v)) (fst (f v))" "bsize b' = bsize b + snd (f v)"
      "zof \<longrightarrow> freed_zero z b \<longrightarrow> freed_zero z b'" "\<forall>k \<ge> bsize b'. tail_blank z k b \<longrightarrow> tail_blank z k b'"
      using v(2) by auto
    have "wf_buffer zof z b'"
      using b' assms(1) tail_blank_mono [of z "bsize b" b "bsize b'"] by (auto simp: wf_simps)
    then show ?thesis using v(1) True b' by (intro exI [of _ v]) simp
  next
    case False
    then show ?thesis using v by (intro exI [of _ v]) simp
  qed
qed

section \<open>The contract of a growable sequence\<close>

locale growable =
  fixes inv :: "'b \<Rightarrow> bool" and view :: "'b \<Rightarrow> 'x list" and emb :: "'a \<Rightarrow> 'x"
    and append :: "'a list \<Rightarrow> 'b \<Rightarrow> 'b res"
  assumes append_law: "inv b \<Longrightarrow> \<exists>b'. append xs b = Inr b' \<and> inv b' \<and> view b' = view b @ map emb xs"
begin

fun append_all :: "'a list list \<Rightarrow> 'b \<Rightarrow> 'b res" where
  "append_all [] b = Inr b"
| "append_all (xs # xss) b = rbind (append xs b) (append_all xss)"

lemma append_all_ok:
  "inv b \<Longrightarrow> \<exists>b'. append_all xss b = Inr b' \<and> inv b' \<and> view b' = view b @ map emb (concat xss)"
proof (induction xss arbitrary: b)
  case (Cons xs xss)
  obtain b1 where "append xs b = Inr b1" "inv b1" "view b1 = view b @ map emb xs"
    using append_law [OF Cons.prems] by blast
  then show ?case using Cons.IH [of b1] by auto
qed simp

end

definition lean :: "bool \<Rightarrow> 'a \<Rightarrow> 'a buffer \<Rightarrow> bool" where
  "lean zof z b \<longleftrightarrow> wf_buffer zof z b \<and> 2 * bcap b \<le> 3 * bsize b"

interpretation buf: growable "lean zof z" contents Some "AppendData zof z" for zof z
proof
  fix b :: "'a buffer" and xs
  assume "lean zof z b"
  then show "\<exists>b'. AppendData zof z xs b = Inr b' \<and> lean zof z b' \<and> contents b' = contents b @ map Some xs"
    using AppendData_ok [of zof z b xs] by (auto simp: lean_def)
qed

fun AppendData_chunks :: "bool \<Rightarrow> 'a \<Rightarrow> 'a list list \<Rightarrow> 'a buffer \<Rightarrow> 'a buffer res" where
  "AppendData_chunks zof z [] b = Inr b"
| "AppendData_chunks zof z (xs # xss) b = rbind (AppendData zof z xs b) (AppendData_chunks zof z xss)"

lemma AppendData_chunks_eq: "AppendData_chunks zof z xss = buf.append_all zof z xss"
proof (induction xss)
  case (Cons xs xss)
  show ?case by (rule ext) (simp add: Cons.IH)
qed (rule ext, simp)

section \<open>Properties\<close>

lemma empty_wf: "wf_buffer zof z Buffer_empty" "contents Buffer_empty = []"
  by (simp_all add: wf_simps shape_def Buffer_empty_def cells_def freed_zero_def tail_blank_def contents_def)

text \<open>
  Every modifier of a well-formed buffer succeeds, keeps it well-formed and does to the contents
  what its name says: append at the end, replace, truncate or extend keeping the common prefix,
  reserve without a change, clear keeping the capacity.
\<close>

theorem buffer_modifiers_refine:
  assumes "wf_buffer zof z b"
  shows "(\<exists>b'. AppendData zof z xs b = Inr b' \<and> wf_buffer zof z b' \<and> contents b' = contents b @ map Some xs) \<and>
    (\<exists>b'. SetData zof z xs b = Inr b' \<and> wf_buffer zof z b' \<and> contents b' = map Some xs) \<and>
    (\<exists>b'. SetSize zof z n b = Inr b' \<and> wf_buffer zof z b' \<and> bsize b' = n \<and>
       take (bsize b) (contents b') = take n (contents b)) \<and>
    (\<exists>b'. EnsureCapacity zof z n b = Inr b' \<and> wf_buffer zof z b' \<and> contents b' = contents b \<and>
       bcap b' = max n (bcap b)) \<and>
    (\<exists>b'. Clear zof z b = Inr b' \<and> wf_buffer zof z b' \<and> contents b' = [] \<and> bcap b' = bcap b)"
  using AppendData_ok [OF assms, of xs] SetData_ok [OF assms, of xs] SetSize_ok [OF assms, of n]
    EnsureCapacity_ok [OF assms, of n] Clear_ok [OF assms] by (intro conjI) blast+

theorem buffer_modifiers_refine_witness:
  "\<exists>b'. AppendData True (0 :: u8) [1, 2] Buffer_empty = Inr b' \<and> contents b' = [Some 1, Some 2]"
  using buffer_modifiers_refine [OF empty_wf(1), of True "0 :: u8" "[1, 2]" 0] by (auto simp: empty_wf)

text \<open>
  Appending any number of chunks to an empty buffer never stops, yields their concatenation, and
  the growth by half never reserves more than one and a half times the bytes in use.
\<close>

theorem buffer_append_chunks:
  "\<exists>b. AppendData_chunks zof z chunks Buffer_empty = Inr b \<and> contents b = map Some (concat chunks) \<and>
     2 * bcap b \<le> 3 * bsize b"
proof -
  have "lean zof z Buffer_empty" using empty_wf(1) by (simp add: lean_def Buffer_empty_def)
  from buf.append_all_ok [OF this, of chunks] show ?thesis
    by (auto simp: AppendData_chunks_eq empty_wf lean_def)
qed

text \<open>A program over the modifiers of the buffer.\<close>

datatype 'a buffer_op = OpAppend "'a list" | OpSetData "'a list" | OpSetSize nat | OpEnsure nat | OpClear

fun run_op :: "bool \<Rightarrow> 'a \<Rightarrow> 'a buffer_op \<Rightarrow> 'a buffer \<Rightarrow> 'a buffer res" where
  "run_op zof z (OpAppend xs) = AppendData zof z xs"
| "run_op zof z (OpSetData xs) = SetData zof z xs"
| "run_op zof z (OpSetSize n) = SetSize zof z n"
| "run_op zof z (OpEnsure n) = EnsureCapacity zof z n"
| "run_op zof z OpClear = Clear zof z"

fun run_ops :: "bool \<Rightarrow> 'a \<Rightarrow> 'a buffer_op list \<Rightarrow> 'a buffer \<Rightarrow> 'a buffer res" where
  "run_ops zof z [] b = Inr b"
| "run_ops zof z (p # ps) b = rbind (run_op zof z p b) (run_ops zof z ps)"

lemma run_op_wf: "wf_buffer zof z b \<Longrightarrow> \<exists>b'. run_op zof z p b = Inr b' \<and> wf_buffer zof z b'"
proof (cases p)
  case (OpAppend xs)
  then show "wf_buffer zof z b \<Longrightarrow> ?thesis" using AppendData_ok [of zof z b xs] by auto
next
  case (OpSetData xs)
  then show "wf_buffer zof z b \<Longrightarrow> ?thesis" using SetData_ok [of zof z b xs] by auto
next
  case (OpSetSize n)
  then show "wf_buffer zof z b \<Longrightarrow> ?thesis" using SetSize_ok [of zof z b n] by auto
next
  case (OpEnsure n)
  then show "wf_buffer zof z b \<Longrightarrow> ?thesis" using EnsureCapacity_ok [of zof z b n] by auto
next
  case OpClear
  then show "wf_buffer zof z b \<Longrightarrow> ?thesis" using Clear_ok [of zof z b] by auto
qed

lemma run_ops_wf: "wf_buffer zof z b \<Longrightarrow> \<exists>b'. run_ops zof z ps b = Inr b' \<and> wf_buffer zof z b'"
proof (induction ps arbitrary: b)
  case (Cons p ps)
  obtain b1 where "run_op zof z p b = Inr b1" "wf_buffer zof z b1" using run_op_wf [OF Cons.prems] by blast
  then show ?case using Cons.IH by simp
qed simp

lemma destroy_zero:
  assumes "wf_buffer True z b"
  shows "\<exists>b'. Buffer_destroy True z b = Inr b' \<and> bdata b' = None \<and> freed_zero z b'"
proof -
  have "shape b" using assms by (simp add: wf_simps)
  then obtain b1 where b1: "MaybeZeroCompleteBuffer True z b = Inr b1" "freed b1 = freed b"
    "cells b1 = replicate (bcap b) (Some z)" using MaybeZero_ok [of b True z] by auto
  have "freed_zero z (set_data_ptr None b1)"
    using assms b1 by (auto simp: freed_zero_def set_data_ptr_def wf_simps cells_def list_all_iff split: option.splits)
  then show ?thesis using b1 by (simp add: Buffer_destroy_def set_data_ptr_def)
qed

text \<open>
  C18. The guarantee of \<open>ZeroOnFree\<close>: whatever a buffer went through, once it is destroyed every block
  it ever allocated was cleared completely before its release.
\<close>

theorem zero_on_free:
  "\<exists>b b'. run_ops True z ps Buffer_empty = Inr b \<and> Buffer_destroy True z b = Inr b' \<and>
     bdata b' = None \<and> (\<forall>block \<in> set (freed b'). \<forall>c \<in> set block. c = Some z)"
proof -
  obtain b where b: "run_ops True z ps Buffer_empty = Inr b" "wf_buffer True z b"
    using run_ops_wf [OF empty_wf(1) [of True z], of ps] by blast
  from destroy_zero [OF b(2)] b(1) show ?thesis by (auto simp: freed_zero_def list_all_iff)
qed

theorem zero_on_free_witness:
  "\<exists>b b'. run_ops True (0 :: u8) [OpAppend [7, 8], OpSetSize 1] Buffer_empty = Inr b \<and>
     Buffer_destroy True 0 b = Inr b' \<and> (\<forall>block \<in> set (freed b'). \<forall>c \<in> set block. c = Some 0)"
  using zero_on_free [of "0 :: u8" "[OpAppend [7, 8], OpSetSize 1]"] by blast

text \<open>
  Moving a buffer hands over its block: the new buffer has the contents of the old one without a
  copy, and any use of the old one other than \<open>Clear\<close>, assignment and destruction stops the process;
  \<open>Clear\<close> makes it usable again.
\<close>

theorem buffer_move:
  assumes "wf_buffer zof z b"
  shows "\<exists>b' old. Buffer_move b = Inr (b', old) \<and> bdata b' = bdata b \<and> contents b' = contents b \<and>
    AppendData zof z xs old = Inl DCheckFailed \<and> SetData zof z xs old = Inl DCheckFailed \<and>
    SetSize zof z n old = Inl DCheckFailed \<and> buf_size old = Inl DCheckFailed \<and>
    (\<exists>fresh. Clear zof z old = Inr fresh \<and> wf_buffer zof z fresh \<and> contents fresh = [])"
proof -
  have sh: "shape b" using assms by (simp add: wf_simps)
  let ?new = "\<lparr>bsize = bsize b, bcap = bcap b, bdata = bdata b, freed = []\<rparr>"
  let ?old = "b\<lparr>bdata := None, bsize := 1, bcap := 0\<rparr>"
  have c: "IsConsistent b" "IsConsistent ?new" using sh by (auto simp: shape_def IsConsistent_def)
  have "Buffer_move b = Inr (?new, ?old)" using c by (simp add: Buffer_move_def OnMovedFrom_def)
  moreover have "\<not> IsConsistent ?old" by (simp add: IsConsistent_def)
  then have "AppendData zof z xs ?old = Inl DCheckFailed" "SetData zof z xs ?old = Inl DCheckFailed"
    "SetSize zof z n ?old = Inl DCheckFailed" "buf_size ?old = Inl DCheckFailed"
    by (simp_all add: AppendData_def SetData_def SetSize_def EnsureCapacityWithHeadroom_def buf_size_def)
  moreover have "Clear zof z ?old = Inr (b\<lparr>bdata := None, bsize := 0, bcap := 0\<rparr>)"
    by (simp add: Clear_def MaybeZeroCompleteBuffer_def IsConsistent_def)
  moreover have "wf_buffer zof z (b\<lparr>bdata := None, bsize := 0, bcap := 0\<rparr>)"
    "contents (b\<lparr>bdata := None, bsize := 0, bcap := 0\<rparr>) = []"
    using assms by (simp_all add: wf_simps shape_def freed_zero_def tail_blank_def contents_def cells_def)
  moreover have "bdata ?new = bdata b" "contents ?new = contents b" by (simp_all add: contents_def cells_def)
  ultimately show ?thesis by blast
qed

theorem buffer_move_witness:
  "\<exists>b' old. Buffer_move (Buffer_empty :: u8 buffer) = Inr (b', old) \<and> buf_size old = Inl DCheckFailed"
  using buffer_move [OF empty_wf(1), of False "0 :: u8" "[]" 0] by blast

end
