(* ===== verification/SwapQueue.thy ===== *)
theory SwapQueue
  imports Prelude
begin

text \<open>
  rtc_base/swap_queue.h: the fixed-size queue between one producer and one consumer. Each method is
  the composition of its accesses to the shared state, in the order of the code, and the same pieces
  are the steps of a machine in which producer and consumer run concurrently, one access at a time
  (the acquire and release orderings of the code make an interleaving of the accesses the right
  picture). The item verifier is the argument \<open>ver\<close>; the pointer arguments are not null.
\<close>

section \<open>State and methods\<close>

record 'a swap_queue =
  queue :: "'a list"
  next_write_index :: nat
  next_read_index :: nat
  num_elements :: nat

definition VerifyQueueSlots :: "('a \<Rightarrow> bool) \<Rightarrow> 'a list \<Rightarrow> bool res" where
  "VerifyQueueSlots ver q = dcheck (list_all ver q) (Inr True)"

definition SwapQueue_new :: "('a \<Rightarrow> bool) \<Rightarrow> nat \<Rightarrow> 'a \<Rightarrow> 'a swap_queue res" where
  "SwapQueue_new ver n prototype =
     rbind (VerifyQueueSlots ver (replicate n prototype)) (\<lambda>ok.
     dcheck ok (Inr \<lparr>queue = replicate n prototype, next_write_index = 0, next_read_index = 0,
       num_elements = 0\<rparr>))"

definition Clear :: "'a swap_queue \<Rightarrow> 'a swap_queue res" where
  "Clear q =
     (let r = next_read_index q + num_elements q;
          r = (if r \<ge> length (queue q) then r - length (queue q) else r);
          q = q\<lparr>num_elements := 0, next_read_index := r\<rparr>
      in dcheck (next_read_index q < length (queue q)) (Inr q))"

definition ins_swap :: "'a \<Rightarrow> 'a swap_queue \<Rightarrow> 'a \<times> 'a swap_queue" where
  "ins_swap input q =
     (queue q ! next_write_index q, q\<lparr>queue := (queue q)[next_write_index q := input]\<rparr>)"

definition ins_publish :: "'a swap_queue \<Rightarrow> nat \<times> 'a swap_queue" where
  "ins_publish q = (num_elements q, q\<lparr>num_elements := Suc (num_elements q)\<rparr>)"

definition ins_advance :: "'a swap_queue \<Rightarrow> 'a swap_queue" where
  "ins_advance q =
     q\<lparr>next_write_index := (let w = Suc (next_write_index q) in if w = length (queue q) then 0 else w)\<rparr>"

definition Insert :: "('a \<Rightarrow> bool) \<Rightarrow> 'a \<Rightarrow> 'a swap_queue \<Rightarrow> (bool \<times> 'a \<times> 'a swap_queue) res" where
  "Insert ver input q =
     dcheck (ver input)
       (if num_elements q = length (queue q) then Inr (False, input, q)
        else case ins_swap input q of (input', q1) \<Rightarrow>
          case ins_publish q1 of (old_num_elements, q2) \<Rightarrow>
            let q3 = ins_advance q2
            in dcheck (next_write_index q3 < length (queue q3))
                 (dcheck (old_num_elements < length (queue q3)) (Inr (True, input', q3))))"

definition rem_swap :: "'a \<Rightarrow> 'a swap_queue \<Rightarrow> 'a \<times> 'a swap_queue" where
  "rem_swap output q =
     (queue q ! next_read_index q, q\<lparr>queue := (queue q)[next_read_index q := output]\<rparr>)"

definition rem_release :: "'a swap_queue \<Rightarrow> 'a swap_queue" where
  "rem_release q = q\<lparr>num_elements := num_elements q - 1\<rparr>"

definition rem_advance :: "'a swap_queue \<Rightarrow> 'a swap_queue" where
  "rem_advance q =
     q\<lparr>next_read_index := (let r = Suc (next_read_index q) in if r = length (queue q) then 0 else r)\<rparr>"

definition Remove :: "('a \<Rightarrow> bool) \<Rightarrow> 'a \<Rightarrow> 'a swap_queue \<Rightarrow> (bool \<times> 'a \<times> 'a swap_queue) res" where
  "Remove ver output q =
     dcheck (ver output)
       (if num_elements q = 0 then Inr (False, output, q)
        else case rem_swap output q of (output', q1) \<Rightarrow>
          let q3 = rem_advance (rem_release q1)
          in dcheck (next_read_index q3 < length (queue q3)) (Inr (True, output', q3)))"

definition SizeAtLeast :: "'a swap_queue \<Rightarrow> nat" where
  "SizeAtLeast q = num_elements q"

section \<open>One thread: a bounded queue\<close>

definition elems :: "'a swap_queue \<Rightarrow> 'a list" where
  "elems q = map (\<lambda>i. queue q ! ((next_read_index q + i) mod length (queue q))) [0..<num_elements q]"

definition wf_queue :: "('a \<Rightarrow> bool) \<Rightarrow> nat \<Rightarrow> 'a swap_queue \<Rightarrow> bool" where
  "wf_queue ver n q \<longleftrightarrow> length (queue q) = n \<and> 0 < n \<and> next_read_index q < n \<and> num_elements q \<le> n \<and>
     next_write_index q = (next_read_index q + num_elements q) mod n \<and> list_all ver (queue q)"

lemma mod_window: "x \<le> y \<Longrightarrow> y < x + n \<Longrightarrow> x mod n = y mod n \<Longrightarrow> x = (y::nat)"
proof -
  assume *: "x \<le> y" "y < x + n" "x mod n = y mod n"
  then have "n dvd y - x" by (metis mod_eq_dvd_iff_nat)
  moreover have "y - x < n" using *(1,2) by simp
  ultimately have "y - x = 0" by (meson dvd_imp_le gr_zeroI leD)
  then show ?thesis using *(1) by simp
qed

lemma wrap_mod: "w < n \<Longrightarrow> (if Suc w = n then 0 else Suc w) = Suc w mod n"
  by auto

lemma ins_advance_mod:
  "next_write_index q < length (queue q) \<Longrightarrow>
    ins_advance q = q\<lparr>next_write_index := Suc (next_write_index q) mod length (queue q)\<rparr>"
  using wrap_mod [of "next_write_index q" "length (queue q)"] by (simp only: ins_advance_def Let_def)

lemma rem_advance_mod:
  "next_read_index q < length (queue q) \<Longrightarrow>
    rem_advance q = q\<lparr>next_read_index := Suc (next_read_index q) mod length (queue q)\<rparr>"
  using wrap_mod [of "next_read_index q" "length (queue q)"] by (simp only: rem_advance_def Let_def)

lemma sq_Insert_ok:
  assumes "wf_queue ver n q" "ver x"
  shows "if num_elements q = n then Insert ver x q = Inr (False, x, q)
    else \<exists>x' q'. Insert ver x q = Inr (True, x', q') \<and> wf_queue ver n q' \<and> ver x' \<and> elems q' = elems q @ [x]"
proof (cases "num_elements q = n")
  case True
  then show ?thesis using assms by (simp add: Insert_def wf_queue_def)
next
  case False
  let ?r = "next_read_index q" and ?m = "num_elements q"
  have wf: "length (queue q) = n" "0 < n" "?r < n" "?m < n" "next_write_index q = (?r + ?m) mod n" "list_all ver (queue q)"
    using assms(1) False by (simp_all add: wf_queue_def)
  define q' where "q' = q\<lparr>queue := (queue q)[(?r + ?m) mod n := x], num_elements := Suc ?m,
    next_write_index := (?r + Suc ?m) mod n\<rparr>"
  have run: "Insert ver x q = Inr (True, queue q ! ((?r + ?m) mod n), q')"
    using assms(2) wf False
    by (simp add: Insert_def ins_swap_def ins_publish_def ins_advance_mod Let_def q'_def mod_Suc_eq)
  have "ver (queue q ! ((?r + ?m) mod n))" using wf by (simp add: list_all_length)
  moreover have "wf_queue ver n q'"
    using wf assms(2) by (auto simp: wf_queue_def q'_def list_all_length nth_list_update)
  moreover have "elems q' = elems q @ [x]"
  proof -
    have "(?r + i) mod n \<noteq> (?r + ?m) mod n" if "i < ?m" for i
      using mod_window [of "?r + i" "?r + ?m" n] that wf(4) by auto
    then have "(queue q)[(?r + ?m) mod n := x] ! ((?r + i) mod n) = queue q ! ((?r + i) mod n)" if "i < ?m" for i
      using that nth_list_update_neq by metis
    then show ?thesis using wf(1,2) by (simp add: elems_def q'_def)
  qed
  ultimately show ?thesis using run False by simp
qed

lemma sq_Remove_ok:
  assumes "wf_queue ver n q" "ver y"
  shows "if num_elements q = 0 then Remove ver y q = Inr (False, y, q)
    else \<exists>x q'. Remove ver y q = Inr (True, x, q') \<and> wf_queue ver n q' \<and> ver x \<and> elems q = x # elems q'"
proof (cases "num_elements q = 0")
  case True
  then show ?thesis using assms by (simp add: Remove_def)
next
  case False
  let ?r = "next_read_index q"
  obtain m where m: "num_elements q = Suc m" using False by (cases "num_elements q") auto
  have wf: "length (queue q) = n" "0 < n" "?r < n" "Suc m \<le> n" "next_write_index q = (?r + Suc m) mod n"
    "list_all ver (queue q)"
    using assms(1) m by (simp_all add: wf_queue_def)
  define q' where "q' = q\<lparr>queue := (queue q)[?r := y], num_elements := m, next_read_index := Suc ?r mod n\<rparr>"
  have run: "Remove ver y q = Inr (True, queue q ! ?r, q')"
    using assms(2) wf m
    by (simp add: Remove_def rem_swap_def rem_release_def rem_advance_mod Let_def q'_def)
  have "ver (queue q ! ?r)" using wf by (simp add: list_all_length)
  moreover have "wf_queue ver n q'"
  proof -
    have "(Suc ?r mod n + m) mod n = (?r + Suc m) mod n" by (simp add: mod_add_left_eq)
    then show ?thesis using wf assms(2)
      by (auto simp: wf_queue_def q'_def list_all_length nth_list_update)
  qed
  moreover have "elems q = queue q ! ?r # elems q'"
  proof -
    have idx: "(Suc ?r mod n + i) mod n = (?r + Suc i) mod n" for i by (simp add: mod_add_left_eq)
    have "(?r + Suc i) mod n \<noteq> ?r" if "i < m" for i
      using mod_window [of ?r "?r + Suc i" n] that wf(3,4) by auto
    then have "(queue q)[?r := y] ! ((?r + Suc i) mod n) = queue q ! ((?r + Suc i) mod n)" if "i < m" for i
      using that nth_list_update_neq by metis
    then have "elems q' = map (\<lambda>i. queue q ! ((?r + Suc i) mod n)) [0..<m]"
      using wf(1) by (simp add: elems_def q'_def idx)
    moreover have "elems q = map (\<lambda>i. queue q ! ((?r + i) mod n)) (0 # map Suc [0..<m])"
      by (simp only: elems_def m wf(1) map_Suc_upt upt_conv_Cons zero_less_Suc)
    ultimately show ?thesis using wf(3) by (simp add: comp_def)
  qed
  ultimately show ?thesis using run False by simp
qed

lemma sq_Clear_ok:
  assumes "wf_queue ver n q"
  shows "\<exists>q'. Clear q = Inr q' \<and> wf_queue ver n q' \<and> elems q' = []"
proof -
  let ?s = "next_read_index q + num_elements q"
  have wf: "length (queue q) = n" "0 < n" "next_read_index q < n" "num_elements q \<le> n"
    using assms by (simp_all add: wf_queue_def)
  have r: "(if n \<le> ?s then ?s - n else ?s) = ?s mod n"
    using wf by (auto simp: mod_if)
  have "Clear q = dcheck (?s mod n < n) (Inr (q\<lparr>num_elements := 0, next_read_index := ?s mod n\<rparr>))"
    unfolding Clear_def Let_def wf(1) r by (simp add: wf(1))
  then show ?thesis
    using assms wf by (simp add: wf_queue_def elems_def)
qed

lemma new_ok:
  assumes "0 < n" "ver p"
  shows "\<exists>q. SwapQueue_new ver n p = Inr q \<and> wf_queue ver n q \<and> elems q = []"
  using assms by (simp add: SwapQueue_new_def VerifyQueueSlots_def wf_queue_def elems_def list_all_length)

text \<open>
  Used by one thread, the queue is a first-in-first-out queue of its size: \<open>Insert\<close> appends unless
  the queue is full, \<open>Remove\<close> takes the first element unless it is empty, \<open>Clear\<close> empties it. What is
  handed back always passes the verifier, and no check of the code fails.
\<close>

theorem swap_queue_fifo:
  assumes "wf_queue ver n q" "ver x"
  shows "(if length (elems q) = n then Insert ver x q = Inr (False, x, q)
      else \<exists>x' q'. Insert ver x q = Inr (True, x', q') \<and> wf_queue ver n q' \<and> ver x' \<and> elems q' = elems q @ [x]) \<and>
    (if elems q = [] then Remove ver x q = Inr (False, x, q)
      else \<exists>q'. Remove ver x q = Inr (True, hd (elems q), q') \<and> wf_queue ver n q' \<and>
        ver (hd (elems q)) \<and> elems q' = tl (elems q)) \<and>
    (\<exists>q'. Clear q = Inr q' \<and> wf_queue ver n q' \<and> elems q' = []) \<and> SizeAtLeast q = length (elems q)"
proof -
  have len: "length (elems q) = num_elements q" by (simp add: elems_def)
  have "if elems q = [] then Remove ver x q = Inr (False, x, q)
      else \<exists>q'. Remove ver x q = Inr (True, hd (elems q), q') \<and> wf_queue ver n q' \<and>
        ver (hd (elems q)) \<and> elems q' = tl (elems q)"
  proof (cases "num_elements q = 0")
    case True
    then show ?thesis using sq_Remove_ok [OF assms] len by simp
  next
    case False
    then obtain y q' where "Remove ver x q = Inr (True, y, q')" "wf_queue ver n q'" "ver y" "elems q = y # elems q'"
      using sq_Remove_ok [OF assms] by auto
    then show ?thesis by simp
  qed
  then show ?thesis
    using sq_Insert_ok [OF assms] sq_Clear_ok [OF assms(1)] len by (simp add: SizeAtLeast_def)
qed

theorem swap_queue_fifo_witness:
  "\<exists>q x' q'. SwapQueue_new (\<lambda>n. n < 10) 2 (0::nat) = Inr q \<and> Insert (\<lambda>n. n < 10) 7 q = Inr (True, x', q') \<and>
     elems q' = [7]"
proof -
  obtain q where q: "SwapQueue_new (\<lambda>n. n < 10) 2 (0::nat) = Inr q" "wf_queue (\<lambda>n. n < 10) 2 q" "elems q = []"
    using new_ok [of 2 "\<lambda>n. n < 10" "0::nat"] by auto
  then show ?thesis using swap_queue_fifo [OF q(2), of 7] by auto
qed

section \<open>Two threads\<close>

text \<open>
  Where each thread stands inside its method, with its local variables. \<open>inserted\<close> and \<open>removed\<close>
  record the items in the order in which \<open>Insert\<close> published and \<open>Remove\<close> released them.
\<close>

datatype 'a producer = PIdle | PLoaded 'a | PSwapped 'a | PPublished nat
datatype 'a consumer = CIdle | CLoaded 'a | CSwapped 'a | CReleased

record 'a threads =
  sq :: "'a swap_queue"
  prod :: "'a producer"
  cons :: "'a consumer"
  inserted :: "'a list"
  removed :: "'a list"

definition threads_init :: "'a swap_queue \<Rightarrow> 'a threads" where
  "threads_init q = \<lparr>sq = q, prod = PIdle, cons = CIdle, inserted = [], removed = []\<rparr>"

inductive thread_step :: "('a \<Rightarrow> bool) \<Rightarrow> 'a threads \<Rightarrow> 'a threads \<Rightarrow> bool" for ver where
  p_load: "prod t = PIdle \<Longrightarrow> ver x \<Longrightarrow> num_elements (sq t) \<noteq> length (queue (sq t)) \<Longrightarrow>
    thread_step ver t (t\<lparr>prod := PLoaded x\<rparr>)"
| p_swap: "prod t = PLoaded x \<Longrightarrow>
    thread_step ver t (t\<lparr>sq := snd (ins_swap x (sq t)), prod := PSwapped x\<rparr>)"
| p_publish: "prod t = PSwapped x \<Longrightarrow>
    thread_step ver t (t\<lparr>sq := snd (ins_publish (sq t)), prod := PPublished (fst (ins_publish (sq t))),
      inserted := inserted t @ [x]\<rparr>)"
| p_advance: "prod t = PPublished old \<Longrightarrow>
    thread_step ver t (t\<lparr>sq := ins_advance (sq t), prod := PIdle\<rparr>)"
| c_load: "cons t = CIdle \<Longrightarrow> ver y \<Longrightarrow> num_elements (sq t) \<noteq> 0 \<Longrightarrow>
    thread_step ver t (t\<lparr>cons := CLoaded y\<rparr>)"
| c_swap: "cons t = CLoaded y \<Longrightarrow>
    thread_step ver t (t\<lparr>sq := snd (rem_swap y (sq t)), cons := CSwapped (fst (rem_swap y (sq t)))\<rparr>)"
| c_release: "cons t = CSwapped v \<Longrightarrow>
    thread_step ver t (t\<lparr>sq := rem_release (sq t), cons := CReleased, removed := removed t @ [v]\<rparr>)"
| c_advance: "cons t = CReleased \<Longrightarrow>
    thread_step ver t (t\<lparr>sq := rem_advance (sq t), cons := CIdle\<rparr>)"

inductive thread_reachable :: "('a \<Rightarrow> bool) \<Rightarrow> 'a swap_queue \<Rightarrow> 'a threads \<Rightarrow> bool" for ver q0 where
  start: "thread_reachable ver q0 (threads_init q0)"
| step: "thread_reachable ver q0 t \<Longrightarrow> thread_step ver t t' \<Longrightarrow> thread_reachable ver q0 t'"

text \<open>
  The invariant, with \<open>I\<close> items published and \<open>R\<close> released: the two indices are \<open>I\<close> and \<open>R\<close> modulo the
  size (one behind between the change of the counter and the change of the index), and every
  published item that was not taken lies in its slot.
\<close>

fun p_pending :: "'a producer \<Rightarrow> nat" where
  "p_pending (PPublished old) = 1"
| "p_pending _ = 0"

fun c_pending :: "'a consumer \<Rightarrow> nat" where
  "c_pending CReleased = 1"
| "c_pending _ = 0"

fun p_inside :: "'a producer \<Rightarrow> bool" where
  "p_inside (PLoaded x) = True"
| "p_inside (PSwapped x) = True"
| "p_inside _ = False"

fun c_inside :: "'a consumer \<Rightarrow> bool" where
  "c_inside (CLoaded y) = True"
| "c_inside (CSwapped v) = True"
| "c_inside _ = False"

fun c_taken :: "'a consumer \<Rightarrow> nat" where
  "c_taken (CSwapped v) = 1"
| "c_taken _ = 0"

definition thread_inv :: "nat \<Rightarrow> 'a threads \<Rightarrow> bool" where
  "thread_inv n t \<longleftrightarrow>
     (let q = sq t; I = length (inserted t); R = length (removed t) in
      0 < n \<and> length (queue q) = n \<and> R \<le> I \<and> num_elements q = I - R \<and> I - R \<le> n \<and>
      (p_inside (prod t) \<longrightarrow> I - R < n) \<and> (c_inside (cons t) \<longrightarrow> R < I) \<and>
      p_pending (prod t) \<le> I \<and> next_write_index q = (I - p_pending (prod t)) mod n \<and>
      c_pending (cons t) \<le> R \<and> next_read_index q = (R - c_pending (cons t)) mod n \<and>
      (\<forall>old. prod t = PPublished old \<longrightarrow> old < n) \<and>
      (\<forall>x. prod t = PSwapped x \<longrightarrow> queue q ! (I mod n) = x) \<and>
      (\<forall>v. cons t = CSwapped v \<longrightarrow> v = inserted t ! R) \<and>
      (\<forall>k. R + c_taken (cons t) \<le> k \<and> k < I \<longrightarrow> queue q ! (k mod n) = inserted t ! k) \<and>
      removed t = take R (inserted t))"

lemma thread_inv_init:
  assumes "wf_queue ver n q" "elems q = []" "next_read_index q = 0"
  shows "thread_inv n (threads_init q)"
  using assms by (simp add: thread_inv_def threads_init_def wf_queue_def elems_def)

text \<open>The invariant of a state in which the threads stand at \<open>P\<close> and \<open>C\<close>, over its components.\<close>

lemma thread_inv_iff:
  "thread_inv n t \<longleftrightarrow> 0 < n \<and> length (queue (sq t)) = n \<and> length (removed t) \<le> length (inserted t) \<and>
     num_elements (sq t) = length (inserted t) - length (removed t) \<and>
     length (inserted t) - length (removed t) \<le> n \<and>
     (p_inside (prod t) \<longrightarrow> length (inserted t) - length (removed t) < n) \<and>
     (c_inside (cons t) \<longrightarrow> length (removed t) < length (inserted t)) \<and>
     p_pending (prod t) \<le> length (inserted t) \<and>
     next_write_index (sq t) = (length (inserted t) - p_pending (prod t)) mod n \<and>
     c_pending (cons t) \<le> length (removed t) \<and>
     next_read_index (sq t) = (length (removed t) - c_pending (cons t)) mod n \<and>
     (\<forall>old. prod t = PPublished old \<longrightarrow> old < n) \<and>
     (\<forall>x. prod t = PSwapped x \<longrightarrow> queue (sq t) ! (length (inserted t) mod n) = x) \<and>
     (\<forall>v. cons t = CSwapped v \<longrightarrow> v = inserted t ! length (removed t)) \<and>
     (\<forall>k. length (removed t) + c_taken (cons t) \<le> k \<and> k < length (inserted t) \<longrightarrow>
        queue (sq t) ! (k mod n) = inserted t ! k) \<and>
     removed t = take (length (removed t)) (inserted t)"
  by (simp add: thread_inv_def Let_def)

lemma inv_p_swap:
  assumes "thread_inv n t" "prod t = PLoaded x"
  shows "thread_inv n (t\<lparr>sq := snd (ins_swap x (sq t)), prod := PSwapped x\<rparr>)"
proof -
  let ?I = "length (inserted t)" and ?R = "length (removed t)"
  have inv: "length (queue (sq t)) = n" "0 < n" "?I - ?R < n" "?R \<le> ?I" "next_write_index (sq t) = ?I mod n"
    using assms by (simp_all add: thread_inv_iff)
  have "(queue (sq t))[?I mod n := x] ! (k mod n) = queue (sq t) ! (k mod n)" if "?R \<le> k" "k < ?I" for k
  proof -
    have "?I < k + n" using that inv(3,4) by linarith
    then have "k mod n \<noteq> ?I mod n" using mod_window [of k ?I n] that by auto
    then show ?thesis by simp
  qed
  then show ?thesis using assms inv by (auto simp: thread_inv_iff ins_swap_def)
qed

lemma inv_p_publish:
  assumes "thread_inv n t" "prod t = PSwapped x"
  shows "thread_inv n (t\<lparr>sq := snd (ins_publish (sq t)), prod := PPublished (fst (ins_publish (sq t))),
      inserted := inserted t @ [x]\<rparr>)"
proof -
  let ?I = "length (inserted t)" and ?R = "length (removed t)"
  have inv: "?I - ?R < n" "?R \<le> ?I" "num_elements (sq t) = ?I - ?R" "queue (sq t) ! (?I mod n) = x"
    "\<And>k. ?R + c_taken (cons t) \<le> k \<Longrightarrow> k < ?I \<Longrightarrow> queue (sq t) ! (k mod n) = inserted t ! k"
    "\<And>v. cons t = CSwapped v \<Longrightarrow> v = inserted t ! ?R \<and> ?R < ?I" "removed t = take ?R (inserted t)"
    using assms by (auto simp: thread_inv_iff)
  have slots: "queue (sq t) ! (k mod n) = (inserted t @ [x]) ! k"
    if "?R + c_taken (cons t) \<le> k" "k < Suc ?I" for k
    using inv(4,5) that by (cases "k = ?I") (auto simp: nth_append)
  have held: "v = (inserted t @ [x]) ! ?R" if "cons t = CSwapped v" for v
    using inv(6) [OF that] by (simp add: nth_append)
  have prefix: "removed t = take ?R (inserted t @ [x])" using inv(2,7) by simp
  have rest: "0 < n" "length (queue (sq t)) = n" "c_inside (cons t) \<longrightarrow> ?R < ?I" "c_pending (cons t) \<le> ?R"
    "next_write_index (sq t) = ?I mod n" "next_read_index (sq t) = (?R - c_pending (cons t)) mod n"
    using assms by (auto simp: thread_inv_iff)
  show ?thesis
    unfolding thread_inv_iff using rest inv(1-3) slots held prefix
    by (simp add: ins_publish_def Suc_diff_le Suc_leI less_SucI)
qed

lemma inv_p_advance:
  assumes "thread_inv n t" "prod t = PPublished old"
  shows "thread_inv n (t\<lparr>sq := ins_advance (sq t), prod := PIdle\<rparr>)"
proof -
  let ?I = "length (inserted t)"
  have inv: "length (queue (sq t)) = n" "0 < n" "next_write_index (sq t) = (?I - 1) mod n" "1 \<le> ?I"
    using assms by (simp_all add: thread_inv_iff)
  then have "ins_advance (sq t) = (sq t)\<lparr>next_write_index := ?I mod n\<rparr>"
    by (simp add: ins_advance_mod mod_Suc_eq Suc_diff_1 [unfolded One_nat_def] Suc_le_eq)
  then show ?thesis using assms by (simp add: thread_inv_iff)
qed

lemma inv_c_swap:
  assumes "thread_inv n t" "cons t = CLoaded y"
  shows "thread_inv n (t\<lparr>sq := snd (rem_swap y (sq t)), cons := CSwapped (fst (rem_swap y (sq t)))\<rparr>)"
proof -
  let ?I = "length (inserted t)" and ?R = "length (removed t)"
  have inv: "length (queue (sq t)) = n" "0 < n" "?I - ?R \<le> n" "?R < ?I" "next_read_index (sq t) = ?R mod n"
    "queue (sq t) ! (?R mod n) = inserted t ! ?R"
    "\<And>k. ?R \<le> k \<Longrightarrow> k < ?I \<Longrightarrow> queue (sq t) ! (k mod n) = inserted t ! k"
    using assms by (auto simp: thread_inv_iff)
  have keep: "(queue (sq t))[?R mod n := y] ! (k mod n) = queue (sq t) ! (k mod n)"
    if "?R < k" "k < ?R + n" for k
  proof -
    have "?R mod n \<noteq> k mod n" using mod_window [of ?R k n] that by auto
    then show ?thesis by simp
  qed
  have slots: "(queue (sq t))[?R mod n := y] ! (k mod n) = inserted t ! k" if "Suc ?R \<le> k" "k < ?I" for k
    using keep [of k] inv(3,4,7) that by simp
  have held: "(queue (sq t))[?R mod n := y] ! (?I mod n) = x" if "prod t = PSwapped x" for x
  proof -
    have "?I - ?R < n" "queue (sq t) ! (?I mod n) = x" using assms(1) that by (auto simp: thread_inv_iff)
    then show ?thesis using keep [of ?I] inv(4) by simp
  qed
  show ?thesis using assms inv(5,6) slots held by (auto simp: thread_inv_iff rem_swap_def)
qed

lemma inv_c_release:
  assumes "thread_inv n t" "cons t = CSwapped v"
  shows "thread_inv n (t\<lparr>sq := rem_release (sq t), cons := CReleased, removed := removed t @ [v]\<rparr>)"
proof -
  let ?I = "length (inserted t)" and ?R = "length (removed t)"
  have "?R < ?I" "v = inserted t ! ?R" "removed t = take ?R (inserted t)"
    using assms by (auto simp: thread_inv_iff)
  then have "removed t @ [v] = take (Suc ?R) (inserted t)" by (simp add: take_Suc_conv_app_nth)
  then show ?thesis using assms by (auto simp: thread_inv_iff rem_release_def)
qed

lemma inv_c_advance:
  assumes "thread_inv n t" "cons t = CReleased"
  shows "thread_inv n (t\<lparr>sq := rem_advance (sq t), cons := CIdle\<rparr>)"
proof -
  let ?R = "length (removed t)"
  have inv: "length (queue (sq t)) = n" "0 < n" "next_read_index (sq t) = (?R - 1) mod n" "1 \<le> ?R"
    using assms by (simp_all add: thread_inv_iff)
  then have "rem_advance (sq t) = (sq t)\<lparr>next_read_index := ?R mod n\<rparr>"
    by (simp add: rem_advance_mod mod_Suc_eq Suc_diff_1 [unfolded One_nat_def] Suc_le_eq)
  then show ?thesis using assms by (simp add: thread_inv_iff)
qed

lemma thread_inv_step:
  assumes "thread_step ver t t'" "thread_inv n t"
  shows "thread_inv n t'"
  using assms
proof (induction rule: thread_step.induct)
  case (p_load t x)
  then show ?case by (auto simp: thread_inv_iff)
next
  case (c_load t y)
  then show ?case by (auto simp: thread_inv_iff)
qed (blast intro: inv_p_swap inv_p_publish inv_p_advance inv_c_swap inv_c_release inv_c_advance)+

lemma thread_inv_reachable:
  assumes "wf_queue ver n q" "elems q = []" "next_read_index q = 0" "thread_reachable ver q t"
  shows "thread_inv n t"
  using assms(4)
  by (induction rule: thread_reachable.induct) (auto intro: thread_inv_init [OF assms(1-3)] thread_inv_step)

text \<open>
  C10. The queue is safe for one producer and one consumer in parallel. In every state that any
  interleaving of their accesses reaches: the consumer has received exactly a prefix of what was
  inserted, in order and nothing twice; when both are about to access a slot, the slots differ; and
  the counter that the producer read for its check is below the size.
\<close>

theorem swap_queue_concurrent:
  assumes "0 < n" "ver p" "SwapQueue_new ver n p = Inr q" "thread_reachable ver q t"
  shows "removed t = take (length (removed t)) (inserted t) \<and>
    num_elements (sq t) = length (inserted t) - length (removed t) \<and> num_elements (sq t) \<le> n \<and>
    (p_inside (prod t) \<and> c_inside (cons t) \<longrightarrow> next_write_index (sq t) \<noteq> next_read_index (sq t)) \<and>
    (\<forall>old. prod t = PPublished old \<longrightarrow> old < n)"
proof -
  have q: "wf_queue ver n q" "elems q = []" "next_read_index q = 0"
    using assms(1-3) by (auto simp: SwapQueue_new_def VerifyQueueSlots_def wf_queue_def elems_def list_all_length)
  have inv: "thread_inv n t" by (rule thread_inv_reachable [OF q assms(4)])
  let ?I = "length (inserted t)" and ?R = "length (removed t)"
  have "next_write_index (sq t) \<noteq> next_read_index (sq t)" if "p_inside (prod t)" "c_inside (cons t)"
  proof -
    have "p_pending (prod t) = 0" "c_pending (cons t) = 0"
      using that(1) by (cases "prod t"; simp) (use that(2) in \<open>cases "cons t"; simp\<close>)
    moreover have "?R < ?I" "?I - ?R < n" using inv that by (auto simp: thread_inv_iff)
    then have "?I < ?R + n" "?R \<le> ?I" "?R \<noteq> ?I" by linarith+
    then have "?R mod n \<noteq> ?I mod n" using mod_window by blast
    ultimately show ?thesis using inv by (auto simp: thread_inv_iff)
  qed
  then show ?thesis using inv by (auto simp: thread_inv_iff)
qed

theorem swap_queue_concurrent_witness:
  "\<exists>q t. SwapQueue_new (\<lambda>_. True) 1 (0::nat) = Inr q \<and> thread_reachable (\<lambda>_. True) q t \<and>
     prod t = PLoaded 5 \<and> num_elements (sq t) \<le> 1"
proof -
  obtain q where q: "SwapQueue_new (\<lambda>_. True) 1 (0::nat) = Inr q" "wf_queue (\<lambda>_. True) 1 q" "elems q = []"
    using new_ok [of 1 "\<lambda>_. True" "0::nat"] by auto
  have "thread_step (\<lambda>_. True) (threads_init q) ((threads_init q)\<lparr>prod := PLoaded 5\<rparr>)"
    using q(2,3) by (intro thread_step.p_load) (auto simp: threads_init_def wf_queue_def elems_def)
  then have r: "thread_reachable (\<lambda>_. True) q ((threads_init q)\<lparr>prod := PLoaded 5\<rparr>)"
    by (rule thread_reachable.step [OF thread_reachable.start])
  have "prod ((threads_init q)\<lparr>prod := PLoaded 5\<rparr>) = PLoaded 5" by (cases "threads_init q") simp
  then show ?thesis using q(1) r swap_queue_concurrent [OF _ _ q(1) r] by auto
qed

end
