(* ===== verification/MovingMax.thy ===== *)
theory MovingMax
  imports Prelude
begin

text \<open>
  rtc_base/numerics/moving_max_counter.h: the maximum of the samples of a moving time window, kept in
  a deque whose times increase and whose samples decrease. Times are \<open>int64_t\<close>; the start of the
  window is computed with the overflow of the code as a fault.
\<close>

section \<open>Definitions\<close>

record 'a moving_max =
  window_length_ms :: int
  samples :: "(int \<times> 'a) list"
  last_call_time_ms :: int

definition MovingMaxCounter :: "int \<Rightarrow> 'a moving_max" where
  "MovingMaxCounter window = \<lparr>window_length_ms = window, samples = [], last_call_time_ms = int64_min\<rparr>"

definition RollWindow :: "int \<Rightarrow> 'a moving_max \<Rightarrow> 'a moving_max res" where
  "RollWindow new_time_ms m =
     dcheck (new_time_ms \<ge> last_call_time_ms m)
       (let m = m\<lparr>last_call_time_ms := new_time_ms\<rparr> in
        rbind (i64 (new_time_ms - window_length_ms m)) (\<lambda>window_begin_ms.
        Inr (m\<lparr>samples := dropWhile (\<lambda>p. fst p < window_begin_ms) (samples m)\<rparr>)))"

fun pop_back_while :: "('b \<Rightarrow> bool) \<Rightarrow> 'b list \<Rightarrow> 'b list" where
  "pop_back_while P xs = (if xs \<noteq> [] \<and> P (last xs) then pop_back_while P (butlast xs) else xs)"

declare pop_back_while.simps [simp del]

definition Add :: "'a::linorder \<Rightarrow> int \<Rightarrow> 'a moving_max \<Rightarrow> 'a moving_max res" where
  "Add sample current_time_ms m =
     rbind (RollWindow current_time_ms m) (\<lambda>m.
     let xs = pop_back_while (\<lambda>p. snd p \<le> sample) (samples m);
         xs = (if xs = [] \<or> fst (last xs) < current_time_ms then xs @ [(current_time_ms, sample)] else xs)
     in Inr (m\<lparr>samples := xs\<rparr>))"

definition Max_at :: "int \<Rightarrow> 'a moving_max \<Rightarrow> ('a option \<times> 'a moving_max) res" where
  "Max_at current_time_ms m =
     rbind (RollWindow current_time_ms m) (\<lambda>m.
     Inr (if samples m = [] then None else Some (snd (hd (samples m))), m))"

definition Reset :: "'a moving_max \<Rightarrow> 'a moving_max" where
  "Reset m = m\<lparr>samples := []\<rparr>"

fun add_all :: "(int \<times> 'a::linorder) list \<Rightarrow> 'a moving_max \<Rightarrow> 'a moving_max res" where
  "add_all [] m = Inr m"
| "add_all ((t, s) # ps) m = rbind (Add s t m) (add_all ps)"

section \<open>The invariant of the deque\<close>

abbreviation monotone :: "(int \<times> 'a::linorder) list \<Rightarrow> bool" where
  "monotone xs \<equiv> sorted_wrt (\<lambda>p q. fst p < fst q \<and> snd p > snd q) xs"

text \<open>
  \<open>covers\<close>: the deque has no sample that was not added, and every sample added since \<open>b\<close> is
  dominated by one in the deque that is at least as young and at least as large.
\<close>

definition covers :: "int \<Rightarrow> (int \<times> 'a::linorder) set \<Rightarrow> (int \<times> 'a) list \<Rightarrow> bool" where
  "covers b H xs \<longleftrightarrow> set xs \<subseteq> H \<and> (\<forall>p \<in> H. b \<le> fst p \<longrightarrow> (\<exists>q \<in> set xs. fst p \<le> fst q \<and> snd p \<le> snd q))"

lemma pop_back_while_eq: "pop_back_while P xs = rev (dropWhile P (rev xs))"
proof (induction xs rule: rev_induct)
  case (snoc x xs)
  then show ?case by (subst pop_back_while.simps) auto
qed (simp add: pop_back_while.simps)

lemma pop_back_while_split:
  "\<exists>ys. xs = pop_back_while P xs @ ys \<and> (\<forall>y \<in> set ys. P y) \<and>
     (pop_back_while P xs \<noteq> [] \<longrightarrow> \<not> P (last (pop_back_while P xs)))"
proof -
  have "xs = pop_back_while P xs @ rev (takeWhile P (rev xs))"
    unfolding pop_back_while_eq by (metis rev_append rev_rev_ident takeWhile_dropWhile_id)
  moreover have "\<forall>y \<in> set (rev (takeWhile P (rev xs))). P y" by (auto dest: set_takeWhileD)
  moreover have "pop_back_while P xs \<noteq> [] \<longrightarrow> \<not> P (last (pop_back_while P xs))"
    using hd_dropWhile [of P "rev xs"] by (auto simp: pop_back_while_eq last_rev)
  ultimately show ?thesis by blast
qed

lemma coversD: "covers b H xs \<Longrightarrow> p \<in> H \<Longrightarrow> b \<le> fst p \<Longrightarrow> \<exists>q \<in> set xs. fst p \<le> fst q \<and> snd p \<le> snd q"
  unfolding covers_def by blast

lemma monotone_last:
  "monotone ys \<Longrightarrow> p \<in> set ys \<Longrightarrow> p = last ys \<or> (fst p < fst (last ys) \<and> snd (last ys) < snd p)"
  by (cases ys rule: rev_cases) (auto simp: sorted_wrt_append)

lemma roll_covers:
  assumes "covers b H xs" "b \<le> c" "monotone xs"
  shows "covers c H (dropWhile (\<lambda>p. fst p < c) xs) \<and> monotone (dropWhile (\<lambda>p. fst p < c) xs) \<and>
    (\<forall>p \<in> set (dropWhile (\<lambda>p. fst p < c) xs). c \<le> fst p)"
proof -
  let ?ys = "dropWhile (\<lambda>p. fst p < c) xs"
  have old: "fst p < c" if "p \<in> set xs" "p \<notin> set ?ys" for p
    using that by (metis Un_iff set_append set_takeWhileD takeWhile_dropWhile_id)
  have "monotone (takeWhile (\<lambda>p. fst p < c) xs @ ?ys)" using assms(3) by (simp only: takeWhile_dropWhile_id)
  then have mono: "monotone ?ys" by (simp only: sorted_wrt_append)
  have "\<forall>p \<in> set ?ys. c \<le> fst p"
  proof (cases ?ys)
    case Nil
    then show ?thesis by (simp only: list.set(1)) simp
  next
    case (Cons p ps)
    then have "c \<le> fst p" using hd_dropWhile [of "\<lambda>p. fst p < c" xs] by simp
    then show ?thesis using mono Cons by fastforce
  qed
  moreover have "covers c H ?ys"
    unfolding covers_def
  proof (intro conjI ballI impI)
    show "set ?ys \<subseteq> H" using assms(1) by (auto simp: covers_def dest: set_dropWhileD)
    fix p assume p: "p \<in> H" "c \<le> fst p"
    then obtain q where q: "q \<in> set xs" "fst p \<le> fst q" "snd p \<le> snd q"
      using coversD [OF assms(1) p(1)] assms(2) by auto
    then have "q \<in> set ?ys" using old [of q] p(2) by auto
    then show "\<exists>q \<in> set ?ys. fst p \<le> fst q \<and> snd p \<le> snd q" using q by blast
  qed
  ultimately show ?thesis using mono by blast
qed

lemma add_covers:
  fixes xs :: "(int \<times> 'a::linorder) list" and sample :: 'a
  assumes "covers b H xs" "monotone xs" "\<forall>(t, s) \<in> H. t \<le> now" "b \<le> now"
    and ys_def: "ys = pop_back_while (\<lambda>p. snd p \<le> sample) xs"
    and zs_def: "zs = (if ys = [] \<or> fst (last ys) < now then ys @ [(now, sample)] else ys)"
  shows "covers b (insert (now, sample) H) zs \<and> monotone zs"
proof -
  obtain ds where ds: "xs = ys @ ds" "\<forall>y \<in> set ds. snd y \<le> sample" "ys \<noteq> [] \<longrightarrow> sample < snd (last ys)"
    using pop_back_while_split [of xs "\<lambda>p. snd p \<le> sample"] unfolding ys_def not_le by blast
  have mono: "monotone ys" using assms(2) ds(1) by (simp add: sorted_wrt_append)
  have big: "sample < snd p" if "p \<in> set ys" for p
    using monotone_last [OF mono that] ds(3) that by (cases "ys = []") auto
  have times: "fst p \<le> now" if "p \<in> set ys" for p
  proof -
    have "p \<in> H" using assms(1) ds(1) that by (auto simp: covers_def)
    then show ?thesis using assms(3) by (cases p) auto
  qed
  have lastmax: "fst p \<le> fst (last ys)" if "p \<in> set ys" for p
    using monotone_last [OF mono that] by auto
  have mz: "monotone zs"
  proof (cases "ys = [] \<or> fst (last ys) < now")
    case True
    then have "fst p < now" if "p \<in> set ys" for p using lastmax [OF that] that by (cases "ys = []") auto
    then show ?thesis using True mono big by (simp add: zs_def sorted_wrt_append)
  qed (simp add: zs_def mono)
  have new: "\<exists>q \<in> set zs. now \<le> fst q \<and> sample \<le> snd q"
  proof (cases "ys = [] \<or> fst (last ys) < now")
    case False
    then have "last ys \<in> set ys" "now \<le> fst (last ys)" "sample \<le> snd (last ys)" using ds(3) by auto
    then show ?thesis using False by (auto simp: zs_def)
  qed (simp add: zs_def)
  have sub: "set ys \<subseteq> set zs" by (auto simp: zs_def)
  have "covers b (insert (now, sample) H) zs"
    unfolding covers_def
  proof (intro conjI ballI impI)
    show "set zs \<subseteq> insert (now, sample) H" using assms(1) ds(1) by (auto simp: zs_def covers_def)
    fix p assume p: "p \<in> insert (now, sample) H" "b \<le> fst p"
    show "\<exists>q \<in> set zs. fst p \<le> fst q \<and> snd p \<le> snd q"
    proof (cases "p = (now, sample)")
      case True
      then show ?thesis using new by simp
    next
      case False
      then obtain q where q: "q \<in> set xs" "fst p \<le> fst q" "snd p \<le> snd q"
        using coversD [OF assms(1), of p] p by auto
      show ?thesis
      proof (cases "q \<in> set ys")
        case True
        then show ?thesis using q sub by blast
      next
        case False
        then have "snd q \<le> sample" using q(1) ds(1,2) by auto
        moreover have "fst p \<le> now" using p False assms(3) \<open>p \<noteq> (now, sample)\<close> by auto
        ultimately show ?thesis using new q(3) by (meson order_trans)
      qed
    qed
  qed
  then show ?thesis using mz by blast
qed

section \<open>The maximum of the window\<close>

definition keeps_window :: "(int \<times> 'a::linorder) set \<Rightarrow> 'a moving_max \<Rightarrow> bool" where
  "keeps_window H m \<longleftrightarrow> monotone (samples m) \<and> (\<forall>(t, s) \<in> H. t \<le> last_call_time_ms m) \<and>
     covers (last_call_time_ms m - window_length_ms m) H (samples m)"

definition time_ok :: "int \<Rightarrow> int \<Rightarrow> bool" where
  "time_ok w t \<longleftrightarrow> in_int64 (t - w)"

lemma mmc_Add_ok:
  assumes "keeps_window H m" "last_call_time_ms m \<le> t" "time_ok (window_length_ms m) t" "0 \<le> window_length_ms m"
  shows "\<exists>m'. Add s t m = Inr m' \<and> keeps_window (insert (t, s) H) m' \<and> last_call_time_ms m' = t \<and>
    window_length_ms m' = window_length_ms m"
proof -
  let ?b = "t - window_length_ms m"
  let ?xs = "dropWhile (\<lambda>p. fst p < ?b) (samples m)"
  have roll: "covers ?b H ?xs \<and> monotone ?xs"
    using roll_covers [of "last_call_time_ms m - window_length_ms m" H "samples m" ?b] assms(1,2)
    by (simp add: keeps_window_def)
  have times: "\<forall>(t', s') \<in> H. t' \<le> t" using assms(1,2) by (fastforce simp: keeps_window_def)
  define ys where "ys = pop_back_while (\<lambda>p. snd p \<le> s) ?xs"
  define zs where "zs = (if ys = [] \<or> fst (last ys) < t then ys @ [(t, s)] else ys)"
  have zs: "covers ?b (insert (t, s) H) zs" "monotone zs"
    using add_covers [OF _ _ times _ ys_def zs_def, of ?b] roll assms(4) by simp_all
  have "Add s t m = Inr (m\<lparr>last_call_time_ms := t, samples := zs\<rparr>)"
    using assms by (simp add: Add_def RollWindow_def time_ok_def i64_def Let_def ys_def zs_def)
  then show ?thesis using zs times by (simp add: keeps_window_def)
qed

lemma Max_ok:
  assumes "keeps_window H m" "last_call_time_ms m \<le> t" "time_ok (window_length_ms m) t"
  shows "\<exists>m' r. Max_at t m = Inr (r, m') \<and> (case r of
      None \<Rightarrow> \<forall>(t', s) \<in> H. t' < t - window_length_ms m
    | Some x \<Rightarrow> (\<exists>t'. (t', x) \<in> H \<and> t - window_length_ms m \<le> t') \<and>
        (\<forall>(t', s) \<in> H. t - window_length_ms m \<le> t' \<longrightarrow> s \<le> x))"
proof -
  let ?b = "t - window_length_ms m"
  let ?xs = "dropWhile (\<lambda>p. fst p < ?b) (samples m)"
  have roll: "covers ?b H ?xs" "monotone ?xs" "\<forall>p \<in> set ?xs. ?b \<le> fst p"
    using roll_covers [of "last_call_time_ms m - window_length_ms m" H "samples m" ?b] assms(1,2)
    by (simp_all add: keeps_window_def)
  have "Max_at t m = Inr (if ?xs = [] then None else Some (snd (hd ?xs)),
      m\<lparr>last_call_time_ms := t, samples := ?xs\<rparr>)"
    using assms by (simp add: Max_at_def RollWindow_def time_ok_def i64_def Let_def)
  moreover have "\<forall>(t', s) \<in> H. t' < ?b" if "?xs = []"
    using roll(1) that by (force simp: covers_def)
  moreover have "(\<exists>t'. (t', snd (hd ?xs)) \<in> H \<and> ?b \<le> t') \<and> (\<forall>(t', s) \<in> H. ?b \<le> t' \<longrightarrow> s \<le> snd (hd ?xs))"
    if "?xs \<noteq> []"
  proof -
    obtain p ps where x: "?xs = p # ps" using \<open>?xs \<noteq> []\<close> by (cases ?xs) auto
    have top: "snd q \<le> snd p" if "q \<in> set ?xs" for q using roll(2) that x by auto
    have "p \<in> H" "?b \<le> fst p" using roll(1,3) x by (auto simp: covers_def)
    moreover have "s \<le> snd p" if "(t', s) \<in> H" "?b \<le> t'" for t' s
    proof -
      have "\<exists>q \<in> set ?xs. fst (t', s) \<le> fst q \<and> snd (t', s) \<le> snd q"
        by (rule coversD [OF roll(1) that(1)]) (simp add: that(2))
      then obtain q where "q \<in> set ?xs" "s \<le> snd q" by auto
      then show ?thesis using top by (meson order_trans)
    qed
    ultimately show ?thesis using x by (cases p) auto
  qed
  ultimately show ?thesis by auto
qed

lemma add_all_ok:
  assumes "keeps_window H m" "sorted (last_call_time_ms m # map fst ps)" "0 \<le> window_length_ms m"
    "\<forall>(t, s) \<in> set ps. time_ok (window_length_ms m) t"
  shows "\<exists>m'. add_all ps m = Inr m' \<and> keeps_window (set ps \<union> H) m' \<and>
    last_call_time_ms m' = last (last_call_time_ms m # map fst ps) \<and> window_length_ms m' = window_length_ms m"
  using assms
proof (induction ps arbitrary: m H)
  case (Cons p ps)
  obtain t s where p: "p = (t, s)" by (cases p)
  obtain m1 where m1: "Add s t m = Inr m1" "keeps_window (insert (t, s) H) m1" "last_call_time_ms m1 = t"
    "window_length_ms m1 = window_length_ms m"
    using mmc_Add_ok [OF Cons.prems(1), of t s] Cons.prems(2-4) p by auto
  have "\<exists>m'. add_all ps m1 = Inr m' \<and> keeps_window (set ps \<union> insert (t, s) H) m' \<and>
      last_call_time_ms m' = last (last_call_time_ms m1 # map fst ps) \<and> window_length_ms m' = window_length_ms m1"
    using Cons.prems m1 p by (intro Cons.IH) auto
  then show ?case using m1 p by auto
qed simp

text \<open>
  The counter computes the moving maximum: after any samples were added at times that do not
  decrease, \<open>Max\<close> at a later time returns the largest sample whose time lies in the window, and
  nothing exactly when the window holds no sample, although most samples were discarded on the way.
\<close>

theorem moving_max_correct:
  assumes "sorted (map fst ps)" "0 \<le> w" "\<forall>(t, s) \<in> set ps. int64_min \<le> t \<and> time_ok w t \<and> t \<le> now"
    "int64_min \<le> now" "time_ok w now"
  shows "\<exists>m m' r. add_all ps (MovingMaxCounter w) = Inr m \<and> Max_at now m = Inr (r, m') \<and> (case r of
      None \<Rightarrow> \<forall>(t, s) \<in> set ps. t < now - w
    | Some x \<Rightarrow> (\<exists>t. (t, x) \<in> set ps \<and> now - w \<le> t) \<and> (\<forall>(t, s) \<in> set ps. now - w \<le> t \<longrightarrow> s \<le> x))"
proof -
  let ?m0 = "MovingMaxCounter w"
  have "keeps_window {} ?m0" by (simp add: keeps_window_def MovingMaxCounter_def covers_def)
  moreover have "sorted (last_call_time_ms ?m0 # map fst ps)"
    using assms(1,3) by (auto simp: MovingMaxCounter_def)
  ultimately obtain m where m: "add_all ps ?m0 = Inr m" "keeps_window (set ps) m"
    "last_call_time_ms m = last (int64_min # map fst ps)" "window_length_ms m = w"
    using add_all_ok [of "{}" ?m0 ps] assms(2,3) by (auto simp: MovingMaxCounter_def)
  have "last (int64_min # map fst ps) \<le> now"
    using assms(3,4) by (cases ps rule: rev_cases) auto
  then show ?thesis
    using Max_ok [OF m(2), of now] m(1,3,4) assms(5) by auto
qed

theorem moving_max_correct_witness:
  "\<exists>m m' r. add_all [(0, 9), (5, 3), (8, 4 :: nat)] (MovingMaxCounter 5) = Inr m \<and> Max_at 9 m = Inr (r, m') \<and>
     r \<noteq> None"
proof -
  let ?ps = "[(0, 9), (5, 3), (8, 4)] :: (int \<times> nat) list"
  obtain m m' r where r: "add_all ?ps (MovingMaxCounter 5) = Inr m" "Max_at 9 m = Inr (r, m')"
    "case r of None \<Rightarrow> \<forall>(t, s) \<in> set ?ps. t < 9 - 5
       | Some x \<Rightarrow> (\<exists>t. (t, x) \<in> set ?ps \<and> 9 - 5 \<le> t) \<and> (\<forall>(t, s) \<in> set ?ps. 9 - 5 \<le> t \<longrightarrow> s \<le> x)"
    using moving_max_correct [of ?ps 5 9] by (auto simp: time_ok_def in_int64_def)
  then have "r \<noteq> None" by (auto split: option.splits)
  then show ?thesis using r by blast
qed

end
