(* ===== verification/Percentile.thy ===== *)
theory Percentile
  imports Prelude "HOL-Library.Multiset"
begin

text \<open>
  rtc_base/numerics/percentile_filter.h and moving_median_filter.h: order statistics of a changing
  group of samples. A \<open>std::multiset\<close> is its sorted list, an iterator into it the position of its
  element; an insertion or an erasure before that element moves the position, as the element itself
  stays. Dereferencing or advancing an iterator outside the container is a fault.

  The target index is computed in \<open>float\<close>. A float between 0 and 1 is \<open>mant / 2 ^ scale\<close>, a
  conversion and a product round to 24 significant bits, ties to even.
\<close>

section \<open>The float arithmetic of the target index\<close>

record unit_float =
  mant :: nat
  scale :: nat

definition wf_float :: "unit_float \<Rightarrow> bool" where
  "wf_float p \<longleftrightarrow> mant p \<le> 2 ^ 24 \<and> mant p \<le> 2 ^ scale p"

definition half_float :: unit_float where
  "half_float = \<lparr>mant = 1, scale = 1\<rparr>"

text \<open>The number of low bits that do not fit into the significand.\<close>

fun excess :: "nat \<Rightarrow> nat" where
  "excess v = (if v < 2 ^ 24 then 0 else Suc (excess (v div 2)))"

declare excess.simps [simp del]

definition round_even :: "nat \<Rightarrow> nat \<Rightarrow> nat" where
  "round_even v s =
     (let q = v div 2 ^ s; r = v mod 2 ^ s in
      if 2 ^ s < 2 * r \<or> (2 ^ s = 2 * r \<and> odd q) then q + 1 else q)"

definition to_float :: "nat \<Rightarrow> nat" where
  "to_float v = round_even v (excess v) * 2 ^ excess v"

definition percentile_target :: "unit_float \<Rightarrow> nat \<Rightarrow> nat" where
  "percentile_target p n = to_float (mant p * to_float n) div 2 ^ scale p"

section \<open>PercentileFilter\<close>

record 'a percentile_filter =
  percentile :: unit_float
  pf_set :: "'a list"
  percentile_it :: nat
  percentile_index :: int

definition PercentileFilter :: "unit_float \<Rightarrow> 'a percentile_filter res" where
  "PercentileFilter p =
     check (mant p \<le> 2 ^ scale p)
       (Inr \<lparr>percentile = p, pf_set = [], percentile_it = 0, percentile_index = 0\<rparr>)"

definition advance :: "'b list \<Rightarrow> nat \<Rightarrow> int \<Rightarrow> nat res" where
  "advance xs it d = guardr OutOfRange (0 \<le> int it + d \<and> int it + d \<le> int (length xs)) (Inr (nat (int it + d)))"

definition deref_it :: "'b list \<Rightarrow> nat \<Rightarrow> 'b res" where
  "deref_it xs it = (if it < length xs then Inr (xs ! it) else Inl OutOfRange)"

definition UpdatePercentileIterator :: "'a percentile_filter \<Rightarrow> 'a percentile_filter res" where
  "UpdatePercentileIterator f =
     (if pf_set f = [] then Inr f
      else let index = int (percentile_target (percentile f) (length (pf_set f) - 1)) in
           rbind (advance (pf_set f) (percentile_it f) (index - percentile_index f)) (\<lambda>it.
           Inr (f\<lparr>percentile_it := it, percentile_index := index\<rparr>)))"

text \<open>\<open>std::multiset::insert\<close> puts the element at the upper bound of its equals.\<close>

definition set_insert :: "'a::linorder \<Rightarrow> 'a percentile_filter \<Rightarrow> 'a percentile_filter" where
  "set_insert v f =
     (let xs = pf_set f; pos = length (takeWhile (\<lambda>x. x \<le> v) xs) in
      f\<lparr>pf_set := take pos xs @ v # drop pos xs,
        percentile_it := (if pos \<le> percentile_it f then percentile_it f + 1 else percentile_it f)\<rparr>)"

definition Insert :: "'a::linorder \<Rightarrow> 'a percentile_filter \<Rightarrow> 'a percentile_filter res" where
  "Insert value f =
     (let f = set_insert value f in
      if length (pf_set f) = 1
      then UpdatePercentileIterator (f\<lparr>percentile_it := 0, percentile_index := 0\<rparr>)
      else rbind (deref_it (pf_set f) (percentile_it f)) (\<lambda>y.
           UpdatePercentileIterator
             (if value < y then f\<lparr>percentile_index := percentile_index f + 1\<rparr> else f)))"

definition Erase :: "'a::linorder \<Rightarrow> 'a percentile_filter \<Rightarrow> (bool \<times> 'a percentile_filter) res" where
  "Erase value f =
     (let xs = pf_set f; it = length (takeWhile (\<lambda>x. x < value) xs) in
      if it = length xs \<or> xs ! it \<noteq> value then Inr (False, f)
      else let erased = take it xs @ drop (Suc it) xs in
        rbind (if it = percentile_it f
               then Inr (f\<lparr>pf_set := erased, percentile_it := it\<rparr>)
               else let pit = (if it < percentile_it f then percentile_it f - 1 else percentile_it f);
                        f = f\<lparr>pf_set := erased, percentile_it := pit\<rparr> in
                    rbind (deref_it erased pit) (\<lambda>y.
                    Inr (if value \<le> y then f\<lparr>percentile_index := percentile_index f - 1\<rparr> else f)))
          (\<lambda>f. rbind (UpdatePercentileIterator f) (\<lambda>f. Inr (True, f))))"

definition GetPercentileValue :: "'a::zero percentile_filter \<Rightarrow> 'a res" where
  "GetPercentileValue f = (if pf_set f = [] then Inr 0 else deref_it (pf_set f) (percentile_it f))"

definition pf_Reset :: "'a percentile_filter \<Rightarrow> 'a percentile_filter" where
  "pf_Reset f = f\<lparr>pf_set := [], percentile_it := 0, percentile_index := 0\<rparr>"

section \<open>MovingMedianFilter\<close>

record 'a moving_median =
  percentile_filter :: "'a percentile_filter"
  mm_samples :: "'a list"
  samples_stored :: nat
  window_size :: nat

definition MovingMedianFilter :: "nat \<Rightarrow> 'a moving_median res" where
  "MovingMedianFilter w =
     rbind (PercentileFilter half_float) (\<lambda>f.
     check (w > 0) (Inr \<lparr>percentile_filter = f, mm_samples = [], samples_stored = 0, window_size = w\<rparr>))"

definition mm_Insert :: "'a::linorder \<Rightarrow> 'a moving_median \<Rightarrow> 'a moving_median res" where
  "mm_Insert value m =
     rbind (Insert value (percentile_filter m)) (\<lambda>f.
     let samples = mm_samples m @ [value]; stored = samples_stored m + 1;
         m = m\<lparr>percentile_filter := f, mm_samples := samples, samples_stored := stored\<rparr> in
     if stored > window_size m
     then rbind (Erase (hd samples) f) (\<lambda>(_, f).
          Inr (m\<lparr>percentile_filter := f, mm_samples := tl samples, samples_stored := stored - 1\<rparr>))
     else Inr m)"

definition GetFilteredValue :: "'a::zero moving_median \<Rightarrow> 'a res" where
  "GetFilteredValue m = GetPercentileValue (percentile_filter m)"

definition mm_Reset :: "'a moving_median \<Rightarrow> 'a moving_median" where
  "mm_Reset m = m\<lparr>percentile_filter := pf_Reset (percentile_filter m), mm_samples := [], samples_stored := 0\<rparr>"

definition GetNumberOfSamplesStored :: "'a moving_median \<Rightarrow> nat" where
  "GetNumberOfSamplesStored m = samples_stored m"

section \<open>The target index stays inside the container\<close>

lemma excess_small: "v < 2 ^ 24 \<Longrightarrow> excess v = 0"
  by (simp add: excess.simps)

lemma excess_bound: "excess v \<noteq> 0 \<Longrightarrow> 2 ^ (excess v + 23) \<le> v"
proof (induction v rule: excess.induct)
  case (1 v)
  then have big: "\<not> v < 2 ^ 24" by (auto simp: excess.simps)
  show ?case
  proof (cases "excess (v div 2) = 0")
    case True
    then show ?thesis using big by (simp add: excess.simps [of v])
  next
    case False
    then have "2 ^ (excess (v div 2) + 23) \<le> v div 2" using 1(1) big by simp
    then have "2 * 2 ^ (excess (v div 2) + 23) \<le> v" by linarith
    moreover have "excess v + 23 = Suc (excess (v div 2) + 23)" using big by (simp add: excess.simps [of v])
    ultimately show ?thesis by (simp only: power_Suc)
  qed
qed

lemma to_float_small: "v < 2 ^ 24 \<Longrightarrow> to_float v = v"
  by (simp add: to_float_def round_even_def excess_small)

lemma round_even_le:
  assumes "v \<le> b * 2 ^ s"
  shows "round_even v s \<le> b"
proof (cases "v div 2 ^ s = b")
  case True
  then have "v mod 2 ^ s = 0"
    using assms div_mult_mod_eq [of v "2 ^ s"] by simp
  then show ?thesis using True by (simp add: round_even_def Let_def)
next
  case False
  have "v div 2 ^ s \<le> b" using div_le_mono [OF assms, of "2 ^ s"] by simp
  with False have "v div 2 ^ s + 1 \<le> b" by simp
  then show ?thesis by (simp add: round_even_def Let_def)
qed

text \<open>Rounding does not pass a number of at most 24 significant bits.\<close>

lemma to_float_le:
  assumes "v \<le> n * 2 ^ k" "n \<le> 2 ^ 24"
  shows "to_float v \<le> n * 2 ^ k"
proof (cases "excess v \<le> k")
  case True
  then have e: "n * 2 ^ k = n * 2 ^ (k - excess v) * 2 ^ excess v"
    by (simp add: mult.assoc flip: power_add)
  have "round_even v (excess v) \<le> n * 2 ^ (k - excess v)"
    by (rule round_even_le) (use assms(1) e in simp)
  then show ?thesis unfolding to_float_def e by (rule mult_le_mono1)
next
  case False
  then have "2 ^ (excess v + 23) \<le> v" by (intro excess_bound) simp
  moreover have "(2::nat) ^ (k + 24) \<le> 2 ^ (excess v + 23)" using False by (intro power_increasing) auto
  moreover have "n * 2 ^ k \<le> 2 ^ (k + 24)" using assms(2) by (simp add: power_add mult.commute)
  ultimately have v: "v = n * 2 ^ k" "v = 2 ^ (excess v + 23)" "v = 2 ^ (k + 24)" using assms(1) by linarith+
  have "round_even v (excess v) \<le> 2 ^ 23"
    by (rule round_even_le) (use v(2) in \<open>simp add: power_add mult.commute\<close>)
  then have "to_float v \<le> 2 ^ 23 * 2 ^ excess v" unfolding to_float_def by (rule mult_le_mono1)
  also have "\<dots> = v" using v(2) by (simp add: power_add mult.commute)
  finally show ?thesis using v(1) by simp
qed

lemma to_float_id: "n \<le> 2 ^ 24 \<Longrightarrow> to_float n = n"
proof (cases "n = 2 ^ 24")
  case True
  have "excess (2 ^ 24) = 1" by (simp add: excess.simps)
  then show ?thesis using True by (simp add: to_float_def round_even_def)
qed (simp add: to_float_small)

lemma percentile_target_le:
  assumes "wf_float p" "n \<le> 2 ^ 24"
  shows "percentile_target p n \<le> n"
proof -
  have "mant p * to_float n \<le> n * 2 ^ scale p"
    using assms by (simp add: wf_float_def to_float_id mult.commute)
  then have "to_float (mant p * to_float n) \<le> n * 2 ^ scale p"
    using assms(2) by (rule to_float_le)
  then have "to_float (mant p * to_float n) div 2 ^ scale p \<le> n * 2 ^ scale p div 2 ^ scale p"
    by (rule div_le_mono)
  then show ?thesis by (simp add: percentile_target_def)
qed

lemma half_target: "n < 2 ^ 24 \<Longrightarrow> percentile_target half_float n = n div 2"
  by (simp add: percentile_target_def half_float_def to_float_small)

section \<open>The operations on a well-formed filter\<close>

definition pf_ok :: "'a::linorder percentile_filter \<Rightarrow> bool" where
  "pf_ok f \<longleftrightarrow> wf_float (percentile f) \<and> sorted (pf_set f) \<and>
     (pf_set f \<noteq> [] \<longrightarrow> percentile_it f = percentile_target (percentile f) (length (pf_set f) - 1) \<and>
        percentile_index f = int (percentile_it f))"

definition pf_capacity :: nat where
  "pf_capacity = 2 ^ 24 + 1"

lemma pf_it_less:
  assumes "pf_ok f" "pf_set f \<noteq> []" "length (pf_set f) \<le> pf_capacity"
  shows "percentile_it f < length (pf_set f)"
proof -
  have "percentile_target (percentile f) (length (pf_set f) - 1) \<le> length (pf_set f) - 1"
    using assms by (intro percentile_target_le) (auto simp: pf_ok_def pf_capacity_def)
  then show ?thesis using assms by (cases "pf_set f") (auto simp: pf_ok_def)
qed

lemma UpdatePercentileIterator_ok:
  assumes "wf_float (percentile f)" "sorted (pf_set f)" "length (pf_set f) \<le> pf_capacity"
    "pf_set f \<noteq> [] \<longrightarrow> percentile_index f = int (percentile_it f)"
  shows "\<exists>f'. UpdatePercentileIterator f = Inr f' \<and> pf_ok f' \<and> pf_set f' = pf_set f \<and>
    percentile f' = percentile f"
proof (cases "pf_set f = []")
  case True
  then show ?thesis using assms by (simp add: UpdatePercentileIterator_def pf_ok_def)
next
  case False
  have "percentile_target (percentile f) (length (pf_set f) - 1) \<le> length (pf_set f) - 1"
    using assms by (intro percentile_target_le) (auto simp: pf_capacity_def)
  then have "percentile_target (percentile f) (length (pf_set f) - Suc 0) \<le> length (pf_set f)" by simp
  then show ?thesis using False assms
    by (simp add: UpdatePercentileIterator_def advance_def pf_ok_def Let_def)
qed

lemma takeWhile_split:
  shows "i < length (takeWhile P xs) \<Longrightarrow> P (xs ! i)"
    and "length (takeWhile P xs) < length xs \<Longrightarrow> \<not> P (xs ! length (takeWhile P xs))"
proof -
  assume i: "i < length (takeWhile P xs)"
  then have "takeWhile P xs ! i \<in> set (takeWhile P xs)" by (rule nth_mem)
  then show "P (xs ! i)" using takeWhile_nth [OF i] by (auto dest: set_takeWhileD)
qed (rule nth_length_takeWhile)

lemma upper_bound_insert:
  fixes xs :: "'a::linorder list"
  assumes "sorted xs" and pos: "pos = length (takeWhile (\<lambda>x. x \<le> v) xs)"
  shows "sorted (take pos xs @ v # drop pos xs)" "mset (take pos xs @ v # drop pos xs) = add_mset v (mset xs)"
proof -
  have t: "take pos xs = takeWhile (\<lambda>x. x \<le> v) xs" and d: "drop pos xs = dropWhile (\<lambda>x. x \<le> v) xs"
    unfolding pos by (rule takeWhile_eq_take [symmetric], rule dropWhile_eq_drop [symmetric])
  have "\<forall>y \<in> set (dropWhile (\<lambda>x. x \<le> v) xs). v \<le> y"
  proof (cases "dropWhile (\<lambda>x. x \<le> v) xs")
    case (Cons y ys)
    then have "\<not> y \<le> v" by (metis dropWhile_eq_Cons_conv)
    moreover have "sorted (y # ys)" using assms(1) Cons d sorted_wrt_drop by metis
    ultimately show ?thesis using Cons by auto
  qed (simp only: list.set ball_empty)
  moreover have "\<forall>x \<in> set (takeWhile (\<lambda>x. x \<le> v) xs). x \<le> v" by (auto dest: set_takeWhileD)
  moreover have "sorted (drop pos xs)" "sorted (take pos xs)" using assms(1) by (simp_all add: sorted_wrt_drop sorted_wrt_take)
  ultimately show "sorted (take pos xs @ v # drop pos xs)"
    unfolding t d by (fastforce simp: sorted_append)
  show "mset (take pos xs @ v # drop pos xs) = add_mset v (mset xs)"
  proof -
    have "mset (take pos xs) + mset (drop pos xs) = mset xs" by (simp flip: mset_append)
    then show ?thesis by simp
  qed
qed

lemma set_insert_it:
  assumes "pf_ok f" "pf_set f \<noteq> []" "length (pf_set f) \<le> pf_capacity"
  defines "i \<equiv> percentile_it f" and "x \<equiv> pf_set f ! percentile_it f"
  shows "percentile_it (set_insert v f) = (if v < x then i + 1 else i)"
    "pf_set (set_insert v f) ! percentile_it (set_insert v f) = x"
    "percentile_it (set_insert v f) < length (pf_set (set_insert v f))"
proof -
  let ?pos = "length (takeWhile (\<lambda>x. x \<le> v) (pf_set f))"
  have s: "sorted (pf_set f)" using assms(1) by (simp add: pf_ok_def)
  have i: "i < length (pf_set f)" using pf_it_less [OF assms(1-3)] by (simp add: i_def)
  have p: "?pos \<le> i \<longleftrightarrow> v < x"
  proof
    assume "?pos \<le> i"
    then have "\<not> pf_set f ! ?pos \<le> v" using takeWhile_split(2) [of "\<lambda>x. x \<le> v" "pf_set f"] i by force
    then show "v < x" using sorted_nth_mono [OF s \<open>?pos \<le> i\<close> i] by (simp add: x_def i_def)
  next
    assume "v < x"
    then show "?pos \<le> i" using takeWhile_split(1) [of i "\<lambda>x. x \<le> v" "pf_set f"] by (force simp: x_def i_def)
  qed
  show "percentile_it (set_insert v f) = (if v < x then i + 1 else i)"
    using p by (simp add: set_insert_def Let_def i_def)
  then show "pf_set (set_insert v f) ! percentile_it (set_insert v f) = x"
    using p i length_takeWhile_le [of "\<lambda>x. x \<le> v" "pf_set f"]
    by (auto simp: set_insert_def Let_def nth_append x_def i_def min_absorb2)
  show "percentile_it (set_insert v f) < length (pf_set (set_insert v f))"
    using p i length_takeWhile_le [of "\<lambda>x. x \<le> v" "pf_set f"]
    by (auto simp: set_insert_def Let_def i_def)
qed

lemma set_insert_set:
  assumes "pf_ok f"
  shows "sorted (pf_set (set_insert v f))" "mset (pf_set (set_insert v f)) = add_mset v (mset (pf_set f))"
    "length (pf_set (set_insert v f)) = Suc (length (pf_set f))" "percentile (set_insert v f) = percentile f"
    "percentile_index (set_insert v f) = percentile_index f"
proof -
  have s: "sorted (pf_set f)" using assms by (simp add: pf_ok_def)
  show "sorted (pf_set (set_insert v f))" "mset (pf_set (set_insert v f)) = add_mset v (mset (pf_set f))"
    using upper_bound_insert [OF s refl, of v] by (simp_all add: set_insert_def Let_def)
  then show "length (pf_set (set_insert v f)) = Suc (length (pf_set f))" by (metis size_mset size_add_mset)
qed (simp_all add: set_insert_def Let_def)

lemma pf_Insert_ok:
  assumes "pf_ok f" "length (pf_set f) < pf_capacity"
  shows "\<exists>f'. Insert v f = Inr f' \<and> pf_ok f' \<and> mset (pf_set f') = add_mset v (mset (pf_set f)) \<and>
    percentile f' = percentile f"
proof -
  note g = set_insert_set [OF assms(1), of v]
  let ?g = "set_insert v f"
  have wf: "wf_float (percentile f)" using assms(1) by (simp add: pf_ok_def)
  show ?thesis
  proof (cases "pf_set f = []")
    case True
    then show ?thesis
      using UpdatePercentileIterator_ok [of "?g\<lparr>percentile_it := 0, percentile_index := 0\<rparr>"] g wf
      by (auto simp: Insert_def pf_capacity_def)
  next
    case False
    let ?y = "pf_set f ! percentile_it f"
    let ?h = "if v < ?y then ?g\<lparr>percentile_index := percentile_index ?g + 1\<rparr> else ?g"
    note it = set_insert_it [OF assms(1) False, of v]
    have "percentile_index f = int (percentile_it f)" using assms(1) False by (simp add: pf_ok_def)
    then have "\<exists>f'. UpdatePercentileIterator ?h = Inr f' \<and> pf_ok f' \<and> pf_set f' = pf_set ?h \<and>
        percentile f' = percentile ?h"
      using it(1) assms(2) g wf by (intro UpdatePercentileIterator_ok) auto
    moreover have "Insert v f = UpdatePercentileIterator ?h"
      using it(2,3) assms(2) False g by (simp add: Insert_def deref_it_def)
    ultimately show ?thesis using g by (auto split: if_splits)
  qed
qed

lemma drop_nth_mset:
  assumes "i < length xs"
  shows "mset (take i xs @ drop (Suc i) xs) = mset xs - {#xs ! i#}"
  using arg_cong [OF id_take_nth_drop [OF assms], of mset] by simp

lemma sorted_remove_nth:
  assumes "sorted xs" "i < length xs"
  shows "sorted (take i xs @ drop (Suc i) xs)"
proof -
  have "sorted (take i xs @ xs ! i # drop (Suc i) xs)" using assms id_take_nth_drop by metis
  then show ?thesis by (auto simp: sorted_append)
qed

lemma lower_bound_absent:
  fixes xs :: "'a::linorder list"
  assumes "sorted xs" and it: "it = length (takeWhile (\<lambda>x. x < v) xs)"
  shows "it = length xs \<or> xs ! it \<noteq> v \<longleftrightarrow> v \<notin> set xs"
proof
  assume l: "it = length xs \<or> xs ! it \<noteq> v"
  show "v \<notin> set xs"
  proof
    assume "v \<in> set xs"
    then obtain k where k: "k < length xs" "xs ! k = v" by (auto simp: in_set_conv_nth)
    then have "it \<le> k" using takeWhile_split(1) [of k "\<lambda>x. x < v" xs] it by force
    then have "xs ! it \<le> v" "it < length xs" using sorted_nth_mono [OF assms(1) _ k(1)] k by auto
    moreover have "\<not> xs ! it < v" using takeWhile_split(2) [of "\<lambda>x. x < v" xs] it \<open>it < length xs\<close> by simp
    ultimately show False using l by auto
  qed
next
  assume "v \<notin> set xs"
  then show "it = length xs \<or> xs ! it \<noteq> v"
    using length_takeWhile_le [of "\<lambda>x. x < v" xs] it nth_mem [of it xs] by fastforce
qed

text \<open>The two branches of \<open>Erase\<close> that keep the position of the percentile element and its index equal.\<close>

lemma erase_shift:
  fixes f :: "'a::linorder percentile_filter"
  assumes "pf_ok f" "length (pf_set f) \<le> pf_capacity" "v \<in> set (pf_set f)"
    and it: "it = length (takeWhile (\<lambda>x. x < v) (pf_set f))" and "it \<noteq> percentile_it f"
  defines "xs \<equiv> take it (pf_set f) @ drop (Suc it) (pf_set f)"
    and "pit \<equiv> if it < percentile_it f then percentile_it f - 1 else percentile_it f"
  shows "pit < length xs" "v \<le> xs ! pit \<longleftrightarrow> it < percentile_it f"
proof -
  have s: "sorted (pf_set f)" and ne: "pf_set f \<noteq> []" using assms(1,3) by (auto simp: pf_ok_def)
  have i: "percentile_it f < length (pf_set f)" using pf_it_less [OF assms(1) ne assms(2)] .
  have l: "it < length (pf_set f)" "pf_set f ! it = v"
    using lower_bound_absent [OF s it] assms(3) length_takeWhile_le [of "\<lambda>x. x < v" "pf_set f"] it by auto
  show "pit < length xs" using i l(1) assms(5) by (auto simp: xs_def pit_def)
  show "v \<le> xs ! pit \<longleftrightarrow> it < percentile_it f"
  proof (cases "it < percentile_it f")
    case True
    then have "xs ! pit = pf_set f ! percentile_it f"
      using l(1) i by (auto simp: xs_def pit_def nth_append min_absorb2)
    then show ?thesis using True sorted_nth_mono [OF s, of it "percentile_it f"] i l by simp
  next
    case False
    then have "xs ! pit = pf_set f ! percentile_it f" "percentile_it f < it"
      using l(1) assms(5) by (auto simp: xs_def pit_def nth_append min_absorb2)
    then show ?thesis using False takeWhile_split(1) [of "percentile_it f" "\<lambda>x. x < v" "pf_set f"] it by force
  qed
qed

lemma pf_Erase_ok:
  assumes "pf_ok f" "length (pf_set f) \<le> pf_capacity"
  shows "\<exists>f'. Erase v f = Inr (v \<in> set (pf_set f), f') \<and> pf_ok f' \<and>
    mset (pf_set f') = mset (pf_set f) - {#v#} \<and> percentile f' = percentile f"
proof -
  define it where "it = length (takeWhile (\<lambda>x. x < v) (pf_set f))"
  have s: "sorted (pf_set f)" and wf: "wf_float (percentile f)" using assms(1) by (auto simp: pf_ok_def)
  note absent = lower_bound_absent [OF s it_def]
  show ?thesis
  proof (cases "v \<in> set (pf_set f)")
    case False
    then have "Erase v f = Inr (False, f)" using absent by (simp add: Erase_def Let_def it_def)
    moreover have "mset (pf_set f) - {#v#} = mset (pf_set f)" using False by (simp add: diff_single_trivial)
    ultimately show ?thesis using False assms by simp
  next
    case True
    define xs where "xs = take it (pf_set f) @ drop (Suc it) (pf_set f)"
    define pit where "pit = (if it < percentile_it f then percentile_it f - 1 else percentile_it f)"
    define h where "h = f\<lparr>pf_set := xs, percentile_it := pit,
      percentile_index := (if it < percentile_it f then percentile_index f - 1 else percentile_index f)\<rparr>"
    have l: "it < length (pf_set f)" "pf_set f ! it = v"
      using absent True length_takeWhile_le [of "\<lambda>x. x < v" "pf_set f"] it_def by auto
    have ix: "percentile_index f = int (percentile_it f)" using assms(1) True by (auto simp: pf_ok_def)
    have "sorted xs"
      using sorted_remove_nth [OF s l(1)] by (simp only: xs_def)
    moreover have m: "mset xs = mset (pf_set f) - {#v#}" unfolding xs_def using drop_nth_mset [OF l(1)] l(2) by simp
    moreover have "length xs \<le> pf_capacity" using assms(2) unfolding xs_def by simp
    ultimately have "\<exists>f'. UpdatePercentileIterator h = Inr f' \<and> pf_ok f' \<and> pf_set f' = pf_set h \<and>
        percentile f' = percentile h"
      using wf ix by (intro UpdatePercentileIterator_ok) (auto simp: h_def pit_def)
    then obtain f' where f': "UpdatePercentileIterator h = Inr f'" "pf_ok f'" "pf_set f' = xs"
      "percentile f' = percentile f" by (auto simp: h_def)
    have "Erase v f = rbind (UpdatePercentileIterator h) (\<lambda>f. Inr (True, f))"
    proof (cases "it = percentile_it f")
      case True
      then have "h = f\<lparr>pf_set := xs, percentile_it := it\<rparr>" by (simp add: h_def pit_def)
      then show ?thesis using True l by (simp add: Erase_def Let_def xs_def flip: it_def)
    next
      case False
      note e = erase_shift [OF assms True it_def False, folded xs_def pit_def]
      have h: "h = (if v \<le> xs ! pit then f\<lparr>pf_set := xs, percentile_it := pit, percentile_index := percentile_index f - 1\<rparr>
        else f\<lparr>pf_set := xs, percentile_it := pit\<rparr>)"
        using e(2) by (simp add: h_def)
      have "Erase v f = rbind (rbind (deref_it xs pit) (\<lambda>y. Inr (if v \<le> y
          then f\<lparr>pf_set := xs, percentile_it := pit, percentile_index := percentile_index f - 1\<rparr>
          else f\<lparr>pf_set := xs, percentile_it := pit\<rparr>)))
        (\<lambda>f. rbind (UpdatePercentileIterator f) (\<lambda>f. Inr (True, f)))"
        unfolding Erase_def Let_def it_def [symmetric] xs_def [symmetric] pit_def [symmetric]
        using False l by (simp cong: if_cong)
      then show ?thesis unfolding h using e(1) by (simp only: deref_it_def if_True rbind.simps)
    qed
    then show ?thesis using f' m True by simp
  qed
qed

section \<open>The filters against multisets and windows\<close>

lemma GetPercentileValue_ok:
  fixes f :: "'a::{linorder, zero} percentile_filter"
  assumes "pf_ok f" "length (pf_set f) \<le> pf_capacity"
  shows "GetPercentileValue f =
    Inr (if pf_set f = [] then 0 else pf_set f ! percentile_target (percentile f) (length (pf_set f) - 1))"
  using assms pf_it_less [OF assms(1) _ assms(2)]
  by (auto simp: GetPercentileValue_def deref_it_def pf_ok_def)

datatype 'a pf_op = PInsert 'a | PErase 'a | PReset

fun pf_run :: "'a::linorder pf_op list \<Rightarrow> 'a percentile_filter \<Rightarrow> (bool list \<times> 'a percentile_filter) res" where
  "pf_run [] f = Inr ([], f)"
| "pf_run (PInsert v # ops) f = rbind (Insert v f) (pf_run ops)"
| "pf_run (PErase v # ops) f =
     rbind (Erase v f) (\<lambda>(b, f). rbind (pf_run ops f) (\<lambda>(bs, f). Inr (b # bs, f)))"
| "pf_run (PReset # ops) f = pf_run ops (pf_Reset f)"

text \<open>The specification: a multiset, with the answers of the erasures.\<close>

fun pf_spec :: "'a pf_op list \<Rightarrow> 'a multiset \<Rightarrow> bool list \<times> 'a multiset" where
  "pf_spec [] M = ([], M)"
| "pf_spec (PInsert v # ops) M = pf_spec ops (add_mset v M)"
| "pf_spec (PErase v # ops) M = (let (bs, N) = pf_spec ops (M - {#v#}) in ((v \<in># M) # bs, N))"
| "pf_spec (PReset # ops) M = pf_spec ops {#}"

text \<open>At no time more samples are held than the float arithmetic can count.\<close>

fun pf_fits :: "'a pf_op list \<Rightarrow> 'a multiset \<Rightarrow> bool" where
  "pf_fits [] M \<longleftrightarrow> size M \<le> pf_capacity"
| "pf_fits (PInsert v # ops) M \<longleftrightarrow> size M \<le> pf_capacity \<and> pf_fits ops (add_mset v M)"
| "pf_fits (PErase v # ops) M \<longleftrightarrow> size M \<le> pf_capacity \<and> pf_fits ops (M - {#v#})"
| "pf_fits (PReset # ops) M \<longleftrightarrow> size M \<le> pf_capacity \<and> pf_fits ops {#}"

lemma pf_fits_now: "pf_fits ops M \<Longrightarrow> size M \<le> pf_capacity"
  by (cases "(ops, M)" rule: pf_fits.cases) auto

lemma pf_Reset_ok: "pf_ok f \<Longrightarrow> pf_ok (pf_Reset f) \<and> pf_set (pf_Reset f) = [] \<and> percentile (pf_Reset f) = percentile f"
  by (simp add: pf_ok_def pf_Reset_def)

lemma pf_run_ok:
  assumes "pf_ok f" "pf_fits ops (mset (pf_set f))"
  shows "\<exists>bs f'. pf_run ops f = Inr (bs, f') \<and> pf_ok f' \<and> percentile f' = percentile f \<and>
    pf_spec ops (mset (pf_set f)) = (bs, mset (pf_set f')) \<and> length (pf_set f') \<le> pf_capacity"
  using assms
proof (induction ops arbitrary: f)
  case (Cons op ops)
  have held: "length (pf_set f) \<le> pf_capacity" using pf_fits_now [OF Cons.prems(2)] by simp
  show ?case
  proof (cases op)
    case (PInsert v)
    have "size (add_mset v (mset (pf_set f))) \<le> pf_capacity" using pf_fits_now [of ops] Cons.prems(2) PInsert by (auto simp del: size_add_mset)
    then obtain g where g: "Insert v f = Inr g" "pf_ok g" "mset (pf_set g) = add_mset v (mset (pf_set f))"
      "percentile g = percentile f"
      using pf_Insert_ok [of f v] Cons.prems(1) by auto
    then show ?thesis using Cons.IH [of g] Cons.prems(2) PInsert by auto
  next
    case (PErase v)
    obtain g where g: "Erase v f = Inr (v \<in> set (pf_set f), g)" "pf_ok g"
      "mset (pf_set g) = mset (pf_set f) - {#v#}" "percentile g = percentile f"
      using pf_Erase_ok [of f v] Cons.prems(1) held by auto
    then show ?thesis using Cons.IH [of g] Cons.prems(2) PErase by auto
  next
    case PReset
    then show ?thesis using Cons.IH [of "pf_Reset f"] Cons.prems pf_Reset_ok [of f] by auto
  qed
qed simp

text \<open>
  C32. The percentile filter is an order statistic: after any sequence of insertions, erasures and
  resets that never holds more than \<open>2 ^ 24 + 1\<close> samples at a time, the erasures have answered whether the value was
  there, and the value the filter returns is the element of the sorted remaining samples at index
  \<open>floor (percentile * (n - 1))\<close>, computed in \<open>float\<close> with rounding to 24 bits; no iterator ever leaves the container. The
  percentile is a \<open>float\<close> between 0 and 1.
\<close>

theorem percentile_filter_correct:
  fixes ops :: "'a::{linorder, zero} pf_op list"
  assumes "wf_float p" "pf_fits ops {#}"
  shows "\<exists>f0 bs f M. PercentileFilter p = Inr f0 \<and> pf_run ops f0 = Inr (bs, f) \<and> pf_spec ops {#} = (bs, M) \<and>
    GetPercentileValue f =
      Inr (if M = {#} then 0 else sorted_list_of_multiset M ! percentile_target p (size M - 1))"
proof -
  let ?f0 = "\<lparr>percentile = p, pf_set = [], percentile_it = 0, percentile_index = 0\<rparr>"
  have f0: "PercentileFilter p = Inr ?f0" "pf_ok ?f0"
    using assms(1) by (simp_all add: PercentileFilter_def wf_float_def pf_ok_def)
  obtain bs f where f: "pf_run ops ?f0 = Inr (bs, f)" "pf_ok f" "percentile f = p"
    "pf_spec ops {#} = (bs, mset (pf_set f))" "length (pf_set f) \<le> pf_capacity"
    using pf_run_ok [OF f0(2), of ops] assms(2) by auto
  have "sorted_list_of_multiset (mset (pf_set f)) = pf_set f"
    using f(2) by (metis pf_ok_def sorted_list_of_multiset_mset sorted_sort_id)
  then show ?thesis using f0 f GetPercentileValue_ok [OF f(2,5)] by auto
qed

theorem percentile_filter_correct_witness:
  "\<exists>f0 bs f. PercentileFilter half_float = Inr f0 \<and>
     pf_run [PInsert 7, PInsert 3, PInsert (9::int), PErase 3, PErase 4, PInsert 8] f0 = Inr (bs, f) \<and>
     bs = [True, False] \<and> GetPercentileValue f = Inr 8"
  using percentile_filter_correct [of half_float "[PInsert 7, PInsert 3, PInsert (9::int), PErase 3, PErase 4, PInsert 8]"]
  by (auto simp: half_float_def wf_float_def pf_capacity_def percentile_target_def to_float_small)

fun mm_run :: "'a::linorder list \<Rightarrow> 'a moving_median \<Rightarrow> 'a moving_median res" where
  "mm_run [] m = Inr m"
| "mm_run (v # vs) m = rbind (mm_Insert v m) (mm_run vs)"

definition last_n :: "nat \<Rightarrow> 'b list \<Rightarrow> 'b list" where
  "last_n w xs = drop (length xs - w) xs"

definition mm_ok :: "nat \<Rightarrow> 'a::linorder list \<Rightarrow> 'a moving_median \<Rightarrow> bool" where
  "mm_ok w hist m \<longleftrightarrow> pf_ok (percentile_filter m) \<and> percentile (percentile_filter m) = half_float \<and>
     mm_samples m = last_n w hist \<and> samples_stored m = length (mm_samples m) \<and> window_size m = w \<and>
     mset (pf_set (percentile_filter m)) = mset (mm_samples m)"

lemma last_n_snoc: "0 < w \<Longrightarrow> last_n w (hist @ [v]) =
    (if length hist < w then last_n w hist @ [v] else tl (last_n w hist @ [v]))"
proof (cases "length hist < w")
  case False
  assume "0 < w"
  with False have "drop (Suc (length hist - w)) (hist @ [v]) = tl (drop (length hist - w) (hist @ [v]))"
    by (simp only: drop_Suc tl_drop)
  with False \<open>0 < w\<close> show ?thesis by (simp add: last_n_def Suc_diff_le)
qed (simp add: last_n_def)

lemma mm_Insert_ok:
  assumes ok: "mm_ok w hist m" and "0 < w" "w < 2 ^ 24"
  shows "\<exists>m'. mm_Insert v m = Inr m' \<and> mm_ok w (hist @ [v]) m'"
proof -
  let ?xs = "mm_samples m @ [v]"
  have len: "length (mm_samples m) = min w (length hist)" using ok by (auto simp: mm_ok_def last_n_def)
  have pl: "length (pf_set (percentile_filter m)) = length (mm_samples m)"
    using ok by (metis mm_ok_def size_mset)
  have "length (pf_set (percentile_filter m)) < pf_capacity"
    using len pl assms(3) unfolding pf_capacity_def by linarith
  then obtain f where f: "Insert v (percentile_filter m) = Inr f" "pf_ok f" "percentile f = half_float"
    "mset (pf_set f) = mset ?xs"
    using pf_Insert_ok [of "percentile_filter m" v] ok by (auto simp: mm_ok_def)
  show ?thesis
  proof (cases "length hist < w")
    case True
    then show ?thesis using ok f len assms(2)
      by (auto simp: mm_Insert_def mm_ok_def last_n_snoc Let_def)
  next
    case False
    have "length (pf_set f) = Suc (length (mm_samples m))" using f(4) by (metis size_mset length_append_singleton)
    then have "length (pf_set f) \<le> pf_capacity" using len assms(3) unfolding pf_capacity_def by linarith
    then obtain g where g: "Erase (hd ?xs) f = Inr (hd ?xs \<in> set (pf_set f), g)" "pf_ok g" "percentile g = half_float"
      "mset (pf_set g) = mset ?xs - {#hd ?xs#}"
      using pf_Erase_ok [of f "hd ?xs"] f by auto
    have "mset (pf_set g) = mset (tl ?xs)" using g(4) by (cases ?xs) auto
    then show ?thesis using ok f g len False assms(2)
      by (auto simp: mm_Insert_def mm_ok_def last_n_snoc Let_def)
  qed
qed

lemma mm_run_ok:
  assumes "mm_ok w hist m" "0 < w" "w < 2 ^ 24"
  shows "\<exists>m'. mm_run vs m = Inr m' \<and> mm_ok w (hist @ vs) m'"
  using assms(1)
proof (induction vs arbitrary: m hist)
  case (Cons v vs)
  obtain m1 where "mm_Insert v m = Inr m1" "mm_ok w (hist @ [v]) m1"
    using mm_Insert_ok [OF Cons.prems assms(2,3)] by blast
  then show ?case using Cons.IH by fastforce
qed simp

text \<open>
  The moving median: after any stream of samples the filter holds the last \<open>w\<close> of them and
  returns their lower median, the element at index \<open>(n - 1) div 2\<close> of the sorted window, and 0
  before the first sample; the erasure of the sample that leaves the window always finds it.
\<close>

theorem moving_median_correct:
  fixes vs :: "'a::{linorder, zero} list"
  assumes "0 < w" "w < 2 ^ 24"
  shows "\<exists>m0 m. MovingMedianFilter w = Inr m0 \<and> mm_run vs m0 = Inr m \<and>
    GetNumberOfSamplesStored m = min w (length vs) \<and>
    GetFilteredValue m = Inr (if vs = [] then 0 else sort (last_n w vs) ! ((min w (length vs) - 1) div 2))"
proof -
  let ?f0 = "\<lparr>percentile = half_float, pf_set = [], percentile_it = 0, percentile_index = 0\<rparr>"
  let ?m0 = "\<lparr>percentile_filter = ?f0, mm_samples = [], samples_stored = 0, window_size = w\<rparr>"
  have m0: "MovingMedianFilter w = Inr ?m0"
    using assms(1) by (simp add: MovingMedianFilter_def PercentileFilter_def half_float_def)
  have "mm_ok w [] ?m0" by (simp add: mm_ok_def last_n_def pf_ok_def wf_float_def half_float_def)
  then obtain m where m: "mm_run vs ?m0 = Inr m" "mm_ok w vs m"
    using mm_run_ok [OF _ assms, of "[]" ?m0 vs] by auto
  let ?f = "percentile_filter m"
  have f: "pf_ok ?f" "percentile ?f = half_float" "mset (pf_set ?f) = mset (last_n w vs)"
    "samples_stored m = length (last_n w vs)"
    using m(2) by (simp_all add: mm_ok_def)
  have len: "length (last_n w vs) = min w (length vs)" by (auto simp: last_n_def)
  have pl: "length (pf_set ?f) = min w (length vs)" using f(3) len by (metis size_mset)
  have "pf_set ?f = sort (last_n w vs)"
    using f(1,3) by (intro properties_for_sort [symmetric]) (auto simp: pf_ok_def)
  moreover have "percentile_target half_float (min w (length vs) - 1) = (min w (length vs) - 1) div 2"
    using assms(2) by (intro half_target) simp
  moreover have "pf_set ?f = [] \<longleftrightarrow> vs = []" using pl assms(1) by (cases vs) (auto simp: min_def split: if_splits)
  ultimately have "GetFilteredValue m = Inr (if vs = [] then 0 else sort (last_n w vs) ! ((min w (length vs) - 1) div 2))"
    using GetPercentileValue_ok [OF f(1)] f(2) pl assms(2) by (auto simp: GetFilteredValue_def pf_capacity_def)
  then show ?thesis using m0 m(1) f(4) len by (auto simp: GetNumberOfSamplesStored_def)
qed

theorem moving_median_correct_witness:
  "\<exists>m0 m. MovingMedianFilter 3 = Inr m0 \<and> mm_run [5, 1, 9, 2, 7 :: int] m0 = Inr m \<and> GetFilteredValue m = Inr 7"
  using moving_median_correct [of 3 "[5, 1, 9, 2, 7 :: int]"] by (auto simp: last_n_def)

end
