(* ===== verification/CircularDeque.thy ===== *)
theory CircularDeque
  imports Prelude
begin

text \<open>
  base/containers/circular_deque.h over base/containers/vector_buffer.h: a double-ended queue in a ring
  of raw memory. A cell of the buffer is \<open>None\<close> while it holds no object and \<open>Some x\<close> during the
  lifetime of one, so destroying or moving from a dead cell is a fault; a buffer of type \<open>T\<close> with a
  destructor and a move constructor is modelled. One cell always stays free to tell full from empty.

  An iterator is an index and the generation of the deque when it was made; the deque it belongs to is
  an argument. \<open>DCHECK\<close> is on in this build, hence the generations are part of the state. Sizes are
  natural numbers: allocation does not fail, and no buffer reaches \<open>2 ^ 64\<close> elements.
\<close>

section \<open>VectorBuffer\<close>

type_synonym 'a vector_buffer = "'a option list"

definition VectorBuffer_new :: "nat \<Rightarrow> 'a vector_buffer" where
  "VectorBuffer_new count = replicate count None"

definition vb_read :: "'a vector_buffer \<Rightarrow> nat \<Rightarrow> 'a res" where
  "vb_read b i = check (i \<le> length b)
     (if i < length b then case b ! i of None \<Rightarrow> Inl DeadObject | Some x \<Rightarrow> Inr x else Inl OutOfRange)"

definition vb_construct :: "nat \<Rightarrow> 'a \<Rightarrow> 'a vector_buffer \<Rightarrow> 'a vector_buffer res" where
  "vb_construct i x b = check (i \<le> length b) (guardr OutOfRange (i < length b) (Inr (b[i := Some x])))"

text \<open>The loop of \<open>DestructRange\<close> over the \<open>n\<close> cells from \<open>i\<close>.\<close>

fun destruct_loop :: "nat \<Rightarrow> nat \<Rightarrow> 'a vector_buffer \<Rightarrow> 'a vector_buffer res" where
  "destruct_loop i 0 b = Inr b"
| "destruct_loop i (Suc n) b = rbind (vb_read b i) (\<lambda>_. destruct_loop (Suc i) n (b[i := None]))"

definition vb_DestructRange :: "nat \<Rightarrow> nat \<Rightarrow> 'a vector_buffer \<Rightarrow> 'a vector_buffer res" where
  "vb_DestructRange s e b =
     check (s \<le> length b \<and> e \<le> length b) (check (s \<le> e) (destruct_loop s (e - s) b))"

definition RangesOverlap :: "nat \<Rightarrow> nat \<Rightarrow> nat \<Rightarrow> bool" where
  "RangesOverlap from_begin from_end to = (\<not> (to \<ge> from_end \<or> to + (from_end - from_begin) \<le> from_begin))"

text \<open>\<open>MoveRange\<close> of one object inside a buffer, and of a range into another buffer.\<close>

definition MoveRange_in :: "nat \<Rightarrow> nat \<Rightarrow> 'a vector_buffer \<Rightarrow> 'a vector_buffer res" where
  "MoveRange_in from to b =
     check (Suc from \<le> length b \<and> to \<le> length b)
       (check (\<not> RangesOverlap from (Suc from) to)
         (rbind (vb_read b from) (\<lambda>x. rbind (vb_construct to x b) (\<lambda>b. Inr (b[from := None])))))"

fun move_loop :: "nat \<Rightarrow> nat \<Rightarrow> nat \<Rightarrow> 'a vector_buffer \<Rightarrow> 'a vector_buffer \<Rightarrow> ('a vector_buffer \<times> 'a vector_buffer) res" where
  "move_loop s t 0 src dst = Inr (src, dst)"
| "move_loop s t (Suc n) src dst =
     rbind (vb_read src s) (\<lambda>x. rbind (vb_construct t x dst) (\<lambda>dst.
     move_loop (Suc s) (Suc t) n (src[s := None]) dst))"

definition MoveRange_to ::
  "'a vector_buffer \<Rightarrow> nat \<Rightarrow> nat \<Rightarrow> nat \<Rightarrow> 'a vector_buffer \<Rightarrow> ('a vector_buffer \<times> 'a vector_buffer) res" where
  "MoveRange_to src from_begin from_end to dst =
     check (from_begin \<le> length src \<and> from_end \<le> length src \<and> to \<le> length dst)
       (move_loop from_begin to (from_end - from_begin) src dst)"

section \<open>The deque and its size\<close>

record 'a circular_deque =
  cd_buffer :: "'a vector_buffer"
  cd_begin :: nat
  cd_end :: nat
  cd_generation :: u64

definition kCircularBufferInitialCapacity :: nat where
  "kCircularBufferInitialCapacity = 3"

definition circular_deque_new :: "'a circular_deque" where
  "circular_deque_new = \<lparr>cd_buffer = [], cd_begin = 0, cd_end = 0, cd_generation = 0\<rparr>"

abbreviation cd_cap :: "'a circular_deque \<Rightarrow> nat" where
  "cd_cap d \<equiv> length (cd_buffer d)"

definition cd_capacity :: "'a circular_deque \<Rightarrow> nat" where
  "cd_capacity d = (if cd_cap d = 0 then 0 else cd_cap d - 1)"

definition cd_empty :: "'a circular_deque \<Rightarrow> bool" where
  "cd_empty d \<longleftrightarrow> cd_begin d = cd_end d"

definition cd_size :: "'a circular_deque \<Rightarrow> nat" where
  "cd_size d = (if cd_begin d \<le> cd_end d then cd_end d - cd_begin d else cd_cap d - cd_begin d + cd_end d)"

definition IncrementGeneration :: "'a circular_deque \<Rightarrow> 'a circular_deque" where
  "IncrementGeneration d = d\<lparr>cd_generation := cd_generation d + 1\<rparr>"

definition CheckValidIndex :: "'a circular_deque \<Rightarrow> nat \<Rightarrow> bool" where
  "CheckValidIndex d i =
     (if cd_begin d \<le> cd_end d then cd_begin d \<le> i \<and> i < cd_end d
      else (cd_begin d \<le> i \<and> i < cd_cap d) \<or> i < cd_end d)"

definition CheckValidIndexOrEnd :: "'a circular_deque \<Rightarrow> nat \<Rightarrow> bool" where
  "CheckValidIndexOrEnd d i \<longleftrightarrow> i = cd_end d \<or> CheckValidIndex d i"

section \<open>Iterators\<close>

record deque_iterator =
  it_index :: nat
  created_generation :: u64

definition iterator_at :: "'a circular_deque \<Rightarrow> nat \<Rightarrow> deque_iterator" where
  "iterator_at d i = \<lparr>it_index = i, created_generation = cd_generation d\<rparr>"

definition cd_iter_begin :: "'a circular_deque \<Rightarrow> deque_iterator" where
  "cd_iter_begin d = iterator_at d (cd_begin d)"

definition cd_iter_end :: "'a circular_deque \<Rightarrow> deque_iterator" where
  "cd_iter_end d = iterator_at d (cd_end d)"

definition CheckUnstableUsage :: "'a circular_deque \<Rightarrow> deque_iterator \<Rightarrow> bool" where
  "CheckUnstableUsage d it \<longleftrightarrow> created_generation it = cd_generation d"

definition CheckComparable :: "deque_iterator \<Rightarrow> deque_iterator \<Rightarrow> bool" where
  "CheckComparable a b \<longleftrightarrow> created_generation a = created_generation b"

definition iter_deref :: "'a circular_deque \<Rightarrow> deque_iterator \<Rightarrow> 'a res" where
  "iter_deref d it = dcheck (CheckUnstableUsage d it)
     (dcheck (CheckValidIndex d (it_index it)) (vb_read (cd_buffer d) (it_index it)))"

definition OffsetFromBegin :: "'a circular_deque \<Rightarrow> deque_iterator \<Rightarrow> nat" where
  "OffsetFromBegin d it =
     (if it_index it \<ge> cd_begin d then it_index it - cd_begin d else cd_cap d - cd_begin d + it_index it)"

definition iter_Increment :: "'a circular_deque \<Rightarrow> deque_iterator \<Rightarrow> deque_iterator res" where
  "iter_Increment d it = dcheck (CheckUnstableUsage d it) (dcheck (CheckValidIndex d (it_index it))
     (let i = it_index it + 1 in Inr (it\<lparr>it_index := (if i = cd_cap d then 0 else i)\<rparr>)))"

text \<open>\<open>capacity - 1\<close> is computed in \<open>size_t\<close>, also for a deque without a buffer.\<close>

definition iter_Decrement :: "'a circular_deque \<Rightarrow> deque_iterator \<Rightarrow> deque_iterator res" where
  "iter_Decrement d it = dcheck (CheckUnstableUsage d it) (dcheck (CheckValidIndexOrEnd d (it_index it))
     (Inr (it\<lparr>it_index := (if it_index it = 0 then (if cd_cap d = 0 then 2 ^ 64 - 1 else cd_cap d - 1)
                           else it_index it - 1)\<rparr>)))"

definition iter_Add :: "'a circular_deque \<Rightarrow> int \<Rightarrow> deque_iterator \<Rightarrow> deque_iterator res" where
  "iter_Add d delta it = dcheck (CheckUnstableUsage d it)
     (dcheck (if delta \<le> 0 then CheckValidIndexOrEnd d (it_index it) else CheckValidIndex d (it_index it))
       (if delta = 0 then Inr it
        else let new_offset = int (OffsetFromBegin d it) + delta in
          dcheck (0 \<le> new_offset \<and> new_offset \<le> int (cd_size d))
            (guardr DivideByZero (cd_cap d \<noteq> 0)
              (Inr (it\<lparr>it_index := (nat new_offset + cd_begin d) mod cd_cap d\<rparr>)))))"

definition iter_minus :: "'a circular_deque \<Rightarrow> deque_iterator \<Rightarrow> deque_iterator \<Rightarrow> int res" where
  "iter_minus d a b = dcheck (CheckComparable a b) (Inr (int (OffsetFromBegin d a) - int (OffsetFromBegin d b)))"

definition iter_eq :: "deque_iterator \<Rightarrow> deque_iterator \<Rightarrow> bool res" where
  "iter_eq a b = dcheck (CheckComparable a b) (Inr (it_index a = it_index b))"

definition iter_less :: "'a circular_deque \<Rightarrow> deque_iterator \<Rightarrow> deque_iterator \<Rightarrow> bool res" where
  "iter_less d a b = dcheck (CheckComparable a b) (Inr (OffsetFromBegin d a < OffsetFromBegin d b))"

section \<open>Accessors\<close>

definition cd_at :: "'a circular_deque \<Rightarrow> nat \<Rightarrow> 'a res" where
  "cd_at d i = dcheck (i < cd_size d)
     (let right_size = cd_cap d - cd_begin d in
      if cd_begin d \<le> cd_end d \<or> i < right_size then vb_read (cd_buffer d) (cd_begin d + i)
      else vb_read (cd_buffer d) (i - right_size))"

definition cd_front :: "'a circular_deque \<Rightarrow> 'a res" where
  "cd_front d = dcheck (\<not> cd_empty d) (vb_read (cd_buffer d) (cd_begin d))"

definition cd_back :: "'a circular_deque \<Rightarrow> 'a res" where
  "cd_back d = dcheck (\<not> cd_empty d) (rbind (iter_Decrement d (cd_iter_end d)) (iter_deref d))"

text \<open>A loop over all iterators of the deque, for at most \<open>fuel\<close> rounds.\<close>

fun read_from :: "nat \<Rightarrow> 'a circular_deque \<Rightarrow> deque_iterator \<Rightarrow> 'a list res" where
  "read_from fuel d it = rbind (iter_eq it (cd_iter_end d)) (\<lambda>done_now.
     if done_now then Inr [] else case fuel of 0 \<Rightarrow> Inl Diverges | Suc fuel \<Rightarrow>
       rbind (iter_deref d it) (\<lambda>x. rbind (iter_Increment d it) (\<lambda>it.
       rbind (read_from fuel d it) (\<lambda>xs. Inr (x # xs)))))"

declare read_from.simps [simp del]

definition read_all :: "'a circular_deque \<Rightarrow> 'a list res" where
  "read_all d = read_from (cd_cap d) d (cd_iter_begin d)"

section \<open>Memory management\<close>

definition cd_DestructRange :: "nat \<Rightarrow> nat \<Rightarrow> 'a vector_buffer \<Rightarrow> 'a vector_buffer res" where
  "cd_DestructRange s e b =
     (if e = s then Inr b
      else if e > s then vb_DestructRange s e b
      else rbind (vb_DestructRange s (length b) b) (vb_DestructRange 0 e))"

definition MoveBuffer :: "'a vector_buffer \<Rightarrow> nat \<Rightarrow> nat \<Rightarrow> 'a vector_buffer \<Rightarrow> ('a vector_buffer \<times> nat \<times> nat) res" where
  "MoveBuffer from_buf from_begin from_end to_buf =
     (if from_begin < from_end
      then rbind (MoveRange_to from_buf from_begin from_end 0 to_buf) (\<lambda>(_, to_buf).
           Inr (to_buf, 0, from_end - from_begin))
      else if from_begin > from_end
      then rbind (MoveRange_to from_buf from_begin (length from_buf) 0 to_buf) (\<lambda>(from_buf, to_buf).
           let right_size = length from_buf - from_begin in
           rbind (MoveRange_to from_buf 0 from_end right_size to_buf) (\<lambda>(_, to_buf).
           Inr (to_buf, 0, right_size + from_end)))
      else Inr (to_buf, 0, 0))"

definition SetCapacityTo :: "nat \<Rightarrow> 'a circular_deque \<Rightarrow> 'a circular_deque res" where
  "SetCapacityTo new_capacity d =
     rbind (MoveBuffer (cd_buffer d) (cd_begin d) (cd_end d) (VectorBuffer_new (new_capacity + 1))) (\<lambda>(b, s, e).
     Inr (d\<lparr>cd_buffer := b, cd_begin := s, cd_end := e\<rparr>))"

definition ExpandCapacityIfNecessary :: "nat \<Rightarrow> 'a circular_deque \<Rightarrow> 'a circular_deque res" where
  "ExpandCapacityIfNecessary additional_elts d =
     (let min_new_capacity = cd_size d + additional_elts in
      if cd_capacity d \<ge> min_new_capacity then Inr d
      else SetCapacityTo (max (max min_new_capacity kCircularBufferInitialCapacity)
             (cd_capacity d + cd_capacity d div 4)) d)"

definition ShrinkCapacityIfNecessary :: "'a circular_deque \<Rightarrow> 'a circular_deque res" where
  "ShrinkCapacityIfNecessary d =
     (if cd_capacity d \<le> kCircularBufferInitialCapacity then Inr d
      else let sz = cd_size d; empty_spaces = cd_capacity d - sz in
        if empty_spaces < sz then Inr d
        else let new_capacity = max kCircularBufferInitialCapacity (sz + sz div 4) in
          if new_capacity < cd_capacity d then SetCapacityTo new_capacity d else Inr d)"

definition ClearRetainCapacity :: "'a circular_deque \<Rightarrow> 'a circular_deque res" where
  "ClearRetainCapacity d =
     rbind (cd_DestructRange (cd_begin d) (cd_end d) (cd_buffer d)) (\<lambda>b.
     Inr (IncrementGeneration (d\<lparr>cd_buffer := b, cd_begin := 0, cd_end := 0\<rparr>)))"

definition reserve :: "nat \<Rightarrow> 'a circular_deque \<Rightarrow> 'a circular_deque res" where
  "reserve new_capacity d = (if new_capacity > cd_capacity d then SetCapacityTo new_capacity d else Inr d)"

definition shrink_to_fit :: "'a circular_deque \<Rightarrow> 'a circular_deque res" where
  "shrink_to_fit d =
     (if cd_empty d then Inr (if cd_cap d \<noteq> 0 then d\<lparr>cd_buffer := []\<rparr> else d)
      else SetCapacityTo (cd_size d) d)"

definition cd_clear :: "'a circular_deque \<Rightarrow> 'a circular_deque res" where
  "cd_clear d = rbind (ClearRetainCapacity d) (\<lambda>d. Inr (d\<lparr>cd_buffer := []\<rparr>))"

section \<open>Insertion and removal at the ends\<close>

definition emplace_front :: "'a \<Rightarrow> 'a circular_deque \<Rightarrow> 'a circular_deque res" where
  "emplace_front x d =
     rbind (ExpandCapacityIfNecessary 1 d) (\<lambda>d.
     let d = IncrementGeneration (d\<lparr>cd_begin := (if cd_begin d = 0 then cd_cap d - 1 else cd_begin d - 1)\<rparr>) in
     rbind (vb_construct (cd_begin d) x (cd_buffer d)) (\<lambda>b.
     let d = d\<lparr>cd_buffer := b\<rparr> in rbind (cd_front d) (\<lambda>_. Inr d)))"

definition emplace_back :: "'a \<Rightarrow> 'a circular_deque \<Rightarrow> 'a circular_deque res" where
  "emplace_back x d =
     rbind (ExpandCapacityIfNecessary 1 d) (\<lambda>d.
     rbind (vb_construct (cd_end d) x (cd_buffer d)) (\<lambda>b.
     let d = IncrementGeneration (d\<lparr>cd_buffer := b,
               cd_end := (if cd_end d = cd_cap d - 1 then 0 else cd_end d + 1)\<rparr>) in
     rbind (cd_back d) (\<lambda>_. Inr d)))"

definition pop_front :: "'a circular_deque \<Rightarrow> 'a circular_deque res" where
  "pop_front d = dcheck (cd_size d \<noteq> 0)
     (rbind (vb_DestructRange (cd_begin d) (cd_begin d + 1) (cd_buffer d)) (\<lambda>b.
      let s = cd_begin d + 1; d = d\<lparr>cd_buffer := b, cd_begin := (if s = cd_cap d then 0 else s)\<rparr> in
      rbind (ShrinkCapacityIfNecessary d) (\<lambda>d. Inr (IncrementGeneration d))))"

definition pop_back :: "'a circular_deque \<Rightarrow> 'a circular_deque res" where
  "pop_back d = dcheck (cd_size d \<noteq> 0)
     (let d = d\<lparr>cd_end := (if cd_end d = 0 then cd_cap d - 1 else cd_end d - 1)\<rparr> in
      rbind (vb_DestructRange (cd_end d) (cd_end d + 1) (cd_buffer d)) (\<lambda>b.
      rbind (ShrinkCapacityIfNecessary (d\<lparr>cd_buffer := b\<rparr>)) (\<lambda>d. Inr (IncrementGeneration d))))"

fun push_all :: "'a list \<Rightarrow> 'a circular_deque \<Rightarrow> 'a circular_deque res" where
  "push_all [] d = Inr d"
| "push_all (x # xs) d = rbind (emplace_back x d) (push_all xs)"

section \<open>Construction and assignment\<close>

definition assign_count :: "nat \<Rightarrow> 'a \<Rightarrow> 'a circular_deque \<Rightarrow> 'a circular_deque res" where
  "assign_count count value d =
     rbind (ClearRetainCapacity d) (\<lambda>d. rbind (reserve count d) (\<lambda>d.
     rbind (push_all (replicate count value) d) (\<lambda>d. Inr (IncrementGeneration d))))"

definition assign_range :: "'a list \<Rightarrow> 'a circular_deque \<Rightarrow> 'a circular_deque res" where
  "assign_range xs d =
     rbind (ClearRetainCapacity d) (\<lambda>d. rbind (push_all xs d) (\<lambda>d. Inr (IncrementGeneration d)))"

definition assign_list :: "'a list \<Rightarrow> 'a circular_deque \<Rightarrow> 'a circular_deque res" where
  "assign_list xs d = rbind (reserve (length xs) d) (assign_range xs)"

definition cd_copy :: "'a circular_deque \<Rightarrow> 'a circular_deque res" where
  "cd_copy other =
     rbind (read_all other) (\<lambda>xs.
     assign_range xs \<lparr>cd_buffer = VectorBuffer_new (cd_size other + 1), cd_begin = 0, cd_end = 0, cd_generation = 0\<rparr>)"

definition cd_copy_assign :: "'a circular_deque \<Rightarrow> 'a circular_deque \<Rightarrow> 'a circular_deque res" where
  "cd_copy_assign other d =
     rbind (reserve (cd_size other) d) (\<lambda>d. rbind (read_all other) (\<lambda>xs. assign_range xs d))"

definition cd_moved_from :: "'a circular_deque \<Rightarrow> 'a circular_deque" where
  "cd_moved_from other = other\<lparr>cd_buffer := [], cd_begin := 0, cd_end := 0\<rparr>"

definition cd_move :: "'a circular_deque \<Rightarrow> 'a circular_deque \<times> 'a circular_deque" where
  "cd_move other =
     (\<lparr>cd_buffer = cd_buffer other, cd_begin = cd_begin other, cd_end = cd_end other, cd_generation = 0\<rparr>,
      cd_moved_from other)"

definition cd_move_assign :: "'a circular_deque \<Rightarrow> 'a circular_deque \<Rightarrow> ('a circular_deque \<times> 'a circular_deque) res" where
  "cd_move_assign other d =
     rbind (ClearRetainCapacity d) (\<lambda>d.
     Inr (IncrementGeneration (d\<lparr>cd_buffer := cd_buffer other, cd_begin := cd_begin other, cd_end := cd_end other\<rparr>),
          cd_moved_from other))"

definition cd_swap :: "'a circular_deque \<Rightarrow> 'a circular_deque \<Rightarrow> 'a circular_deque \<times> 'a circular_deque" where
  "cd_swap d other =
     (IncrementGeneration (d\<lparr>cd_buffer := cd_buffer other, cd_begin := cd_begin other, cd_end := cd_end other\<rparr>),
      other\<lparr>cd_buffer := cd_buffer d, cd_begin := cd_begin d, cd_end := cd_end d\<rparr>)"

definition cd_destroy :: "'a circular_deque \<Rightarrow> 'a vector_buffer res" where
  "cd_destroy d = cd_DestructRange (cd_begin d) (cd_end d) (cd_buffer d)"

text \<open>The loop \<open>while (size() < count) emplace_back(value)\<close> of \<open>resize\<close>.\<close>

fun resize_loop :: "nat \<Rightarrow> nat \<Rightarrow> 'a \<Rightarrow> 'a circular_deque \<Rightarrow> 'a circular_deque res" where
  "resize_loop fuel count value d =
     (if cd_size d < count
      then case fuel of 0 \<Rightarrow> Inl Diverges | Suc fuel \<Rightarrow> rbind (emplace_back value d) (resize_loop fuel count value)
      else Inr d)"

declare resize_loop.simps [simp del]

definition cd_resize :: "nat \<Rightarrow> 'a \<Rightarrow> 'a circular_deque \<Rightarrow> 'a circular_deque res" where
  "cd_resize count value d =
     rbind (if count > cd_size d
            then rbind (ExpandCapacityIfNecessary (count - cd_size d) d) (resize_loop count count value)
            else if count < cd_size d
            then guardr DivideByZero (cd_cap d \<noteq> 0)
              (let new_end = (cd_begin d + count) mod cd_cap d in
               rbind (cd_DestructRange new_end (cd_end d) (cd_buffer d)) (\<lambda>b.
               ShrinkCapacityIfNecessary (d\<lparr>cd_buffer := b, cd_end := new_end\<rparr>)))
            else Inr d)
       (\<lambda>d. Inr (IncrementGeneration d))"

section \<open>Insertion and removal in the middle\<close>

text \<open>The loop of \<open>MakeRoomFor\<close> that moves the tail to the right, from right to left.\<close>

fun make_room_loop ::
  "nat \<Rightarrow> deque_iterator \<Rightarrow> deque_iterator \<Rightarrow> deque_iterator \<Rightarrow> 'a circular_deque \<Rightarrow> 'a circular_deque res" where
  "make_room_loop fuel src dest insert_begin d =
     rbind (iter_eq src insert_begin) (\<lambda>done_now.
     if done_now then Inr d else case fuel of 0 \<Rightarrow> Inl Diverges | Suc fuel \<Rightarrow>
       rbind (iter_Decrement d src) (\<lambda>src. rbind (iter_Decrement d dest) (\<lambda>dest.
       rbind (MoveRange_in (it_index src) (it_index dest) (cd_buffer d)) (\<lambda>b.
       make_room_loop fuel src dest insert_begin (d\<lparr>cd_buffer := b\<rparr>)))))"

declare make_room_loop.simps [simp del]

definition MakeRoomFor ::
  "nat \<Rightarrow> deque_iterator \<Rightarrow> 'a circular_deque \<Rightarrow> (deque_iterator \<times> deque_iterator \<times> 'a circular_deque) res" where
  "MakeRoomFor count insert_begin d =
     (if count = 0 then Inr (insert_begin, insert_begin, d)
      else let begin_offset = OffsetFromBegin d insert_begin in
        rbind (ExpandCapacityIfNecessary count d) (\<lambda>d.
        guardr DivideByZero (cd_cap d \<noteq> 0)
          (let insert_begin = insert_begin\<lparr>it_index := (cd_begin d + begin_offset) mod cd_cap d\<rparr>;
               insert_end = iterator_at d ((it_index insert_begin + count) mod cd_cap d);
               src = cd_iter_end d;
               d = d\<lparr>cd_end := (cd_end d + count) mod cd_cap d\<rparr>;
               dest = cd_iter_end d in
           rbind (make_room_loop (cd_cap d) src dest insert_begin d) (\<lambda>d.
           Inr (insert_begin, insert_end, d)))))"

text \<open>
  The loop that constructs the inserted elements; \<open>src k\<close> is the \<open>k\<close>-th element of the input,
  \<open>None\<close> behind its end.
\<close>

fun fill_loop ::
  "nat \<Rightarrow> (nat \<Rightarrow> 'a option) \<Rightarrow> nat \<Rightarrow> deque_iterator \<Rightarrow> deque_iterator \<Rightarrow> 'a circular_deque \<Rightarrow> 'a circular_deque res" where
  "fill_loop fuel src k insert_cur insert_end d =
     rbind (iter_less d insert_cur insert_end) (\<lambda>more.
     if \<not> more then Inr d else case fuel of 0 \<Rightarrow> Inl Diverges | Suc fuel \<Rightarrow>
       (case src k of None \<Rightarrow> Inl OutOfRange | Some x \<Rightarrow>
          rbind (vb_construct (it_index insert_cur) x (cd_buffer d)) (\<lambda>b.
          let d = d\<lparr>cd_buffer := b\<rparr> in
          rbind (iter_Increment d insert_cur) (\<lambda>insert_cur.
          fill_loop fuel src (Suc k) insert_cur insert_end d))))"

declare fill_loop.simps [simp del]

fun push_front_loop :: "nat \<Rightarrow> 'a \<Rightarrow> 'a circular_deque \<Rightarrow> 'a circular_deque res" where
  "push_front_loop 0 x d = Inr d"
| "push_front_loop (Suc n) x d = rbind (emplace_front x d) (push_front_loop n x)"

definition insert_count :: "deque_iterator \<Rightarrow> nat \<Rightarrow> 'a \<Rightarrow> 'a circular_deque \<Rightarrow> 'a circular_deque res" where
  "insert_count pos count value d = dcheck (CheckUnstableUsage d pos)
     (rbind (iter_eq pos (cd_iter_begin d)) (\<lambda>at_begin.
      if at_begin then rbind (ExpandCapacityIfNecessary count d) (push_front_loop count value)
      else rbind (MakeRoomFor count (iterator_at d (it_index pos)) d) (\<lambda>(insert_cur, insert_end, d).
           rbind (fill_loop (cd_cap d) (\<lambda>_. Some value) 0 insert_cur insert_end d) (\<lambda>d.
           Inr (IncrementGeneration d)))))"

definition insert_range :: "deque_iterator \<Rightarrow> 'a list \<Rightarrow> 'a circular_deque \<Rightarrow> 'a circular_deque res" where
  "insert_range pos vs d = dcheck (CheckUnstableUsage d pos)
     (if length vs = 0 then Inr d
      else rbind (iter_eq pos (cd_iter_begin d)) (\<lambda>at_begin.
        rbind (if at_begin
               then rbind (ExpandCapacityIfNecessary (length vs) d) (\<lambda>d.
                    guardr DivideByZero (cd_cap d \<noteq> 0)
                      (let insert_end = cd_iter_begin d;
                           d = d\<lparr>cd_begin := (cd_begin d + cd_cap d - length vs) mod cd_cap d\<rparr> in
                       Inr (cd_iter_begin d, insert_end, d)))
               else MakeRoomFor (length vs) (iterator_at d (it_index pos)) d)
          (\<lambda>(insert_cur, insert_end, d).
           rbind (fill_loop (cd_cap d) (\<lambda>k. if k < length vs then Some (vs ! k) else None) 0 insert_cur insert_end d)
             (\<lambda>d. Inr (IncrementGeneration d)))))"

definition emplace :: "deque_iterator \<Rightarrow> 'a \<Rightarrow> 'a circular_deque \<Rightarrow> (deque_iterator \<times> 'a circular_deque) res" where
  "emplace pos x d = dcheck (CheckUnstableUsage d pos)
     (rbind (iter_eq pos (cd_iter_begin d)) (\<lambda>at_begin.
      if at_begin then rbind (emplace_front x d) (\<lambda>d. Inr (cd_iter_begin d, d))
      else let d = IncrementGeneration d in
        rbind (MakeRoomFor 1 (iterator_at d (it_index pos)) d) (\<lambda>(insert_begin, _, d).
        rbind (vb_construct (it_index insert_begin) x (cd_buffer d)) (\<lambda>b.
        Inr (insert_begin, d\<lparr>cd_buffer := b\<rparr>)))))"

text \<open>The loop of \<open>erase\<close> that moves the tail to the left, from left to right.\<close>

fun erase_loop ::
  "nat \<Rightarrow> deque_iterator \<Rightarrow> deque_iterator \<Rightarrow> deque_iterator \<Rightarrow> 'a circular_deque \<Rightarrow> (deque_iterator \<times> 'a circular_deque) res" where
  "erase_loop fuel move_src move_src_end move_dest d =
     rbind (iter_less d move_src move_src_end) (\<lambda>more.
     if \<not> more then Inr (move_dest, d) else case fuel of 0 \<Rightarrow> Inl Diverges | Suc fuel \<Rightarrow>
       rbind (MoveRange_in (it_index move_src) (it_index move_dest) (cd_buffer d)) (\<lambda>b.
       let d = d\<lparr>cd_buffer := b\<rparr> in
       rbind (iter_Increment d move_src) (\<lambda>move_src. rbind (iter_Increment d move_dest) (\<lambda>move_dest.
       erase_loop fuel move_src move_src_end move_dest d))))"

declare erase_loop.simps [simp del]

definition erase_range ::
  "deque_iterator \<Rightarrow> deque_iterator \<Rightarrow> 'a circular_deque \<Rightarrow> (deque_iterator \<times> 'a circular_deque) res" where
  "erase_range first_it last_it d = dcheck (CheckUnstableUsage d first_it) (dcheck (CheckUnstableUsage d last_it)
     (let d = IncrementGeneration d in
      if it_index first_it = it_index last_it then Inr (iterator_at d (it_index first_it), d)
      else rbind (if it_index first_it < it_index last_it
                  then vb_DestructRange (it_index first_it) (it_index last_it) (cd_buffer d)
                  else rbind (vb_DestructRange (it_index first_it) (cd_cap d) (cd_buffer d))
                         (vb_DestructRange 0 (it_index last_it))) (\<lambda>b.
        let d = d\<lparr>cd_buffer := b\<rparr> in
        if it_index first_it = cd_begin d
        then Inr (iterator_at d (it_index last_it), d\<lparr>cd_begin := it_index last_it\<rparr>)
        else rbind (erase_loop (cd_cap d) (iterator_at d (it_index last_it)) (cd_iter_end d)
                      (iterator_at d (it_index first_it)) d) (\<lambda>(move_dest, d).
             let d = d\<lparr>cd_end := it_index move_dest\<rparr> in
             Inr (iterator_at d (it_index first_it), d)))))"

definition erase_at :: "deque_iterator \<Rightarrow> 'a circular_deque \<Rightarrow> (deque_iterator \<times> 'a circular_deque) res" where
  "erase_at pos d = rbind (iter_Add d 1 pos) (\<lambda>next. erase_range pos next d)"

end
