(* ===== verification/DequeRing.thy ===== *)
theory DequeRing
  imports CircularDeque
begin

text \<open>
  The ring of the circular deque as a list. Rotating the buffer by \<open>begin\<close> turns physical indices
  modulo the capacity into offsets, so that every operation on the memory of the deque is one on a list
  of the elements followed by free cells.
\<close>

section \<open>Physical indices and offsets\<close>

definition phys :: "nat \<Rightarrow> nat \<Rightarrow> nat \<Rightarrow> nat" where
  "phys b n i = (b + i) mod n"

lemma phys_less: "0 < n \<Longrightarrow> phys b n i < n"
  by (simp add: phys_def)

lemma phys_0: "b < n \<Longrightarrow> phys b n 0 = b"
  by (simp add: phys_def)

lemma phys_Suc: "0 < n \<Longrightarrow> phys b n (Suc i) = (if Suc (phys b n i) = n then 0 else Suc (phys b n i))"
  by (simp add: phys_def mod_Suc)

lemma phys_add: "phys (phys b n i) n j = phys b n (i + j)"
  by (simp add: phys_def mod_add_left_eq add.assoc)

lemma phys_cases:
  assumes "b < n" "i < n"
  shows "phys b n i = (if b + i < n then b + i else b + i - n)"
proof (cases "b + i < n")
  case False
  then have "(b + i) mod n = (b + i - n) mod n" by (simp add: le_mod_geq)
  then show ?thesis using False assms by (simp add: phys_def)
qed (simp add: phys_def)

lemma phys_inj:
  assumes "b < n" "i < n" "j < n"
  shows "phys b n i = phys b n j \<longleftrightarrow> i = j"
  using assms by (auto simp: phys_cases split: if_splits)

lemma phys_surj:
  assumes "b < n" "k < n"
  obtains i where "i < n" "k = phys b n i"
proof (cases "b \<le> k")
  case True
  then show ?thesis using assms by (intro that [of "k - b"]) (auto simp: phys_cases)
next
  case False
  then show ?thesis using assms by (intro that [of "n + k - b"]) (auto simp: phys_cases)
qed

lemma phys_order:
  assumes "b < n" "i \<le> j" "j < n"
  shows "i = j \<or> phys b n i < phys b n j \<and> phys b n i + (j - i) = phys b n j \<or>
    phys b n j < phys b n i \<and> phys b n i + (j - i) = n + phys b n j"
proof -
  have i: "i < n" using assms by simp
  show ?thesis unfolding phys_cases [OF assms(1) i] phys_cases [OF assms(1,3)] using assms i by (simp split: if_split) linarith
qed

lemma nth_ring:
  "i < length buf \<Longrightarrow> rotate b buf ! i = buf ! phys b (length buf) i"
  by (simp add: nth_rotate phys_def)

lemma ring_update:
  assumes "b < length buf" "i < length buf"
  shows "rotate b (buf[phys b (length buf) i := v]) = (rotate b buf)[i := v]"
proof (rule nth_equalityI)
  fix j assume "j < length (rotate b (buf[phys b (length buf) i := v]))"
  then have j: "j < length buf" by simp
  have "0 < length buf" using assms(1) by linarith
  then have "phys b (length buf) j < length buf" by (rule phys_less)
  then show "rotate b (buf[phys b (length buf) i := v]) ! j = (rotate b buf)[i := v] ! j"
    using j assms phys_inj [OF assms(1) j assms(2)] by (cases "i = j") (simp_all add: nth_ring)
qed simp

lemma ring_split: "b < length buf \<Longrightarrow> rotate b buf = drop b buf @ take b buf"
  by (simp add: rotate_drop_take)

section \<open>The deque holds a list\<close>

definition holds :: "'a circular_deque \<Rightarrow> 'a list \<Rightarrow> bool" where
  "holds d xs \<longleftrightarrow>
     (if cd_buffer d = [] then cd_begin d = cd_end d \<and> xs = []
      else cd_begin d < cd_cap d \<and> length xs < cd_cap d \<and> cd_end d = phys (cd_begin d) (cd_cap d) (length xs) \<and>
        rotate (cd_begin d) (cd_buffer d) = map Some xs @ replicate (cd_cap d - length xs) None)"

lemma holds_new: "holds circular_deque_new []"
  by (simp add: holds_def circular_deque_new_def)

lemma holds_gen [simp]: "holds (d\<lparr>cd_generation := g\<rparr>) xs = holds d xs"
  by (simp add: holds_def)

lemma holds_IncrementGeneration [simp]: "holds (IncrementGeneration d) xs = holds d xs"
  by (simp add: IncrementGeneration_def)

lemma holds_layout:
  assumes "holds d xs"
  shows "xs = [] \<and> cd_begin d = cd_end d \<or> cd_begin d < cd_cap d \<and> cd_end d < cd_cap d \<and>
    rotate (cd_begin d) (cd_buffer d) = map Some xs @ replicate (cd_cap d - length xs) None \<and>
    (cd_begin d < cd_end d \<and> length xs = cd_end d - cd_begin d \<or>
     cd_end d < cd_begin d \<and> length xs = cd_cap d - cd_begin d + cd_end d)"
proof (cases "cd_buffer d = [] \<or> xs = []")
  case True
  then show ?thesis using assms by (auto simp: holds_def phys_def split: if_splits)
next
  case False
  then have h: "cd_begin d < cd_cap d" "length xs < cd_cap d" "cd_end d = phys (cd_begin d) (cd_cap d) (length xs)"
    "rotate (cd_begin d) (cd_buffer d) = map Some xs @ replicate (cd_cap d - length xs) None"
    using assms by (simp_all add: holds_def)
  have "0 < length xs" using False by simp
  then show ?thesis using h(1,2,4) unfolding h(3) phys_cases [OF h(1,2)] by (simp split: if_split) linarith
qed

lemma holds_size: "holds d xs \<Longrightarrow> cd_size d = length xs"
  by (auto simp: holds_def cd_size_def phys_cases split: if_splits)

lemma holds_capacity: "holds d xs \<Longrightarrow> length xs \<le> cd_capacity d"
  by (auto simp: holds_def cd_capacity_def)

lemma holds_empty: "holds d xs \<Longrightarrow> cd_empty d \<longleftrightarrow> xs = []"
  by (auto simp: holds_def cd_empty_def phys_cases split: if_splits)

lemma holds_nth:
  assumes "holds d xs" "i < length xs"
  shows "cd_buffer d ! phys (cd_begin d) (cd_cap d) i = Some (xs ! i)" "i < cd_cap d" "cd_begin d < cd_cap d"
proof -
  show i: "i < cd_cap d" and "cd_begin d < cd_cap d" using assms by (auto simp: holds_def split: if_splits)
  have "rotate (cd_begin d) (cd_buffer d) ! i = Some (xs ! i)"
    using assms by (auto simp: holds_def nth_append split: if_splits)
  then show "cd_buffer d ! phys (cd_begin d) (cd_cap d) i = Some (xs ! i)" using i by (simp add: nth_ring)
qed

lemma holds_valid_index:
  assumes "holds d xs" "i < length xs"
  shows "CheckValidIndex d (phys (cd_begin d) (cd_cap d) i)"
  using assms by (auto simp: holds_def CheckValidIndex_def phys_cases split: if_splits)

lemma read_ring:
  assumes "holds d xs" "i < length xs"
  shows "vb_read (cd_buffer d) (phys (cd_begin d) (cd_cap d) i) = Inr (xs ! i)"
proof -
  have "phys (cd_begin d) (cd_cap d) i < cd_cap d" using holds_nth(2) [OF assms] by (intro phys_less) linarith
  then show ?thesis using holds_nth(1) [OF assms] by (simp add: vb_read_def)
qed

lemma offset_phys:
  assumes "cd_begin d < cd_cap d" "i < cd_cap d" "it_index it = phys (cd_begin d) (cd_cap d) i"
  shows "OffsetFromBegin d it = i"
  using assms by (auto simp: OffsetFromBegin_def phys_cases)

section \<open>Destroying and moving ranges\<close>

definition clear_cells :: "nat \<Rightarrow> nat \<Rightarrow> 'a option list \<Rightarrow> 'a option list" where
  "clear_cells i c L = take i L @ replicate c None @ drop (i + c) L"

lemma clear_cells_Suc:
  assumes "i < length L"
  shows "clear_cells (Suc i) c (L[i := None]) = clear_cells i (Suc c) L"
  using assms by (simp add: clear_cells_def take_Suc_conv_app_nth drop_update_cancel take_update_cancel)

lemma clear_cells_one: "i < length L \<Longrightarrow> clear_cells i (Suc 0) L = L[i := None]"
  by (simp add: clear_cells_def upd_conv_take_nth_drop)

lemma clear_cells_append:
  assumes "i + c + e \<le> length L"
  shows "clear_cells (i + c) e (clear_cells i c L) = clear_cells i (c + e) L"
proof -
  have "take (i + c) (clear_cells i c L) = take i L @ replicate c None"
    "drop (i + c + e) (clear_cells i c L) = drop (i + c + e) L"
    using assms by (auto simp: clear_cells_def add.commute add.left_commute)
  then show ?thesis by (simp add: clear_cells_def [of "i + c"] clear_cells_def [of i "c + e"] replicate_add add.assoc)
qed

lemma destruct_loop_ring:
  assumes "b < length buf" "phys b (length buf) i + c \<le> length buf" "i + c \<le> length buf"
    "\<forall>k < c. rotate b buf ! (i + k) \<noteq> None"
  shows "\<exists>buf'. destruct_loop (phys b (length buf) i) c buf = Inr buf' \<and> length buf' = length buf \<and>
    rotate b buf' = clear_cells i c (rotate b buf)"
  using assms
proof (induction c arbitrary: i buf)
  case 0
  then show ?case by (simp add: clear_cells_def)
next
  case (Suc c)
  let ?p = "phys b (length buf) i" and ?buf = "buf[phys b (length buf) i := None]"
  have i: "i < length buf" and p: "?p < length buf" using Suc.prems by auto
  have "rotate b buf ! i \<noteq> None" using Suc.prems(4) by (metis add_0_right zero_less_Suc)
  then obtain x where x: "buf ! ?p = Some x" using i by (auto simp: nth_ring)
  have u: "rotate b ?buf = (rotate b buf)[i := None]" using Suc.prems(1) i by (rule ring_update)
  show ?case
  proof (cases "c = 0")
    case True
    then show ?thesis using x p u i by (simp add: vb_read_def clear_cells_one)
  next
    case False
    have "0 < length buf" using p by linarith
    then have s: "phys b (length ?buf) (Suc i) = Suc ?p" using False Suc.prems(2) phys_Suc [of "length buf" b i] by simp
    have "\<exists>buf'. destruct_loop (phys b (length ?buf) (Suc i)) c ?buf = Inr buf' \<and> length buf' = length ?buf \<and>
        rotate b buf' = clear_cells (Suc i) c (rotate b ?buf)"
    proof (rule Suc.IH)
      show "\<forall>k < c. rotate b ?buf ! (Suc i + k) \<noteq> None"
        using Suc.prems(4) unfolding u by (metis Suc_less_eq add_Suc_shift nth_list_update_neq less_add_Suc1 nat_neq_iff)
    qed (use Suc.prems s in auto)
    then show ?thesis using x p s u i by (simp add: vb_read_def clear_cells_Suc)
  qed
qed

lemma destruct_range_ring:
  assumes "b < length buf" "i \<le> j" "j < length buf" "\<forall>k. i \<le> k \<and> k < j \<longrightarrow> rotate b buf ! k \<noteq> None"
  shows "\<exists>buf'. cd_DestructRange (phys b (length buf) i) (phys b (length buf) j) buf = Inr buf' \<and>
    length buf' = length buf \<and> rotate b buf' = clear_cells i (j - i) (rotate b buf)"
proof -
  let ?n = "length buf" and ?p = "phys b (length buf)"
  have pj: "?p i < ?n" "?p j < ?n" using assms by (auto intro!: phys_less)
  consider "i = j" | "?p i < ?p j" "?p i + (j - i) = ?p j" | "?p j < ?p i" "?p i + (j - i) = ?n + ?p j"
    using phys_order [OF assms(1-3)] by blast
  then show ?thesis
  proof cases
    case 1
    then show ?thesis by (simp add: cd_DestructRange_def clear_cells_def)
  next
    case 2
    then have e: "?p j - ?p i = j - i" by simp
    have "\<exists>buf'. destruct_loop (?p i) (j - i) buf = Inr buf' \<and> length buf' = ?n \<and>
        rotate b buf' = clear_cells i (j - i) (rotate b buf)"
      using assms 2 pj by (intro destruct_loop_ring) auto
    then show ?thesis using 2 e pj by (simp add: cd_DestructRange_def vb_DestructRange_def)
  next
    case 3
    define c where "c = ?n - ?p i"
    have c: "i + c + ?p j = j" "?p i + c = ?n" using 3 pj assms(2) unfolding c_def by linarith+
    obtain buf1 where b1: "destruct_loop (?p i) c buf = Inr buf1" "length buf1 = ?n"
      "rotate b buf1 = clear_cells i c (rotate b buf)"
      using destruct_loop_ring [of b buf i c] assms c by (auto simp: less_diff_conv)
    have z: "?p (i + c) = 0" using phys_add [of b ?n i c] c(2) by (metis mod_self phys_def)
    have L: "length (rotate b buf) = ?n" by simp
    have at: "\<forall>k < ?p j. rotate b buf1 ! (i + c + k) \<noteq> None"
      using assms(3,4) c(1) unfolding b1(3) clear_cells_def
      by (auto simp: nth_append min_def)
    obtain buf2 where b2: "destruct_loop 0 (?p j) buf1 = Inr buf2" "length buf2 = ?n"
      "rotate b buf2 = clear_cells (i + c) (?p j) (rotate b buf1)"
      using destruct_loop_ring [of b buf1 "i + c" "?p j"] assms(1,3) c(1) z at b1(2) pj by auto
    have "clear_cells (i + c) (?p j) (clear_cells i c (rotate b buf)) = clear_cells i (j - i) (rotate b buf)"
      using clear_cells_append [of i c "?p j" "rotate b buf"] c(1) assms(3) by (metis L add.assoc add_diff_cancel_left' less_or_eq_imp_le)
    then show ?thesis using 3(1) b1 b2 pj c_def by (simp add: cd_DestructRange_def vb_DestructRange_def)
  qed
qed

lemma move_loop_ok:
  assumes "s + n \<le> length src" "t + n \<le> length dst" "take n (drop s src) = map Some ys"
  shows "\<exists>src'. move_loop s t n src dst = Inr (src', take t dst @ map Some ys @ drop (t + n) dst) \<and>
    length src' = length src \<and> (\<forall>k < s. src' ! k = src ! k)"
  using assms
proof (induction n arbitrary: s t src dst ys)
  case (Suc n)
  then obtain y ys' where ys: "ys = y # ys'" "src ! s = Some y"
    by (cases ys) (auto simp: Cons_nth_drop_Suc [symmetric])
  let ?src = "src[s := None]" and ?dst = "dst[t := Some y]"
  have "take n (drop (Suc s) ?src) = map Some ys'"
    using Suc.prems ys by (simp add: Cons_nth_drop_Suc [symmetric])
  then obtain src' where m: "move_loop (Suc s) (Suc t) n ?src ?dst =
      Inr (src', take (Suc t) ?dst @ map Some ys' @ drop (Suc t + n) ?dst)" "length src' = length ?src"
      "\<forall>k < Suc s. src' ! k = ?src ! k"
    using Suc.IH [of "Suc s" ?src "Suc t" ?dst ys'] Suc.prems by auto
  have "take (Suc t) ?dst @ map Some ys' @ drop (Suc t + n) ?dst = take t dst @ map Some ys @ drop (t + Suc n) dst"
    using Suc.prems(2) ys by (simp add: take_Suc_conv_app_nth)
  moreover have "move_loop s t (Suc n) src dst = move_loop (Suc s) (Suc t) n ?src ?dst"
    using Suc.prems ys by (simp add: vb_read_def vb_construct_def)
  ultimately show ?case using m by auto
qed simp

text \<open>\<open>MoveBuffer\<close> lays the elements out from the start of the new buffer.\<close>

lemma MoveBuffer_ok:
  assumes "holds d xs" "length xs \<le> length nb" "\<forall>c \<in> set nb. c = None"
  shows "MoveBuffer (cd_buffer d) (cd_begin d) (cd_end d) nb =
    Inr (map Some xs @ replicate (length nb - length xs) None, 0, length xs)"
proof -
  let ?b = "cd_begin d" and ?e = "cd_end d" and ?buf = "cd_buffer d"
  have nb: "\<And>k. drop k nb = replicate (length nb - k) None"
    using assms(3) by (metis in_set_dropD length_drop replicate_eqI)
  consider "xs = []" "?b = ?e"
    | "?b < ?e" "?b < cd_cap d" "?e < cd_cap d" "length xs = ?e - ?b" "rotate ?b ?buf = map Some xs @ replicate (cd_cap d - length xs) None"
    | "?e < ?b" "?b < cd_cap d" "length xs = cd_cap d - ?b + ?e" "rotate ?b ?buf = map Some xs @ replicate (cd_cap d - length xs) None"
    using holds_layout [OF assms(1)] by blast
  then show ?thesis
  proof cases
    case 1
    then show ?thesis using nb [of 0] by (simp add: MoveBuffer_def)
  next
    case 2
    have "take (?e - ?b) (drop ?b ?buf) = take (?e - ?b) (rotate ?b ?buf)"
      unfolding ring_split [OF 2(2)] using 2(1-3) by simp
    then have "take (?e - ?b) (drop ?b ?buf) = map Some xs" unfolding 2(5) using 2(4) by simp
    then show ?thesis using 2 assms(2) nb move_loop_ok [of ?b "?e - ?b" ?buf 0 nb xs]
      by (auto simp: MoveBuffer_def MoveRange_to_def)
  next
    case 3
    let ?r = "cd_cap d - ?b"
    have "drop ?b ?buf @ take ?e ?buf = take (length xs) (rotate ?b ?buf)"
      unfolding ring_split [OF 3(2)] using 3(1-3) by simp
    then have sp': "drop ?b ?buf @ take ?e ?buf = map Some xs" unfolding 3(4) by simp
    have r: "drop ?b ?buf = map Some (take ?r xs)" and l: "take ?e ?buf = map Some (drop ?r xs)"
      using arg_cong [OF sp', of "take ?r"] arg_cong [OF sp', of "drop ?r"] 3 by (simp_all add: take_map drop_map)
    obtain buf1 where m1: "move_loop ?b 0 ?r ?buf nb = Inr (buf1, map Some (take ?r xs) @ drop ?r nb)"
      "length buf1 = cd_cap d" "\<forall>k < ?b. buf1 ! k = ?buf ! k"
      using move_loop_ok [of ?b ?r ?buf 0 nb "take ?r xs"] 3 assms(2) r by auto
    have "take ?e buf1 = map Some (drop ?r xs)"
      using m1(2,3) 3 l by (metis length_take min.strict_order_iff nth_take nth_take_lemma order.strict_trans less_imp_le_nat)
    then obtain buf2 where m2: "move_loop 0 ?r ?e buf1 (map Some (take ?r xs) @ drop ?r nb) =
       Inr (buf2, map Some (take ?r xs) @ map Some (drop ?r xs) @ drop (?r + ?e) nb)"
      using move_loop_ok [of 0 ?e buf1 ?r "map Some (take ?r xs) @ drop ?r nb" "drop ?r xs"] m1(2) 3 assms(2) by (auto simp: add.commute)
    have "map Some (take ?r xs) @ map Some (drop ?r xs) = map Some xs" by (simp flip: map_append)
    moreover have "cd_cap d - ?b \<le> length nb" using 3(3) assms(2) by linarith
    ultimately have "MoveRange_to buf1 0 ?e ?r (map Some (take ?r xs) @ drop ?r nb) =
        Inr (buf2, map Some xs @ drop (?r + ?e) nb)"
      using m1(2) m2 3(1-3) by (simp add: MoveRange_to_def guardr_def flip: append_assoc)
    moreover have "MoveRange_to ?buf ?b (cd_cap d) 0 nb = Inr (buf1, map Some (take ?r xs) @ drop ?r nb)"
      using m1(1) 3(2) by (simp add: MoveRange_to_def)
    ultimately show ?thesis using m1(2) 3(1-3) nb by (simp add: MoveBuffer_def)
  qed
qed

lemma SetCapacityTo_ok:
  assumes "holds d xs" "length xs \<le> n"
  shows "\<exists>d'. SetCapacityTo n d = Inr d' \<and> holds d' xs \<and> cd_capacity d' = n \<and> cd_cap d' = Suc n \<and>
    cd_generation d' = cd_generation d"
proof -
  have "MoveBuffer (cd_buffer d) (cd_begin d) (cd_end d) (VectorBuffer_new (n + 1)) =
      Inr (map Some xs @ replicate (n + 1 - length xs) None, 0, length xs)"
    using MoveBuffer_ok [OF assms(1), of "VectorBuffer_new (n + 1)"] assms(2) by (simp add: VectorBuffer_new_def)
  then show ?thesis using assms(2) by (simp add: SetCapacityTo_def holds_def cd_capacity_def phys_def)
qed

lemma ExpandCapacity_ok:
  assumes "holds d xs"
  shows "\<exists>d'. ExpandCapacityIfNecessary n d = Inr d' \<and> holds d' xs \<and> length xs + n \<le> cd_capacity d' \<and>
    cd_generation d' = cd_generation d"
proof (cases "cd_capacity d \<ge> length xs + n")
  case True
  then show ?thesis using assms by (simp add: ExpandCapacityIfNecessary_def holds_size)
next
  case False
  let ?n = "max (max (length xs + n) kCircularBufferInitialCapacity) (cd_capacity d + cd_capacity d div 4)"
  have "length xs \<le> ?n" "length xs + n \<le> ?n" by linarith+
  then show ?thesis
    using SetCapacityTo_ok [OF assms, of ?n] False holds_size [OF assms]
    by (auto simp: ExpandCapacityIfNecessary_def Let_def)
qed

text \<open>After the automatic shrinking at most half of a large buffer is unused.\<close>

lemma ShrinkCapacity_ok:
  assumes "holds d xs"
  shows "\<exists>d'. ShrinkCapacityIfNecessary d = Inr d' \<and> holds d' xs \<and> cd_capacity d' \<le> max 3 (2 * length xs) \<and>
    cd_generation d' = cd_generation d"
proof (cases "cd_capacity d \<le> 3 \<or> cd_capacity d - length xs < length xs")
  case True
  then show ?thesis using assms holds_size [OF assms]
    by (auto simp: ShrinkCapacityIfNecessary_def kCircularBufferInitialCapacity_def Let_def)
next
  case False
  let ?n = "max 3 (length xs + length xs div 4)"
  have "?n < cd_capacity d \<or> cd_capacity d \<le> max 3 (2 * length xs)" by linarith
  moreover have "length xs \<le> ?n" by simp
  then obtain d' where d': "SetCapacityTo ?n d = Inr d'" "holds d' xs" "cd_capacity d' = ?n"
    "cd_generation d' = cd_generation d"
    using SetCapacityTo_ok [OF assms] by blast
  ultimately show ?thesis
    using False assms holds_size [OF assms]
    by (auto simp: ShrinkCapacityIfNecessary_def kCircularBufferInitialCapacity_def Let_def simp del: max.bounded_iff)
qed

lemma holds_clear_all:
  assumes "holds d xs"
  shows "\<exists>b. cd_DestructRange (cd_begin d) (cd_end d) (cd_buffer d) = Inr b \<and> b = replicate (cd_cap d) None"
proof (cases "cd_buffer d = []")
  case True
  then show ?thesis using assms by (simp add: holds_def cd_DestructRange_def)
next
  case False
  note h = assms [unfolded holds_def, simplified False if_False]
  have p: "phys (cd_begin d) (cd_cap d) 0 = cd_begin d" using h by (simp add: phys_0)
  obtain b where b: "cd_DestructRange (cd_begin d) (cd_end d) (cd_buffer d) = Inr b" "length b = cd_cap d"
    "rotate (cd_begin d) b = clear_cells 0 (length xs) (rotate (cd_begin d) (cd_buffer d))"
    using destruct_range_ring [of "cd_begin d" "cd_buffer d" 0 "length xs"] h p by (auto simp: nth_append)
  have "rotate (cd_begin d) b = replicate (cd_cap d) None"
    using b(3) h by (simp add: clear_cells_def flip: replicate_add)
  then have "set b \<subseteq> {None}" by (metis set_replicate_conv_if set_rotate subset_insertI empty_subsetI insert_subset subset_refl)
  then have "b = replicate (cd_cap d) None" using b(2) by (metis replicate_eqI singletonD subsetD)
  then show ?thesis using b by simp
qed

end
