(* ===== verification/DequeEnds.thy ===== *)
theory DequeEnds
  imports DequeRing
begin

text \<open>
  The operations of the circular deque at its ends, its construction and assignment, and its iterators,
  against the list the deque holds. The ring of DequeRing carries each proof.
\<close>

section \<open>Reading\<close>

lemma front_ok: "holds d (x # xs) \<Longrightarrow> cd_front d = Inr x"
proof -
  assume h: "holds d (x # xs)"
  have "phys (cd_begin d) (cd_cap d) 0 = cd_begin d" using holds_nth(3) [OF h, of 0] by (simp add: phys_0)
  then show ?thesis using read_ring [OF h, of 0] holds_empty [OF h] by (simp add: cd_front_def)
qed

lemma dec_phys:
  assumes "cd_begin d < cd_cap d" "0 < i" "i < cd_cap d"
  shows "(if phys (cd_begin d) (cd_cap d) i = 0 then cd_cap d - 1
     else phys (cd_begin d) (cd_cap d) i - 1) = phys (cd_begin d) (cd_cap d) (i - 1)"
proof -
  obtain j where j: "i = Suc j" using assms(2) by (cases i) auto
  have "0 < cd_cap d" using assms(1) by linarith
  then show ?thesis using phys_Suc [of "cd_cap d" "cd_begin d" j] j by auto
qed

lemma holds_valid_or_end:
  assumes "holds d xs" "xs \<noteq> []" "i \<le> length xs"
  shows "CheckValidIndexOrEnd d (phys (cd_begin d) (cd_cap d) i)"
  using assms holds_valid_index [OF assms(1), of i]
  by (cases "i = length xs") (auto simp: CheckValidIndexOrEnd_def holds_def split: if_splits)

definition iter_to :: "'a circular_deque \<Rightarrow> nat \<Rightarrow> deque_iterator" where
  "iter_to d i = iterator_at d (phys (cd_begin d) (cd_cap d) i)"

lemma iter_to_simps [simp]:
  "it_index (iter_to d i) = phys (cd_begin d) (cd_cap d) i" "created_generation (iter_to d i) = cd_generation d"
  "CheckUnstableUsage d (iter_to d i)"
  by (simp_all add: iter_to_def iterator_at_def CheckUnstableUsage_def)

lemma iter_end_to: "holds d xs \<Longrightarrow> xs \<noteq> [] \<Longrightarrow> cd_iter_end d = iter_to d (length xs)"
  by (auto simp: cd_iter_end_def iter_to_def holds_def split: if_splits)

lemma iter_begin_to: "holds d xs \<Longrightarrow> xs \<noteq> [] \<Longrightarrow> cd_iter_begin d = iter_to d 0"
  by (auto simp: cd_iter_begin_def iter_to_def holds_def phys_0 split: if_splits)

lemma iterator_eqI: "it_index a = it_index b \<Longrightarrow> created_generation a = created_generation b \<Longrightarrow> a = (b :: deque_iterator)"
  by (cases a, cases b) simp

lemma iter_Decrement_ok:
  assumes "holds d xs" "0 < i" "i \<le> length xs"
  shows "iter_Decrement d (iter_to d i) = Inr (iter_to d (i - 1))"
proof -
  have xs: "xs \<noteq> []" using assms(2,3) by auto
  have "cd_begin d < cd_cap d" "i < cd_cap d" using assms xs by (auto simp: holds_def split: if_splits)
  moreover from this have "cd_cap d \<noteq> 0" by linarith
  ultimately have "(iter_to d i)\<lparr>it_index := (if it_index (iter_to d i) = 0
      then (if cd_cap d = 0 then 2 ^ 64 - 1 else cd_cap d - 1) else it_index (iter_to d i) - 1)\<rparr> = iter_to d (i - 1)"
    using dec_phys [of d i] assms(2) by (intro iterator_eqI) (simp_all split: if_splits)
  then show ?thesis using holds_valid_or_end [OF assms(1) xs assms(3)] unfolding iter_Decrement_def by simp
qed

lemma iter_Increment_ok:
  assumes "holds d xs" "i < length xs"
  shows "iter_Increment d (iter_to d i) = Inr (iter_to d (Suc i))"
proof -
  have "0 < cd_cap d" using holds_nth(3) [OF assms] by linarith
  then have "(iter_to d i)\<lparr>it_index := (if it_index (iter_to d i) + 1 = cd_cap d then 0 else it_index (iter_to d i) + 1)\<rparr> =
      iter_to d (Suc i)"
    using phys_Suc [of "cd_cap d" "cd_begin d" i] by (intro iterator_eqI) simp_all
  then show ?thesis using holds_valid_index [OF assms] unfolding iter_Increment_def Let_def by simp
qed

lemma iter_deref_ok:
  assumes "holds d xs" "i < length xs"
  shows "iter_deref d (iter_to d i) = Inr (xs ! i)"
  using holds_valid_index [OF assms] read_ring [OF assms] by (simp add: iter_deref_def)

lemma back_ok:
  assumes "holds d xs" "xs \<noteq> []"
  shows "cd_back d = Inr (last xs)"
proof -
  have "iter_Decrement d (cd_iter_end d) = Inr (iter_to d (length xs - 1))"
    using iter_Decrement_ok [OF assms(1), of "length xs"] assms(2) iter_end_to [OF assms] by simp
  then show ?thesis
    using iter_deref_ok [OF assms(1), of "length xs - 1"] holds_empty [OF assms(1)] assms(2)
    by (simp add: cd_back_def last_conv_nth)
qed

lemma at_ok:
  assumes "holds d xs"
  shows "cd_at d i = (if i < length xs then Inr (xs ! i) else Inl DCheckFailed)"
proof (cases "i < length xs")
  case True
  note h = holds_nth(2,3) [OF assms True]
  have p: "phys (cd_begin d) (cd_cap d) i =
      (if cd_begin d \<le> cd_end d \<or> i < cd_cap d - cd_begin d then cd_begin d + i else i - (cd_cap d - cd_begin d))"
    using holds_layout [OF assms] True h by (auto simp: phys_cases)
  have "cd_at d i = vb_read (cd_buffer d) (phys (cd_begin d) (cd_cap d) i)"
    using True unfolding p by (simp add: cd_at_def holds_size [OF assms])
  then show ?thesis using True read_ring [OF assms True] by simp
qed (simp add: cd_at_def holds_size [OF assms])

lemma iter_eq_to:
  assumes "cd_begin d < cd_cap d" "i < cd_cap d" "j < cd_cap d"
  shows "iter_eq (iter_to d i) (iter_to d j) = Inr (i = j)"
  using phys_inj [OF assms] by (simp add: iter_eq_def CheckComparable_def)

lemma iter_less_to:
  assumes "cd_begin d < cd_cap d" "i < cd_cap d" "j < cd_cap d"
  shows "iter_less d (iter_to d i) (iter_to d j) = Inr (i < j)"
proof -
  have "OffsetFromBegin d (iter_to d i) = i" "OffsetFromBegin d (iter_to d j) = j"
    using assms by (auto intro!: offset_phys)
  then show ?thesis by (simp add: iter_less_def CheckComparable_def)
qed

lemma read_from_ok:
  assumes "holds d xs" "i \<le> length xs" "length xs - i \<le> fuel" "xs \<noteq> []"
  shows "read_from fuel d (iter_to d i) = Inr (drop i xs)"
  using assms(2,3)
proof (induction fuel arbitrary: i)
  case 0
  then show ?case using iter_end_to [OF assms(1,4)]
    by (simp add: read_from.simps iter_eq_def CheckComparable_def)
next
  case (Suc fuel)
  have c: "cd_begin d < cd_cap d" "length xs < cd_cap d" using assms(1,4) by (auto simp: holds_def split: if_splits)
  have e: "iter_eq (iter_to d i) (cd_iter_end d) = Inr (i = length xs)"
    using iter_eq_to [of d i "length xs"] c Suc.prems iter_end_to [OF assms(1,4)] by simp
  show ?case
  proof (cases "i = length xs")
    case False
    then have i: "i < length xs" using Suc.prems by simp
    then show ?thesis
      using e False iter_deref_ok [OF assms(1) i] iter_Increment_ok [OF assms(1) i] Suc.IH [of "Suc i"] Suc.prems
      by (simp add: read_from.simps [of "Suc fuel"] Cons_nth_drop_Suc)
  qed (use e in \<open>simp add: read_from.simps [of "Suc fuel"]\<close>)
qed

lemma read_all_ok:
  assumes "holds d xs"
  shows "read_all d = Inr xs"
proof (cases "xs = []")
  case True
  then have "cd_begin d = cd_end d" using holds_empty [OF assms] by (simp add: cd_empty_def)
  then show ?thesis using True
    by (simp add: read_all_def read_from.simps iter_eq_def CheckComparable_def cd_iter_begin_def cd_iter_end_def)
next
  case False
  then have "length xs < cd_cap d" using assms by (auto simp: holds_def split: if_splits)
  then show ?thesis using read_from_ok [OF assms, of 0 "cd_cap d"] False iter_begin_to [OF assms]
    by (simp add: read_all_def)
qed

section \<open>Insertion and removal at the ends\<close>

lemma IncrementGeneration_simps [simp]:
  "cd_buffer (IncrementGeneration d) = cd_buffer d" "cd_begin (IncrementGeneration d) = cd_begin d"
  "cd_end (IncrementGeneration d) = cd_end d" "cd_generation (IncrementGeneration d) = cd_generation d + 1"
  "cd_capacity (IncrementGeneration d) = cd_capacity d"
  by (simp_all add: IncrementGeneration_def cd_capacity_def)

lemma emplace_back_ok:
  assumes "holds d xs"
  shows "\<exists>d'. emplace_back x d = Inr d' \<and> holds d' (xs @ [x]) \<and> cd_generation d' = cd_generation d + 1"
proof -
  obtain d1 where d1: "ExpandCapacityIfNecessary 1 d = Inr d1" "holds d1 xs" "length xs + 1 \<le> cd_capacity d1"
    "cd_generation d1 = cd_generation d"
    using ExpandCapacity_ok [OF assms] by blast
  let ?n = "cd_cap d1" and ?b = "cd_begin d1"
  have n: "Suc (length xs) < ?n" using d1(3) by (auto simp: cd_capacity_def split: if_splits)
  then have ne: "cd_buffer d1 \<noteq> []" by auto
  have h: "?b < ?n" "cd_end d1 = phys ?b ?n (length xs)"
    "rotate ?b (cd_buffer d1) = map Some xs @ replicate (?n - length xs) None"
    using d1(2) n by (auto simp: holds_def split: if_splits)
  define d2 where "d2 = IncrementGeneration (d1\<lparr>cd_buffer := (cd_buffer d1)[cd_end d1 := Some x],
    cd_end := (if cd_end d1 = ?n - 1 then 0 else cd_end d1 + 1)\<rparr>)"
  have e: "(if cd_end d1 = ?n - 1 then 0 else cd_end d1 + 1) = phys ?b ?n (Suc (length xs))"
    using n phys_Suc [of ?n ?b "length xs"] h(2) ne by (auto split: if_splits)
  obtain k where k: "?n - length xs = Suc k" "?n - Suc (length xs) = k" using n by (cases "?n - length xs") auto
  have r: "rotate ?b ((cd_buffer d1)[cd_end d1 := Some x]) = map Some (xs @ [x]) @ replicate (?n - Suc (length xs)) None"
    unfolding h(2) using ring_update [OF h(1), of "length xs" "Some x"] n h(3) k by (simp add: list_update_append)
  have g: "holds d2 (xs @ [x])" using n h(1) e r by (auto simp: d2_def holds_def)
  have "cd_end d1 < ?n" using h(1) n unfolding h(2) by (intro phys_less) linarith
  then have "emplace_back x d = rbind (cd_back d2) (\<lambda>_. Inr d2)"
    using d1(1) by (simp add: emplace_back_def vb_construct_def d2_def Let_def)
  then show ?thesis using back_ok [OF g] g d1(4) by (simp add: d2_def)
qed

lemma rotate_step:
  "b < length buf \<Longrightarrow> rotate (if b + 1 = length buf then 0 else b + 1) buf = rotate1 (rotate b buf)"
  using rotate_id [of "Suc b" buf] rotate_Suc [of b buf] by simp

lemma rotate_back:
  assumes "b < length buf" "buf \<noteq> []"
  shows "rotate (if b = 0 then length buf - 1 else b - 1) buf = last (rotate b buf) # butlast (rotate b buf)"
proof -
  let ?c = "if b = 0 then length buf - 1 else b - 1"
  have "(if ?c + 1 = length buf then 0 else ?c + 1) = b" "?c < length buf" using assms by auto
  then have "rotate b buf = rotate1 (rotate ?c buf)" using rotate_step [of ?c buf] by simp
  moreover have "rotate ?c buf \<noteq> []" using assms(2) by simp
  ultimately show ?thesis by (cases "rotate ?c buf") auto
qed

lemma emplace_front_ok:
  assumes "holds d xs"
  shows "\<exists>d'. emplace_front x d = Inr d' \<and> holds d' (x # xs) \<and> cd_generation d' = cd_generation d + 1"
proof -
  obtain d1 where d1: "ExpandCapacityIfNecessary 1 d = Inr d1" "holds d1 xs" "length xs + 1 \<le> cd_capacity d1"
    "cd_generation d1 = cd_generation d"
    using ExpandCapacity_ok [OF assms] by blast
  let ?n = "cd_cap d1" and ?b = "cd_begin d1"
  have n: "Suc (length xs) < ?n" using d1(3) by (auto simp: cd_capacity_def split: if_splits)
  then have ne: "cd_buffer d1 \<noteq> []" by auto
  have h: "?b < ?n" "cd_end d1 = phys ?b ?n (length xs)"
    "rotate ?b (cd_buffer d1) = map Some xs @ replicate (?n - length xs) None"
    using d1(2) n by (auto simp: holds_def split: if_splits)
  define c where "c = (if ?b = 0 then ?n - 1 else ?b - 1)"
  have c: "c < ?n" "phys c ?n 1 = ?b" using h(1) by (auto simp: c_def phys_def)
  define d2 where "d2 = (IncrementGeneration (d1\<lparr>cd_begin := c\<rparr>))\<lparr>cd_buffer := (cd_buffer d1)[c := Some x]\<rparr>"
  obtain k where k: "?n - length xs = Suc k" using n by (cases "?n - length xs") auto
  have "rotate c (cd_buffer d1) = None # map Some xs @ replicate k None"
    using rotate_back [OF h(1) ne] n k unfolding c_def h(3) by (auto simp: butlast_append simp flip: replicate_append_same)
  then have r: "rotate c ((cd_buffer d1)[c := Some x]) = map Some (x # xs) @ replicate (?n - length (x # xs)) None"
    using ring_update [OF c(1), of 0 "Some x"] ne n k phys_0 [OF c(1)] by auto
  have e: "cd_end d1 = phys c ?n (length (x # xs))"
    using h(2) c(2) phys_add [of c ?n 1 "length xs"] by simp
  have g: "holds d2 (x # xs)" using n c(1) e r by (auto simp: d2_def holds_def)
  have "emplace_front x d = rbind (cd_front d2) (\<lambda>_. Inr d2)"
    using d1(1) c(1) by (simp add: emplace_front_def vb_construct_def d2_def Let_def flip: c_def)
  then show ?thesis using front_ok [OF g] g d1(4) by (simp add: d2_def)
qed

lemma pop_front_ok:
  assumes "holds d (x # xs)"
  shows "\<exists>d'. pop_front d = Inr d' \<and> holds d' xs \<and> cd_capacity d' \<le> max 3 (2 * length xs) \<and>
    cd_generation d' = cd_generation d + 1"
proof -
  let ?n = "cd_cap d" and ?b = "cd_begin d"
  have h: "?b < ?n" "Suc (length xs) < ?n" "cd_end d = phys ?b ?n (Suc (length xs))"
    "rotate ?b (cd_buffer d) = map Some (x # xs) @ replicate (?n - Suc (length xs)) None"
    using assms by (auto simp: holds_def split: if_splits)
  have ne: "cd_buffer d \<noteq> []" using h(1) by auto
  define s where "s = (if ?b + 1 = ?n then 0 else ?b + 1)"
  have s: "s < ?n" "s = phys ?b ?n 1" using h(1,2) by (auto simp: s_def phys_def)
  define d1 where "d1 = d\<lparr>cd_buffer := (cd_buffer d)[?b := None], cd_begin := s\<rparr>"
  have l: "cd_buffer d ! ?b = Some x" using holds_nth(1) [OF assms, of 0] phys_0 [OF h(1)] by simp
  have "rotate ?b ((cd_buffer d)[?b := None]) = None # map Some xs @ replicate (?n - Suc (length xs)) None"
    using ring_update [OF h(1), of 0 None] ne h(1,2,4) phys_0 [OF h(1)] by auto
  moreover have "rotate s ((cd_buffer d)[?b := None]) = rotate1 (rotate ?b ((cd_buffer d)[?b := None]))"
    using rotate_step [of ?b "(cd_buffer d)[?b := None]"] h(1) by (simp only: s_def length_list_update)
  ultimately have eq: "rotate s ((cd_buffer d)[?b := None]) = rotate1 (None # map Some xs @ replicate (?n - Suc (length xs)) None)"
    by simp
  have r: "rotate s ((cd_buffer d)[?b := None]) = map Some xs @ replicate (?n - length xs) None"
  proof -
    obtain k where "?n - length xs = Suc k" "?n - Suc (length xs) = k" using h(2) by (cases "?n - length xs") auto
    then show ?thesis using eq by (simp add: replicate_append_same)
  qed
  have "holds d1 xs" using h s r phys_add [of ?b ?n 1 "length xs"] by (auto simp: d1_def holds_def)
  then obtain d2 where d2: "ShrinkCapacityIfNecessary d1 = Inr d2" "holds d2 xs" "cd_capacity d2 \<le> max 3 (2 * length xs)"
    "cd_generation d2 = cd_generation d1"
    using ShrinkCapacity_ok by blast
  have "vb_DestructRange ?b (?b + 1) (cd_buffer d) = Inr ((cd_buffer d)[?b := None])"
    using l h(1) by (simp add: vb_DestructRange_def vb_read_def)
  then have "pop_front d = rbind (ShrinkCapacityIfNecessary d1) (\<lambda>d. Inr (IncrementGeneration d))"
    using holds_size [OF assms] by (simp add: pop_front_def d1_def s_def Let_def)
  then show ?thesis using d2 by (simp add: d1_def)
qed

lemma pop_back_ok:
  assumes "holds d (xs @ [x])"
  shows "\<exists>d'. pop_back d = Inr d' \<and> holds d' xs \<and> cd_capacity d' \<le> max 3 (2 * length xs) \<and>
    cd_generation d' = cd_generation d + 1"
proof -
  let ?n = "cd_cap d" and ?b = "cd_begin d"
  have h: "?b < ?n" "Suc (length xs) < ?n" "cd_end d = phys ?b ?n (Suc (length xs))"
    "rotate ?b (cd_buffer d) = map Some (xs @ [x]) @ replicate (?n - Suc (length xs)) None"
    using assms by (auto simp: holds_def split: if_splits)
  define e where "e = (if cd_end d = 0 then ?n - 1 else cd_end d - 1)"
  have e: "e = phys ?b ?n (length xs)" using dec_phys [OF h(1), of "Suc (length xs)"] h(2,3) by (auto simp: e_def split: if_splits)
  have en: "e < ?n" unfolding e by (rule phys_less) (use h(1) in linarith)
  define d1 where "d1 = d\<lparr>cd_end := e, cd_buffer := (cd_buffer d)[e := None]\<rparr>"
  have l: "cd_buffer d ! e = Some x" using holds_nth(1) [OF assms, of "length xs"] e by simp
  have r: "rotate ?b ((cd_buffer d)[e := None]) = map Some xs @ replicate (?n - length xs) None"
    unfolding e using ring_update [OF h(1), of "length xs" None] h(2,4)
    by (simp add: list_update_append Suc_diff_Suc flip: replicate_Suc)
  have "holds d1 xs" using h e r by (auto simp: d1_def holds_def)
  then obtain d2 where d2: "ShrinkCapacityIfNecessary d1 = Inr d2" "holds d2 xs" "cd_capacity d2 \<le> max 3 (2 * length xs)"
    "cd_generation d2 = cd_generation d1"
    using ShrinkCapacity_ok by blast
  have "vb_DestructRange e (e + 1) (cd_buffer d) = Inr ((cd_buffer d)[e := None])"
    using l en by (simp add: vb_DestructRange_def vb_read_def)
  then have "pop_back d = rbind (ShrinkCapacityIfNecessary d1) (\<lambda>d. Inr (IncrementGeneration d))"
    using holds_size [OF assms] by (simp add: pop_back_def d1_def Let_def flip: e_def)
  then show ?thesis using d2 by (simp add: d1_def)
qed

section \<open>Whole-deque operations\<close>

lemma ClearRetainCapacity_ok:
  assumes "holds d xs"
  shows "\<exists>d'. ClearRetainCapacity d = Inr d' \<and> holds d' [] \<and> cd_cap d' = cd_cap d \<and> cd_begin d' = 0 \<and> cd_end d' = 0 \<and>
    cd_generation d' = cd_generation d + 1"
  using holds_clear_all [OF assms] by (auto simp: ClearRetainCapacity_def holds_def phys_def)

lemma clear_ok:
  assumes "holds d xs"
  shows "\<exists>d'. cd_clear d = Inr d' \<and> holds d' [] \<and> cd_capacity d' = 0 \<and> cd_generation d' = cd_generation d + 1"
  using ClearRetainCapacity_ok [OF assms] by (auto simp: cd_clear_def holds_def cd_capacity_def)

lemma reserve_ok:
  assumes "holds d xs"
  shows "\<exists>d'. reserve n d = Inr d' \<and> holds d' xs \<and> n \<le> cd_capacity d' \<and> cd_generation d' = cd_generation d"
  using SetCapacityTo_ok [OF assms, of n] holds_capacity [OF assms] assms
  by (cases "n > cd_capacity d") (auto simp: reserve_def)

lemma shrink_to_fit_ok:
  assumes "holds d xs"
  shows "\<exists>d'. shrink_to_fit d = Inr d' \<and> holds d' xs \<and> cd_capacity d' = length xs"
proof (cases "xs = []")
  case True
  then have "cd_begin d = cd_end d" using holds_empty [OF assms] by (simp add: cd_empty_def)
  then have "shrink_to_fit d = Inr (if cd_cap d \<noteq> 0 then d\<lparr>cd_buffer := []\<rparr> else d)" "holds (d\<lparr>cd_buffer := []\<rparr>) xs"
    using True by (simp_all add: shrink_to_fit_def cd_empty_def holds_def)
  then show ?thesis using True assms by (cases "cd_buffer d = []") (simp_all add: cd_capacity_def)
next
  case False
  then show ?thesis
    using SetCapacityTo_ok [OF assms, of "length xs"] holds_empty [OF assms] holds_size [OF assms]
    by (auto simp: shrink_to_fit_def)
qed

lemma push_all_ok:
  assumes "holds d xs"
  shows "\<exists>d'. push_all ys d = Inr d' \<and> holds d' (xs @ ys)"
  using assms
proof (induction ys arbitrary: d xs)
  case (Cons y ys)
  obtain d1 where "emplace_back y d = Inr d1" "holds d1 (xs @ [y])"
    using emplace_back_ok [OF Cons.prems] by blast
  then show ?case using Cons.IH [of d1 "xs @ [y]"] by auto
qed simp

lemma assign_range_ok:
  assumes "holds d xs"
  shows "\<exists>d'. assign_range ys d = Inr d' \<and> holds d' ys"
proof -
  obtain d1 where d1: "ClearRetainCapacity d = Inr d1" "holds d1 []" using ClearRetainCapacity_ok [OF assms] by blast
  then obtain d2 where "push_all ys d1 = Inr d2" "holds d2 ys" using push_all_ok [OF d1(2), of ys] by auto
  then show ?thesis using d1 by (simp add: assign_range_def)
qed

lemma assign_count_ok:
  assumes "holds d xs"
  shows "\<exists>d'. assign_count n x d = Inr d' \<and> holds d' (replicate n x)"
proof -
  obtain d1 where d1: "ClearRetainCapacity d = Inr d1" "holds d1 []" using ClearRetainCapacity_ok [OF assms] by blast
  then obtain d2 where d2: "reserve n d1 = Inr d2" "holds d2 []" using reserve_ok [OF d1(2)] by blast
  then obtain d3 where "push_all (replicate n x) d2 = Inr d3" "holds d3 (replicate n x)"
    using push_all_ok [OF d2(2), of "replicate n x"] by auto
  then show ?thesis using d1 d2 by (simp add: assign_count_def)
qed

lemma assign_list_ok:
  assumes "holds d xs"
  shows "\<exists>d'. assign_list ys d = Inr d' \<and> holds d' ys"
  using reserve_ok [OF assms, of "length ys"] assign_range_ok by (fastforce simp: assign_list_def)

lemma copy_ok:
  assumes "holds d xs"
  shows "\<exists>d'. cd_copy d = Inr d' \<and> holds d' xs"
proof -
  let ?d0 = "\<lparr>cd_buffer = VectorBuffer_new (cd_size d + 1), cd_begin = 0, cd_end = 0, cd_generation = 0\<rparr> :: 'a circular_deque"
  have "holds ?d0 []" by (simp add: holds_def VectorBuffer_new_def phys_def)
  then show ?thesis using assign_range_ok [of ?d0 "[]" xs] by (simp add: cd_copy_def read_all_ok [OF assms])
qed

lemma copy_assign_ok:
  assumes "holds d xs" "holds other ys"
  shows "\<exists>d'. cd_copy_assign other d = Inr d' \<and> holds d' ys"
  using reserve_ok [OF assms(1), of "cd_size other"] assign_range_ok
  by (fastforce simp: cd_copy_assign_def read_all_ok [OF assms(2)])

lemma holds_cong:
  "holds d xs \<Longrightarrow> cd_buffer e = cd_buffer d \<Longrightarrow> cd_begin e = cd_begin d \<Longrightarrow> cd_end e = cd_end d \<Longrightarrow> holds e xs"
  by (simp add: holds_def)

lemma moved_from_ok: "holds (cd_moved_from d) []"
  by (simp add: holds_def cd_moved_from_def)

lemma move_ok:
  assumes "holds d xs"
  shows "\<exists>d' r. cd_move d = (d', r) \<and> holds d' xs \<and> holds r []"
  using holds_cong [OF assms] moved_from_ok by (auto simp: cd_move_def)

lemma move_assign_ok:
  assumes "holds d xs" "holds other ys"
  shows "\<exists>d' r. cd_move_assign other d = Inr (d', r) \<and> holds d' ys \<and> holds r []"
proof -
  obtain d1 where "ClearRetainCapacity d = Inr d1" using ClearRetainCapacity_ok [OF assms(1)] by blast
  then show ?thesis using holds_cong [OF assms(2)] moved_from_ok by (auto simp: cd_move_assign_def)
qed

lemma swap_ok:
  assumes "holds d xs" "holds other ys"
  shows "\<exists>d' r. cd_swap d other = (d', r) \<and> holds d' ys \<and> holds r xs"
  using holds_cong [OF assms(1)] holds_cong [OF assms(2)] by (auto simp: cd_swap_def)

lemma destroy_ok: "holds d xs \<Longrightarrow> cd_destroy d = Inr (replicate (cd_cap d) None)"
  using holds_clear_all by (fastforce simp: cd_destroy_def)

lemma resize_loop_ok:
  assumes "holds d xs" "n - length xs \<le> fuel"
  shows "\<exists>d'. resize_loop fuel n x d = Inr d' \<and> holds d' (xs @ replicate (n - length xs) x)"
  using assms
proof (induction fuel arbitrary: d xs)
  case 0
  then show ?case using holds_size [OF 0(1)] by (simp add: resize_loop.simps)
next
  case (Suc fuel)
  show ?case
  proof (cases "length xs < n")
    case True
    obtain d1 where d1: "emplace_back x d = Inr d1" "holds d1 (xs @ [x])"
      using emplace_back_ok [OF Suc.prems(1)] by blast
    have f: "n - length (xs @ [x]) \<le> fuel" using Suc.prems(2) by simp
    obtain d2 where d2: "resize_loop fuel n x d1 = Inr d2" "holds d2 ((xs @ [x]) @ replicate (n - length (xs @ [x])) x)"
      using Suc.IH [OF d1(2)] f by blast
    obtain k where "n - length xs = Suc k" "n - Suc (length xs) = k" using True by (cases "n - length xs") auto
    then show ?thesis using True d1(1) d2 holds_size [OF Suc.prems(1)] by (simp add: resize_loop.simps [of "Suc fuel"])
  qed (use Suc.prems holds_size [OF Suc.prems(1)] in \<open>simp add: resize_loop.simps\<close>)
qed

lemma truncate_ok:
  assumes "holds d xs" "n < length xs"
  shows "\<exists>b. cd_DestructRange (phys (cd_begin d) (cd_cap d) n) (cd_end d) (cd_buffer d) = Inr b \<and>
    holds (d\<lparr>cd_buffer := b, cd_end := phys (cd_begin d) (cd_cap d) n\<rparr>) (take n xs)"
proof -
  let ?b = "cd_begin d" and ?n = "cd_cap d"
  have h: "?b < ?n" "length xs < ?n" "cd_end d = phys ?b ?n (length xs)" "cd_buffer d \<noteq> []"
    "rotate ?b (cd_buffer d) = map Some xs @ replicate (?n - length xs) None"
    using assms by (auto simp: holds_def split: if_splits)
  obtain b where b: "cd_DestructRange (phys ?b ?n n) (cd_end d) (cd_buffer d) = Inr b" "length b = ?n"
    "rotate ?b b = clear_cells n (length xs - n) (rotate ?b (cd_buffer d))"
    using destruct_range_ring [OF h(1), of n "length xs"] assms(2) h by (auto simp: nth_append)
  have "rotate ?b b = map Some (take n xs) @ replicate (?n - n) None"
    using b(3) h assms(2) by (simp add: clear_cells_def take_map flip: replicate_add)
  moreover have "b \<noteq> []" using h(4) b(2) by auto
  ultimately show ?thesis using b(1,2) h assms(2) by (auto simp: holds_def)
qed

lemma resize_ok:
  assumes "holds d xs"
  shows "\<exists>d'. cd_resize n x d = Inr d' \<and> holds d' (take n xs @ replicate (n - length xs) x)"
proof -
  consider "n > length xs" | "n < length xs" | "n = length xs" by linarith
  then show ?thesis
  proof cases
    case 1
    obtain d1 where d1: "ExpandCapacityIfNecessary (n - length xs) d = Inr d1" "holds d1 xs"
      using ExpandCapacity_ok [OF assms] by blast
    obtain d2 where "resize_loop n n x d1 = Inr d2" "holds d2 (xs @ replicate (n - length xs) x)"
      using resize_loop_ok [OF d1(2), of n n x] by auto
    then show ?thesis using 1 d1 holds_size [OF assms] by (simp add: cd_resize_def)
  next
    case 2
    then have ne: "cd_buffer d \<noteq> []" using assms by (auto simp: holds_def split: if_splits)
    obtain b where b: "cd_DestructRange (phys (cd_begin d) (cd_cap d) n) (cd_end d) (cd_buffer d) = Inr b"
      "holds (d\<lparr>cd_buffer := b, cd_end := phys (cd_begin d) (cd_cap d) n\<rparr>) (take n xs)"
      using truncate_ok [OF assms 2] by blast
    obtain d1 where "ShrinkCapacityIfNecessary (d\<lparr>cd_buffer := b, cd_end := phys (cd_begin d) (cd_cap d) n\<rparr>) = Inr d1"
      "holds d1 (take n xs)" using ShrinkCapacity_ok [OF b(2)] by blast
    then show ?thesis using 2 b ne holds_size [OF assms] by (simp add: cd_resize_def phys_def)
  next
    case 3
    then show ?thesis using assms holds_size [OF assms] by (simp add: cd_resize_def)
  qed
qed

end
