(* ===== verification/DequeMiddle.thy ===== *)
theory DequeMiddle
  imports DequeEnds
begin

text \<open>
  The operations of the circular deque at any position: opening a gap with \<open>MakeRoomFor\<close>, filling it,
  and closing one with \<open>erase\<close>. Every loop ends within as many rounds as the buffer has cells.
\<close>

section \<open>Iterators over a deque in transition\<close>

text \<open>
  While elements are being moved the ring has holes, but \<open>begin\<close> and \<open>end\<close> already enclose the new
  size: this is all the iterators depend on.
\<close>

definition spans :: "'a circular_deque \<Rightarrow> nat \<Rightarrow> bool" where
  "spans d n \<longleftrightarrow> cd_begin d < cd_cap d \<and> n < cd_cap d \<and> cd_end d = phys (cd_begin d) (cd_cap d) n"

lemma spans_buffer [simp]: "length b = cd_cap d \<Longrightarrow> spans (d\<lparr>cd_buffer := b\<rparr>) n = spans d n"
  by (simp add: spans_def)

lemma iter_to_buffer [simp]: "length b = cd_cap d \<Longrightarrow> iter_to (d\<lparr>cd_buffer := b\<rparr>) i = iter_to d i"
  by (simp add: iter_to_def iterator_at_def)

lemma spans_valid:
  assumes "spans d n"
  shows "i < n \<Longrightarrow> CheckValidIndex d (phys (cd_begin d) (cd_cap d) i)"
    and "i \<le> n \<Longrightarrow> CheckValidIndexOrEnd d (phys (cd_begin d) (cd_cap d) i)"
proof -
  show v: "i < n \<Longrightarrow> CheckValidIndex d (phys (cd_begin d) (cd_cap d) i)" for i
    using assms by (auto simp: spans_def CheckValidIndex_def phys_cases split: if_splits)
  show "i \<le> n \<Longrightarrow> CheckValidIndexOrEnd d (phys (cd_begin d) (cd_cap d) i)"
    using v [of i] assms by (cases "i = n") (auto simp: CheckValidIndexOrEnd_def spans_def)
qed

lemma spans_Decrement:
  assumes "spans d n" "0 < i" "i \<le> n"
  shows "iter_Decrement d (iter_to d i) = Inr (iter_to d (i - 1))"
proof -
  have c: "cd_begin d < cd_cap d" "i < cd_cap d" using assms by (auto simp: spans_def)
  then have "cd_cap d \<noteq> 0" by linarith
  with c have "(iter_to d i)\<lparr>it_index := (if it_index (iter_to d i) = 0
      then (if cd_cap d = 0 then 2 ^ 64 - 1 else cd_cap d - 1) else it_index (iter_to d i) - 1)\<rparr> = iter_to d (i - 1)"
    using dec_phys [of d i] assms(2) by (intro iterator_eqI) (simp_all split: if_splits)
  then show ?thesis using spans_valid(2) [OF assms(1,3)] unfolding iter_Decrement_def by simp
qed

lemma spans_Increment:
  assumes "spans d n" "i < n"
  shows "iter_Increment d (iter_to d i) = Inr (iter_to d (Suc i))"
proof -
  have "0 < cd_cap d" using assms by (auto simp: spans_def)
  then have "(iter_to d i)\<lparr>it_index := (if it_index (iter_to d i) + 1 = cd_cap d then 0 else it_index (iter_to d i) + 1)\<rparr> =
      iter_to d (Suc i)"
    using phys_Suc [of "cd_cap d" "cd_begin d" i] by (intro iterator_eqI) simp_all
  then show ?thesis using spans_valid(1) [OF assms] unfolding iter_Increment_def Let_def by simp
qed

lemma spans_less:
  assumes "spans d n" "i \<le> n" "j \<le> n"
  shows "iter_less d (iter_to d i) (iter_to d j) = Inr (i < j)"
  using assms by (intro iter_less_to) (auto simp: spans_def)

lemma spans_eq:
  assumes "spans d n" "i \<le> n" "j \<le> n"
  shows "iter_eq (iter_to d i) (iter_to d j) = Inr (i = j)"
  using assms by (intro iter_eq_to) (auto simp: spans_def)

lemma holds_spans:
  assumes "holds d xs" "cd_buffer d \<noteq> []"
  shows "spans d (length xs)" "rotate (cd_begin d) (cd_buffer d) = map Some xs @ replicate (cd_cap d - length xs) None"
  using assms by (auto simp: holds_def spans_def)

lemma spans_holds:
  assumes "spans d (length xs)" "rotate (cd_begin d) (cd_buffer d) = map Some xs @ replicate r None"
  shows "holds d xs"
proof -
  have "cd_cap d = length xs + r" using arg_cong [OF assms(2), of length] by simp
  then show ?thesis using assms by (auto simp: spans_def holds_def)
qed

lemma move_ring:
  assumes "b < length buf" "i < length buf" "j < length buf" "i \<noteq> j" "rotate b buf ! i = Some x"
  shows "\<exists>buf'. MoveRange_in (phys b (length buf) i) (phys b (length buf) j) buf = Inr buf' \<and> length buf' = length buf \<and>
    rotate b buf' = (rotate b buf)[j := Some x, i := None]"
proof -
  let ?p = "phys b (length buf) i" and ?q = "phys b (length buf) j"
  have "0 < length buf" using assms(1) by linarith
  then have p: "?p < length buf" "?q < length buf" by (auto intro: phys_less)
  have ne: "?p \<noteq> ?q" using phys_inj [OF assms(1-3)] assms(4) by simp
  have x: "buf ! ?p = Some x" using assms(2,5) by (simp add: nth_ring)
  have "rotate b (buf[?q := Some x, ?p := None]) = (rotate b buf)[j := Some x, i := None]"
    using ring_update [of b "buf[?q := Some x]" i None] ring_update [of b buf j "Some x"] assms by simp
  moreover have "MoveRange_in ?p ?q buf = Inr (buf[?q := Some x, ?p := None])"
    using p ne x by (auto simp: MoveRange_in_def RangesOverlap_def vb_read_def vb_construct_def)
  ultimately show ?thesis by simp
qed

lemma seg_right:
  "((A @ Some s # replicate (Suc c) None @ B)[length A + Suc c := Some s])[length A := None] =
     A @ replicate (Suc c) None @ Some s # B"
  by (simp add: list_update_append replicate_append_same [symmetric] del: replicate_append_same)

lemma seg_left:
  "((A @ replicate (Suc c) None @ Some s # B)[length A := Some s])[length A + Suc c := None] =
     A @ Some s # replicate (Suc c) None @ B"
  by (simp add: list_update_append) (simp add: replicate_append_same [symmetric])

section \<open>Opening and closing a gap\<close>

lemma length_ring: "rotate b buf = L \<Longrightarrow> length buf = length L"
  by (metis length_rotate)

lemma make_room_loop_ok:
  assumes "spans d (length pre + length suf + count)" "0 < count" "m \<le> length suf" "m \<le> fuel"
    and L: "rotate (cd_begin d) (cd_buffer d) =
      map Some pre @ map Some (take m suf) @ replicate count None @ map Some (drop m suf) @ replicate r None"
  shows "\<exists>b. make_room_loop fuel (iter_to d (length pre + m)) (iter_to d (length pre + m + count)) (iter_to d (length pre)) d =
      Inr (d\<lparr>cd_buffer := b\<rparr>) \<and> length b = cd_cap d \<and>
      rotate (cd_begin d) b = map Some pre @ replicate count None @ map Some suf @ replicate r None"
  using assms
proof (induction m arbitrary: d fuel)
  case 0
  have "iter_eq (iter_to d (length pre)) (iter_to d (length pre)) = Inr True"
    using spans_eq [OF 0(1), of "length pre" "length pre"] by simp
  then have "make_room_loop fuel (iter_to d (length pre + 0)) (iter_to d (length pre + 0 + count)) (iter_to d (length pre)) d = Inr d"
    by (simp add: make_room_loop.simps)
  then show ?case using 0(5) by (intro exI [of _ "cd_buffer d"]) simp
next
  case (Suc m)
  obtain c where c: "count = Suc c" using Suc.prems(2) by (cases count) auto
  obtain fuel' where f: "fuel = Suc fuel'" using Suc.prems(4) by (cases fuel) auto
  let ?i = "length pre + m" and ?A = "map Some pre @ map Some (take m suf)"
    and ?B = "map Some (drop (Suc m) suf) @ replicate r None"
  have m: "m < length suf" using Suc.prems(3) by simp
  have L: "rotate (cd_begin d) (cd_buffer d) = ?A @ Some (suf ! m) # replicate (Suc c) None @ ?B"
    using Suc.prems(5) m c by (simp add: take_Suc_conv_app_nth)
  have A: "length ?A = ?i" using m by simp
  have n: "cd_cap d = ?i + (Suc (Suc c) + length ?B)" using length_ring [OF L] m by simp
  have b: "cd_begin d < cd_cap d" using Suc.prems(1) by (simp add: spans_def)
  obtain b where b': "MoveRange_in (phys (cd_begin d) (cd_cap d) ?i) (phys (cd_begin d) (cd_cap d) (?i + Suc c)) (cd_buffer d) = Inr b"
    "length b = cd_cap d" "rotate (cd_begin d) b = (?A @ Some (suf ! m) # replicate (Suc c) None @ ?B)[?i + Suc c := Some (suf ! m), ?i := None]"
    using move_ring [OF b, of ?i "?i + Suc c" "suf ! m"] n L A by (auto simp: nth_append)
  have L': "rotate (cd_begin d) b = ?A @ replicate (Suc c) None @ Some (suf ! m) # ?B"
    using b'(3) seg_right [of ?A "suf ! m" c ?B] unfolding A by simp
  have dec: "iter_Decrement d (iter_to d (length pre + Suc m)) = Inr (iter_to d ?i)"
    "iter_Decrement d (iter_to d (length pre + Suc m + count)) = Inr (iter_to d (?i + count))"
    using spans_Decrement [OF Suc.prems(1), of "length pre + Suc m"]
      spans_Decrement [OF Suc.prems(1), of "length pre + Suc m + count"] m by simp_all
  have ne: "iter_eq (iter_to d (length pre + Suc m)) (iter_to d (length pre)) = Inr False"
    using spans_eq [OF Suc.prems(1), of "length pre + Suc m" "length pre"] m by simp
  have step: "make_room_loop fuel (iter_to d (length pre + Suc m)) (iter_to d (length pre + Suc m + count)) (iter_to d (length pre)) d =
      make_room_loop fuel' (iter_to d ?i) (iter_to d (?i + count)) (iter_to d (length pre)) (d\<lparr>cd_buffer := b\<rparr>)"
    using ne dec b'(1) c unfolding f by (simp add: make_room_loop.simps [of "Suc fuel'"])
  have "\<exists>b2. make_room_loop fuel' (iter_to (d\<lparr>cd_buffer := b\<rparr>) ?i) (iter_to (d\<lparr>cd_buffer := b\<rparr>) (?i + count))
        (iter_to (d\<lparr>cd_buffer := b\<rparr>) (length pre)) (d\<lparr>cd_buffer := b\<rparr>) = Inr (d\<lparr>cd_buffer := b, cd_buffer := b2\<rparr>) \<and>
      length b2 = cd_cap (d\<lparr>cd_buffer := b\<rparr>) \<and>
      rotate (cd_begin (d\<lparr>cd_buffer := b\<rparr>)) b2 = map Some pre @ replicate count None @ map Some suf @ replicate r None"
  proof (rule Suc.IH)
    show "rotate (cd_begin (d\<lparr>cd_buffer := b\<rparr>)) (cd_buffer (d\<lparr>cd_buffer := b\<rparr>)) =
        map Some pre @ map Some (take m suf) @ replicate count None @ map Some (drop m suf) @ replicate r None"
      using L' c m by (simp add: Cons_nth_drop_Suc [symmetric])
  qed (use Suc.prems b'(2) f in simp_all)
  then show ?case unfolding step using b'(2) by simp
qed

lemma MakeRoomFor_ok:
  assumes "holds d (pre @ suf)" "pre \<noteq> []" "0 < count"
  shows "\<exists>d' r. MakeRoomFor count (iter_to d (length pre)) d = Inr (iter_to d' (length pre), iter_to d' (length pre + count), d') \<and>
    spans d' (length pre + length suf + count) \<and> cd_generation d' = cd_generation d \<and>
    rotate (cd_begin d') (cd_buffer d') = map Some pre @ replicate count None @ map Some suf @ replicate r None"
proof -
  have ne: "cd_buffer d \<noteq> []" using assms by (auto simp: holds_def)
  note s = holds_spans [OF assms(1) ne]
  have off: "OffsetFromBegin d (iter_to d (length pre)) = length pre"
    using s(1) by (intro offset_phys) (auto simp: spans_def)
  obtain d1 where d1: "ExpandCapacityIfNecessary count d = Inr d1" "holds d1 (pre @ suf)"
    "length (pre @ suf) + count \<le> cd_capacity d1" "cd_generation d1 = cd_generation d"
    using ExpandCapacity_ok [OF assms(1)] by blast
  have ne1: "cd_buffer d1 \<noteq> []" using d1(3) assms(3) by (auto simp: cd_capacity_def split: if_splits)
  note s1 = holds_spans [OF d1(2) ne1]
  let ?n = "cd_cap d1" and ?b = "cd_begin d1"
  have n: "length pre + length suf + count < ?n" using d1(3) ne1 by (cases ?n) (auto simp: cd_capacity_def)
  define r where "r = ?n - (length pre + length suf + count)"
  define d2 where "d2 = d1\<lparr>cd_end := (cd_end d1 + count) mod ?n\<rparr>"
  have e: "(cd_end d1 + count) mod ?n = phys ?b ?n (length pre + length suf + count)"
    using s1(1) phys_add [of ?b ?n "length pre + length suf" count] by (simp add: spans_def phys_def)
  have sp: "spans d2 (length pre + length suf + count)" using s1(1) n e by (simp add: spans_def d2_def)
  have "replicate (?n - length (pre @ suf)) None = replicate count None @ replicate r (None :: 'a option)"
    using n by (simp add: r_def flip: replicate_add)
  then have L: "rotate (cd_begin d2) (cd_buffer d2) =
      map Some pre @ map Some (take (length suf) suf) @ replicate count None @ map Some (drop (length suf) suf) @ replicate r None"
    using s1(2) by (simp add: d2_def)
  have fuel: "length suf \<le> cd_cap d2" using n by (simp add: d2_def)
  obtain b where b: "make_room_loop (cd_cap d2) (iter_to d2 (length pre + length suf)) (iter_to d2 (length pre + length suf + count))
      (iter_to d2 (length pre)) d2 = Inr (d2\<lparr>cd_buffer := b\<rparr>)" "length b = cd_cap d2"
      "rotate (cd_begin d2) b = map Some pre @ replicate count None @ map Some suf @ replicate r None"
    using make_room_loop_ok [OF sp assms(3) order.refl fuel L] by blast
  have its: "(iter_to d (length pre))\<lparr>it_index := (?b + length pre) mod ?n\<rparr> = iter_to d2 (length pre)"
    "iterator_at d1 (((?b + length pre) mod ?n + count) mod ?n) = iter_to d2 (length pre + count)"
    "cd_iter_end d1 = iter_to d2 (length pre + length suf)" "cd_iter_end d2 = iter_to d2 (length pre + length suf + count)"
    using d1(4) s1(1) e phys_add [of ?b ?n "length pre" count]
    by (simp_all add: iter_to_def iterator_at_def cd_iter_end_def d2_def phys_def spans_def)
  have "MakeRoomFor count (iter_to d (length pre)) d =
      Inr (iter_to d2 (length pre), iter_to d2 (length pre + count), d2\<lparr>cd_buffer := b\<rparr>)"
    using assms(3) ne1 d1(1) b(1) its
    by (simp add: MakeRoomFor_def off Let_def flip: d2_def) (simp add: d2_def)
  then show ?thesis using b sp d1(4)
    by (intro exI [of _ "d2\<lparr>cd_buffer := b\<rparr>"] exI [of _ r]) (simp add: d2_def)
qed

lemma fill_loop_ok:
  assumes "spans d (length pre + length vs + length suf)" "k \<le> length vs" "length vs - k \<le> fuel"
    "\<forall>j < length vs. src j = Some (vs ! j)"
    and L: "rotate (cd_begin d) (cd_buffer d) =
      map Some (pre @ take k vs) @ replicate (length vs - k) None @ map Some suf @ replicate r None"
  shows "\<exists>d'. fill_loop fuel src k (iter_to d (length pre + k)) (iter_to d (length pre + length vs)) d = Inr d' \<and>
    holds d' (pre @ vs @ suf) \<and> cd_generation d' = cd_generation d"
  using assms
proof (induction fuel arbitrary: d k)
  case 0
  have "holds d (pre @ vs @ suf)" using 0 by (intro spans_holds [where r = r]) (simp_all add: add.assoc)
  then show ?case using 0 spans_less [OF 0(1), of "length pre + k" "length pre + length vs"]
    by (simp add: fill_loop.simps)
next
  case (Suc fuel)
  have lt: "iter_less d (iter_to d (length pre + k)) (iter_to d (length pre + length vs)) = Inr (k < length vs)"
    using spans_less [OF Suc.prems(1), of "length pre + k" "length pre + length vs"] Suc.prems(2) by simp
  show ?case
  proof (cases "k = length vs")
    case True
    then have "holds d (pre @ vs @ suf)" using Suc.prems by (intro spans_holds [where r = r]) (simp_all add: add.assoc)
    then show ?thesis using True lt by (simp add: fill_loop.simps)
  next
    case False
    then have k: "k < length vs" using Suc.prems(2) by simp
    obtain c where c: "length vs - k = Suc c" "length vs - Suc k = c" using k by (cases "length vs - k") auto
    let ?i = "length pre + k" and ?b = "cd_begin d" and ?n = "cd_cap d"
    define b where "b = (cd_buffer d)[phys ?b ?n ?i := Some (vs ! k)]"
    have sp: "?b < ?n" "?i < ?n" "length b = ?n" using Suc.prems(1) k by (auto simp: spans_def b_def)
    then have "0 < ?n" by linarith
    then have p: "phys ?b ?n ?i < ?n" by (rule phys_less)
    have "rotate ?b b = map Some (pre @ take (Suc k) vs) @ replicate (length vs - Suc k) None @ map Some suf @ replicate r None"
      unfolding b_def ring_update [OF sp(1,2)] Suc.prems(5) using k c
      by (simp add: list_update_append take_Suc_conv_app_nth)
    moreover have "length vs - Suc k \<le> fuel" using c Suc.prems(3) by simp
    moreover have "spans (d\<lparr>cd_buffer := b\<rparr>) (length pre + length vs + length suf)" using Suc.prems(1) sp(3) by simp
    ultimately obtain d' where d': "fill_loop fuel src (Suc k) (iter_to (d\<lparr>cd_buffer := b\<rparr>) (length pre + Suc k))
        (iter_to (d\<lparr>cd_buffer := b\<rparr>) (length pre + length vs)) (d\<lparr>cd_buffer := b\<rparr>) = Inr d'"
      "holds d' (pre @ vs @ suf)" "cd_generation d' = cd_generation d"
      using Suc.IH [of "d\<lparr>cd_buffer := b\<rparr>" "Suc k"] Suc.prems(3,4) k by auto
    have inc: "iter_Increment (d\<lparr>cd_buffer := b\<rparr>) (iter_to d ?i) = Inr (iter_to d (Suc ?i))"
      using spans_Increment [of "d\<lparr>cd_buffer := b\<rparr>" _ ?i] Suc.prems(1) sp(3) k by simp
    have "vb_construct (phys ?b ?n ?i) (vs ! k) (cd_buffer d) = Inr b" using p by (simp add: vb_construct_def b_def)
    then have "fill_loop (Suc fuel) src k (iter_to d ?i) (iter_to d (length pre + length vs)) d = Inr d'"
      using lt k Suc.prems(4) inc d'(1) sp(3) by (simp add: fill_loop.simps [of "Suc fuel"] Let_def)
    then show ?thesis using d' by blast
  qed
qed

section \<open>Insertion at any position\<close>

lemma iter_eq_begin:
  assumes "holds d xs" "i \<le> length xs"
  shows "iter_eq (iter_to d i) (cd_iter_begin d) = Inr (i = 0)"
proof (cases "cd_buffer d = []")
  case True
  then have "i = 0" "cd_begin d = cd_end d" using assms by (auto simp: holds_def)
  then show ?thesis using True by (simp add: iter_eq_def CheckComparable_def cd_iter_begin_def iterator_at_def phys_def)
next
  case False
  then have s: "spans d (length xs)" using holds_spans(1) [OF assms(1)] by simp
  then have "cd_iter_begin d = iter_to d 0" by (simp add: cd_iter_begin_def iter_to_def spans_def phys_0)
  then show ?thesis using spans_eq [OF s, of i 0] assms(2) by simp
qed

lemma push_front_loop_ok:
  assumes "holds d xs"
  shows "\<exists>d'. push_front_loop n x d = Inr d' \<and> holds d' (replicate n x @ xs) \<and>
    cd_generation d' = cd_generation d + of_nat n"
  using assms
proof (induction n arbitrary: d xs)
  case (Suc n)
  obtain d1 where d1: "emplace_front x d = Inr d1" "holds d1 (x # xs)" "cd_generation d1 = cd_generation d + 1"
    using emplace_front_ok [OF Suc.prems] by blast
  obtain d2 where d2: "push_front_loop n x d1 = Inr d2" "holds d2 (replicate n x @ x # xs)" "cd_generation d2 = cd_generation d1 + of_nat n"
    using Suc.IH [OF d1(2)] by blast
  have r: "replicate n x @ x # xs = replicate (Suc n) x @ xs" by (simp add: replicate_app_Cons_same)
  show ?case using d1 d2(1,3) d2(2) [unfolded r] by (simp add: algebra_simps)
qed simp

lemma iterator_at_iter_to [simp]: "iterator_at d (phys (cd_begin d) (cd_cap d) i) = iter_to d i"
  by (simp add: iter_to_def)

lemma MakeRoomFor_fill_ok:
  assumes "holds d (pre @ suf)" "pre \<noteq> []" "\<forall>j < length vs. src j = Some (vs ! j)"
  shows "\<exists>d'. rbind (MakeRoomFor (length vs) (iter_to d (length pre)) d) (\<lambda>(insert_cur, insert_end, d).
      rbind (fill_loop (cd_cap d) src 0 insert_cur insert_end d) (\<lambda>d. Inr (IncrementGeneration d))) = Inr d' \<and>
    holds d' (pre @ vs @ suf) \<and> cd_generation d' = cd_generation d + 1"
proof (cases "vs = []")
  case True
  have "cd_buffer d \<noteq> []" using assms(1,2) by (auto simp: holds_def)
  then have "iter_less d (iter_to d (length pre)) (iter_to d (length pre)) = Inr False"
    using spans_less [OF holds_spans(1) [OF assms(1)], of "length pre" "length pre"] by simp
  then show ?thesis using True assms(1) by (simp add: MakeRoomFor_def fill_loop.simps)
next
  case False
  obtain d1 r where d1: "MakeRoomFor (length vs) (iter_to d (length pre)) d = Inr (iter_to d1 (length pre), iter_to d1 (length pre + length vs), d1)"
    "spans d1 (length pre + length suf + length vs)" "cd_generation d1 = cd_generation d"
    "rotate (cd_begin d1) (cd_buffer d1) = map Some pre @ replicate (length vs) None @ map Some suf @ replicate r None"
    using MakeRoomFor_ok [OF assms(1,2)] False by (metis length_greater_0_conv)
  have "length vs \<le> cd_cap d1" using d1(2) by (simp add: spans_def)
  then obtain d2 where "fill_loop (cd_cap d1) src 0 (iter_to d1 (length pre)) (iter_to d1 (length pre + length vs)) d1 = Inr d2"
    "holds d2 (pre @ vs @ suf)" "cd_generation d2 = cd_generation d1"
    using fill_loop_ok [of d1 pre vs suf 0 "cd_cap d1" src r] d1 assms(3) by (auto simp: ac_simps)
  then show ?thesis using d1 by simp
qed

lemma insert_count_ok:
  assumes "holds d xs" "i \<le> length xs"
  shows "\<exists>d'. insert_count (iter_to d i) n x d = Inr d' \<and> holds d' (take i xs @ replicate n x @ drop i xs)"
proof (cases "i = 0")
  case True
  obtain d1 where d1: "ExpandCapacityIfNecessary n d = Inr d1" "holds d1 xs" using ExpandCapacity_ok [OF assms(1)] by blast
  then obtain d2 where "push_front_loop n x d1 = Inr d2" "holds d2 (replicate n x @ xs)"
    using push_front_loop_ok [OF d1(2)] by blast
  then show ?thesis using True d1 iter_eq_begin [OF assms(1), of 0] by (simp add: insert_count_def)
next
  case False
  then have "take i xs \<noteq> []" "length (take i xs) = i" using assms(2) by auto
  then show ?thesis
    using MakeRoomFor_fill_ok [of d "take i xs" "drop i xs" "replicate n x" "\<lambda>_. Some x"] iter_eq_begin [OF assms] assms(1) False
    by (auto simp: insert_count_def)
qed

lemma open_front_ok:
  assumes "holds d xs" "0 < m" "length xs + m \<le> cd_capacity d"
  defines "d' \<equiv> d\<lparr>cd_begin := (cd_begin d + cd_cap d - m) mod cd_cap d\<rparr>"
  shows "spans d' (m + length xs)" "cd_iter_begin d' = iter_to d' 0" "cd_iter_begin d = iter_to d' m" "cd_cap d \<noteq> 0"
    "\<exists>r. rotate (cd_begin d') (cd_buffer d') = replicate m None @ map Some xs @ replicate r None"
proof -
  let ?n = "cd_cap d" and ?b = "cd_begin d"
  have ne: "cd_buffer d \<noteq> []" using assms(2,3) by (auto simp: cd_capacity_def split: if_splits)
  then show "?n \<noteq> 0" by simp
  note s = holds_spans [OF assms(1) ne]
  have n: "m + length xs < ?n" using assms(3) ne by (cases ?n) (auto simp: cd_capacity_def)
  have c: "cd_begin d' = phys ?b ?n (?n - m)" using n by (simp add: d'_def phys_def)
  have cb: "phys (cd_begin d') ?n m = ?b" using n s(1) phys_add [of ?b ?n "?n - m" m] unfolding c by (simp add: phys_def spans_def)
  have lt: "cd_begin d' < ?n" unfolding c by (rule phys_less) (use n in linarith)
  have "cd_end d = phys (cd_begin d') ?n (m + length xs)"
    using cb phys_add [of "cd_begin d'" ?n m "length xs"] s(1) by (simp add: spans_def)
  then show "spans d' (m + length xs)" using lt n by (simp add: spans_def d'_def)
  show "cd_iter_begin d' = iter_to d' 0" using lt by (simp add: cd_iter_begin_def iter_to_def phys_0 d'_def)
  show "cd_iter_begin d = iter_to d' m" using cb by (simp add: cd_iter_begin_def iter_to_def iterator_at_def d'_def)
  have "rotate (cd_begin d') (cd_buffer d') = rotate (?n - m) (rotate ?b (cd_buffer d))"
    unfolding c by (simp add: d'_def phys_def rotate_rotate add.commute flip: rotate_conv_mod)
  also have "\<dots> = drop (?n - m) (rotate ?b (cd_buffer d)) @ take (?n - m) (rotate ?b (cd_buffer d))"
    using n assms(2) by (simp add: rotate_drop_take)
  also have "\<dots> = replicate m None @ map Some xs @ replicate (?n - m - length xs) None"
    unfolding s(2) using n by (simp add: min_absorb2)
  finally show "\<exists>r. rotate (cd_begin d') (cd_buffer d') = replicate m None @ map Some xs @ replicate r None" by blast
qed

lemma insert_range_ok:
  assumes "holds d xs" "i \<le> length xs"
  shows "\<exists>d'. insert_range (iter_to d i) vs d = Inr d' \<and> holds d' (take i xs @ vs @ drop i xs)"
proof -
  let ?src = "\<lambda>k. if k < length vs then Some (vs ! k) else None"
  consider "vs = []" | "vs \<noteq> []" "i = 0" | "vs \<noteq> []" "i \<noteq> 0" by blast
  then show ?thesis
  proof cases
    case 1
    then show ?thesis using assms by (simp add: insert_range_def)
  next
    case 2
    obtain d1 where d1: "ExpandCapacityIfNecessary (length vs) d = Inr d1" "holds d1 xs"
      "length xs + length vs \<le> cd_capacity d1" using ExpandCapacity_ok [OF assms(1)] by blast
    define d2 where "d2 = d1\<lparr>cd_begin := (cd_begin d1 + cd_cap d1 - length vs) mod cd_cap d1\<rparr>"
    have "0 < length vs" using 2 by simp
    note o = open_front_ok [OF d1(2) this d1(3), folded d2_def]
    obtain r where r: "rotate (cd_begin d2) (cd_buffer d2) = replicate (length vs) None @ map Some xs @ replicate r None"
      using o(5) by blast
    have "length vs \<le> cd_cap d2" using o(1) by (simp add: spans_def)
    then obtain d3 where "fill_loop (cd_cap d2) ?src 0 (iter_to d2 0) (iter_to d2 (length vs)) d2 = Inr d3" "holds d3 (vs @ xs)"
      using fill_loop_ok [of d2 "[]" vs xs 0 "cd_cap d2" ?src r] o(1) r by auto
    then show ?thesis using 2 d1(1) o iter_eq_begin [OF assms(1), of 0]
      by (simp add: insert_range_def Let_def flip: d2_def)
  next
    case 3
    then have "take i xs \<noteq> []" "length (take i xs) = i" using assms(2) by auto
    then show ?thesis
      using MakeRoomFor_fill_ok [of d "take i xs" "drop i xs" vs ?src] iter_eq_begin [OF assms] assms(1) 3
      by (auto simp: insert_range_def)
  qed
qed

lemma iter_to_IncrementGeneration:
  "iterator_at (IncrementGeneration d) (phys (cd_begin d) (cd_cap d) i) = iter_to (IncrementGeneration d) i"
  by (simp add: iter_to_def del: iterator_at_iter_to)

lemma emplace_ok:
  assumes "holds d xs" "i \<le> length xs"
  shows "\<exists>d'. emplace (iter_to d i) x d = Inr (iter_to d' i, d') \<and> holds d' (take i xs @ x # drop i xs)"
proof (cases "i = 0")
  case True
  obtain d1 where d1: "emplace_front x d = Inr d1" "holds d1 (x # xs)" using emplace_front_ok [OF assms(1)] by blast
  then show ?thesis using True iter_eq_begin [OF assms(1), of 0] iter_begin_to [OF d1(2)] by (simp add: emplace_def)
next
  case False
  let ?pre = "take i xs" and ?suf = "drop i xs" and ?d0 = "IncrementGeneration d"
  have pre: "?pre \<noteq> []" "length ?pre = i" using False assms(2) by auto
  have h: "holds ?d0 (?pre @ ?suf)" using assms(1) by simp
  obtain d1 r where d1: "MakeRoomFor 1 (iter_to ?d0 i) ?d0 = Inr (iter_to d1 i, iter_to d1 (i + 1), d1)"
    "spans d1 (i + length ?suf + 1)"
    "rotate (cd_begin d1) (cd_buffer d1) = map Some ?pre @ replicate 1 None @ map Some ?suf @ replicate r None"
    using MakeRoomFor_ok [OF h pre(1), of 1] unfolding pre(2) by auto
  let ?b = "cd_begin d1" and ?n = "cd_cap d1"
  have sp: "?b < ?n" "i < ?n" using d1(2) by (auto simp: spans_def)
  then have "0 < ?n" by linarith
  then have p: "phys ?b ?n i < ?n" by (rule phys_less)
  define d2 where "d2 = d1\<lparr>cd_buffer := (cd_buffer d1)[phys ?b ?n i := Some x]\<rparr>"
  have "rotate ?b (cd_buffer d2) = map Some (?pre @ x # ?suf) @ replicate r None"
    using ring_update [OF sp, of "Some x"] d1(3) pre(2) by (simp add: d2_def list_update_append)
  moreover have "spans d2 (length (?pre @ x # ?suf))" using d1(2) pre(2) by (simp add: d2_def)
  ultimately have "holds d2 (?pre @ x # ?suf)" using spans_holds [of d2 "?pre @ x # ?suf" r] by (simp add: d2_def)
  moreover have "emplace (iter_to d i) x d = Inr (iter_to d2 i, d2)"
    using False iter_eq_begin [OF assms] d1(1) p iter_to_IncrementGeneration [of d i]
    by (simp add: emplace_def Let_def vb_construct_def d2_def)
  ultimately show ?thesis by blast
qed

section \<open>Removal at any position\<close>

lemma erase_loop_ok:
  assumes "spans d (length pre + count + length suf)" "0 < count" "k \<le> length suf" "length suf - k \<le> fuel"
    and L: "rotate (cd_begin d) (cd_buffer d) =
      map Some (pre @ take k suf) @ replicate count None @ map Some (drop k suf) @ replicate r None"
  shows "\<exists>b. erase_loop fuel (iter_to d (length pre + count + k)) (iter_to d (length pre + count + length suf)) (iter_to d (length pre + k)) d =
      Inr (iter_to d (length pre + length suf), d\<lparr>cd_buffer := b\<rparr>) \<and> length b = cd_cap d \<and>
      rotate (cd_begin d) b = map Some (pre @ suf) @ replicate count None @ replicate r None"
  using assms
proof (induction fuel arbitrary: d k)
  case 0
  then have "k = length suf" by simp
  then show ?case using 0 spans_less [OF 0(1), of "length pre + count + k" "length pre + count + length suf"]
    by (intro exI [of _ "cd_buffer d"]) (simp add: erase_loop.simps)
next
  case (Suc fuel)
  have lt: "iter_less d (iter_to d (length pre + count + k)) (iter_to d (length pre + count + length suf)) = Inr (k < length suf)"
    using spans_less [OF Suc.prems(1), of "length pre + count + k" "length pre + count + length suf"] Suc.prems(3) by simp
  show ?case
  proof (cases "k = length suf")
    case True
    then show ?thesis using lt Suc.prems(5) by (intro exI [of _ "cd_buffer d"]) (simp add: erase_loop.simps)
  next
    case False
    then have k: "k < length suf" using Suc.prems(3) by simp
    obtain c where c: "count = Suc c" using Suc.prems(2) by (cases count) auto
    let ?i = "length pre + k" and ?A = "map Some (pre @ take k suf)"
      and ?B = "map Some (drop (Suc k) suf) @ replicate r None"
    have A: "length ?A = ?i" using k by simp
    have L: "rotate (cd_begin d) (cd_buffer d) = ?A @ replicate (Suc c) None @ Some (suf ! k) # ?B"
      using Suc.prems(5) k c by (simp add: Cons_nth_drop_Suc [symmetric])
    have n: "cd_cap d = ?i + (Suc (Suc c) + length ?B)" using length_ring [OF L] k by simp
    have b: "cd_begin d < cd_cap d" using Suc.prems(1) by (simp add: spans_def)
    have at: "rotate (cd_begin d) (cd_buffer d) ! (?i + Suc c) = Some (suf ! k)"
      unfolding L using A by (simp add: nth_append)
    obtain b where b': "MoveRange_in (phys (cd_begin d) (cd_cap d) (?i + Suc c)) (phys (cd_begin d) (cd_cap d) ?i) (cd_buffer d) = Inr b"
      "length b = cd_cap d" "rotate (cd_begin d) b = (rotate (cd_begin d) (cd_buffer d))[?i := Some (suf ! k), ?i + Suc c := None]"
      using move_ring [OF b, of "?i + Suc c" ?i "suf ! k"] n at by auto
    let ?d = "d\<lparr>cd_buffer := b\<rparr>"
    have L': "rotate (cd_begin d) b = map Some (pre @ take (Suc k) suf) @ replicate count None @ map Some (drop (Suc k) suf) @ replicate r None"
      using b'(3) seg_left [of ?A c "suf ! k" ?B] k c unfolding L A by (simp add: take_Suc_conv_app_nth)
    have sp: "spans ?d (length pre + count + length suf)" using Suc.prems(1) b'(2) by simp
    have inc: "iter_Increment ?d (iter_to d (length pre + count + k)) = Inr (iter_to d (length pre + count + Suc k))"
      "iter_Increment ?d (iter_to d ?i) = Inr (iter_to d (length pre + Suc k))"
      using spans_Increment [OF sp, of "length pre + count + k"] spans_Increment [OF sp, of ?i] k b'(2) by simp_all
    have f: "length suf - Suc k \<le> fuel" using k Suc.prems(4) by linarith
    have "\<exists>b2. erase_loop fuel (iter_to ?d (length pre + count + Suc k)) (iter_to ?d (length pre + count + length suf))
          (iter_to ?d (length pre + Suc k)) ?d = Inr (iter_to ?d (length pre + length suf), ?d\<lparr>cd_buffer := b2\<rparr>) \<and>
        length b2 = cd_cap ?d \<and> rotate (cd_begin ?d) b2 = map Some (pre @ suf) @ replicate count None @ replicate r None"
      by (rule Suc.IH) (use sp Suc.prems(2) k f L' in simp_all)
    moreover have "erase_loop (Suc fuel) (iter_to d (length pre + count + k)) (iter_to d (length pre + count + length suf)) (iter_to d ?i) d =
        erase_loop fuel (iter_to d (length pre + count + Suc k)) (iter_to d (length pre + count + length suf)) (iter_to d (length pre + Suc k)) ?d"
      using lt k b'(1) inc c by (simp add: erase_loop.simps [of "Suc fuel"] Let_def ac_simps)
    ultimately show ?thesis using b'(2) by simp
  qed
qed

lemma drop_front_ok:
  assumes "spans d (length mid + length suf)"
    "rotate (cd_begin d) (cd_buffer d) = replicate (length mid) None @ map Some suf @ replicate r None"
  shows "holds (d\<lparr>cd_begin := phys (cd_begin d) (cd_cap d) (length mid)\<rparr>) suf"
proof -
  let ?b = "cd_begin d" and ?n = "cd_cap d" and ?j = "length mid"
  have s: "?b < ?n" "?j + length suf < ?n" "cd_end d = phys ?b ?n (?j + length suf)" using assms(1) by (auto simp: spans_def)
  have "0 < ?n" using s(1) by linarith
  then have lt: "phys ?b ?n ?j < ?n" by (rule phys_less)
  have "rotate (phys ?b ?n ?j) (cd_buffer d) = rotate ?j (rotate ?b (cd_buffer d))"
    by (simp add: phys_def rotate_rotate add.commute flip: rotate_conv_mod)
  also have "\<dots> = drop ?j (rotate ?b (cd_buffer d)) @ take ?j (rotate ?b (cd_buffer d))"
    using s(2) by (simp add: rotate_drop_take)
  also have "\<dots> = map Some suf @ replicate (r + ?j) None" unfolding assms(2) by (simp add: replicate_add)
  finally show ?thesis using s lt phys_add [of ?b ?n ?j "length suf"]
    by (intro spans_holds [where r = "r + ?j"]) (simp_all add: spans_def)
qed

lemma erase_range_ok:
  assumes "holds d xs" "i \<le> j" "j \<le> length xs"
  shows "\<exists>d'. erase_range (iter_to d i) (iter_to d j) d = Inr (iter_to d' i, d') \<and> holds d' (take i xs @ drop j xs)"
proof (cases "i = j")
  case True
  then show ?thesis using assms iter_to_IncrementGeneration [of d i]
    by (intro exI [of _ "IncrementGeneration d"]) (simp add: erase_range_def Let_def)
next
  case False
  let ?d = "IncrementGeneration d" and ?b = "cd_begin d" and ?n = "cd_cap d"
  let ?p = "phys ?b ?n"
  let ?pre = "take i xs" and ?mid = "take (j - i) (drop i xs)" and ?suf = "drop j xs"
  have ij: "i < j" "xs \<noteq> []" using False assms by auto
  then have ne: "cd_buffer d \<noteq> []" using assms(1) by (auto simp: holds_def)
  note s = holds_spans [OF assms(1) ne]
  have lens: "length ?pre = i" "length ?mid = j - i" "length ?suf = length xs - j" using assms ij by auto
  have b: "?b < ?n" "j < ?n" "i < ?n" using s(1) assms(2,3) by (auto simp: spans_def)
  have pij: "?p i \<noteq> ?p j" using phys_inj [OF b(1,3,2)] False by simp
  obtain buf where buf: "cd_DestructRange (?p i) (?p j) (cd_buffer d) = Inr buf" "length buf = ?n"
    "rotate ?b buf = clear_cells i (j - i) (rotate ?b (cd_buffer d))"
    using destruct_range_ring [OF b(1) assms(2) b(2)] s(2) assms(3) by (auto simp: nth_append)
  have L: "rotate ?b buf = map Some ?pre @ replicate (j - i) None @ map Some ?suf @ replicate (?n - length xs) None"
    using buf(3) assms(2,3) unfolding s(2) by (simp add: clear_cells_def take_map drop_map)
  define d1 where "d1 = ?d\<lparr>cd_buffer := buf\<rparr>"
  have sp: "spans d1 (i + (j - i) + length ?suf)" using s(1) buf(2) assms(2,3) by (simp add: d1_def spans_def)
  have dd: "(if ?p i < ?p j then vb_DestructRange (?p i) (?p j) (cd_buffer d)
      else rbind (vb_DestructRange (?p i) ?n (cd_buffer d)) (vb_DestructRange 0 (?p j))) = Inr buf"
    using buf(1) pij by (simp add: cd_DestructRange_def split: if_splits)
  have its: "iterator_at d1 (?p k) = iter_to d1 k" for k
    using buf(2) by (simp add: iter_to_def d1_def del: iterator_at_iter_to)
  have sel: "cd_begin d1 = ?b" "cd_cap d1 = ?n" using buf(2) by (simp_all add: d1_def)
  have head: "erase_range (iter_to d i) (iter_to d j) d =
      (if ?p i = ?b then Inr (iterator_at d1 (?p j), d1\<lparr>cd_begin := ?p j\<rparr>)
       else rbind (erase_loop ?n (iter_to d1 j) (cd_iter_end d1) (iter_to d1 i) d1) (\<lambda>(move_dest, d).
            let d = d\<lparr>cd_end := it_index move_dest\<rparr> in Inr (iterator_at d (?p i), d)))"
    using pij sel its [of i] its [of j]
    by (simp only: erase_range_def Let_def iter_to_simps guardr_True if_False IncrementGeneration_simps dd rbind.simps
        d1_def [symmetric])
  show ?thesis
  proof (cases "i = 0")
    case True
    then have "?p i = ?b" using b(1) by (simp add: phys_0)
    moreover have "holds (d1\<lparr>cd_begin := ?p j\<rparr>) ?suf"
      using drop_front_ok [of d1 ?mid ?suf] sp L True lens buf(2) by (simp add: d1_def)
    moreover have "iterator_at d1 (?p j) = iter_to (d1\<lparr>cd_begin := ?p j\<rparr>) i"
      using True phys_add [of ?b ?n j 0] buf(2) by (simp add: iter_to_def iterator_at_def d1_def del: iterator_at_iter_to)
    ultimately show ?thesis using True unfolding head by simp
  next
    case i: False
    have pi: "?p i \<noteq> ?b" using phys_inj [OF b(1,3), of 0] ne b i phys_0 [OF b(1)] by simp
    have e: "cd_iter_end d1 = iter_to d1 (i + (j - i) + length ?suf)"
      using sp by (simp add: cd_iter_end_def iter_to_def spans_def del: iterator_at_iter_to)
    have "\<exists>b2. erase_loop ?n (iter_to d1 (length ?pre + (j - i) + 0)) (iter_to d1 (length ?pre + (j - i) + length ?suf)) (iter_to d1 (length ?pre + 0)) d1 =
        Inr (iter_to d1 (length ?pre + length ?suf), d1\<lparr>cd_buffer := b2\<rparr>) \<and> length b2 = cd_cap d1 \<and>
        rotate (cd_begin d1) b2 = map Some (?pre @ ?suf) @ replicate (j - i) None @ replicate (?n - length xs) None"
    proof (rule erase_loop_ok)
      show "rotate (cd_begin d1) (cd_buffer d1) = map Some (?pre @ take 0 ?suf) @ replicate (j - i) None @
          map Some (drop 0 ?suf) @ replicate (?n - length xs) None"
        using L by (simp add: d1_def)
    qed (use sp lens ij b s(1) in \<open>auto simp: spans_def\<close>)
    then obtain b2 where b2: "erase_loop ?n (iter_to d1 j) (cd_iter_end d1) (iter_to d1 i) d1 =
        Inr (iter_to d1 (i + length ?suf), d1\<lparr>cd_buffer := b2\<rparr>)" "length b2 = cd_cap d1"
        "rotate (cd_begin d1) b2 = map Some (?pre @ ?suf) @ replicate (j - i) None @ replicate (?n - length xs) None"
      using lens ij e by auto
    define d2 where "d2 = d1\<lparr>cd_buffer := b2, cd_end := phys ?b ?n (i + length ?suf)\<rparr>"
    have "spans d2 (length (?pre @ ?suf))" using sp b2(2) lens(1) by (simp add: d2_def d1_def spans_def buf(2))
    then have "holds d2 (?pre @ ?suf)"
      using b2(3) by (intro spans_holds [where r = "j - i + (?n - length xs)"]) (simp_all add: d2_def replicate_add)
    moreover have "iterator_at d2 (?p i) = iter_to d2 i"
      using b2(2) buf(2) by (simp add: iter_to_def d2_def d1_def del: iterator_at_iter_to)
    moreover have "erase_range (iter_to d i) (iter_to d j) d = Inr (iterator_at d2 (?p i), d2)"
      using pi b2(1) buf(2) unfolding head by (simp add: d2_def d1_def Let_def)
    ultimately show ?thesis by auto
  qed
qed

lemma iter_Add_ok:
  assumes "holds d xs" "i \<le> length xs" "0 \<le> int i + k" "int i + k \<le> int (length xs)" "0 < k \<longrightarrow> i < length xs"
  shows "iter_Add d k (iter_to d i) = Inr (iter_to d (nat (int i + k)))"
proof (cases "cd_buffer d = []")
  case True
  then have "xs = []" "i = 0" "k = 0" using assms by (auto simp: holds_def)
  then show ?thesis using True assms(1) by (simp add: iter_Add_def CheckValidIndexOrEnd_def holds_def phys_def)
next
  case False
  then have s: "spans d (length xs)" using holds_spans(1) [OF assms(1)] by simp
  have off: "OffsetFromBegin d (iter_to d i) = i" using s assms(2) by (intro offset_phys) (auto simp: spans_def)
  have "(iter_to d i)\<lparr>it_index := (nat (int i + k) + cd_begin d) mod cd_cap d\<rparr> = iter_to d (nat (int i + k))"
    by (intro iterator_eqI) (simp_all add: phys_def add.commute)
  then show ?thesis
    using spans_valid [OF s] assms holds_size [OF assms(1)] False
    by (cases "k = 0") (auto simp: iter_Add_def off Let_def)
qed

lemma erase_at_ok:
  assumes "holds d xs" "i < length xs"
  shows "\<exists>d'. erase_at (iter_to d i) d = Inr (iter_to d' i, d') \<and> holds d' (take i xs @ drop (Suc i) xs)"
  using iter_Add_ok [OF assms(1), of i 1] erase_range_ok [OF assms(1), of i "Suc i"] assms(2)
  by (simp add: erase_at_def nat_add_distrib)

end
