(* ===== verification/DequeProps.thy ===== *)
theory DequeProps
  imports DequeMiddle
begin

text \<open>
  What a client of the circular deque can rely on: the interface of a double-ended queue as a locale,
  interpreted on the operations of the code, the refinement of list programs by deque programs, the
  bound on unused memory, and what the generations of iterators detect.
\<close>

section \<open>The interface of a double-ended queue\<close>

text \<open>
  Reading an element at an end and removing it, \<open>n\<close> times.
\<close>

fun drain :: "('q \<Rightarrow> 'a res) \<Rightarrow> ('q \<Rightarrow> 'q res) \<Rightarrow> nat \<Rightarrow> 'q \<Rightarrow> ('a list \<times> 'q) res" where
  "drain peek pop 0 q = Inr ([], q)"
| "drain peek pop (Suc n) q =
     rbind (peek q) (\<lambda>x. rbind (pop q) (\<lambda>q. rbind (drain peek pop n q) (\<lambda>(xs, q). Inr (x # xs, q))))"

fun push_list :: "('a \<Rightarrow> 'q \<Rightarrow> 'q res) \<Rightarrow> 'a list \<Rightarrow> 'q \<Rightarrow> 'q res" where
  "push_list push [] q = Inr q"
| "push_list push (x # xs) q = rbind (push x q) (push_list push xs)"

locale deque_interface =
  fixes models :: "'q \<Rightarrow> 'a list \<Rightarrow> bool"
    and front_of back_of :: "'q \<Rightarrow> 'a res"
    and add_front add_back :: "'a \<Rightarrow> 'q \<Rightarrow> 'q res"
    and del_front del_back :: "'q \<Rightarrow> 'q res"
  assumes front_law: "models q (x # xs) \<Longrightarrow> front_of q = Inr x"
    and back_law: "models q (xs @ [x]) \<Longrightarrow> back_of q = Inr x"
    and add_front_law: "models q xs \<Longrightarrow> \<exists>q'. add_front x q = Inr q' \<and> models q' (x # xs)"
    and add_back_law: "models q xs \<Longrightarrow> \<exists>q'. add_back x q = Inr q' \<and> models q' (xs @ [x])"
    and del_front_law: "models q (x # xs) \<Longrightarrow> \<exists>q'. del_front q = Inr q' \<and> models q' xs"
    and del_back_law: "models q (xs @ [x]) \<Longrightarrow> \<exists>q'. del_back q = Inr q' \<and> models q' xs"
begin

lemma push_back_list:
  assumes "models q xs"
  shows "\<exists>q'. push_list add_back ys q = Inr q' \<and> models q' (xs @ ys)"
  using assms
proof (induction ys arbitrary: q xs)
  case (Cons y ys)
  obtain q1 where "add_back y q = Inr q1" "models q1 (xs @ [y])" using add_back_law [OF Cons.prems] by blast
  then show ?case using Cons.IH [of q1 "xs @ [y]"] by auto
qed simp

lemma push_front_list:
  assumes "models q xs"
  shows "\<exists>q'. push_list add_front ys q = Inr q' \<and> models q' (rev ys @ xs)"
  using assms
proof (induction ys arbitrary: q xs)
  case (Cons y ys)
  obtain q1 where "add_front y q = Inr q1" "models q1 (y # xs)" using add_front_law [OF Cons.prems] by blast
  then show ?case using Cons.IH [of q1 "y # xs"] by auto
qed simp

lemma drain_front:
  assumes "models q (xs @ ys)"
  shows "\<exists>q'. drain front_of del_front (length xs) q = Inr (xs, q') \<and> models q' ys"
  using assms
proof (induction xs arbitrary: q)
  case (Cons x xs)
  obtain q1 where "del_front q = Inr q1" "models q1 (xs @ ys)" using del_front_law [of q x "xs @ ys"] Cons.prems by auto
  moreover have "front_of q = Inr x" using front_law [of q x "xs @ ys"] Cons.prems by simp
  ultimately show ?case using Cons.IH [of q1] by auto
qed simp

lemma drain_back:
  assumes "models q (ys @ rev xs)"
  shows "\<exists>q'. drain back_of del_back (length xs) q = Inr (xs, q') \<and> models q' ys"
  using assms
proof (induction xs arbitrary: q)
  case (Cons x xs)
  have m: "models q ((ys @ rev xs) @ [x])" using Cons.prems by simp
  obtain q1 where "del_back q = Inr q1" "models q1 (ys @ rev xs)" using del_back_law [OF m] by auto
  then show ?case using Cons.IH [of q1] back_law [OF m] by auto
qed simp

text \<open>Elements that go in at one end come out at the other end in the same order, at the same end reversed.\<close>

lemma fifo_lifo:
  assumes "models q []"
  shows "\<exists>q1 q2. push_list add_back xs q = Inr q1 \<and> drain front_of del_front (length xs) q1 = Inr (xs, q2) \<and> models q2 []"
    "\<exists>q1 q2. push_list add_front xs q = Inr q1 \<and> drain back_of del_back (length xs) q1 = Inr (xs, q2) \<and> models q2 []"
    "\<exists>q1 q2. push_list add_back xs q = Inr q1 \<and> drain back_of del_back (length xs) q1 = Inr (rev xs, q2) \<and> models q2 []"
proof -
  obtain q1 where q1: "push_list add_back xs q = Inr q1" "models q1 xs" using push_back_list [OF assms] by auto
  obtain q2 where q2: "push_list add_front xs q = Inr q2" "models q2 (rev xs)" using push_front_list [OF assms, of xs] by auto
  show "\<exists>q1 q2. push_list add_back xs q = Inr q1 \<and> drain front_of del_front (length xs) q1 = Inr (xs, q2) \<and> models q2 []"
    using q1 drain_front [of q1 xs "[]"] by auto
  show "\<exists>q1 q2. push_list add_front xs q = Inr q1 \<and> drain back_of del_back (length xs) q1 = Inr (xs, q2) \<and> models q2 []"
    using q2 drain_back [of q2 "[]" xs] by auto
  show "\<exists>q1 q2. push_list add_back xs q = Inr q1 \<and> drain back_of del_back (length xs) q1 = Inr (rev xs, q2) \<and> models q2 []"
    using q1 drain_back [of q1 "[]" "rev xs"] by auto
qed

end

interpretation cd: deque_interface holds cd_front cd_back emplace_front emplace_back pop_front pop_back
proof unfold_locales
  show "holds q (x # xs) \<Longrightarrow> cd_front q = Inr x" for q :: "'a circular_deque" and x xs by (rule front_ok)
  show "holds q (xs @ [x]) \<Longrightarrow> cd_back q = Inr x" for q :: "'a circular_deque" and x xs
    using back_ok [of q "xs @ [x]"] by simp
  show "holds q xs \<Longrightarrow> \<exists>q'. emplace_front x q = Inr q' \<and> holds q' (x # xs)" for q :: "'a circular_deque" and x xs
    using emplace_front_ok [of q xs x] by blast
  show "holds q xs \<Longrightarrow> \<exists>q'. emplace_back x q = Inr q' \<and> holds q' (xs @ [x])" for q :: "'a circular_deque" and x xs
    using emplace_back_ok [of q xs x] by blast
  show "holds q (x # xs) \<Longrightarrow> \<exists>q'. pop_front q = Inr q' \<and> holds q' xs" for q :: "'a circular_deque" and x xs
    using pop_front_ok [of q x xs] by blast
  show "holds q (xs @ [x]) \<Longrightarrow> \<exists>q'. pop_back q = Inr q' \<and> holds q' xs" for q :: "'a circular_deque" and x xs
    using pop_back_ok [of q xs x] by blast
qed

section \<open>Programs over the deque\<close>

text \<open>
  The operations a client may call; positions are offsets, turned into iterators by \<open>begin() + i\<close>.
\<close>

datatype 'a deque_op =
    PushFront 'a | PushBack 'a | PopFront | PopBack
  | InsertCount nat nat 'a | InsertRange nat "'a list" | Emplace nat 'a | EraseRange nat nat
  | Resize nat 'a | AssignList "'a list" | AssignCount nat 'a
  | Reserve nat | ShrinkToFit | ClearAll

definition begin_plus :: "'a circular_deque \<Rightarrow> nat \<Rightarrow> deque_iterator res" where
  "begin_plus d i = iter_Add d (int i) (cd_iter_begin d)"

fun deque_exec :: "'a deque_op \<Rightarrow> 'a circular_deque \<Rightarrow> 'a circular_deque res" where
  "deque_exec (PushFront x) d = emplace_front x d"
| "deque_exec (PushBack x) d = emplace_back x d"
| "deque_exec PopFront d = pop_front d"
| "deque_exec PopBack d = pop_back d"
| "deque_exec (InsertCount i n x) d = rbind (begin_plus d i) (\<lambda>it. insert_count it n x d)"
| "deque_exec (InsertRange i vs) d = rbind (begin_plus d i) (\<lambda>it. insert_range it vs d)"
| "deque_exec (Emplace i x) d = rbind (begin_plus d i) (\<lambda>it. rbind (emplace it x d) (\<lambda>(_, d). Inr d))"
| "deque_exec (EraseRange i n) d =
     rbind (begin_plus d i) (\<lambda>first_it. rbind (begin_plus d (i + n)) (\<lambda>last_it.
     rbind (erase_range first_it last_it d) (\<lambda>(_, d). Inr d)))"
| "deque_exec (Resize n x) d = cd_resize n x d"
| "deque_exec (AssignList xs) d = assign_list xs d"
| "deque_exec (AssignCount n x) d = assign_count n x d"
| "deque_exec (Reserve n) d = reserve n d"
| "deque_exec ShrinkToFit d = shrink_to_fit d"
| "deque_exec ClearAll d = cd_clear d"

fun deque_run :: "'a deque_op list \<Rightarrow> 'a circular_deque \<Rightarrow> 'a circular_deque res" where
  "deque_run [] d = Inr d"
| "deque_run (p # ps) d = rbind (deque_exec p d) (deque_run ps)"

text \<open>The specification: the same operations on lists, a violated precondition stopping the process.\<close>

fun list_exec :: "'a deque_op \<Rightarrow> 'a list \<Rightarrow> 'a list res" where
  "list_exec (PushFront x) xs = Inr (x # xs)"
| "list_exec (PushBack x) xs = Inr (xs @ [x])"
| "list_exec PopFront xs = dcheck (xs \<noteq> []) (Inr (tl xs))"
| "list_exec PopBack xs = dcheck (xs \<noteq> []) (Inr (butlast xs))"
| "list_exec (InsertCount i n x) xs = dcheck (i \<le> length xs) (Inr (take i xs @ replicate n x @ drop i xs))"
| "list_exec (InsertRange i vs) xs = dcheck (i \<le> length xs) (Inr (take i xs @ vs @ drop i xs))"
| "list_exec (Emplace i x) xs = dcheck (i \<le> length xs) (Inr (take i xs @ x # drop i xs))"
| "list_exec (EraseRange i n) xs = dcheck (i + n \<le> length xs) (Inr (take i xs @ drop (i + n) xs))"
| "list_exec (Resize n x) xs = Inr (take n xs @ replicate (n - length xs) x)"
| "list_exec (AssignList ys) xs = Inr ys"
| "list_exec (AssignCount n x) xs = Inr (replicate n x)"
| "list_exec (Reserve n) xs = Inr xs"
| "list_exec ShrinkToFit xs = Inr xs"
| "list_exec ClearAll xs = Inr []"

fun list_run :: "'a deque_op list \<Rightarrow> 'a list \<Rightarrow> 'a list res" where
  "list_run [] xs = Inr xs"
| "list_run (p # ps) xs = rbind (list_exec p xs) (list_run ps)"

text \<open>A run of the deque matches a result on lists: the same fault, or a deque that holds the list.\<close>

definition matches :: "'a circular_deque res \<Rightarrow> 'a list res \<Rightarrow> bool" where
  "matches r s = (case s of Inl f \<Rightarrow> r = Inl f | Inr xs \<Rightarrow> \<exists>d. r = Inr d \<and> holds d xs)"

lemma matches_simps [simp]:
  "matches r (Inl f) \<longleftrightarrow> r = Inl f" "matches r (Inr xs) \<longleftrightarrow> (\<exists>d. r = Inr d \<and> holds d xs)"
  by (simp_all add: matches_def)

lemma begin_plus_ok:
  assumes "holds d xs"
  shows "begin_plus d i = dcheck (i \<le> length xs) (Inr (iter_to d i))"
proof -
  have b: "cd_iter_begin d = iter_to d 0"
    using assms by (cases "cd_buffer d = []") (auto simp: holds_def cd_iter_begin_def iter_to_def phys_def simp del: iterator_at_iter_to)
  show ?thesis
  proof (cases "i \<le> length xs")
    case True
    then show ?thesis using iter_Add_ok [OF assms, of 0 "int i"] by (cases xs) (auto simp: begin_plus_def b)
  next
    case False
    have "OffsetFromBegin d (iter_to d 0) = 0"
      using assms offset_phys [of d 0 "iter_to d 0"] by (auto simp: holds_def OffsetFromBegin_def phys_def split: if_splits)
    then show ?thesis using False holds_size [OF assms] by (simp add: begin_plus_def b iter_Add_def guardr_def Let_def)
  qed
qed

lemma pop_empty: "holds d [] \<Longrightarrow> pop_front d = Inl DCheckFailed \<and> pop_back d = Inl DCheckFailed"
  using holds_size [of d "[]"] by (simp add: pop_front_def pop_back_def)

lemma deque_exec_matches:
  assumes "holds d xs"
  shows "matches (deque_exec p d) (list_exec p xs)"
proof (cases p)
  case (PushFront x)
  then show ?thesis using emplace_front_ok [OF assms, of x] by auto
next
  case (PushBack x)
  then show ?thesis using emplace_back_ok [OF assms, of x] by auto
next
  case PopFront
  then show ?thesis using assms pop_front_ok [of d "hd xs" "tl xs"] pop_empty [of d] by (cases xs) auto
next
  case PopBack
  then show ?thesis using assms pop_back_ok [of d "butlast xs" "last xs"] pop_empty [of d] by (cases xs rule: rev_cases) auto
next
  case (InsertCount i n x)
  then show ?thesis using insert_count_ok [OF assms, of i n x] by (cases "i \<le> length xs") (auto simp: begin_plus_ok [OF assms])
next
  case (InsertRange i vs)
  then show ?thesis using insert_range_ok [OF assms, of i vs] by (cases "i \<le> length xs") (auto simp: begin_plus_ok [OF assms])
next
  case (Emplace i x)
  then show ?thesis using emplace_ok [OF assms, of i x] by (cases "i \<le> length xs") (auto simp: begin_plus_ok [OF assms])
next
  case (EraseRange i n)
  then show ?thesis using erase_range_ok [OF assms, of i "i + n"]
    by (cases "i + n \<le> length xs"; cases "i \<le> length xs") (auto simp: begin_plus_ok [OF assms])
next
  case (Resize n x)
  then show ?thesis using resize_ok [OF assms, of n x] by auto
next
  case (AssignList ys)
  then show ?thesis using assign_list_ok [OF assms, of ys] by auto
next
  case (AssignCount n x)
  then show ?thesis using assign_count_ok [OF assms, of n x] by auto
next
  case (Reserve n)
  then show ?thesis using reserve_ok [OF assms, of n] by auto
next
  case ShrinkToFit
  then show ?thesis using shrink_to_fit_ok [OF assms] by auto
next
  case ClearAll
  then show ?thesis using clear_ok [OF assms] by auto
qed

lemma deque_run_matches:
  assumes "holds d xs"
  shows "matches (deque_run ps d) (list_run ps xs)"
  using assms
proof (induction ps arbitrary: d xs)
  case (Cons p ps)
  then show ?case using deque_exec_matches [OF Cons.prems, of p] Cons.IH by (cases "list_exec p xs") auto
qed simp

lemma deque_run_append: "deque_run (ps @ qs) d = rbind (deque_run ps d) (deque_run qs)"
proof (induction ps arbitrary: d)
  case (Cons p ps)
  then show ?case by (cases "deque_exec p d") simp_all
qed simp

lemma run_holds:
  assumes "deque_run ps circular_deque_new = Inr d"
  obtains xs where "list_run ps [] = Inr xs" "holds d xs"
  using deque_run_matches [OF holds_new, of ps] assms by (cases "list_run ps []") auto

section \<open>Properties\<close>

text \<open>
  C11. The circular deque is the list it stands for: any program over its operations, started on an
  empty deque, stops exactly where the same program on a list violates a precondition; otherwise the
  deque has the elements of the list, seen by size, by index and by iteration, and its destruction leaves
  no live object in the buffer. No loop fails to end and no object is used outside its lifetime.
\<close>

theorem deque_program_refines:
  "case list_run ps [] of
     Inl f \<Rightarrow> deque_run ps circular_deque_new = Inl f
   | Inr xs \<Rightarrow> \<exists>d. deque_run ps circular_deque_new = Inr d \<and> cd_size d = length xs \<and> read_all d = Inr xs \<and>
       (\<forall>i. cd_at d i = (if i < length xs then Inr (xs ! i) else Inl DCheckFailed)) \<and>
       cd_destroy d = Inr (replicate (cd_cap d) None)"
  using deque_run_matches [OF holds_new, of ps] holds_size read_all_ok at_ok destroy_ok
  by (cases "list_run ps []") fastforce+

text \<open>
  As a queue and as a stack: what is pushed at the back comes out at the front in the same order,
  what is pushed at the front comes out at the back in the same order, and what is pushed and popped at
  the back comes out reversed; afterwards the deque is empty.
\<close>

theorem deque_fifo_lifo:
  "(\<exists>q1 q2. push_list emplace_back xs circular_deque_new = Inr q1 \<and>
      drain cd_front pop_front (length xs) q1 = Inr (xs, q2) \<and> cd_empty q2) \<and>
   (\<exists>q1 q2. push_list emplace_front xs circular_deque_new = Inr q1 \<and>
      drain cd_back pop_back (length xs) q1 = Inr (xs, q2) \<and> cd_empty q2) \<and>
   (\<exists>q1 q2. push_list emplace_back xs circular_deque_new = Inr q1 \<and>
      drain cd_back pop_back (length xs) q1 = Inr (rev xs, q2) \<and> cd_empty q2)"
  using cd.fifo_lifo [OF holds_new, of xs] holds_empty by blast

text \<open>
  The automatic shrinking bounds the memory: after every program that ends with a removal at an end
  the capacity is at most twice the number of elements, or the initial capacity.
\<close>

theorem deque_pop_shrinks:
  assumes "deque_run (ps @ [p]) circular_deque_new = Inr d" "p \<in> {PopFront, PopBack}"
  shows "cd_size d \<le> cd_capacity d \<and> cd_capacity d \<le> max kCircularBufferInitialCapacity (2 * cd_size d)"
proof -
  obtain d1 where d1: "deque_run ps circular_deque_new = Inr d1" "deque_exec p d1 = Inr d"
    using assms(1) by (auto simp: deque_run_append rbind_eq_Inr)
  obtain xs where xs: "holds d1 xs" using run_holds [OF d1(1)] by blast
  have ne: "xs \<noteq> []" using xs d1(2) assms(2) pop_empty [of d1] by auto
  have "\<exists>ys. holds d ys \<and> cd_capacity d \<le> max 3 (2 * length ys)"
  proof (cases "p = PopFront")
    case True
    then show ?thesis using pop_front_ok [of d1 "hd xs" "tl xs"] xs ne d1(2) by auto
  next
    case False
    then show ?thesis using pop_back_ok [of d1 "butlast xs" "last xs"] xs ne d1(2) assms(2) by auto
  qed
  then show ?thesis using holds_size holds_capacity by (fastforce simp: kCircularBufferInitialCapacity_def)
qed

theorem deque_pop_shrinks_witness:
  "\<exists>d. deque_run (replicate 9 (PushBack (0::nat)) @ [PopFront, PopFront, PopFront, PopFront, PopFront] @ [PopBack]) circular_deque_new = Inr d \<and>
     cd_size d = 3 \<and> cd_capacity d \<le> 6"
proof -
  let ?ps = "replicate 9 (PushBack (0::nat)) @ [PopFront, PopFront, PopFront, PopFront, PopFront]"
  have "list_run (?ps @ [PopBack]) [] = Inr [0, 0, 0]" by (simp add: numeral_eq_Suc)
  then obtain d where d: "deque_run (?ps @ [PopBack]) circular_deque_new = Inr d" "holds d [0, 0, 0]"
    using deque_run_matches [OF holds_new, of "?ps @ [PopBack]"] by auto
  then show ?thesis using deque_pop_shrinks [OF d(1)] holds_size [OF d(2)]
    by (simp add: kCircularBufferInitialCapacity_def)
qed

text \<open>
  A stale iterator is detected: when a program pushed, popped or cleared after the iterator was
  made, dereferencing, advancing and comparing it with a new iterator all stop the process.
\<close>

theorem stale_iterators_detected:
  assumes "deque_run ps circular_deque_new = Inr d" "deque_exec p d = Inr d'"
    "p \<in> {PushFront x, PushBack x, PopFront, PopBack, ClearAll}" "created_generation it = cd_generation d"
  shows "iter_deref d' it = Inl DCheckFailed \<and> iter_Add d' k it = Inl DCheckFailed \<and>
    iter_eq it (cd_iter_end d') = Inl DCheckFailed"
proof -
  obtain xs where xs: "holds d xs" using run_holds [OF assms(1)] by blast
  have ne: "p = PopFront \<or> p = PopBack \<Longrightarrow> xs \<noteq> []" using xs assms(2) pop_empty [of d] by auto
  consider "p = PushFront x" | "p = PushBack x" | "p = PopFront" | "p = PopBack" | "p = ClearAll" using assms(3) by blast
  then have "cd_generation d' = cd_generation d + 1"
  proof cases
    case 1
    then show ?thesis using emplace_front_ok [OF xs, of x] assms(2) by auto
  next
    case 2
    then show ?thesis using emplace_back_ok [OF xs, of x] assms(2) by auto
  next
    case 3
    then show ?thesis using pop_front_ok [of d "hd xs" "tl xs"] xs ne assms(2) by auto
  next
    case 4
    then show ?thesis using pop_back_ok [of d "butlast xs" "last xs"] xs ne assms(2) by auto
  next
    case 5
    then show ?thesis using clear_ok [OF xs] assms(2) by auto
  qed
  then have "created_generation it \<noteq> cd_generation d'" using assms(4) by simp
  then show ?thesis
    by (simp add: iter_deref_def iter_Add_def iter_eq_def CheckUnstableUsage_def CheckComparable_def
        cd_iter_end_def iterator_at_def)
qed

theorem stale_iterators_detected_witness:
  "\<exists>d d'. deque_run [PushBack (1::nat)] circular_deque_new = Inr d \<and> deque_exec (PushBack 2) d = Inr d' \<and>
     iter_deref d' (cd_iter_begin d) = Inl DCheckFailed"
proof -
  obtain d where d: "deque_run [PushBack (1::nat)] circular_deque_new = Inr d" "holds d [1]"
    using deque_run_matches [OF holds_new, of "[PushBack (1::nat)]"] by auto
  obtain d' where d': "deque_exec (PushBack 2) d = Inr d'" using deque_exec_matches [OF d(2), of "PushBack 2"] by auto
  have "created_generation (cd_iter_begin d) = cd_generation d" by (simp add: cd_iter_begin_def iterator_at_def)
  then show ?thesis using stale_iterators_detected [OF d(1) d'(1), of 2 "cd_iter_begin d"] d d' by auto
qed

text \<open>
  \<open>reserve\<close> and \<open>shrink_to_fit\<close> move the elements to a new buffer without a new generation: an
  iterator to the first element passes every check afterwards and refers to the second one.
\<close>

theorem reserve_misses_stale_iterators:
  "let run = deque_run [PushBack (1::nat), PushBack 2, PushBack 3, PopFront] circular_deque_new in
   rbind run (\<lambda>d. iter_deref d (cd_iter_begin d)) = Inr 2 \<and>
   rbind run (\<lambda>d. rbind (reserve 10 d) (\<lambda>d'. iter_deref d' (cd_iter_begin d))) = Inr 3 \<and>
   rbind run (\<lambda>d. rbind (shrink_to_fit d) (\<lambda>d'. iter_deref d' (cd_iter_begin d))) = Inr 3"
  by code_simp

end
