(* ===== verification/IntrusiveHeap.thy ===== *)
theory IntrusiveHeap
  imports Prelude
begin

text \<open>
  base/containers/intrusive_heap.h: a binary max-heap in a vector whose elements know their position.

  Elements of type \<open>'e\<close> are identities; \<open>handle\<close> is the \<open>HeapHandle\<close> that the accessor stores for each,
  \<open>None\<close> for \<open>kInvalidIndex\<close>. The comparison \<open>lt\<close> of the template is an argument. A slot that was moved
  from is \<open>None\<close>, and reading an element from it is a fault: the heap moves a hole through the vector and
  must never look into it. Indices are natural numbers below \<open>2 ^ 64 - 1\<close>.
\<close>

section \<open>State and handles\<close>

record 'e iheap =
  slots :: "'e option list"
  handle :: "'e \<Rightarrow> nat option"

definition heap_size :: "'e iheap \<Rightarrow> nat" where
  "heap_size H = length (slots H)"

definition heap_empty :: "'e iheap \<Rightarrow> bool" where
  "heap_empty H \<longleftrightarrow> slots H = []"

definition slot_at :: "'e iheap \<Rightarrow> nat \<Rightarrow> 'e res" where
  "slot_at H i = (if i < length (slots H) then (case slots H ! i of None \<Rightarrow> Inl DeadObject | Some x \<Rightarrow> Inr x)
     else Inl OutOfRange)"

definition heap_top :: "'e iheap \<Rightarrow> 'e res" where
  "heap_top H = slot_at H 0"

definition GetLastIndex :: "'e iheap \<Rightarrow> nat" where
  "GetLastIndex H = heap_size H - 1"

definition GetHeapHandle :: "nat \<Rightarrow> 'e iheap \<Rightarrow> nat option res" where
  "GetHeapHandle i H = (if i < length (slots H) then Inr (case slots H ! i of None \<Rightarrow> None | Some x \<Rightarrow> handle H x)
     else Inl OutOfRange)"

definition CheckInvalidOrEqualTo :: "nat option \<Rightarrow> nat \<Rightarrow> bool" where
  "CheckInvalidOrEqualTo h index \<longleftrightarrow> (h \<noteq> None \<longrightarrow> h = Some index)"

definition SetHeapHandle :: "nat \<Rightarrow> 'e iheap \<Rightarrow> 'e iheap res" where
  "SetHeapHandle i H =
     rbind (slot_at H i) (\<lambda>x.
     let H = H\<lparr>handle := (handle H)(x := Some i)\<rparr> in
     rbind (GetHeapHandle i H) (\<lambda>h. dcheck (CheckInvalidOrEqualTo h i) (Inr H)))"

definition ClearHeapHandle :: "nat \<Rightarrow> 'e iheap \<Rightarrow> 'e iheap res" where
  "ClearHeapHandle i H =
     rbind (slot_at H i) (\<lambda>x.
     let H = H\<lparr>handle := (handle H)(x := None)\<rparr> in
     rbind (GetHeapHandle i H) (\<lambda>h. dcheck (h = None) (Inr H)))"

definition Less_idx :: "('e \<Rightarrow> 'e \<Rightarrow> bool) \<Rightarrow> nat \<Rightarrow> nat \<Rightarrow> 'e iheap \<Rightarrow> bool res" where
  "Less_idx lt i j H = dcheck (i < heap_size H) (dcheck (j < heap_size H)
     (rbind (slot_at H i) (\<lambda>x. rbind (slot_at H j) (\<lambda>y. Inr (lt x y)))))"

definition Less_elem :: "('e \<Rightarrow> 'e \<Rightarrow> bool) \<Rightarrow> 'e \<Rightarrow> nat \<Rightarrow> 'e iheap \<Rightarrow> bool res" where
  "Less_elem lt x i H = dcheck (i < heap_size H) (rbind (slot_at H i) (\<lambda>y. Inr (lt x y)))"

definition Less_slot :: "('e \<Rightarrow> 'e \<Rightarrow> bool) \<Rightarrow> nat \<Rightarrow> 'e \<Rightarrow> 'e iheap \<Rightarrow> bool res" where
  "Less_slot lt i x H = dcheck (i < heap_size H) (rbind (slot_at H i) (\<lambda>y. Inr (lt y x)))"

definition ParentIndex :: "nat \<Rightarrow> nat res" where
  "ParentIndex i = dcheck (i \<noteq> 0) (Inr ((i - 1) div 2))"

definition LeftIndex :: "nat \<Rightarrow> nat" where
  "LeftIndex i = 2 * i + 1"

section \<open>Moving a hole\<close>

lemma rbind_cong [fundef_cong]:
  "m = m' \<Longrightarrow> (\<And>x. m' = Inr x \<Longrightarrow> k x = k' x) \<Longrightarrow> rbind m k = rbind m' k'"
  by (cases m') auto

text \<open>\<open>push_back\<close> at the end of the vector, an assignment to a slot before it.\<close>

definition put_slot :: "nat \<Rightarrow> 'e option \<Rightarrow> 'e option list \<Rightarrow> 'e option list" where
  "put_slot i x xs = (if i = length xs then xs @ [x] else xs[i := x])"

definition MakeHole :: "nat \<Rightarrow> 'e iheap \<Rightarrow> 'e iheap res" where
  "MakeHole pos H = dcheck (pos < heap_size H) (ClearHeapHandle pos H)"

definition FillHole :: "nat \<Rightarrow> 'e \<Rightarrow> 'e iheap \<Rightarrow> 'e iheap res" where
  "FillHole hole_pos x H = dcheck (hole_pos \<le> heap_size H)
     (SetHeapHandle hole_pos (H\<lparr>slots := put_slot hole_pos (Some x) (slots H)\<rparr>))"

definition MoveHole :: "nat \<Rightarrow> nat \<Rightarrow> 'e iheap \<Rightarrow> 'e iheap res" where
  "MoveHole new_hole_pos old_hole_pos H =
     dcheck (new_hole_pos \<noteq> old_hole_pos) (dcheck (new_hole_pos < heap_size H) (dcheck (old_hole_pos \<le> heap_size H)
       (rbind (slot_at H new_hole_pos) (\<lambda>x.
        SetHeapHandle old_hole_pos
          (H\<lparr>slots := (put_slot old_hole_pos (Some x) (slots H))[new_hole_pos := None]\<rparr>)))))"

text \<open>The loop of \<open>MoveHoleUpAndFill\<close>.\<close>

function hole_up :: "('e \<Rightarrow> 'e \<Rightarrow> bool) \<Rightarrow> 'e \<Rightarrow> nat \<Rightarrow> 'e iheap \<Rightarrow> (nat \<times> 'e iheap) res" where
  "hole_up lt x hole_pos H =
     (if hole_pos = 0 then Inr (hole_pos, H)
      else rbind (ParentIndex hole_pos) (\<lambda>parent.
        rbind (Less_slot lt parent x H) (\<lambda>below.
        if \<not> below then Inr (hole_pos, H)
        else rbind (MoveHole parent hole_pos H) (\<lambda>H. hole_up lt x parent H))))"
  by pat_completeness auto
termination
  by (relation "measure (\<lambda>(lt, x, hole_pos, H). hole_pos)") (auto simp: ParentIndex_def)

declare hole_up.simps [simp del]

definition MoveHoleUpAndFill :: "('e \<Rightarrow> 'e \<Rightarrow> bool) \<Rightarrow> nat \<Rightarrow> 'e \<Rightarrow> 'e iheap \<Rightarrow> (nat \<times> 'e iheap) res" where
  "MoveHoleUpAndFill lt hole_pos x H = dcheck (hole_pos \<le> heap_size H)
     (rbind (hole_up lt x hole_pos H) (\<lambda>(hole_pos, H). rbind (FillHole hole_pos x H) (\<lambda>H. Inr (hole_pos, H))))"

text \<open>
  The loop of \<open>MoveHoleDownAndFill\<close> over the first \<open>n\<close> slots; \<open>leaf\<close> is \<open>kIsLeafElement\<close>.
\<close>

function hole_down :: "('e \<Rightarrow> 'e \<Rightarrow> bool) \<Rightarrow> bool \<Rightarrow> 'e \<Rightarrow> nat \<Rightarrow> nat \<Rightarrow> 'e iheap \<Rightarrow> (nat \<times> 'e iheap) res" where
  "hole_down lt leaf x n hole_pos H =
     (let left = LeftIndex hole_pos in
      if left \<ge> n then Inr (hole_pos, H)
      else let right = left + 1 in
        rbind (if right < n then Less_idx lt left right H else Inr False) (\<lambda>right_larger.
        let largest = (if right_larger then right else left) in
        rbind (if leaf then Inr True else Less_elem lt x largest H) (\<lambda>go_on.
        if \<not> go_on then Inr (hole_pos, H)
        else rbind (MoveHole largest hole_pos H) (\<lambda>H. hole_down lt leaf x n largest H))))"
  by pat_completeness auto
termination
  by (relation "measure (\<lambda>(lt, leaf, x, n, hole_pos, H). n - hole_pos)") (auto simp: LeftIndex_def)

declare hole_down.simps [simp del]

definition MoveHoleDownAndFill ::
  "('e \<Rightarrow> 'e \<Rightarrow> bool) \<Rightarrow> bool \<Rightarrow> nat \<Rightarrow> 'e \<Rightarrow> 'e iheap \<Rightarrow> (nat \<times> 'e iheap) res" where
  "MoveHoleDownAndFill lt leaf hole_pos x H = dcheck (hole_pos < heap_size H)
     (let n = heap_size H - (if leaf then 1 else 0) in
      dcheck (hole_pos < n) (rbind (GetHeapHandle hole_pos H) (\<lambda>h. dcheck (h = None)
        (rbind (hole_down lt leaf x n hole_pos H) (\<lambda>(hole_pos, H).
         if leaf then MoveHoleUpAndFill lt hole_pos x H
         else rbind (FillHole hole_pos x H) (\<lambda>H. Inr (hole_pos, H)))))))"

section \<open>Operations\<close>

definition ih_new :: "('e \<Rightarrow> nat option) \<Rightarrow> 'e iheap" where
  "ih_new h = \<lparr>slots = [], handle = h\<rparr>"

definition ih_insert :: "('e \<Rightarrow> 'e \<Rightarrow> bool) \<Rightarrow> 'e \<Rightarrow> 'e iheap \<Rightarrow> (nat \<times> 'e iheap) res" where
  "ih_insert lt x H = MoveHoleUpAndFill lt (heap_size H) x H"

fun ih_insert_all :: "('e \<Rightarrow> 'e \<Rightarrow> bool) \<Rightarrow> 'e list \<Rightarrow> 'e iheap \<Rightarrow> 'e iheap res" where
  "ih_insert_all lt [] H = Inr H"
| "ih_insert_all lt (x # xs) H = rbind (ih_insert lt x H) (\<lambda>(_, H). ih_insert_all lt xs H)"

text \<open>Moving the element out of a slot.\<close>

definition move_out :: "nat \<Rightarrow> 'e iheap \<Rightarrow> ('e \<times> 'e iheap) res" where
  "move_out i H = rbind (slot_at H i) (\<lambda>x. Inr (x, H\<lparr>slots := (slots H)[i := None]\<rparr>))"

definition pop_slot :: "'e iheap \<Rightarrow> 'e iheap" where
  "pop_slot H = H\<lparr>slots := butlast (slots H)\<rparr>"

definition fill_with_last :: "('e \<Rightarrow> 'e \<Rightarrow> bool) \<Rightarrow> nat \<Rightarrow> 'e iheap \<Rightarrow> 'e iheap res" where
  "fill_with_last lt pos H =
     (if pos \<noteq> GetLastIndex H
      then rbind (MakeHole (GetLastIndex H) H) (\<lambda>H.
           rbind (move_out (GetLastIndex H) H) (\<lambda>(x, H).
           rbind (MoveHoleDownAndFill lt True pos x H) (\<lambda>(_, H). Inr H)))
      else Inr H)"

definition ih_take :: "('e \<Rightarrow> 'e \<Rightarrow> bool) \<Rightarrow> nat \<Rightarrow> 'e iheap \<Rightarrow> ('e \<times> 'e iheap) res" where
  "ih_take lt pos H =
     rbind (MakeHole pos H) (\<lambda>H. rbind (move_out pos H) (\<lambda>(val, H).
     rbind (fill_with_last lt pos H) (\<lambda>H. Inr (val, pop_slot H))))"

definition ih_erase :: "('e \<Rightarrow> 'e \<Rightarrow> bool) \<Rightarrow> nat \<Rightarrow> 'e iheap \<Rightarrow> 'e iheap res" where
  "ih_erase lt pos H = dcheck (pos < heap_size H)
     (rbind (MakeHole pos H) (\<lambda>H. rbind (fill_with_last lt pos H) (\<lambda>H. Inr (pop_slot H))))"

definition ih_take_top :: "('e \<Rightarrow> 'e \<Rightarrow> bool) \<Rightarrow> 'e iheap \<Rightarrow> ('e \<times> 'e iheap) res" where
  "ih_take_top lt H = ih_take lt 0 H"

definition ih_pop :: "('e \<Rightarrow> 'e \<Rightarrow> bool) \<Rightarrow> 'e iheap \<Rightarrow> 'e iheap res" where
  "ih_pop lt H = ih_erase lt 0 H"

definition ih_Update :: "('e \<Rightarrow> 'e \<Rightarrow> bool) \<Rightarrow> nat \<Rightarrow> 'e iheap \<Rightarrow> (nat \<times> 'e iheap) res" where
  "ih_Update lt pos H = dcheck (pos < heap_size H)
     (rbind (MakeHole pos H) (\<lambda>H.
      rbind (if pos > 0
             then rbind (ParentIndex pos) (\<lambda>i. rbind (Less_idx lt pos i H) (\<lambda>below. Inr (\<not> below)))
             else Inr False) (\<lambda>child_greater_eq_parent.
      rbind (move_out pos H) (\<lambda>(x, H).
      if child_greater_eq_parent then MoveHoleUpAndFill lt pos x H
      else MoveHoleDownAndFill lt False pos x H))))"

definition ih_Replace :: "('e \<Rightarrow> 'e \<Rightarrow> bool) \<Rightarrow> nat \<Rightarrow> 'e \<Rightarrow> 'e iheap \<Rightarrow> (nat \<times> 'e iheap) res" where
  "ih_Replace lt pos x H =
     rbind (MakeHole pos H) (\<lambda>H. rbind (Less_elem lt x pos H) (\<lambda>below.
     if \<not> below then MoveHoleUpAndFill lt pos x H else MoveHoleDownAndFill lt False pos x H))"

definition ih_ReplaceTop :: "('e \<Rightarrow> 'e \<Rightarrow> bool) \<Rightarrow> 'e \<Rightarrow> 'e iheap \<Rightarrow> (nat \<times> 'e iheap) res" where
  "ih_ReplaceTop lt x H = rbind (MakeHole 0 H) (\<lambda>H. MoveHoleDownAndFill lt False 0 x H)"

text \<open>The loop of \<open>clear\<close> over the slots from \<open>i\<close>.\<close>

fun clear_handles :: "nat \<Rightarrow> nat \<Rightarrow> 'e iheap \<Rightarrow> 'e iheap res" where
  "clear_handles i 0 H = Inr H"
| "clear_handles i (Suc n) H = rbind (ClearHeapHandle i H) (clear_handles (Suc i) n)"

definition ih_clear :: "'e iheap \<Rightarrow> 'e iheap res" where
  "ih_clear H = rbind (clear_handles 0 (heap_size H) H) (\<lambda>H. Inr (H\<lparr>slots := []\<rparr>))"

end
