(* ===== verification/StrictWeak.thy ===== *)
theory StrictWeak
  imports Prelude
begin

text \<open>
  The contract of a C++ comparison object (\<open>Compare\<close>): a strict weak order. Containers and algorithms that take a
  comparison are proved correct inside this locale; elements neither of which is below the other are equivalent.
\<close>

locale strict_weak =
  fixes lt :: "'e \<Rightarrow> 'e \<Rightarrow> bool"
  assumes asym: "lt a b \<Longrightarrow> \<not> lt b a"
    and not_lt_trans: "\<not> lt a b \<Longrightarrow> \<not> lt b c \<Longrightarrow> \<not> lt a c"
begin

lemma irrefl: "\<not> lt a a"
  using asym by blast

lemma lt_not_lt_trans: "lt a b \<Longrightarrow> \<not> lt c b \<Longrightarrow> lt a c"
  using not_lt_trans asym by blast

lemma not_lt_lt_trans: "\<not> lt b a \<Longrightarrow> lt b c \<Longrightarrow> lt a c"
  using not_lt_trans asym by blast

lemma lt_trans: "lt a b \<Longrightarrow> lt b c \<Longrightarrow> lt a c"
  using not_lt_trans asym by blast

end

definition equivalent :: "('e \<Rightarrow> 'e \<Rightarrow> bool) \<Rightarrow> 'e \<Rightarrow> 'e \<Rightarrow> bool" where
  "equivalent lt a b \<longleftrightarrow> \<not> lt a b \<and> \<not> lt b a"

text \<open>A comparison of keys, \<open>std::less\<close> in particular.\<close>

definition key_less :: "('e \<Rightarrow> 'k::linorder) \<Rightarrow> 'e \<Rightarrow> 'e \<Rightarrow> bool" where
  "key_less key a b \<longleftrightarrow> key a < key b"

interpretation by_key: strict_weak "key_less key" for key :: "'e \<Rightarrow> 'k::linorder"
  by unfold_locales (auto simp: key_less_def)

text \<open>Comparing values by a key that is itself compared by a strict weak order.\<close>

lemma strict_weak_key: "strict_weak lt \<Longrightarrow> strict_weak (\<lambda>a b. lt (key a) (key b))"
proof -
  assume "strict_weak lt"
  note laws = strict_weak.asym [OF this] strict_weak.not_lt_trans [OF this]
  show ?thesis by (rule strict_weak.intro) (fact laws(1), fact laws(2))
qed

end
