(* ===== verification/HeapInv.thy ===== *)
theory HeapInv
  imports IntrusiveHeap StrictWeak
begin

text \<open>The heap property and the state of the vector while a hole travels through it.\<close>

section \<open>Vectors with a hole\<close>

definition el :: "'e iheap \<Rightarrow> nat \<Rightarrow> 'e" where
  "el H i = the (slots H ! i)"

lemma el_handle_update [simp]: "el (H\<lparr>handle := f\<rparr>) = el H"
  by (simp add: el_def fun_eq_iff)

text \<open>Every slot below \<open>n\<close> but \<open>h\<close> holds an element whose handle is that slot.\<close>

definition live :: "nat \<Rightarrow> nat \<Rightarrow> 'e iheap \<Rightarrow> bool" where
  "live n h H \<longleftrightarrow> n \<le> length (slots H) \<and>
     (\<forall>i<n. i \<noteq> h \<longrightarrow> slots H ! i = Some (el H i) \<and> handle H (el H i) = Some i)"

definition elems :: "nat \<Rightarrow> nat \<Rightarrow> 'e iheap \<Rightarrow> 'e set" where
  "elems n h H = el H ` ({..<n} - {h})"

text \<open>The order around a hole: on the edges that avoid it, and from its parent to its children.\<close>

definition ordered :: "('e \<Rightarrow> 'e \<Rightarrow> bool) \<Rightarrow> nat \<Rightarrow> nat \<Rightarrow> 'e iheap \<Rightarrow> bool" where
  "ordered lt n h H \<longleftrightarrow>
     (\<forall>i<n. 0 < i \<longrightarrow> i \<noteq> h \<longrightarrow> (i - 1) div 2 \<noteq> h \<longrightarrow> \<not> lt (el H ((i - 1) div 2)) (el H i)) \<and>
     (\<forall>i<n. 0 < i \<longrightarrow> 0 < h \<longrightarrow> (i - 1) div 2 = h \<longrightarrow> \<not> lt (el H ((h - 1) div 2)) (el H i))"

definition above_children :: "('e \<Rightarrow> 'e \<Rightarrow> bool) \<Rightarrow> nat \<Rightarrow> nat \<Rightarrow> 'e \<Rightarrow> 'e iheap \<Rightarrow> bool" where
  "above_children lt n h x H \<longleftrightarrow> (\<forall>i<n. 0 < i \<longrightarrow> (i - 1) div 2 = h \<longrightarrow> \<not> lt x (el H i))"

definition below_parent :: "('e \<Rightarrow> 'e \<Rightarrow> bool) \<Rightarrow> nat \<Rightarrow> 'e \<Rightarrow> 'e iheap \<Rightarrow> bool" where
  "below_parent lt h x H \<longleftrightarrow> (0 < h \<longrightarrow> \<not> lt (el H ((h - 1) div 2)) x)"

text \<open>What every move of a hole leaves alone.\<close>

definition same_elems :: "nat \<Rightarrow> nat \<times> 'e iheap \<Rightarrow> nat \<times> 'e iheap \<Rightarrow> bool" where
  "same_elems n P Q \<longleftrightarrow>
     length (slots (snd Q)) = length (slots (snd P)) \<and> elems n (fst Q) (snd Q) = elems n (fst P) (snd P) \<and>
     (\<forall>y. y \<notin> elems n (fst P) (snd P) \<longrightarrow> handle (snd Q) y = handle (snd P) y)"

lemma same_elems_refl [simp]: "same_elems n P P"
  by (simp add: same_elems_def)

lemma same_elems_trans: "same_elems n P Q \<Longrightarrow> same_elems n Q R \<Longrightarrow> same_elems n P R"
  by (auto simp: same_elems_def)

lemma live_slot: "live n h H \<Longrightarrow> i < n \<Longrightarrow> i \<noteq> h \<Longrightarrow> slots H ! i = Some (el H i) \<and> handle H (el H i) = Some i"
  by (simp add: live_def)

lemma live_slot_at: "live n h H \<Longrightarrow> i < n \<Longrightarrow> i \<noteq> h \<Longrightarrow> slot_at H i = Inr (el H i)"
  by (auto simp: slot_at_def live_def)

lemma live_length: "live n h H \<Longrightarrow> n \<le> length (slots H)"
  by (simp add: live_def)

lemma live_inj: "live n h H \<Longrightarrow> i < n \<Longrightarrow> j < n \<Longrightarrow> i \<noteq> h \<Longrightarrow> j \<noteq> h \<Longrightarrow> el H i = el H j \<Longrightarrow> i = j"
  by (metis live_slot option.inject)

section \<open>One move of the hole\<close>

definition hole_moved :: "nat \<Rightarrow> nat \<Rightarrow> 'e iheap \<Rightarrow> 'e iheap" where
  "hole_moved p h H = \<lparr>slots = (slots H)[h := Some (el H p), p := None], handle = (handle H)(el H p := Some h)\<rparr>"

lemma MoveHole_eq:
  assumes "live n h H" "p < n" "h < n" "p \<noteq> h"
  shows "MoveHole p h H = Inr (hole_moved p h H)"
  using assms live_slot_at [OF assms(1,2,4)] live_length [OF assms(1)]
  by (cases H) (simp add: MoveHole_def SetHeapHandle_def heap_size_def put_slot_def slot_at_def
      GetHeapHandle_def CheckInvalidOrEqualTo_def hole_moved_def Let_def el_def)

lemma el_hole_moved:
  assumes "live n h H" "h < n" "i \<noteq> p"
  shows "el (hole_moved p h H) i = (if i = h then el H p else el H i)"
  using assms by (auto simp: el_def hole_moved_def live_def)

lemma slots_hole_moved [simp]: "slots (hole_moved p h H) = (slots H)[h := Some (el H p), p := None]"
  and handle_hole_moved [simp]: "handle (hole_moved p h H) = (handle H)(el H p := Some h)"
  by (simp_all add: hole_moved_def)

lemma live_hole_moved:
  assumes "live n h H" "p < n" "h < n" "p \<noteq> h"
  shows "live n p (hole_moved p h H)"
proof -
  have "slots (hole_moved p h H) ! i = Some (el (hole_moved p h H) i) \<and>
      handle (hole_moved p h H) (el (hole_moved p h H) i) = Some i" if "i < n" "i \<noteq> p" for i
    using that assms live_slot [OF assms(1,2,4)] live_slot [OF assms(1) that(1)] live_length [OF assms(1)]
    by (auto simp: el_hole_moved [OF assms(1,3)])
  with assms show ?thesis by (simp add: live_def)
qed

lemma same_elems_hole_moved:
  assumes "live n h H" "p < n" "h < n" "p \<noteq> h"
  shows "same_elems n (h, H) (p, hole_moved p h H)"
proof -
  have "el (hole_moved p h H) i \<in> elems n h H" if "i < n" "i \<noteq> p" for i
    using that assms by (auto simp: el_hole_moved elems_def)
  moreover have "el H i \<in> elems n p (hole_moved p h H)" if "i < n" "i \<noteq> h" for i
  proof (cases "i = p")
    case True
    with assms show ?thesis by (auto simp: elems_def el_hole_moved intro!: rev_image_eqI [of h])
  next
    case False
    with that assms show ?thesis by (auto simp: elems_def el_hole_moved intro!: rev_image_eqI [of i])
  qed
  ultimately have "elems n p (hole_moved p h H) = elems n h H"
    by (auto simp: elems_def [of n p] elems_def [of n h])
  moreover have "el H p \<in> elems n h H" using assms by (simp add: elems_def)
  ultimately show ?thesis by (auto simp: same_elems_def)
qed

lemma ordered_edge:
  "ordered lt n h H \<Longrightarrow> i < n \<Longrightarrow> 0 < i \<Longrightarrow> i \<noteq> h \<Longrightarrow> (i - 1) div 2 \<noteq> h \<Longrightarrow>
   \<not> lt (el H ((i - 1) div 2)) (el H i)"
  by (simp add: ordered_def)

lemma ordered_bridge:
  "ordered lt n h H \<Longrightarrow> i < n \<Longrightarrow> 0 < i \<Longrightarrow> 0 < h \<Longrightarrow> (i - 1) div 2 = h \<Longrightarrow>
   \<not> lt (el H ((h - 1) div 2)) (el H i)"
  by (simp add: ordered_def)

lemma ordered_intro:
  assumes "\<And>i. i < n \<Longrightarrow> 0 < i \<Longrightarrow> i \<noteq> h \<Longrightarrow> (i - 1) div 2 \<noteq> h \<Longrightarrow> \<not> lt (el H ((i - 1) div 2)) (el H i)"
    and "\<And>i. i < n \<Longrightarrow> 0 < i \<Longrightarrow> 0 < h \<Longrightarrow> (i - 1) div 2 = h \<Longrightarrow> \<not> lt (el H ((h - 1) div 2)) (el H i)"
  shows "ordered lt n h H"
  using assms unfolding ordered_def by blast

text \<open>The child of a hole that is not below the other one.\<close>

definition larger_child :: "('e \<Rightarrow> 'e \<Rightarrow> bool) \<Rightarrow> nat \<Rightarrow> nat \<Rightarrow> 'e iheap \<Rightarrow> nat" where
  "larger_child lt n h H = (if 2 * h + 2 < n \<and> lt (el H (2 * h + 1)) (el H (2 * h + 2)) then 2 * h + 2 else 2 * h + 1)"

lemma parent_less: "0 < i \<Longrightarrow> (i - 1) div 2 < (i::nat)"
  by linarith

lemma child_cases: "0 < i \<Longrightarrow> (i - 1) div 2 = h \<longleftrightarrow> i = 2 * h + 1 \<or> i = 2 * h + 2" for i h :: nat
  by linarith

context strict_weak
begin

lemma ordered_moved_up:
  assumes lv: "live n h H" and od: "ordered lt n h H" and h: "0 < h" "h < n" and p: "p = (h - 1) div 2"
  shows "ordered lt n p (hole_moved p h H)"
proof (rule ordered_intro)
  have ph: "p < h" using parent_less [OF h(1)] p by simp
  note moved = el_hole_moved [OF lv h(2)]
  fix i assume i: "i < n" "0 < i"
  show "\<not> lt (el (hole_moved p h H) ((i - 1) div 2)) (el (hole_moved p h H) i)"
    if "i \<noteq> p" "(i - 1) div 2 \<noteq> p"
  proof (cases "(i - 1) div 2 = h")
    case True
    with ordered_bridge [OF od i h(1)] that p parent_less [OF i(2)] show ?thesis by (simp add: moved)
  next
    case False
    with ordered_edge [OF od i] that p show ?thesis by (auto simp: moved)
  qed
  show "\<not> lt (el (hole_moved p h H) ((p - 1) div 2)) (el (hole_moved p h H) i)"
    if q: "0 < p" "(i - 1) div 2 = p"
  proof -
    have pp: "(p - 1) div 2 < p" by (rule parent_less [OF q(1)])
    have top: "\<not> lt (el H ((p - 1) div 2)) (el H p)"
      using ordered_edge [OF od _ q(1)] ph h(2) pp by simp
    moreover have "\<not> lt (el H p) (el H i)" if "i \<noteq> h"
      using ordered_edge [OF od i that] q(2) ph by simp
    ultimately show ?thesis using not_lt_trans pp ph parent_less [OF i(2)] q(2) by (simp add: moved)
  qed
qed

lemma above_moved_up:
  assumes lv: "live n h H" and od: "ordered lt n h H" and h: "0 < h" "h < n" and p: "p = (h - 1) div 2"
    and x: "lt (el H p) x"
  shows "above_children lt n p x (hole_moved p h H)"
  unfolding above_children_def
proof (intro allI impI)
  fix i assume i: "i < n" "0 < i" "(i - 1) div 2 = p"
  have "\<not> lt (el H p) (el H i)" if "i \<noteq> h"
    using ordered_edge [OF od i(1,2) that] i(3) parent_less [OF h(1)] p by simp
  with asym [OF x] not_lt_trans show "\<not> lt x (el (hole_moved p h H) i)"
    using parent_less [OF i(2)] i(3) by (auto simp: el_hole_moved [OF lv h(2)])
qed

lemma ordered_moved_down:
  assumes lv: "live n h H" and od: "ordered lt n h H" and h: "h < n" and p: "p < n" "0 < p" "(p - 1) div 2 = h"
    and max: "above_children lt n h (el H p) H"
  shows "ordered lt n p (hole_moved p h H)"
proof (rule ordered_intro)
  have hp: "h < p" using parent_less [OF p(2)] p(3) by simp
  note moved = el_hole_moved [OF lv h]
  fix i assume i: "i < n" "0 < i"
  show "\<not> lt (el (hole_moved p h H) ((i - 1) div 2)) (el (hole_moved p h H) i)"
    if q: "i \<noteq> p" "(i - 1) div 2 \<noteq> p"
  proof (cases "(i - 1) div 2 = h")
    case True
    with max i q parent_less [OF i(2)] show ?thesis by (simp add: moved above_children_def)
  next
    case False
    with ordered_edge [OF od i] ordered_bridge [OF od p(1,2) _ p(3)] i q show ?thesis
      by (cases "i = h") (simp_all add: moved)
  qed
  show "\<not> lt (el (hole_moved p h H) ((p - 1) div 2)) (el (hole_moved p h H) i)"
    if q: "(i - 1) div 2 = p"
    using ordered_edge [OF od i] q parent_less [OF i(2)] hp p(3) by (simp add: moved)
qed

lemma Less_slot_live: "live n h H \<Longrightarrow> i < n \<Longrightarrow> i \<noteq> h \<Longrightarrow> Less_slot lt i x H = Inr (lt (el H i) x)"
  using live_length [of n h H] by (simp add: Less_slot_def heap_size_def live_slot_at)

lemma Less_elem_live: "live n h H \<Longrightarrow> i < n \<Longrightarrow> i \<noteq> h \<Longrightarrow> Less_elem lt x i H = Inr (lt x (el H i))"
  using live_length [of n h H] by (simp add: Less_elem_def heap_size_def live_slot_at)

lemma Less_idx_live:
  "live n h H \<Longrightarrow> i < n \<Longrightarrow> i \<noteq> h \<Longrightarrow> j < n \<Longrightarrow> j \<noteq> h \<Longrightarrow> Less_idx lt i j H = Inr (lt (el H i) (el H j))"
  using live_length [of n h H] by (simp add: Less_idx_def heap_size_def live_slot_at)

section \<open>The two loops\<close>

lemma hole_up_ok:
  assumes "live n h H" "h < n" "ordered lt n h H" "above_children lt n h x H"
  shows "\<exists>h' H'. hole_up lt x h H = Inr (h', H') \<and> h' < n \<and> live n h' H' \<and> ordered lt n h' H' \<and>
    above_children lt n h' x H' \<and> below_parent lt h' x H' \<and> same_elems n (h, H) (h', H')"
  using assms
proof (induction h arbitrary: H rule: less_induct)
  case (less h)
  define p where "p = (h - 1) div 2"
  show ?case
  proof (cases "0 < h \<and> lt (el H p) x")
    case False
    then have "hole_up lt x h H = Inr (h, H)"
      using less.prems Less_slot_live [OF less.prems(1), of p x] parent_less [of h]
      by (subst hole_up.simps) (auto simp: ParentIndex_def p_def)
    with less.prems False show ?thesis by (auto simp: below_parent_def p_def)
  next
    case True
    then have ph: "p < h" using parent_less [of h] by (simp add: p_def)
    note move = less.prems(1) _ less.prems(2)
    have "\<exists>h' H'. hole_up lt x p (hole_moved p h H) = Inr (h', H') \<and> h' < n \<and> live n h' H' \<and>
        ordered lt n h' H' \<and> above_children lt n h' x H' \<and> below_parent lt h' x H' \<and>
        same_elems n (p, hole_moved p h H) (h', H')"
      using less.prems ph True
      by (intro less.IH live_hole_moved ordered_moved_up above_moved_up) (auto simp: p_def)
    moreover have "hole_up lt x h H = hole_up lt x p (hole_moved p h H)"
      using less.prems(2) True ph Less_slot_live [OF less.prems(1), of p x]
        MoveHole_eq [OF less.prems(1) _ less.prems(2), of p]
      by (subst hole_up.simps) (simp add: ParentIndex_def p_def [symmetric] del: One_nat_def)
    moreover have "same_elems n (h, H) (p, hole_moved p h H)"
      using ph less.prems by (intro same_elems_hole_moved) auto
    ultimately show ?thesis using same_elems_trans by fastforce
  qed
qed

lemma larger_child_max:
  assumes "2 * h + 1 < n"
  shows "above_children lt n h (el H (larger_child lt n h H)) H"
  unfolding above_children_def
proof (intro allI impI)
  fix i assume i: "i < n" "0 < i" "(i - 1) div 2 = h"
  then have "i = 2 * h + 1 \<or> i = 2 * h + 2" by (simp only: child_cases)
  with i(1) asym irrefl show "\<not> lt (el H (larger_child lt n h H)) (el H i)"
    by (auto simp: larger_child_def)
qed

lemma hole_down_step:
  assumes lv: "live n h H" "h < n" and left: "2 * h + 1 < n" and p: "p = larger_child lt n h H"
  shows "hole_down lt leaf x n h H =
    (if leaf \<or> lt x (el H p) then hole_down lt leaf x n p (hole_moved p h H) else Inr (h, H))"
proof -
  have pn: "p < n" "p \<noteq> h" using left by (auto simp: p larger_child_def)
  note loop = hole_down.simps [of lt leaf x n h H] LeftIndex_def Let_def
    Less_idx_live [OF lv(1)] Less_elem_live [OF lv(1) pn] MoveHole_eq [OF lv(1) pn(1) lv(2) pn(2)]
  show ?thesis
  proof (cases "2 * h + 2 < n \<and> lt (el H (2 * h + 1)) (el H (2 * h + 2))")
    case True
    then have "p = Suc (Suc (2 * h))" by (simp add: p larger_child_def)
    with True left loop show ?thesis by simp
  next
    case False
    then have "p = Suc (2 * h)" by (auto simp: p larger_child_def)
    with False left loop show ?thesis by auto
  qed
qed

lemma hole_down_ok:
  assumes "live n h H" "h < n" "ordered lt n h H" "\<not> leaf \<longrightarrow> below_parent lt h x H"
  shows "\<exists>h' H'. hole_down lt leaf x n h H = Inr (h', H') \<and> h' < n \<and> live n h' H' \<and> ordered lt n h' H' \<and>
    above_children lt n h' x H' \<and> (\<not> leaf \<longrightarrow> below_parent lt h' x H') \<and> same_elems n (h, H) (h', H')"
  using assms
proof (induction "n - h" arbitrary: h H rule: less_induct)
  case less
  define p where "p = larger_child lt n h H"
  show ?case
  proof (cases "2 * h + 1 < n")
    case False
    then have "hole_down lt leaf x n h H = Inr (h, H)"
      by (subst hole_down.simps) (simp add: LeftIndex_def)
    with less.prems False show ?thesis by (auto simp: above_children_def child_cases)
  next
    case left: True
    note max = larger_child_max [OF left, of H, folded p_def]
    have pn: "p < n" "0 < p" "(p - 1) div 2 = h" "p \<noteq> h" "h < p" using left by (auto simp: p_def larger_child_def)
    note step = hole_down_step [OF less.prems(1,2) left p_def, of leaf x]
    show ?thesis
    proof (cases "leaf \<or> lt x (el H p)")
      case True
      note lv = live_hole_moved [OF less.prems(1) pn(1) less.prems(2) pn(4)]
      have "\<not> leaf \<longrightarrow> below_parent lt p x (hole_moved p h H)"
        using True asym pn(3,4) by (auto simp: below_parent_def el_hole_moved [OF less.prems(1,2)])
      with less.hyps [of p "hole_moved p h H"] pn lv ordered_moved_down [OF less.prems(1,3,2) pn(1-3) max]
      have "\<exists>h' H'. hole_down lt leaf x n p (hole_moved p h H) = Inr (h', H') \<and> h' < n \<and> live n h' H' \<and>
          ordered lt n h' H' \<and> above_children lt n h' x H' \<and> (\<not> leaf \<longrightarrow> below_parent lt h' x H') \<and>
          same_elems n (p, hole_moved p h H) (h', H')"
        using less.prems(2) by (simp add: diff_less_mono2)
      with True step same_elems_trans [OF same_elems_hole_moved [OF less.prems(1) pn(1) less.prems(2) pn(4)]]
      show ?thesis by fastforce
    next
      case False
      have "above_children lt n h x H"
        using max False not_lt_trans unfolding above_children_def by blast
      with False step less.prems show ?thesis by auto
    qed
  qed
qed

end

end
