(* ===== verification/HeapOps.thy ===== *)
theory HeapOps
  imports HeapInv
begin

text \<open>The operations of the heap keep it in order, keep the handles right and pass every check.\<close>

section \<open>Complete heaps\<close>

definition heap_upto :: "('e \<Rightarrow> 'e \<Rightarrow> bool) \<Rightarrow> nat \<Rightarrow> 'e iheap \<Rightarrow> bool" where
  "heap_upto lt n H \<longleftrightarrow> live n n H \<and> ordered lt n n H"

definition heap_ok :: "('e \<Rightarrow> 'e \<Rightarrow> bool) \<Rightarrow> 'e iheap \<Rightarrow> bool" where
  "heap_ok lt H \<longleftrightarrow> heap_upto lt (heap_size H) H"

definition items :: "'e iheap \<Rightarrow> 'e set" where
  "items H = {x. Some x \<in> set (slots H)}"

text \<open>The heap after an element went into a hole: all that was there, and the new element.\<close>

definition put_result :: "('e \<Rightarrow> 'e \<Rightarrow> bool) \<Rightarrow> nat \<Rightarrow> nat \<Rightarrow> 'e \<Rightarrow> 'e iheap \<Rightarrow> nat \<times> 'e iheap \<Rightarrow> bool" where
  "put_result lt n h x H R \<longleftrightarrow> (case R of (h', H') \<Rightarrow>
     heap_upto lt n H' \<and> length (slots H') = length (slots H) \<and>
     elems n n H' = insert x (elems n h H) \<and>
     (\<forall>y. y \<notin> insert x (elems n h H) \<longrightarrow> handle H' y = handle H y) \<and> h' < n \<and> el H' h' = x)"

lemma heap_upto_edge:
  "heap_upto lt n H \<Longrightarrow> i < n \<Longrightarrow> 0 < i \<Longrightarrow> \<not> lt (el H ((i - 1) div 2)) (el H i)"
  using ordered_edge [of lt n n H i] parent_less [of i] by (simp add: heap_upto_def)

lemma heap_upto_intro:
  assumes "live n n H" "\<And>i. i < n \<Longrightarrow> 0 < i \<Longrightarrow> \<not> lt (el H ((i - 1) div 2)) (el H i)"
  shows "heap_upto lt n H"
  unfolding heap_upto_def
proof (intro conjI ordered_intro)
  show "\<not> lt (el H ((n - 1) div 2)) (el H i)" if "i < n" "0 < i" "(i - 1) div 2 = n" for i
    using that parent_less [of i] by simp
qed (use assms in auto)

definition filled :: "nat \<Rightarrow> 'e \<Rightarrow> 'e iheap \<Rightarrow> 'e iheap" where
  "filled h x H = \<lparr>slots = (slots H)[h := Some x], handle = (handle H)(x := Some h)\<rparr>"

lemma slots_filled [simp]: "slots (filled h x H) = (slots H)[h := Some x]"
  and handle_filled [simp]: "handle (filled h x H) = (handle H)(x := Some h)"
  by (simp_all add: filled_def)

lemma FillHole_eq: "h < length (slots H) \<Longrightarrow> FillHole h x H = Inr (filled h x H)"
  by (cases H) (simp add: FillHole_def SetHeapHandle_def heap_size_def put_slot_def slot_at_def
      GetHeapHandle_def CheckInvalidOrEqualTo_def filled_def Let_def)

lemma el_filled: "h < length (slots H) \<Longrightarrow> el (filled h x H) i = (if i = h then x else el H i)"
  by (simp add: el_def nth_list_update)

lemma live_filled:
  assumes "live n h H" "h < n" "x \<notin> elems n h H"
  shows "live n n (filled h x H)"
proof -
  have h: "h < length (slots H)" using assms live_length [OF assms(1)] by simp
  have "slots (filled h x H) ! i = Some (el (filled h x H) i) \<and>
      handle (filled h x H) (el (filled h x H) i) = Some i" if i: "i < n" for i
  proof (cases "i = h")
    case False
    then have "el H i \<in> elems n h H" using i by (simp add: elems_def)
    with False live_slot [OF assms(1) i] assms(3) h show ?thesis by (auto simp: el_filled)
  qed (use h in \<open>simp add: el_filled\<close>)
  with live_length [OF assms(1)] show ?thesis by (simp add: live_def)
qed

context strict_weak
begin

lemma filled_ok:
  assumes lv: "live n h H" and h: "h < n" and od: "ordered lt n h H" and x: "x \<notin> elems n h H"
    and up: "above_children lt n h x H" and down: "below_parent lt h x H"
  shows "put_result lt n h x H (h, filled h x H)"
proof -
  have hl: "h < length (slots H)" using h live_length [OF lv] by simp
  have "elems n n (filled h x H) = insert x (elems n h H)"
    using h by (auto simp: elems_def el_filled [OF hl])
  moreover have "heap_upto lt n (filled h x H)"
  proof (rule heap_upto_intro [OF live_filled [OF lv h x]])
    fix i assume i: "i < n" "0 < i"
    show "\<not> lt (el (filled h x H) ((i - 1) div 2)) (el (filled h x H) i)"
      using ordered_edge [OF od i] up down i parent_less [OF i(2)]
      by (cases "i = h") (auto simp: el_filled [OF hl] above_children_def below_parent_def)
  qed
  ultimately show ?thesis using h by (simp add: put_result_def el_filled [OF hl])
qed

lemma put_result_moved:
  assumes "same_elems n (h, H) (h', H')" "put_result lt n h' x H' R"
  shows "put_result lt n h x H R"
  using assms by (auto simp: put_result_def same_elems_def split: prod.splits)

lemma MoveHoleUpAndFill_ok:
  assumes lv: "live n h H" and h: "h < n" and od: "ordered lt n h H" and x: "x \<notin> elems n h H"
    and up: "above_children lt n h x H"
  shows "\<exists>R. MoveHoleUpAndFill lt h x H = Inr R \<and> put_result lt n h x H R"
proof -
  obtain h' H' where hole: "hole_up lt x h H = Inr (h', H')" "h' < n" "live n h' H'" "ordered lt n h' H'"
      "above_children lt n h' x H'" "below_parent lt h' x H'" and same: "same_elems n (h, H) (h', H')"
    using hole_up_ok [OF lv h od up] by blast
  have "h' < length (slots H')" using hole(2) live_length [OF hole(3)] by simp
  then have "MoveHoleUpAndFill lt h x H = Inr (h', filled h' x H')"
    using hole(1) h live_length [OF lv] by (simp add: MoveHoleUpAndFill_def heap_size_def FillHole_eq)
  moreover have "x \<notin> elems n h' H'" using x same by (simp add: same_elems_def)
  ultimately show ?thesis using filled_ok [OF hole(3,2,4) _ hole(5,6)] put_result_moved [OF same] by blast
qed

lemma MoveHoleDownAndFill_ok:
  assumes lv: "live n h H" and h: "h < n" and od: "ordered lt n h H" and x: "x \<notin> elems n h H"
    and n: "n = heap_size H - (if leaf then 1 else 0)" and hole_handle: "GetHeapHandle h H = Inr None"
    and down: "\<not> leaf \<longrightarrow> below_parent lt h x H"
  shows "\<exists>R. MoveHoleDownAndFill lt leaf h x H = Inr R \<and> put_result lt n h x H R"
proof -
  obtain h' H' where hole: "hole_down lt leaf x n h H = Inr (h', H')" "h' < n" "live n h' H'" "ordered lt n h' H'"
      "above_children lt n h' x H'" "\<not> leaf \<longrightarrow> below_parent lt h' x H'" and same: "same_elems n (h, H) (h', H')"
    using hole_down_ok [OF lv h od down] by blast
  have x': "x \<notin> elems n h' H'" using x same by (simp add: same_elems_def)
  have start: "MoveHoleDownAndFill lt leaf h x H =
      (if leaf then MoveHoleUpAndFill lt h' x H' else rbind (FillHole h' x H') (\<lambda>H. Inr (h', H)))"
    using hole(1) h live_length [OF lv] hole_handle
    by (simp add: MoveHoleDownAndFill_def n [symmetric] Let_def) (simp add: heap_size_def)
  show ?thesis
  proof (cases leaf)
    case True
    with start MoveHoleUpAndFill_ok [OF hole(3,2,4) x' hole(5)] put_result_moved [OF same] show ?thesis by auto
  next
    case False
    have "h' < length (slots H')" using hole(2) live_length [OF hole(3)] by simp
    with False start filled_ok [OF hole(3,2,4) x' hole(5)] hole(6) put_result_moved [OF same]
    show ?thesis by (auto simp: FillHole_eq)
  qed
qed

end

section \<open>States that agree outside the hole\<close>

definition agree :: "nat \<Rightarrow> nat \<Rightarrow> 'e iheap \<Rightarrow> 'e iheap \<Rightarrow> bool" where
  "agree n h H H' \<longleftrightarrow> n \<le> length (slots H') \<and>
     (\<forall>i<n. i \<noteq> h \<longrightarrow> slots H' ! i = slots H ! i \<and> handle H' (el H i) = handle H (el H i))"

lemma agree_el: "agree n h H H' \<Longrightarrow> i < n \<Longrightarrow> i \<noteq> h \<Longrightarrow> el H' i = el H i"
  by (simp add: agree_def el_def)

lemma agree_live: "agree n h H H' \<Longrightarrow> live n h H \<Longrightarrow> live n h H'"
  by (auto simp: live_def agree_el) (simp_all add: agree_def)

lemma agree_elems: "agree n h H H' \<Longrightarrow> elems n h H' = elems n h H"
  by (auto simp: elems_def agree_el)

lemma agree_ordered:
  assumes "agree n h H H'" "ordered lt n h H" "h < n"
  shows "ordered lt n h H'"
proof (rule ordered_intro)
  fix i assume i: "i < n" "0 < i"
  note pn = less_trans [OF parent_less [OF i(2)] i(1)]
  show "\<not> lt (el H' ((i - 1) div 2)) (el H' i)" if "i \<noteq> h" "(i - 1) div 2 \<noteq> h"
    using ordered_edge [OF assms(2) i that] agree_el [OF assms(1) i(1) that(1)] agree_el [OF assms(1) pn that(2)] by simp
  show "\<not> lt (el H' ((h - 1) div 2)) (el H' i)" if "0 < h" "(i - 1) div 2 = h"
    using ordered_bridge [OF assms(2) i that] agree_el [OF assms(1) i(1)] parent_less [OF i(2)] that
      agree_el [OF assms(1), of "(h - 1) div 2"] parent_less [OF that(1)] assms(3) by simp
qed

lemma agree_above: "agree n h H H' \<Longrightarrow> above_children lt n h x H' = above_children lt n h x H"
  by (auto simp: above_children_def agree_el)

lemma agree_below: "agree n h H H' \<Longrightarrow> h < n \<Longrightarrow> below_parent lt h x H' = below_parent lt h x H"
  using agree_el [of n h H H' "(h - 1) div 2"] parent_less [of h] by (auto simp: below_parent_def)

section \<open>Making a hole\<close>

abbreviation vacated :: "nat \<Rightarrow> 'e iheap \<Rightarrow> 'e iheap" where
  "vacated i H \<equiv> H\<lparr>handle := (handle H)(el H i := None)\<rparr>"

lemma MakeHole_eq: "slots H ! i = Some x \<Longrightarrow> i < length (slots H) \<Longrightarrow> MakeHole i H = Inr (vacated i H)"
  by (simp add: MakeHole_def heap_size_def ClearHeapHandle_def slot_at_def GetHeapHandle_def Let_def el_def)

lemma vacated_agree:
  assumes "live n n H" "h < n" "\<And>i. i < n \<Longrightarrow> i \<noteq> h \<Longrightarrow> s ! i = slots H ! i" "n \<le> length s"
  shows "agree n h H (vacated h H\<lparr>slots := s\<rparr>)"
  using assms live_inj [OF assms(1)] by (auto simp: agree_def)

lemma live_remove: "live n n H \<Longrightarrow> live n h H"
  by (simp add: live_def)

lemma elems_remove: "live n n H \<Longrightarrow> h < n \<Longrightarrow> elems n h H = elems n n H - {el H h}"
  using live_inj [of n n H] by (auto simp: elems_def)

context strict_weak
begin

lemma heap_upto_hole:
  assumes "heap_upto lt n H" "h < n"
  shows "ordered lt n h H"
proof (rule ordered_intro)
  fix i assume i: "i < n" "0 < i"
  show "\<not> lt (el H ((i - 1) div 2)) (el H i)" by (rule heap_upto_edge [OF assms(1) i])
  show "\<not> lt (el H ((h - 1) div 2)) (el H i)" if "0 < h" "(i - 1) div 2 = h"
    using heap_upto_edge [OF assms(1) i] heap_upto_edge [OF assms(1,2) that(1)] that(2) not_lt_trans by blast
qed

end

lemma live_items:
  assumes "live n n H" "n = length (slots H)"
  shows "items H = elems n n H"
proof -
  have "slots H = map (\<lambda>i. Some (el H i)) [0..<n]"
    using assms by (intro nth_equalityI) (auto simp: live_def)
  then have "set (slots H) = (\<lambda>i. Some (el H i)) ` {..<n}" by (metis atLeast0LessThan list.set_map set_upt)
  then show ?thesis by (auto simp: items_def elems_def)
qed

text \<open>A hole at \<open>h\<close> of a complete heap, whatever its slot still holds.\<close>

lemma opened:
  assumes "strict_weak lt" "heap_ok lt H" "h < heap_size H" "length s = length (slots H)"
    "\<And>i. i < length (slots H) \<Longrightarrow> i \<noteq> h \<Longrightarrow> s ! i = slots H ! i"
  defines "H' \<equiv> (vacated h H)\<lparr>slots := s\<rparr>"
  shows "live (heap_size H) h H'" "ordered lt (heap_size H) h H'" "elems (heap_size H) h H' = items H - {el H h}"
    "agree (heap_size H) h H H'"
proof -
  have up: "heap_upto lt (heap_size H) H" and lv: "live (heap_size H) (heap_size H) H"
    using assms(2) by (simp_all add: heap_ok_def heap_upto_def)
  have ag: "agree (heap_size H) h H H'"
    using vacated_agree [OF lv assms(3), of s] assms(4,5) by (simp add: heap_size_def H'_def)
  show "live (heap_size H) h H'" by (rule agree_live [OF ag live_remove [OF lv]])
  show "ordered lt (heap_size H) h H'"
    by (rule agree_ordered [OF ag strict_weak.heap_upto_hole [OF assms(1) up assms(3)] assms(3)])
  show "elems (heap_size H) h H' = items H - {el H h}"
    using agree_elems [OF ag] elems_remove [OF lv assms(3)] live_items [OF lv] by (simp add: heap_size_def)
  show "agree (heap_size H) h H H'" by (rule ag)
qed

end
