(* ===== verification/HeapProps.thy ===== *)
theory HeapProps
  imports HeapOps
begin

text \<open>What each operation of the heap does to its elements and to their handles.\<close>

definition becomes :: "('e \<Rightarrow> 'e \<Rightarrow> bool) \<Rightarrow> 'e iheap \<Rightarrow> 'e set \<Rightarrow> 'e iheap \<Rightarrow> bool" where
  "becomes lt H S H' \<longleftrightarrow> heap_ok lt H' \<and> items H' = S \<and>
     (\<forall>y. y \<notin> S \<longrightarrow> handle H' y = (if y \<in> items H then None else handle H y))"

lemma heap_ok_live: "heap_ok lt H \<Longrightarrow> live (heap_size H) (heap_size H) H"
  by (simp add: heap_ok_def heap_upto_def)

lemma heap_ok_slot: "heap_ok lt H \<Longrightarrow> i < heap_size H \<Longrightarrow> slots H ! i = Some (el H i) \<and> handle H (el H i) = Some i"
  using live_slot [OF heap_ok_live] by fastforce

lemma heap_ok_items: "heap_ok lt H \<Longrightarrow> items H = elems (heap_size H) (heap_size H) H"
  using live_items [OF heap_ok_live] by (simp add: heap_size_def)

lemma heap_ok_item: "heap_ok lt H \<Longrightarrow> i < heap_size H \<Longrightarrow> el H i \<in> items H"
  using heap_ok_slot [of lt H i] by (auto simp: items_def heap_size_def in_set_conv_nth)

lemma put_result_becomes:
  assumes "put_result lt n h x H1 (i, H')" "n = length (slots H1)" "elems n h H1 = S"
    "\<And>y. y \<notin> insert x S \<Longrightarrow> handle H1 y = (if y \<in> items H then None else handle H y)"
  shows "becomes lt H (insert x S) H' \<and> heap_size H' = n \<and> i < heap_size H' \<and> slots H' ! i = Some x"
proof -
  have ok: "heap_ok lt H'" and n: "heap_size H' = n" and i: "i < n" "el H' i = x"
    using assms(1,2) by (auto simp: put_result_def heap_ok_def heap_size_def)
  have "items H' = insert x S"
    using assms(1,3) heap_ok_items [OF ok] by (simp add: n put_result_def)
  with ok assms show ?thesis
    using n i heap_ok_slot [OF ok, of i] by (auto simp: becomes_def put_result_def)
qed

lemma hole_result:
  assumes "put_result lt (heap_size H) pos x H1 (i, H')" "heap_ok lt0 H" "pos < heap_size H"
    "length (slots H1) = length (slots H)" "elems (heap_size H) pos H1 = items H - {el H pos}"
    "handle H1 = (handle H)(el H pos := None)"
  shows "becomes lt H (insert x (items H - {el H pos})) H' \<and>
    heap_size H' = heap_size H \<and> i < heap_size H' \<and> slots H' ! i = Some x"
proof -
  have "handle H1 y = (if y \<in> items H then None else handle H y)" if "y \<notin> insert x (items H - {el H pos})" for y
    using that heap_ok_item [OF assms(2,3)] assms(6) by (cases "y = el H pos") simp_all
  from put_result_becomes [OF assms(1) _ assms(5) this] assms(4) show ?thesis by (simp add: heap_size_def)
qed

section \<open>Insertion\<close>

abbreviation padded :: "'e iheap \<Rightarrow> 'e iheap" where
  "padded H \<equiv> H\<lparr>slots := slots H @ [None]\<rparr>"

lemma heap_size_padded: "heap_size (padded H) = Suc (heap_size H)"
  by (simp add: heap_size_def)

lemma slot_at_padded: "i < heap_size H \<Longrightarrow> slot_at (padded H) i = slot_at H i"
  by (simp add: slot_at_def heap_size_def nth_append)

lemma MoveHole_padded: "p < heap_size H \<Longrightarrow> MoveHole p (heap_size H) (padded H) = MoveHole p (heap_size H) H"
  by (simp add: MoveHole_def slot_at_padded) (simp add: heap_size_def put_slot_def)

lemma Less_slot_padded: "p < heap_size H \<Longrightarrow> Less_slot lt p x (padded H) = Less_slot lt p x H"
  by (simp add: Less_slot_def slot_at_padded) (simp add: heap_size_def)

lemma FillHole_padded: "FillHole (heap_size H) x (padded H) = FillHole (heap_size H) x H"
  by (simp add: FillHole_def heap_size_def put_slot_def)

text \<open>The slot past the end behaves like a hole that is already there.\<close>

lemma MoveHoleUpAndFill_padded:
  "MoveHoleUpAndFill lt (heap_size H) x H = MoveHoleUpAndFill lt (heap_size H) x (padded H)"
proof (cases "heap_size H = 0")
  case True
  then show ?thesis
    using FillHole_padded [of H x] by (simp add: MoveHoleUpAndFill_def hole_up.simps heap_size_def)
next
  case False
  define p where "p = (heap_size H - 1) div 2"
  have p: "p < heap_size H" using False parent_less [of "heap_size H"] by (simp add: p_def)
  show ?thesis
    using False p unfolding MoveHoleUpAndFill_def
    by (cases "Less_slot lt p x H"; subst (1 2) hole_up.simps)
      (auto simp: ParentIndex_def p_def [symmetric] Less_slot_padded MoveHole_padded FillHole_padded
        heap_size_padded simp del: One_nat_def)
qed

lemma padded_hole:
  assumes "heap_ok lt H"
  shows "live (Suc (heap_size H)) (heap_size H) (padded H)" "ordered lt (Suc (heap_size H)) (heap_size H) (padded H)"
    "elems (Suc (heap_size H)) (heap_size H) (padded H) = items H"
    "above_children lt (Suc (heap_size H)) (heap_size H) x (padded H)"
proof -
  have el: "el (padded H) i = el H i" if "i < heap_size H" for i
    using that by (simp add: el_def heap_size_def nth_append)
  show "live (Suc (heap_size H)) (heap_size H) (padded H)"
    using heap_ok_slot [OF assms] el by (auto simp: live_def heap_size_def nth_append)
  show "ordered lt (Suc (heap_size H)) (heap_size H) (padded H)"
  proof (rule ordered_intro)
    fix i assume i: "i < Suc (heap_size H)" "0 < i"
    show "\<not> lt (el (padded H) ((i - 1) div 2)) (el (padded H) i)" if "i \<noteq> heap_size H"
      using heap_upto_edge [of lt "heap_size H" H i] assms i that parent_less [OF i(2)] by (simp add: heap_ok_def el)
    show "\<not> lt (el (padded H) ((heap_size H - 1) div 2)) (el (padded H) i)" if "(i - 1) div 2 = heap_size H"
      using that i parent_less [OF i(2)] by simp
  qed
  show "elems (Suc (heap_size H)) (heap_size H) (padded H) = items H"
    using heap_ok_items [OF assms] by (simp add: elems_def lessThan_Suc el cong: image_cong_simp)
  show "above_children lt (Suc (heap_size H)) (heap_size H) x (padded H)"
    using parent_less by (fastforce simp: above_children_def)
qed

context strict_weak
begin

lemma insert_becomes:
  assumes ok: "heap_ok lt H" and x: "x \<notin> items H"
  shows "\<exists>i H'. ih_insert lt x H = Inr (i, H') \<and> becomes lt H (insert x (items H)) H' \<and>
    heap_size H' = Suc (heap_size H) \<and> i < heap_size H' \<and> slots H' ! i = Some x"
proof -
  obtain i H' where "MoveHoleUpAndFill lt (heap_size H) x (padded H) = Inr (i, H')"
      and res: "put_result lt (Suc (heap_size H)) (heap_size H) x (padded H) (i, H')"
    using MoveHoleUpAndFill_ok [OF padded_hole(1) [OF ok] lessI padded_hole(2) [OF ok] _ padded_hole(4) [OF ok]]
      padded_hole(3) [OF ok] x by fastforce
  then have "ih_insert lt x H = Inr (i, H')"
    by (simp add: ih_insert_def MoveHoleUpAndFill_padded)
  with put_result_becomes [OF res _ padded_hole(3) [OF ok], of H] show ?thesis
    by (simp add: heap_size_def)
qed

section \<open>Replacement\<close>

lemma Replace_becomes:
  assumes ok: "heap_ok lt H" and pos: "pos < heap_size H" and x: "x \<notin> items H"
  shows "\<exists>i H'. ih_Replace lt pos x H = Inr (i, H') \<and> becomes lt H (insert x (items H - {el H pos})) H' \<and>
    heap_size H' = heap_size H \<and> i < heap_size H' \<and> slots H' ! i = Some x"
proof -
  let ?n = "heap_size H" and ?H = "vacated pos H"
  note slot = heap_ok_slot [OF ok pos]
  have sw: "strict_weak lt" by unfold_locales
  note hole = opened [OF sw ok pos, of "slots H", simplified]
  have x': "x \<notin> elems ?n pos ?H" using x by (simp add: hole(3))
  have edge: "\<not> lt (el H ((i - 1) div 2)) (el H i)" if "i < ?n" "0 < i" for i
    by (rule heap_upto_edge [OF ok [unfolded heap_ok_def] that])
  have up: "above_children lt ?n pos x ?H" if "\<not> lt x (el H pos)"
    unfolding above_children_def el_handle_update using not_lt_trans [OF that] edge by metis
  have down: "below_parent lt pos x ?H" if "lt x (el H pos)"
    using not_lt_trans [OF edge [OF pos] asym [OF that]] by (simp add: below_parent_def)
  have start: "ih_Replace lt pos x H =
      (if \<not> lt x (el H pos) then MoveHoleUpAndFill lt pos x ?H else MoveHoleDownAndFill lt False pos x ?H)"
    using slot pos by (simp add: ih_Replace_def MakeHole_eq heap_size_def Less_elem_def slot_at_def)
  have inv: "GetHeapHandle pos ?H = Inr None" using slot pos by (simp add: GetHeapHandle_def heap_size_def)
  have n: "?n = heap_size ?H - (if False then 1 else 0)" by (simp add: heap_size_def)
  have "\<exists>R. ih_Replace lt pos x H = Inr R \<and> put_result lt ?n pos x ?H R"
  proof (cases "lt x (el H pos)")
    case True
    with down have "\<not> False \<longrightarrow> below_parent lt pos x ?H" by blast
    from MoveHoleDownAndFill_ok [OF hole(1) pos hole(2) x' n inv this] True show ?thesis by (simp only: start) simp
  next
    case False
    with MoveHoleUpAndFill_ok [OF hole(1) pos hole(2) x' up] show ?thesis by (simp only: start) simp
  qed
  then obtain i H' where "ih_Replace lt pos x H = Inr (i, H')" "put_result lt ?n pos x ?H (i, H')" by fast
  with hole_result [OF this(2) ok pos] hole(3) show ?thesis by simp
qed

lemma ReplaceTop_becomes:
  assumes ok: "heap_ok lt H" and pos: "0 < heap_size H" and x: "x \<notin> items H"
  shows "\<exists>i H'. ih_ReplaceTop lt x H = Inr (i, H') \<and> becomes lt H (insert x (items H - {el H 0})) H' \<and>
    heap_size H' = heap_size H \<and> i < heap_size H' \<and> slots H' ! i = Some x"
proof -
  let ?n = "heap_size H" and ?H = "vacated 0 H"
  note slot = heap_ok_slot [OF ok pos]
  have sw: "strict_weak lt" by unfold_locales
  note hole = opened [OF sw ok pos, of "slots H", simplified]
  have x': "x \<notin> elems ?n 0 ?H" using x by (simp add: hole(3))
  have start: "ih_ReplaceTop lt x H = MoveHoleDownAndFill lt False 0 x ?H"
    using slot pos by (simp add: ih_ReplaceTop_def MakeHole_eq heap_size_def)
  have inv: "GetHeapHandle 0 ?H = Inr None" using slot pos by (simp add: GetHeapHandle_def heap_size_def)
  have n: "?n = heap_size ?H - (if False then 1 else 0)" by (simp add: heap_size_def)
  have "\<not> False \<longrightarrow> below_parent lt 0 x ?H" by (simp add: below_parent_def)
  from MoveHoleDownAndFill_ok [OF hole(1) pos hole(2) x' n inv this]
  obtain i H' where "ih_ReplaceTop lt x H = Inr (i, H')" "put_result lt ?n 0 x ?H (i, H')" by (fastforce simp: start)
  with hole_result [OF this(2) ok pos] hole(3) show ?thesis by simp
qed

lemma ordered_cong:
  assumes "ordered lt0 n h H" "h < n" "\<And>a b. a \<in> elems n h H \<Longrightarrow> b \<in> elems n h H \<Longrightarrow> lt a b = lt0 a b"
  shows "ordered lt n h H"
proof (rule ordered_intro)
  have mem: "el H i \<in> elems n h H" if "i < n" "i \<noteq> h" for i using that by (simp add: elems_def)
  fix i assume i: "i < n" "0 < i"
  note pi = parent_less [OF i(2)]
  show "\<not> lt (el H ((i - 1) div 2)) (el H i)" if "i \<noteq> h" "(i - 1) div 2 \<noteq> h"
    using ordered_edge [OF assms(1) i that] assms(3) [OF mem [OF less_trans [OF pi i(1)] that(2)] mem [OF i(1) that(1)]] by simp
  show "\<not> lt (el H ((h - 1) div 2)) (el H i)" if "0 < h" "(i - 1) div 2 = h"
    using ordered_bridge [OF assms(1) i that] assms(3) [OF mem [of "(h - 1) div 2"] mem [of i]]
      assms(2) i that parent_less [OF that(1)] pi by simp
qed

text \<open>The key of the element at \<open>pos\<close> changed: the comparison is new there and as before elsewhere.\<close>

lemma Update_becomes:
  assumes sw0: "strict_weak lt0" and ok: "heap_ok lt0 H" and pos: "pos < heap_size H"
    and eq: "\<And>a b. a \<in> items H - {el H pos} \<Longrightarrow> b \<in> items H - {el H pos} \<Longrightarrow> lt a b = lt0 a b"
  shows "\<exists>i H'. ih_Update lt pos H = Inr (i, H') \<and> becomes lt H (items H) H' \<and>
    heap_size H' = heap_size H \<and> i < heap_size H' \<and> slots H' ! i = Some (el H pos)"
proof -
  let ?n = "heap_size H" and ?H = "(vacated pos H)\<lparr>slots := (slots H)[pos := None]\<rparr>" and ?x = "el H pos"
  note slot = heap_ok_slot [OF ok pos]
  note hole = opened [OF sw0 ok pos, of "(slots H)[pos := None]", simplified]
  have x': "?x \<notin> elems ?n pos ?H" by (simp add: hole(3))
  have od: "ordered lt ?n pos ?H" using eq by (intro ordered_cong [OF hole(2) pos]) (simp_all add: hole(3))
  define up where "up \<longleftrightarrow> 0 < pos \<and> \<not> lt ?x (el H ((pos - 1) div 2))"
  have par: "slots H ! ((pos - 1) div 2) = Some (el H ((pos - 1) div 2))" "(pos - 1) div 2 < ?n"
      "el ?H ((pos - 1) div 2) = el H ((pos - 1) div 2)" if "0 < pos"
    using heap_ok_slot [OF ok, of "(pos - 1) div 2"] pos parent_less [OF that] by (auto simp: el_def)
  have start: "ih_Update lt pos H =
      (if up then MoveHoleUpAndFill lt pos ?x ?H else MoveHoleDownAndFill lt False pos ?x ?H)"
    using slot pos par
    by (cases "pos = 0") (simp_all add: ih_Update_def MakeHole_eq heap_size_def ParentIndex_def Less_idx_def
        slot_at_def move_out_def up_def)
  have inv: "GetHeapHandle pos ?H = Inr None" using slot pos by (simp add: GetHeapHandle_def heap_size_def)
  have n: "?n = heap_size ?H - (if False then 1 else 0)" by (simp add: heap_size_def)
  have "\<exists>R. ih_Update lt pos H = Inr R \<and> put_result lt ?n pos ?x ?H R"
  proof (cases up)
    case True
    have "above_children lt ?n pos ?x ?H"
      unfolding above_children_def
    proof (intro allI impI)
      fix i assume "i < ?n" "0 < i" "(i - 1) div 2 = pos"
      from ordered_bridge [OF od this(1,2) _ this(3)] True par(3) not_lt_trans [of ?x "el H ((pos - 1) div 2)"]
      show "\<not> lt ?x (el ?H i)" by (simp add: up_def)
    qed
    from MoveHoleUpAndFill_ok [OF hole(1) pos od x' this] True show ?thesis by (simp only: start) simp
  next
    case False
    then have "\<not> False \<longrightarrow> below_parent lt pos ?x ?H" using asym par(3) by (auto simp: up_def below_parent_def)
    from MoveHoleDownAndFill_ok [OF hole(1) pos od x' n inv this] False show ?thesis by (simp only: start) simp
  qed
  then obtain i H' where "ih_Update lt pos H = Inr (i, H')" "put_result lt ?n pos ?x ?H (i, H')" by fast
  with hole_result [OF this(2) ok pos] hole(3) heap_ok_item [OF ok pos] show ?thesis by (simp add: insert_absorb)
qed

end

section \<open>Removal\<close>

lemma live_shrink: "live n h H \<Longrightarrow> m \<le> n \<Longrightarrow> live m h H"
  by (auto simp: live_def)

lemma live_drop_last: "live (Suc m) m H \<Longrightarrow> live m m H"
  by (auto simp: live_def)

lemma ordered_shrink: "ordered lt n h H \<Longrightarrow> m \<le> n \<Longrightarrow> ordered lt m h H"
  by (auto simp: ordered_def)

lemma pop_slot_becomes:
  assumes "heap_upto lt m H" "length (slots H) = Suc m"
  shows "heap_ok lt (pop_slot H)" "heap_size (pop_slot H) = m" "items (pop_slot H) = elems m m H"
proof -
  let ?P = "pop_slot H"
  have size: "heap_size ?P = m" using assms(2) by (simp add: pop_slot_def heap_size_def)
  have lv: "live m m H" and od: "ordered lt m m H" using assms(1) by (simp_all add: heap_upto_def)
  have ag: "agree m m H ?P"
    using assms(2) by (auto simp: agree_def pop_slot_def nth_butlast)
  have "heap_upto lt m ?P"
  proof (rule heap_upto_intro [OF agree_live [OF ag lv]])
    fix i assume i: "i < m" "0 < i"
    with heap_upto_edge [OF assms(1) i] parent_less [OF i(2)] show "\<not> lt (el ?P ((i - 1) div 2)) (el ?P i)"
      by (simp add: agree_el [OF ag])
  qed
  then show ok: "heap_ok lt ?P" by (simp add: heap_ok_def size)
  show "heap_size ?P = m" by (rule size)
  show "items ?P = elems m m H" using heap_ok_items [OF ok] agree_elems [OF ag] by (simp add: size)
qed

text \<open>The last element goes into the hole and its own slot is ready to be dropped.\<close>

definition repaired :: "('e \<Rightarrow> 'e \<Rightarrow> bool) \<Rightarrow> nat \<Rightarrow> nat \<Rightarrow> 'e iheap \<Rightarrow> 'e iheap \<Rightarrow> bool" where
  "repaired lt m pos H H' \<longleftrightarrow> heap_upto lt m H' \<and> length (slots H') = Suc m \<and> elems m m H' = elems (Suc m) pos H \<and>
     (\<forall>y. y \<notin> elems (Suc m) pos H \<longrightarrow> handle H' y = handle H y)"

lemma fill_with_last_end:
  assumes "live (Suc m) m H" "ordered lt (Suc m) m H" "heap_size H = Suc m"
  shows "fill_with_last lt m H = Inr H \<and> repaired lt m m H H"
proof -
  have "elems (Suc m) m H = elems m m H" by (simp add: elems_def lessThan_Suc)
  with live_drop_last [OF assms(1)] ordered_shrink [OF assms(2), of m] assms(3) show ?thesis
    by (simp add: fill_with_last_def GetLastIndex_def repaired_def heap_upto_def heap_size_def)
qed

text \<open>The last element lifted out.\<close>

abbreviation lifted :: "nat \<Rightarrow> 'e iheap \<Rightarrow> 'e iheap" where
  "lifted m H \<equiv> (vacated m H)\<lparr>slots := (slots H)[m := None]\<rparr>"

lemma lifted_hole:
  assumes lv: "live (Suc m) pos H" and pos: "pos < m" and od: "ordered lt (Suc m) pos H"
  shows "live m pos (lifted m H)" "ordered lt m pos (lifted m H)" "el H m \<notin> elems m pos (lifted m H)"
    "insert (el H m) (elems m pos (lifted m H)) = elems (Suc m) pos H"
proof -
  have ne: "el H i \<noteq> el H m" if "i < m" "i \<noteq> pos" for i
    using live_inj [OF lv, of i m] that pos by auto
  have ag: "agree m pos H (lifted m H)"
    using live_length [OF lv] ne by (auto simp: agree_def)
  show "live m pos (lifted m H)" by (rule agree_live [OF ag live_shrink [OF lv]]) simp
  show "ordered lt m pos (lifted m H)" by (rule agree_ordered [OF ag ordered_shrink [OF od] pos]) simp
  show "el H m \<notin> elems m pos (lifted m H)" unfolding agree_elems [OF ag] unfolding elems_def using ne by force
  show "insert (el H m) (elems m pos (lifted m H)) = elems (Suc m) pos H"
    unfolding agree_elems [OF ag] using pos by (auto simp: elems_def lessThan_Suc)
qed

context strict_weak
begin

lemma fill_with_last_ok:
  assumes lv: "live (Suc m) pos H" and pos: "pos < m" and od: "ordered lt (Suc m) pos H"
    and size: "heap_size H = Suc m" and inv: "GetHeapHandle pos H = Inr None"
  shows "\<exists>H'. fill_with_last lt pos H = Inr H' \<and> repaired lt m pos H H'"
proof -
  note hole = lifted_hole [OF lv pos od]
  have last: "slots H ! m = Some (el H m)" using live_slot [OF lv, of m] pos by simp
  have inv': "GetHeapHandle pos (lifted m H) = Inr None"
    using inv pos size by (auto simp: GetHeapHandle_def heap_size_def split: option.splits)
  have n: "m = heap_size (lifted m H) - (if True then 1 else 0)" using size by (simp add: heap_size_def)
  have "\<not> True \<longrightarrow> below_parent lt pos (el H m) (lifted m H)" by simp
  from MoveHoleDownAndFill_ok [OF hole(1) pos hole(2,3) n inv' this]
  obtain i H' where R: "MoveHoleDownAndFill lt True pos (el H m) (lifted m H) = Inr (i, H')"
    "put_result lt m pos (el H m) (lifted m H) (i, H')" by fast
  have "MakeHole m H = Inr (vacated m H)" using last size by (intro MakeHole_eq) (simp_all add: heap_size_def)
  then have "fill_with_last lt pos H = Inr H'"
    using last size pos R(1)
    by (simp add: fill_with_last_def GetLastIndex_def heap_size_def move_out_def slot_at_def)
  moreover have "repaired lt m pos H H'"
    using R(2) size hole(4) by (auto simp: repaired_def put_result_def heap_size_def)
  ultimately show ?thesis by blast
qed

lemma removal:
  assumes ok: "heap_ok lt H" and pos: "pos < heap_size H" and s: "length s = length (slots H)"
    "\<And>i. i < length (slots H) \<Longrightarrow> i \<noteq> pos \<Longrightarrow> s ! i = slots H ! i" "s ! pos = slots H ! pos \<or> s ! pos = None"
  shows "\<exists>H'. fill_with_last lt pos ((vacated pos H)\<lparr>slots := s\<rparr>) = Inr H' \<and>
    becomes lt H (items H - {el H pos}) (pop_slot H') \<and> heap_size (pop_slot H') = heap_size H - 1"
proof -
  let ?H = "(vacated pos H)\<lparr>slots := s\<rparr>"
  have sw: "strict_weak lt" by unfold_locales
  obtain m where m: "heap_size H = Suc m" using pos not0_implies_Suc by fastforce
  note hole = opened [OF sw ok pos s(1,2), unfolded m]
  have inv: "GetHeapHandle pos ?H = Inr None"
    using s(1,3) pos heap_ok_slot [OF ok pos] by (auto simp: GetHeapHandle_def heap_size_def)
  have size: "heap_size ?H = Suc m" using s(1) m by (simp add: heap_size_def)
  have "\<exists>H'. fill_with_last lt pos ?H = Inr H' \<and> repaired lt m pos ?H H'"
  proof (cases "pos = m")
    case True
    with fill_with_last_end [of m ?H] hole size show ?thesis by (simp only:) blast
  next
    case False
    then have "pos < m" using pos m by simp
    from fill_with_last_ok [OF hole(1) this hole(2) size inv] show ?thesis .
  qed
  then obtain H' where H': "fill_with_last lt pos ?H = Inr H'" "repaired lt m pos ?H H'" by blast
  then have up: "heap_upto lt m H'" "length (slots H') = Suc m" "elems m m H' = items H - {el H pos}"
    and rest: "\<And>y. y \<notin> items H - {el H pos} \<Longrightarrow> handle H' y = handle ?H y"
    by (simp_all add: repaired_def hole(3))
  have "handle (pop_slot H') y = (if y \<in> items H then None else handle H y)" if "y \<notin> items H - {el H pos}" for y
    using rest [OF that] that heap_ok_item [OF ok pos] by (cases "y = el H pos") (simp_all add: pop_slot_def)
  with pop_slot_becomes [OF up(1,2)] up(3) H'(1) m show ?thesis by (simp add: becomes_def)
qed

lemma erase_becomes:
  assumes "heap_ok lt H" "pos < heap_size H"
  shows "\<exists>H'. ih_erase lt pos H = Inr H' \<and> becomes lt H (items H - {el H pos}) H' \<and> heap_size H' = heap_size H - 1"
  using removal [OF assms, of "slots H"] heap_ok_slot [OF assms] assms(2)
  by (auto simp: ih_erase_def MakeHole_eq heap_size_def)

lemma take_becomes:
  assumes "heap_ok lt H" "pos < heap_size H"
  shows "\<exists>H'. ih_take lt pos H = Inr (el H pos, H') \<and> becomes lt H (items H - {el H pos}) H' \<and>
    heap_size H' = heap_size H - 1"
  using removal [OF assms, of "(slots H)[pos := None]"] heap_ok_slot [OF assms] assms(2)
  by (auto simp: ih_take_def MakeHole_eq heap_size_def move_out_def slot_at_def)

end

end
