(* ===== verification/HeapSort.thy ===== *)
theory HeapSort
  imports HeapProps
begin

text \<open>
  The intrusive heap as a priority queue: the contract a client relies on, its proof for the heap, and the
  properties of the heap's operations for every comparison that is a strict weak order.
\<close>

section \<open>Priority queues\<close>

text \<open>Taking the top \<open>n\<close> times.\<close>

fun drain :: "('q \<Rightarrow> ('e \<times> 'q) res) \<Rightarrow> nat \<Rightarrow> 'q \<Rightarrow> ('e list \<times> 'q) res" where
  "drain get 0 q = Inr ([], q)"
| "drain get (Suc n) q = rbind (get q) (\<lambda>(x, q). rbind (drain get n q) (\<lambda>(xs, q). Inr (x # xs, q)))"

locale priority_queue =
  fixes lt :: "'e \<Rightarrow> 'e \<Rightarrow> bool"
    and ok :: "'q \<Rightarrow> bool"
    and contents :: "'q \<Rightarrow> 'e set"
    and put :: "'e \<Rightarrow> 'q \<Rightarrow> (nat \<times> 'q) res"
    and get :: "'q \<Rightarrow> ('e \<times> 'q) res"
  assumes finite_contents: "ok q \<Longrightarrow> finite (contents q)"
    and put_law: "ok q \<Longrightarrow> x \<notin> contents q \<Longrightarrow>
      \<exists>i q'. put x q = Inr (i, q') \<and> ok q' \<and> contents q' = insert x (contents q)"
    and get_law: "ok q \<Longrightarrow> contents q \<noteq> {} \<Longrightarrow>
      \<exists>x q'. get q = Inr (x, q') \<and> ok q' \<and> x \<in> contents q \<and> contents q' = contents q - {x} \<and>
        (\<forall>y \<in> contents q. \<not> lt x y)"
begin

lemma drain_sorted:
  assumes "ok q" "card (contents q) = n"
  shows "\<exists>xs q'. drain get n q = Inr (xs, q') \<and> ok q' \<and> contents q' = {} \<and> distinct xs \<and> set xs = contents q \<and>
    sorted_wrt (\<lambda>a b. \<not> lt a b) xs"
  using assms
proof (induction n arbitrary: q)
  case 0
  then show ?case using finite_contents by simp
next
  case (Suc n)
  then have "contents q \<noteq> {}" by auto
  with get_law [OF Suc.prems(1)] obtain x q1 where
    q1: "get q = Inr (x, q1)" "ok q1" "x \<in> contents q" "contents q1 = contents q - {x}" "\<forall>y \<in> contents q. \<not> lt x y"
    by blast
  from q1(3,4) Suc.prems(2) finite_contents [OF Suc.prems(1)] have "card (contents q1) = n" by simp
  with Suc.IH [OF q1(2)] obtain xs q' where
    "drain get n q1 = Inr (xs, q')" "ok q'" "contents q' = {}" "distinct xs" "set xs = contents q1"
    "sorted_wrt (\<lambda>a b. \<not> lt a b) xs"
    by blast
  with q1 show ?case by auto
qed

end

section \<open>The heap is a priority queue\<close>

lemma finite_items [simp]: "finite (items H)"
proof -
  have "items H \<subseteq> the ` set (slots H)" by (force simp: items_def)
  then show ?thesis by (rule finite_subset) simp
qed

lemma card_items:
  assumes "heap_ok lt H"
  shows "card (items H) = heap_size H"
proof -
  have "inj_on (el H) {..<heap_size H}"
    using live_inj [OF heap_ok_live [OF assms]] by (auto intro!: inj_onI)
  then show ?thesis using heap_ok_items [OF assms] by (simp add: elems_def card_image)
qed

context strict_weak
begin

lemma top_not_below:
  assumes "heap_ok lt H" "i < heap_size H"
  shows "\<not> lt (el H 0) (el H i)"
  using assms(2)
proof (induction i rule: less_induct)
  case (less i)
  show ?case
  proof (cases "i = 0")
    case False
    then have "(i - 1) div 2 < i" using parent_less by blast
    with less have "\<not> lt (el H 0) (el H ((i - 1) div 2))" by simp
    with not_lt_trans heap_upto_edge [OF assms(1) [unfolded heap_ok_def] less.prems] False show ?thesis by blast
  qed (simp add: irrefl)
qed

lemma top_max:
  assumes "heap_ok lt H" "y \<in> items H"
  shows "\<not> lt (el H 0) y"
  using assms(2) top_not_below [OF assms(1)] unfolding heap_ok_items [OF assms(1)] by (auto simp: elems_def)

lemma take_top_law:
  assumes "heap_ok lt H" "items H \<noteq> {}"
  shows "\<exists>x H'. ih_take_top lt H = Inr (x, H') \<and> heap_ok lt H' \<and> x \<in> items H \<and> items H' = items H - {x} \<and>
    (\<forall>y \<in> items H. \<not> lt x y)"
proof -
  have pos: "0 < heap_size H" using assms card_items [OF assms(1)] by (metis card_gt_0_iff finite_items)
  from take_becomes [OF assms(1) this] top_max [OF assms(1)] heap_ok_item [OF assms(1) pos] show ?thesis
    by (auto simp: ih_take_top_def becomes_def)
qed

end

sublocale strict_weak \<subseteq> pq: priority_queue lt "heap_ok lt" items "ih_insert lt" "ih_take_top lt"
proof
  show "\<exists>i H'. ih_insert lt x H = Inr (i, H') \<and> heap_ok lt H' \<and> items H' = insert x (items H)"
    if "heap_ok lt H" "x \<notin> items H" for H x
    using insert_becomes [OF that] by (auto simp: becomes_def)
qed (use take_top_law in auto)

context strict_weak
begin

lemma heap_drains:
  assumes "heap_ok lt H"
  shows "\<exists>xs H'. drain (ih_take_top lt) (heap_size H) H = Inr (xs, H') \<and> heap_ok lt H' \<and> items H' = {} \<and>
    distinct xs \<and> set xs = items H \<and> sorted_wrt (\<lambda>a b. \<not> lt a b) xs"
  using pq.drain_sorted [OF assms card_items [OF assms]] .

end

lemma insert_all_becomes:
  assumes "strict_weak lt" "heap_ok lt H" "distinct xs" "set xs \<inter> items H = {}"
  shows "\<exists>H'. ih_insert_all lt xs H = Inr H' \<and> heap_ok lt H' \<and> items H' = items H \<union> set xs"
  using assms(2-4)
proof (induction xs arbitrary: H)
  case (Cons x xs)
  from strict_weak.insert_becomes [OF assms(1) Cons.prems(1), of x] Cons.prems(3)
  obtain i H1 where "ih_insert lt x H = Inr (i, H1)" "heap_ok lt H1" "items H1 = insert x (items H)"
    by (auto simp: becomes_def)
  with Cons.IH [of H1] Cons.prems show ?case by auto
qed simp

lemma ih_new_ok: "heap_ok lt (ih_new h)" "items (ih_new h) = {}"
  by (simp_all add: heap_ok_def heap_upto_def live_def ordered_def ih_new_def heap_size_def items_def)

lemma clear_handles_ok:
  assumes "\<And>j. j < heap_size H \<Longrightarrow> slots H ! j = Some (el H j)" "i + n = heap_size H"
  shows "\<exists>H'. clear_handles i n H = Inr H' \<and> slots H' = slots H \<and>
    (\<forall>y. handle H' y = (if y \<in> el H ` {i..<heap_size H} then None else handle H y))"
  using assms
proof (induction n arbitrary: i H)
  case (Suc n)
  let ?H = "vacated i H"
  have "ClearHeapHandle i H = Inr ?H"
    using Suc.prems(1) [of i] Suc.prems(2)
    by (simp add: ClearHeapHandle_def slot_at_def GetHeapHandle_def heap_size_def Let_def)
  moreover have "{i..<heap_size H} = insert i {Suc i..<heap_size H}" using Suc.prems(2) by auto
  moreover have "heap_size ?H = heap_size H" by (simp add: heap_size_def)
  ultimately show ?case using Suc.IH [of ?H "Suc i"] Suc.prems by auto
qed simp

section \<open>Properties\<close>

text \<open>
  Insertion into a heap in order never stops at a check; it adds exactly the new element, returns the place
  where it lies, leaves the heap in order with every handle at its element's place, and touches the handle of
  no element outside the heap.
\<close>

theorem heap_insert:
  assumes "strict_weak lt" "heap_ok lt H" "x \<notin> items H"
  shows "\<exists>i H'. ih_insert lt x H = Inr (i, H') \<and> becomes lt H (insert x (items H)) H' \<and>
    heap_size H' = Suc (heap_size H) \<and> slots H' ! i = Some x \<and> handle H' x = Some i"
proof -
  obtain i H' where H': "ih_insert lt x H = Inr (i, H')" "becomes lt H (insert x (items H)) H'"
      "heap_size H' = Suc (heap_size H)" "i < heap_size H'" "slots H' ! i = Some x"
    using strict_weak.insert_becomes [OF assms] by blast
  have "heap_ok lt H'" using H'(2) by (simp add: becomes_def)
  from heap_ok_slot [OF this H'(4)] H' show ?thesis by simp
qed

definition small_heap :: "nat iheap" where
  "small_heap = \<lparr>slots = [Some 9, Some 4, Some 7, Some 2],
     handle = (\<lambda>_. None)(9 := Some 0, 4 := Some 1, 7 := Some 2, 2 := Some 3)\<rparr>"

lemma small_heap_ok: "heap_ok (key_less id) small_heap" "items small_heap = {9, 4, 7, 2}" "heap_size small_heap = 4"
proof -
  show "heap_ok (key_less id) small_heap" by code_simp
qed (auto simp: items_def heap_size_def small_heap_def)

theorem heap_insert_witness:
  "\<exists>i H'. ih_insert (key_less id) 8 small_heap = Inr (i, H') \<and>
    becomes (key_less id) small_heap {8, 9, 4, 7, 2} H' \<and> slots H' ! i = Some 8 \<and> handle H' 8 = Some i"
  using heap_insert [OF by_key.strict_weak_axioms small_heap_ok(1), of 8] by (auto simp: small_heap_ok)

text \<open>
  C13. Removal by position, with and without the value: the element of that position and only it leaves the
  heap, its handle becomes invalid, and the heap stays in order with right handles.
\<close>

theorem heap_remove:
  assumes "strict_weak lt" "heap_ok lt H" "pos < heap_size H"
  shows "\<exists>x H1 H2. slots H ! pos = Some x \<and> ih_take lt pos H = Inr (x, H1) \<and> ih_erase lt pos H = Inr H2 \<and>
    becomes lt H (items H - {x}) H1 \<and> becomes lt H (items H - {x}) H2 \<and>
    heap_size H1 = heap_size H - 1 \<and> heap_size H2 = heap_size H - 1"
  using strict_weak.take_becomes [OF assms] strict_weak.erase_becomes [OF assms] heap_ok_slot [OF assms(2,3)] by auto

theorem heap_remove_witness:
  "\<exists>H1 H2. ih_take (key_less id) 1 small_heap = Inr (4, H1) \<and> ih_erase (key_less id) 1 small_heap = Inr H2 \<and>
    becomes (key_less id) small_heap {9, 7, 2} H1 \<and> becomes (key_less id) small_heap {9, 7, 2} H2"
proof -
  have "slots small_heap ! 1 = Some 4" "{9, 4, 7, 2} - {4 :: nat} = {9, 7, 2}" by (auto simp: small_heap_def)
  with heap_remove [OF by_key.strict_weak_axioms small_heap_ok(1), of 1] show ?thesis
    by (auto simp: small_heap_ok)
qed

text \<open>
  Replacement, at a position and at the top: the old element of the position leaves with an invalid handle,
  the new one comes in at the place that is returned, and the heap stays in order.
\<close>

theorem heap_replace:
  assumes "strict_weak lt" "heap_ok lt H" "pos < heap_size H" "x \<notin> items H"
  shows "(\<exists>old i H1. slots H ! pos = Some old \<and> ih_Replace lt pos x H = Inr (i, H1) \<and>
      becomes lt H (insert x (items H - {old})) H1 \<and> slots H1 ! i = Some x) \<and>
    (\<exists>old i H1. heap_top H = Inr old \<and> ih_ReplaceTop lt x H = Inr (i, H1) \<and>
      becomes lt H (insert x (items H - {old})) H1 \<and> slots H1 ! i = Some x)"
proof
  show "\<exists>old i H1. slots H ! pos = Some old \<and> ih_Replace lt pos x H = Inr (i, H1) \<and>
      becomes lt H (insert x (items H - {old})) H1 \<and> slots H1 ! i = Some x"
    using strict_weak.Replace_becomes [OF assms] heap_ok_slot [OF assms(2,3)] by auto
  have "0 < heap_size H" using assms(3) by simp
  from strict_weak.ReplaceTop_becomes [OF assms(1,2) this assms(4)] heap_ok_slot [OF assms(2) this] this
  show "\<exists>old i H1. heap_top H = Inr old \<and> ih_ReplaceTop lt x H = Inr (i, H1) \<and>
      becomes lt H (insert x (items H - {old})) H1 \<and> slots H1 ! i = Some x"
    by (auto simp: heap_top_def slot_at_def heap_size_def)
qed

text \<open>
  After the key of one element has changed, so that the comparison differs from the one the heap was built
  with on that element only, Update puts the heap in order again with the same elements, and returns the new
  place of the changed one.
\<close>

theorem heap_update:
  assumes "strict_weak old_lt" "strict_weak lt" "heap_ok old_lt H" "slots H ! pos = Some x" "pos < heap_size H"
    "\<forall>a \<in> items H - {x}. \<forall>b \<in> items H - {x}. lt a b = old_lt a b"
  shows "\<exists>i H'. ih_Update lt pos H = Inr (i, H') \<and> becomes lt H (items H) H' \<and> heap_size H' = heap_size H \<and>
    slots H' ! i = Some x"
proof -
  have "el H pos = x" using assms(4) by (simp add: el_def)
  with strict_weak.Update_becomes [OF assms(2,1,3,5)] assms(6) show ?thesis by blast
qed

theorem heap_update_witness:
  "\<exists>i H'. ih_Update (key_less (id(2 := 8))) 3 small_heap = Inr (i, H') \<and>
    becomes (key_less (id(2 := 8))) small_heap {9, 4, 7, 2} H' \<and> slots H' ! i = Some 2"
proof -
  have "slots small_heap ! 3 = Some 2" "3 < heap_size small_heap" by (simp_all add: small_heap_def heap_size_def)
  moreover have "\<forall>a \<in> items small_heap - {2}. \<forall>b \<in> items small_heap - {2}.
      key_less (id(2 := 8)) a b = key_less id a b"
    by (simp add: small_heap_ok key_less_def)
  ultimately show ?thesis
    using heap_update [OF by_key.strict_weak_axioms by_key.strict_weak_axioms small_heap_ok(1), of 3 2 "id(2 := 8)"]
    by (auto simp: small_heap_ok)
qed

text \<open>
  C12. Inserting distinct elements into an empty heap and taking the top until it is empty never stops at a check
  and gives exactly those elements, none of them below a later one.
\<close>

theorem heap_sorts:
  assumes "strict_weak lt" "distinct xs"
  shows "\<exists>H ys H'. ih_insert_all lt xs (ih_new h) = Inr H \<and> drain (ih_take_top lt) (length xs) H = Inr (ys, H') \<and>
    distinct ys \<and> set ys = set xs \<and> sorted_wrt (\<lambda>a b. \<not> lt a b) ys \<and> heap_empty H'"
proof -
  obtain H where H: "ih_insert_all lt xs (ih_new h) = Inr H" "heap_ok lt H" "items H = set xs"
    using insert_all_becomes [OF assms(1) ih_new_ok(1) assms(2)] by (auto simp: ih_new_ok)
  have size: "heap_size H = length xs" using card_items [OF H(2)] H(3) distinct_card [OF assms(2)] by simp
  obtain ys H' where ys: "drain (ih_take_top lt) (length xs) H = Inr (ys, H')" "heap_ok lt H'" "items H' = {}"
      "distinct ys" "set ys = set xs" "sorted_wrt (\<lambda>a b. \<not> lt a b) ys"
    using strict_weak.heap_drains [OF assms(1) H(2)] H(3) size by auto
  have "heap_empty H'" using card_items [OF ys(2)] ys(3) by (simp add: heap_size_def heap_empty_def)
  with H(1) ys show ?thesis by blast
qed

theorem heap_sorts_witness:
  "\<exists>H ys H'. ih_insert_all (key_less id) [3, 1, 4, 5, 9, 2, 6 :: nat] (ih_new (\<lambda>_. None)) = Inr H \<and>
    drain (ih_take_top (key_less id)) 7 H = Inr (ys, H') \<and> set ys = {3, 1, 4, 5, 9, 2, 6} \<and>
    sorted_wrt (\<lambda>a b. \<not> key_less id a b) ys \<and> heap_empty H'"
proof -
  have "distinct [3, 1, 4, 5, 9, 2, 6 :: nat]" "length [3, 1, 4, 5, 9, 2, 6 :: nat] = 7"
    "set [3, 1, 4, 5, 9, 2, 6 :: nat] = {3, 1, 4, 5, 9, 2, 6}" by simp_all
  with heap_sorts [OF by_key.strict_weak_axioms this(1), of id "\<lambda>_. None"] show ?thesis by metis
qed

text \<open>
  clear empties the heap and makes the handle of every element it held invalid.
\<close>

theorem heap_clear:
  assumes "heap_ok lt H"
  shows "\<exists>H'. ih_clear H = Inr H' \<and> becomes lt H {} H'"
proof -
  obtain H1 where H1: "clear_handles 0 (heap_size H) H = Inr H1"
      "\<forall>y. handle H1 y = (if y \<in> el H ` {0..<heap_size H} then None else handle H y)"
    using clear_handles_ok [of H 0] heap_ok_slot [OF assms] by auto
  have "heap_ok lt (H1\<lparr>slots := []\<rparr>)"
    by (simp add: heap_ok_def heap_upto_def live_def ordered_def heap_size_def)
  with H1 heap_ok_items [OF assms] show ?thesis
    by (auto simp: ih_clear_def becomes_def items_def elems_def)
qed

text \<open>The checks that refuse a position past the end, and an empty heap.\<close>

theorem heap_bad_position:
  "heap_size H \<le> pos \<Longrightarrow>
   ih_erase lt pos H = Inl DCheckFailed \<and> ih_take lt pos H = Inl DCheckFailed \<and>
   ih_Update lt pos H = Inl DCheckFailed \<and> ih_Replace lt pos x H = Inl DCheckFailed"
  by (simp add: ih_erase_def ih_take_def ih_Update_def ih_Replace_def MakeHole_def)

end
