(* ===== verification/Tokenizer.thy ===== *)
theory Tokenizer
  imports Prelude
begin

unbundle bit_operations_syntax

text \<open>
  base/strings/string_tokenizer.h: the tokenizer that walks over a text and stops at delimiters, with
  optional quotes. Iterators are positions in the text, and \<open>end_\<close> is its length.
\<close>

section \<open>State\<close>

record tokenizer =
  t_text :: string
  token_begin :: nat
  token_end :: nat
  delims :: string
  quotes :: string
  options :: c_int
  token_is_delim :: bool

definition RETURN_DELIMS :: c_int where "RETURN_DELIMS = push_bit 0 1"
definition RETURN_EMPTY_TOKENS :: c_int where "RETURN_EMPTY_TOKENS = push_bit 1 1"

definition tk_Init :: "string \<Rightarrow> string \<Rightarrow> tokenizer" where
  "tk_Init text ds = \<lparr>t_text = text, token_begin = 0, token_end = 0, delims = ds, quotes = [], options = 0,
     token_is_delim = True\<rparr>"

definition set_options :: "c_int \<Rightarrow> tokenizer \<Rightarrow> tokenizer" where
  "set_options os t = t\<lparr>options := os\<rparr>"

definition set_quote_chars :: "string \<Rightarrow> tokenizer \<Rightarrow> tokenizer" where
  "set_quote_chars qs t = t\<lparr>quotes := qs\<rparr>"

definition tk_Reset :: "tokenizer \<Rightarrow> tokenizer" where
  "tk_Reset t = t\<lparr>token_end := 0\<rparr>"

definition tk_token :: "tokenizer \<Rightarrow> string" where
  "tk_token t = take (token_end t - token_begin t) (drop (token_begin t) (t_text t))"

definition IsDelim :: "tokenizer \<Rightarrow> char \<Rightarrow> bool" where
  "IsDelim t c \<longleftrightarrow> c \<in> set (delims t)"

definition IsQuote :: "tokenizer \<Rightarrow> char \<Rightarrow> bool" where
  "IsQuote t c \<longleftrightarrow> c \<in> set (quotes t)"

section \<open>One character\<close>

record advance_state =
  in_quote :: bool
  in_escape :: bool
  quote_char :: char

definition AdvanceState :: advance_state where
  "AdvanceState = \<lparr>in_quote = False, in_escape = False, quote_char = CHR 0x00\<rparr>"

definition AdvanceOne :: "tokenizer \<Rightarrow> char \<Rightarrow> advance_state \<Rightarrow> bool \<times> advance_state" where
  "AdvanceOne t c st =
     (if in_quote st
      then (True,
        if in_escape st then st\<lparr>in_escape := False\<rparr>
        else if c = CHR 0x5C then st\<lparr>in_escape := True\<rparr>
        else if c = quote_char st then st\<lparr>in_quote := False\<rparr>
        else st)
      else if IsDelim t c then (False, st)
      else (True, st\<lparr>quote_char := c, in_quote := IsQuote t c\<rparr>))"

section \<open>GetNext\<close>

text \<open>The two loops of \<open>QuickGetNext\<close>: over delimiters, then over the token.\<close>

function quick_skip :: "tokenizer \<Rightarrow> bool \<times> tokenizer" where
  "quick_skip t =
     (let t = t\<lparr>token_begin := token_end t\<rparr> in
      if length (t_text t) \<le> token_end t then (False, t\<lparr>token_is_delim := True\<rparr>)
      else let t = t\<lparr>token_end := Suc (token_end t)\<rparr> in
        if \<not> IsDelim t (t_text t ! token_begin t) then (True, t) else quick_skip t)"
  by pat_completeness auto
termination by (relation "measure (\<lambda>t. length (t_text t) - token_end t)") auto

declare quick_skip.simps [simp del]

function quick_scan :: "tokenizer \<Rightarrow> tokenizer" where
  "quick_scan t =
     (if token_end t < length (t_text t) \<and> \<not> IsDelim t (t_text t ! token_end t)
      then quick_scan (t\<lparr>token_end := Suc (token_end t)\<rparr>) else t)"
  by pat_completeness auto
termination by (relation "measure (\<lambda>t. length (t_text t) - token_end t)") auto

declare quick_scan.simps [simp del]

definition QuickGetNext :: "tokenizer \<Rightarrow> bool \<times> tokenizer" where
  "QuickGetNext t =
     (case quick_skip (t\<lparr>token_is_delim := False\<rparr>) of (found, t) \<Rightarrow> if found then (True, quick_scan t) else (False, t))"

text \<open>The loop of \<open>FullGetNext\<close> that takes the characters of a token, and its outer loop.\<close>

function slurp :: "advance_state \<Rightarrow> tokenizer \<Rightarrow> advance_state \<times> tokenizer" where
  "slurp st t =
     (if token_end t < length (t_text t)
      then (case AdvanceOne t (t_text t ! token_end t) st of (go_on, st') \<Rightarrow>
        if go_on then slurp st' (t\<lparr>token_end := Suc (token_end t)\<rparr>) else (st', t))
      else (st, t))"
  by pat_completeness auto
termination by (relation "measure (\<lambda>(st, t). length (t_text t) - token_end t)") auto

declare slurp.simps [simp del]

lemma slurp_frame: "\<exists>e \<ge> token_end t. snd (slurp st t) = t\<lparr>token_end := e\<rparr>"
proof (induction st t rule: slurp.induct)
  case (1 st t)
  obtain go_on st' where step: "AdvanceOne t (t_text t ! token_end t) st = (go_on, st')" by fastforce
  show ?case
  proof (cases "token_end t < length (t_text t) \<and> go_on")
    case True
    with 1 [OF _ step [symmetric]] step show ?thesis
      by (auto simp: slurp.simps [of st t] intro: Suc_leD)
  next
    case False
    with step show ?thesis by (auto simp: slurp.simps [of st t] intro!: exI [of _ "token_end t"])
  qed
qed

definition token_step :: "advance_state \<Rightarrow> tokenizer \<Rightarrow> bool \<times> advance_state \<times> tokenizer" where
  "token_step st t =
     (if token_is_delim t
      then let t = t\<lparr>token_is_delim := False, token_begin := token_end t\<rparr> in
        (case slurp st t of (st, t) \<Rightarrow>
          (token_begin t \<noteq> token_end t \<or> options t AND RETURN_EMPTY_TOKENS \<noteq> 0, st, t))
      else (False, st, t))"

lemma token_step_frame:
  assumes "token_step st t = (b, st', t')"
  shows "t_text t' = t_text t \<and> token_end t \<le> token_end t'"
  using assms slurp_frame [of "t\<lparr>token_is_delim := False, token_begin := token_end t\<rparr>" st]
  by (auto simp: token_step_def Let_def split: if_splits prod.splits)

function full_loop :: "advance_state \<Rightarrow> tokenizer \<Rightarrow> (bool \<times> tokenizer) res" where
  "full_loop st t =
     (case token_step st t of (ret, st, t) \<Rightarrow>
        if ret then Inr (True, t)
        else dcheck (\<not> token_is_delim t)
          (let t = t\<lparr>token_is_delim := True, token_begin := token_end t\<rparr> in
           if length (t_text t) \<le> token_end t then Inr (False, t)
           else let t = t\<lparr>token_end := Suc (token_end t)\<rparr> in
             if options t AND RETURN_DELIMS \<noteq> 0 then Inr (True, t) else full_loop st t))"
  by pat_completeness auto
termination
  by (relation "measure (\<lambda>(st, t). length (t_text t) - token_end t)")
    (auto dest!: token_step_frame [OF sym])

declare full_loop.simps [simp del]

definition FullGetNext :: "tokenizer \<Rightarrow> (bool \<times> tokenizer) res" where
  "FullGetNext t = full_loop AdvanceState t"

definition GetNext :: "tokenizer \<Rightarrow> (bool \<times> tokenizer) res" where
  "GetNext t = (if quotes t = [] \<and> options t = 0 then Inr (QuickGetNext t) else FullGetNext t)"

end
