(* ===== verification/TokenStream.thy ===== *)
theory TokenStream
  imports Tokenizer
begin

unbundle bit_operations_syntax

text \<open>
  What the tokenizer returns: a declarative division of the text into fields and delimiters, and the proof that
  \<open>GetNext\<close> returns the wanted pieces of it one by one, in both of its modes.
\<close>

section \<open>What the tokens should be\<close>

text \<open>
  Read from the left, a text is a field, a delimiter, a field and so on; a field ends at the first delimiter
  outside quotes, and a backslash inside quotes takes the next character along.
\<close>

datatype mode = Plain | Quoted char | Escaped char

fun field :: "string \<Rightarrow> string \<Rightarrow> mode \<Rightarrow> string \<Rightarrow> string \<times> string" where
  "field ds qs m [] = ([], [])"
| "field ds qs Plain (c # s) =
     (if c \<in> set ds then ([], c # s)
      else apfst ((#) c) (field ds qs (if c \<in> set qs then Quoted c else Plain) s))"
| "field ds qs (Quoted q) (c # s) =
     apfst ((#) c) (field ds qs (if c = CHR 0x5C then Escaped q else if c = q then Plain else Quoted q) s)"
| "field ds qs (Escaped q) (c # s) = apfst ((#) c) (field ds qs (Quoted q) s)"

lemma field_split: "field ds qs m s = (f, r) \<Longrightarrow> s = f @ r"
  by (induction ds qs m s arbitrary: f rule: field.induct) (auto split: if_splits prod.splits simp: apfst_def map_prod_def)

function pieces :: "string \<Rightarrow> string \<Rightarrow> string \<Rightarrow> (bool \<times> string) list" where
  "pieces ds qs s = (case field ds qs Plain s of (f, r) \<Rightarrow>
     (False, f) # (case r of [] \<Rightarrow> [] | d # r' \<Rightarrow> (True, [d]) # pieces ds qs r'))"
  by pat_completeness auto
termination
  by (relation "measure (\<lambda>(ds, qs, s). length s)") (auto dest!: field_split [OF sym])

declare pieces.simps [simp del]

text \<open>A piece is returned if the options ask for it.\<close>

definition wanted :: "c_int \<Rightarrow> bool \<times> string \<Rightarrow> bool" where
  "wanted os p \<longleftrightarrow> (if fst p then os AND RETURN_DELIMS \<noteq> 0 else os AND RETURN_EMPTY_TOKENS \<noteq> 0 \<or> snd p \<noteq> [])"

definition tokens_of :: "string \<Rightarrow> string \<Rightarrow> c_int \<Rightarrow> string \<Rightarrow> (bool \<times> string) list" where
  "tokens_of ds qs os s = filter (wanted os) (pieces ds qs s)"

section \<open>The scan of a field\<close>

definition scan_mode :: "advance_state \<Rightarrow> mode" where
  "scan_mode st = (if in_quote st then if in_escape st then Escaped (quote_char st) else Quoted (quote_char st) else Plain)"

definition scan_ok :: "advance_state \<Rightarrow> bool" where
  "scan_ok st \<longleftrightarrow> (in_escape st \<longrightarrow> in_quote st)"

lemma AdvanceOne_field:
  assumes "scan_ok st" "AdvanceOne t c st = (go_on, st')"
  shows "scan_ok st' \<and>
    field (delims t) (quotes t) (scan_mode st) (c # s) =
      (if go_on then apfst ((#) c) (field (delims t) (quotes t) (scan_mode st') s) else ([], c # s)) \<and>
    (\<not> go_on \<longrightarrow> scan_mode st' = Plain)"
  using assms by (auto simp: AdvanceOne_def scan_mode_def scan_ok_def IsDelim_def IsQuote_def split: if_splits)

lemma slurp_field:
  assumes "scan_ok st" "field (delims t) (quotes t) (scan_mode st) (drop (token_end t) (t_text t)) = (f, r)"
  shows "\<exists>st'. slurp st t = (st', t\<lparr>token_end := token_end t + length f\<rparr>) \<and> scan_ok st' \<and>
    (r \<noteq> [] \<longrightarrow> scan_mode st' = Plain)"
  using assms
proof (induction st t arbitrary: f rule: slurp.induct)
  case (1 st t)
  show ?case
  proof (cases "token_end t < length (t_text t)")
    case False
    with 1(3) have "f = []" "r = []" by auto
    with 1(2) False show ?thesis by (simp add: slurp.simps [of st t])
  next
    case True
    obtain go_on st' where step: "AdvanceOne t (t_text t ! token_end t) st = (go_on, st')" by fastforce
    let ?t = "t\<lparr>token_end := Suc (token_end t)\<rparr>"
    note adv = AdvanceOne_field [OF 1(2) step, of "drop (Suc (token_end t)) (t_text t)"]
    have fld: "(if go_on then apfst ((#) (t_text t ! token_end t))
          (field (delims t) (quotes t) (scan_mode st') (drop (Suc (token_end t)) (t_text t)))
        else ([], drop (token_end t) (t_text t))) = (f, r)"
      using 1(3) adv Cons_nth_drop_Suc [OF True] by simp
    show ?thesis
    proof (cases go_on)
      case go: True
      obtain f' r' where f': "field (delims t) (quotes t) (scan_mode st') (drop (Suc (token_end t)) (t_text t)) = (f', r')"
        by fastforce
      with go fld have eq: "f = t_text t ! token_end t # f'" "r = r'" by (simp_all add: apfst_def)
      obtain st'' where "slurp st' ?t = (st'', ?t\<lparr>token_end := Suc (token_end t) + length f'\<rparr>)" "scan_ok st''"
          "r \<noteq> [] \<longrightarrow> scan_mode st'' = Plain"
        using 1(1) [OF True step [symmetric] go] adv f' eq by auto
      with True go step eq show ?thesis by (simp add: slurp.simps [of st t])
    next
      case False
      with True step adv fld show ?thesis by (auto simp: slurp.simps [of st t])
    qed
  qed
qed

section \<open>GetNext returns the wanted pieces one by one\<close>

definition after_field :: "string \<Rightarrow> string \<Rightarrow> string \<Rightarrow> (bool \<times> string) list" where
  "after_field ds qs r = (case r of [] \<Rightarrow> [] | d # r' \<Rightarrow> (True, [d]) # pieces ds qs r')"

definition upcoming :: "tokenizer \<Rightarrow> (bool \<times> string) list" where
  "upcoming t = (if token_is_delim t then pieces else after_field) (delims t) (quotes t) (drop (token_end t) (t_text t))"

definition same_input :: "tokenizer \<Rightarrow> tokenizer \<Rightarrow> bool" where
  "same_input t t' \<longleftrightarrow> t_text t' = t_text t \<and> delims t' = delims t \<and> quotes t' = quotes t \<and> options t' = options t \<and>
     token_end t' \<le> length (t_text t)"

lemma pieces_field: "field ds qs Plain s = (f, r) \<Longrightarrow> pieces ds qs s = (False, f) # after_field ds qs r"
  by (simp add: pieces.simps [of ds qs s] after_field_def)

definition between :: "advance_state \<Rightarrow> tokenizer \<Rightarrow> bool" where
  "between st t \<longleftrightarrow> scan_ok st \<and> token_end t \<le> length (t_text t) \<and>
     (token_end t < length (t_text t) \<longrightarrow> scan_mode st = Plain)"

lemma token_step_ok:
  assumes "between st t" "token_step st t = (ret, st', u)"
  shows "same_input t u \<and> between st' u \<and> \<not> token_is_delim u \<and>
    filter (wanted (options t)) (upcoming t) =
      (if ret then [(False, tk_token u)] else []) @ filter (wanted (options t)) (upcoming u)"
proof (cases "token_is_delim t")
  case False
  with assms show ?thesis by (auto simp: token_step_def same_input_def between_def)
next
  case True
  let ?t = "t\<lparr>token_is_delim := False, token_begin := token_end t\<rparr>" and ?s = "drop (token_end t) (t_text t)"
  obtain f r where f: "field (delims t) (quotes t) Plain ?s = (f, r)" by fastforce
  note fr = field_split [OF f]
  have le: "token_end t + length f \<le> length (t_text t)"
    using assms(1) arg_cong [OF fr, of length] by (auto simp: between_def)
  have r: "drop (token_end t + length f) (t_text t) = r" "take (length f) ?s = f"
    using fr by (simp_all add: add.commute [of "token_end t"] drop_drop [symmetric] del: drop_drop)
  have "field (delims ?t) (quotes ?t) (scan_mode st) (drop (token_end ?t) (t_text ?t)) = (f, r)"
    using assms(1) f by (cases "?s = []") (auto simp: between_def)
  then obtain st1 where sl: "slurp st ?t = (st1, ?t\<lparr>token_end := token_end t + length f\<rparr>)" "scan_ok st1"
      "r \<noteq> [] \<longrightarrow> scan_mode st1 = Plain"
    using slurp_field [of st ?t f r] assms(1) by (auto simp: between_def)
  then have u: "st' = st1" "u = ?t\<lparr>token_end := token_end t + length f\<rparr>" "ret = wanted (options t) (False, f)"
    using assms(2) True by (auto simp: token_step_def wanted_def)
  have "r \<noteq> [] \<longleftrightarrow> token_end t + length f < length (t_text t)" using r(1) by auto
  with sl(2,3) le True f r show ?thesis
    by (auto simp: u same_input_def between_def upcoming_def tk_token_def pieces_field)
qed

text \<open>One result of \<open>GetNext\<close> against the pieces still to come.\<close>

definition next_ok :: "tokenizer \<Rightarrow> bool \<times> tokenizer \<Rightarrow> bool" where
  "next_ok t R \<longleftrightarrow> same_input t (snd R) \<and>
     filter (wanted (options t)) (upcoming t) =
       (if fst R then (token_is_delim (snd R), tk_token (snd R)) # filter (wanted (options t)) (upcoming (snd R)) else [])"

lemma same_input_trans: "same_input t u \<Longrightarrow> same_input u v \<Longrightarrow> same_input t v"
  by (auto simp: same_input_def)

lemma full_loop_ok:
  assumes "between st t"
  shows "\<exists>R. full_loop st t = Inr R \<and> next_ok t R"
  using assms
proof (induction "length (t_text t) - token_end t" arbitrary: st t rule: less_induct)
  case less
  obtain ret st' u where ts: "token_step st t = (ret, st', u)" by (metis prod_cases3)
  note u = token_step_ok [OF less.prems ts]
  show ?case
  proof (cases "ret \<or> length (t_text u) \<le> token_end u")
    case stop: True
    show ?thesis
    proof (cases ret)
      case True
      with ts have "full_loop st t = Inr (True, u)" by (simp add: full_loop.simps [of st t])
      moreover have "next_ok t (True, u)" using u True by (simp add: next_ok_def)
      ultimately show ?thesis by blast
    next
      case False
      let ?v = "u\<lparr>token_is_delim := True, token_begin := token_end u\<rparr>"
      from False stop ts u have "full_loop st t = Inr (False, ?v)" by (simp add: full_loop.simps [of st t] Let_def)
      moreover have "upcoming u = []" using u False stop by (simp add: upcoming_def after_field_def)
      with u False have "next_ok t (False, ?v)" by (simp add: next_ok_def same_input_def)
      ultimately show ?thesis by blast
    qed
  next
    case False
    let ?u = "u\<lparr>token_is_delim := True, token_begin := token_end u, token_end := Suc (token_end u)\<rparr>"
    let ?d = "t_text u ! token_end u"
    from False have lt: "token_end u < length (t_text u)" by simp
    have up: "upcoming u = (True, [?d]) # upcoming ?u" "tk_token ?u = [?d]"
      using u lt by (simp_all add: upcoming_def after_field_def Cons_nth_drop_Suc [symmetric] tk_token_def)
    have eq: "full_loop st t =
        (if options u AND RETURN_DELIMS \<noteq> 0 then Inr (True, ?u) else full_loop st' ?u)"
      using False ts u by (simp add: full_loop.simps [of st t] Let_def)
    have same: "same_input t ?u" using u lt by (simp add: same_input_def)
    show ?thesis
    proof (cases "options u AND RETURN_DELIMS \<noteq> 0")
      case True
      from u have "options u = options t" by (simp add: same_input_def)
      with True up u False same have "next_ok t (True, ?u)" by (simp add: next_ok_def wanted_def)
      with eq True show ?thesis by simp
    next
      case skip: False
      have "between st' ?u" using u lt by (auto simp: between_def)
      moreover have "length (t_text ?u) - token_end ?u < length (t_text t) - token_end t"
        using token_step_frame [OF ts] lt by auto
      ultimately obtain R where R: "full_loop st' ?u = Inr R" "next_ok ?u R" using less.hyps by blast
      have "next_ok t R"
      proof -
        from u have "options u = options t" by (simp add: same_input_def)
        with R(2) u up False skip same_input_trans [OF same] show ?thesis
          by (simp add: next_ok_def wanted_def)
      qed
      with eq skip R(1) show ?thesis by simp
    qed
  qed
qed

section \<open>The quick mode\<close>

abbreviation plain_tokens :: "string \<Rightarrow> string \<Rightarrow> (bool \<times> string) list" where
  "plain_tokens ds s \<equiv> filter (wanted 0) (pieces ds [] s)"

lemma wanted_0: "wanted 0 p \<longleftrightarrow> \<not> fst p \<and> snd p \<noteq> []"
  by (simp add: wanted_def)

lemma field_plain: "field ds [] Plain s = (takeWhile (\<lambda>c. c \<notin> set ds) s, dropWhile (\<lambda>c. c \<notin> set ds) s)"
  by (induction s) (auto simp: apfst_def)

lemma plain_tokens_Nil: "plain_tokens ds [] = []"
  by (simp add: pieces.simps wanted_0)

lemma plain_tokens_delim: "d \<in> set ds \<Longrightarrow> plain_tokens ds (d # s) = plain_tokens ds s"
  by (simp add: pieces.simps [of ds "[]" "d # s"] wanted_0)

lemma plain_tokens_token:
  assumes "c \<notin> set ds"
  shows "plain_tokens ds (c # s) =
    (False, c # takeWhile (\<lambda>c. c \<notin> set ds) s) # plain_tokens ds (dropWhile (\<lambda>c. c \<notin> set ds) s)"
proof -
  have "filter (wanted 0) (after_field ds [] r) = plain_tokens ds r" if "r = [] \<or> hd r \<in> set ds" for r
    using that by (cases r) (simp_all add: after_field_def plain_tokens_Nil plain_tokens_delim wanted_0)
  moreover have "dropWhile (\<lambda>c. c \<notin> set ds) s = [] \<or> hd (dropWhile (\<lambda>c. c \<notin> set ds) s) \<in> set ds"
    using hd_dropWhile [of "\<lambda>c. c \<notin> set ds" s] by auto
  moreover have "pieces ds [] (c # s) =
      (False, c # takeWhile (\<lambda>c. c \<notin> set ds) s) # after_field ds [] (dropWhile (\<lambda>c. c \<notin> set ds) s)"
    using assms by (intro pieces_field) (simp add: field_plain)
  ultimately show ?thesis by (simp add: wanted_0)
qed

lemma quick_skip_ok:
  assumes "token_end t \<le> length (t_text t)"
  shows "\<exists>b t'. quick_skip t = (b, t') \<and> same_input t t' \<and>
    (if b then token_is_delim t' = token_is_delim t \<and> token_begin t' < length (t_text t) \<and>
       token_end t' = Suc (token_begin t') \<and> t_text t ! token_begin t' \<notin> set (delims t) \<and>
       plain_tokens (delims t) (drop (token_end t) (t_text t)) = plain_tokens (delims t) (drop (token_begin t') (t_text t))
     else token_is_delim t' \<and> plain_tokens (delims t) (drop (token_end t) (t_text t)) = [])"
  using assms
proof (induction "length (t_text t) - token_end t" arbitrary: t rule: less_induct)
  case less
  let ?c = "t_text t ! token_end t" and ?t = "t\<lparr>token_begin := token_end t, token_end := Suc (token_end t)\<rparr>"
  consider "token_end t = length (t_text t)" | "token_end t < length (t_text t)" "?c \<notin> set (delims t)"
    | "token_end t < length (t_text t)" "?c \<in> set (delims t)" using less.prems by linarith
  then show ?case
  proof cases
    case 1
    then show ?thesis by (auto simp: quick_skip.simps [of t] same_input_def plain_tokens_Nil Let_def)
  next
    case 2
    then show ?thesis by (auto simp: quick_skip.simps [of t] same_input_def IsDelim_def Let_def)
  next
    case 3
    have rec: "quick_skip t = quick_skip ?t" using 3 by (simp add: quick_skip.simps [of t] IsDelim_def Let_def)
    have drop: "plain_tokens (delims t) (drop (token_end t) (t_text t)) =
        plain_tokens (delims t) (drop (Suc (token_end t)) (t_text t))"
      using 3 plain_tokens_delim [OF 3(2)] Cons_nth_drop_Suc [OF 3(1)] by metis
    have "length (t_text ?t) - token_end ?t < length (t_text t) - token_end t" "token_end ?t \<le> length (t_text ?t)"
      using 3(1) by auto
    from less.hyps [OF this] show ?thesis unfolding rec drop by (simp add: same_input_def cong: if_cong)
  qed
qed

lemma quick_scan_eq:
  "quick_scan t = t\<lparr>token_end := token_end t + length (takeWhile (\<lambda>c. c \<notin> set (delims t)) (drop (token_end t) (t_text t)))\<rparr>"
proof (induction t rule: quick_scan.induct)
  case (1 t)
  show ?case
  proof (cases "token_end t < length (t_text t)")
    case True
    with 1 Cons_nth_drop_Suc [OF True, symmetric] show ?thesis
      by (simp add: quick_scan.simps [of t] IsDelim_def)
  qed (simp add: quick_scan.simps [of t])
qed

lemma QuickGetNext_ok:
  assumes "token_end t \<le> length (t_text t)"
  shows "\<exists>b t'. QuickGetNext t = (b, t') \<and> same_input t t' \<and> token_is_delim t' = (\<not> b) \<and>
    plain_tokens (delims t) (drop (token_end t) (t_text t)) =
      (if b then (False, tk_token t') # plain_tokens (delims t) (drop (token_end t') (t_text t)) else [])"
proof -
  obtain b t1 where t1: "quick_skip (t\<lparr>token_is_delim := False\<rparr>) = (b, t1)" "same_input t t1"
    "if b then \<not> token_is_delim t1 \<and> token_begin t1 < length (t_text t) \<and>
       token_end t1 = Suc (token_begin t1) \<and> t_text t ! token_begin t1 \<notin> set (delims t) \<and>
       plain_tokens (delims t) (drop (token_end t) (t_text t)) = plain_tokens (delims t) (drop (token_begin t1) (t_text t))
     else token_is_delim t1 \<and> plain_tokens (delims t) (drop (token_end t) (t_text t)) = []"
    using quick_skip_ok [of "t\<lparr>token_is_delim := False\<rparr>"] assms
    by (auto simp: same_input_def cong: if_cong)
  show ?thesis
  proof (cases b)
    case False
    with t1 show ?thesis by (auto simp: QuickGetNext_def)
  next
    case True
    define s where "s = drop (Suc (token_begin t1)) (t_text t)"
    define k where "k = length (takeWhile (\<lambda>c. c \<notin> set (delims t)) s)"
    have beg: "token_begin t1 < length (t_text t)" "token_end t1 = Suc (token_begin t1)"
      "t_text t ! token_begin t1 \<notin> set (delims t)" using t1(3) True by auto
    have same: "t_text t1 = t_text t" "delims t1 = delims t" using t1(2) by (auto simp: same_input_def)
    have scan: "quick_scan t1 = t1\<lparr>token_end := Suc (token_begin t1) + k\<rparr>"
      unfolding quick_scan_eq same beg(2) k_def s_def ..
    have split: "drop (token_begin t1) (t_text t) = t_text t ! token_begin t1 # s"
      using Cons_nth_drop_Suc [OF beg(1)] by (simp add: s_def)
    have k: "take k s = takeWhile (\<lambda>c. c \<notin> set (delims t)) s" "drop k s = dropWhile (\<lambda>c. c \<notin> set (delims t)) s"
      by (simp_all add: k_def takeWhile_eq_take [symmetric] dropWhile_eq_drop)
    have "k \<le> length s" by (simp add: k_def length_takeWhile_le)
    then have "same_input t (quick_scan t1)" using t1(2) beg(1) by (simp add: scan same_input_def s_def)
    moreover have "tk_token (quick_scan t1) = t_text t ! token_begin t1 # take k s"
      by (simp add: scan tk_token_def same split)
    moreover have "drop (token_end (quick_scan t1)) (t_text t) = drop k s" by (simp add: scan s_def add.commute)
    ultimately show ?thesis
      using True t1 plain_tokens_token [OF beg(3), of s] split k scan by (auto simp: QuickGetNext_def)
  qed
qed

section \<open>Streams of tokens\<close>

text \<open>Asking for the next item until there is none, at most \<open>n\<close> times.\<close>

fun collect :: "('t \<Rightarrow> (bool \<times> 't) res) \<Rightarrow> ('t \<Rightarrow> 'p) \<Rightarrow> nat \<Rightarrow> 't \<Rightarrow> 'p list res" where
  "collect get look 0 t = Inl Diverges"
| "collect get look (Suc n) t = rbind (get t) (\<lambda>(b, t).
     if b then rbind (collect get look n t) (\<lambda>ps. Inr (look t # ps)) else Inr [])"

locale token_stream =
  fixes get :: "'t \<Rightarrow> (bool \<times> 't) res"
    and look :: "'t \<Rightarrow> 'p"
    and ok :: "'t \<Rightarrow> bool"
    and rest :: "'t \<Rightarrow> 'p list"
  assumes get_law: "ok t \<Longrightarrow>
    \<exists>b t'. get t = Inr (b, t') \<and> (if b then ok t' \<and> rest t = look t' # rest t' else rest t = [])"
begin

lemma collect_rest: "ok t \<Longrightarrow> length (rest t) < n \<Longrightarrow> collect get look n t = Inr (rest t)"
proof (induction n arbitrary: t)
  case (Suc n)
  obtain b t' where t': "get t = Inr (b, t')" "if b then ok t' \<and> rest t = look t' # rest t' else rest t = []"
    using get_law [OF Suc.prems(1)] by blast
  with Suc.IH [of t'] Suc.prems(2) show ?case by (cases b) simp_all
qed simp

end

definition current :: "tokenizer \<Rightarrow> bool \<times> string" where
  "current t = (token_is_delim t, tk_token t)"

definition quick_mode :: "tokenizer \<Rightarrow> bool" where
  "quick_mode t \<longleftrightarrow> quotes t = [] \<and> options t = 0"

definition in_text :: "tokenizer \<Rightarrow> bool" where
  "in_text t \<longleftrightarrow> token_end t \<le> length (t_text t)"

interpretation quick: token_stream GetNext current "\<lambda>t. quick_mode t \<and> in_text t"
  "\<lambda>t. plain_tokens (delims t) (drop (token_end t) (t_text t))"
proof
  fix t assume "quick_mode t \<and> in_text t"
  then obtain b t' where t': "GetNext t = Inr (b, t')" "same_input t t'" "token_is_delim t' = (\<not> b)"
      "plain_tokens (delims t) (drop (token_end t) (t_text t)) =
        (if b then (False, tk_token t') # plain_tokens (delims t) (drop (token_end t') (t_text t)) else [])"
      and mode: "quick_mode t"
    using QuickGetNext_ok [of t] by (auto simp: GetNext_def quick_mode_def in_text_def)
  then show "\<exists>b t'. GetNext t = Inr (b, t') \<and>
      (if b then (quick_mode t' \<and> in_text t') \<and>
         plain_tokens (delims t) (drop (token_end t) (t_text t)) =
           current t' # plain_tokens (delims t') (drop (token_end t') (t_text t'))
       else plain_tokens (delims t) (drop (token_end t) (t_text t)) = [])"
    by (cases b) (auto simp: current_def quick_mode_def in_text_def same_input_def)
qed

interpretation full: token_stream GetNext current "\<lambda>t. \<not> quick_mode t \<and> in_text t"
  "\<lambda>t. filter (wanted (options t)) (upcoming t)"
proof
  fix t assume t: "\<not> quick_mode t \<and> in_text t"
  then have "between AdvanceState t"
    by (simp add: between_def scan_ok_def scan_mode_def AdvanceState_def in_text_def)
  from full_loop_ok [OF this] t obtain b t' where "GetNext t = Inr (b, t')" "next_ok t (b, t')"
    by (auto simp: GetNext_def FullGetNext_def quick_mode_def)
  with t show "\<exists>b t'. GetNext t = Inr (b, t') \<and>
      (if b then (\<not> quick_mode t' \<and> in_text t') \<and>
         filter (wanted (options t)) (upcoming t) = current t' # filter (wanted (options t')) (upcoming t')
       else filter (wanted (options t)) (upcoming t) = [])"
    by (cases b) (auto simp: next_ok_def current_def quick_mode_def in_text_def same_input_def)
qed

lemma pieces_Nil: "pieces ds qs [] = [(False, [])]"
  by (simp add: pieces.simps)

lemma length_pieces: "length (pieces ds qs s) \<le> 2 * length s + 1"
proof (induction "length s" arbitrary: s rule: less_induct)
  case less
  obtain f r where f: "field ds qs Plain s = (f, r)" by fastforce
  show ?case
  proof (cases r)
    case (Cons d r')
    then have "length r' < length s" using field_split [OF f] by simp
    with less [of r'] Cons show ?thesis by (simp add: pieces_field [OF f] after_field_def)
  qed (simp add: pieces_field [OF f] after_field_def)
qed

lemma length_after_field: "length (after_field ds qs s) \<le> 2 * length s"
  using length_pieces [of ds qs "tl s"] by (auto simp: after_field_def split: list.splits)

lemma concat_pieces: "concat (map snd (pieces ds qs s)) = s"
proof (induction "length s" arbitrary: s rule: less_induct)
  case less
  obtain f r where f: "field ds qs Plain s = (f, r)" by fastforce
  note s = field_split [OF f]
  have "concat (map snd (after_field ds qs r)) = r"
  proof (cases r)
    case (Cons d r')
    with less [of r'] s show ?thesis by (simp add: after_field_def)
  qed (simp add: after_field_def)
  then show ?case unfolding pieces_field [OF f] by (simp add: s)
qed

text \<open>The tokens of a tokenizer that is at some position of its text.\<close>

lemma collect_tokens:
  assumes "in_text t"
  shows "collect GetNext current (2 * length (t_text t) + 2) t = Inr (filter (wanted (options t))
    ((if quick_mode t \<or> token_is_delim t then pieces else after_field) (delims t) (quotes t) (drop (token_end t) (t_text t))))"
proof (cases "quick_mode t")
  case True
  have "length (plain_tokens (delims t) (drop (token_end t) (t_text t))) < 2 * length (t_text t) + 2"
    using order_trans [OF length_filter_le length_pieces, of "wanted 0" "delims t" "[]" "drop (token_end t) (t_text t)"]
    by simp
  from quick.collect_rest [OF _ this] True assms show ?thesis by (simp add: quick_mode_def)
next
  case False
  have "length (upcoming t) \<le> 2 * length (t_text t) + 1"
    using length_pieces [of "delims t" "quotes t" "drop (token_end t) (t_text t)"]
      length_after_field [of "delims t" "quotes t" "drop (token_end t) (t_text t)"] by (auto simp: upcoming_def)
  then have "length (filter (wanted (options t)) (upcoming t)) < 2 * length (t_text t) + 2"
    using le_less_trans [OF length_filter_le, of "upcoming t"] by simp
  from full.collect_rest [OF _ this] False assms show ?thesis by (simp add: upcoming_def)
qed

section \<open>Properties\<close>

text \<open>
  C14. A tokenizer over any text, delimiters, quotes and options returns exactly the pieces of the text that the
  options ask for, in order, and then false; every loop ends and its check holds. The quick mode and the full
  mode thus agree on their common meaning.
\<close>

theorem tokenizer_tokens:
  "collect GetNext current (2 * length text + 2) (set_options os (set_quote_chars qs (tk_Init text ds))) =
     Inr (tokens_of ds qs os text)"
  using collect_tokens [of "set_options os (set_quote_chars qs (tk_Init text ds))"]
  by (simp add: tk_Init_def set_options_def set_quote_chars_def in_text_def tokens_of_def)

text \<open>
  With delimiters and empty tokens returned nothing of the text is lost: the tokens concatenated are the text.
\<close>

theorem tokenizer_lossless:
  "\<exists>ps. collect GetNext current (2 * length text + 2)
      (set_options (RETURN_DELIMS OR RETURN_EMPTY_TOKENS) (set_quote_chars qs (tk_Init text ds))) = Inr ps \<and>
    concat (map snd ps) = text"
proof -
  have "wanted (RETURN_DELIMS OR RETURN_EMPTY_TOKENS) p" for p
    by (simp add: wanted_def RETURN_DELIMS_def RETURN_EMPTY_TOKENS_def)
  then show ?thesis
    using collect_tokens [of "set_options (RETURN_DELIMS OR RETURN_EMPTY_TOKENS) (set_quote_chars qs (tk_Init text ds))"]
    by (simp add: tk_Init_def set_options_def set_quote_chars_def in_text_def concat_pieces)
qed

text \<open>
  After \<open>Reset\<close> the quick mode starts from the beginning again. The full mode does so only if the last token
  was a delimiter or there was none: \<open>Reset\<close> leaves \<open>token_is_delim_\<close> alone, and after an ordinary token the first
  character of the text is taken for a delimiter.
\<close>

theorem tokenizer_reset:
  "collect GetNext current (2 * length (t_text t) + 2) (tk_Reset t) =
     Inr (if quick_mode t \<or> token_is_delim t then tokens_of (delims t) (quotes t) (options t) (t_text t)
       else case t_text t of [] \<Rightarrow> []
         | c # s \<Rightarrow> (if options t AND RETURN_DELIMS \<noteq> 0 then [(True, [c])] else []) @
             tokens_of (delims t) (quotes t) (options t) s)"
  using collect_tokens [of "tk_Reset t"]
  by (simp add: tk_Reset_def in_text_def tokens_of_def quick_mode_def after_field_def wanted_def split: list.splits)

end
