(* ===== verification/MruCache.thy ===== *)
theory MruCache
  imports Prelude
begin

text \<open>
  base/containers/mru_cache.h: a cache that forgets what was not used for longest. \<open>ordering_\<close> is a
  \<open>std::list\<close>, whose iterators stay valid when other elements move: every node has an identity, and an iterator
  is that identity or the end. \<open>index_\<close> maps a key to the iterator of its node; it is an association list, as
  both \<open>std::map\<close> and \<open>std::unordered_map\<close> hold a key once and \<open>emplace\<close> keeps an entry that is there.
\<close>

section \<open>State\<close>

datatype mru_iterator = Node nat | AtEnd

record ('k, 'v) mru =
  ordering :: "(nat \<times> 'k \<times> 'v) list"
  index :: "('k \<times> nat) list"
  max_size :: nat
  next_node :: nat

definition NO_AUTO_EVICT :: nat where "NO_AUTO_EVICT = 0"

definition mru_new :: "nat \<Rightarrow> ('k, 'v) mru" where
  "mru_new n = \<lparr>ordering = [], index = [], max_size = n, next_node = 0\<rparr>"

definition mru_size :: "('k, 'v) mru \<Rightarrow> nat res" where
  "mru_size m = dcheck (length (index m) = length (ordering m)) (Inr (length (index m)))"

definition mru_empty :: "('k, 'v) mru \<Rightarrow> bool" where
  "mru_empty m \<longleftrightarrow> ordering m = []"

definition mru_begin :: "('k, 'v) mru \<Rightarrow> mru_iterator" where
  "mru_begin m = (case ordering m of [] \<Rightarrow> AtEnd | (i, _) # _ \<Rightarrow> Node i)"

text \<open>What an iterator refers to: the nodes before its own, its element, the nodes behind.\<close>

fun mru_deref :: "mru_iterator \<Rightarrow> ('k, 'v) mru \<Rightarrow> ('k \<times> 'v) res" where
  "mru_deref AtEnd m = Inl OutOfRange"
| "mru_deref (Node i) m = (case map_of (ordering m) i of None \<Rightarrow> Inl DeadObject | Some kv \<Rightarrow> Inr kv)"

section \<open>Operations\<close>

text \<open>\<open>std::list::erase\<close> returns the iterator behind the node.\<close>

fun list_erase :: "nat \<Rightarrow> (nat \<times> 'a) list \<Rightarrow> mru_iterator \<times> (nat \<times> 'a) list" where
  "list_erase i [] = (AtEnd, [])"
| "list_erase i (x # xs) =
     (if fst x = i then (case xs of [] \<Rightarrow> AtEnd | y # _ \<Rightarrow> Node (fst y), xs)
      else (case list_erase i xs of (it, ys) \<Rightarrow> (it, x # ys)))"

fun mru_Erase :: "mru_iterator \<Rightarrow> ('k, 'v) mru \<Rightarrow> (mru_iterator \<times> ('k, 'v) mru) res" where
  "mru_Erase AtEnd m = Inl OutOfRange"
| "mru_Erase (Node i) m =
     rbind (mru_deref (Node i) m) (\<lambda>(k, _).
     let m = m\<lparr>index := filter (\<lambda>e. fst e \<noteq> k) (index m)\<rparr>;
         (it, os) = list_erase i (ordering m) in
     Inr (it, m\<lparr>ordering := os\<rparr>))"

text \<open>\<open>Erase(rbegin())\<close>: the base of the incremented reverse iterator is the last node.\<close>

definition mru_Erase_rbegin :: "('k, 'v) mru \<Rightarrow> ('k, 'v) mru res" where
  "mru_Erase_rbegin m =
     (if ordering m = [] then Inl OutOfRange
      else rbind (mru_Erase (Node (fst (last (ordering m)))) m) (\<lambda>(_, m). Inr m))"

fun shrink_loop :: "nat \<Rightarrow> nat \<Rightarrow> ('k, 'v) mru \<Rightarrow> ('k, 'v) mru res" where
  "shrink_loop new_size 0 m = Inr m"
| "shrink_loop new_size (Suc i) m =
     (if Suc i > new_size then rbind (mru_Erase_rbegin m) (shrink_loop new_size i) else Inr m)"

definition ShrinkToSize :: "nat \<Rightarrow> ('k, 'v) mru \<Rightarrow> ('k, 'v) mru res" where
  "ShrinkToSize new_size m = rbind (mru_size m) (\<lambda>i. shrink_loop new_size i m)"

definition index_emplace :: "'k \<Rightarrow> nat \<Rightarrow> ('k \<times> nat) list \<Rightarrow> ('k \<times> nat) list" where
  "index_emplace k i xs = (if map_of xs k = None then (k, i) # xs else xs)"

definition mru_Put :: "'k \<Rightarrow> 'v \<Rightarrow> ('k, 'v) mru \<Rightarrow> (mru_iterator \<times> ('k, 'v) mru) res" where
  "mru_Put key payload m =
     rbind (case map_of (index m) key of
         Some i \<Rightarrow> rbind (mru_Erase (Node i) m) (\<lambda>(_, m). Inr m)
       | None \<Rightarrow> if max_size m \<noteq> NO_AUTO_EVICT then ShrinkToSize (max_size m - 1) m else Inr m) (\<lambda>m.
     let i = next_node m;
         m = m\<lparr>ordering := (i, key, payload) # ordering m, next_node := Suc i\<rparr>;
         m = m\<lparr>index := index_emplace key i (index m)\<rparr> in
     Inr (mru_begin m, m))"

text \<open>\<open>splice\<close> moves the node to the front.\<close>

definition mru_Get :: "'k \<Rightarrow> ('k, 'v) mru \<Rightarrow> (mru_iterator \<times> ('k, 'v) mru) res" where
  "mru_Get key m =
     (case map_of (index m) key of
        None \<Rightarrow> Inr (AtEnd, m)
      | Some i \<Rightarrow> rbind (mru_deref (Node i) m) (\<lambda>kv.
          let m = m\<lparr>ordering := (i, kv) # snd (list_erase i (ordering m))\<rparr> in Inr (mru_begin m, m)))"

definition mru_Peek :: "'k \<Rightarrow> ('k, 'v) mru \<Rightarrow> mru_iterator" where
  "mru_Peek key m = (case map_of (index m) key of None \<Rightarrow> AtEnd | Some i \<Rightarrow> Node i)"

definition mru_Clear :: "('k, 'v) mru \<Rightarrow> ('k, 'v) mru" where
  "mru_Clear m = m\<lparr>index := [], ordering := []\<rparr>"

definition mru_Swap :: "('k, 'v) mru \<Rightarrow> ('k, 'v) mru \<Rightarrow> ('k, 'v) mru \<times> ('k, 'v) mru" where
  "mru_Swap a b = (b, a)"

end
