(* ===== verification/MruProps.thy ===== *)
theory MruProps
  imports MruCache "HOL-Library.Multiset"
begin

text \<open>
  The cache refines a list of entries in the order of their last use, and what that order guarantees.
\<close>

section \<open>Consistency of list and index\<close>

definition links :: "(nat \<times> 'k \<times> 'v) list \<Rightarrow> ('k \<times> nat) list" where
  "links os = map (\<lambda>(i, k, v). (k, i)) os"

definition mru_ok :: "('k, 'v) mru \<Rightarrow> bool" where
  "mru_ok m \<longleftrightarrow> mset (index m) = mset (links (ordering m)) \<and>
     distinct (map fst (ordering m)) \<and> distinct (map (fst \<circ> snd) (ordering m)) \<and>
     (\<forall>x \<in> set (ordering m). fst x < next_node m)"

definition entries :: "('k, 'v) mru \<Rightarrow> ('k \<times> 'v) list" where
  "entries m = map snd (ordering m)"

lemma links_simps [simp]: "links [] = []" "links ((i, k, v) # os) = (k, i) # links os" "links (os @ os') = links os @ links os'"
  "length (links os) = length os" "map fst (links os) = map (fst \<circ> snd) os"
  by (auto simp: links_def)

lemma set_links: "(k, i) \<in> set (links os) \<longleftrightarrow> (\<exists>v. (i, k, v) \<in> set os)"
  by (force simp: links_def)

lemma mru_new_ok: "mru_ok (mru_new n)" "entries (mru_new n) = []"
  by (simp_all add: mru_ok_def mru_new_def entries_def)

lemma mru_ok_size:
  assumes "mru_ok m"
  shows "mru_size m = Inr (length (entries m))"
  using assms mset_eq_length [of "index m" "links (ordering m)"] by (simp add: mru_ok_def mru_size_def entries_def)

lemma distinct_index: "mru_ok m \<Longrightarrow> distinct (map fst (index m))"
  using mset_eq_imp_distinct_iff [of "map fst (index m)" "map fst (links (ordering m))"]
  by (simp add: mru_ok_def del: links_simps(5)) (simp add: links_simps(5))

lemma mru_ok_index:
  assumes "mru_ok m"
  shows "map_of (index m) k = Some i \<longleftrightarrow> (\<exists>v. (i, k, v) \<in> set (ordering m))"
proof -
  have "set (index m) = set (links (ordering m))" using assms mset_eq_setD by (auto simp: mru_ok_def)
  then show ?thesis using map_of_eq_Some_iff [OF distinct_index [OF assms]] set_links by metis
qed

lemma mru_ok_index_None:
  assumes "mru_ok m"
  shows "map_of (index m) k = None \<longleftrightarrow> k \<notin> fst ` set (entries m)"
proof -
  have "map_of (index m) k = None \<longleftrightarrow> (\<nexists>i. map_of (index m) k = Some i)" by auto
  also have "\<dots> \<longleftrightarrow> k \<notin> fst ` set (entries m)" unfolding mru_ok_index [OF assms] by (force simp: entries_def)
  finally show ?thesis .
qed

lemma mru_found:
  assumes "mru_ok m" "map_of (index m) k = Some i"
  obtains xs v ys where "ordering m = xs @ (i, k, v) # ys"
  using assms mru_ok_index [OF assms(1), of k i] split_list by metis

lemma map_of_node: "distinct (map fst os) \<Longrightarrow> os = xs @ (i, e) # ys \<Longrightarrow> map_of os i = Some e"
  using map_of_eq_Some_iff [of os i e] by simp

lemma list_erase_split: "i \<notin> fst ` set xs \<Longrightarrow>
    list_erase i (xs @ (i, e) # ys) = (case ys of [] \<Rightarrow> AtEnd | y # _ \<Rightarrow> Node (fst y), xs @ ys)"
  by (induction xs) auto

lemma filter_links: "k \<notin> (fst \<circ> snd) ` set os \<Longrightarrow> filter (\<lambda>e. fst e \<noteq> k) (links os) = links os"
  by (force simp: filter_id_conv links_def)

lemma Erase_ok:
  assumes ok: "mru_ok m" and os: "ordering m = xs @ (i, k, v) # ys"
  shows "\<exists>m'. mru_Erase (Node i) m = Inr (case ys of [] \<Rightarrow> AtEnd | y # _ \<Rightarrow> Node (fst y), m') \<and> mru_ok m' \<and>
    ordering m' = xs @ ys \<and> max_size m' = max_size m \<and> next_node m' = next_node m"
proof -
  let ?m = "m\<lparr>index := filter (\<lambda>e. fst e \<noteq> k) (index m), ordering := xs @ ys\<rparr>"
  have d: "distinct (map fst (ordering m))" "distinct (map (fst \<circ> snd) (ordering m))" using ok by (simp_all add: mru_ok_def)
  have "mset (filter (\<lambda>e. fst e \<noteq> k) (index m)) = mset (filter (\<lambda>e. fst e \<noteq> k) (links (ordering m)))"
    using ok by (simp add: mru_ok_def)
  also have "filter (\<lambda>e. fst e \<noteq> k) (links (ordering m)) = links (xs @ ys)"
    using d(2) filter_links [of k xs] filter_links [of k ys] by (simp add: os image_comp)
  finally have "mru_ok ?m" using ok d by (auto simp: mru_ok_def os)
  moreover have "mru_Erase (Node i) m = Inr (case ys of [] \<Rightarrow> AtEnd | y # _ \<Rightarrow> Node (fst y), ?m)"
    using map_of_node [OF d(1) os] d(1) by (simp add: os list_erase_split Let_def)
  ultimately show ?thesis by auto
qed

lemma Erase_rbegin_ok:
  assumes "mru_ok m" "ordering m \<noteq> []"
  shows "\<exists>m'. mru_Erase_rbegin m = Inr m' \<and> mru_ok m' \<and> ordering m' = butlast (ordering m) \<and>
    max_size m' = max_size m \<and> next_node m' = next_node m"
proof -
  obtain i k v where "last (ordering m) = (i, k, v)" using prod_cases3 by blast
  then have "ordering m = butlast (ordering m) @ (i, k, v) # []" using assms(2) append_butlast_last_id by metis
  from Erase_ok [OF assms(1) this] \<open>last (ordering m) = (i, k, v)\<close> assms(2) show ?thesis
    by (auto simp: mru_Erase_rbegin_def)
qed

lemma shrink_loop_ok:
  assumes "mru_ok m" "length (ordering m) = i"
  shows "\<exists>m'. shrink_loop n i m = Inr m' \<and> mru_ok m' \<and> ordering m' = take n (ordering m) \<and>
    max_size m' = max_size m \<and> next_node m' = next_node m"
  using assms
proof (induction i arbitrary: m)
  case (Suc i)
  show ?case
  proof (cases "n < Suc i")
    case True
    obtain m1 where m1: "mru_Erase_rbegin m = Inr m1" "mru_ok m1" "ordering m1 = butlast (ordering m)"
        "max_size m1 = max_size m" "next_node m1 = next_node m"
      using Erase_rbegin_ok [of m] Suc.prems by fastforce
    have "take n (butlast (ordering m)) = take n (ordering m)" using True Suc.prems(2) by (simp add: take_butlast)
    with Suc.IH [of m1] m1 Suc.prems True show ?thesis by auto
  qed (use Suc.prems in simp)
qed simp

lemma ShrinkToSize_ok:
  assumes "mru_ok m"
  shows "\<exists>m'. ShrinkToSize n m = Inr m' \<and> mru_ok m' \<and> entries m' = take n (entries m) \<and> max_size m' = max_size m"
proof -
  obtain m' where "shrink_loop n (length (ordering m)) m = Inr m'" "mru_ok m'" "ordering m' = take n (ordering m)"
      "max_size m' = max_size m"
    using shrink_loop_ok [OF assms refl] by blast
  then show ?thesis using mru_ok_size [OF assms] by (simp add: ShrinkToSize_def entries_def take_map)
qed

section \<open>The operations on the list of entries\<close>

definition without :: "'k \<Rightarrow> ('k \<times> 'v) list \<Rightarrow> ('k \<times> 'v) list" where
  "without k l = filter (\<lambda>e. fst e \<noteq> k) l"

definition lru_put :: "nat \<Rightarrow> 'k \<Rightarrow> 'v \<Rightarrow> ('k \<times> 'v) list \<Rightarrow> ('k \<times> 'v) list" where
  "lru_put n k v l =
     (k, v) # (if k \<in> fst ` set l then without k l else if n = 0 then l else take (n - 1) l)"

definition lru_get :: "'k \<Rightarrow> ('k \<times> 'v) list \<Rightarrow> ('k \<times> 'v) list" where
  "lru_get k l = (case map_of l k of None \<Rightarrow> l | Some v \<Rightarrow> (k, v) # without k l)"

lemma distinct_entries: "mru_ok m \<Longrightarrow> distinct (map fst (entries m))"
  by (simp add: mru_ok_def entries_def)

lemma split_entries:
  assumes "mru_ok m" "ordering m = xs @ (i, k, v) # ys"
  shows "without k (entries m) = map snd (xs @ ys)" "map_of (entries m) k = Some v"
proof -
  note d = distinct_entries [OF assms(1)]
  have e: "entries m = map snd xs @ (k, v) # map snd ys" using assms(2) by (simp add: entries_def)
  show "map_of (entries m) k = Some v" by (rule map_of_node [OF d e])
  have "without k (map snd xs) = map snd xs" "without k (map snd ys) = map snd ys"
    using d by (force simp: e without_def filter_id_conv)+
  then show "without k (entries m) = map snd (xs @ ys)" by (simp add: e without_def)
qed

lemma add_front_ok:
  assumes "mru_ok m" "k \<notin> fst ` set (entries m)"
  shows "mru_ok (m\<lparr>ordering := (next_node m, k, v) # ordering m, next_node := Suc (next_node m),
    index := index_emplace k (next_node m) (index m)\<rparr>)"
  using assms mru_ok_index_None [OF assms(1), of k]
  by (auto simp: mru_ok_def index_emplace_def entries_def image_comp)

lemma Put_ok:
  assumes ok: "mru_ok m"
  shows "\<exists>m'. mru_Put k v m = Inr (mru_begin m', m') \<and> mru_ok m' \<and> entries m' = lru_put (max_size m) k v (entries m) \<and>
    max_size m' = max_size m"
proof -
  have "\<exists>m1. (case map_of (index m) k of
         Some i \<Rightarrow> rbind (mru_Erase (Node i) m) (\<lambda>(_, m). Inr m)
       | None \<Rightarrow> if max_size m \<noteq> NO_AUTO_EVICT then ShrinkToSize (max_size m - 1) m else Inr m) = Inr m1 \<and>
      mru_ok m1 \<and> (k, v) # entries m1 = lru_put (max_size m) k v (entries m) \<and> k \<notin> fst ` set (entries m1) \<and>
      max_size m1 = max_size m"
  proof (cases "map_of (index m) k")
    case None
    then have k: "k \<notin> fst ` set (entries m)" using mru_ok_index_None [OF ok] by blast
    then have "k \<notin> fst ` set (take n (entries m))" for n using set_take_subset [of n "entries m"] by blast
    with None k ok ShrinkToSize_ok [OF ok, of "max_size m - 1"] show ?thesis
      by (auto simp: lru_put_def NO_AUTO_EVICT_def)
  next
    case (Some i)
    then obtain xs w ys where os: "ordering m = xs @ (i, k, w) # ys" using mru_found [OF ok] by blast
    obtain m1 where m1: "mru_Erase (Node i) m = Inr (case ys of [] \<Rightarrow> AtEnd | y # _ \<Rightarrow> Node (fst y), m1)" "mru_ok m1"
        "ordering m1 = xs @ ys" "max_size m1 = max_size m"
      using Erase_ok [OF ok os] by blast
    have e: "entries m1 = without k (entries m)" using split_entries(1) [OF ok os] m1(3) by (simp add: entries_def)
    have "k \<in> fst ` set (entries m)" using os by (simp add: entries_def)
    with Some m1 e show ?thesis by (auto simp: lru_put_def without_def)
  qed
  then obtain m1 where m1: "(case map_of (index m) k of
         Some i \<Rightarrow> rbind (mru_Erase (Node i) m) (\<lambda>(_, m). Inr m)
       | None \<Rightarrow> if max_size m \<noteq> NO_AUTO_EVICT then ShrinkToSize (max_size m - 1) m else Inr m) = Inr m1"
      "mru_ok m1" "(k, v) # entries m1 = lru_put (max_size m) k v (entries m)" "k \<notin> fst ` set (entries m1)"
      "max_size m1 = max_size m"
    by blast
  with add_front_ok [OF m1(2,4), of v] show ?thesis
    by (simp add: mru_Put_def Let_def entries_def)
qed

lemma Get_ok:
  assumes ok: "mru_ok m"
  shows "\<exists>it m'. mru_Get k m = Inr (it, m') \<and> mru_ok m' \<and> entries m' = lru_get k (entries m) \<and>
    max_size m' = max_size m \<and>
    (case map_of (entries m) k of None \<Rightarrow> it = AtEnd | Some v \<Rightarrow> mru_deref it m' = Inr (k, v))"
proof (cases "map_of (index m) k")
  case None
  then have "map_of (entries m) k = None" using mru_ok_index_None [OF ok] by (simp add: map_of_eq_None_iff)
  with None ok show ?thesis by (simp add: mru_Get_def lru_get_def)
next
  case (Some i)
  then obtain xs v ys where os: "ordering m = xs @ (i, k, v) # ys" using mru_found [OF ok] by blast
  have d: "distinct (map fst (ordering m))" using ok by (simp add: mru_ok_def)
  let ?m = "m\<lparr>ordering := (i, k, v) # xs @ ys\<rparr>"
  have "mru_ok ?m" using ok by (auto simp: mru_ok_def os)
  with Some os split_entries [OF ok os] map_of_node [OF d os] d show ?thesis
    by (simp add: mru_Get_def mru_begin_def list_erase_split Let_def lru_get_def entries_def)
qed

lemma Peek_ok:
  assumes ok: "mru_ok m"
  shows "case map_of (entries m) k of None \<Rightarrow> mru_Peek k m = AtEnd | Some v \<Rightarrow> mru_deref (mru_Peek k m) m = Inr (k, v)"
proof (cases "map_of (index m) k")
  case None
  then have "map_of (entries m) k = None" using mru_ok_index_None [OF ok] by (simp add: map_of_eq_None_iff)
  with None show ?thesis by (simp add: mru_Peek_def)
next
  case (Some i)
  then obtain xs v ys where os: "ordering m = xs @ (i, k, v) # ys" using mru_found [OF ok] by blast
  have "distinct (map fst (ordering m))" using ok by (simp add: mru_ok_def)
  with Some os split_entries [OF ok os] map_of_node [OF this os] show ?thesis by (simp add: mru_Peek_def)
qed

section \<open>Programs over the cache\<close>

datatype ('k, 'v) mru_op = PutOp 'k 'v | GetOp 'k | PeekOp 'k | EraseOp 'k | ShrinkOp nat | ClearOp

text \<open>The payload an iterator refers to, if it is not the end.\<close>

definition payload_at :: "mru_iterator \<Rightarrow> ('k, 'v) mru \<Rightarrow> 'v option res" where
  "payload_at it m = (if it = AtEnd then Inr None else rbind (mru_deref it m) (\<lambda>(_, v). Inr (Some v)))"

fun mru_exec :: "('k, 'v) mru \<Rightarrow> ('k, 'v) mru_op \<Rightarrow> ('v option \<times> ('k, 'v) mru) res" where
  "mru_exec m (PutOp k v) = rbind (mru_Put k v m) (\<lambda>(it, m). rbind (payload_at it m) (\<lambda>r. Inr (r, m)))"
| "mru_exec m (GetOp k) = rbind (mru_Get k m) (\<lambda>(it, m). rbind (payload_at it m) (\<lambda>r. Inr (r, m)))"
| "mru_exec m (PeekOp k) = rbind (payload_at (mru_Peek k m) m) (\<lambda>r. Inr (r, m))"
| "mru_exec m (EraseOp k) =
     (if mru_Peek k m = AtEnd then Inr (None, m) else rbind (mru_Erase (mru_Peek k m) m) (\<lambda>(_, m). Inr (None, m)))"
| "mru_exec m (ShrinkOp n) = rbind (ShrinkToSize n m) (\<lambda>m. Inr (None, m))"
| "mru_exec m ClearOp = Inr (None, mru_Clear m)"

fun lru_exec :: "nat \<Rightarrow> ('k \<times> 'v) list \<Rightarrow> ('k, 'v) mru_op \<Rightarrow> ('k \<times> 'v) list" where
  "lru_exec n l (PutOp k v) = lru_put n k v l"
| "lru_exec n l (GetOp k) = lru_get k l"
| "lru_exec n l (PeekOp k) = l"
| "lru_exec n l (EraseOp k) = without k l"
| "lru_exec n l (ShrinkOp j) = take j l"
| "lru_exec n l ClearOp = []"

fun lru_answer :: "('k \<times> 'v) list \<Rightarrow> ('k, 'v) mru_op \<Rightarrow> 'v option" where
  "lru_answer l (PutOp k v) = Some v"
| "lru_answer l (GetOp k) = map_of l k"
| "lru_answer l (PeekOp k) = map_of l k"
| "lru_answer l op = None"

fun lru_answers :: "nat \<Rightarrow> ('k \<times> 'v) list \<Rightarrow> ('k, 'v) mru_op list \<Rightarrow> 'v option list" where
  "lru_answers n l [] = []"
| "lru_answers n l (op # ops) = lru_answer l op # lru_answers n (lru_exec n l op) ops"

lemma Erase_key_ok:
  assumes ok: "mru_ok m"
  shows "\<exists>m'. mru_exec m (EraseOp k) = Inr (None, m') \<and> mru_ok m' \<and> entries m' = without k (entries m) \<and>
    max_size m' = max_size m"
proof (cases "map_of (index m) k")
  case None
  then have "without k (entries m) = entries m"
    using mru_ok_index_None [OF ok] by (force simp: without_def filter_id_conv)
  with None ok show ?thesis by (simp add: mru_Peek_def)
next
  case (Some i)
  then obtain xs v ys where os: "ordering m = xs @ (i, k, v) # ys" using mru_found [OF ok] by blast
  from Erase_ok [OF ok os] split_entries [OF ok os] Some show ?thesis
    by (auto simp: mru_Peek_def entries_def simp del: mru_Erase.simps)
qed

lemma mru_exec_ok:
  assumes ok: "mru_ok m"
  shows "\<exists>m'. mru_exec m op = Inr (lru_answer (entries m) op, m') \<and> mru_ok m' \<and>
    entries m' = lru_exec (max_size m) (entries m) op \<and> max_size m' = max_size m"
proof (cases op)
  case (PutOp k v)
  from Put_ok [OF ok, of k v] obtain m' where m': "mru_Put k v m = Inr (mru_begin m', m')" "mru_ok m'"
    "entries m' = lru_put (max_size m) k v (entries m)" "max_size m' = max_size m" by blast
  then obtain i os where "ordering m' = (i, k, v) # os" by (cases "ordering m'") (auto simp: entries_def lru_put_def)
  with m' PutOp show ?thesis by (simp add: payload_at_def mru_begin_def)
next
  case (GetOp k)
  from Get_ok [OF ok, of k] obtain it m' where m': "mru_Get k m = Inr (it, m')" "mru_ok m'"
    "entries m' = lru_get k (entries m)" "max_size m' = max_size m"
    "case map_of (entries m) k of None \<Rightarrow> it = AtEnd | Some v \<Rightarrow> mru_deref it m' = Inr (k, v)" by blast
  then have "payload_at it m' = Inr (map_of (entries m) k)" by (auto simp: payload_at_def split: option.splits)
  with m' GetOp show ?thesis by simp
next
  case (PeekOp k)
  have "payload_at (mru_Peek k m) m = Inr (map_of (entries m) k)"
    using Peek_ok [OF ok, of k] by (auto simp: payload_at_def split: option.splits)
  with PeekOp ok show ?thesis by simp
next
  case (EraseOp k)
  with Erase_key_ok [OF ok, of k] show ?thesis by simp
next
  case (ShrinkOp n)
  with ShrinkToSize_ok [OF ok, of n] show ?thesis by auto
next
  case ClearOp
  then show ?thesis by (simp add: mru_Clear_def mru_ok_def entries_def)
qed

lemma mru_run_ok:
  assumes "mru_ok m"
  shows "\<exists>m'. run_list mru_exec m ops = Inr (lru_answers (max_size m) (entries m) ops, m') \<and> mru_ok m' \<and>
    entries m' = foldl (lru_exec (max_size m)) (entries m) ops \<and> max_size m' = max_size m"
  using assms
proof (induction ops arbitrary: m)
  case (Cons op ops)
  obtain m1 where "mru_exec m op = Inr (lru_answer (entries m) op, m1)" "mru_ok m1"
    "entries m1 = lru_exec (max_size m) (entries m) op" "max_size m1 = max_size m"
    using mru_exec_ok [OF Cons.prems] by blast
  with Cons.IH [of m1] show ?case by auto
qed simp

lemma mru_new_run:
  "\<exists>m. run_list mru_exec (mru_new n) ops = Inr (lru_answers n [] ops, m) \<and> mru_ok m \<and>
    entries m = foldl (lru_exec n) [] ops"
proof -
  have "max_size (mru_new n) = n" by (simp add: mru_new_def)
  with mru_run_ok [OF mru_new_ok(1), of n ops] show ?thesis unfolding mru_new_ok(2) by metis
qed

section \<open>What is remembered\<close>

lemma length_without: "length (without k l) \<le> length l" "k \<in> fst ` set l \<Longrightarrow> length (without k l) < length l"
  by (auto simp: without_def intro!: length_filter_less)

lemma length_lru_put: "0 < n \<Longrightarrow> length l \<le> n \<Longrightarrow> length (lru_put n k v l) \<le> n"
  using length_without(2) [of k l] by (cases "k \<in> fst ` set l") (simp_all add: lru_put_def)

lemma length_lru_get: "length (lru_get k l) \<le> length l"
proof (cases "map_of l k")
  case (Some v)
  then have "k \<in> fst ` set l" by (metis domI dom_map_of_conv_image_fst)
  with Some length_without(2) [of k l] show ?thesis by (simp add: lru_get_def)
qed (simp add: lru_get_def)

lemma length_lru_exec: "0 < n \<Longrightarrow> length l \<le> n \<Longrightarrow> length (lru_exec n l op) \<le> n"
  using length_lru_put [of n l] order_trans [OF length_lru_get [of _ l]] order_trans [OF length_without(1) [of _ l]]
  by (cases op) simp_all

lemma length_lru_run: "0 < n \<Longrightarrow> length l \<le> n \<Longrightarrow> length (foldl (lru_exec n) l ops) \<le> n"
  by (induction ops arbitrary: l) (simp_all add: length_lru_exec)

text \<open>The keys an operation brings to the front, and the operations that never drop an entry on purpose.\<close>

fun used_keys :: "('k, 'v) mru_op \<Rightarrow> 'k set" where
  "used_keys (PutOp k v) = {k}"
| "used_keys (GetOp k) = {k}"
| "used_keys op = {}"

fun keeps :: "('k, 'v) mru_op \<Rightarrow> bool" where
  "keeps (PutOp k v) = True"
| "keeps (GetOp k) = True"
| "keeps (PeekOp k) = True"
| "keeps op = False"

text \<open>At most the keys of \<open>K\<close> stand before \<open>k\<close>.\<close>

definition behind :: "'k set \<Rightarrow> 'k \<Rightarrow> ('k \<times> 'v) list \<Rightarrow> bool" where
  "behind K k l \<longleftrightarrow> (\<exists>xs v ys. l = xs @ (k, v) # ys \<and> fst ` set xs \<subseteq> K)"

lemma behind_without: "behind K k l \<Longrightarrow> k' \<noteq> k \<Longrightarrow> behind K k (without k' l)"
  unfolding behind_def without_def by (fastforce)

lemma behind_Cons: "behind K k l \<Longrightarrow> k' \<in> K \<Longrightarrow> behind K k ((k', v') # l)"
  unfolding behind_def by (metis (no_types, lifting) append_Cons fst_conv image_insert insert_subset list.simps(15))

lemma behind_front: "behind K k ((k, v) # l)"
  unfolding behind_def by (metis append_Nil empty_subsetI image_empty list.set(1))

lemma behind_take:
  assumes "behind K k l" "finite K" "card K < n" "k' \<in> K" "k' \<notin> fst ` set l" "distinct (map fst l)"
  shows "behind K k (take (n - 1) l)"
proof -
  obtain xs v ys where l: "l = xs @ (k, v) # ys" "fst ` set xs \<subseteq> K" using assms(1) by (auto simp: behind_def)
  have "length xs = card (fst ` set xs)" using assms(6) l(1) distinct_card [of "map fst xs"] by simp
  also have "\<dots> \<le> card (K - {k'})" using l assms(2,5) by (intro card_mono) auto
  also have "\<dots> < n - 1" using assms(2,3,4) by (simp add: card_Diff_singleton) (metis Suc_diff_1 card_gt_0_iff diff_less_mono empty_iff less_eq_Suc_le)
  finally show ?thesis using l by (auto simp: behind_def take_Cons' intro!: exI [of _ xs])
qed

lemma behind_exec:
  assumes "behind K k l" "finite K" "card K < n" "keeps op" "used_keys op - {k} \<subseteq> K" "distinct (map fst l)"
  shows "behind K k (lru_exec n l op)"
proof (cases op)
  case (PutOp k' v')
  show ?thesis
  proof (cases "k' = k")
    case False
    then have "k' \<in> K" using assms(5) PutOp by auto
    with False behind_without [OF assms(1)] behind_take [OF assms(1-3) _ _ assms(6)] assms(1,3) PutOp show ?thesis
      by (auto simp: lru_put_def intro!: behind_Cons)
  qed (use PutOp in \<open>simp add: lru_put_def behind_front\<close>)
next
  case (GetOp k')
  show ?thesis
  proof (cases "k' = k")
    case False
    then have "k' \<in> K" using assms(5) GetOp by auto
    with False behind_without [OF assms(1)] assms(1) GetOp show ?thesis
      by (auto simp: lru_get_def intro!: behind_Cons split: option.splits)
  next
    case True
    obtain xs v ys where "l = xs @ (k, v) # ys" using assms(1) by (auto simp: behind_def)
    then have "map_of l k = Some v" using map_of_node [OF assms(6)] by blast
    with True GetOp show ?thesis by (simp add: lru_get_def behind_front)
  qed
qed (use assms in simp_all)

lemma distinct_lru_exec:
  assumes "distinct (map fst l)"
  shows "distinct (map fst (lru_exec n l op))"
proof -
  have d: "distinct (map fst (without k l))" "k \<notin> fst ` set (without k l)" "distinct (map fst (take j l))" for k j
    using assms by (auto simp: without_def distinct_map_filter take_map [symmetric])
  have t: "k \<notin> fst ` set l \<Longrightarrow> k \<notin> fst ` set (take j l)" for k j using set_take_subset by fastforce
  show ?thesis
    using assms d t by (cases op) (auto simp: lru_put_def lru_get_def split: option.splits)
qed

lemma behind_run:
  assumes "behind K k l" "finite K" "card K < n" "distinct (map fst l)"
    "\<And>op. op \<in> set ops \<Longrightarrow> keeps op \<and> used_keys op - {k} \<subseteq> K"
  shows "behind K k (foldl (lru_exec n) l ops)"
  using assms
proof (induction ops arbitrary: l)
  case (Cons op ops)
  then show ?case using behind_exec [of K k l n op] distinct_lru_exec [of l n op] by simp
qed simp

lemma distinct_lru_run: "distinct (map fst l) \<Longrightarrow> distinct (map fst (foldl (lru_exec n) l ops))"
  by (induction ops arbitrary: l) (simp_all add: distinct_lru_exec)

lemma recent_puts:
  assumes "distinct ks" "length ks \<le> n"
  shows "\<exists>l'. foldl (lru_exec n) l (map (\<lambda>k. PutOp k (f k)) ks) = map (\<lambda>k. (k, f k)) (rev ks) @ l'"
  using assms
proof (induction ks rule: rev_induct)
  case (snoc k ks)
  let ?l = "foldl (lru_exec n) l (map (\<lambda>k. PutOp k (f k)) ks)"
  obtain l' where l': "?l = map (\<lambda>k. (k, f k)) (rev ks) @ l'" using snoc by auto
  have "without k (map (\<lambda>k. (k, f k)) (rev ks)) = map (\<lambda>k. (k, f k)) (rev ks)"
    using snoc.prems(1) by (auto simp: without_def filter_id_conv)
  then have "without k ?l = map (\<lambda>k. (k, f k)) (rev ks) @ without k l'" by (simp add: l' without_def)
  with l' snoc.prems(2) show ?case by (auto simp: lru_put_def)
qed simp

section \<open>Properties\<close>

text \<open>
  C15. Any program over a new cache behaves as on a list of entries in the order of their last use: \<open>Put\<close> adds
  in front, drops the last entry when a full cache gets a new key and replaces an old payload, \<open>Get\<close> moves to the
  front, \<open>Peek\<close> does not. No check fails, no iterator in the index dangles, keys are unique and the limit holds.
\<close>

theorem mru_program_refines:
  "\<exists>m. run_list mru_exec (mru_new n) ops = Inr (lru_answers n [] ops, m) \<and>
    entries m = foldl (lru_exec n) [] ops \<and> mru_size m = Inr (length (entries m)) \<and>
    distinct (map fst (entries m)) \<and> (n = 0 \<or> length (entries m) \<le> n)"
proof -
  obtain m where m: "run_list mru_exec (mru_new n) ops = Inr (lru_answers n [] ops, m)" "mru_ok m"
      "entries m = foldl (lru_exec n) [] ops"
    using mru_new_run by blast
  moreover have "n = 0 \<or> length (entries m) \<le> n" using length_lru_run [of n "[]" ops] by (auto simp: m(3))
  ultimately show ?thesis using mru_ok_size distinct_entries by blast
qed

text \<open>
  An entry that was put stays in the cache as long as fewer than \<open>max_size\<close> other keys are used after it,
  whatever happened before and however often.
\<close>

theorem mru_keeps_recent:
  assumes "\<forall>op \<in> set ops. keeps op" "card ((\<Union>op \<in> set ops. used_keys op) - {k}) < n"
  shows "\<exists>rs m w. run_list mru_exec (mru_new n) (ops0 @ PutOp k v # ops) = Inr (rs, m) \<and>
    mru_deref (mru_Peek k m) m = Inr (k, w)"
proof -
  let ?K = "(\<Union>op \<in> set ops. used_keys op) - {k}" and ?l = "foldl (lru_exec n) [] (ops0 @ [PutOp k v])"
  have "finite (used_keys op)" for op :: "('a, 'b) mru_op" by (cases op) simp_all
  then have "finite ?K" by simp
  moreover have "behind ?K k ?l" by (simp add: lru_put_def behind_front)
  moreover have "distinct (map fst ?l)" by (rule distinct_lru_run) simp
  moreover have "keeps op \<and> used_keys op - {k} \<subseteq> ?K" if "op \<in> set ops" for op using that assms(1) by auto
  ultimately have "behind ?K k (foldl (lru_exec n) ?l ops)" using behind_run [of ?K k ?l n ops] assms(2) by blast
  then have "k \<in> fst ` set (foldl (lru_exec n) [] (ops0 @ PutOp k v # ops))" by (auto simp: behind_def)
  moreover obtain rs m where m: "run_list mru_exec (mru_new n) (ops0 @ PutOp k v # ops) = Inr (rs, m)" "mru_ok m"
      "entries m = foldl (lru_exec n) [] (ops0 @ PutOp k v # ops)"
    using mru_new_run by blast
  ultimately obtain w where "map_of (entries m) k = Some w" by (metis map_of_eq_None_iff not_None_eq)
  with m(1) Peek_ok [OF m(2), of k] show ?thesis by auto
qed

theorem mru_keeps_recent_witness:
  "\<exists>rs m w. run_list mru_exec (mru_new 3)
      ([PutOp 7 ''a'', PutOp 1 ''b''] @ PutOp 5 ''c'' # [PutOp 2 ''d'', GetOp 9, PeekOp 7, PutOp 2 ''e'']) = Inr (rs, m) \<and>
    mru_deref (mru_Peek (5 :: nat) m) m = Inr (5, w)"
  by (rule mru_keeps_recent) (simp_all add: card_insert_if)

text \<open>
  After \<open>max_size\<close> puts of different keys the cache holds exactly those, the last one in front: everything
  older is gone.
\<close>

theorem mru_holds_last_puts:
  assumes "distinct ks" "length ks = n" "0 < n"
  shows "\<exists>rs m. run_list mru_exec (mru_new n) (ops0 @ map (\<lambda>k. PutOp k (f k)) ks) = Inr (rs, m) \<and>
    entries m = map (\<lambda>k. (k, f k)) (rev ks)"
proof -
  let ?ops = "ops0 @ map (\<lambda>k. PutOp k (f k)) ks"
  obtain rs m where m: "run_list mru_exec (mru_new n) ?ops = Inr (rs, m)" "entries m = foldl (lru_exec n) [] ?ops"
    using mru_new_run by blast
  obtain l' where "entries m = map (\<lambda>k. (k, f k)) (rev ks) @ l'"
    using recent_puts [of ks n "foldl (lru_exec n) [] ops0" f] assms by (auto simp: m(2))
  moreover have "length (entries m) \<le> n" using length_lru_run [of n "[]" ?ops] assms(3) by (simp add: m(2))
  ultimately show ?thesis using m(1) assms(2) by simp
qed

theorem mru_holds_last_puts_witness:
  "\<exists>rs m. run_list mru_exec (mru_new 2) ([PutOp 7 49, PutOp 1 1] @ map (\<lambda>k. PutOp k (k * k)) [5, 7 :: nat]) = Inr (rs, m) \<and>
    entries m = [(7, 49), (5, 25)]"
  using mru_holds_last_puts [of "[5, 7 :: nat]" 2 "[PutOp 7 49, PutOp 1 1]" "\<lambda>k. k * k"]
  by (simp del: run_list.simps)

end
