(* ===== verification/RingBuffer.thy ===== *)
theory RingBuffer
  imports Prelude
begin

text \<open>
  base/containers/ring_buffer.h: the last \<open>kSize\<close> values that were saved. Indices are \<open>size_t\<close> and wrap around;
  \<open>kSize\<close> is the length of the array, whose first contents are arbitrary. \<open>CHECK\<close> guards every read.
\<close>

section \<open>Model\<close>

record 'a ring_buffer =
  rb_cells :: "'a list"
  current_index :: u64

definition rb_BufferSize :: "'a ring_buffer \<Rightarrow> u64" where
  "rb_BufferSize r = word_of_nat (length (rb_cells r))"

definition RingBuffer_new :: "'a list \<Rightarrow> 'a ring_buffer" where
  "RingBuffer_new cells = \<lparr>rb_cells = cells, current_index = 0\<rparr>"

definition CurrentIndex :: "'a ring_buffer \<Rightarrow> u64" where
  "CurrentIndex r = current_index r"

definition BufferIndex :: "u64 \<Rightarrow> 'a ring_buffer \<Rightarrow> u64 res" where
  "BufferIndex n r = guardr DivideByZero (rb_BufferSize r \<noteq> 0) (Inr ((current_index r + n) mod rb_BufferSize r))"

definition IsFilledIndexByBufferIndex :: "u64 \<Rightarrow> 'a ring_buffer \<Rightarrow> bool" where
  "IsFilledIndexByBufferIndex buffer_index r \<longleftrightarrow> buffer_index < current_index r"

definition IsFilledIndex :: "u64 \<Rightarrow> 'a ring_buffer \<Rightarrow> bool res" where
  "IsFilledIndex n r = rbind (BufferIndex n r) (\<lambda>i. Inr (IsFilledIndexByBufferIndex i r))"

definition ReadBuffer :: "u64 \<Rightarrow> 'a ring_buffer \<Rightarrow> 'a res" where
  "ReadBuffer n r = rbind (BufferIndex n r) (\<lambda>i. check (IsFilledIndexByBufferIndex i r) (Inr (rb_cells r ! unat i)))"

text \<open>An assignment through the pointer that \<open>MutableReadBuffer\<close> returns.\<close>

definition WriteBuffer :: "u64 \<Rightarrow> 'a \<Rightarrow> 'a ring_buffer \<Rightarrow> 'a ring_buffer res" where
  "WriteBuffer n v r = rbind (BufferIndex n r) (\<lambda>i.
     check (IsFilledIndexByBufferIndex i r) (Inr (r\<lparr>rb_cells := (rb_cells r)[unat i := v]\<rparr>)))"

definition SaveToBuffer :: "'a \<Rightarrow> 'a ring_buffer \<Rightarrow> 'a ring_buffer res" where
  "SaveToBuffer v r = rbind (BufferIndex 0 r) (\<lambda>i.
     Inr (r\<lparr>rb_cells := (rb_cells r)[unat i := v], current_index := current_index r + 1\<rparr>))"

definition rb_Clear :: "'a ring_buffer \<Rightarrow> 'a ring_buffer" where
  "rb_Clear r = r\<lparr>current_index := 0\<rparr>"

section \<open>Iterators\<close>

record ring_iterator =
  it_index :: u64
  out_of_range :: bool

definition ring_iterator_at :: "u64 \<Rightarrow> ring_iterator" where
  "ring_iterator_at i = \<lparr>it_index = i, out_of_range = False\<rparr>"

definition rb_Begin :: "'a ring_buffer \<Rightarrow> ring_iterator" where
  "rb_Begin r = (if current_index r < rb_BufferSize r then ring_iterator_at (rb_BufferSize r - current_index r)
     else ring_iterator_at 0)"

definition rb_End :: "'a ring_buffer \<Rightarrow> ring_iterator" where
  "rb_End r = ring_iterator_at (rb_BufferSize r - 1)"

definition it_increment :: "'a ring_buffer \<Rightarrow> ring_iterator \<Rightarrow> ring_iterator" where
  "it_increment r it =
     (let it = it\<lparr>it_index := it_index it + 1\<rparr> in
      if it_index it = rb_BufferSize r then it\<lparr>out_of_range := True\<rparr> else it)"

definition it_decrement :: "'a ring_buffer \<Rightarrow> ring_iterator \<Rightarrow> ring_iterator" where
  "it_decrement r it =
     (let it = (if it_index it = 0 then it\<lparr>out_of_range := True\<rparr> else it) in it\<lparr>it_index := it_index it - 1\<rparr>)"

definition it_bool :: "'a ring_buffer \<Rightarrow> ring_iterator \<Rightarrow> bool res" where
  "it_bool r it = (if out_of_range it then Inr False else IsFilledIndex (it_index it) r)"

definition it_read :: "'a ring_buffer \<Rightarrow> ring_iterator \<Rightarrow> 'a res" where
  "it_read r it = ReadBuffer (it_index it) r"

text \<open>The loop \<open>for (it = start; it; step)\<close> with at most \<open>n\<close> rounds.\<close>

fun iterate :: "('a ring_buffer \<Rightarrow> ring_iterator \<Rightarrow> ring_iterator) \<Rightarrow> 'a ring_buffer \<Rightarrow> nat \<Rightarrow> ring_iterator \<Rightarrow> 'a list res" where
  "iterate step r 0 it = Inl Diverges"
| "iterate step r (Suc n) it = rbind (it_bool r it) (\<lambda>b.
     if b then rbind (it_read r it) (\<lambda>x. rbind (iterate step r n (step r it)) (\<lambda>xs. Inr (x # xs))) else Inr [])"

section \<open>The values a buffer remembers\<close>

text \<open>The values \<open>vs\<close> were saved; each of the last \<open>kSize\<close> is at its place modulo \<open>kSize\<close>.\<close>

definition remembers :: "'a list \<Rightarrow> 'a ring_buffer \<Rightarrow> bool" where
  "remembers vs r \<longleftrightarrow> 0 < length (rb_cells r) \<and> length vs + length (rb_cells r) < 2 ^ 64 \<and>
     current_index r = word_of_nat (length vs) \<and>
     (\<forall>j < length vs. length vs \<le> j + length (rb_cells r) \<longrightarrow> rb_cells r ! (j mod length (rb_cells r)) = vs ! j)"

lemma unat_small: "n < 2 ^ 64 \<Longrightarrow> unat (word_of_nat n :: u64) = n"
  by (simp add: unat_of_nat take_bit_nat_eq_self)

lemma remembers_unat:
  assumes "remembers vs r"
  shows "unat (current_index r) = length vs" "unat (rb_BufferSize r) = length (rb_cells r)" "rb_BufferSize r \<noteq> 0"
proof -
  show "unat (current_index r) = length vs" "unat (rb_BufferSize r) = length (rb_cells r)"
    using assms by (auto simp: remembers_def rb_BufferSize_def unat_small)
  then show "rb_BufferSize r \<noteq> 0" using assms by (auto simp: remembers_def)
qed

lemma BufferIndex_ok:
  assumes "remembers vs r" "unat n \<le> length (rb_cells r)"
  shows "\<exists>i. BufferIndex n r = Inr i \<and> unat i = (length vs + unat n) mod length (rb_cells r)"
proof -
  have "unat (current_index r + n) = length vs + unat n"
    using assms remembers_unat [OF assms(1)] by (simp add: remembers_def unat_add_lem [THEN iffD1])
  then have "unat ((current_index r + n) mod rb_BufferSize r) = (length vs + unat n) mod length (rb_cells r)"
    using remembers_unat(2) [OF assms(1)] by (simp add: unat_mod)
  with remembers_unat(3) [OF assms(1)] show ?thesis by (simp add: BufferIndex_def)
qed

lemma filled_iff:
  fixes len n K :: nat
  assumes "n < K"
  shows "(len + n) mod K < len \<longleftrightarrow> K \<le> len + n"
proof (cases "K \<le> len + n")
  case True
  then show ?thesis
  proof (cases "len < K")
    case small: True
    with True assms have "(len + n) mod K = len + n - K" by (simp add: le_mod_geq)
    with True small assms show ?thesis by linarith
  next
    case False
    with True assms mod_less_divisor [of K "len + n"] show ?thesis by linarith
  qed
qed simp

lemma IsFilledIndex_ok:
  assumes "remembers vs r" "unat n < length (rb_cells r)"
  shows "IsFilledIndex n r = Inr (length (rb_cells r) \<le> length vs + unat n)"
proof -
  obtain i where i: "BufferIndex n r = Inr i" "unat i = (length vs + unat n) mod length (rb_cells r)"
    using BufferIndex_ok assms less_imp_le by blast
  with remembers_unat(1) [OF assms(1)] filled_iff [OF assms(2)] show ?thesis
    by (simp add: IsFilledIndex_def IsFilledIndexByBufferIndex_def word_less_nat_alt)
qed

lemma ReadBuffer_ok:
  assumes "remembers vs r" "unat n < length (rb_cells r)"
  shows "ReadBuffer n r = (if length (rb_cells r) \<le> length vs + unat n
    then Inr (vs ! (length vs + unat n - length (rb_cells r))) else Inl CheckFailed)"
proof -
  let ?K = "length (rb_cells r)"
  obtain i where i: "BufferIndex n r = Inr i" "unat i = (length vs + unat n) mod ?K"
    using BufferIndex_ok assms less_imp_le by blast
  have "rb_cells r ! unat i = vs ! (length vs + unat n - ?K)" if "?K \<le> length vs + unat n"
    using assms that unfolding i(2) by (simp add: remembers_def le_mod_geq)
  with i remembers_unat(1) [OF assms(1)] filled_iff [OF assms(2)] show ?thesis
    by (simp add: ReadBuffer_def IsFilledIndexByBufferIndex_def word_less_nat_alt)
qed

lemma mod_window_neq:
  fixes j len K :: nat
  assumes "j < len" "len < j + K"
  shows "j mod K \<noteq> len mod K"
proof
  assume "j mod K = len mod K"
  then have "K dvd len - j" using assms(1) mod_eq_dvd_iff_nat [of j len K] by simp
  with assms show False using dvd_imp_le [of K "len - j"] by linarith
qed

lemma SaveToBuffer_ok:
  assumes "remembers vs r" "Suc (length vs) + length (rb_cells r) < 2 ^ 64"
  shows "\<exists>r'. SaveToBuffer v r = Inr r' \<and> remembers (vs @ [v]) r' \<and> length (rb_cells r') = length (rb_cells r)"
proof -
  let ?K = "length (rb_cells r)" and ?n = "length vs"
  obtain i where i: "BufferIndex 0 r = Inr i" "unat i = ?n mod ?K" using BufferIndex_ok [OF assms(1), of 0] by auto
  let ?r = "r\<lparr>rb_cells := (rb_cells r)[?n mod ?K := v], current_index := current_index r + 1\<rparr>"
  have K: "0 < ?K" using assms(1) by (simp add: remembers_def)
  have "(rb_cells r)[?n mod ?K := v] ! (j mod ?K) = (vs @ [v]) ! j" if "j < Suc ?n" "Suc ?n \<le> j + ?K" for j
  proof (cases "j = ?n")
    case False
    with that have "j < ?n" by simp
    with mod_window_neq [OF this, of ?K] that assms(1) show ?thesis
      by (simp add: nth_append remembers_def)
  qed (use K in simp)
  then have "remembers (vs @ [v]) ?r" using assms K by (simp add: remembers_def)
  with i show ?thesis by (simp add: SaveToBuffer_def)
qed

section \<open>Iteration\<close>

abbreviation it_at :: "'a ring_buffer \<Rightarrow> nat \<Rightarrow> ring_iterator" where
  "it_at r a \<equiv> \<lparr>it_index = word_of_nat a, out_of_range = (a = length (rb_cells r))\<rparr>"

lemma remembers_bound: "remembers vs r \<Longrightarrow> a \<le> length (rb_cells r) \<Longrightarrow> unat (word_of_nat a :: u64) = a"
  by (intro unat_small) (simp add: remembers_def)

lemma it_increment_at:
  assumes "remembers vs r" "a < length (rb_cells r)"
  shows "it_increment r (it_at r a) = it_at r (Suc a)"
proof -
  have "(word_of_nat (Suc a) :: u64) = rb_BufferSize r \<longleftrightarrow> Suc a = length (rb_cells r)"
    using remembers_unat(2) [OF assms(1)] remembers_bound [OF assms(1), of "Suc a"] assms(2) word_unat_eq_iff [of "word_of_nat (Suc a) :: u64"]
    by (auto simp: rb_BufferSize_def)
  with assms(2) show ?thesis by (simp add: it_increment_def Let_def add.commute)
qed

lemma iterate_forward:
  assumes "remembers vs r" "a \<le> length (rb_cells r)" "length (rb_cells r) \<le> length vs + a"
    "n > length (rb_cells r) - a"
  shows "iterate it_increment r n (it_at r a) = Inr (drop (length vs + a - length (rb_cells r)) vs)"
  using assms
proof (induction n arbitrary: a)
  case (Suc n)
  let ?K = "length (rb_cells r)"
  show ?case
  proof (cases "a = ?K")
    case False
    with Suc.prems have a: "a < ?K" by simp
    have u: "unat (word_of_nat a :: u64) = a" using remembers_bound [OF Suc.prems(1,2)] .
    have "iterate it_increment r n (it_at r (Suc a)) = Inr (drop (length vs + Suc a - ?K) vs)"
      using Suc.prems a by (intro Suc.IH) auto
    with IsFilledIndex_ok [OF Suc.prems(1), of "word_of_nat a"] ReadBuffer_ok [OF Suc.prems(1), of "word_of_nat a"]
      it_increment_at [OF Suc.prems(1) a] Suc.prems(3) a
    show ?thesis by (simp add: u it_bool_def it_read_def Suc_diff_le Cons_nth_drop_Suc)
  qed (simp add: it_bool_def)
qed simp

lemma iterate_backward:
  assumes "remembers vs r" "a < length (rb_cells r)" "n > Suc a"
  shows "iterate it_decrement r n (ring_iterator_at (word_of_nat a)) = Inr (if length (rb_cells r) \<le> length vs + a
    then rev (drop (length vs - length (rb_cells r)) (take (Suc (length vs + a) - length (rb_cells r)) vs)) else [])"
  using assms
proof (induction n arbitrary: a)
  case (Suc n)
  let ?K = "length (rb_cells r)" and ?it = "ring_iterator_at (word_of_nat a)"
  have u: "unat (word_of_nat a :: u64) = a" using remembers_bound [OF Suc.prems(1), of a] Suc.prems(2) by simp
  have bool: "it_bool r ?it = Inr (?K \<le> length vs + a)"
    using IsFilledIndex_ok [OF Suc.prems(1), of "word_of_nat a"] Suc.prems(2) by (simp add: it_bool_def ring_iterator_at_def u)
  show ?case
  proof (cases "?K \<le> length vs + a")
    case True
    have read: "it_read r ?it = Inr (vs ! (length vs + a - ?K))"
      using ReadBuffer_ok [OF Suc.prems(1), of "word_of_nat a"] Suc.prems(2) True by (simp add: it_read_def ring_iterator_at_def u)
    have last: "take (Suc (length vs + a) - ?K) vs = take (length vs + a - ?K) vs @ [vs ! (length vs + a - ?K)]"
      using True Suc.prems(2) by (simp add: Suc_diff_le take_Suc_conv_app_nth)
    have "iterate it_decrement r n (it_decrement r ?it) =
        Inr (rev (drop (length vs - ?K) (take (length vs + a - ?K) vs)))"
    proof (cases a)
      case 0
      then show ?thesis using Suc.prems(3)
        by (cases n) (simp_all add: it_decrement_def ring_iterator_at_def Let_def it_bool_def)
    next
      case (Suc b)
      have "word_of_nat a \<noteq> (0 :: u64)" using u Suc by auto
      then have "it_decrement r ?it = ring_iterator_at (word_of_nat b)"
        by (simp add: it_decrement_def ring_iterator_at_def Let_def Suc)
      with Suc.IH [OF Suc.prems(1), of b] Suc.prems(2,3) Suc True show ?thesis by auto
    qed
    with bool read True last show ?thesis by simp
  qed (simp add: bool)
qed simp

fun save_all :: "'a list \<Rightarrow> 'a ring_buffer \<Rightarrow> 'a ring_buffer res" where
  "save_all [] r = Inr r"
| "save_all (v # vs) r = rbind (SaveToBuffer v r) (save_all vs)"

lemma save_all_ok:
  assumes "remembers us r" "length us + length vs + length (rb_cells r) < 2 ^ 64"
  shows "\<exists>r'. save_all vs r = Inr r' \<and> remembers (us @ vs) r' \<and> length (rb_cells r') = length (rb_cells r)"
  using assms
proof (induction vs arbitrary: us r)
  case (Cons v vs)
  obtain r1 where "SaveToBuffer v r = Inr r1" "remembers (us @ [v]) r1" "length (rb_cells r1) = length (rb_cells r)"
    using SaveToBuffer_ok [OF Cons.prems(1), of v] Cons.prems(2) by auto
  with Cons.IH [of "us @ [v]" r1] Cons.prems(2) show ?case by auto
qed simp

text \<open>
  After any values were saved the buffer holds exactly the last \<open>kSize\<close> of them: the loop from \<open>Begin\<close> gives
  them from the oldest to the newest, the loop from \<open>End\<close> in the opposite order, \<open>ReadBuffer\<close> gives each at its
  index, and an index that was never filled stops at the check. The same holds after \<open>Clear\<close>, which leaves a new
  buffer over old contents.
\<close>

theorem ring_buffer_remembers:
  assumes "cells \<noteq> []" "length vs + length cells < 2 ^ 64"
  shows "\<exists>r. save_all vs (RingBuffer_new cells) = Inr r \<and>
    iterate it_increment r (length cells + 1) (rb_Begin r) = Inr (drop (length vs - length cells) vs) \<and>
    iterate it_decrement r (length cells + 1) (rb_End r) = Inr (rev (drop (length vs - length cells) vs)) \<and>
    (\<forall>n < length cells. ReadBuffer (word_of_nat n) r = (if length cells \<le> length vs + n
       then Inr (vs ! (length vs + n - length cells)) else Inl CheckFailed)) \<and>
    rb_Clear r = RingBuffer_new (rb_cells r)"
proof -
  have "remembers [] (RingBuffer_new cells)" using assms by (simp add: remembers_def RingBuffer_new_def)
  then obtain r where r: "save_all vs (RingBuffer_new cells) = Inr r" "remembers vs r" "length (rb_cells r) = length cells"
    using save_all_ok [of "[]" "RingBuffer_new cells" vs] assms(2) by (auto simp: RingBuffer_new_def)
  let ?K = "length cells"
  note u = remembers_unat [OF r(2)]
  have size: "rb_BufferSize r = word_of_nat ?K" by (simp add: rb_BufferSize_def r(3))
  have "iterate it_increment r (?K + 1) (rb_Begin r) = Inr (drop (length vs - ?K) vs)"
  proof (cases "vs = []")
    case True
    then show ?thesis using r(2) by (simp add: rb_Begin_def it_bool_def ring_iterator_at_def IsFilledIndex_def
        BufferIndex_def IsFilledIndexByBufferIndex_def remembers_def u(3))
  next
    case False
    have "rb_Begin r = it_at r (?K - length vs)"
    proof (cases "length vs < ?K")
      case True
      then have "current_index r < rb_BufferSize r" using u r(3) by (simp add: word_less_nat_alt)
      moreover have "?K - length vs \<noteq> ?K" using True False by (cases vs) auto
      ultimately show ?thesis using True r(2,3)
        by (simp add: rb_Begin_def ring_iterator_at_def size remembers_def of_nat_diff)
    next
      case ge: False
      then have "\<not> current_index r < rb_BufferSize r" using u r(3) by (simp add: word_less_nat_alt)
      with ge assms(1) show ?thesis by (simp add: rb_Begin_def ring_iterator_at_def r(3))
    qed
    with iterate_forward [OF r(2), of "?K - length vs" "?K + 1"] r(3) show ?thesis
      by (cases "length vs \<le> ?K") simp_all
  qed
  moreover have "iterate it_decrement r (?K + 1) (rb_End r) = Inr (rev (drop (length vs - ?K) vs))"
  proof -
    have "rb_End r = ring_iterator_at (word_of_nat (?K - 1))" 
      using assms(1) by (cases cells) (simp_all add: rb_End_def size)
    with iterate_backward [OF r(2), of "?K - 1" "?K + 1"] assms(1) r(3) show ?thesis
      by (cases vs) auto
  qed
  moreover have "ReadBuffer (word_of_nat n) r = (if ?K \<le> length vs + n
       then Inr (vs ! (length vs + n - ?K)) else Inl CheckFailed)" if "n < ?K" for n
    using ReadBuffer_ok [OF r(2), of "word_of_nat n"] remembers_bound [OF r(2), of n] that r(3) by simp
  ultimately show ?thesis using r(1) by (simp add: rb_Clear_def RingBuffer_new_def)
qed

theorem ring_buffer_remembers_witness:
  "\<exists>r. save_all [1, 2, 3, 4, 5] (RingBuffer_new [0, 0, 0 :: nat]) = Inr r \<and>
    iterate it_increment r 4 (rb_Begin r) = Inr [3, 4, 5] \<and> iterate it_decrement r 4 (rb_End r) = Inr [5, 4, 3]"
proof -
  have "[0, 0, 0 :: nat] \<noteq> []" "length [1, 2, 3, 4, 5 :: nat] + length [0, 0, 0 :: nat] < 2 ^ 64" by simp_all
  moreover have "length [0, 0, 0 :: nat] + 1 = 4" "drop (length [1, 2, 3, 4, 5 :: nat] - length [0, 0, 0 :: nat]) [1, 2, 3, 4, 5] = [3, 4, 5 :: nat]"
    by simp_all
  ultimately show ?thesis
    using ring_buffer_remembers [of "[0, 0, 0 :: nat]" "[1, 2, 3, 4, 5]"] by (simp only: rev.simps append.simps) blast
qed

end
