(* ===== verification/StdAlgorithms.thy ===== *)
theory StdAlgorithms
  imports StrictWeak "HOL-Library.Multiset"
begin

text \<open>
  The algorithms of the C++ standard library that the flat containers call, on lists: the binary searches, the
  stable sort, the removal of equal neighbours, the stable merge and the check of neighbours. \<open>lt\<close> compares values.
\<close>

section \<open>Definitions\<close>

text \<open>The loop of \<open>std::lower_bound\<close> and \<open>std::upper_bound\<close>; \<open>before\<close> tells which elements lie left of the bound.\<close>

function bound_loop :: "('v \<Rightarrow> bool) \<Rightarrow> 'v list \<Rightarrow> nat \<Rightarrow> nat \<Rightarrow> nat" where
  "bound_loop before xs first len =
     (if len = 0 then first
      else let half = len div 2; mid = first + half in
        if before (xs ! mid) then bound_loop before xs (mid + 1) (len - half - 1)
        else bound_loop before xs first half)"
  by pat_completeness auto
termination by (relation "measure (\<lambda>(before, xs, first, len). len)") auto

declare bound_loop.simps [simp del]

definition std_lower_bound :: "('v \<Rightarrow> 'k \<Rightarrow> bool) \<Rightarrow> 'v list \<Rightarrow> nat \<Rightarrow> nat \<Rightarrow> 'k \<Rightarrow> nat" where
  "std_lower_bound lower xs first limit k = bound_loop (\<lambda>x. lower x k) xs first (limit - first)"

definition std_upper_bound :: "('k \<Rightarrow> 'v \<Rightarrow> bool) \<Rightarrow> 'v list \<Rightarrow> nat \<Rightarrow> nat \<Rightarrow> 'k \<Rightarrow> nat" where
  "std_upper_bound higher xs first limit k = bound_loop (\<lambda>x. \<not> higher k x) xs first (limit - first)"

text \<open>\<open>std::stable_sort\<close>: every value goes behind those that are not greater.\<close>

fun put_after :: "('v \<Rightarrow> 'v \<Rightarrow> bool) \<Rightarrow> 'v \<Rightarrow> 'v list \<Rightarrow> 'v list" where
  "put_after lt v [] = [v]"
| "put_after lt v (x # xs) = (if lt v x then v # x # xs else x # put_after lt v xs)"

definition stable_sort :: "('v \<Rightarrow> 'v \<Rightarrow> bool) \<Rightarrow> 'v list \<Rightarrow> 'v list" where
  "stable_sort lt xs = foldl (\<lambda>ys v. put_after lt v ys) [] xs"

text \<open>\<open>std::unique\<close>: a value is dropped if it equals the last one that was kept.\<close>

fun unique_from :: "('v \<Rightarrow> 'v \<Rightarrow> bool) \<Rightarrow> 'v \<Rightarrow> 'v list \<Rightarrow> 'v list" where
  "unique_from eq x [] = []"
| "unique_from eq x (y # ys) = (if eq x y then unique_from eq x ys else y # unique_from eq y ys)"

fun std_unique :: "('v \<Rightarrow> 'v \<Rightarrow> bool) \<Rightarrow> 'v list \<Rightarrow> 'v list" where
  "std_unique eq [] = []"
| "std_unique eq (x # xs) = x # unique_from eq x xs"

fun inplace_merge :: "('v \<Rightarrow> 'v \<Rightarrow> bool) \<Rightarrow> 'v list \<Rightarrow> 'v list \<Rightarrow> 'v list" where
  "inplace_merge lt [] ys = ys"
| "inplace_merge lt (x # xs) [] = x # xs"
| "inplace_merge lt (x # xs) (y # ys) =
     (if lt y x then y # inplace_merge lt (x # xs) ys else x # inplace_merge lt xs (y # ys))"

text \<open>\<open>adjacent_find\<close> finds no neighbours with the property.\<close>

fun no_adjacent :: "('v \<Rightarrow> 'v \<Rightarrow> bool) \<Rightarrow> 'v list \<Rightarrow> bool" where
  "no_adjacent p (x # y # ys) \<longleftrightarrow> \<not> p x y \<and> no_adjacent p (y # ys)"
| "no_adjacent p xs \<longleftrightarrow> True"

section \<open>Binary search\<close>

lemma takeWhile_all_before:
  assumes "\<And>i j. i \<le> j \<Longrightarrow> j < length xs \<Longrightarrow> before (xs ! j) \<Longrightarrow> before (xs ! i)"
    "m < length xs" "before (xs ! m)"
  shows "takeWhile before xs = take (Suc m) xs @ takeWhile before (drop (Suc m) xs)"
proof -
  have "\<forall>x \<in> set (take (Suc m) xs). before x"
    using assms by (auto simp: in_set_conv_nth) (meson less_Suc_eq_le)
  then have "takeWhile before (take (Suc m) xs @ drop (Suc m) xs) = take (Suc m) xs @ takeWhile before (drop (Suc m) xs)"
    by (intro takeWhile_append2) auto
  then show ?thesis by simp
qed

lemma takeWhile_take_until:
  assumes "m < length xs" "\<not> before (xs ! m)"
  shows "takeWhile before (take m xs) = takeWhile before xs"
proof -
  have "takeWhile before (take m xs @ xs ! m # drop (Suc m) xs) = takeWhile before (take m xs)"
    using assms(2) by (simp add: takeWhile_tail)
  then show ?thesis using assms(1) by (simp add: id_take_nth_drop [symmetric])
qed

text \<open>The search finds the end of the elements that lie before, if the list is partitioned that way.\<close>

lemma bound_loop_eq:
  assumes "first + len \<le> n" "n \<le> length xs"
    "\<And>i j. i \<le> j \<Longrightarrow> j < n \<Longrightarrow> before (xs ! j) \<Longrightarrow> before (xs ! i)"
  shows "bound_loop before xs first len = first + length (takeWhile before (take len (drop first xs)))"
  using assms(1)
proof (induction len arbitrary: first rule: less_induct)
  case (less len)
  show ?case
  proof (cases "len = 0")
    case True
    then show ?thesis by (simp add: bound_loop.simps)
  next
    case False
    let ?ys = "take len (drop first xs)" and ?half = "len div 2"
    have h: "?half < length ?ys" "?half < len" using False less.prems assms(2) by auto
    have mid: "?ys ! ?half = xs ! (first + ?half)" using h less.prems assms(2) by simp
    have part: "before (?ys ! i)" if "i \<le> j" "j < length ?ys" "before (?ys ! j)" for i j
      using that assms(2) assms(3) [of "first + i" "first + j"] less.prems by simp
    show ?thesis
    proof (cases "before (xs ! (first + ?half))")
      case True
      have d: "drop (Suc ?half) ?ys = take (len - ?half - 1) (drop (first + ?half + 1) xs)"
        by (simp add: drop_take add.commute)
      have "takeWhile before ?ys = take (Suc ?half) ?ys @ takeWhile before (drop (Suc ?half) ?ys)"
        using part h(1) True unfolding mid [symmetric] by (rule takeWhile_all_before)
      then have "length (takeWhile before ?ys)
        = Suc ?half + length (takeWhile before (take (len - ?half - 1) (drop (first + ?half + 1) xs)))"
        using h unfolding d by simp
      moreover have "bound_loop before xs (first + ?half + 1) (len - ?half - 1)
        = first + ?half + 1 + length (takeWhile before (take (len - ?half - 1) (drop (first + ?half + 1) xs)))"
        using False less.prems by (intro less.IH) auto
      ultimately show ?thesis using True False by (simp add: bound_loop.simps [of before xs first len] Let_def)
    next
      case no: False
      have "takeWhile before (take ?half ?ys) = takeWhile before ?ys"
        using no h(1) unfolding mid [symmetric] by (intro takeWhile_take_until)
      moreover have "take ?half ?ys = take ?half (drop first xs)" using h by simp
      moreover have "bound_loop before xs first ?half = first + length (takeWhile before (take ?half (drop first xs)))"
        using False less.prems by (intro less.IH) auto
      ultimately show ?thesis using no False by (simp add: bound_loop.simps [of before xs first len] Let_def)
    qed
  qed
qed

section \<open>Sorting, removing equal neighbours and merging\<close>

text \<open>An equivalence class of the order, or no element at all.\<close>

definition is_class :: "('v \<Rightarrow> 'v \<Rightarrow> bool) \<Rightarrow> ('v \<Rightarrow> bool) \<Rightarrow> bool" where
  "is_class lt p \<longleftrightarrow> (\<forall>a b. p a \<longrightarrow> (p b \<longleftrightarrow> equivalent lt a b))"

abbreviation nondecreasing :: "('v \<Rightarrow> 'v \<Rightarrow> bool) \<Rightarrow> 'v list \<Rightarrow> bool" where
  "nondecreasing lt \<equiv> sorted_wrt (\<lambda>a b. \<not> lt b a)"

lemma find_filter: "find p xs = (case filter p xs of [] \<Rightarrow> None | x # _ \<Rightarrow> Some x)"
  by (induction xs) auto

lemma set_put_after [simp]: "set (put_after lt v xs) = insert v (set xs)"
  by (induction xs) auto

lemma set_unique_from: "set (unique_from eq x xs) \<subseteq> set xs"
  by (induction xs arbitrary: x) auto

lemma set_std_unique: "set (std_unique eq xs) \<subseteq> set xs"
  using set_unique_from [of eq "hd xs" "tl xs"] by (cases xs) auto

lemma set_inplace_merge [simp]: "set (inplace_merge lt xs ys) = set xs \<union> set ys"
  by (induction lt xs ys rule: inplace_merge.induct) auto

lemma mset_put_after: "mset (put_after lt v xs) = add_mset v (mset xs)"
  by (induction xs) auto

lemma mset_stable_sort: "mset (stable_sort lt xs) = mset xs"
proof -
  have "mset (foldl (\<lambda>ys v. put_after lt v ys) ys xs) = mset ys + mset xs" for ys
    by (induction xs arbitrary: ys) (auto simp: mset_put_after)
  from this [of "[]"] show ?thesis by (simp add: stable_sort_def)
qed

lemma merge_induct [case_names left right both]:
  "\<lbrakk>\<And>ys. P [] ys; \<And>x xs. P (x # xs) [];
    \<And>x xs y ys. \<lbrakk>P (x # xs) ys; P xs (y # ys)\<rbrakk> \<Longrightarrow> P (x # xs) (y # ys)\<rbrakk> \<Longrightarrow> P xs ys"
  by induction_schema (pat_completeness, lexicographic_order)

context strict_weak
begin

lemma is_classD: "is_class lt p \<Longrightarrow> p a \<Longrightarrow> lt a b \<Longrightarrow> \<not> p b"
  "is_class lt p \<Longrightarrow> p a \<Longrightarrow> lt b a \<Longrightarrow> \<not> p b"
  unfolding is_class_def equivalent_def by blast+

lemma is_class_cong: "is_class lt p \<Longrightarrow> equivalent lt a b \<Longrightarrow> p a \<longleftrightarrow> p b"
  unfolding is_class_def equivalent_def by blast

lemma nondecreasing_put_after: "nondecreasing lt xs \<Longrightarrow> nondecreasing lt (put_after lt v xs)"
  by (induction xs) (auto dest: asym lt_not_lt_trans)

lemma filter_put_after:
  assumes "is_class lt p"
  shows "nondecreasing lt xs \<Longrightarrow> filter p (put_after lt v xs) = filter p xs @ filter p [v]"
proof (induction xs)
  case (Cons x xs)
  have "filter p (x # xs) = []" if "lt v x" "p v"
  proof -
    have "\<forall>z \<in> set (x # xs). lt v z" using Cons.prems that(1) by (auto dest: lt_not_lt_trans)
    then show ?thesis using is_classD(1) [OF assms that(2)] by (simp add: filter_empty_conv)
  qed
  then show ?case using Cons by auto
qed simp

lemma stable_sort_from:
  "nondecreasing lt ys \<Longrightarrow> nondecreasing lt (foldl (\<lambda>ys v. put_after lt v ys) ys xs)"
  "nondecreasing lt ys \<Longrightarrow> is_class lt p \<Longrightarrow>
    filter p (foldl (\<lambda>ys v. put_after lt v ys) ys xs) = filter p ys @ filter p xs"
  by (induction xs arbitrary: ys) (auto simp: nondecreasing_put_after filter_put_after)

lemma nondecreasing_stable_sort: "nondecreasing lt (stable_sort lt xs)"
  unfolding stable_sort_def by (rule stable_sort_from(1)) simp

lemma filter_stable_sort: "is_class lt p \<Longrightarrow> filter p (stable_sort lt xs) = filter p xs"
  unfolding stable_sort_def by (subst stable_sort_from(2)) simp_all

lemma sorted_unique_from:
  "nondecreasing lt (x # xs) \<Longrightarrow> sorted_wrt lt (x # unique_from (\<lambda>a b. \<not> lt a b) x xs)"
proof (induction xs arbitrary: x)
  case (Cons y ys)
  show ?case
  proof (cases "lt x y")
    case True
    have "lt x z" if "z \<in> set (unique_from (\<lambda>a b. \<not> lt a b) y ys)" for z
      using that set_unique_from [of _ y ys] Cons.prems lt_not_lt_trans [OF True] by fastforce
    then show ?thesis using Cons.IH [of y] Cons.prems True by simp
  next
    case False
    then show ?thesis using Cons.IH [of x] Cons.prems by simp
  qed
qed simp

lemma find_unique_from:
  assumes "is_class lt p"
  shows "nondecreasing lt (x # xs) \<Longrightarrow> find p (x # unique_from (\<lambda>a b. \<not> lt a b) x xs) = find p (x # xs)"
proof (induction xs arbitrary: x)
  case (Cons y ys)
  show ?case
  proof (cases "lt x y")
    case True
    then show ?thesis using Cons.IH [of y] Cons.prems by simp
  next
    case False
    with Cons.prems have "p x \<longleftrightarrow> p y"
      by (intro is_class_cong [OF assms]) (simp add: equivalent_def)
    with Cons.IH [of x] Cons.prems False show ?thesis by (cases "p x") simp_all
  qed
qed simp

lemma sorted_unique: "nondecreasing lt xs \<Longrightarrow> sorted_wrt lt (std_unique (\<lambda>a b. \<not> lt a b) xs)"
  using sorted_unique_from [of "hd xs" "tl xs"] by (cases xs) simp_all

lemma find_unique:
  "is_class lt p \<Longrightarrow> nondecreasing lt xs \<Longrightarrow> find p (std_unique (\<lambda>a b. \<not> lt a b) xs) = find p xs"
  using find_unique_from [of p "hd xs" "tl xs"] by (cases xs) simp_all

lemma sorted_merge:
  "\<lbrakk>sorted_wrt lt xs; sorted_wrt lt ys; \<forall>x \<in> set xs. \<forall>y \<in> set ys. \<not> equivalent lt x y\<rbrakk>
    \<Longrightarrow> sorted_wrt lt (inplace_merge lt xs ys)"
proof (induction xs ys rule: merge_induct)
  case (both x xs y ys)
  show ?case
  proof (cases "lt y x")
    case True
    then have "\<forall>z \<in> set (x # xs) \<union> set ys. lt y z" using both.prems by (auto intro: lt_trans)
    with True both show ?thesis by simp
  next
    case False
    with both.prems(3) have "lt x y" by (simp add: equivalent_def)
    then have "\<forall>z \<in> set xs \<union> set (y # ys). lt x z" using both.prems by (auto intro: lt_trans)
    with False both show ?thesis by simp
  qed
qed auto

lemma filter_merge:
  assumes "is_class lt p"
  shows "\<lbrakk>sorted_wrt lt xs; sorted_wrt lt ys\<rbrakk> \<Longrightarrow> filter p (inplace_merge lt xs ys) = filter p xs @ filter p ys"
proof (induction xs ys rule: merge_induct)
  case (both x xs y ys)
  have "filter p (x # xs) = []" if "lt y x" "p y"
  proof -
    have "\<forall>z \<in> set (x # xs). lt y z" using both.prems(1) that(1) by (auto intro: lt_trans)
    then show ?thesis using is_classD(1) [OF assms that(2)] by (simp add: filter_empty_conv)
  qed
  then show ?case using both by auto
qed auto

text \<open>What is not above the other list stays in front.\<close>

lemma merge_append:
  "\<forall>a \<in> set as. \<forall>y \<in> set ys. \<not> lt y a \<Longrightarrow> inplace_merge lt (as @ bs) ys = as @ inplace_merge lt bs ys"
proof (induction as)
  case (Cons a as)
  then show ?case by (cases ys) (cases "as @ bs"; auto)+
qed simp

text \<open>A strictly sorted list is determined by its elements.\<close>

lemma sorted_eq: "\<lbrakk>sorted_wrt lt xs; sorted_wrt lt ys; set xs = set ys\<rbrakk> \<Longrightarrow> xs = ys"
proof (induction xs arbitrary: ys)
  case (Cons x xs)
  then obtain y ys' where ys: "ys = y # ys'" by (cases ys) auto
  have "x = y"
    using Cons.prems asym unfolding ys by (auto simp: set_eq_iff)  metis+
  moreover have "x \<notin> set xs" "y \<notin> set ys'" using Cons.prems irrefl ys by auto
  ultimately have "set xs = set ys'" using Cons.prems(3) ys by auto
  with Cons ys \<open>x = y\<close> show ?case by simp
qed simp

end

end
