(* ===== verification/FlatTree.thy ===== *)
theory FlatTree
  imports StdAlgorithms
begin

text \<open>
  base/containers/flat_tree.h, flat_map.h, fixed_flat_map.h and fixed_flat_set.h: an ordered container in a sorted
  vector. \<open>body_\<close> is a list; an iterator is a position, and a position behind the end is no iterator of the
  container. \<open>comp_\<close> and \<open>GetKeyFromValue\<close> are the arguments \<open>lt\<close> and \<open>key\<close>; a \<open>flat_set\<close> has the identity for
  \<open>key\<close>, a \<open>flat_map\<close> has \<open>fst\<close>. Memory for the body does not run out, so \<open>reserve\<close> and \<open>shrink_to_fit\<close> do nothing that
  can be seen.
\<close>

section \<open>Comparison and construction\<close>

definition value_comp :: "('k \<Rightarrow> 'k \<Rightarrow> bool) \<Rightarrow> ('v \<Rightarrow> 'k) \<Rightarrow> 'v \<Rightarrow> 'v \<Rightarrow> bool" where
  "value_comp lt key a b = lt (key a) (key b)"

definition is_sorted_and_unique :: "'v list \<Rightarrow> ('v \<Rightarrow> 'v \<Rightarrow> bool) \<Rightarrow> bool" where
  "is_sorted_and_unique values cmp = no_adjacent (\<lambda>a b. \<not> cmp a b) values"

definition flat_erase_range :: "nat \<Rightarrow> nat \<Rightarrow> 'v list \<Rightarrow> (nat \<times> 'v list) res" where
  "flat_erase_range first limit body =
     guardr OutOfRange (first \<le> limit \<and> limit \<le> length body) (Inr (first, take first body @ drop limit body))"

definition sort_and_unique_range :: "('v \<Rightarrow> 'v \<Rightarrow> bool) \<Rightarrow> nat \<Rightarrow> nat \<Rightarrow> 'v list \<Rightarrow> 'v list res" where
  "sort_and_unique_range vlt first limit body =
     (let sorted = stable_sort vlt (take (limit - first) (drop first body));
          kept = std_unique (\<lambda>a b. \<not> vlt a b) sorted;
          body = take first body @ kept @ drop (length kept) sorted @ drop limit body in
      rbind (flat_erase_range (first + length kept) limit body) (\<lambda>(_, body). Inr body))"

definition sort_and_unique :: "('k \<Rightarrow> 'k \<Rightarrow> bool) \<Rightarrow> ('v \<Rightarrow> 'k) \<Rightarrow> 'v list \<Rightarrow> 'v list res" where
  "sort_and_unique lt key body = sort_and_unique_range (value_comp lt key) 0 (length body) body"

text \<open>The constructors and the assignment from a list: of any values, and of values said to be sorted.\<close>

definition flat_tree_of :: "('k \<Rightarrow> 'k \<Rightarrow> bool) \<Rightarrow> ('v \<Rightarrow> 'k) \<Rightarrow> 'v list \<Rightarrow> 'v list res" where
  "flat_tree_of lt key items = sort_and_unique lt key items"

definition flat_tree_sorted :: "('k \<Rightarrow> 'k \<Rightarrow> bool) \<Rightarrow> ('v \<Rightarrow> 'k) \<Rightarrow> 'v list \<Rightarrow> 'v list res" where
  "flat_tree_sorted lt key items = dcheck (is_sorted_and_unique items (value_comp lt key)) (Inr items)"

section \<open>Search\<close>

definition flat_lower_bound :: "('k \<Rightarrow> 'k \<Rightarrow> bool) \<Rightarrow> ('v \<Rightarrow> 'k) \<Rightarrow> 'k \<Rightarrow> 'v list \<Rightarrow> nat" where
  "flat_lower_bound lt key k body = std_lower_bound (\<lambda>v k. lt (key v) k) body 0 (length body) k"

definition flat_upper_bound :: "('k \<Rightarrow> 'k \<Rightarrow> bool) \<Rightarrow> ('v \<Rightarrow> 'k) \<Rightarrow> 'k \<Rightarrow> 'v list \<Rightarrow> nat" where
  "flat_upper_bound lt key k body = std_upper_bound (\<lambda>k v. lt k (key v)) body 0 (length body) k"

definition flat_equal_range :: "('k \<Rightarrow> 'k \<Rightarrow> bool) \<Rightarrow> ('v \<Rightarrow> 'k) \<Rightarrow> 'k \<Rightarrow> 'v list \<Rightarrow> nat \<times> nat" where
  "flat_equal_range lt key k body =
     (let lower = flat_lower_bound lt key k body in
      if lower = length body \<or> lt k (key (body ! lower)) then (lower, lower) else (lower, lower + 1))"

definition flat_count :: "('k \<Rightarrow> 'k \<Rightarrow> bool) \<Rightarrow> ('v \<Rightarrow> 'k) \<Rightarrow> 'k \<Rightarrow> 'v list \<Rightarrow> nat" where
  "flat_count lt key k body = (let (first, limit) = flat_equal_range lt key k body in limit - first)"

definition flat_find :: "('k \<Rightarrow> 'k \<Rightarrow> bool) \<Rightarrow> ('v \<Rightarrow> 'k) \<Rightarrow> 'k \<Rightarrow> 'v list \<Rightarrow> nat" where
  "flat_find lt key k body =
     (let (first, limit) = flat_equal_range lt key k body in if first = limit then length body else first)"

definition flat_contains :: "('k \<Rightarrow> 'k \<Rightarrow> bool) \<Rightarrow> ('v \<Rightarrow> 'k) \<Rightarrow> 'k \<Rightarrow> 'v list \<Rightarrow> bool" where
  "flat_contains lt key k body =
     (let lower = flat_lower_bound lt key k body in lower \<noteq> length body \<and> \<not> lt k (key (body ! lower)))"

section \<open>Insertion\<close>

definition unsafe_emplace :: "nat \<Rightarrow> 'v \<Rightarrow> 'v list \<Rightarrow> nat \<times> 'v list" where
  "unsafe_emplace position v body = (position, take position body @ v # drop position body)"

definition emplace_key_args ::
  "('k \<Rightarrow> 'k \<Rightarrow> bool) \<Rightarrow> ('v \<Rightarrow> 'k) \<Rightarrow> 'k \<Rightarrow> 'v \<Rightarrow> 'v list \<Rightarrow> (nat \<times> bool) \<times> 'v list" where
  "emplace_key_args lt key k v body =
     (let lower = flat_lower_bound lt key k body in
      if lower = length body \<or> lt k (key (body ! lower))
      then let (it, body) = unsafe_emplace lower v body in ((it, True), body)
      else ((lower, False), body))"

definition emplace_hint_key_args ::
  "('k \<Rightarrow> 'k \<Rightarrow> bool) \<Rightarrow> ('v \<Rightarrow> 'k) \<Rightarrow> nat \<Rightarrow> 'k \<Rightarrow> 'v \<Rightarrow> 'v list \<Rightarrow> ((nat \<times> bool) \<times> 'v list) res" where
  "emplace_hint_key_args lt key hint k v body =
     guardr OutOfRange (hint \<le> length body)
      (Inr
        (if hint = 0 \<or> lt (key (body ! (hint - 1))) k then
           if hint = length body \<or> lt k (key (body ! hint))
           then let (it, body) = unsafe_emplace hint v body in ((it, True), body)
           else if \<not> lt (key (body ! hint)) k then ((hint, False), body)
           else emplace_key_args lt key k v body
         else emplace_key_args lt key k v body))"

definition flat_insert :: "('k \<Rightarrow> 'k \<Rightarrow> bool) \<Rightarrow> ('v \<Rightarrow> 'k) \<Rightarrow> 'v \<Rightarrow> 'v list \<Rightarrow> (nat \<times> bool) \<times> 'v list" where
  "flat_insert lt key v body = emplace_key_args lt key (key v) v body"

definition flat_insert_hint ::
  "('k \<Rightarrow> 'k \<Rightarrow> bool) \<Rightarrow> ('v \<Rightarrow> 'k) \<Rightarrow> nat \<Rightarrow> 'v \<Rightarrow> 'v list \<Rightarrow> (nat \<times> 'v list) res" where
  "flat_insert_hint lt key hint v body =
     rbind (emplace_hint_key_args lt key hint (key v) v body) (\<lambda>(r, body). Inr (fst r, body))"

definition append_unique ::
  "('k \<Rightarrow> 'k \<Rightarrow> bool) \<Rightarrow> ('v \<Rightarrow> 'k) \<Rightarrow> nat \<Rightarrow> nat \<Rightarrow> 'v \<Rightarrow> 'v list \<Rightarrow> (nat \<times> bool) \<times> 'v list" where
  "append_unique lt key first limit v body =
     (let position = std_lower_bound (value_comp lt key) body first limit v in
      if position = limit \<or> value_comp lt key v (body ! position) then ((position, True), body @ [v])
      else ((position, False), body))"

fun append_loop ::
  "('k \<Rightarrow> 'k \<Rightarrow> bool) \<Rightarrow> ('v \<Rightarrow> 'k) \<Rightarrow> nat \<Rightarrow> 'v list \<Rightarrow> nat \<Rightarrow> 'v list \<Rightarrow> nat \<times> 'v list" where
  "append_loop lt key middle [] pos_first_new body = (pos_first_new, body)"
| "append_loop lt key middle (v # vs) pos_first_new body =
     (let ((it, inserted), body) = append_unique lt key 0 middle v body in
      append_loop lt key middle vs (if inserted then min pos_first_new it else pos_first_new) body)"

text \<open>\<open>multipass\<close> tells whether the input iterators are forward iterators.\<close>

definition flat_insert_range ::
  "('k \<Rightarrow> 'k \<Rightarrow> bool) \<Rightarrow> ('v \<Rightarrow> 'k) \<Rightarrow> bool \<Rightarrow> 'v list \<Rightarrow> 'v list \<Rightarrow> 'v list res" where
  "flat_insert_range lt key multipass vs body =
     (if vs = [] then Inr body
      else if multipass \<and> length vs = 1 then
        rbind (flat_insert_hint lt key (length body) (hd vs) body) (\<lambda>(_, body). Inr body)
      else
        let middle = length body;
            (pos_first_new, body) = append_loop lt key middle vs (length body) body in
        rbind (sort_and_unique_range (value_comp lt key) middle (length body) body) (\<lambda>body.
        Inr (take pos_first_new body @
          inplace_merge (value_comp lt key) (drop pos_first_new (take middle body)) (drop middle body))))"

text \<open>The private variants that overwrite an equivalent value.\<close>

definition tree_insert_or_assign ::
  "('k \<Rightarrow> 'k \<Rightarrow> bool) \<Rightarrow> ('v \<Rightarrow> 'k) \<Rightarrow> 'v \<Rightarrow> 'v list \<Rightarrow> (nat \<times> bool) \<times> 'v list" where
  "tree_insert_or_assign lt key v body =
     (let position = flat_lower_bound lt key (key v) body in
      if position = length body \<or> value_comp lt key v (body ! position)
      then let (it, body) = unsafe_emplace position v body in ((it, True), body)
      else ((position, False), body[position := v]))"

definition append_or_assign ::
  "('k \<Rightarrow> 'k \<Rightarrow> bool) \<Rightarrow> ('v \<Rightarrow> 'k) \<Rightarrow> nat \<Rightarrow> nat \<Rightarrow> 'v \<Rightarrow> 'v list \<Rightarrow> (nat \<times> bool) \<times> 'v list" where
  "append_or_assign lt key first limit v body =
     (let position = std_lower_bound (value_comp lt key) body first limit v in
      if position = limit \<or> value_comp lt key v (body ! position) then ((position, True), body @ [v])
      else ((position, False), body[position := v]))"

section \<open>Removal and the underlying vector\<close>

definition flat_erase :: "nat \<Rightarrow> 'v list \<Rightarrow> (nat \<times> 'v list) res" where
  "flat_erase position body =
     check (position \<noteq> length body)
      (guardr OutOfRange (position < length body) (Inr (position, take position body @ drop (position + 1) body)))"

definition flat_erase_key :: "('k \<Rightarrow> 'k \<Rightarrow> bool) \<Rightarrow> ('v \<Rightarrow> 'k) \<Rightarrow> 'k \<Rightarrow> 'v list \<Rightarrow> (nat \<times> 'v list) res" where
  "flat_erase_key lt key k body =
     (let (first, limit) = flat_equal_range lt key k body in
      rbind (flat_erase_range first limit body) (\<lambda>(_, body). Inr (limit - first, body)))"

definition flat_clear :: "'v list \<Rightarrow> 'v list" where
  "flat_clear body = []"

definition flat_extract :: "'v list \<Rightarrow> 'v list \<times> 'v list" where
  "flat_extract body = (body, [])"

definition flat_replace :: "('k \<Rightarrow> 'k \<Rightarrow> bool) \<Rightarrow> ('v \<Rightarrow> 'k) \<Rightarrow> 'v list \<Rightarrow> 'v list \<Rightarrow> 'v list res" where
  "flat_replace lt key new_body body = dcheck (is_sorted_and_unique new_body (value_comp lt key)) (Inr new_body)"

text \<open>\<open>remove_if\<close> moves what is kept to the front; \<open>EraseIf\<close> then drops the rest.\<close>

definition EraseIf :: "('v \<Rightarrow> bool) \<Rightarrow> 'v list \<Rightarrow> (nat \<times> 'v list) res" where
  "EraseIf pred body =
     (let kept = filter (\<lambda>v. \<not> pred v) body;
          it = length kept;
          body = kept @ drop it body;
          removed = length body - it in
      rbind (flat_erase_range it (length body) body) (\<lambda>(_, body). Inr (removed, body)))"

section \<open>flat_map\<close>

definition flat_map_at :: "('k \<Rightarrow> 'k \<Rightarrow> bool) \<Rightarrow> 'k \<Rightarrow> ('k \<times> 'm) list \<Rightarrow> 'm res" where
  "flat_map_at lt k body =
     (let found = flat_find lt fst k body in check (found \<noteq> length body) (Inr (snd (body ! found))))"

text \<open>\<open>operator[]\<close> gives a reference: the position of the element, with \<open>dflt\<close> for \<open>mapped_type()\<close>.\<close>

definition flat_map_index :: "('k \<Rightarrow> 'k \<Rightarrow> bool) \<Rightarrow> 'm \<Rightarrow> 'k \<Rightarrow> ('k \<times> 'm) list \<Rightarrow> nat \<times> ('k \<times> 'm) list" where
  "flat_map_index lt dflt k body =
     (let found = flat_lower_bound lt fst k body in
      if found = length body \<or> lt k (fst (body ! found)) then unsafe_emplace found (k, dflt) body
      else (found, body))"

definition set_second :: "nat \<Rightarrow> 'm \<Rightarrow> ('k \<times> 'm) list \<Rightarrow> ('k \<times> 'm) list" where
  "set_second it obj body = body[it := (fst (body ! it), obj)]"

definition flat_map_insert_or_assign ::
  "('k \<Rightarrow> 'k \<Rightarrow> bool) \<Rightarrow> 'k \<Rightarrow> 'm \<Rightarrow> ('k \<times> 'm) list \<Rightarrow> (nat \<times> bool) \<times> ('k \<times> 'm) list" where
  "flat_map_insert_or_assign lt k obj body =
     (let ((it, inserted), body) = emplace_key_args lt fst k (k, obj) body in
      ((it, inserted), if inserted then body else set_second it obj body))"

definition flat_map_insert_or_assign_hint ::
  "('k \<Rightarrow> 'k \<Rightarrow> bool) \<Rightarrow> nat \<Rightarrow> 'k \<Rightarrow> 'm \<Rightarrow> ('k \<times> 'm) list \<Rightarrow> (nat \<times> ('k \<times> 'm) list) res" where
  "flat_map_insert_or_assign_hint lt hint k obj body =
     rbind (emplace_hint_key_args lt fst hint k (k, obj) body) (\<lambda>((it, inserted), body).
     Inr (it, if inserted then body else set_second it obj body))"

definition try_emplace ::
  "('k \<Rightarrow> 'k \<Rightarrow> bool) \<Rightarrow> 'k \<Rightarrow> 'm \<Rightarrow> ('k \<times> 'm) list \<Rightarrow> (nat \<times> bool) \<times> ('k \<times> 'm) list" where
  "try_emplace lt k m body = emplace_key_args lt fst k (k, m) body"

definition try_emplace_hint ::
  "('k \<Rightarrow> 'k \<Rightarrow> bool) \<Rightarrow> nat \<Rightarrow> 'k \<Rightarrow> 'm \<Rightarrow> ('k \<times> 'm) list \<Rightarrow> (nat \<times> ('k \<times> 'm) list) res" where
  "try_emplace_hint lt hint k m body =
     rbind (emplace_hint_key_args lt fst hint k (k, m) body) (\<lambda>(r, body). Inr (fst r, body))"

section \<open>Fixed containers\<close>

definition swap_at :: "nat \<Rightarrow> nat \<Rightarrow> 'v list \<Rightarrow> 'v list" where
  "swap_at i j xs = xs[i := xs ! j, j := xs ! i]"

text \<open>The inner loop of \<open>InsertionSort\<close>, which moves the value at \<open>cur\<close> down, and the outer one with the rounds left.\<close>

fun sink_loop :: "('v \<Rightarrow> 'v \<Rightarrow> bool) \<Rightarrow> nat \<Rightarrow> 'v list \<Rightarrow> 'v list" where
  "sink_loop cmp 0 xs = xs"
| "sink_loop cmp (Suc cur) xs =
     (if cmp (xs ! Suc cur) (xs ! cur) then sink_loop cmp cur (swap_at (Suc cur) cur xs) else xs)"

fun insertion_loop :: "('v \<Rightarrow> 'v \<Rightarrow> bool) \<Rightarrow> nat \<Rightarrow> nat \<Rightarrow> 'v list \<Rightarrow> 'v list" where
  "insertion_loop cmp it 0 xs = xs"
| "insertion_loop cmp it (Suc n) xs = insertion_loop cmp (Suc it) n (sink_loop cmp it xs)"

definition InsertionSort :: "('v \<Rightarrow> 'v \<Rightarrow> bool) \<Rightarrow> 'v list \<Rightarrow> 'v list" where
  "InsertionSort cmp xs = (if xs = [] then xs else insertion_loop cmp 1 (length xs - 1) xs)"

definition MakeFixedFlat :: "('k \<Rightarrow> 'k \<Rightarrow> bool) \<Rightarrow> ('v \<Rightarrow> 'k) \<Rightarrow> 'v list \<Rightarrow> 'v list res" where
  "MakeFixedFlat lt key data =
     (let data = InsertionSort (value_comp lt key) data in
      check (is_sorted_and_unique data (value_comp lt key)) (flat_tree_sorted lt key data))"

definition MakeFixedFlatMap :: "('k \<Rightarrow> 'k \<Rightarrow> bool) \<Rightarrow> ('k \<times> 'm) list \<Rightarrow> ('k \<times> 'm) list res" where
  "MakeFixedFlatMap lt data = MakeFixedFlat lt fst data"

definition MakeFixedFlatSet :: "('k \<Rightarrow> 'k \<Rightarrow> bool) \<Rightarrow> 'k list \<Rightarrow> 'k list res" where
  "MakeFixedFlatSet lt data = MakeFixedFlat lt id data"

end
