(* ===== verification/FlatMapSpec.thy ===== *)
theory FlatMapSpec
  imports FlatTree
begin

text \<open>
  What a flat container holds, as a partial function from keys to values that respects the equivalence of keys, and what
  each operation of \<open>FlatTree\<close> does to it. The invariant is that the body is strictly sorted.
\<close>

definition flat_ok :: "('k \<Rightarrow> 'k \<Rightarrow> bool) \<Rightarrow> ('v \<Rightarrow> 'k) \<Rightarrow> 'v list \<Rightarrow> bool" where
  "flat_ok lt key body \<longleftrightarrow> sorted_wrt (value_comp lt key) body"

definition flat_lookup :: "('k \<Rightarrow> 'k \<Rightarrow> bool) \<Rightarrow> ('v \<Rightarrow> 'k) \<Rightarrow> 'v list \<Rightarrow> 'k \<Rightarrow> 'v option" where
  "flat_lookup lt key body k = find (\<lambda>v. equivalent lt (key v) k) body"

text \<open>The operations of the abstract map.\<close>

definition map_insert :: "('k \<Rightarrow> 'k \<Rightarrow> bool) \<Rightarrow> 'k \<Rightarrow> 'v \<Rightarrow> ('k \<Rightarrow> 'v option) \<Rightarrow> 'k \<Rightarrow> 'v option" where
  "map_insert lt k v m = (\<lambda>k'. if equivalent lt k k' \<and> m k = None then Some v else m k')"

definition map_assign :: "('k \<Rightarrow> 'k \<Rightarrow> bool) \<Rightarrow> 'k \<Rightarrow> 'v \<Rightarrow> ('k \<Rightarrow> 'v option) \<Rightarrow> 'k \<Rightarrow> 'v option" where
  "map_assign lt k v m = (\<lambda>k'. if equivalent lt k k' then Some v else m k')"

definition map_erase :: "('k \<Rightarrow> 'k \<Rightarrow> bool) \<Rightarrow> 'k \<Rightarrow> ('k \<Rightarrow> 'v option) \<Rightarrow> 'k \<Rightarrow> 'v option" where
  "map_erase lt k m = (\<lambda>k'. if equivalent lt k k' then None else m k')"

lemma equivalent_sym: "equivalent lt a b \<longleftrightarrow> equivalent lt b a"
  by (auto simp: equivalent_def)

context strict_weak
begin

lemma equivalent_refl [simp]: "equivalent lt a a"
  by (simp add: equivalent_def irrefl)

lemma equivalent_trans: "equivalent lt a b \<Longrightarrow> equivalent lt b c \<Longrightarrow> equivalent lt a c"
  unfolding equivalent_def using not_lt_trans by blast

lemma equivalent_cong: "equivalent lt a b \<Longrightarrow> equivalent lt a c \<longleftrightarrow> equivalent lt b c"
  using equivalent_trans equivalent_sym by metis

lemma lt_cong: "equivalent lt a b \<Longrightarrow> lt a c \<longleftrightarrow> lt b c" "equivalent lt a b \<Longrightarrow> lt c a \<longleftrightarrow> lt c b"
  unfolding equivalent_def using not_lt_trans asym by blast+

lemma value_comp_weak: "strict_weak (value_comp lt key)"
  using strict_weak_key [OF strict_weak_axioms] unfolding value_comp_def .

lemma is_class_key: "is_class (value_comp lt key) (\<lambda>v. equivalent lt (key v) k)"
  unfolding is_class_def using equivalent_cong by (auto simp: equivalent_def value_comp_def)

lemma flat_lookup_cong: "equivalent lt k k' \<Longrightarrow> flat_lookup lt key body k = flat_lookup lt key body k'"
  unfolding flat_lookup_def by (rule find_cong) (auto intro: equivalent_trans simp: equivalent_sym [of _ k k'])

lemma flat_lookup_Some:
  "flat_ok lt key body \<Longrightarrow> flat_lookup lt key body k = Some v \<longleftrightarrow> v \<in> set body \<and> equivalent lt (key v) k"
proof (induction body)
  case (Cons x xs)
  have "x = v" if "v \<in> set xs" "equivalent lt (key v) k" "equivalent lt (key x) k"
    using Cons.prems that equivalent_trans [of "key x" k "key v"] equivalent_sym [of lt "key v" k]
    unfolding flat_ok_def value_comp_def by (simp add: equivalent_def)
  then show ?case using Cons by (auto simp: flat_lookup_def flat_ok_def)
qed (simp add: flat_lookup_def)

lemma flat_lookup_None: "flat_lookup lt key body k = None \<longleftrightarrow> (\<forall>v \<in> set body. \<not> equivalent lt (key v) k)"
  by (auto simp: flat_lookup_def find_None_iff)

text \<open>A container is determined by what it holds.\<close>

lemma flat_canonical:
  assumes "flat_ok lt key xs" "flat_ok lt key ys" "flat_lookup lt key xs = flat_lookup lt key ys"
  shows "xs = ys"
proof -
  have "v \<in> set xs \<longleftrightarrow> v \<in> set ys" for v
    using flat_lookup_Some [OF assms(1), of "key v" v] flat_lookup_Some [OF assms(2), of "key v" v] assms(3) by simp
  then show ?thesis
    using strict_weak.sorted_eq [OF value_comp_weak, of key xs ys] assms(1,2) by (auto simp: flat_ok_def)
qed

subsection \<open>Search\<close>

lemma flat_not_lt:
  "flat_ok lt key body \<Longrightarrow> i \<le> j \<Longrightarrow> j < length body \<Longrightarrow> \<not> lt (key (body ! j)) (key (body ! i))"
  using asym irrefl by (cases "i = j") (auto simp: flat_ok_def value_comp_def sorted_wrt_iff_nth_less)

lemma flat_bounds:
  assumes "flat_ok lt key body"
  shows "flat_lower_bound lt key k body = length (takeWhile (\<lambda>v. lt (key v) k) body)"
    "flat_upper_bound lt key k body = length (takeWhile (\<lambda>v. \<not> lt k (key v)) body)"
proof -
  note le = flat_not_lt [OF assms]
  show "flat_lower_bound lt key k body = length (takeWhile (\<lambda>v. lt (key v) k) body)"
    unfolding flat_lower_bound_def std_lower_bound_def
    by (subst bound_loop_eq [where n = "length body"]) (auto dest: not_lt_lt_trans [OF le])
  show "flat_upper_bound lt key k body = length (takeWhile (\<lambda>v. \<not> lt k (key v)) body)"
    unfolding flat_upper_bound_def std_upper_bound_def
    by (subst bound_loop_eq [where n = "length body"]) (auto dest: lt_not_lt_trans [OF _ le])
qed

lemma append_bound:
  assumes "flat_ok lt key body"
  shows "std_lower_bound (value_comp lt key) (body @ rest) 0 (length body) v = flat_lower_bound lt key (key v) body"
  unfolding std_lower_bound_def flat_bounds [OF assms] value_comp_def
  by (subst bound_loop_eq [of 0 _ "length body"]) (auto simp: nth_append dest: not_lt_lt_trans [OF flat_not_lt [OF assms]])

text \<open>The body around the lower bound.\<close>

lemma lower_bound_split:
  assumes "flat_ok lt key body" "i = flat_lower_bound lt key k body"
  shows "i \<le> length body" "\<forall>v \<in> set (take i body). lt (key v) k" "\<forall>v \<in> set (drop i body). \<not> lt (key v) k"
    "i < length body \<Longrightarrow> \<not> lt (key (body ! i)) k"
proof -
  let ?p = "\<lambda>v. lt (key v) k"
  have i: "take i body = takeWhile ?p body" "drop i body = dropWhile ?p body"
    unfolding assms(2) flat_bounds [OF assms(1)] by (rule takeWhile_eq_take [symmetric], rule dropWhile_eq_drop [symmetric])
  show "i \<le> length body" unfolding assms(2) flat_bounds [OF assms(1)] by (rule length_takeWhile_le)
  show "\<forall>v \<in> set (take i body). ?p v" unfolding i by (auto dest: set_takeWhileD)
  have "sorted_wrt (value_comp lt key) (dropWhile ?p body)"
    using assms(1) i(2) sorted_wrt_drop unfolding flat_ok_def by metis
  then show d: "\<forall>v \<in> set (drop i body). \<not> ?p v" unfolding i
  proof (cases "dropWhile ?p body")
    case (Cons x xs)
    with hd_dropWhile [of ?p body] have x: "\<not> lt (key x) k" by simp
    assume "sorted_wrt (value_comp lt key) (dropWhile ?p body)"
    then have "\<forall>v \<in> set xs. lt (key x) (key v)" by (simp add: Cons value_comp_def)
    with x show "\<forall>v \<in> set (dropWhile ?p body). \<not> ?p v" unfolding Cons by (auto dest: lt_trans)
  next
    case Nil
    then show "\<forall>v \<in> set (dropWhile ?p body). \<not> ?p v" by (simp only: list.set(1) ball_empty)
  qed
  show "i < length body \<Longrightarrow> \<not> ?p (body ! i)"
    using d by (simp add: Cons_nth_drop_Suc [symmetric])
qed

lemma lower_bound_unique:
  assumes "flat_ok lt key body" "i \<le> length body" "i = 0 \<or> lt (key (body ! (i - 1))) k"
    "i = length body \<or> \<not> lt (key (body ! i)) k"
  shows "flat_lower_bound lt key k body = i"
proof -
  define l where "l = flat_lower_bound lt key k body"
  note split = lower_bound_split [OF assms(1) l_def]
  have "\<not> l < i"
  proof
    assume "l < i"
    then have "l \<le> i - 1" "i - 1 < length body" "l < length body" "i \<noteq> 0" using assms(2) by auto
    then show False
      using split(4) assms(3) not_lt_lt_trans [OF flat_not_lt [OF assms(1) \<open>l \<le> i - 1\<close> \<open>i - 1 < length body\<close>]] by blast
  qed
  moreover have "\<not> i < l"
  proof
    assume "i < l"
    then have "body ! i \<in> set (take l body)" using split(1) by (auto simp: in_set_conv_nth)
    then show False using split(1,2) assms(4) \<open>i < l\<close> by auto
  qed
  ultimately show ?thesis unfolding l_def by simp
qed

lemma flat_lookup_lower:
  assumes "flat_ok lt key body" "i = flat_lower_bound lt key k body"
  shows "flat_lookup lt key body k =
    (if i = length body \<or> lt k (key (body ! i)) then None else Some (body ! i))"
proof (cases "i = length body \<or> lt k (key (body ! i))")
  case True
  have "lt k (key v)" if "v \<in> set (drop i body)" for v
  proof -
    obtain j where j: "v = body ! (i + j)" "i + j < length body"
      using \<open>v \<in> set (drop i body)\<close> by (auto simp: in_set_conv_nth)
    with True have "lt k (key (body ! i))" by auto
    then show ?thesis unfolding j(1) by (rule lt_not_lt_trans [OF _ flat_not_lt [OF assms(1) _ j(2)]]) simp
  qed
  moreover have "v \<in> set (take i body) \<or> v \<in> set (drop i body)" if "v \<in> set body" for v
    using that append_take_drop_id [of i body] by (metis Un_iff set_append)
  ultimately have "\<forall>v \<in> set body. \<not> equivalent lt (key v) k"
    using lower_bound_split(2) [OF assms] unfolding equivalent_def by blast
  then have "flat_lookup lt key body k = None" unfolding flat_lookup_None .
  with True show ?thesis by simp
next
  case False
  then have "flat_lookup lt key body k = Some (body ! i)"
    using lower_bound_split(1,4) [OF assms] by (simp add: flat_lookup_Some [OF assms(1)] equivalent_def)
  with False show ?thesis by simp
qed

subsection \<open>Insertion\<close>

lemma flat_lookup_append:
  "flat_lookup lt key (xs @ ys) k = (case flat_lookup lt key xs k of None \<Rightarrow> flat_lookup lt key ys k | Some v \<Rightarrow> Some v)"
  by (induction xs) (auto simp: flat_lookup_def)

lemma flat_ok_emplace:
  assumes "flat_ok lt key body" "i = flat_lower_bound lt key (key v) body" "flat_lookup lt key body (key v) = None"
  shows "flat_ok lt key (take i body @ v # drop i body)"
proof -
  note split = lower_bound_split [OF assms(1,2)]
  have "\<forall>x \<in> set (drop i body). lt (key v) (key x)"
    using split(3) assms(3) set_drop_subset [of i body] unfolding flat_lookup_None equivalent_def by blast
  moreover have "sorted_wrt (value_comp lt key) (take i body @ drop i body)" using assms(1) by (simp add: flat_ok_def)
  ultimately show ?thesis
    using split(2) unfolding flat_ok_def by (auto simp: sorted_wrt_append value_comp_def simp del: append_take_drop_id)
qed

lemma flat_lookup_emplace:
  assumes "flat_lookup lt key body (key v) = None"
  shows "flat_lookup lt key (take i body @ v # drop i body) = map_insert lt (key v) v (flat_lookup lt key body)"
proof
  fix k
  have b: "flat_lookup lt key body k = (case flat_lookup lt key (take i body) k of
      None \<Rightarrow> flat_lookup lt key (drop i body) k | Some v \<Rightarrow> Some v)"
    unfolding flat_lookup_append [symmetric] by simp
  have "flat_lookup lt key body k = None" if "equivalent lt (key v) k"
    using that assms flat_lookup_cong by metis
  then show "flat_lookup lt key (take i body @ v # drop i body) k = map_insert lt (key v) v (flat_lookup lt key body) k"
    using assms b unfolding flat_lookup_append map_insert_def
    by (auto simp: flat_lookup_def split: option.splits)
qed

lemma emplace_key_args_cases:
  assumes "flat_ok lt key body" "key v = k" "i = flat_lower_bound lt key k body"
  shows "emplace_key_args lt key k v body =
    (case flat_lookup lt key body k of
       None \<Rightarrow> ((i, True), take i body @ v # drop i body)
     | Some _ \<Rightarrow> ((i, False), body))"
  using flat_lookup_lower [OF assms(1,3)] unfolding emplace_key_args_def assms(3) [symmetric]
  by (simp add: unsafe_emplace_def Let_def)

lemma map_insert_present: "m k \<noteq> None \<Longrightarrow> map_insert lt k v m = m"
  by (auto simp: map_insert_def fun_eq_iff)

lemma emplace_key_args_map:
  assumes "flat_ok lt key body" "key v = k" "emplace_key_args lt key k v body = ((it, inserted), body')"
  shows "flat_ok lt key body'" "flat_lookup lt key body' = map_insert lt k v (flat_lookup lt key body)"
    "inserted \<longleftrightarrow> flat_lookup lt key body k = None" "it < length body'"
    "flat_lookup lt key body' k = Some (body' ! it)"
proof -
  define i where "i = flat_lower_bound lt key k body"
  note cases = emplace_key_args_cases [OF assms(1,2) i_def, unfolded assms(3)]
  note split = lower_bound_split [OF assms(1) i_def]
  show ok: "flat_ok lt key body'" and m: "flat_lookup lt key body' = map_insert lt k v (flat_lookup lt key body)"
    and "inserted \<longleftrightarrow> flat_lookup lt key body k = None"
    using cases flat_ok_emplace [OF assms(1), of i v] flat_lookup_emplace [of key body v i] assms(1,2)
    by (auto simp: i_def map_insert_present split: option.splits)
  show "it < length body'" "flat_lookup lt key body' k = Some (body' ! it)"
    using cases split(1) flat_lookup_lower [OF assms(1) i_def] m
    by (auto simp: map_insert_def nth_append min_def split: option.splits if_splits)
qed

text \<open>Every hint gives what no hint gives.\<close>

lemma emplace_hint_eq:
  assumes "flat_ok lt key body" "hint \<le> length body"
  shows "emplace_hint_key_args lt key hint k v body = Inr (emplace_key_args lt key k v body)"
proof (cases "(hint = 0 \<or> lt (key (body ! (hint - 1))) k) \<and> (hint = length body \<or> \<not> lt (key (body ! hint)) k)")
  case True
  then have "flat_lower_bound lt key k body = hint" by (intro lower_bound_unique [OF assms]) simp_all
  then show ?thesis using True assms(2) unfolding emplace_hint_key_args_def emplace_key_args_def
    by (auto simp: Let_def dest: asym)
next
  case False
  then show ?thesis using assms(2) asym unfolding emplace_hint_key_args_def by auto
qed

subsection \<open>Construction and insertion of a range\<close>

lemma length_std_unique: "length (std_unique eq xs) \<le> length xs"
proof -
  have "length (unique_from eq x xs) \<le> length xs" for x xs by (induction xs arbitrary: x) (auto simp: le_SucI)
  then show ?thesis by (cases xs) auto
qed

lemma length_stable_sort: "length (stable_sort vlt xs) = length xs"
  by (rule mset_eq_length) (rule mset_stable_sort)

lemma sort_and_unique_range_eq:
  "sort_and_unique_range vlt (length old) (length (old @ new)) (old @ new) =
    Inr (old @ std_unique (\<lambda>a b. \<not> vlt a b) (stable_sort vlt new))"
  using length_std_unique [of "\<lambda>a b. \<not> vlt a b" "stable_sort vlt new"]
  by (simp add: sort_and_unique_range_def Let_def flat_erase_range_def length_stable_sort)

lemma sort_unique_ok:
  "flat_ok lt key (std_unique (\<lambda>a b. \<not> value_comp lt key a b) (stable_sort (value_comp lt key) xs))"
  unfolding flat_ok_def
  by (intro strict_weak.sorted_unique [OF value_comp_weak] strict_weak.nondecreasing_stable_sort [OF value_comp_weak])

lemma sort_unique_lookup:
  "flat_lookup lt key (std_unique (\<lambda>a b. \<not> value_comp lt key a b) (stable_sort (value_comp lt key) xs)) =
    flat_lookup lt key xs"
proof
  fix k
  let ?p = "\<lambda>v. equivalent lt (key v) k"
  have "find ?p (std_unique (\<lambda>a b. \<not> value_comp lt key a b) (stable_sort (value_comp lt key) xs))
      = find ?p (stable_sort (value_comp lt key) xs)"
    by (intro strict_weak.find_unique [OF value_comp_weak] is_class_key
      strict_weak.nondecreasing_stable_sort [OF value_comp_weak])
  also have "\<dots> = find ?p xs"
    by (simp add: find_filter strict_weak.filter_stable_sort [OF value_comp_weak is_class_key])
  finally show "flat_lookup lt key (std_unique (\<lambda>a b. \<not> value_comp lt key a b) (stable_sort (value_comp lt key) xs)) k
      = flat_lookup lt key xs k"
    by (simp add: flat_lookup_def)
qed

lemma flat_tree_of_map:
  obtains body where "flat_tree_of lt key items = Inr body" "flat_ok lt key body"
    "flat_lookup lt key body = flat_lookup lt key items"
  using sort_and_unique_range_eq [of "value_comp lt key" "[]" items] sort_unique_ok [of key items]
    sort_unique_lookup [of key items]
  by (simp add: flat_tree_of_def sort_and_unique_def)

text \<open>The loop appends the values that the old body lacks; the first insertion point is below none of them.\<close>

lemma append_loop_eq:
  assumes "flat_ok lt key old"
  shows "append_loop lt key (length old) vs pos (old @ new) =
    (foldl min pos (map (\<lambda>v. flat_lower_bound lt key (key v) old) [v \<leftarrow> vs. flat_lookup lt key old (key v) = None]),
     old @ new @ [v \<leftarrow> vs. flat_lookup lt key old (key v) = None])"
proof (induction vs arbitrary: pos new)
  case (Cons v vs)
  define i where "i = flat_lower_bound lt key (key v) old"
  have "i \<le> length old" using lower_bound_split(1) [OF assms i_def] .
  then have "append_unique lt key 0 (length old) v (old @ new) =
      (case flat_lookup lt key old (key v) of None \<Rightarrow> ((i, True), old @ new @ [v]) | Some _ \<Rightarrow> ((i, False), old @ new))"
    unfolding append_unique_def append_bound [OF assms] i_def [symmetric] flat_lookup_lower [OF assms i_def]
    by (auto simp: Let_def value_comp_def nth_append)
  then show ?case using Cons.IH [of _ new] Cons.IH [of _ "new @ [v]"]
    by (auto simp: i_def split: option.splits)
qed simp

lemma foldl_min_le: "foldl min (m::nat) ns \<le> m" "n \<in> set ns \<Longrightarrow> foldl min m ns \<le> n"
proof (induction ns arbitrary: m)
  case (Cons a ns)
  { case 1 show ?case using Cons.IH(1) [of "min m a"] by simp }
  { case 2 then show ?case using Cons.IH [of "min m a"] by auto }
qed simp_all

text \<open>The union of what a container holds with a list of values, of which the first of equivalent ones counts.\<close>

definition map_union :: "('k \<Rightarrow> 'v option) \<Rightarrow> ('k \<Rightarrow> 'v option) \<Rightarrow> 'k \<Rightarrow> 'v option" where
  "map_union m n = (\<lambda>k. case m k of None \<Rightarrow> n k | Some v \<Rightarrow> Some v)"

lemma map_union_assoc: "map_union (map_union a b) c = map_union a (map_union b c)"
  by (auto simp: map_union_def split: option.splits)

lemma flat_lookup_union: "flat_lookup lt key (xs @ ys) = map_union (flat_lookup lt key xs) (flat_lookup lt key ys)"
  by (simp add: fun_eq_iff flat_lookup_append map_union_def)

lemma map_insert_union:
  "map_insert lt (key v) v (flat_lookup lt key body) = map_union (flat_lookup lt key body) (flat_lookup lt key [v])"
proof
  fix k
  show "map_insert lt (key v) v (flat_lookup lt key body) k =
      map_union (flat_lookup lt key body) (flat_lookup lt key [v]) k"
    using flat_lookup_cong [of "key v" k key body]
    by (cases "equivalent lt (key v) k")
      (auto simp: map_insert_def map_union_def flat_lookup_def [of _ _ "[v]"] split: option.splits)
qed

lemma batch_merge:
  assumes "flat_ok lt key old" "new = [v \<leftarrow> vs. flat_lookup lt key old (key v) = None]"
    "kept = std_unique (\<lambda>a b. \<not> value_comp lt key a b) (stable_sort (value_comp lt key) new)"
  shows "flat_ok lt key (inplace_merge (value_comp lt key) old kept)"
    "flat_lookup lt key (inplace_merge (value_comp lt key) old kept) =
      map_union (flat_lookup lt key old) (flat_lookup lt key vs)"
proof -
  have kept: "flat_ok lt key kept" "flat_lookup lt key kept = flat_lookup lt key new"
    unfolding assms(3) by (rule sort_unique_ok, rule sort_unique_lookup)
  have "\<not> equivalent (value_comp lt key) x y" if "x \<in> set old" "y \<in> set kept" for x y
  proof -
    have "flat_lookup lt key kept (key y) = Some y" using that(2) by (simp add: flat_lookup_Some [OF kept(1)])
    then have "y \<in> set new" unfolding kept(2) by (auto simp: flat_lookup_def find_Some_iff)
    then show ?thesis using that(1) unfolding assms(2)
      by (auto simp: flat_lookup_None equivalent_def value_comp_def)
  qed
  then show "flat_ok lt key (inplace_merge (value_comp lt key) old kept)"
    using assms(1) kept(1) unfolding flat_ok_def by (intro strict_weak.sorted_merge [OF value_comp_weak]) auto
  show "flat_lookup lt key (inplace_merge (value_comp lt key) old kept) =
      map_union (flat_lookup lt key old) (flat_lookup lt key vs)"
  proof
    fix k
    have "flat_lookup lt key (inplace_merge (value_comp lt key) old kept) k = flat_lookup lt key (old @ kept) k"
      using strict_weak.filter_merge [OF value_comp_weak is_class_key, of key old kept k] assms(1) kept(1)
      by (simp add: flat_lookup_def find_filter flat_ok_def)
    also have "\<dots> = map_union (flat_lookup lt key old) (flat_lookup lt key new) k"
      unfolding flat_lookup_append kept(2) map_union_def ..
    also have "flat_lookup lt key new k = flat_lookup lt key vs k" if "flat_lookup lt key old k = None"
      using that unfolding assms(2)
      by (auto simp: flat_lookup_def find_filter intro!: arg_cong [where f = "case_list None (\<lambda>x _. Some x)"] filter_cong
        dest: flat_lookup_cong [of _ _ key old, unfolded flat_lookup_def])
    then have "map_union (flat_lookup lt key old) (flat_lookup lt key new) k =
        map_union (flat_lookup lt key old) (flat_lookup lt key vs) k"
      by (simp add: map_union_def split: option.splits)
    finally show "flat_lookup lt key (inplace_merge (value_comp lt key) old kept) k =
        map_union (flat_lookup lt key old) (flat_lookup lt key vs) k" .
  qed
qed

text \<open>Merging from a position that is above the lower bound of no new value merges the whole lists.\<close>

lemma merge_from:
  assumes "flat_ok lt key body" "\<And>y. y \<in> set kept \<Longrightarrow> pos \<le> flat_lower_bound lt key (key y) body"
  shows "take pos body @ inplace_merge (value_comp lt key) (drop pos body) kept
    = inplace_merge (value_comp lt key) body kept"
proof -
  have "\<not> value_comp lt key y a" if "a \<in> set (take pos body)" "y \<in> set kept" for a y
  proof -
    have "a \<in> set (take (flat_lower_bound lt key (key y) body) body)"
      using that(1) set_take_subset_set_take [OF assms(2) [OF that(2)], of body] by (rule rev_subsetD)
    with lower_bound_split(2) [OF assms(1) refl] have "lt (key a) (key y)" by blast
    then show ?thesis unfolding value_comp_def by (rule asym)
  qed
  then have "\<forall>a \<in> set (take pos body). \<forall>y \<in> set kept. \<not> value_comp lt key y a" by blast
  from strict_weak.merge_append [OF value_comp_weak this, of "drop pos body"] show ?thesis
    by (simp only: append_take_drop_id)
qed

lemma flat_insert_range_map:
  assumes "flat_ok lt key body"
  shows "\<exists>body'. flat_insert_range lt key multipass vs body = Inr body' \<and> flat_ok lt key body' \<and>
    flat_lookup lt key body' = map_union (flat_lookup lt key body) (flat_lookup lt key vs)"
proof -
  consider "vs = []" | v where "vs = [v]" multipass | "vs \<noteq> []" "\<not> (multipass \<and> length vs = 1)"
    by (cases vs) auto
  then show ?thesis
  proof cases
    case 1
    then show ?thesis using assms
      by (auto simp: flat_insert_range_def map_union_def flat_lookup_def split: option.splits)
  next
    case 2
    obtain it inserted body' where e: "emplace_key_args lt key (key v) v body = ((it, inserted), body')"
      by (metis surj_pair)
    with 2 show ?thesis using emplace_key_args_map [OF assms refl e]
      by (simp add: map_insert_union flat_insert_range_def flat_insert_hint_def emplace_hint_eq [OF assms] e)
  next
    case 3
    define new where "new = [v \<leftarrow> vs. flat_lookup lt key body (key v) = None]"
    define kept where "kept = std_unique (\<lambda>a b. \<not> value_comp lt key a b) (stable_sort (value_comp lt key) new)"
    define pos where "pos = foldl min (length body) (map (\<lambda>v. flat_lower_bound lt key (key v) body) new)"
    have pos: "pos \<le> length body" unfolding pos_def by (rule foldl_min_le(1))
    have "set kept \<subseteq> set new"
      using set_std_unique mset_eq_setD [OF mset_stable_sort] unfolding kept_def by metis
    then have "take pos body @ inplace_merge (value_comp lt key) (drop pos body) kept
        = inplace_merge (value_comp lt key) body kept"
      unfolding pos_def by (intro merge_from [OF assms] foldl_min_le(2)) auto
    then have "flat_insert_range lt key multipass vs body = Inr (inplace_merge (value_comp lt key) body kept)"
      using 3 pos append_loop_eq [OF assms, of vs "length body" "[]"]
        sort_and_unique_range_eq [of "value_comp lt key" body new]
      by (auto simp: flat_insert_range_def new_def [symmetric] pos_def [symmetric] kept_def [symmetric] Let_def)
    then show ?thesis using batch_merge [OF assms new_def kept_def] by blast
  qed
qed

subsection \<open>Assignment and removal\<close>

lemma flat_lookup_update:
  assumes "flat_ok lt key body" "i < length body" "equivalent lt (key (body ! i)) (key v)"
  shows "flat_ok lt key (body[i := v])"
    "flat_lookup lt key (body[i := v]) = map_assign lt (key v) v (flat_lookup lt key body)"
proof -
  have split: "body = take i body @ body ! i # drop (Suc i) body" "body[i := v] = take i body @ v # drop (Suc i) body"
    using assms(2) by (auto simp: id_take_nth_drop upd_conv_take_nth_drop)
  have "sorted_wrt (value_comp lt key) (take i body @ body ! i # drop (Suc i) body)"
    using assms(1) split(1) by (simp add: flat_ok_def)
  then show ok: "flat_ok lt key (body[i := v])"
    unfolding split(2) flat_ok_def value_comp_def
    using lt_cong [OF assms(3)] by (auto simp: sorted_wrt_append)
  show "flat_lookup lt key (body[i := v]) = map_assign lt (key v) v (flat_lookup lt key body)"
  proof
    fix k
    show "flat_lookup lt key (body[i := v]) k = map_assign lt (key v) v (flat_lookup lt key body) k"
    proof (cases "equivalent lt (key v) k")
      case True
      then show ?thesis
        using assms(2) flat_lookup_Some [OF ok, of k v] by (simp add: map_assign_def set_update_memI)
    next
      case False
      then have "\<not> equivalent lt (key (body ! i)) k" using equivalent_cong [OF assms(3)] by blast
      then have "flat_lookup lt key (body[i := v]) k = flat_lookup lt key (take i body @ body ! i # drop (Suc i) body) k"
        unfolding split(2) flat_lookup_append using False by (simp add: flat_lookup_def split: option.splits)
      then show ?thesis using False split(1) by (simp add: map_assign_def)
    qed
  qed
qed

lemma map_assign_absent: "m k = None \<Longrightarrow> map_insert lt k v m = map_assign lt k v m"
  by (auto simp: map_assign_def map_insert_def)

lemma tree_insert_or_assign_map:
  assumes "flat_ok lt key body" "tree_insert_or_assign lt key v body = ((it, inserted), body')"
  shows "flat_ok lt key body'" "flat_lookup lt key body' = map_assign lt (key v) v (flat_lookup lt key body)"
    "inserted \<longleftrightarrow> flat_lookup lt key body (key v) = None"
proof -
  define i where "i = flat_lower_bound lt key (key v) body"
  note look = flat_lookup_lower [OF assms(1) i_def]
  have eq: "tree_insert_or_assign lt key v body =
     (if flat_lookup lt key body (key v) = None then ((i, True), take i body @ v # drop i body)
      else ((i, False), body[i := v]))"
    unfolding tree_insert_or_assign_def i_def [symmetric] look by (simp add: Let_def unsafe_emplace_def value_comp_def)
  show "inserted \<longleftrightarrow> flat_lookup lt key body (key v) = None" using eq assms(2) by (simp split: if_splits)
  have "flat_ok lt key body' \<and> flat_lookup lt key body' = map_assign lt (key v) v (flat_lookup lt key body)"
  proof (cases "flat_lookup lt key body (key v)")
    case None
    then show ?thesis
      using eq assms(2) flat_ok_emplace [OF assms(1) i_def None] flat_lookup_emplace [OF None, of i]
      by (auto simp: map_assign_absent)
  next
    case (Some x)
    then have "equivalent lt (key (body ! i)) (key v)" "i < length body"
      using look lower_bound_split(1) [OF assms(1) i_def] flat_lookup_Some [OF assms(1), of "key v" x]
      by (auto split: if_splits)
    then show ?thesis using eq assms(2) Some flat_lookup_update [OF assms(1)] by auto
  qed
  then show "flat_ok lt key body'" "flat_lookup lt key body' = map_assign lt (key v) v (flat_lookup lt key body)"
    by blast+
qed

lemma flat_ok_filter: "flat_ok lt key body \<Longrightarrow> flat_ok lt key (filter p body)"
  unfolding flat_ok_def by (rule sorted_wrt_filter)

lemma flat_lookup_filter:
  assumes "flat_ok lt key body"
  shows "flat_lookup lt key (filter p body) k =
    (case flat_lookup lt key body k of None \<Rightarrow> None | Some v \<Rightarrow> if p v then Some v else None)" (is "?l = ?r")
proof -
  have "?l = Some v \<longleftrightarrow> ?r = Some v" for v
  proof -
    have "?l = Some v \<longleftrightarrow> flat_lookup lt key body k = Some v \<and> p v"
      unfolding flat_lookup_Some [OF flat_ok_filter [OF assms]] flat_lookup_Some [OF assms] by auto
    then show ?thesis by (auto split: option.splits)
  qed
  then show ?thesis by (metis not_None_eq)
qed

text \<open>Without the element at a position, the values that are not equivalent to it remain.\<close>

lemma erase_at_filter:
  assumes "flat_ok lt key body" "i < length body"
  shows "take i body @ drop (Suc i) body = filter (\<lambda>v. \<not> equivalent lt (key (body ! i)) (key v)) body"
proof -
  let ?p = "\<lambda>v. \<not> equivalent lt (key (body ! i)) (key v)"
  have b: "body = take i body @ body ! i # drop (Suc i) body" using assms(2) by (simp add: id_take_nth_drop)
  then have "sorted_wrt (value_comp lt key) (take i body @ body ! i # drop (Suc i) body)"
    using assms(1) by (simp add: flat_ok_def)
  then have "\<forall>v \<in> set (take i body). ?p v" "\<forall>v \<in> set (drop (Suc i) body). ?p v"
    by (auto simp: sorted_wrt_append value_comp_def equivalent_def)
  then have "filter ?p (take i body) = take i body" "filter ?p (drop (Suc i) body) = drop (Suc i) body" by auto
  then have "filter ?p (take i body @ body ! i # drop (Suc i) body) = take i body @ drop (Suc i) body" by simp
  with b show ?thesis by simp
qed

lemma flat_erase_map:
  assumes "flat_ok lt key body" "i < length body"
  shows "flat_ok lt key (take i body @ drop (Suc i) body)"
    "flat_lookup lt key (take i body @ drop (Suc i) body) = map_erase lt (key (body ! i)) (flat_lookup lt key body)"
proof -
  show "flat_ok lt key (take i body @ drop (Suc i) body)"
    unfolding erase_at_filter [OF assms] by (rule flat_ok_filter) (rule assms(1))
  show "flat_lookup lt key (take i body @ drop (Suc i) body) = map_erase lt (key (body ! i)) (flat_lookup lt key body)"
  proof
    fix k
    have "equivalent lt (key (body ! i)) (key v) \<longleftrightarrow> equivalent lt (key (body ! i)) k"
      if "flat_lookup lt key body k = Some v" for v
      using that equivalent_cong [of "key v" k] equivalent_sym flat_lookup_Some [OF assms(1)] by metis
    then show "flat_lookup lt key (take i body @ drop (Suc i) body) k =
        map_erase lt (key (body ! i)) (flat_lookup lt key body) k"
      unfolding erase_at_filter [OF assms] flat_lookup_filter [OF assms(1)] map_erase_def
      by (auto split: option.splits)
  qed
qed

lemma flat_erase_key_map:
  assumes "flat_ok lt key body"
  shows "\<exists>body'. flat_erase_key lt key k body = Inr (if flat_lookup lt key body k = None then 0 else 1, body') \<and>
    flat_ok lt key body' \<and> flat_lookup lt key body' = map_erase lt k (flat_lookup lt key body)"
proof -
  define i where "i = flat_lower_bound lt key k body"
  note look = flat_lookup_lower [OF assms i_def] and split = lower_bound_split [OF assms i_def]
  show ?thesis
  proof (cases "flat_lookup lt key body k")
    case None
    have "map_erase lt k (flat_lookup lt key body) = flat_lookup lt key body"
      using None flat_lookup_cong [of k _ key body] by (auto simp: map_erase_def)
    then show ?thesis using None look split(1) assms
      by (auto simp: flat_erase_key_def flat_equal_range_def i_def [symmetric] flat_erase_range_def Let_def split: if_splits)
  next
    case (Some v)
    then have i: "i < length body" "\<not> lt k (key (body ! i))" "v = body ! i"
      using look split(1) by (auto split: if_splits)
    with split(4) have e: "equivalent lt (key (body ! i)) k" by (simp add: equivalent_def)
    then have "map_erase lt k (flat_lookup lt key body) = map_erase lt (key (body ! i)) (flat_lookup lt key body)"
      using equivalent_cong by (auto simp: map_erase_def)
    then show ?thesis using Some i flat_erase_map [OF assms i(1)]
      by (simp add: flat_erase_key_def flat_equal_range_def i_def [symmetric] flat_erase_range_def Let_def)
  qed
qed

lemma EraseIf_eq: "EraseIf p body = Inr (length (filter p body), filter (\<lambda>v. \<not> p v) body)"
  using sum_length_filter_compl [of p body] length_filter_le [of "\<lambda>v. \<not> p v" body]
  by (simp add: EraseIf_def flat_erase_range_def Let_def)

lemma is_sorted_and_unique_iff: "is_sorted_and_unique body (value_comp lt key) \<longleftrightarrow> flat_ok lt key body"
proof -
  have "no_adjacent (\<lambda>a b. \<not> lt (key a) (key b)) body \<longleftrightarrow> sorted_wrt (\<lambda>a b. lt (key a) (key b)) body"
    by (induction "\<lambda>a b. \<not> lt (key a) (key b)" body rule: no_adjacent.induct) (auto dest: lt_trans)
  then show ?thesis by (simp add: is_sorted_and_unique_def flat_ok_def value_comp_def [abs_def])
qed

subsection \<open>flat_map\<close>

lemma flat_find_lookup:
  assumes "flat_ok lt key body"
  shows "flat_lookup lt key body k =
    (if flat_find lt key k body = length body then None else Some (body ! flat_find lt key k body))"
    "flat_find lt key k body \<le> length body"
  using flat_lookup_lower [OF assms refl] lower_bound_split(1) [OF assms refl]
  by (auto simp: flat_find_def flat_equal_range_def Let_def)

lemma flat_contains_lookup:
  assumes "flat_ok lt key body"
  shows "flat_contains lt key k body \<longleftrightarrow> flat_lookup lt key body k \<noteq> None"
    "flat_count lt key k body = (if flat_lookup lt key body k = None then 0 else 1)"
  by (auto simp: flat_lookup_lower [OF assms refl] flat_contains_def flat_count_def flat_equal_range_def Let_def)

lemma flat_map_index_map:
  assumes "flat_ok lt fst body" "flat_map_index lt dflt k body = (it, body')"
  shows "flat_ok lt fst body'" "flat_lookup lt fst body' = map_insert lt k (k, dflt) (flat_lookup lt fst body)"
    "it < length body'" "flat_lookup lt fst body' k = Some (body' ! it)"
proof -
  have "emplace_key_args lt fst k (k, dflt) body =
      ((it, flat_lookup lt fst body k = None), body')"
    using assms(2) flat_lookup_lower [OF assms(1) refl, of k]
    by (auto simp: emplace_key_args_def flat_map_index_def Let_def unsafe_emplace_def split: if_splits)
  from emplace_key_args_map [OF assms(1) _ this]
  show "flat_ok lt fst body'" "flat_lookup lt fst body' = map_insert lt k (k, dflt) (flat_lookup lt fst body)"
    "it < length body'" "flat_lookup lt fst body' k = Some (body' ! it)"
    by simp_all
qed

text \<open>Assigning through \<open>insert_or_assign\<close> keeps the key that is stored.\<close>

lemma flat_map_assign_map:
  assumes "flat_ok lt fst body" "flat_map_insert_or_assign lt k obj body = ((it, inserted), body')"
  shows "flat_ok lt fst body'"
    "flat_lookup lt fst body' = map_assign lt k
      (case flat_lookup lt fst body k of None \<Rightarrow> (k, obj) | Some v \<Rightarrow> (fst v, obj)) (flat_lookup lt fst body)"
    "inserted \<longleftrightarrow> flat_lookup lt fst body k = None"
proof -
  obtain b where e: "emplace_key_args lt fst k (k, obj) body = ((it, inserted), b)"
    and b: "body' = (if inserted then b else set_second it obj b)"
    using assms(2) by (auto simp: flat_map_insert_or_assign_def split: prod.splits)
  note m = emplace_key_args_map [OF assms(1) _ e, simplified]
  show i: "inserted \<longleftrightarrow> flat_lookup lt fst body k = None" by (rule m(3))
  have "flat_ok lt fst body' \<and> flat_lookup lt fst body' = map_assign lt k
      (case flat_lookup lt fst body k of None \<Rightarrow> (k, obj) | Some v \<Rightarrow> (fst v, obj)) (flat_lookup lt fst body)"
  proof (cases "flat_lookup lt fst body k")
    case None
    then show ?thesis using m b i by (simp add: map_assign_absent)
  next
    case (Some v)
    then have same: "flat_lookup lt fst b = flat_lookup lt fst body" using m(2) by (simp add: map_insert_present)
    with Some m(5) have v: "v = b ! it" by simp
    with Some same flat_lookup_Some [OF m(1), of k v] have "equivalent lt (fst (b ! it)) k" by simp
    then have "map_assign lt (fst (b ! it)) (fst (b ! it), obj) (flat_lookup lt fst body) =
        map_assign lt k (fst (b ! it), obj) (flat_lookup lt fst body)"
      using equivalent_cong by (auto simp: map_assign_def)
    then show ?thesis
      using flat_lookup_update [OF m(1,4), of "(fst (b ! it), obj)"] b i Some same v by (simp add: set_second_def)
  qed
  then show "flat_ok lt fst body'" "flat_lookup lt fst body' = map_assign lt k
      (case flat_lookup lt fst body k of None \<Rightarrow> (k, obj) | Some v \<Rightarrow> (fst v, obj)) (flat_lookup lt fst body)"
    by blast+
qed

end

end
