(* ===== verification/FlatProps.thy ===== *)
theory FlatProps
  imports FlatMapSpec
begin

text \<open>
  The properties of the flat containers: they stay sorted, they implement a map, hints and batches change nothing but
  the cost, and the fixed containers are sorted stably.
\<close>

section \<open>InsertionSort is the stable sort\<close>

context strict_weak
begin

lemma put_after_snoc:
  "nondecreasing lt (ys @ [y]) \<Longrightarrow> put_after lt v (ys @ [y]) = (if lt v y then put_after lt v ys @ [y] else ys @ [y, v])"
proof (induction ys)
  case (Cons x ys)
  have "lt v y" if "lt v x" using that Cons.prems lt_not_lt_trans [of v x y] by simp
  then show ?case using Cons by auto
qed simp

lemma sink_loop_eq:
  "nondecreasing lt ys \<Longrightarrow> sink_loop lt (length ys) (ys @ v # zs) = put_after lt v ys @ zs"
proof (induction ys arbitrary: zs rule: rev_induct)
  case (snoc y ys)
  have "swap_at (Suc (length ys)) (length ys) (ys @ y # v # zs) = ys @ v # y # zs"
    by (simp add: swap_at_def list_update_append nth_append)
  then show ?case using snoc.IH [of "y # zs"] snoc.prems put_after_snoc [OF snoc.prems, of v]
    by (simp add: nth_append sorted_wrt_append)
qed simp

lemma insertion_loop_eq:
  "nondecreasing lt ys \<Longrightarrow>
    insertion_loop lt (length ys) (length zs) (ys @ zs) = foldl (\<lambda>ys v. put_after lt v ys) ys zs"
proof (induction zs arbitrary: ys)
  case (Cons z zs)
  have "length (put_after lt z ys) = Suc (length ys)" by (induction ys) auto
  then show ?case
    using Cons.IH [of "put_after lt z ys"] nondecreasing_put_after [OF Cons.prems, of z] sink_loop_eq [OF Cons.prems]
    by simp
qed simp

lemma InsertionSort_eq: "InsertionSort lt xs = stable_sort lt xs"
proof (cases xs)
  case (Cons x zs)
  then show ?thesis using insertion_loop_eq [of "[x]" zs] by (simp add: InsertionSort_def stable_sort_def)
qed (simp add: InsertionSort_def stable_sort_def)

lemma is_class_equivalent: "is_class lt (equivalent lt v)"
  unfolding is_class_def using equivalent_cong equivalent_sym by metis

lemma insertion_sort_stable:
  "mset (InsertionSort lt xs) = mset xs \<and> nondecreasing lt (InsertionSort lt xs) \<and>
    filter (equivalent lt v) (InsertionSort lt xs) = filter (equivalent lt v) xs"
  unfolding InsertionSort_eq
  by (intro conjI mset_stable_sort nondecreasing_stable_sort filter_stable_sort is_class_equivalent)

text \<open>Sorted values are strictly sorted if every class has one of them at most.\<close>

lemma class_count_sorted: "sorted_wrt lt xs \<Longrightarrow> length (filter (equivalent lt v) xs) \<le> 1"
proof (induction xs)
  case (Cons x xs)
  have "filter (equivalent lt v) xs = []" if e: "equivalent lt v x"
  proof -
    have "\<not> equivalent lt v y" if "y \<in> set xs" for y
      using Cons.prems that lt_cong(1) [OF e, of y] by (simp add: equivalent_def)
    then show ?thesis by (simp add: filter_empty_conv)
  qed
  then show ?case using Cons by simp
qed simp

lemma class_count_strict:
  assumes "nondecreasing lt xs" "\<And>v. v \<in> set xs \<Longrightarrow> length (filter (equivalent lt v) xs) \<le> 1"
  shows "sorted_wrt lt xs"
  using assms
proof (induction xs)
  case (Cons x xs)
  have "length (filter (equivalent lt v) xs) \<le> 1" if "v \<in> set xs" for v
    using Cons.prems(2) [of v] that by (simp split: if_splits)
  moreover have "filter (equivalent lt x) xs = []" using Cons.prems(2) [of x] by simp
  ultimately show ?case using Cons unfolding filter_empty_conv equivalent_def by simp
qed simp

end

section \<open>Every history\<close>

text \<open>The containers that the public operations can build.\<close>

inductive flat_reachable :: "('k \<Rightarrow> 'k \<Rightarrow> bool) \<Rightarrow> ('v \<Rightarrow> 'k) \<Rightarrow> 'v list \<Rightarrow> bool" for lt key where
  construct: "flat_tree_of lt key items = Inr body \<Longrightarrow> flat_reachable lt key body"
| construct_sorted: "flat_tree_sorted lt key items = Inr body \<Longrightarrow> flat_reachable lt key body"
| fixed: "MakeFixedFlat lt key items = Inr body \<Longrightarrow> flat_reachable lt key body"
| insert: "flat_reachable lt key body \<Longrightarrow> flat_reachable lt key (snd (flat_insert lt key v body))"
| insert_hint: "\<lbrakk>flat_reachable lt key body; flat_insert_hint lt key hint v body = Inr (it, body')\<rbrakk>
    \<Longrightarrow> flat_reachable lt key body'"
| insert_range: "\<lbrakk>flat_reachable lt key body; flat_insert_range lt key multipass vs body = Inr body'\<rbrakk>
    \<Longrightarrow> flat_reachable lt key body'"
| assign: "flat_reachable lt key body \<Longrightarrow> flat_reachable lt key (snd (tree_insert_or_assign lt key v body))"
| erase: "\<lbrakk>flat_reachable lt key body; flat_erase pos body = Inr (it, body')\<rbrakk> \<Longrightarrow> flat_reachable lt key body'"
| erase_range: "\<lbrakk>flat_reachable lt key body; flat_erase_range first limit body = Inr (it, body')\<rbrakk>
    \<Longrightarrow> flat_reachable lt key body'"
| erase_key: "\<lbrakk>flat_reachable lt key body; flat_erase_key lt key k body = Inr (n, body')\<rbrakk>
    \<Longrightarrow> flat_reachable lt key body'"
| erase_if: "\<lbrakk>flat_reachable lt key body; EraseIf pred body = Inr (n, body')\<rbrakk> \<Longrightarrow> flat_reachable lt key body'"
| replace: "\<lbrakk>flat_reachable lt key body; flat_replace lt key items body = Inr body'\<rbrakk>
    \<Longrightarrow> flat_reachable lt key body'"
| take_out: "flat_reachable lt key body \<Longrightarrow> flat_reachable lt key (snd (flat_extract body))"
| clear: "flat_reachable lt key body \<Longrightarrow> flat_reachable lt key (flat_clear body)"

lemma flat_ok_drop_middle: "flat_ok lt key body \<Longrightarrow> first \<le> limit \<Longrightarrow> flat_ok lt key (take first body @ drop limit body)"
proof -
  assume ok: "flat_ok lt key body" and le: "first \<le> limit"
  have "value_comp lt key x y" if x: "x \<in> set (take first body)" and y: "y \<in> set (drop limit body)" for x y
  proof -
    obtain i where "x = body ! i" "i < first" "i < length body" using x by (auto simp: in_set_conv_nth)
    moreover obtain j where "y = body ! (limit + j)" "limit + j < length body" using y by (auto simp: in_set_conv_nth)
    ultimately show ?thesis using ok le by (simp add: flat_ok_def sorted_wrt_iff_nth_less)
  qed
  then show ?thesis using ok unfolding flat_ok_def by (simp add: sorted_wrt_append sorted_wrt_take sorted_wrt_drop)
qed

context strict_weak
begin

lemma MakeFixedFlat_ok: "MakeFixedFlat lt key items = Inr body \<Longrightarrow> flat_ok lt key body"
  by (auto simp: MakeFixedFlat_def Let_def flat_tree_sorted_def is_sorted_and_unique_iff)

lemma insert_map:
  assumes "flat_ok lt key body"
  shows "\<exists>it body'. flat_insert lt key v body = ((it, flat_lookup lt key body (key v) = None), body') \<and>
    flat_ok lt key body' \<and> flat_lookup lt key body' = map_insert lt (key v) v (flat_lookup lt key body) \<and>
    it < length body' \<and> flat_lookup lt key body' (key v) = Some (body' ! it)"
proof -
  obtain it inserted body' where e: "emplace_key_args lt key (key v) v body = ((it, inserted), body')"
    by (metis surj_pair)
  then show ?thesis unfolding flat_insert_def e using emplace_key_args_map [OF assms refl e] by auto
qed

lemma insert_hint_eq:
  "flat_ok lt key body \<Longrightarrow> hint \<le> length body \<Longrightarrow>
    flat_insert_hint lt key hint v body = Inr (case flat_insert lt key v body of ((it, _), body') \<Rightarrow> (it, body'))"
  by (simp add: flat_insert_hint_def emplace_hint_eq flat_insert_def split: prod.splits)

lemma insert_ok: "flat_ok lt key body \<Longrightarrow> flat_ok lt key (snd (flat_insert lt key v body))"
  unfolding flat_insert_def using emplace_key_args_map(1) [of key body v "key v"] by (metis surj_pair snd_conv)

lemma insert_hint_ok:
  assumes "flat_ok lt key body" "flat_insert_hint lt key hint v body = Inr (it, body')"
  shows "flat_ok lt key body'"
proof -
  have "hint \<le> length body"
    using assms(2) by (simp add: flat_insert_hint_def emplace_hint_key_args_def rbind_eq_Inr)
  then show ?thesis
    using insert_hint_eq [OF assms(1)] insert_ok [OF assms(1), of v] assms(2) by (simp split: prod.splits)
qed

lemma reachable_sorted: "flat_reachable lt key body \<Longrightarrow> flat_ok lt key body"
proof (induction rule: flat_reachable.induct)
  case (construct items body)
  then show ?case using flat_tree_of_map [of key items] by auto
next
  case (insert_range body multipass vs body')
  then show ?case using flat_insert_range_map [of key body multipass vs] by auto
next
  case (assign body v)
  then show ?case using tree_insert_or_assign_map(1) [of key body v] by (metis surj_pair snd_conv)
next
  case (erase body pos it body')
  then show ?case by (auto simp: flat_erase_def intro: flat_ok_drop_middle)
next
  case (erase_range body first limit it body')
  then show ?case by (auto simp: flat_erase_range_def intro: flat_ok_drop_middle)
next
  case (erase_key body k n body')
  then show ?case using flat_erase_key_map [of key body k] by auto
next
  case (construct_sorted items body)
  then show ?case by (auto simp: flat_tree_sorted_def is_sorted_and_unique_iff)
next
  case (replace body items body')
  then show ?case by (auto simp: flat_replace_def is_sorted_and_unique_iff)
next
  case (erase_if body pred n body')
  then show ?case by (auto simp: EraseIf_eq flat_ok_filter)
qed (simp_all add: MakeFixedFlat_ok insert_ok insert_hint_ok flat_extract_def flat_clear_def flat_ok_def [of _ _ "[]"])

text \<open>The constructor of the fixed containers stops exactly if two keys are equivalent.\<close>

lemma make_fixed_flat:
  "MakeFixedFlat lt key items =
    (if \<forall>v \<in> set items. length (filter (equivalent (value_comp lt key) v) items) \<le> 1
     then Inr (stable_sort (value_comp lt key) items) else Inl CheckFailed)"
proof -
  note w = value_comp_weak [of key]
  let ?vlt = "value_comp lt key"
  have count: "length (filter (equivalent ?vlt v) (stable_sort ?vlt items)) = length (filter (equivalent ?vlt v) items)" for v
    by (simp add: strict_weak.filter_stable_sort [OF w strict_weak.is_class_equivalent [OF w]])
  have "set (stable_sort ?vlt items) = set items" by (rule mset_eq_setD) (rule mset_stable_sort)
  then have "flat_ok lt key (stable_sort ?vlt items) \<longleftrightarrow>
      (\<forall>v \<in> set items. length (filter (equivalent ?vlt v) items) \<le> 1)"
    unfolding flat_ok_def
    using strict_weak.class_count_sorted [OF w, of "stable_sort ?vlt items"] count
      strict_weak.class_count_strict [OF w strict_weak.nondecreasing_stable_sort [OF w], of items] by auto
  then show ?thesis
    by (simp add: MakeFixedFlat_def Let_def strict_weak.InsertionSort_eq [OF w] flat_tree_sorted_def
      is_sorted_and_unique_iff guardr_def)
qed

lemma insert_range_fold:
  assumes "flat_ok lt key body"
  shows "flat_insert_range lt key multipass vs body = Inr (foldl (\<lambda>b v. snd (flat_insert lt key v b)) body vs)"
proof -
  let ?fold = "foldl (\<lambda>b v. snd (flat_insert lt key v b)) body vs"
  have "flat_ok lt key (foldl (\<lambda>b v. snd (flat_insert lt key v b)) body vs) \<and>
      flat_lookup lt key (foldl (\<lambda>b v. snd (flat_insert lt key v b)) body vs) =
        map_union (flat_lookup lt key body) (flat_lookup lt key vs)" if "flat_ok lt key body" for body
    using that
  proof (induction vs arbitrary: body)
    case Nil
    then show ?case by (auto simp: map_union_def flat_lookup_def fun_eq_iff split: option.splits)
  next
    case (Cons v vs)
    obtain it inserted b where e: "emplace_key_args lt key (key v) v body = ((it, inserted), b)" by (metis surj_pair)
    note m = emplace_key_args_map [OF Cons.prems refl e]
    have "map_union (map_insert lt (key v) v (flat_lookup lt key body)) (flat_lookup lt key vs) =
        map_union (flat_lookup lt key body) (flat_lookup lt key (v # vs))"
      unfolding map_insert_union map_union_assoc flat_lookup_union [symmetric] by simp
    then show ?case using Cons.IH [OF m(1)] m(2) by (simp add: flat_insert_def e)
  qed
  from this [OF assms] flat_insert_range_map [OF assms, of multipass vs] show ?thesis
    using flat_canonical by metis
qed

end

section \<open>Properties\<close>

lemma less_weak: "strict_weak ((<) :: 'k::linorder \<Rightarrow> 'k \<Rightarrow> bool)"
  by unfold_locales auto

text \<open>
  Whatever sequence of public operations built a flat container, its body is strictly sorted by the key: no two
  values have equivalent keys.
\<close>

theorem flat_reachable_sorted:
  "\<lbrakk>strict_weak lt; flat_reachable lt key body\<rbrakk> \<Longrightarrow> sorted_wrt (value_comp lt key) body"
  unfolding flat_ok_def [symmetric] by (rule strict_weak.reachable_sorted)

theorem flat_reachable_sorted_witness:
  "sorted_wrt (value_comp (<) fst) [(1, ''a''), (2::nat, ''b'')]"
proof -
  have "flat_tree_of (<) fst [(2, ''b''), (1, ''a''), (2::nat, ''c'')] = Inr [(1, ''a''), (2, ''b'')]"
    by code_simp
  then have "flat_reachable (<) fst [(1, ''a''), (2::nat, ''b'')]" by (rule flat_reachable.construct)
  then show ?thesis by (rule flat_reachable_sorted [OF less_weak])
qed

text \<open>
  C26. A flat container implements a map from keys, up to their equivalence, to values. \<open>find\<close>, \<open>contains\<close> and \<open>count\<close> tell
  what it holds; \<open>insert\<close> adds a value whose key is absent, reports whether it did, and returns the position of the
  value with that key; \<open>erase\<close> of a key removes that value only, reports how many it removed and never fails.
\<close>

theorem flat_tree_refines_map:
  assumes "strict_weak lt" "flat_ok lt key body"
  shows "flat_lookup lt key body k =
      (if flat_find lt key k body = length body then None else Some (body ! flat_find lt key k body)) \<and>
    (flat_contains lt key k body \<longleftrightarrow> flat_lookup lt key body k \<noteq> None) \<and>
    flat_count lt key k body = (if flat_lookup lt key body k = None then 0 else 1) \<and>
    (\<exists>it body'. flat_insert lt key v body = ((it, flat_lookup lt key body (key v) = None), body') \<and>
      flat_ok lt key body' \<and> flat_lookup lt key body' = map_insert lt (key v) v (flat_lookup lt key body) \<and>
      it < length body' \<and> flat_lookup lt key body' (key v) = Some (body' ! it)) \<and>
    (\<exists>body'. flat_erase_key lt key k body = Inr (if flat_lookup lt key body k = None then 0 else 1, body') \<and>
      flat_ok lt key body' \<and> flat_lookup lt key body' = map_erase lt k (flat_lookup lt key body))"
  by (intro conjI strict_weak.flat_find_lookup [OF assms] strict_weak.flat_contains_lookup [OF assms]
    strict_weak.insert_map [OF assms] strict_weak.flat_erase_key_map [OF assms])

theorem flat_tree_refines_map_witness:
  "flat_lookup (<) fst [(1, ''a''), (2::nat, ''b'')] 2 = Some (2, ''b'')"
proof -
  have ok: "flat_ok (<) fst [(1, ''a''), (2::nat, ''b'')]" by code_simp
  have "flat_find (<) fst 2 [(1, ''a''), (2::nat, ''b'')] = 1" by code_simp
  then show ?thesis using flat_tree_refines_map [OF less_weak ok, of 2] by simp
qed

text \<open>
  A position hint never changes the outcome of an insertion: any iterator of the container gives the same body, the same
  position and the same report as the search without a hint.
\<close>

theorem flat_hint_irrelevant:
  assumes "strict_weak lt" "flat_ok lt key body" "hint \<le> length body"
  shows "emplace_hint_key_args lt key hint k v body = Inr (emplace_key_args lt key k v body)"
  using assms by (rule strict_weak.emplace_hint_eq)

theorem flat_hint_irrelevant_witness:
  "emplace_hint_key_args (<) fst 0 2 (2, ''c'') [(1, ''a''), (3::nat, ''b'')]
    = Inr ((1, True), [(1, ''a''), (2, ''c''), (3, ''b'')])"
proof -
  have ok: "flat_ok (<) fst [(1, ''a''), (3::nat, ''b'')]" by code_simp
  show ?thesis
    unfolding flat_hint_irrelevant [OF less_weak ok le0] by code_simp
qed

text \<open>
  Inserting a range, which appends the new values, sorts and deduplicates them and merges them into the body from the
  first insertion point on, leaves exactly the body that inserting the values one after another leaves, whether or not
  the input iterators allow a second pass.
\<close>

theorem flat_insert_range_one_by_one:
  assumes "strict_weak lt" "flat_ok lt key body"
  shows "flat_insert_range lt key multipass vs body = Inr (foldl (\<lambda>b v. snd (flat_insert lt key v b)) body vs)"
  using assms by (rule strict_weak.insert_range_fold)

theorem flat_insert_range_one_by_one_witness:
  "flat_insert_range (<) fst True [(4, ''d''), (2, ''b''), (3, ''x''), (2, ''y'')] [(1, ''a''), (3::nat, ''c'')]
    = Inr [(1, ''a''), (2, ''b''), (3, ''c''), (4, ''d'')]"
proof -
  have ok: "flat_ok (<) fst [(1, ''a''), (3::nat, ''c'')]" by code_simp
  show ?thesis unfolding flat_insert_range_one_by_one [OF less_weak ok] by code_simp
qed

text \<open>
  \<open>InsertionSort\<close> ends with a permutation of its input in which no value is below an earlier one, and it is stable:
  equivalent values keep their order.
\<close>

theorem InsertionSort_stable:
  assumes "strict_weak lt"
  shows "mset (InsertionSort lt xs) = mset xs \<and> nondecreasing lt (InsertionSort lt xs) \<and>
    filter (equivalent lt v) (InsertionSort lt xs) = filter (equivalent lt v) xs"
  using assms by (rule strict_weak.insertion_sort_stable)

theorem InsertionSort_stable_witness: "nondecreasing (<) (InsertionSort (<) [3, 1, 2::nat])"
  using InsertionSort_stable [OF less_weak] by blast

text \<open>
  \<open>MakeFixedFlatMap\<close> and \<open>MakeFixedFlatSet\<close> stop exactly if two of the given values have equivalent keys; otherwise
  they return the values sorted.
\<close>

theorem MakeFixedFlat_unique_keys:
  assumes "strict_weak lt"
  shows "MakeFixedFlat lt key items =
    (if \<forall>v \<in> set items. length (filter (equivalent (value_comp lt key) v) items) \<le> 1
     then Inr (stable_sort (value_comp lt key) items) else Inl CheckFailed)"
  using assms by (rule strict_weak.make_fixed_flat)

theorem MakeFixedFlat_unique_keys_witness: "MakeFixedFlat (<) id [2, 1, 2::nat] = Inl CheckFailed"
  unfolding MakeFixedFlat_unique_keys [OF less_weak] by code_simp

text \<open>
  \<open>flat_map\<close>: \<open>at\<close> returns the mapped value or stops if the key is absent; \<open>operator[]\<close> refers to the value of the key and
  adds a default one if it is absent; \<open>insert_or_assign\<close> makes the mapped value \<open>obj\<close> and keeps a key that is stored.
\<close>

theorem flat_map_operations:
  assumes "strict_weak lt" "flat_ok lt fst body"
  shows "flat_map_at lt k body =
      (case flat_lookup lt fst body k of None \<Rightarrow> Inl CheckFailed | Some v \<Rightarrow> Inr (snd v)) \<and>
    (\<exists>it body'. flat_map_index lt dflt k body = (it, body') \<and> flat_ok lt fst body' \<and>
      flat_lookup lt fst body' = map_insert lt k (k, dflt) (flat_lookup lt fst body) \<and>
      it < length body' \<and> flat_lookup lt fst body' k = Some (body' ! it)) \<and>
    (\<exists>it body'. flat_map_insert_or_assign lt k obj body = ((it, flat_lookup lt fst body k = None), body') \<and>
      flat_ok lt fst body' \<and> flat_lookup lt fst body' = map_assign lt k
        (case flat_lookup lt fst body k of None \<Rightarrow> (k, obj) | Some v \<Rightarrow> (fst v, obj)) (flat_lookup lt fst body))"
  (is "?at \<and> ?index \<and> ?assign")
proof (intro conjI)
  show ?at unfolding strict_weak.flat_find_lookup(1) [OF assms] by (simp add: flat_map_at_def Let_def)
  obtain it body' where e: "flat_map_index lt dflt k body = (it, body')" by (metis surj_pair)
  from strict_weak.flat_map_index_map [OF assms e] e show ?index by blast
  obtain it inserted body' where e: "flat_map_insert_or_assign lt k obj body = ((it, inserted), body')"
    by (metis surj_pair)
  from strict_weak.flat_map_assign_map [OF assms e] e show ?assign by blast
qed

theorem flat_map_operations_witness: "flat_map_at (<) 2 [(1, ''a''), (3::nat, ''b'')] = Inl CheckFailed"
proof -
  have ok: "flat_ok (<) fst [(1, ''a''), (3::nat, ''b'')]" by code_simp
  have "flat_lookup (<) fst [(1, ''a''), (3::nat, ''b'')] 2 = None" by code_simp
  with flat_map_operations [OF less_weak ok, of 2] show ?thesis by simp
qed

end
