(* ===== verification/SmallMap.thy ===== *)
theory SmallMap
  imports FlatMapSpec
begin

text \<open>
  base/containers/small_map.h: a map that keeps its first \<open>kArraySize\<close> entries in an array and then turns into a \<open>NormalMap\<close>.
  \<open>array_\<close> and \<open>map_\<close> share their memory: the storage is an array of cells, \<open>None\<close> where no object lives, or a
  map. \<open>NormalMap\<close> is \<open>std::map\<close> with the comparison \<open>lt\<close>, a sequence of entries that is strictly sorted by key, so its
  operations are those of \<open>FlatTree\<close>; \<open>EqualKey\<close> is then the equivalence of \<open>lt\<close>. \<open>MapInit\<close> is the default, which
  constructs an empty map. An iterator is an index of the array or a position in the map.
\<close>

section \<open>State\<close>

datatype ('k, 'm) storage = ArrayStore "('k \<times> 'm) option list" | MapStore "('k \<times> 'm) list"

record ('k, 'm) small_map =
  sm_size :: nat
  sm_storage :: "('k, 'm) storage"

datatype small_iterator = ArrayIter nat | MapIter nat

definition kUsingFullMapSentinel :: nat where
  "kUsingFullMapSentinel = 2 ^ 64 - 1"

definition small_map_new :: "nat \<Rightarrow> ('k, 'm) small_map" where
  "small_map_new kArraySize = \<lparr>sm_size = 0, sm_storage = ArrayStore (replicate kArraySize None)\<rparr>"

definition UsingFullMap :: "('k, 'm) small_map \<Rightarrow> bool" where
  "UsingFullMap m \<longleftrightarrow> sm_size m = kUsingFullMapSentinel"

text \<open>Use of the member of the union that is not alive is a fault.\<close>

definition sm_array :: "('k, 'm) small_map \<Rightarrow> ('k \<times> 'm) option list res" where
  "sm_array m = (case sm_storage m of ArrayStore cells \<Rightarrow> Inr cells | MapStore _ \<Rightarrow> Inl DeadObject)"

definition sm_map :: "('k, 'm) small_map \<Rightarrow> ('k \<times> 'm) list res" where
  "sm_map m = check (UsingFullMap m)
     (case sm_storage m of ArrayStore _ \<Rightarrow> Inl DeadObject | MapStore body \<Rightarrow> Inr body)"

definition cell_read :: "'v option list \<Rightarrow> nat \<Rightarrow> 'v res" where
  "cell_read cells i =
     (if i < length cells then case cells ! i of None \<Rightarrow> Inl DeadObject | Some v \<Rightarrow> Inr v else Inl OutOfRange)"

definition cell_construct :: "nat \<Rightarrow> 'v \<Rightarrow> 'v option list \<Rightarrow> 'v option list res" where
  "cell_construct i v cells = guardr OutOfRange (i < length cells) (Inr (cells[i := Some v]))"

definition cell_destroy :: "nat \<Rightarrow> 'v option list \<Rightarrow> 'v option list res" where
  "cell_destroy i cells = rbind (cell_read cells i) (\<lambda>_. Inr (cells[i := None]))"

section \<open>Iterators\<close>

fun sm_iter_inc :: "small_iterator \<Rightarrow> small_iterator" where
  "sm_iter_inc (ArrayIter i) = ArrayIter (Suc i)"
| "sm_iter_inc (MapIter i) = MapIter (Suc i)"

fun sm_iter_dec :: "small_iterator \<Rightarrow> small_iterator res" where
  "sm_iter_dec (ArrayIter i) = guardr OutOfRange (0 < i) (Inr (ArrayIter (i - 1)))"
| "sm_iter_dec (MapIter i) = guardr OutOfRange (0 < i) (Inr (MapIter (i - 1)))"

fun sm_iter_eq :: "small_iterator \<Rightarrow> small_iterator \<Rightarrow> bool" where
  "sm_iter_eq (ArrayIter i) (ArrayIter j) \<longleftrightarrow> i = j"
| "sm_iter_eq (MapIter i) (MapIter j) \<longleftrightarrow> i = j"
| "sm_iter_eq _ _ \<longleftrightarrow> False"

fun sm_deref :: "small_iterator \<Rightarrow> ('k, 'm) small_map \<Rightarrow> ('k \<times> 'm) res" where
  "sm_deref (ArrayIter i) m = rbind (sm_array m) (\<lambda>cells. cell_read cells i)"
| "sm_deref (MapIter i) m = rbind (sm_map m) (\<lambda>body. guardr OutOfRange (i < length body) (Inr (body ! i)))"

definition sm_begin :: "('k, 'm) small_map \<Rightarrow> small_iterator" where
  "sm_begin m = (if UsingFullMap m then MapIter 0 else ArrayIter 0)"

definition sm_end :: "('k, 'm) small_map \<Rightarrow> small_iterator res" where
  "sm_end m = (if UsingFullMap m then rbind (sm_map m) (\<lambda>body. Inr (MapIter (length body))) else Inr (ArrayIter (sm_size m)))"

section \<open>Search\<close>

fun search_loop :: "('k \<Rightarrow> 'k \<Rightarrow> bool) \<Rightarrow> 'k \<Rightarrow> ('k \<times> 'm) option list \<Rightarrow> nat \<Rightarrow> nat \<Rightarrow> nat option res" where
  "search_loop lt key cells i 0 = Inr None"
| "search_loop lt key cells i (Suc n) =
     rbind (cell_read cells i) (\<lambda>kv.
     if equivalent lt (fst kv) key then Inr (Some i) else search_loop lt key cells (Suc i) n)"

fun search_back :: "('k \<Rightarrow> 'k \<Rightarrow> bool) \<Rightarrow> 'k \<Rightarrow> ('k \<times> 'm) option list \<Rightarrow> nat \<Rightarrow> nat option res" where
  "search_back lt key cells 0 = Inr None"
| "search_back lt key cells (Suc i) =
     rbind (cell_read cells i) (\<lambda>kv.
     if equivalent lt (fst kv) key then Inr (Some i) else search_back lt key cells i)"

definition sm_find :: "('k \<Rightarrow> 'k \<Rightarrow> bool) \<Rightarrow> 'k \<Rightarrow> ('k, 'm) small_map \<Rightarrow> small_iterator res" where
  "sm_find lt key m =
     (if UsingFullMap m then rbind (sm_map m) (\<lambda>body. Inr (MapIter (flat_find lt fst key body)))
      else rbind (sm_array m) (\<lambda>cells. rbind (search_loop lt key cells 0 (sm_size m)) (\<lambda>r.
        Inr (ArrayIter (case r of Some i \<Rightarrow> i | None \<Rightarrow> sm_size m)))))"

definition sm_count :: "('k \<Rightarrow> 'k \<Rightarrow> bool) \<Rightarrow> 'k \<Rightarrow> ('k, 'm) small_map \<Rightarrow> nat res" where
  "sm_count lt key m =
     rbind (sm_find lt key m) (\<lambda>it. rbind (sm_end m) (\<lambda>e. Inr (if sm_iter_eq it e then 0 else 1)))"

definition sm_size_of :: "('k, 'm) small_map \<Rightarrow> nat res" where
  "sm_size_of m = (if UsingFullMap m then rbind (sm_map m) (\<lambda>body. Inr (length body)) else Inr (sm_size m))"

definition sm_empty :: "('k, 'm) small_map \<Rightarrow> bool res" where
  "sm_empty m = (if UsingFullMap m then rbind (sm_map m) (\<lambda>body. Inr (body = [])) else Inr (sm_size m = 0))"

section \<open>Modifiers\<close>

text \<open>The loops of \<open>ConvertToRealMap\<close>: every cell is moved to a temporary array, then inserted into the empty map.\<close>

fun move_out :: "'v option list \<Rightarrow> nat \<Rightarrow> nat \<Rightarrow> 'v list res" where
  "move_out cells i 0 = Inr []"
| "move_out cells i (Suc n) =
     rbind (cell_read cells i) (\<lambda>v. rbind (move_out (cells[i := None]) (Suc i) n) (\<lambda>vs. Inr (v # vs)))"

definition ConvertToRealMap :: "('k \<Rightarrow> 'k \<Rightarrow> bool) \<Rightarrow> ('k, 'm) small_map \<Rightarrow> ('k, 'm) small_map res" where
  "ConvertToRealMap lt m =
     rbind (sm_array m) (\<lambda>cells. rbind (move_out cells 0 (length cells)) (\<lambda>temp.
     Inr \<lparr>sm_size = kUsingFullMapSentinel,
       sm_storage = MapStore (foldl (\<lambda>body v. snd (flat_insert lt fst v body)) [] temp)\<rparr>))"

text \<open>\<open>operator[]\<close> gives a reference to the mapped value of the entry at an iterator.\<close>

definition map_index_at :: "('k \<Rightarrow> 'k \<Rightarrow> bool) \<Rightarrow> 'm \<Rightarrow> 'k \<Rightarrow> ('k, 'm) small_map \<Rightarrow> (small_iterator \<times> ('k, 'm) small_map) res" where
  "map_index_at lt dflt key m =
     rbind (sm_map m) (\<lambda>body. let (it, body) = flat_map_index lt dflt key body in
     Inr (MapIter it, m\<lparr>sm_storage := MapStore body\<rparr>))"

definition sm_index :: "('k \<Rightarrow> 'k \<Rightarrow> bool) \<Rightarrow> 'm \<Rightarrow> 'k \<Rightarrow> ('k, 'm) small_map \<Rightarrow> (small_iterator \<times> ('k, 'm) small_map) res" where
  "sm_index lt dflt key m =
     (if UsingFullMap m then map_index_at lt dflt key m
      else rbind (sm_array m) (\<lambda>cells. rbind (search_back lt key cells (sm_size m)) (\<lambda>r. case r of
          Some i \<Rightarrow> Inr (ArrayIter i, m)
        | None \<Rightarrow>
            if sm_size m = length cells then rbind (ConvertToRealMap lt m) (map_index_at lt dflt key)
            else dcheck (sm_size m < length cells)
              (rbind (cell_construct (sm_size m) (key, dflt) cells) (\<lambda>cells.
               Inr (ArrayIter (sm_size m), \<lparr>sm_size = Suc (sm_size m), sm_storage = ArrayStore cells\<rparr>))))))"

definition map_insert_at :: "('k \<Rightarrow> 'k \<Rightarrow> bool) \<Rightarrow> 'k \<times> 'm \<Rightarrow> ('k, 'm) small_map \<Rightarrow> ((small_iterator \<times> bool) \<times> ('k, 'm) small_map) res" where
  "map_insert_at lt x m =
     rbind (sm_map m) (\<lambda>body. let ((it, inserted), body) = flat_insert lt fst x body in
     Inr ((MapIter it, inserted), m\<lparr>sm_storage := MapStore body\<rparr>))"

definition sm_insert :: "('k \<Rightarrow> 'k \<Rightarrow> bool) \<Rightarrow> 'k \<times> 'm \<Rightarrow> ('k, 'm) small_map \<Rightarrow> ((small_iterator \<times> bool) \<times> ('k, 'm) small_map) res" where
  "sm_insert lt x m =
     (if UsingFullMap m then map_insert_at lt x m
      else rbind (sm_array m) (\<lambda>cells. rbind (search_loop lt (fst x) cells 0 (sm_size m)) (\<lambda>r. case r of
          Some i \<Rightarrow> Inr ((ArrayIter i, False), m)
        | None \<Rightarrow>
            if sm_size m = length cells then rbind (ConvertToRealMap lt m) (map_insert_at lt x)
            else dcheck (sm_size m < length cells)
              (rbind (cell_construct (sm_size m) x cells) (\<lambda>cells.
               Inr ((ArrayIter (sm_size m), True), \<lparr>sm_size = Suc (sm_size m), sm_storage = ArrayStore cells\<rparr>))))))"

text \<open>\<open>emplace\<close> constructs the entry first.\<close>

definition sm_emplace :: "('k \<Rightarrow> 'k \<Rightarrow> bool) \<Rightarrow> 'k \<times> 'm \<Rightarrow> ('k, 'm) small_map \<Rightarrow> ((small_iterator \<times> bool) \<times> ('k, 'm) small_map) res" where
  "sm_emplace lt x m = sm_insert lt x m"

fun sm_insert_range :: "('k \<Rightarrow> 'k \<Rightarrow> bool) \<Rightarrow> ('k \<times> 'm) list \<Rightarrow> ('k, 'm) small_map \<Rightarrow> ('k, 'm) small_map res" where
  "sm_insert_range lt [] m = Inr m"
| "sm_insert_range lt (x # xs) m = rbind (sm_insert lt x m) (\<lambda>(_, m). sm_insert_range lt xs m)"

text \<open>Destruction of the first \<open>n\<close> entries of the array.\<close>

fun destroy_loop :: "nat \<Rightarrow> nat \<Rightarrow> 'v option list \<Rightarrow> 'v option list res" where
  "destroy_loop i 0 cells = Inr cells"
| "destroy_loop i (Suc n) cells = rbind (cell_destroy i cells) (destroy_loop (Suc i) n)"

definition sm_Destroy :: "nat \<Rightarrow> ('k, 'm) small_map \<Rightarrow> ('k, 'm) storage res" where
  "sm_Destroy kArraySize m =
     (if UsingFullMap m then rbind (sm_map m) (\<lambda>_. Inr (ArrayStore (replicate kArraySize None)))
      else rbind (sm_array m) (\<lambda>cells. rbind (destroy_loop 0 (sm_size m) cells) (\<lambda>cells. Inr (ArrayStore cells))))"

definition sm_clear :: "nat \<Rightarrow> ('k, 'm) small_map \<Rightarrow> ('k, 'm) small_map res" where
  "sm_clear kArraySize m = rbind (sm_Destroy kArraySize m) (\<lambda>st. Inr \<lparr>sm_size = 0, sm_storage = st\<rparr>)"

fun copy_loop :: "'v option list \<Rightarrow> nat \<Rightarrow> nat \<Rightarrow> 'v option list \<Rightarrow> 'v option list res" where
  "copy_loop src i 0 cells = Inr cells"
| "copy_loop src i (Suc n) cells =
     rbind (cell_read src i) (\<lambda>v. rbind (cell_construct i v cells) (copy_loop src (Suc i) n))"

definition sm_InitFrom :: "nat \<Rightarrow> ('k, 'm) small_map \<Rightarrow> ('k, 'm) small_map res" where
  "sm_InitFrom kArraySize src =
     (if UsingFullMap src then rbind (sm_map src) (\<lambda>body. Inr \<lparr>sm_size = sm_size src, sm_storage = MapStore body\<rparr>)
      else rbind (sm_array src) (\<lambda>cells. rbind (copy_loop cells 0 (sm_size src) (replicate kArraySize None)) (\<lambda>cells.
        Inr \<lparr>sm_size = sm_size src, sm_storage = ArrayStore cells\<rparr>)))"

text \<open>The copy assignment; \<open>same\<close> tells whether source and target are one object.\<close>

definition sm_assign :: "nat \<Rightarrow> bool \<Rightarrow> ('k, 'm) small_map \<Rightarrow> ('k, 'm) small_map \<Rightarrow> ('k, 'm) small_map res" where
  "sm_assign kArraySize same src m =
     (if same then Inr m else rbind (sm_Destroy kArraySize m) (\<lambda>_. sm_InitFrom kArraySize src))"

text \<open>\<open>size_ - 1\<close> wraps around; the check lets the position behind the last entry pass.\<close>

definition size_dec :: "nat \<Rightarrow> nat" where
  "size_dec n = (n + (2 ^ 64 - 1)) mod 2 ^ 64"

definition array_erase :: "nat \<Rightarrow> ('k, 'm) small_map \<Rightarrow> (small_iterator \<times> ('k, 'm) small_map) res" where
  "array_erase i m =
     rbind (sm_array m) (\<lambda>cells.
     check (i \<le> sm_size m)
      (rbind (cell_destroy i cells) (\<lambda>cells.
       let size = size_dec (sm_size m) in
       if i \<noteq> size then
         rbind (cell_read cells size) (\<lambda>v. rbind (cell_construct i v cells) (\<lambda>cells.
         rbind (cell_destroy size cells) (\<lambda>cells.
         Inr (ArrayIter i, \<lparr>sm_size = size, sm_storage = ArrayStore cells\<rparr>))))
       else
         let m = \<lparr>sm_size = size, sm_storage = ArrayStore cells\<rparr> in
         rbind (sm_end m) (\<lambda>e. Inr (e, m)))))"

definition sm_erase :: "small_iterator \<Rightarrow> ('k, 'm) small_map \<Rightarrow> (small_iterator \<times> ('k, 'm) small_map) res" where
  "sm_erase position m =
     (case position of
        MapIter i \<Rightarrow>
          if UsingFullMap m then
            rbind (sm_map m) (\<lambda>body. guardr OutOfRange (i < length body)
              (Inr (MapIter i, m\<lparr>sm_storage := MapStore (take i body @ drop (Suc i) body)\<rparr>)))
          else Inl OutOfRange
      | ArrayIter i \<Rightarrow> if UsingFullMap m then Inl OutOfRange else array_erase i m)"

definition sm_erase_key :: "('k \<Rightarrow> 'k \<Rightarrow> bool) \<Rightarrow> 'k \<Rightarrow> ('k, 'm) small_map \<Rightarrow> (nat \<times> ('k, 'm) small_map) res" where
  "sm_erase_key lt key m =
     rbind (sm_find lt key m) (\<lambda>it. rbind (sm_end m) (\<lambda>e.
     if sm_iter_eq it e then Inr (0, m) else rbind (sm_erase it m) (\<lambda>(_, m). Inr (1, m))))"

end
