(* ===== verification/SmallMapProps.thy ===== *)
theory SmallMapProps
  imports SmallMap FlatProps
begin

text \<open>
  The small map is a map: whatever its array size, a program over it sees what a list of entries with one entry per key
  shows, no dead object is used, and the objects that live are the entries. Its \<open>erase\<close> accepts the end iterator.
\<close>

section \<open>Representation\<close>

definition one_per_key :: "('k \<Rightarrow> 'k \<Rightarrow> bool) \<Rightarrow> ('k \<times> 'm) list \<Rightarrow> bool" where
  "one_per_key lt xs \<longleftrightarrow> sorted_wrt (\<lambda>a b. \<not> equivalent lt (fst a) (fst b)) xs"

definition cells_of :: "nat \<Rightarrow> 'v list \<Rightarrow> 'v option list" where
  "cells_of n xs = map Some xs @ replicate (n - length xs) None"

definition arr :: "nat \<Rightarrow> ('k \<times> 'm) list \<Rightarrow> ('k, 'm) small_map" where
  "arr n xs = \<lparr>sm_size = length xs, sm_storage = ArrayStore (cells_of n xs)\<rparr>"

definition full :: "('k \<times> 'm) list \<Rightarrow> ('k, 'm) small_map" where
  "full body = \<lparr>sm_size = kUsingFullMapSentinel, sm_storage = MapStore body\<rparr>"

definition sm_rep :: "nat \<Rightarrow> ('k \<Rightarrow> 'k \<Rightarrow> bool) \<Rightarrow> ('k, 'm) small_map \<Rightarrow> ('k \<times> 'm) list \<Rightarrow> bool" where
  "sm_rep n lt m xs \<longleftrightarrow> 0 < n \<and> n < kUsingFullMapSentinel \<and>
     (m = arr n xs \<and> length xs \<le> n \<and> one_per_key lt xs \<or> m = full xs \<and> flat_ok lt fst xs)"

lemma length_cells_of [simp]: "length xs \<le> n \<Longrightarrow> length (cells_of n xs) = n"
  by (simp add: cells_of_def)

lemma cell_read_cells: "i < length xs \<Longrightarrow> length xs \<le> n \<Longrightarrow> cell_read (cells_of n xs) i = Inr (xs ! i)"
  by (simp add: cell_read_def cells_of_def nth_append)

lemma cell_read_dead:
  "length xs \<le> n \<Longrightarrow> cell_read (cells_of n xs) (length xs) = Inl (if length xs < n then DeadObject else OutOfRange)"
  by (simp add: cell_read_def cells_of_def nth_append)

lemma cells_update_last:
  assumes "length xs < n"
  shows "(cells_of n xs)[length xs := Some v] = cells_of n (xs @ [v])"
proof -
  obtain k where "n - length xs = Suc k" using assms by (cases "n - length xs") auto
  moreover from this have "n - Suc (length xs) = k" by simp
  ultimately show ?thesis by (simp add: cells_of_def list_update_append)
qed

lemma cells_update: "i < length xs \<Longrightarrow> (cells_of n xs)[i := Some v] = cells_of n (xs[i := v])"
  by (simp add: cells_of_def list_update_append map_update)

lemma arr_simps [simp]:
  "sm_size (arr n xs) = length xs" "sm_array (arr n xs) = Inr (cells_of n xs)"
  "length xs \<le> n \<Longrightarrow> n < kUsingFullMapSentinel \<Longrightarrow> \<not> UsingFullMap (arr n xs)"
  by (auto simp: arr_def sm_array_def UsingFullMap_def)

lemma full_simps [simp]: "UsingFullMap (full body)" "sm_map (full body) = Inr body" "sm_array (full body) = Inl DeadObject"
  "full body = full body' \<longleftrightarrow> body = body'" "full body\<lparr>sm_storage := MapStore body'\<rparr> = full body'"
  by (auto simp: full_def sm_map_def sm_array_def UsingFullMap_def)

definition inserted_one :: "('k \<Rightarrow> 'k \<Rightarrow> bool) \<Rightarrow> 'k \<times> 'm \<Rightarrow> ('k \<times> 'm) list \<Rightarrow> ('k \<times> 'm) multiset" where
  "inserted_one lt x xs = (if flat_lookup lt fst xs (fst x) = None then add_mset x (mset xs) else mset xs)"

section \<open>Search\<close>

lemma search_loop_cells:
  assumes "i + k = length xs" "length xs \<le> n"
  shows "\<exists>r. search_loop lt key (cells_of n xs) i k = Inr r \<and>
    (case r of None \<Rightarrow> \<forall>j < length xs. i \<le> j \<longrightarrow> \<not> equivalent lt (fst (xs ! j)) key
     | Some j \<Rightarrow> j < length xs \<and> equivalent lt (fst (xs ! j)) key)"
  using assms(1)
proof (induction k arbitrary: i)
  case (Suc k)
  show ?case
  proof (cases "equivalent lt (fst (xs ! i)) key")
    case True
    then show ?thesis using Suc.prems assms(2) by (auto simp: cell_read_cells)
  next
    case False
    obtain r where r: "search_loop lt key (cells_of n xs) (Suc i) k = Inr r"
      "case r of None \<Rightarrow> \<forall>j < length xs. Suc i \<le> j \<longrightarrow> \<not> equivalent lt (fst (xs ! j)) key
        | Some j \<Rightarrow> j < length xs \<and> equivalent lt (fst (xs ! j)) key"
      using Suc.IH [of "Suc i"] Suc.prems by auto
    have "search_loop lt key (cells_of n xs) i (Suc k) = Inr r"
      using False r(1) Suc.prems assms(2) by (simp add: cell_read_cells)
    moreover have "\<not> equivalent lt (fst (xs ! j)) key" if "r = None" "i \<le> j" "j < length xs" for j
      using r(2) that False by (cases "i = j") auto
    ultimately show ?thesis using r(2) by (cases r) auto
  qed
qed auto

lemma search_back_cells:
  assumes "i \<le> length xs" "length xs \<le> n"
  shows "\<exists>r. search_back lt key (cells_of n xs) i = Inr r \<and>
    (case r of None \<Rightarrow> \<forall>j < i. \<not> equivalent lt (fst (xs ! j)) key
     | Some j \<Rightarrow> j < length xs \<and> equivalent lt (fst (xs ! j)) key)"
  using assms(1)
proof (induction i)
  case (Suc i)
  show ?case
  proof (cases "equivalent lt (fst (xs ! i)) key")
    case True
    then show ?thesis using Suc.prems assms(2) by (auto simp: cell_read_cells)
  next
    case False
    then show ?thesis using Suc assms(2) by (auto simp: cell_read_cells less_Suc_eq split: option.splits)
  qed
qed simp

lemma not_any: "(\<forall>j < length xs. \<not> equivalent lt (fst (xs ! j)) key) \<longleftrightarrow> flat_lookup lt fst xs key = None"
  unfolding flat_lookup_def find_None_iff by (metis in_set_conv_nth)

lemma move_out_eq:
  "\<lbrakk>i + k = length xs; length cells = length xs; \<forall>j. i \<le> j \<and> j < length xs \<longrightarrow> cells ! j = Some (xs ! j)\<rbrakk>
    \<Longrightarrow> move_out cells i k = Inr (drop i xs)"
proof (induction k arbitrary: i cells)
  case (Suc k)
  have "move_out (cells[i := None]) (Suc i) k = Inr (drop (Suc i) xs)"
    using Suc.prems by (intro Suc.IH) auto
  moreover have "cell_read cells i = Inr (xs ! i)" using Suc.prems by (simp add: cell_read_def)
  ultimately show ?case using Suc.prems by (simp add: Cons_nth_drop_Suc)
qed simp

context strict_weak
begin

lemma flat_ok_one_per_key: "flat_ok lt fst xs \<Longrightarrow> one_per_key lt xs"
  unfolding flat_ok_def one_per_key_def by (rule sorted_wrt_mono_rel) (auto simp: value_comp_def equivalent_def)

lemma one_per_key_lookup:
  "one_per_key lt xs \<Longrightarrow> flat_lookup lt fst xs k = Some e \<longleftrightarrow> e \<in> set xs \<and> equivalent lt (fst e) k"
proof (induction xs)
  case (Cons x xs)
  have "x = e" if "e \<in> set xs" "equivalent lt (fst e) k" "equivalent lt (fst x) k"
  proof -
    have "\<not> equivalent lt (fst x) (fst e)" using Cons.prems that(1) by (simp add: one_per_key_def)
    then show ?thesis using that(2,3) equivalent_trans equivalent_sym by metis
  qed
  then show ?case using Cons by (auto simp: flat_lookup_def one_per_key_def)
qed (simp add: flat_lookup_def)

lemma one_per_key_mset:
  assumes "one_per_key lt xs" "mset xs = mset ys" "one_per_key lt ys"
  shows "flat_lookup lt fst xs = flat_lookup lt fst ys"
proof
  fix k
  have "flat_lookup lt fst xs k = Some e \<longleftrightarrow> flat_lookup lt fst ys k = Some e" for e
    using mset_eq_setD [OF assms(2)] by (simp add: one_per_key_lookup assms(1,3))
  then show "flat_lookup lt fst xs k = flat_lookup lt fst ys k" by (metis not_None_eq)
qed

lemma flat_insert_mset:
  assumes "flat_ok lt fst body"
  shows "mset (snd (flat_insert lt fst x body)) =
    (if flat_lookup lt fst body (fst x) = None then add_mset x (mset body) else mset body)"
proof -
  have "mset (take i body @ x # drop i body) = add_mset x (mset (take i body @ drop i body))" for i
    by (simp del: append_take_drop_id)
  then show ?thesis
    using emplace_key_args_cases [OF assms refl refl, of x] unfolding flat_insert_def append_take_drop_id
    by (auto split: option.splits)
qed

lemma one_per_key_count:
  "one_per_key lt xs \<longleftrightarrow> (\<forall>k. size (filter_mset (\<lambda>d. equivalent lt k (fst d)) (mset xs)) \<le> 1)"
proof (induction xs)
  case (Cons x xs)
  let ?c = "\<lambda>k. filter_mset (\<lambda>d. equivalent lt k (fst d))"
  have one: "size (?c k (mset (x # xs))) \<le> 1" if "?c (fst x) (mset xs) = {#}" "size (?c k (mset xs)) \<le> 1" for k
  proof (cases "equivalent lt k (fst x)")
    case True
    then have "?c k (mset xs) = {#}" using that(1) equivalent_cong [OF True] by simp
    then show ?thesis using True by simp
  next
    case False
    then show ?thesis using that(2) by simp
  qed
  have le: "size (?c k (mset xs)) \<le> size (?c k (mset (x # xs)))" for k by (cases "equivalent lt k (fst x)") simp_all
  have suc: "size (?c (fst x) (mset (x # xs))) = Suc (size (?c (fst x) (mset xs)))" by simp
  have "?c (fst x) (mset xs) = {#} \<and> (\<forall>k. size (?c k (mset xs)) \<le> 1) \<longleftrightarrow>
      (\<forall>k. size (?c k (mset (x # xs))) \<le> 1)" (is "?l \<longleftrightarrow> ?r")
  proof
    assume ?l
    then show ?r using one by blast
  next
    assume ?r
    then have "Suc (size (?c (fst x) (mset xs))) \<le> 1" unfolding suc [symmetric] ..
    moreover have "\<forall>k. size (?c k (mset xs)) \<le> 1" using \<open>?r\<close> le order_trans by blast
    ultimately show ?l by simp
  qed
  moreover have "one_per_key lt (x # xs) \<longleftrightarrow> ?c (fst x) (mset xs) = {#} \<and> one_per_key lt xs"
    by (auto simp: one_per_key_def)
  ultimately show ?case using Cons.IH by simp
qed (simp add: one_per_key_def)

lemma one_per_key_mset_cong: "one_per_key lt xs \<Longrightarrow> mset xs = mset ys \<Longrightarrow> one_per_key lt ys"
  unfolding one_per_key_count by simp

lemma fold_insert_mset:
  "\<lbrakk>flat_ok lt fst body; one_per_key lt xs; \<forall>x \<in> set xs. flat_lookup lt fst body (fst x) = None\<rbrakk> \<Longrightarrow>
    flat_ok lt fst (foldl (\<lambda>b v. snd (flat_insert lt fst v b)) body xs) \<and>
    mset (foldl (\<lambda>b v. snd (flat_insert lt fst v b)) body xs) = mset body + mset xs"
proof (induction xs arbitrary: body)
  case (Cons x xs)
  let ?b = "snd (flat_insert lt fst x body)"
  have ok: "flat_ok lt fst ?b" by (rule insert_ok) (rule Cons.prems(1))
  have "flat_lookup lt fst ?b = map_insert lt (fst x) x (flat_lookup lt fst body)"
    using insert_map [OF Cons.prems(1), of x] by auto
  then have "\<forall>y \<in> set xs. flat_lookup lt fst ?b (fst y) = None"
    using Cons.prems(2,3) by (simp add: map_insert_def one_per_key_def)
  with Cons.IH [OF ok] Cons.prems(2) flat_insert_mset [OF Cons.prems(1), of x] Cons.prems(3)
  show ?case by (simp add: one_per_key_def)
qed simp

lemma convert_map:
  assumes "length xs = n" "one_per_key lt xs"
  shows "\<exists>body. ConvertToRealMap lt (arr n xs) = Inr (full body) \<and> flat_ok lt fst body \<and> mset body = mset xs"
proof -
  have "move_out (cells_of n xs) 0 (length xs) = Inr (drop 0 xs)"
    using assms(1) by (intro move_out_eq) (auto simp: cells_of_def)
  then show ?thesis
    using fold_insert_mset [of "[]" xs] assms
    by (auto simp: ConvertToRealMap_def full_def flat_ok_def flat_lookup_def)
qed

lemma map_insert_at_full:
  assumes "flat_ok lt fst body"
  shows "\<exists>it body'. map_insert_at lt x (full body) = Inr ((MapIter it, flat_lookup lt fst body (fst x) = None), full body') \<and>
    flat_ok lt fst body' \<and> it < length body' \<and> flat_lookup lt fst body' (fst x) = Some (body' ! it) \<and>
    mset body' = (if flat_lookup lt fst body (fst x) = None then add_mset x (mset body) else mset body)"
  using insert_map [OF assms, of x] flat_insert_mset [OF assms, of x] by (auto simp: map_insert_at_def)

lemma sm_rep_cases:
  assumes "sm_rep n lt m xs"
  obtains "m = arr n xs" "length xs \<le> n" "one_per_key lt xs" "n < kUsingFullMapSentinel" "0 < n"
  | "m = full xs" "flat_ok lt fst xs" "n < kUsingFullMapSentinel" "0 < n"
  using assms unfolding sm_rep_def by blast

lemma found_lookup:
  assumes "one_per_key lt xs"
    "case r of None \<Rightarrow> \<forall>j < length xs. \<not> equivalent lt (fst (xs ! j)) key
      | Some j \<Rightarrow> j < length xs \<and> equivalent lt (fst (xs ! j)) key"
  shows "flat_lookup lt fst xs key = map_option ((!) xs) r" "\<forall>i. r = Some i \<longrightarrow> i < length xs"
proof -
  show "flat_lookup lt fst xs key = map_option ((!) xs) r"
    using assms(2) not_any [of xs lt key] by (cases r) (auto simp: one_per_key_lookup [OF assms(1)])
  show "\<forall>i. r = Some i \<longrightarrow> i < length xs" using assms(2) by auto
qed

lemma search_lookup:
  assumes "one_per_key lt xs" "length xs \<le> n"
  shows "\<exists>r. search_loop lt key (cells_of n xs) 0 (length xs) = Inr r \<and>
      flat_lookup lt fst xs key = map_option ((!) xs) r \<and> (\<forall>i. r = Some i \<longrightarrow> i < length xs)"
    "\<exists>r. search_back lt key (cells_of n xs) (length xs) = Inr r \<and>
      flat_lookup lt fst xs key = map_option ((!) xs) r \<and> (\<forall>i. r = Some i \<longrightarrow> i < length xs)"
proof -
  obtain r where r: "search_loop lt key (cells_of n xs) 0 (length xs) = Inr r"
    "case r of None \<Rightarrow> \<forall>j < length xs. \<not> equivalent lt (fst (xs ! j)) key
      | Some j \<Rightarrow> j < length xs \<and> equivalent lt (fst (xs ! j)) key"
    using search_loop_cells [of 0 "length xs" xs n lt key] assms(2) by (auto cong: option.case_cong)
  from r(1) found_lookup [OF assms(1) r(2)]
  show "\<exists>r. search_loop lt key (cells_of n xs) 0 (length xs) = Inr r \<and>
      flat_lookup lt fst xs key = map_option ((!) xs) r \<and> (\<forall>i. r = Some i \<longrightarrow> i < length xs)" by blast
  obtain r where r: "search_back lt key (cells_of n xs) (length xs) = Inr r"
    "case r of None \<Rightarrow> \<forall>j < length xs. \<not> equivalent lt (fst (xs ! j)) key
      | Some j \<Rightarrow> j < length xs \<and> equivalent lt (fst (xs ! j)) key"
    using search_back_cells [of "length xs" xs n lt key] assms(2) by auto
  from r(1) found_lookup [OF assms(1) r(2)]
  show "\<exists>r. search_back lt key (cells_of n xs) (length xs) = Inr r \<and>
      flat_lookup lt fst xs key = map_option ((!) xs) r \<and> (\<forall>i. r = Some i \<longrightarrow> i < length xs)" by blast
qed

text \<open>\<open>find\<close> returns an iterator of the entry, or the end.\<close>

lemma sm_find_rep:
  assumes "sm_rep n lt m xs"
  shows "\<exists>it e. sm_find lt key m = Inr it \<and> sm_end m = Inr e \<and>
    (case flat_lookup lt fst xs key of None \<Rightarrow> it = e | Some x \<Rightarrow> \<not> sm_iter_eq it e \<and> sm_deref it m = Inr x)"
  using assms
proof (cases rule: sm_rep_cases)
  case 1
  obtain r where r: "search_loop lt key (cells_of n xs) 0 (length xs) = Inr r"
    "flat_lookup lt fst xs key = map_option ((!) xs) r" "\<forall>i. r = Some i \<longrightarrow> i < length xs"
    using search_lookup(1) [OF 1(3,2)] by blast
  then show ?thesis using 1
    by (cases r) (auto simp: sm_find_def sm_end_def cell_read_cells)
next
  case 2
  then show ?thesis
    using flat_find_lookup [OF 2(2), of key]
    by (auto simp: sm_find_def sm_end_def)
qed

lemma sm_iter_eq_refl [simp]: "sm_iter_eq it it"
  by (cases it) auto

lemma sm_count_rep: "sm_rep n lt m xs \<Longrightarrow> sm_count lt key m = Inr (if flat_lookup lt fst xs key = None then 0 else 1)"
  using sm_find_rep [of n m xs key] by (auto simp: sm_count_def split: option.splits)

text \<open>\<open>insert\<close> on every representation.\<close>

text \<open>\<open>operator[]\<close> on every representation.\<close>

lemma map_index_at_full:
  assumes "flat_ok lt fst body" "0 < n" "n < kUsingFullMapSentinel"
  shows "\<exists>it m' xs' e. map_index_at lt dflt k (full body) = Inr (it, m') \<and> sm_rep n lt m' xs' \<and>
    mset xs' = inserted_one lt (k, dflt) body \<and> sm_deref it m' = Inr e \<and> equivalent lt (fst e) k"
proof -
  obtain it body' where e: "flat_map_index lt dflt k body = (it, body')" by fastforce
  note m = flat_map_index_map [OF assms(1) e]
  have "snd (flat_insert lt fst (k, dflt) body) = body'"
    using flat_canonical [OF insert_ok [OF assms(1)] m(1), of "(k, dflt)"] insert_map [OF assms(1), of "(k, dflt)"] m(2)
    by auto
  then have "mset body' = inserted_one lt (k, dflt) body"
    using flat_insert_mset [OF assms(1), of "(k, dflt)"] by (simp add: inserted_one_def)
  moreover have "equivalent lt (fst (body' ! it)) k" using m(4) flat_lookup_Some [OF m(1)] by blast
  moreover have "map_index_at lt dflt k (full body) = Inr (MapIter it, full body')" using e by (simp add: map_index_at_def)
  moreover have "sm_deref (MapIter it) (full body') = Inr (body' ! it)" using m(3) by simp
  moreover have "sm_rep n lt (full body') body'" using m(1) assms(2,3) by (simp add: sm_rep_def)
  ultimately show ?thesis by blast
qed

text \<open>A full array turned into a map holds the same entries.\<close>

lemma convert_same:
  assumes "length xs = n" "one_per_key lt xs"
  obtains body where "ConvertToRealMap lt (arr n xs) = Inr (full body)" "flat_ok lt fst body" "mset body = mset xs"
    "flat_lookup lt fst body = flat_lookup lt fst xs" "\<And>x. inserted_one lt x body = inserted_one lt x xs"
proof -
  obtain body where b: "ConvertToRealMap lt (arr n xs) = Inr (full body)" "flat_ok lt fst body" "mset body = mset xs"
    using convert_map [OF assms] by blast
  moreover from this have "flat_lookup lt fst body = flat_lookup lt fst xs"
    using one_per_key_mset [OF flat_ok_one_per_key] assms(2) by blast
  ultimately show ?thesis using that by (simp add: inserted_one_def)
qed

lemma sm_append_rep:
  assumes "length xs < n" "n < kUsingFullMapSentinel" "one_per_key lt xs" "flat_lookup lt fst xs (fst x) = None"
  shows "sm_rep n lt (arr n (xs @ [x])) (xs @ [x])" "mset (xs @ [x]) = inserted_one lt x xs"
    "cell_construct (length xs) x (cells_of n xs) = Inr (cells_of n (xs @ [x]))"
    "sm_deref (ArrayIter (length xs)) (arr n (xs @ [x])) = Inr x"
proof -
  have "one_per_key lt (xs @ [x])"
    using assms(3,4) by (auto simp: one_per_key_def sorted_wrt_append flat_lookup_None)
  then show "sm_rep n lt (arr n (xs @ [x])) (xs @ [x])" using assms(1,2) by (simp add: sm_rep_def)
  show "mset (xs @ [x]) = inserted_one lt x xs" using assms(4) by (simp add: inserted_one_def)
  show "cell_construct (length xs) x (cells_of n xs) = Inr (cells_of n (xs @ [x]))"
    using assms(1) by (simp add: cell_construct_def cells_update_last)
  show "sm_deref (ArrayIter (length xs)) (arr n (xs @ [x])) = Inr x"
    using assms(1) cell_read_cells [of "length xs" "xs @ [x]" n] by simp
qed

lemma sm_insert_rep:
  assumes "sm_rep n lt m xs"
  shows "\<exists>it m' xs'. sm_insert lt x m = Inr ((it, flat_lookup lt fst xs (fst x) = None), m') \<and> sm_rep n lt m' xs' \<and>
    mset xs' = inserted_one lt x xs"
  using assms
proof (cases rule: sm_rep_cases)
  case 2
  from map_insert_at_full [OF 2(2), of x] 2 show ?thesis
    unfolding sm_insert_def sm_rep_def inserted_one_def by auto
next
  case 1
  obtain r where r: "search_loop lt (fst x) (cells_of n xs) 0 (length xs) = Inr r"
    "flat_lookup lt fst xs (fst x) = map_option ((!) xs) r" "\<forall>i. r = Some i \<longrightarrow> i < length xs"
    using search_lookup(1) [OF 1(3,2)] by blast
  consider i where "r = Some i" | "r = None" "length xs = n" | "r = None" "length xs < n" using 1(2) by fastforce
  then show ?thesis
  proof cases
    case (1 i)
    with r \<open>m = arr n xs\<close> \<open>length xs \<le> n\<close> \<open>n < kUsingFullMapSentinel\<close> assms show ?thesis
      by (auto simp: sm_insert_def inserted_one_def)
  next
    case 2
    then obtain body where b: "ConvertToRealMap lt (arr n xs) = Inr (full body)" "flat_ok lt fst body"
      "flat_lookup lt fst body = flat_lookup lt fst xs" "inserted_one lt x body = inserted_one lt x xs"
      using convert_same 1(3) by metis
    then have "sm_insert lt x m = map_insert_at lt x (full body)" using 1 2 r by (simp add: sm_insert_def)
    then show ?thesis
      using map_insert_at_full [OF b(2), of x] b(3,4) 1 unfolding sm_rep_def inserted_one_def by auto
  next
    case 3
    then have none: "flat_lookup lt fst xs (fst x) = None" using r(2) by simp
    note a = sm_append_rep [OF 3(2) 1(4,3) none]
    have "sm_insert lt x m = Inr ((ArrayIter (length xs), True), arr n (xs @ [x]))"
      using 1 3 r a(3) by (simp add: sm_insert_def arr_def [of n "xs @ _"])
    then show ?thesis using a(1,2) none by auto
  qed
qed

lemma sm_index_rep:
  assumes "sm_rep n lt m xs"
  shows "\<exists>it m' xs' e. sm_index lt dflt k m = Inr (it, m') \<and> sm_rep n lt m' xs' \<and>
    mset xs' = inserted_one lt (k, dflt) xs \<and> sm_deref it m' = Inr e \<and> equivalent lt (fst e) k"
  using assms
proof (cases rule: sm_rep_cases)
  case 2
  then show ?thesis using map_index_at_full [OF 2(2,4,3), of dflt k] unfolding sm_index_def by simp
next
  case 1
  obtain r where r: "search_back lt k (cells_of n xs) (length xs) = Inr r"
    "flat_lookup lt fst xs k = map_option ((!) xs) r" "\<forall>i. r = Some i \<longrightarrow> i < length xs"
    using search_lookup(2) [OF 1(3,2)] by blast
  consider i where "r = Some i" | "r = None" "length xs = n" | "r = None" "length xs < n" using 1(2) by fastforce
  then show ?thesis
  proof cases
    case (1 i)
    then have "equivalent lt (fst (xs ! i)) k" using one_per_key_lookup [OF \<open>one_per_key lt xs\<close>, of k "xs ! i"] r(2) by simp
    moreover have "sm_index lt dflt k m = Inr (ArrayIter i, m)" "sm_deref (ArrayIter i) m = Inr (xs ! i)"
      "mset xs = inserted_one lt (k, dflt) xs"
      using 1 r \<open>m = arr n xs\<close> \<open>length xs \<le> n\<close> \<open>n < kUsingFullMapSentinel\<close>
      by (auto simp: sm_index_def inserted_one_def cell_read_cells)
    ultimately show ?thesis using assms by blast
  next
    case 2
    then obtain body where b: "ConvertToRealMap lt (arr n xs) = Inr (full body)" "flat_ok lt fst body"
      "inserted_one lt (k, dflt) body = inserted_one lt (k, dflt) xs"
      using convert_same 1(3) by metis
    then have "sm_index lt dflt k m = map_index_at lt dflt k (full body)" using 1 2 r by (simp add: sm_index_def)
    then show ?thesis using map_index_at_full [OF b(2) 1(5,4), of dflt k] b(3) by simp
  next
    case 3
    have none: "flat_lookup lt fst xs (fst (k, dflt)) = None" using 3 r(2) by simp
    note a = sm_append_rep [OF 3(2) 1(4,3) none]
    have "sm_index lt dflt k m = Inr (ArrayIter (length xs), arr n (xs @ [(k, dflt)]))"
      using 1 3 r a(3) by (simp add: sm_index_def arr_def [of n "xs @ _"])
    moreover have "equivalent lt (fst (k, dflt)) k" by simp
    ultimately show ?thesis using a(1,2,4) by blast
  qed
qed

subsection \<open>Removal\<close>

lemma one_per_key_subset: "one_per_key lt xs \<Longrightarrow> mset ys \<subseteq># mset xs \<Longrightarrow> one_per_key lt ys"
  unfolding one_per_key_count by (meson multiset_filter_mono order_trans size_mset_mono)

lemma cell_read_Inr: "cell_read (cells_of n xs) i = Inr e \<Longrightarrow> length xs \<le> n \<Longrightarrow> i < length xs \<and> xs ! i = e"
  by (auto simp: cell_read_def cells_of_def nth_append split: if_splits)

lemma cells_drop_last:
  assumes "length (ys @ [y]) \<le> n"
  shows "(cells_of n (ys @ [y]))[length ys := None] = cells_of n ys"
proof -
  have "n - length ys = Suc (n - Suc (length ys))" using assms by simp
  then show ?thesis by (simp add: cells_of_def list_update_append)
qed

lemma size_dec_pos: "0 < k \<Longrightarrow> k < kUsingFullMapSentinel \<Longrightarrow> size_dec k = k - 1"
  unfolding size_dec_def kUsingFullMapSentinel_def by (cases k) (auto simp: mod_if)

text \<open>The array moves its last entry to the place of the removed one.\<close>

lemma array_erase_cells:
  assumes "xs = ys @ [y]" "i < length xs" "length xs \<le> n" "n < kUsingFullMapSentinel"
  shows "\<exists>it. array_erase i (arr n xs) = Inr (it, arr n (if i = length ys then ys else ys[i := y]))"
proof -
  have i: "i \<le> length ys" using assms(1,2) by simp
  have d: "cell_destroy i (cells_of n xs) = Inr ((cells_of n xs)[i := None])"
    using assms by (simp add: cell_destroy_def cell_read_cells)
  have s: "size_dec (length xs) = length ys" using size_dec_pos [of "length xs"] assms by simp
  show ?thesis
  proof (cases "i = length ys")
    case True
    have "(cells_of n xs)[i := None] = cells_of n ys" using cells_drop_last [of ys y n] assms True by simp
    then show ?thesis
      using True assms d s by (auto simp: array_erase_def Let_def sm_end_def arr_def [of n ys] UsingFullMap_def)
  next
    case False
    let ?c = "(cells_of n xs)[i := None]"
    have "cell_read ?c (length ys) = Inr y"
      using False assms cell_read_cells [of "length ys" xs n] by (simp add: cell_read_def)
    moreover have "cell_construct i y ?c = Inr (cells_of n (xs[i := y]))"
      using assms cells_update [of i xs n y] by (simp add: cell_construct_def)
    moreover have "xs[i := y] = ys[i := y] @ [y]" using assms(1) i False by (simp add: list_update_append)
    moreover from this have "cell_destroy (length ys) (cells_of n (xs[i := y])) = Inr (cells_of n (ys[i := y]))"
      using assms(1,3) cell_read_cells [of "length ys" "ys[i := y] @ [y]" n] cells_drop_last [of "ys[i := y]" y n]
      by (simp add: cell_destroy_def)
    ultimately show ?thesis
      using False assms d s by (auto simp: array_erase_def Let_def arr_def [of n "ys[i := y]"])
  qed
qed

lemma sm_erase_rep:
  assumes "sm_rep n lt m xs" "sm_deref it m = Inr e"
  shows "\<exists>it' m' xs'. sm_erase it m = Inr (it', m') \<and> sm_rep n lt m' xs' \<and> add_mset e (mset xs') = mset xs"
  using assms(1)
proof (cases rule: sm_rep_cases)
  case 1
  then obtain i where it: "it = ArrayIter i" "i < length xs" "xs ! i = e"
    using assms(2) by (cases it) (auto simp: sm_map_def dest: cell_read_Inr)
  then obtain ys y where ys: "xs = ys @ [y]" by (cases xs rule: rev_cases) auto
  let ?xs = "if i = length ys then ys else ys[i := y]"
  obtain it' where e: "array_erase i (arr n xs) = Inr (it', arr n ?xs)"
    using array_erase_cells [OF ys it(2) 1(2,4)] by blast
  have m: "add_mset e (mset ?xs) = mset xs"
    using it ys by (auto simp: nth_append mset_update add_mset_commute insert_DiffM)
  then have "one_per_key lt ?xs" using one_per_key_subset [OF 1(3), of ?xs] by (metis mset_subset_eq_add_left add_mset_add_single)
  then have "sm_rep n lt (arr n ?xs) ?xs" using 1 ys by (simp add: sm_rep_def)
  then show ?thesis using e m 1 it(1) by (auto simp: sm_erase_def)
next
  case 2
  then obtain i where it: "it = MapIter i" "i < length xs" "xs ! i = e"
    using assms(2) by (cases it) auto
  have "mset xs = mset (take i xs @ xs ! i # drop (Suc i) xs)" using id_take_nth_drop [OF it(2)] by (rule arg_cong)
  then have "add_mset e (mset (take i xs @ drop (Suc i) xs)) = mset xs" using it(3) by simp
  moreover have "flat_ok lt fst (take i xs @ drop (Suc i) xs)" using flat_ok_drop_middle [OF 2(2), of i "Suc i"] by simp
  ultimately show ?thesis using 2 it by (auto simp: sm_erase_def sm_rep_def)
qed

lemma sm_erase_key_rep:
  assumes "sm_rep n lt m xs"
  shows "\<exists>m' xs'. sm_erase_key lt k m = Inr (if flat_lookup lt fst xs k = None then 0 else 1, m') \<and> sm_rep n lt m' xs' \<and>
    mset xs' = filter_mset (\<lambda>e. \<not> equivalent lt (fst e) k) (mset xs)"
proof -
  have one: "one_per_key lt xs" using assms flat_ok_one_per_key unfolding sm_rep_def by blast
  obtain it e where f: "sm_find lt k m = Inr it" "sm_end m = Inr e"
    "case flat_lookup lt fst xs k of None \<Rightarrow> it = e | Some x \<Rightarrow> \<not> sm_iter_eq it e \<and> sm_deref it m = Inr x"
    using sm_find_rep [OF assms] by blast
  show ?thesis
  proof (cases "flat_lookup lt fst xs k")
    case None
    then have "filter_mset (\<lambda>e. \<not> equivalent lt (fst e) k) (mset xs) = mset xs"
      by (auto simp: flat_lookup_None filter_mset_eq_conv)
    then show ?thesis using None f assms by (auto simp: sm_erase_key_def)
  next
    case (Some x)
    then have "sm_deref it m = Inr x" "\<not> sm_iter_eq it e" using f(3) by auto
    then obtain it' m' xs' where r: "sm_erase it m = Inr (it', m')" "sm_rep n lt m' xs'" "add_mset x (mset xs') = mset xs"
      using sm_erase_rep [OF assms] by blast
    have x: "equivalent lt (fst x) k" using Some one_per_key_lookup [OF one] by blast
    have "one_per_key lt (x # xs')" using one_per_key_mset_cong [OF one, of "x # xs'"] r(3) by simp
    then have "\<not> equivalent lt (fst d) k" if "d \<in> set xs'" for d
      using that x equivalent_trans equivalent_sym unfolding one_per_key_def by (metis sorted_wrt.simps(2))
    then have "filter_mset (\<lambda>e. \<not> equivalent lt (fst e) k) (mset xs') = mset xs'" by (simp add: filter_mset_eq_conv)
    then have "filter_mset (\<lambda>e. \<not> equivalent lt (fst e) k) (mset xs) = mset xs'"
      using x r(3) [symmetric] by simp
    then show ?thesis using Some f r \<open>\<not> sm_iter_eq it e\<close> by (auto simp: sm_erase_key_def)
  qed
qed

lemma sm_size_rep: "sm_rep n lt m xs \<Longrightarrow> sm_size_of m = Inr (length xs)" "sm_rep n lt m xs \<Longrightarrow> sm_empty m = Inr (xs = [])"
  by (auto simp: sm_rep_def sm_size_of_def sm_empty_def)

subsection \<open>Lifetimes\<close>

lemma destroy_loop_cells:
  "destroy_loop i (length ys) (replicate i None @ map Some ys @ rest) = Inr (replicate (i + length ys) None @ rest)"
proof (induction ys arbitrary: i)
  case (Cons y ys)
  have "(replicate i None @ Some y # map Some ys @ rest)[i := None] = replicate (Suc i) None @ map Some ys @ rest"
    by (simp add: list_update_append replicate_append_same [symmetric])
  then show ?case using Cons.IH [of "Suc i"] by (simp add: cell_destroy_def cell_read_def nth_append)
qed simp

lemma sm_Destroy_rep: "sm_rep n lt m xs \<Longrightarrow> sm_Destroy n m = Inr (ArrayStore (replicate n None))"
  using destroy_loop_cells [of 0 xs "replicate (n - length xs) None"]
  by (auto simp: sm_rep_def sm_Destroy_def cells_of_def replicate_add [symmetric])

lemma sm_clear_rep: "sm_rep n lt m xs \<Longrightarrow> sm_clear n m = Inr (small_map_new n)"
  by (simp add: sm_clear_def sm_Destroy_rep small_map_new_def)

lemma small_map_new_rep: "0 < n \<Longrightarrow> n < kUsingFullMapSentinel \<Longrightarrow> sm_rep n lt (small_map_new n) []"
  by (simp add: sm_rep_def small_map_new_def arr_def cells_of_def one_per_key_def)

lemma copy_loop_cells:
  assumes "length xs \<le> n"
  shows "i + k = length xs \<Longrightarrow> copy_loop (cells_of n xs) i k (cells_of n (take i xs)) = Inr (cells_of n xs)"
proof (induction k arbitrary: i)
  case (Suc k)
  have "cell_construct i (xs ! i) (cells_of n (take i xs)) = Inr (cells_of n (take (Suc i) xs))"
    using Suc.prems assms cells_update_last [of "take i xs" n "xs ! i"]
    by (simp add: cell_construct_def take_Suc_conv_app_nth)
  then show ?case using Suc assms by (simp add: cell_read_cells)
qed simp

lemma sm_copy_rep:
  assumes "sm_rep n lt src xs"
  shows "sm_InitFrom n src = Inr src"
  using assms
proof (cases rule: sm_rep_cases)
  case 1
  then show ?thesis using copy_loop_cells [OF 1(2), of 0 "length xs"]
    by (simp add: sm_InitFrom_def cells_of_def [of n "[]"]) (simp add: arr_def)
next
  case 2
  then show ?thesis by (simp add: sm_InitFrom_def) (simp add: full_def)
qed

end

section \<open>Programs\<close>

text \<open>Assignment to the mapped value that a reference refers to.\<close>

fun sm_write :: "small_iterator \<Rightarrow> 'm \<Rightarrow> ('k, 'm) small_map \<Rightarrow> ('k, 'm) small_map res" where
  "sm_write (ArrayIter i) v m =
     rbind (sm_array m) (\<lambda>cells. rbind (cell_read cells i) (\<lambda>e.
     Inr (m\<lparr>sm_storage := ArrayStore (cells[i := Some (fst e, v)])\<rparr>)))"
| "sm_write (MapIter i) v m =
     rbind (sm_map m) (\<lambda>body. guardr OutOfRange (i < length body) (Inr (m\<lparr>sm_storage := MapStore (set_second i v body)\<rparr>)))"

datatype ('k, 'm) small_op = SmInsert 'k 'm | SmSet 'k 'm | SmErase 'k | SmFind 'k | SmSize | SmClear

datatype ('k, 'm) small_obs = ObsDone | ObsFlag bool | ObsNumber nat | ObsEntry "('k \<times> 'm) option"

fun small_step :: "nat \<Rightarrow> ('k \<Rightarrow> 'k \<Rightarrow> bool) \<Rightarrow> 'm \<Rightarrow> ('k, 'm) small_map \<Rightarrow> ('k, 'm) small_op \<Rightarrow>
    (('k, 'm) small_obs \<times> ('k, 'm) small_map) res" where
  "small_step n lt dflt m (SmInsert k v) = rbind (sm_insert lt (k, v) m) (\<lambda>((_, inserted), m). Inr (ObsFlag inserted, m))"
| "small_step n lt dflt m (SmSet k v) =
     rbind (sm_index lt dflt k m) (\<lambda>(it, m). rbind (sm_write it v m) (\<lambda>m. Inr (ObsDone, m)))"
| "small_step n lt dflt m (SmErase k) = rbind (sm_erase_key lt k m) (\<lambda>(c, m). Inr (ObsNumber c, m))"
| "small_step n lt dflt m (SmFind k) =
     rbind (sm_find lt k m) (\<lambda>it. rbind (sm_end m) (\<lambda>e.
     if sm_iter_eq it e then Inr (ObsEntry None, m) else rbind (sm_deref it m) (\<lambda>x. Inr (ObsEntry (Some x), m))))"
| "small_step n lt dflt m SmSize = rbind (sm_size_of m) (\<lambda>c. Inr (ObsNumber c, m))"
| "small_step n lt dflt m SmClear = rbind (sm_clear n m) (\<lambda>m. Inr (ObsDone, m))"

text \<open>The same operations on a list of entries with one entry per key.\<close>

definition list_insert :: "('k \<Rightarrow> 'k \<Rightarrow> bool) \<Rightarrow> 'k \<times> 'm \<Rightarrow> ('k \<times> 'm) list \<Rightarrow> ('k \<times> 'm) list" where
  "list_insert lt x xs = (if flat_lookup lt fst xs (fst x) = None then x # xs else xs)"

definition list_set :: "('k \<Rightarrow> 'k \<Rightarrow> bool) \<Rightarrow> 'k \<Rightarrow> 'm \<Rightarrow> ('k \<times> 'm) list \<Rightarrow> ('k \<times> 'm) list" where
  "list_set lt k v xs = map (\<lambda>e. if equivalent lt (fst e) k then (fst e, v) else e) xs"

fun list_step :: "('k \<Rightarrow> 'k \<Rightarrow> bool) \<Rightarrow> 'm \<Rightarrow> ('k \<times> 'm) list \<Rightarrow> ('k, 'm) small_op \<Rightarrow> ('k, 'm) small_obs \<times> ('k \<times> 'm) list" where
  "list_step lt dflt xs (SmInsert k v) = (ObsFlag (flat_lookup lt fst xs k = None), list_insert lt (k, v) xs)"
| "list_step lt dflt xs (SmSet k v) = (ObsDone, list_set lt k v (list_insert lt (k, dflt) xs))"
| "list_step lt dflt xs (SmErase k) =
     (ObsNumber (if flat_lookup lt fst xs k = None then 0 else 1), filter (\<lambda>e. \<not> equivalent lt (fst e) k) xs)"
| "list_step lt dflt xs (SmFind k) = (ObsEntry (flat_lookup lt fst xs k), xs)"
| "list_step lt dflt xs SmSize = (ObsNumber (length xs), xs)"
| "list_step lt dflt xs SmClear = (ObsDone, [])"

fun list_run :: "('k \<Rightarrow> 'k \<Rightarrow> bool) \<Rightarrow> 'm \<Rightarrow> ('k \<times> 'm) list \<Rightarrow> ('k, 'm) small_op list \<Rightarrow> ('k, 'm) small_obs list \<times> ('k \<times> 'm) list" where
  "list_run lt dflt xs [] = ([], xs)"
| "list_run lt dflt xs (p # ps) =
     (let (y, xs) = list_step lt dflt xs p; (ys, xs) = list_run lt dflt xs ps in (y # ys, xs))"

context strict_weak
begin

lemma one_per_key_keys: "map fst xs = map fst ys \<Longrightarrow> one_per_key lt xs \<longleftrightarrow> one_per_key lt ys"
  using sorted_wrt_map [of "\<lambda>a b. \<not> equivalent lt a b" fst xs] sorted_wrt_map [of "\<lambda>a b. \<not> equivalent lt a b" fst ys]
  by (simp add: one_per_key_def)

lemma flat_ok_keys: "map fst xs = map fst ys \<Longrightarrow> flat_ok lt fst xs \<longleftrightarrow> flat_ok lt fst ys"
  using sorted_wrt_map [of lt fst xs] sorted_wrt_map [of lt fst ys] by (simp add: flat_ok_def value_comp_def [abs_def])

lemma mset_set_value:
  assumes "one_per_key lt xs" "i < length xs" "equivalent lt (fst (xs ! i)) k"
  shows "xs[i := (fst (xs ! i), v)] = list_set lt k v xs"
proof (rule nth_equalityI)
  fix j
  assume j: "j < length (xs[i := (fst (xs ! i), v)])"
  have "\<not> equivalent lt (fst (xs ! j)) k" if "j \<noteq> i"
  proof -
    have "\<not> equivalent lt (fst (xs ! i)) (fst (xs ! j))"
      using assms(1,2) j that equivalent_sym unfolding one_per_key_def sorted_wrt_iff_nth_less
      by (metis length_list_update linorder_neqE_nat)
    then show ?thesis using assms(3) equivalent_trans equivalent_sym by metis
  qed
  then show "xs[i := (fst (xs ! i), v)] ! j = list_set lt k v xs ! j"
    using assms(2,3) j by (cases "j = i") (auto simp: list_set_def)
qed (simp add: list_set_def)

lemma sm_write_rep:
  assumes "sm_rep n lt m xs" "sm_deref it m = Inr e" "equivalent lt (fst e) k"
  shows "\<exists>m'. sm_write it v m = Inr m' \<and> sm_rep n lt m' (list_set lt k v xs)"
  using assms(1)
proof (cases rule: sm_rep_cases)
  case 1
  then obtain i where it: "it = ArrayIter i" "i < length xs" "xs ! i = e"
    using assms(2) by (cases it) (auto simp: sm_map_def dest: cell_read_Inr)
  note set = mset_set_value [OF 1(3) it(2), of k v, unfolded it(3), OF assms(3)]
  have "map fst (list_set lt k v xs) = map fst xs" by (auto simp: list_set_def)
  then have "one_per_key lt (list_set lt k v xs)" using one_per_key_keys 1(3) by blast
  moreover have "length (list_set lt k v xs) = length xs" by (simp add: list_set_def)
  ultimately have "sm_rep n lt (arr n (list_set lt k v xs)) (list_set lt k v xs)" using 1 by (simp add: sm_rep_def)
  moreover have "sm_write it v m = Inr (arr n (list_set lt k v xs))"
    using 1 it cells_update [OF it(2), of n "(fst e, v)"] set
    by (simp add: cell_read_cells) (simp add: arr_def list_set_def)
  ultimately show ?thesis by blast
next
  case 2
  then obtain i where it: "it = MapIter i" "i < length xs" "xs ! i = e"
    using assms(2) by (cases it) auto
  note set = mset_set_value [OF flat_ok_one_per_key [OF 2(2)] it(2), of k v, unfolded it(3), OF assms(3)]
  have "map fst (list_set lt k v xs) = map fst xs" by (auto simp: list_set_def)
  then have "flat_ok lt fst (list_set lt k v xs)" using flat_ok_keys 2(2) by blast
  then show ?thesis using 2 it set by (simp add: sm_rep_def set_second_def)
qed

lemma sm_rep_one: "sm_rep n lt m xs \<Longrightarrow> one_per_key lt xs"
  using flat_ok_one_per_key unfolding sm_rep_def by blast

lemma list_set_cong: "mset xs = mset ys \<Longrightarrow> mset (list_set lt k v xs) = mset (list_set lt k v ys)"
  by (simp add: list_set_def)

text \<open>One operation on the small map and on a list that holds the same entries in any order.\<close>

lemma small_step_refines:
  assumes "sm_rep n lt m xs" "mset xs = mset ys"
  shows "\<exists>m' xs'. small_step n lt dflt m p = Inr (fst (list_step lt dflt ys p), m') \<and> sm_rep n lt m' xs' \<and>
    mset xs' = mset (snd (list_step lt dflt ys p))"
proof -
  have one: "one_per_key lt xs" "one_per_key lt ys"
    using sm_rep_one [OF assms(1)] one_per_key_mset_cong assms(2) by auto
  have look: "flat_lookup lt fst ys = flat_lookup lt fst xs" using one_per_key_mset one assms(2) by metis
  have ins: "mset (list_insert lt x ys) = inserted_one lt x xs" for x
    using assms(2) by (simp add: list_insert_def inserted_one_def look)
  show ?thesis
  proof (cases p)
    case (SmInsert k v)
    then show ?thesis using sm_insert_rep [OF assms(1), of "(k, v)"] by (auto simp: ins look)
  next
    case (SmSet k v)
    obtain it m' xs' e where i: "sm_index lt dflt k m = Inr (it, m')" "sm_rep n lt m' xs'"
      "mset xs' = inserted_one lt (k, dflt) xs" "sm_deref it m' = Inr e" "equivalent lt (fst e) k"
      using sm_index_rep [OF assms(1)] by blast
    obtain m'' where "sm_write it v m' = Inr m''" "sm_rep n lt m'' (list_set lt k v xs')"
      using sm_write_rep [OF i(2,4,5)] by blast
    moreover have "mset (list_set lt k v xs') = mset (list_set lt k v (list_insert lt (k, dflt) ys))"
      using i(3) ins by (intro list_set_cong) simp
    ultimately show ?thesis using SmSet i(1) by auto
  next
    case (SmErase k)
    then show ?thesis using sm_erase_key_rep [OF assms(1), of k] assms(2) by (auto simp: look)
  next
    case (SmFind k)
    obtain it e where f: "sm_find lt k m = Inr it" "sm_end m = Inr e"
      "case flat_lookup lt fst xs k of None \<Rightarrow> it = e | Some x \<Rightarrow> \<not> sm_iter_eq it e \<and> sm_deref it m = Inr x"
      using sm_find_rep [OF assms(1)] by blast
    then have "small_step n lt dflt m p = Inr (fst (list_step lt dflt ys p), m)"
      using SmFind by (cases "flat_lookup lt fst xs k") (simp_all add: look)
    then show ?thesis using assms SmFind by auto
  next
    case SmSize
    then show ?thesis using sm_size_rep(1) [OF assms(1)] mset_eq_length [OF assms(2)] assms by auto
  next
    case SmClear
    have "0 < n" "n < kUsingFullMapSentinel" using assms(1) by (auto simp: sm_rep_def)
    then show ?thesis using SmClear sm_clear_rep [OF assms(1)] small_map_new_rep [of n] by auto
  qed
qed

lemma small_run_refines:
  assumes "sm_rep n lt m xs" "mset xs = mset ys"
  shows "\<exists>m' xs'. run_list (small_step n lt dflt) m ps = Inr (fst (list_run lt dflt ys ps), m') \<and> sm_rep n lt m' xs' \<and>
    mset xs' = mset (snd (list_run lt dflt ys ps))"
  using assms
proof (induction ps arbitrary: m xs ys)
  case (Cons p ps)
  obtain m' xs' where s: "small_step n lt dflt m p = Inr (fst (list_step lt dflt ys p), m')" "sm_rep n lt m' xs'"
    "mset xs' = mset (snd (list_step lt dflt ys p))"
    using small_step_refines [OF Cons.prems] by blast
  obtain m'' xs'' where "run_list (small_step n lt dflt) m' ps = Inr (fst (list_run lt dflt (snd (list_step lt dflt ys p)) ps), m'')"
    "sm_rep n lt m'' xs''" "mset xs'' = mset (snd (list_run lt dflt (snd (list_step lt dflt ys p)) ps))"
    using Cons.IH [OF s(2,3)] by blast
  then show ?case using s(1) by (auto simp: Let_def split_beta)
qed auto

end

section \<open>Properties\<close>

text \<open>
  A program over a small map observes what it observes on a plain list of entries with one entry per key, whatever the
  size of the array: the switch from the array to the full map is invisible, no check fails and no dead object is used.
  At the end the live objects are the entries, so destruction and \<open>clear\<close> leave none alive, and a copy is the map itself.
\<close>

theorem small_map_program_refines:
  assumes "strict_weak lt" "0 < n" "n < kUsingFullMapSentinel"
  shows "\<exists>m xs. run_list (small_step n lt dflt) (small_map_new n) ps = Inr (fst (list_run lt dflt [] ps), m) \<and>
    sm_rep n lt m xs \<and> mset xs = mset (snd (list_run lt dflt [] ps)) \<and>
    sm_Destroy n m = Inr (ArrayStore (replicate n None)) \<and> sm_InitFrom n m = Inr m"
  using strict_weak.small_run_refines [OF assms(1) strict_weak.small_map_new_rep [OF assms] refl, of dflt ps]
    strict_weak.sm_Destroy_rep [OF assms(1)] strict_weak.sm_copy_rep [OF assms(1)] by blast

theorem small_map_program_refines_witness:
  "\<exists>m. run_list (small_step 2 (<) 0) (small_map_new 2)
      [SmInsert 5 1, SmSet 3 7, SmInsert 4 2, SmErase 5, SmFind 3, SmSize] =
    Inr ([ObsFlag True, ObsDone, ObsFlag True, ObsNumber 1, ObsEntry (Some (3, 7)), ObsNumber 2],
      m :: (nat, nat) small_map)"
proof -
  have "fst (list_run (<) (0::nat) [] [SmInsert (5::nat) 1, SmSet 3 7, SmInsert 4 2, SmErase 5, SmFind 3, SmSize]) =
      [ObsFlag True, ObsDone, ObsFlag True, ObsNumber 1, ObsEntry (Some (3, 7)), ObsNumber 2]"
    by code_simp
  moreover have "(2::nat) < kUsingFullMapSentinel" by (simp add: kUsingFullMapSentinel_def)
  ultimately show ?thesis
    using small_map_program_refines [OF less_weak, of 2 "0::nat"
      "[SmInsert (5::nat) 1, SmSet 3 7, SmInsert 4 2, SmErase 5, SmFind 3, SmSize]"] by auto
qed

text \<open>
  \<open>erase\<close> of the end iterator, while the entries are in the array, is not stopped by the \<open>CHECK_LE\<close> that guards the
  position: it destroys an object that does not exist, in a free cell or behind the array.
\<close>

theorem small_map_erase_end:
  assumes "sm_rep n lt m xs" "\<not> UsingFullMap m"
  shows "\<exists>e. sm_end m = Inr e \<and> sm_erase e m = Inl (if length xs < n then DeadObject else OutOfRange)"
proof -
  have m: "m = arr n xs" "length xs \<le> n" "n < kUsingFullMapSentinel" using assms by (auto simp: sm_rep_def)
  then show ?thesis
    by (auto simp: sm_end_def sm_erase_def array_erase_def cell_destroy_def cell_read_dead)
qed

theorem small_map_erase_end_witness:
  "\<exists>e. sm_end (small_map_new 2 :: (nat, nat) small_map) = Inr e \<and>
    sm_erase e (small_map_new 2 :: (nat, nat) small_map) = Inl DeadObject"
proof -
  have "sm_rep 2 (<) (small_map_new 2 :: (nat, nat) small_map) []"
    by (rule strict_weak.small_map_new_rep [OF less_weak]) (simp_all add: kUsingFullMapSentinel_def)
  moreover have "\<not> UsingFullMap (small_map_new 2 :: (nat, nat) small_map)"
    by (simp add: UsingFullMap_def small_map_new_def kUsingFullMapSentinel_def)
  ultimately show ?thesis using small_map_erase_end [of 2 "(<)" "small_map_new 2 :: (nat, nat) small_map" "[]"] by simp
qed

end
