(* ===== verification/BaseNumerics.thy ===== *)
theory BaseNumerics
  imports IntTypes
begin

text \<open>
  base/numerics/safe_conversions_impl.h and safe_conversions.h for the integer types: the type
  computations, the range checks, the comparisons of mixed types and the conversions behind checked
  and clamped arithmetic. A template parameter is a value of \<open>int_type\<close>; a value is an integer in
  the range of its type. The lemmas show that the range checks, through masks, wrapped conversions
  and sign tricks, say exactly whether the integer fits.
\<close>

unbundle bit_operations_syntax

section \<open>Limits\<close>

definition bits :: "int_type \<Rightarrow> nat" where
  "bits t = 8 * sizeof t"

text \<open>\<open>std::numeric_limits::digits\<close>\<close>

definition digits :: "int_type \<Rightarrow> nat" where
  "digits t = (if is_signed t then bits t - 1 else bits t)"

definition MaxExponent :: "int_type \<Rightarrow> nat" where
  "MaxExponent t = digits t + 1"

definition IntegerBitsPlusSign :: "int_type \<Rightarrow> nat" where
  "IntegerBitsPlusSign t = digits t + of_bool (is_signed t)"

fun make_signed :: "int_type \<Rightarrow> int_type" where
  "make_signed UInt8 = Int8" | "make_signed UInt16 = Int16"
| "make_signed UInt32 = Int32" | "make_signed UInt64 = Int64"
| "make_signed t = t"

definition IsValueNegative :: "int_type \<Rightarrow> int \<Rightarrow> bool" where
  "IsValueNegative t v \<longleftrightarrow> is_signed t \<and> v < 0"

definition ConditionalNegate :: "int_type \<Rightarrow> int \<Rightarrow> bool \<Rightarrow> int" where
  "ConditionalNegate t x is_negative =
     (let p = common_type (make_unsigned t) (make_signed t) in
      cast (make_signed t)
       (cast p (cast p (cast (make_unsigned t) x) XOR cast p (- of_bool is_negative)) + of_bool is_negative))"

definition SafeUnsignedAbs :: "int_type \<Rightarrow> int \<Rightarrow> int" where
  "SafeUnsignedAbs t v =
     (if IsValueNegative t v then cast (make_unsigned t) (0 - cast (make_unsigned t) v) else cast (make_unsigned t) v)"

section \<open>Ranges\<close>

text \<open>
  \<open>StaticDstRangeRelationToSrcRange\<close> is \<open>NUMERIC_RANGE_CONTAINED\<close>, the value of
  \<open>IsTypeInRangeForNumericType\<close>.
\<close>

definition contained :: "int_type \<Rightarrow> int_type \<Rightarrow> bool" where
  "contained dst src \<longleftrightarrow>
     (if is_signed dst = is_signed src then MaxExponent dst \<ge> MaxExponent src
      else is_signed dst \<and> MaxExponent dst > MaxExponent src)"

record range_check =
  is_underflow :: bool
  is_overflow :: bool

definition RangeCheck_of :: "bool \<Rightarrow> bool \<Rightarrow> range_check" where
  "RangeCheck_of is_in_lower_bound is_in_upper_bound =
     \<lparr>is_underflow = \<not> is_in_lower_bound, is_overflow = \<not> is_in_upper_bound\<rparr>"

definition rc_IsValid :: "range_check \<Rightarrow> bool" where
  "rc_IsValid r \<longleftrightarrow> \<not> is_overflow r \<and> \<not> is_underflow r"

definition rc_IsOverflow :: "range_check \<Rightarrow> bool" where
  "rc_IsOverflow r \<longleftrightarrow> is_overflow r \<and> \<not> is_underflow r"

definition rc_IsUnderflow :: "range_check \<Rightarrow> bool" where
  "rc_IsUnderflow r \<longleftrightarrow> \<not> is_overflow r \<and> is_underflow r"

definition kShift :: "int_type \<Rightarrow> int_type \<Rightarrow> nat" where
  "kShift dst src =
     (if MaxExponent src > MaxExponent dst \<and> digits src < digits dst then digits dst - digits src else 0)"

text \<open>\<open>NarrowingRange::Adjust\<close>; the operand of \<open>ConditionalNegate\<close> has the type of the masked value.\<close>

definition Adjust :: "int_type \<Rightarrow> int_type \<Rightarrow> int \<Rightarrow> int" where
  "Adjust dst src v =
     (let t = common_type (make_unsigned dst) dst;
          masked = cast t (SafeUnsignedAbs dst v) AND cast t (NOT (push_bit (kShift dst src) 1 - 1)) in
      cast dst (ConditionalNegate t masked (IsValueNegative dst v)))"

definition dst_max :: "int_type \<Rightarrow> int_type \<Rightarrow> int" where
  "dst_max dst src = Adjust dst src (highest dst)"

definition dst_lowest :: "int_type \<Rightarrow> int_type \<Rightarrow> int" where
  "dst_lowest dst src = Adjust dst src (lowest dst)"

definition DstRangeRelationToSrcRange :: "int_type \<Rightarrow> int_type \<Rightarrow> int \<Rightarrow> range_check" where
  "DstRangeRelationToSrcRange dst src v =
     (let lo = dst_lowest dst src; hi = dst_max dst src; p = common_type src dst in
      if contained dst src then
        RangeCheck_of (cast dst (lowest src) \<ge> lo \<or> cast dst v \<ge> lo) (cast dst (highest src) \<le> hi \<or> cast dst v \<le> hi)
      else if is_signed dst \<and> is_signed src then RangeCheck_of (v \<ge> lo) (v \<le> hi)
      else if \<not> is_signed dst \<and> \<not> is_signed src then RangeCheck_of (lo = 0 \<or> v \<ge> lo) (v \<le> hi)
      else if is_signed dst then RangeCheck_of (lo \<le> 0 \<or> cast p v \<ge> cast p lo) (cast p v \<le> cast p hi)
      else RangeCheck_of (v \<ge> 0 \<and> (lo = 0 \<or> cast dst v \<ge> lo)) (cast p (highest src) \<le> cast p hi \<or> cast p v \<le> cast p hi))"

section \<open>Promotions\<close>

fun IntegerForDigitsAndSign :: "nat \<Rightarrow> bool \<Rightarrow> int_type option" where
  "IntegerForDigitsAndSign n s =
     (if n = 8 then Some (if s then Int8 else UInt8)
      else if n = 16 then Some (if s then Int16 else UInt16)
      else if n = 32 then Some (if s then Int32 else UInt32)
      else if n = 64 then Some (if s then Int64 else UInt64) else None)"

text \<open>
  A width without an integer type does not compile. The promotions below never ask for one
  (\<open>promotions_compile\<close>), so the operand's own type stands in for the error.
\<close>

definition TwiceWiderInteger :: "int_type \<Rightarrow> bool \<Rightarrow> int_type" where
  "TwiceWiderInteger t s =
     (case IntegerForDigitsAndSign (IntegerBitsPlusSign t * 2) s of Some u \<Rightarrow> u | None \<Rightarrow> t)"

definition MaxExponentPromotion :: "int_type \<Rightarrow> int_type \<Rightarrow> int_type" where
  "MaxExponentPromotion l r = (if MaxExponent l > MaxExponent r then l else r)"

definition LowestValuePromotion :: "int_type \<Rightarrow> int_type \<Rightarrow> int_type" where
  "LowestValuePromotion l r =
     (if is_signed l then if is_signed r then if MaxExponent l > MaxExponent r then l else r else l
      else if is_signed r then r else if MaxExponent l < MaxExponent r then l else r)"

text \<open>The type, and \<open>is_contained\<close>: whether it holds the values of both.\<close>

definition BigEnoughPromotion :: "int_type \<Rightarrow> int_type \<Rightarrow> int_type \<times> bool" where
  "BigEnoughPromotion l r =
     (let m = MaxExponentPromotion l r in
      if contained m l \<and> contained m r then (m, True)
      else if IntegerBitsPlusSign m \<noteq> IntegerBitsPlusSign Int64 then (TwiceWiderInteger m (is_signed l \<or> is_signed r), True)
      else (m, False))"

definition IsIntegerArithmeticSafe :: "int_type \<Rightarrow> int_type \<Rightarrow> int_type \<Rightarrow> bool" where
  "IsIntegerArithmeticSafe t l r \<longleftrightarrow>
     (is_signed l \<longrightarrow> is_signed t) \<and> IntegerBitsPlusSign t \<ge> 2 * IntegerBitsPlusSign l \<and>
     (is_signed r \<longrightarrow> is_signed t) \<and> IntegerBitsPlusSign t \<ge> 2 * IntegerBitsPlusSign r"

definition FastIntegerArithmeticPromotion :: "int_type \<Rightarrow> int_type \<Rightarrow> int_type" where
  "FastIntegerArithmeticPromotion l r =
     (let m = MaxExponentPromotion l r; s = is_signed l \<or> is_signed r in
      if IsIntegerArithmeticSafe (if s then Int64 else UInt64) m m then TwiceWiderInteger m s
      else fst (BigEnoughPromotion l r))"

definition as_signed :: "int_type \<Rightarrow> int \<Rightarrow> int" where
  "as_signed t v = cast (make_signed t) v"

definition as_unsigned :: "int_type \<Rightarrow> int \<Rightarrow> int" where
  "as_unsigned t v = cast (make_unsigned t) v"

section \<open>Comparison of mixed types\<close>

definition IsLessImpl :: "int_type \<Rightarrow> int \<Rightarrow> int_type \<Rightarrow> int \<Rightarrow> range_check \<Rightarrow> range_check \<Rightarrow> bool" where
  "IsLessImpl l lhs r rhs l_range r_range \<longleftrightarrow>
     rc_IsUnderflow l_range \<or> rc_IsOverflow r_range \<or>
     (l_range = r_range \<and> cast (common_type l r) lhs < cast (common_type l r) rhs)"

definition IsLess :: "int_type \<Rightarrow> int \<Rightarrow> int_type \<Rightarrow> int \<Rightarrow> bool" where
  "IsLess l lhs r rhs =
     IsLessImpl l lhs r rhs (DstRangeRelationToSrcRange r l lhs) (DstRangeRelationToSrcRange l r rhs)"

definition IsLessOrEqualImpl :: "int_type \<Rightarrow> int \<Rightarrow> int_type \<Rightarrow> int \<Rightarrow> range_check \<Rightarrow> range_check \<Rightarrow> bool" where
  "IsLessOrEqualImpl l lhs r rhs l_range r_range \<longleftrightarrow>
     rc_IsUnderflow l_range \<or> rc_IsOverflow r_range \<or>
     (l_range = r_range \<and> cast (common_type l r) lhs \<le> cast (common_type l r) rhs)"

definition IsLessOrEqual :: "int_type \<Rightarrow> int \<Rightarrow> int_type \<Rightarrow> int \<Rightarrow> bool" where
  "IsLessOrEqual l lhs r rhs =
     IsLessOrEqualImpl l lhs r rhs (DstRangeRelationToSrcRange r l lhs) (DstRangeRelationToSrcRange l r rhs)"

definition IsGreaterImpl :: "int_type \<Rightarrow> int \<Rightarrow> int_type \<Rightarrow> int \<Rightarrow> range_check \<Rightarrow> range_check \<Rightarrow> bool" where
  "IsGreaterImpl l lhs r rhs l_range r_range \<longleftrightarrow>
     rc_IsOverflow l_range \<or> rc_IsUnderflow r_range \<or>
     (l_range = r_range \<and> cast (common_type l r) lhs > cast (common_type l r) rhs)"

definition IsGreater :: "int_type \<Rightarrow> int \<Rightarrow> int_type \<Rightarrow> int \<Rightarrow> bool" where
  "IsGreater l lhs r rhs =
     IsGreaterImpl l lhs r rhs (DstRangeRelationToSrcRange r l lhs) (DstRangeRelationToSrcRange l r rhs)"

definition IsGreaterOrEqualImpl :: "int_type \<Rightarrow> int \<Rightarrow> int_type \<Rightarrow> int \<Rightarrow> range_check \<Rightarrow> range_check \<Rightarrow> bool" where
  "IsGreaterOrEqualImpl l lhs r rhs l_range r_range \<longleftrightarrow>
     rc_IsOverflow l_range \<or> rc_IsUnderflow r_range \<or>
     (l_range = r_range \<and> cast (common_type l r) lhs \<ge> cast (common_type l r) rhs)"

definition IsGreaterOrEqual :: "int_type \<Rightarrow> int \<Rightarrow> int_type \<Rightarrow> int \<Rightarrow> bool" where
  "IsGreaterOrEqual l lhs r rhs =
     IsGreaterOrEqualImpl l lhs r rhs (DstRangeRelationToSrcRange r l lhs) (DstRangeRelationToSrcRange l r rhs)"

definition IsEqual :: "int_type \<Rightarrow> int \<Rightarrow> int_type \<Rightarrow> int \<Rightarrow> bool" where
  "IsEqual l lhs r rhs \<longleftrightarrow>
     DstRangeRelationToSrcRange r l lhs = DstRangeRelationToSrcRange l r rhs \<and>
     cast (common_type l r) lhs = cast (common_type l r) rhs"

definition IsNotEqual :: "int_type \<Rightarrow> int \<Rightarrow> int_type \<Rightarrow> int \<Rightarrow> bool" where
  "IsNotEqual l lhs r rhs \<longleftrightarrow>
     DstRangeRelationToSrcRange r l lhs \<noteq> DstRangeRelationToSrcRange l r rhs \<or>
     cast (common_type l r) lhs \<noteq> cast (common_type l r) rhs"

definition SafeCompare ::
  "(int_type \<Rightarrow> int \<Rightarrow> int_type \<Rightarrow> int \<Rightarrow> bool) \<Rightarrow> int_type \<Rightarrow> int \<Rightarrow> int_type \<Rightarrow> int \<Rightarrow> bool" where
  "SafeCompare c l lhs r rhs =
     (case BigEnoughPromotion l r of (big, is_contained) \<Rightarrow>
        if is_contained then c big (cast big lhs) big (cast big rhs) else c l lhs r rhs)"

definition IsMaxInRange :: "int_type \<Rightarrow> int_type \<Rightarrow> bool" where
  "IsMaxInRange dst src = IsGreaterOrEqual dst (highest dst) src (highest src)"

definition IsMinInRange :: "int_type \<Rightarrow> int_type \<Rightarrow> bool" where
  "IsMinInRange dst src = IsLessOrEqual dst (lowest dst) src (lowest src)"

definition CommonMax :: "int_type \<Rightarrow> int_type \<Rightarrow> int" where
  "CommonMax dst src = (if \<not> IsMaxInRange dst src then cast dst (highest dst) else cast dst (highest src))"

definition CommonMin :: "int_type \<Rightarrow> int_type \<Rightarrow> int" where
  "CommonMin dst src = (if \<not> IsMinInRange dst src then cast dst (lowest dst) else cast dst (lowest src))"

definition CommonMaxOrMin :: "int_type \<Rightarrow> int_type \<Rightarrow> bool \<Rightarrow> int" where
  "CommonMaxOrMin dst src is_min = (if is_min then CommonMin dst src else CommonMax dst src)"

section \<open>Conversions\<close>

text \<open>\<open>IsValueInRangeFastOp\<close>: the specialisations for signed sources; \<open>None\<close> where it is not supported.\<close>

definition IsValueInRangeFastOp :: "int_type \<Rightarrow> int_type \<Rightarrow> int \<Rightarrow> bool option" where
  "IsValueInRangeFastOp dst src v =
     (if is_signed dst \<and> is_signed src \<and> \<not> contained dst src then
        Some (cast (common_type src dst) v = cast (common_type src dst) (cast dst v))
      else if \<not> is_signed dst \<and> is_signed src \<and> \<not> contained dst src then
        Some (as_unsigned src v \<le> as_unsigned src (CommonMax src dst))
      else None)"

definition IsValueInRange :: "int_type \<Rightarrow> int_type \<Rightarrow> int \<Rightarrow> bool" where
  "IsValueInRange dst src v =
     (case IsValueInRangeFastOp dst src v of Some b \<Rightarrow> b
      | None \<Rightarrow> rc_IsValid (DstRangeRelationToSrcRange dst src v))"

text \<open>The trap of \<open>CheckOnFailure::HandleFailure\<close> is the fault \<open>CheckFailed\<close>.\<close>

definition base_checked_cast :: "int_type \<Rightarrow> int_type \<Rightarrow> int \<Rightarrow> int res" where
  "base_checked_cast dst src v = check (IsValueInRange dst src v) (Inr (cast dst v))"

definition saturated_cast_impl :: "int_type \<Rightarrow> int \<Rightarrow> range_check \<Rightarrow> int" where
  "saturated_cast_impl dst v c =
     (if \<not> is_overflow c then (if \<not> is_underflow c then cast dst v else lowest dst) else highest dst)"

definition SaturateFastOp :: "int_type \<Rightarrow> int_type \<Rightarrow> int \<Rightarrow> int" where
  "SaturateFastOp dst src v =
     (let saturated = CommonMaxOrMin dst src (IsMaxInRange dst src \<or> (\<not> IsMinInRange dst src \<and> IsValueNegative src v)) in
      if IsValueInRange dst src v then cast dst v else saturated)"

text \<open>The first argument is \<open>IsCompileTimeConstant(value)\<close>, which the compiler decides.\<close>

definition base_saturated_cast :: "bool \<Rightarrow> int_type \<Rightarrow> int_type \<Rightarrow> int \<Rightarrow> int" where
  "base_saturated_cast is_constant dst src v =
     (if \<not> is_constant then SaturateFastOp dst src v
      else saturated_cast_impl dst v (DstRangeRelationToSrcRange dst src v))"

text \<open>\<open>None\<close> is the failed \<open>static_assert\<close>.\<close>

definition strict_cast :: "int_type \<Rightarrow> int_type \<Rightarrow> int \<Rightarrow> int option" where
  "strict_cast dst src v = (if contained dst src then Some (cast dst v) else None)"

text \<open>The specification of a saturating conversion.\<close>

definition clamp :: "int_type \<Rightarrow> int \<Rightarrow> int" where
  "clamp t v = max (lowest t) (min (highest t) v)"

section \<open>Conversion as truncation\<close>

lemma bits_pos: "0 < bits t" "Suc (bits t - 1) = bits t"
  by (cases t; simp add: bits_def)+

lemma limits_bits:
  "lowest t = (if is_signed t then - (2 ^ (bits t - 1)) else 0)"
  "highest t = (if is_signed t then 2 ^ (bits t - 1) - 1 else 2 ^ bits t - 1)"
  by (cases t; simp add: bits_def)+

lemma bits_make [simp]: "bits (make_unsigned t) = bits t" "bits (make_signed t) = bits t"
  "is_signed (make_signed t)" "\<not> is_signed (make_unsigned t)"
  by (cases t; simp add: bits_def)+

lemma cast_bits: "cast t v = (if is_signed t then signed_take_bit (bits t - 1) v else take_bit (bits t) v)"
proof -
  have s: "(2::int) ^ (bits t - 1) - 1 + 2 ^ (bits t - 1) + 1 = 2 ^ bits t"
    using power_Suc [of "2::int" "bits t - 1"] unfolding bits_pos(2) by simp
  show ?thesis
    unfolding cast_def limits_bits signed_take_bit_eq_take_bit_shift bits_pos(2) take_bit_eq_mod
    using s by (simp add: algebra_simps)
qed

lemma cast_cong: "take_bit (bits t) a = take_bit (bits t) b \<Longrightarrow> cast t a = cast t b"
  unfolding cast_bits using signed_take_bit_eq_iff_take_bit_eq [of "bits t - 1" a b] bits_pos(2) [of t] by auto

lemma take_bit_cast [simp]: "bits t = w \<Longrightarrow> take_bit w (cast t v) = take_bit w v"
  unfolding cast_bits using bits_pos(2) [of t] take_bit_signed_take_bit [of w "bits t - 1" v] by auto

lemma cast_cast [simp]: "bits u = bits t \<Longrightarrow> cast t (cast u v) = cast t v"
  by (rule cast_cong) simp

lemma take_bit_cast_le: "m \<le> bits t \<Longrightarrow> take_bit m (cast t v) = take_bit m v"
proof -
  assume "m \<le> bits t"
  then have "take_bit m (take_bit (bits t) (cast t v)) = take_bit m (take_bit (bits t) v)" by simp
  then show ?thesis using \<open>m \<le> bits t\<close> by (simp only: take_bit_take_bit min_absorb1)
qed

lemma bits_common_sign: "bits t \<le> bits (common_type (make_unsigned t) (make_signed t))"
  by (cases t) (simp_all add: common_type_def promote_def bits_def)

lemma ConditionalNegate_eq: "ConditionalNegate t x neg = cast (make_signed t) (if neg then - x else x)"
proof -
  define p where "p = common_type (make_unsigned t) (make_signed t)"
  have p: "take_bit (bits t) (cast p v) = take_bit (bits t) v" for v
    using bits_common_sign [of t] unfolding p_def by (rule take_bit_cast_le)
  have "take_bit (bits t) (cast p (cast p (cast (make_unsigned t) x) XOR cast p (- of_bool neg)) + of_bool neg)
      = take_bit (bits t) ((x XOR - of_bool neg) + of_bool neg)"
    by (subst (1 2) take_bit_add [symmetric]) (simp add: take_bit_xor p)
  also have "(x XOR - of_bool neg) + of_bool neg = (if neg then - x else x)"
    by (simp add: not_eq_complement)
  finally show ?thesis unfolding ConditionalNegate_def Let_def p_def [symmetric] by (intro cast_cong) simp
qed

lemma in_type_bits: "in_type t v \<longleftrightarrow>
    (if is_signed t then - (2 ^ (bits t - 1)) \<le> v \<and> v < 2 ^ (bits t - 1) else 0 \<le> v \<and> v < 2 ^ bits t)"
  unfolding in_type_def limits_bits by auto

lemma in_type_unsigned: "in_type (make_unsigned t) v \<longleftrightarrow> 0 \<le> v \<and> v < 2 ^ bits t"
  by (simp add: in_type_bits)

lemma bits_double: "(2::int) ^ bits t = 2 * 2 ^ (bits t - 1)"
  using power_Suc [of "2::int" "bits t - 1"] unfolding bits_pos(2) by simp

lemma abs_in_unsigned: "in_type t v \<Longrightarrow> in_type (make_unsigned t) \<bar>v\<bar>"
  unfolding in_type_unsigned using bits_double [of t] by (auto simp: in_type_bits split: if_splits)

lemma SafeUnsignedAbs_eq: "in_type t v \<Longrightarrow> SafeUnsignedAbs t v = \<bar>v\<bar>"
proof -
  assume v: "in_type t v"
  have "cast (make_unsigned t) (0 - cast (make_unsigned t) v) = cast (make_unsigned t) (- v)"
    using take_bit_minus [of "bits t" "cast (make_unsigned t) v"] take_bit_minus [of "bits t" v]
    by (intro cast_cong) simp
  moreover have "v < 0 \<Longrightarrow> is_signed t" using v by (auto simp: in_type_bits split: if_splits)
  ultimately show ?thesis using abs_in_unsigned [OF v] by (auto simp: SafeUnsignedAbs_def IsValueNegative_def abs_if)
qed

section \<open>The range checks are exact\<close>

lemma kShift_0: "kShift dst src = 0"
  by (simp add: kShift_def MaxExponent_def)

lemma Adjust_id: "in_type dst v \<Longrightarrow> Adjust dst src v = v"
proof -
  assume v: "in_type dst v"
  let ?t = "common_type (make_unsigned dst) dst"
  have le: "bits dst \<le> bits ?t" by (cases dst) (simp_all add: common_type_def promote_def bits_def)
  have neg: "IsValueNegative dst v \<longleftrightarrow> v < 0" using v by (auto simp: IsValueNegative_def in_type_bits split: if_splits)
  define m where "m = cast ?t \<bar>v\<bar> AND cast ?t (- 1)"
  have m: "take_bit (bits dst) m = take_bit (bits dst) \<bar>v\<bar>" unfolding m_def
    by (simp only: take_bit_and take_bit_cast_le [OF le]) (simp only: take_bit_and [symmetric] and.right_neutral)
  then have "take_bit (bits dst) (- m) = take_bit (bits dst) (- \<bar>v\<bar>)" by (metis take_bit_minus)
  with m have "take_bit (bits dst) (if v < 0 then - m else m) = take_bit (bits dst) v" by (cases "v < 0") simp_all
  then have "take_bit (bits dst) (ConditionalNegate ?t m (v < 0)) = take_bit (bits dst) v"
    using le by (simp add: ConditionalNegate_eq take_bit_cast_le)
  then have "cast dst (ConditionalNegate ?t m (v < 0)) = cast dst v" by (rule cast_cong)
  then show ?thesis using v by (simp add: Adjust_def kShift_0 SafeUnsignedAbs_eq neg Let_def m_def)
qed

lemma dst_limits [simp]: "dst_max dst src = highest dst" "dst_lowest dst src = lowest dst"
  by (simp_all add: dst_max_def dst_lowest_def Adjust_id in_type_limits)

lemma digits_values: "digits Int8 = 7" "digits Int16 = 15" "digits Int32 = 31" "digits Int64 = 63"
  "digits UInt8 = 8" "digits UInt16 = 16" "digits UInt32 = 32" "digits UInt64 = 64"
  by (simp_all add: digits_def bits_def)

lemma contained_iff: "contained dst src \<longleftrightarrow> lowest dst \<le> lowest src \<and> highest src \<le> highest dst"
  by (cases dst; cases src; simp only: contained_def MaxExponent_def digits_values is_signed.simps lowest.simps highest.simps; simp)

lemma contained_in_type: "contained dst src \<Longrightarrow> in_type src v \<Longrightarrow> in_type dst v"
  by (auto simp: contained_iff in_type_def)

lemma common_values:
  "common_type t u =
     (if is_signed (promote t) = is_signed (promote u) then (if sizeof (promote t) \<ge> sizeof (promote u) then promote t else promote u)
      else if is_signed (promote t) then (if sizeof (promote u) \<ge> sizeof (promote t) then promote u else promote t)
      else (if sizeof (promote t) \<ge> sizeof (promote u) then promote t else promote u))"
  by (simp add: common_type_def Let_def)

lemma promote_values: "promote Int8 = Int32" "promote Int16 = Int32" "promote Int32 = Int32" "promote Int64 = Int64"
  "promote UInt8 = Int32" "promote UInt16 = Int32" "promote UInt32 = UInt32" "promote UInt64 = UInt64"
  by (simp_all add: promote_def)

lemmas type_values = promote_values sizeof.simps is_signed.simps lowest.simps highest.simps

lemma highest_common: "highest t \<le> highest (common_type t u)" "highest u \<le> highest (common_type t u)"
  by (cases t; cases u; simp only: common_values type_values; simp)+

lemma lowest_nonpos: "lowest t \<le> 0" "0 \<le> highest t"
  by (cases t; simp)+

lemma common_nonneg:
  "0 \<le> v \<Longrightarrow> in_type t v \<Longrightarrow> in_type (common_type t u) v" "0 \<le> v \<Longrightarrow> in_type u v \<Longrightarrow> in_type (common_type t u) v"
  using highest_common(1) [of t u] highest_common(2) [of u t] lowest_nonpos(1) [of "common_type t u"] by (auto simp: in_type_def)

lemma common_wider: "is_signed t \<Longrightarrow> \<not> is_signed u \<Longrightarrow> highest u < highest t \<Longrightarrow> lowest (common_type t u) \<le> lowest t"
  by (cases t; cases u; simp only: common_values type_values; simp)

lemma DstRange_exact:
  assumes "in_type src v"
  shows "DstRangeRelationToSrcRange dst src v = \<lparr>is_underflow = v < lowest dst, is_overflow = v > highest dst\<rparr>"
proof -
  have v: "lowest src \<le> v" "v \<le> highest src" using assms by (auto simp: in_type_def)
  note defs = DstRangeRelationToSrcRange_def RangeCheck_of_def Let_def dst_limits
  consider (c) "contained dst src" | (ss) "\<not> contained dst src" "is_signed dst = is_signed src"
    | (su) "\<not> contained dst src" "is_signed dst" "\<not> is_signed src"
    | (us) "\<not> contained dst src" "\<not> is_signed dst" "is_signed src" by blast
  then show ?thesis
  proof cases
    case c
    then have "in_type dst v" "in_type dst (lowest src)" "in_type dst (highest src)"
      using v by (auto simp: contained_iff in_type_def)
    then show ?thesis using c by (auto simp: defs in_type_def)
  next
    case ss
    then show ?thesis using v by (auto simp: defs limits_bits)
  next
    case su
    have "0 \<le> v" using v su lowest_nonpos by (simp add: limits_bits)
    then have "in_type (common_type src dst) v" "in_type (common_type src dst) (highest dst)" "lowest dst \<le> v"
      using assms common_nonneg [of v src dst] common_nonneg [of "highest dst" dst src] common_nonneg(2) [of "highest dst" dst src]
        lowest_nonpos [of dst] in_type_limits [of dst] by auto
    then show ?thesis using su lowest_nonpos [of dst] by (auto simp: defs)
  next
    case us
    let ?p = "common_type src dst"
    have lo: "lowest dst = 0" using us by (simp add: limits_bits)
    have hs: "in_type ?p (highest src)" "in_type ?p (highest dst)"
      using common_nonneg lowest_nonpos in_type_limits by auto
    have "highest src \<le> highest dst \<or> cast ?p v = v"
    proof (cases "highest src \<le> highest dst")
      case False
      then have "lowest ?p \<le> lowest src" using us by (intro common_wider) auto
      then have "in_type ?p v" using v highest_common [of src dst] by (auto simp: in_type_def)
      then show ?thesis by simp
    qed simp
    then show ?thesis using us lo hs v by (auto simp: defs)
  qed
qed

lemma promotions_compile:
  "IntegerBitsPlusSign t \<noteq> IntegerBitsPlusSign Int64 \<Longrightarrow> \<exists>u. IntegerForDigitsAndSign (IntegerBitsPlusSign t * 2) s = Some u"
  "IsIntegerArithmeticSafe u t t \<Longrightarrow> \<exists>u. IntegerForDigitsAndSign (IntegerBitsPlusSign t * 2) s = Some u"
  by (cases t; cases u; simp add: IntegerBitsPlusSign_def IsIntegerArithmeticSafe_def digits_values)+

section \<open>Comparisons are exact\<close>

lemmas range_flags = rc_IsValid_def rc_IsOverflow_def rc_IsUnderflow_def

lemma rc_IsValid_iff: "in_type src v \<Longrightarrow> rc_IsValid (DstRangeRelationToSrcRange dst src v) \<longleftrightarrow> in_type dst v"
  by (auto simp: DstRange_exact rc_IsValid_def in_type_def)

text \<open>Values that both types can hold survive the conversion to the common type.\<close>

lemma cast_common_both:
  assumes "in_type l v" and "in_type r v" shows "cast (common_type l r) v = v"
proof (cases "is_signed l = is_signed r")
  case True
  then show ?thesis using in_common_same_sign(1) [OF True assms(1)] by simp
next
  case False
  then have "0 \<le> v" using assms by (auto simp: in_type_bits split: if_splits)
  then show ?thesis using common_nonneg(1) [OF _ assms(1)] by simp
qed

lemma compare_cases:
  assumes "in_type l x" and "in_type r y"
  obtains (under) "x < y" "rc_IsUnderflow (DstRangeRelationToSrcRange r l x) \<or> rc_IsOverflow (DstRangeRelationToSrcRange l r y)"
      "\<not> rc_IsOverflow (DstRangeRelationToSrcRange r l x)" "\<not> rc_IsUnderflow (DstRangeRelationToSrcRange l r y)"
      "DstRangeRelationToSrcRange r l x \<noteq> DstRangeRelationToSrcRange l r y"
  | (over) "x > y" "rc_IsOverflow (DstRangeRelationToSrcRange r l x) \<or> rc_IsUnderflow (DstRangeRelationToSrcRange l r y)"
      "\<not> rc_IsUnderflow (DstRangeRelationToSrcRange r l x)" "\<not> rc_IsOverflow (DstRangeRelationToSrcRange l r y)"
      "DstRangeRelationToSrcRange r l x \<noteq> DstRangeRelationToSrcRange l r y"
  | (both) "DstRangeRelationToSrcRange r l x = DstRangeRelationToSrcRange l r y" "cast (common_type l r) x = x" "cast (common_type l r) y = y"
      "\<not> rc_IsUnderflow (DstRangeRelationToSrcRange l r y)" "\<not> rc_IsOverflow (DstRangeRelationToSrcRange l r y)"
proof -
  consider (u) "x < lowest r \<or> y > highest l" | (o) "x > highest r \<or> y < lowest l"
    | (b) "in_type r x" "in_type l y" unfolding in_type_def by linarith
  then show thesis
  proof cases
    case u
    then show thesis using assms by (intro under) (auto simp: DstRange_exact range_flags in_type_def)
  next
    case o
    then show thesis using assms by (intro over) (auto simp: DstRange_exact range_flags in_type_def)
  next
    case b
    then show thesis using assms cast_common_both [of l x r] cast_common_both [of l y r]
      by (intro both) (auto simp: DstRange_exact range_flags in_type_def)
  qed
qed

lemma compare_exact:
  assumes "in_type l x" and "in_type r y"
  shows "IsLess l x r y \<longleftrightarrow> x < y" and "IsLessOrEqual l x r y \<longleftrightarrow> x \<le> y" and "IsGreater l x r y \<longleftrightarrow> x > y"
    and "IsGreaterOrEqual l x r y \<longleftrightarrow> x \<ge> y" and "IsEqual l x r y \<longleftrightarrow> x = y" and "IsNotEqual l x r y \<longleftrightarrow> x \<noteq> y"
  by (cases rule: compare_cases [OF assms]; simp add: IsLess_def IsLessImpl_def IsLessOrEqual_def IsLessOrEqualImpl_def
      IsGreater_def IsGreaterImpl_def IsGreaterOrEqual_def IsGreaterOrEqualImpl_def IsEqual_def IsNotEqual_def)+

lemma IsMaxInRange_iff: "IsMaxInRange dst src \<longleftrightarrow> highest src \<le> highest dst"
  by (simp add: IsMaxInRange_def compare_exact in_type_limits)

lemma IsMinInRange_iff: "IsMinInRange dst src \<longleftrightarrow> lowest dst \<le> lowest src"
  by (simp add: IsMinInRange_def compare_exact in_type_limits)

lemma in_both_limits:
  "highest src \<le> highest dst \<Longrightarrow> in_type dst (highest src)" "lowest dst \<le> lowest src \<Longrightarrow> in_type dst (lowest src)"
  using lowest_nonpos [of dst] lowest_nonpos [of src] unfolding in_type_def by linarith+

lemma CommonMax_eq: "CommonMax dst src = min (highest dst) (highest src)"
  by (auto simp: CommonMax_def IsMaxInRange_iff in_both_limits in_type_limits)

lemma CommonMin_eq: "CommonMin dst src = max (lowest dst) (lowest src)"
  by (auto simp: CommonMin_def IsMinInRange_iff in_both_limits in_type_limits)

lemma CommonMaxOrMin_self: "CommonMaxOrMin t t is_min = (if is_min then lowest t else highest t)"
  by (simp add: CommonMaxOrMin_def CommonMax_eq CommonMin_eq)

section \<open>Conversions\<close>

lemma as_unsigned_neg: "in_type t v \<Longrightarrow> as_unsigned t v = (if v < 0 then v + 2 ^ bits t else v)"
proof -
  assume v: "in_type t v"
  have "take_bit (bits t) v = take_bit (bits t) (v + 2 ^ bits t)" by (simp add: take_bit_eq_mod)
  moreover have "v < 0 \<Longrightarrow> in_type (make_unsigned t) (v + 2 ^ bits t)" "0 \<le> v \<Longrightarrow> in_type (make_unsigned t) v"
    using v bits_double [of t] by (auto simp: in_type_bits split: if_splits)
  ultimately show ?thesis using cast_cong [of "make_unsigned t" v "v + 2 ^ bits t"] by (auto simp: as_unsigned_def)
qed

lemma as_unsigned_le:
  assumes "in_type t v" and "in_type t h" and "0 \<le> h"
  shows "as_unsigned t v \<le> as_unsigned t h \<longleftrightarrow> 0 \<le> v \<and> v \<le> h"
  using assms bits_double [of t] by (auto simp: as_unsigned_neg in_type_bits split: if_splits)

lemma cast_fix_iff: "cast t v = v \<longleftrightarrow> in_type t v"
  using cast_in_type [of t v] by auto

lemma IsValueInRangeFastOp_exact:
  assumes "in_type src v" and "IsValueInRangeFastOp dst src v = Some b" shows "b \<longleftrightarrow> in_type dst v"
proof (cases "is_signed dst")
  case True
  then have s: "is_signed src" "b = (cast (common_type src dst) v = cast (common_type src dst) (cast dst v))"
    using assms(2) by (auto simp: IsValueInRangeFastOp_def split: if_splits)
  have "in_type (common_type src dst) v" "in_type (common_type src dst) (cast dst v)"
    using s True assms(1) cast_in_type [of dst v] by (auto intro: in_common_same_sign)
  then show ?thesis using s(2) cast_fix_iff [of dst v] by auto
next
  case False
  then have b: "b = (as_unsigned src v \<le> as_unsigned src (CommonMax src dst))"
    using assms(2) by (auto simp: IsValueInRangeFastOp_def split: if_splits)
  have "in_type src (min (highest src) (highest dst))"
    using lowest_nonpos [of src] lowest_nonpos [of dst] by (simp add: in_type_def min_def)
  then have "b \<longleftrightarrow> 0 \<le> v \<and> v \<le> min (highest src) (highest dst)" unfolding b CommonMax_eq
    using assms(1) lowest_nonpos [of src] lowest_nonpos [of dst] by (intro as_unsigned_le) auto
  then show ?thesis using False assms(1) by (auto simp: in_type_def limits_bits(1) [of dst])
qed

lemma IsValueInRange_iff: "in_type src v \<Longrightarrow> IsValueInRange dst src v \<longleftrightarrow> in_type dst v"
  using IsValueInRangeFastOp_exact [of src v dst] rc_IsValid_iff [of src v dst]
  by (auto simp: IsValueInRange_def split: option.splits)

lemma clamp_simps:
  "v > highest t \<Longrightarrow> clamp t v = highest t" "v < lowest t \<Longrightarrow> clamp t v = lowest t" "in_type t v \<Longrightarrow> clamp t v = v"
  using lowest_le_highest [of t] by (auto simp: clamp_def in_type_def)

lemma IsValueNegative_iff: "in_type t v \<Longrightarrow> IsValueNegative t v \<longleftrightarrow> v < 0"
  by (auto simp: IsValueNegative_def in_type_bits split: if_splits)

lemma SaturateFastOp_exact:
  assumes "in_type src v" shows "SaturateFastOp dst src v = clamp dst v"
proof -
  consider (i) "in_type dst v" | (o) "v > highest dst" | (u) "v < lowest dst" unfolding in_type_def by linarith
  then show ?thesis
  proof cases
    case i
    then show ?thesis using assms by (simp add: SaturateFastOp_def IsValueInRange_iff clamp_simps)
  next
    case o
    then have "\<not> highest src \<le> highest dst" "\<not> IsValueNegative src v" "\<not> in_type dst v"
      using assms lowest_nonpos [of dst] by (auto simp: in_type_def IsValueNegative_def)
    then show ?thesis using assms o
      by (simp add: SaturateFastOp_def IsValueInRange_iff IsMaxInRange_iff CommonMaxOrMin_def CommonMax_eq clamp_simps)
  next
    case u
    then have "\<not> lowest dst \<le> lowest src" "IsValueNegative src v" "\<not> in_type dst v"
      using assms lowest_nonpos [of dst] IsValueNegative_iff [OF assms] by (auto simp: in_type_def)
    then show ?thesis using assms u
      by (simp add: SaturateFastOp_def IsValueInRange_iff IsMinInRange_iff CommonMaxOrMin_def CommonMin_eq clamp_simps)
  qed
qed

lemma saturated_exact: "in_type src v \<Longrightarrow> base_saturated_cast c dst src v = clamp dst v"
  using lowest_le_highest [of dst]
  by (auto simp: base_saturated_cast_def SaturateFastOp_exact saturated_cast_impl_def DstRange_exact clamp_def in_type_def)

lemma base_checked_cast_exact:
  "in_type src v \<Longrightarrow> base_checked_cast dst src v = (if in_type dst v then Inr v else Inl CheckFailed)"
  by (simp add: base_checked_cast_def IsValueInRange_iff)

section \<open>Promotions\<close>

lemma IntegerBitsPlusSign_eq: "IntegerBitsPlusSign t = bits t"
  by (cases t) (simp_all add: IntegerBitsPlusSign_def digits_def bits_def)

lemma MaxExponentPromotion_max: "highest (MaxExponentPromotion l r) = max (highest l) (highest r)"
  by (cases l; cases r; simp only: MaxExponentPromotion_def MaxExponent_def digits_values type_values; simp)

lemma MaxExponentPromotion_cases: "MaxExponentPromotion l r = l \<or> MaxExponentPromotion l r = r"
  by (simp add: MaxExponentPromotion_def)

lemma LowestValuePromotion_min: "lowest (LowestValuePromotion l r) = min (lowest l) (lowest r)"
  by (cases l; cases r; simp only: LowestValuePromotion_def MaxExponent_def digits_values type_values; simp)

lemma LowestValuePromotion_high:
  "highest l \<le> highest (LowestValuePromotion l r) \<or> highest r \<le> highest (LowestValuePromotion l r)"
  by (cases l; cases r; simp only: LowestValuePromotion_def MaxExponent_def digits_values type_values; simp)

lemma IntegerForDigits_values:
  "TwiceWiderInteger Int8 s = (if s then Int16 else UInt16)" "TwiceWiderInteger UInt8 s = (if s then Int16 else UInt16)"
  "TwiceWiderInteger Int16 s = (if s then Int32 else UInt32)" "TwiceWiderInteger UInt16 s = (if s then Int32 else UInt32)"
  "TwiceWiderInteger Int32 s = (if s then Int64 else UInt64)" "TwiceWiderInteger UInt32 s = (if s then Int64 else UInt64)"
  by (simp_all add: TwiceWiderInteger_def IntegerBitsPlusSign_def digits_values)

lemmas promotion_defs = BigEnoughPromotion_def FastIntegerArithmeticPromotion_def MaxExponentPromotion_def MaxExponent_def
  IsIntegerArithmeticSafe_def IntegerBitsPlusSign_def contained_def Let_def digits_values is_signed.simps
  IntegerForDigits_values

lemma BigEnoughPromotion_cases:
  obtains (big) p where "BigEnoughPromotion l r = (p, True)" "contained p l" "contained p r"
  | (left) "BigEnoughPromotion l r = (UInt64, False)" "is_signed l" "r = UInt64"
  | (right) "BigEnoughPromotion l r = (UInt64, False)" "l = UInt64" "is_signed r"
  by (cases l; cases r; simp add: promotion_defs)

section \<open>Summary\<close>

lemma SafeCompare_exact:
  assumes x: "in_type l x" and y: "in_type r y"
  shows "SafeCompare IsLess l x r y \<longleftrightarrow> x < y" and "SafeCompare IsLessOrEqual l x r y \<longleftrightarrow> x \<le> y"
    and "SafeCompare IsGreater l x r y \<longleftrightarrow> x > y" and "SafeCompare IsGreaterOrEqual l x r y \<longleftrightarrow> x \<ge> y"
    and "SafeCompare IsEqual l x r y \<longleftrightarrow> x = y" and "SafeCompare IsNotEqual l x r y \<longleftrightarrow> x \<noteq> y"
proof -
  obtain l' r' where i: "in_type l' x" "in_type r' y" and e: "\<And>C. SafeCompare C l x r y = C l' x r' y"
  proof (cases rule: BigEnoughPromotion_cases [of l r])
    case (big p)
    then have "in_type p x" "in_type p y" using x y contained_in_type by blast+
    then show thesis using that [of p p] big by (simp add: SafeCompare_def)
  next
    case left
    then show thesis using that [of l r] x y by (simp add: SafeCompare_def)
  next
    case right
    then show thesis using that [of l r] x y by (simp add: SafeCompare_def)
  qed
  show "SafeCompare IsLess l x r y \<longleftrightarrow> x < y" "SafeCompare IsLessOrEqual l x r y \<longleftrightarrow> x \<le> y"
    "SafeCompare IsGreater l x r y \<longleftrightarrow> x > y" "SafeCompare IsGreaterOrEqual l x r y \<longleftrightarrow> x \<ge> y"
    "SafeCompare IsEqual l x r y \<longleftrightarrow> x = y" "SafeCompare IsNotEqual l x r y \<longleftrightarrow> x \<noteq> y"
    unfolding e by (rule compare_exact [OF i])+
qed

text \<open>
  The conversions of base/numerics are exact for every pair of integer types:
  \<open>IsValueInRangeForNumericType\<close> holds iff the value fits, \<open>checked_cast\<close> returns the value unchanged or
  traps, and both implementations of \<open>saturated_cast\<close>, the branch-free one for run-time values and the
  range-checked one for constants, return the nearest value of the destination type.
\<close>

theorem base_conversions_exact:
  assumes "in_type src v"
  shows "(IsValueInRange dst src v \<longleftrightarrow> in_type dst v) \<and>
    base_checked_cast dst src v = (if in_type dst v then Inr v else Inl CheckFailed) \<and>
    (\<forall>is_constant. base_saturated_cast is_constant dst src v = clamp dst v)"
  using assms by (simp add: IsValueInRange_iff base_checked_cast_exact saturated_exact)

theorem base_conversions_exact_witness:
  "\<not> IsValueInRange UInt16 Int64 (- 7) \<and> base_checked_cast UInt16 Int64 (- 7) = Inl CheckFailed \<and>
   base_saturated_cast False UInt16 Int64 (- 7) = 0"
  using base_conversions_exact [of Int64 "- 7" UInt16] by (simp add: in_type_def clamp_def)

end
