(* ===== verification/CheckedMath.thy ===== *)
theory CheckedMath
  imports BaseNumerics
begin

text \<open>
  base/numerics/checked_math_impl.h, safe_math_shared_impl.h, safe_math_clang_gcc_impl.h and
  checked_math.h, for integers. An operation class \<open>Checked...Op<T, U>\<close> is a function of its type
  arguments and of the type \<open>V\<close> that its \<open>Do\<close> writes; \<open>Do\<close> returns its verdict and what the
  result variable holds afterwards. The lemmas show that each operation succeeds exactly when the
  mathematical result fits, and then stores it, whichever routines the compiler selects; where the
  portable routines are stricter, the lemma says by what.
\<close>

unbundle bit_operations_syntax

section \<open>The compiler\<close>

text \<open>
  Which of the routines that the preprocessor selects: GCC (5 and newer) and Clang have the overflow builtins, Clang not
  for every multiplication; another compiler has none.
\<close>

datatype compiler = Gcc | Clang | Portable

text \<open>The negated \<open>__builtin_..._overflow\<close>: the mathematical result \<open>z\<close> is stored wrapped, and the verdict is whether it fits.\<close>

definition builtin_no_overflow :: "int_type \<Rightarrow> int \<Rightarrow> bool \<times> int" where
  "builtin_no_overflow v z = (in_type v z, cast v z)"

definition CheckedAddFastOp_supported :: "compiler \<Rightarrow> bool" where
  "CheckedAddFastOp_supported c \<longleftrightarrow> c \<noteq> Portable"

definition CheckedSubFastOp_supported :: "compiler \<Rightarrow> bool" where
  "CheckedSubFastOp_supported c \<longleftrightarrow> c \<noteq> Portable"

definition CheckedMulFastOp_supported :: "compiler \<Rightarrow> int_type \<Rightarrow> int_type \<Rightarrow> bool" where
  "CheckedMulFastOp_supported c t u =
     (case c of Gcc \<Rightarrow> True
      | Clang \<Rightarrow> contained Int64 t \<and> contained Int64 u \<or> contained UInt64 t \<and> contained UInt64 u
      | Portable \<Rightarrow> False)"

section \<open>The portable routines\<close>

definition CheckedAddImpl :: "int_type \<Rightarrow> int \<Rightarrow> int \<Rightarrow> int \<Rightarrow> bool \<times> int" where
  "CheckedAddImpl t x y result =
     (let ut = make_unsigned t; ux = cast ut x; uy = cast ut y; uresult = cast ut (ux + uy) in
      if (if is_signed t then cast (make_signed t) ((uresult XOR ux) AND (uresult XOR uy)) < 0 else uresult < uy)
      then (False, result) else (True, cast t uresult))"

definition CheckedSubImpl :: "int_type \<Rightarrow> int \<Rightarrow> int \<Rightarrow> int \<Rightarrow> bool \<times> int" where
  "CheckedSubImpl t x y result =
     (let ut = make_unsigned t; ux = cast ut x; uy = cast ut y; uresult = cast ut (ux - uy) in
      if (if is_signed t then cast (make_signed t) ((uresult XOR ux) AND (ux XOR uy)) < 0 else x < y)
      then (False, result) else (True, cast t uresult))"

definition CheckedMulImpl :: "int_type \<Rightarrow> int \<Rightarrow> int \<Rightarrow> int \<Rightarrow> bool \<times> int" where
  "CheckedMulImpl t x y result =
     (let ut = make_unsigned t; ux = SafeUnsignedAbs t x; uy = SafeUnsignedAbs t y; uresult = cast ut (ux * uy);
          is_negative = (is_signed t \<and> cast (make_signed t) (x XOR y) < 0) in
      if uy > of_bool (\<not> is_signed t \<or> is_negative) \<and>
         ux > cast (common_type t ut) (highest t + of_bool is_negative) div uy
      then (False, result) else (True, cast t (if is_negative then 0 - uresult else uresult)))"

section \<open>Operations\<close>

text \<open>The promotion of \<open>CheckedAddOp\<close> and \<open>CheckedSubOp\<close>: at most a machine word.\<close>

definition WordPromotion :: "int_type \<Rightarrow> int_type \<Rightarrow> int_type" where
  "WordPromotion t u =
     (let f = FastIntegerArithmeticPromotion t u in
      if IntegerBitsPlusSign f > IntegerBitsPlusSign Int64 then fst (BigEnoughPromotion t u) else f)"

type_synonym checked_op = "compiler \<Rightarrow> int_type \<Rightarrow> int_type \<Rightarrow> int_type \<Rightarrow> int \<Rightarrow> int \<Rightarrow> int \<Rightarrow> bool \<times> int"

definition CheckedAddOp :: checked_op where
  "CheckedAddOp c t u v x y result =
     (if CheckedAddFastOp_supported c then builtin_no_overflow v (x + y)
      else let p = WordPromotion t u in
        if \<not> IsValueInRange p t x \<or> \<not> IsValueInRange p u y then (False, result)
        else let (is_valid, presult) =
                   (if IsIntegerArithmeticSafe p t u then (True, cast p (cast p x + cast p y))
                    else CheckedAddImpl p (cast p x) (cast p y) 0) in
          if \<not> is_valid \<or> \<not> IsValueInRange v p presult then (False, result) else (True, cast v presult))"

definition CheckedSubOp :: checked_op where
  "CheckedSubOp c t u v x y result =
     (if CheckedSubFastOp_supported c then builtin_no_overflow v (x - y)
      else let p = WordPromotion t u in
        if \<not> IsValueInRange p t x \<or> \<not> IsValueInRange p u y then (False, result)
        else let (is_valid, presult) =
                   (if IsIntegerArithmeticSafe p t u then (True, cast p (cast p x - cast p y))
                    else CheckedSubImpl p (cast p x) (cast p y) 0) in
          if \<not> is_valid \<or> \<not> IsValueInRange v p presult then (False, result) else (True, cast v presult))"

definition CheckedMulOp :: checked_op where
  "CheckedMulOp c t u v x y result =
     (if CheckedMulFastOp_supported c t u then builtin_no_overflow v (x * y)
      else let p = FastIntegerArithmeticPromotion t u in
        if (\<not> IsValueInRange p t x \<or> \<not> IsValueInRange p u y) \<and> x \<noteq> 0 \<and> y \<noteq> 0 then (False, result)
        else let (is_valid, presult) =
                   (if CheckedMulFastOp_supported c p p then builtin_no_overflow p (cast p x * cast p y)
                    else if IsIntegerArithmeticSafe p t u then (True, cast p (cast p x * cast p y))
                    else CheckedMulImpl p (cast p x) (cast p y) 0) in
          if \<not> is_valid \<or> \<not> IsValueInRange v p presult then (False, result) else (True, cast v presult))"

text \<open>The lowest value divided by -1: the quotient that two's complement cannot represent.\<close>

definition lowest_by_minus_one :: "int_type \<Rightarrow> int_type \<Rightarrow> int_type \<Rightarrow> int \<Rightarrow> int \<Rightarrow> bool" where
  "lowest_by_minus_one p t u x y \<longleftrightarrow>
     is_signed t \<and> is_signed u \<and> contained t p \<and> cast p x = lowest p \<and> y = cast u (- 1)"

definition CheckedDivOp :: checked_op where
  "CheckedDivOp c t u v x y result =
     (let p = fst (BigEnoughPromotion t u) in
      if y = 0 then (False, result)
      else if lowest_by_minus_one p t u x y then (False, result)
      else if (\<not> IsValueInRange p t x \<or> \<not> IsValueInRange p u y) \<and> x \<noteq> 0 then (False, result)
      else let presult = cast p (cast p x sdiv cast p y) in
        if \<not> IsValueInRange v p presult then (False, result) else (True, cast v presult))"

text \<open>Unlike the division, the remainder does not ask whether the operands fit the promoted type.\<close>

definition CheckedModOp :: checked_op where
  "CheckedModOp c t u v x y result =
     (let p = fst (BigEnoughPromotion t u) in
      if y = 0 then (False, result)
      else if lowest_by_minus_one p t u x y then (True, 0)
      else let presult = cast p (cast p x smod cast p y) in
        if \<not> IsValueInRange v p presult then (False, result) else (True, cast v presult))"

text \<open>The shifted value has the promoted unsigned type; the result is shifted back in its own promoted type.\<close>

definition CheckedLshOp :: checked_op where
  "CheckedLshOp c t u v x shift result =
     (if \<not> IsValueNegative t x \<and> as_unsigned u shift < int (digits t) then
        let r = cast v (cast (promote (make_unsigned t)) (push_bit (nat shift) (as_unsigned t x))) in
        (cast (common_type v t) (drop_bit (nat shift) r) = cast (common_type v t) x, r)
      else if \<not> is_signed t \<or> x \<noteq> 0 \<or> as_unsigned u shift \<noteq> int (digits t) then (False, result)
      else (True, 0))"

definition CheckedRshOp :: checked_op where
  "CheckedRshOp c t u v x shift result =
     (if as_unsigned u shift \<ge> int (IntegerBitsPlusSign t) then (False, result)
      else let tmp = cast t (drop_bit (nat shift) x) in
        if \<not> IsValueInRange v t tmp then (False, result) else (True, cast v tmp))"

definition BitwiseResult :: "int_type \<Rightarrow> int_type \<Rightarrow> int_type" where
  "BitwiseResult t u = make_unsigned (MaxExponentPromotion t u)"

definition CheckedAndOp :: checked_op where
  "CheckedAndOp c t u v x y result =
     (let rt = BitwiseResult t u; tmp = cast rt (cast rt x AND cast rt y) in
      if \<not> IsValueInRange v rt tmp then (False, result) else (True, cast v tmp))"

definition CheckedOrOp :: checked_op where
  "CheckedOrOp c t u v x y result =
     (let rt = BitwiseResult t u; tmp = cast rt (cast rt x OR cast rt y) in
      if \<not> IsValueInRange v rt tmp then (False, result) else (True, cast v tmp))"

definition CheckedXorOp :: checked_op where
  "CheckedXorOp c t u v x y result =
     (let rt = BitwiseResult t u; tmp = cast rt (cast rt x XOR cast rt y) in
      if \<not> IsValueInRange v rt tmp then (False, result) else (True, cast v tmp))"

definition CheckedMaxOp :: checked_op where
  "CheckedMaxOp c t u v x y result =
     (let rt = MaxExponentPromotion t u; tmp = (if IsGreater t x u y then cast rt x else cast rt y) in
      if \<not> IsValueInRange v rt tmp then (False, result) else (True, cast v tmp))"

definition CheckedMinOp :: checked_op where
  "CheckedMinOp c t u v x y result =
     (let rt = LowestValuePromotion t u; tmp = (if IsLess t x u y then cast rt x else cast rt y) in
      if \<not> IsValueInRange v rt tmp then (False, result) else (True, cast v tmp))"

section \<open>CheckedNumeric\<close>

text \<open>A \<open>CheckedNumeric<T>\<close>: \<open>num_type\<close> is \<open>T\<close>; validity and value are its \<open>CheckedNumericState\<close>.\<close>

record checked_numeric =
  num_type :: int_type
  num_valid :: bool
  num_value :: int

text \<open>The constructor from a value of type \<open>src\<close>: the value is kept, wrapped, when it is out of range.\<close>

definition CheckedNumeric_of :: "int_type \<Rightarrow> int_type \<Rightarrow> int \<Rightarrow> bool \<Rightarrow> checked_numeric" where
  "CheckedNumeric_of t src v is_valid = \<lparr>num_type = t, num_valid = (is_valid \<and> IsValueInRange t src v), num_value = cast t v\<rparr>"

definition cn_IsValid :: "int_type \<Rightarrow> checked_numeric \<Rightarrow> bool" where
  "cn_IsValid dst n \<longleftrightarrow> num_valid n \<and> IsValueInRange dst (num_type n) (num_value n)"

definition CheckedNumeric_copy :: "int_type \<Rightarrow> checked_numeric \<Rightarrow> checked_numeric" where
  "CheckedNumeric_copy t n = CheckedNumeric_of t (num_type n) (num_value n) (cn_IsValid (num_type n) n)"

text \<open>The verdict and the destination afterwards.\<close>

definition AssignIfValid :: "int_type \<Rightarrow> checked_numeric \<Rightarrow> int \<Rightarrow> bool \<times> int" where
  "AssignIfValid dst n result = (if cn_IsValid dst n then (True, cast dst (num_value n)) else (False, result))"

definition ValueOrDie :: "int_type \<Rightarrow> checked_numeric \<Rightarrow> int res" where
  "ValueOrDie dst n = check (cn_IsValid dst n) (Inr (cast dst (num_value n)))"

definition ValueOrDefault :: "int_type \<Rightarrow> checked_numeric \<Rightarrow> int_type \<Rightarrow> int \<Rightarrow> int res" where
  "ValueOrDefault dst n src default_value =
     (if cn_IsValid dst n then Inr (cast dst (num_value n)) else base_checked_cast dst src default_value)"

definition cn_Cast :: "int_type \<Rightarrow> checked_numeric \<Rightarrow> checked_numeric" where
  "cn_Cast dst n = CheckedNumeric_copy dst n"

definition NegateWrapper :: "int_type \<Rightarrow> int \<Rightarrow> int" where
  "NegateWrapper t v = cast t (cast (make_unsigned t) (0 - cast (make_unsigned t) v))"

definition InvertWrapper :: "int_type \<Rightarrow> int \<Rightarrow> int" where
  "InvertWrapper t v = cast (make_unsigned t) (NOT v)"

definition AbsWrapper :: "int_type \<Rightarrow> int \<Rightarrow> int" where
  "AbsWrapper t v = cast t (SafeUnsignedAbs t v)"

text \<open>\<open>operator-\<close>: the fast path is for floating point only.\<close>

definition cn_negate :: "checked_numeric \<Rightarrow> checked_numeric" where
  "cn_negate n =
     (let t = num_type n; r = NegateWrapper t (num_value n) in
      CheckedNumeric_of t t r (cn_IsValid t n \<and> (\<not> is_signed t \<or> r \<noteq> lowest t)))"

text \<open>\<open>operator~\<close>: a \<open>CheckedNumeric\<close> of the unsigned type, converted back to the type of the operand.\<close>

definition cn_invert :: "checked_numeric \<Rightarrow> checked_numeric" where
  "cn_invert n =
     (let t = num_type n; ut = make_unsigned t in
      CheckedNumeric_copy t (CheckedNumeric_of ut ut (InvertWrapper t (num_value n)) (cn_IsValid t n)))"

definition cn_Abs :: "checked_numeric \<Rightarrow> checked_numeric" where
  "cn_Abs n = (if \<not> IsValueNegative (num_type n) (num_value n) then n else cn_negate n)"

definition cn_UnsignedAbs :: "checked_numeric \<Rightarrow> checked_numeric" where
  "cn_UnsignedAbs n =
     (let ut = make_unsigned (num_type n) in
      CheckedNumeric_of ut ut (SafeUnsignedAbs (num_type n) (num_value n)) (num_valid n))"

section \<open>Operators\<close>

text \<open>The operands that \<open>Wrapper\<close> accepts: a plain number, a \<open>StrictNumeric\<close>, a \<open>CheckedNumeric\<close>.\<close>

datatype operand = Plain int_type int | Strict int_type int | Checked checked_numeric

fun UnderlyingType :: "operand \<Rightarrow> int_type" where
  "UnderlyingType (Plain t v) = t"
| "UnderlyingType (Strict t v) = t"
| "UnderlyingType (Checked n) = num_type n"

fun Wrapper_is_valid :: "operand \<Rightarrow> bool" where
  "Wrapper_is_valid (Plain t v) = True"
| "Wrapper_is_valid (Strict t v) = True"
| "Wrapper_is_valid (Checked n) = cn_IsValid (num_type n) n"

fun Wrapper_value :: "operand \<Rightarrow> int" where
  "Wrapper_value (Plain t v) = v"
| "Wrapper_value (Strict t v) = v"
| "Wrapper_value (Checked n) = num_value n"

definition MathOp :: "checked_op \<Rightarrow> compiler \<Rightarrow> int_type \<Rightarrow> operand \<Rightarrow> operand \<Rightarrow> checked_numeric" where
  "MathOp M c t lhs rhs =
     (let (is_valid, result) =
            (if Wrapper_is_valid lhs \<and> Wrapper_is_valid rhs
             then M c (UnderlyingType lhs) (UnderlyingType rhs) t (Wrapper_value lhs) (Wrapper_value rhs) 0
             else (False, 0)) in
      CheckedNumeric_of t t result is_valid)"

text \<open>The compound assignments: the destination keeps its type.\<close>

definition MathOp_assign :: "checked_op \<Rightarrow> compiler \<Rightarrow> checked_numeric \<Rightarrow> operand \<Rightarrow> checked_numeric" where
  "MathOp_assign M c n rhs =
     (let t = num_type n;
          (is_valid, result) =
            (if num_valid n \<and> Wrapper_is_valid rhs
             then M c t (UnderlyingType rhs) t (num_value n) (Wrapper_value rhs) 0 else (False, 0)) in
      CheckedNumeric_of t t result is_valid)"

definition cn_increment :: "compiler \<Rightarrow> checked_numeric \<Rightarrow> checked_numeric" where
  "cn_increment c n = MathOp_assign CheckedAddOp c n (Plain Int32 1)"

definition cn_decrement :: "compiler \<Rightarrow> checked_numeric \<Rightarrow> checked_numeric" where
  "cn_decrement c n = MathOp_assign CheckedSubOp c n (Plain Int32 1)"

definition CheckMathOp ::
  "checked_op \<Rightarrow> (int_type \<Rightarrow> int_type \<Rightarrow> int_type) \<Rightarrow> compiler \<Rightarrow> operand \<Rightarrow> operand \<Rightarrow> checked_numeric" where
  "CheckMathOp M result_type c lhs rhs = MathOp M c (result_type (UnderlyingType lhs) (UnderlyingType rhs)) lhs rhs"

fun CheckMathOps ::
  "checked_op \<Rightarrow> (int_type \<Rightarrow> int_type \<Rightarrow> int_type) \<Rightarrow> compiler \<Rightarrow> operand \<Rightarrow> operand \<Rightarrow> operand list \<Rightarrow> checked_numeric" where
  "CheckMathOps M rt c lhs rhs [] = CheckMathOp M rt c lhs rhs"
| "CheckMathOps M rt c lhs rhs (a # args) = CheckMathOps M rt c (Checked (CheckMathOp M rt c lhs rhs)) a args"

text \<open>The named operations, each with its \<open>result_type\<close>.\<close>

definition CheckAdd :: "compiler \<Rightarrow> operand \<Rightarrow> operand \<Rightarrow> checked_numeric" where
  "CheckAdd = CheckMathOp CheckedAddOp MaxExponentPromotion"

definition CheckSub :: "compiler \<Rightarrow> operand \<Rightarrow> operand \<Rightarrow> checked_numeric" where
  "CheckSub = CheckMathOp CheckedSubOp MaxExponentPromotion"

definition CheckMul :: "compiler \<Rightarrow> operand \<Rightarrow> operand \<Rightarrow> checked_numeric" where
  "CheckMul = CheckMathOp CheckedMulOp MaxExponentPromotion"

definition CheckDiv :: "compiler \<Rightarrow> operand \<Rightarrow> operand \<Rightarrow> checked_numeric" where
  "CheckDiv = CheckMathOp CheckedDivOp MaxExponentPromotion"

definition CheckMod :: "compiler \<Rightarrow> operand \<Rightarrow> operand \<Rightarrow> checked_numeric" where
  "CheckMod = CheckMathOp CheckedModOp MaxExponentPromotion"

definition CheckLsh :: "compiler \<Rightarrow> operand \<Rightarrow> operand \<Rightarrow> checked_numeric" where
  "CheckLsh = CheckMathOp CheckedLshOp (\<lambda>t u. t)"

definition CheckRsh :: "compiler \<Rightarrow> operand \<Rightarrow> operand \<Rightarrow> checked_numeric" where
  "CheckRsh = CheckMathOp CheckedRshOp (\<lambda>t u. t)"

definition CheckAnd :: "compiler \<Rightarrow> operand \<Rightarrow> operand \<Rightarrow> checked_numeric" where
  "CheckAnd = CheckMathOp CheckedAndOp BitwiseResult"

definition CheckOr :: "compiler \<Rightarrow> operand \<Rightarrow> operand \<Rightarrow> checked_numeric" where
  "CheckOr = CheckMathOp CheckedOrOp BitwiseResult"

definition CheckXor :: "compiler \<Rightarrow> operand \<Rightarrow> operand \<Rightarrow> checked_numeric" where
  "CheckXor = CheckMathOp CheckedXorOp BitwiseResult"

definition CheckMax :: "compiler \<Rightarrow> operand \<Rightarrow> operand \<Rightarrow> checked_numeric" where
  "CheckMax = CheckMathOp CheckedMaxOp MaxExponentPromotion"

definition CheckMin :: "compiler \<Rightarrow> operand \<Rightarrow> operand \<Rightarrow> checked_numeric" where
  "CheckMin = CheckMathOp CheckedMinOp LowestValuePromotion"

text \<open>The pointer operators for a \<open>StrictNumeric\<close> offset: an address is a \<open>uintptr_t\<close>, \<open>size\<close> the size of an element.\<close>

definition pointer_plus :: "compiler \<Rightarrow> int \<Rightarrow> int \<Rightarrow> int_type \<Rightarrow> int \<Rightarrow> int res" where
  "pointer_plus c size_of_L lhs r rhs =
     ValueOrDie UInt64 (CheckAdd c (Plain UInt64 lhs) (Checked (CheckMul c (Plain UInt64 size_of_L) (Plain r rhs))))"

definition pointer_minus :: "compiler \<Rightarrow> int \<Rightarrow> int \<Rightarrow> int_type \<Rightarrow> int \<Rightarrow> int res" where
  "pointer_minus c size_of_L lhs r rhs =
     ValueOrDie UInt64 (CheckSub c (Plain UInt64 lhs) (Checked (CheckMul c (Plain UInt64 size_of_L) (Plain r rhs))))"

text \<open>The largest absolute value of a type.\<close>

definition magnitude :: "int_type \<Rightarrow> int" where
  "magnitude t = max (- lowest t) (highest t)"

section \<open>The portable routines are exact\<close>

lemma cast_signed_negative: "is_signed t \<Longrightarrow> cast t v < 0 \<longleftrightarrow> bit v (bits t - 1)"
  by (simp add: cast_bits signed_take_bit_negative_iff)

lemma bit_cast: "n < bits t \<Longrightarrow> bit (cast t v) n \<longleftrightarrow> bit v n"
proof -
  assume n: "n < bits t"
  have "take_bit (bits t) (cast t v) = take_bit (bits t) v" by simp
  from arg_cong [OF this, of "\<lambda>z. bit z n"] show ?thesis using n by (simp only: bit_take_bit_iff simp_thms)
qed

lemma sign_bit: "is_signed t \<Longrightarrow> in_type t v \<Longrightarrow> bit v (bits t - 1) \<longleftrightarrow> v < 0"
  using cast_signed_negative [of t v] by simp

lemma cast_wrap:
  assumes "is_signed t"
  shows "highest t < z \<Longrightarrow> z \<le> 2 * highest t + 1 \<Longrightarrow> cast t z < 0" and "z < lowest t \<Longrightarrow> 2 * lowest t \<le> z \<Longrightarrow> 0 \<le> cast t z"
proof -
  have c: "cast t z = cast t (z - 2 ^ bits t)" "cast t z = cast t (z + 2 ^ bits t)"
    by (rule cast_cong; simp add: take_bit_eq_mod)+
  { assume "highest t < z" "z \<le> 2 * highest t + 1"
    then have "in_type t (z - 2 ^ bits t)" "z - 2 ^ bits t < 0" using assms bits_double [of t] by (auto simp: in_type_bits limits_bits)
    then show "cast t z < 0" using c(1) by simp }
  { assume "z < lowest t" "2 * lowest t \<le> z"
    then have "in_type t (z + 2 ^ bits t)" "0 \<le> z + 2 ^ bits t" using assms bits_double [of t] by (auto simp: in_type_bits limits_bits)
    then show "0 \<le> cast t z" using c(2) by simp }
qed

lemma cast_unsigned_sum: "cast (make_unsigned t) (cast (make_unsigned t) x + cast (make_unsigned t) y) = cast (make_unsigned t) (x + y)"
  by (rule cast_cong) (subst (1 2) take_bit_add [symmetric], simp)

lemma cast_unsigned_diff: "cast (make_unsigned t) (cast (make_unsigned t) x - cast (make_unsigned t) y) = cast (make_unsigned t) (x - y)"
  by (rule cast_cong) (subst (1 2) take_bit_diff [symmetric], simp)

lemma signed_range: "is_signed t \<Longrightarrow> lowest t = - highest t - 1"
  by (simp add: limits_bits)

lemma make_signed_id: "is_signed t \<Longrightarrow> make_signed t = t" "\<not> is_signed t \<Longrightarrow> make_unsigned t = t"
  by (cases t; simp)+

lemma sum_sign:
  assumes "is_signed t" "in_type t x" "in_type t y"
  shows "in_type t (x + y) \<longleftrightarrow> \<not> ((cast t (x + y) < 0) \<noteq> (x < 0) \<and> (cast t (x + y) < 0) \<noteq> (y < 0))"
proof -
  consider (i) "in_type t (x + y)" | (o) "x + y > highest t" | (u) "x + y < lowest t" unfolding in_type_def by linarith
  then show ?thesis
  proof cases
    case o
    then have "cast t (x + y) < 0" using assms by (intro cast_wrap) (auto simp: in_type_def)
    then show ?thesis using o assms by (auto simp: in_type_def)
  next
    case u
    then have "0 \<le> cast t (x + y)" using assms by (intro cast_wrap) (auto simp: in_type_def)
    then show ?thesis using u assms signed_range [of t] by (auto simp: in_type_def)
  qed auto
qed

lemma difference_sign:
  assumes "is_signed t" "in_type t x" "in_type t y"
  shows "in_type t (x - y) \<longleftrightarrow> \<not> ((cast t (x - y) < 0) \<noteq> (x < 0) \<and> (x < 0) \<noteq> (y < 0))"
proof -
  consider (i) "in_type t (x - y)" | (o) "x - y > highest t" | (u) "x - y < lowest t" unfolding in_type_def by linarith
  then show ?thesis
  proof cases
    case o
    then have "cast t (x - y) < 0" using assms signed_range [of t] by (intro cast_wrap) (auto simp: in_type_def)
    then show ?thesis using o assms signed_range [of t] by (auto simp: in_type_def)
  next
    case u
    then have "0 \<le> cast t (x - y)" using assms signed_range [of t] by (intro cast_wrap) (auto simp: in_type_def)
    then show ?thesis using u assms signed_range [of t] by (auto simp: in_type_def)
  qed auto
qed

lemma unsigned_range: "\<not> is_signed t \<Longrightarrow> lowest t = 0"
  by (simp add: limits_bits)

lemma unsigned_sum_wraps:
  assumes "\<not> is_signed t" "in_type t x" "in_type t y"
  shows "cast t (x + y) < y \<longleftrightarrow> \<not> in_type t (x + y)"
proof (cases "in_type t (x + y)")
  case False
  have "cast t (x + y) = cast t (x + y - 2 ^ bits t)" by (rule cast_cong) (simp add: take_bit_eq_mod)
  moreover have "in_type t (x + y - 2 ^ bits t)" using assms False by (auto simp: in_type_bits)
  ultimately show ?thesis using assms False by (auto simp: in_type_bits)
qed (use assms in \<open>auto simp: in_type_bits\<close>)

text \<open>What the sign tests of the two routines mean.\<close>

lemma sign_test:
  assumes "is_signed t"
  shows "cast (make_signed t) ((cast (make_unsigned t) a XOR cast (make_unsigned t) b) AND (cast (make_unsigned t) c XOR cast (make_unsigned t) d)) < 0
    \<longleftrightarrow> (cast t a < 0) \<noteq> (cast t b < 0) \<and> (cast t c < 0) \<noteq> (cast t d < 0)"
proof -
  have "bits t - 1 < bits (make_unsigned t)" using bits_pos [of t] by simp
  then show ?thesis by (simp only: make_signed_id(1) [OF assms] cast_signed_negative [OF assms] bit_and_iff bit_xor_iff bit_cast)
qed

lemma CheckedAddImpl_exact:
  assumes "in_type t x" and "in_type t y"
  shows "CheckedAddImpl t x y r = (if in_type t (x + y) then (True, x + y) else (False, r))"
proof (cases "is_signed t")
  case True
  have e: "(cast t (x + y) < 0) \<noteq> (cast t x < 0) \<and> (cast t (x + y) < 0) \<noteq> (cast t y < 0) \<longleftrightarrow> \<not> in_type t (x + y)"
    unfolding sum_sign [OF True assms] cast_id [OF assms(1)] cast_id [OF assms(2)] by blast
  show ?thesis unfolding CheckedAddImpl_def Let_def cast_unsigned_sum sign_test [OF True] e
    using True by simp
next
  case False
  have u: "cast t (cast t x + cast t y) = cast t (x + y)" using assms by simp
  show ?thesis unfolding CheckedAddImpl_def Let_def make_signed_id(2) [OF False] u
    using False assms unsigned_sum_wraps [OF False assms] by auto
qed

lemma CheckedSubImpl_exact:
  assumes "in_type t x" and "in_type t y"
  shows "CheckedSubImpl t x y r = (if in_type t (x - y) then (True, x - y) else (False, r))"
proof (cases "is_signed t")
  case True
  have e: "(cast t (x - y) < 0) \<noteq> (cast t x < 0) \<and> (cast t x < 0) \<noteq> (cast t y < 0) \<longleftrightarrow> \<not> in_type t (x - y)"
    unfolding difference_sign [OF True assms] cast_id [OF assms(1)] cast_id [OF assms(2)] by blast
  show ?thesis unfolding CheckedSubImpl_def Let_def cast_unsigned_diff sign_test [OF True] e
    using True by simp
next
  case False
  then have "x < y \<longleftrightarrow> \<not> in_type t (x - y)" using assms by (auto simp: in_type_bits)
  moreover have u: "cast t (cast t x - cast t y) = cast t (x - y)" using assms by simp
  ultimately show ?thesis unfolding CheckedSubImpl_def Let_def make_signed_id(2) [OF False] u
    using False assms by auto
qed

lemma product_sign: "is_signed t \<Longrightarrow> in_type t x \<Longrightarrow> in_type t y \<Longrightarrow> cast (make_signed t) (x XOR y) < 0 \<longleftrightarrow> (x < 0) \<noteq> (y < 0)"
  by (simp only: make_signed_id(1) cast_signed_negative bit_xor_iff sign_bit)

lemma div_less_iff:
  assumes "0 < (b::int)" shows "m div b < a \<longleftrightarrow> m < a * b"
proof
  assume "m div b < a"
  then have "(m div b + 1) * b \<le> a * b" using assms by (intro mult_right_mono) auto
  moreover have "m = (m div b) * b + m mod b" "m mod b < b" using assms by simp_all
  ultimately show "m < a * b" unfolding distrib_right by linarith
next
  assume *: "m < a * b"
  show "m div b < a"
  proof (rule ccontr)
    assume "\<not> m div b < a"
    then have "a * b \<le> (m div b) * b" using assms by (intro mult_right_mono) auto
    moreover have "m = (m div b) * b + m mod b" "0 \<le> m mod b" using assms by simp_all
    ultimately show False using * by linarith
  qed
qed

lemma unsigned_room: "highest t + of_bool (is_signed t) \<le> highest (make_unsigned t)"
  by (cases t) simp_all

lemma CheckedMulImpl_exact:
  assumes x: "in_type t x" and y: "in_type t y"
  shows "CheckedMulImpl t x y r = (if in_type t (x * y) then (True, x * y) else (False, r))"
proof -
  define neg where "neg \<longleftrightarrow> is_signed t \<and> (x < 0) \<noteq> (y < 0)"
  define h where "h = highest t + of_bool neg"
  have pos: "\<not> is_signed t \<Longrightarrow> 0 \<le> x \<and> 0 \<le> y" using x y unsigned_range [of t] by (auto simp: in_type_def)
  have sgn: "x * y = (if neg then - (\<bar>x\<bar> * \<bar>y\<bar>) else \<bar>x\<bar> * \<bar>y\<bar>)"
    using pos unfolding neg_def by (cases "is_signed t"; cases "x < 0"; cases "y < 0") auto
  have h: "cast (common_type t (make_unsigned t)) h = h"
  proof -
    have "in_type (make_unsigned t) h" "0 \<le> h"
      using unsigned_room [of t] lowest_nonpos [of t] unsigned_range [of "make_unsigned t"]
      by (cases "is_signed t"; auto simp: h_def neg_def in_type_def)+
    then show ?thesis using common_nonneg(2) [of h "make_unsigned t" t] by simp
  qed
  have it: "in_type t (x * y) \<longleftrightarrow> \<bar>x\<bar> * \<bar>y\<bar> \<le> h"
  proof (cases neg)
    case True
    then have "lowest t = - h" using signed_range [of t] by (simp add: neg_def h_def)
    moreover have "0 \<le> \<bar>x\<bar> * \<bar>y\<bar>" "x * y = - (\<bar>x\<bar> * \<bar>y\<bar>)" using True sgn by simp_all
    ultimately show ?thesis using lowest_nonpos [of t] by (simp only: in_type_def) linarith
  next
    case False
    then have "0 \<le> \<bar>x\<bar> * \<bar>y\<bar>" "x * y = \<bar>x\<bar> * \<bar>y\<bar>" "h = highest t" using sgn by (simp_all add: h_def)
    then show ?thesis using lowest_nonpos [of t] by (simp only: in_type_def) linarith
  qed
  have ok: "\<bar>y\<bar> > of_bool (\<not> is_signed t \<or> neg) \<and> \<bar>x\<bar> > h div \<bar>y\<bar> \<longleftrightarrow> \<not> in_type t (x * y)"
  proof (cases "\<bar>y\<bar> > of_bool (\<not> is_signed t \<or> neg)")
    case True
    then have "0 < \<bar>y\<bar>" by (cases "\<not> is_signed t \<or> neg") auto
    then show ?thesis using True it div_less_iff [of "\<bar>y\<bar>" h "\<bar>x\<bar>"] by auto
  next
    case False
    then have "\<bar>y\<bar> = 0 \<or> \<bar>y\<bar> = 1 \<and> (\<not> is_signed t \<or> neg)" by (cases "\<not> is_signed t \<or> neg") auto
    moreover have "\<bar>x\<bar> \<le> h" if "\<not> is_signed t \<or> neg"
      using that x pos signed_range [of t] by (auto simp: h_def in_type_def neg_def)
    moreover have "0 \<le> h" using lowest_nonpos [of t] by (simp add: h_def)
    ultimately show ?thesis using False it by auto
  qed
  have res: "cast t (if neg then 0 - cast (make_unsigned t) (\<bar>x\<bar> * \<bar>y\<bar>) else cast (make_unsigned t) (\<bar>x\<bar> * \<bar>y\<bar>)) = cast t (x * y)"
  proof (rule cast_cong)
    have "take_bit (bits t) (- cast (make_unsigned t) z) = take_bit (bits t) (- z)" for z
      by (metis take_bit_minus take_bit_cast bits_make(1))
    then show "take_bit (bits t) (if neg then 0 - cast (make_unsigned t) (\<bar>x\<bar> * \<bar>y\<bar>) else cast (make_unsigned t) (\<bar>x\<bar> * \<bar>y\<bar>)) = take_bit (bits t) (x * y)"
      unfolding sgn by auto
  qed
  have n: "(is_signed t \<and> cast (make_signed t) (x XOR y) < 0) = neg"
    using product_sign [of t x y] x y by (auto simp: neg_def)
  show ?thesis unfolding CheckedMulImpl_def Let_def SafeUnsignedAbs_eq [OF x] SafeUnsignedAbs_eq [OF y] n
    h_def [symmetric] h ok res by auto
qed

section \<open>The operations are exact\<close>

lemma magnitude_bound: "in_type t v \<Longrightarrow> \<bar>v\<bar> \<le> magnitude t"
  by (auto simp: in_type_def magnitude_def)

lemma magnitude_values: "magnitude Int8 = 128" "magnitude Int16 = 32768" "magnitude Int32 = 2147483648"
  "magnitude Int64 = 9223372036854775808" "magnitude UInt8 = 255" "magnitude UInt16 = 65535"
  "magnitude UInt32 = 4294967295" "magnitude UInt64 = 18446744073709551615"
  by (simp_all add: magnitude_def)

lemma WordPromotion_eq: "WordPromotion t u = FastIntegerArithmeticPromotion t u"
proof -
  have "\<not> bits p > bits Int64" for p by (cases p) (simp_all add: bits_def)
  then show ?thesis unfolding WordPromotion_def Let_def IntegerBitsPlusSign_eq by (simp only: if_False)
qed

text \<open>A promotion that is wide enough holds every sum, difference and product; an unsigned one wraps a negative
  difference above the range of both operand types.\<close>

lemma Fast_safe:
  assumes "IsIntegerArithmeticSafe (FastIntegerArithmeticPromotion t u) t u"
  shows "magnitude t * magnitude u \<le> highest (FastIntegerArithmeticPromotion t u)
    \<and> magnitude t + magnitude u \<le> highest (FastIntegerArithmeticPromotion t u)
    \<and> 2 * magnitude t \<le> highest (FastIntegerArithmeticPromotion t u)
    \<and> 2 * magnitude u \<le> highest (FastIntegerArithmeticPromotion t u)
    \<and> contained (FastIntegerArithmeticPromotion t u) t \<and> contained (FastIntegerArithmeticPromotion t u) u
    \<and> (if is_signed (FastIntegerArithmeticPromotion t u)
       then lowest (FastIntegerArithmeticPromotion t u) = - highest (FastIntegerArithmeticPromotion t u) - 1
       else \<not> is_signed t \<and> \<not> is_signed u)"
  using assms by (cases t; cases u; simp add: promotion_defs magnitude_values)

lemma Fast_unsafe:
  "\<not> IsIntegerArithmeticSafe (FastIntegerArithmeticPromotion t u) t u \<Longrightarrow>
   FastIntegerArithmeticPromotion t u = fst (BigEnoughPromotion t u)"
  by (cases t; cases u; simp add: promotion_defs)

lemma safe_operands:
  assumes "IsIntegerArithmeticSafe p t u" "p = FastIntegerArithmeticPromotion t u" "in_type t x" "in_type u y"
  shows "in_type p x" "in_type p y" "in_type p (x + y)" "in_type p (x * y)" "is_signed p \<Longrightarrow> in_type p (x - y)"
proof -
  note f = Fast_safe [of t u, folded assms(2), OF assms(1)]
  show "in_type p x" "in_type p y" using f assms contained_in_type by blast+
  have b: "\<bar>x\<bar> \<le> magnitude t" "\<bar>y\<bar> \<le> magnitude u" using assms magnitude_bound by auto
  then have m: "\<bar>x * y\<bar> \<le> magnitude t * magnitude u" unfolding abs_mult by (intro mult_mono) auto
  have pos: "0 \<le> x \<and> 0 \<le> y \<and> 0 \<le> x * y" if "\<not> is_signed p"
    using that f assms by (auto simp: in_type_def unsigned_range)
  show "in_type p (x + y)" "in_type p (x * y)"
    using f b m pos by (cases "is_signed p"; auto simp: in_type_def unsigned_range)+
  show "is_signed p \<Longrightarrow> in_type p (x - y)" using f b by (auto simp: in_type_def)
qed

lemma CheckedAddOp_exact:
  assumes x: "in_type t x" and y: "in_type u y" and p_def: "p = FastIntegerArithmeticPromotion t u"
  shows "CheckedAddOp c t u v x y r =
    (if in_type v (x + y) \<and> (c = Portable \<longrightarrow> in_type p x \<and> in_type p y \<and> in_type p (x + y)) then (True, x + y)
     else (False, if c = Portable then r else cast v (x + y)))"
proof (cases "c = Portable")
  case False
  then show ?thesis by (simp add: CheckedAddOp_def CheckedAddFastOp_supported_def builtin_no_overflow_def)
next
  case pt: True
  show ?thesis
  proof (cases "IsIntegerArithmeticSafe p t u")
    case safe: True
    note s = safe_operands [OF safe p_def x y]
    show ?thesis using pt safe s x y
      by (simp add: CheckedAddOp_def CheckedAddFastOp_supported_def WordPromotion_eq p_def [symmetric] Let_def IsValueInRange_iff)
  next
    case False
    then show ?thesis using pt x y
      by (auto simp: CheckedAddOp_def CheckedAddFastOp_supported_def WordPromotion_eq p_def [symmetric] Let_def
          IsValueInRange_iff CheckedAddImpl_exact)
  qed
qed

text \<open>A negative difference of unsigned operands, wrapped in the wider type, is above the range of the result.\<close>

lemma negative_difference:
  assumes "IsIntegerArithmeticSafe p t u" and p: "p = FastIntegerArithmeticPromotion t u" and x: "in_type t x" and y: "in_type u y"
    and n: "\<not> in_type p (x - y)" and v: "v = t \<or> v = MaxExponentPromotion t u"
  shows "\<not> in_type v (x - y) \<and> \<not> in_type v (cast p (x - y))"
proof -
  note f = Fast_safe [of t u, folded p, OF assms(1)] and s = safe_operands [OF assms(1-4)]
  have u: "\<not> is_signed p" using s(5) n by blast
  then have us: "\<not> is_signed t" "\<not> is_signed u" using f by auto
  then have nv: "\<not> is_signed v" using v MaxExponentPromotion_cases [of t u] by auto
  have pos: "0 \<le> x" "0 \<le> y" "y \<le> highest u" using x y us by (auto simp: in_type_def unsigned_range)
  have lt: "x - y < 0" using n s(1) pos by (auto simp: in_type_def unsigned_range u)
  have "cast p (x - y) = cast p (x - y + 2 ^ bits p)" by (rule cast_cong) (simp add: take_bit_eq_mod)
  moreover have "in_type p (x - y + 2 ^ bits p)" using lt pos s(2) u by (auto simp: in_type_bits)
  ultimately have c: "cast p (x - y) = x - y + highest p + 1" using u by (simp add: limits_bits)
  have "highest v + highest u \<le> highest p"
    using v f MaxExponentPromotion_cases [of t u] by (auto simp: magnitude_def)
  then show ?thesis using c lt pos nv by (auto simp: in_type_def unsigned_range)
qed

lemma CheckedSubOp_exact:
  assumes x: "in_type t x" and y: "in_type u y" and p_def: "p = FastIntegerArithmeticPromotion t u"
    and v: "v = t \<or> v = MaxExponentPromotion t u"
  shows "CheckedSubOp c t u v x y r =
    (if in_type v (x - y) \<and> (c = Portable \<longrightarrow> in_type p x \<and> in_type p y \<and> in_type p (x - y)) then (True, x - y)
     else (False, if c = Portable then r else cast v (x - y)))"
proof (cases "c = Portable")
  case False
  then show ?thesis by (simp add: CheckedSubOp_def CheckedSubFastOp_supported_def builtin_no_overflow_def)
next
  case pt: True
  show ?thesis
  proof (cases "IsIntegerArithmeticSafe p t u")
    case safe: True
    note s = safe_operands [OF safe p_def x y]
    show ?thesis
    proof (cases "in_type p (x - y)")
      case True
      then show ?thesis using pt safe s x y
        by (simp add: CheckedSubOp_def CheckedSubFastOp_supported_def WordPromotion_eq p_def [symmetric] Let_def IsValueInRange_iff)
    next
      case False
      have "\<not> in_type v (x - y)" "\<not> in_type v (cast p (x - y))"
        using negative_difference [OF safe p_def x y False v] by auto
      then show ?thesis using pt safe s x y False cast_in_type [of p "x - y"]
        by (simp add: CheckedSubOp_def CheckedSubFastOp_supported_def WordPromotion_eq p_def [symmetric] Let_def IsValueInRange_iff)
    qed
  next
    case False
    then show ?thesis using pt x y
      by (auto simp: CheckedSubOp_def CheckedSubFastOp_supported_def WordPromotion_eq p_def [symmetric] Let_def
          IsValueInRange_iff CheckedSubImpl_exact)
  qed
qed

lemma supported_promotion: "CheckedMulFastOp_supported c p p \<longleftrightarrow> c \<noteq> Portable"
  by (cases c; cases p; simp add: CheckedMulFastOp_supported_def contained_def MaxExponent_def digits_values)

lemma CheckedMulOp_exact:
  assumes x: "in_type t x" and y: "in_type u y" and p_def: "p = FastIntegerArithmeticPromotion t u"
  shows "CheckedMulOp c t u v x y r =
    (if in_type v (x * y) \<and> (CheckedMulFastOp_supported c t u \<or> x = 0 \<or> y = 0 \<or> in_type p x \<and> in_type p y \<and> in_type p (x * y))
     then (True, x * y) else (False, if CheckedMulFastOp_supported c t u then cast v (x * y) else r))"
proof (cases "CheckedMulFastOp_supported c t u")
  case True
  then show ?thesis by (simp add: CheckedMulOp_def builtin_no_overflow_def)
next
  case ns: False
  define inner where "inner = (if CheckedMulFastOp_supported c p p then builtin_no_overflow p (cast p x * cast p y)
                    else if IsIntegerArithmeticSafe p t u then (True, cast p (cast p x * cast p y))
                    else CheckedMulImpl p (cast p x) (cast p y) 0)"
  have op: "CheckedMulOp c t u v x y r =
      (if (\<not> in_type p x \<or> \<not> in_type p y) \<and> x \<noteq> 0 \<and> y \<noteq> 0 then (False, r)
       else if \<not> fst inner \<or> \<not> IsValueInRange v p (snd inner) then (False, r) else (True, cast v (snd inner)))"
    unfolding CheckedMulOp_def Let_def p_def [symmetric] IsValueInRange_iff [OF x] IsValueInRange_iff [OF y]
      inner_def [symmetric] case_prod_beta using ns by (simp only: if_False)
  show ?thesis
  proof (cases "(\<not> in_type p x \<or> \<not> in_type p y) \<and> x \<noteq> 0 \<and> y \<noteq> 0")
    case True
    then show ?thesis using op ns by auto
  next
    case False
    have z: "cast p 0 = 0" using lowest_nonpos [of p] by (intro cast_id) (simp add: in_type_def)
    then have e: "cast p x * cast p y = x * y" using False by auto
    have "in_type p (cast p x)" "in_type p (cast p y)" by (rule cast_in_type)+
    then have i: "fst inner \<longleftrightarrow> in_type p (x * y)" "fst inner \<Longrightarrow> snd inner = x * y"
      using safe_operands(4) [OF _ p_def x y] unfolding inner_def builtin_no_overflow_def
      by (auto simp: CheckedMulImpl_exact e)
    have "x = 0 \<or> y = 0 \<Longrightarrow> in_type p (x * y)" using lowest_nonpos [of p] by (auto simp: in_type_def)
    then show ?thesis using False op ns i by (auto simp: IsValueInRange_iff)
  qed
qed

lemma sdiv_range:
  assumes "in_type p x" "in_type p y" "\<not> (x = lowest p \<and> y = - 1)"
  shows "in_type p (x sdiv y)"
proof -
  have r: "- \<bar>x\<bar> \<le> x sdiv y" "x sdiv y \<le> \<bar>x\<bar>" using sdiv_int_range [of x y] by auto
  show ?thesis
  proof (cases "is_signed p")
    case False
    then have "0 \<le> x" "0 \<le> y" using assms by (auto simp: in_type_def unsigned_range)
    then have "0 \<le> x sdiv y" by (simp add: signed_divide_int_eq_divide_int pos_imp_zdiv_nonneg_iff div_int_pos_iff)
    then show ?thesis using r assms(1) False \<open>0 \<le> x\<close> by (auto simp: in_type_def unsigned_range)
  next
    case True
    have "x sdiv y \<le> highest p"
    proof (rule ccontr)
      assume "\<not> x sdiv y \<le> highest p"
      then have x: "x = lowest p" "x sdiv y = - x"
        using r assms(1) signed_range [OF True] unfolding in_type_def by linarith+
      moreover have "x \<noteq> 0" using x signed_range [OF True] lowest_nonpos [of p] by auto
      ultimately show False using assms(3) int_sdiv_negated_is_minus1 [of x y] by simp
    qed
    moreover have "lowest p \<le> x sdiv y"
      using r assms(1) signed_range [OF True] by (auto simp: in_type_def abs_if split: if_splits)
    ultimately show ?thesis by (simp add: in_type_def)
  qed
qed

lemma lowest_by_minus_one_iff:
  assumes x: "in_type t x" and y: "in_type u y" and p: "p = fst (BigEnoughPromotion t u)" and "in_type p x" "in_type p y"
  shows "lowest_by_minus_one p t u x y \<longleftrightarrow> x = lowest p \<and> y = - 1"
proof
  assume "lowest_by_minus_one p t u x y"
  moreover have "is_signed u \<Longrightarrow> in_type u (- 1)" by (cases u) (simp_all add: in_type_def)
  ultimately show "x = lowest p \<and> y = - 1" using assms by (auto simp: lowest_by_minus_one_def)
next
  assume *: "x = lowest p \<and> y = - 1"
  then have u: "is_signed u" "is_signed p" using y assms(5) unsigned_range [of u] unsigned_range [of p] by (auto simp: in_type_def)
  moreover have "is_signed t" using * x u signed_range [of p] lowest_nonpos [of p] unsigned_range [of t] by (auto simp: in_type_def)
  moreover have "contained t p" using * x signed_range \<open>is_signed t\<close> u by (auto simp: contained_iff in_type_def)
  ultimately show "lowest_by_minus_one p t u x y" using * assms by (auto simp: lowest_by_minus_one_def)
qed

lemma lowest_by_minus_one_promotion:
  assumes x: "in_type t x" and l: "lowest_by_minus_one p t u x y" and p: "p = fst (BigEnoughPromotion t u)"
    and v: "v = t \<or> v = MaxExponentPromotion t u"
  shows "in_type p x" "is_signed p" "highest v \<le> highest p" "y = - 1" "x = lowest p"
proof -
  have s: "is_signed t" "is_signed u" "contained t p" "cast p x = lowest p" "y = cast u (- 1)"
    using l by (auto simp: lowest_by_minus_one_def)
  have c: "contained p t \<and> contained p u"
    by (cases rule: BigEnoughPromotion_cases [of t u]) (use s p in auto)
  show i: "in_type p x" using c x contained_in_type by blast
  have m: "is_signed a \<Longrightarrow> in_type a (- 1)" for a by (cases a) (simp_all add: in_type_def)
  then have "in_type p (- 1)" using s(1) c contained_in_type by blast
  then show "is_signed p" using unsigned_range [of p] by (auto simp: in_type_def)
  show "highest v \<le> highest p" using v c MaxExponentPromotion_max [of t u] by (auto simp: contained_iff)
  show "y = - 1" using s m by simp
  show "x = lowest p" using s i by simp
qed

lemma CheckedDivOp_exact:
  assumes x: "in_type t x" and y: "in_type u y" and p: "p = fst (BigEnoughPromotion t u)"
    and v: "v = t \<or> v = MaxExponentPromotion t u"
  shows "CheckedDivOp c t u v x y r =
    (if y \<noteq> 0 \<and> (x = 0 \<or> in_type p x \<and> in_type p y) \<and> in_type v (x sdiv y) then (True, x sdiv y) else (False, r))"
proof (cases "lowest_by_minus_one p t u x y")
  case True
  note l = lowest_by_minus_one_promotion [OF x True p v]
  then have "\<not> in_type v (x sdiv y)" using signed_range [of p] by (auto simp: in_type_def)
  then show ?thesis using True by (simp add: CheckedDivOp_def p [symmetric] Let_def)
next
  case False
  have z: "cast p 0 = 0" "in_type v 0" "in_type p 0" using lowest_nonpos [of p] lowest_nonpos [of v] by (simp_all add: in_type_def)
  have "in_type p (x sdiv y)" if "in_type p x" "in_type p y"
    using False lowest_by_minus_one_iff [OF x y p that] that by (intro sdiv_range) auto
  then show ?thesis using False x y z
    by (auto simp: CheckedDivOp_def p [symmetric] Let_def IsValueInRange_iff)
qed

lemma smod_between: "min 0 x \<le> x smod y" "x smod y \<le> max 0 x" for x :: int
proof -
  have "0 \<le> \<bar>x\<bar> mod \<bar>y\<bar> \<and> \<bar>x\<bar> mod \<bar>y\<bar> \<le> \<bar>x\<bar>"
    using zmod_le_nonneg_dividend [of "\<bar>x\<bar>" "\<bar>y\<bar>"] by (cases "y = 0") auto
  then show "min 0 x \<le> x smod y" "x smod y \<le> max 0 x" by (auto simp: smod_int_alt_def sgn_if)
qed

lemma CheckedModOp_exact:
  assumes x: "in_type t x" and y: "in_type u y" and p: "p = fst (BigEnoughPromotion t u)" and px: "in_type p x" "in_type p y"
  shows "CheckedModOp c t u v x y r = (if y \<noteq> 0 \<and> in_type v (x smod y) then (True, x smod y) else (False, r))"
proof (cases "lowest_by_minus_one p t u x y")
  case True
  then have "y = - 1" using lowest_by_minus_one_iff [OF x y p px] by simp
  then have "x smod y = 0" by (simp add: smod_int_alt_def)
  moreover have "in_type v 0" using lowest_nonpos [of v] by (simp add: in_type_def)
  ultimately show ?thesis using True \<open>y = - 1\<close> by (simp add: CheckedModOp_def p [symmetric] Let_def)
next
  case False
  have "in_type p (x smod y)" using px smod_between [of x y] lowest_nonpos [of p] by (auto simp: in_type_def min_def max_def split: if_splits)
  then show ?thesis using False px by (simp add: CheckedModOp_def p [symmetric] Let_def IsValueInRange_iff)
qed

lemma in_type_0: "in_type t 0"
  using lowest_nonpos [of t] by (simp add: in_type_def)

lemma as_unsigned_small:
  assumes "in_type u s" and "k \<le> 64"
  shows "as_unsigned u s < k \<longleftrightarrow> 0 \<le> s \<and> s < k" and "as_unsigned u s = k \<longleftrightarrow> s = k \<and> 0 \<le> k"
proof -
  have "(2::int) ^ 7 \<le> 2 ^ (bits u - 1)" by (rule power_increasing; cases u; simp add: bits_def)
  then have "s < 0 \<Longrightarrow> 128 \<le> s + 2 ^ bits u"
    using assms(1) bits_double [of u] by (auto simp: in_type_bits split: if_splits)
  then show "as_unsigned u s < k \<longleftrightarrow> 0 \<le> s \<and> s < k" and "as_unsigned u s = k \<longleftrightarrow> s = k \<and> 0 \<le> k"
    using assms by (auto simp: as_unsigned_neg)
qed

lemma digits_le: "digits t \<le> bits t" "bits t \<le> 64" "int (digits t) \<le> 64"
  by (cases t; simp add: digits_def bits_def)+

lemma drop_bit_range: "in_type t x \<Longrightarrow> in_type t (drop_bit n x)"
proof -
  assume x: "in_type t x"
  have "min x 0 \<le> x div 2 ^ n" "x div 2 ^ n \<le> max x 0"
  proof -
    have "\<bar>x\<bar> div 2 ^ n \<le> \<bar>x\<bar>" using zdiv_mono2 [of "\<bar>x\<bar>" 1 "2 ^ n"] by simp
    show "min x 0 \<le> x div 2 ^ n"
    proof (cases "x < 0")
      case True
      have "x * 2 ^ n \<le> x" using True mult_left_mono_neg [of 1 "2 ^ n" x] by simp
      then have "x * 2 ^ n div 2 ^ n \<le> x div 2 ^ n" by (intro zdiv_mono1) auto
      then show ?thesis by simp
    qed (simp add: pos_imp_zdiv_nonneg_iff)
    show "x div 2 ^ n \<le> max x 0"
      using \<open>\<bar>x\<bar> div 2 ^ n \<le> \<bar>x\<bar>\<close> div_neg_pos_less0 [of x "2 ^ n"] by (cases "x < 0") auto
  qed
  then show ?thesis using x lowest_nonpos [of t] by (auto simp: in_type_def drop_bit_eq_div min_def max_def split: if_splits)
qed

lemma shift_back:
  assumes "n \<le> bits t"
  shows "drop_bit n (cast t (x * 2 ^ n)) = x \<longleftrightarrow> in_type t (x * 2 ^ n)"
proof
  let ?r = "cast t (x * 2 ^ n)"
  assume d: "drop_bit n ?r = x"
  have "take_bit n ?r = take_bit n (x * 2 ^ n)" by (rule take_bit_cast_le) (rule assms)
  then have "?r mod 2 ^ n = 0" by (simp add: take_bit_eq_mod)
  then have "?r = x * 2 ^ n" using d mult_div_mod_eq [of "2 ^ n" ?r] by (simp add: drop_bit_eq_div mult.commute)
  then show "in_type t (x * 2 ^ n)" by (metis cast_in_type)
qed (simp add: drop_bit_eq_div)

lemma CheckedLshOp_exact:
  assumes x: "in_type t x" and s: "in_type u s" and r: "in_type t r"
  shows "\<exists>z. in_type t z \<and> CheckedLshOp c t u t x s r =
    (if 0 \<le> x \<and> 0 \<le> s \<and> (s < int (digits t) \<or> is_signed t \<and> x = 0 \<and> s = int (digits t)) \<and> in_type t (x * 2 ^ nat s)
     then (True, x * 2 ^ nat s) else (False, z))"
proof -
  let ?P = "promote (make_unsigned t)"
  note sm = as_unsigned_small [OF s digits_le(3) [of t]]
  have w: "bits t \<le> bits ?P" by (cases t) (simp_all add: promote_def bits_def)
  have neg: "IsValueNegative t x \<longleftrightarrow> x < 0" using x by (rule IsValueNegative_iff)
  show ?thesis
  proof (cases "0 \<le> x \<and> 0 \<le> s \<and> s < int (digits t)")
    case True
    let ?r = "cast t (x * 2 ^ nat s)"
    have "cast t (cast ?P (x * 2 ^ nat s)) = ?r" by (rule cast_cong) (rule take_bit_cast_le [OF w])
    moreover have "push_bit (nat s) (as_unsigned t x) = x * 2 ^ nat s"
      using True as_unsigned_neg [OF x] by (simp add: push_bit_eq_mult)
    moreover have "cast (common_type t t) z = z" if "in_type t z" for z
      using in_common_same_sign(1) [OF refl that] by simp
    moreover have "in_type t (drop_bit (nat s) ?r)" by (rule drop_bit_range) (rule cast_in_type)
    moreover have "nat s \<le> bits t" using True digits_le(1) [of t] by linarith
    ultimately have "CheckedLshOp c t u t x s r = (in_type t (x * 2 ^ nat s), ?r)"
      using True neg sm x shift_back [of "nat s" t x] by (simp add: CheckedLshOp_def Let_def)
    then show ?thesis using True cast_in_type [of t "x * 2 ^ nat s"] by (auto intro!: exI [of _ ?r])
  next
    case False
    then have "\<not> (\<not> IsValueNegative t x \<and> as_unsigned u s < int (digits t))" using neg sm by auto
    moreover have e: "as_unsigned u s = int (digits t) \<longleftrightarrow> s = int (digits t)" using sm by simp
    ultimately have "CheckedLshOp c t u t x s r = (if \<not> is_signed t \<or> x \<noteq> 0 \<or> s \<noteq> int (digits t) then (False, r) else (True, 0))"
      unfolding CheckedLshOp_def e by (simp only: if_False)
    then show ?thesis using False r in_type_0 [of t] by (intro exI [of _ r]) auto
  qed
qed

lemma CheckedRshOp_exact:
  assumes x: "in_type t x" and s: "in_type u s"
  shows "CheckedRshOp c t u t x s r = (if 0 \<le> s \<and> s < int (bits t) then (True, x div 2 ^ nat s) else (False, r))"
proof -
  have "as_unsigned u s < int (bits t) \<longleftrightarrow> 0 \<le> s \<and> s < int (bits t)"
    using digits_le(2) [of t] by (intro as_unsigned_small [OF s]) simp
  then show ?thesis using drop_bit_range [OF x, of "nat s"]
    by (auto simp: CheckedRshOp_def IntegerBitsPlusSign_eq Let_def IsValueInRange_iff drop_bit_eq_div not_less)
qed

lemma CheckedMaxOp_exact:
  assumes x: "in_type t x" and y: "in_type u y"
  shows "CheckedMaxOp c t u v x y r = (if in_type v (max x y) then (True, max x y) else (False, r))"
proof -
  let ?m = "MaxExponentPromotion t u"
  have "lowest ?m \<le> max x y" using x y MaxExponentPromotion_cases [of t u] by (auto simp: in_type_def)
  then have m: "in_type ?m (max x y)" using x y MaxExponentPromotion_max [of t u] by (auto simp: in_type_def)
  have tmp: "(if IsGreater t x u y then cast ?m x else cast ?m y) = max x y"
    using m unfolding compare_exact(3) [OF x y] by (auto simp: max_def split: if_splits)
  show ?thesis unfolding CheckedMaxOp_def Let_def tmp using m by (auto simp: IsValueInRange_iff)
qed

lemma CheckedMinOp_exact:
  assumes x: "in_type t x" and y: "in_type u y"
  shows "CheckedMinOp c t u v x y r = (if in_type v (min x y) then (True, min x y) else (False, r))"
proof -
  let ?m = "LowestValuePromotion t u"
  have m: "in_type ?m (min x y)"
    using x y LowestValuePromotion_min [of t u] LowestValuePromotion_high [of t u] by (auto simp: in_type_def min_def split: if_splits)
  have tmp: "(if IsLess t x u y then cast ?m x else cast ?m y) = min x y"
    using m unfolding compare_exact(1) [OF x y] by (auto simp: min_def split: if_splits)
  show ?thesis unfolding CheckedMinOp_def Let_def tmp using m by (auto simp: IsValueInRange_iff)
qed

end
