(* ===== verification/Span.thy ===== *)
theory Span
  imports CheckedMath
begin

text \<open>
  base/containers/span.h, checked_iterators.h and buffer_iterator.h: views of an array with checked access. The array is
  a list of elements; a pointer into it is an index, and pointer arithmetic that leaves the array is a fault. Sizes are
  natural numbers below \<open>2 ^ 64\<close>; \<open>dynamic_extent\<close> is the largest \<open>size_t\<close>. A difference is a \<open>ptrdiff_t\<close>.
\<close>

section \<open>CheckedContiguousIterator\<close>

record checked_iterator =
  ci_start :: nat
  ci_current :: nat
  ci_end :: nat

definition checked_iterator_at :: "nat \<Rightarrow> nat \<Rightarrow> nat \<Rightarrow> checked_iterator res" where
  "checked_iterator_at s c e =
     check (s \<le> c) (check (c \<le> e) (Inr \<lparr>ci_start = s, ci_current = c, ci_end = e\<rparr>))"

definition checked_iterator_new :: "nat \<Rightarrow> nat \<Rightarrow> checked_iterator res" where
  "checked_iterator_new s e = checked_iterator_at s s e"

definition checked_iterator_convert :: "checked_iterator \<Rightarrow> checked_iterator res" where
  "checked_iterator_convert other =
     dcheck (ci_start other \<le> ci_current other) (dcheck (ci_current other \<le> ci_end other) (Inr other))"

definition CheckComparable :: "checked_iterator \<Rightarrow> checked_iterator \<Rightarrow> 'a res \<Rightarrow> 'a res" where
  "CheckComparable a b r = check (ci_start a = ci_start b) (check (ci_end a = ci_end b) r)"

definition ci_eq :: "checked_iterator \<Rightarrow> checked_iterator \<Rightarrow> bool res" where
  "ci_eq lhs rhs = CheckComparable lhs rhs (Inr (ci_current lhs = ci_current rhs))"

definition ci_neq :: "checked_iterator \<Rightarrow> checked_iterator \<Rightarrow> bool res" where
  "ci_neq lhs rhs = CheckComparable lhs rhs (Inr (ci_current lhs \<noteq> ci_current rhs))"

definition ci_less :: "checked_iterator \<Rightarrow> checked_iterator \<Rightarrow> bool res" where
  "ci_less lhs rhs = CheckComparable lhs rhs (Inr (ci_current lhs < ci_current rhs))"

definition ci_le :: "checked_iterator \<Rightarrow> checked_iterator \<Rightarrow> bool res" where
  "ci_le lhs rhs = CheckComparable lhs rhs (Inr (ci_current lhs \<le> ci_current rhs))"

definition ci_greater :: "checked_iterator \<Rightarrow> checked_iterator \<Rightarrow> bool res" where
  "ci_greater lhs rhs = CheckComparable lhs rhs (Inr (ci_current lhs > ci_current rhs))"

definition ci_ge :: "checked_iterator \<Rightarrow> checked_iterator \<Rightarrow> bool res" where
  "ci_ge lhs rhs = CheckComparable lhs rhs (Inr (ci_current lhs \<ge> ci_current rhs))"

definition ci_inc :: "checked_iterator \<Rightarrow> checked_iterator res" where
  "ci_inc it = check (ci_current it \<noteq> ci_end it) (Inr (it\<lparr>ci_current := ci_current it + 1\<rparr>))"

definition ci_dec :: "checked_iterator \<Rightarrow> checked_iterator res" where
  "ci_dec it = check (ci_current it \<noteq> ci_start it) (Inr (it\<lparr>ci_current := ci_current it - 1\<rparr>))"

text \<open>Negation of the smallest \<open>ptrdiff_t\<close> overflows.\<close>

definition ptrdiff_min :: int where "ptrdiff_min = - (2 ^ 63)"

definition ptrdiff_neg :: "int \<Rightarrow> (int \<Rightarrow> 'a res) \<Rightarrow> 'a res" where
  "ptrdiff_neg d k = guardr SignedOverflow (d \<noteq> ptrdiff_min) (k (- d))"

definition ci_set :: "int \<Rightarrow> checked_iterator \<Rightarrow> checked_iterator res" where
  "ci_set p it = guardr OutOfRange (0 \<le> p) (Inr (it\<lparr>ci_current := nat p\<rparr>))"

definition ci_plus :: "int \<Rightarrow> checked_iterator \<Rightarrow> checked_iterator res" where
  "ci_plus rhs it =
     (if rhs > 0 then check (rhs \<le> int (ci_end it) - int (ci_current it)) (ci_set (int (ci_current it) + rhs) it)
      else ptrdiff_neg rhs (\<lambda>n. check (n \<le> int (ci_current it) - int (ci_start it)) (ci_set (int (ci_current it) + rhs) it)))"

definition ci_minus :: "int \<Rightarrow> checked_iterator \<Rightarrow> checked_iterator res" where
  "ci_minus rhs it =
     (if rhs < 0 then
        ptrdiff_neg rhs (\<lambda>n. check (n \<le> int (ci_end it) - int (ci_current it)) (ci_set (int (ci_current it) - rhs) it))
      else check (rhs \<le> int (ci_current it) - int (ci_start it)) (ci_set (int (ci_current it) - rhs) it))"

definition ci_difference :: "checked_iterator \<Rightarrow> checked_iterator \<Rightarrow> int res" where
  "ci_difference lhs rhs = CheckComparable lhs rhs (Inr (int (ci_current lhs) - int (ci_current rhs)))"

definition read_at :: "'a list \<Rightarrow> nat \<Rightarrow> 'a res" where
  "read_at mem p = guardr OutOfRange (p < length mem) (Inr (mem ! p))"

definition ci_deref :: "'a list \<Rightarrow> checked_iterator \<Rightarrow> 'a res" where
  "ci_deref mem it = check (ci_current it \<noteq> ci_end it) (read_at mem (ci_current it))"

definition ci_index :: "'a list \<Rightarrow> int \<Rightarrow> checked_iterator \<Rightarrow> 'a res" where
  "ci_index mem rhs it =
     check (rhs \<ge> 0) (check (rhs < int (ci_end it) - int (ci_current it)) (read_at mem (ci_current it + nat rhs)))"

definition IsRangeMoveSafe :: "checked_iterator \<Rightarrow> checked_iterator \<Rightarrow> checked_iterator \<Rightarrow> bool res" where
  "IsRangeMoveSafe from_begin from_end to =
     rbind (ci_less from_end from_begin) (\<lambda>b.
     if b then Inr False
     else rbind (ci_difference from_end from_begin) (\<lambda>n. rbind (ci_plus n to) (\<lambda>to_end.
       Inr (ci_current to \<ge> ci_current from_end \<or> ci_current to_end \<le> ci_current from_begin))))"

section \<open>span\<close>

text \<open>\<open>sp_extent\<close> is the static extent, \<open>None\<close> for \<open>dynamic_extent\<close>.\<close>

record span =
  sp_extent :: "nat option"
  sp_data :: nat
  sp_size :: nat

definition dynamic_extent :: nat where
  "dynamic_extent = 2 ^ 64 - 1"

definition span_new :: "nat option \<Rightarrow> nat \<Rightarrow> nat \<Rightarrow> span res" where
  "span_new extent first count =
     check (extent = None \<or> extent = Some count) (Inr \<lparr>sp_extent = extent, sp_data = first, sp_size = count\<rparr>)"

definition span_empty :: "span" where
  "span_empty = \<lparr>sp_extent = None, sp_data = 0, sp_size = 0\<rparr>"

text \<open>The constructor from two iterators computes the size before it checks their order.\<close>

definition span_of_range :: "nat option \<Rightarrow> nat \<Rightarrow> nat \<Rightarrow> span res" where
  "span_of_range extent b e =
     rbind (span_new extent b (nat ((int e - int b) mod 2 ^ 64))) (\<lambda>s. check (b \<le> e) (Inr s))"

definition span_convert :: "nat option \<Rightarrow> span \<Rightarrow> span res" where
  "span_convert extent other = span_new extent (sp_data other) (sp_size other)"

definition span_first_n :: "nat \<Rightarrow> span \<Rightarrow> span res" where
  "span_first_n Count s = check (sp_extent s \<noteq> None \<or> Count \<le> sp_size s) (span_new (Some Count) (sp_data s) Count)"

definition span_last_n :: "nat \<Rightarrow> span \<Rightarrow> span res" where
  "span_last_n Count s =
     check (sp_extent s \<noteq> None \<or> Count \<le> sp_size s) (span_new (Some Count) (sp_data s + (sp_size s - Count)) Count)"

definition span_subspan_n :: "nat \<Rightarrow> nat \<Rightarrow> span \<Rightarrow> span res" where
  "span_subspan_n Offset Count s =
     check (sp_extent s \<noteq> None \<or> Offset \<le> sp_size s)
      (check (sp_extent s \<noteq> None \<or> Count = dynamic_extent \<or> Count \<le> sp_size s - Offset)
        (span_new (if Count \<noteq> dynamic_extent then Some Count else map_option (\<lambda>e. e - Offset) (sp_extent s))
          (sp_data s + Offset) (if Count \<noteq> dynamic_extent then Count else sp_size s - Offset)))"

definition span_first :: "nat \<Rightarrow> span \<Rightarrow> span res" where
  "span_first count s = check (count \<le> sp_size s) (span_new None (sp_data s) count)"

definition span_last :: "nat \<Rightarrow> span \<Rightarrow> span res" where
  "span_last count s = check (count \<le> sp_size s) (span_new None (sp_data s + (sp_size s - count)) count)"

definition span_subspan :: "nat \<Rightarrow> nat \<Rightarrow> span \<Rightarrow> span res" where
  "span_subspan offset count s =
     check (offset \<le> sp_size s)
      (check (count = dynamic_extent \<or> count \<le> sp_size s - offset)
        (span_new None (sp_data s + offset) (if count \<noteq> dynamic_extent then count else sp_size s - offset)))"

definition span_size_bytes :: "nat \<Rightarrow> span \<Rightarrow> nat" where
  "span_size_bytes sizeof_T s = (sp_size s * sizeof_T) mod 2 ^ 64"

definition span_is_empty :: "span \<Rightarrow> bool" where
  "span_is_empty s \<longleftrightarrow> sp_size s = 0"

definition span_at :: "'a list \<Rightarrow> nat \<Rightarrow> span \<Rightarrow> 'a res" where
  "span_at mem idx s = check (idx < sp_size s) (read_at mem (sp_data s + idx))"

definition span_front :: "'a list \<Rightarrow> span \<Rightarrow> 'a res" where
  "span_front mem s = check (sp_extent s \<noteq> None \<or> \<not> span_is_empty s) (read_at mem (sp_data s))"

definition span_back :: "'a list \<Rightarrow> span \<Rightarrow> 'a res" where
  "span_back mem s = check (sp_extent s \<noteq> None \<or> \<not> span_is_empty s) (read_at mem (sp_data s + sp_size s - 1))"

definition span_begin :: "span \<Rightarrow> checked_iterator res" where
  "span_begin s = checked_iterator_new (sp_data s) (sp_data s + sp_size s)"

definition span_end :: "span \<Rightarrow> checked_iterator res" where
  "span_end s = checked_iterator_at (sp_data s) (sp_data s + sp_size s) (sp_data s + sp_size s)"

section \<open>BufferIterator\<close>

record buffer_iterator =
  bi_buffer :: span
  bi_remaining :: span

definition buffer_iterator_new :: "span \<Rightarrow> buffer_iterator" where
  "buffer_iterator_new buffer = \<lparr>bi_buffer = buffer, bi_remaining = buffer\<rparr>"

definition bi_total_size :: "buffer_iterator \<Rightarrow> nat" where
  "bi_total_size b = sp_size (bi_buffer b)"

definition bi_position :: "buffer_iterator \<Rightarrow> nat" where
  "bi_position b =
     nat ((int (span_size_bytes 1 (bi_buffer b)) - int (span_size_bytes 1 (bi_remaining b))) mod 2 ^ 64)"

text \<open>
  \<open>CheckAdd(a, b).AssignIfValid(&size)\<close> and \<open>CheckMul(a, b).AssignIfValid(&size)\<close> for values of type \<open>size_t\<close>, with the
  overflow builtins of GCC.
\<close>

definition size_assign :: "checked_numeric \<Rightarrow> nat option" where
  "size_assign n = (case AssignIfValid UInt64 n 0 of (ok, r) \<Rightarrow> if ok then Some (nat r) else None)"

definition size_add :: "nat \<Rightarrow> nat \<Rightarrow> nat option" where
  "size_add a b = size_assign (CheckAdd Gcc (Plain UInt64 (int a)) (Plain UInt64 (int b)))"

definition size_mul :: "nat \<Rightarrow> nat \<Rightarrow> nat option" where
  "size_mul a b = size_assign (CheckMul Gcc (Plain UInt64 (int a)) (Plain UInt64 (int b)))"

text \<open>The result is the address of the object, or \<open>None\<close> for a null pointer.\<close>

definition MutableObject :: "nat \<Rightarrow> buffer_iterator \<Rightarrow> (nat option \<times> buffer_iterator) res" where
  "MutableObject sizeof_T b =
     (case size_add (bi_position b) sizeof_T of
        None \<Rightarrow> Inr (None, b)
      | Some next_position \<Rightarrow>
          if next_position > bi_total_size b then Inr (None, b)
          else rbind (span_subspan sizeof_T dynamic_extent (bi_remaining b)) (\<lambda>r.
            Inr (Some (sp_data (bi_remaining b)), b\<lparr>bi_remaining := r\<rparr>)))"

text \<open>The result is the address of the first object and the number of objects.\<close>

definition MutableSpan :: "nat \<Rightarrow> nat \<Rightarrow> buffer_iterator \<Rightarrow> ((nat \<times> nat) option \<times> buffer_iterator) res" where
  "MutableSpan sizeof_T count b =
     (case size_mul sizeof_T count of
        None \<Rightarrow> Inr (None, b)
      | Some sz \<Rightarrow>
          case size_add (bi_position b) sz of
            None \<Rightarrow> Inr (None, b)
          | Some next_position \<Rightarrow>
              if next_position > bi_total_size b then Inr (None, b)
              else rbind (span_subspan sz dynamic_extent (bi_remaining b)) (\<lambda>r.
                Inr (Some (sp_data (bi_remaining b), count), b\<lparr>bi_remaining := r\<rparr>)))"

definition Seek :: "nat \<Rightarrow> buffer_iterator \<Rightarrow> buffer_iterator res" where
  "Seek to b = rbind (span_subspan to dynamic_extent (bi_buffer b)) (\<lambda>r. Inr (b\<lparr>bi_remaining := r\<rparr>))"

lemma size_assign_eq: "size_assign (CheckedNumeric_of UInt64 UInt64 (cast UInt64 (int n)) (in_type UInt64 (int n))) =
    (if n < 2 ^ 64 then Some n else None)"
proof -
  have c: "in_type UInt64 (cast UInt64 (int n))" by (rule cast_in_type)
  have n: "in_type UInt64 (int n) \<longleftrightarrow> n < 2 ^ 64" by (auto simp: in_type_def)
  show ?thesis using n
    by (auto simp: size_assign_def AssignIfValid_def cn_IsValid_def CheckedNumeric_of_def IsValueInRange_iff c cast_in_type)
qed

lemma size_add_eq: "size_add a b = (if a + b < 2 ^ 64 then Some (a + b) else None)"
  using size_assign_eq [of "a + b"]
  by (simp add: size_add_def CheckAdd_def CheckMathOp_def MathOp_def CheckedAddOp_def CheckedAddFastOp_supported_def
      builtin_no_overflow_def MaxExponentPromotion_def)

lemma size_mul_eq: "size_mul a b = (if a * b < 2 ^ 64 then Some (a * b) else None)"
  using size_assign_eq [of "a * b"]
  by (simp add: size_mul_def CheckMul_def CheckMathOp_def MathOp_def CheckedMulOp_def CheckedMulFastOp_supported_def
      builtin_no_overflow_def MaxExponentPromotion_def)

end
