(* ===== verification/SpanProps.thy ===== *)
theory SpanProps
  imports Span
begin

text \<open>
  Spans, their iterators and buffer iterators never touch memory outside the view they were made for: every operation
  does what the same operation does on a list, or a check stops the process.
\<close>

section \<open>Well-formed views\<close>

definition span_ok :: "'a list \<Rightarrow> span \<Rightarrow> bool" where
  "span_ok mem s \<longleftrightarrow> sp_data s + sp_size s \<le> length mem \<and> length mem < 2 ^ 63 \<and>
     (sp_extent s = None \<or> sp_extent s = Some (sp_size s))"

definition span_view :: "'a list \<Rightarrow> span \<Rightarrow> 'a list" where
  "span_view mem s = take (sp_size s) (drop (sp_data s) mem)"

definition ci_ok :: "'a list \<Rightarrow> checked_iterator \<Rightarrow> bool" where
  "ci_ok mem it \<longleftrightarrow> ci_start it \<le> ci_current it \<and> ci_current it \<le> ci_end it \<and> ci_end it \<le> length mem"

text \<open>The iterator of a view at an index.\<close>

definition iter_at :: "span \<Rightarrow> nat \<Rightarrow> checked_iterator" where
  "iter_at s i = \<lparr>ci_start = sp_data s, ci_current = sp_data s + i, ci_end = sp_data s + sp_size s\<rparr>"

lemma length_span_view [simp]: "span_ok mem s \<Longrightarrow> length (span_view mem s) = sp_size s"
  by (auto simp: span_ok_def span_view_def)

lemma read_view: "span_ok mem s \<Longrightarrow> i < sp_size s \<Longrightarrow> read_at mem (sp_data s + i) = Inr (span_view mem s ! i)"
  by (auto simp: span_ok_def span_view_def read_at_def)

lemma ci_deref_at: "span_ok mem s \<Longrightarrow> i \<le> sp_size s \<Longrightarrow>
    ci_deref mem (iter_at s i) = check (i < sp_size s) (Inr (span_view mem s ! i))"
  using read_view [of mem s i] by (cases "i < sp_size s") (auto simp: ci_deref_def iter_at_def)

lemma ci_index_at: "span_ok mem s \<Longrightarrow> i \<le> sp_size s \<Longrightarrow>
    ci_index mem d (iter_at s i) = check (0 \<le> d \<and> i + nat d < sp_size s) (Inr (span_view mem s ! (i + nat d)))"
  using read_view [of mem s "i + nat d"]
  by (auto simp: ci_index_def iter_at_def guardr_def add.assoc)

lemma span_begin_at: "span_begin s = Inr (iter_at s 0)" "span_end s = Inr (iter_at s (sp_size s))"
  by (simp_all add: span_begin_def span_end_def checked_iterator_new_def checked_iterator_at_def iter_at_def)

section \<open>Moving an iterator\<close>

datatype iter_move = Inc | Dec | Plus int | Minus int

fun move_iter :: "checked_iterator \<Rightarrow> iter_move \<Rightarrow> checked_iterator res" where
  "move_iter it Inc = ci_inc it"
| "move_iter it Dec = ci_dec it"
| "move_iter it (Plus d) = ci_plus d it"
| "move_iter it (Minus d) = ci_minus d it"

fun move_all :: "checked_iterator \<Rightarrow> iter_move list \<Rightarrow> checked_iterator res" where
  "move_all it [] = Inr it"
| "move_all it (m # ms) = rbind (move_iter it m) (\<lambda>it. move_all it ms)"

text \<open>The same moves of an index into a list of \<open>n\<close> elements. Only the smallest difference is not a number one can negate.\<close>

fun offset_of :: "iter_move \<Rightarrow> int" where
  "offset_of Inc = 1"
| "offset_of Dec = - 1"
| "offset_of (Plus d) = d"
| "offset_of (Minus d) = - d"

fun smallest :: "iter_move \<Rightarrow> bool" where
  "smallest (Plus d) \<longleftrightarrow> d = ptrdiff_min"
| "smallest (Minus d) \<longleftrightarrow> d = ptrdiff_min"
| "smallest _ \<longleftrightarrow> False"

fun walk :: "nat \<Rightarrow> int \<Rightarrow> iter_move list \<Rightarrow> int res" where
  "walk n i [] = Inr i"
| "walk n i (m # ms) =
     guardr SignedOverflow (\<not> smallest m)
      (check (0 \<le> i + offset_of m \<and> i + offset_of m \<le> int n) (walk n (i + offset_of m) ms))"

lemma move_iter_at:
  assumes "i \<le> sp_size s"
  shows "move_iter (iter_at s i) m = guardr SignedOverflow (\<not> smallest m)
    (check (0 \<le> int i + offset_of m \<and> int i + offset_of m \<le> int (sp_size s)) (Inr (iter_at s (nat (int i + offset_of m)))))"
  using assms
  by (cases m) (auto simp: guardr_def iter_at_def ci_inc_def ci_dec_def ci_plus_def ci_minus_def ptrdiff_neg_def ci_set_def
    ptrdiff_min_def nat_add_distrib)

lemma move_all_at:
  "i \<le> sp_size s \<Longrightarrow> move_all (iter_at s i) ms = rbind (walk (sp_size s) (int i) ms) (\<lambda>j. Inr (iter_at s (nat j)))"
proof (induction ms arbitrary: i)
  case (Cons m ms)
  show ?case
    using Cons.IH [of "nat (int i + offset_of m)"]
    by (simp add: move_iter_at [OF Cons.prems] guardr_def nat_le_iff)
qed simp

section \<open>Range loops\<close>

text \<open>\<open>for (x : s)\<close>: compares with the end, reads, advances.\<close>

fun range_for :: "'a list \<Rightarrow> nat \<Rightarrow> checked_iterator \<Rightarrow> checked_iterator \<Rightarrow> 'a list res" where
  "range_for mem 0 it e = Inl Diverges"
| "range_for mem (Suc fuel) it e =
     rbind (ci_neq it e) (\<lambda>more_left.
     if more_left then rbind (ci_deref mem it) (\<lambda>x. rbind (ci_inc it) (\<lambda>it.
       rbind (range_for mem fuel it e) (\<lambda>xs. Inr (x # xs))))
     else Inr [])"

lemma range_for_at:
  assumes "span_ok mem s"
  shows "\<lbrakk>i \<le> sp_size s; sp_size s - i < fuel\<rbrakk> \<Longrightarrow>
    range_for mem fuel (iter_at s i) (iter_at s (sp_size s)) = Inr (drop i (span_view mem s))"
proof (induction fuel arbitrary: i)
  case (Suc fuel)
  have neq: "ci_neq (iter_at s i) (iter_at s (sp_size s)) = Inr (i < sp_size s)"
    using Suc.prems(1) by (auto simp: ci_neq_def CheckComparable_def iter_at_def)
  show ?case
  proof (cases "i < sp_size s")
    case True
    have "ci_inc (iter_at s i) = Inr (iter_at s (Suc i))" using True by (simp add: ci_inc_def iter_at_def)
    then show ?thesis
      using True Suc.IH [of "Suc i"] Suc.prems ci_deref_at [OF assms Suc.prems(1)] neq assms
      by (simp add: Cons_nth_drop_Suc)
  next
    case False
    then show ?thesis using neq assms by simp
  qed
qed simp

section \<open>Subviews\<close>

lemma span_view_part:
  assumes "span_ok mem s" "offset + count \<le> sp_size s"
  shows "span_ok mem \<lparr>sp_extent = x, sp_data = sp_data s + offset, sp_size = count\<rparr> \<longleftrightarrow> x = None \<or> x = Some count"
    "span_view mem \<lparr>sp_extent = x, sp_data = sp_data s + offset, sp_size = count\<rparr> = take count (drop offset (span_view mem s))"
  using assms by (auto simp: span_ok_def span_view_def take_drop drop_drop min_def add.commute)

lemma span_sizes: "span_ok mem s \<Longrightarrow> sp_size s < dynamic_extent"
  by (simp add: span_ok_def dynamic_extent_def)

text \<open>A result is a well-formed span that shows the given elements.\<close>

definition shows_part :: "'a list \<Rightarrow> span res \<Rightarrow> 'a list \<Rightarrow> bool" where
  "shows_part mem r v = (case r of Inl _ \<Rightarrow> False | Inr s \<Rightarrow> span_ok mem s \<and> span_view mem s = v)"

lemma shows_part_new:
  assumes "span_ok mem s" "offset + count \<le> sp_size s" "x = None \<or> x = Some count"
  shows "shows_part mem (span_new x (sp_data s + offset) count) (take count (drop offset (span_view mem s)))"
  using span_view_part [OF assms(1,2), of x] assms(3) by (auto simp: shows_part_def span_new_def)

lemma span_subspan_part:
  assumes "span_ok mem s" "offset \<le> sp_size s"
  shows "shows_part mem (span_subspan offset dynamic_extent s) (drop offset (span_view mem s))"
    "count \<le> sp_size s - offset \<Longrightarrow> shows_part mem (span_subspan offset count s) (take count (drop offset (span_view mem s)))"
  using shows_part_new [OF assms(1), of offset "sp_size s - offset" None] shows_part_new [OF assms(1), of offset count None]
    assms span_sizes [OF assms(1)]
  by (auto simp: span_subspan_def)

lemma span_ends:
  assumes "span_ok mem s" "count \<le> sp_size s"
  shows "shows_part mem (span_first count s) (take count (span_view mem s))"
    "shows_part mem (span_first_n count s) (take count (span_view mem s))"
    "shows_part mem (span_last count s) (drop (sp_size s - count) (span_view mem s))"
    "shows_part mem (span_last_n count s) (drop (sp_size s - count) (span_view mem s))"
  using shows_part_new [OF assms(1), of 0 count] shows_part_new [OF assms(1), of "sp_size s - count" count] assms
  by (auto simp: span_first_def span_first_n_def span_last_def span_last_n_def)

lemma span_static_parts:
  assumes "span_ok mem s" "offset \<le> sp_size s"
  shows "shows_part mem (span_subspan_n offset dynamic_extent s) (drop offset (span_view mem s))"
    "count \<le> sp_size s - offset \<Longrightarrow> shows_part mem (span_subspan_n offset count s) (take count (drop offset (span_view mem s)))"
proof -
  have "map_option (\<lambda>e. e - offset) (sp_extent s) = None \<or> map_option (\<lambda>e. e - offset) (sp_extent s) = Some (sp_size s - offset)"
    using assms(1) by (auto simp: span_ok_def)
  from shows_part_new [OF assms(1) _ this, of offset] show "shows_part mem (span_subspan_n offset dynamic_extent s) (drop offset (span_view mem s))"
    using assms by (simp add: span_subspan_n_def)
  show "shows_part mem (span_subspan_n offset count s) (take count (drop offset (span_view mem s)))" if "count \<le> sp_size s - offset"
  proof -
    have "count \<noteq> dynamic_extent" "offset + count \<le> sp_size s" using that span_sizes [OF assms(1)] assms(2) by auto
    then show ?thesis
      using that shows_part_new [OF assms(1), of offset count "Some count"] assms(2) by (simp add: span_subspan_n_def)
  qed
qed

lemma span_elements:
  assumes "span_ok mem s" "v = span_view mem s"
  shows "span_at mem idx s = check (idx < length v) (Inr (v ! idx))"
    "sp_extent s = None \<or> v \<noteq> [] \<Longrightarrow> span_front mem s = check (v \<noteq> []) (Inr (hd v))"
    "sp_extent s = None \<or> v \<noteq> [] \<Longrightarrow> span_back mem s = check (v \<noteq> []) (Inr (last v))"
proof -
  have l: "length v = sp_size s" using assms by simp
  then have ne: "v \<noteq> [] \<longleftrightarrow> 0 < sp_size s" by (metis length_greater_0_conv)
  show "span_at mem idx s = check (idx < length v) (Inr (v ! idx))"
    using read_view [OF assms(1), of idx] assms by (simp add: span_at_def guardr_def)
  show "span_front mem s = check (v \<noteq> []) (Inr (hd v))" if "sp_extent s = None \<or> v \<noteq> []"
    using that read_view [OF assms(1), of 0] ne unfolding span_front_def span_is_empty_def guardr_def assms(2)
    by (auto simp: hd_conv_nth)
  show "span_back mem s = check (v \<noteq> []) (Inr (last v))" if "sp_extent s = None \<or> v \<noteq> []"
    using that read_view [OF assms(1), of "sp_size s - 1"] ne l unfolding span_back_def span_is_empty_def guardr_def assms(2)
    by (auto simp: last_conv_nth)
qed

section \<open>Parsing a buffer\<close>

datatype request = Object nat | Objects nat nat | SeekTo nat

text \<open>The answer is the first byte and the number of bytes of the objects that are returned, if any.\<close>

fun answer_request :: "buffer_iterator \<Rightarrow> request \<Rightarrow> ((nat \<times> nat) option \<times> buffer_iterator) res" where
  "answer_request b (Object sz) = rbind (MutableObject sz b) (\<lambda>(r, b). Inr (map_option (\<lambda>p. (p, sz)) r, b))"
| "answer_request b (Objects sz count) =
     rbind (MutableSpan sz count b) (\<lambda>(r, b). Inr (map_option (\<lambda>(p, c). (p, sz * c)) r, b))"
| "answer_request b (SeekTo to) = rbind (Seek to b) (\<lambda>b. Inr (None, b))"

text \<open>The same requests to a reader that keeps its position in a text of \<open>len\<close> bytes.\<close>

fun take_bytes :: "nat \<Rightarrow> nat \<Rightarrow> nat \<Rightarrow> (nat \<times> nat) option \<times> nat" where
  "take_bytes len pos sz = (if pos + sz \<le> len then (Some (pos, sz), pos + sz) else (None, pos))"

fun read_request :: "nat \<Rightarrow> nat \<Rightarrow> request \<Rightarrow> ((nat \<times> nat) option \<times> nat) res" where
  "read_request len pos (Object sz) = Inr (take_bytes len pos sz)"
| "read_request len pos (Objects sz count) = Inr (take_bytes len pos (sz * count))"
| "read_request len pos (SeekTo to) = check (to \<le> len) (Inr (None, to))"

definition reader_at :: "span \<Rightarrow> nat \<Rightarrow> buffer_iterator" where
  "reader_at buf pos =
     \<lparr>bi_buffer = buf, bi_remaining = \<lparr>sp_extent = None, sp_data = sp_data buf + pos, sp_size = sp_size buf - pos\<rparr>\<rparr>"

lemma reader_position:
  assumes "span_ok mem buf" "pos \<le> sp_size buf"
  shows "bi_position (reader_at buf pos) = pos"
proof -
  have "sp_size buf < 2 ^ 64" using assms(1) by (simp add: span_ok_def)
  then show ?thesis using assms(2) by (simp add: bi_position_def reader_at_def span_size_bytes_def of_nat_diff)
qed

lemma reader_advance:
  assumes "span_ok mem buf" "pos + sz \<le> sp_size buf"
  shows "span_subspan sz dynamic_extent (bi_remaining (reader_at buf pos)) = Inr (bi_remaining (reader_at buf (pos + sz)))"
  using assms by (simp add: span_subspan_def span_new_def reader_at_def)

lemma reader_seek:
  "span_subspan to dynamic_extent (bi_buffer (reader_at buf pos)) = check (to \<le> sp_size buf) (Inr (bi_remaining (reader_at buf to)))"
  by (simp add: span_subspan_def span_new_def reader_at_def)

definition absolute :: "span \<Rightarrow> (nat \<times> nat) option \<Rightarrow> (nat \<times> nat) option" where
  "absolute buf = map_option (\<lambda>(p, l). (sp_data buf + p, l))"

lemma answer_request_at:
  assumes "span_ok mem buf" "pos \<le> sp_size buf"
  shows "answer_request (reader_at buf pos) q =
    rbind (read_request (sp_size buf) pos q) (\<lambda>(r, p). Inr (absolute buf r, reader_at buf p))"
proof -
  note pos = reader_position [OF assms] and size = assms(1) [unfolded span_ok_def]
  have len: "bi_total_size (reader_at buf pos) = sp_size buf" by (simp add: bi_total_size_def reader_at_def)
  have upd: "(reader_at buf pos)\<lparr>bi_remaining := bi_remaining (reader_at buf p)\<rparr> = reader_at buf p" for p
    by (simp add: reader_at_def)
  have data: "sp_data (bi_remaining (reader_at buf pos)) = sp_data buf + pos" by (simp add: reader_at_def)
  have fits: "pos + k < 2 ^ 64" "k < 2 ^ 64" if "pos + k \<le> sp_size buf" for k using that size by auto
  show ?thesis
  proof (cases q)
    case (Object sz)
    then show ?thesis using fits [of sz]
      by (auto simp: MutableObject_def size_add_eq pos len reader_advance [OF assms(1)] upd data absolute_def)
  next
    case (Objects sz count)
    then show ?thesis using fits [of "sz * count"]
      by (auto simp: MutableSpan_def size_mul_eq size_add_eq pos len reader_advance [OF assms(1)] upd data absolute_def)
  next
    case (SeekTo to)
    then show ?thesis by (simp add: Seek_def reader_seek guardr_def upd absolute_def)
  qed
qed

lemma read_request_bound:
  "read_request len pos q = Inr (r, p) \<Longrightarrow> pos \<le> len \<Longrightarrow> p \<le> len \<and> (\<forall>a l. r = Some (a, l) \<longrightarrow> a + l \<le> len)"
  by (cases q) (auto split: if_splits)

lemma answer_all:
  assumes "span_ok mem buf"
  shows "pos \<le> sp_size buf \<Longrightarrow> run_list answer_request (reader_at buf pos) qs =
    rbind (run_list (read_request (sp_size buf)) pos qs) (\<lambda>(rs, p). Inr (map (absolute buf) rs, reader_at buf p))"
proof (induction qs arbitrary: pos)
  case (Cons q qs)
  show ?case
  proof (cases "read_request (sp_size buf) pos q")
    case (Inr rp)
    obtain r p where rp: "rp = (r, p)" by fastforce
    then have "p \<le> sp_size buf" using read_request_bound [OF Inr [unfolded rp] Cons.prems] by blast
    then show ?thesis using Cons.IH [of p] Inr rp answer_request_at [OF assms Cons.prems, of q]
      by (cases "run_list (read_request (sp_size buf)) p qs") auto
  qed (simp add: answer_request_at [OF assms Cons.prems])
qed simp

lemma read_all_bound:
  "\<lbrakk>run_list (read_request len) pos qs = Inr (rs, p); pos \<le> len\<rbrakk> \<Longrightarrow>
    p \<le> len \<and> (\<forall>a l. Some (a, l) \<in> set rs \<longrightarrow> a + l \<le> len)"
proof (induction qs arbitrary: pos rs)
  case (Cons q qs)
  obtain r p' rs' where s: "read_request len pos q = Inr (r, p')" "run_list (read_request len) p' qs = Inr (rs', p)" "rs = r # rs'"
    using Cons.prems(1) by (auto simp: rbind_eq_Inr)
  then show ?case using read_request_bound [OF s(1) Cons.prems(2)] Cons.IH [OF s(2)] by auto
qed simp

section \<open>Properties\<close>

text \<open>
  C27. The iterators of a span move like an index into its elements: any sequence of \<open>++\<close>, \<open>--\<close>, \<open>+=\<close> and \<open>-=\<close> from
  \<open>begin()\<close> succeeds exactly if every step stays between the first element and the end, and a check stops the process at
  the first step that does not. The one step that no check catches is the smallest difference, whose negation overflows.
  Reading through the iterator gives the element at the index, and stops at the end.
\<close>

theorem checked_iterator_walk:
  assumes "span_ok mem s"
  shows "rbind (span_begin s) (\<lambda>it. rbind (move_all it ms) (ci_deref mem)) =
    rbind (walk (sp_size s) 0 ms) (\<lambda>i. check (nat i < sp_size s) (Inr (span_view mem s ! nat i)))"
proof -
  have bound: "0 \<le> j \<and> j \<le> int n" if "walk n i ms = Inr j" "0 \<le> i" "i \<le> int n" for n i j
    using that by (induction ms arbitrary: i) auto
  show ?thesis
  proof (cases "walk (sp_size s) 0 ms")
    case (Inr j)
    then have "nat j \<le> sp_size s" using bound by fastforce
    then show ?thesis using Inr move_all_at [of 0 s ms] ci_deref_at [OF assms] by (simp add: span_begin_at)
  qed (simp add: span_begin_at move_all_at)
qed

theorem checked_iterator_walk_witness:
  "rbind (span_begin \<lparr>sp_extent = None, sp_data = 1, sp_size = 2\<rparr>) (\<lambda>it. rbind (move_all it [Inc, Plus ptrdiff_min]) (ci_deref [1, 2, 3, 4::nat]))
    = Inl SignedOverflow"
proof -
  have "span_ok [1, 2, 3, 4::nat] \<lparr>sp_extent = None, sp_data = 1, sp_size = 2\<rparr>" by (simp add: span_ok_def)
  from checked_iterator_walk [OF this, of "[Inc, Plus ptrdiff_min]"] show ?thesis by simp
qed

text \<open>
  C28. A range loop over a span ends after as many rounds as the span has elements and visits exactly them, in order.
\<close>

theorem range_for_visits:
  assumes "span_ok mem s" "sp_size s < fuel"
  shows "rbind (span_begin s) (\<lambda>it. rbind (span_end s) (range_for mem fuel it)) = Inr (span_view mem s)"
  using range_for_at [OF assms(1), of 0 fuel] assms(2) by (simp add: span_begin_at)

theorem range_for_visits_witness:
  "rbind (span_begin \<lparr>sp_extent = None, sp_data = 1, sp_size = 2\<rparr>) (\<lambda>it.
    rbind (span_end \<lparr>sp_extent = None, sp_data = 1, sp_size = 2\<rparr>) (range_for [5, 6, 7, 8::nat] 3 it)) = Inr [6, 7]"
proof -
  have "span_ok [5, 6, 7, 8::nat] \<lparr>sp_extent = None, sp_data = 1, sp_size = 2\<rparr>" by (simp add: span_ok_def)
  from range_for_visits [OF this, of 3] show ?thesis by (simp add: span_view_def)
qed

text \<open>
  \<open>first\<close>, \<open>last\<close> and \<open>subspan\<close> return a view of exactly the elements they name, with a size known at run time or
  at compile time, and stop the process if there are not that many; \<open>operator[]\<close>, \<open>front\<close> and \<open>back\<close> return the element
  of the view or stop the process.
\<close>

theorem span_parts:
  assumes "span_ok mem s" "v = span_view mem s"
  shows "(if count \<le> length v then shows_part mem (span_first count s) (take count v) \<and> shows_part mem (span_first_n count s) (take count v) \<and>
        shows_part mem (span_last count s) (drop (length v - count) v) \<and> shows_part mem (span_last_n count s) (drop (length v - count) v)
      else span_first count s = Inl CheckFailed \<and> span_last count s = Inl CheckFailed) \<and>
    (if offset \<le> length v then shows_part mem (span_subspan offset dynamic_extent s) (drop offset v) \<and>
        shows_part mem (span_subspan_n offset dynamic_extent s) (drop offset v)
      else span_subspan offset dynamic_extent s = Inl CheckFailed) \<and>
    (if offset + count \<le> length v then shows_part mem (span_subspan offset count s) (take count (drop offset v)) \<and>
        shows_part mem (span_subspan_n offset count s) (take count (drop offset v))
      else count < dynamic_extent \<longrightarrow> span_subspan offset count s = Inl CheckFailed) \<and>
    span_at mem idx s = check (idx < length v) (Inr (v ! idx)) \<and>
    (sp_extent s = None \<or> v \<noteq> [] \<longrightarrow> span_front mem s = check (v \<noteq> []) (Inr (hd v)) \<and> span_back mem s = check (v \<noteq> []) (Inr (last v)))"
proof -
  have l: "length v = sp_size s" using assms by simp
  show ?thesis
    unfolding l
  proof (intro conjI)
    show "if count \<le> sp_size s then shows_part mem (span_first count s) (take count v) \<and> shows_part mem (span_first_n count s) (take count v) \<and>
        shows_part mem (span_last count s) (drop (sp_size s - count) v) \<and> shows_part mem (span_last_n count s) (drop (sp_size s - count) v)
      else span_first count s = Inl CheckFailed \<and> span_last count s = Inl CheckFailed"
      using span_ends [OF assms(1), of count] assms(2) by (simp add: span_first_def span_last_def)
    show "if offset \<le> sp_size s then shows_part mem (span_subspan offset dynamic_extent s) (drop offset v) \<and>
        shows_part mem (span_subspan_n offset dynamic_extent s) (drop offset v)
      else span_subspan offset dynamic_extent s = Inl CheckFailed"
      using span_subspan_part(1) [OF assms(1)] span_static_parts(1) [OF assms(1)] assms(2) by (simp add: span_subspan_def)
    show "if offset + count \<le> sp_size s then shows_part mem (span_subspan offset count s) (take count (drop offset v)) \<and>
        shows_part mem (span_subspan_n offset count s) (take count (drop offset v))
      else count < dynamic_extent \<longrightarrow> span_subspan offset count s = Inl CheckFailed"
      using span_subspan_part(2) [OF assms(1), of offset count] span_static_parts(2) [OF assms(1), of offset count] assms(2)
      by (auto simp: span_subspan_def guardr_def)
    show "span_at mem idx s = check (idx < sp_size s) (Inr (v ! idx))" using span_elements(1) [OF assms] l by simp
    show "sp_extent s = None \<or> v \<noteq> [] \<longrightarrow> span_front mem s = check (v \<noteq> []) (Inr (hd v)) \<and> span_back mem s = check (v \<noteq> []) (Inr (last v))"
      using span_elements(2,3) [OF assms] by blast
  qed
qed

theorem span_parts_witness:
  "span_at [5, 6, 7, 8::nat] 1 \<lparr>sp_extent = None, sp_data = 1, sp_size = 2\<rparr> = Inr 7"
proof -
  have "span_ok [5, 6, 7, 8::nat] \<lparr>sp_extent = None, sp_data = 1, sp_size = 2\<rparr>" by (simp add: span_ok_def)
  from span_parts [OF this refl, where idx = 1] show ?thesis by (simp add: span_view_def)
qed

text \<open>
  A buffer iterator answers every sequence of requests like a reader of the bytes of its buffer: objects and arrays of
  objects come one behind the other from the current position, a request for more bytes than are left returns nothing and
  keeps the position, whatever sizes are asked for, and only a seek beyond the end stops the process. What is returned
  lies inside the buffer.
\<close>

theorem buffer_iterator_reads:
  assumes "span_ok mem buf" "sp_extent buf = None"
  shows "run_list answer_request (buffer_iterator_new buf) qs =
      rbind (run_list (read_request (sp_size buf)) 0 qs) (\<lambda>(rs, p). Inr (map (absolute buf) rs, reader_at buf p)) \<and>
    (\<forall>rs b a l. run_list answer_request (buffer_iterator_new buf) qs = Inr (rs, b) \<longrightarrow> Some (a, l) \<in> set rs \<longrightarrow>
      sp_data buf \<le> a \<and> a + l \<le> sp_data buf + sp_size buf)"
proof -
  have "buffer_iterator_new buf = reader_at buf 0"
    using assms(2) by (cases buf) (simp add: buffer_iterator_new_def reader_at_def)
  then have eq: "run_list answer_request (buffer_iterator_new buf) qs =
      rbind (run_list (read_request (sp_size buf)) 0 qs) (\<lambda>(rs, p). Inr (map (absolute buf) rs, reader_at buf p))"
    using answer_all [OF assms(1), of 0 qs] by simp
  have "sp_data buf \<le> a \<and> a + l \<le> sp_data buf + sp_size buf"
    if run: "run_list answer_request (buffer_iterator_new buf) qs = Inr (rs, b)" and mem: "Some (a, l) \<in> set rs" for rs b a l
  proof -
    obtain rs' p where r: "run_list (read_request (sp_size buf)) 0 qs = Inr (rs', p)" "rs = map (absolute buf) rs'"
      using run unfolding eq by (auto simp: rbind_eq_Inr)
    then obtain a' where "Some (a', l) \<in> set rs'" "a = sp_data buf + a'" using mem
      by (auto simp: absolute_def map_option_case split: option.splits)
    then show ?thesis using read_all_bound [OF r(1)] by auto
  qed
  then show ?thesis using eq by blast
qed

theorem buffer_iterator_reads_witness:
  "\<exists>b. run_list answer_request (buffer_iterator_new \<lparr>sp_extent = None, sp_data = 1, sp_size = 7\<rparr>)
      [Object 4, Object 4, Objects 1 2, SeekTo 0, Objects (2 ^ 63) 3] =
    Inr ([Some (1, 4), None, Some (5, 2), None, None], b)"
proof -
  have "span_ok (replicate 8 (0::nat)) \<lparr>sp_extent = None, sp_data = 1, sp_size = 7\<rparr>" by (simp add: span_ok_def)
  from buffer_iterator_reads [OF this, of "[Object 4, Object 4, Objects 1 2, SeekTo 0, Objects (2 ^ 63) 3]"]
  show ?thesis by (simp add: absolute_def)
qed

text \<open>
  For iterators into one view, \<open>IsRangeMoveSafe\<close> tells whether the source range and the target range of the same
  length have no element in common, and stops the process if the target range leaves the view.
\<close>

theorem IsRangeMoveSafe_disjoint:
  assumes "a \<le> b" "b \<le> sp_size s" "t \<le> sp_size s"
  shows "IsRangeMoveSafe (iter_at s a) (iter_at s b) (iter_at s t) =
    check (t + (b - a) \<le> sp_size s) (Inr ({a..<b} \<inter> {t..<t + (b - a)} = {}))"
proof -
  have "{a..<b} \<inter> {t..<t + (b - a)} = {} \<longleftrightarrow> b \<le> t \<or> t + (b - a) \<le> a"
  proof
    assume e: "{a..<b} \<inter> {t..<t + (b - a)} = {}"
    show "b \<le> t \<or> t + (b - a) \<le> a"
    proof (rule ccontr)
      assume "\<not> ?thesis"
      then have "max a t \<in> {a..<b} \<inter> {t..<t + (b - a)}" using assms(1) by (auto simp: max_def)
      with e show False by blast
    qed
  qed auto
  then show ?thesis using assms
    by (auto simp: IsRangeMoveSafe_def ci_less_def ci_difference_def CheckComparable_def iter_at_def ci_plus_def ci_set_def
      ptrdiff_neg_def ptrdiff_min_def guardr_def nat_add_distrib of_nat_diff)
qed

theorem IsRangeMoveSafe_disjoint_witness:
  "IsRangeMoveSafe (iter_at \<lparr>sp_extent = None, sp_data = 3, sp_size = 6\<rparr> 0) (iter_at \<lparr>sp_extent = None, sp_data = 3, sp_size = 6\<rparr> 2)
    (iter_at \<lparr>sp_extent = None, sp_data = 3, sp_size = 6\<rparr> 3) = Inr True"
  using IsRangeMoveSafe_disjoint [of 0 2 "\<lparr>sp_extent = None, sp_data = 3, sp_size = 6\<rparr>" 3] by simp

end
