(* ===== verification/CheckedProps.thy ===== *)
theory CheckedProps
  imports CheckedMath
begin

text \<open>
  What the operators of \<open>CheckedNumeric\<close> guarantee. The contract of an operation class is the locale
  \<open>sound_op\<close>; the class template's own code (\<open>MathOp\<close>, the compound assignments, the variadic
  functions) is verified against it once, and every operation class is an instance. Expressions over
  the operators are then exact.
\<close>

section \<open>What the operators require of an operation\<close>

definition cn_ok :: "checked_numeric \<Rightarrow> bool" where
  "cn_ok n \<longleftrightarrow> in_type (num_type n) (num_value n)"

definition operand_ok :: "operand \<Rightarrow> bool" where
  "operand_ok a \<longleftrightarrow> in_type (UnderlyingType a) (Wrapper_value a)"

lemma operand_ok_simps [simp]: "operand_ok (Checked n) \<longleftrightarrow> cn_ok n" "operand_ok (Plain t v) \<longleftrightarrow> in_type t v"
  "operand_ok (Strict t v) \<longleftrightarrow> in_type t v"
  by (simp_all add: operand_ok_def cn_ok_def)

lemma CheckedNumeric_of_fields [simp]:
  "num_type (CheckedNumeric_of t src v b) = t" "num_value (CheckedNumeric_of t src v b) = cast t v"
  "cn_ok (CheckedNumeric_of t src v b)"
  by (simp_all add: CheckedNumeric_of_def cn_ok_def cast_in_type)

lemma CheckedNumeric_of_valid: "in_type src v \<Longrightarrow> num_valid (CheckedNumeric_of t src v b) \<longleftrightarrow> b \<and> in_type t v"
  by (simp add: CheckedNumeric_of_def IsValueInRange_iff)

lemma cn_IsValid_iff: "cn_ok n \<Longrightarrow> cn_IsValid dst n \<longleftrightarrow> num_valid n \<and> in_type dst (num_value n)"
  by (simp add: cn_IsValid_def cn_ok_def IsValueInRange_iff)

lemma cn_IsValid_self: "cn_ok n \<Longrightarrow> cn_IsValid (num_type n) n \<longleftrightarrow> num_valid n"
  unfolding cn_IsValid_iff by (simp add: cn_ok_def)

text \<open>
  The contract of an operation class: whatever it stores is a value of the destination type, and when it reports success
  the operation is defined for the operands (\<open>d\<close>: no division by zero, no shift out of range) and it has stored the mathematical result.
\<close>

locale sound_op =
  fixes M :: checked_op and f :: "int \<Rightarrow> int \<Rightarrow> int" and result_type :: "int_type \<Rightarrow> int_type \<Rightarrow> int_type"
    and d :: "int_type \<Rightarrow> int \<Rightarrow> int \<Rightarrow> bool"
  assumes sound: "M c t u v x y r = (ok, z) \<Longrightarrow> in_type t x \<Longrightarrow> in_type u y \<Longrightarrow> v = t \<or> v = result_type t u
    \<Longrightarrow> in_type v r \<Longrightarrow> in_type v z \<and> (ok \<longrightarrow> d t x y \<and> z = f x y)"
begin

lemma CheckMathOp_sound:
  assumes "operand_ok a" "operand_ok b"
  shows "cn_ok (CheckMathOp M result_type c a b)"
    and "num_type (CheckMathOp M result_type c a b) = result_type (UnderlyingType a) (UnderlyingType b)"
    and "num_valid (CheckMathOp M result_type c a b) \<Longrightarrow> Wrapper_is_valid a \<and> Wrapper_is_valid b
      \<and> num_value (CheckMathOp M result_type c a b) = f (Wrapper_value a) (Wrapper_value b)
      \<and> in_type (result_type (UnderlyingType a) (UnderlyingType b)) (f (Wrapper_value a) (Wrapper_value b))
      \<and> d (UnderlyingType a) (Wrapper_value a) (Wrapper_value b)"
proof -
  let ?t = "UnderlyingType a" and ?u = "UnderlyingType b"
  let ?v = "result_type ?t ?u"
  obtain ok z where m: "M c ?t ?u ?v (Wrapper_value a) (Wrapper_value b) 0 = (ok, z)" by fastforce
  have z: "in_type ?v z" "ok \<longrightarrow> d ?t (Wrapper_value a) (Wrapper_value b) \<and> z = f (Wrapper_value a) (Wrapper_value b)"
    using sound [OF m] assms in_type_0 [of ?v] by (auto simp: operand_ok_def)
  show "cn_ok (CheckMathOp M result_type c a b)" "num_type (CheckMathOp M result_type c a b) = ?v"
    by (simp_all add: CheckMathOp_def MathOp_def case_prod_beta)
  show "num_valid (CheckMathOp M result_type c a b) \<Longrightarrow> Wrapper_is_valid a \<and> Wrapper_is_valid b
      \<and> num_value (CheckMathOp M result_type c a b) = f (Wrapper_value a) (Wrapper_value b)
      \<and> in_type ?v (f (Wrapper_value a) (Wrapper_value b)) \<and> d ?t (Wrapper_value a) (Wrapper_value b)"
    using z in_type_0 [of ?v] by (auto simp: CheckMathOp_def MathOp_def m CheckedNumeric_of_valid split: if_splits)
qed

lemma CheckMathOp_valid:
  assumes "operand_ok a" "operand_ok b"
  shows "num_valid (CheckMathOp M result_type c a b) \<longleftrightarrow> Wrapper_is_valid a \<and> Wrapper_is_valid b
    \<and> fst (M c (UnderlyingType a) (UnderlyingType b) (result_type (UnderlyingType a) (UnderlyingType b)) (Wrapper_value a) (Wrapper_value b) 0)"
proof -
  let ?t = "UnderlyingType a" and ?u = "UnderlyingType b"
  let ?v = "result_type ?t ?u"
  obtain ok z where m: "M c ?t ?u ?v (Wrapper_value a) (Wrapper_value b) 0 = (ok, z)" by fastforce
  have "in_type ?v z" using sound [OF m] assms in_type_0 [of ?v] by (auto simp: operand_ok_def)
  then show ?thesis using in_type_0 [of ?v] by (auto simp: CheckMathOp_def MathOp_def m CheckedNumeric_of_valid split: if_splits)
qed

lemma MathOp_assign_sound:
  assumes "cn_ok n" "operand_ok b"
  shows "cn_ok (MathOp_assign M c n b)" and "num_type (MathOp_assign M c n b) = num_type n"
    and "num_valid (MathOp_assign M c n b) \<Longrightarrow> num_valid n \<and> Wrapper_is_valid b
      \<and> num_value (MathOp_assign M c n b) = f (num_value n) (Wrapper_value b)"
proof -
  let ?t = "num_type n"
  obtain ok z where m: "M c ?t (UnderlyingType b) ?t (num_value n) (Wrapper_value b) 0 = (ok, z)" by fastforce
  have z: "in_type ?t z" "ok \<longrightarrow> z = f (num_value n) (Wrapper_value b)"
    using sound [OF m] assms in_type_0 [of ?t] by (auto simp: operand_ok_def cn_ok_def)
  show "cn_ok (MathOp_assign M c n b)" "num_type (MathOp_assign M c n b) = num_type n"
    by (simp_all add: MathOp_assign_def case_prod_beta Let_def)
  show "num_valid (MathOp_assign M c n b) \<Longrightarrow> num_valid n \<and> Wrapper_is_valid b
      \<and> num_value (MathOp_assign M c n b) = f (num_value n) (Wrapper_value b)"
    using z in_type_0 [of ?t] by (auto simp: MathOp_assign_def m CheckedNumeric_of_valid Let_def split: if_splits)
qed

lemma CheckMathOps_sound:
  assumes "operand_ok a" "operand_ok b" "\<forall>x \<in> set args. operand_ok x" "num_valid (CheckMathOps M result_type c a b args)"
  shows "num_value (CheckMathOps M result_type c a b args) = foldl f (Wrapper_value a) (map Wrapper_value (b # args))
    \<and> Wrapper_is_valid a \<and> (\<forall>x \<in> set (b # args). Wrapper_is_valid x)"
  using assms
proof (induction args arbitrary: a b)
  case Nil
  then show ?case using CheckMathOp_sound [of a b c] by simp
next
  case (Cons x args)
  let ?n = "CheckMathOp M result_type c a b"
  have n: "cn_ok ?n" using Cons.prems by (intro CheckMathOp_sound)
  then have "num_value (CheckMathOps M result_type c (Checked ?n) x args) = foldl f (num_value ?n) (map Wrapper_value (x # args))
      \<and> num_valid ?n \<and> (\<forall>x \<in> set (x # args). Wrapper_is_valid x)"
    using Cons.IH [of "Checked ?n" x] Cons.prems cn_IsValid_self [OF n] by simp
  then show ?case using CheckMathOp_sound(3) [of a b c] Cons.prems by simp
qed

end

lemma MaxExponent_result: "v = t \<or> v = MaxExponentPromotion t u \<Longrightarrow> v = t \<or> v = u"
  using MaxExponentPromotion_cases [of t u] by auto

definition shift_left_defined :: "int_type \<Rightarrow> int \<Rightarrow> int \<Rightarrow> bool" where
  "shift_left_defined t x y \<longleftrightarrow> 0 \<le> x \<and> 0 \<le> y \<and> (y < int (digits t) \<or> is_signed t \<and> x = 0 \<and> y = int (digits t))"

definition shift_right_defined :: "int_type \<Rightarrow> int \<Rightarrow> int \<Rightarrow> bool" where
  "shift_right_defined t x y \<longleftrightarrow> 0 \<le> y \<and> y < int (bits t)"

interpretation add_op: sound_op CheckedAddOp "(+)" MaxExponentPromotion "\<lambda>_ _ _. True"
  by unfold_locales (auto simp: CheckedAddOp_exact [OF _ _ refl] cast_in_type split: if_splits)

interpretation sub_op: sound_op CheckedSubOp "(-)" MaxExponentPromotion "\<lambda>_ _ _. True"
  by unfold_locales (auto simp: CheckedSubOp_exact [OF _ _ refl] cast_in_type split: if_splits)

interpretation mul_op: sound_op CheckedMulOp "(*)" MaxExponentPromotion "\<lambda>_ _ _. True"
  by unfold_locales (auto simp: CheckedMulOp_exact [OF _ _ refl] cast_in_type split: if_splits)

interpretation div_op: sound_op CheckedDivOp "(sdiv)" MaxExponentPromotion "\<lambda>_ x y. y \<noteq> 0"
  by unfold_locales (auto simp: CheckedDivOp_exact [OF _ _ refl] split: if_splits)

interpretation max_op: sound_op CheckedMaxOp max MaxExponentPromotion "\<lambda>_ _ _. True"
  by unfold_locales (auto simp: CheckedMaxOp_exact split: if_splits)

interpretation min_op: sound_op CheckedMinOp min LowestValuePromotion "\<lambda>_ _ _. True"
  by unfold_locales (auto simp: CheckedMinOp_exact split: if_splits)

interpretation lsh_op: sound_op CheckedLshOp "\<lambda>x s. x * 2 ^ nat s" "\<lambda>t u. t" shift_left_defined
proof unfold_locales
  fix c t u v x y r ok z
  assume *: "CheckedLshOp c t u v x y r = (ok, z)" "in_type t x" "in_type u y" "v = t \<or> v = t" "in_type v r"
  then show "in_type v z \<and> (ok \<longrightarrow> shift_left_defined t x y \<and> z = x * 2 ^ nat y)"
    using CheckedLshOp_exact [of t x u y r c] by (auto simp: shift_left_defined_def split: if_splits)
qed

interpretation rsh_op: sound_op CheckedRshOp "\<lambda>x s. x div 2 ^ nat s" "\<lambda>t u. t" shift_right_defined
proof unfold_locales
  fix c t u v x y r ok z
  assume *: "CheckedRshOp c t u v x y r = (ok, z)" "in_type t x" "in_type u y" "v = t \<or> v = t" "in_type v r"
  then show "in_type v z \<and> (ok \<longrightarrow> shift_right_defined t x y \<and> z = x div 2 ^ nat y)"
    using CheckedRshOp_exact [of t x u y c r] drop_bit_range [of t x "nat y"] by (auto simp: shift_right_defined_def drop_bit_eq_div split: if_splits)
qed

section \<open>Unary operations\<close>

lemma NegateWrapper_eq: "NegateWrapper t v = cast t (- v)"
proof -
  have "take_bit (bits t) (- cast (make_unsigned t) v) = take_bit (bits t) (- v)"
    by (metis take_bit_minus take_bit_cast bits_make(1))
  then show ?thesis unfolding NegateWrapper_def by (intro cast_cong) simp
qed

lemma cn_negate_signed:
  assumes "cn_ok n" "is_signed (num_type n)"
  shows "cn_ok (cn_negate n)" "num_type (cn_negate n) = num_type n"
    "num_valid (cn_negate n) \<longleftrightarrow> num_valid n \<and> in_type (num_type n) (- num_value n)"
    "num_valid (cn_negate n) \<Longrightarrow> num_value (cn_negate n) = - num_value n"
proof -
  let ?t = "num_type n" and ?v = "num_value n"
  have v: "in_type ?t ?v" using assms by (simp add: cn_ok_def)
  have "cast ?t (- ?v) \<noteq> lowest ?t \<longleftrightarrow> in_type ?t (- ?v)"
  proof (cases "?v = lowest ?t")
    case True
    have "- lowest ?t = lowest ?t + 2 ^ bits ?t" using assms(2) bits_double [of ?t] by (simp add: limits_bits)
    then have "cast ?t (- lowest ?t) = cast ?t (lowest ?t)"
      by (intro cast_cong) (simp only: take_bit_eq_mod mod_add_self2)
    then show ?thesis using True signed_range [OF assms(2)] in_type_limits [of ?t] by (simp add: in_type_def)
  next
    case False
    then have "in_type ?t (- ?v)" "- ?v \<noteq> lowest ?t" using v signed_range [OF assms(2)] by (auto simp: in_type_def)
    then show ?thesis by simp
  qed
  then show "num_valid (cn_negate n) \<longleftrightarrow> num_valid n \<and> in_type ?t (- ?v)"
    using assms cn_IsValid_self [OF assms(1)]
    by (simp add: cn_negate_def Let_def NegateWrapper_eq CheckedNumeric_of_valid cast_in_type)
  show "cn_ok (cn_negate n)" "num_type (cn_negate n) = num_type n" by (simp_all add: cn_negate_def Let_def)
  assume "num_valid (cn_negate n)"
  then show "num_value (cn_negate n) = - ?v"
    using \<open>num_valid (cn_negate n) \<longleftrightarrow> _\<close> by (simp add: cn_negate_def Let_def NegateWrapper_eq)
qed

lemma cn_Abs_exact:
  assumes "cn_ok n"
  shows "cn_ok (cn_Abs n)" "num_type (cn_Abs n) = num_type n"
    "num_valid (cn_Abs n) \<longleftrightarrow> num_valid n \<and> in_type (num_type n) \<bar>num_value n\<bar>"
    "num_valid (cn_Abs n) \<Longrightarrow> num_value (cn_Abs n) = \<bar>num_value n\<bar>"
proof -
  have s: "IsValueNegative (num_type n) (num_value n) \<Longrightarrow> is_signed (num_type n)" by (simp add: IsValueNegative_def)
  have v: "in_type (num_type n) (num_value n)" using assms by (simp add: cn_ok_def)
  then show "cn_ok (cn_Abs n)" "num_type (cn_Abs n) = num_type n"
    "num_valid (cn_Abs n) \<longleftrightarrow> num_valid n \<and> in_type (num_type n) \<bar>num_value n\<bar>"
    "num_valid (cn_Abs n) \<Longrightarrow> num_value (cn_Abs n) = \<bar>num_value n\<bar>"
    using s assms cn_negate_signed [OF assms] IsValueNegative_iff [OF v] by (auto simp: cn_Abs_def)
qed

lemma cn_UnsignedAbs_exact:
  assumes "cn_ok n"
  shows "num_valid (cn_UnsignedAbs n) = num_valid n \<and> num_value (cn_UnsignedAbs n) = \<bar>num_value n\<bar>"
  using assms abs_in_unsigned [of "num_type n" "num_value n"]
  by (simp add: cn_UnsignedAbs_def Let_def cn_ok_def SafeUnsignedAbs_eq CheckedNumeric_of_valid)

lemma cn_Cast_exact:
  assumes "cn_ok n"
  shows "num_valid (cn_Cast t n) \<longleftrightarrow> num_valid n \<and> in_type t (num_value n)" "cn_ok (cn_Cast t n)" "num_type (cn_Cast t n) = t"
    "num_valid (cn_Cast t n) \<Longrightarrow> num_value (cn_Cast t n) = num_value n"
  using assms cn_IsValid_self [OF assms] by (simp_all add: cn_Cast_def CheckedNumeric_copy_def cn_ok_def CheckedNumeric_of_valid cast_in_type)

section \<open>Expressions\<close>

text \<open>What a client writes: literals, the binary operators, negation, \<open>Abs\<close> and \<open>Cast\<close>.\<close>

datatype binary = PlusOp | MinusOp | TimesOp | OverOp | MaxOp | MinOp | ShiftLeft | ShiftRight

datatype expr = Number int_type int | Binary binary expr expr | Negate expr | AbsOf expr | CastTo int_type expr

fun checked_binary :: "binary \<Rightarrow> compiler \<Rightarrow> operand \<Rightarrow> operand \<Rightarrow> checked_numeric" where
  "checked_binary PlusOp = CheckAdd" | "checked_binary MinusOp = CheckSub" | "checked_binary TimesOp = CheckMul"
| "checked_binary OverOp = CheckDiv" | "checked_binary MaxOp = CheckMax" | "checked_binary MinOp = CheckMin"
| "checked_binary ShiftLeft = CheckLsh" | "checked_binary ShiftRight = CheckRsh"

fun binary_math :: "binary \<Rightarrow> int \<Rightarrow> int \<Rightarrow> int" where
  "binary_math PlusOp x y = x + y" | "binary_math MinusOp x y = x - y" | "binary_math TimesOp x y = x * y"
| "binary_math OverOp x y = x sdiv y" | "binary_math MaxOp x y = max x y" | "binary_math MinOp x y = min x y"
| "binary_math ShiftLeft x y = x * 2 ^ nat y" | "binary_math ShiftRight x y = x div 2 ^ nat y"

fun binary_defined :: "binary \<Rightarrow> int_type \<Rightarrow> int \<Rightarrow> int \<Rightarrow> bool" where
  "binary_defined OverOp t x y \<longleftrightarrow> y \<noteq> 0"
| "binary_defined ShiftLeft t x y \<longleftrightarrow> shift_left_defined t x y"
| "binary_defined ShiftRight t x y \<longleftrightarrow> shift_right_defined t x y"
| "binary_defined op t x y \<longleftrightarrow> True"

fun binary_type :: "binary \<Rightarrow> int_type \<Rightarrow> int_type \<Rightarrow> int_type" where
  "binary_type MinOp t u = LowestValuePromotion t u"
| "binary_type ShiftLeft t u = t" | "binary_type ShiftRight t u = t"
| "binary_type op t u = MaxExponentPromotion t u"

fun checked_eval :: "compiler \<Rightarrow> expr \<Rightarrow> checked_numeric" where
  "checked_eval c (Number t v) = CheckedNumeric_of t t v True"
| "checked_eval c (Binary op a b) = checked_binary op c (Checked (checked_eval c a)) (Checked (checked_eval c b))"
| "checked_eval c (Negate a) = cn_negate (checked_eval c a)"
| "checked_eval c (AbsOf a) = cn_Abs (checked_eval c a)"
| "checked_eval c (CastTo t a) = cn_Cast t (checked_eval c a)"

fun expr_math :: "expr \<Rightarrow> int" where
  "expr_math (Number t v) = v"
| "expr_math (Binary op a b) = binary_math op (expr_math a) (expr_math b)"
| "expr_math (Negate a) = - expr_math a"
| "expr_math (AbsOf a) = \<bar>expr_math a\<bar>"
| "expr_math (CastTo t a) = expr_math a"

fun expr_type :: "expr \<Rightarrow> int_type" where
  "expr_type (Number t v) = t"
| "expr_type (Binary op a b) = binary_type op (expr_type a) (expr_type b)"
| "expr_type (Negate a) = expr_type a"
| "expr_type (AbsOf a) = expr_type a"
| "expr_type (CastTo t a) = t"

text \<open>No division by zero and no shift out of range anywhere in the expression.\<close>

fun expr_defined :: "expr \<Rightarrow> bool" where
  "expr_defined (Number t v) \<longleftrightarrow> True"
| "expr_defined (Binary op a b) \<longleftrightarrow> expr_defined a \<and> expr_defined b \<and> binary_defined op (expr_type a) (expr_math a) (expr_math b)"
| "expr_defined (Negate a) \<longleftrightarrow> expr_defined a"
| "expr_defined (AbsOf a) \<longleftrightarrow> expr_defined a"
| "expr_defined (CastTo t a) \<longleftrightarrow> expr_defined a"

text \<open>Literals are values of their types, and only signed expressions are negated.\<close>

fun expr_ok :: "expr \<Rightarrow> bool" where
  "expr_ok (Number t v) \<longleftrightarrow> in_type t v"
| "expr_ok (Binary op a b) \<longleftrightarrow> expr_ok a \<and> expr_ok b"
| "expr_ok (Negate a) \<longleftrightarrow> expr_ok a \<and> is_signed (expr_type a)"
| "expr_ok (AbsOf a) \<longleftrightarrow> expr_ok a"
| "expr_ok (CastTo t a) \<longleftrightarrow> expr_ok a"

lemmas Check_defs = CheckAdd_def CheckSub_def CheckMul_def CheckDiv_def CheckMax_def CheckMin_def CheckLsh_def CheckRsh_def

lemma checked_binary_sound:
  assumes "operand_ok a" "operand_ok b"
  shows "cn_ok (checked_binary op c a b) \<and> num_type (checked_binary op c a b) = binary_type op (UnderlyingType a) (UnderlyingType b)
    \<and> (num_valid (checked_binary op c a b) \<longrightarrow> Wrapper_is_valid a \<and> Wrapper_is_valid b
       \<and> num_value (checked_binary op c a b) = binary_math op (Wrapper_value a) (Wrapper_value b)
       \<and> binary_defined op (UnderlyingType a) (Wrapper_value a) (Wrapper_value b))"
  using add_op.CheckMathOp_sound [OF assms, of c] sub_op.CheckMathOp_sound [OF assms, of c] mul_op.CheckMathOp_sound [OF assms, of c]
    div_op.CheckMathOp_sound [OF assms, of c] max_op.CheckMathOp_sound [OF assms, of c] min_op.CheckMathOp_sound [OF assms, of c]
    lsh_op.CheckMathOp_sound [OF assms, of c] rsh_op.CheckMathOp_sound [OF assms, of c]
  by (cases op) (simp_all add: Check_defs)

lemma checked_eval_sound:
  "expr_ok e \<Longrightarrow> cn_ok (checked_eval c e) \<and> num_type (checked_eval c e) = expr_type e
    \<and> (num_valid (checked_eval c e) \<longrightarrow> num_value (checked_eval c e) = expr_math e \<and> expr_defined e)"
proof (induction e)
  case (Binary op a b)
  then show ?case using checked_binary_sound [of "Checked (checked_eval c a)" "Checked (checked_eval c b)" op c]
    by (auto simp: cn_IsValid_def)
next
  case (Negate a)
  then show ?case using cn_negate_signed [of "checked_eval c a"] by auto
next
  case (AbsOf a)
  then show ?case using cn_Abs_exact [of "checked_eval c a"] by auto
next
  case (CastTo t a)
  then show ?case using cn_Cast_exact [of "checked_eval c a" t] by auto
qed simp

section \<open>When an expression is valid\<close>

text \<open>
  The type pairs for which a type holds the values of both operands: all but a signed type with \<open>uint64_t\<close>. For them every
  compiler reports success exactly when the operation is defined and its result fits.
\<close>

fun binary_unmixed :: "binary \<Rightarrow> int_type \<Rightarrow> int_type \<Rightarrow> bool" where
  "binary_unmixed MaxOp t u = True" | "binary_unmixed MinOp t u = True"
| "binary_unmixed ShiftLeft t u = True" | "binary_unmixed ShiftRight t u = True"
| "binary_unmixed op t u = snd (BigEnoughPromotion t u)"

lemma unmixed_promotion:
  assumes "snd (BigEnoughPromotion t u)" "in_type t x" "in_type u y"
  shows "in_type (fst (BigEnoughPromotion t u)) x" "in_type (fst (BigEnoughPromotion t u)) y"
    "in_type (FastIntegerArithmeticPromotion t u) x" "in_type (FastIntegerArithmeticPromotion t u) y"
    "in_type (MaxExponentPromotion t u) z \<Longrightarrow> in_type (FastIntegerArithmeticPromotion t u) z"
proof -
  have b: "contained (fst (BigEnoughPromotion t u)) t" "contained (fst (BigEnoughPromotion t u)) u"
    by (cases rule: BigEnoughPromotion_cases [of t u]; use assms(1) in simp)+
  then have f: "contained (FastIntegerArithmeticPromotion t u) t \<and> contained (FastIntegerArithmeticPromotion t u) u"
    using Fast_safe [of t u] Fast_unsafe [of t u] by (cases "IsIntegerArithmeticSafe (FastIntegerArithmeticPromotion t u) t u") auto
  show "in_type (fst (BigEnoughPromotion t u)) x" "in_type (fst (BigEnoughPromotion t u)) y"
    "in_type (FastIntegerArithmeticPromotion t u) x" "in_type (FastIntegerArithmeticPromotion t u) y"
    using b f assms contained_in_type by blast+
  show "in_type (MaxExponentPromotion t u) z \<Longrightarrow> in_type (FastIntegerArithmeticPromotion t u) z"
    using f MaxExponentPromotion_cases [of t u] contained_in_type by metis
qed

lemma checked_binary_complete:
  assumes a: "operand_ok a" and b: "operand_ok b" and m: "binary_unmixed op (UnderlyingType a) (UnderlyingType b)"
  shows "num_valid (checked_binary op c a b) \<longleftrightarrow> Wrapper_is_valid a \<and> Wrapper_is_valid b
    \<and> binary_defined op (UnderlyingType a) (Wrapper_value a) (Wrapper_value b)
    \<and> in_type (binary_type op (UnderlyingType a) (UnderlyingType b)) (binary_math op (Wrapper_value a) (Wrapper_value b))"
proof -
  let ?t = "UnderlyingType a" and ?u = "UnderlyingType b" and ?x = "Wrapper_value a" and ?y = "Wrapper_value b"
  have v: "in_type ?t ?x" "in_type ?u ?y" using a b by (auto simp: operand_ok_def)
  show ?thesis
  proof (cases op)
    case PlusOp
    then show ?thesis using m v unmixed_promotion [of ?t ?u ?x ?y]
      by (auto simp: Check_defs add_op.CheckMathOp_valid [OF a b] CheckedAddOp_exact [OF v refl])
  next
    case MinusOp
    then show ?thesis using m v unmixed_promotion [of ?t ?u ?x ?y]
      by (auto simp: Check_defs sub_op.CheckMathOp_valid [OF a b] CheckedSubOp_exact [OF v refl])
  next
    case TimesOp
    then show ?thesis using m v unmixed_promotion [of ?t ?u ?x ?y]
      by (auto simp: Check_defs mul_op.CheckMathOp_valid [OF a b] CheckedMulOp_exact [OF v refl])
  next
    case OverOp
    then show ?thesis using m v unmixed_promotion [of ?t ?u ?x ?y]
      by (auto simp: Check_defs div_op.CheckMathOp_valid [OF a b] CheckedDivOp_exact [OF v refl])
  next
    case MaxOp
    then show ?thesis by (auto simp: Check_defs max_op.CheckMathOp_valid [OF a b] CheckedMaxOp_exact [OF v])
  next
    case MinOp
    then show ?thesis by (auto simp: Check_defs min_op.CheckMathOp_valid [OF a b] CheckedMinOp_exact [OF v])
  next
    case ShiftLeft
    then show ?thesis using CheckedLshOp_exact [OF v in_type_0, of c]
      by (auto simp: shift_left_defined_def Check_defs lsh_op.CheckMathOp_valid [OF a b] split: if_splits)
  next
    case ShiftRight
    then show ?thesis using drop_bit_range [OF v(1), of "nat ?y"]
      by (auto simp: shift_right_defined_def Check_defs rsh_op.CheckMathOp_valid [OF a b] CheckedRshOp_exact [OF v] drop_bit_eq_div)
  qed
qed

text \<open>Every intermediate result is defined and fits its type.\<close>

fun expr_fits :: "expr \<Rightarrow> bool" where
  "expr_fits (Number t v) \<longleftrightarrow> True"
| "expr_fits (Binary op a b) \<longleftrightarrow> expr_fits a \<and> expr_fits b \<and> binary_defined op (expr_type a) (expr_math a) (expr_math b)
     \<and> in_type (binary_type op (expr_type a) (expr_type b)) (binary_math op (expr_math a) (expr_math b))"
| "expr_fits (Negate a) \<longleftrightarrow> expr_fits a \<and> in_type (expr_type a) (- expr_math a)"
| "expr_fits (AbsOf a) \<longleftrightarrow> expr_fits a \<and> in_type (expr_type a) \<bar>expr_math a\<bar>"
| "expr_fits (CastTo t a) \<longleftrightarrow> expr_fits a \<and> in_type t (expr_math a)"

fun expr_unmixed :: "expr \<Rightarrow> bool" where
  "expr_unmixed (Number t v) \<longleftrightarrow> True"
| "expr_unmixed (Binary op a b) \<longleftrightarrow> expr_unmixed a \<and> expr_unmixed b \<and> binary_unmixed op (expr_type a) (expr_type b)"
| "expr_unmixed (Negate a) \<longleftrightarrow> expr_unmixed a"
| "expr_unmixed (AbsOf a) \<longleftrightarrow> expr_unmixed a"
| "expr_unmixed (CastTo t a) \<longleftrightarrow> expr_unmixed a"

lemma checked_eval_valid:
  "expr_ok e \<Longrightarrow> expr_unmixed e \<Longrightarrow> num_valid (checked_eval c e) \<longleftrightarrow> expr_fits e"
proof (induction e)
  case (Number t v)
  then show ?case by (simp add: CheckedNumeric_of_valid)
next
  case (Binary op a b)
  then have s: "cn_ok (checked_eval c a)" "cn_ok (checked_eval c b)"
    "num_type (checked_eval c a) = expr_type a" "num_type (checked_eval c b) = expr_type b"
    "num_valid (checked_eval c a) \<Longrightarrow> num_value (checked_eval c a) = expr_math a"
    "num_valid (checked_eval c b) \<Longrightarrow> num_value (checked_eval c b) = expr_math b"
    using checked_eval_sound [of a c] checked_eval_sound [of b c] by auto
  show ?case using Binary s checked_binary_complete [of "Checked (checked_eval c a)" "Checked (checked_eval c b)" op c]
    cn_IsValid_self [OF s(1)] cn_IsValid_self [OF s(2)] by auto
next
  case (Negate a)
  then show ?case using cn_negate_signed(3) [of "checked_eval c a"] checked_eval_sound [of a c] by auto
next
  case (AbsOf a)
  then show ?case using cn_Abs_exact(3) [of "checked_eval c a"] checked_eval_sound [of a c] by auto
next
  case (CastTo t a)
  then show ?case using cn_Cast_exact(1) [of "checked_eval c a" t] checked_eval_sound [of a c] by auto
qed

section \<open>Properties\<close>

text \<open>
  C29. An expression of checked numbers whose value can be read is exact: if \<open>ValueOrDie\<close> returns, no step of the expression has
  divided by zero or shifted out of range, what it returns is the integer that the expression denotes, and it fits the type
  asked for. The expressions are built from literals by addition, subtraction, multiplication, division, \<open>Max\<close>, \<open>Min\<close>, the shifts, \<open>Abs\<close>,
  \<open>Cast\<close> and the negation of signed expressions, over any mix of the integer types, with or without the compiler's overflow
  builtins. The remainder, the bitwise operators and the negation of unsigned numbers are not among them: the first and the last
  are not exact, as shown below.
\<close>

theorem checked_expression_sound:
  assumes "expr_ok e" and "ValueOrDie dst (checked_eval c e) = Inr z"
  shows "expr_defined e \<and> z = expr_math e \<and> in_type dst z"
proof -
  note s = checked_eval_sound [OF assms(1), of c]
  have v: "cn_IsValid dst (checked_eval c e)" "z = cast dst (num_value (checked_eval c e))"
    using assms(2) by (auto simp: ValueOrDie_def)
  then have "num_value (checked_eval c e) = expr_math e" "expr_defined e" "in_type dst (expr_math e)"
    using s cn_IsValid_iff [of "checked_eval c e" dst] by auto
  then show ?thesis using v by simp
qed

theorem checked_expression_sound_witness:
  "ValueOrDie Int16 (checked_eval Gcc (Binary PlusOp (Number Int8 100) (Number UInt8 100))) = Inr 200 \<and> in_type Int16 200"
proof -
  let ?e = "Binary PlusOp (Number Int8 100) (Number UInt8 100)"
  have "ValueOrDie Int16 (checked_eval Gcc ?e) = Inr 200"
    by (simp add: ValueOrDie_def cn_IsValid_def CheckAdd_def CheckMathOp_def MathOp_def CheckedAddOp_def CheckedAddFastOp_supported_def
        builtin_no_overflow_def CheckedNumeric_of_def IsValueInRange_iff promotion_defs in_type_def cast_def)
  then show ?thesis using checked_expression_sound [of ?e Int16 Gcc 200] by (simp add: in_type_def)
qed

text \<open>
  Where no operator mixes a signed type with \<open>uint64_t\<close>, the result of an expression is determined: the
  value is returned iff every intermediate result is defined and fits its type, and otherwise the
  access traps. It does not depend on the compiler: the portable bit tricks and the overflow builtins
  agree.
\<close>

theorem checked_expression_exact:
  assumes "expr_ok e" and "expr_unmixed e"
  shows "ValueOrDie dst (checked_eval c e) =
    (if expr_fits e \<and> in_type dst (expr_math e) then Inr (expr_math e) else Inl CheckFailed)"
proof -
  note s = checked_eval_sound [OF assms(1), of c] and v = checked_eval_valid [OF assms, of c]
  have "cn_IsValid dst (checked_eval c e) \<longleftrightarrow> expr_fits e \<and> in_type dst (expr_math e)"
    using s v cn_IsValid_iff [of "checked_eval c e" dst] by auto
  then show ?thesis using s v by (auto simp: ValueOrDie_def)
qed

theorem checked_expression_exact_witness:
  "ValueOrDie UInt8 (checked_eval Portable (Binary PlusOp (Number Int64 9223372036854775807) (Number Int32 1))) = Inl CheckFailed \<and>
   ValueOrDie UInt8 (checked_eval Clang (Binary TimesOp (Number UInt32 40) (AbsOf (Number Int32 (- 5))))) = Inr 200"
  using checked_expression_exact [of "Binary PlusOp (Number Int64 9223372036854775807) (Number Int32 1)" UInt8 Portable]
    checked_expression_exact [of "Binary TimesOp (Number UInt32 40) (AbsOf (Number Int32 (- 5)))" UInt8 Clang]
  by (simp add: in_type_def promotion_defs)

section \<open>Surprises\<close>

text \<open>
  The remainder of a signed and an unsigned 64-bit number converts the operands without a check: -1 modulo 10 is
  reported as a valid 5.
\<close>

theorem checked_mod_mixed_wrong:
  "num_valid (CheckMod c (Plain Int64 (- 1)) (Plain UInt64 10)) \<and> num_value (CheckMod c (Plain Int64 (- 1)) (Plain UInt64 10)) = 5"
  by (simp add: CheckMod_def CheckMathOp_def MathOp_def CheckedModOp_def Let_def promotion_defs lowest_by_minus_one_def CheckedNumeric_of_def IsValueInRange_iff in_type_def cast_def)

text \<open>The negation of an unsigned number is valid and wraps.\<close>

theorem checked_negate_unsigned_wraps:
  "num_valid (cn_negate \<lparr>num_type = UInt32, num_valid = True, num_value = 5\<rparr>) \<and>
   num_value (cn_negate \<lparr>num_type = UInt32, num_valid = True, num_value = 5\<rparr>) = 4294967291"
  by (simp add: cn_negate_def Let_def NegateWrapper_eq CheckedNumeric_of_def cn_IsValid_def IsValueInRange_iff in_type_def cast_def)

text \<open>The complement of a nonnegative signed number is invalid, although it fits the type.\<close>

theorem checked_invert_invalid:
  "\<not> num_valid (cn_invert \<lparr>num_type = Int32, num_valid = True, num_value = 0\<rparr>)"
  by (simp add: cn_invert_def Let_def CheckedNumeric_copy_def CheckedNumeric_of_def InvertWrapper_def cn_IsValid_def cast_def IsValueInRange_iff in_type_def)

end
