(* ===== verification/ClampedMath.thy ===== *)
theory ClampedMath
  imports CheckedProps
begin

text \<open>
  base/numerics/clamped_math_impl.h and clamped_math.h, for integers: arithmetic that saturates. The operations build on the
  checked ones; the assembler fast paths exist only for Arm and are not taken.
\<close>

unbundle bit_operations_syntax

section \<open>Unary operations\<close>

text \<open>\<open>is_constant\<close> is \<open>IsCompileTimeConstant(value)\<close>; only GCC and Clang can tell, and only they have the fast negation.\<close>

definition ClampedNegFastOp :: "int_type \<Rightarrow> int \<Rightarrow> int" where
  "ClampedNegFastOp t v = (case builtin_no_overflow t (0 - v) of (ok, result) \<Rightarrow> if ok then result else highest t)"

definition SaturatedNegWrapper :: "compiler \<Rightarrow> bool \<Rightarrow> int_type \<Rightarrow> int \<Rightarrow> int" where
  "SaturatedNegWrapper c is_constant t v =
     (if is_signed t then
        if is_constant \<or> c = Portable then (if NegateWrapper t v \<noteq> lowest t then NegateWrapper t v else highest t)
        else ClampedNegFastOp t v
      else 0)"

definition SaturatedAbsWrapper :: "int_type \<Rightarrow> int \<Rightarrow> int" where
  "SaturatedAbsWrapper t v = cast t (SafeUnsignedAbs t v - of_bool (IsValueNegative t (cast t (SafeUnsignedAbs t v))))"

section \<open>Binary operations\<close>

type_synonym clamped_op = "compiler \<Rightarrow> int_type \<Rightarrow> int_type \<Rightarrow> int_type \<Rightarrow> int \<Rightarrow> int \<Rightarrow> int"

definition ClampedAddOp :: clamped_op where
  "ClampedAddOp c t u v x y =
     (let saturated = CommonMaxOrMin v v (IsValueNegative u y); (ok, result) = CheckedAddOp c t u v x y 0 in
      if ok then result else saturated)"

definition ClampedSubOp :: clamped_op where
  "ClampedSubOp c t u v x y =
     (let saturated = CommonMaxOrMin v v (\<not> IsValueNegative u y); (ok, result) = CheckedSubOp c t u v x y 0 in
      if ok then result else saturated)"

definition ClampedMulOp :: clamped_op where
  "ClampedMulOp c t u v x y =
     (let saturated = CommonMaxOrMin v v (IsValueNegative t x \<noteq> IsValueNegative u y); (ok, result) = CheckedMulOp c t u v x y 0 in
      if ok then result else saturated)"

definition ClampedDivOp :: clamped_op where
  "ClampedDivOp c t u v x y =
     (let (ok, result) = CheckedDivOp c t u v x y 0 in
      if ok then result
      else if x \<noteq> 0 then CommonMaxOrMin v v (IsValueNegative t x \<noteq> IsValueNegative u y) else 0)"

definition ClampedModOp :: clamped_op where
  "ClampedModOp c t u v x y =
     (let (ok, result) = CheckedModOp c t u v x y 0 in if ok then result else cast v x)"

text \<open>The shift count has an unsigned type.\<close>

definition ClampedLshOp :: clamped_op where
  "ClampedLshOp c t u v x shift =
     (let result = cast v (cast (promote (make_unsigned t)) (push_bit (nat shift) (as_unsigned t x))) in
      if shift < int (digits t) \<and> cast (common_type v t) (drop_bit (nat shift) result) = cast (common_type v t) x
      then result else if x \<noteq> 0 then CommonMaxOrMin v v (IsValueNegative t x) else 0)"

definition ClampedRshOp :: "bool \<Rightarrow> clamped_op" where
  "ClampedRshOp is_constant c t u v x shift =
     (let saturated = cast v (as_unsigned v 0 - of_bool (IsValueNegative t x)) in
      if shift < int (IntegerBitsPlusSign t) then base_saturated_cast is_constant v (promote t) (drop_bit (nat shift) x)
      else saturated)"

definition ClampedAndOp :: clamped_op where
  "ClampedAndOp c t u v x y = (let rt = BitwiseResult t u in cast v (cast rt (cast rt x AND cast rt y)))"

definition ClampedOrOp :: clamped_op where
  "ClampedOrOp c t u v x y = (let rt = BitwiseResult t u in cast v (cast rt (cast rt x OR cast rt y)))"

definition ClampedXorOp :: clamped_op where
  "ClampedXorOp c t u v x y = (let rt = BitwiseResult t u in cast v (cast rt (cast rt x XOR cast rt y)))"

definition ClampedMaxOp :: "bool \<Rightarrow> clamped_op" where
  "ClampedMaxOp is_constant c t u v x y =
     (if IsGreater t x u y then base_saturated_cast is_constant v t x else base_saturated_cast is_constant v u y)"

definition ClampedMinOp :: "bool \<Rightarrow> clamped_op" where
  "ClampedMinOp is_constant c t u v x y =
     (if IsLess t x u y then base_saturated_cast is_constant v t x else base_saturated_cast is_constant v u y)"

section \<open>ClampedNumeric\<close>

text \<open>A \<open>ClampedNumeric<T>\<close>: \<open>clamped_type\<close> is \<open>T\<close>.\<close>

record clamped_numeric =
  clamped_type :: int_type
  clamped_value :: int

definition ClampedNumeric_of :: "bool \<Rightarrow> int_type \<Rightarrow> int_type \<Rightarrow> int \<Rightarrow> clamped_numeric" where
  "ClampedNumeric_of k t src v = \<lparr>clamped_type = t, clamped_value = base_saturated_cast k t src v\<rparr>"

definition ClampedNumeric_copy :: "bool \<Rightarrow> int_type \<Rightarrow> clamped_numeric \<Rightarrow> clamped_numeric" where
  "ClampedNumeric_copy k t n = ClampedNumeric_of k t (clamped_type n) (clamped_value n)"

definition clamped_negate :: "compiler \<Rightarrow> bool \<Rightarrow> clamped_numeric \<Rightarrow> clamped_numeric" where
  "clamped_negate c k n =
     (let t = clamped_type n in ClampedNumeric_of k t t (SaturatedNegWrapper c k t (clamped_value n)))"

text \<open>\<open>operator~\<close>: the value of the unsigned type is saturated to the type of the operand.\<close>

definition clamped_invert :: "bool \<Rightarrow> clamped_numeric \<Rightarrow> clamped_numeric" where
  "clamped_invert k n =
     (let t = clamped_type n; ut = make_unsigned t in
      ClampedNumeric_copy k t (ClampedNumeric_of k ut ut (InvertWrapper t (clamped_value n))))"

definition clamped_Abs :: "bool \<Rightarrow> clamped_numeric \<Rightarrow> clamped_numeric" where
  "clamped_Abs k n = (let t = clamped_type n in ClampedNumeric_of k t t (SaturatedAbsWrapper t (clamped_value n)))"

definition clamped_UnsignedAbs :: "bool \<Rightarrow> clamped_numeric \<Rightarrow> clamped_numeric" where
  "clamped_UnsignedAbs k n =
     (let t = clamped_type n; ut = make_unsigned t in ClampedNumeric_of k ut ut (SafeUnsignedAbs t (clamped_value n)))"

definition clamped_convert :: "bool \<Rightarrow> int_type \<Rightarrow> clamped_numeric \<Rightarrow> int" where
  "clamped_convert k dst n = base_saturated_cast k dst (clamped_type n) (clamped_value n)"

text \<open>\<open>MathOp\<close> on the values that \<open>Wrapper\<close> extracts, each with its type.\<close>

definition ClampedMathOp :: "clamped_op \<Rightarrow> bool \<Rightarrow> compiler \<Rightarrow> int_type \<Rightarrow> clamped_numeric \<Rightarrow> clamped_numeric \<Rightarrow> clamped_numeric" where
  "ClampedMathOp M k c t lhs rhs =
     ClampedNumeric_of k t t (M c (clamped_type lhs) (clamped_type rhs) t (clamped_value lhs) (clamped_value rhs))"

definition ClampedMathOp_assign :: "clamped_op \<Rightarrow> bool \<Rightarrow> compiler \<Rightarrow> clamped_numeric \<Rightarrow> clamped_numeric \<Rightarrow> clamped_numeric" where
  "ClampedMathOp_assign M k c n rhs = ClampedMathOp M k c (clamped_type n) n rhs"

definition clamped_increment :: "bool \<Rightarrow> compiler \<Rightarrow> clamped_numeric \<Rightarrow> clamped_numeric" where
  "clamped_increment k c n = ClampedMathOp_assign ClampedAddOp k c n \<lparr>clamped_type = Int32, clamped_value = 1\<rparr>"

definition clamped_decrement :: "bool \<Rightarrow> compiler \<Rightarrow> clamped_numeric \<Rightarrow> clamped_numeric" where
  "clamped_decrement k c n = ClampedMathOp_assign ClampedSubOp k c n \<lparr>clamped_type = Int32, clamped_value = 1\<rparr>"

definition ClampMathOp ::
  "clamped_op \<Rightarrow> (int_type \<Rightarrow> int_type \<Rightarrow> int_type) \<Rightarrow> bool \<Rightarrow> compiler \<Rightarrow> clamped_numeric \<Rightarrow> clamped_numeric \<Rightarrow> clamped_numeric" where
  "ClampMathOp M result_type k c lhs rhs =
     ClampedMathOp M k c (result_type (clamped_type lhs) (clamped_type rhs)) lhs rhs"

fun ClampMathOps ::
  "clamped_op \<Rightarrow> (int_type \<Rightarrow> int_type \<Rightarrow> int_type) \<Rightarrow> bool \<Rightarrow> compiler \<Rightarrow> clamped_numeric \<Rightarrow> clamped_numeric \<Rightarrow> clamped_numeric list
    \<Rightarrow> clamped_numeric" where
  "ClampMathOps M rt k c lhs rhs [] = ClampMathOp M rt k c lhs rhs"
| "ClampMathOps M rt k c lhs rhs (a # args) = ClampMathOps M rt k c (ClampMathOp M rt k c lhs rhs) a args"

section \<open>Saturation\<close>

lemma saturate_at: "\<not> in_type v z \<Longrightarrow> (b \<Longrightarrow> z \<le> 0) \<Longrightarrow> (\<not> b \<Longrightarrow> 0 \<le> z) \<Longrightarrow> CommonMaxOrMin v v b = clamp v z"
  using lowest_nonpos [of v] unfolding CommonMaxOrMin_self by (cases b) (auto simp: in_type_def clamp_def)

lemma saturate_from:
  assumes "\<not> in_type v (x + d)" "in_type v x" "b \<longleftrightarrow> d < 0"
  shows "CommonMaxOrMin v v b = clamp v (x + d)"
  using assms lowest_le_highest [of v] unfolding CommonMaxOrMin_self by (cases b) (auto simp: in_type_def clamp_def)

lemma result_in_promotion:
  assumes "snd (BigEnoughPromotion t u)" "in_type t x" "in_type u y" "v = t \<or> v = MaxExponentPromotion t u" "in_type v z"
  shows "in_type (FastIntegerArithmeticPromotion t u) z"
  using assms unmixed_promotion(5) [OF assms(1-3), of z] unmixed_promotion(3) [OF assms(1) _ assms(3), of z] by blast

lemma ClampedAddOp_exact:
  assumes x: "in_type t x" and y: "in_type u y" and m: "snd (BigEnoughPromotion t u)"
    and v: "v = t \<or> v = MaxExponentPromotion t u" and xv: "in_type v x"
  shows "ClampedAddOp c t u v x y = clamp v (x + y)"
  using result_in_promotion [OF m x y v, of "x + y"] unmixed_promotion [OF m x y] saturate_from [of v x y] xv IsValueNegative_iff [OF y]
  by (auto simp: ClampedAddOp_def Let_def CheckedAddOp_exact [OF x y refl] clamp_simps)

lemma ClampedSubOp_exact:
  assumes x: "in_type t x" and y: "in_type u y" and m: "snd (BigEnoughPromotion t u)"
    and v: "v = t \<or> v = MaxExponentPromotion t u" and xv: "in_type v x"
  shows "ClampedSubOp c t u v x y = clamp v (x - y)"
proof (cases "in_type v (x - y)")
  case True
  then show ?thesis using result_in_promotion [OF m x y v True] unmixed_promotion [OF m x y]
    by (simp add: ClampedSubOp_def Let_def CheckedSubOp_exact [OF x y refl v] clamp_simps)
next
  case False
  then have "CommonMaxOrMin v v (\<not> IsValueNegative u y) = clamp v (x - y)"
    using saturate_from [of v x "- y" "0 < y"] xv IsValueNegative_iff [OF y] by (cases "y = 0") auto
  then show ?thesis using False by (simp add: ClampedSubOp_def Let_def CheckedSubOp_exact [OF x y refl v])
qed

lemma ClampedMulOp_exact:
  assumes x: "in_type t x" and y: "in_type u y" and m: "snd (BigEnoughPromotion t u)" and v: "v = t \<or> v = MaxExponentPromotion t u"
  shows "ClampedMulOp c t u v x y = clamp v (x * y)"
proof (cases "in_type v (x * y)")
  case True
  then show ?thesis using result_in_promotion [OF m x y v True] unmixed_promotion [OF m x y]
    by (simp add: ClampedMulOp_def Let_def CheckedMulOp_exact [OF x y refl] clamp_simps)
next
  case False
  then have "CommonMaxOrMin v v (IsValueNegative t x \<noteq> IsValueNegative u y) = clamp v (x * y)"
    using IsValueNegative_iff [OF x] IsValueNegative_iff [OF y]
    by (intro saturate_at) (auto simp: mult_le_0_iff zero_le_mult_iff not_less)
  then show ?thesis using False by (simp add: ClampedMulOp_def Let_def CheckedMulOp_exact [OF x y refl])
qed

lemma sdiv_sign: "(x < 0) \<noteq> (y < 0) \<Longrightarrow> x sdiv y \<le> 0" "(x < 0) = (y < 0) \<Longrightarrow> 0 \<le> x sdiv y" for x y :: int
  by (auto simp: signed_divide_int_def sgn_if pos_imp_zdiv_nonneg_iff div_int_pos_iff)

text \<open>Division by zero saturates in the direction of the dividend; zero by zero is zero.\<close>

lemma ClampedDivOp_exact:
  assumes x: "in_type t x" and y: "in_type u y" and m: "snd (BigEnoughPromotion t u)" and v: "v = t \<or> v = MaxExponentPromotion t u"
  shows "ClampedDivOp c t u v x y =
    (if y \<noteq> 0 then clamp v (x sdiv y) else if x = 0 then 0 else if x < 0 then lowest v else highest v)"
proof -
  note d = CheckedDivOp_exact [OF x y refl v, of c 0] unmixed_promotion [OF m x y]
  have n: "IsValueNegative t x \<longleftrightarrow> x < 0" "IsValueNegative u y \<longleftrightarrow> y < 0" using x y by (simp_all add: IsValueNegative_iff)
  consider "y = 0" | "y \<noteq> 0" "in_type v (x sdiv y)" | "y \<noteq> 0" "\<not> in_type v (x sdiv y)" by blast
  then show ?thesis
  proof cases
    case 3
    then have "x \<noteq> 0" using in_type_0 [of v] by auto
    moreover have "CommonMaxOrMin v v ((x < 0) \<noteq> (y < 0)) = clamp v (x sdiv y)"
      using 3 sdiv_sign [of x y] by (intro saturate_at) auto
    ultimately show ?thesis using 3 d n by (simp add: ClampedDivOp_def Let_def)
  qed (use d n in \<open>simp_all add: ClampedDivOp_def Let_def CommonMaxOrMin_self clamp_simps\<close>)
qed

lemma ClampedLshOp_exact:
  assumes x: "in_type t x" and s: "0 \<le> s"
  shows "ClampedLshOp c t u t x s = clamp t (x * 2 ^ nat s)"
proof -
  let ?P = "promote (make_unsigned t)" and ?r = "cast t (x * 2 ^ nat s)"
  have w: "bits t \<le> bits ?P" by (cases t) (simp_all add: promote_def bits_def)
  have "take_bit (bits t) (push_bit (nat s) (as_unsigned t x)) = take_bit (bits t) (push_bit (nat s) x)"
    unfolding as_unsigned_def push_bit_eq_mult by (metis take_bit_mult take_bit_cast bits_make(1))
  then have r: "cast t (cast ?P (push_bit (nat s) (as_unsigned t x))) = ?r"
    using take_bit_cast_le [OF w] by (intro cast_cong) (simp add: push_bit_eq_mult)
  have id: "cast (common_type t t) z = z" if "in_type t z" for z using in_common_same_sign(1) [OF refl that] by simp
  have d: "in_type t (drop_bit (nat s) ?r)" by (rule drop_bit_range) (rule cast_in_type)
  have sb: "s < int (digits t) \<and> drop_bit (nat s) ?r = x \<longleftrightarrow> s < int (digits t) \<and> in_type t (x * 2 ^ nat s)"
    using shift_back [of "nat s" t x] digits_le(1) [of t] s by auto
  have op: "ClampedLshOp c t u t x s =
      (if s < int (digits t) \<and> in_type t (x * 2 ^ nat s) then x * 2 ^ nat s
       else if x \<noteq> 0 then (if x < 0 then lowest t else highest t) else 0)"
    unfolding ClampedLshOp_def Let_def r id [OF d] id [OF x] sb CommonMaxOrMin_self IsValueNegative_iff [OF x] by simp
  show ?thesis
  proof (cases "x = 0 \<or> s < int (digits t)")
    case True
    then show ?thesis unfolding op using in_type_0 [of t] saturate_at [of t "x * 2 ^ nat s" "x < 0"]
      by (auto simp: clamp_simps CommonMaxOrMin_self mult_le_0_iff)
  next
    case False
    have p: "(2::int) ^ digits t \<le> 2 ^ nat s" using False by (intro power_increasing) auto
    have h: "highest t = 2 ^ digits t - 1" "is_signed t \<Longrightarrow> lowest t = - (2 ^ digits t)" by (simp_all add: limits_bits digits_def)
    show ?thesis
    proof (cases "x < 0")
      case True
      then have "x * 2 ^ nat s \<le> - 1 * 2 ^ digits t" using p by (intro order_trans [OF mult_right_mono mult_left_mono_neg]) auto
      moreover have "is_signed t" using True x unsigned_range [of t] by (auto simp: in_type_def)
      ultimately show ?thesis unfolding op using True False h lowest_le_highest [of t] by (auto simp: clamp_def)
    next
      case x0: False
      then have "1 * 2 ^ digits t \<le> x * 2 ^ nat s" using p False by (intro mult_mono) auto
      then show ?thesis unfolding op using x0 False h lowest_le_highest [of t] by (auto simp: clamp_def)
    qed
  qed
qed

lemma ClampedRshOp_exact:
  assumes x: "in_type t x" and s: "0 \<le> s"
  shows "ClampedRshOp k c t u t x s = x div 2 ^ nat s"
proof (cases "s < int (bits t)")
  case True
  have d: "in_type t (drop_bit (nat s) x)" using x by (rule drop_bit_range)
  then have "base_saturated_cast k t (promote t) (drop_bit (nat s) x) = drop_bit (nat s) x"
    using saturated_exact [OF in_type_promote [OF d]] by (simp add: clamp_simps)
  then show ?thesis using True by (simp add: ClampedRshOp_def Let_def IntegerBitsPlusSign_eq drop_bit_eq_div)
next
  case False
  have p: "(2::int) ^ bits t \<le> 2 ^ nat s" using False by (intro power_increasing) auto
  have "\<bar>x\<bar> < 2 ^ bits t" using x bits_double [of t] by (auto simp: in_type_bits split: if_splits)
  then have b: "- (2 ^ nat s) < x" "x < 2 ^ nat s" using p by linarith+
  have "x div 2 ^ nat s = (if x < 0 then - 1 else 0)"
  proof (cases "x < 0")
    case True
    then show ?thesis using b int_div_pos_eq [of x "2 ^ nat s" "- 1" "x + 2 ^ nat s"] by simp
  qed (use b in \<open>simp add: div_pos_pos_trivial\<close>)
  moreover have "as_unsigned t 0 = 0" using as_unsigned_neg [OF in_type_0, of t] by simp
  moreover have "in_type t (- 1)" if "x < 0" using that x lowest_nonpos [of t] by (auto simp: in_type_def)
  ultimately show ?thesis using False in_type_0 [of t] IsValueNegative_iff [OF x]
    by (simp add: ClampedRshOp_def Let_def IntegerBitsPlusSign_eq)
qed

lemma ClampedMaxOp_exact: "in_type t x \<Longrightarrow> in_type u y \<Longrightarrow> ClampedMaxOp k c t u v x y = clamp v (max x y)"
  by (auto simp: ClampedMaxOp_def compare_exact saturated_exact max_def)

lemma ClampedMinOp_exact: "in_type t x \<Longrightarrow> in_type u y \<Longrightarrow> ClampedMinOp k c t u v x y = clamp v (min x y)"
  by (auto simp: ClampedMinOp_def compare_exact saturated_exact min_def)

lemma SaturatedNegWrapper_exact: "in_type t v \<Longrightarrow> SaturatedNegWrapper c k t v = clamp t (- v)"
proof (cases "is_signed t")
  case True
  assume v: "in_type t v"
  have "NegateWrapper t v \<noteq> lowest t \<longleftrightarrow> in_type t (- v)"
    using cn_negate_signed(3) [of "\<lparr>num_type = t, num_valid = True, num_value = v\<rparr>"] True v
    by (simp add: cn_ok_def cn_negate_def Let_def CheckedNumeric_of_valid cn_IsValid_iff NegateWrapper_eq cast_in_type)
  moreover have "\<not> in_type t (- v) \<Longrightarrow> clamp t (- v) = highest t"
    using v signed_range [OF True] by (intro clamp_simps) (auto simp: in_type_def)
  ultimately show ?thesis using True
    by (auto simp: SaturatedNegWrapper_def ClampedNegFastOp_def builtin_no_overflow_def NegateWrapper_eq clamp_simps)
next
  case False
  assume "in_type t v"
  then have "0 \<le> v" using False by (auto simp: in_type_def unsigned_range)
  then show ?thesis using False lowest_nonpos [of t] by (auto simp: SaturatedNegWrapper_def clamp_def unsigned_range)
qed

lemma SaturatedAbsWrapper_exact: "in_type t v \<Longrightarrow> SaturatedAbsWrapper t v = clamp t \<bar>v\<bar>"
proof -
  assume v: "in_type t v"
  note a = SafeUnsignedAbs_eq [OF v]
  show ?thesis
  proof (cases "in_type t \<bar>v\<bar>")
    case True
    then show ?thesis by (simp add: SaturatedAbsWrapper_def a IsValueNegative_iff clamp_simps)
  next
    case False
    have s: "is_signed t"
    proof (rule ccontr)
      assume "\<not> is_signed t"
      then have "0 \<le> v" using v unsigned_range [of t] by (simp add: in_type_def)
      then show False using False v by simp
    qed
    then have e: "\<bar>v\<bar> = highest t + 1" "highest t < \<bar>v\<bar>" using False v signed_range [of t] by (auto simp: in_type_def abs_if split: if_splits)
    then have "cast t \<bar>v\<bar> < 0" using s lowest_nonpos [of t] by (intro cast_wrap) auto
    then have "IsValueNegative t (cast t \<bar>v\<bar>)" by (simp add: IsValueNegative_def s)
    then show ?thesis using e in_type_limits [of t] by (simp add: SaturatedAbsWrapper_def a clamp_simps)
  qed
qed

section \<open>The operators\<close>

fun clamped_binary :: "binary \<Rightarrow> bool \<Rightarrow> compiler \<Rightarrow> clamped_numeric \<Rightarrow> clamped_numeric \<Rightarrow> clamped_numeric" where
  "clamped_binary PlusOp = ClampMathOp ClampedAddOp MaxExponentPromotion"
| "clamped_binary MinusOp = ClampMathOp ClampedSubOp MaxExponentPromotion"
| "clamped_binary TimesOp = ClampMathOp ClampedMulOp MaxExponentPromotion"
| "clamped_binary OverOp = ClampMathOp ClampedDivOp MaxExponentPromotion"
| "clamped_binary ShiftLeft = ClampMathOp ClampedLshOp (\<lambda>t u. t)"
| "clamped_binary ShiftRight = (\<lambda>k. ClampMathOp (ClampedRshOp k) (\<lambda>t u. t) k)"
| "clamped_binary MaxOp = (\<lambda>k. ClampMathOp (ClampedMaxOp k) MaxExponentPromotion k)"
| "clamped_binary MinOp = (\<lambda>k. ClampMathOp (ClampedMinOp k) LowestValuePromotion k)"

definition clamped_ok :: "clamped_numeric \<Rightarrow> bool" where
  "clamped_ok n \<longleftrightarrow> in_type (clamped_type n) (clamped_value n)"

text \<open>
  What an operator needs: a sum or difference starts from a left operand that its own type can hold, a shift count is
  unsigned (the \<open>static_assert\<close>), a divisor is not zero.
\<close>

fun clamped_defined :: "binary \<Rightarrow> int_type \<Rightarrow> int_type \<Rightarrow> int \<Rightarrow> int \<Rightarrow> bool" where
  "clamped_defined PlusOp t u x y \<longleftrightarrow> in_type (MaxExponentPromotion t u) x"
| "clamped_defined MinusOp t u x y \<longleftrightarrow> in_type (MaxExponentPromotion t u) x"
| "clamped_defined OverOp t u x y \<longleftrightarrow> y \<noteq> 0"
| "clamped_defined ShiftLeft t u x y \<longleftrightarrow> \<not> is_signed u"
| "clamped_defined ShiftRight t u x y \<longleftrightarrow> \<not> is_signed u"
| "clamped_defined op t u x y \<longleftrightarrow> True"

lemma clamp_idem: "base_saturated_cast k t t (clamp t z) = clamp t z"
proof -
  have "in_type t (clamp t z)" using lowest_le_highest [of t] by (simp add: in_type_def clamp_def)
  then show ?thesis by (simp add: saturated_exact clamp_simps)
qed

lemma clamp_in_type: "in_type t (clamp t z)"
  using lowest_le_highest [of t] by (simp add: in_type_def clamp_def)

lemmas clamp_op_defs = ClampMathOp_def ClampedMathOp_def ClampedNumeric_of_def

lemma clamped_binary_exact:
  assumes "clamped_ok a" and "clamped_ok b"
    and "binary_unmixed op (clamped_type a) (clamped_type b)"
    and "clamped_defined op (clamped_type a) (clamped_type b) (clamped_value a) (clamped_value b)"
  shows "clamped_binary op k c a b =
    \<lparr>clamped_type = binary_type op (clamped_type a) (clamped_type b),
     clamped_value = clamp (binary_type op (clamped_type a) (clamped_type b)) (binary_math op (clamped_value a) (clamped_value b))\<rparr>"
proof -
  let ?t = "clamped_type a" and ?u = "clamped_type b" and ?x = "clamped_value a" and ?y = "clamped_value b"
  have v: "in_type ?t ?x" "in_type ?u ?y" using assms by (auto simp: clamped_ok_def)
  have y: "\<not> is_signed ?u \<Longrightarrow> 0 \<le> ?y" using v(2) unsigned_range [of ?u] by (simp add: in_type_def)
  have d: "in_type ?t (?x div 2 ^ nat ?y)" using drop_bit_range [OF v(1), of "nat ?y"] by (simp add: drop_bit_eq_div)
  show ?thesis
  proof (cases op)
    case ShiftLeft
    then show ?thesis using assms y by (simp add: clamp_op_defs ClampedLshOp_exact [OF v(1)] clamp_idem)
  next
    case ShiftRight
    then show ?thesis using assms y d by (simp add: clamp_op_defs ClampedRshOp_exact [OF v(1)] saturated_exact)
  qed (use assms in \<open>simp_all add: clamp_op_defs clamp_idem ClampedAddOp_exact [OF v] ClampedSubOp_exact [OF v]
      ClampedMulOp_exact [OF v] ClampedDivOp_exact [OF v] ClampedMaxOp_exact [OF v] ClampedMinOp_exact [OF v]\<close>)
qed

text \<open>
  C30. The clamped operators saturate: sum, difference, product, quotient, shifts, maximum and minimum of any two
  integer types return the mathematical result clamped to the result type, on every compiler, where no operator mixes
  a signed type with \<open>uint64_t\<close>, a sum or difference starts from a value of the result type, the divisor is not
  zero and the shift count is unsigned.
\<close>

theorem clamped_operators_saturate:
  assumes "clamped_ok a" and "clamped_ok b"
    and "binary_unmixed op (clamped_type a) (clamped_type b)"
    and "clamped_defined op (clamped_type a) (clamped_type b) (clamped_value a) (clamped_value b)"
  shows "clamped_binary op k c a b =
    \<lparr>clamped_type = binary_type op (clamped_type a) (clamped_type b),
     clamped_value = clamp (binary_type op (clamped_type a) (clamped_type b)) (binary_math op (clamped_value a) (clamped_value b))\<rparr>"
  using assms by (rule clamped_binary_exact)

theorem clamped_operators_saturate_witness:
  "clamped_binary TimesOp True Clang \<lparr>clamped_type = Int8, clamped_value = - 100\<rparr> \<lparr>clamped_type = UInt8, clamped_value = 200\<rparr>
   = \<lparr>clamped_type = UInt8, clamped_value = 0\<rparr>"
  using clamped_operators_saturate [of "\<lparr>clamped_type = Int8, clamped_value = - 100\<rparr>" "\<lparr>clamped_type = UInt8, clamped_value = 200\<rparr>" TimesOp True Clang]
  by (simp add: clamped_ok_def in_type_def promotion_defs clamp_def)

lemmas checked_eval_defs = CheckedAddOp_def CheckedDivOp_def CheckedModOp_def builtin_no_overflow_def CheckedAddFastOp_supported_def
  in_type_def cast_def

section \<open>Surprises\<close>

text \<open>
  \<open>ClampAdd(int8_t(-5), uint8_t(3))\<close> has the type \<open>uint8_t\<close>. The sum -2 is below its range, but the direction of
  the saturation is the sign of the right operand: the result is 255, not 0.
\<close>

theorem clamp_add_saturates_upwards:
  "clamped_value (clamped_binary PlusOp k Gcc \<lparr>clamped_type = Int8, clamped_value = - 5\<rparr> \<lparr>clamped_type = UInt8, clamped_value = 3\<rparr>) = 255"
  by (simp add: clamp_op_defs ClampedAddOp_def checked_eval_defs promotion_defs CommonMaxOrMin_self IsValueNegative_def
      saturated_exact clamp_def)

text \<open>
  Dividing a \<open>ClampedNumeric<int64_t>\<close> of -5 by \<open>uint64_t(2)\<close> in place gives the lowest value, not -2: the dividend does
  not fit the promoted type, and the failed check is taken for an overflow.
\<close>

theorem clamped_divide_assign_saturates:
  "clamped_value (ClampedMathOp_assign ClampedDivOp k Gcc \<lparr>clamped_type = Int64, clamped_value = - 5\<rparr> \<lparr>clamped_type = UInt64, clamped_value = 2\<rparr>)
   = - 9223372036854775808"
  by (simp add: ClampedMathOp_assign_def clamp_op_defs ClampedDivOp_def CheckedDivOp_exact [OF _ _ refl] promotion_defs CommonMaxOrMin_self IsValueNegative_def
      saturated_exact clamp_def in_type_def)

text \<open>The complement of a clamped 0 of type \<open>int\<close> is the largest \<open>int\<close>, not -1.\<close>

theorem clamped_invert_saturates:
  "clamped_value (clamped_invert k \<lparr>clamped_type = Int32, clamped_value = 0\<rparr>) = 2147483647"
  by (simp add: clamped_invert_def Let_def ClampedNumeric_copy_def ClampedNumeric_of_def InvertWrapper_def cast_def saturated_exact clamp_def in_type_def)

end
