(* ===== verification/BaseTime.thy ===== *)
theory BaseTime
  imports ClampedMath
begin

text \<open>
  base/time/time.h: \<open>TimeDelta\<close>, the operations that \<open>TimeBase\<close> gives to \<open>Time\<close>, \<open>TimeTicks\<close> and
  \<open>ThreadTicks\<close>, and the conversions between units, all on \<open>int64_t\<close> microseconds. Signed overflow is a
  fault. \<open>k\<close> (is the value a compile-time constant) and \<open>c\<close> are the choices of the compiler in the
  clamped and checked operations. The lemmas relate durations to the integers extended by two
  infinities, time points to durations, and units to each other.
\<close>

unbundle bit_operations_syntax

section \<open>Units\<close>

definition kMicrosecondsPerMillisecond :: int where "kMicrosecondsPerMillisecond = 1000"
definition kMicrosecondsPerSecond :: int where "kMicrosecondsPerSecond = kMicrosecondsPerMillisecond * 1000"
definition kMicrosecondsPerMinute :: int where "kMicrosecondsPerMinute = kMicrosecondsPerSecond * 60"
definition kMicrosecondsPerHour :: int where "kMicrosecondsPerHour = kMicrosecondsPerMinute * 60"
definition kMicrosecondsPerDay :: int where "kMicrosecondsPerDay = kMicrosecondsPerHour * 24"
definition kNanosecondsPerMicrosecond :: int where "kNanosecondsPerMicrosecond = 1000"

section \<open>TimeDelta\<close>

datatype time_delta = TimeDelta (delta: int)

definition td_Max :: time_delta where
  "td_Max = TimeDelta (highest Int64)"

definition td_Min :: time_delta where
  "td_Min = TimeDelta (lowest Int64)"

definition td_is_zero :: "time_delta \<Rightarrow> bool" where
  "td_is_zero d \<longleftrightarrow> delta d = 0"

definition td_is_max :: "time_delta \<Rightarrow> bool" where
  "td_is_max d \<longleftrightarrow> d = td_Max"

definition td_is_min :: "time_delta \<Rightarrow> bool" where
  "td_is_min d \<longleftrightarrow> d = td_Min"

definition td_is_inf :: "time_delta \<Rightarrow> bool" where
  "td_is_inf d \<longleftrightarrow> td_is_min d \<or> td_is_max d"

definition td_magnitude :: "time_delta \<Rightarrow> time_delta res" where
  "td_magnitude d =
     (if td_is_min d then Inr td_Max
      else let mask = drop_bit (8 * 8 - 1) (delta d) in rbind (i64 (delta d + mask)) (\<lambda>s. Inr (TimeDelta (s XOR mask))))"

text \<open>\<open>int64_t{ClampAdd(a, b)}\<close> and its companions for two values of type \<open>int64_t\<close>.\<close>

definition clamp64 :: "binary \<Rightarrow> bool \<Rightarrow> compiler \<Rightarrow> int \<Rightarrow> int \<Rightarrow> int" where
  "clamp64 op k c a b =
     clamped_convert k Int64 (clamped_binary op k c \<lparr>clamped_type = Int64, clamped_value = a\<rparr> \<lparr>clamped_type = Int64, clamped_value = b\<rparr>)"

definition td_plus :: "bool \<Rightarrow> compiler \<Rightarrow> time_delta \<Rightarrow> time_delta \<Rightarrow> time_delta res" where
  "td_plus k c d other =
     (if \<not> td_is_inf other then Inr (TimeDelta (clamp64 PlusOp k c (delta d) (delta other)))
      else check (\<not> td_is_inf d \<or> delta d = delta other) (Inr other))"

definition td_minus :: "bool \<Rightarrow> compiler \<Rightarrow> time_delta \<Rightarrow> time_delta \<Rightarrow> time_delta res" where
  "td_minus k c d other =
     (if \<not> td_is_inf other then Inr (TimeDelta (clamp64 MinusOp k c (delta d) (delta other)))
      else check (delta d \<noteq> delta other) (Inr (if delta other < 0 then td_Max else td_Min)))"

definition td_negate :: "time_delta \<Rightarrow> time_delta res" where
  "td_negate d =
     (if \<not> td_is_inf d then rbind (i64 (- delta d)) (\<lambda>n. Inr (TimeDelta n)) else Inr (if delta d < 0 then td_Max else td_Min))"

text \<open>The result of a checked computation, or the infinity that the signs ask for.\<close>

definition td_or_inf :: "checked_numeric \<Rightarrow> time_delta \<Rightarrow> int \<Rightarrow> time_delta res" where
  "td_or_inf rv d a =
     (if cn_IsValid Int64 rv then rbind (ValueOrDie Int64 rv) (\<lambda>v. Inr (TimeDelta v))
      else Inr (if (delta d < 0) = (a < 0) then td_Max else td_Min))"

definition td_times :: "compiler \<Rightarrow> time_delta \<Rightarrow> int_type \<Rightarrow> int \<Rightarrow> time_delta res" where
  "td_times c d t a = td_or_inf (MathOp_assign CheckedMulOp c (CheckedNumeric_of Int64 Int64 (delta d) True) (Plain t a)) d a"

definition td_divide :: "compiler \<Rightarrow> time_delta \<Rightarrow> int_type \<Rightarrow> int \<Rightarrow> time_delta res" where
  "td_divide c d t a = td_or_inf (MathOp_assign CheckedDivOp c (CheckedNumeric_of Int64 Int64 (delta d) True) (Plain t a)) d a"

definition td_IntDiv :: "time_delta \<Rightarrow> time_delta \<Rightarrow> int res" where
  "td_IntDiv d a =
     (if \<not> td_is_inf d \<and> \<not> td_is_zero a then i64 (delta d sdiv delta a)
      else check (\<not> td_is_zero d \<or> \<not> td_is_zero a) (check (\<not> td_is_inf d \<or> \<not> td_is_inf a)
        (Inr (if (delta d < 0) = (delta a < 0) then highest Int64 else lowest Int64))))"

definition td_mod :: "time_delta \<Rightarrow> time_delta \<Rightarrow> time_delta" where
  "td_mod d a = TimeDelta (if td_is_inf d \<or> td_is_zero a \<or> td_is_inf a then delta d else delta d smod delta a)"

section \<open>Conversions\<close>

definition FromDays :: "int \<Rightarrow> time_delta res" where
  "FromDays days = (if days = highest Int32 then Inr td_Max else rbind (i64 (days * kMicrosecondsPerDay)) (\<lambda>d. Inr (TimeDelta d)))"

definition FromHours :: "int \<Rightarrow> time_delta res" where
  "FromHours hours = (if hours = highest Int32 then Inr td_Max else rbind (i64 (hours * kMicrosecondsPerHour)) (\<lambda>d. Inr (TimeDelta d)))"

definition FromMinutes :: "int \<Rightarrow> time_delta res" where
  "FromMinutes minutes =
     (if minutes = highest Int32 then Inr td_Max else rbind (i64 (minutes * kMicrosecondsPerMinute)) (\<lambda>d. Inr (TimeDelta d)))"

definition FromSeconds :: "bool \<Rightarrow> compiler \<Rightarrow> int \<Rightarrow> time_delta" where
  "FromSeconds k c secs = TimeDelta (clamp64 TimesOp k c secs kMicrosecondsPerSecond)"

definition FromMilliseconds :: "bool \<Rightarrow> compiler \<Rightarrow> int \<Rightarrow> time_delta" where
  "FromMilliseconds k c ms = TimeDelta (clamp64 TimesOp k c ms kMicrosecondsPerMillisecond)"

definition FromMicroseconds :: "int \<Rightarrow> time_delta" where
  "FromMicroseconds us = TimeDelta us"

definition FromNanoseconds :: "int \<Rightarrow> time_delta" where
  "FromNanoseconds ns = TimeDelta (ns sdiv kNanosecondsPerMicrosecond)"

definition InHours :: "bool \<Rightarrow> time_delta \<Rightarrow> int" where
  "InHours k d = base_saturated_cast k Int32 Int64 (delta d sdiv kMicrosecondsPerHour)"

definition InMinutes :: "bool \<Rightarrow> time_delta \<Rightarrow> int" where
  "InMinutes k d = base_saturated_cast k Int32 Int64 (delta d sdiv kMicrosecondsPerMinute)"

definition InMicroseconds :: "time_delta \<Rightarrow> int" where
  "InMicroseconds d = delta d"

definition InNanoseconds :: "bool \<Rightarrow> compiler \<Rightarrow> time_delta \<Rightarrow> int" where
  "InNanoseconds k c d = clamp64 TimesOp k c (delta d) kNanosecondsPerMicrosecond"

section \<open>TimeBase\<close>

datatype time_point = TimePoint (us: int)

definition tp_Max :: time_point where
  "tp_Max = TimePoint (highest Int64)"

definition tp_Min :: time_point where
  "tp_Min = TimePoint (lowest Int64)"

definition tp_is_null :: "time_point \<Rightarrow> bool" where
  "tp_is_null t \<longleftrightarrow> us t = 0"

definition tp_is_inf :: "time_point \<Rightarrow> bool" where
  "tp_is_inf t \<longleftrightarrow> t = tp_Min \<or> t = tp_Max"

definition tp_since_origin :: "time_point \<Rightarrow> time_delta" where
  "tp_since_origin t = FromMicroseconds (us t)"

definition tp_difference :: "time_point \<Rightarrow> time_point \<Rightarrow> time_delta res" where
  "tp_difference t other = rbind (i64 (us t - us other)) (\<lambda>d. Inr (FromMicroseconds d))"

definition tp_plus :: "bool \<Rightarrow> compiler \<Rightarrow> time_point \<Rightarrow> time_delta \<Rightarrow> time_point res" where
  "tp_plus k c t d = rbind (td_plus k c (FromMicroseconds (us t)) d) (\<lambda>r. Inr (TimePoint (InMicroseconds r)))"

definition tp_minus :: "bool \<Rightarrow> compiler \<Rightarrow> time_point \<Rightarrow> time_delta \<Rightarrow> time_point res" where
  "tp_minus k c t d = rbind (td_minus k c (FromMicroseconds (us t)) d) (\<lambda>r. Inr (TimePoint (InMicroseconds r)))"

lemmas unit_defs = kMicrosecondsPerDay_def kMicrosecondsPerHour_def kMicrosecondsPerMinute_def kMicrosecondsPerSecond_def
  kMicrosecondsPerMillisecond_def kNanosecondsPerMicrosecond_def

section \<open>Exactness\<close>

definition td_ok :: "time_delta \<Rightarrow> bool" where
  "td_ok d \<longleftrightarrow> in_type Int64 (delta d)"

lemma i64_type: "i64 n = (if in_type Int64 n then Inr n else Inl SignedOverflow)"
  by (simp add: i64_def in_type_int64 guardr_def)

lemma clamp64_exact:
  assumes "in_type Int64 a" "in_type Int64 b" "op = PlusOp \<or> op = MinusOp \<or> op = TimesOp"
  shows "clamp64 op k c a b = clamp Int64 (binary_math op a b)"
proof -
  have "clamped_binary op k c \<lparr>clamped_type = Int64, clamped_value = a\<rparr> \<lparr>clamped_type = Int64, clamped_value = b\<rparr>
      = \<lparr>clamped_type = binary_type op Int64 Int64, clamped_value = clamp (binary_type op Int64 Int64) (binary_math op a b)\<rparr>"
    using assms clamped_binary_exact [of "\<lparr>clamped_type = Int64, clamped_value = a\<rparr>" "\<lparr>clamped_type = Int64, clamped_value = b\<rparr>" op k c]
    by (auto simp: clamped_ok_def BigEnoughPromotion_def MaxExponentPromotion_def contained_def)
  moreover have "binary_type op Int64 Int64 = Int64" using assms(3) by (auto simp: MaxExponentPromotion_def)
  ultimately show ?thesis by (simp add: clamp64_def clamped_convert_def clamp_idem)
qed

lemma td_is_inf_iff: "td_is_inf d \<longleftrightarrow> delta d = lowest Int64 \<or> delta d = highest Int64"
  by (cases d) (auto simp: td_is_inf_def td_is_min_def td_is_max_def td_Min_def td_Max_def)

lemma td_magnitude_exact: "td_ok d \<Longrightarrow> td_magnitude d = Inr (TimeDelta (clamp Int64 \<bar>delta d\<bar>))"
proof -
  assume ok: "td_ok d"
  show ?thesis
  proof (cases "td_is_min d")
    case True
    then show ?thesis by (simp add: td_magnitude_def td_is_min_def td_Min_def td_Max_def clamp_def)
  next
    case False
    then have ne: "delta d \<noteq> lowest Int64" by (cases d) (auto simp: td_is_min_def td_Min_def)
    have mask: "drop_bit 63 (delta d) = (if delta d < 0 then - 1 else 0)"
    proof (cases "delta d < 0")
      case True
      then show ?thesis using ok int_div_pos_eq [of "delta d" "2 ^ 63" "- 1" "delta d + 2 ^ 63"]
        by (simp add: td_ok_def in_type_def drop_bit_eq_div)
    qed (use ok in \<open>simp add: td_ok_def in_type_def drop_bit_eq_div div_pos_pos_trivial\<close>)
    have "in_type Int64 \<bar>delta d\<bar>" using ok ne by (auto simp: td_ok_def in_type_def)
    then show ?thesis using False ok ne
      by (auto simp: td_magnitude_def Let_def mask i64_type td_ok_def in_type_def clamp_def not_eq_complement)
  qed
qed

section \<open>Durations as extended integers\<close>

datatype ext = NegInf | Finite int | PosInf

text \<open>A result that reaches an end of the range counts as infinite.\<close>

definition ext_of :: "int \<Rightarrow> ext" where
  "ext_of z = (if z \<ge> highest Int64 then PosInf else if z \<le> lowest Int64 then NegInf else Finite z)"

definition td_abs :: "time_delta \<Rightarrow> ext" where
  "td_abs d = ext_of (delta d)"

fun ext_plus :: "int \<Rightarrow> ext \<Rightarrow> ext" where
  "ext_plus a (Finite b) = ext_of (a + b)" | "ext_plus a PosInf = PosInf" | "ext_plus a NegInf = NegInf"

fun ext_minus :: "int \<Rightarrow> ext \<Rightarrow> ext" where
  "ext_minus a (Finite b) = ext_of (a - b)" | "ext_minus a PosInf = NegInf" | "ext_minus a NegInf = PosInf"

lemma ext_of_clamp: "ext_of (clamp Int64 z) = ext_of z"
  by (auto simp: ext_of_def clamp_def)

lemma td_abs_cases:
  assumes "td_ok d"
  obtains (unbounded) "td_is_inf d" "td_abs d = (if delta d < 0 then NegInf else PosInf)" "delta d = lowest Int64 \<or> delta d = highest Int64"
  | (bounded) "\<not> td_is_inf d" "td_abs d = Finite (delta d)"
  using assms by (cases "td_is_inf d") (auto simp: td_abs_def ext_of_def td_is_inf_iff td_ok_def in_type_def)

text \<open>
  C31. Sums and differences of finite durations are exact, and an overflow gives the infinity of its sign. For an infinite right
  operand the comment of \<open>Max\<close> and \<open>Min\<close> calls the result undefined; the code defines it: the infinity, or for a difference
  its negation, decides the result. No check fails in either case.
\<close>

theorem time_delta_sums:
  assumes "td_ok d" and "td_ok e" and "\<not> td_is_inf d"
  shows "map_sum id td_abs (td_plus k c d e) = Inr (ext_plus (delta d) (td_abs e)) \<and>
    map_sum id td_abs (td_minus k c d e) = Inr (ext_minus (delta d) (td_abs e))"
proof -
  have v: "in_type Int64 (delta d)" "in_type Int64 (delta e)" using assms by (auto simp: td_ok_def)
  show ?thesis using assms(2)
  proof (cases rule: td_abs_cases)
    case unbounded
    have "delta d \<noteq> delta e" using assms(3) unbounded by (auto simp: td_is_inf_iff)
    then show ?thesis using unbounded assms(3)
      by (auto simp: td_plus_def td_minus_def td_abs_def td_Max_def td_Min_def ext_of_def)
  next
    case bounded
    then show ?thesis using v
      by (simp add: td_plus_def td_minus_def clamp64_exact) (simp add: td_abs_def ext_of_clamp)
  qed
qed

theorem time_delta_sums_witness:
  "map_sum id td_abs (td_plus True Gcc (TimeDelta 9223372036854775800) (TimeDelta 100)) = Inr PosInf"
  using time_delta_sums [of "TimeDelta 9223372036854775800" "TimeDelta 100" True Gcc]
  by (simp add: td_ok_def in_type_def td_is_inf_iff td_abs_def ext_of_def)

lemma unmixed_int64: "t \<noteq> UInt64 \<Longrightarrow> snd (BigEnoughPromotion Int64 t)"
  by (cases t) (simp_all add: promotion_defs)

lemma td_or_inf_clamps:
  assumes "cn_ok rv" "num_type rv = Int64" "num_valid rv \<longleftrightarrow> in_type Int64 z" "num_valid rv \<Longrightarrow> num_value rv = z"
    "(delta d < 0) \<noteq> (a < 0) \<Longrightarrow> z \<le> 0" "(delta d < 0) = (a < 0) \<Longrightarrow> 0 \<le> z"
  shows "td_or_inf rv d a = Inr (TimeDelta (clamp Int64 z))"
proof (cases "num_valid rv")
  case True
  then show ?thesis using assms by (simp add: td_or_inf_def cn_IsValid_iff ValueOrDie_def clamp_simps)
next
  case False
  then have "CommonMaxOrMin Int64 Int64 ((delta d < 0) \<noteq> (a < 0)) = clamp Int64 z" using assms by (intro saturate_at) auto
  then show ?thesis using False assms(1) by (auto simp: td_or_inf_def cn_IsValid_iff CommonMaxOrMin_self td_Max_def td_Min_def)
qed

lemma literal64: "td_ok d \<Longrightarrow> CheckedNumeric_of Int64 Int64 (delta d) True = \<lparr>num_type = Int64, num_valid = True, num_value = delta d\<rparr>"
  by (simp add: CheckedNumeric_of_def td_ok_def IsValueInRange_iff)

text \<open>
  Products with and quotients by an integer of any type but \<open>uint64_t\<close> saturate at the two infinities, on every compiler;
  division by zero is infinite.
\<close>

theorem time_delta_scaling:
  assumes d: "td_ok d" and a: "in_type t a" and t: "t \<noteq> UInt64"
  shows "td_times c d t a = Inr (TimeDelta (clamp Int64 (delta d * a))) \<and>
    td_divide c d t a = Inr (if a = 0 then (if delta d < 0 then td_Min else td_Max) else TimeDelta (clamp Int64 (delta d sdiv a)))"
proof -
  let ?n = "\<lparr>num_type = Int64, num_valid = True, num_value = delta d\<rparr>"
  have n: "cn_ok ?n" "operand_ok (Plain t a)" and x: "in_type Int64 (delta d)" using d a by (simp_all add: cn_ok_def td_ok_def)
  note p = unmixed_promotion [OF unmixed_int64 [OF t] x a] and q = result_in_promotion [OF unmixed_int64 [OF t] x a disjI1 [OF refl]]
  have "td_times c d t a = Inr (TimeDelta (clamp Int64 (delta d * a)))" unfolding td_times_def literal64 [OF d]
  proof (rule td_or_inf_clamps)
    show "num_valid (MathOp_assign CheckedMulOp c ?n (Plain t a)) \<longleftrightarrow> in_type Int64 (delta d * a)"
      using p q by (auto simp: MathOp_assign_def Let_def CheckedMulOp_exact [OF x a refl] CheckedNumeric_of_valid cast_in_type in_type_0)
    show "num_valid (MathOp_assign CheckedMulOp c ?n (Plain t a)) \<Longrightarrow> num_value (MathOp_assign CheckedMulOp c ?n (Plain t a)) = delta d * a"
      using mul_op.MathOp_assign_sound(3) [OF n, of c] by simp
  qed (use mul_op.MathOp_assign_sound [OF n, of c] in \<open>auto simp: mult_le_0_iff zero_le_mult_iff not_less\<close>)
  moreover have "td_divide c d t a = Inr (TimeDelta (clamp Int64 (delta d sdiv a)))" if "a \<noteq> 0" unfolding td_divide_def literal64 [OF d]
  proof (rule td_or_inf_clamps)
    show "num_valid (MathOp_assign CheckedDivOp c ?n (Plain t a)) \<longleftrightarrow> in_type Int64 (delta d sdiv a)"
      using p that by (auto simp: MathOp_assign_def Let_def CheckedDivOp_exact [OF x a refl disjI1 [OF refl]] CheckedNumeric_of_valid in_type_0)
    show "num_valid (MathOp_assign CheckedDivOp c ?n (Plain t a)) \<Longrightarrow> num_value (MathOp_assign CheckedDivOp c ?n (Plain t a)) = delta d sdiv a"
      using div_op.MathOp_assign_sound(3) [OF n, of c] by simp
  qed (use div_op.MathOp_assign_sound [OF n, of c] sdiv_sign [of "delta d" a] in auto)
  moreover have "td_divide c d t 0 = Inr (if delta d < 0 then td_Min else td_Max)" if "a = 0"
  proof -
    have "MathOp_assign CheckedDivOp c ?n (Plain t 0) = CheckedNumeric_of Int64 Int64 0 False"
      using that a CheckedDivOp_exact [OF x _ refl disjI1 [OF refl], of t 0] by (simp add: MathOp_assign_def Let_def)
    then show ?thesis unfolding td_divide_def literal64 [OF d]
      by (simp add: td_or_inf_def cn_IsValid_def) (simp add: CheckedNumeric_of_def)
  qed
  ultimately show ?thesis by auto
qed

theorem time_delta_scaling_witness:
  "td_times Portable (TimeDelta 5000000000000) Int32 (- 2000000000) = Inr td_Min"
  using time_delta_scaling [of "TimeDelta 5000000000000" Int32 "- 2000000000" Portable]
  by (simp add: td_ok_def in_type_def clamp_def td_Min_def)

section \<open>Time points\<close>

text \<open>
  A difference of two time points leads from one to the other: added to the earlier point it gives the later one, subtracted
  from the later one the earlier one, unless it is infinite.
\<close>

theorem time_point_difference:
  assumes "in_type Int64 (us s)" and "in_type Int64 (us t)" and "tp_difference s t = Inr d" and "\<not> td_is_inf d"
  shows "tp_plus k c t d = Inr s \<and> tp_minus k c s d = Inr t"
proof -
  have d: "delta d = us s - us t" "in_type Int64 (us s - us t)"
    using assms(3) by (auto simp: tp_difference_def i64_type FromMicroseconds_def split: if_splits)
  then have "clamp64 PlusOp k c (us t) (delta d) = us s" "clamp64 MinusOp k c (us s) (delta d) = us t"
    using assms(1,2) by (simp_all add: clamp64_exact clamp_simps)
  then show ?thesis using assms(4)
    by (cases s; cases t) (simp add: tp_plus_def tp_minus_def td_plus_def td_minus_def FromMicroseconds_def InMicroseconds_def)
qed

theorem time_point_difference_witness:
  "tp_plus False Clang (TimePoint (- 3)) (TimeDelta 10) = Inr (TimePoint 7)"
  using time_point_difference [of "TimePoint 7" "TimePoint (- 3)" "TimeDelta 10" False Clang]
  by (simp add: in_type_def tp_difference_def i64_type FromMicroseconds_def td_is_inf_iff)

text \<open>Whole hours and minutes survive the conversion to microseconds and back, for every value but the largest.\<close>

theorem hours_minutes_roundtrip:
  assumes "in_type Int32 n" and "n \<noteq> highest Int32"
  shows "(\<exists>d. FromHours n = Inr d \<and> InHours k d = n) \<and> (\<exists>d. FromMinutes n = Inr d \<and> InMinutes k d = n)"
proof -
  have s: "n * m sdiv m = n" if "0 < m" for m :: int
    using that by (auto simp: signed_divide_int_def sgn_if abs_mult zero_less_mult_iff)
  show ?thesis using assms s [of kMicrosecondsPerHour] s [of kMicrosecondsPerMinute]
    by (simp add: FromHours_def FromMinutes_def InHours_def InMinutes_def i64_type in_type_def unit_defs saturated_exact clamp_def)
qed

section \<open>Surprises\<close>

text \<open>An infinite left operand is an ordinary number: addition is not commutative at the infinities.\<close>

theorem time_delta_infinity_plus:
  "td_plus k c td_Max (TimeDelta (- 1)) = Inr (TimeDelta 9223372036854775806) \<and> td_plus k c (TimeDelta (- 1)) td_Max = Inr td_Max"
  by (simp add: td_plus_def td_is_inf_iff td_Max_def clamp64_exact in_type_def clamp_def)

text \<open>
  Divided by an unsigned 64-bit number, a negative duration is minus infinity on every compiler; multiplied, it is on Clang,
  while GCC gives the product.
\<close>

theorem time_delta_by_uint64:
  "td_divide c (TimeDelta (- 10)) UInt64 2 = Inr td_Min \<and> td_times Clang (TimeDelta (- 5)) UInt64 2 = Inr td_Min \<and>
   td_times Gcc (TimeDelta (- 5)) UInt64 2 = Inr (TimeDelta (- 10))"
proof -
  have x: "in_type Int64 (- 10)" "in_type Int64 (- 5)" and a: "in_type UInt64 2" by (simp_all add: in_type_def)
  have l: "CheckedNumeric_of Int64 Int64 (- 10) True = \<lparr>num_type = Int64, num_valid = True, num_value = - 10\<rparr>"
    "CheckedNumeric_of Int64 Int64 (- 5) True = \<lparr>num_type = Int64, num_valid = True, num_value = - 5\<rparr>"
    using literal64 [of "TimeDelta (- 10)"] literal64 [of "TimeDelta (- 5)"] by (simp_all add: td_ok_def in_type_def)
  show ?thesis
    by (simp add: td_divide_def td_times_def l MathOp_assign_def Let_def CheckedDivOp_exact [OF x(1) a refl disjI1 [OF refl]]
        CheckedMulOp_exact [OF x(2) a refl] CheckedMulFastOp_supported_def promotion_defs)
      (simp add: td_or_inf_def CheckedNumeric_of_def cn_IsValid_iff cn_ok_def in_type_def cast_def ValueOrDie_def IsValueInRange_iff)
qed

text \<open>The smallest argument of \<open>FromDays\<close> overflows, and so does the difference of two time points far apart.\<close>

theorem from_days_overflows:
  "FromDays (lowest Int32) = Inl SignedOverflow \<and> FromDays 106751992 = Inl SignedOverflow \<and>
   tp_difference tp_Max (TimePoint (- 1)) = Inl SignedOverflow"
  by (simp add: FromDays_def unit_defs i64_type in_type_def tp_difference_def tp_Max_def)

text \<open>The largest argument of \<open>FromNanoseconds\<close> and the smallest of \<open>FromHours\<close> give finite durations.\<close>

theorem from_limits_finite:
  "\<not> td_is_inf (FromNanoseconds (highest Int64)) \<and> (\<exists>d. FromHours (lowest Int32) = Inr d \<and> \<not> td_is_inf d)"
  by (simp add: FromNanoseconds_def FromHours_def unit_defs i64_type in_type_def td_is_inf_iff)

end
