(* ===== verification/StringNumbers.thy ===== *)
theory StringNumbers
  imports CheckedProps
begin

text \<open>
  base/strings/string_number_conversions_internal.h for \<open>char\<close>: printing an integer into a buffer from the end, parsing one
  with overflow checks, and hexadecimal byte strings. A character is compared as a signed \<open>char\<close>; \<open>isspace\<close> is that of the
  C locale.
\<close>

unbundle bit_operations_syntax

section \<open>Printing\<close>

text \<open>The loop over the digits: \<open>i\<close> is the position of the last character written.\<close>

fun digits_loop :: "nat \<Rightarrow> nat \<Rightarrow> string \<Rightarrow> (nat \<times> string) res" where
  "digits_loop n 0 outbuf = Inl OutOfRange"
| "digits_loop n (Suc i) outbuf =
     dcheck (i \<noteq> 0)
      (let outbuf = outbuf[i := char_of (n mod 10 + 48)]; n = n div 10 in
       if n \<noteq> 0 then digits_loop n i outbuf else Inr (i, outbuf))"

definition kOutputBufSize :: "int_type \<Rightarrow> nat" where
  "kOutputBufSize t = 3 * sizeof t + of_bool (is_signed t)"

definition IntToStringT :: "int_type \<Rightarrow> int \<Rightarrow> string res" where
  "IntToStringT t v =
     rbind (ValueOrDie (make_unsigned t) (cn_UnsignedAbs (CheckedNumeric_of t t v True))) (\<lambda>n.
     rbind (digits_loop (nat n) (kOutputBufSize t) (replicate (kOutputBufSize t) (CHR 0x00))) (\<lambda>(i, outbuf).
     if IsValueNegative t v then
       (case i of 0 \<Rightarrow> Inl OutOfRange
        | Suc i \<Rightarrow> dcheck (i \<noteq> 0) (Inr (drop i (outbuf[i := CHR ''-'']))))
     else Inr (drop i outbuf)))"

section \<open>Parsing\<close>

definition char_value :: "char \<Rightarrow> int" where
  "char_value c = (let n = int (of_char c) in if n \<ge> 128 then n - 256 else n)"

definition CharToDigit :: "int \<Rightarrow> char \<Rightarrow> int option" where
  "CharToDigit b ch =
     (let c = char_value ch in
      if c \<ge> 48 \<and> c < 48 + min b 10 then Some (c - 48)
      else if c \<ge> 97 \<and> c < 97 + b - 10 then Some (c - 97 + 10)
      else if c \<ge> 65 \<and> c < 65 + b - 10 then Some (c - 65 + 10)
      else None)"

definition LocalIsWhitespace :: "char \<Rightarrow> bool" where
  "LocalIsWhitespace c \<longleftrightarrow> of_char c \<in> {9 .. 13 :: nat} \<or> of_char c = (32 :: nat)"

text \<open>Assigning the result of an arithmetic operator with an \<open>int\<close> operand to a \<open>Number\<close>.\<close>

definition number_assign :: "int_type \<Rightarrow> int \<Rightarrow> int res" where
  "number_assign t z =
     (let p = common_type t Int32 in guardr SignedOverflow (\<not> is_signed p \<or> in_type p z) (Inr (cast t z)))"

datatype sign = Positive | Negative

fun CheckBounds :: "sign \<Rightarrow> int_type \<Rightarrow> int \<Rightarrow> int \<Rightarrow> int \<Rightarrow> int \<times> bool" where
  "CheckBounds Positive t b value new_digit =
     (if value > cast t (highest t sdiv b) \<or> value = cast t (highest t sdiv b) \<and> new_digit > highest t smod b
      then (highest t, False) else (value, True))"
| "CheckBounds Negative t b value new_digit =
     (if value < lowest t sdiv b \<or> value = lowest t sdiv b \<and> new_digit > 0 - lowest t smod b
      then (lowest t, False) else (value, True))"

fun Increment :: "sign \<Rightarrow> int_type \<Rightarrow> int \<Rightarrow> int \<Rightarrow> int res" where
  "Increment Positive t lhs rhs = number_assign t (lhs + rhs)"
| "Increment Negative t lhs rhs = number_assign t (lhs - rhs)"

text \<open>\<open>at_begin\<close> is \<open>current == begin\<close>.\<close>

fun number_loop :: "sign \<Rightarrow> int_type \<Rightarrow> int \<Rightarrow> bool \<Rightarrow> int \<Rightarrow> string \<Rightarrow> (int \<times> bool) res" where
  "number_loop s t b at_begin value [] = Inr (value, True)"
| "number_loop s t b at_begin value (c # cs) =
     (case CharToDigit b c of
        None \<Rightarrow> Inr (value, False)
      | Some new_digit \<Rightarrow>
          if at_begin then rbind (Increment s t value new_digit) (\<lambda>value. number_loop s t b False value cs)
          else (case CheckBounds s t b value new_digit of (r, valid) \<Rightarrow>
            if \<not> valid then Inr (r, False)
            else rbind (number_assign t (value * b)) (\<lambda>value.
              rbind (Increment s t value new_digit) (\<lambda>value. number_loop s t b False value cs))))"

definition skip_hex_prefix :: "int \<Rightarrow> string \<Rightarrow> string" where
  "skip_hex_prefix b s =
     (if b = 16 \<and> length s > 2 \<and> s ! 0 = CHR ''0'' \<and> (s ! 1 = CHR ''x'' \<or> s ! 1 = CHR ''X'') then drop 2 s else s)"

definition parser_Invoke :: "sign \<Rightarrow> int_type \<Rightarrow> int \<Rightarrow> string \<Rightarrow> (int \<times> bool) res" where
  "parser_Invoke s t b str = (if str = [] then Inr (0, False) else number_loop s t b True 0 (skip_hex_prefix b str))"

definition StringToNumber :: "int_type \<Rightarrow> int \<Rightarrow> string \<Rightarrow> (int \<times> bool) res" where
  "StringToNumber t b input =
     (let str = dropWhile LocalIsWhitespace input; has_leading_whitespace = (str \<noteq> input) in
      if str \<noteq> [] \<and> hd str = CHR ''-'' then
        if \<not> is_signed t then Inr (0, False)
        else rbind (parser_Invoke Negative t b (tl str)) (\<lambda>(value, valid). Inr (value, valid \<and> \<not> has_leading_whitespace))
      else let str = (if str \<noteq> [] \<and> hd str = CHR ''+'' then tl str else str) in
        rbind (parser_Invoke Positive t b str) (\<lambda>(value, valid). Inr (value, valid \<and> \<not> has_leading_whitespace)))"

definition StringToIntImpl :: "int_type \<Rightarrow> string \<Rightarrow> (int \<times> bool) res" where
  "StringToIntImpl t input = StringToNumber t 10 input"

definition HexStringToIntImpl :: "int_type \<Rightarrow> string \<Rightarrow> (int \<times> bool) res" where
  "HexStringToIntImpl t input = StringToNumber t 16 input"

text \<open>The verdict, and the bytes written up to the first pair that is no hexadecimal number.\<close>

fun hex_pairs :: "string \<Rightarrow> bool \<times> int list" where
  "hex_pairs (m # l # rest) =
     (case (CharToDigit 16 m, CharToDigit 16 l) of
        (Some msb, Some lsb) \<Rightarrow> (case hex_pairs rest of (ok, out) \<Rightarrow> (ok, cast UInt8 (push_bit 4 msb OR lsb) # out))
      | _ \<Rightarrow> (False, []))"
| "hex_pairs s = (True, [])"

definition HexStringToByteContainer :: "string \<Rightarrow> bool \<times> int list" where
  "HexStringToByteContainer input =
     (if length input = 0 \<or> length input mod 2 \<noteq> 0 then (False, []) else hex_pairs input)"

section \<open>Printing is exact\<close>

lemma show_nat_pos: "0 < length (show_nat n)"
  by (subst show_nat.simps) simp

lemma digits_loop_exact:
  "0 < i \<Longrightarrow> i \<le> length buf \<Longrightarrow> digits_loop n i buf =
    (if length (show_nat n) < i
     then Inr (i - length (show_nat n), take (i - length (show_nat n)) buf @ show_nat n @ drop i buf) else Inl DCheckFailed)"
proof (induction n i buf rule: digits_loop.induct)
  case (2 n i buf)
  let ?c = "char_of (n mod 10 + 48) :: char"
  have c: "?c = digit_char (n mod 10)" by (simp add: digit_char_def add.commute)
  show ?case
  proof (cases "i = 0")
    case True
    then show ?thesis using show_nat_pos [of n] by simp
  next
    case i: False
    show ?thesis
    proof (cases "n div 10 = 0")
      case True
      then have "n < 10" by (simp add: div_eq_0_iff)
      then have s: "show_nat n = [digit_char n]" "n mod 10 = n" by (subst show_nat.simps, simp, simp)
      have "buf[i := digit_char n] = take i buf @ digit_char n # drop (Suc i) buf"
        using "2.prems" by (simp add: upd_conv_take_nth_drop)
      then have "drop i (buf[i := digit_char n]) = digit_char n # drop (Suc i) buf" "take i (buf[i := digit_char n]) = take i buf"
        using "2.prems" by simp_all
      moreover have "char_of (n + 48) = digit_char n" by (simp add: digit_char_def add.commute)
      ultimately show ?thesis using i True s \<open>buf[i := digit_char n] = _\<close> by (simp add: Let_def)
    next
      case False
      then have s: "show_nat n = show_nat (n div 10) @ [digit_char (n mod 10)]" by (subst show_nat.simps) auto
      let ?b = "buf[i := digit_char (n mod 10)]" and ?L = "length (show_nat (n div 10))"
      have "digits_loop (n div 10) i ?b =
          (if ?L < i then Inr (i - ?L, take (i - ?L) ?b @ show_nat (n div 10) @ drop i ?b) else Inl DCheckFailed)"
        using "2.IH" [OF refl refl] i False "2.prems" by (simp add: c)
      moreover have "drop i ?b = digit_char (n mod 10) # drop (Suc i) buf" using "2.prems" by (simp add: upd_conv_take_nth_drop)
      moreover have "take (i - ?L) ?b = take (i - ?L) buf" by simp
      ultimately show ?thesis using i False s by (simp add: c Let_def)
    qed
  qed
qed simp

lemma drop_update_last: "length p = Suc i \<Longrightarrow> drop i ((p @ q)[i := c]) = c # q"
  by (simp add: list_update_append upd_conv_take_nth_drop)

lemma ValueOrDie_abs: "in_type t v \<Longrightarrow> ValueOrDie (make_unsigned t) (cn_UnsignedAbs (CheckedNumeric_of t t v True)) = Inr \<bar>v\<bar>"
proof -
  assume v: "in_type t v"
  let ?n = "CheckedNumeric_of t t v True"
  have "num_valid (cn_UnsignedAbs ?n)" "num_value (cn_UnsignedAbs ?n) = \<bar>v\<bar>" "num_type (cn_UnsignedAbs ?n) = make_unsigned t"
    using cn_UnsignedAbs_exact [of ?n] v by (simp_all add: CheckedNumeric_of_valid cn_UnsignedAbs_def Let_def)
  then show ?thesis using abs_in_unsigned [OF v] by (simp add: ValueOrDie_def cn_IsValid_def IsValueInRange_iff)
qed

lemma IntToStringT_exact:
  assumes v: "in_type t v"
  shows "IntToStringT t v = (if length (show_int v) < kOutputBufSize t then Inr (show_int v) else Inl DCheckFailed)"
proof -
  let ?k = "kOutputBufSize t" and ?n = "nat \<bar>v\<bar>"
  let ?L = "length (show_nat ?n)" and ?b = "replicate (kOutputBufSize t) (CHR 0x00)"
  have k: "0 < ?k" by (cases t) (simp_all add: kOutputBufSize_def)
  have d: "digits_loop ?n ?k ?b = (if ?L < ?k then Inr (?k - ?L, take (?k - ?L) ?b @ show_nat ?n) else Inl DCheckFailed)"
    using digits_loop_exact [of ?k ?b ?n] k by simp
  show ?thesis
  proof (cases "v < 0")
    case False
    then have s: "show_int v = show_nat ?n" by (simp add: show_int_def)
    show ?thesis using False d s v by (simp add: IntToStringT_def ValueOrDie_abs IsValueNegative_iff)
  next
    case True
    then have s: "show_int v = CHR ''-'' # show_nat ?n" by (simp add: show_int_def)
    show ?thesis
    proof (cases "?L < ?k")
      case L: True
      then obtain i where i: "?k - ?L = Suc i" by (metis Suc_diff_Suc)
      have "drop i ((take (Suc i) ?b @ show_nat ?n)[i := CHR ''-'']) = CHR ''-'' # show_nat ?n"
        using i by (intro drop_update_last) simp
      moreover have "i \<noteq> 0 \<longleftrightarrow> Suc ?L < ?k" using i by linarith
      moreover have "digits_loop ?n ?k ?b = Inr (Suc i, take (Suc i) ?b @ show_nat ?n)" using d L i by simp
      ultimately show ?thesis using True s v unfolding IntToStringT_def ValueOrDie_abs [OF v] rbind.simps IsValueNegative_iff [OF v]
        by (simp del: take_replicate add: guardr_def)
    next
      case False
      then show ?thesis using True s d v by (simp add: IntToStringT_def ValueOrDie_abs)
    qed
  qed
qed

section \<open>Parsing is exact\<close>

definition is_base_digit :: "int \<Rightarrow> char \<Rightarrow> bool" where
  "is_base_digit b c \<longleftrightarrow> CharToDigit b c \<noteq> None"

text \<open>The number that the digits of a text denote, up to the first other character.\<close>

definition digits_from :: "int \<Rightarrow> int \<Rightarrow> string \<Rightarrow> int" where
  "digits_from b n s = foldl (\<lambda>n c. n * b + the (CharToDigit b c)) n (takeWhile (is_base_digit b) s)"

fun signed_number :: "sign \<Rightarrow> int \<Rightarrow> int" where
  "signed_number Positive n = n" | "signed_number Negative n = - n"

lemma CharToDigit_range: "CharToDigit b c = Some d \<Longrightarrow> 0 \<le> d \<and> d < b"
  by (auto simp: CharToDigit_def Let_def split: if_splits)

lemma digits_from_simps [simp]:
  "digits_from b n [] = n"
  "CharToDigit b c = None \<Longrightarrow> digits_from b n (c # cs) = n"
  "CharToDigit b c = Some d \<Longrightarrow> digits_from b n (c # cs) = digits_from b (n * b + d) cs"
  by (simp_all add: digits_from_def is_base_digit_def)

lemma digits_from_grows: "0 \<le> n \<Longrightarrow> 1 \<le> b \<Longrightarrow> n \<le> digits_from b n s"
proof (induction s arbitrary: n)
  case (Cons c cs)
  show ?case
  proof (cases "CharToDigit b c")
    case (Some d)
    then have "0 \<le> d" using CharToDigit_range by blast
    then have "n \<le> n * b + d" using mult_left_mono [of 1 b n] Cons.prems by simp
    then show ?thesis using Cons.IH [of "n * b + d"] Cons.prems Some by simp
  qed (use Cons in simp)
qed simp

lemma next_digit_exceeds:
  fixes m b n d :: int
  assumes "0 \<le> d" "d < b"
  shows "n > m div b \<or> n = m div b \<and> d > m mod b \<longleftrightarrow> n * b + d > m"
proof -
  have m: "m = m div b * b + m mod b" "0 \<le> m mod b" "m mod b < b" using assms by simp_all
  consider "n < m div b" | "n = m div b" | "n > m div b" by linarith
  then show ?thesis
  proof cases
    case 1
    then have "(n + 1) * b \<le> m div b * b" using assms by (intro mult_right_mono) auto
    then show ?thesis using 1 m assms unfolding distrib_right by linarith
  next
    case 3
    then have "(m div b + 1) * b \<le> n * b" using assms by (intro mult_right_mono) auto
    then show ?thesis using 3 m assms unfolding distrib_right by linarith
  next
    case 2
    then have "m = n * b + m mod b" using m(1) by simp
    then have "m < n * b + d \<longleftrightarrow> m mod b < d" by linarith
    then show ?thesis using 2 by auto
  qed
qed

lemma number_assign_ok: "in_type t z \<Longrightarrow> number_assign t z = Inr z"
proof -
  assume z: "in_type t z"
  have "\<not> is_signed (common_type t Int32) \<or> in_type (common_type t Int32) z"
  proof (cases "is_signed t")
    case True
    then show ?thesis using in_common_same_sign(1) [of t Int32 z] z by simp
  next
    case False
    then have "0 \<le> z" using z unsigned_range [of t] by (simp add: in_type_def)
    then show ?thesis using common_nonneg(1) z by blast
  qed
  then show ?thesis using z by (simp add: number_assign_def Let_def)
qed

text \<open>The largest number of digits' value that the sign admits.\<close>

fun sign_limit :: "sign \<Rightarrow> int_type \<Rightarrow> int" where
  "sign_limit Positive t = highest t" | "sign_limit Negative t = - lowest t"

lemma sign_limit_iff: "0 \<le> n \<Longrightarrow> in_type t (signed_number s n) \<longleftrightarrow> n \<le> sign_limit s t"
  using lowest_nonpos [of t] by (cases s) (auto simp: in_type_def)

lemma CheckBounds_exact:
  assumes "0 \<le> n" "0 \<le> d" "d < b"
  shows "CheckBounds s t b (signed_number s n) d =
    (if n * b + d \<le> sign_limit s t then (signed_number s n, True) else (signed_number s (sign_limit s t), False))"
proof (cases s)
  case Positive
  have h: "highest t sdiv b = highest t div b" "highest t smod b = highest t mod b"
    using lowest_nonpos [of t] assms by (auto simp: signed_divide_int_def smod_int_alt_def sgn_if)
  have "0 \<le> highest t div b" "highest t div b \<le> highest t"
    using lowest_nonpos [of t] assms zdiv_mono2 [of "highest t" 1 b] by (simp_all add: pos_imp_zdiv_nonneg_iff)
  then have "in_type t (highest t div b)" using lowest_nonpos [of t] by (simp add: in_type_def)
  then show ?thesis using Positive h next_digit_exceeds [OF assms(2,3), where m = "highest t" and n = n] by auto
next
  case Negative
  have l: "lowest t sdiv b = - (- lowest t div b)" "lowest t smod b = - (- lowest t mod b)"
    using lowest_nonpos [of t] assms by (auto simp: signed_divide_int_def smod_int_alt_def sgn_if)
  show ?thesis using Negative l next_digit_exceeds [OF assms(2,3), where m = "- lowest t" and n = n] by auto
qed

lemma clamp_signed:
  assumes "0 \<le> n" shows "clamp t (signed_number s n) = signed_number s (min n (sign_limit s t))"
  using assms lowest_nonpos [of t] by (cases s) (auto simp: clamp_def)

lemma signed_number_simps: "signed_number s n * b = signed_number s (n * b)" "signed_number s 0 = 0"
  "Increment s t (signed_number s n) d = number_assign t (signed_number s (n + d))"
  by (cases s; simp)+

lemma number_loop_exact:
  assumes "0 \<le> n" "n \<le> sign_limit s t" "1 \<le> b"
  shows "number_loop s t b False (signed_number s n) str =
    Inr (clamp t (signed_number s (digits_from b n str)),
         list_all (is_base_digit b) str \<and> in_type t (signed_number s (digits_from b n str)))"
  using assms
proof (induction str arbitrary: n)
  case Nil
  then show ?case by (simp add: sign_limit_iff clamp_simps)
next
  case (Cons c cs)
  show ?case
  proof (cases "CharToDigit b c")
    case None
    then show ?thesis using Cons.prems by (simp add: sign_limit_iff clamp_simps is_base_digit_def)
  next
    case (Some d)
    then have d: "0 \<le> d" "d < b" using CharToDigit_range by blast+
    have nb: "0 \<le> n * b" using Cons.prems by simp
    show ?thesis
    proof (cases "n * b + d \<le> sign_limit s t")
      case True
      then have "in_type t (signed_number s (n * b))" "in_type t (signed_number s (n * b + d))"
        using nb d by (simp_all add: sign_limit_iff)
      then show ?thesis using Cons.IH [of "n * b + d"] Cons.prems Some d nb True
        by (simp add: CheckBounds_exact signed_number_simps number_assign_ok is_base_digit_def)
    next
      case False
      have "n * b + d \<le> digits_from b (n * b + d) cs" using nb d Cons.prems by (intro digits_from_grows) auto
      then show ?thesis using False Cons.prems Some d nb
        by (simp add: CheckBounds_exact is_base_digit_def clamp_signed sign_limit_iff)
    qed
  qed
qed

lemma parser_Invoke_exact:
  assumes "1 \<le> b" "b \<le> 36" "s = Negative \<Longrightarrow> is_signed t" "body = skip_hex_prefix b str"
  shows "parser_Invoke s t b str =
    Inr (clamp t (signed_number s (digits_from b 0 body)),
         body \<noteq> [] \<and> list_all (is_base_digit b) body \<and> in_type t (signed_number s (digits_from b 0 body)))"
proof (cases str)
  case Nil
  then show ?thesis using assms(4) in_type_0 [of t] by (simp add: parser_Invoke_def skip_hex_prefix_def signed_number_simps clamp_simps)
next
  case (Cons c0 cs0)
  then have "body \<noteq> []" using assms(4) by (auto simp: skip_hex_prefix_def)
  then obtain c cs where body: "body = c # cs" by (meson neq_Nil_conv)
  have lim: "36 \<le> sign_limit s t" using assms(3) by (cases s; cases t; simp)
  show ?thesis
  proof (cases "CharToDigit b c")
    case None
    then show ?thesis using Cons body assms(4) in_type_0 [of t]
      by (simp add: parser_Invoke_def signed_number_simps clamp_simps is_base_digit_def)
  next
    case (Some d)
    then have d: "0 \<le> d" "d \<le> sign_limit s t" using CharToDigit_range [OF Some] lim assms(2) by auto
    then have "Increment s t 0 d = Inr (signed_number s d)"
      using signed_number_simps(3) [of s t 0 d] by (simp add: signed_number_simps number_assign_ok sign_limit_iff)
    then show ?thesis using Cons body assms(1,4) Some number_loop_exact [OF d assms(1), of cs]
      by (simp add: parser_Invoke_def is_base_digit_def)
  qed
qed

text \<open>What a text means as a number: an optional sign, for base 16 an optional prefix, then digits.\<close>

definition number_body :: "int \<Rightarrow> string \<Rightarrow> string" where
  "number_body b str = skip_hex_prefix b (if str \<noteq> [] \<and> hd str \<in> {CHR ''-'', CHR ''+''} then tl str else str)"

definition number_meant :: "int \<Rightarrow> string \<Rightarrow> int" where
  "number_meant b str =
     (if str \<noteq> [] \<and> hd str = CHR ''-'' then - digits_from b 0 (number_body b str) else digits_from b 0 (number_body b str))"

lemma string_to_number_parts:
  assumes "2 \<le> b" and "b \<le> 36" and "str = dropWhile LocalIsWhitespace input"
  shows "StringToNumber t b input = Inr
    (if str \<noteq> [] \<and> hd str = CHR ''-'' \<and> \<not> is_signed t then (0, False)
     else (clamp t (number_meant b str),
           str = input \<and> number_body b str \<noteq> [] \<and> list_all (is_base_digit b) (number_body b str) \<and> in_type t (number_meant b str)))"
proof -
  have b: "1 \<le> b" using assms(1) by simp
  show ?thesis
  proof (cases "str \<noteq> [] \<and> hd str = CHR ''-''")
    case True
    then show ?thesis using parser_Invoke_exact [OF b assms(2) _ refl, of Negative t "tl str"] assms(3)
      by (cases "is_signed t") (auto simp: StringToNumber_def Let_def number_meant_def number_body_def)
  next
    case False
    then show ?thesis using parser_Invoke_exact [OF b assms(2) _ refl, of Positive t] assms(3)
      by (auto simp: StringToNumber_def Let_def number_meant_def number_body_def)
  qed
qed

text \<open>
  C23. \<open>StringToNumber\<close> always returns and never overflows. The value is the number meant by the digits that come first, clamped
  to the type; the verdict is whether the text is a sign, digits and nothing else, without leading space, and the number fits.
\<close>

theorem string_to_number_exact:
  assumes "2 \<le> b" and "b \<le> 36" and "str = dropWhile LocalIsWhitespace input"
  shows "StringToNumber t b input = Inr
    (if str \<noteq> [] \<and> hd str = CHR ''-'' \<and> \<not> is_signed t then (0, False)
     else (clamp t (number_meant b str),
           str = input \<and> number_body b str \<noteq> [] \<and> list_all (is_base_digit b) (number_body b str) \<and> in_type t (number_meant b str)))"
  using assms by (rule string_to_number_parts)

theorem string_to_number_exact_witness:
  "StringToNumber Int8 16 ''-0x80'' = Inr (- 128, True) \<and> StringToNumber Int8 16 ''80'' = Inr (127, False)"
  using string_to_number_exact [of 16 "''-0x80''" "''-0x80''" Int8] string_to_number_exact [of 16 "''80''" "''80''" Int8]
  by (simp add: LocalIsWhitespace_def number_meant_def number_body_def skip_hex_prefix_def digits_from_def is_base_digit_def
      CharToDigit_def char_value_def clamp_def in_type_def)

section \<open>Round trips\<close>

lemma CharToDigit_digit_char: "d < 10 \<Longrightarrow> CharToDigit 10 (digit_char d) = Some (int d)"
  by (auto simp: CharToDigit_def char_value_def digit_char_def Let_def)

lemma digits_from_append: "list_all (is_base_digit b) xs \<Longrightarrow> digits_from b n (xs @ ys) = digits_from b (digits_from b n xs) ys"
  by (induction xs arbitrary: n) (auto simp: is_base_digit_def)

lemma show_nat_parses: "list_all (is_base_digit 10) (show_nat n) \<and> digits_from 10 0 (show_nat n) = int n"
proof (induction n rule: show_nat.induct)
  case (1 n)
  show ?case
  proof (cases "n < 10")
    case True
    then show ?thesis by (subst (1 2) show_nat.simps) (simp add: CharToDigit_digit_char is_base_digit_def)
  next
    case False
    then have "show_nat n = show_nat (n div 10) @ [digit_char (n mod 10)]" by (subst show_nat.simps) simp
    moreover have d: "CharToDigit 10 (digit_char (n mod 10)) = Some (int (n mod 10))" by (simp add: CharToDigit_digit_char)
    moreover have "digits_from 10 0 (show_nat (n div 10) @ [digit_char (n mod 10)]) = int n"
      using 1 [OF False] d div_mult_mod_eq [of "int n" 10] by (subst digits_from_append) (simp_all add: zdiv_int zmod_int)
    ultimately show ?thesis using 1 [OF False] by (simp add: is_base_digit_def)
  qed
qed

lemma show_nat_start: "\<exists>c cs. show_nat n = c # cs \<and> \<not> LocalIsWhitespace c \<and> c \<noteq> CHR ''-'' \<and> c \<noteq> CHR ''+''"
proof -
  obtain c cs where s: "show_nat n = c # cs" using show_nat_pos [of n] by (cases "show_nat n") auto
  then have "is_base_digit 10 c" using show_nat_parses [of n] by simp
  then have "48 \<le> (of_char c :: nat)" by (auto simp: is_base_digit_def CharToDigit_def char_value_def Let_def split: if_splits)
  then have "\<not> LocalIsWhitespace c" "c \<noteq> CHR ''-''" "c \<noteq> CHR ''+''" by (auto simp: LocalIsWhitespace_def)
  then show ?thesis using s by blast
qed

lemma show_nat_bound: "n < 10 ^ k \<Longrightarrow> 0 < k \<Longrightarrow> length (show_nat n) \<le> k"
proof (induction n arbitrary: k rule: show_nat.induct)
  case (1 n)
  show ?case
  proof (cases "n < 10")
    case True
    then show ?thesis using 1 by (subst show_nat.simps) simp
  next
    case False
    then obtain j where k: "k = Suc j" using "1.prems"(2) gr0_conv_Suc by auto
    then have "0 < j" using False "1.prems"(1) by (cases j) auto
    moreover have "n div 10 < 10 ^ j" using "1.prems"(1) k by (simp add: less_mult_imp_div_less mult.commute)
    ultimately show ?thesis using "1.IH" [OF False, of j] k False by (subst show_nat.simps) simp
  qed
qed

lemma printed_fits:
  assumes "in_type t v" "1 < sizeof t" shows "length (show_int v) < kOutputBufSize t"
proof -
  have "nat \<bar>v\<bar> < 10 ^ (3 * sizeof t - 1)" using assms by (cases t) (auto simp: in_type_def)
  then have "length (show_nat (nat \<bar>v\<bar>)) \<le> 3 * sizeof t - 1" using assms(2) by (intro show_nat_bound) auto
  moreover have "v < 0 \<Longrightarrow> is_signed t" using assms(1) unsigned_range [of t] by (auto simp: in_type_def)
  ultimately show ?thesis using assms(2) by (auto simp: show_int_def kOutputBufSize_def)
qed

text \<open>
  Every integer of 16 bits or more survives being printed and parsed: no check of the printer fails, the parser accepts the
  text and returns the number.
\<close>

theorem number_text_roundtrip:
  assumes "in_type t v" and "1 < sizeof t"
  shows "\<exists>s. IntToStringT t v = Inr s \<and> StringToIntImpl t s = Inr (v, True)"
proof -
  let ?s = "show_int v" and ?n = "nat \<bar>v\<bar>"
  obtain c cs where c: "show_nat ?n = c # cs" "\<not> LocalIsWhitespace c" "c \<noteq> CHR ''-''" "c \<noteq> CHR ''+''"
    using show_nat_start by blast
  have ws: "\<not> LocalIsWhitespace (CHR ''-'')" by (simp add: LocalIsWhitespace_def)
  have "dropWhile LocalIsWhitespace ?s = ?s" using c ws by (auto simp: show_int_def)
  moreover have "number_body 10 ?s = show_nat ?n" "number_meant 10 ?s = v"
    using c show_nat_parses [of ?n] by (auto simp: show_int_def number_body_def number_meant_def skip_hex_prefix_def)
  moreover have "v < 0 \<Longrightarrow> is_signed t" using assms(1) unsigned_range [of t] by (auto simp: in_type_def)
  moreover have "hd ?s = CHR ''-'' \<longleftrightarrow> v < 0" using c by (auto simp: show_int_def)
  ultimately have "StringToIntImpl t ?s = Inr (v, True)"
    using string_to_number_parts [of 10 ?s ?s t] assms(1) show_nat_parses [of ?n] c(1)
    by (auto simp: StringToIntImpl_def clamp_simps)
  then show ?thesis using IntToStringT_exact [OF assms(1)] printed_fits [OF assms] by auto
qed

theorem number_text_roundtrip_witness:
  "\<exists>s. IntToStringT Int64 (- 9223372036854775808) = Inr s \<and> StringToIntImpl Int64 s = Inr (- 9223372036854775808, True)"
  using number_text_roundtrip [of Int64 "- 9223372036854775808"] by (simp add: in_type_def)

text \<open>The buffer of an 8-bit number has no spare place: its longest texts fail the check.\<close>

theorem int8_text_fails: "IntToStringT Int8 (- 128) = Inl DCheckFailed \<and> IntToStringT UInt8 200 = Inl DCheckFailed"
proof -
  have "length (show_nat 128) = 3" "length (show_nat 200) = 3" by (simp_all add: show_nat.simps)
  then show ?thesis by (simp add: IntToStringT_exact in_type_def show_int_def kOutputBufSize_def)
qed

text \<open>Bytes survive hexadecimal notation.\<close>

definition hex_digit :: "int \<Rightarrow> char" where
  "hex_digit d = (if d < 10 then char_of (nat d + 48) else char_of (nat d + 87))"

definition hex_text :: "int list \<Rightarrow> string" where
  "hex_text bs = concat (map (\<lambda>x. [hex_digit (x div 16), hex_digit (x mod 16)]) bs)"

lemma CharToDigit_hex_digit: "0 \<le> d \<Longrightarrow> d < 16 \<Longrightarrow> CharToDigit 16 (hex_digit d) = Some d"
  by (auto simp: CharToDigit_def hex_digit_def char_value_def Let_def)

lemma nibbles: "0 \<le> x \<Longrightarrow> x < 256 \<Longrightarrow> cast UInt8 (push_bit 4 (x div 16) OR (x mod 16)) = x"
proof -
  assume x: "0 \<le> x" "x < 256"
  have "push_bit 4 (drop_bit 4 x) OR take_bit 4 x = x" by (rule bit_eqI) (auto simp: bit_simps)
  then have "push_bit 4 (x div 16) OR (x mod 16) = x" by (simp add: drop_bit_eq_div take_bit_eq_mod)
  then show ?thesis using x by (simp add: in_type_def)
qed

lemma hex_pairs_text: "list_all (in_type UInt8) bs \<Longrightarrow> hex_pairs (hex_text bs) = (True, bs)"
  by (induction bs) (auto simp: hex_text_def in_type_def CharToDigit_hex_digit nibbles)

text \<open>Bytes written as pairs of hexadecimal digits are read back by \<open>HexStringToByteContainer\<close>.\<close>

theorem hex_bytes_roundtrip:
  assumes "bs \<noteq> []" and "list_all (in_type UInt8) bs"
  shows "HexStringToByteContainer (hex_text bs) = (True, bs)"
proof -
  have "length (hex_text bs) = 2 * length bs" by (induction bs) (simp_all add: hex_text_def)
  then show ?thesis using assms hex_pairs_text by (simp add: HexStringToByteContainer_def)
qed

theorem hex_bytes_roundtrip_witness: "HexStringToByteContainer (hex_text [0, 171, 255]) = (True, [0, 171, 255])"
  using hex_bytes_roundtrip [of "[0, 171, 255]"] by (simp add: in_type_def)

end
