(* ===== verification/StringPiece.thy ===== *)
theory StringPiece
  imports StrictWeak
begin

text \<open>
  base/strings/char_traits.h and string_piece.h: a piece is the list of characters it views. The searches are implemented in the
  compiled library; they are the record \<open>piece_lib\<close>, and its contract, that they behave as those of \<open>std::string\<close>, is the
  locale \<open>piece_search\<close>. A \<open>size_t\<close> is a natural number below \<open>2 ^ 64\<close>, with the wrap-around written out.
\<close>

section \<open>Sizes and searches of the standard library\<close>

definition npos :: nat where
  "npos = 2 ^ 64 - 1"

definition size_plus :: "nat \<Rightarrow> nat \<Rightarrow> nat" where
  "size_plus a b = (a + b) mod 2 ^ 64"

definition size_minus :: "nat \<Rightarrow> nat \<Rightarrow> nat" where
  "size_minus a b = (a + (2 ^ 64 - b)) mod 2 ^ 64"

text \<open>The first index from \<open>pos\<close> on, and the last index up to \<open>pos\<close>, with a property.\<close>

definition first_index :: "(nat \<Rightarrow> bool) \<Rightarrow> nat \<Rightarrow> nat \<Rightarrow> nat" where
  "first_index P pos n = (case find P [pos..<n] of None \<Rightarrow> npos | Some i \<Rightarrow> i)"

definition last_index :: "(nat \<Rightarrow> bool) \<Rightarrow> nat \<Rightarrow> nat \<Rightarrow> nat" where
  "last_index P pos n = (case find P (rev [0..<min n (Suc pos)]) of None \<Rightarrow> npos | Some i \<Rightarrow> i)"

definition std_find :: "'c list \<Rightarrow> 'c list \<Rightarrow> nat \<Rightarrow> nat" where
  "std_find s t pos = first_index (\<lambda>i. take (length t) (drop i s) = t) pos (Suc (length s))"

definition std_find_first_of :: "'c list \<Rightarrow> 'c list \<Rightarrow> nat \<Rightarrow> nat" where
  "std_find_first_of s t pos = first_index (\<lambda>i. s ! i \<in> set t) pos (length s)"

definition std_find_first_not_of :: "'c list \<Rightarrow> 'c list \<Rightarrow> nat \<Rightarrow> nat" where
  "std_find_first_not_of s t pos = first_index (\<lambda>i. s ! i \<notin> set t) pos (length s)"

definition std_find_last_not_of :: "'c list \<Rightarrow> 'c list \<Rightarrow> nat \<Rightarrow> nat" where
  "std_find_last_not_of s t pos = last_index (\<lambda>i. s ! i \<notin> set t) pos (length s)"

section \<open>Character traits\<close>

fun CharTraits_compare :: "('c \<Rightarrow> 'c \<Rightarrow> bool) \<Rightarrow> 'c list \<Rightarrow> 'c list \<Rightarrow> nat \<Rightarrow> int res" where
  "CharTraits_compare lt s1 s2 0 = Inr 0"
| "CharTraits_compare lt (a # s1) (b # s2) (Suc n) =
     (if lt a b then Inr (- 1) else if lt b a then Inr 1 else CharTraits_compare lt s1 s2 n)"
| "CharTraits_compare lt s1 s2 (Suc n) = Inl OutOfRange"

text \<open>The length of a null-terminated string in memory; a block without a null is read beyond its end.\<close>

fun CharTraits_length :: "string \<Rightarrow> nat res" where
  "CharTraits_length [] = Inl OutOfRange"
| "CharTraits_length (c # s) = (if c = CHR 0x00 then Inr 0 else rbind (CharTraits_length s) (\<lambda>i. Inr (Suc i)))"

text \<open>\<open>std::char_traits<char>::lt\<close>\<close>

definition char_lt :: "char \<Rightarrow> char \<Rightarrow> bool" where
  "char_lt a b \<longleftrightarrow> (of_char a :: nat) < of_char b"

section \<open>Pieces\<close>

definition piece_of_memory :: "string option \<Rightarrow> string res" where
  "piece_of_memory str = (case str of None \<Rightarrow> Inr [] | Some s \<Rightarrow> rbind (CharTraits_length s) (\<lambda>n. Inr (take n s)))"

definition piece_of_range :: "'c list \<Rightarrow> nat \<Rightarrow> nat \<Rightarrow> 'c list res" where
  "piece_of_range str b e = dcheck (b \<le> e) (Inr (take (e - b) (drop b str)))"

definition piece_at :: "'c list \<Rightarrow> nat \<Rightarrow> 'c res" where
  "piece_at p i = check (i < length p) (Inr (p ! i))"

definition piece_front :: "'c list \<Rightarrow> 'c res" where
  "piece_front p = check (length p \<noteq> 0) (Inr (p ! 0))"

definition piece_back :: "'c list \<Rightarrow> 'c res" where
  "piece_back p = check (length p \<noteq> 0) (Inr (p ! (length p - 1)))"

definition remove_prefix :: "'c list \<Rightarrow> nat \<Rightarrow> 'c list res" where
  "remove_prefix p n = check (n \<le> length p) (Inr (drop n p))"

definition remove_suffix :: "'c list \<Rightarrow> nat \<Rightarrow> 'c list res" where
  "remove_suffix p n = check (n \<le> length p) (Inr (take (length p - n) p))"

definition piece_compare :: "('c \<Rightarrow> 'c \<Rightarrow> bool) \<Rightarrow> 'c list \<Rightarrow> 'c list \<Rightarrow> int res" where
  "piece_compare lt p x =
     rbind (CharTraits_compare lt p x (if length p < length x then length p else length x)) (\<lambda>r.
      Inr (if r = 0 then (if length p < length x then - 1 else if length p > length x then 1 else r) else r))"

definition piece_eq :: "('c \<Rightarrow> 'c \<Rightarrow> bool) \<Rightarrow> 'c list \<Rightarrow> 'c list \<Rightarrow> bool res" where
  "piece_eq lt p x = (if length p = length x then rbind (piece_compare lt p x) (\<lambda>r. Inr (r = 0)) else Inr False)"

definition piece_less :: "('c \<Rightarrow> 'c \<Rightarrow> bool) \<Rightarrow> 'c list \<Rightarrow> 'c list \<Rightarrow> bool res" where
  "piece_less lt p x = rbind (piece_compare lt p x) (\<lambda>r. Inr (r < 0))"

definition piece_ne :: "('c \<Rightarrow> 'c \<Rightarrow> bool) \<Rightarrow> 'c list \<Rightarrow> 'c list \<Rightarrow> bool res" where
  "piece_ne lt p x = rbind (piece_eq lt p x) (\<lambda>b. Inr (\<not> b))"

definition piece_greater :: "('c \<Rightarrow> 'c \<Rightarrow> bool) \<Rightarrow> 'c list \<Rightarrow> 'c list \<Rightarrow> bool res" where
  "piece_greater lt p x = piece_less lt x p"

definition piece_le :: "('c \<Rightarrow> 'c \<Rightarrow> bool) \<Rightarrow> 'c list \<Rightarrow> 'c list \<Rightarrow> bool res" where
  "piece_le lt p x = rbind (piece_less lt x p) (\<lambda>b. Inr (\<not> b))"

definition piece_ge :: "('c \<Rightarrow> 'c \<Rightarrow> bool) \<Rightarrow> 'c list \<Rightarrow> 'c list \<Rightarrow> bool res" where
  "piece_ge lt p x = rbind (piece_less lt p x) (\<lambda>b. Inr (\<not> b))"

definition substr :: "'c list \<Rightarrow> nat \<Rightarrow> nat \<Rightarrow> 'c list res" where
  "substr p pos n = check (pos \<le> length p) (Inr (take (min n (length p - pos)) (drop pos p)))"

text \<open>The hash of a piece of \<open>char\<close>, which is signed.\<close>

definition piece_hash :: "string \<Rightarrow> int" where
  "piece_hash p =
     foldl (\<lambda>result c. (result * 131 + (let n = int (of_char c) in if n \<ge> 128 then n - 256 else n)) mod 2 ^ 64) 0 p"

section \<open>The order of pieces\<close>

fun lex_less :: "('c \<Rightarrow> 'c \<Rightarrow> bool) \<Rightarrow> 'c list \<Rightarrow> 'c list \<Rightarrow> bool" where
  "lex_less lt xs [] = False"
| "lex_less lt [] (y # ys) = True"
| "lex_less lt (x # xs) (y # ys) = (lt x y \<or> \<not> lt y x \<and> lex_less lt xs ys)"

lemma compare_Cons:
  "piece_compare lt (a # p) (b # x) = (if lt a b then Inr (- 1) else if lt b a then Inr 1 else piece_compare lt p x)"
  by (simp add: piece_compare_def cong: if_cong)

lemma piece_compare_exact:
  assumes "\<And>a b. lt a b \<Longrightarrow> \<not> lt b a"
  shows "piece_compare lt p x = Inr (if lex_less lt p x then - 1 else if lex_less lt x p then 1 else 0)"
proof (induction p arbitrary: x)
  case Nil
  then show ?case by (cases x) (simp_all add: piece_compare_def)
next
  case (Cons a p)
  show ?case
  proof (cases x)
    case Nil
    then show ?thesis by (simp add: piece_compare_def)
  next
    case (Cons b y)
    then show ?thesis using assms Cons.IH [of y] by (auto simp: compare_Cons)
  qed
qed

lemma lex_less_asym: "strict_weak lt \<Longrightarrow> lex_less lt a b \<Longrightarrow> \<not> lex_less lt b a"
  by (induction lt a b rule: lex_less.induct) (auto dest: strict_weak.asym)

lemma lex_less_not_trans: "strict_weak lt \<Longrightarrow> \<not> lex_less lt a b \<Longrightarrow> \<not> lex_less lt b c \<Longrightarrow> \<not> lex_less lt a c"
proof (induction lt a b arbitrary: c rule: lex_less.induct)
  case (1 lt xs)
  then show ?case by (cases c) auto
next
  case (3 lt x xs y ys)
  note w = strict_weak.lt_not_lt_trans [OF "3.prems"(1)] strict_weak.not_lt_lt_trans [OF "3.prems"(1)] strict_weak.asym [OF "3.prems"(1)]
    strict_weak.not_lt_trans [OF "3.prems"(1)]
  show ?case
  proof (cases c)
    case (Cons z zs)
    have "\<not> lt x y" "\<not> lt y z" using "3.prems" Cons by auto
    then have xz: "\<not> lt x z" by (rule w(4))
    moreover have "\<not> lex_less lt xs zs" if "\<not> lt z x"
    proof -
      have "\<not> lt y x" "\<not> lt z y" using that w \<open>\<not> lt x y\<close> \<open>\<not> lt y z\<close> by blast+
      then show ?thesis using "3.IH" [of zs] "3.prems" Cons by auto
    qed
    ultimately show ?thesis using Cons by auto
  qed simp
qed simp

interpretation char_order: strict_weak char_lt
  by unfold_locales (auto simp: char_lt_def)

interpretation piece_order: strict_weak "lex_less char_lt"
  using char_order.strict_weak_axioms by unfold_locales (auto dest: lex_less_asym lex_less_not_trans)

lemma char_lt_total: "\<not> char_lt a b \<Longrightarrow> \<not> char_lt b a \<Longrightarrow> a = b"
  using of_char_eq_iff [of a b] by (simp add: char_lt_def)

lemma lex_less_total: "\<not> lex_less char_lt p x \<Longrightarrow> \<not> lex_less char_lt x p \<Longrightarrow> p = x"
  by (induction char_lt p x rule: lex_less.induct) (auto dest: char_lt_total elim: lex_less.elims split: if_splits)

text \<open>
  The comparison of pieces never reads beyond the shorter one; it is the lexicographic order of unsigned characters, which is
  total, and equality is equality of the characters.
\<close>

theorem piece_comparison:
  "piece_compare char_lt p x = Inr (if p = x then 0 else if lex_less char_lt p x then - 1 else 1) \<and>
   piece_eq char_lt p x = Inr (p = x) \<and> (p = x \<or> lex_less char_lt p x \<or> lex_less char_lt x p)"
proof -
  have c: "piece_compare char_lt p x = Inr (if lex_less char_lt p x then - 1 else if lex_less char_lt x p then 1 else 0)"
    by (rule piece_compare_exact) (rule char_order.asym)
  have "p = x \<longleftrightarrow> \<not> lex_less char_lt p x \<and> \<not> lex_less char_lt x p" using lex_less_total piece_order.irrefl by blast
  then show ?thesis using c by (auto simp: piece_eq_def)
qed

section \<open>Searching\<close>

lemma first_index_cases:
  assumes "n \<le> npos"
  obtains (None) "first_index P pos n = npos" "\<And>i. pos \<le> i \<Longrightarrow> i < n \<Longrightarrow> \<not> P i"
  | (Some) i where "first_index P pos n = i" "pos \<le> i" "i < n" "P i" "\<And>j. pos \<le> j \<Longrightarrow> j < i \<Longrightarrow> \<not> P j"
proof (cases "find P [pos..<n]")
  case None
  then have "\<And>i. pos \<le> i \<Longrightarrow> i < n \<Longrightarrow> \<not> P i" by (auto simp: find_None_iff)
  then show thesis using that(1) None by (simp add: first_index_def)
next
  case (Some i)
  then obtain k where k: "k < n - pos" "P (pos + k)" "i = pos + k" "\<forall>j<k. \<not> P (pos + j)" by (auto simp: find_Some_iff)
  have "\<not> P j" if "pos \<le> j" "j < i" for j using k(4) that k(3) by (metis le_add_diff_inverse less_diff_conv2 add.commute)
  then show thesis using that(2) [of i] Some k by (auto simp: first_index_def)
qed

lemma last_index_cases:
  assumes "n \<le> Suc pos"
  obtains (None) "last_index P pos n = npos" "\<And>i. i < n \<Longrightarrow> \<not> P i"
  | (Some) i where "last_index P pos n = i" "i < n" "P i" "\<And>j. i < j \<Longrightarrow> j < n \<Longrightarrow> \<not> P j"
proof (cases "find P (rev [0..<n])")
  case None
  then have "\<And>i. i < n \<Longrightarrow> \<not> P i" by (auto simp: find_None_iff)
  then show thesis using that(1) None assms by (simp add: last_index_def min_def)
next
  case (Some i)
  then obtain k where k: "k < n" "P i" "i = n - Suc k" "\<forall>j<k. \<not> P (n - Suc j)" by (auto simp: find_Some_iff rev_nth)
  have "\<not> P j" if "i < j" "j < n" for j
  proof -
    have "n - Suc j < k" "n - Suc (n - Suc j) = j" using that k by auto
    then show ?thesis using k(4) by metis
  qed
  then show thesis using that(2) [of i] Some k assms by (auto simp: last_index_def min_def)
qed

lemma length_takeWhile_eq:
  "n < length xs \<Longrightarrow> \<not> P (xs ! n) \<Longrightarrow> (\<And>i. i < n \<Longrightarrow> P (xs ! i)) \<Longrightarrow> length (takeWhile P xs) = n"
  using takeWhile_eq_take_P_nth [of n xs P] by simp

text \<open>What the searches of the compiled library promise.\<close>

record 'c piece_lib =
  lib_find :: "'c list \<Rightarrow> 'c list \<Rightarrow> nat \<Rightarrow> nat"
  lib_find_first_of :: "'c list \<Rightarrow> 'c list \<Rightarrow> nat \<Rightarrow> nat"
  lib_find_first_not_of :: "'c list \<Rightarrow> 'c list \<Rightarrow> nat \<Rightarrow> nat"
  lib_find_last_not_of :: "'c list \<Rightarrow> 'c list \<Rightarrow> nat \<Rightarrow> nat"

locale piece_search =
  fixes L :: "'c piece_lib"
  assumes find_law: "length s < npos \<Longrightarrow> lib_find L s t pos = std_find s t pos"
    and find_first_of_law: "length s < npos \<Longrightarrow> lib_find_first_of L s t pos = std_find_first_of s t pos"
    and find_first_not_of_law: "length s < npos \<Longrightarrow> lib_find_first_not_of L s t pos = std_find_first_not_of s t pos"
    and find_last_not_of_law: "length s < npos \<Longrightarrow> lib_find_last_not_of L s t pos = std_find_last_not_of s t pos"
begin

lemma first_of_cases:
  assumes "length s < npos"
  obtains (None) "lib_find_first_of L s t pos = npos" "\<And>i. pos \<le> i \<Longrightarrow> i < length s \<Longrightarrow> s ! i \<notin> set t"
  | (Some) i where "lib_find_first_of L s t pos = i" "pos \<le> i" "i < length s" "s ! i \<in> set t" "\<And>j. pos \<le> j \<Longrightarrow> j < i \<Longrightarrow> s ! j \<notin> set t"
proof -
  have "length s \<le> npos" using assms by simp
  then show thesis
    by (rule first_index_cases [where P = "\<lambda>i. s ! i \<in> set t" and pos = pos])
      (use that find_first_of_law [OF assms] in \<open>auto simp: std_find_first_of_def\<close>)
qed

lemma find_cases:
  assumes "length s < npos"
  obtains (None) "lib_find L s t pos = npos" "\<And>i. pos \<le> i \<Longrightarrow> i \<le> length s \<Longrightarrow> take (length t) (drop i s) \<noteq> t"
  | (Some) i where "lib_find L s t pos = i" "pos \<le> i" "i \<le> length s" "take (length t) (drop i s) = t"
      "\<And>j. pos \<le> j \<Longrightarrow> j < i \<Longrightarrow> take (length t) (drop j s) \<noteq> t"
proof -
  have "Suc (length s) \<le> npos" using assms by simp
  then show thesis
    by (rule first_index_cases [where P = "\<lambda>i. take (length t) (drop i s) = t" and pos = pos])
      (use that find_law [OF assms] in \<open>auto simp: std_find_def\<close>)
qed

lemma first_not_of_exact:
  assumes "length s < npos"
  shows "lib_find_first_not_of L s t 0 =
    (let n = length (takeWhile (\<lambda>c. c \<in> set t) s) in if n = length s then npos else n)"
proof -
  let ?n = "length (takeWhile (\<lambda>c. c \<in> set t) s)"
  have "length s \<le> npos" using assms by simp
  then show ?thesis
  proof (cases rule: first_index_cases [where P = "\<lambda>i. s ! i \<notin> set t" and pos = 0])
    case None
    then have "\<forall>c \<in> set s. c \<in> set t" by (auto simp: in_set_conv_nth)
    then have "?n = length s" by (metis takeWhile_eq_all_conv)
    then show ?thesis using None find_first_not_of_law [OF assms] by (simp add: std_find_first_not_of_def)
  next
    case (Some i)
    then have "?n = i" by (intro length_takeWhile_eq) auto
    then show ?thesis using Some find_first_not_of_law [OF assms] by (simp add: std_find_first_not_of_def)
  qed
qed

lemma last_not_of_exact:
  assumes "length s < npos"
  shows "lib_find_last_not_of L s t npos =
    (let n = length (takeWhile (\<lambda>c. c \<in> set t) (rev s)) in if n = length s then npos else length s - Suc n)"
proof -
  let ?n = "length (takeWhile (\<lambda>c. c \<in> set t) (rev s))"
  have "length s \<le> Suc npos" using assms by simp
  then show ?thesis
  proof (cases rule: last_index_cases [where P = "\<lambda>i. s ! i \<notin> set t"])
    case None
    then have "\<forall>c \<in> set (rev s). c \<in> set t" by (auto simp: in_set_conv_nth)
    then have "?n = length s" by (metis takeWhile_eq_all_conv length_rev)
    then show ?thesis using None find_last_not_of_law [OF assms] by (simp add: std_find_last_not_of_def)
  next
    case (Some i)
    then have "?n = length s - Suc i" by (intro length_takeWhile_eq) (auto simp: rev_nth)
    then show ?thesis using Some find_last_not_of_law [OF assms] by (auto simp: std_find_last_not_of_def Let_def)
  qed
qed

end

definition std_pieces :: "'c piece_lib" where
  "std_pieces = \<lparr>lib_find = std_find, lib_find_first_of = std_find_first_of, lib_find_first_not_of = std_find_first_not_of,
     lib_find_last_not_of = std_find_last_not_of\<rparr>"

interpretation std_search: piece_search std_pieces
  by unfold_locales (simp_all add: std_pieces_def)

end
