(* ===== verification/StringReplace.thy ===== *)
theory StringReplace
  imports StringPiece
begin

text \<open>
  \<open>DoReplaceMatchesAfterOffset\<close> of base/strings/string_util_internal.h with its two matchers. The string is a list with a
  capacity; copies and moves inside its buffer are checked against the size. The text to be put in does not alias the string.
\<close>

section \<open>Buffers\<close>

definition traits_copy :: "'c list \<Rightarrow> nat \<Rightarrow> 'c list \<Rightarrow> 'c list res" where
  "traits_copy buf off src =
     (if off + length src \<le> length buf then Inr (take off buf @ src @ drop (off + length src) buf) else Inl OutOfRange)"

definition traits_move :: "'c list \<Rightarrow> nat \<Rightarrow> nat \<Rightarrow> nat \<Rightarrow> 'c list res" where
  "traits_move buf dst src n =
     (if src + n \<le> length buf then traits_copy buf dst (take n (drop src buf)) else Inl OutOfRange)"

definition string_replace :: "'c list \<Rightarrow> nat \<Rightarrow> nat \<Rightarrow> 'c list \<Rightarrow> 'c list res" where
  "string_replace s pos n r = (if pos \<le> length s then Inr (take pos s @ r @ drop (pos + n) s) else Inl OutOfRange)"

definition string_sub :: "'c list \<Rightarrow> nat \<Rightarrow> nat \<Rightarrow> 'c list res" where
  "string_sub s pos n = (if pos \<le> length s then Inr (take n (drop pos s)) else Inl OutOfRange)"

definition string_resize :: "'c \<Rightarrow> 'c list \<Rightarrow> nat \<Rightarrow> 'c list" where
  "string_resize z s n = take n s @ replicate (n - length s) z"

section \<open>Matchers\<close>

datatype 'c matcher = SubstringMatcher (find_this: "'c list") | CharacterMatcher (find_any_of_these: "'c list")

fun matcher_Find :: "'c matcher \<Rightarrow> 'c list \<Rightarrow> nat \<Rightarrow> nat" where
  "matcher_Find (SubstringMatcher t) input pos = std_find input t pos"
| "matcher_Find (CharacterMatcher t) input pos = std_find_first_of input t pos"

fun MatchSize :: "'c matcher \<Rightarrow> nat" where
  "MatchSize (SubstringMatcher t) = length t"
| "MatchSize (CharacterMatcher t) = 1"

datatype replace_type = REPLACE_ALL | REPLACE_FIRST

section \<open>The loops\<close>

fun same_length_loop :: "nat \<Rightarrow> 'c matcher \<Rightarrow> 'c list \<Rightarrow> 'c list \<Rightarrow> nat \<Rightarrow> 'c list res" where
  "same_length_loop fuel m rw str off =
     (if off = npos then Inr str
      else case fuel of 0 \<Rightarrow> Inl Diverges
      | Suc fuel \<Rightarrow> rbind (traits_copy str off rw) (\<lambda>str.
          same_length_loop fuel m rw str (matcher_Find m str (off + length rw))))"

text \<open>The expansion and the number of matches.\<close>

fun count_loop :: "nat \<Rightarrow> 'c matcher \<Rightarrow> 'c list \<Rightarrow> nat \<Rightarrow> nat \<Rightarrow> nat \<times> nat \<Rightarrow> (nat \<times> nat) res" where
  "count_loop fuel m str per mat (expansion, num_matches) =
     (if mat = npos then Inr (expansion, num_matches)
      else case fuel of 0 \<Rightarrow> Inl Diverges
      | Suc fuel \<Rightarrow> count_loop fuel m str per (matcher_Find m str (mat + MatchSize m)) (size_plus expansion per, num_matches + 1))"

text \<open>The loop into a new buffer, with the part behind the last match.\<close>

fun append_loop_new :: "nat \<Rightarrow> 'c matcher \<Rightarrow> 'c list \<Rightarrow> 'c list \<Rightarrow> nat \<Rightarrow> nat \<Rightarrow> 'c list \<Rightarrow> 'c list res" where
  "append_loop_new num_matches m rw src mat pos str =
     rbind (string_sub src pos (mat - pos)) (\<lambda>piece.
      let str = str @ piece @ rw; pos = mat + MatchSize m in
      case num_matches of
        0 \<Rightarrow> Inl Diverges
      | Suc num_matches \<Rightarrow>
          if num_matches = 0 then rbind (string_sub src pos (length src - pos)) (\<lambda>rest. Inr (str @ rest))
          else append_loop_new num_matches m rw src (matcher_Find m src pos) pos str)"

text \<open>The loop in place: the buffer and the final \<open>write_offset\<close>.\<close>

primrec shift_loop :: "nat \<Rightarrow> 'c matcher \<Rightarrow> 'c list \<Rightarrow> 'c list \<Rightarrow> nat \<Rightarrow> nat \<Rightarrow> nat \<Rightarrow> ('c list \<times> nat) res" where
  "shift_loop 0 m rw str str_length write_offset read_offset = Inl Diverges"
| "shift_loop (Suc fuel) m rw str str_length write_offset read_offset =
     rbind (if length rw \<noteq> 0 then traits_copy str write_offset rw else Inr str) (\<lambda>str.
      let write_offset = write_offset + length rw; read_offset = read_offset + MatchSize m;
          mat = min (matcher_Find m str read_offset) str_length; len = mat - read_offset in
      rbind (if len \<noteq> 0 then traits_move str write_offset read_offset len else Inr str) (\<lambda>str.
      let write_offset = write_offset + len; read_offset = read_offset + len in
      if read_offset < str_length then shift_loop fuel m rw str str_length write_offset read_offset
      else Inr (str, write_offset)))"

definition DoReplaceMatchesAfterOffset ::
    "'c \<Rightarrow> nat \<Rightarrow> 'c list \<Rightarrow> nat \<Rightarrow> 'c matcher \<Rightarrow> 'c list \<Rightarrow> replace_type \<Rightarrow> (bool \<times> 'c list) res" where
  "DoReplaceMatchesAfterOffset z cap str initial_offset m rw replace_type =
     (let find_length = MatchSize m; replace_length = length rw; fuel = Suc (length str) in
      if find_length = 0 then Inr (False, str)
      else let first_match = matcher_Find m str initial_offset in
      if first_match = npos then Inr (False, str)
      else if replace_type = REPLACE_FIRST then
        rbind (string_replace str first_match find_length rw) (\<lambda>str. Inr (True, str))
      else if find_length = replace_length then
        rbind (same_length_loop fuel m rw str first_match) (\<lambda>str. Inr (True, str))
      else if replace_length > find_length then
        rbind (count_loop fuel m str (replace_length - find_length) first_match (0, 0)) (\<lambda>(expansion, num_matches).
        let final_length = size_plus (length str) expansion in
        if cap < final_length then
          rbind (append_loop_new num_matches m rw str first_match 0 []) (\<lambda>str. Inr (True, str))
        else
          let shift_src = first_match + find_length; shift_dst = shift_src + expansion;
              resized = (if shift_dst > length str then string_resize z str shift_dst else str) in
          rbind (string_sub resized shift_src (length str - shift_src)) (\<lambda>tail.
          rbind (string_replace resized shift_dst (length str - shift_src) tail) (\<lambda>shifted.
          rbind (shift_loop fuel m rw shifted final_length first_match (first_match + expansion)) (\<lambda>(str, write_offset).
          Inr (True, string_resize z str write_offset)))))
      else
        rbind (shift_loop fuel m rw str (length str) first_match first_match) (\<lambda>(str, write_offset).
        Inr (True, string_resize z str write_offset)))"

definition ReplaceCharsT :: "'c \<Rightarrow> nat \<Rightarrow> 'c list \<Rightarrow> 'c list \<Rightarrow> 'c list \<Rightarrow> (bool \<times> 'c list) res" where
  "ReplaceCharsT z cap input find_any replace_with =
     DoReplaceMatchesAfterOffset z cap input 0 (CharacterMatcher find_any) replace_with REPLACE_ALL"

section \<open>The reference\<close>

fun matches_at :: "'c matcher \<Rightarrow> 'c list \<Rightarrow> bool" where
  "matches_at (SubstringMatcher t) xs = (take (length t) xs = t)"
| "matches_at (CharacterMatcher t) xs = (xs \<noteq> [] \<and> hd xs \<in> set t)"

text \<open>Replacing from left to right, matches that do not overlap.\<close>

fun replace_ref :: "'c matcher \<Rightarrow> 'c list \<Rightarrow> 'c list \<Rightarrow> 'c list" where
  "replace_ref m rw [] = []"
| "replace_ref m rw (x # xs) =
     (if matches_at m (x # xs) then rw @ replace_ref m rw (drop (MatchSize m - 1) xs) else x # replace_ref m rw xs)"

fun count_ref :: "'c matcher \<Rightarrow> 'c list \<Rightarrow> nat" where
  "count_ref m [] = 0"
| "count_ref m (x # xs) =
     (if matches_at m (x # xs) then Suc (count_ref m (drop (MatchSize m - 1) xs)) else count_ref m xs)"

fun replace_first_ref :: "'c matcher \<Rightarrow> 'c list \<Rightarrow> 'c list \<Rightarrow> 'c list" where
  "replace_first_ref m rw [] = []"
| "replace_first_ref m rw (x # xs) = (if matches_at m (x # xs) then rw @ drop (MatchSize m) (x # xs) else x # replace_first_ref m rw xs)"

lemma matches_at_length: "matches_at m xs \<Longrightarrow> MatchSize m \<le> length xs"
proof (cases m)
  case (SubstringMatcher t)
  assume "matches_at m xs"
  then have "length (take (length t) xs) = length t" using SubstringMatcher by simp
  then show ?thesis using SubstringMatcher by simp
next
  case (CharacterMatcher t)
  assume "matches_at m xs"
  then show ?thesis using CharacterMatcher by (cases xs) auto
qed

lemma replace_ref_match:
  assumes "matches_at m xs" "0 < MatchSize m"
  shows "replace_ref m rw xs = rw @ replace_ref m rw (drop (MatchSize m) xs)" "count_ref m xs = Suc (count_ref m (drop (MatchSize m) xs))"
    "replace_first_ref m rw xs = rw @ drop (MatchSize m) xs"
proof -
  obtain y ys where "xs = y # ys" using matches_at_length [OF assms(1)] assms(2) by (cases xs) auto
  then show "replace_ref m rw xs = rw @ replace_ref m rw (drop (MatchSize m) xs)" "count_ref m xs = Suc (count_ref m (drop (MatchSize m) xs))"
    "replace_first_ref m rw xs = rw @ drop (MatchSize m) xs"
    using assms by (simp_all add: drop_Cons')
qed

lemma replace_ref_skip:
  "(\<And>j. j < n \<Longrightarrow> \<not> matches_at m (drop j xs)) \<Longrightarrow> n \<le> length xs \<Longrightarrow>
   replace_ref m rw xs = take n xs @ replace_ref m rw (drop n xs) \<and> count_ref m xs = count_ref m (drop n xs) \<and>
   replace_first_ref m rw xs = take n xs @ replace_first_ref m rw (drop n xs)"
proof (induction n arbitrary: xs)
  case (Suc n)
  then obtain y ys where xs: "xs = y # ys" by (cases xs) auto
  have "\<not> matches_at m xs" using Suc.prems(1) [of 0] by simp
  moreover have "replace_ref m rw ys = take n ys @ replace_ref m rw (drop n ys) \<and> count_ref m ys = count_ref m (drop n ys) \<and>
      replace_first_ref m rw ys = take n ys @ replace_first_ref m rw (drop n ys)"
    using Suc.prems xs by (intro Suc.IH) force+
  ultimately show ?case using xs by simp
qed simp

lemma Find_first:
  assumes "length s < npos" "0 < MatchSize m"
  obtains (None) "matcher_Find m s pos = npos" "\<And>i. pos \<le> i \<Longrightarrow> i < length s \<Longrightarrow> \<not> matches_at m (drop i s)"
  | (Some) i where "matcher_Find m s pos = i" "pos \<le> i" "i < length s" "matches_at m (drop i s)"
      "\<And>j. pos \<le> j \<Longrightarrow> j < i \<Longrightarrow> \<not> matches_at m (drop j s)"
proof (cases m)
  case (SubstringMatcher t)
  have n: "Suc (length s) \<le> npos" using assms by simp
  from n show thesis
  proof (cases rule: first_index_cases [where P = "\<lambda>i. take (length t) (drop i s) = t" and pos = pos])
    case None
    then show ?thesis using that(1) SubstringMatcher by (simp add: std_find_def)
  next
    case (Some i)
    have "i < length s" using Some(3,4) assms(2) SubstringMatcher by (cases "i = length s") auto
    then show ?thesis using that(2) [of i] SubstringMatcher Some by (simp add: std_find_def)
  qed
next
  case (CharacterMatcher t)
  have n: "length s \<le> npos" using assms by simp
  from n show thesis
  proof (cases rule: first_index_cases [where P = "\<lambda>i. s ! i \<in> set t" and pos = pos])
    case None
    then show ?thesis using that(1) CharacterMatcher by (simp add: std_find_first_of_def hd_drop_conv_nth)
  next
    case (Some i)
    then show ?thesis using that(2) [of i] CharacterMatcher by (simp add: std_find_first_of_def hd_drop_conv_nth)
  qed
qed

lemma Find_cases:
  assumes "length s < npos" "0 < MatchSize m" "pos \<le> length s"
  obtains (None) "matcher_Find m s pos = npos" "replace_ref m rw (drop pos s) = drop pos s" "count_ref m (drop pos s) = 0"
      "replace_first_ref m rw (drop pos s) = drop pos s"
  | (Some) i where "matcher_Find m s pos = i" "pos \<le> i" "i < length s" "i + MatchSize m \<le> length s"
      "replace_ref m rw (drop pos s) = take (i - pos) (drop pos s) @ rw @ replace_ref m rw (drop (i + MatchSize m) s)"
      "count_ref m (drop pos s) = Suc (count_ref m (drop (i + MatchSize m) s))"
      "replace_first_ref m rw (drop pos s) = take (i - pos) (drop pos s) @ rw @ drop (i + MatchSize m) s"
  using assms(1,2)
proof (cases rule: Find_first [where pos = pos])
  case None
  have "replace_ref m rw (drop pos s) = take (length s - pos) (drop pos s) @ replace_ref m rw (drop (length s - pos) (drop pos s)) \<and>
      count_ref m (drop pos s) = count_ref m (drop (length s - pos) (drop pos s)) \<and>
      replace_first_ref m rw (drop pos s) = take (length s - pos) (drop pos s) @ replace_first_ref m rw (drop (length s - pos) (drop pos s))"
    using None by (intro replace_ref_skip) auto
  then show thesis using that(1) None(1) by simp
next
  case (Some i)
  have sk: "replace_ref m rw (drop pos s) = take (i - pos) (drop pos s) @ replace_ref m rw (drop (i - pos) (drop pos s)) \<and>
      count_ref m (drop pos s) = count_ref m (drop (i - pos) (drop pos s)) \<and>
      replace_first_ref m rw (drop pos s) = take (i - pos) (drop pos s) @ replace_first_ref m rw (drop (i - pos) (drop pos s))"
    using Some by (intro replace_ref_skip) auto
  have "drop (i - pos) (drop pos s) = drop i s" using Some by simp
  then show thesis using that(2) [of i] Some sk replace_ref_match [OF Some(4) assms(2)] matches_at_length [OF Some(4)] by (simp add: add.commute)
qed

section \<open>The loops agree with the reference\<close>

declare same_length_loop.simps [simp del] count_loop.simps [simp del] append_loop_new.simps [simp del] shift_loop.simps [simp del]

lemma take_past:
  "w \<le> length str \<Longrightarrow> w + length rw \<le> i \<Longrightarrow> take i (take w str @ rw @ ys) = take w str @ rw @ take (i - (w + length rw)) ys"
  "w \<le> length str \<Longrightarrow> w + length rw \<le> i \<Longrightarrow> drop i (take w str @ rw @ ys) = drop (i - (w + length rw)) ys"
  by simp_all

lemma same_length_loop_exact:
  assumes "length rw = MatchSize m" "0 < MatchSize m"
  shows "length str < npos \<Longrightarrow> off + MatchSize m \<le> length str \<Longrightarrow> length str < fuel + off \<Longrightarrow>
    same_length_loop fuel m rw str off = Inr (take off str @ rw @ replace_ref m rw (drop (off + MatchSize m) str))"
proof (induction fuel arbitrary: str off)
  case (Suc fuel)
  let ?k = "MatchSize m"
  define t where "t = take off str @ rw @ drop (off + ?k) str"
  have c: "traits_copy str off rw = Inr t" using Suc.prems assms by (simp add: traits_copy_def t_def)
  have l: "length t = length str" "drop (off + ?k) t = drop (off + ?k) str" using Suc.prems assms by (auto simp: t_def)
  have tk: "take i t = take off str @ rw @ take (i - (off + ?k)) (drop (off + ?k) str)" if "off + ?k \<le> i" for i
    using that Suc.prems(2) assms take_past(1) [of off str rw i] by (simp add: t_def)
  have st: "same_length_loop (Suc fuel) m rw str off = same_length_loop fuel m rw t (matcher_Find m t (off + ?k))"
    using c Suc.prems assms by (subst same_length_loop.simps) simp
  have "length t < npos" "off + ?k \<le> length t" using l Suc.prems by simp_all
  from this(1) assms(2) this(2) show ?case
  proof (cases rule: Find_cases [where rw = rw])
    case None
    then show ?thesis using st l tk [of "length t"] by (subst (asm) same_length_loop.simps) (simp add: t_def)
  next
    case (Some i)
    have "same_length_loop fuel m rw t i = Inr (take i t @ rw @ replace_ref m rw (drop (i + ?k) t))"
      using Some(2,4) Suc.prems l(1) assms by (intro Suc.IH) linarith+
    then show ?thesis using st Some(1,2,5) l(2) tk [of i] by simp
  qed
qed simp

lemma size_plus_mod: "size_plus (a mod 2 ^ 64) b = (a + b) mod 2 ^ 64"
  by (simp add: size_plus_def mod_add_left_eq)

lemma count_loop_exact:
  assumes "0 < MatchSize m" "length str < npos"
  shows "mat + MatchSize m \<le> length str \<Longrightarrow> length str < fuel + mat \<Longrightarrow>
    count_loop fuel m str per mat (e mod 2 ^ 64, n) =
      Inr ((e + Suc (count_ref m (drop (mat + MatchSize m) str)) * per) mod 2 ^ 64, n + Suc (count_ref m (drop (mat + MatchSize m) str)))"
proof (induction fuel arbitrary: mat e n)
  case (Suc fuel)
  let ?k = "MatchSize m"
  have st: "count_loop (Suc fuel) m str per mat (e mod 2 ^ 64, n) =
      count_loop fuel m str per (matcher_Find m str (mat + ?k)) ((e + per) mod 2 ^ 64, n + 1)"
    using Suc.prems assms size_plus_mod [of e per] by (subst count_loop.simps) simp
  from assms(2,1) Suc.prems(1) show ?case
  proof (cases rule: Find_cases [where rw = "[]"])
    case None
    then show ?thesis unfolding st by (subst count_loop.simps) simp
  next
    case (Some i)
    have "count_loop fuel m str per i ((e + per) mod 2 ^ 64, n + 1) =
        Inr ((e + per + Suc (count_ref m (drop (i + ?k) str)) * per) mod 2 ^ 64, n + 1 + Suc (count_ref m (drop (i + ?k) str)))"
      using Some(2,4) Suc.prems assms by (intro Suc.IH) linarith+
    then show ?thesis using st Some(1,6) by (simp add: ac_simps)
  qed
qed simp

lemma append_loop_new_exact:
  assumes "0 < MatchSize m" "length src < npos"
  shows "num = Suc (count_ref m (drop (mat + MatchSize m) src)) \<Longrightarrow> mat + MatchSize m \<le> length src \<Longrightarrow> pos \<le> mat \<Longrightarrow>
    append_loop_new num m rw src mat pos str =
      Inr (str @ take (mat - pos) (drop pos src) @ rw @ replace_ref m rw (drop (mat + MatchSize m) src))"
proof (induction num arbitrary: mat pos str)
  case (Suc num)
  let ?k = "MatchSize m"
  let ?str = "str @ take (mat - pos) (drop pos src) @ rw"
  have st: "append_loop_new (Suc num) m rw src mat pos str =
      (if num = 0 then Inr (?str @ drop (mat + ?k) src)
       else append_loop_new num m rw src (matcher_Find m src (mat + ?k)) (mat + ?k) ?str)"
    using Suc.prems by (subst append_loop_new.simps) (simp add: string_sub_def Let_def)
  from assms(2,1) Suc.prems(2) show ?case
  proof (cases rule: Find_cases [where rw = rw])
    case None
    then show ?thesis using st Suc.prems(1) by simp
  next
    case (Some i)
    have "append_loop_new num m rw src i (mat + ?k) ?str =
        Inr (?str @ take (i - (mat + ?k)) (drop (mat + ?k) src) @ rw @ replace_ref m rw (drop (i + ?k) src))"
      using Some(2,4,6) Suc.prems by (intro Suc.IH) simp_all
    then show ?thesis using st Some(1,5,6) Suc.prems(1) by simp
  qed
qed simp

lemma replace_ref_length:
  "0 < MatchSize m \<Longrightarrow> length (replace_ref m rw xs) + count_ref m xs * MatchSize m = length xs + count_ref m xs * length rw"
proof (induction m rw xs rule: replace_ref.induct)
  case (2 m rw x xs)
  show ?case
  proof (cases "matches_at m (x # xs)")
    case True
    then have "MatchSize m \<le> Suc (length xs)" using matches_at_length [OF True] by simp
    then show ?thesis using 2 True by simp
  qed (use 2 in simp)
qed simp

lemma replace_ref_grows: "0 < MatchSize m \<Longrightarrow> MatchSize m \<le> length rw \<Longrightarrow> length xs \<le> length (replace_ref m rw xs)"
  using replace_ref_length [of m rw xs] mult_le_mono2 [of "MatchSize m" "length rw" "count_ref m xs"] by linarith

lemma replace_ref_shrinks: "0 < MatchSize m \<Longrightarrow> length rw \<le> MatchSize m \<Longrightarrow> length (replace_ref m rw xs) \<le> length xs"
  using replace_ref_length [of m rw xs] mult_le_mono2 [of "length rw" "MatchSize m" "count_ref m xs"] by linarith

lemma shift_loop_step:
  assumes "w + length rw \<le> length str" "r + MatchSize m \<le> length str" "t = take w str @ rw @ drop (w + length rw) str"
  shows "shift_loop (Suc fuel) m rw str n w r =
    (let w = w + length rw; r = r + MatchSize m; mat = min (matcher_Find m t r) n; len = mat - r in
     rbind (traits_move t w r len) (\<lambda>t.
      if r + len < n then shift_loop fuel m rw t n (w + len) (r + len) else Inr (t, w + len)))"
proof -
  have c: "(if length rw \<noteq> 0 then traits_copy str w rw else Inr str) = Inr t" using assms(1,3) by (auto simp: traits_copy_def)
  have l: "length t = length str" using assms(1,3) by simp
  have z: "traits_move t (w + length rw) (r + MatchSize m) 0 = Inr t" using assms(1,2) l by (simp add: traits_move_def traits_copy_def)
  have m: "(if len \<noteq> 0 then traits_move t (w + length rw) (r + MatchSize m) len else Inr t) =
      traits_move t (w + length rw) (r + MatchSize m) len" for len using z by simp
  show ?thesis by (simp only: shift_loop.simps c rbind.simps m Let_def)
qed

lemma moved_down:
  assumes "w \<le> r" "r + n \<le> length t"
  shows "\<exists>u. traits_move t w r n = Inr u \<and> length u = length t \<and> take (w + n) u = take w t @ take n (drop r t) \<and>
    (\<forall>i. r + n \<le> i \<longrightarrow> drop i u = drop i t)"
proof -
  let ?u = "take w t @ take n (drop r t) @ drop (w + n) t"
  have "traits_move t w r n = Inr ?u" using assms by (simp add: traits_move_def traits_copy_def)
  moreover have "drop i ?u = drop i t" if "r + n \<le> i" for i using that assms by simp
  ultimately show ?thesis using assms by auto
qed

lemma shift_loop_exact:
  assumes "0 < MatchSize m"
  shows "length str < npos \<Longrightarrow> w + length rw \<le> r + MatchSize m \<Longrightarrow> r + MatchSize m \<le> length str \<Longrightarrow> length str < fuel + r \<Longrightarrow>
    R = replace_ref m rw (drop (r + MatchSize m) str) \<Longrightarrow> length rw \<le> MatchSize m \<or> w + length rw + length R \<le> length str \<Longrightarrow>
    \<exists>t. shift_loop fuel m rw str (length str) w r = Inr (t, w + length rw + length R) \<and> length t = length str \<and>
      take (w + length rw + length R) t = take w str @ rw @ R"
proof (induction fuel arbitrary: str w r R)
  case (Suc fuel)
  let ?k = "MatchSize m"
  define t where "t = take w str @ rw @ drop (w + length rw) str"
  define w1 where "w1 = w + length rw"
  define r1 where "r1 = r + ?k"
  have le: "w1 \<le> r1" "r1 \<le> length str" using Suc.prems by (simp_all add: w1_def r1_def)
  have t: "length t = length str" "take w1 t = take w str @ rw" "drop r1 t = drop r1 str"
    using le by (auto simp: t_def w1_def)
  have R: "R = replace_ref m rw (drop r1 t)" using Suc.prems(5) t by (simp add: r1_def)
  have st: "shift_loop (Suc fuel) m rw str (length str) w r =
    (let mat = min (matcher_Find m t r1) (length str); len = mat - r1 in
     rbind (traits_move t w1 r1 len) (\<lambda>t.
      if r1 + len < length str then shift_loop fuel m rw t (length str) (w1 + len) (r1 + len) else Inr (t, w1 + len)))"
    using shift_loop_step [OF _ _ t_def] le unfolding w1_def r1_def Let_def by simp
  have "length t < npos" "r1 \<le> length t" using t le Suc.prems by simp_all
  from this(1) assms this(2) show ?case
  proof (cases rule: Find_cases [where rw = rw])
    case None
    let ?n = "length str - r1"
    obtain u where u: "traits_move t w1 r1 ?n = Inr u" "length u = length t" "take (w1 + ?n) u = take w1 t @ take ?n (drop r1 t)"
      using moved_down [OF le(1), of ?n t] le(2) t(1) by fastforce
    have "R = drop r1 t" using None(2) R by simp
    then show ?thesis using st None(1) u le t Suc.prems(1) by (simp add: Let_def w1_def min_def)
  next
    case (Some i)
    let ?n = "i - r1"
    obtain u where u: "traits_move t w1 r1 ?n = Inr u" "length u = length t" "take (w1 + ?n) u = take w1 t @ take ?n (drop r1 t)"
      "\<forall>j. r1 + ?n \<le> j \<longrightarrow> drop j u = drop j t"
      using moved_down [OF le(1), of ?n t] t(1) Some(2,3) by fastforce
    let ?R = "replace_ref m rw (drop (i + ?k) u)"
    have du: "drop (i + ?k) u = drop (i + ?k) t" using u(4) Some(2) by simp
    have RR: "R = take ?n (drop r1 t) @ rw @ ?R" using R Some(5) du by simp
    have sz: "length R = ?n + length rw + length ?R" using RR Some(2,3) t(1) le by simp
    have room: "w1 + ?n + length rw \<le> i + ?k"
    proof (cases "length rw \<le> ?k")
      case True
      then show ?thesis using le Some(2) by linarith
    next
      case False
      then have "w1 + length R \<le> length str" using Suc.prems(6) by (simp add: w1_def)
      moreover have "length str - (i + ?k) \<le> length ?R"
        using replace_ref_grows [OF assms, of rw "drop (i + ?k) u"] False u(2) t(1) by simp
      ultimately show ?thesis using sz by linarith
    qed
    have "\<exists>v. shift_loop fuel m rw u (length u) (w1 + ?n) i = Inr (v, w1 + ?n + length rw + length ?R) \<and> length v = length u \<and>
        take (w1 + ?n + length rw + length ?R) v = take (w1 + ?n) u @ rw @ ?R"
    proof (rule Suc.IH)
      show "length u < npos" "i + ?k \<le> length u" "length u < fuel + i"
        using u(2) t(1) Suc.prems(1,4) Some(2,4) assms by (simp_all add: r1_def)
      show "w1 + ?n + length rw \<le> i + ?k" by (rule room)
      show "length rw \<le> ?k \<or> w1 + ?n + length rw + length ?R \<le> length u"
        using Suc.prems(6) sz u(2) t(1) by (auto simp: w1_def)
    qed simp
    then obtain v where v: "shift_loop fuel m rw u (length str) (w1 + ?n) i = Inr (v, w1 + length R)" "length v = length str"
      "take (w1 + length R) v = take w1 t @ R"
      using u(2,3) t(1) sz RR by (auto simp: add.assoc)
    have "min i (length str) = i" "r1 + ?n = i" "i < length str" using Some(2,3) t(1) by simp_all
    then have "shift_loop (Suc fuel) m rw str (length str) w r = Inr (v, w1 + length R)" using st Some(1) u(1) v(1) by (simp add: Let_def)
    then show ?thesis using v(2,3) t(2) by (simp add: w1_def)
  qed
qed simp

section \<open>The replacement agrees with the reference\<close>

definition replaced :: "replace_type \<Rightarrow> 'c matcher \<Rightarrow> 'c list \<Rightarrow> 'c list \<Rightarrow> 'c list" where
  "replaced ty m rw xs = (if MatchSize m = 0 then xs else case ty of REPLACE_ALL \<Rightarrow> replace_ref m rw xs | REPLACE_FIRST \<Rightarrow> replace_first_ref m rw xs)"

definition has_match :: "'c matcher \<Rightarrow> 'c list \<Rightarrow> bool" where
  "has_match m xs \<longleftrightarrow> MatchSize m \<noteq> 0 \<and> (\<exists>i. i < length xs \<and> matches_at m (drop i xs))"

lemma string_resize_short: "n \<le> length s \<Longrightarrow> string_resize z s n = take n s"
  by (simp add: string_resize_def)

text \<open>The branch that makes room in the string before it replaces in place.\<close>

lemma expand_in_place:
  assumes "0 < MatchSize m" "length str + e < npos" "i + MatchSize m \<le> length str" "MatchSize m < length rw"
    and R: "R = replace_ref m rw (drop (i + MatchSize m) str)" and e: "i + length rw + length R = length str + e"
    and resized: "resized = (if i + MatchSize m + e > length str then string_resize z str (i + MatchSize m + e) else str)"
  shows "rbind (string_sub resized (i + MatchSize m) (length str - (i + MatchSize m))) (\<lambda>tail.
      rbind (string_replace resized (i + MatchSize m + e) (length str - (i + MatchSize m)) tail) (\<lambda>shifted.
      rbind (shift_loop (Suc (length str)) m rw shifted (length str + e) i (i + e)) (\<lambda>(str, write_offset).
      Inr (True, string_resize z str write_offset)))) = Inr (True, take i str @ rw @ R)"
proof -
  let ?k = "MatchSize m"
  let ?tail = "drop (i + ?k) str"
  have rs: "take (length str) resized = str" "i + ?k + e \<le> length resized"
    "length resized = max (length str) (i + ?k + e)" using resized by (auto simp: string_resize_def)
  have "take (length str - (i + ?k)) (drop (i + ?k) resized) = ?tail"
    using rs(1) by (metis drop_take)
  then have sub: "string_sub resized (i + ?k) (length str - (i + ?k)) = Inr ?tail" using rs(2) by (simp add: string_sub_def)
  define sh where "sh = take (i + ?k + e) resized @ ?tail"
  have rep: "string_replace resized (i + ?k + e) (length str - (i + ?k)) ?tail = Inr sh"
    using rs assms(3) by (simp add: string_replace_def sh_def)
  have sh: "length sh = length str + e" "drop (i + e + ?k) sh = ?tail" "take i sh = take i str"
  proof -
    show "length sh = length str + e" using rs(2) assms(3) by (simp add: sh_def)
    show "drop (i + e + ?k) sh = ?tail" using rs(2) by (simp add: sh_def ac_simps)
    have "take i (take (length str) resized) = take i resized" using assms(3) by simp
    then show "take i sh = take i str" using rs assms(3) by (simp add: sh_def)
  qed
  have "length rw + length ?tail \<le> length rw + length R" using replace_ref_grows [OF assms(1), of rw ?tail] assms(4) R by simp
  then have "i + length rw \<le> i + e + ?k" using e assms(3) by simp
  then obtain t where t: "shift_loop (Suc (length str)) m rw sh (length sh) i (i + e) = Inr (t, i + length rw + length R)"
    "length t = length sh" "take (i + length rw + length R) t = take i sh @ rw @ R"
    using shift_loop_exact [OF assms(1), of sh i rw "i + e" "Suc (length str)" R] sh R e assms(2,3) by auto
  then show ?thesis using sub rep sh e by (simp add: string_resize_short)
qed

lemma expand_exact:
  assumes "0 < MatchSize m" "length str < npos" "i + MatchSize m \<le> length str" "MatchSize m < length rw"
    and R: "R = replace_ref m rw (drop (i + MatchSize m) str)" and fits: "i + length rw + length R < npos"
  shows "rbind (count_loop (Suc (length str)) m str (length rw - MatchSize m) i (0, 0)) (\<lambda>(expansion, num_matches).
        let final_length = size_plus (length str) expansion in
        if cap < final_length then
          rbind (append_loop_new num_matches m rw str i 0 []) (\<lambda>str. Inr (True, str))
        else
          let shift_src = i + MatchSize m; shift_dst = shift_src + expansion;
              resized = (if shift_dst > length str then string_resize z str shift_dst else str) in
          rbind (string_sub resized shift_src (length str - shift_src)) (\<lambda>tail.
          rbind (string_replace resized shift_dst (length str - shift_src) tail) (\<lambda>shifted.
          rbind (shift_loop (Suc (length str)) m rw shifted final_length i (i + expansion)) (\<lambda>(str, write_offset).
          Inr (True, string_resize z str write_offset))))) = Inr (True, take i str @ rw @ R)"
proof -
  let ?k = "MatchSize m" and ?c = "count_ref m (drop (i + MatchSize m) str)"
  define e where "e = Suc ?c * (length rw - ?k)"
  have "length R + ?c * ?k = length str - (i + ?k) + ?c * length rw"
    using replace_ref_length [OF assms(1), of rw "drop (i + ?k) str"] R by simp
  moreover have "?c * length rw = ?c * ?k + ?c * (length rw - ?k)"
    using assms(4) by (metis add_mult_distrib2 le_add_diff_inverse less_imp_le)
  ultimately have len: "i + length rw + length R = length str + e" using assms(3,4) by (simp add: e_def)
  then have small: "e < 2 ^ 64" "length str + e < 2 ^ 64" "length str + e < npos" using fits by (auto simp: npos_def)
  have "count_loop (Suc (length str)) m str (length rw - ?k) i (0 mod 2 ^ 64, 0) = Inr ((0 + e) mod 2 ^ 64, 0 + Suc ?c)"
    unfolding e_def using assms by (intro count_loop_exact) simp_all
  then have c: "count_loop (Suc (length str)) m str (length rw - ?k) i (0, 0) = Inr (e, Suc ?c)" using small(1) by simp
  have fl: "size_plus (length str) e = length str + e" using small(2) by (simp add: size_plus_def)
  have ap: "append_loop_new (Suc ?c) m rw str i 0 [] = Inr (take i str @ rw @ R)"
    using append_loop_new_exact [OF assms(1,2) refl assms(3), of 0 rw "[]"] R by simp
  show ?thesis
  proof (cases "cap < length str + e")
    case True
    then show ?thesis using c fl ap by simp
  next
    case False
    then show ?thesis using expand_in_place [OF assms(1) small(3) assms(3,4) R len refl, of z] unfolding c rbind.simps prod.case Let_def fl
      by simp
  qed
qed

lemma replace_all_exact:
  assumes "0 < MatchSize m" "length str < npos" "matcher_Find m str off = i" "i + MatchSize m \<le> length str" "i \<noteq> npos"
    and R: "R = replace_ref m rw (drop (i + MatchSize m) str)" and fits: "i + length rw + length R < npos"
  shows "DoReplaceMatchesAfterOffset z cap str off m rw REPLACE_ALL = Inr (True, take i str @ rw @ R)"
proof -
  let ?k = "MatchSize m"
  consider "?k = length rw" | "?k < length rw" | "length rw < ?k" by linarith
  then show ?thesis
  proof cases
    case 1
    have "same_length_loop (Suc (length str)) m rw str i = Inr (take i str @ rw @ R)"
      unfolding R using assms 1 by (intro same_length_loop_exact) simp_all
    then show ?thesis using 1 assms(1,3,5) by (simp add: DoReplaceMatchesAfterOffset_def Let_def)
  next
    case 2
    then show ?thesis using expand_exact [OF assms(1,2,4) 2 R fits, of cap z] assms(1,3,5)
      unfolding DoReplaceMatchesAfterOffset_def by (simp add: Let_def)
  next
    case 3
    then obtain t where t: "shift_loop (Suc (length str)) m rw str (length str) i i = Inr (t, i + length rw + length R)"
      "length t = length str" "take (i + length rw + length R) t = take i str @ rw @ R"
      using shift_loop_exact [OF assms(1), of str i rw i "Suc (length str)" R] assms by auto
    have "length R \<le> length str - (i + ?k)"
      using replace_ref_shrinks [OF assms(1), of rw "drop (i + ?k) str"] R 3 by simp
    then have "i + length rw + length R \<le> length t" using t(2) 3 assms(4) by simp
    then show ?thesis using 3 t assms(1,3,5) by (simp add: DoReplaceMatchesAfterOffset_def Let_def string_resize_short)
  qed
qed

text \<open>
  C33. Replacing in a string, in place or in a new buffer, with a text that is shorter, longer or as long as the match, for both
  matchers, from any offset, and whatever the capacity, returns what replacing from left to right gives, and reports whether
  there was a match; no copy or move leaves the buffer.
\<close>

theorem replace_matches_exact:
  assumes "length str < npos" and "length (take off str @ replaced ty m rw (drop off str)) < npos"
  shows "DoReplaceMatchesAfterOffset z cap str off m rw ty =
    Inr (has_match m (drop off str), take off str @ replaced ty m rw (drop off str))"
proof (cases "MatchSize m = 0")
  case True
  then show ?thesis by (simp add: DoReplaceMatchesAfterOffset_def has_match_def replaced_def)
next
  case k: False
  then have k0: "0 < MatchSize m" by simp
  show ?thesis
  proof (cases "off \<le> length str")
    case False
    from assms(1) k0 have "matcher_Find m str off = npos" by (cases rule: Find_first [where pos = off]) (use False in auto)
    then show ?thesis using False k by (simp add: DoReplaceMatchesAfterOffset_def has_match_def replaced_def split: replace_type.split)
  next
    case off: True
    from assms(1) k0 off show ?thesis
    proof (cases rule: Find_cases [where rw = rw])
      case None
      from assms(1) k0 have "\<not> has_match m (drop off str)"
        by (cases rule: Find_first [where pos = off]) (use None(1) assms(1) in \<open>auto simp: has_match_def\<close>)
      then show ?thesis using None k by (simp add: DoReplaceMatchesAfterOffset_def replaced_def split: replace_type.split)
    next
      case (Some i)
      have i: "i \<noteq> npos" "take off str @ take (i - off) (drop off str) = take i str"
        using Some(2,3) assms(1) by (auto simp flip: take_add)
      from assms(1) k0 have hm: "has_match m (drop off str)"
      proof (cases rule: Find_first [where pos = off])
        case (Some j)
        then show ?thesis using k by (auto simp: has_match_def intro!: exI [of _ "j - off"])
      qed (use Some(1) i in simp)
      show ?thesis
      proof (cases ty)
        case REPLACE_ALL
        then have "replaced ty m rw (drop off str) = take (i - off) (drop off str) @ rw @ replace_ref m rw (drop (i + MatchSize m) str)"
          using Some(5) k by (simp add: replaced_def)
        moreover from this have "i + length rw + length (replace_ref m rw (drop (i + MatchSize m) str)) < npos"
          using assms(2) Some(2,3) off by simp
        ultimately show ?thesis using replace_all_exact [OF k0 assms(1) Some(1,4) i(1) refl, of rw z cap] hm i(2) REPLACE_ALL by simp
      next
        case REPLACE_FIRST
        then have "replaced ty m rw (drop off str) = take (i - off) (drop off str) @ rw @ drop (i + MatchSize m) str"
          using Some(7) k by (simp add: replaced_def)
        then show ?thesis using hm i Some(1,3) k REPLACE_FIRST
          by (simp add: DoReplaceMatchesAfterOffset_def Let_def string_replace_def)
      qed
    qed
  qed
qed

theorem replace_matches_exact_witness:
  "DoReplaceMatchesAfterOffset (CHR 0x00) 7 ''aXbXc'' 0 (SubstringMatcher ''X'') ''--'' REPLACE_ALL = Inr (True, ''a--b--c'')"
proof -
  have "has_match (SubstringMatcher ''X'') ''aXbXc''" unfolding has_match_def by (intro conjI exI [of _ 1]) simp_all
  then show ?thesis
    using replace_matches_exact [of "''aXbXc''" 0 REPLACE_ALL "SubstringMatcher ''X''" "''--''" "CHR 0x00" 7]
    by (simp add: replaced_def npos_def)
qed

end
