(* ===== verification/StringUtil.thy ===== *)
theory StringUtil
  imports StringPiece IntTypes StdAlgorithms
begin

text \<open>
  The inline functions of base/strings/string_util.h and the functions of string_util_internal.h that work on characters and
  pieces of \<open>char\<close>: case, comparison, trimming, whitespace, prefixes, placeholders, bounded copies.
\<close>

section \<open>Characters\<close>

abbreviation code :: "char \<Rightarrow> nat" where
  "code c \<equiv> of_char c"

definition ToLowerASCII :: "char \<Rightarrow> char" where
  "ToLowerASCII c = (if code c \<ge> 65 \<and> code c \<le> 90 then char_of (code c + (97 - 65)) else c)"

definition ToUpperASCII :: "char \<Rightarrow> char" where
  "ToUpperASCII c = (if code c \<ge> 97 \<and> code c \<le> 122 then char_of (code c - (97 - 65)) else c)"

definition CaseInsensitiveCompareASCII :: "char \<Rightarrow> char \<Rightarrow> bool" where
  "CaseInsensitiveCompareASCII x y \<longleftrightarrow> ToLowerASCII x = ToLowerASCII y"

definition IsAsciiWhitespace :: "char \<Rightarrow> bool" where
  "IsAsciiWhitespace c \<longleftrightarrow> code c = 32 \<or> code c = 13 \<or> code c = 10 \<or> code c = 9 \<or> code c = 12"

definition IsAsciiAlpha :: "char \<Rightarrow> bool" where
  "IsAsciiAlpha c \<longleftrightarrow> (code c \<ge> 65 \<and> code c \<le> 90) \<or> (code c \<ge> 97 \<and> code c \<le> 122)"

definition IsAsciiUpper :: "char \<Rightarrow> bool" where
  "IsAsciiUpper c \<longleftrightarrow> code c \<ge> 65 \<and> code c \<le> 90"

definition IsAsciiLower :: "char \<Rightarrow> bool" where
  "IsAsciiLower c \<longleftrightarrow> code c \<ge> 97 \<and> code c \<le> 122"

definition IsAsciiDigit :: "char \<Rightarrow> bool" where
  "IsAsciiDigit c \<longleftrightarrow> code c \<ge> 48 \<and> code c \<le> 57"

definition IsAsciiPrintable :: "char \<Rightarrow> bool" where
  "IsAsciiPrintable c \<longleftrightarrow> code c \<ge> 32 \<and> code c \<le> 126"

definition IsHexDigit :: "char \<Rightarrow> bool" where
  "IsHexDigit c \<longleftrightarrow> (code c \<ge> 48 \<and> code c \<le> 57) \<or> (code c \<ge> 65 \<and> code c \<le> 70) \<or> (code c \<ge> 97 \<and> code c \<le> 102)"

fun ToLowerASCIIImpl :: "string \<Rightarrow> string" where
  "ToLowerASCIIImpl [] = []"
| "ToLowerASCIIImpl (c # str) = ToLowerASCII c # ToLowerASCIIImpl str"

fun ToUpperASCIIImpl :: "string \<Rightarrow> string" where
  "ToUpperASCIIImpl [] = []"
| "ToUpperASCIIImpl (c # str) = ToUpperASCII c # ToUpperASCIIImpl str"

text \<open>The characters are compared as the signed \<open>char\<close>.\<close>

definition signed_char :: "char \<Rightarrow> int" where
  "signed_char c = (if code c \<ge> 128 then int (code c) - 256 else int (code c))"

fun CompareCaseInsensitiveASCIIT :: "string \<Rightarrow> string \<Rightarrow> int" where
  "CompareCaseInsensitiveASCIIT (x # a) (y # b) =
     (let lower_a = ToLowerASCII x; lower_b = ToLowerASCII y in
      if signed_char lower_a < signed_char lower_b then - 1
      else if signed_char lower_a > signed_char lower_b then 1
      else CompareCaseInsensitiveASCIIT a b)"
| "CompareCaseInsensitiveASCIIT a b = (if length a = length b then 0 else if length a < length b then - 1 else 1)"

section \<open>Trimming\<close>

datatype trim_positions = TRIM_NONE | TRIM_LEADING | TRIM_TRAILING | TRIM_ALL

fun has_leading :: "trim_positions \<Rightarrow> bool" where
  "has_leading TRIM_LEADING = True" | "has_leading TRIM_ALL = True" | "has_leading _ = False"

fun has_trailing :: "trim_positions \<Rightarrow> bool" where
  "has_trailing TRIM_TRAILING = True" | "has_trailing TRIM_ALL = True" | "has_trailing _ = False"

definition trim_flags :: "bool \<Rightarrow> bool \<Rightarrow> trim_positions" where
  "trim_flags l t = (if l then (if t then TRIM_ALL else TRIM_LEADING) else (if t then TRIM_TRAILING else TRIM_NONE))"

definition TrimStringT :: "'c piece_lib \<Rightarrow> 'c list \<Rightarrow> 'c list \<Rightarrow> trim_positions \<Rightarrow> (trim_positions \<times> 'c list) res" where
  "TrimStringT L input trim_chars positions =
     (let last_char = size_minus (length input) 1;
          first_good_char = (if has_leading positions then lib_find_first_not_of L input trim_chars 0 else 0);
          last_good_char = (if has_trailing positions then lib_find_last_not_of L input trim_chars npos else last_char) in
      if length input = 0 \<or> first_good_char = npos \<or> last_good_char = npos
      then Inr (if length input = 0 then TRIM_NONE else positions, [])
      else
        let n = size_plus (size_minus last_good_char first_good_char) 1 in
        guardr OutOfRange (first_good_char + n \<le> length input)
         (Inr (trim_flags (first_good_char \<noteq> 0) (last_good_char \<noteq> last_char), take n (drop first_good_char input))))"

definition TrimStringPieceT :: "'c piece_lib \<Rightarrow> 'c list \<Rightarrow> 'c list \<Rightarrow> trim_positions \<Rightarrow> 'c list res" where
  "TrimStringPieceT L input trim_chars positions =
     (let b = (if has_leading positions then lib_find_first_not_of L input trim_chars 0 else 0);
          e = (if has_trailing positions then size_plus (lib_find_last_not_of L input trim_chars npos) 1 else length input) in
      substr input (min b (length input)) (size_minus e b))"

section \<open>Whitespace\<close>

text \<open>The state of the loop: the buffer, \<open>chars_written\<close>, \<open>in_whitespace\<close> and \<open>already_trimmed\<close>.\<close>

fun collapse_loop :: "(char \<Rightarrow> bool) \<Rightarrow> bool \<Rightarrow> string \<Rightarrow> string \<times> nat \<times> bool \<times> bool \<Rightarrow> (string \<times> nat \<times> bool \<times> bool) res" where
  "collapse_loop ws trim_breaks [] st = Inr st"
| "collapse_loop ws trim_breaks (c # text) (result, chars_written, in_whitespace, already_trimmed) =
     (if ws c then
        rbind (if \<not> in_whitespace
               then guardr OutOfRange (chars_written < length result) (Inr (result[chars_written := CHR 0x20], Suc chars_written))
               else Inr (result, chars_written)) (\<lambda>(result, chars_written).
        if trim_breaks \<and> \<not> already_trimmed \<and> (c = CHR 0x0A \<or> c = CHR 0x0D)
        then guardr OutOfRange (chars_written \<noteq> 0) (collapse_loop ws trim_breaks text (result, chars_written - 1, True, True))
        else collapse_loop ws trim_breaks text (result, chars_written, True, already_trimmed))
      else
        guardr OutOfRange (chars_written < length result)
         (collapse_loop ws trim_breaks text (result[chars_written := c], Suc chars_written, False, False)))"

definition CollapseWhitespaceT :: "(char \<Rightarrow> bool) \<Rightarrow> string \<Rightarrow> bool \<Rightarrow> string res" where
  "CollapseWhitespaceT ws text trim_breaks =
     rbind (collapse_loop ws trim_breaks text (replicate (length text) (CHR 0x00), 0, True, True))
      (\<lambda>(result, chars_written, in_whitespace, already_trimmed).
        if in_whitespace \<and> \<not> already_trimmed
        then guardr OutOfRange (chars_written \<noteq> 0) (Inr (take (chars_written - 1) result))
        else Inr (take chars_written result))"

section \<open>Prefixes and suffixes\<close>

datatype compare_case = SENSITIVE | INSENSITIVE_ASCII

definition DoLowerCaseEqualsASCII :: "string \<Rightarrow> string \<Rightarrow> bool" where
  "DoLowerCaseEqualsASCII str lowercase_ascii \<longleftrightarrow> list_all2 (\<lambda>lhs rhs. ToLowerASCII lhs = rhs) str lowercase_ascii"

definition StartsWithT :: "string \<Rightarrow> string \<Rightarrow> compare_case \<Rightarrow> bool res" where
  "StartsWithT str search_for case_sensitivity =
     (if length search_for > length str then Inr False
      else rbind (substr str 0 (length search_for)) (\<lambda>source.
        case case_sensitivity of
          SENSITIVE \<Rightarrow> piece_eq char_lt source search_for
        | INSENSITIVE_ASCII \<Rightarrow> Inr (list_all2 CaseInsensitiveCompareASCII search_for source)))"

definition EndsWithT :: "string \<Rightarrow> string \<Rightarrow> compare_case \<Rightarrow> bool res" where
  "EndsWithT str search_for case_sensitivity =
     (if length search_for > length str then Inr False
      else rbind (substr str (length str - length search_for) (length search_for)) (\<lambda>source.
        case case_sensitivity of
          SENSITIVE \<Rightarrow> piece_eq char_lt source search_for
        | INSENSITIVE_ASCII \<Rightarrow> Inr (list_all2 CaseInsensitiveCompareASCII source search_for)))"

section \<open>Placeholders\<close>

record replacement_offset =
  parameter :: nat
  ro_offset :: nat

definition CompareParameter :: "replacement_offset \<Rightarrow> replacement_offset \<Rightarrow> bool" where
  "CompareParameter elem1 elem2 \<longleftrightarrow> parameter elem1 < parameter elem2"

definition insert_offset :: "replacement_offset \<Rightarrow> replacement_offset list \<Rightarrow> replacement_offset list" where
  "insert_offset r rs = (let i = std_upper_bound CompareParameter rs 0 (length rs) r in take i rs @ r # drop i rs)"

function placeholders_loop ::
    "string list \<Rightarrow> bool \<Rightarrow> string \<Rightarrow> string \<Rightarrow> replacement_offset list \<Rightarrow> string \<times> replacement_offset list" where
  "placeholders_loop subst offsets [] formatted r_offsets = (formatted, r_offsets)"
| "placeholders_loop subst offsets (c # fmt) formatted r_offsets =
     (if c = CHR ''$'' then
        case fmt of
          [] \<Rightarrow> (formatted, r_offsets)
        | d # rest \<Rightarrow>
            if d = CHR ''$'' then
              placeholders_loop subst offsets (dropWhile (\<lambda>c. c = CHR ''$'') fmt)
                (formatted @ takeWhile (\<lambda>c. c = CHR ''$'') fmt) r_offsets
            else if signed_char d < 49 \<or> signed_char d > 57 then placeholders_loop subst offsets rest formatted r_offsets
            else
              let index = code d - 49;
                  r_offset = \<lparr>parameter = index, ro_offset = nat (cast UInt64 (cast Int32 (int (length formatted))))\<rparr>;
                  r_offsets = (if offsets then insert_offset r_offset r_offsets else r_offsets) in
              placeholders_loop subst offsets rest
                (if index < length subst then formatted @ subst ! index else formatted) r_offsets
      else placeholders_loop subst offsets fmt (formatted @ [c]) r_offsets)"
  by pat_completeness auto
termination
  by (relation "measure (\<lambda>(_, _, fmt, _, _). length fmt)") (auto simp: le_imp_less_Suc length_dropWhile_le less_SucI)

text \<open>\<open>offsets\<close> is absent or the vector that the offsets are appended to.\<close>

definition DoReplaceStringPlaceholders :: "string \<Rightarrow> string list \<Rightarrow> nat list option \<Rightarrow> (string \<times> nat list option) res" where
  "DoReplaceStringPlaceholders format_string subst offsets =
     dcheck (length subst < 10)
      (case placeholders_loop subst (offsets \<noteq> None) format_string [] [] of (formatted, r_offsets) \<Rightarrow>
        Inr (formatted, map_option (\<lambda>os. os @ map ro_offset r_offsets) offsets))"

section \<open>Bounded copies\<close>

text \<open>The loop over \<open>dst\<close>: the index of the null, if it was copied, and the new block.\<close>

fun lcpy_loop :: "nat \<Rightarrow> nat \<Rightarrow> string \<Rightarrow> string \<Rightarrow> (nat option \<times> string) res" where
  "lcpy_loop 0 i dst src = Inr (None, dst)"
| "lcpy_loop (Suc n) i dst src =
     guardr OutOfRange (i < length src \<and> i < length dst)
      (let dst = dst[i := src ! i] in if src ! i = CHR 0x00 then Inr (Some i, dst) else lcpy_loop n (Suc i) dst src)"

definition lcpyT :: "string \<Rightarrow> string \<Rightarrow> nat \<Rightarrow> (nat \<times> string) res" where
  "lcpyT dst src dst_size =
     rbind (lcpy_loop dst_size 0 dst src) (\<lambda>(found, dst).
      case found of
        Some i \<Rightarrow> Inr (i, dst)
      | None \<Rightarrow>
          let dst = (if dst_size \<noteq> 0 then dst[dst_size - 1 := CHR 0x00] else dst) in
          rbind (CharTraits_length (drop dst_size src)) (\<lambda>n. Inr (dst_size + n, dst)))"

definition WriteIntoT :: "string \<Rightarrow> nat \<Rightarrow> string res" where
  "WriteIntoT str length_with_null =
     dcheck (length_with_null \<ge> 1)
      (let n = length_with_null - 1 in Inr (take n str @ replicate (n - length str) (CHR 0x00)))"

section \<open>Trimming is exact\<close>

definition trimmed :: "'c list \<Rightarrow> trim_positions \<Rightarrow> 'c list \<Rightarrow> 'c list" where
  "trimmed t p xs =
     (let ys = (if has_leading p then dropWhile (\<lambda>c. c \<in> set t) xs else xs) in
      if has_trailing p then rev (dropWhile (\<lambda>c. c \<in> set t) (rev ys)) else ys)"

text \<open>The numbers of characters to be removed at both ends of a text.\<close>

abbreviation head_len :: "'c list \<Rightarrow> 'c list \<Rightarrow> nat" where
  "head_len t xs \<equiv> length (takeWhile (\<lambda>c. c \<in> set t) xs)"

abbreviation tail_len :: "'c list \<Rightarrow> 'c list \<Rightarrow> nat" where
  "tail_len t xs \<equiv> length (takeWhile (\<lambda>c. c \<in> set t) (rev xs))"

lemma head_len_all: "head_len t xs = length xs \<longleftrightarrow> set xs \<subseteq> set t"
proof
  assume "head_len t xs = length xs"
  then have "takeWhile (\<lambda>c. c \<in> set t) xs = xs" by (metis takeWhile_eq_take take_all order_refl)
  then show "set xs \<subseteq> set t" by (auto simp: takeWhile_eq_all_conv)
next
  assume "set xs \<subseteq> set t"
  then have "takeWhile (\<lambda>c. c \<in> set t) xs = xs" by (auto simp: takeWhile_eq_all_conv)
  then show "head_len t xs = length xs" by (rule arg_cong)
qed

lemma tail_len_all: "tail_len t xs = length xs \<longleftrightarrow> set xs \<subseteq> set t"
  using head_len_all [of t "rev xs"] by simp

lemma trim_both:
  assumes "\<not> set xs \<subseteq> set t"
  shows "head_len t xs + tail_len t xs < length xs" and "tail_len t (drop (head_len t xs) xs) = tail_len t xs"
proof -
  let ?P = "\<lambda>c. c \<in> set t"
  obtain c where c: "c \<in> set xs" "c \<notin> set t" using assms by auto
  let ?a = "head_len t xs"
  have dw: "drop ?a xs = dropWhile ?P xs" by (simp add: dropWhile_eq_drop)
  have "c \<in> set (drop ?a xs)" using c dw by (metis Un_iff set_append set_takeWhileD takeWhile_dropWhile_id)
  then have "takeWhile ?P (rev (drop ?a xs) @ rev (take ?a xs)) = takeWhile ?P (rev (drop ?a xs))"
    using c(2) by (intro takeWhile_append1) auto
  moreover have "rev xs = rev (drop ?a xs) @ rev (take ?a xs)" by (metis append_take_drop_id rev_append)
  ultimately show e: "tail_len t (drop ?a xs) = tail_len t xs" by simp
  have "tail_len t (drop ?a xs) < length (drop ?a xs)"
    using \<open>c \<in> set (drop ?a xs)\<close> c(2) tail_len_all [of t "drop ?a xs"] length_takeWhile_le [of ?P "rev (drop ?a xs)"] by auto
  then show "?a + tail_len t xs < length xs" using e by simp
qed

lemma rev_dropWhile_rev: "rev (dropWhile P (rev xs)) = take (length xs - length (takeWhile P (rev xs))) xs"
  by (simp add: dropWhile_eq_drop rev_drop)

lemma trimmed_all: "set xs \<subseteq> set t \<Longrightarrow> trimmed t p xs = (if p = TRIM_NONE then xs else [])"
proof -
  assume "set xs \<subseteq> set t"
  then have "dropWhile (\<lambda>c. c \<in> set t) xs = []" "dropWhile (\<lambda>c. c \<in> set t) (rev xs) = []" by auto
  then show ?thesis by (cases p) (simp_all add: trimmed_def del: dropWhile_eq_Nil_conv)
qed

lemma trimmed_some:
  assumes "\<not> set xs \<subseteq> set t"
  shows "trimmed t p xs =
    (let a = (if has_leading p then head_len t xs else 0); b = (if has_trailing p then tail_len t xs else 0) in
     take (length xs - b - a) (drop a xs))"
  using trim_both [OF assms] unfolding trimmed_def Let_def rev_dropWhile_rev
  by (cases p) (simp_all add: dropWhile_eq_drop take_drop diff_diff_eq add.commute)

lemma size_minus_small: "b \<le> a \<Longrightarrow> a < 2 ^ 64 \<Longrightarrow> size_minus a b = a - b"
proof -
  assume "b \<le> a" "a < (2 :: nat) ^ 64"
  then have "a + (2 ^ 64 - b) = (a - b) + 2 ^ 64" "a - b < 2 ^ 64" by auto
  then show ?thesis by (simp add: size_minus_def)
qed

lemma size_plus_small: "a + b < 2 ^ 64 \<Longrightarrow> size_plus a b = a + b"
  by (simp add: size_plus_def)

text \<open>
  Both trimming functions remove exactly the characters of the set from the wanted ends; all arithmetic with \<open>npos\<close> comes out
  right, and nothing is read outside of the text.
\<close>

lemma trim_string_parts:
  assumes "piece_search L" and n: "length input < npos"
  shows "TrimStringPieceT L input t p = Inr (trimmed t p input) \<and>
    TrimStringT L input t p = Inr (if input = [] then TRIM_NONE
      else if set input \<subseteq> set t then p
      else trim_flags (has_leading p \<and> head_len t input \<noteq> 0) (has_trailing p \<and> tail_len t input \<noteq> 0), trimmed t p input)"
proof -
  note first = piece_search.first_not_of_exact [OF assms, of t]
  note last = piece_search.last_not_of_exact [OF assms, of t]
  have wrap: "size_plus npos (Suc 0) = 0" "size_minus 0 0 = 0" by (simp_all add: size_plus_def size_minus_def npos_def)
  have small: "length input < 2 ^ 64" "length input < npos" using n by (auto simp: npos_def)
  consider "set input \<subseteq> set t" "input = [] \<or> p \<noteq> TRIM_NONE" | "input \<noteq> []" "p = TRIM_NONE \<or> \<not> set input \<subseteq> set t" by fastforce
  then show ?thesis
  proof cases
    case 1
    then have "lib_find_first_not_of L input t 0 = npos" "lib_find_last_not_of L input t npos = npos"
      using first last head_len_all [of t input] tail_len_all [of t input] by (simp_all add: Let_def)
    then show ?thesis using 1 n small(1)
      by (cases p) (auto simp: TrimStringPieceT_def TrimStringT_def trimmed_all substr_def wrap size_minus_small size_plus_small
          trim_flags_def Let_def)
  next
    case 2
    note ne = 2(1)
    have ab: "\<not> set input \<subseteq> set t \<Longrightarrow> head_len t input + tail_len t input < length input" by (rule trim_both(1))
    have f: "lib_find_first_not_of L input t 0 = head_len t input" "lib_find_last_not_of L input t npos = length input - Suc (tail_len t input)"
      if "p \<noteq> TRIM_NONE"
      using first last head_len_all [of t input] tail_len_all [of t input] 2 that by (simp_all add: Let_def)
    have lc: "size_minus (length input) 1 = length input - 1" using ne small by (intro size_minus_small) (auto simp: Suc_le_eq)
    define a where "a = (if has_leading p then head_len t input else 0)"
    define b where "b = (if has_trailing p then tail_len t input else 0)"
    have le: "a + b < length input" using ab ne 2(2) by (cases p) (auto simp: a_def b_def)
    have A: "(if has_leading p then lib_find_first_not_of L input t 0 else 0) = a" using f by (cases p) (simp_all add: a_def)
    have B: "(if has_trailing p then lib_find_last_not_of L input t npos else size_minus (length input) 1) = length input - Suc b"
      "(if has_trailing p then size_plus (lib_find_last_not_of L input t npos) 1 else length input) = length input - b"
      using f lc le small by (cases p; auto simp: b_def size_plus_small)+
    have T: "trimmed t p input = take (length input - b - a) (drop a input)"
    proof (cases "p = TRIM_NONE")
      case False
      then show ?thesis using trimmed_some [of input t p] 2(2) by (simp add: a_def b_def Let_def)
    qed (simp add: a_def b_def trimmed_def)
    have "size_minus (length input - b) a = length input - b - a" using le small by (intro size_minus_small) auto
    then have "TrimStringPieceT L input t p = Inr (trimmed t p input)"
      unfolding TrimStringPieceT_def A B T Let_def using le by (simp add: substr_def min_def)
    moreover have "size_plus (size_minus (length input - Suc b) a) 1 = length input - b - a"
      using le small by (simp add: size_minus_small size_plus_small)
    moreover have "a \<noteq> npos" "length input - Suc b \<noteq> npos" "length input - Suc b = length input - 1 \<longleftrightarrow> b = 0" using le small by auto
    moreover have "a + (length input - b - a) \<le> length input" "(if set input \<subseteq> set t then p
        else trim_flags (has_leading p \<and> head_len t input \<noteq> 0) (has_trailing p \<and> tail_len t input \<noteq> 0)) = trim_flags (a \<noteq> 0) (b \<noteq> 0)"
      using le 2(2) by (auto simp: a_def b_def trim_flags_def)
    ultimately show ?thesis using ne unfolding TrimStringT_def Let_def A B unfolding T lc by simp
  qed
qed

section \<open>Collapsing whitespace is exact\<close>

definition has_break :: "string \<Rightarrow> bool" where
  "has_break gap \<longleftrightarrow> CHR 0x0A \<in> set gap \<or> CHR 0x0D \<in> set gap"

lemma collapse_shrinks:
  assumes "dropWhile ws (dropWhile (\<lambda>c. \<not> ws c) xs) \<noteq> []"
  shows "length (dropWhile ws (dropWhile (\<lambda>c. \<not> ws c) xs)) < length xs"
proof -
  let ?r = "dropWhile (\<lambda>c. \<not> ws c) xs"
  have ne: "?r \<noteq> []" using assms by (metis dropWhile.simps(1))
  then obtain c cs where r: "?r = c # cs" by (meson neq_Nil_conv)
  have "ws (hd ?r)" using hd_dropWhile [OF ne] by blast
  then have "length (dropWhile ws ?r) \<le> length cs" unfolding r by (simp add: length_dropWhile_le)
  moreover have "Suc (length cs) \<le> length xs" using length_dropWhile_le [of "\<lambda>c. \<not> ws c" xs] unfolding r by simp
  ultimately show ?thesis by linarith
qed

text \<open>A word, the gap behind it and the rest; a gap at the end vanishes, a gap with a line break may, any other is one space.\<close>

function collapse_ref :: "(char \<Rightarrow> bool) \<Rightarrow> bool \<Rightarrow> string \<Rightarrow> string" where
  "collapse_ref ws tb xs =
     (let w = takeWhile (\<lambda>c. \<not> ws c) xs; rest = dropWhile (\<lambda>c. \<not> ws c) xs; gap = takeWhile ws rest; more = dropWhile ws rest in
      if more = [] then w else w @ (if tb \<and> has_break gap then [] else [CHR 0x20]) @ collapse_ref ws tb more)"
  by pat_completeness auto
termination
  by (relation "measure (\<lambda>(_, _, xs). length xs)") (simp_all add: collapse_shrinks)

declare collapse_ref.simps [simp del]

lemma collapse_ref_Nil [simp]: "collapse_ref ws tb [] = []"
  by (subst collapse_ref.simps) simp

lemma collapse_ref_word: "\<not> ws c \<Longrightarrow> collapse_ref ws tb (c # xs) = c # collapse_ref ws tb xs"
proof -
  assume "\<not> ws c"
  then have e: "takeWhile (\<lambda>c. \<not> ws c) (c # xs) = c # takeWhile (\<lambda>c. \<not> ws c) xs"
    "dropWhile (\<lambda>c. \<not> ws c) (c # xs) = dropWhile (\<lambda>c. \<not> ws c) xs" by simp_all
  show ?thesis unfolding collapse_ref.simps [of ws tb "c # xs"] e collapse_ref.simps [of ws tb xs] Let_def
    by (cases "dropWhile ws (dropWhile (\<lambda>c. \<not> ws c) xs) = []") (simp_all only: if_True if_False append_Cons simp_thms)
qed

text \<open>What is still to be written in a gap of which \<open>seen\<close> has been read.\<close>

definition gap_ref :: "(char \<Rightarrow> bool) \<Rightarrow> bool \<Rightarrow> string \<Rightarrow> string \<Rightarrow> string" where
  "gap_ref ws tb seen xs =
     (let more = dropWhile ws xs in
      if more = [] then [] else (if tb \<and> has_break (seen @ takeWhile ws xs) then [] else [CHR 0x20]) @ collapse_ref ws tb more)"

lemma collapse_ref_gap: "ws c \<Longrightarrow> collapse_ref ws tb (c # xs) = gap_ref ws tb [c] xs"
  using collapse_ref.simps [of ws tb "c # xs"] by (simp add: gap_ref_def Let_def)

lemma gap_ref_more: "ws c \<Longrightarrow> gap_ref ws tb seen (c # xs) = gap_ref ws tb (seen @ [c]) xs"
  by (simp add: gap_ref_def)

lemma gap_ref_end: "\<not> ws c \<Longrightarrow> gap_ref ws tb seen (c # xs) = (if tb \<and> has_break seen then [] else [CHR 0x20]) @ c # collapse_ref ws tb xs"
  by (simp add: gap_ref_def collapse_ref_word)

lemma gap_ref_broken: "tb \<Longrightarrow> has_break seen \<Longrightarrow> gap_ref ws tb seen xs = collapse_ref ws tb (dropWhile ws xs)"
  by (cases "dropWhile ws xs = []") (auto simp: gap_ref_def has_break_def Let_def simp del: dropWhile_eq_Nil_conv)

text \<open>The text that the buffer stands for when the loop ends in a state.\<close>

definition collapsed :: "(string \<times> nat \<times> bool \<times> bool) res \<Rightarrow> string res" where
  "collapsed r = rbind r (\<lambda>(result, chars_written, in_whitespace, already_trimmed).
     if in_whitespace \<and> \<not> already_trimmed
     then guardr OutOfRange (chars_written \<noteq> 0) (Inr (take (chars_written - 1) result)) else Inr (take chars_written result))"

lemma collapse_loop_exact:
  "length out + length xs \<le> length buf \<Longrightarrow> take (length out) buf = out \<Longrightarrow>
     collapsed (collapse_loop ws tb xs (buf, length out, False, False)) = Inr (out @ collapse_ref ws tb xs)"
  "length out + Suc (length xs) \<le> length buf \<Longrightarrow> take (Suc (length out)) buf = out @ [CHR 0x20] \<Longrightarrow> \<not> (tb \<and> has_break seen) \<Longrightarrow>
     collapsed (collapse_loop ws tb xs (buf, Suc (length out), True, False)) = Inr (out @ gap_ref ws tb seen xs)"
  "length out + length xs \<le> length buf \<Longrightarrow> take (length out) buf = out \<Longrightarrow>
     collapsed (collapse_loop ws tb xs (buf, length out, True, True)) = Inr (out @ collapse_ref ws tb (dropWhile ws xs))"
proof (induction xs arbitrary: out buf seen)
  case Nil
  {
    case 1
    then show ?case by (simp add: collapsed_def)
  next
    case 2
    then have "take (length out) buf = out" by (metis append_eq_conv_conj take_take min.absorb1 le_SucI order_refl)
    then show ?case by (simp add: collapsed_def gap_ref_def)
  next
    case 3
    then show ?case by (simp add: collapsed_def)
  }
next
  case (Cons c xs)
  {
    case 1
    show ?case
    proof (cases "ws c")
      case ws: True
      let ?b = "buf[length out := CHR 0x20]"
      have b: "take (Suc (length out)) ?b = out @ [CHR 0x20]" "take (length out) ?b = out"
        using 1 by (auto simp: take_Suc_conv_app_nth)
      show ?thesis
      proof (cases "tb \<and> (c = CHR 0x0A \<or> c = CHR 0x0D)")
        case True
        then have "has_break [c]" by (auto simp: has_break_def)
        then show ?thesis using True ws 1 Cons(3) [of out ?b] b by (simp add: collapse_ref_gap gap_ref_broken)
      next
        case False
        then show ?thesis using ws 1 Cons(2) [of out ?b "[c]"] b by (auto simp: collapse_ref_gap has_break_def)
      qed
    next
      case False
      then show ?thesis using 1 Cons(1) [of "out @ [c]" "buf[length out := c]"]
        by (simp add: collapse_ref_word take_Suc_conv_app_nth)
    qed
  next
    case 2
    then have tk: "take (length out) buf = out" by (metis append_eq_conv_conj take_take min.absorb1 le_SucI order_refl)
    show ?case
    proof (cases "ws c")
      case ws: True
      show ?thesis
      proof (cases "tb \<and> (c = CHR 0x0A \<or> c = CHR 0x0D)")
        case True
        then have "has_break (seen @ [c])" by (auto simp: has_break_def)
        then show ?thesis using True ws 2 Cons(3) [of out buf] tk by (simp add: gap_ref_more gap_ref_broken)
      next
        case False
        then show ?thesis using ws 2 Cons(2) [of out buf "seen @ [c]"] by (auto simp: gap_ref_more has_break_def)
      qed
    next
      case False
      have "take (Suc (Suc (length out))) (buf[Suc (length out) := c]) = out @ [CHR 0x20, c]"
        using 2 by (simp add: take_Suc_conv_app_nth)
      then show ?thesis using False 2 Cons(1) [of "out @ [CHR 0x20, c]" "buf[Suc (length out) := c]"] by (simp add: gap_ref_end)
    qed
  next
    case 3
    show ?case
    proof (cases "ws c")
      case True
      then show ?thesis using 3 Cons(3) [of out buf] by simp
    next
      case False
      then show ?thesis using 3 Cons(1) [of "out @ [c]" "buf[length out := c]"]
        by (simp add: collapse_ref_word take_Suc_conv_app_nth)
    qed
  }
qed

text \<open>
  \<open>CollapseWhitespaceT\<close> trims both ends, turns every gap between words into one space, or into nothing if it has a line break and
  that is wanted, for every notion of whitespace; no index leaves the buffer.
\<close>

theorem collapse_whitespace_exact: "CollapseWhitespaceT ws xs tb = Inr (collapse_ref ws tb (dropWhile ws xs))"
  using collapse_loop_exact(3) [of "[]" xs "replicate (length xs) (CHR 0x00)" ws tb]
  by (simp add: CollapseWhitespaceT_def collapsed_def)

section \<open>Prefixes, copies and comparisons\<close>

lemma lower_map: "ToLowerASCIIImpl s = map ToLowerASCII s" "ToUpperASCIIImpl s = map ToUpperASCII s"
  by (induction s) simp_all

lemma case_equal: "list_all2 CaseInsensitiveCompareASCII a b \<longleftrightarrow> ToLowerASCIIImpl a = ToLowerASCIIImpl b"
  by (simp add: lower_map CaseInsensitiveCompareASCII_def list_all2_conv_all_nth list_eq_iff_nth_eq) (metis length_map nth_map)

lemma piece_eq_iff: "piece_eq char_lt p x = Inr (p = x)"
  using piece_comparison [of p x] by blast

text \<open>A text starts (ends) with another one if it is the other one followed (preceded) by something, up to case if that is asked for.\<close>

theorem starts_and_ends_with:
  "StartsWithT str s SENSITIVE = Inr (\<exists>r. str = s @ r) \<and> EndsWithT str s SENSITIVE = Inr (\<exists>r. str = r @ s) \<and>
   StartsWithT str s INSENSITIVE_ASCII = Inr (\<exists>r. ToLowerASCIIImpl str = ToLowerASCIIImpl s @ r) \<and>
   EndsWithT str s INSENSITIVE_ASCII = Inr (\<exists>r. ToLowerASCIIImpl str = r @ ToLowerASCIIImpl s)"
proof -
  have p: "(\<exists>r. xs = ys @ r) \<longleftrightarrow> length ys \<le> length xs \<and> take (length ys) xs = ys" for xs ys :: string
    by (metis append_eq_conv_conj append_take_drop_id le_add1 length_append)
  have q: "(\<exists>r. xs = r @ ys) \<longleftrightarrow> length ys \<le> length xs \<and> drop (length xs - length ys) xs = ys" for xs ys :: string
    by (metis append_take_drop_id append_eq_append_conv le_add2 length_append length_drop diff_diff_cancel)
  show ?thesis unfolding p q
    by (auto simp: StartsWithT_def EndsWithT_def substr_def piece_eq_iff case_equal lower_map take_map drop_map)
qed

lemma lcpy_loop_exact:
  assumes "n < length src" "src ! n = CHR 0x00" "\<And>j. j < n \<Longrightarrow> src ! j \<noteq> CHR 0x00"
  shows "i \<le> n \<Longrightarrow> i + k \<le> length dst \<Longrightarrow> lcpy_loop k i dst src =
    (if n < i + k then Inr (Some n, take i dst @ take (Suc n - i) (drop i src) @ drop (Suc n) dst)
     else Inr (None, take i dst @ take k (drop i src) @ drop (i + k) dst))"
proof (induction k arbitrary: i dst)
  case (Suc k)
  have i: "i < length src" "i < length dst" using assms(1) Suc.prems by auto
  have up: "dst[i := src ! i] = take i dst @ src ! i # drop (Suc i) dst" using i by (simp add: upd_conv_take_nth_drop)
  have d: "drop i src = src ! i # drop (Suc i) src" using i by (simp add: Cons_nth_drop_Suc)
  show ?case
  proof (cases "i = n")
    case True
    then show ?thesis using i up d assms(2) by simp
  next
    case False
    then have "src ! i \<noteq> CHR 0x00" using assms(3) Suc.prems by simp
    moreover have "Suc n - i = Suc (Suc n - Suc i)" using False Suc.prems by simp
    ultimately show ?thesis using i up d Suc.IH [of "Suc i" "dst[i := src ! i]"] False Suc.prems by (simp add: guardr_def add.commute)
  qed
qed simp

lemma traits_length_exact:
  "n < length s \<Longrightarrow> s ! n = CHR 0x00 \<Longrightarrow> (\<And>j. j < n \<Longrightarrow> s ! j \<noteq> CHR 0x00) \<Longrightarrow> CharTraits_length s = Inr n"
proof (induction n arbitrary: s)
  case 0
  then show ?case by (cases s) auto
next
  case (Suc n)
  obtain c cs where s: "s = c # cs" using Suc.prems(1) by (cases s) auto
  have "CharTraits_length cs = Inr n" using Suc.prems s by (intro Suc.IH) force+
  moreover have "c \<noteq> CHR 0x00" using Suc.prems(3) [of 0] s by simp
  ultimately show ?case using s by simp
qed

text \<open>
  \<open>lcpyT\<close> copies as much of a terminated string as the block takes, always terminates it, leaves the rest of the block alone and
  returns the length of the string, without reading behind its end.
\<close>

theorem lcpy_exact:
  assumes "n < length src" and "src ! n = CHR 0x00" and "\<And>j. j < n \<Longrightarrow> src ! j \<noteq> CHR 0x00" and "sz \<le> length dst"
  shows "lcpyT dst src sz =
    Inr (n, if sz = 0 then dst else take (min n (sz - 1)) src @ CHR 0x00 # drop (Suc (min n (sz - 1))) dst)"
proof -
  have loop: "lcpy_loop sz 0 dst src =
      (if n < sz then Inr (Some n, take (Suc n) src @ drop (Suc n) dst) else Inr (None, take sz src @ drop sz dst))"
    using lcpy_loop_exact [OF assms(1-3), of 0 sz dst] assms(4) by simp
  show ?thesis
  proof (cases "n < sz")
    case True
    then have "min n (sz - 1) = n" by simp
    then show ?thesis using True loop assms(1,2) by (simp add: lcpyT_def take_Suc_conv_app_nth)
  next
    case False
    have "CharTraits_length (drop sz src) = Inr (n - sz)" using assms False by (intro traits_length_exact) auto
    moreover have "(take sz src @ drop sz dst)[sz - 1 := CHR 0x00] = take (sz - 1) src @ CHR 0x00 # drop sz dst" if "sz \<noteq> 0"
      using that False assms(1) by (simp add: list_update_append upd_conv_take_nth_drop min_def take_Suc_conv_app_nth)
    ultimately show ?thesis using loop False by (auto simp: lcpyT_def Let_def min_def)
  qed
qed

lemma signed_char_inj: "signed_char u = signed_char v \<longleftrightarrow> u = v"
proof
  assume e: "signed_char u = signed_char v"
  have "int (code u) < 256" "int (code v) < 256" using nat_of_char_less_256 [of u] nat_of_char_less_256 [of v] by simp_all
  then have "code u = code v" using e unfolding signed_char_def
    by (cases "128 \<le> code u"; cases "128 \<le> code v"; simp only: if_True if_False; linarith)
  then show "u = v" by (simp add: of_char_eq_iff)
qed simp

theorem compare_insensitive_eq: "CompareCaseInsensitiveASCIIT a b = 0 \<longleftrightarrow> ToLowerASCIIImpl a = ToLowerASCIIImpl b"
proof (induction a b rule: CompareCaseInsensitiveASCIIT.induct)
  case (1 x a y b)
  consider "signed_char (ToLowerASCII x) < signed_char (ToLowerASCII y)" | "signed_char (ToLowerASCII y) < signed_char (ToLowerASCII x)"
    | "ToLowerASCII x = ToLowerASCII y" using signed_char_inj by (metis linorder_neqE)
  then show ?case
  proof cases
    case 3
    then show ?thesis using "1.IH" [OF refl refl] by simp
  qed auto
qed (auto simp: lower_map)

text \<open>The comparison without case orders characters beyond ASCII before the others, the comparison of pieces behind them.\<close>

theorem compare_insensitive_signed:
  "CompareCaseInsensitiveASCIIT [CHR 0xC3] ''a'' = - 1 \<and> piece_compare char_lt [CHR 0xC3] ''a'' = Inr 1"
  by (simp add: signed_char_def ToLowerASCII_def piece_compare_def char_lt_def)

section \<open>Filling placeholders\<close>

text \<open>A format string as it is meant: text, runs of dollar signs and parameters, counted from 0.\<close>

datatype fmt_part = Text string | Dollars nat | Param nat

fun render :: "fmt_part \<Rightarrow> string" where
  "render (Text t) = t"
| "render (Dollars n) = replicate (Suc n) (CHR ''$'')"
| "render (Param i) = [CHR ''$'', char_of (i + 49)]"

fun fill :: "string list \<Rightarrow> fmt_part \<Rightarrow> string" where
  "fill subst (Text t) = t"
| "fill subst (Dollars n) = replicate n (CHR ''$'')"
| "fill subst (Param i) = (if i < length subst then subst ! i else [])"

text \<open>Text has no dollar sign, and a run of dollar signs ends before text or at the end of the string.\<close>

fun fmt_ok :: "fmt_part list \<Rightarrow> bool" where
  "fmt_ok [] \<longleftrightarrow> True"
| "fmt_ok (Text t # ps) \<longleftrightarrow> t \<noteq> [] \<and> CHR ''$'' \<notin> set t \<and> fmt_ok ps"
| "fmt_ok (Param i # ps) \<longleftrightarrow> i < 9 \<and> fmt_ok ps"
| "fmt_ok (Dollars n # ps) \<longleftrightarrow> 0 < n \<and> (case ps of [] \<Rightarrow> True | Text t # _ \<Rightarrow> True | _ \<Rightarrow> False) \<and> fmt_ok ps"

lemma placeholders_text:
  "CHR ''$'' \<notin> set t \<Longrightarrow> placeholders_loop subst os (t @ rest) f rs = placeholders_loop subst os rest (f @ t) rs"
  by (induction t arbitrary: f) auto

lemma placeholders_dollars:
  assumes "0 < n" "rest = [] \<or> hd rest \<noteq> CHR ''$''"
  shows "placeholders_loop subst os (replicate (Suc n) (CHR ''$'') @ rest) f rs =
    placeholders_loop subst os rest (f @ replicate n (CHR ''$'')) rs"
proof -
  let ?d = "\<lambda>c. c = CHR ''$''"
  obtain m where n: "n = Suc m" using assms(1) gr0_implies_Suc by blast
  have r: "takeWhile ?d rest = []" "dropWhile ?d rest = rest" using assms(2) by (cases rest; auto)+
  have "takeWhile ?d (replicate m (CHR ''$'') @ rest) = replicate m (CHR ''$'')"
    "dropWhile ?d (replicate m (CHR ''$'') @ rest) = rest"
    using r by (induction m) simp_all
  then show ?thesis using n by simp
qed

lemma code_dollar: "code (CHR ''$'') = 36"
  by simp

lemma digit_char_code: "i < 9 \<Longrightarrow> code (char_of (i + 49)) = i + 49" "i < 9 \<Longrightarrow> char_of (i + 49) \<noteq> CHR ''$''"
  "i < 9 \<Longrightarrow> signed_char (char_of (i + 49)) = int i + 49"
proof -
  assume i: "i < 9"
  then show c: "code (char_of (i + 49)) = i + 49" by simp
  show "char_of (i + 49) \<noteq> CHR ''$''"
  proof
    assume "char_of (i + 49) = CHR ''$''"
    then have "code (char_of (i + 49)) = 36" using code_dollar by metis
    then show False using c by linarith
  qed
  show "signed_char (char_of (i + 49)) = int i + 49" unfolding signed_char_def c using i by simp
qed

text \<open>
  Every parameter of a format string is replaced by its substitution, or by nothing if there is none, a run of dollar signs
  becomes one shorter, and other text stays.
\<close>

theorem placeholders_filled:
  "fmt_ok ps \<Longrightarrow> fst (placeholders_loop subst os (concat (map render ps)) f rs) = f @ concat (map (fill subst) ps)"
proof (induction ps arbitrary: f rs)
  case (Cons p ps)
  show ?case
  proof (cases p)
    case (Text t)
    then show ?thesis using Cons by (simp add: placeholders_text)
  next
    case (Dollars n)
    have "concat (map render ps) = [] \<or> hd (concat (map render ps)) \<noteq> CHR ''$''"
      using Cons.prems Dollars hd_in_set by (fastforce split: list.splits fmt_part.splits)
    then show ?thesis using Cons Dollars placeholders_dollars [of n "concat (map render ps)" subst os f rs] by simp
  next
    case (Param i)
    then show ?thesis using Cons digit_char_code [of i] by (simp add: Let_def)
  qed
qed simp

end
