(* ===== verification/StringSplit.thy ===== *)
theory StringSplit
  imports StringReplace StringUtil
begin

text \<open>
  base/strings/string_split_internal.h and \<open>JoinStringT\<close> of string_util_internal.h. \<open>TrimString\<close> and the whitespace characters of
  the compiled library are arguments.
\<close>

section \<open>Definitions\<close>

datatype whitespace_handling = KEEP_WHITESPACE | TRIM_WHITESPACE

datatype split_result = SPLIT_WANT_ALL | SPLIT_WANT_NONEMPTY

text \<open>The treatment of a piece: trimmed if that is asked for, and the results with it.\<close>

definition add_piece ::
    "('c list \<Rightarrow> 'c list \<Rightarrow> trim_positions \<Rightarrow> 'c list) \<Rightarrow> 'c list \<Rightarrow> whitespace_handling \<Rightarrow> split_result \<Rightarrow> 'c list \<Rightarrow>
     'c list list \<Rightarrow> 'c list list" where
  "add_piece TrimString ws_chars whitespace result_type piece result =
     (let piece = (if whitespace = TRIM_WHITESPACE then TrimString piece ws_chars TRIM_ALL else piece) in
      if result_type = SPLIT_WANT_ALL \<or> piece \<noteq> [] then result @ [piece] else result)"

fun split_loop :: "nat \<Rightarrow> 'c piece_lib \<Rightarrow> ('c list \<Rightarrow> 'c list list \<Rightarrow> 'c list list) \<Rightarrow> 'c list \<Rightarrow> 'c list \<Rightarrow> nat \<Rightarrow> 'c list list \<Rightarrow>
    'c list list res" where
  "split_loop 0 L add str delimiter start result = (if start \<noteq> npos then Inl Diverges else Inr result)"
| "split_loop (Suc fuel) L add str delimiter start result =
     (if start \<noteq> npos then
        let e = lib_find_first_of L str delimiter start in
        if e = npos then rbind (substr str start npos) (\<lambda>piece. split_loop fuel L add str delimiter npos (add piece result))
        else rbind (substr str start (e - start)) (\<lambda>piece. split_loop fuel L add str delimiter (e + 1) (add piece result))
      else Inr result)"

definition SplitStringT ::
    "'c piece_lib \<Rightarrow> ('c list \<Rightarrow> 'c list \<Rightarrow> trim_positions \<Rightarrow> 'c list) \<Rightarrow> 'c list \<Rightarrow> 'c list \<Rightarrow> 'c list \<Rightarrow> whitespace_handling \<Rightarrow>
     split_result \<Rightarrow> 'c list list res" where
  "SplitStringT L TrimString ws_chars str delimiter whitespace result_type =
     (if str = [] then Inr []
      else split_loop (length str + 2) L (add_piece TrimString ws_chars whitespace result_type) str delimiter 0 [])"

text \<open>The loop of the other function; it ends after the first round that finds no delimiter.\<close>

fun split_substr_loop :: "nat \<Rightarrow> 'c piece_lib \<Rightarrow> ('c list \<Rightarrow> 'c list list \<Rightarrow> 'c list list) \<Rightarrow> 'c list \<Rightarrow> 'c list \<Rightarrow> nat \<Rightarrow> nat \<Rightarrow>
    'c list list \<Rightarrow> 'c list list res" where
  "split_substr_loop 0 L add input delimiter begin_index end_index result = (if end_index \<noteq> npos then Inl Diverges else Inr result)"
| "split_substr_loop (Suc fuel) L add input delimiter begin_index end_index result =
     (if end_index \<noteq> npos then
        let end_index = lib_find L input delimiter begin_index in
        rbind (if end_index = npos then substr input begin_index npos else substr input begin_index (end_index - begin_index)) (\<lambda>piece.
        split_substr_loop fuel L add input delimiter (size_plus end_index (length delimiter)) end_index (add piece result))
      else Inr result)"

definition SplitStringUsingSubstrT ::
    "'c piece_lib \<Rightarrow> ('c list \<Rightarrow> 'c list \<Rightarrow> trim_positions \<Rightarrow> 'c list) \<Rightarrow> 'c list \<Rightarrow> 'c list \<Rightarrow> 'c list \<Rightarrow> whitespace_handling \<Rightarrow>
     split_result \<Rightarrow> 'c list list res" where
  "SplitStringUsingSubstrT L TrimString ws_chars input delimiter whitespace result_type =
     (if length delimiter = 0 then Inr [input]
      else split_substr_loop (length input + 2) L (add_piece TrimString ws_chars whitespace result_type) input delimiter 0 0 [])"

fun join_loop :: "'c list list \<Rightarrow> 'c list \<Rightarrow> 'c list \<Rightarrow> 'c list" where
  "join_loop [] sep result = result"
| "join_loop (p # parts) sep result = join_loop parts sep (result @ sep @ p)"

definition JoinStringT :: "'c list list \<Rightarrow> 'c list \<Rightarrow> 'c list res" where
  "JoinStringT parts sep =
     (if parts = [] then Inr []
      else
        let total_size = (length parts - 1) * length sep + sum_list (map length parts);
            result = join_loop (tl parts) sep (hd parts) in
        dcheck (total_size = length result) (Inr result))"

section \<open>The reference\<close>

text \<open>The fields of a text between the matches, from left to right.\<close>

fun fields_ref :: "'c matcher \<Rightarrow> 'c list \<Rightarrow> 'c list list" where
  "fields_ref m [] = [[]]"
| "fields_ref m (x # xs) =
     (if matches_at m (x # xs) then [] # fields_ref m (drop (MatchSize m - 1) xs)
      else (x # hd (fields_ref m xs)) # tl (fields_ref m xs))"

lemma fields_ref_nonempty [simp]: "fields_ref m xs \<noteq> []"
  by (cases xs) auto

lemma fields_ref_match:
  "matches_at m xs \<Longrightarrow> 0 < MatchSize m \<Longrightarrow> fields_ref m xs = [] # fields_ref m (drop (MatchSize m) xs)"
  using matches_at_length [of m xs] by (cases xs) (auto simp: drop_Cons')

lemma fields_ref_skip:
  "(\<And>j. j < n \<Longrightarrow> \<not> matches_at m (drop j xs)) \<Longrightarrow> n \<le> length xs \<Longrightarrow>
   fields_ref m xs = (take n xs @ hd (fields_ref m (drop n xs))) # tl (fields_ref m (drop n xs))"
proof (induction n arbitrary: xs)
  case (Suc n)
  then obtain y ys where xs: "xs = y # ys" by (cases xs) auto
  have "\<not> matches_at m xs" using Suc.prems(1) [of 0] by simp
  moreover have "fields_ref m ys = (take n ys @ hd (fields_ref m (drop n ys))) # tl (fields_ref m (drop n ys))"
    using Suc.prems xs by (intro Suc.IH) force+
  ultimately show ?case using xs by simp
qed simp

lemma Find_fields:
  assumes "length s < npos" "0 < MatchSize m" "pos \<le> length s"
  obtains (None) "matcher_Find m s pos = npos" "fields_ref m (drop pos s) = [drop pos s]"
  | (Some) i where "matcher_Find m s pos = i" "pos \<le> i" "i < length s" "i + MatchSize m \<le> length s"
      "fields_ref m (drop pos s) = take (i - pos) (drop pos s) # fields_ref m (drop (i + MatchSize m) s)"
  using assms(1,2)
proof (cases rule: Find_first [where pos = pos])
  case None
  have "fields_ref m (drop pos s) = (take (length s - pos) (drop pos s) @ hd (fields_ref m (drop (length s - pos) (drop pos s)))) #
      tl (fields_ref m (drop (length s - pos) (drop pos s)))"
    using None by (intro fields_ref_skip) auto
  then show thesis using that(1) None(1) by simp
next
  case (Some i)
  have sk: "fields_ref m (drop pos s) = (take (i - pos) (drop pos s) @ hd (fields_ref m (drop (i - pos) (drop pos s)))) #
      tl (fields_ref m (drop (i - pos) (drop pos s)))"
    using Some by (intro fields_ref_skip) auto
  have "drop (i - pos) (drop pos s) = drop i s" using Some by simp
  then show thesis using that(2) [of i] Some sk fields_ref_match [OF Some(4) assms(2)] matches_at_length [OF Some(4)]
    by (simp add: add.commute)
qed

section \<open>Splitting is exact\<close>

context piece_search
begin

lemma find_matcher:
  "length s < npos \<Longrightarrow> lib_find_first_of L s t pos = matcher_Find (CharacterMatcher t) s pos"
  "length s < npos \<Longrightarrow> lib_find L s t pos = matcher_Find (SubstringMatcher t) s pos"
  by (simp_all add: find_first_of_law find_law)

lemma split_loop_exact:
  assumes "length str < npos"
  shows "pos \<le> length str \<Longrightarrow> length str + 2 \<le> fuel + pos \<Longrightarrow>
    split_loop fuel L add str d pos result = Inr (foldl (\<lambda>r p. add p r) result (fields_ref (CharacterMatcher d) (drop pos str)))"
proof (induction fuel arbitrary: pos result)
  case (Suc fuel)
  have pos: "pos \<noteq> npos" using assms Suc.prems by simp
  obtain f where f: "fuel = Suc f" using Suc.prems by (cases fuel) auto
  have k: "0 < MatchSize (CharacterMatcher d)" by simp
  from assms k Suc.prems(1) show ?case
  proof (cases rule: Find_fields)
    case None
    then show ?thesis using pos Suc.prems assms f by (simp add: find_matcher substr_def min_def)
  next
    case (Some i)
    have "split_loop fuel L add str d (i + 1) (add (take (i - pos) (drop pos str)) result) =
        Inr (foldl (\<lambda>r p. add p r) (add (take (i - pos) (drop pos str)) result) (fields_ref (CharacterMatcher d) (drop (i + 1) str)))"
      using Some Suc.prems by (intro Suc.IH) auto
    moreover have "i \<noteq> npos" "substr str pos (i - pos) = Inr (take (i - pos) (drop pos str))"
      using Some assms by (auto simp: substr_def)
    ultimately show ?thesis using Some(1,5) pos assms by (simp add: find_matcher Let_def)
  qed
qed simp

lemma split_substr_loop_exact:
  assumes "length input < npos" "0 < length d"
  shows "pos \<le> length input \<Longrightarrow> e \<noteq> npos \<Longrightarrow> length input + 2 \<le> fuel + pos \<Longrightarrow>
    split_substr_loop fuel L add input d pos e result = Inr (foldl (\<lambda>r p. add p r) result (fields_ref (SubstringMatcher d) (drop pos input)))"
proof (induction fuel arbitrary: pos e result)
  case (Suc fuel)
  obtain f where f: "fuel = Suc f" using Suc.prems by (cases fuel) auto
  have k: "0 < MatchSize (SubstringMatcher d)" using assms by simp
  from assms(1) k Suc.prems(1) show ?case
  proof (cases rule: Find_fields)
    case None
    then show ?thesis using Suc.prems assms f by (simp add: find_matcher substr_def min_def)
  next
    case (Some i)
    have sp: "size_plus i (length d) = i + length d" using Some(4) assms(1) by (simp add: size_plus_def npos_def)
    have ne: "i \<noteq> npos" using Some(3) assms(1) by simp
    have "split_substr_loop fuel L add input d (i + length d) i (add (take (i - pos) (drop pos input)) result) =
        Inr (foldl (\<lambda>r p. add p r) (add (take (i - pos) (drop pos input)) result) (fields_ref (SubstringMatcher d) (drop (i + length d) input)))"
    proof (rule Suc.IH)
      show "length input + 2 \<le> fuel + (i + length d)" using Suc.prems(3) Some(2) assms(2) by linarith
    qed (use Some(4) ne in simp_all)
    moreover have "substr input pos (i - pos) = Inr (take (i - pos) (drop pos input))" using Some assms by (auto simp: substr_def)
    ultimately show ?thesis using Some(1,5) sp ne Suc.prems(2) assms by (simp add: find_matcher Let_def)
  qed
qed simp

end

text \<open>What a function returns for the fields of a text.\<close>

definition kept :: "('c list \<Rightarrow> 'c list \<Rightarrow> trim_positions \<Rightarrow> 'c list) \<Rightarrow> 'c list \<Rightarrow> whitespace_handling \<Rightarrow> split_result \<Rightarrow> 'c list list \<Rightarrow>
    'c list list" where
  "kept TrimString ws_chars wh rt fs =
     filter (\<lambda>p. rt = SPLIT_WANT_ALL \<or> p \<noteq> []) (map (\<lambda>p. if wh = TRIM_WHITESPACE then TrimString p ws_chars TRIM_ALL else p) fs)"

lemma add_pieces: "foldl (\<lambda>r p. add_piece ts ws wh rt p r) result fs = result @ kept ts ws wh rt fs"
  by (induction fs arbitrary: result) (auto simp: add_piece_def kept_def Let_def)

text \<open>
  Both functions return for every text the fields between the delimiters, trimmed and without the empty ones as asked for; no
  check fails, and every loop ends.
\<close>

lemma split_string_parts:
  assumes "piece_search L" "length s < npos"
  shows "SplitStringT L ts ws s d wh rt = Inr (if s = [] then [] else kept ts ws wh rt (fields_ref (CharacterMatcher d) s))"
    "d \<noteq> [] \<Longrightarrow> SplitStringUsingSubstrT L ts ws s d wh rt = Inr (kept ts ws wh rt (fields_ref (SubstringMatcher d) s))"
proof -
  show "SplitStringT L ts ws s d wh rt = Inr (if s = [] then [] else kept ts ws wh rt (fields_ref (CharacterMatcher d) s))"
    using piece_search.split_loop_exact [OF assms, of 0 "length s + 2"] by (simp add: SplitStringT_def add_pieces)
  show "SplitStringUsingSubstrT L ts ws s d wh rt = Inr (kept ts ws wh rt (fields_ref (SubstringMatcher d) s))" if "d \<noteq> []"
    using piece_search.split_substr_loop_exact [OF assms, of d 0 0 "length s + 2"] that
    by (simp add: SplitStringUsingSubstrT_def add_pieces npos_def)
qed

section \<open>Joining\<close>

fun joined :: "'c list \<Rightarrow> 'c list list \<Rightarrow> 'c list" where
  "joined sep [] = []"
| "joined sep [p] = p"
| "joined sep (p # q # ps) = p @ sep @ joined sep (q # ps)"

lemma join_loop_joined: "join_loop parts sep result = joined sep (result # parts)"
proof (induction parts arbitrary: result)
  case (Cons p parts)
  have "joined sep ((result @ sep @ p) # parts) = result @ sep @ joined sep (p # parts)" by (cases parts) simp_all
  then show ?case using Cons by simp
qed simp

lemma joined_length: "parts \<noteq> [] \<Longrightarrow> length (joined sep parts) = (length parts - 1) * length sep + sum_list (map length parts)"
  by (induction sep parts rule: joined.induct) auto

lemma JoinStringT_joined: "JoinStringT parts sep = Inr (joined sep parts)"
  using join_loop_joined [of "tl parts" sep "hd parts"] joined_length [of parts sep]
  by (cases parts) (simp_all add: JoinStringT_def Let_def)

lemma joined_Cons: "fs \<noteq> [] \<Longrightarrow> joined sep (f # fs) = f @ sep @ joined sep fs"
  by (cases fs) simp_all

lemma joined_head: "fs \<noteq> [] \<Longrightarrow> joined sep ((x # hd fs) # tl fs) = x # joined sep fs"
  by (cases "fs"; cases "tl fs") auto

lemma joined_fields: "d \<noteq> [] \<Longrightarrow> joined d (fields_ref (SubstringMatcher d) s) = s"
proof (induction "SubstringMatcher d" s rule: fields_ref.induct)
  case (2 x xs)
  show ?case
  proof (cases "matches_at (SubstringMatcher d) (x # xs)")
    case True
    then have e: "x # xs = d @ drop (length d) (x # xs)" by (metis append_take_drop_id matches_at.simps(1))
    have "fields_ref (SubstringMatcher d) (x # xs) = [] # fields_ref (SubstringMatcher d) (drop (length d) (x # xs))"
      using "2.prems" by (intro fields_ref_match [OF True, simplified MatchSize.simps]) simp
    moreover have "joined d (fields_ref (SubstringMatcher d) (drop (length d) (x # xs))) = drop (length d) (x # xs)"
      using "2.hyps"(1) [OF True "2.prems"] "2.prems" by (simp add: drop_Cons')
    ultimately show ?thesis using e by (metis joined_Cons fields_ref_nonempty append_Nil)
  next
    case False
    then show ?thesis using 2 by (simp add: joined_head)
  qed
qed simp

lemma char_fields: "fields_ref (CharacterMatcher [c]) s = fields_ref (SubstringMatcher [c]) s"
  by (induction s) auto

lemma kept_all: "kept ts ws KEEP_WHITESPACE SPLIT_WANT_ALL fs = fs"
  by (simp add: kept_def)

definition contains_text :: "'c list \<Rightarrow> 'c list \<Rightarrow> bool" where
  "contains_text d p \<longleftrightarrow> (\<exists>u v. p = u @ d @ v)"

lemma contains_Cons: "contains_text d (x # p) \<longleftrightarrow> (\<exists>v. x # p = d @ v) \<or> contains_text d p"
proof
  assume "contains_text d (x # p)"
  then obtain u v where "x # p = u @ d @ v" by (auto simp: contains_text_def)
  then show "(\<exists>v. x # p = d @ v) \<or> contains_text d p" by (cases u) (auto simp: contains_text_def)
next
  assume "(\<exists>v. x # p = d @ v) \<or> contains_text d p"
  then show "contains_text d (x # p)" unfolding contains_text_def by (metis append_Nil append_Cons)
qed

lemma first_field: "\<exists>rest. s = hd (fields_ref m s) @ rest"
proof (induction m s rule: fields_ref.induct)
  case (2 m x xs)
  then show ?case by (cases "matches_at m (x # xs)") auto
qed simp

lemma fields_free:
  "d \<noteq> [] \<Longrightarrow> \<forall>p \<in> set (fields_ref (SubstringMatcher d) s). \<not> contains_text d p"
proof (induction "SubstringMatcher d" s rule: fields_ref.induct)
  case 1
  then show ?case by (simp add: contains_text_def)
next
  case (2 x xs)
  show ?case
  proof (cases "matches_at (SubstringMatcher d) (x # xs)")
    case True
    then show ?thesis using 2 by (auto simp: contains_text_def)
  next
    case False
    let ?fs = "fields_ref (SubstringMatcher d) xs"
    have fs: "\<forall>p \<in> set ?fs. \<not> contains_text d p" using 2 False by blast
    have "\<not> contains_text d (x # hd ?fs)"
    proof
      assume "contains_text d (x # hd ?fs)"
      then obtain v where "x # hd ?fs = d @ v" using fs by (auto simp: contains_Cons)
      moreover obtain rest where "xs = hd ?fs @ rest" using first_field by blast
      ultimately have "x # xs = d @ v @ rest" by (metis append_Cons append_assoc)
      then show False using False by simp
    qed
    moreover have "set (tl ?fs) \<subseteq> set ?fs" by (cases ?fs) auto
    ultimately show ?thesis using False fs by auto
  qed
qed

text \<open>
  C34. Splitting at a delimiter text that is not empty, or at a single character, returns the fields between the leftmost
  matches, trimmed and without the empty ones as the options ask for (an empty text has no parts in the second function). With
  the options that keep everything no part contains the delimiter, and joining the parts with the delimiter gives the text again.
  The searches of the compiled library are those of \<open>std::basic_string\<close>; the text is shorter than \<open>npos\<close>.
\<close>

theorem split_join_roundtrip:
  assumes "piece_search L" and "length s < npos" and "d \<noteq> []"
  shows "SplitStringUsingSubstrT L ts ws s d wh rt = Inr (kept ts ws wh rt (fields_ref (SubstringMatcher d) s)) \<and>
    SplitStringT L ts ws s [c] wh rt = Inr (if s = [] then [] else kept ts ws wh rt (fields_ref (SubstringMatcher [c]) s)) \<and>
    (\<exists>parts. SplitStringUsingSubstrT L ts ws s d KEEP_WHITESPACE SPLIT_WANT_ALL = Inr parts \<and> JoinStringT parts d = Inr s \<and>
       (\<forall>p \<in> set parts. \<not> contains_text d p)) \<and>
    (\<exists>parts. SplitStringT L ts ws s [c] KEEP_WHITESPACE SPLIT_WANT_ALL = Inr parts \<and> JoinStringT parts [c] = Inr s \<and>
       (\<forall>p \<in> set parts. c \<notin> set p))"
proof -
  let ?k = "\<lambda>fs. if s = [] then [] else fs"
  have c: "joined [c] (?k (fields_ref (SubstringMatcher [c]) s)) = s" using joined_fields [of "[c]" s] by simp
  have free: "\<forall>p \<in> set (?k (fields_ref (SubstringMatcher [c]) s)). c \<notin> set p"
    using fields_free [of "[c]" s] by (auto simp: contains_text_def in_set_conv_decomp)
  have "kept ts ws KEEP_WHITESPACE SPLIT_WANT_ALL fs = fs" for fs :: "'a list list" by (rule kept_all)
  then show ?thesis
    using split_string_parts(1) [OF assms(1,2), of ts ws "[c]"] split_string_parts(2) [OF assms(1,2,3), of ts ws]
      joined_fields [OF assms(3), of s] fields_free [OF assms(3), of s] c free
    unfolding JoinStringT_joined char_fields by (cases "s = []") simp_all
qed

theorem split_join_roundtrip_witness:
  "SplitStringUsingSubstrT std_pieces (\<lambda>p _ _. p) [] ''aXbX'' ''X'' KEEP_WHITESPACE SPLIT_WANT_ALL = Inr [''a'', ''b'', []] \<and>
   JoinStringT [''a'', ''b'', []] ''X'' = Inr ''aXbX''"
  using split_join_roundtrip [OF std_search.piece_search_axioms, of "''aXbX''" "''X''" "\<lambda>p _ _. p" "[]" KEEP_WHITESPACE SPLIT_WANT_ALL]
  by (simp add: npos_def kept_all JoinStringT_joined)

lemma fields_of_joined:
  assumes "list_all (\<lambda>p. c \<notin> set p) parts" "parts \<noteq> []"
  shows "fields_ref (CharacterMatcher [c]) (joined [c] parts) = parts"
proof -
  have word: "fields_ref (CharacterMatcher [c]) (p @ xs) =
      (p @ hd (fields_ref (CharacterMatcher [c]) xs)) # tl (fields_ref (CharacterMatcher [c]) xs)" if "c \<notin> set p" for p xs
    using that by (induction p) auto
  show ?thesis using assms
  proof (induction "[c]" parts rule: joined.induct)
    case (2 p)
    then show ?case using word [of p "[]"] by simp
  next
    case (3 p q ps)
    then show ?case using word [of p "c # joined [c] (q # ps)"] by simp
  qed simp
qed

text \<open>
  Splitting is the inverse of joining for parts without the delimiter, with one exception: a single empty part is joined to the
  empty text, which has no parts.
\<close>

theorem join_split_roundtrip:
  assumes "piece_search L" and "list_all (\<lambda>p. c \<notin> set p) parts" and "parts \<noteq> [[]]" and "length (joined [c] parts) < npos"
  shows "\<exists>s. JoinStringT parts [c] = Inr s \<and> SplitStringT L ts ws s [c] KEEP_WHITESPACE SPLIT_WANT_ALL = Inr parts"
proof (cases "parts = []")
  case False
  then have f: "fields_ref (CharacterMatcher [c]) (joined [c] parts) = parts" using assms(2) by (intro fields_of_joined)
  obtain p ps where p: "parts = p # ps" using False by (meson neq_Nil_conv)
  then have "joined [c] parts \<noteq> []" using assms(3) by (cases ps) auto
  then show ?thesis using split_string_parts(1) [OF assms(1,4)] f by (simp add: kept_all JoinStringT_joined)
qed (use split_string_parts(1) [OF assms(1), of "[]"] in \<open>simp add: JoinStringT_joined npos_def\<close>)

theorem join_split_single_empty:
  "JoinStringT [[]] (CHR 0x2C # []) = Inr [] \<and>
   SplitStringT std_pieces ts ws [] (CHR 0x2C # []) KEEP_WHITESPACE SPLIT_WANT_ALL = Inr []"
  by (simp add: JoinStringT_def SplitStringT_def)

end
