(* ===== verification/Utf.thy ===== *)
theory Utf
  imports IntTypes
begin

text \<open>
  base/third_party/icu/icu_utf.h, the inline functions of base/strings/utf_string_conversion_utils.h and \<open>DoIsStringUTF8\<close> of
  string_util_internal.h. A macro that changes its arguments is a function that returns their new values; a byte of a string is
  read as \<open>uint8_t\<close>, outside of the string it is a fault.
\<close>

unbundle bit_operations_syntax

section \<open>Code points\<close>

definition CBU_SENTINEL :: int where
  "CBU_SENTINEL = - 1"

definition CBU_IS_UNICODE_NONCHAR :: "int \<Rightarrow> bool" where
  "CBU_IS_UNICODE_NONCHAR c \<longleftrightarrow> c \<ge> 0xfdd0 \<and> (c \<le> 0xfdef \<or> c AND 0xfffe = 0xfffe) \<and> c \<le> 0x10ffff"

definition CBU_IS_UNICODE_CHAR :: "int \<Rightarrow> bool" where
  "CBU_IS_UNICODE_CHAR c \<longleftrightarrow> cast UInt32 c < 0xd800 \<or> (0xdfff < c \<and> c \<le> 0x10ffff \<and> \<not> CBU_IS_UNICODE_NONCHAR c)"

definition CBU_IS_SURROGATE :: "int \<Rightarrow> bool" where
  "CBU_IS_SURROGATE c \<longleftrightarrow> c AND 0xfffff800 = 0xd800"

definition CBU_IS_SURROGATE_LEAD :: "int \<Rightarrow> bool" where
  "CBU_IS_SURROGATE_LEAD c \<longleftrightarrow> c AND 0x400 = 0"

definition IsValidCodepoint :: "int \<Rightarrow> bool" where
  "IsValidCodepoint code_point \<longleftrightarrow> code_point < 0xD800 \<or> (code_point \<ge> 0xE000 \<and> code_point \<le> 0x10FFFF)"

definition IsValidCharacter :: "int \<Rightarrow> bool" where
  "IsValidCharacter code_point \<longleftrightarrow> code_point < 0xD800 \<or> (code_point \<ge> 0xE000 \<and> code_point < 0xFDD0) \<or>
     (code_point > 0xFDEF \<and> code_point \<le> 0x10FFFF \<and> code_point AND 0xFFFE \<noteq> 0xFFFE)"

section \<open>UTF-8\<close>

definition CBU8_LEAD3_T1_BITS :: "int list" where
  "CBU8_LEAD3_T1_BITS = [0x20, 0x30, 0x30, 0x30, 0x30, 0x30, 0x30, 0x30, 0x30, 0x30, 0x30, 0x30, 0x30, 0x10, 0x30, 0x30]"

definition CBU8_IS_VALID_LEAD3_AND_T1 :: "int \<Rightarrow> int \<Rightarrow> bool" where
  "CBU8_IS_VALID_LEAD3_AND_T1 lead t1 \<longleftrightarrow> CBU8_LEAD3_T1_BITS ! nat (lead AND 0xf) AND push_bit (nat (drop_bit 5 t1)) 1 \<noteq> 0"

definition CBU8_LEAD4_T1_BITS :: "int list" where
  "CBU8_LEAD4_T1_BITS = [0x00, 0x00, 0x00, 0x00, 0x00, 0x00, 0x00, 0x00, 0x1E, 0x0F, 0x0F, 0x0F, 0x00, 0x00, 0x00, 0x00]"

definition CBU8_IS_VALID_LEAD4_AND_T1 :: "int \<Rightarrow> int \<Rightarrow> bool" where
  "CBU8_IS_VALID_LEAD4_AND_T1 lead t1 \<longleftrightarrow> CBU8_LEAD4_T1_BITS ! nat (drop_bit 4 t1) AND push_bit (nat (lead AND 7)) 1 \<noteq> 0"

definition CBU8_IS_SINGLE :: "int \<Rightarrow> bool" where
  "CBU8_IS_SINGLE c \<longleftrightarrow> c AND 0x80 = 0"

definition CBU8_IS_LEAD :: "int \<Rightarrow> bool" where
  "CBU8_IS_LEAD c \<longleftrightarrow> cast UInt8 (c - 0xc2) \<le> 0x32"

definition CBU8_IS_TRAIL :: "int \<Rightarrow> bool" where
  "CBU8_IS_TRAIL c \<longleftrightarrow> cast Int8 c < - 0x40"

definition CBU8_LENGTH :: "int \<Rightarrow> nat" where
  "CBU8_LENGTH c =
     (let u = cast UInt32 c in
      if u \<le> 0x7f then 1 else if u \<le> 0x7ff then 2 else if u \<le> 0xd7ff then 3
      else if u \<le> 0xdfff \<or> u > 0x10ffff then 0 else if u \<le> 0xffff then 3 else 4)"

definition byte_at :: "string \<Rightarrow> int \<Rightarrow> int res" where
  "byte_at s i = (if 0 \<le> i \<and> i < int (length s) then Inr (int (of_char (s ! nat i))) else Inl OutOfRange)"

text \<open>All but the last trail byte: whether they are valid, the bits so far and the new offset.\<close>

definition fetch_middle :: "string \<Rightarrow> int \<Rightarrow> int \<Rightarrow> int \<Rightarrow> (bool \<times> int \<times> int) res" where
  "fetch_middle s i len c =
     (if c \<ge> 0xe0 then
        rbind
         (if c < 0xf0 then
            rbind (byte_at s i) (\<lambda>t.
              let lead = c AND 0xf in
              Inr (CBU8_LEAD3_T1_BITS ! nat lead AND push_bit (nat (drop_bit 5 t)) 1 \<noteq> 0, lead, t AND 0x3f, i))
          else
            let c = c - 0xf0 in
            if \<not> c \<le> 4 then Inr (False, c, 0, i)
            else rbind (byte_at s i) (\<lambda>t.
              if CBU8_LEAD4_T1_BITS ! nat (drop_bit 4 t) AND push_bit (nat c) 1 = 0 then Inr (False, c, t, i)
              else let c = push_bit 6 c OR (t AND 0x3f); i = i + 1 in
                if i = len then Inr (False, c, t, i)
                else rbind (byte_at s i) (\<lambda>b. let t = cast UInt8 (b - 0x80) in Inr (t \<le> 0x3f, c, t, i))))
         (\<lambda>(ok, c, t, i).
           if \<not> ok then Inr (False, c, i)
           else let c = push_bit 6 c OR t; i = i + 1 in Inr (i \<noteq> len, c, i))
      else Inr (c \<ge> 0xc2, c AND 0x1f, i))"

definition CBU8_INTERNAL_NEXT_OR_SUB :: "string \<Rightarrow> int \<Rightarrow> int \<Rightarrow> int \<Rightarrow> (int \<times> int) res" where
  "CBU8_INTERNAL_NEXT_OR_SUB s i len sub =
     rbind (byte_at s i) (\<lambda>c.
      let i = i + 1 in
      if CBU8_IS_SINGLE c then Inr (c, i)
      else if i = len then Inr (sub, i)
      else rbind (fetch_middle s i len c) (\<lambda>(ok, c, i).
        if \<not> ok then Inr (sub, i)
        else rbind (byte_at s i) (\<lambda>b.
          let t = cast UInt8 (b - 0x80) in
          if t \<le> 0x3f then Inr (push_bit 6 c OR t, i + 1) else Inr (sub, i))))"

definition CBU8_NEXT :: "string \<Rightarrow> int \<Rightarrow> int \<Rightarrow> (int \<times> int) res" where
  "CBU8_NEXT s i len = CBU8_INTERNAL_NEXT_OR_SUB s i len CBU_SENTINEL"

definition byte_char :: "int \<Rightarrow> char" where
  "byte_char v = char_of (nat (cast UInt8 v))"

text \<open>The bytes that are written, in order.\<close>

definition CBU8_APPEND_UNSAFE :: "int \<Rightarrow> string" where
  "CBU8_APPEND_UNSAFE c =
     (let uc = cast UInt32 c in
      if uc \<le> 0x7f then [byte_char uc]
      else
        (if uc \<le> 0x7ff then [byte_char (drop_bit 6 uc OR 0xc0)]
         else
           (if uc \<le> 0xffff then [byte_char (drop_bit 12 uc OR 0xe0)]
            else [byte_char (drop_bit 18 uc OR 0xf0), byte_char ((drop_bit 12 uc AND 0x3f) OR 0x80)])
           @ [byte_char ((drop_bit 6 uc AND 0x3f) OR 0x80)])
        @ [byte_char ((uc AND 0x3f) OR 0x80)])"

text \<open>The loop of \<open>DoIsStringUTF8\<close>; every round reads at least one byte, so the length is enough fuel.\<close>

fun utf8_loop :: "nat \<Rightarrow> (int \<Rightarrow> bool) \<Rightarrow> string \<Rightarrow> int \<Rightarrow> int \<Rightarrow> bool res" where
  "utf8_loop fuel Validator src src_len char_index =
     (if char_index < src_len then
        case fuel of 0 \<Rightarrow> Inl Diverges
        | Suc fuel \<Rightarrow> rbind (CBU8_NEXT src char_index src_len) (\<lambda>(code_point, char_index).
            if \<not> Validator (cast UInt32 code_point) then Inr False
            else utf8_loop fuel Validator src src_len char_index)
      else Inr True)"

definition DoIsStringUTF8 :: "(int \<Rightarrow> bool) \<Rightarrow> string \<Rightarrow> bool res" where
  "DoIsStringUTF8 Validator str = utf8_loop (length str) Validator str (cast Int32 (int (length str))) 0"

section \<open>UTF-16\<close>

definition CBU16_IS_SINGLE :: "int \<Rightarrow> bool" where
  "CBU16_IS_SINGLE c \<longleftrightarrow> \<not> CBU_IS_SURROGATE c"

definition CBU16_IS_LEAD :: "int \<Rightarrow> bool" where
  "CBU16_IS_LEAD c \<longleftrightarrow> c AND 0xfffffc00 = 0xd800"

definition CBU16_IS_TRAIL :: "int \<Rightarrow> bool" where
  "CBU16_IS_TRAIL c \<longleftrightarrow> c AND 0xfffffc00 = 0xdc00"

definition CBU16_SURROGATE_OFFSET :: int where
  "CBU16_SURROGATE_OFFSET = push_bit 10 0xd800 + 0xdc00 - 0x10000"

definition CBU16_GET_SUPPLEMENTARY :: "int \<Rightarrow> int \<Rightarrow> int" where
  "CBU16_GET_SUPPLEMENTARY lead trail = push_bit 10 lead + trail - CBU16_SURROGATE_OFFSET"

definition CBU16_LENGTH :: "int \<Rightarrow> nat" where
  "CBU16_LENGTH c = (if cast UInt32 c \<le> 0xffff then 1 else 2)"

definition unit_at :: "int list \<Rightarrow> int \<Rightarrow> int res" where
  "unit_at s i = (if 0 \<le> i \<and> i < int (length s) then Inr (s ! nat i) else Inl OutOfRange)"

definition CBU16_GET :: "int list \<Rightarrow> int \<Rightarrow> int \<Rightarrow> int \<Rightarrow> int res" where
  "CBU16_GET s start i len =
     rbind (unit_at s i) (\<lambda>c.
      if \<not> CBU_IS_SURROGATE c then Inr c
      else if CBU_IS_SURROGATE_LEAD c then
        (if i + 1 \<noteq> len then rbind (unit_at s (i + 1)) (\<lambda>c2. Inr (if CBU16_IS_TRAIL c2 then CBU16_GET_SUPPLEMENTARY c c2 else c))
         else Inr c)
      else
        (if i > start then rbind (unit_at s (i - 1)) (\<lambda>c2. Inr (if CBU16_IS_LEAD c2 then CBU16_GET_SUPPLEMENTARY c2 c else c))
         else Inr c))"

definition CBU16_NEXT :: "int list \<Rightarrow> int \<Rightarrow> int \<Rightarrow> (int \<times> int) res" where
  "CBU16_NEXT s i len =
     rbind (unit_at s i) (\<lambda>c. let i = i + 1 in
      if CBU16_IS_LEAD c \<and> i \<noteq> len
      then rbind (unit_at s i) (\<lambda>c2. Inr (if CBU16_IS_TRAIL c2 then (CBU16_GET_SUPPLEMENTARY c c2, i + 1) else (c, i)))
      else Inr (c, i))"

definition CBU16_APPEND_UNSAFE :: "int \<Rightarrow> int list" where
  "CBU16_APPEND_UNSAFE c =
     (if cast UInt32 c \<le> 0xffff then [cast UInt16 c]
      else [cast UInt16 (drop_bit 10 c + 0xd7c0), cast UInt16 ((c AND 0x3ff) OR 0xdc00)])"

definition CBU16_SET_CP_START :: "int list \<Rightarrow> int \<Rightarrow> int \<Rightarrow> int res" where
  "CBU16_SET_CP_START s start i =
     rbind (unit_at s i) (\<lambda>c.
      if CBU16_IS_TRAIL c \<and> i > start
      then rbind (unit_at s (i - 1)) (\<lambda>c2. Inr (if CBU16_IS_LEAD c2 then i - 1 else i))
      else Inr i)"

definition CBU16_PREV :: "int list \<Rightarrow> int \<Rightarrow> int \<Rightarrow> (int \<times> int) res" where
  "CBU16_PREV s start i =
     (let i = i - 1 in
      rbind (unit_at s i) (\<lambda>c.
       if CBU16_IS_TRAIL c \<and> i > start
       then rbind (unit_at s (i - 1)) (\<lambda>c2. Inr (if CBU16_IS_LEAD c2 then (CBU16_GET_SUPPLEMENTARY c2 c, i - 1) else (c, i)))
       else Inr (c, i)))"

definition CBU16_SET_CP_LIMIT :: "int list \<Rightarrow> int \<Rightarrow> int \<Rightarrow> int \<Rightarrow> int res" where
  "CBU16_SET_CP_LIMIT s start i len =
     (if start < i \<and> (i < len \<or> len < 0)
      then rbind (unit_at s (i - 1)) (\<lambda>c.
        if CBU16_IS_LEAD c then rbind (unit_at s i) (\<lambda>c2. Inr (if CBU16_IS_TRAIL c2 then i + 1 else i)) else Inr i)
      else Inr i)"

section \<open>Bits as arithmetic\<close>

lemma shift_or:
  fixes c t :: int
  assumes "0 \<le> t" "t < 2 ^ k" shows "push_bit k c OR t = c * 2 ^ k + t"
proof -
  have "take_bit k t = t" using assms by (simp add: take_bit_int_eq_self)
  then have "\<not> bit (push_bit k c) n \<or> \<not> bit t n" for n by (metis bit_push_bit_iff bit_take_bit_iff linorder_not_le)
  then show ?thesis by (subst disjunctive_add [symmetric]) (auto simp: push_bit_eq_mult)
qed

lemma or_const:
  fixes t :: int
  assumes "0 \<le> t" "t < 2 ^ k" shows "t OR (d * 2 ^ k) = d * 2 ^ k + t"
  using shift_or [OF assms, of d] by (simp add: push_bit_eq_mult or.commute)

lemma or_lead:
  fixes t :: int
  shows "0 \<le> t \<Longrightarrow> t < 32 \<Longrightarrow> t OR 0xc0 = 0xc0 + t" "0 \<le> t \<Longrightarrow> t < 16 \<Longrightarrow> t OR 0xe0 = 0xe0 + t"
    "0 \<le> t \<Longrightarrow> t < 8 \<Longrightarrow> t OR 0xf0 = 0xf0 + t" "0 \<le> t \<Longrightarrow> t < 64 \<Longrightarrow> t OR 0x80 = 0x80 + t"
    "0 \<le> t \<Longrightarrow> t < 1024 \<Longrightarrow> t OR 0xdc00 = 0xdc00 + t"
  using or_const [of t 5 6] or_const [of t 4 14] or_const [of t 3 30] or_const [of t 6 2] or_const [of t 10 55] by simp_all

lemma and_low:
  fixes c :: int
  shows "c AND 0x3f = c mod 64" "c AND 0xf = c mod 16" "c AND 0x1f = c mod 32" "c AND 7 = c mod 8" "c AND 0x3ff = c mod 1024"
  using take_bit_eq_mask [of 6 c] take_bit_eq_mask [of 4 c] take_bit_eq_mask [of 5 c] take_bit_eq_mask [of 3 c]
    take_bit_eq_mask [of 10 c]
  by (simp_all add: take_bit_eq_mod mask_eq_exp_minus_1)

lemma and_high:
  fixes c :: int
  assumes "0 \<le> c" "c < 2 ^ (k + m)" shows "c AND push_bit k (mask m) = c div 2 ^ k * 2 ^ k"
proof -
  have c: "take_bit (k + m) c = c" using assms by (simp add: take_bit_int_eq_self)
  have "c AND push_bit k (mask m) = push_bit k (drop_bit k c)"
  proof (rule bit_eqI)
    fix n
    have "bit c n \<Longrightarrow> n < k + m" by (metis bit_take_bit_iff c)
    then show "bit (c AND push_bit k (mask m)) n \<longleftrightarrow> bit (push_bit k (drop_bit k c)) n"
      by (auto simp: bit_simps)
  qed
  then show ?thesis by (simp add: push_bit_eq_mult drop_bit_eq_div)
qed

lemma div_mult_eq_iff:
  fixes c d q :: int
  assumes "0 < d" shows "c div d * d = q * d \<longleftrightarrow> q * d \<le> c \<and> c < q * d + d"
proof
  assume "c div d * d = q * d"
  then show "q * d \<le> c \<and> c < q * d + d"
    using div_mult_mod_eq [of c d] pos_mod_bound [OF assms, of c] pos_mod_sign [OF assms, of c] by linarith
next
  assume "q * d \<le> c \<and> c < q * d + d"
  then have "c div d = q" by (intro int_div_pos_eq [where r = "c - q * d"]) (auto simp: mult.commute)
  then show "c div d * d = q * d" by simp
qed

lemma surrogate_range:
  assumes "0 \<le> c" "c < 2 ^ 32"
  shows "CBU_IS_SURROGATE c \<longleftrightarrow> 0xd800 \<le> c \<and> c \<le> 0xdfff" "CBU16_IS_LEAD c \<longleftrightarrow> 0xd800 \<le> c \<and> c \<le> 0xdbff"
    "CBU16_IS_TRAIL c \<longleftrightarrow> 0xdc00 \<le> c \<and> c \<le> 0xdfff"
proof -
  have "c AND 0xfffff800 = c div 2048 * 2048" "c AND 0xfffffc00 = c div 1024 * 1024"
    using and_high [of c 11 21] and_high [of c 10 22] assms by (simp_all add: push_bit_eq_mult mask_eq_exp_minus_1)
  then show "CBU_IS_SURROGATE c \<longleftrightarrow> 0xd800 \<le> c \<and> c \<le> 0xdfff" "CBU16_IS_LEAD c \<longleftrightarrow> 0xd800 \<le> c \<and> c \<le> 0xdbff"
    "CBU16_IS_TRAIL c \<longleftrightarrow> 0xdc00 \<le> c \<and> c \<le> 0xdfff"
    using div_mult_eq_iff [of 2048 c 27] div_mult_eq_iff [of 1024 c 54] div_mult_eq_iff [of 1024 c 55]
    by (simp_all add: CBU_IS_SURROGATE_def CBU16_IS_LEAD_def CBU16_IS_TRAIL_def) auto
qed

section \<open>Decoding UTF-8\<close>

abbreviation of_byte :: "char \<Rightarrow> int" where
  "of_byte c \<equiv> int (of_char c)"

lemma of_byte_range: "0 \<le> of_byte c" "of_byte c < 256"
  using nat_of_char_less_256 [of c] by simp_all

lemma byte_char_of: "0 \<le> v \<Longrightarrow> v < 256 \<Longrightarrow> of_byte (byte_char v) = v"
  by (simp add: byte_char_def cast_def)

lemma byte_char_eq: "byte_char (of_byte c) = c"
  by (simp add: byte_char_def cast_def)

lemma trail_value: "0 \<le> b \<Longrightarrow> b < 256 \<Longrightarrow> cast UInt8 (b - 128) = (if 128 \<le> b then b - 128 else b + 128)"
  using int_mod_pos_eq [of "b - 128" 256 "- 1" "b + 128"] by (simp add: cast_def)

lemma trail_mod: "128 \<le> b \<Longrightarrow> b < 192 \<Longrightarrow> b mod 64 = b - (128 :: int)"
  by (rule int_mod_pos_eq [where q = 2]) auto

lemma int_cases16:
  fixes l :: int
  assumes "0 \<le> l" "l < 16" shows "l \<in> {0, 1, 2, 3, 4, 5, 6, 7, 8, 9, 10, 11, 12, 13, 14, 15}"
  using assms by simp presburger

lemma single_iff: "0 \<le> c \<Longrightarrow> c < 256 \<Longrightarrow> CBU8_IS_SINGLE c \<longleftrightarrow> c < 128"
proof -
  assume c: "0 \<le> c" "c < 256"
  have "c AND 0x80 = c div 128 * 128" using and_high [of c 7 1] c by (simp add: push_bit_eq_mult mask_eq_exp_minus_1)
  then show ?thesis using c div_mult_eq_iff [of 128 c 0] by (simp add: CBU8_IS_SINGLE_def)
qed

lemma shifted_bits: "push_bit 4 (1 :: int) = 16" "push_bit 5 (1 :: int) = 32" "push_bit 6 (1 :: int) = 64" "push_bit 7 (1 :: int) = 128"
  "push_bit 1 (1 :: int) = 2" "push_bit 2 (1 :: int) = 4" "push_bit 3 (1 :: int) = 8"
  by (simp_all add: push_bit_eq_mult)

lemma lead3_iff:
  assumes "0 \<le> l" "l < 16" "0 \<le> t" "t < 256"
  shows "CBU8_LEAD3_T1_BITS ! nat l AND push_bit (nat (drop_bit 5 t)) 1 \<noteq> 0 \<longleftrightarrow>
    0x80 \<le> t \<and> t \<le> 0xBF \<and> (l = 0 \<longrightarrow> 0xA0 \<le> t) \<and> (l = 13 \<longrightarrow> t < 0xA0)"
proof -
  have b: "CBU8_LEAD3_T1_BITS ! nat l = (if l = 0 then 0x20 else if l = 13 then 0x10 else 0x30)"
    using int_cases16 [OF assms(1,2)] by (auto simp: CBU8_LEAD3_T1_BITS_def)
  define k where "k = t div 32"
  then have k: "k \<in> {0, 1, 2, 3, 4, 5, 6, 7}" "32 * k \<le> t" "t < 32 * k + 32" using assms(3,4) by auto
  have "drop_bit 5 t = k" by (simp add: k_def drop_bit_eq_div)
  then show ?thesis using k unfolding b by (auto simp: shifted_bits)
qed

lemma lead4_iff:
  assumes "0 \<le> l" "l \<le> 4" "0 \<le> t" "t < 256"
  shows "CBU8_LEAD4_T1_BITS ! nat (drop_bit 4 t) AND push_bit (nat l) 1 \<noteq> 0 \<longleftrightarrow>
    0x80 \<le> t \<and> t \<le> 0xBF \<and> (l = 0 \<longrightarrow> 0x90 \<le> t) \<and> (l = 4 \<longrightarrow> t < 0x90)"
proof -
  define k where "k = t div 16"
  then have k: "k \<in> {0, 1, 2, 3, 4, 5, 6, 7, 8, 9, 10, 11, 12, 13, 14, 15}" "16 * k \<le> t" "t < 16 * k + 16"
    using assms(3,4) int_cases16 [of k] by auto
  have "CBU8_LEAD4_T1_BITS ! nat k = (if k = 8 then 0x1E else if k \<in> {9, 10, 11} then 0x0F else 0)"
    using k(1) by (auto simp: CBU8_LEAD4_T1_BITS_def)
  moreover have "drop_bit 4 t = k" by (simp add: k_def drop_bit_eq_div)
  moreover have "l \<in> {0, 1, 2, 3, 4}" using assms by auto
  ultimately show ?thesis using k(2,3) by (auto simp: shifted_bits)
qed

lemma lead_mod: "0xe0 \<le> b \<Longrightarrow> b < 0xf0 \<Longrightarrow> b mod 16 = b - (0xe0 :: int)" "0xc0 \<le> b \<Longrightarrow> b < 0xe0 \<Longrightarrow> b mod 32 = b - (0xc0 :: int)"
  by (rule int_mod_pos_eq [where q = 14]; simp) (rule int_mod_pos_eq [where q = 6]; simp)

lemma byte_at_append [simp]:
  "byte_at (pre @ x # xs) (int (length pre)) = Inr (of_byte x)"
  "byte_at (pre @ x # y # ys) (int (length pre) + 1) = Inr (of_byte y)"
  "byte_at (pre @ x # y # z # zs) (int (length pre) + 2) = Inr (of_byte z)"
  "byte_at (pre @ x # y # z # w # ws) (int (length pre) + 3) = Inr (of_byte w)"
  "byte_at (pre @ x # y # z # zs) (2 + int (length pre)) = Inr (of_byte z)"
  "byte_at (pre @ x # y # z # w # ws) (3 + int (length pre)) = Inr (of_byte w)"
  by (simp_all add: byte_at_def nat_add_distrib nth_append)

abbreviation next_at :: "string \<Rightarrow> string \<Rightarrow> (int \<times> int) res" where
  "next_at pre xs \<equiv> CBU8_NEXT (pre @ xs) (int (length pre)) (int (length pre + length xs))"

lemma next1: "of_byte x < 128 \<Longrightarrow> next_at pre (x # xs) = Inr (of_byte x, int (length pre) + 1)"
  by (simp add: CBU8_NEXT_def CBU8_INTERNAL_NEXT_OR_SUB_def single_iff of_byte_range Let_def)

lemmas next_simps = CBU8_NEXT_def CBU8_INTERNAL_NEXT_OR_SUB_def fetch_middle_def single_iff of_byte_range Let_def
  trail_value lead_mod trail_mod and_low shift_or

lemma next_bad_lead:
  "128 \<le> of_byte x \<Longrightarrow> of_byte x < 0xc2 \<or> 0xf5 \<le> of_byte x \<Longrightarrow> next_at pre (x # xs) = Inr (CBU_SENTINEL, int (length pre) + 1)"
  by (auto simp: next_simps)

lemma next2:
  assumes "0xc2 \<le> of_byte x" "of_byte x < 0xe0"
  shows "next_at pre [x] = Inr (CBU_SENTINEL, int (length pre) + 1)"
    "next_at pre (x # y # ys) =
      (if 0x80 \<le> of_byte y \<and> of_byte y \<le> 0xBF then Inr ((of_byte x - 0xc0) * 64 + (of_byte y - 0x80), int (length pre) + 2)
       else Inr (CBU_SENTINEL, int (length pre) + 1))"
  using assms by (auto simp: next_simps)

definition valid_t1 :: "int \<Rightarrow> int \<Rightarrow> bool" where
  "valid_t1 lead t \<longleftrightarrow> 0x80 \<le> t \<and> t \<le> 0xBF \<and> (lead = 0xe0 \<longrightarrow> 0xA0 \<le> t) \<and> (lead = 0xed \<longrightarrow> t < 0xA0) \<and>
     (lead = 0xf0 \<longrightarrow> 0x90 \<le> t) \<and> (lead = 0xf4 \<longrightarrow> t < 0x90)"

lemma next3:
  assumes "0xe0 \<le> of_byte x" "of_byte x < 0xf0"
  shows "next_at pre [x] = Inr (CBU_SENTINEL, int (length pre) + 1)"
    "\<not> valid_t1 (of_byte x) (of_byte y) \<Longrightarrow> next_at pre (x # y # ys) = Inr (CBU_SENTINEL, int (length pre) + 1)"
    "valid_t1 (of_byte x) (of_byte y) \<Longrightarrow> next_at pre [x, y] = Inr (CBU_SENTINEL, int (length pre) + 2)"
    "valid_t1 (of_byte x) (of_byte y) \<Longrightarrow> next_at pre (x # y # z # zs) =
      (if 0x80 \<le> of_byte z \<and> of_byte z \<le> 0xBF
       then Inr (((of_byte x - 0xe0) * 64 + (of_byte y - 0x80)) * 64 + (of_byte z - 0x80), int (length pre) + 3)
       else Inr (CBU_SENTINEL, int (length pre) + 2))"
  using assms lead3_iff [of "of_byte x - 0xe0" "of_byte y"] of_byte_range
  by (auto simp: next_simps valid_t1_def)

lemma next4:
  assumes "0xf0 \<le> of_byte x" "of_byte x < 0xf5"
  shows "next_at pre [x] = Inr (CBU_SENTINEL, int (length pre) + 1)"
    "\<not> valid_t1 (of_byte x) (of_byte y) \<Longrightarrow> next_at pre (x # y # ys) = Inr (CBU_SENTINEL, int (length pre) + 1)"
    "valid_t1 (of_byte x) (of_byte y) \<Longrightarrow> next_at pre [x, y] = Inr (CBU_SENTINEL, int (length pre) + 2)"
    "valid_t1 (of_byte x) (of_byte y) \<Longrightarrow> \<not> (0x80 \<le> of_byte z \<and> of_byte z \<le> 0xBF) \<Longrightarrow>
      next_at pre (x # y # z # zs) = Inr (CBU_SENTINEL, int (length pre) + 2)"
    "valid_t1 (of_byte x) (of_byte y) \<Longrightarrow> 0x80 \<le> of_byte z \<Longrightarrow> of_byte z \<le> 0xBF \<Longrightarrow>
      next_at pre [x, y, z] = Inr (CBU_SENTINEL, int (length pre) + 3)"
    "valid_t1 (of_byte x) (of_byte y) \<Longrightarrow> 0x80 \<le> of_byte z \<Longrightarrow> of_byte z \<le> 0xBF \<Longrightarrow> next_at pre (x # y # z # w # ws) =
      (if 0x80 \<le> of_byte w \<and> of_byte w \<le> 0xBF
       then Inr ((((of_byte x - 0xf0) * 64 + (of_byte y - 0x80)) * 64 + (of_byte z - 0x80)) * 64 + (of_byte w - 0x80),
                 int (length pre) + 4)
       else Inr (CBU_SENTINEL, int (length pre) + 3))"
  using assms lead4_iff [of "of_byte x - 0xf0" "of_byte y"] of_byte_range
  by (auto simp: next_simps valid_t1_def)

section \<open>Encoding UTF-8\<close>

lemma encode1: "0 \<le> c \<Longrightarrow> c < 128 \<Longrightarrow> CBU8_APPEND_UNSAFE c = [byte_char c]"
  by (simp add: CBU8_APPEND_UNSAFE_def cast_def)

lemma div64: fixes a b :: int assumes "0 \<le> b" "b < 64" shows "(a * 64 + b) div 64 = a" "(a * 64 + b) mod 64 = b"
  using assms by simp_all

lemma drop6: fixes c :: int shows "drop_bit 6 c = c div 64" "drop_bit 12 c = c div 64 div 64" "drop_bit 18 c = c div 64 div 64 div 64"
  by (simp_all add: drop_bit_eq_div flip: zdiv_zmult2_eq)

lemma encode2:
  assumes "2 \<le> l" "l < 32" "0 \<le> u" "u < 64"
  shows "CBU8_APPEND_UNSAFE (l * 64 + u) = [byte_char (0xc0 + l), byte_char (0x80 + u)]"
proof -
  have "cast UInt32 (l * 64 + u) = l * 64 + u" using assms by (simp add: cast_def)
  then show ?thesis using assms by (simp add: CBU8_APPEND_UNSAFE_def Let_def drop6 and_low div64 or_lead)
qed

lemma encode3:
  assumes "0 \<le> l" "l < 16" "0 \<le> u" "u < 64" "0 \<le> v" "v < 64" "l = 0 \<Longrightarrow> 32 \<le> u"
  shows "CBU8_APPEND_UNSAFE ((l * 64 + u) * 64 + v) = [byte_char (0xe0 + l), byte_char (0x80 + u), byte_char (0x80 + v)]"
proof -
  let ?c = "(l * 64 + u) * 64 + v"
  have c: "0x7ff < ?c" "?c \<le> 0xffff" using assms by (cases "l = 0"; auto)+
  then have "cast UInt32 ?c = ?c" by (simp add: cast_def)
  then show ?thesis using assms c unfolding CBU8_APPEND_UNSAFE_def Let_def drop6 and_low
    by (simp only: div64 or_lead mod_pos_pos_trivial) (simp add: or_lead)
qed

lemma encode4:
  assumes "0 \<le> l" "l \<le> 4" "0 \<le> u" "u < 64" "0 \<le> v" "v < 64" "0 \<le> w" "w < 64" "l = 0 \<Longrightarrow> 16 \<le> u"
  shows "CBU8_APPEND_UNSAFE (((l * 64 + u) * 64 + v) * 64 + w) =
    [byte_char (0xf0 + l), byte_char (0x80 + u), byte_char (0x80 + v), byte_char (0x80 + w)]"
proof -
  let ?c = "((l * 64 + u) * 64 + v) * 64 + w"
  have c: "0xffff < ?c" "?c < 2 ^ 32" using assms by (cases "l = 0"; auto)+
  then have "cast UInt32 ?c = ?c" by (simp add: cast_def)
  then show ?thesis using assms c unfolding CBU8_APPEND_UNSAFE_def Let_def drop6 and_low
    by (simp only: div64 or_lead mod_pos_pos_trivial) (simp add: or_lead)
qed

lemma digits64:
  fixes c :: int obtains a u where "c = a * 64 + u" "0 \<le> u" "u < 64"
  using that [of "c div 64" "c mod 64"] by simp

lemma valid_cases:
  assumes "0 \<le> c" "IsValidCodepoint c"
  obtains (One) "c < 128"
  | (Two) l u where "c = l * 64 + u" "2 \<le> l" "l < 32" "0 \<le> u" "u < 64"
  | (Three) l u v where "c = (l * 64 + u) * 64 + v" "0 \<le> l" "l < 16" "0 \<le> u" "u < 64" "0 \<le> v" "v < 64"
      "valid_t1 (0xe0 + l) (0x80 + u)"
  | (Four) l u v w where "c = ((l * 64 + u) * 64 + v) * 64 + w" "0 \<le> l" "l \<le> 4" "0 \<le> u" "u < 64" "0 \<le> v" "v < 64" "0 \<le> w" "w < 64"
      "valid_t1 (0xf0 + l) (0x80 + u)"
proof -
  obtain a w where w: "c = a * 64 + w" "0 \<le> w" "w < 64" by (rule digits64)
  obtain b v where v: "a = b * 64 + v" "0 \<le> v" "v < 64" by (rule digits64)
  obtain l u where u: "b = l * 64 + u" "0 \<le> u" "u < 64" by (rule digits64)
  have r: "c < 0xD800 \<or> 0xE000 \<le> c \<and> c \<le> 0x10FFFF" using assms by (auto simp: IsValidCodepoint_def)
  consider "c < 128" | "128 \<le> c" "c < 0x800" | "0x800 \<le> c" "c \<le> 0xffff" | "0xffff < c" by linarith
  then show thesis
  proof cases
    case 1
    then show ?thesis by (rule One)
  next
    case 2
    then show ?thesis using Two [of a w] w by auto
  next
    case 3
    then have "0 \<le> b" "b < 16" using w v by auto
    moreover from this have "valid_t1 (0xe0 + b) (0x80 + v)" using 3 r w v by (auto simp: valid_t1_def)
    ultimately show ?thesis using Three [of b v w] w v by auto
  next
    case 4
    then have "0 \<le> l" "l \<le> 4" using w v u r by auto
    moreover from this have "valid_t1 (0xf0 + l) (0x80 + u)" using 4 r w v u by (auto simp: valid_t1_def)
    ultimately show ?thesis using Four [of l u v w] w v u by auto
  qed
qed

lemma next_of_encoded:
  assumes "0 \<le> c" "IsValidCodepoint c"
  shows "next_at pre (CBU8_APPEND_UNSAFE c @ post) = Inr (c, int (length pre) + int (length (CBU8_APPEND_UNSAFE c)))"
  using assms
proof (cases rule: valid_cases)
  case One
  then show ?thesis using next1 [of "byte_char c" pre post] assms(1) by (simp add: encode1 byte_char_of)
next
  case (Two l u)
  then show ?thesis using next2(2) [of "byte_char (0xc0 + l)" pre "byte_char (0x80 + u)" post] by (simp add: encode2 byte_char_of)
next
  case (Three l u v)
  then have "l = 0 \<Longrightarrow> 32 \<le> u" by (simp add: valid_t1_def)
  then have e: "CBU8_APPEND_UNSAFE c = [byte_char (0xe0 + l), byte_char (0x80 + u), byte_char (0x80 + v)]"
    unfolding Three(1) using Three by (intro encode3) auto
  show ?thesis using Three next3(4) [of "byte_char (0xe0 + l)" "byte_char (0x80 + u)" pre "byte_char (0x80 + v)" post]
    unfolding e by (simp add: byte_char_of)
next
  case (Four l u v w)
  then have "l = 0 \<Longrightarrow> 16 \<le> u" by (simp add: valid_t1_def)
  then have e: "CBU8_APPEND_UNSAFE c = [byte_char (0xf0 + l), byte_char (0x80 + u), byte_char (0x80 + v), byte_char (0x80 + w)]"
    unfolding Four(1) using Four by (intro encode4) auto
  show ?thesis
    using Four next4(6) [of "byte_char (0xf0 + l)" "byte_char (0x80 + u)" "byte_char (0x80 + v)" pre "byte_char (0x80 + w)" post]
    unfolding e by (simp add: byte_char_of)
qed

text \<open>What a round of the loop gives: an error, or a code point and its encoding.\<close>

definition next_reads :: "string \<Rightarrow> string \<Rightarrow> bool" where
  "next_reads pre xs \<longleftrightarrow> (\<exists>c n. next_at pre xs = Inr (c, int (length pre) + int n) \<and> 0 < n \<and> n \<le> length xs \<and>
    (c = CBU_SENTINEL \<or> 0 \<le> c \<and> IsValidCodepoint c \<and> take n xs = CBU8_APPEND_UNSAFE c))"

lemma next_reads_error: "next_at pre xs = Inr (CBU_SENTINEL, int (length pre) + int n) \<Longrightarrow> 0 < n \<Longrightarrow> n \<le> length xs \<Longrightarrow> next_reads pre xs"
  unfolding next_reads_def by blast

lemma next_reads_code:
  "next_at pre xs = Inr (c, int (length pre) + int n) \<Longrightarrow> 0 < n \<Longrightarrow> n \<le> length xs \<Longrightarrow> 0 \<le> c \<Longrightarrow> IsValidCodepoint c \<Longrightarrow>
   CBU8_APPEND_UNSAFE c = take n xs \<Longrightarrow> next_reads pre xs"
  unfolding next_reads_def by (rule exI [of _ c], rule exI [of _ n]) simp

lemma reads2:
  assumes "0xc2 \<le> of_byte x" "of_byte x < 0xe0" shows "next_reads pre (x # ys)"
proof (cases ys)
  case Nil
  then show ?thesis using next2(1) [OF assms] by (intro next_reads_error [where n = 1]) simp_all
next
  case (Cons y zs)
  show ?thesis
  proof (cases "0x80 \<le> of_byte y \<and> of_byte y \<le> 0xBF")
    case True
    then show ?thesis using next2(2) [OF assms, of pre y zs] encode2 [of "of_byte x - 0xc0" "of_byte y - 0x80"] assms Cons
      by (intro next_reads_code [where n = 2 and c = "(of_byte x - 0xc0) * 64 + (of_byte y - 0x80)"])
        (simp_all add: byte_char_eq IsValidCodepoint_def)
  next
    case False
    then show ?thesis using next2(2) [OF assms, of pre y zs] Cons by (intro next_reads_error [where n = 1]) auto
  qed
qed

lemma reads3:
  assumes "0xe0 \<le> of_byte x" "of_byte x < 0xf0" shows "next_reads pre (x # ys)"
proof (cases ys)
  case Nil
  then show ?thesis using next3(1) [OF assms] by (intro next_reads_error [where n = 1]) simp_all
next
  case (Cons y zs)
  consider "\<not> valid_t1 (of_byte x) (of_byte y)" | "valid_t1 (of_byte x) (of_byte y)" "zs = []"
    | z ws where "valid_t1 (of_byte x) (of_byte y)" "zs = z # ws" by (meson neq_Nil_conv)
  then show ?thesis
  proof cases
    case 1
    then show ?thesis using next3(2) [OF assms] Cons by (intro next_reads_error [where n = 1]) simp_all
  next
    case 2
    then show ?thesis using next3(3) [OF assms] Cons by (intro next_reads_error [where n = 2]) simp_all
  next
    case 3
    note n = next3(4) [OF assms 3(1), of pre z ws]
    show ?thesis
    proof (cases "0x80 \<le> of_byte z \<and> of_byte z \<le> 0xBF")
      case True
      let ?c = "((of_byte x - 0xe0) * 64 + (of_byte y - 0x80)) * 64 + (of_byte z - 0x80)"
      have v: "0x80 \<le> of_byte y" "of_byte y \<le> 0xBF" "of_byte x = 0xe0 \<Longrightarrow> 0xA0 \<le> of_byte y" "of_byte x = 0xed \<Longrightarrow> of_byte y < 0xA0"
        using 3(1) by (auto simp: valid_t1_def)
      have "IsValidCodepoint ?c"
      proof (cases "of_byte x = 0xed")
        case False
        then consider "of_byte x \<le> 0xec" | "0xee \<le> of_byte x" by linarith
        then show ?thesis using v True assms by cases (auto simp: IsValidCodepoint_def)
      qed (use v True in \<open>auto simp: IsValidCodepoint_def\<close>)
      moreover have "CBU8_APPEND_UNSAFE ?c = [x, y, z]"
        using encode3 [of "of_byte x - 0xe0" "of_byte y - 0x80" "of_byte z - 0x80"] v True assms by (simp add: byte_char_eq)
      moreover have "0 \<le> ?c" using v True assms by auto
      ultimately show ?thesis using n True Cons 3(2) by (intro next_reads_code [where n = 3 and c = ?c]) simp_all
    next
      case False
      then show ?thesis using n Cons 3(2) by (intro next_reads_error [where n = 2]) auto
    qed
  qed
qed

lemma reads4:
  assumes "0xf0 \<le> of_byte x" "of_byte x < 0xf5" shows "next_reads pre (x # ys)"
proof (cases ys)
  case Nil
  then show ?thesis using next4(1) [OF assms] by (intro next_reads_error [where n = 1]) simp_all
next
  case (Cons y zs)
  let ?trail = "\<lambda>z. 0x80 \<le> of_byte z \<and> of_byte z \<le> 0xBF"
  consider "\<not> valid_t1 (of_byte x) (of_byte y)" | "valid_t1 (of_byte x) (of_byte y)" "zs = []"
    | z ws where "valid_t1 (of_byte x) (of_byte y)" "zs = z # ws" "\<not> ?trail z"
    | z where "valid_t1 (of_byte x) (of_byte y)" "zs = [z]" "?trail z"
    | z w ws where "valid_t1 (of_byte x) (of_byte y)" "zs = z # w # ws" "?trail z"
    by (cases zs rule: remdups_adj.cases) blast+
  then show ?thesis
  proof cases
    case 1
    then show ?thesis using next4(2) [OF assms] Cons by (intro next_reads_error [where n = 1]) simp_all
  next
    case 2
    then show ?thesis using next4(3) [OF assms] Cons by (intro next_reads_error [where n = 2]) simp_all
  next
    case 3
    then show ?thesis using next4(4) [OF assms 3(1), of z pre ws] Cons by (intro next_reads_error [where n = 2]) auto
  next
    case 4
    then show ?thesis using next4(5) [OF assms 4(1), of z pre] Cons by (intro next_reads_error [where n = 3]) auto
  next
    case 5
    note n = next4(6) [OF assms 5(1), of z pre w ws]
    show ?thesis
    proof (cases "?trail w")
      case True
      let ?c = "(((of_byte x - 0xf0) * 64 + (of_byte y - 0x80)) * 64 + (of_byte z - 0x80)) * 64 + (of_byte w - 0x80)"
      have v: "0x80 \<le> of_byte y" "of_byte y \<le> 0xBF" "of_byte x = 0xf0 \<Longrightarrow> 0x90 \<le> of_byte y" "of_byte x = 0xf4 \<Longrightarrow> of_byte y < 0x90"
        using 5(1) by (auto simp: valid_t1_def)
      have "0xffff < ?c" using v True 5(3) assms by (cases "of_byte x = 0xf0") auto
      moreover have "?c \<le> 0x10ffff" using v True 5(3) assms by (cases "of_byte x = 0xf4") auto
      moreover have "CBU8_APPEND_UNSAFE ?c = [x, y, z, w]"
        using encode4 [of "of_byte x - 0xf0" "of_byte y - 0x80" "of_byte z - 0x80" "of_byte w - 0x80"] v True 5(3) assms
        by (simp add: byte_char_eq)
      ultimately show ?thesis using n True Cons 5(2,3)
        by (intro next_reads_code [where n = 4 and c = ?c]) (auto simp: IsValidCodepoint_def)
    next
      case False
      then show ?thesis using n Cons 5(2,3) by (intro next_reads_error [where n = 3]) auto
    qed
  qed
qed

lemma next_sound: "xs \<noteq> [] \<Longrightarrow> next_reads pre xs"
proof -
  assume "xs \<noteq> []"
  then obtain x ys where xs: "xs = x # ys" by (meson neq_Nil_conv)
  consider "of_byte x < 128" | "128 \<le> of_byte x" "of_byte x < 0xc2 \<or> 0xf5 \<le> of_byte x" | "0xc2 \<le> of_byte x" "of_byte x < 0xe0"
    | "0xe0 \<le> of_byte x" "of_byte x < 0xf0" | "0xf0 \<le> of_byte x" "of_byte x < 0xf5" by linarith
  then show ?thesis
  proof cases
    case 1
    then show ?thesis using next1 [of x pre ys] encode1 [of "of_byte x"] xs
      by (intro next_reads_code [where n = 1 and c = "of_byte x"]) (simp_all add: IsValidCodepoint_def byte_char_eq)
  next
    case 2
    then show ?thesis using next_bad_lead [of x pre ys] xs by (intro next_reads_error [where n = 1]) simp_all
  qed (use xs reads2 reads3 reads4 in simp_all)
qed

section \<open>Checking UTF-8\<close>

text \<open>The texts that are encodings of code points that the validator admits.\<close>

definition utf8_text :: "(int \<Rightarrow> bool) \<Rightarrow> string \<Rightarrow> bool" where
  "utf8_text V s \<longleftrightarrow> (\<exists>cs. list_all (\<lambda>c. 0 \<le> c \<and> V c) cs \<and> s = concat (map CBU8_APPEND_UNSAFE cs))"

lemma encoded_nonempty: "CBU8_APPEND_UNSAFE c \<noteq> []"
  by (simp add: CBU8_APPEND_UNSAFE_def Let_def)

lemma utf8_text_head:
  assumes V: "\<And>c. 0 \<le> c \<Longrightarrow> V c \<Longrightarrow> IsValidCodepoint c" and "utf8_text V xs" "xs \<noteq> []"
  obtains c ys where "0 \<le> c" "V c" "xs = CBU8_APPEND_UNSAFE c @ ys" "utf8_text V ys"
    "next_at pre xs = Inr (c, int (length pre) + int (length (CBU8_APPEND_UNSAFE c)))"
proof -
  obtain cs where cs: "list_all (\<lambda>c. 0 \<le> c \<and> V c) cs" "xs = concat (map CBU8_APPEND_UNSAFE cs)"
    using assms(2) by (auto simp: utf8_text_def)
  then obtain c ds where "cs = c # ds" using assms(3) by (cases cs) auto
  then show thesis using that [of c "concat (map CBU8_APPEND_UNSAFE ds)"] cs V next_of_encoded [of c pre]
    by (auto simp: utf8_text_def)
qed

lemma utf8_text_Cons: "0 \<le> c \<Longrightarrow> V c \<Longrightarrow> utf8_text V ys \<Longrightarrow> utf8_text V (CBU8_APPEND_UNSAFE c @ ys)"
proof -
  assume c: "0 \<le> c" "V c" "utf8_text V ys"
  then obtain cs where "list_all (\<lambda>c. 0 \<le> c \<and> V c) cs" "ys = concat (map CBU8_APPEND_UNSAFE cs)" by (auto simp: utf8_text_def)
  then show ?thesis using c by (auto simp: utf8_text_def intro!: exI [of _ "c # cs"])
qed

lemma utf8_loop_exact:
  assumes V: "\<And>c. 0 \<le> c \<Longrightarrow> V c \<Longrightarrow> IsValidCodepoint c" and "length xs \<le> fuel"
  shows "utf8_loop fuel V (pre @ xs) (int (length pre + length xs)) (int (length pre)) = Inr (utf8_text V xs)"
  using assms(2)
proof (induction fuel arbitrary: pre xs)
  case 0
  then show ?case by (auto simp: utf8_text_def intro: exI [of _ "[]"])
next
  case (Suc fuel)
  show ?case
  proof (cases "xs = []")
    case True
    then show ?thesis by (auto simp: utf8_text_def intro: exI [of _ "[]"])
  next
    case ne: False
    then obtain c n where n: "next_at pre xs = Inr (c, int (length pre) + int n)" "0 < n" "n \<le> length xs"
      and c: "c = CBU_SENTINEL \<or> 0 \<le> c \<and> IsValidCodepoint c \<and> take n xs = CBU8_APPEND_UNSAFE c"
      using next_sound [OF ne] unfolding next_reads_def by blast
    have lt: "int (length pre) < int (length pre + length xs)" using ne by simp
    show ?thesis
    proof (cases "0 \<le> c \<and> V c")
      case True
      then have id: "cast UInt32 c = c" using V [of c] by (auto simp: cast_def IsValidCodepoint_def)
      have enc: "take n xs = CBU8_APPEND_UNSAFE c" using True c by (auto simp: CBU_SENTINEL_def)
      have "utf8_loop fuel V ((pre @ take n xs) @ drop n xs) (int (length (pre @ take n xs) + length (drop n xs)))
          (int (length (pre @ take n xs))) = Inr (utf8_text V (drop n xs))"
        using Suc.prems n by (intro Suc.IH) simp
      moreover have "utf8_text V (drop n xs) \<longleftrightarrow> utf8_text V xs"
      proof
        assume "utf8_text V (drop n xs)"
        then show "utf8_text V xs" using utf8_text_Cons [of c V "drop n xs"] True enc append_take_drop_id [of n xs] by simp
      next
        assume "utf8_text V xs"
        then obtain d ys where "xs = CBU8_APPEND_UNSAFE d @ ys" "utf8_text V ys"
          "next_at pre xs = Inr (d, int (length pre) + int (length (CBU8_APPEND_UNSAFE d)))"
          using utf8_text_head [OF V _ ne] by metis
        then show "utf8_text V (drop n xs)" using n(1) by auto
      qed
      ultimately show ?thesis using n lt True id by (simp add: ac_simps)
    next
      case False
      have "\<not> V (cast UInt32 c)"
      proof (cases "c = CBU_SENTINEL")
        case True
        then show ?thesis using V [of 4294967295] by (auto simp: CBU_SENTINEL_def cast_def IsValidCodepoint_def)
      next
        case False
        then have "cast UInt32 c = c" using c by (auto simp: cast_def IsValidCodepoint_def)
        then show ?thesis using c False \<open>\<not> (0 \<le> c \<and> V c)\<close> by auto
      qed
      moreover have "\<not> utf8_text V xs" using utf8_text_head [OF V _ ne] n(1) False by (metis Inr_inject prod.inject)
      ultimately show ?thesis using n(1) lt by simp
    qed
  qed
qed

lemma nonchar_and: "IsValidCharacter c \<Longrightarrow> 0 \<le> c \<Longrightarrow> IsValidCodepoint c"
  by (auto simp: IsValidCharacter_def IsValidCodepoint_def)

text \<open>
  C24. \<open>DoIsStringUTF8\<close> returns for every string of less than 2 GiB without reading outside of it, and accepts exactly the encodings of
  sequences of code points that the validator admits.
\<close>

theorem is_string_utf8_exact:
  assumes "V \<in> {IsValidCodepoint, IsValidCharacter}" and "length s < 2 ^ 31"
  shows "DoIsStringUTF8 V s = Inr (utf8_text V s)"
proof -
  have "cast Int32 (int (length s)) = int (length s)" using assms(2) by (simp add: cast_def)
  moreover have "\<And>c. 0 \<le> c \<Longrightarrow> V c \<Longrightarrow> IsValidCodepoint c" using assms(1) nonchar_and by auto
  ultimately show ?thesis using utf8_loop_exact [where V = V and xs = s and fuel = "length s" and pre = "[]"] by (simp add: DoIsStringUTF8_def)
qed

theorem is_string_utf8_exact_witness: "DoIsStringUTF8 IsValidCodepoint (map byte_char [0x41, 0xe2, 0x82, 0xac]) = Inr True"
proof -
  have "map byte_char [0x41, 0xe2, 0x82, 0xac] = concat (map CBU8_APPEND_UNSAFE [0x41, 0x20ac])"
    using encode1 [of 65] encode3 [of 2 2 44] by simp
  then have "utf8_text IsValidCodepoint (map byte_char [0x41, 0xe2, 0x82, 0xac])"
    unfolding utf8_text_def by (intro exI [of _ "[0x41, 0x20ac]"]) (simp add: IsValidCodepoint_def)
  then show ?thesis using is_string_utf8_exact [of IsValidCodepoint "map byte_char [0x41, 0xe2, 0x82, 0xac]"] by simp
qed

text \<open>A string of 2 to 4 GiB is accepted unread: its length is negative as an \<open>int32_t\<close>.\<close>

theorem utf8_long_strings_unread:
  assumes "2 ^ 31 \<le> length s" "length s < 2 ^ 32" shows "DoIsStringUTF8 V s = Inr True"
proof -
  have "cast Int32 (int (length s)) = int (length s) - 2 ^ 32"
    using assms int_mod_pos_eq [where a = "int (length s) + 2 ^ 31" and b = "2 ^ 32" and q = 1 and r = "int (length s) - 2 ^ 31"] by (simp add: cast_def)
  then show ?thesis using assms by (simp add: DoIsStringUTF8_def)
qed

section \<open>Iterating over UTF-16\<close>

text \<open>The code points of a string: a lead and the trail behind it are one, any other unit stands for itself.\<close>

fun pairs16 :: "int list \<Rightarrow> int list" where
  "pairs16 (u # v # us) =
     (if CBU16_IS_LEAD u \<and> CBU16_IS_TRAIL v then CBU16_GET_SUPPLEMENTARY u v # pairs16 us else u # pairs16 (v # us))"
| "pairs16 us = us"

text \<open>The two iterations that the macros are made for; every step moves the offset, so the length is enough fuel.\<close>

fun forward16 :: "nat \<Rightarrow> int list \<Rightarrow> int \<Rightarrow> int list res" where
  "forward16 fuel s i =
     (if i < int (length s) then
        case fuel of 0 \<Rightarrow> Inl Diverges
        | Suc fuel \<Rightarrow> rbind (CBU16_NEXT s i (int (length s))) (\<lambda>(c, j). rbind (forward16 fuel s j) (\<lambda>cs. Inr (c # cs)))
      else Inr [])"

fun backward16 :: "nat \<Rightarrow> int list \<Rightarrow> int \<Rightarrow> int list res" where
  "backward16 fuel s i =
     (if 0 < i then
        case fuel of 0 \<Rightarrow> Inl Diverges
        | Suc fuel \<Rightarrow> rbind (CBU16_PREV s 0 i) (\<lambda>(c, j). rbind (backward16 fuel s j) (\<lambda>cs. Inr (c # cs)))
      else Inr [])"

lemma forward16_step:
  "\<not> i < int (length s) \<Longrightarrow> forward16 fuel s i = Inr []"
  "i < int (length s) \<Longrightarrow> CBU16_NEXT s i (int (length s)) = Inr (c, j) \<Longrightarrow>
   forward16 (Suc fuel) s i = rbind (forward16 fuel s j) (\<lambda>cs. Inr (c # cs))"
  by simp_all

lemma backward16_step:
  "\<not> 0 < i \<Longrightarrow> backward16 fuel s i = Inr []"
  "0 < i \<Longrightarrow> CBU16_PREV s 0 i = Inr (c, j) \<Longrightarrow> backward16 (Suc fuel) s i = rbind (backward16 fuel s j) (\<lambda>cs. Inr (c # cs))"
  by simp_all

declare forward16.simps [simp del] backward16.simps [simp del]

definition is_unit16 :: "int \<Rightarrow> bool" where
  "is_unit16 u \<longleftrightarrow> 0 \<le> u \<and> u < 2 ^ 16"

lemma unit_surrogate:
  assumes "is_unit16 c"
  shows "CBU_IS_SURROGATE c \<longleftrightarrow> 0xd800 \<le> c \<and> c \<le> 0xdfff" "CBU16_IS_LEAD c \<longleftrightarrow> 0xd800 \<le> c \<and> c \<le> 0xdbff"
    "CBU16_IS_TRAIL c \<longleftrightarrow> 0xdc00 \<le> c \<and> c \<le> 0xdfff"
  using surrogate_range [of c] assms by (auto simp: is_unit16_def)

lemma surrogate_half:
  assumes "is_unit16 c"
  shows "CBU16_IS_LEAD c \<longleftrightarrow> CBU_IS_SURROGATE c \<and> CBU_IS_SURROGATE_LEAD c"
    "CBU16_IS_TRAIL c \<longleftrightarrow> CBU_IS_SURROGATE c \<and> \<not> CBU_IS_SURROGATE_LEAD c"
proof -
  have b: "CBU_IS_SURROGATE_LEAD c \<longleftrightarrow> even (c div 1024)"
    using and_exp_eq_0_iff_not_bit [of c 10] by (simp add: CBU_IS_SURROGATE_LEAD_def bit_iff_odd)
  have "c div 1024 = 54" if "0xd800 \<le> c" "c \<le> 0xdbff" using that by (intro int_div_pos_eq [where r = "c - 0xd800"]) auto
  moreover have "c div 1024 = 55" if "0xdc00 \<le> c" "c \<le> 0xdfff" using that by (intro int_div_pos_eq [where r = "c - 0xdc00"]) auto
  ultimately show "CBU16_IS_LEAD c \<longleftrightarrow> CBU_IS_SURROGATE c \<and> CBU_IS_SURROGATE_LEAD c"
    "CBU16_IS_TRAIL c \<longleftrightarrow> CBU_IS_SURROGATE c \<and> \<not> CBU_IS_SURROGATE_LEAD c"
    unfolding unit_surrogate [OF assms] b by (cases "c \<le> 0xdbff"; auto)+
qed

lemma not_lead_and_trail: "is_unit16 c \<Longrightarrow> CBU16_IS_TRAIL c \<Longrightarrow> \<not> CBU16_IS_LEAD c"
  by (simp add: unit_surrogate)

lemma unit_at_append [simp]:
  "unit_at (pre @ x # xs) (int (length pre)) = Inr x"
  "unit_at (pre @ x # y # ys) (int (length pre) + 1) = Inr y"
  by (simp_all add: unit_at_def nat_add_distrib nth_append)

lemma forward16_pairs:
  "length xs \<le> fuel \<Longrightarrow> forward16 fuel (pre @ xs) (int (length pre)) = Inr (pairs16 xs)"
proof (induction xs arbitrary: fuel pre rule: pairs16.induct [case_names pair none unit])
  case (pair u v us)
  then obtain f where f: "fuel = Suc f" by (cases fuel) auto
  show ?case
  proof (cases "CBU16_IS_LEAD u \<and> CBU16_IS_TRAIL v")
    case True
    have "forward16 f ((pre @ [u, v]) @ us) (int (length (pre @ [u, v]))) = Inr (pairs16 us)"
      using True pair.prems f by (intro pair.IH(1)) auto
    moreover have "CBU16_NEXT (pre @ u # v # us) (int (length pre)) (int (length (pre @ u # v # us))) =
        Inr (CBU16_GET_SUPPLEMENTARY u v, int (length (pre @ [u, v])))"
      using True by (simp add: CBU16_NEXT_def)
    ultimately show ?thesis using True f by (simp add: forward16_step(2))
  next
    case False
    have "forward16 f ((pre @ [u]) @ v # us) (int (length (pre @ [u]))) = Inr (pairs16 (v # us))"
      using False pair.prems f by (intro pair.IH(2)) auto
    moreover have "CBU16_NEXT (pre @ u # v # us) (int (length pre)) (int (length (pre @ u # v # us))) = Inr (u, int (length (pre @ [u])))"
      using False by (auto simp: CBU16_NEXT_def Let_def)
    ultimately show ?thesis using False f by (auto simp: forward16_step(2))
  qed
next
  case none
  then show ?case by (simp add: forward16_step(1))
next
  case (unit u)
  then obtain f where f: "fuel = Suc f" by (cases fuel) auto
  moreover have "CBU16_NEXT (pre @ [u]) (int (length pre)) (int (length (pre @ [u]))) = Inr (u, int (length pre) + 1)"
    by (simp add: CBU16_NEXT_def Let_def)
  ultimately show ?case by (simp add: forward16_step)
qed

lemma pairs16_append:
  "(xs \<noteq> [] \<Longrightarrow> ys \<noteq> [] \<Longrightarrow> \<not> (CBU16_IS_LEAD (last xs) \<and> CBU16_IS_TRAIL (hd ys))) \<Longrightarrow> list_all is_unit16 xs \<Longrightarrow>
   pairs16 (xs @ ys) = pairs16 xs @ pairs16 ys"
proof (induction xs rule: pairs16.induct [case_names pair none unit])
  case (pair u v us)
  then show ?case by (cases "us = []") auto
next
  case (unit u)
  then show ?case by (cases ys) auto
qed simp

lemma backward16_pairs:
  "i \<le> length s \<Longrightarrow> list_all is_unit16 s \<Longrightarrow> i \<le> fuel \<Longrightarrow> backward16 fuel s (int i) = Inr (rev (pairs16 (take i s)))"
proof (induction fuel arbitrary: i)
  case (Suc fuel)
  show ?case
  proof (cases i)
    case (Suc j)
    have ja: "j < length s" "list_all is_unit16 (take j s)" using Suc Suc.prems by (auto dest: in_set_takeD simp: list_all_iff)
    have tk: "take i s = take j s @ [s ! j]" using Suc ja by (simp add: take_Suc_conv_app_nth)
    have uj: "unit_at s (int j) = Inr (s ! j)" using ja by (simp add: unit_at_def)
    show ?thesis
    proof (cases "CBU16_IS_TRAIL (s ! j) \<and> 0 < j \<and> CBU16_IS_LEAD (s ! (j - 1))")
      case True
      then obtain k where k: "j = Suc k" by (cases j) auto
      have tj: "take j s = take k s @ [s ! k]" and ua: "list_all is_unit16 (take k s)"
        using k ja by (auto simp: take_Suc_conv_app_nth list_all_iff dest: in_set_takeD)
      have uk: "unit_at s (int k) = Inr (s ! k)" using ja k by (simp add: unit_at_def)
      have pr: "CBU16_PREV s 0 (int i) = Inr (CBU16_GET_SUPPLEMENTARY (s ! k) (s ! j), int k)"
        using True uj uk k Suc by (simp add: CBU16_PREV_def Let_def)
      have ih: "backward16 fuel s (int k) = Inr (rev (pairs16 (take k s)))" using Suc.IH [of k] Suc.prems Suc k by simp
      have "is_unit16 (s ! k)" using Suc.prems(2) ja k by (simp add: list_all_length)
      then have "\<not> CBU16_IS_TRAIL (s ! k)" using True k not_lead_and_trail by auto
      then have "pairs16 (take k s @ [s ! k, s ! j]) = pairs16 (take k s) @ [CBU16_GET_SUPPLEMENTARY (s ! k) (s ! j)]"
        using pairs16_append [of "take k s" "[s ! k, s ! j]"] ua True k by simp
      then show ?thesis using pr ih Suc tk tj by (simp add: backward16_step(2))
    next
      case False
      have pr: "CBU16_PREV s 0 (int i) = Inr (s ! j, int j)"
      proof (cases "CBU16_IS_TRAIL (s ! j) \<and> 0 < j")
        case True
        then obtain k where k: "j = Suc k" by (cases j) auto
        then have "unit_at s (int k) = Inr (s ! k)" using ja by (simp add: unit_at_def)
        then show ?thesis using False True uj k Suc by (simp add: CBU16_PREV_def Let_def)
      qed (use uj Suc in \<open>auto simp: CBU16_PREV_def Let_def\<close>)
      have ih: "backward16 fuel s (int j) = Inr (rev (pairs16 (take j s)))" using Suc.IH [of j] Suc.prems Suc by simp
      have "take j s \<noteq> [] \<Longrightarrow> last (take j s) = s ! (j - 1)" using ja by (simp add: last_conv_nth min_def)
      then have "pairs16 (take j s @ [s ! j]) = pairs16 (take j s) @ [s ! j]"
        using pairs16_append [of "take j s" "[s ! j]"] ja(2) False by auto
      then show ?thesis using pr ih Suc tk by (simp add: backward16_step(2))
    qed
  qed (simp add: backward16_step(1))
qed (simp add: backward16_step(1))

lemma append16_unit: "is_unit16 u \<Longrightarrow> CBU16_APPEND_UNSAFE u = [u]"
  by (simp add: CBU16_APPEND_UNSAFE_def is_unit16_def cast_def)

lemma append16_pair:
  assumes "is_unit16 u" "is_unit16 v" "CBU16_IS_LEAD u" "CBU16_IS_TRAIL v"
  shows "CBU16_APPEND_UNSAFE (CBU16_GET_SUPPLEMENTARY u v) = [u, v]"
proof -
  have r: "0xd800 \<le> u" "u \<le> 0xdbff" "0xdc00 \<le> v" "v \<le> 0xdfff" using assms by (simp_all add: unit_surrogate)
  let ?c = "(u - 0xd7c0) * 1024 + (v - 0xdc00)"
  have c: "CBU16_GET_SUPPLEMENTARY u v = ?c"
    by (simp add: CBU16_GET_SUPPLEMENTARY_def CBU16_SURROGATE_OFFSET_def push_bit_eq_mult)
  have "?c div 1024 = u - 0xd7c0" "?c mod 1024 = v - 0xdc00"
    using r int_div_pos_eq [of ?c 1024 "u - 0xd7c0" "v - 0xdc00"] int_mod_pos_eq [of ?c 1024 "u - 0xd7c0" "v - 0xdc00"] by auto
  moreover have "cast UInt32 ?c = ?c" "0xffff < ?c" using r by (simp_all add: cast_def)
  ultimately show ?thesis using r unfolding CBU16_APPEND_UNSAFE_def c and_low
    by (simp add: drop_bit_eq_div or_lead cast_def)
qed

lemma append16_pairs: "list_all is_unit16 s \<Longrightarrow> concat (map CBU16_APPEND_UNSAFE (pairs16 s)) = s"
  by (induction s rule: pairs16.induct [case_names pair none unit]) (auto simp: append16_unit append16_pair)

text \<open>
  Iterating over any UTF-16 string, with unpaired surrogates or not, ends without a read outside of it; forwards and backwards
  give the same code points, and writing them gives the string again.
\<close>

theorem utf16_iteration:
  assumes "list_all is_unit16 s"
  shows "\<exists>cs. forward16 (length s) s 0 = Inr cs \<and> backward16 (length s) s (int (length s)) = Inr (rev cs) \<and>
    concat (map CBU16_APPEND_UNSAFE cs) = s"
  using forward16_pairs [of s "length s" "[]"] backward16_pairs [of "length s" s "length s"] append16_pairs [OF assms] assms
  by simp

theorem utf16_iteration_witness:
  "\<exists>cs. forward16 4 [0xd83d, 0xd83d, 0xde00, 0xde00] 0 = Inr cs \<and> backward16 4 [0xd83d, 0xd83d, 0xde00, 0xde00] 4 = Inr (rev cs) \<and>
    concat (map CBU16_APPEND_UNSAFE cs) = [0xd83d, 0xd83d, 0xde00, 0xde00]"
  using utf16_iteration [of "[0xd83d, 0xd83d, 0xde00, 0xde00]"] by (simp add: is_unit16_def numeral_eq_Suc)

text \<open>
  Random access: the start of the code point at an offset, the code point itself, its limit, and a forward step from its start
  agree.
\<close>

theorem utf16_random_access:
  assumes "list_all is_unit16 s" and "0 \<le> i" and "i < int (length s)"
  shows "\<exists>j c k. CBU16_SET_CP_START s 0 i = Inr j \<and> CBU16_GET s 0 i (int (length s)) = Inr c \<and>
    CBU16_NEXT s j (int (length s)) = Inr (c, k) \<and> CBU16_SET_CP_LIMIT s 0 (i + 1) (int (length s)) = Inr k \<and> j \<le> i \<and> i < k"
proof -
  have u: "unit_at s n = Inr (s ! nat n)" "is_unit16 (s ! nat n)" if "0 \<le> n" "n < int (length s)" for n
    using that assms(1) by (auto simp: unit_at_def list_all_length nat_less_iff)
  let ?pair = "\<lambda>n. 0 \<le> n \<and> n + 1 < int (length s) \<and> CBU16_IS_LEAD (s ! nat n) \<and> CBU16_IS_TRAIL (s ! nat (n + 1))"
  note defs = CBU16_SET_CP_START_def CBU16_GET_def CBU16_NEXT_def CBU16_SET_CP_LIMIT_def Let_def
  have lead: "CBU16_IS_LEAD (s ! nat n) \<longleftrightarrow> CBU_IS_SURROGATE (s ! nat n) \<and> CBU_IS_SURROGATE_LEAD (s ! nat n)"
    "CBU16_IS_TRAIL (s ! nat n) \<longleftrightarrow> CBU_IS_SURROGATE (s ! nat n) \<and> \<not> CBU_IS_SURROGATE_LEAD (s ! nat n)" if "0 \<le> n" "n < int (length s)" for n
    using surrogate_half [OF u(2) [OF that]] by auto
  have ti: "CBU16_IS_TRAIL (s ! nat i) \<Longrightarrow> \<not> CBU16_IS_LEAD (s ! nat i)" using u(2) [OF assms(2,3)] by (rule not_lead_and_trail)
  consider "?pair i" | "\<not> ?pair i" "?pair (i - 1)" | "\<not> ?pair i" "\<not> ?pair (i - 1)" by blast
  then show ?thesis
  proof cases
    case 1
    then show ?thesis using u [of i] u [of "i + 1"] lead [of i] ti assms(2,3) by (auto simp: defs)
  next
    case 2
    then show ?thesis using u [of i] u [of "i - 1"] lead [of i] ti assms(2,3) by (auto simp: defs)
  next
    case 3
    then show ?thesis using u [of i] u [of "i - 1"] u [of "i + 1"] lead [of i] ti assms(2,3) by (auto simp: defs)
  qed
qed

theorem utf16_random_access_witness:
  "\<exists>j c k. CBU16_SET_CP_START [0xd83d, 0xde00] 0 1 = Inr j \<and> CBU16_GET [0xd83d, 0xde00] 0 1 2 = Inr c \<and>
    CBU16_NEXT [0xd83d, 0xde00] j 2 = Inr (c, k) \<and> CBU16_SET_CP_LIMIT [0xd83d, 0xde00] 0 2 2 = Inr k \<and> j \<le> 1 \<and> 1 < k"
  using utf16_random_access [of "[0xd83d, 0xde00]" 1] by (simp add: is_unit16_def)

section \<open>Classification\<close>

text \<open>The two tests for a character that may appear in text agree, and the length macro is the length of the encoding.\<close>

theorem character_tests_agree: "0 \<le> c \<Longrightarrow> c < 2 ^ 31 \<Longrightarrow> CBU_IS_UNICODE_CHAR c \<longleftrightarrow> IsValidCharacter c"
  by (auto simp: CBU_IS_UNICODE_CHAR_def CBU_IS_UNICODE_NONCHAR_def IsValidCharacter_def cast_def)

theorem utf8_length_exact:
  assumes "0 \<le> c" "IsValidCodepoint c" shows "CBU8_LENGTH c = length (CBU8_APPEND_UNSAFE c)"
proof -
  have "cast UInt32 c = c" using assms by (auto simp: cast_def IsValidCodepoint_def)
  then show ?thesis using assms by (auto simp: CBU8_LENGTH_def CBU8_APPEND_UNSAFE_def IsValidCodepoint_def Let_def)
qed

text \<open>The classification of bytes: a byte is single, a trail, a lead, or never part of a text.\<close>

theorem byte_classes:
  assumes "0 \<le> b" "b < 256"
  shows "CBU8_IS_SINGLE b \<longleftrightarrow> b < 0x80" "CBU8_IS_TRAIL b \<longleftrightarrow> 0x80 \<le> b \<and> b \<le> 0xbf" "CBU8_IS_LEAD b \<longleftrightarrow> 0xc2 \<le> b \<and> b \<le> 0xf4"
proof -
  show "CBU8_IS_SINGLE b \<longleftrightarrow> b < 0x80" using assms by (simp add: single_iff)
  have "cast Int8 b = (if b < 128 then b else b - 256)"
    using assms int_mod_pos_eq [of "b + 128" 256 1 "b - 128"] by (auto simp: cast_def)
  then show "CBU8_IS_TRAIL b \<longleftrightarrow> 0x80 \<le> b \<and> b \<le> 0xbf" using assms by (auto simp: CBU8_IS_TRAIL_def)
  have "cast UInt8 (b - 0xc2) = (if b < 0xc2 then b + 62 else b - 0xc2)"
    using assms int_mod_pos_eq [of "b - 0xc2" 256 "- 1" "b + 62"] by (auto simp: cast_def)
  then show "CBU8_IS_LEAD b \<longleftrightarrow> 0xc2 \<le> b \<and> b \<le> 0xf4" using assms by (auto simp: CBU8_IS_LEAD_def)
qed

text \<open>The two checks of a lead and its first trail byte, as the ranges they stand for.\<close>

theorem lead_and_t1_exact:
  assumes "0 \<le> t" "t < 256"
  shows "0xe0 \<le> b \<Longrightarrow> b < 0xf0 \<Longrightarrow> CBU8_IS_VALID_LEAD3_AND_T1 b t \<longleftrightarrow> valid_t1 b t"
    "0xf0 \<le> b \<Longrightarrow> b < 0xf5 \<Longrightarrow> CBU8_IS_VALID_LEAD4_AND_T1 b t \<longleftrightarrow> valid_t1 b t"
proof -
  show "CBU8_IS_VALID_LEAD3_AND_T1 b t \<longleftrightarrow> valid_t1 b t" if "0xe0 \<le> b" "b < 0xf0"
    using lead3_iff [of "b - 0xe0" t] that assms unfolding CBU8_IS_VALID_LEAD3_AND_T1_def and_low lead_mod(1) [OF that]
    by (auto simp: valid_t1_def)
  show "CBU8_IS_VALID_LEAD4_AND_T1 b t \<longleftrightarrow> valid_t1 b t" if "0xf0 \<le> b" "b < 0xf5"
  proof -
    have "b mod 8 = b - 0xf0" using that by (intro int_mod_pos_eq [where q = 30]) auto
    then show ?thesis using lead4_iff [of "b - 0xf0" t] that assms unfolding CBU8_IS_VALID_LEAD4_AND_T1_def and_low
      by (auto simp: valid_t1_def)
  qed
qed

end
