(* ===== verification/StringAscii.thy ===== *)
theory StringAscii
  imports Utf
begin

text \<open>
  \<open>DoIsStringASCII\<close> of base/strings/string_util_internal.h: a string of \<open>char\<close>, \<open>char16\<close> or \<open>wchar_t\<close> is read in machine words
  where it is aligned. A pointer is the address and the list of the characters from there to the end; a word is read in the byte order
  of the machine, least significant byte first. A read that is not aligned or goes beyond the end is a fault, and so is a
  pointer in front of the array: \<open>room\<close> is the number of characters of the array up to the end of the string.
\<close>

unbundle bit_operations_syntax

section \<open>Definitions\<close>

definition IsMachineWordAligned :: "nat \<Rightarrow> bool" where
  "IsMachineWordAligned p \<longleftrightarrow> p AND (8 - 1) = 0"

definition NonASCIIMasks :: "int list" where
  "NonASCIIMasks = [0, 0x8080808080808080, 0xFF80FF80FF80FF80, 0, 0xFFFFFF80FFFFFF80]"

definition chars_per_word :: "int_type \<Rightarrow> nat" where
  "chars_per_word t = 8 div sizeof t"

text \<open>The value of a machine word that holds some characters.\<close>

fun word_of :: "int_type \<Rightarrow> int list \<Rightarrow> int" where
  "word_of t [] = 0"
| "word_of t (c # cs) = cast (make_unsigned t) c OR push_bit (8 * sizeof t) (word_of t cs)"

definition load_word :: "int_type \<Rightarrow> nat \<Rightarrow> int list \<Rightarrow> int res" where
  "load_word t p xs =
     guardr OutOfRange (IsMachineWordAligned p \<and> chars_per_word t \<le> length xs) (Inr (word_of t (take (chars_per_word t) xs)))"

fun ascii_prologue :: "int_type \<Rightarrow> int \<Rightarrow> nat \<Rightarrow> int list \<Rightarrow> int \<times> nat \<times> int list" where
  "ascii_prologue t bits p [] = (bits, p, [])"
| "ascii_prologue t bits p (c # xs) =
     (if \<not> IsMachineWordAligned p then ascii_prologue t (bits OR cast UInt64 c) (p + sizeof t) xs else (bits, p, c # xs))"

text \<open>Reading \<open>n\<close> words; the loop of a batch and that of the remaining words.\<close>

fun read_words :: "int_type \<Rightarrow> nat \<Rightarrow> int \<Rightarrow> nat \<Rightarrow> int list \<Rightarrow> (int \<times> nat \<times> int list) res" where
  "read_words t 0 bits p xs = Inr (bits, p, xs)"
| "read_words t (Suc n) bits p xs =
     rbind (load_word t p xs) (\<lambda>w. read_words t n (bits OR w) (p + chars_per_word t * sizeof t) (drop (chars_per_word t) xs))"

text \<open>The comparison of the current pointer with \<open>end - k\<close>.\<close>

definition fits_before_end :: "nat \<Rightarrow> nat \<Rightarrow> int list \<Rightarrow> bool res" where
  "fits_before_end room k xs = guardr OutOfRange (k \<le> room) (Inr (k \<le> length xs))"

fun ascii_batches :: "nat \<Rightarrow> int_type \<Rightarrow> nat \<Rightarrow> nat \<Rightarrow> int list \<Rightarrow> (nat \<times> int list) option res" where
  "ascii_batches fuel t room p xs =
     rbind (fits_before_end room (16 * chars_per_word t) xs) (\<lambda>more.
     if more then
        case fuel of 0 \<Rightarrow> Inl Diverges
        | Suc fuel \<Rightarrow> rbind (read_words t 16 0 p xs) (\<lambda>(bits, p, xs).
            if bits AND NonASCIIMasks ! sizeof t \<noteq> 0 then Inr None else ascii_batches fuel t room p xs)
      else Inr (Some (p, xs)))"

fun ascii_words :: "nat \<Rightarrow> int_type \<Rightarrow> nat \<Rightarrow> int \<Rightarrow> nat \<Rightarrow> int list \<Rightarrow> (int \<times> int list) res" where
  "ascii_words fuel t room bits p xs =
     rbind (fits_before_end room (chars_per_word t) xs) (\<lambda>more.
     if more then
        case fuel of 0 \<Rightarrow> Inl Diverges
        | Suc fuel \<Rightarrow> rbind (read_words t 1 bits p xs) (\<lambda>(bits, p, xs). ascii_words fuel t room bits p xs)
      else Inr (bits, xs))"

definition ascii_rest :: "int \<Rightarrow> int list \<Rightarrow> int" where
  "ascii_rest bits xs = foldl (\<lambda>bits c. bits OR cast UInt64 c) bits xs"

text \<open>The string stands behind \<open>before\<close> other characters of its array.\<close>

definition DoIsStringASCII :: "int_type \<Rightarrow> nat \<Rightarrow> nat \<Rightarrow> int list \<Rightarrow> bool res" where
  "DoIsStringASCII t before characters xs =
     (if length xs = 0 then Inr True
      else
        let mask = NonASCIIMasks ! sizeof t; fuel = length xs; room = before + length xs in
        case ascii_prologue t 0 characters xs of (bits, p, xs) \<Rightarrow>
          if bits AND mask \<noteq> 0 then Inr False
          else rbind (ascii_batches fuel t room p xs) (\<lambda>r.
            case r of
              None \<Rightarrow> Inr False
            | Some (p, xs) \<Rightarrow> rbind (ascii_words fuel t room 0 p xs) (\<lambda>(bits, xs). Inr (ascii_rest bits xs AND mask = 0))))"

section \<open>Masks\<close>

definition is_ascii :: "int \<Rightarrow> bool" where
  "is_ascii c \<longleftrightarrow> 0 \<le> c \<and> c < 128"

definition is_char_type :: "int_type \<Rightarrow> bool" where
  "is_char_type t \<longleftrightarrow> t = Int8 \<or> t = UInt16 \<or> t = Int32"

fun mask_of :: "nat \<Rightarrow> nat \<Rightarrow> int" where
  "mask_of w 0 = 0"
| "mask_of w (Suc n) = mask_of w n * 2 ^ w + (2 ^ w - 128)"

lemma split_and:
  fixes u m a b :: int
  assumes "0 \<le> u" "u < 2 ^ w" "0 \<le> m" "m < 2 ^ w"
  shows "(u OR push_bit w a) AND (m OR push_bit w b) = 0 \<longleftrightarrow> u AND m = 0 \<and> a AND b = 0"
proof -
  have u: "bit u n \<Longrightarrow> n < w" for n using assms by (metis bit_take_bit_iff take_bit_int_eq_self)
  have m: "bit m n \<Longrightarrow> n < w" for n using assms by (metis bit_take_bit_iff take_bit_int_eq_self)
  have "(u OR push_bit w a) AND (m OR push_bit w b) = (u AND m) OR push_bit w (a AND b)"
    by (rule bit_eqI) (auto simp: bit_simps dest: u m)
  then show ?thesis unfolding or_eq_0_iff by (simp add: push_bit_eq_mult or_eq_0_iff del: push_bit_and)
qed

abbreviation char_bits :: "int_type \<Rightarrow> nat" where
  "char_bits t \<equiv> 8 * sizeof t"

abbreviation ascii_mask :: "int_type \<Rightarrow> int" where
  "ascii_mask t \<equiv> NonASCIIMasks ! sizeof t"

lemma mask_unroll:
  "mask_of w 2 = (2 ^ w - 128) * (2 ^ w + 1)" "mask_of w 4 = mask_of w 2 * (2 ^ (2 * w) + 1)" "mask_of w 8 = mask_of w 4 * (2 ^ (4 * w) + 1)"
proof -
  have step: "mask_of w (n + m) = mask_of w n * 2 ^ (m * w) + mask_of w m" for n m
    by (induction m) (simp_all add: algebra_simps power_add)
  have "mask_of w (1 + 1) = (2 ^ w - 128) * (2 ^ w + 1)" by (simp add: algebra_simps)
  then show "mask_of w 2 = (2 ^ w - 128) * (2 ^ w + 1)" by (simp only: one_add_one)
  show "mask_of w 4 = mask_of w 2 * (2 ^ (2 * w) + 1)" using step [of 2 2] by (simp add: algebra_simps)
  show "mask_of w 8 = mask_of w 4 * (2 ^ (4 * w) + 1)" using step [of 4 4] by (simp add: algebra_simps)
qed

lemma ascii_mask_eq: "is_char_type t \<Longrightarrow> ascii_mask t = mask_of (char_bits t) (chars_per_word t)"
  by (auto simp: is_char_type_def NonASCIIMasks_def chars_per_word_def mask_unroll)

lemma mask_of_Suc: "7 < w \<Longrightarrow> mask_of w (Suc n) = (2 ^ w - 128) OR push_bit w (mask_of w n)"
proof -
  assume "7 < w"
  then have "(2 :: int) ^ 7 \<le> 2 ^ w" by (intro power_increasing) auto
  then show ?thesis using shift_or [of "2 ^ w - 128" w "mask_of w n"] by (simp add: or.commute)
qed

lemma char_low_bits:
  assumes "is_char_type t" "in_type t c"
  shows "cast (make_unsigned t) c AND (2 ^ char_bits t - 128) = 0 \<longleftrightarrow> is_ascii c"
proof -
  let ?w = "char_bits t" and ?u = "cast (make_unsigned t) c"
  have u: "?u = (if c < 0 then c + 2 ^ ?w else c)"
  proof (cases "c < 0")
    case True
    then have "?u = c mod 2 ^ ?w" "- (2 ^ ?w) < c" using assms by (auto simp: is_char_type_def in_type_def cast_def)
    then show ?thesis using True int_mod_pos_eq [of c "2 ^ ?w" "- 1" "c + 2 ^ ?w"] by simp
  next
    case False
    then show ?thesis using assms by (auto simp: is_char_type_def in_type_def cast_def)
  qed
  have r: "0 \<le> ?u" "?u < 2 ^ ?w" "c < 0 \<Longrightarrow> 128 \<le> ?u" using u assms by (auto simp: is_char_type_def in_type_def)
  have "?u AND push_bit 7 (mask (?w - 7)) = ?u div 2 ^ 7 * 2 ^ 7"
    using r assms(1) by (intro and_high) (auto simp: is_char_type_def)
  moreover have "push_bit 7 (mask (?w - 7)) = (2 ^ ?w - 128 :: int)"
    using assms(1) by (auto simp: is_char_type_def push_bit_eq_mult mask_eq_exp_minus_1)
  ultimately have "?u AND (2 ^ ?w - 128) = 0 \<longleftrightarrow> ?u < 128" using r(1) div_mult_eq_iff [of 128 ?u 0] by auto
  then show ?thesis using u r(3) by (auto simp: is_ascii_def)
qed

lemma char_bits_large: "is_char_type t \<Longrightarrow> 7 < char_bits t" "is_char_type t \<Longrightarrow> 0 < chars_per_word t"
  by (auto simp: is_char_type_def chars_per_word_def)

lemma unsigned_char_range: "is_char_type t \<Longrightarrow> 0 \<le> cast (make_unsigned t) c \<and> cast (make_unsigned t) c < 2 ^ char_bits t"
  by (auto simp: is_char_type_def cast_def)

lemma low_mask_range: "is_char_type t \<Longrightarrow> 0 \<le> (2 ^ char_bits t - 128 :: int) \<and> (2 ^ char_bits t - 128 :: int) < 2 ^ char_bits t"
  by (auto simp: is_char_type_def)

lemma word_ascii:
  assumes "is_char_type t"
  shows "list_all (in_type t) cs \<Longrightarrow> word_of t cs AND mask_of (char_bits t) (length cs) = 0 \<longleftrightarrow> list_all is_ascii cs"
proof (induction cs)
  case (Cons c cs)
  have "word_of t (c # cs) AND mask_of (char_bits t) (length (c # cs)) = 0 \<longleftrightarrow>
      cast (make_unsigned t) c AND (2 ^ char_bits t - 128) = 0 \<and> word_of t cs AND mask_of (char_bits t) (length cs) = 0"
    using split_and [of "cast (make_unsigned t) c" "char_bits t" "2 ^ char_bits t - 128"] unsigned_char_range [OF assms, of c]
      low_mask_range [OF assms] mask_of_Suc [OF char_bits_large(1) [OF assms]] by simp
  then show ?case using Cons char_low_bits [OF assms] by simp
qed simp

lemma char_ascii:
  assumes "is_char_type t" "in_type t c"
  shows "cast UInt64 c AND ascii_mask t = 0 \<longleftrightarrow> is_ascii c"
proof -
  let ?w = "char_bits t"
  obtain n where n: "chars_per_word t = Suc n" using char_bits_large(2) [OF assms(1)] gr0_implies_Suc by blast
  have m: "ascii_mask t = (2 ^ ?w - 128) OR push_bit ?w (mask_of ?w n)"
    using ascii_mask_eq [OF assms(1)] n mask_of_Suc [OF char_bits_large(1) [OF assms(1)]] by simp
  define u where "u = cast UInt64 c"
  have "u = push_bit ?w (drop_bit ?w u) OR take_bit ?w u" by (rule bit_eqI) (auto simp: bit_simps)
  then have d: "u = take_bit ?w u OR push_bit ?w (drop_bit ?w u)" by (simp add: or.commute)
  have t: "take_bit ?w u = cast (make_unsigned t) c"
    using assms(1) by (auto simp: u_def is_char_type_def cast_def take_bit_eq_mod mod_mod_cancel)
  have r: "0 \<le> take_bit ?w u" "take_bit ?w u < 2 ^ ?w" by simp_all
  have "u AND ascii_mask t = 0 \<longleftrightarrow> take_bit ?w u AND (2 ^ ?w - 128) = 0 \<and> drop_bit ?w u AND mask_of ?w n = 0"
    unfolding m using split_and [OF r, of "2 ^ ?w - 128" "drop_bit ?w u" "mask_of ?w n"] low_mask_range [OF assms(1)] d by metis
  moreover have "drop_bit ?w u = 0" if "is_ascii c"
    using that assms(1) by (auto simp: u_def is_ascii_def is_char_type_def cast_def drop_bit_eq_div)
  ultimately show ?thesis using char_low_bits [OF assms] t by (auto simp: u_def)
qed

section \<open>The loops\<close>

lemma or_mask: fixes a b m :: int shows "(a OR b) AND m = 0 \<longleftrightarrow> a AND m = 0 \<and> b AND m = 0"
proof -
  have "(a OR b) AND m = (a AND m) OR (b AND m)" by (rule bit_eqI) (auto simp: bit_simps)
  then show ?thesis by (simp add: or_eq_0_iff)
qed

lemma aligned_iff: "IsMachineWordAligned p \<longleftrightarrow> p mod 8 = 0"
  using take_bit_eq_mask [of 3 p] by (simp add: IsMachineWordAligned_def take_bit_eq_mod mask_eq_exp_minus_1)

lemma aligned_word: "is_char_type t \<Longrightarrow> IsMachineWordAligned (p + chars_per_word t * sizeof t) = IsMachineWordAligned p"
  by (auto simp: aligned_iff is_char_type_def chars_per_word_def)

text \<open>Reading from \<open>xs\<close> to \<open>ys\<close> turns \<open>a\<close> into \<open>b\<close>: the mask finds the characters in between that are not ASCII.\<close>

definition ascii_read :: "int_type \<Rightarrow> int \<Rightarrow> int list \<Rightarrow> int \<Rightarrow> int list \<Rightarrow> bool" where
  "ascii_read t a xs b ys \<longleftrightarrow>
     (\<exists>zs. xs = zs @ ys \<and> (b AND ascii_mask t = 0 \<longleftrightarrow> a AND ascii_mask t = 0 \<and> list_all is_ascii zs))"

lemma ascii_read_refl: "ascii_read t a xs a xs"
  by (simp add: ascii_read_def)

lemma ascii_read_trans: "ascii_read t a xs b ys \<Longrightarrow> ascii_read t b ys c zs \<Longrightarrow> ascii_read t a xs c zs"
  unfolding ascii_read_def by (metis append.assoc list_all_append)

lemma ascii_read_char: "is_char_type t \<Longrightarrow> in_type t c \<Longrightarrow> ascii_read t a (c # xs) (a OR cast UInt64 c) xs"
  unfolding ascii_read_def by (intro exI [of _ "[c]"]) (simp add: or_mask char_ascii)

lemma ascii_read_in_type: "ascii_read t a xs b ys \<Longrightarrow> list_all (in_type t) xs \<Longrightarrow> list_all (in_type t) ys"
  unfolding ascii_read_def by auto

lemma prologue_reads:
  assumes "is_char_type t"
  shows "list_all (in_type t) xs \<Longrightarrow> ascii_prologue t a p xs = (b, q, ys) \<Longrightarrow> ascii_read t a xs b ys \<and> (ys = [] \<or> IsMachineWordAligned q)"
proof (induction xs arbitrary: a p)
  case (Cons c xs)
  show ?case
  proof (cases "IsMachineWordAligned p")
    case True
    then show ?thesis using Cons.prems by (auto simp: ascii_read_refl)
  next
    case False
    then have "ascii_read t (a OR cast UInt64 c) xs b ys \<and> (ys = [] \<or> IsMachineWordAligned q)"
      using Cons.prems by (intro Cons.IH) auto
    then show ?thesis using ascii_read_trans [OF ascii_read_char [OF assms]] Cons.prems(1) by fastforce
  qed
qed (auto simp: ascii_read_refl)

lemma read_words_reads:
  assumes "is_char_type t"
  shows "list_all (in_type t) xs \<Longrightarrow> IsMachineWordAligned p \<Longrightarrow> n * chars_per_word t \<le> length xs \<Longrightarrow>
    \<exists>b q. read_words t n a p xs = Inr (b, q, drop (n * chars_per_word t) xs) \<and>
      ascii_read t a xs b (drop (n * chars_per_word t) xs) \<and> IsMachineWordAligned q"
proof (induction n arbitrary: a p xs)
  case (Suc n)
  let ?k = "chars_per_word t"
  let ?w = "word_of t (take ?k xs)"
  have l: "load_word t p xs = Inr ?w" using Suc.prems by (simp add: load_word_def)
  have ty: "list_all (in_type t) (take ?k xs)" "list_all (in_type t) (drop ?k xs)"
    using Suc.prems(1) by (metis append_take_drop_id list_all_append)+
  have "?w AND ascii_mask t = 0 \<longleftrightarrow> list_all is_ascii (take ?k xs)"
  proof -
    have "length (take ?k xs) = ?k" using Suc.prems(3) by simp
    then show ?thesis using word_ascii [OF assms ty(1)] ascii_mask_eq [OF assms] by metis
  qed
  then have rd: "ascii_read t a xs (a OR ?w) (drop ?k xs)" unfolding ascii_read_def by (intro exI [of _ "take ?k xs"]) (simp add: or_mask)
  have "n * ?k \<le> length (drop ?k xs)" using Suc.prems(3) by (simp add: le_diff_conv2)
  then obtain b q where b: "read_words t n (a OR ?w) (p + ?k * sizeof t) (drop ?k xs) = Inr (b, q, drop (n * ?k) (drop ?k xs))"
      "ascii_read t (a OR ?w) (drop ?k xs) b (drop (n * ?k) (drop ?k xs))" "IsMachineWordAligned q"
    using Suc.IH [of "drop ?k xs" "p + ?k * sizeof t" "a OR ?w"] Suc.prems(2) ty(2) aligned_word [OF assms, of p] by blast
  moreover have "drop (n * ?k) (drop ?k xs) = drop (Suc n * ?k) xs" by (simp add: add.commute)
  ultimately show ?case using l ascii_read_trans [OF rd b(2)] by (intro exI [of _ b] exI [of _ q]) simp
qed (simp add: ascii_read_refl)

declare ascii_batches.simps [simp del] ascii_words.simps [simp del]

lemma batches_read:
  assumes "is_char_type t" and room: "16 * chars_per_word t \<le> room"
  shows "list_all (in_type t) xs \<Longrightarrow> xs = [] \<or> IsMachineWordAligned p \<Longrightarrow> length xs \<le> fuel \<Longrightarrow>
    (ascii_batches fuel t room p xs = Inr None \<and> \<not> list_all is_ascii xs) \<or>
    (\<exists>q ys. ascii_batches fuel t room p xs = Inr (Some (q, ys)) \<and> ascii_read t 0 xs 0 ys \<and> (ys = [] \<or> IsMachineWordAligned q) \<and>
       length ys \<le> length xs)"
proof (induction fuel arbitrary: p xs)
  case 0
  then show ?case using room char_bits_large(2) [OF assms(1)] by (subst ascii_batches.simps) (simp add: fits_before_end_def ascii_read_refl)
next
  case (Suc fuel)
  let ?n = "16 * chars_per_word t"
  show ?case
  proof (cases "?n \<le> length xs")
    case False
    then have "ascii_batches (Suc fuel) t room p xs = Inr (Some (p, xs))" using room by (subst ascii_batches.simps) (simp add: fits_before_end_def)
    then show ?thesis using Suc.prems(2) ascii_read_refl by auto
  next
    case True
    then have pos: "0 < ?n" "xs \<noteq> []" using char_bits_large(2) [OF assms(1)] by auto
    then obtain b q where b: "read_words t 16 0 p xs = Inr (b, q, drop ?n xs)" "ascii_read t 0 xs b (drop ?n xs)" "IsMachineWordAligned q"
      using read_words_reads [OF assms(1) Suc.prems(1), of p 16 0] Suc.prems(2) True by auto
    then have all: "b AND ascii_mask t = 0 \<longleftrightarrow> list_all is_ascii (take ?n xs)"
      unfolding ascii_read_def by (metis and_zero_eq append_eq_append_conv append_take_drop_id bit.conj_zero_left)
    have st: "ascii_batches (Suc fuel) t room p xs = (if b AND ascii_mask t \<noteq> 0 then Inr None else ascii_batches fuel t room q (drop ?n xs))"
      using True b(1) room by (subst ascii_batches.simps) (simp add: fits_before_end_def)
    show ?thesis
    proof (cases "b AND ascii_mask t = 0")
      case False
      then show ?thesis using st all by (metis append_take_drop_id list_all_append)
    next
      case ok: True
      have rd: "ascii_read t 0 xs 0 (drop ?n xs)" unfolding ascii_read_def using all ok by (intro exI [of _ "take ?n xs"]) simp
      have ty: "list_all (in_type t) (drop ?n xs)" using Suc.prems(1) by (metis append_take_drop_id list_all_append)
      have eq: "ascii_batches (Suc fuel) t room p xs = ascii_batches fuel t room q (drop ?n xs)" using st ok by simp
      have "length (drop ?n xs) \<le> fuel" using Suc.prems(3) pos by auto
      from Suc.IH [OF ty disjI2 [OF b(3)] this]
      consider "ascii_batches fuel t room q (drop ?n xs) = Inr None" "\<not> list_all is_ascii (drop ?n xs)"
        | r ys where "ascii_batches fuel t room q (drop ?n xs) = Inr (Some (r, ys))" "ascii_read t 0 (drop ?n xs) 0 ys"
          "ys = [] \<or> IsMachineWordAligned r" "length ys \<le> length (drop ?n xs)" by blast
      then show ?thesis
      proof cases
        case 1
        then show ?thesis using eq by (metis append_take_drop_id list_all_append)
      next
        case 2
        then show ?thesis using eq ascii_read_trans [OF rd] by simp
      qed
    qed
  qed
qed

lemma words_read:
  assumes "is_char_type t" and room: "chars_per_word t \<le> room"
  shows "list_all (in_type t) xs \<Longrightarrow> xs = [] \<or> IsMachineWordAligned p \<Longrightarrow> length xs \<le> fuel \<Longrightarrow>
    \<exists>b ys. ascii_words fuel t room a p xs = Inr (b, ys) \<and> ascii_read t a xs b ys"
proof (induction fuel arbitrary: a p xs)
  case 0
  then show ?case using room char_bits_large(2) [OF assms(1)] by (subst ascii_words.simps) (simp add: fits_before_end_def ascii_read_refl)
next
  case (Suc fuel)
  let ?k = "chars_per_word t"
  show ?case
  proof (cases "?k \<le> length xs")
    case False
    then have "ascii_words (Suc fuel) t room a p xs = Inr (a, xs)" using room by (subst ascii_words.simps) (simp add: fits_before_end_def)
    then show ?thesis using ascii_read_refl by blast
  next
    case True
    then have pos: "0 < ?k" "xs \<noteq> []" using char_bits_large(2) [OF assms(1)] by auto
    then obtain b q where b: "read_words t 1 a p xs = Inr (b, q, drop ?k xs)" "ascii_read t a xs b (drop ?k xs)" "IsMachineWordAligned q"
      using read_words_reads [OF assms(1) Suc.prems(1), of p 1 a] Suc.prems(2) True unfolding mult_1 by blast
    have "ascii_words (Suc fuel) t room a p xs = ascii_words fuel t room b q (drop ?k xs)"
      using True b(1) room by (subst ascii_words.simps) (simp add: fits_before_end_def del: read_words.simps)
    moreover have "\<exists>c ys. ascii_words fuel t room b q (drop ?k xs) = Inr (c, ys) \<and> ascii_read t b (drop ?k xs) c ys"
      using b(3) ascii_read_in_type [OF b(2) Suc.prems(1)] Suc.prems(3) pos by (intro Suc.IH) auto
    ultimately show ?thesis using ascii_read_trans [OF b(2)] by metis
  qed
qed

lemma rest_read:
  assumes "is_char_type t" shows "list_all (in_type t) xs \<Longrightarrow> ascii_read t a xs (ascii_rest a xs) []"
proof (induction xs arbitrary: a)
  case (Cons c xs)
  then show ?case using ascii_read_trans [OF ascii_read_char [OF assms, of c a xs]] by (simp add: ascii_rest_def)
qed (simp add: ascii_rest_def ascii_read_refl)

lemma ascii_read_all: "ascii_read t 0 xs b [] \<Longrightarrow> b AND ascii_mask t = 0 \<longleftrightarrow> list_all is_ascii xs"
  by (simp add: ascii_read_def)

text \<open>What follows the prologue.\<close>

lemma main_loops_exact:
  assumes "is_char_type t" "16 * chars_per_word t \<le> room" "list_all (in_type t) ys" "ys = [] \<or> IsMachineWordAligned q" "length ys \<le> fuel"
  shows "rbind (ascii_batches fuel t room q ys) (\<lambda>r. case r of None \<Rightarrow> Inr False
      | Some (p, zs) \<Rightarrow> rbind (ascii_words fuel t room 0 p zs) (\<lambda>(bits, zs). Inr (ascii_rest bits zs AND ascii_mask t = 0))) =
    Inr (list_all is_ascii ys)"
proof -
  have room: "chars_per_word t \<le> room" using assms(2) by simp
  from batches_read [OF assms(1,2,3,4,5)]
  consider "ascii_batches fuel t room q ys = Inr None" "\<not> list_all is_ascii ys"
    | u zs where "ascii_batches fuel t room q ys = Inr (Some (u, zs))" "ascii_read t 0 ys 0 zs" "zs = [] \<or> IsMachineWordAligned u"
      "length zs \<le> length ys" by blast
  then show ?thesis
  proof cases
    case b: (2 u zs)
    have tz: "list_all (in_type t) zs" by (rule ascii_read_in_type [OF b(2) assms(3)])
    obtain c vs where w: "ascii_words fuel t room 0 u zs = Inr (c, vs)" "ascii_read t 0 zs c vs"
      using words_read [OF assms(1) room tz b(3), of fuel 0] b(4) assms(5) by auto
    have "ascii_read t c vs (ascii_rest c vs) []" by (rule rest_read [OF assms(1) ascii_read_in_type [OF w(2) tz]])
    then have "ascii_read t 0 ys (ascii_rest c vs) []" using ascii_read_trans [OF b(2) ascii_read_trans [OF w(2)]] by blast
    then show ?thesis using b(1) w(1) ascii_read_all by simp
  qed simp
qed

text \<open>
  C35. \<open>DoIsStringASCII\<close> for all three character types and every alignment. If the array has room for sixteen machine words up to the end of the
  string, it returns whether all characters are ASCII, and words are only read where they are aligned and inside of the
  string. In a shorter array the answer for an ASCII string other than the empty one depends on a pointer in front of the array, which is
  undefined: the end of the string minus sixteen words.
\<close>

theorem is_string_ascii_exact:
  assumes "is_char_type t" and "list_all (in_type t) xs"
  shows "(16 * chars_per_word t \<le> before + length xs \<longrightarrow> DoIsStringASCII t before p xs = Inr (list_all is_ascii xs)) \<and>
    (before + length xs < 16 * chars_per_word t \<and> list_all is_ascii xs \<and> xs \<noteq> [] \<longrightarrow>
       DoIsStringASCII t before p xs = Inl OutOfRange)"
proof (cases "xs = []")
  case False
  obtain a q ys where pr: "ascii_prologue t 0 p xs = (a, q, ys)" by (metis prod_cases3)
  have r: "ascii_read t 0 xs a ys" "ys = [] \<or> IsMachineWordAligned q" using prologue_reads [OF assms pr] by auto
  show ?thesis
  proof (cases "a AND ascii_mask t = 0")
    case bad: False
    then have "\<not> list_all is_ascii xs" using r(1) by (auto simp: ascii_read_def)
    then show ?thesis using bad False pr by (simp add: DoIsStringASCII_def)
  next
    case ok: True
    then have r0: "ascii_read t 0 xs 0 ys" using r(1) by (auto simp: ascii_read_def)
    let ?room = "before + length xs"
    have D: "DoIsStringASCII t before p xs = rbind (ascii_batches (length xs) t ?room q ys) (\<lambda>r. case r of None \<Rightarrow> Inr False
        | Some (p, zs) \<Rightarrow> rbind (ascii_words (length xs) t ?room 0 p zs) (\<lambda>(bits, zs). Inr (ascii_rest bits zs AND ascii_mask t = 0)))"
      using ok False pr by (simp add: DoIsStringASCII_def Let_def)
    show ?thesis
    proof (cases "16 * chars_per_word t \<le> ?room")
      case True
      then show ?thesis using main_loops_exact [OF assms(1) True ascii_read_in_type [OF r(1) assms(2)] r(2), of "length xs"] D r0 r(1)
        by (auto simp: ascii_read_def)
    next
      case small: False
      then show ?thesis using D by (subst (asm) ascii_batches.simps) (simp add: fits_before_end_def)
    qed
  qed
qed (simp add: DoIsStringASCII_def)

theorem is_string_ascii_exact_witness:
  "DoIsStringASCII Int8 0 3 (replicate 150 65 @ [- 61]) = Inr False \<and> DoIsStringASCII Int8 0 3 [65, 66] = Inl OutOfRange"
  using is_string_ascii_exact [of Int8 "replicate 150 65 @ [- 61]" 0 3] is_string_ascii_exact [of Int8 "[65, 66]" 0 3]
  by (simp add: is_char_type_def in_type_def list_all_iff is_ascii_def chars_per_word_def)

end
