(* ===== verification/LinkedList.thy ===== *)
theory LinkedList
  imports Prelude
begin

text \<open>
  base/containers/linked_list.h: nodes with two pointers on a heap, and the list whose root closes a ring. The header
  declares the surgery on the pointers; its code is in the compiled library, so that the four operations are a record
  \<open>link_lib\<close>, with what their comments promise as the locale \<open>link_nodes\<close>, interpreted on pointer surgery.
\<close>

section \<open>Nodes\<close>

type_synonym addr = nat

record link_node =
  prev_ptr :: "addr option"
  next_ptr :: "addr option"

type_synonym links = "addr \<Rightarrow> link_node"

definition LinkNode :: link_node where
  "LinkNode = \<lparr>prev_ptr = None, next_ptr = None\<rparr>"

record link_lib =
  NewNode :: "links \<Rightarrow> addr \<Rightarrow> addr \<Rightarrow> addr \<Rightarrow> links"
  InsertBeforeBase :: "links \<Rightarrow> addr \<Rightarrow> addr \<Rightarrow> links"
  InsertAfterBase :: "links \<Rightarrow> addr \<Rightarrow> addr \<Rightarrow> links"
  RemoveFromList :: "links \<Rightarrow> addr \<Rightarrow> links"

definition previous_base :: "links \<Rightarrow> addr \<Rightarrow> addr option" where
  "previous_base h n = prev_ptr (h n)"

definition next_base :: "links \<Rightarrow> addr \<Rightarrow> addr option" where
  "next_base h n = next_ptr (h n)"

definition InsertBefore :: "link_lib \<Rightarrow> links \<Rightarrow> addr \<Rightarrow> addr \<Rightarrow> links" where
  "InsertBefore L h n e = InsertBeforeBase L h n e"

definition InsertAfter :: "link_lib \<Rightarrow> links \<Rightarrow> addr \<Rightarrow> addr \<Rightarrow> links" where
  "InsertAfter L h n e = InsertAfterBase L h n e"

definition node_previous :: "links \<Rightarrow> addr \<Rightarrow> addr option" where
  "node_previous h n = previous_base h n"

definition node_next :: "links \<Rightarrow> addr \<Rightarrow> addr option" where
  "node_next h n = next_base h n"

section \<open>The list\<close>

definition LinkedList_new :: "link_lib \<Rightarrow> links \<Rightarrow> addr \<Rightarrow> links" where
  "LinkedList_new L h root = NewNode L h root root root"

definition ll_Append :: "link_lib \<Rightarrow> links \<Rightarrow> addr \<Rightarrow> addr \<Rightarrow> links" where
  "ll_Append L h root e = InsertBefore L h e root"

definition ll_head :: "links \<Rightarrow> addr \<Rightarrow> addr option" where
  "ll_head h root = node_next h root"

definition ll_tail :: "links \<Rightarrow> addr \<Rightarrow> addr option" where
  "ll_tail h root = node_previous h root"

definition ll_end :: "addr \<Rightarrow> addr" where
  "ll_end root = root"

definition ll_empty :: "links \<Rightarrow> addr \<Rightarrow> bool" where
  "ll_empty h root \<longleftrightarrow> ll_head h root = Some (ll_end root)"

lemmas ll_defs = LinkedList_new_def ll_Append_def ll_head_def ll_tail_def ll_end_def ll_empty_def node_previous_def
  node_next_def InsertBefore_def InsertAfter_def next_base_def previous_base_def

section \<open>Rings\<close>

text \<open>The nodes \<open>xs\<close> are linked in both directions between \<open>a\<close> and \<open>b\<close>.\<close>

fun chain :: "links \<Rightarrow> addr \<Rightarrow> addr list \<Rightarrow> addr \<Rightarrow> bool" where
  "chain h a [] b \<longleftrightarrow> next_ptr (h a) = Some b \<and> prev_ptr (h b) = Some a"
| "chain h a (x # xs) b \<longleftrightarrow> next_ptr (h a) = Some x \<and> prev_ptr (h x) = Some a \<and> chain h x xs b"

definition ring :: "links \<Rightarrow> addr \<Rightarrow> addr list \<Rightarrow> bool" where
  "ring h root xs \<longleftrightarrow> distinct (root # xs) \<and> chain h root xs root"

text \<open>Where the comments say that a node goes: in front of the node \<open>e\<close>, or behind it.\<close>

fun put_before :: "addr \<Rightarrow> addr \<Rightarrow> addr list \<Rightarrow> addr list" where
  "put_before n e [] = [n]"
| "put_before n e (x # xs) = (if x = e then n # x # xs else x # put_before n e xs)"

fun put_after :: "addr \<Rightarrow> addr \<Rightarrow> addr list \<Rightarrow> addr list" where
  "put_after n e [] = []"
| "put_after n e (x # xs) = (if x = e then x # n # xs else x # put_after n e xs)"

lemma put_before_absent: "e \<notin> set xs \<Longrightarrow> put_before n e xs = xs @ [n]"
  by (induction xs) auto

locale link_nodes =
  fixes L :: link_lib
  assumes new_node: "NewNode L h n p q = h(n := \<lparr>prev_ptr = Some p, next_ptr = Some q\<rparr>)"
    and insert_before: "ring h root xs \<Longrightarrow> n \<notin> set (root # xs) \<Longrightarrow> e \<in> set (root # xs) \<Longrightarrow>
      ring (InsertBeforeBase L h n e) root (put_before n e xs)"
    and insert_after: "ring h root xs \<Longrightarrow> n \<notin> set (root # xs) \<Longrightarrow> e \<in> set (root # xs) \<Longrightarrow>
      ring (InsertAfterBase L h n e) root (tl (put_after n e (root # xs)))"
    and remove_node: "ring h root xs \<Longrightarrow> n \<in> set xs \<Longrightarrow> ring (RemoveFromList L h n) root (remove1 n xs)"
begin

lemma new_ring: "ring (LinkedList_new L h root) root []"
  by (simp add: LinkedList_new_def new_node ring_def)

lemma append_ring: "ring h root xs \<Longrightarrow> n \<notin> set (root # xs) \<Longrightarrow> ring (ll_Append L h root n) root (xs @ [n])"
  using insert_before [of h root xs n root] put_before_absent [of root xs n] by (simp add: ll_defs ring_def)

end

lemma chain_last: "chain h a xs b \<Longrightarrow> prev_ptr (h b) = Some (last (a # xs))"
  by (induction xs arbitrary: a) auto

lemma ring_ends:
  assumes "ring h root xs"
  shows "ll_head h root = Some (hd (xs @ [root]))" and "ll_tail h root = Some (last (root # xs))"
  using assms chain_last [of h root xs root] by (cases xs; auto simp: ring_def ll_defs)+

lemma ring_empty: "ring h root xs \<Longrightarrow> ll_empty h root \<longleftrightarrow> xs = []"
  by (cases xs) (auto simp: ll_empty_def ll_end_def ring_ends(1), simp add: ring_def)

text \<open>A ring has one node next to the root at most exactly if its head is its tail.\<close>

lemma ring_single:
  assumes "ring h root xs" shows "ll_head h root = ll_tail h root \<longleftrightarrow> length xs \<le> 1"
proof (cases xs)
  case (Cons y ys)
  then have "last ys \<noteq> y" if "ys \<noteq> []" using assms that by (auto simp: ring_def dest: last_in_set)
  then show ?thesis using Cons by (simp add: ring_ends [OF assms]) metis
qed (simp add: ring_ends [OF assms])

section \<open>Surgery on the pointers\<close>

definition set_next :: "links \<Rightarrow> addr \<Rightarrow> addr option \<Rightarrow> links" where
  "set_next h n q = h(n := (h n)\<lparr>next_ptr := q\<rparr>)"

definition set_previous :: "links \<Rightarrow> addr \<Rightarrow> addr option \<Rightarrow> links" where
  "set_previous h n p = h(n := (h n)\<lparr>prev_ptr := p\<rparr>)"

text \<open>Two neighbours, linked.\<close>

definition link2 :: "links \<Rightarrow> addr \<Rightarrow> addr \<Rightarrow> links" where
  "link2 h a b = set_previous (set_next h a (Some b)) b (Some a)"

definition std_links :: link_lib where
  "std_links = \<lparr>
     NewNode = (\<lambda>h n p q. h(n := \<lparr>prev_ptr = Some p, next_ptr = Some q\<rparr>)),
     InsertBeforeBase = (\<lambda>h n e. link2 (link2 h (the (prev_ptr (h e))) n) n e),
     InsertAfterBase = (\<lambda>h n e. link2 (link2 h n (the (next_ptr (h e)))) e n),
     RemoveFromList = (\<lambda>h n. (link2 h (the (prev_ptr (h n))) (the (next_ptr (h n))))(n := LinkNode))\<rparr>"

lemma chain_append: "chain h a (xs @ y # ys) b \<longleftrightarrow> chain h a xs y \<and> chain h y ys b"
  by (induction xs arbitrary: a) auto

text \<open>A chain only depends on the next pointers of its nodes but the last and the previous pointers of those but the first.\<close>

lemma chain_cong:
  "(\<And>x. x \<in> set (a # xs) \<Longrightarrow> next_ptr (g x) = next_ptr (h x)) \<Longrightarrow> (\<And>x. x \<in> set (xs @ [b]) \<Longrightarrow> prev_ptr (g x) = prev_ptr (h x)) \<Longrightarrow>
   chain g a xs b = chain h a xs b"
  by (induction xs arbitrary: a) auto

lemma link2_get [simp]:
  "next_ptr (link2 h a b x) = (if x = a then Some b else next_ptr (h x))"
  "prev_ptr (link2 h a b x) = (if x = b then Some a else prev_ptr (h x))"
  by (auto simp: link2_def set_next_def set_previous_def)

text \<open>A ring seen from two neighbours: cut between them, it is a chain.\<close>

lemma ring_cut:
  assumes "ring h root xs" "e \<in> set xs"
  obtains ys zs where "xs = ys @ e # zs" "chain h root ys e" "chain h e zs root" "distinct (root # ys @ e # zs)"
    "put_before n e xs = ys @ n # e # zs" "tl (put_after n e (root # xs)) = ys @ e # n # zs" "remove1 e xs = ys @ zs"
proof -
  obtain ys zs where x: "xs = ys @ e # zs" "e \<notin> set ys" by (meson assms(2) split_list_first)
  have "put_before n e (ys @ e # zs) = ys @ n # e # zs" "put_after n e (ys @ e # zs) = ys @ e # n # zs"
    using x(2) by (induction ys) auto
  moreover have "root \<noteq> e" using assms by (auto simp: ring_def)
  ultimately show ?thesis using that [OF x(1)] assms x by (simp add: ring_def chain_append remove1_append)
qed



text \<open>Another node at the end of a chain, or in front of it.\<close>

lemma chain_end:
  "chain h a ys b \<Longrightarrow> (\<And>x. x \<in> set (butlast (a # ys)) \<Longrightarrow> next_ptr (g x) = next_ptr (h x)) \<Longrightarrow>
   (\<And>x. x \<in> set ys \<Longrightarrow> prev_ptr (g x) = prev_ptr (h x)) \<Longrightarrow>
   next_ptr (g (last (a # ys))) = Some n \<Longrightarrow> prev_ptr (g n) = Some (last (a # ys)) \<Longrightarrow> chain g a ys n"
  by (induction ys arbitrary: a) auto

lemma chain_start:
  assumes "chain h a ys b" "\<And>x. x \<in> set ys \<Longrightarrow> next_ptr (g x) = next_ptr (h x)"
    "\<And>x. x \<in> set (tl (ys @ [b])) \<Longrightarrow> prev_ptr (g x) = prev_ptr (h x)"
    "next_ptr (g n) = Some (hd (ys @ [b]))" "prev_ptr (g (hd (ys @ [b]))) = Some n"
  shows "chain g n ys b"
proof (cases ys)
  case (Cons z zs)
  then have "chain g z zs b = chain h z zs b" using assms(2,3) by (intro chain_cong) auto
  then show ?thesis using assms Cons by simp
qed (use assms in simp)

lemma last_fresh: "distinct (a # ys) \<Longrightarrow> x \<in> set (butlast (a # ys)) \<Longrightarrow> x \<noteq> last (a # ys)"
  by (metis append_butlast_last_id distinct_append list.distinct(1) list.set_intros(1) disjoint_iff)

lemma butlast_mem: "x \<in> set (butlast (a # ys)) \<Longrightarrow> x = a \<or> x \<in> set ys"
  by (metis in_set_butlastD set_ConsD)

lemma chain_hd: "chain h a xs b \<Longrightarrow> next_ptr (h a) = Some (hd (xs @ [b]))"
  by (cases xs) auto

lemma insert_before_chain:
  assumes "chain h a ys e" "distinct (a # ys)" "e \<notin> set ys" "n \<notin> set (e # a # ys)"
  shows "chain (link2 (link2 h (last (a # ys)) n) n e) a (ys @ [n]) e"
proof -
  have "last (a # ys) \<noteq> n" using assms(4) by (metis last_in_set list.distinct(1) list.set_intros(2))
  then have "chain (link2 (link2 h (last (a # ys)) n) n e) a ys n"
    using assms last_fresh [OF assms(2)] butlast_mem [of _ a ys]
    by (intro chain_end [OF assms(1)]) (auto simp del: last.simps butlast.simps)
  then show ?thesis using \<open>last (a # ys) \<noteq> n\<close> assms(4) by (simp add: chain_append del: last.simps)
qed

lemma insert_after_chain:
  assumes "chain h e zs b" "distinct zs" "b \<notin> set zs" "e \<notin> set zs" "n \<notin> set (e # b # zs)"
  shows "chain (link2 (link2 h n (hd (zs @ [b]))) e n) e (n # zs) b"
proof -
  have "n \<noteq> hd (zs @ [b])" using assms(5) by (cases zs) auto
  then have "chain (link2 (link2 h n (hd (zs @ [b]))) e n) n zs b"
    using assms by (intro chain_start [OF assms(1)]) (cases zs; auto)+
  then show ?thesis using assms(5) by simp
qed

lemma remove_chain:
  assumes "chain h a (ys @ n # zs) b" "distinct (a # ys @ n # zs)" "b \<notin> set (ys @ n # zs)"
  shows "chain ((link2 h (last (a # ys)) (hd (zs @ [b])))(n := LinkNode)) a (ys @ zs) b"
proof -
  define g where "g = (link2 h (last (a # ys)) (hd (zs @ [b])))(n := LinkNode)"
  have l: "last (a # ys) \<in> set (a # ys)" by (rule last_in_set) simp
  have y: "chain g a ys (hd (zs @ [b]))"
  proof (rule chain_end)
    show "chain h a ys n" using assms(1) by (simp add: chain_append)
    show "prev_ptr (g x) = prev_ptr (h x)" if "x \<in> set ys" for x using that assms(2,3) by (cases zs) (auto simp: g_def)
    show "next_ptr (g x) = next_ptr (h x)" if x: "x \<in> set (butlast (a # ys))" for x
      using last_fresh [OF _ x] butlast_mem [OF x] assms(2) by (auto simp: g_def simp del: last.simps)
  qed (use l assms(2,3) in \<open>cases zs; auto simp: g_def simp del: last.simps\<close>)+
  show ?thesis
  proof (cases zs)
    case (Cons z us)
    have "chain g z us b = chain h z us b"
      using assms l unfolding Cons by (intro chain_cong) (auto simp: g_def Cons simp del: last.simps)
    then show ?thesis using y assms(1) Cons by (simp add: chain_append g_def)
  qed (use y in \<open>simp add: g_def\<close>)
qed

interpretation std_nodes: link_nodes std_links
proof
  fix h :: links and root n e :: addr and xs :: "addr list"
  assume r: "ring h root xs" and n: "n \<notin> set (root # xs)" and e: "e \<in> set (root # xs)"
  have c: "chain h root xs root" "distinct (root # xs)" using r by (auto simp: ring_def)
  show "ring (InsertBeforeBase std_links h n e) root (put_before n e xs)"
  proof (cases "e = root")
    case True
    then show ?thesis
      using insert_before_chain [OF c(1)] c n chain_last [OF c(1)] put_before_absent [of root xs n] by (simp add: ring_def std_links_def)
  next
    case False
    then have "e \<in> set xs" using e by simp
    then obtain ys zs where x: "xs = ys @ e # zs" "chain h root ys e" "chain h e zs root" "distinct (root # ys @ e # zs)"
      "put_before n e xs = ys @ n # e # zs" by (rule ring_cut [OF r])
    let ?g = "link2 (link2 h (last (root # ys)) n) n e"
    have "chain ?g root (ys @ [n]) e" using insert_before_chain [OF x(2)] x(1,4) n by auto
    moreover have "chain ?g e zs root = chain h e zs root" using x(1,4) n last_in_set [of "root # ys"]
      by (intro chain_cong) (auto simp del: last.simps)
    ultimately show ?thesis using x n chain_last [OF x(2)]
      by (simp add: ring_def std_links_def chain_append del: last.simps)
  qed
  show "ring (InsertAfterBase std_links h n e) root (tl (put_after n e (root # xs)))"
  proof (cases "e = root")
    case True
    then show ?thesis using insert_after_chain [OF c(1)] c n chain_hd [OF c(1)] by (simp add: ring_def std_links_def)
  next
    case False
    then have "e \<in> set xs" using e by simp
    then obtain ys zs where x: "xs = ys @ e # zs" "chain h root ys e" "chain h e zs root" "distinct (root # ys @ e # zs)"
      "tl (put_after n e (root # xs)) = ys @ e # n # zs" by (rule ring_cut [OF r])
    let ?g = "link2 (link2 h n (hd (zs @ [root]))) e n"
    have "chain ?g e (n # zs) root" using insert_after_chain [OF x(3)] x(1,4) n by auto
    moreover have "chain ?g root ys e = chain h root ys e" using x(1,4) n
      by (intro chain_cong) (cases zs; auto)+
    ultimately show ?thesis using x n chain_hd [OF x(3)] by (auto simp: ring_def std_links_def chain_append simp del: chain.simps)
  qed
next
  fix h :: links and root n :: addr and xs :: "addr list"
  assume r: "ring h root xs" and n: "n \<in> set xs"
  obtain ys zs where x: "xs = ys @ n # zs" "chain h root ys n" "chain h n zs root" "distinct (root # ys @ n # zs)"
    "remove1 n xs = ys @ zs" by (rule ring_cut [OF r n])
  then show "ring (RemoveFromList std_links h n) root (remove1 n xs)"
    using remove_chain [of h root ys n zs root] r chain_last [OF x(2)] chain_hd [OF x(3)]
    by (simp add: ring_def std_links_def del: last.simps)
qed (simp add: std_links_def)

end
