(* ===== verification/ObserverList.thy ===== *)
theory ObserverList
  imports LinkedList
begin

text \<open>
  base/observer_list.h and observer_list_internal.h: the list of observers that may be changed while it is being
  iterated. An observer and an iterator are addresses; the iterators that are alive are the nodes of a linked list. A
  checked entry holds a weak pointer, whose object is valid as long as the observer is alive; one that is marked
  for removal holds no pointer. One list and one sequence are modelled.
\<close>

section \<open>Entries\<close>

datatype ObserverListPolicy = NOTIFY_ALL | EXISTING_ONLY

datatype storage_type = CheckedObserverAdapter | UncheckedObserverAdapter

text \<open>\<open>WeakPtr::get\<close> and \<open>WasInvalidated\<close> (base/memory/weak_ptr.h).\<close>

definition weak_get :: "(addr \<Rightarrow> bool) \<Rightarrow> addr option \<Rightarrow> addr option" where
  "weak_get alive p = (case p of None \<Rightarrow> None | Some x \<Rightarrow> if alive x then Some x else None)"

definition WasInvalidated :: "(addr \<Rightarrow> bool) \<Rightarrow> addr option \<Rightarrow> bool" where
  "WasInvalidated alive p = (case p of None \<Rightarrow> False | Some x \<Rightarrow> \<not> alive x)"

fun MarkForRemoval :: "storage_type \<Rightarrow> (addr \<Rightarrow> bool) \<Rightarrow> addr option \<Rightarrow> addr option res" where
  "MarkForRemoval UncheckedObserverAdapter alive p = Inr None"
| "MarkForRemoval CheckedObserverAdapter alive p = dcheck (weak_get alive p \<noteq> None) (Inr None)"

fun IsMarkedForRemoval :: "storage_type \<Rightarrow> (addr \<Rightarrow> bool) \<Rightarrow> addr option \<Rightarrow> bool res" where
  "IsMarkedForRemoval UncheckedObserverAdapter alive p = Inr (p = None)"
| "IsMarkedForRemoval CheckedObserverAdapter alive p = check (\<not> WasInvalidated alive p) (Inr (weak_get alive p = None))"

fun IsEqual :: "storage_type \<Rightarrow> (addr \<Rightarrow> bool) \<Rightarrow> addr option \<Rightarrow> addr option \<Rightarrow> bool" where
  "IsEqual UncheckedObserverAdapter alive p rhs \<longleftrightarrow> p = rhs"
| "IsEqual CheckedObserverAdapter alive p rhs \<longleftrightarrow> weak_get alive p = rhs"

fun adapter_Get :: "storage_type \<Rightarrow> (addr \<Rightarrow> bool) \<Rightarrow> addr option \<Rightarrow> addr option res" where
  "adapter_Get UncheckedObserverAdapter alive p = Inr p"
| "adapter_Get CheckedObserverAdapter alive p = dcheck (weak_get alive p \<noteq> None) (Inr (weak_get alive p))"

section \<open>State\<close>

text \<open>
  An iterator with its \<open>WeakLinkNode\<close>, and the list with its template arguments, the links of the live iterators, the
  iterators themselves and the observers that have not been destroyed. A list is known by the address of the root of its
  live iterators.
\<close>

record iter =
  it_list :: "addr option"
  it_index :: nat
  it_max :: nat

record observer_list =
  observers :: "addr option list"
  observers_count :: nat
  policy :: ObserverListPolicy
  check_empty :: bool
  allow_reentrancy :: bool
  storage :: storage_type
  live_iterators :: addr
  links :: links
  iters :: "addr \<Rightarrow> iter"
  alive :: "addr \<Rightarrow> bool"

definition size_max :: nat where "size_max = 2 ^ 64 - 1"

definition set_iter :: "addr \<Rightarrow> iter \<Rightarrow> observer_list \<Rightarrow> observer_list" where
  "set_iter n it W = W\<lparr>iters := (iters W)(n := it)\<rparr>"

section \<open>Weak link nodes\<close>

definition IsOnlyRemainingNode :: "observer_list \<Rightarrow> addr \<Rightarrow> bool" where
  "IsOnlyRemainingNode W n \<longleftrightarrow>
     it_list (iters W n) \<noteq> None \<and> ll_head (links W) (live_iterators W) = ll_tail (links W) (live_iterators W)"

definition SetList :: "link_lib \<Rightarrow> observer_list \<Rightarrow> addr \<Rightarrow> addr \<Rightarrow> observer_list res" where
  "SetList L W n list =
     dcheck (it_list (iters W n) = None)
      (Inr ((set_iter n ((iters W n)\<lparr>it_list := Some list\<rparr>) W)\<lparr>links := ll_Append L (links W) list n\<rparr>))"

definition Invalidate :: "link_lib \<Rightarrow> observer_list \<Rightarrow> addr \<Rightarrow> observer_list" where
  "Invalidate L W n =
     (if it_list (iters W n) \<noteq> None
      then (set_iter n ((iters W n)\<lparr>it_list := None\<rparr>) W)\<lparr>links := RemoveFromList L (links W) n\<rparr>
      else W)"

text \<open>The members of a new iterator: a node that is in no list.\<close>

definition fresh_iter :: "addr \<Rightarrow> nat \<Rightarrow> nat \<Rightarrow> observer_list \<Rightarrow> observer_list" where
  "fresh_iter n i m W =
     (set_iter n \<lparr>it_list = None, it_index = i, it_max = m\<rparr> W)\<lparr>links := (links W)(n := LinkNode)\<rparr>"

section \<open>Iterators\<close>

text \<open>\<open>EraseIf\<close> asks every entry whether it is marked.\<close>

fun erase_marked :: "storage_type \<Rightarrow> (addr \<Rightarrow> bool) \<Rightarrow> addr option list \<Rightarrow> addr option list res" where
  "erase_marked st al [] = Inr []"
| "erase_marked st al (p # ps) =
     rbind (IsMarkedForRemoval st al p) (\<lambda>b.
     rbind (erase_marked st al ps) (\<lambda>qs. Inr (if b then qs else p # qs)))"

definition Compact :: "observer_list \<Rightarrow> observer_list res" where
  "Compact W = rbind (erase_marked (storage W) (alive W) (observers W)) (\<lambda>ps. Inr (W\<lparr>observers := ps\<rparr>))"

definition clamped_max_index :: "observer_list \<Rightarrow> iter \<Rightarrow> nat" where
  "clamped_max_index W it = min (it_max it) (length (observers W))"

definition is_end :: "observer_list \<Rightarrow> iter \<Rightarrow> bool" where
  "is_end W it \<longleftrightarrow> it_list it = None \<or> it_index it = clamped_max_index W it"

function skip_marked :: "observer_list \<Rightarrow> nat \<Rightarrow> nat \<Rightarrow> nat res" where
  "skip_marked W max_index i =
     (if i < max_index then
        (case IsMarkedForRemoval (storage W) (alive W) (observers W ! i) of
           Inl f \<Rightarrow> Inl f
         | Inr b \<Rightarrow> if b then skip_marked W max_index (Suc i) else Inr i)
      else Inr i)"
  by auto
termination by (relation "measure (\<lambda>(W, m, i). m - i)") auto

declare skip_marked.simps [simp del]

definition EnsureValidIndex :: "observer_list \<Rightarrow> addr \<Rightarrow> observer_list res" where
  "EnsureValidIndex W n =
     dcheck (it_list (iters W n) \<noteq> None)
      (rbind (skip_marked W (clamped_max_index W (iters W n)) (it_index (iters W n))) (\<lambda>i.
       Inr (set_iter n ((iters W n)\<lparr>it_index := i\<rparr>) W)))"

definition Iter_default :: "observer_list \<Rightarrow> addr \<Rightarrow> observer_list" where
  "Iter_default W n = fresh_iter n 0 0 W"

definition Iter_new :: "link_lib \<Rightarrow> observer_list \<Rightarrow> addr \<Rightarrow> observer_list res" where
  "Iter_new L W n =
     rbind (SetList L (fresh_iter n 0 (if policy W = NOTIFY_ALL then size_max else length (observers W)) W) n (live_iterators W)) (\<lambda>W.
     dcheck (allow_reentrancy W \<or> IsOnlyRemainingNode W n) (EnsureValidIndex W n))"

definition Iter_destroy :: "link_lib \<Rightarrow> observer_list \<Rightarrow> addr \<Rightarrow> observer_list res" where
  "Iter_destroy L W n =
     rbind (if IsOnlyRemainingNode W n then Compact W else Inr W) (\<lambda>W. Inr (Invalidate L W n))"

definition Iter_copy :: "link_lib \<Rightarrow> observer_list \<Rightarrow> addr \<Rightarrow> addr \<Rightarrow> observer_list res" where
  "Iter_copy L W n other =
     (let W' = fresh_iter n (it_index (iters W other)) (it_max (iters W other)) W in
      case it_list (iters W other) of None \<Rightarrow> Inr W' | Some list \<Rightarrow> SetList L W' n list)"

definition Iter_assign :: "link_lib \<Rightarrow> observer_list \<Rightarrow> addr \<Rightarrow> addr \<Rightarrow> observer_list res" where
  "Iter_assign L W n other =
     (if other = n then Inr W
      else
        rbind (if IsOnlyRemainingNode W n then Compact W else Inr W) (\<lambda>W.
        let W = Invalidate L W n in
        rbind (case it_list (iters W other) of None \<Rightarrow> Inr W | Some list \<Rightarrow> SetList L W n list) (\<lambda>W.
        Inr (set_iter n ((iters W n)\<lparr>it_index := it_index (iters W other), it_max := it_max (iters W other)\<rparr>) W))))"

definition Iter_eq :: "observer_list \<Rightarrow> addr \<Rightarrow> addr \<Rightarrow> bool" where
  "Iter_eq W n other \<longleftrightarrow>
     is_end W (iters W n) \<and> is_end W (iters W other) \<or>
     it_list (iters W n) = it_list (iters W other) \<and> it_index (iters W n) = it_index (iters W other)"

definition Iter_inc :: "observer_list \<Rightarrow> addr \<Rightarrow> observer_list res" where
  "Iter_inc W n =
     (if it_list (iters W n) \<noteq> None
      then EnsureValidIndex (set_iter n ((iters W n)\<lparr>it_index := Suc (it_index (iters W n))\<rparr>) W) n
      else Inr W)"

definition Iter_postinc :: "link_lib \<Rightarrow> observer_list \<Rightarrow> addr \<Rightarrow> addr \<Rightarrow> observer_list res" where
  "Iter_postinc L W n it = rbind (Iter_copy L W it n) (\<lambda>W. Iter_inc W n)"

definition GetCurrent :: "observer_list \<Rightarrow> addr \<Rightarrow> addr option res" where
  "GetCurrent W n =
     dcheck (it_list (iters W n) \<noteq> None)
      (dcheck (it_index (iters W n) < clamped_max_index W (iters W n))
        (adapter_Get (storage W) (alive W) (observers W ! it_index (iters W n))))"

definition Iter_deref :: "observer_list \<Rightarrow> addr \<Rightarrow> addr res" where
  "Iter_deref W n = rbind (GetCurrent W n) (\<lambda>current. dcheck (current \<noteq> None) (Inr (the current)))"

section \<open>The list of observers\<close>

definition ObserverList_new ::
  "link_lib \<Rightarrow> ObserverListPolicy \<Rightarrow> bool \<Rightarrow> bool \<Rightarrow> storage_type \<Rightarrow> addr \<Rightarrow> links \<Rightarrow> (addr \<Rightarrow> iter) \<Rightarrow> (addr \<Rightarrow> bool) \<Rightarrow> observer_list" where
  "ObserverList_new L pol ce reentrant st root h its al =
     \<lparr>observers = [], observers_count = 0, policy = pol, check_empty = ce, allow_reentrancy = reentrant, storage = st,
      live_iterators = root, links = LinkedList_new L h root, iters = its, alive = al\<rparr>"

definition ol_begin :: "link_lib \<Rightarrow> observer_list \<Rightarrow> addr \<Rightarrow> observer_list res" where
  "ol_begin L W n = (if observers W = [] then Inr (Iter_default W n) else Iter_new L W n)"

definition ol_end :: "observer_list \<Rightarrow> addr \<Rightarrow> observer_list" where
  "ol_end W n = Iter_default W n"

primrec invalidate_all :: "nat \<Rightarrow> link_lib \<Rightarrow> observer_list \<Rightarrow> observer_list res" where
  "invalidate_all 0 L W = Inl Diverges"
| "invalidate_all (Suc fuel) L W =
     (if ll_empty (links W) (live_iterators W) then Inr W
      else case ll_head (links W) (live_iterators W) of
             None \<Rightarrow> Inl NullDereference
           | Some n \<Rightarrow> invalidate_all fuel L (Invalidate L W n))"

definition ObserverList_destroy :: "nat \<Rightarrow> link_lib \<Rightarrow> observer_list \<Rightarrow> observer_list res" where
  "ObserverList_destroy fuel L W =
     rbind (invalidate_all fuel L W) (\<lambda>W.
     if check_empty W then rbind (Compact W) (\<lambda>W. dcheck (observers W = []) (Inr W)) else Inr W)"

definition find_observer :: "observer_list \<Rightarrow> addr option \<Rightarrow> nat" where
  "find_observer W obs = length (takeWhile (\<lambda>p. \<not> IsEqual (storage W) (alive W) p obs) (observers W))"

definition HasObserver :: "observer_list \<Rightarrow> addr option \<Rightarrow> bool" where
  "HasObserver W obs \<longleftrightarrow> obs \<noteq> None \<and> find_observer W obs \<noteq> length (observers W)"

definition AddObserver :: "observer_list \<Rightarrow> addr option \<Rightarrow> observer_list res" where
  "AddObserver W obs =
     dcheck (obs \<noteq> None)
      (dcheck (\<not> HasObserver W obs)
        (Inr (W\<lparr>observers_count := Suc (observers_count W), observers := observers W @ [obs]\<rparr>)))"

definition RemoveObserver :: "observer_list \<Rightarrow> addr option \<Rightarrow> observer_list res" where
  "RemoveObserver W obs =
     dcheck (obs \<noteq> None)
      (let it = find_observer W obs in
       if it = length (observers W) then Inr W
       else
         rbind (IsMarkedForRemoval (storage W) (alive W) (observers W ! it)) (\<lambda>b.
         let W = (if \<not> b then W\<lparr>observers_count := (if observers_count W = 0 then size_max else observers_count W - 1)\<rparr> else W) in
         if ll_empty (links W) (live_iterators W)
         then Inr (W\<lparr>observers := take it (observers W) @ drop (Suc it) (observers W)\<rparr>)
         else
           rbind (MarkForRemoval (storage W) (alive W) (observers W ! it)) (\<lambda>p.
           Inr (W\<lparr>observers := (observers W)[it := p]\<rparr>))))"

fun mark_all :: "storage_type \<Rightarrow> (addr \<Rightarrow> bool) \<Rightarrow> addr option list \<Rightarrow> addr option list res" where
  "mark_all st al [] = Inr []"
| "mark_all st al (p # ps) =
     rbind (MarkForRemoval st al p) (\<lambda>q. rbind (mark_all st al ps) (\<lambda>qs. Inr (q # qs)))"

definition ol_Clear :: "observer_list \<Rightarrow> observer_list res" where
  "ol_Clear W =
     rbind (if ll_empty (links W) (live_iterators W) then Inr []
            else mark_all (storage W) (alive W) (observers W)) (\<lambda>ps.
     Inr (W\<lparr>observers := ps, observers_count := 0\<rparr>))"

definition ol_empty :: "observer_list \<Rightarrow> bool" where
  "ol_empty W \<longleftrightarrow> observers_count W = 0"

definition might_have_observers :: "observer_list \<Rightarrow> bool" where
  "might_have_observers W \<longleftrightarrow> observers W \<noteq> []"

end
