(* ===== verification/ObserverProps.thy ===== *)
theory ObserverProps
  imports ObserverList
begin

text \<open>
  What the list of observers promises: a sequence of observers, and for each live iterator the observer it is at and those
  it still has to visit. Any program over the list and its iterators behaves as this specification says.
\<close>

section \<open>Specification\<close>

text \<open>An iterator without a list, one at the end, or one at an observer, if it was not removed, with those to come.\<close>

datatype cursor = Null | AtEnd | At "addr option" "addr list"

fun start :: "addr list \<Rightarrow> cursor" where
  "start [] = AtEnd"
| "start (x # xs) = At (Some x) xs"

fun advance :: "cursor \<Rightarrow> cursor" where
  "advance (At c xs) = start xs"
| "advance c = c"

fun cursor_add :: "addr \<Rightarrow> cursor \<Rightarrow> cursor" where
  "cursor_add x Null = Null"
| "cursor_add x AtEnd = At (Some x) []"
| "cursor_add x (At c xs) = At c (xs @ [x])"

fun cursor_remove :: "addr \<Rightarrow> cursor \<Rightarrow> cursor" where
  "cursor_remove x (At c xs) = At (if c = Some x then None else c) (remove1 x xs)"
| "cursor_remove x c = c"

fun cursor_clear :: "cursor \<Rightarrow> cursor" where
  "cursor_clear (At c xs) = At None []"
| "cursor_clear c = c"

record ol_spec =
  members :: "addr list"
  deferred :: nat
  regs :: "addr list"
  cursors :: "addr \<Rightarrow> cursor"
  living :: "addr \<Rightarrow> bool"
  spec_policy :: ObserverListPolicy
  reentrant :: bool
  spec_storage :: storage_type
  spec_root :: addr

datatype ol_op = Add addr | Remove addr | Has addr | Clear | IsEmpty | Begin addr | Copy addr addr | Assign addr addr
  | Inc addr | AtEndOf addr addr | Deref addr | Drop addr | Delete addr

datatype ol_out = Unit | Bool bool | Obs addr

text \<open>The last iterator that goes takes the deferred removals with it.\<close>

definition unregister :: "addr \<Rightarrow> ol_spec \<Rightarrow> ol_spec" where
  "unregister n a = a\<lparr>regs := remove1 n (regs a), cursors := (cursors a)(n := Null),
     deferred := (if regs a = [n] then 0 else deferred a)\<rparr>"

definition copy_cursor :: "addr \<Rightarrow> addr \<Rightarrow> ol_spec \<Rightarrow> ol_spec" where
  "copy_cursor n m a = a\<lparr>regs := (if m \<in> set (regs a) then regs a @ [n] else regs a), cursors := (cursors a)(n := cursors a m)\<rparr>"

fun spec_step :: "ol_spec \<Rightarrow> ol_op \<Rightarrow> (ol_out \<times> ol_spec) res" where
  "spec_step a (Add x) =
     dcheck (x \<notin> set (members a))
      (Inr (Unit, a\<lparr>members := members a @ [x],
         cursors := (if spec_policy a = NOTIFY_ALL then cursor_add x \<circ> cursors a else cursors a)\<rparr>))"
| "spec_step a (Remove x) =
     Inr (Unit, a\<lparr>members := remove1 x (members a), cursors := cursor_remove x \<circ> cursors a,
       deferred := (if x \<in> set (members a) \<and> regs a \<noteq> [] then Suc (deferred a) else deferred a)\<rparr>)"
| "spec_step a (Has x) = Inr (Bool (x \<in> set (members a)), a)"
| "spec_step a Clear =
     dcheck (regs a = [] \<or> deferred a = 0 \<or> spec_storage a = UncheckedObserverAdapter)
      (Inr (Unit, a\<lparr>members := [], cursors := cursor_clear \<circ> cursors a,
         deferred := (if regs a = [] then 0 else deferred a + length (members a))\<rparr>))"
| "spec_step a IsEmpty = Inr (Bool (members a = []), a)"
| "spec_step a (Begin n) =
     (if members a = [] \<and> deferred a = 0 then Inr (Unit, a)
      else dcheck (reentrant a \<or> regs a = [])
        (Inr (Unit, a\<lparr>regs := regs a @ [n], cursors := (cursors a)(n := start (members a))\<rparr>)))"
| "spec_step a (Copy n m) = Inr (Unit, copy_cursor n m a)"
| "spec_step a (Assign n m) = Inr (Unit, if m = n then a else copy_cursor n m (unregister n a))"
| "spec_step a (Inc n) = Inr (Unit, a\<lparr>cursors := (cursors a)(n := advance (cursors a n))\<rparr>)"
| "spec_step a (AtEndOf n e) = Inr (Bool (cursors a n = Null \<or> cursors a n = AtEnd), a)"
| "spec_step a (Deref n) = (case cursors a n of At (Some x) xs \<Rightarrow> Inr (Obs x, a) | _ \<Rightarrow> Inl DCheckFailed)"
| "spec_step a (Drop n) = Inr (Unit, unregister n a)"
| "spec_step a (Delete x) = Inr (Unit, a\<lparr>living := (living a)(x := False)\<rparr>)"

text \<open>
  What a program has to observe: observers that are added live and leave the list before they are destroyed, a new
  iterator has a place of its own, and no iterator is moved beyond the end.
\<close>

fun legal :: "ol_spec \<Rightarrow> ol_op \<Rightarrow> bool" where
  "legal a (Add x) \<longleftrightarrow> living a x \<and> length (members a) + deferred a < size_max"
| "legal a (Begin n) \<longleftrightarrow> n \<notin> set (regs a) \<and> n \<noteq> spec_root a"
| "legal a (Copy n m) \<longleftrightarrow> n \<notin> set (regs a) \<and> n \<noteq> spec_root a \<and> n \<noteq> m"
| "legal a (Assign n m) \<longleftrightarrow> n \<noteq> spec_root a"
| "legal a (Inc n) \<longleftrightarrow> cursors a n \<noteq> AtEnd"
| "legal a (AtEndOf n e) \<longleftrightarrow> e \<notin> set (regs a) \<and> e \<noteq> spec_root a \<and> e \<noteq> n"
| "legal a (Delete x) \<longleftrightarrow> x \<notin> set (members a)"
| "legal a op \<longleftrightarrow> True"

fun legal_run :: "ol_spec \<Rightarrow> ol_op list \<Rightarrow> bool" where
  "legal_run a [] \<longleftrightarrow> True"
| "legal_run a (op # ops) \<longleftrightarrow> legal a op \<and> (case spec_step a op of Inl f \<Rightarrow> True | Inr (y, b) \<Rightarrow> legal_run b ops)"

text \<open>The same programs over the code. The comparison with \<open>end()\<close> makes an iterator of its own.\<close>

definition quiet :: "observer_list res \<Rightarrow> (ol_out \<times> observer_list) res" where
  "quiet r = rbind r (\<lambda>W. Inr (Unit, W))"

fun code_step :: "link_lib \<Rightarrow> observer_list \<Rightarrow> ol_op \<Rightarrow> (ol_out \<times> observer_list) res" where
  "code_step L W (Add x) = quiet (AddObserver W (Some x))"
| "code_step L W (Remove x) = quiet (RemoveObserver W (Some x))"
| "code_step L W (Has x) = Inr (Bool (HasObserver W (Some x)), W)"
| "code_step L W Clear = quiet (ol_Clear W)"
| "code_step L W IsEmpty = Inr (Bool (ol_empty W), W)"
| "code_step L W (Begin n) = quiet (ol_begin L W n)"
| "code_step L W (Copy n m) = quiet (Iter_copy L W n m)"
| "code_step L W (Assign n m) = quiet (Iter_assign L W n m)"
| "code_step L W (Inc n) = quiet (Iter_inc W n)"
| "code_step L W (AtEndOf n e) = (let W = ol_end W e in Inr (Bool (Iter_eq W n e), W))"
| "code_step L W (Deref n) = rbind (Iter_deref W n) (\<lambda>x. Inr (Obs x, W))"
| "code_step L W (Drop n) = quiet (Iter_destroy L W n)"
| "code_step L W (Delete x) = Inr (Unit, W\<lparr>alive := (alive W)(x := False)\<rparr>)"

section \<open>Invariant and abstraction\<close>

fun somes :: "'a option list \<Rightarrow> 'a list" where
  "somes [] = []"
| "somes (None # ps) = somes ps"
| "somes (Some x # ps) = x # somes ps"

definition cursor_at :: "addr option list \<Rightarrow> cursor" where
  "cursor_at ps = (case ps of [] \<Rightarrow> AtEnd | p # qs \<Rightarrow> At p (somes qs))"

definition ahead :: "observer_list \<Rightarrow> iter \<Rightarrow> addr option list" where
  "ahead W it = drop (it_index it) (take (it_max it) (observers W))"

definition iter_ok :: "observer_list \<Rightarrow> iter \<Rightarrow> bool" where
  "iter_ok W it \<longleftrightarrow> it_index it \<le> clamped_max_index W it \<and>
     (if policy W = NOTIFY_ALL then it_max it = size_max else it_max it \<le> length (observers W))"

definition ol_inv :: "observer_list \<Rightarrow> addr list \<Rightarrow> bool" where
  "ol_inv W R \<longleftrightarrow>
     ring (links W) (live_iterators W) R \<and>
     (\<forall>n. it_list (iters W n) = (if n \<in> set R then Some (live_iterators W) else None)) \<and>
     (\<forall>n \<in> set R. iter_ok W (iters W n)) \<and>
     observers_count W = length (somes (observers W)) \<and> distinct (somes (observers W)) \<and>
     (R = [] \<longrightarrow> None \<notin> set (observers W)) \<and>
     (\<forall>x \<in> set (somes (observers W)). alive W x) \<and> length (observers W) \<le> size_max"

definition abstracts :: "observer_list \<Rightarrow> ol_spec \<Rightarrow> bool" where
  "abstracts W a \<longleftrightarrow> ol_inv W (regs a) \<and>
     members a = somes (observers W) \<and> deferred a = length (observers W) - length (somes (observers W)) \<and>
     cursors a = (\<lambda>n. if n \<in> set (regs a) then cursor_at (ahead W (iters W n)) else Null) \<and>
     living a = alive W \<and> spec_policy a = policy W \<and> reentrant a = allow_reentrancy W \<and> spec_storage a = storage W \<and>
     spec_root a = live_iterators W"

subsection \<open>Entries that hold observers\<close>

lemma somes_append [simp]: "somes (ps @ qs) = somes ps @ somes qs"
  by (induction ps rule: somes.induct) auto

lemma set_somes [simp]: "set (somes ps) = {x. Some x \<in> set ps}"
  by (induction ps rule: somes.induct) auto

lemma length_somes: "length (somes ps) \<le> length ps" "length (somes ps) = length ps \<longleftrightarrow> None \<notin> set ps"
  by (induction ps rule: somes.induct) auto

lemma somes_full: "None \<notin> set ps \<Longrightarrow> somes (take n ps) = take n (somes ps) \<and> map Some (somes ps) = ps"
  by (induction ps arbitrary: n rule: somes.induct) (auto simp: take_Cons split: nat.split)

lemma somes_filter: "somes (filter (\<lambda>p. p \<noteq> None) ps) = somes ps" "None \<notin> set (filter (\<lambda>p. p \<noteq> None) ps)"
  by (induction ps rule: somes.induct) auto

lemma somes_none: "somes ps = [] \<longleftrightarrow> set ps \<subseteq> {None}"
  by (induction ps rule: somes.induct) auto

lemma cursor_start: "cursor_at (dropWhile (\<lambda>p. p = None) ps) = start (somes ps)"
  by (induction ps rule: somes.induct) (auto simp: cursor_at_def)

text \<open>An entry is replaced by a hole, or taken out.\<close>

definition hole :: "addr \<Rightarrow> addr option list \<Rightarrow> addr option list" where
  "hole x = map (\<lambda>p. if p = Some x then None else p)"

lemma somes_hole: "distinct (somes ps) \<Longrightarrow> somes (hole x ps) = remove1 x (somes ps)"
proof (induction ps rule: somes.induct)
  case (3 y ps)
  have "hole x ps = ps" if "Some x \<notin> set ps" using that by (auto simp: hole_def intro: map_idI)
  then show ?case using 3 by (auto simp: hole_def)
qed (auto simp: hole_def)

lemma cursor_hole: "distinct (somes ps) \<Longrightarrow> cursor_at (hole x ps) = cursor_remove x (cursor_at ps)"
  using somes_hole [of "tl ps" x] by (cases ps) (auto simp: cursor_at_def hole_def split: option.splits, (metis distinct.simps(2) somes.simps not_None_eq)+)

lemma cursor_clear_at: "cursor_at (map (\<lambda>p. None) ps) = cursor_clear (cursor_at ps)"
  by (cases ps) (auto simp: cursor_at_def somes_none)

lemma cursor_add_at: "cursor_at (ps @ [Some x]) = cursor_add x (cursor_at ps)"
  by (cases ps) (auto simp: cursor_at_def)

subsection \<open>Entries whose observers live\<close>

lemma entry_marked: "(\<And>x. p = Some x \<Longrightarrow> al x) \<Longrightarrow> IsMarkedForRemoval st al p = Inr (p = None)"
  by (cases st; cases p) (auto simp: WasInvalidated_def weak_get_def)

lemma entry_equal: "(\<And>x. p = Some x \<Longrightarrow> al x) \<Longrightarrow> IsEqual st al p (Some y) \<longleftrightarrow> p = Some y"
  by (cases st; cases p) (auto simp: weak_get_def)

lemma entry_mark:
  "(\<And>x. p = Some x \<Longrightarrow> al x) \<Longrightarrow> MarkForRemoval st al p = dcheck (p \<noteq> None \<or> st = UncheckedObserverAdapter) (Inr None)"
  by (cases st; cases p) (auto simp: weak_get_def)

lemma entry_get:
  "(\<And>x. p = Some x \<Longrightarrow> al x) \<Longrightarrow>
   rbind (adapter_Get st al p) (\<lambda>c. dcheck (c \<noteq> None) (Inr (the c))) = (case p of None \<Rightarrow> Inl DCheckFailed | Some x \<Rightarrow> Inr x)"
  by (cases st; cases p) (auto simp: weak_get_def)

lemma erase_marked_exact:
  "(\<And>x. Some x \<in> set ps \<Longrightarrow> al x) \<Longrightarrow> erase_marked st al ps = Inr (filter (\<lambda>p. p \<noteq> None) ps)"
  by (induction ps) (auto simp: entry_marked)

lemma mark_all_exact:
  "(\<And>x. Some x \<in> set ps \<Longrightarrow> al x) \<Longrightarrow>
   mark_all st al ps = dcheck (None \<notin> set ps \<or> st = UncheckedObserverAdapter) (Inr (map (\<lambda>p. None) ps))"
  by (induction ps) (auto simp: entry_mark guardr_def)

lemma skip_marked_exact:
  "(\<And>x. Some x \<in> set (observers W) \<Longrightarrow> alive W x) \<Longrightarrow> i \<le> m \<Longrightarrow> m \<le> length (observers W) \<Longrightarrow>
   \<exists>j. skip_marked W m i = Inr j \<and> i \<le> j \<and> j \<le> m \<and>
     drop j (take m (observers W)) = dropWhile (\<lambda>p. p = None) (drop i (take m (observers W)))"
proof (induction W m i rule: skip_marked.induct)
  case (1 W m i)
  have e: "drop i (take m (observers W)) = observers W ! i # drop (Suc i) (take m (observers W))" if "i < m"
    using that 1(4) Cons_nth_drop_Suc [of i "take m (observers W)"] by simp
  have k: "IsMarkedForRemoval (storage W) (alive W) (observers W ! i) = Inr (observers W ! i = None)" if "i < m"
    using that 1(2,4) by (intro entry_marked) (metis nth_mem order_less_le_trans)
  consider "m \<le> i" | "i < m" "observers W ! i = None" | "i < m" "observers W ! i \<noteq> None" by linarith
  then show ?case
  proof cases
    case 2
    then obtain j where "skip_marked W m (Suc i) = Inr j" "Suc i \<le> j" "j \<le> m"
      "drop j (take m (observers W)) = dropWhile (\<lambda>p. p = None) (drop (Suc i) (take m (observers W)))"
      using "1.IH" [OF 2(1) k] 1(2,4) by auto
    then show ?thesis using 2 e k by (auto simp: skip_marked.simps [of W m i])
  next
    case 3
    then show ?thesis using e k 1(3) by (auto simp: skip_marked.simps [of W m i])
  next
    case 1
    then have "i = m" using \<open>i \<le> m\<close> by simp
    then show ?thesis by (simp add: skip_marked.simps [of W m m])
  qed
qed

lemma find_observer_exact:
  assumes "\<And>x. Some x \<in> set (observers W) \<Longrightarrow> alive W x"
  shows "find_observer W (Some y) = length (takeWhile (\<lambda>p. p \<noteq> Some y) (observers W))"
proof -
  have "takeWhile (\<lambda>p. \<not> IsEqual (storage W) (alive W) p (Some y)) (observers W) = takeWhile (\<lambda>p. p \<noteq> Some y) (observers W)"
  proof (rule takeWhile_cong)
    show "(\<not> IsEqual (storage W) (alive W) p (Some y)) = (p \<noteq> Some y)" if "p \<in> set (observers W)" for p
      using entry_equal [of p "alive W" "storage W" y] that assms by blast
  qed simp
  then show ?thesis by (simp add: find_observer_def)
qed

section \<open>Iterators come and go\<close>

lemma ol_inv_alive: "ol_inv W R \<Longrightarrow> Some x \<in> set (observers W) \<Longrightarrow> alive W x"
  by (auto simp: ol_inv_def)

lemma find_observer_cases:
  assumes "ol_inv W R"
  obtains "Some y \<notin> set (observers W)" "find_observer W (Some y) = length (observers W)"
  | ps qs where "observers W = ps @ Some y # qs" "find_observer W (Some y) = length ps" "Some y \<notin> set ps" "Some y \<notin> set qs"
proof (cases "Some y \<in> set (observers W)")
  case False
  then have "takeWhile (\<lambda>p. p \<noteq> Some y) (observers W) = observers W" by (auto simp: takeWhile_eq_all_conv)
  then show ?thesis using that(1) False find_observer_exact [OF ol_inv_alive [OF assms]] by metis
next
  case True
  then obtain ps qs where q: "observers W = ps @ Some y # qs" "Some y \<notin> set ps" by (meson split_list_first)
  then have "takeWhile (\<lambda>p. p \<noteq> Some y) (observers W) = ps" by (simp add: takeWhile_append2 takeWhile_tail) (metis (mono_tags, lifting) takeWhile_append2 takeWhile.simps(2) append_Nil2)
  moreover have "Some y \<notin> set qs" using assms q(1) by (auto simp: ol_inv_def)
  ultimately show ?thesis using that(2) q find_observer_exact [OF ol_inv_alive [OF assms]] by metis
qed

lemma ring_outside: "ring h root xs \<Longrightarrow> n \<notin> set (root # xs) \<Longrightarrow> ring (h(n := v)) root xs"
  by (subst ring_def, subst chain_cong [of _ _ _ h]) (auto simp: ring_def)

lemma fresh_inv:
  assumes "ol_inv W R" "n \<notin> set (live_iterators W # R)"
  shows "ol_inv (fresh_iter n i m W) R"
  using assms ring_outside [of "links W" "live_iterators W" R n LinkNode]
  by (auto simp: ol_inv_def fresh_iter_def set_iter_def iter_ok_def clamped_max_index_def)

lemma only_remaining: "ol_inv W R \<Longrightarrow> IsOnlyRemainingNode W n \<longleftrightarrow> R = [n]"
  by (cases R; cases "tl R") (auto simp: IsOnlyRemainingNode_def ol_inv_def ring_single)

lemma no_live: "ol_inv W R \<Longrightarrow> ll_empty (links W) (live_iterators W) \<longleftrightarrow> R = []"
  by (auto simp: ol_inv_def ring_empty)

lemma compact_exact: "ol_inv W R \<Longrightarrow> Compact W = Inr (W\<lparr>observers := filter (\<lambda>p. p \<noteq> None) (observers W)\<rparr>)"
  by (simp add: Compact_def erase_marked_exact ol_inv_alive)

lemma invalidate_none: "ol_inv W R \<Longrightarrow> n \<notin> set R \<Longrightarrow> Invalidate L W n = W"
  by (simp add: Invalidate_def ol_inv_def)

context link_nodes
begin

lemma set_list_inv:
  assumes "ol_inv W R" "n \<notin> set (live_iterators W # R)" "iter_ok W (iters W n)"
  obtains W' where "SetList L W n (live_iterators W) = Inr W'" "ol_inv W' (R @ [n])" "observers W' = observers W"
    "iters W' = (iters W)(n := (iters W n)\<lparr>it_list := Some (live_iterators W)\<rparr>)" "alive W' = alive W" "policy W' = policy W"
    "allow_reentrancy W' = allow_reentrancy W" "storage W' = storage W" "live_iterators W' = live_iterators W"
proof (rule that)
  let ?W = "(set_iter n ((iters W n)\<lparr>it_list := Some (live_iterators W)\<rparr>) W)\<lparr>links := ll_Append L (links W) (live_iterators W) n\<rparr>"
  show "SetList L W n (live_iterators W) = Inr ?W" using assms(1,2) by (simp add: SetList_def ol_inv_def)
  show "ol_inv ?W (R @ [n])"
    using assms append_ring [of "links W" "live_iterators W" R n]
    by (auto simp: ol_inv_def set_iter_def iter_ok_def clamped_max_index_def)
qed (simp_all add: set_iter_def)

lemma invalidate_inv:
  assumes "ol_inv W R" "n \<in> set R" "R = [n] \<Longrightarrow> None \<notin> set (observers W)"
  shows "ol_inv (Invalidate L W n) (remove1 n R)"
proof -
  have d: "distinct R" using assms(1) by (simp add: ol_inv_def ring_def)
  then have r: "set (remove1 n R) = set R - {n}" "remove1 n R = [] \<Longrightarrow> R = [n]"
    using assms(2) by (simp_all add: set_remove1_eq) (cases R; auto split: if_splits)
  have "ring (links W) (live_iterators W) R" using assms(1) by (simp add: ol_inv_def)
  then have "ring (RemoveFromList L (links W) n) (live_iterators W) (remove1 n R)" using assms(2) by (rule remove_node)
  then show ?thesis using assms r
    by (auto simp: Invalidate_def ol_inv_def set_iter_def iter_ok_def clamped_max_index_def)
qed

end

lemma invalidate_fields [simp]:
  "observers (Invalidate L W n) = observers W" "alive (Invalidate L W n) = alive W" "policy (Invalidate L W n) = policy W"
  "allow_reentrancy (Invalidate L W n) = allow_reentrancy W" "storage (Invalidate L W n) = storage W"
  "live_iterators (Invalidate L W n) = live_iterators W"
  "iters (Invalidate L W n) m = (if m = n then (iters W n)\<lparr>it_list := None\<rparr> else iters W m)"
  by (auto simp: Invalidate_def set_iter_def)

section \<open>Every operation refines the specification\<close>

definition sim :: "(ol_out \<times> observer_list) res \<Rightarrow> (ol_out \<times> ol_spec) res \<Rightarrow> bool" where
  "sim r s \<longleftrightarrow> (case s of Inl f \<Rightarrow> r = Inl f | Inr (y, a) \<Rightarrow> \<exists>W. r = Inr (y, W) \<and> abstracts W a)"

lemma sim_simps [simp]: "sim r (Inl f) \<longleftrightarrow> r = Inl f" "sim r (Inr (y, a)) \<longleftrightarrow> (\<exists>W. r = Inr (y, W) \<and> abstracts W a)"
  by (auto simp: sim_def)

lemma has_observer: "ol_inv W R \<Longrightarrow> HasObserver W (Some x) \<longleftrightarrow> Some x \<in> set (observers W)"
  by (erule find_observer_cases [of W R x]) (auto simp: HasObserver_def)

lemma abstracts_inv: "abstracts W a \<Longrightarrow> ol_inv W (regs a)"
  by (simp add: abstracts_def)

lemma deferred_none: "abstracts W a \<Longrightarrow> deferred a = 0 \<longleftrightarrow> None \<notin> set (observers W)"
  using length_somes [of "observers W"] by (auto simp: abstracts_def)

lemma ahead_add:
  assumes "ol_inv W R" "n \<in> set R" "length (observers W) < size_max"
  shows "ahead (W\<lparr>observers_count := k, observers := observers W @ [p]\<rparr>) (iters W n) =
    (if policy W = NOTIFY_ALL then ahead W (iters W n) @ [p] else ahead W (iters W n))"
  using assms by (auto simp: ol_inv_def iter_ok_def ahead_def clamped_max_index_def)

lemma sim_add:
  assumes "abstracts W a" "legal a (Add x)"
  shows "sim (code_step L W (Add x)) (spec_step a (Add x))"
proof (cases "x \<in> set (members a)")
  case False
  have i: "ol_inv W (regs a)" using assms(1) by (rule abstracts_inv)
  have l: "length (observers W) < size_max" "alive W x" using assms length_somes(1) [of "observers W"] by (auto simp: abstracts_def)
  have x: "Some x \<notin> set (observers W)" using assms(1) False by (simp add: abstracts_def)
  let ?W = "W\<lparr>observers_count := Suc (observers_count W), observers := observers W @ [Some x]\<rparr>"
  have "ol_inv ?W (regs a)"
    using i l x by (auto simp: ol_inv_def iter_ok_def clamped_max_index_def)
  then have "abstracts ?W (snd (projr (spec_step a (Add x))))"
    using assms(1) False ahead_add [OF i _ l(1)] length_somes(1) [of "observers W"]
    by (auto simp: abstracts_def cursor_add_at fun_eq_iff)
  then show ?thesis using False has_observer [OF i] x by (simp add: quiet_def AddObserver_def)
qed (use assms(1) has_observer in \<open>auto simp: quiet_def AddObserver_def abstracts_def\<close>)

lemma ahead_hole: "ahead (W\<lparr>observers_count := k, observers := hole x (observers W)\<rparr>) it = hole x (ahead W it)"
  by (simp add: ahead_def hole_def take_map drop_map)

lemma distinct_somes_part: "distinct (somes ps) \<Longrightarrow> distinct (somes (take n ps)) \<and> distinct (somes (drop n ps))"
  by (metis append_take_drop_id distinct_append somes_append)

lemma distinct_ahead: "ol_inv W R \<Longrightarrow> distinct (somes (ahead W it))"
  unfolding ahead_def ol_inv_def by (intro distinct_somes_part [THEN conjunct2] distinct_somes_part [THEN conjunct1]) blast

lemma ahead_subset: "p \<in> set (ahead W it) \<Longrightarrow> p \<in> set (observers W)"
  by (auto simp: ahead_def dest: in_set_dropD in_set_takeD)

lemma hole_absent: "Some x \<notin> set ps \<Longrightarrow> hole x ps = ps"
  by (auto simp: hole_def intro: map_idI)

text \<open>While an iterator lives, an observer that leaves becomes a hole.\<close>

lemma abstracts_hole:
  assumes "abstracts W a" "x \<in> set (members a)" "regs a \<noteq> []"
  shows "abstracts (W\<lparr>observers_count := observers_count W - 1, observers := hole x (observers W)\<rparr>)
    (snd (projr (spec_step a (Remove x))))"
proof -
  have i: "ol_inv W (regs a)" using assms(1) by (rule abstracts_inv)
  have x: "x \<in> set (somes (observers W))" using assms(1,2) by (simp add: abstracts_def)
  have h: "somes (hole x (observers W)) = remove1 x (somes (observers W))" using i by (intro somes_hole) (simp add: ol_inv_def)
  have len: "length (hole x (observers W)) = length (observers W)" by (simp add: hole_def)
  have "0 < length (somes (observers W))" using x by (metis length_pos_if_in_set)
  then have r: "length (remove1 x (somes (observers W))) = length (somes (observers W)) - 1"
    "length (observers W) - (length (somes (observers W)) - 1) = Suc (length (observers W) - length (somes (observers W)))"
    using x length_somes(1) [of "observers W"] by (simp_all add: length_remove1 del: set_somes length_greater_0_conv)
  have "ol_inv (W\<lparr>observers_count := observers_count W - 1, observers := hole x (observers W)\<rparr>) (regs a)"
    using i assms(3) h r(1) len by (auto simp: ol_inv_def iter_ok_def clamped_max_index_def hole_def distinct_remove1 split: if_splits)
  then show ?thesis
    using assms h r len ahead_hole cursor_hole [OF distinct_ahead [OF i]]
    by (auto simp: abstracts_def fun_eq_iff)
qed

lemma sim_remove:
  assumes "abstracts W a"
  shows "sim (code_step L W (Remove x)) (spec_step a (Remove x))"
proof -
  have i: "ol_inv W (regs a)" using assms by (rule abstracts_inv)
  then show ?thesis
  proof (cases rule: find_observer_cases [of W "regs a" x])
    case 1
    have "cursor_remove x (cursor_at (ahead W it)) = cursor_at (ahead W it)" for it
      using cursor_hole [OF distinct_ahead [OF i], of x it] hole_absent [of x "ahead W it"] 1(1) ahead_subset
      by metis
    then have "cursor_remove x \<circ> cursors a = cursors a" using assms by (auto simp: abstracts_def fun_eq_iff)
    moreover have "x \<notin> set (members a)" using 1 assms by (simp add: abstracts_def)
    ultimately show ?thesis using 1 assms by (simp add: quiet_def RemoveObserver_def remove1_idem)
  next
    case (2 ps qs)
    have m: "x \<in> set (members a)" using 2 assms by (simp add: abstracts_def)
    have "0 < length (somes (observers W))" using 2(1) by simp
    then have c: "0 < observers_count W" using i by (simp add: ol_inv_def)
    have mk: "IsMarkedForRemoval (storage W) (alive W) (Some x) = Inr False" "MarkForRemoval (storage W) (alive W) (Some x) = Inr None"
      using ol_inv_alive [OF i, of x] 2(1) entry_marked [of "Some x"] entry_mark [of "Some x"] by auto
    show ?thesis
    proof (cases "regs a = []")
      case True
      then have full: "None \<notin> set (observers W)" using i by (simp add: ol_inv_def)
      have "ol_inv (W\<lparr>observers_count := observers_count W - 1, observers := ps @ qs\<rparr>) []"
        using i 2(1,3,4) True full by (auto simp: ol_inv_def)
      moreover have "remove1 x (somes ps @ x # somes qs) = somes ps @ somes qs" using 2(3) by (simp add: remove1_append)
      moreover have "length (somes ps) = length ps" "length (somes qs) = length qs" using full 2(1) length_somes(2) by auto
      ultimately show ?thesis
        using True 2 assms m c mk no_live [OF i]
        by (auto simp: quiet_def RemoveObserver_def abstracts_def)
    next
      case False
      have "(observers W)[length ps := None] = hole x (observers W)"
        using 2 hole_absent [of x ps] hole_absent [of x qs] by (auto simp: hole_def)
      then show ?thesis
        using abstracts_hole [OF assms m False] 2 c mk no_live [OF i] False m
        by (auto simp: quiet_def RemoveObserver_def)
    qed
  qed
qed

lemma ahead_clear: "ahead (W\<lparr>observers := map (\<lambda>p. None) (observers W), observers_count := k\<rparr>) it = map (\<lambda>p. None) (ahead W it)"
  by (simp add: ahead_def take_map drop_map)

lemma somes_holes [simp]: "somes (map (\<lambda>p. None) ps) = []"
  by (induction ps) auto

lemma sim_clear:
  assumes "abstracts W a"
  shows "sim (code_step L W Clear) (spec_step a Clear)"
proof -
  have i: "ol_inv W (regs a)" using assms by (rule abstracts_inv)
  show ?thesis
  proof (cases "regs a = []")
    case True
    then have "abstracts (W\<lparr>observers := [], observers_count := 0\<rparr>)
        (a\<lparr>members := [], cursors := cursor_clear \<circ> cursors a, deferred := 0\<rparr>)"
      using assms by (auto simp: abstracts_def ol_inv_def)
    then show ?thesis using True no_live [OF i] by (simp add: quiet_def ol_Clear_def)
  next
    case False
    have "abstracts (W\<lparr>observers := map (\<lambda>p. None) (observers W), observers_count := 0\<rparr>)
        (a\<lparr>members := [], cursors := cursor_clear \<circ> cursors a, deferred := deferred a + length (members a)\<rparr>)"
      using assms False length_somes(1) [of "observers W"]
      by (auto simp: abstracts_def ol_inv_def iter_ok_def clamped_max_index_def ahead_clear cursor_clear_at fun_eq_iff)
    then show ?thesis
      using False no_live [OF i] deferred_none [OF assms] mark_all_exact [of "observers W" "alive W" "storage W", OF ol_inv_alive [OF i]]
        assms
      by (auto simp: quiet_def ol_Clear_def guardr_def abstracts_def)
  qed
qed

lemma ahead_cons:
  assumes "iter_ok W it"
  shows "ahead W it = [] \<longleftrightarrow> it_index it = clamped_max_index W it"
    and "it_index it < clamped_max_index W it \<Longrightarrow> ahead W it = observers W ! it_index it # drop (Suc (it_index it)) (take (it_max it) (observers W))"
proof -
  have k: "clamped_max_index W it = length (take (it_max it) (observers W))" "it_index it \<le> clamped_max_index W it"
    using assms by (auto simp: clamped_max_index_def iter_ok_def)
  then show "ahead W it = [] \<longleftrightarrow> it_index it = clamped_max_index W it" by (auto simp: ahead_def)
  show "ahead W it = observers W ! it_index it # drop (Suc (it_index it)) (take (it_max it) (observers W))"
    if "it_index it < clamped_max_index W it"
    using that k Cons_nth_drop_Suc [of "it_index it" "take (it_max it) (observers W)"] by (simp add: ahead_def)
qed

lemma live_iter:
  assumes "abstracts W a"
  shows "n \<in> set (regs a) \<Longrightarrow> it_list (iters W n) = Some (live_iterators W) \<and> iter_ok W (iters W n) \<and> cursors a n = cursor_at (ahead W (iters W n))"
    and "n \<notin> set (regs a) \<Longrightarrow> it_list (iters W n) = None \<and> cursors a n = Null"
  using assms by (auto simp: abstracts_def ol_inv_def)

lemma sim_has: "abstracts W a \<Longrightarrow> sim (code_step L W (Has x)) (spec_step a (Has x))"
  using has_observer [OF abstracts_inv, of W a x] by (simp add: abstracts_def)

lemma sim_is_empty: "abstracts W a \<Longrightarrow> sim (code_step L W IsEmpty) (spec_step a IsEmpty)"
  by (auto simp: abstracts_def ol_inv_def ol_empty_def)

lemma sim_delete: "abstracts W a \<Longrightarrow> legal a (Delete x) \<Longrightarrow> sim (code_step L W (Delete x)) (spec_step a (Delete x))"
  by (auto simp: abstracts_def ol_inv_def iter_ok_def clamped_max_index_def ahead_def)

lemma sim_deref:
  assumes "abstracts W a"
  shows "sim (code_step L W (Deref n)) (spec_step a (Deref n))"
proof (cases "n \<in> set (regs a)")
  case True
  let ?it = "iters W n"
  have k: "it_list ?it = Some (live_iterators W)" "iter_ok W ?it" "cursors a n = cursor_at (ahead W ?it)"
    using live_iter(1) [OF assms True] by auto
  show ?thesis
  proof (cases "it_index ?it < clamped_max_index W ?it")
    case True
    have "Some x \<in> set (observers W)" if "observers W ! it_index ?it = Some x" for x
      using that True by (metis clamped_max_index_def min_less_iff_conj nth_mem)
    then have "rbind (adapter_Get (storage W) (alive W) (observers W ! it_index ?it)) (\<lambda>c. dcheck (c \<noteq> None) (Inr (the c))) =
        (case observers W ! it_index ?it of None \<Rightarrow> Inl DCheckFailed | Some x \<Rightarrow> Inr x)"
      using ol_inv_alive [OF abstracts_inv [OF assms]] by (intro entry_get) blast
    then show ?thesis using True k ahead_cons(2) [OF k(2) True] assms
      by (auto simp: Iter_deref_def GetCurrent_def cursor_at_def split: option.splits)
  next
    case False
    then have "ahead W ?it = []" using ahead_cons(1) [OF k(2)] k(2) by (auto simp: iter_ok_def)
    then show ?thesis using False k by (simp add: Iter_deref_def GetCurrent_def cursor_at_def)
  qed
qed (use live_iter(2) [OF assms] in \<open>simp add: Iter_deref_def GetCurrent_def\<close>)

lemma abstracts_outside:
  assumes "abstracts W a" "n \<notin> set (regs a)" "it_list it = None"
  shows "abstracts (set_iter n it W) a"
  using assms by (auto simp: abstracts_def set_iter_def ol_inv_def iter_ok_def clamped_max_index_def ahead_def fun_eq_iff)

lemma abstracts_fresh:
  assumes "abstracts W a" "n \<notin> set (regs a)" "n \<noteq> spec_root a"
  shows "abstracts (fresh_iter n i k W) a"
  using assms fresh_inv [of W "regs a" n i k]
  by (auto simp: abstracts_def fresh_iter_def set_iter_def ahead_def fun_eq_iff)

lemma sim_at_end:
  assumes "abstracts W a" "legal a (AtEndOf n e)"
  shows "sim (code_step L W (AtEndOf n e)) (spec_step a (AtEndOf n e))"
proof -
  have b: "abstracts (ol_end W e) a" using assms by (auto simp: ol_end_def Iter_default_def intro: abstracts_fresh)
  have e: "it_list (iters (ol_end W e) e) = None" using live_iter(2) [OF b] assms(2) by simp
  have "is_end (ol_end W e) (iters (ol_end W e) n) \<longleftrightarrow> cursors a n = Null \<or> cursors a n = AtEnd"
  proof (cases "n \<in> set (regs a)")
    case True
    then show ?thesis using live_iter(1) [OF b True] ahead_cons(1) [of "ol_end W e" "iters (ol_end W e) n"]
      by (auto simp: is_end_def cursor_at_def split: list.splits)
  qed (use live_iter(2) [OF b] in \<open>auto simp: is_end_def\<close>)
  then have "Iter_eq (ol_end W e) n e \<longleftrightarrow> cursors a n = Null \<or> cursors a n = AtEnd"
    using e by (auto simp: Iter_eq_def is_end_def)
  then show ?thesis using b by simp
qed

text \<open>Moving a live iterator to the next observer that is left.\<close>

lemma ensure_valid:
  assumes "abstracts W a" "n \<in> set (regs a)" "i \<le> clamped_max_index W (iters W n)"
  shows "\<exists>W'. EnsureValidIndex (set_iter n ((iters W n)\<lparr>it_index := i\<rparr>) W) n = Inr W' \<and>
    abstracts W' (a\<lparr>cursors := (cursors a)(n := start (somes (drop i (take (it_max (iters W n)) (observers W)))))\<rparr>)"
proof -
  let ?it = "(iters W n)\<lparr>it_index := i\<rparr>" and ?m = "clamped_max_index W (iters W n)" and ?V = "set_iter n ((iters W n)\<lparr>it_index := i\<rparr>) W"
  have iv: "ol_inv W (regs a)" using assms(1) by (rule abstracts_inv)
  have V: "observers ?V = observers W" "alive ?V = alive W" "iters ?V n = ?it" by (simp_all add: set_iter_def)
  have t: "take ?m (observers W) = take (it_max (iters W n)) (observers W)" by (simp add: clamped_max_index_def min_def)
  obtain j where j: "skip_marked ?V ?m i = Inr j" "j \<le> ?m"
      "drop j (take ?m (observers W)) = dropWhile (\<lambda>p. p = None) (drop i (take ?m (observers W)))"
    using skip_marked_exact [of ?V i ?m] assms(3) ol_inv_alive [OF iv] unfolding V by (auto simp: clamped_max_index_def)
  let ?W = "set_iter n ((iters W n)\<lparr>it_index := j\<rparr>) W"
  have "ol_inv ?W (regs a)"
    using iv assms(2) j(2) by (auto simp: ol_inv_def set_iter_def iter_ok_def clamped_max_index_def)
  moreover have "cursor_at (ahead ?W ((iters W n)\<lparr>it_index := j\<rparr>)) = start (somes (drop i (take (it_max (iters W n)) (observers W))))"
    using cursor_start j(3) t by (simp add: ahead_def set_iter_def)
  ultimately have "abstracts ?W (a\<lparr>cursors := (cursors a)(n := start (somes (drop i (take (it_max (iters W n)) (observers W)))))\<rparr>)"
    using assms(1,2) by (auto simp: abstracts_def fun_eq_iff set_iter_def ahead_def)
  moreover have "it_list (iters W n) \<noteq> None" using live_iter(1) [OF assms(1,2)] by simp
  ultimately show ?thesis using j(1) by (auto simp: EnsureValidIndex_def V clamped_max_index_def) (simp add: set_iter_def)
qed

lemma sim_inc:
  assumes "abstracts W a" "legal a (Inc n)"
  shows "sim (code_step L W (Inc n)) (spec_step a (Inc n))"
proof (cases "n \<in> set (regs a)")
  case True
  let ?it = "iters W n"
  have k: "it_list ?it \<noteq> None" "iter_ok W ?it" "cursors a n = cursor_at (ahead W ?it)" using live_iter(1) [OF assms(1) True] by auto
  then have lt: "it_index ?it < clamped_max_index W ?it"
    using assms(2) ahead_cons(1) [OF k(2)] by (auto simp: cursor_at_def iter_ok_def)
  have "advance (cursors a n) = start (somes (drop (Suc (it_index ?it)) (take (it_max ?it) (observers W))))"
    using k(3) ahead_cons(2) [OF k(2) lt] by (simp add: cursor_at_def)
  then show ?thesis using ensure_valid [OF assms(1) True, of "Suc (it_index ?it)"] lt k(1) by (auto simp: quiet_def Iter_inc_def)
next
  case False
  then have "(cursors a)(n := advance (cursors a n)) = cursors a" using live_iter(2) [OF assms(1)] by auto
  then show ?thesis using False live_iter(2) [OF assms(1)] assms(1) by (simp add: quiet_def Iter_inc_def)
qed


lemma iter_swap: "it\<lparr>it_list := l, it_index := i, it_max := k\<rparr> = it\<lparr>it_index := i, it_max := k, it_list := l\<rparr>" for it :: iter
  by (cases it) simp

lemma set_list_index:
  assumes "it_list (iters W n) = None"
  shows "rbind (SetList L W n l) (\<lambda>V. Inr (set_iter n ((iters V n)\<lparr>it_index := i, it_max := k\<rparr>) V)) =
    SetList L (set_iter n ((iters W n)\<lparr>it_index := i, it_max := k\<rparr>) W) n l"
  using assms by (cases W) (simp add: SetList_def set_iter_def iter_swap)

text \<open>The last iterator takes the holes with it.\<close>

definition leave :: "link_lib \<Rightarrow> observer_list \<Rightarrow> addr \<Rightarrow> observer_list res" where
  "leave L W n = rbind (if IsOnlyRemainingNode W n then Compact W else Inr W) (\<lambda>W. Inr (Invalidate L W n))"

context link_nodes
begin

lemma set_list_abstracts:
  assumes "abstracts W a" "n \<notin> set (regs a)" "n \<noteq> spec_root a" "iter_ok W (iters W n)"
  obtains W' where "SetList L W n (live_iterators W) = Inr W'"
    "abstracts W' (a\<lparr>regs := regs a @ [n], cursors := (cursors a)(n := cursor_at (ahead W (iters W n)))\<rparr>)"
    "iters W' = (iters W)(n := (iters W n)\<lparr>it_list := Some (live_iterators W)\<rparr>)" "observers W' = observers W"
proof -
  have "n \<notin> set (live_iterators W # regs a)" using assms(1-3) by (simp add: abstracts_def)
  then obtain W' where s: "SetList L W n (live_iterators W) = Inr W'" "ol_inv W' (regs a @ [n])" "observers W' = observers W"
    "iters W' = (iters W)(n := (iters W n)\<lparr>it_list := Some (live_iterators W)\<rparr>)" "alive W' = alive W" "policy W' = policy W"
    "allow_reentrancy W' = allow_reentrancy W" "storage W' = storage W" "live_iterators W' = live_iterators W"
    by (rule set_list_inv [OF abstracts_inv [OF assms(1)] _ assms(4)])
  then have "abstracts W' (a\<lparr>regs := regs a @ [n], cursors := (cursors a)(n := cursor_at (ahead W (iters W n)))\<rparr>)"
    using assms(1,2) by (auto simp: abstracts_def fun_eq_iff ahead_def)
  then show ?thesis using that s by metis
qed

lemma sim_copy:
  assumes "abstracts W a" "legal a (Copy n m)"
  shows "sim (code_step L W (Copy n m)) (spec_step a (Copy n m))"
proof -
  let ?V = "fresh_iter n (it_index (iters W m)) (it_max (iters W m)) W"
  have f: "abstracts ?V a" using assms by (auto intro: abstracts_fresh)
  have n: "n \<notin> set (regs a)" "n \<noteq> spec_root a" "n \<noteq> m" using assms(2) by auto
  have V: "iters ?V n = \<lparr>it_list = None, it_index = it_index (iters W m), it_max = it_max (iters W m)\<rparr>"
    "live_iterators ?V = live_iterators W" "observers ?V = observers W" "policy ?V = policy W"
    by (simp_all add: fresh_iter_def set_iter_def)
  show ?thesis
  proof (cases "m \<in> set (regs a)")
    case True
    have m: "it_list (iters W m) = Some (live_iterators W)" "iter_ok W (iters W m)" "cursors a m = cursor_at (ahead W (iters W m))"
      using live_iter(1) [OF assms(1) True] by auto
    have o: "iter_ok ?V (iters ?V n)" "ahead ?V (iters ?V n) = ahead W (iters W m)"
      using m(2) V by (auto simp: iter_ok_def ahead_def clamped_max_index_def)
    from f n(1,2) o(1) obtain W' where "SetList L ?V n (live_iterators ?V) = Inr W'"
      "abstracts W' (a\<lparr>regs := regs a @ [n], cursors := (cursors a)(n := cursor_at (ahead ?V (iters ?V n)))\<rparr>)"
      by (rule set_list_abstracts)
    then show ?thesis using m True by (simp add: quiet_def Iter_copy_def copy_cursor_def o(2) V(2))
  next
    case False
    have "(cursors a)(n := Null) = cursors a" using live_iter(2) [OF assms(1) n(1)] by auto
    then show ?thesis using False live_iter(2) [OF assms(1) False] f by (simp add: quiet_def Iter_copy_def copy_cursor_def)
  qed
qed

lemma sim_begin:
  assumes "abstracts W a" "legal a (Begin n)"
  shows "sim (code_step L W (Begin n)) (spec_step a (Begin n))"
proof (cases "observers W = []")
  case True
  then have "members a = []" "deferred a = 0" using assms(1) by (auto simp: abstracts_def)
  then show ?thesis using True assms abstracts_fresh [of W a n 0 0] by (simp add: quiet_def ol_begin_def Iter_default_def)
next
  case False
  then have sp: "\<not> (members a = [] \<and> deferred a = 0)" using assms(1) deferred_none [OF assms(1)]
    by (cases "observers W"; cases "hd (observers W)") (auto simp: abstracts_def)
  let ?V = "fresh_iter n 0 (if policy W = NOTIFY_ALL then size_max else length (observers W)) W"
  have f: "abstracts ?V a" using assms by (auto intro: abstracts_fresh)
  have n: "n \<notin> set (regs a)" "n \<noteq> spec_root a" using assms(2) by auto
  have V: "iters ?V n = \<lparr>it_list = None, it_index = 0, it_max = (if policy W = NOTIFY_ALL then size_max else length (observers W))\<rparr>"
    "live_iterators ?V = live_iterators W" "observers ?V = observers W" "policy ?V = policy W"
    by (simp_all add: fresh_iter_def set_iter_def)
  have len: "length (observers W) \<le> size_max" using abstracts_inv [OF assms(1)] by (simp add: ol_inv_def)
  have ok: "iter_ok ?V (iters ?V n)" by (simp add: iter_ok_def fresh_iter_def set_iter_def)
  from f n ok obtain W' where W': "SetList L ?V n (live_iterators ?V) = Inr W'"
      "abstracts W' (a\<lparr>regs := regs a @ [n], cursors := (cursors a)(n := cursor_at (ahead ?V (iters ?V n)))\<rparr>)"
      "iters W' = (iters ?V)(n := (iters ?V n)\<lparr>it_list := Some (live_iterators ?V)\<rparr>)" "observers W' = observers ?V"
    by (rule set_list_abstracts)
  have i: "iters W' n = \<lparr>it_list = Some (live_iterators W), it_index = 0, it_max = it_max (iters ?V n)\<rparr>" using W'(3) V by simp
  have t: "take (it_max (iters W' n)) (observers W') = observers W" using i V len W'(4) by simp
  have "set_iter n ((iters W' n)\<lparr>it_index := 0\<rparr>) W' = W'" using i by (simp add: set_iter_def fun_upd_idem)
  then obtain X where X: "EnsureValidIndex W' n = Inr X"
      "abstracts X (a\<lparr>regs := regs a @ [n], cursors := (cursors a)(n := start (members a))\<rparr>)"
    using ensure_valid [OF W'(2), of n 0] t assms(1) by (auto simp: abstracts_def)
  have "IsOnlyRemainingNode W' n \<longleftrightarrow> regs a = []" using only_remaining [OF abstracts_inv [OF W'(2)], of n] n(1) by auto
  moreover have "allow_reentrancy W' = reentrant a" using W'(2) by (simp add: abstracts_def)
  ultimately show ?thesis using W'(1) X False sp V(2) by (auto simp: quiet_def ol_begin_def Iter_new_def guardr_def)
qed

lemma leave_abstracts:
  assumes "abstracts W a"
  obtains W' where "leave L W n = Inr W'" "abstracts W' (unregister n a)" "\<And>m. m \<noteq> n \<Longrightarrow> iters W' m = iters W m"
proof -
  have i: "ol_inv W (regs a)" using assms by (rule abstracts_inv)
  have d: "distinct (regs a)" using i by (simp add: ol_inv_def ring_def)
  consider "n \<notin> set (regs a)" | "regs a = [n]" | "n \<in> set (regs a)" "regs a \<noteq> [n]" by blast
  then show ?thesis
  proof cases
    case 1
    then have "(cursors a)(n := Null) = cursors a" using live_iter(2) [OF assms] by auto
    moreover have "remove1 n (regs a) = regs a" "regs a \<noteq> [n]" using 1 by (auto simp: remove1_idem)
    ultimately have "unregister n a = a" by (simp add: unregister_def)
    moreover have "leave L W n = Inr W" using 1 only_remaining [OF i, of n] invalidate_none [OF i 1] by (auto simp: leave_def)
    ultimately show ?thesis using that assms by simp
  next
    case 2
    define F where "F = filter (\<lambda>p. p \<noteq> None) (observers W)"
    have F: "somes F = somes (observers W)" "None \<notin> set F" "length F \<le> length (observers W)"
      using somes_filter [of "observers W"] by (simp_all add: F_def)
    let ?V = "W\<lparr>observers := F\<rparr>"
    have "ring (links W) (live_iterators W) [n]" using i 2 by (simp add: ol_inv_def)
    then have "ring (RemoveFromList L (links W) n) (live_iterators W) []" using remove_node [of "links W" "live_iterators W" "[n]" n] by simp
    then have "ol_inv (Invalidate L ?V n) []"
      using i 2 F by (auto simp: ol_inv_def Invalidate_def set_iter_def simp del: set_somes)
    then have "abstracts (Invalidate L ?V n) (unregister n a)"
      using assms 2 F length_somes(2) [of F]
      by (auto simp: abstracts_def unregister_def fun_eq_iff)
    moreover have "leave L W n = Inr (Invalidate L ?V n)"
      using 2 only_remaining [OF i, of n] compact_exact [OF i] by (simp add: leave_def F_def)
    ultimately show ?thesis using that by simp
  next
    case 3
    have "ol_inv (Invalidate L W n) (remove1 n (regs a))" using i 3 by (intro invalidate_inv) auto
    moreover have "set (remove1 n (regs a)) = set (regs a) - {n}" using d by (simp add: set_remove1_eq)
    ultimately have "abstracts (Invalidate L W n) (unregister n a)"
      using assms 3 by (auto simp: abstracts_def unregister_def fun_eq_iff ahead_def)
    moreover have "leave L W n = Inr (Invalidate L W n)" using 3 only_remaining [OF i, of n] by (simp add: leave_def)
    ultimately show ?thesis using that by simp
  qed
qed

lemma sim_drop:
  assumes "abstracts W a"
  shows "sim (code_step L W (Drop n)) (spec_step a (Drop n))"
proof -
  from assms obtain W' where "leave L W n = Inr W'" "abstracts W' (unregister n a)" by (rule leave_abstracts)
  then show ?thesis by (simp add: quiet_def Iter_destroy_def leave_def)
qed

lemma sim_assign:
  assumes "abstracts W a" "legal a (Assign n m)"
  shows "sim (code_step L W (Assign n m)) (spec_step a (Assign n m))"
proof (cases "m = n")
  case False
  let ?a = "unregister n a"
  from assms(1) obtain V where V: "leave L W n = Inr V" "abstracts V ?a" "\<And>m. m \<noteq> n \<Longrightarrow> iters V m = iters W m"
    by (rule leave_abstracts) blast
  have n: "n \<notin> set (regs ?a)" "n \<noteq> spec_root ?a"
    using assms abstracts_inv [OF assms(1)] by (auto simp: unregister_def ol_inv_def ring_def)
  define X where "X = set_iter n ((iters V n)\<lparr>it_index := it_index (iters V m), it_max := it_max (iters V m)\<rparr>) V"
  have nl: "it_list (iters V n) = None" using live_iter(2) [OF V(2) n(1)] by simp
  then have X: "abstracts X ?a" unfolding X_def by (intro abstracts_outside [OF V(2) n(1)]) simp
  have code: "Iter_assign L W n m = (case it_list (iters V m) of None \<Rightarrow> Inr X | Some l \<Rightarrow> SetList L X n l)"
    using V(1) False set_list_index [OF nl, of L] unfolding Iter_assign_def leave_def X_def
    by (auto simp: rbind_eq_Inr set_iter_def SetList_def Let_def split: option.splits if_splits)
  show ?thesis
  proof (cases "m \<in> set (regs ?a)")
    case True
    have m: "it_list (iters V m) = Some (live_iterators V)" "iter_ok V (iters V m)" "cursors ?a m = cursor_at (ahead V (iters V m))"
      using live_iter(1) [OF V(2) True] by auto
    have k: "iter_ok X (iters X n)" "ahead X (iters X n) = ahead V (iters V m)" "live_iterators X = live_iterators V"
      using m(2) by (auto simp: X_def set_iter_def iter_ok_def ahead_def clamped_max_index_def)
    from X n k(1) obtain Y where "SetList L X n (live_iterators X) = Inr Y"
      "abstracts Y (?a\<lparr>regs := regs ?a @ [n], cursors := (cursors ?a)(n := cursor_at (ahead X (iters X n)))\<rparr>)"
      by (rule set_list_abstracts)
    then show ?thesis using code m k True False by (simp add: quiet_def copy_cursor_def)
  next
    case out: False
    have "(cursors ?a)(n := Null) = cursors ?a" using live_iter(2) [OF V(2) n(1)] by auto
    then show ?thesis using code X out live_iter(2) [OF V(2) out] False by (simp add: quiet_def copy_cursor_def)
  qed
qed (use assms(1) in \<open>simp add: quiet_def Iter_assign_def\<close>)

lemma sim_step:
  assumes "abstracts W a" "legal a op"
  shows "sim (code_step L W op) (spec_step a op)"
  using assms
  by (cases op) (simp_all only: sim_add sim_remove sim_clear sim_begin sim_copy sim_assign sim_inc sim_at_end sim_deref sim_drop
    sim_has sim_is_empty sim_delete)

lemma sim_run:
  "abstracts W a \<Longrightarrow> legal_run a ops \<Longrightarrow>
   (case run_list spec_step a ops of
      Inl f \<Rightarrow> run_list (code_step L) W ops = Inl f
    | Inr (ys, b) \<Rightarrow> \<exists>V. run_list (code_step L) W ops = Inr (ys, V) \<and> abstracts V b)"
proof (induction ops arbitrary: W a)
  case (Cons op ops)
  then have s: "sim (code_step L W op) (spec_step a op)" by (intro sim_step) auto
  show ?case
  proof (cases "spec_step a op")
    case (Inr r)
    then obtain y b where r: "spec_step a op = Inr (y, b)" by (cases r) auto
    then obtain V where V: "code_step L W op = Inr (y, V)" "abstracts V b" using s by auto
    show ?thesis using Cons.IH [OF V(2)] Cons.prems(2) r V(1) by (cases "run_list spec_step b ops") auto
  qed (use s in simp)
qed simp

end

section \<open>Programs\<close>

definition spec_new :: "ObserverListPolicy \<Rightarrow> bool \<Rightarrow> storage_type \<Rightarrow> addr \<Rightarrow> (addr \<Rightarrow> bool) \<Rightarrow> ol_spec" where
  "spec_new pol re st root al = \<lparr>members = [], deferred = 0, regs = [], cursors = (\<lambda>n. Null), living = al, spec_policy = pol,
     reentrant = re, spec_storage = st, spec_root = root\<rparr>"

definition outputs :: "('b list \<times> 's) res \<Rightarrow> 'b list res" where
  "outputs r = rbind r (\<lambda>(ys, s). Inr ys)"

lemma new_abstracts:
  assumes "link_nodes L" "\<forall>n. it_list (its n) = None"
  shows "abstracts (ObserverList_new L pol ce re st root h its al) (spec_new pol re st root al)"
  using link_nodes.new_ring [OF assms(1)] assms(2)
  by (auto simp: abstracts_def ol_inv_def ObserverList_new_def spec_new_def)

text \<open>
  C36. Any program over the list and any number of iterators, that adds, removes and destroys observers and copies, moves and drops
  iterators in any order, gives the results of the specification, failed checks included.
\<close>

theorem observer_list_refines:
  assumes "link_nodes L" and "\<forall>n. it_list (its n) = None" and "legal_run (spec_new pol re st root al) ops"
  shows "outputs (run_list (code_step L) (ObserverList_new L pol ce re st root h its al) ops) =
    outputs (run_list spec_step (spec_new pol re st root al) ops)"
  using link_nodes.sim_run [OF assms(1) new_abstracts [OF assms(1,2)] assms(3), of ce h]
  by (auto simp: outputs_def split: sum.splits)

theorem observer_list_refines_witness:
  "outputs (run_list (code_step std_links) (ObserverList_new std_links NOTIFY_ALL False False CheckedObserverAdapter 0 (\<lambda>n. LinkNode)
      (\<lambda>n. \<lparr>it_list = None, it_index = 0, it_max = 0\<rparr>) (\<lambda>x. True))
      [Add 10, Add 11, Begin 1, Remove 10, Delete 10, Add 12, Inc 1, Deref 1, Inc 1, Deref 1, Inc 1, AtEndOf 1 2, Drop 1, IsEmpty]) =
    Inr [Unit, Unit, Unit, Unit, Unit, Unit, Unit, Obs 11, Unit, Obs 12, Unit, Bool True, Unit, Bool False]"
  using observer_list_refines [OF std_nodes.link_nodes_axioms, of "\<lambda>n. \<lparr>it_list = None, it_index = 0, it_max = 0\<rparr>"
      NOTIFY_ALL False CheckedObserverAdapter 0 "\<lambda>x. True"
      "[Add 10, Add 11, Begin 1, Remove 10, Delete 10, Add 12, Inc 1, Deref 1, Inc 1, Deref 1, Inc 1, AtEndOf 1 2, Drop 1, IsEmpty]"
      False "\<lambda>n. LinkNode"]
  by (simp add: spec_new_def outputs_def unregister_def size_max_def)

end
