(* ===== verification/ObserverNotify.thy ===== *)
theory ObserverNotify
  imports ObserverProps
begin

text \<open>
  The loop over the list that the comment of observer_list.h shows, with observers that remove themselves and others
  while they are notified; lists and observers that are destroyed too early; the failed check of \<open>Clear\<close>.
\<close>

text \<open>The specification state of a list in its invariant.\<close>

definition abstraction :: "observer_list \<Rightarrow> addr list \<Rightarrow> ol_spec" where
  "abstraction W R = \<lparr>members = somes (observers W), deferred = length (observers W) - length (somes (observers W)), regs = R,
     cursors = (\<lambda>n. if n \<in> set R then cursor_at (ahead W (iters W n)) else Null), living = alive W, spec_policy = policy W,
     reentrant = allow_reentrancy W, spec_storage = storage W, spec_root = live_iterators W\<rparr>"

lemma abstraction_abstracts: "ol_inv W R \<Longrightarrow> abstracts W (abstraction W R)"
  by (simp add: abstracts_def abstraction_def)

section \<open>Notification\<close>

text \<open>\<open>for (Observer& obs : observers_) obs.OnFoo(this)\<close>, with the iterators \<open>n\<close> and \<open>e\<close> of the loop. The call of an observer runs the
  operations of \<open>react\<close>.\<close>

primrec notify_loop ::
  "nat \<Rightarrow> link_lib \<Rightarrow> (addr \<Rightarrow> ol_op list) \<Rightarrow> observer_list \<Rightarrow> addr \<Rightarrow> addr \<Rightarrow> (addr list \<times> observer_list) res" where
  "notify_loop 0 L react W n e = Inl Diverges"
| "notify_loop (Suc fuel) L react W n e =
     rbind (code_step L W (AtEndOf n e)) (\<lambda>(b, W).
     if b = Bool True then Inr ([], W)
     else
       rbind (Iter_deref W n) (\<lambda>x.
       rbind (run_list (code_step L) W (react x)) (\<lambda>(ys, W).
       rbind (Iter_inc W n) (\<lambda>W.
       rbind (notify_loop fuel L react W n e) (\<lambda>(xs, W). Inr (x # xs, W))))))"

definition notify :: "nat \<Rightarrow> link_lib \<Rightarrow> (addr \<Rightarrow> ol_op list) \<Rightarrow> observer_list \<Rightarrow> addr \<Rightarrow> addr \<Rightarrow> (addr list \<times> observer_list) res" where
  "notify fuel L react W n e =
     rbind (ol_begin L W n) (\<lambda>W.
     rbind (notify_loop fuel L react W n e) (\<lambda>(xs, W).
     rbind (Iter_destroy L W n) (\<lambda>W. Inr (xs, W))))"

lemma abstracts_distinct:
  assumes "abstracts W a"
  shows "distinct (members a)" and "cursors a n = At c xs \<Longrightarrow> distinct xs"
proof -
  have i: "ol_inv W (regs a)" using assms by (rule abstracts_inv)
  then show "distinct (members a)" using assms by (simp add: abstracts_def ol_inv_def)
  show "distinct xs" if "cursors a n = At c xs"
  proof -
    have "cursor_at (ahead W (iters W n)) = At c xs" using that assms by (auto simp: abstracts_def split: if_splits)
    then obtain p ps where "ahead W (iters W n) = p # ps" "xs = somes ps" by (auto simp: cursor_at_def split: list.splits)
    then show ?thesis using distinct_ahead [OF i, of "iters W n"] by (cases p) auto
  qed
qed

definition same_setup :: "ol_spec \<Rightarrow> ol_spec \<Rightarrow> bool" where
  "same_setup a b \<longleftrightarrow> regs b = regs a \<and> spec_root b = spec_root a"

context link_nodes
begin

lemma removals:
  "abstracts W a \<Longrightarrow>
   \<exists>zs V b. run_list (code_step L) W (map Remove ys) = Inr (zs, V) \<and> abstracts V b \<and> same_setup a b \<and>
     members b = filter (\<lambda>y. y \<notin> set ys) (members a) \<and>
     (\<forall>n c xs. cursors a n = At c xs \<longrightarrow> (\<exists>d. cursors b n = At d (filter (\<lambda>y. y \<notin> set ys) xs)))"
proof (induction ys arbitrary: W a)
  case (Cons y ys)
  define b where "b = snd (projr (spec_step a (Remove y)))"
  have b: "members b = filter (\<lambda>x. x \<noteq> y) (members a)" "same_setup a b" "cursors b = cursor_remove y \<circ> cursors a"
    using distinct_remove1_removeAll [OF abstracts_distinct(1) [OF Cons.prems], of y]
    by (auto simp: b_def same_setup_def removeAll_filter_not_eq intro: filter_cong)
  obtain V where V: "code_step L W (Remove y) = Inr (Unit, V)" "abstracts V b"
    using sim_remove [OF Cons.prems, of L y] by (auto simp: b_def)
  obtain zs X d where X: "run_list (code_step L) V (map Remove ys) = Inr (zs, X)" "abstracts X d" "same_setup b d"
      "members d = filter (\<lambda>x. x \<notin> set ys) (members b)"
      "\<And>n c xs. cursors b n = At c xs \<Longrightarrow> \<exists>e. cursors d n = At e (filter (\<lambda>y. y \<notin> set ys) xs)"
    using Cons.IH [OF V(2)] by blast
  have f: "filter (\<lambda>x. x \<notin> set ys) (filter (\<lambda>x. x \<noteq> y) xs) = filter (\<lambda>x. x \<notin> set (y # ys)) xs" for xs
    by (auto intro: filter_cong)
  have "\<exists>e. cursors d n = At e (filter (\<lambda>x. x \<notin> set (y # ys)) xs)" if "cursors a n = At c xs" for n c xs
  proof -
    have "remove1 y xs = filter (\<lambda>x. x \<noteq> y) xs"
      using distinct_remove1_removeAll [OF abstracts_distinct(2) [OF Cons.prems that], of y]
      by (auto simp: removeAll_filter_not_eq intro: filter_cong)
    then have "cursors b n = At (if c = Some y then None else c) (filter (\<lambda>x. x \<noteq> y) xs)" using that b(3) by simp
    then show ?thesis using X(5) f by metis
  qed
  moreover have "members d = filter (\<lambda>x. x \<notin> set (y # ys)) (members a)" using X(4) b(1) f by simp
  moreover have "same_setup a d" using b(2) X(3) by (simp add: same_setup_def)
  ultimately show ?case using V(1) X(1,2) by auto
qed (auto simp: same_setup_def)

lemma step_at_end:
  assumes "abstracts W a" "e \<notin> set (regs a)" "e \<noteq> spec_root a" "e \<noteq> n"
  obtains V where "code_step L W (AtEndOf n e) = Inr (Bool (cursors a n = Null \<or> cursors a n = AtEnd), V)" "abstracts V a"
  using sim_at_end [of W a n e L] assms by auto

lemma step_inc:
  assumes "abstracts W a" "cursors a n \<noteq> AtEnd"
  obtains V where "Iter_inc W n = Inr V" "abstracts V (a\<lparr>cursors := (cursors a)(n := advance (cursors a n))\<rparr>)"
  using sim_inc [of W a n L] assms by (auto simp: quiet_def rbind_eq_Inr)

lemma step_deref: "abstracts W a \<Longrightarrow> cursors a n = At (Some x) xs \<Longrightarrow> Iter_deref W n = Inr x"
  using sim_deref [of W a L n] by (auto simp: rbind_eq_Inr)

lemma begin_notify:
  assumes "abstracts W a" "n \<notin> set (regs a)" "n \<noteq> spec_root a" "e \<notin> set (regs a)" "e \<noteq> n" "reentrant a \<or> regs a = []"
  obtains U b where "ol_begin L W n = Inr U" "abstracts U b" "members b = members a" "spec_root b = spec_root a"
    "remove1 n (regs b) = regs a" "e \<notin> set (regs b)" "cursors b n = start (members a) \<or> members a = [] \<and> cursors b n = Null"
    "spec_storage b = spec_storage a"
proof -
  have s: "sim (code_step L W (Begin n)) (spec_step a (Begin n))" using assms by (intro sim_begin) auto
  show ?thesis
  proof (cases "members a = [] \<and> deferred a = 0")
    case True
    then have "cursors a n = Null" using assms(1,2) by (auto simp: abstracts_def)
    moreover from s True obtain U where "ol_begin L W n = Inr U" "abstracts U a" by (auto simp: quiet_def rbind_eq_Inr)
    ultimately show ?thesis using that True assms(2,4) by (simp add: remove1_idem)
  next
    case False
    let ?b = "a\<lparr>regs := regs a @ [n], cursors := (cursors a)(n := start (members a))\<rparr>"
    from s False assms(6) obtain U where "ol_begin L W n = Inr U" "abstracts U ?b" by (auto simp: quiet_def rbind_eq_Inr)
    moreover have "remove1 n (regs ?b) = regs a" using assms(2) by (simp add: remove1_append)
    ultimately show ?thesis using that assms(4,5) by simp
  qed
qed

lemma notify_loop_visits:
  assumes "abstracts W a" "cursors a n = start todo" "e \<notin> set (regs a)" "e \<noteq> spec_root a" "e \<noteq> n" "length todo < fuel"
  shows "\<exists>V b. notify_loop fuel L (\<lambda>x. map Remove (removes x)) W n e = Inr (visit removes todo, V) \<and> abstracts V b \<and> same_setup a b \<and>
    members b = filter (\<lambda>y. \<forall>x \<in> set (visit removes todo). y \<notin> set (removes x)) (members a)"
  using assms
proof (induction fuel arbitrary: W a todo)
  case (Suc fuel)
  obtain U where U: "code_step L W (AtEndOf n e) = Inr (Bool (cursors a n = Null \<or> cursors a n = AtEnd), U)" "abstracts U a"
    using Suc.prems by (rule_tac step_at_end [of W a e n]) auto
  show ?case
  proof (cases todo)
    case Nil
    then show ?thesis using Suc.prems(2) U by (auto simp: same_setup_def simp del: code_step.simps)
  next
    case (Cons x xs)
    have c: "cursors a n = At (Some x) xs" using Suc.prems(2) Cons by simp
    obtain zs V b where V: "run_list (code_step L) U (map Remove (removes x)) = Inr (zs, V)" "abstracts V b" "same_setup a b"
      "members b = filter (\<lambda>y. y \<notin> set (removes x)) (members a)"
      "\<exists>d. cursors b n = At d (filter (\<lambda>y. y \<notin> set (removes x)) xs)"
      using removals [OF U(2), of "removes x"] c by blast
    then obtain X where X: "Iter_inc V n = Inr X" "abstracts X (b\<lparr>cursors := (cursors b)(n := advance (cursors b n))\<rparr>)"
      by (rule_tac step_inc [OF V(2), of n]) auto
    let ?b = "b\<lparr>cursors := (cursors b)(n := advance (cursors b n))\<rparr>" and ?t = "filter (\<lambda>y. y \<notin> set (removes x)) xs"
    have "cursors ?b n = start ?t" using V(5) by auto
    moreover have "e \<notin> set (regs ?b)" "e \<noteq> spec_root ?b" using V(3) Suc.prems(3,4) by (auto simp: same_setup_def)
    moreover have "length ?t < fuel" using Suc.prems(6) Cons
      by (intro le_less_trans [OF length_filter_le]) simp
    ultimately obtain Y d where Y: "notify_loop fuel L (\<lambda>x. map Remove (removes x)) X n e = Inr (visit removes ?t, Y)" "abstracts Y d"
      "same_setup ?b d" "members d = filter (\<lambda>y. \<forall>x \<in> set (visit removes ?t). y \<notin> set (removes x)) (members ?b)"
      using Suc.IH [OF X(2), of ?t] Suc.prems(5) by blast
    have "members d = filter (\<lambda>y. \<forall>x \<in> set (visit removes todo). y \<notin> set (removes x)) (members a)"
      using Y(4) V(4) Cons by (auto intro: filter_cong)
    moreover have "same_setup a d" using V(3) Y(3) by (simp add: same_setup_def)
    ultimately show ?thesis
      using U(1) step_deref [OF U(2) c] V(1) X(1) Y(1,2) c Cons by (auto simp del: code_step.simps)
  qed
qed simp

end

text \<open>
  C37. When observers remove themselves and others while the list is iterated, everyone who is left is notified exactly once and in
  order, nobody is notified after the removal, the loop ends, and afterwards exactly those are left whom nobody
  removed; if no other iterator is alive, the vector holds just these.
\<close>

theorem notification_visits:
  assumes "link_nodes L" and "ol_inv W R" and "distinct [n, e, live_iterators W]" and "set R \<inter> {n, e} = {}"
    and "allow_reentrancy W \<or> R = []" and "length (observers W) < fuel"
  shows "\<exists>V. notify fuel L (\<lambda>x. map Remove (removes x)) W n e = Inr (visit removes (somes (observers W)), V) \<and> ol_inv V R \<and>
    somes (observers V) = filter (\<lambda>y. \<forall>x \<in> set (visit removes (somes (observers W))). y \<notin> set (removes x)) (somes (observers W)) \<and>
    (R = [] \<longrightarrow> observers V = map Some (somes (observers V)))"
proof -
  define a where "a = abstraction W R"
  have a: "abstracts W a" "regs a = R" "spec_root a = live_iterators W" "members a = somes (observers W)" "reentrant a = allow_reentrancy W"
    using abstraction_abstracts [OF assms(2)] by (simp_all add: a_def abstraction_def)
  have len: "length (somes (observers W)) < fuel" using assms(6) length_somes(1) [of "observers W"] by simp
  obtain U b where U: "ol_begin L W n = Inr U" "abstracts U b" "members b = somes (observers W)" "spec_root b = live_iterators W"
    "remove1 n (regs b) = R" "e \<notin> set (regs b)" "cursors b n = start (somes (observers W)) \<or> somes (observers W) = [] \<and> cursors b n = Null"
    "spec_storage b = spec_storage a"
    using link_nodes.begin_notify [OF assms(1) a(1), of n e] assms(3-5) a by auto
  have "\<exists>V c. notify_loop fuel L (\<lambda>x. map Remove (removes x)) U n e = Inr (visit removes (somes (observers W)), V) \<and> abstracts V c \<and>
      same_setup b c \<and> members c = filter (\<lambda>y. \<forall>x \<in> set (visit removes (somes (observers W))). y \<notin> set (removes x)) (members b)"
  proof (cases "cursors b n = Null")
    case False
    then show ?thesis using link_nodes.notify_loop_visits [OF assms(1) U(2) _ U(6)] U(4,7) assms(3) len by auto
  next
    case True
    then have m: "somes (observers W) = []" using U(7) by (cases "somes (observers W)") auto
    from assms(1) U(2,6) obtain X where X: "code_step L U (AtEndOf n e) = Inr (Bool True, X)" "abstracts X b"
      using link_nodes.step_at_end [of L U b e n] U(4) assms(3) True by auto
    obtain f where "fuel = Suc f" using assms(6) by (cases fuel) auto
    then show ?thesis using X m U(3) by (auto simp: same_setup_def simp del: code_step.simps)
  qed
  then obtain V c where V: "notify_loop fuel L (\<lambda>x. map Remove (removes x)) U n e = Inr (visit removes (somes (observers W)), V)"
    "abstracts V c" "same_setup b c" "members c = filter (\<lambda>y. \<forall>x \<in> set (visit removes (somes (observers W))). y \<notin> set (removes x)) (members b)"
    by blast
  from assms(1) V(2) obtain X where X: "leave L V n = Inr X" "abstracts X (unregister n c)" by (rule link_nodes.leave_abstracts)
  have "regs (unregister n c) = R" "members (unregister n c) = members c"
    using V(3) U(5) by (simp_all add: unregister_def same_setup_def)
  then have "ol_inv X R" "somes (observers X) = members c" using X(2) by (auto simp: abstracts_def)
  moreover have "map Some (somes (observers X)) = observers X" if "R = []"
    using that \<open>ol_inv X R\<close> somes_full [of "observers X"] by (auto simp: ol_inv_def)
  ultimately show ?thesis using U(1,3) V(1,4) X(1) by (auto simp: notify_def Iter_destroy_def leave_def)
qed

text \<open>A list of three observers, to run the code on.\<close>

definition demo_list :: observer_list where
  "demo_list = (ObserverList_new std_links NOTIFY_ALL False True CheckedObserverAdapter 0 (\<lambda>n. LinkNode)
     (\<lambda>n. \<lparr>it_list = None, it_index = 0, it_max = 0\<rparr>) (\<lambda>x. True))\<lparr>observers := [Some 10, Some 11, Some 12], observers_count := 3\<rparr>"

lemma demo_list_inv: "ol_inv demo_list []" "observers demo_list = [Some 10, Some 11, Some 12]" "live_iterators demo_list = 0"
    "allow_reentrancy demo_list" "storage demo_list = CheckedObserverAdapter"
  using std_nodes.new_ring by (auto simp: demo_list_def ObserverList_new_def ol_inv_def size_max_def)

theorem notification_visits_witness:
  "\<exists>V. notify 4 std_links (\<lambda>x. map Remove (if x = 10 then [10, 11] else [])) demo_list 1 2 = Inr ([10, 12], V) \<and> observers V = [Some 12]"
  using notification_visits [OF std_nodes.link_nodes_axioms demo_list_inv(1), of 1 2 4 "\<lambda>x. if x = 10 then [10, 11] else []"]
  by (auto simp: demo_list_inv)

section \<open>Destruction and failed checks\<close>

text \<open>A list that is destroyed while it is iterated leaves iterators that are at the end, may be moved and dropped, and never touch it.\<close>

lemma check_empty_invalidate: "check_empty (Invalidate L W n) = check_empty W"
  by (simp add: Invalidate_def set_iter_def)

lemma invalidate_all_exact:
  assumes "link_nodes L"
  shows "ring (links W) (live_iterators W) R \<Longrightarrow>
    \<forall>n. it_list (iters W n) = (if n \<in> set R then Some (live_iterators W) else None) \<Longrightarrow> length R < fuel \<Longrightarrow>
    \<exists>V. invalidate_all fuel L W = Inr V \<and> ring (links V) (live_iterators V) [] \<and> (\<forall>n. it_list (iters V n) = None) \<and>
      observers V = observers W \<and> alive V = alive W \<and> storage V = storage W \<and> check_empty V = check_empty W"
proof (induction fuel arbitrary: W R)
  case (Suc fuel)
  show ?case
  proof (cases R)
    case (Cons n S)
    have r: "ring (RemoveFromList L (links W) n) (live_iterators W) S" "n \<notin> set S" "it_list (iters W n) \<noteq> None"
      using link_nodes.remove_node [OF assms Suc.prems(1), of n] Suc.prems(1,2) Cons by (auto simp: ring_def)
    define X where "X = Invalidate L W n"
    have "\<exists>V. invalidate_all fuel L X = Inr V \<and> ring (links V) (live_iterators V) [] \<and> (\<forall>n. it_list (iters V n) = None) \<and>
        observers V = observers X \<and> alive V = alive X \<and> storage V = storage X \<and> check_empty V = check_empty X"
      using r Suc.prems(2,3) Cons by (intro Suc.IH [of X S]) (auto simp: X_def, simp_all add: Invalidate_def set_iter_def)
    then obtain V where "invalidate_all fuel L (Invalidate L W n) = Inr V" "ring (links V) (live_iterators V) []"
      "\<forall>n. it_list (iters V n) = None" "observers V = observers W" "alive V = alive W" "storage V = storage W" "check_empty V = check_empty W"
      unfolding X_def by (auto simp: check_empty_invalidate)
    then show ?thesis using ring_empty [OF Suc.prems(1)] ring_ends(1) [OF Suc.prems(1)] Cons by auto
  qed (use Suc.prems ring_empty [OF Suc.prems(1)] in auto)
qed simp

theorem iterators_survive_list:
  assumes "link_nodes L" and "ol_inv W R" and "length R < fuel"
  shows "\<exists>V. ObserverList_destroy fuel L W = (if check_empty W then dcheck (somes (observers W) = []) (Inr V) else Inr V) \<and>
    (\<forall>n. is_end V (iters V n) \<and> Iter_inc V n = Inr V \<and> Iter_destroy L V n = Inr V)"
proof -
  obtain V where V: "invalidate_all fuel L W = Inr V" "ring (links V) (live_iterators V) []" "\<forall>n. it_list (iters V n) = None"
      "observers V = observers W" "alive V = alive W" "storage V = storage W" "check_empty V = check_empty W"
    using invalidate_all_exact [OF assms(1), of W R fuel] assms(2,3) by (auto simp: ol_inv_def)
  let ?V = "if check_empty W then V\<lparr>observers := filter (\<lambda>p. p \<noteq> None) (observers W)\<rparr> else V"
  have "Compact V = Inr (V\<lparr>observers := filter (\<lambda>p. p \<noteq> None) (observers W)\<rparr>)"
    using erase_marked_exact [of "observers W" "alive W" "storage W", OF ol_inv_alive [OF assms(2)]] V by (simp add: Compact_def)
  moreover have "filter (\<lambda>p. p \<noteq> None) (observers W) = [] \<longleftrightarrow> somes (observers W) = []"
    by (auto simp: somes_none filter_empty_conv)
  ultimately have "ObserverList_destroy fuel L W = (if check_empty W then dcheck (somes (observers W) = []) (Inr ?V) else Inr ?V)"
    using V(1,7) by (simp add: ObserverList_destroy_def guardr_def)
  moreover have "is_end ?V (iters ?V n) \<and> Iter_inc ?V n = Inr ?V \<and> Iter_destroy L ?V n = Inr ?V" for n
    using V(3) by (simp add: is_end_def Iter_inc_def Iter_destroy_def IsOnlyRemainingNode_def Invalidate_def)
  ultimately show ?thesis by blast
qed

text \<open>
  C38. \<open>Clear\<close> during an iteration marks every entry, and the checked adapter refuses to mark an entry twice: after a removal
  in the same iteration it fails, although clearing is meant to work then.
\<close>

theorem clear_after_removal_fails:
  assumes "link_nodes L" and "ol_inv W R" and "R \<noteq> []" and "Some x \<in> set (observers W)" and "storage W = CheckedObserverAdapter"
  shows "\<exists>V. RemoveObserver W (Some x) = Inr V \<and> ol_Clear V = Inl DCheckFailed"
proof -
  let ?a = "abstraction W R"
  have a: "abstracts W ?a" using assms(2) by (rule abstraction_abstracts)
  then obtain V where V: "RemoveObserver W (Some x) = Inr V" "abstracts V (snd (projr (spec_step ?a (Remove x))))"
    using sim_remove [OF a, of L x] by (auto simp: quiet_def rbind_eq_Inr)
  then have "sim (code_step L V Clear) (Inl DCheckFailed)"
    using sim_clear [OF V(2), of L] assms(3,4,5) by (simp add: abstraction_def guardr_def)
  then show ?thesis using V(1) by (auto simp: quiet_def rbind_eq_Inl)
qed

theorem clear_after_removal_fails_witness:
  "\<exists>U V. ol_begin std_links demo_list 5 = Inr U \<and> RemoveObserver U (Some 10) = Inr V \<and> ol_Clear V = Inl DCheckFailed"
proof -
  have a: "abstracts demo_list (abstraction demo_list [])" "members (abstraction demo_list []) = [10, 11, 12]"
      "regs (abstraction demo_list []) = []" "spec_root (abstraction demo_list []) = 0"
      "spec_storage (abstraction demo_list []) = CheckedObserverAdapter"
    using abstraction_abstracts [OF demo_list_inv(1)] by (simp_all add: abstraction_def demo_list_inv)
  obtain U b where U: "ol_begin std_links demo_list 5 = Inr U" "abstracts U b" "members b = [10, 11, 12]"
      "cursors b 5 = At (Some 10) [11, 12]" "spec_storage b = CheckedObserverAdapter"
    by (rule std_nodes.begin_notify [of demo_list "abstraction demo_list []" 5 6]) (simp_all add: a)
  have r: "regs b \<noteq> []" using U(2,4) by (auto simp: abstracts_def)
  have "somes (observers U) = [10, 11, 12]" "storage U = CheckedObserverAdapter" using U(2,3,5) by (auto simp: abstracts_def)
  moreover from this(1) have "10 \<in> set (somes (observers U))" by simp
  then have "Some 10 \<in> set (observers U)" by (simp only: set_somes mem_Collect_eq)
  ultimately show ?thesis
    using clear_after_removal_fails [OF std_nodes.link_nodes_axioms abstracts_inv [OF U(2)] r, of 10] U(1) by blast
qed

text \<open>An observer that was destroyed without leaving the list stops the next iteration.\<close>

theorem destroyed_observer_stops_iteration:
  assumes "link_nodes L" and "ol_inv W []" and "observers W = Some x # ps" and "storage W = CheckedObserverAdapter" and "n \<noteq> live_iterators W"
  shows "ol_begin L (W\<lparr>alive := (alive W)(x := False)\<rparr>) n = Inl CheckFailed"
proof -
  let ?h = "ll_Append L ((links W)(n := LinkNode)) (live_iterators W) n"
  have "ring ((links W)(n := LinkNode)) (live_iterators W) []"
    using assms(2,5) by (intro ring_outside) (auto simp: ol_inv_def)
  then have "ring ?h (live_iterators W) [n]" using link_nodes.append_ring [OF assms(1), of "(links W)(n := LinkNode)" _ "[]" n] assms(5) by simp
  then have "ll_head ?h (live_iterators W) = ll_tail ?h (live_iterators W)" using ring_single by fastforce
  moreover have "0 < size_max" by (simp add: size_max_def)
  ultimately show ?thesis using assms(3,4)
    by (auto simp: ol_begin_def Iter_new_def fresh_iter_def set_iter_def SetList_def IsOnlyRemainingNode_def EnsureValidIndex_def
        clamped_max_index_def skip_marked.simps [of _ _ 0] WasInvalidated_def)
qed

end
