(* ===== verification/IdMap.thy ===== *)
theory IdMap
  imports FlatMapSpec "HOL-Library.Multiset"
begin

text \<open>
  base/containers/id_map.h: a map from numbers to objects that gives out the numbers, and from which entries may be
  removed while it is iterated: their numbers go to a flat set, and they leave the table with the last iterator. The
  order of the hash table is unspecified: where an entry goes, and whether the table is rehashed, is decided by a
  parameter. A value is a pointer, which may be null. An iterator is the key of its node or the end, with the number of rehashes
  that it has seen.
\<close>

section \<open>State\<close>

type_synonym 'v table = "(int \<times> 'v option) list"

type_synonym 'v placing = "'v table \<Rightarrow> int \<times> 'v option \<Rightarrow> 'v table \<times> bool"

record 'v idmap =
  iteration_depth :: int
  removed_ids :: "int list"
  next_id :: int
  data :: "'v table"
  check_on_null_data :: bool
  rehashes :: nat

definition IDMap_new :: "'v idmap" where
  "IDMap_new = \<lparr>iteration_depth = 0, removed_ids = [], next_id = 1, data = [], check_on_null_data = False, rehashes = 0\<rparr>"

definition set_check_on_null_data :: "bool \<Rightarrow> 'v idmap \<Rightarrow> 'v idmap" where
  "set_check_on_null_data value m = m\<lparr>check_on_null_data := value\<rparr>"

text \<open>The operations of \<open>std::unordered_map\<close> that are used.\<close>

definition table_erase :: "int \<Rightarrow> 'v table \<Rightarrow> 'v table" where
  "table_erase k t = filter (\<lambda>e. fst e \<noteq> k) t"

definition table_assign :: "'v placing \<Rightarrow> int \<Rightarrow> 'v option \<Rightarrow> 'v idmap \<Rightarrow> 'v idmap" where
  "table_assign H k v m =
     (if map_of (data m) k = None
      then let (t, rehashed) = H (data m) (k, v) in m\<lparr>data := t, rehashes := (if rehashed then Suc (rehashes m) else rehashes m)\<rparr>
      else m\<lparr>data := map (\<lambda>e. if fst e = k then (k, v) else e) (data m)\<rparr>)"

section \<open>Operations\<close>

definition IsRemoved :: "'v idmap \<Rightarrow> int \<Rightarrow> bool" where
  "IsRemoved m key \<longleftrightarrow> flat_find (<) id key (removed_ids m) \<noteq> length (removed_ids m)"

fun erase_all :: "int list \<Rightarrow> 'v table \<Rightarrow> 'v table" where
  "erase_all [] t = t"
| "erase_all (i # is) t = erase_all is (table_erase i t)"

definition IDMap_Compact :: "'v idmap \<Rightarrow> 'v idmap res" where
  "IDMap_Compact m =
     dcheck (iteration_depth m = 0) (Inr (m\<lparr>data := erase_all (removed_ids m) (data m), removed_ids := flat_clear (removed_ids m)\<rparr>))"

definition AddInternal :: "'v placing \<Rightarrow> 'v option \<Rightarrow> 'v idmap \<Rightarrow> (int \<times> 'v idmap) res" where
  "AddInternal H v m =
     dcheck (\<not> check_on_null_data m \<or> v \<noteq> None)
      (let this_id = next_id m in
       dcheck (map_of (data m) this_id = None)
        (guardr SignedOverflow (this_id < 2 ^ 31 - 1)
          (Inr (this_id, (table_assign H this_id v m)\<lparr>next_id := this_id + 1\<rparr>))))"

definition AddWithIDInternal :: "'v placing \<Rightarrow> 'v option \<Rightarrow> int \<Rightarrow> 'v idmap \<Rightarrow> 'v idmap res" where
  "AddWithIDInternal H v id' m =
     dcheck (\<not> check_on_null_data m \<or> v \<noteq> None)
      (if IsRemoved m id'
       then rbind (flat_erase_key (<) id id' (removed_ids m)) (\<lambda>(n, r). Inr (table_assign H id' v (m\<lparr>removed_ids := r\<rparr>)))
       else dcheck (map_of (data m) id' = None) (Inr (table_assign H id' v m)))"

definition IDMap_Add :: "'v placing \<Rightarrow> 'v option \<Rightarrow> 'v idmap \<Rightarrow> (int \<times> 'v idmap) res" where
  "IDMap_Add H v m = AddInternal H v m"

definition AddWithID :: "'v placing \<Rightarrow> 'v option \<Rightarrow> int \<Rightarrow> 'v idmap \<Rightarrow> 'v idmap res" where
  "AddWithID H v id' m = AddWithIDInternal H v id' m"

definition IDMap_Remove :: "int \<Rightarrow> 'v idmap \<Rightarrow> 'v idmap res" where
  "IDMap_Remove id' m =
     dcheck (\<not> (map_of (data m) id' = None \<or> IsRemoved m id'))
      (if iteration_depth m = 0 then Inr (m\<lparr>data := table_erase id' (data m)\<rparr>)
       else Inr (m\<lparr>removed_ids := snd (flat_insert (<) id id' (removed_ids m))\<rparr>))"

definition IDMap_Replace :: "int \<Rightarrow> 'v option \<Rightarrow> 'v idmap \<Rightarrow> ('v option \<times> 'v idmap) res" where
  "IDMap_Replace id' new_data m =
     dcheck (\<not> check_on_null_data m \<or> new_data \<noteq> None)
      (dcheck (map_of (data m) id' \<noteq> None)
        (dcheck (\<not> IsRemoved m id')
          (Inr (the (map_of (data m) id'), m\<lparr>data := map (\<lambda>e. if fst e = id' then (id', new_data) else e) (data m)\<rparr>))))"

definition IDMap_Clear :: "'v idmap \<Rightarrow> 'v idmap res" where
  "IDMap_Clear m =
     (if iteration_depth m = 0 then Inr (m\<lparr>data := []\<rparr>)
      else rbind (flat_insert_range (<) id True (map fst (data m)) (removed_ids m)) (\<lambda>r. Inr (m\<lparr>removed_ids := r\<rparr>)))"

definition IDMap_size :: "'v idmap \<Rightarrow> nat" where
  "IDMap_size m =
     (if length (removed_ids m) \<le> length (data m) then length (data m) - length (removed_ids m)
      else length (data m) + 2 ^ 64 - length (removed_ids m))"

definition IDMap_IsEmpty :: "'v idmap \<Rightarrow> bool" where
  "IDMap_IsEmpty m \<longleftrightarrow> IDMap_size m = 0"

definition IDMap_Lookup :: "'v idmap \<Rightarrow> int \<Rightarrow> 'v option" where
  "IDMap_Lookup m id' =
     (case map_of (data m) id' of None \<Rightarrow> None | Some None \<Rightarrow> None | Some (Some x) \<Rightarrow> if IsRemoved m id' then None else Some x)"

section \<open>Iterators\<close>

record id_iter =
  at_key :: "int option"
  seen_rehashes :: nat

text \<open>The entries from the node of an iterator on; using an iterator behind the end, of another table or of an erased node is a fault.\<close>

fun entries_from :: "int \<Rightarrow> 'v table \<Rightarrow> 'v table" where
  "entries_from k [] = []"
| "entries_from k (e # t) = (if fst e = k then e # t else entries_from k t)"

definition table_at :: "'v idmap \<Rightarrow> id_iter \<Rightarrow> 'v table res" where
  "table_at m it =
     (case at_key it of
        None \<Rightarrow> Inr []
      | Some k \<Rightarrow> guardr DeadObject (seen_rehashes it = rehashes m \<and> map_of (data m) k \<noteq> None) (Inr (entries_from k (data m))))"

definition iter_to :: "'v idmap \<Rightarrow> 'v table \<Rightarrow> id_iter" where
  "iter_to m t = \<lparr>at_key = (case t of [] \<Rightarrow> None | e # _ \<Rightarrow> Some (fst e)), seen_rehashes = rehashes m\<rparr>"

fun skip_removed :: "'v idmap \<Rightarrow> 'v table \<Rightarrow> 'v table" where
  "skip_removed m [] = []"
| "skip_removed m (e # t) = (if IsRemoved m (fst e) then skip_removed m t else e # t)"

definition SkipRemovedEntries :: "'v idmap \<Rightarrow> id_iter \<Rightarrow> id_iter res" where
  "SkipRemovedEntries m it = rbind (table_at m it) (\<lambda>t. Inr (iter_to m (skip_removed m t)))"

definition iter_Init :: "'v idmap \<Rightarrow> id_iter \<Rightarrow> (id_iter \<times> 'v idmap) res" where
  "iter_Init m it =
     guardr SignedOverflow (iteration_depth m < 2 ^ 31 - 1)
      (let m = m\<lparr>iteration_depth := iteration_depth m + 1\<rparr> in
       rbind (SkipRemovedEntries m it) (\<lambda>it. Inr (it, m)))"

definition Iterator_new :: "'v idmap \<Rightarrow> (id_iter \<times> 'v idmap) res" where
  "Iterator_new m = iter_Init m (iter_to m (data m))"

definition Iterator_copy :: "'v idmap \<Rightarrow> id_iter \<Rightarrow> (id_iter \<times> 'v idmap) res" where
  "Iterator_copy m it = iter_Init m it"

definition Iterator_destroy :: "'v idmap \<Rightarrow> 'v idmap res" where
  "Iterator_destroy m =
     dcheck (0 < iteration_depth m)
      (let m = m\<lparr>iteration_depth := iteration_depth m - 1\<rparr> in
       if iteration_depth m = 0 then IDMap_Compact m else Inr m)"

definition IsAtEnd :: "'v idmap \<Rightarrow> id_iter \<Rightarrow> bool" where
  "IsAtEnd m it \<longleftrightarrow> at_key it = None"

definition GetCurrentKey :: "'v idmap \<Rightarrow> id_iter \<Rightarrow> int res" where
  "GetCurrentKey m it = rbind (table_at m it) (\<lambda>t. guardr OutOfRange (t \<noteq> []) (Inr (fst (hd t))))"

definition GetCurrentValue :: "'v idmap \<Rightarrow> id_iter \<Rightarrow> 'v option res" where
  "GetCurrentValue m it =
     rbind (table_at m it) (\<lambda>t. guardr OutOfRange (t \<noteq> [])
      (Inr (if snd (hd t) = None \<or> IsRemoved m (fst (hd t)) then None else snd (hd t))))"

definition iter_Advance :: "'v idmap \<Rightarrow> id_iter \<Rightarrow> id_iter res" where
  "iter_Advance m it =
     rbind (table_at m it) (\<lambda>t. guardr OutOfRange (t \<noteq> []) (SkipRemovedEntries m (iter_to m (tl t))))"

end
