(* ===== verification/IdMapProps.thy ===== *)
theory IdMapProps
  imports IdMap
begin

text \<open>
  What the map of ids promises: it is a partial map whatever iterations are running, with the order of the hash table as an
  interface.
\<close>

section \<open>The hash table and the set of removed ids\<close>

locale hash_table =
  fixes H :: "'v placing"
  assumes placed: "k \<notin> fst ` set t \<Longrightarrow> mset (fst (H t (k, v))) = add_mset (k, v) (mset t)"
    and order_kept: "k \<notin> fst ` set t \<Longrightarrow> \<not> snd (H t (k, v)) \<Longrightarrow> table_erase k (fst (H t (k, v))) = t"

text \<open>A table that puts every new entry in front, and one with a single bucket that is rehashed when it is full.\<close>

definition front_table :: "'v placing" where
  "front_table t e = (e # t, False)"

lemma erase_absent: "k \<notin> fst ` set t \<Longrightarrow> table_erase k t = t"
  by (auto simp: table_erase_def filter_id_conv)

interpretation front: hash_table front_table
  by unfold_locales (simp add: front_table_def, simp add: front_table_def table_erase_def filter_id_conv, auto)

lemma int_order: "strict_weak ((<) :: int \<Rightarrow> int \<Rightarrow> bool)"
  by unfold_locales auto

lemma int_equivalent [simp]: "equivalent (<) a b \<longleftrightarrow> a = b" for a b :: int
  by (auto simp: equivalent_def)

abbreviation sorted_ids :: "int list \<Rightarrow> bool" where
  "sorted_ids \<equiv> flat_ok (<) id"

lemma lookup_ids: "flat_lookup (<) id r k = (if k \<in> set r then Some k else None)" for k :: int
  by (induction r) (auto simp: flat_lookup_def)

lemma set_ids: "set r = {k. flat_lookup (<) id r k \<noteq> None}" for r :: "int list"
  by (auto simp: lookup_ids)

lemma find_ids: "sorted_ids r \<Longrightarrow> flat_find (<) id k r \<noteq> length r \<longleftrightarrow> k \<in> set r"
  using strict_weak.flat_find_lookup(1) [OF int_order, of id r k] by (auto simp: lookup_ids split: if_splits)

lemma insert_ids: "sorted_ids r \<Longrightarrow> sorted_ids (snd (flat_insert (<) id k r)) \<and> set (snd (flat_insert (<) id k r)) = insert k (set r)"
proof -
  assume r: "sorted_ids r"
  obtain it b r' where f: "emplace_key_args (<) id k k r = ((it, b), r')" by (metis prod.exhaust)
  note m = strict_weak.emplace_key_args_map [OF int_order r _ f]
  then show ?thesis using f by (auto simp: flat_insert_def set_ids [of r'] map_insert_def lookup_ids split: if_splits)
qed

lemma erase_ids: "sorted_ids r \<Longrightarrow> \<exists>n s. flat_erase_key (<) id k r = Inr (n, s) \<and> sorted_ids s \<and> set s = set r - {k}"
proof -
  assume "sorted_ids r"
  then obtain n s where s: "flat_erase_key (<) id k r = Inr (n, s)" "sorted_ids s" "flat_lookup (<) id s = map_erase (<) k (flat_lookup (<) id r)"
    using strict_weak.flat_erase_key_map [OF int_order, of id r k] by blast
  have "set s = set r - {k}" unfolding set_ids [of s] s(3) by (auto simp: map_erase_def lookup_ids)
  then show ?thesis using s(1,2) by blast
qed

lemma insert_range_ids: "sorted_ids r \<Longrightarrow> \<exists>s. flat_insert_range (<) id True ks r = Inr s \<and> sorted_ids s \<and> set s = set r \<union> set ks"
proof -
  assume "sorted_ids r"
  then obtain s where s: "flat_insert_range (<) id True ks r = Inr s" "sorted_ids s"
      "\<And>k. flat_lookup (<) id s k = (case flat_lookup (<) id r k of None \<Rightarrow> flat_lookup (<) id ks k | Some v \<Rightarrow> Some v)"
    using strict_weak.flat_insert_range_map [OF int_order, of id r True ks] by (auto simp: strict_weak.map_union_def [OF int_order])
  have "set s = set r \<union> set ks" unfolding set_ids [of s] s(3) by (auto simp: lookup_ids)
  then show ?thesis using s(1,2) by blast
qed

lemma sorted_ids_distinct: "sorted_ids r \<Longrightarrow> distinct r"
  by (auto simp: flat_ok_def value_comp_def distinct_conv_nth sorted_wrt_iff_nth_less) (metis nat_neq_iff order_less_irrefl)

section \<open>Specification\<close>

text \<open>The ids in use with their values, and those whose entries only leave with the last iterator.\<close>

record 'v id_spec =
  ids :: "int \<rightharpoonup> 'v option"
  dying :: "int set"
  depth :: int
  spec_next :: int
  spec_check :: bool

datatype 'v id_op = Add "'v option" | AddAt "'v option" int | Remove int | Replace int "'v option" | Clear | Lookup int | Size | IsEmpty
  | NewIterator | DropIterator

datatype 'v id_out = Unit | Key int | Value "'v option" | Count nat | Truth bool

definition drop_dying :: "'v id_spec \<Rightarrow> 'v id_spec" where
  "drop_dying a = a\<lparr>depth := depth a - 1, dying := (if depth a = 1 then {} else dying a)\<rparr>"

fun id_spec_step :: "'v id_spec \<Rightarrow> 'v id_op \<Rightarrow> ('v id_out \<times> 'v id_spec) res" where
  "id_spec_step a (Add v) =
     dcheck (\<not> spec_check a \<or> v \<noteq> None)
      (dcheck (ids a (spec_next a) = None \<and> spec_next a \<notin> dying a)
        (guardr SignedOverflow (spec_next a < 2 ^ 31 - 1)
          (Inr (Key (spec_next a), a\<lparr>ids := (ids a)(spec_next a \<mapsto> v), spec_next := spec_next a + 1\<rparr>))))"
| "id_spec_step a (AddAt v k) =
     dcheck (\<not> spec_check a \<or> v \<noteq> None)
      (dcheck (ids a k = None) (Inr (Unit, a\<lparr>ids := (ids a)(k \<mapsto> v), dying := dying a - {k}\<rparr>)))"
| "id_spec_step a (Remove k) =
     dcheck (ids a k \<noteq> None)
      (Inr (Unit, a\<lparr>ids := (ids a)(k := None), dying := (if depth a = 0 then dying a else insert k (dying a))\<rparr>))"
| "id_spec_step a (Replace k v) =
     dcheck (\<not> spec_check a \<or> v \<noteq> None)
      (dcheck (ids a k \<noteq> None) (Inr (Value (the (ids a k)), a\<lparr>ids := (ids a)(k \<mapsto> v)\<rparr>)))"
| "id_spec_step a Clear =
     Inr (Unit, a\<lparr>ids := Map.empty, dying := (if depth a = 0 then dying a else dying a \<union> dom (ids a))\<rparr>)"
| "id_spec_step a (Lookup k) = Inr (Value (case ids a k of None \<Rightarrow> None | Some v \<Rightarrow> v), a)"
| "id_spec_step a Size = Inr (Count (card (dom (ids a))), a)"
| "id_spec_step a IsEmpty = Inr (Truth (ids a = Map.empty), a)"
| "id_spec_step a NewIterator = guardr SignedOverflow (depth a < 2 ^ 31 - 1) (Inr (Unit, a\<lparr>depth := depth a + 1\<rparr>))"
| "id_spec_step a DropIterator = dcheck (0 < depth a) (Inr (Unit, drop_dying a))"

fun id_code_step :: "'v placing \<Rightarrow> 'v idmap \<Rightarrow> 'v id_op \<Rightarrow> ('v id_out \<times> 'v idmap) res" where
  "id_code_step H m (Add v) = rbind (IDMap_Add H v m) (\<lambda>(k, m). Inr (Key k, m))"
| "id_code_step H m (AddAt v k) = rbind (AddWithID H v k m) (\<lambda>m. Inr (Unit, m))"
| "id_code_step H m (Remove k) = rbind (IDMap_Remove k m) (\<lambda>m. Inr (Unit, m))"
| "id_code_step H m (Replace k v) = rbind (IDMap_Replace k v m) (\<lambda>(old, m). Inr (Value old, m))"
| "id_code_step H m Clear = rbind (IDMap_Clear m) (\<lambda>m. Inr (Unit, m))"
| "id_code_step H m (Lookup k) = Inr (Value (IDMap_Lookup m k), m)"
| "id_code_step H m Size = Inr (Count (IDMap_size m), m)"
| "id_code_step H m IsEmpty = Inr (Truth (IDMap_IsEmpty m), m)"
| "id_code_step H m NewIterator = rbind (Iterator_new m) (\<lambda>(it, m). Inr (Unit, m))"
| "id_code_step H m DropIterator = rbind (Iterator_destroy m) (\<lambda>m. Inr (Unit, m))"

definition id_inv :: "'v idmap \<Rightarrow> bool" where
  "id_inv m \<longleftrightarrow> distinct (map fst (data m)) \<and> sorted_ids (removed_ids m) \<and> set (removed_ids m) \<subseteq> fst ` set (data m) \<and>
     0 \<le> iteration_depth m \<and> (iteration_depth m = 0 \<longrightarrow> removed_ids m = [])"

definition id_abs :: "'v idmap \<Rightarrow> 'v id_spec" where
  "id_abs m = \<lparr>ids = (\<lambda>k. if k \<in> set (removed_ids m) then None else map_of (data m) k), dying = set (removed_ids m),
     depth = iteration_depth m, spec_next = next_id m, spec_check = check_on_null_data m\<rparr>"

definition id_sim :: "('v id_out \<times> 'v idmap) res \<Rightarrow> ('v id_out \<times> 'v id_spec) res \<Rightarrow> bool" where
  "id_sim r s \<longleftrightarrow> (case s of Inl f \<Rightarrow> r = Inl f | Inr (y, a) \<Rightarrow> \<exists>m. r = Inr (y, m) \<and> id_inv m \<and> id_abs m = a)"

lemma id_sim_simps [simp]:
  "id_sim r (Inl f) \<longleftrightarrow> r = Inl f" "id_sim r (Inr (y, a)) \<longleftrightarrow> (\<exists>m. r = Inr (y, m) \<and> id_inv m \<and> id_abs m = a)"
  by (auto simp: id_sim_def)

section \<open>The table\<close>

lemma IsRemoved_iff: "id_inv m \<Longrightarrow> IsRemoved m k \<longleftrightarrow> k \<in> set (removed_ids m)"
  by (simp add: IsRemoved_def id_inv_def find_ids)

lemma map_of_erase: "map_of (table_erase k t) = (map_of t)(k := None)"
  by (induction t) (auto simp: table_erase_def)

lemma keys_erase: "fst ` set (table_erase k t) = fst ` set t - {k}" "distinct (map fst t) \<Longrightarrow> distinct (map fst (table_erase k t))"
  by (auto simp: table_erase_def distinct_map intro: inj_on_subset)

lemma erase_all_filter: "erase_all ks t = filter (\<lambda>e. fst e \<notin> set ks) t"
  by (induction ks arbitrary: t) (auto simp: table_erase_def intro: filter_cong)

lemma map_of_update: "map_of (map (\<lambda>e. if fst e = k then (k, v) else e) t) = (if map_of t k = None then map_of t else (map_of t)(k \<mapsto> v))"
  by (induction t) (auto simp: fun_eq_iff split: if_splits)

lemma keys_update: "map fst (map (\<lambda>e. if fst e = k then (k, v) else e) t) = map fst t"
  by simp

context hash_table
begin

lemma assign_table:
  assumes "distinct (map fst (data m))"
  shows "map_of (data (table_assign H k v m)) = (map_of (data m))(k \<mapsto> v)"
    and "distinct (map fst (data (table_assign H k v m)))"
    and "fst ` set (data (table_assign H k v m)) = insert k (fst ` set (data m))"
proof -
  have "map_of (data (table_assign H k v m)) = (map_of (data m))(k \<mapsto> v) \<and> distinct (map fst (data (table_assign H k v m))) \<and>
      fst ` set (data (table_assign H k v m)) = insert k (fst ` set (data m))"
  proof (cases "map_of (data m) k = None")
    case True
    then have k: "k \<notin> fst ` set (data m)" by (simp add: map_of_eq_None_iff)
    obtain t r where t: "H (data m) (k, v) = (t, r)" by (metis prod.exhaust)
    have p: "mset t = add_mset (k, v) (mset (data m))" using placed [OF k, of v] t by simp
    then have "mset (map fst t) = mset (map fst ((k, v) # data m))" by simp
    then have d: "distinct (map fst t)" using assms k by (metis distinct.simps(2) list.map(2) list.set_map mset_eq_imp_distinct_iff fst_conv)
    have s: "set t = insert (k, v) (set (data m))" using p by (metis set_mset_add_mset_insert set_mset_mset)
    then have "map_of t = map_of ((k, v) # data m)" using d assms k by (intro map_of_eqI) auto
    then show ?thesis using True t d s by (auto simp: table_assign_def)
  next
    case False
    then have "k \<in> fst ` set (data m)" by (metis map_of_eq_None_iff)
    moreover have "fst ` set (map (\<lambda>e. if fst e = k then (k, v) else e) (data m)) = fst ` set (data m)"
      using keys_update [of k v "data m"] by (metis list.set_map)
    ultimately show ?thesis using False assms keys_update [of k v "data m"] map_of_update [of k v "data m"]
      by (auto simp: table_assign_def simp del: map_map)
  qed
  then show "map_of (data (table_assign H k v m)) = (map_of (data m))(k \<mapsto> v)"
    "distinct (map fst (data (table_assign H k v m)))"
    "fst ` set (data (table_assign H k v m)) = insert k (fst ` set (data m))" by auto
qed

end

lemma assign_fields [simp]:
  "removed_ids (table_assign H k v m) = removed_ids m" "iteration_depth (table_assign H k v m) = iteration_depth m"
  "next_id (table_assign H k v m) = next_id m" "check_on_null_data (table_assign H k v m) = check_on_null_data m"
  by (simp_all add: table_assign_def split: prod.split)

section \<open>Every operation refines the specification\<close>

lemma ids_None: "id_inv m \<Longrightarrow> ids (id_abs m) k = None \<longleftrightarrow> map_of (data m) k = None \<or> IsRemoved m k"
  by (simp add: id_abs_def IsRemoved_iff)

lemma removed_present: "id_inv m \<Longrightarrow> k \<in> set (removed_ids m) \<Longrightarrow> map_of (data m) k \<noteq> None"
  by (auto simp: id_inv_def map_of_eq_None_iff)

lemma dom_ids: "dom (ids (id_abs m)) = fst ` set (data m) - set (removed_ids m)"
proof -
  have "dom (ids (id_abs m)) = dom (map_of (data m)) - set (removed_ids m)" by (auto simp: id_abs_def dom_def split: if_splits)
  then show ?thesis by (simp add: dom_map_of_conv_image_fst)
qed

lemma size_exact: "id_inv m \<Longrightarrow> IDMap_size m = card (dom (ids (id_abs m)))"
proof -
  assume i: "id_inv m"
  have d: "card (fst ` set (data m)) = length (data m)" "card (set (removed_ids m)) = length (removed_ids m)"
    using i sorted_ids_distinct distinct_card [of "map fst (data m)"] distinct_card [of "removed_ids m"] by (auto simp: id_inv_def)
  have "card (fst ` set (data m) - set (removed_ids m)) = length (data m) - length (removed_ids m)"
    using i d by (subst card_Diff_subset) (auto simp: id_inv_def)
  moreover have "length (removed_ids m) \<le> length (data m)"
    using i d card_mono [of "fst ` set (data m)" "set (removed_ids m)"] by (auto simp: id_inv_def)
  ultimately show ?thesis by (simp add: IDMap_size_def dom_ids)
qed

lemma sim_lookup: "id_inv m \<Longrightarrow> IDMap_Lookup m k = (case ids (id_abs m) k of None \<Rightarrow> None | Some v \<Rightarrow> v)"
  by (auto simp: IDMap_Lookup_def id_abs_def IsRemoved_iff split: option.splits)

lemma sim_is_empty_map: "id_inv m \<Longrightarrow> IDMap_IsEmpty m \<longleftrightarrow> ids (id_abs m) = Map.empty"
proof -
  assume i: "id_inv m"
  then have "finite (dom (ids (id_abs m)))" by (simp add: dom_ids)
  then show ?thesis using size_exact [OF i] by (auto simp: IDMap_IsEmpty_def)
qed

lemma sim_remove_id: "id_inv m \<Longrightarrow> id_sim (id_code_step H m (Remove k)) (id_spec_step (id_abs m) (Remove k))"
proof (cases "ids (id_abs m) k = None")
  case True
  assume "id_inv m"
  then show ?thesis using True ids_None [of m k] by (auto simp: IDMap_Remove_def)
next
  case False
  assume i: "id_inv m"
  then have p: "map_of (data m) k \<noteq> None" "k \<notin> set (removed_ids m)" using False by (auto simp: ids_None IsRemoved_iff)
  have f: "sorted_ids (snd (flat_insert (<) id k (removed_ids m)))" "set (snd (flat_insert (<) id k (removed_ids m))) = insert k (set (removed_ids m))"
    using i insert_ids by (auto simp: id_inv_def)
  show ?thesis
  proof (cases "iteration_depth m = 0")
    case True
    then have "id_inv (m\<lparr>data := table_erase k (data m)\<rparr>)" using i keys_erase by (auto simp: id_inv_def)
    moreover have "id_abs (m\<lparr>data := table_erase k (data m)\<rparr>) = (id_abs m)\<lparr>ids := (ids (id_abs m))(k := None)\<rparr>"
      using i True by (auto simp: id_abs_def id_inv_def map_of_erase)
    ultimately show ?thesis using True False p i by (auto simp: IDMap_Remove_def IsRemoved_iff id_abs_def)
  next
    case depth: False
    let ?m = "m\<lparr>removed_ids := snd (flat_insert (<) id k (removed_ids m))\<rparr>"
    have "k \<in> fst ` set (data m)" using p(1) by (metis map_of_eq_None_iff)
    then have "id_inv ?m" using i f depth by (auto simp: id_inv_def)
    moreover have "id_abs ?m = (id_abs m)\<lparr>ids := (ids (id_abs m))(k := None), dying := insert k (dying (id_abs m))\<rparr>"
      using f by (auto simp: id_abs_def fun_eq_iff)
    moreover have "depth (id_abs m) \<noteq> 0" using depth by (simp add: id_abs_def)
    ultimately show ?thesis using depth False p i by (auto simp: IDMap_Remove_def IsRemoved_iff)
  qed
qed

lemma sim_replace: "id_inv m \<Longrightarrow> id_sim (id_code_step H m (Replace k v)) (id_spec_step (id_abs m) (Replace k v))"
proof (cases "ids (id_abs m) k = None")
  case True
  assume i: "id_inv m"
  then show ?thesis using True ids_None [OF i, of k] by (auto simp: IDMap_Replace_def guardr_def id_abs_def)
next
  case False
  assume i: "id_inv m"
  then have p: "map_of (data m) k \<noteq> None" "k \<notin> set (removed_ids m)" using False by (auto simp: ids_None IsRemoved_iff)
  let ?t = "map (\<lambda>e. if fst e = k then (k, v) else e) (data m)"
  have "map fst ?t = map fst (data m)" by (rule keys_update)
  then have "fst ` set ?t = fst ` set (data m)" "distinct (map fst ?t) = distinct (map fst (data m))" by (metis list.set_map)+
  then have "id_inv (m\<lparr>data := ?t\<rparr>)" using i unfolding id_inv_def by simp
  moreover have "map_of ?t = (map_of (data m))(k \<mapsto> v)" using p(1) map_of_update [of k v "data m"] by auto
  then have "id_abs (m\<lparr>data := ?t\<rparr>) = (id_abs m)\<lparr>ids := (ids (id_abs m))(k \<mapsto> v)\<rparr>"
    using p by (auto simp: id_abs_def fun_eq_iff)
  moreover have "the (ids (id_abs m) k) = the (map_of (data m) k)" using p by (simp add: id_abs_def)
  ultimately show ?thesis using False p i by (auto simp: IDMap_Replace_def IsRemoved_iff guardr_def) (simp_all add: id_abs_def)
qed

lemma sim_clear_map: "id_inv m \<Longrightarrow> id_sim (id_code_step H m Clear) (id_spec_step (id_abs m) Clear)"
proof -
  assume i: "id_inv m"
  obtain r where r: "flat_insert_range (<) id True (map fst (data m)) (removed_ids m) = Inr r" "sorted_ids r"
      "set r = set (removed_ids m) \<union> fst ` set (data m)"
    using insert_range_ids [of "removed_ids m" "map fst (data m)"] i by (auto simp: id_inv_def)
  then have s: "set r = fst ` set (data m)" using i by (auto simp: id_inv_def)
  have "(\<lambda>k. if k \<in> set r then None else map_of (data m) k) = Map.empty" using s by (auto simp: fun_eq_iff map_of_eq_None_iff)
  moreover have "dying (id_abs m) \<union> dom (ids (id_abs m)) = set r" unfolding dom_ids using s i by (auto simp: id_abs_def id_inv_def)
  ultimately have "id_abs (m\<lparr>removed_ids := r\<rparr>) = (id_abs m)\<lparr>ids := Map.empty, dying := dying (id_abs m) \<union> dom (ids (id_abs m))\<rparr>"
    by (simp add: id_abs_def cong: if_cong)
  moreover have "id_inv (m\<lparr>removed_ids := r\<rparr>)" if "iteration_depth m \<noteq> 0" using that i r(2) s by (simp add: id_inv_def)
  moreover have "id_inv (m\<lparr>data := []\<rparr>)" "id_abs (m\<lparr>data := []\<rparr>) = (id_abs m)\<lparr>ids := Map.empty\<rparr>" if "iteration_depth m = 0"
    using that i by (auto simp: id_inv_def id_abs_def)
  moreover have "depth (id_abs m) = iteration_depth m" by (simp add: id_abs_def)
  ultimately show ?thesis using r(1) by (cases "iteration_depth m = 0") (auto simp: IDMap_Clear_def)
qed

lemma erase_all_inv:
  assumes "id_inv m"
  shows "map_of (erase_all (removed_ids m) (data m)) = ids (id_abs m)" "distinct (map fst (erase_all (removed_ids m) (data m)))"
proof -
  have "map_of (filter (\<lambda>e. fst e \<notin> set r) t) k = (if k \<in> set r then None else map_of t k)" for r k and t :: "'a table"
    by (induction t) auto
  then show "map_of (erase_all (removed_ids m) (data m)) = ids (id_abs m)" by (auto simp: erase_all_filter id_abs_def)
  show "distinct (map fst (erase_all (removed_ids m) (data m)))"
    using assms by (auto simp: erase_all_filter id_inv_def distinct_map intro: inj_on_subset)
qed

lemma sim_drop_iterator: "id_inv m \<Longrightarrow> id_sim (id_code_step H m DropIterator) (id_spec_step (id_abs m) DropIterator)"
proof -
  assume i: "id_inv m"
  show ?thesis
  proof (cases "iteration_depth m = 1")
    case True
    let ?m = "m\<lparr>iteration_depth := 0, data := erase_all (removed_ids m) (data m), removed_ids := []\<rparr>"
    have "id_inv ?m" using erase_all_inv(2) [OF i] by (simp add: id_inv_def flat_ok_def)
    moreover have "id_abs ?m = drop_dying (id_abs m)" using True erase_all_inv(1) [OF i] by (simp add: id_abs_def drop_dying_def)
    ultimately show ?thesis using True by (simp add: Iterator_destroy_def IDMap_Compact_def flat_clear_def) (simp add: id_abs_def)
  next
    case False
    then show ?thesis using i by (auto simp: Iterator_destroy_def id_inv_def id_abs_def drop_dying_def guardr_def)
  qed
qed

lemma sim_new_iterator: "id_inv m \<Longrightarrow> id_sim (id_code_step H m NewIterator) (id_spec_step (id_abs m) NewIterator)"
proof -
  assume i: "id_inv m"
  let ?m = "m\<lparr>iteration_depth := iteration_depth m + 1\<rparr>"
  obtain t where "table_at ?m (iter_to m (data m)) = Inr t"
    by (cases "data m") (auto simp: table_at_def iter_to_def)
  moreover have "id_inv ?m" "id_abs ?m = (id_abs m)\<lparr>depth := depth (id_abs m) + 1\<rparr>" using i by (auto simp: id_inv_def id_abs_def)
  ultimately show ?thesis by (auto simp: Iterator_new_def iter_Init_def SkipRemovedEntries_def guardr_def Let_def) (simp_all add: id_abs_def)
qed

context hash_table
begin

lemma sim_add_new: "id_inv m \<Longrightarrow> id_sim (id_code_step H m (Add v)) (id_spec_step (id_abs m) (Add v))"
proof -
  assume i: "id_inv m"
  let ?k = "next_id m"
  have c: "ids (id_abs m) ?k = None \<and> ?k \<notin> dying (id_abs m) \<longleftrightarrow> map_of (data m) ?k = None"
    using removed_present [OF i, of ?k] by (auto simp: id_abs_def)
  have d: "distinct (map fst (data m))" using i by (simp add: id_inv_def)
  let ?m = "(table_assign H ?k v m)\<lparr>next_id := ?k + 1\<rparr>"
  have "id_inv ?m" using i assign_table [OF d, of ?k v] by (auto simp: id_inv_def)
  moreover have "id_abs ?m = (id_abs m)\<lparr>ids := (ids (id_abs m))(?k \<mapsto> v), spec_next := ?k + 1\<rparr>" if "map_of (data m) ?k = None"
    using that removed_present [OF i, of ?k] assign_table(1) [OF d, of ?k v] by (auto simp: id_abs_def fun_eq_iff)
  moreover have "spec_next (id_abs m) = ?k" "spec_check (id_abs m) = check_on_null_data m" by (simp_all add: id_abs_def)
  ultimately show ?thesis using c by (auto simp: IDMap_Add_def AddInternal_def guardr_def Let_def)
qed

lemma sim_add_at: "id_inv m \<Longrightarrow> id_sim (id_code_step H m (AddAt v k)) (id_spec_step (id_abs m) (AddAt v k))"
proof -
  assume i: "id_inv m"
  have d: "distinct (map fst (data m))" using i by (simp add: id_inv_def)
  obtain n r where r: "flat_erase_key (<) id k (removed_ids m) = Inr (n, r)" "sorted_ids r" "set r = set (removed_ids m) - {k}"
    using erase_ids [of "removed_ids m" k] i by (auto simp: id_inv_def)
  let ?m = "table_assign H k v (m\<lparr>removed_ids := r\<rparr>)"
  have t: "map_of (data ?m) = (map_of (data m))(k \<mapsto> v)" "distinct (map fst (data ?m))" "fst ` set (data ?m) = insert k (fst ` set (data m))"
    using assign_table [of "m\<lparr>removed_ids := r\<rparr>" k v] d by simp_all
  have "iteration_depth m = 0 \<longrightarrow> r = []" using r(3) i by (auto simp: id_inv_def)
  then have m: "id_inv ?m" "id_abs ?m = (id_abs m)\<lparr>ids := (ids (id_abs m))(k \<mapsto> v), dying := dying (id_abs m) - {k}\<rparr>"
    using i r t by (auto simp: id_inv_def id_abs_def fun_eq_iff)
  show ?thesis
  proof (cases "IsRemoved m k")
    case True
    then show ?thesis using m r(1) ids_None [OF i, of k] by (auto simp: AddWithID_def AddWithIDInternal_def guardr_def) (simp_all add: id_abs_def)
  next
    case False
    then have "set r = set (removed_ids m)" using r(3) IsRemoved_iff [OF i, of k] by simp
    then have "r = removed_ids m" using strict_weak.flat_canonical [OF int_order, of id r "removed_ids m"] r(2) i
      by (simp add: lookup_ids fun_eq_iff id_inv_def)
    then have "m\<lparr>removed_ids := r\<rparr> = m" by simp
    then show ?thesis using False m ids_None [OF i, of k] by (auto simp: AddWithID_def AddWithIDInternal_def guardr_def) (simp_all add: id_abs_def)
  qed
qed

lemma id_sim_step: "id_inv m \<Longrightarrow> id_sim (id_code_step H m op) (id_spec_step (id_abs m) op)"
proof (cases op)
  case (Lookup k)
  assume "id_inv m"
  then show ?thesis using Lookup by (simp add: sim_lookup)
next
  case Size
  assume "id_inv m"
  then show ?thesis using Size by (simp add: size_exact)
next
  case IsEmpty
  assume "id_inv m"
  then show ?thesis using IsEmpty by (simp add: sim_is_empty_map)
qed (simp_all only: sim_add_new sim_add_at sim_remove_id sim_replace sim_clear_map sim_new_iterator sim_drop_iterator)

lemma id_sim_run:
  "id_inv m \<Longrightarrow>
   (case run_list id_spec_step (id_abs m) ops of
      Inl f \<Rightarrow> run_list (id_code_step H) m ops = Inl f
    | Inr (ys, a) \<Rightarrow> \<exists>n. run_list (id_code_step H) m ops = Inr (ys, n) \<and> id_inv n \<and> id_abs n = a)"
proof (induction ops arbitrary: m)
  case (Cons op ops)
  have s: "id_sim (id_code_step H m op) (id_spec_step (id_abs m) op)" using Cons.prems by (rule id_sim_step)
  show ?case
  proof (cases "id_spec_step (id_abs m) op")
    case (Inr r)
    then obtain y a where r: "id_spec_step (id_abs m) op = Inr (y, a)" by (cases r) auto
    then obtain n where n: "id_code_step H m op = Inr (y, n)" "id_inv n" "id_abs n = a" using s by auto
    show ?thesis using Cons.IH [OF n(2)] r n(1,3) by (cases "run_list id_spec_step a ops") auto
  qed (use s in simp)
qed simp

end

section \<open>Programs\<close>

definition id_spec_new :: "'v id_spec" where
  "id_spec_new = \<lparr>ids = Map.empty, dying = {}, depth = 0, spec_next = 1, spec_check = False\<rparr>"

definition id_outputs :: "('b list \<times> 's) res \<Rightarrow> 'b list res" where
  "id_outputs r = rbind r (\<lambda>(ys, s). Inr ys)"

text \<open>
  C39. Whatever the order of the hash table, and whatever iterations are running, the map of ids behaves as a partial map: every
  result, every failed check and every number given out agree.
\<close>

theorem id_map_program_refines:
  fixes H :: "'v placing"
  assumes "hash_table H"
  shows "id_outputs (run_list (id_code_step H) IDMap_new ops) = id_outputs (run_list id_spec_step id_spec_new ops)"
proof -
  have i: "id_inv (IDMap_new :: 'v idmap)" "id_abs (IDMap_new :: 'v idmap) = id_spec_new"
    by (simp_all add: id_inv_def IDMap_new_def id_abs_def id_spec_new_def flat_ok_def)
  then show ?thesis using hash_table.id_sim_run [OF assms i(1), of ops] i(2) by (auto simp: id_outputs_def split: sum.splits)
qed

theorem id_map_program_refines_witness:
  "id_outputs (run_list (id_code_step front_table) IDMap_new
     [Add (Some True), Add (Some False), NewIterator, Remove 1, Size, Lookup 1, AddAt (Some False) 1, DropIterator, Lookup 1]) =
   Inr [Key 1, Key 2, Unit, Unit, Count 1, Value None, Unit, Unit, Value (Some False)]"
  using id_map_program_refines [OF front.hash_table_axioms,
      of "[Add (Some True), Add (Some False), NewIterator, Remove 1, Size, Lookup 1, AddAt (Some False) 1, DropIterator, Lookup 1]"]
  by (simp add: id_spec_new_def id_outputs_def drop_dying_def)

end
