(* ===== verification/IdMapIter.thy ===== *)
theory IdMapIter
  imports IdMapProps
begin

text \<open>
  Iterations over the map of ids whose body removes entries: the iterators stay valid and visit what is left.
\<close>

section \<open>Iteration\<close>

text \<open>
  A loop over the map, whose body removes other entries or its own: \<open>removes k\<close> is what it removes at \<open>k\<close>, if
  \<open>Lookup\<close> finds it.
\<close>

fun remove_present :: "int list \<Rightarrow> 'v idmap \<Rightarrow> 'v idmap res" where
  "remove_present [] m = Inr m"
| "remove_present (k # ks) m =
     rbind (if IDMap_Lookup m k \<noteq> None then IDMap_Remove k m else Inr m) (remove_present ks)"

primrec id_loop :: "nat \<Rightarrow> (int \<Rightarrow> int list) \<Rightarrow> 'v idmap \<Rightarrow> id_iter \<Rightarrow> ((int \<times> 'v option) list \<times> 'v idmap) res" where
  "id_loop 0 removes m it = Inl Diverges"
| "id_loop (Suc fuel) removes m it =
     (if IsAtEnd m it then Inr ([], m)
      else
        rbind (GetCurrentKey m it) (\<lambda>k.
        rbind (GetCurrentValue m it) (\<lambda>v.
        rbind (remove_present (removes k) m) (\<lambda>m.
        rbind (iter_Advance m it) (\<lambda>it.
        rbind (id_loop fuel removes m it) (\<lambda>(xs, m). Inr ((k, v) # xs, m)))))))"

definition id_iterate :: "nat \<Rightarrow> (int \<Rightarrow> int list) \<Rightarrow> 'v idmap \<Rightarrow> ((int \<times> 'v option) list \<times> 'v idmap) res" where
  "id_iterate fuel removes m =
     rbind (Iterator_new m) (\<lambda>(it, m).
     rbind (id_loop fuel removes m it) (\<lambda>(xs, m).
     rbind (Iterator_destroy m) (\<lambda>m. Inr (xs, m))))"

definition live_keys :: "'v idmap \<Rightarrow> 'v table \<Rightarrow> int list" where
  "live_keys m t = filter (\<lambda>k. k \<notin> set (removed_ids m)) (map fst t)"

definition no_nulls :: "'v idmap \<Rightarrow> bool" where
  "no_nulls m \<longleftrightarrow> None \<notin> snd ` set (data m)"

lemma lookup_found: "id_inv m \<Longrightarrow> no_nulls m \<Longrightarrow> IDMap_Lookup m k \<noteq> None \<longleftrightarrow> k \<in> fst ` set (data m) - set (removed_ids m)"
proof -
  assume i: "id_inv m" "no_nulls m"
  have "map_of (data m) k \<noteq> Some None" using i(2) map_of_SomeD [of "data m" k None] by (force simp: no_nulls_def)
  then show ?thesis using map_of_eq_None_iff [of "data m" k] by (auto simp: IDMap_Lookup_def IsRemoved_iff [OF i(1)] split: option.splits)
qed

lemma remove_present_exact:
  "id_inv m \<Longrightarrow> no_nulls m \<Longrightarrow> 0 < iteration_depth m \<Longrightarrow>
   \<exists>r. remove_present ks m = Inr (m\<lparr>removed_ids := r\<rparr>) \<and> id_inv (m\<lparr>removed_ids := r\<rparr>) \<and>
     set r = set (removed_ids m) \<union> set ks \<inter> fst ` set (data m)"
proof (induction ks arbitrary: m)
  case (Cons k ks)
  show ?case
  proof (cases "IDMap_Lookup m k = None")
    case True
    then have "k \<notin> fst ` set (data m) \<or> k \<in> set (removed_ids m)" using lookup_found [OF Cons.prems(1,2), of k] by blast
    then have "set (removed_ids m) \<union> set ks \<inter> fst ` set (data m) = set (removed_ids m) \<union> set (k # ks) \<inter> fst ` set (data m)" by auto
    moreover have "remove_present (k # ks) m = remove_present ks m" using True by simp
    ultimately show ?thesis using Cons.IH [OF Cons.prems] by metis
  next
    case False
    then have k: "k \<in> fst ` set (data m)" "k \<notin> set (removed_ids m)" using lookup_found [OF Cons.prems(1,2), of k] by auto
    let ?s = "snd (flat_insert (<) id k (removed_ids m))"
    have s: "sorted_ids ?s" "set ?s = insert k (set (removed_ids m))" using insert_ids Cons.prems(1) by (auto simp: id_inv_def)
    have m: "id_inv (m\<lparr>removed_ids := ?s\<rparr>)" using Cons.prems(1,3) s k(1) by (auto simp: id_inv_def)
    have "map_of (data m) k \<noteq> None" using k(1) by (simp add: map_of_eq_None_iff)
    then have "IDMap_Remove k m = Inr (m\<lparr>removed_ids := ?s\<rparr>)" using k(2) Cons.prems by (auto simp: IDMap_Remove_def IsRemoved_iff)
    then have rm: "remove_present (k # ks) m = remove_present ks (m\<lparr>removed_ids := ?s\<rparr>)" using False by simp
    have "no_nulls (m\<lparr>removed_ids := ?s\<rparr>)" "0 < iteration_depth (m\<lparr>removed_ids := ?s\<rparr>)"
      using Cons.prems(2,3) by (simp_all add: no_nulls_def)
    from Cons.IH [OF m this] obtain r where "remove_present ks (m\<lparr>removed_ids := ?s\<rparr>) = Inr (m\<lparr>removed_ids := r\<rparr>)"
        "id_inv (m\<lparr>removed_ids := r\<rparr>)" "set r = set ?s \<union> set ks \<inter> fst ` set (data m)" by auto
    moreover have "set ?s \<union> set ks \<inter> fst ` set (data m) = set (removed_ids m) \<union> set (k # ks) \<inter> fst ` set (data m)"
      unfolding s(2) using k(1) by auto
    ultimately show ?thesis unfolding rm by metis
  qed
next
  case Nil
  then show ?case by (intro exI [of _ "removed_ids m"]) simp
qed

text \<open>What skipping leaves: the first entry that is not removed, and everything behind it.\<close>

lemma skip_removed_cases:
  assumes "id_inv m"
  obtains "skip_removed m t = []" "live_keys m t = []"
  | pre k v post where "t = pre @ (k, v) # post" "skip_removed m t = (k, v) # post" "k \<notin> set (removed_ids m)"
      "live_keys m t = k # live_keys m post"
proof -
  have "skip_removed m t = [] \<and> live_keys m t = [] \<or> (\<exists>pre k v post. t = pre @ (k, v) # post \<and> skip_removed m t = (k, v) # post \<and>
      k \<notin> set (removed_ids m) \<and> live_keys m t = k # live_keys m post)"
  proof (induction t)
    case (Cons e t)
    show ?case
    proof (cases "fst e \<in> set (removed_ids m)")
      case True
      then have "skip_removed m (e # t) = skip_removed m t" "live_keys m (e # t) = live_keys m t"
        by (simp_all add: IsRemoved_iff [OF assms] live_keys_def)
      then show ?thesis using Cons.IH by (metis append_Cons)
    next
      case False
      then have "e # t = [] @ (fst e, snd e) # t \<and> skip_removed m (e # t) = (fst e, snd e) # t \<and> live_keys m (e # t) = fst e # live_keys m t"
        by (simp add: IsRemoved_iff [OF assms] live_keys_def)
      then show ?thesis using False by blast
    qed
  qed (simp add: live_keys_def)
  then show ?thesis using that by blast
qed

lemma entries_from_split: "k \<notin> fst ` set pre \<Longrightarrow> entries_from k (pre @ (k, v) # post) = (k, v) # post"
  by (induction pre) auto

lemma table_at_split:
  assumes "distinct (map fst (data m))" "data m = pre @ t" "seen_rehashes it = rehashes m"
    "at_key it = (case t of [] \<Rightarrow> None | e # _ \<Rightarrow> Some (fst e))"
  shows "table_at m it = Inr t"
proof (cases t)
  case (Cons e post)
  obtain k v where e: "e = (k, v)" by (cases e)
  have "k \<notin> fst ` set pre" using assms(1,2) Cons e by auto
  then show ?thesis using assms Cons e entries_from_split [of k pre v post] by (auto simp: table_at_def map_of_eq_None_iff)
qed (use assms in \<open>simp add: table_at_def\<close>)

lemma iter_to_table: "distinct (map fst (data m)) \<Longrightarrow> data m = pre @ t \<Longrightarrow> rehashes n = rehashes m \<Longrightarrow> table_at m (iter_to n t) = Inr t"
  by (rule table_at_split) (auto simp: iter_to_def)

lemma live_keys_removed:
  assumes "set r = set (removed_ids m) \<union> set ks \<inter> fst ` set (data m)" "set t \<subseteq> set (data m)"
  shows "live_keys (m\<lparr>removed_ids := r\<rparr>) t = filter (\<lambda>k. k \<notin> set ks) (live_keys m t)"
  using assms by (auto simp: live_keys_def intro!: filter_cong) (metis fst_conv image_eqI subsetD)

lemma visit_keys: "set (visit removes ks) \<subseteq> set ks"
  by (induction removes ks rule: visit.induct) auto

lemma loop_exact:
  assumes "id_inv m" "no_nulls m" "0 < iteration_depth m" "data m = pre @ t" "length t < fuel"
  shows "\<exists>r. id_loop fuel removes m (iter_to m (skip_removed m t)) =
      Inr (map (\<lambda>k. (k, the (map_of (data m) k))) (visit removes (live_keys m t)), m\<lparr>removed_ids := r\<rparr>) \<and> id_inv (m\<lparr>removed_ids := r\<rparr>) \<and>
    set r = set (removed_ids m) \<union> {k \<in> fst ` set (data m). \<exists>x \<in> set (visit removes (live_keys m t)). k \<in> set (removes x)}"
  using assms
proof (induction fuel arbitrary: m pre t)
  case (Suc fuel)
  have d: "distinct (map fst (data m))" using Suc.prems(1) by (simp add: id_inv_def)
  from Suc.prems(1) show ?case
  proof (cases rule: skip_removed_cases [of m t])
    case 1
    then have "id_loop (Suc fuel) removes m (iter_to m (skip_removed m t)) = Inr ([], m)" by (simp add: IsAtEnd_def iter_to_def)
    then show ?thesis using 1 Suc.prems(1) by (intro exI [of _ "removed_ids m"]) simp
  next
    case (2 pre' k v post)
    let ?it = "iter_to m ((k, v) # post)"
    have dm: "data m = (pre @ pre') @ (k, v) # post" using Suc.prems(4) 2(1) by simp
    have v: "map_of (data m) k = Some v" "v \<noteq> None" using d Suc.prems(2) by (simp_all add: dm no_nulls_def, auto simp: map_add_dom_app_simps(3) dom_map_of_conv_image_fst)
    have cur: "GetCurrentKey m ?it = Inr k" "GetCurrentValue m ?it = Inr v" "\<not> IsAtEnd m ?it"
      using iter_to_table [OF d dm refl] 2(3) v(2) IsRemoved_iff [OF Suc.prems(1), of k]
      by (auto simp: GetCurrentKey_def GetCurrentValue_def IsAtEnd_def iter_to_def)
    obtain r where r: "remove_present (removes k) m = Inr (m\<lparr>removed_ids := r\<rparr>)" "id_inv (m\<lparr>removed_ids := r\<rparr>)"
        "set r = set (removed_ids m) \<union> set (removes k) \<inter> fst ` set (data m)"
      using remove_present_exact [OF Suc.prems(1-3), of "removes k"] by blast
    let ?n = "m\<lparr>removed_ids := r\<rparr>"
    have n: "no_nulls ?n" "0 < iteration_depth ?n" "data ?n = (pre @ pre' @ [(k, v)]) @ post" "length post < fuel" "distinct (map fst (data ?n))"
      using Suc.prems(2,3,5) dm d 2(1) by (auto simp: no_nulls_def)
    have dn: "data ?n = (pre @ pre') @ (k, v) # post" using dm by simp
    have "table_at ?n ?it = Inr ((k, v) # post)" using iter_to_table [OF n(5) dn, of m] by simp
    then have adv: "iter_Advance ?n ?it = Inr (iter_to ?n (skip_removed ?n post))"
      using iter_to_table [OF n(5,3) refl] by (simp add: iter_Advance_def SkipRemovedEntries_def)
    have todo: "live_keys ?n post = filter (\<lambda>y. y \<notin> set (removes k)) (live_keys m post)"
      using live_keys_removed [OF r(3), of post] dm by auto
    obtain q where q: "id_loop fuel removes ?n (iter_to ?n (skip_removed ?n post)) =
        Inr (map (\<lambda>k. (k, the (map_of (data m) k))) (visit removes (live_keys ?n post)), m\<lparr>removed_ids := q\<rparr>)" "id_inv (m\<lparr>removed_ids := q\<rparr>)"
        "set q = set r \<union> {k \<in> fst ` set (data m). \<exists>x \<in> set (visit removes (live_keys ?n post)). k \<in> set (removes x)}"
      using Suc.IH [OF r(2) n(1-4)] by auto
    have "set q = set (removed_ids m) \<union> {y \<in> fst ` set (data m). \<exists>x \<in> set (visit removes (live_keys m t)). y \<in> set (removes x)}"
      unfolding q(3) r(3) todo 2(4) by auto
    moreover have "id_loop (Suc fuel) removes m (iter_to m (skip_removed m t)) =
        Inr (map (\<lambda>k. (k, the (map_of (data m) k))) (visit removes (live_keys m t)), m\<lparr>removed_ids := q\<rparr>)"
      using cur r(1) adv q(1) v(1) by (simp add: 2(2,4) todo)
    ultimately show ?thesis using q(2) by blast
  qed
qed simp

text \<open>
  C40. An iteration whose body removes entries, its own or others, visits every entry that is left when its turn comes exactly once
  and with its value, in the order of the table; no iterator becomes invalid, the loop ends, and afterwards exactly
  what was removed is gone.
\<close>

theorem id_iteration_survives_removal:
  assumes "id_inv m" and "no_nulls m" and "iteration_depth m < 2 ^ 31 - 1" and "length (data m) < fuel"
  shows "\<exists>n. id_iterate fuel removes m =
      Inr (map (\<lambda>k. (k, the (map_of (data m) k))) (visit removes (live_keys m (data m))), n) \<and> id_inv n \<and>
    iteration_depth n = iteration_depth m \<and>
    ids (id_abs n) = (\<lambda>k. if \<exists>x \<in> set (visit removes (live_keys m (data m))). k \<in> set (removes x) then None else ids (id_abs m) k)"
proof -
  let ?m = "m\<lparr>iteration_depth := iteration_depth m + 1\<rparr>"
  have m: "id_inv ?m" "no_nulls ?m" "0 < iteration_depth ?m" "data ?m = [] @ data m" "live_keys ?m (data m) = live_keys m (data m)"
    using assms(1,2) by (auto simp: id_inv_def no_nulls_def live_keys_def)
  have "distinct (map fst (data ?m))" using m(1) by (simp add: id_inv_def)
  then have "table_at ?m (iter_to m (data m)) = Inr (data m)" using m(4) by (intro iter_to_table) auto
  then have new: "Iterator_new m = Inr (iter_to ?m (skip_removed ?m (data m)), ?m)"
    using assms(3) by (simp add: Iterator_new_def iter_Init_def SkipRemovedEntries_def Let_def)
  obtain r where r: "id_loop fuel removes ?m (iter_to ?m (skip_removed ?m (data m))) =
      Inr (map (\<lambda>k. (k, the (map_of (data m) k))) (visit removes (live_keys m (data m))), ?m\<lparr>removed_ids := r\<rparr>)" "id_inv (?m\<lparr>removed_ids := r\<rparr>)"
      "set r = set (removed_ids m) \<union> {k \<in> fst ` set (data m). \<exists>x \<in> set (visit removes (live_keys m (data m))). k \<in> set (removes x)}"
    using loop_exact [OF m(1-4) assms(4), of removes] m(5) by auto
  let ?n = "?m\<lparr>removed_ids := r\<rparr>"
  have "ids (id_abs ?n) = (\<lambda>k. if \<exists>x \<in> set (visit removes (live_keys m (data m))). k \<in> set (removes x) then None else ids (id_abs m) k)"
    using map_of_eq_None_iff [of "data m"] by (auto simp: id_abs_def r(3) fun_eq_iff)
  moreover obtain p where p: "Iterator_destroy ?n = Inr p" "id_inv p" "id_abs p = drop_dying (id_abs ?n)"
    using sim_drop_iterator [OF r(2), of undefined] m(3) by (auto simp: rbind_eq_Inr id_abs_def)
  moreover have "iteration_depth p = iteration_depth m" using arg_cong [OF p(3), of depth] by (simp add: id_abs_def drop_dying_def)
  moreover have "ids (id_abs p) = ids (id_abs ?n)" unfolding p(3) by (simp add: drop_dying_def)
  ultimately show ?thesis using new r(1) by (auto simp: id_iterate_def)
qed

theorem id_iteration_survives_removal_witness:
  "\<exists>n. id_iterate 4 (\<lambda>k. if k = 3 then [3, 1] else [])
      (IDMap_new\<lparr>data := [(3, Some True), (1, Some False), (2, Some True)]\<rparr>) = Inr ([(3, Some True), (2, Some True)], n) \<and>
    ids (id_abs n) 1 = None \<and> ids (id_abs n) 2 = Some (Some True)"
  using id_iteration_survives_removal [of "IDMap_new\<lparr>data := [(3, Some True), (1, Some False), (2, Some True)]\<rparr>" 4
      "\<lambda>k. if k = 3 then [3, 1] else []"]
  by (auto simp: IDMap_new_def id_inv_def no_nulls_def live_keys_def flat_ok_def) (auto simp: id_abs_def)

end
