(* ===== verification/CowBuffer.thy ===== *)
theory CowBuffer
  imports Buffer
begin

text \<open>
  rtc_base/copy_on_write_buffer.h: objects that share reference-counted buffers and see a slice of them each. A heap holds
  the buffers of \<open>Buffer\<close> by address, and the objects that are alive; the number of references is the number of objects
  that point to a buffer. The copy constructor, the sized constructor and \<open>UnshareAndEnsureCapacity\<close> are in the compiled library:
  they are the record \<open>cow_lib\<close>, with what their comments promise as the locale \<open>cow_library\<close> of CowProps. A byte that was never
  written reads as some byte \<open>z\<close>.
\<close>

section \<open>State\<close>

record cow =
  cbuf :: "nat option"
  coff :: nat
  csize :: nat

record 'a cows =
  blocks :: "nat \<Rightarrow> 'a buffer"
  next_block :: nat
  names :: "nat list"
  objs :: "nat \<Rightarrow> cow"

record 'a cow_lib =
  Cow_copy :: "'a cows \<Rightarrow> nat \<Rightarrow> nat \<Rightarrow> 'a cows"
  Cow_sized :: "'a cows \<Rightarrow> nat \<Rightarrow> nat \<Rightarrow> nat \<Rightarrow> 'a cows res"
  UnshareAndEnsureCapacity :: "'a cows \<Rightarrow> nat \<Rightarrow> nat \<Rightarrow> 'a cows res"

definition HasOneRef :: "'a cows \<Rightarrow> nat \<Rightarrow> bool" where
  "HasOneRef W b \<longleftrightarrow> length (filter (\<lambda>n. cbuf (objs W n) = Some b) (names W)) = 1"

definition set_obj :: "nat \<Rightarrow> cow \<Rightarrow> 'a cows \<Rightarrow> 'a cows" where
  "set_obj n c W = W\<lparr>objs := (objs W)(n := c)\<rparr>"

definition set_block :: "nat \<Rightarrow> 'a buffer \<Rightarrow> 'a cows \<Rightarrow> 'a cows" where
  "set_block b v W = W\<lparr>blocks := (blocks W)(b := v)\<rparr>"

text \<open>\<open>new RefCountedObject<Buffer>\<close>\<close>

definition new_block :: "'a buffer \<Rightarrow> 'a cows \<Rightarrow> nat \<times> 'a cows" where
  "new_block v W = (next_block W, (set_block (next_block W) v W)\<lparr>next_block := Suc (next_block W)\<rparr>)"

section \<open>Observers\<close>

definition cow_IsConsistent :: "'a cows \<Rightarrow> cow \<Rightarrow> bool res" where
  "cow_IsConsistent W c =
     (case cbuf c of
        Some b \<Rightarrow>
          rbind (buf_capacity (blocks W b)) (\<lambda>cap.
          rbind (buf_size (blocks W b)) (\<lambda>n.
          Inr (cap > 0 \<and> coff c \<le> n \<and> (coff c + csize c) mod 2 ^ 64 \<le> n)))
      | None \<Rightarrow> Inr (csize c = 0 \<and> coff c = 0))"

definition with_consistent :: "'a cows \<Rightarrow> nat \<Rightarrow> 'b res \<Rightarrow> 'b res" where
  "with_consistent W n r = rbind (cow_IsConsistent W (objs W n)) (\<lambda>ok. dcheck ok r)"

definition cow_size :: "'a cows \<Rightarrow> nat \<Rightarrow> nat res" where
  "cow_size W n = with_consistent W n (Inr (csize (objs W n)))"

definition cow_capacity :: "'a cows \<Rightarrow> nat \<Rightarrow> nat res" where
  "cow_capacity W n = with_consistent W n
     (case cbuf (objs W n) of
        Some b \<Rightarrow> rbind (buf_capacity (blocks W b)) (\<lambda>cap. Inr (cap - coff (objs W n)))
      | None \<Rightarrow> Inr 0)"

text \<open>A pointer to the data is the buffer with an offset into it.\<close>

definition cow_cdata :: "'a cows \<Rightarrow> nat \<Rightarrow> (nat \<times> nat) option res" where
  "cow_cdata W n = with_consistent W n
     (case cbuf (objs W n) of
        None \<Rightarrow> Inr None
      | Some b \<Rightarrow> dcheck (IsConsistent (blocks W b)) (Inr (Some (b, coff (objs W n)))))"

definition MutableData :: "'a cow_lib \<Rightarrow> 'a cows \<Rightarrow> nat \<Rightarrow> ((nat \<times> nat) option \<times> 'a cows) res" where
  "MutableData L W n = with_consistent W n
     (case cbuf (objs W n) of
        None \<Rightarrow> Inr (None, W)
      | Some b \<Rightarrow>
          rbind (cow_capacity W n) (\<lambda>cap.
          rbind (UnshareAndEnsureCapacity L W n cap) (\<lambda>W.
          case cbuf (objs W n) of
            None \<Rightarrow> Inl NullDereference
          | Some b \<Rightarrow> dcheck (IsConsistent (blocks W b)) (Inr (Some (b, coff (objs W n)), W)))))"

text \<open>Reading and writing through \<open>operator[]\<close>.\<close>

definition cow_index :: "'a cows \<Rightarrow> nat \<Rightarrow> nat \<Rightarrow> 'a option res" where
  "cow_index W n i =
     rbind (cow_size W n) (\<lambda>size. dcheck (i < size)
      (rbind (cow_cdata W n) (\<lambda>p.
       case p of
         None \<Rightarrow> Inl NullDereference
       | Some (b, off) \<Rightarrow> guardr OutOfRange (off + i < length (cells (blocks W b))) (Inr (cells (blocks W b) ! (off + i))))))"

definition cow_index_set :: "'a cow_lib \<Rightarrow> 'a cows \<Rightarrow> nat \<Rightarrow> nat \<Rightarrow> 'a \<Rightarrow> 'a cows res" where
  "cow_index_set L W n i x =
     rbind (cow_size W n) (\<lambda>size. dcheck (i < size)
      (rbind (MutableData L W n) (\<lambda>(p, W).
       case p of
         None \<Rightarrow> Inl NullDereference
       | Some (b, off) \<Rightarrow> rbind (write_cells (off + i) [Some x] (blocks W b)) (\<lambda>v. Inr (set_block b v W)))))"

section \<open>Construction and assignment\<close>

definition Cow_of_data :: "'a cow_lib \<Rightarrow> 'a cows \<Rightarrow> nat \<Rightarrow> 'a list \<Rightarrow> nat \<Rightarrow> 'a cows res" where
  "Cow_of_data L W n data capacity =
     rbind (Cow_sized L W n (length data) capacity) (\<lambda>W.
     case cbuf (objs W n) of
       None \<Rightarrow> Inr W
     | Some b \<Rightarrow>
         rbind (write_cells 0 (map Some data) (blocks W b)) (\<lambda>v.
         Inr (set_obj n ((objs W n)\<lparr>coff := 0, csize := length data\<rparr>) (set_block b v W))))"

definition cow_assign :: "'a cows \<Rightarrow> nat \<Rightarrow> nat \<Rightarrow> 'a cows res" where
  "cow_assign W n buf =
     with_consistent W n (with_consistent W buf
      (if buf \<noteq> n then Inr (set_obj n (objs W buf) W) else Inr W))"

definition cow_move_assign :: "'a cows \<Rightarrow> nat \<Rightarrow> nat \<Rightarrow> 'a cows res" where
  "cow_move_assign W n buf =
     with_consistent W n (with_consistent W buf
      (let c = objs W buf;
           W = set_obj n c (set_obj buf (c\<lparr>cbuf := None\<rparr>) W) in
       Inr (set_obj buf ((objs W buf)\<lparr>coff := 0, csize := 0\<rparr>) W)))"

definition cow_swap :: "'a cows \<Rightarrow> nat \<Rightarrow> nat \<Rightarrow> 'a cows" where
  "cow_swap W a b = set_obj b (objs W a) (set_obj a (objs W b) W)"

section \<open>Contents\<close>

definition cow_SetData :: "'a \<Rightarrow> 'a cows \<Rightarrow> nat \<Rightarrow> 'a list \<Rightarrow> 'a cows res" where
  "cow_SetData z W n data =
     with_consistent W n
      (rbind
        (case cbuf (objs W n) of
           None \<Rightarrow>
             if length data > 0
             then rbind (Buffer_copy data (length data)) (\<lambda>v. case new_block v W of (b, W) \<Rightarrow> Inr (set_obj n ((objs W n)\<lparr>cbuf := Some b\<rparr>) W))
             else Inr W
         | Some b \<Rightarrow>
             if \<not> HasOneRef W b then
               rbind (cow_capacity W n) (\<lambda>cap.
               rbind (Buffer_copy data cap) (\<lambda>v. case new_block v W of (b, W) \<Rightarrow> Inr (set_obj n ((objs W n)\<lparr>cbuf := Some b\<rparr>) W)))
             else rbind (SetData False z data (blocks W b)) (\<lambda>v. Inr (set_block b v W)))
        (\<lambda>W. let W = set_obj n ((objs W n)\<lparr>coff := 0, csize := length data\<rparr>) W in with_consistent W n (Inr W)))"

definition cow_SetData_buf :: "'a cows \<Rightarrow> nat \<Rightarrow> nat \<Rightarrow> 'a cows res" where
  "cow_SetData_buf W n buf =
     with_consistent W n (with_consistent W buf
      (if buf \<noteq> n then Inr (set_obj n (objs W buf) W) else Inr W))"

definition cow_AppendData :: "'a \<Rightarrow> 'a cow_lib \<Rightarrow> 'a cows \<Rightarrow> nat \<Rightarrow> 'a list \<Rightarrow> 'a cows res" where
  "cow_AppendData z L W n data =
     with_consistent W n
      (case cbuf (objs W n) of
         None \<Rightarrow>
           rbind (Buffer_copy data (length data)) (\<lambda>v.
           case new_block v W of (b, W) \<Rightarrow>
             let W = set_obj n \<lparr>cbuf = Some b, coff = 0, csize = length data\<rparr> W in with_consistent W n (Inr W))
       | Some b \<Rightarrow>
           rbind (cow_capacity W n) (\<lambda>cap.
           rbind (UnshareAndEnsureCapacity L W n (max cap (csize (objs W n) + length data))) (\<lambda>W.
           case cbuf (objs W n) of
             None \<Rightarrow> Inl NullDereference
           | Some b \<Rightarrow>
               rbind (SetSize False z (coff (objs W n) + csize (objs W n)) (blocks W b)) (\<lambda>v.
               rbind (AppendData False z data v) (\<lambda>v.
               let W = set_obj n ((objs W n)\<lparr>csize := csize (objs W n) + length data\<rparr>) (set_block b v W) in
               with_consistent W n (Inr W))))))"

text \<open>The bytes that a pointer of another object sees.\<close>

definition read_bytes :: "'a \<Rightarrow> 'a cows \<Rightarrow> (nat \<times> nat) option \<Rightarrow> nat \<Rightarrow> 'a list res" where
  "read_bytes z W p n =
     (case p of
        None \<Rightarrow> guardr NullDereference (n = 0) (Inr [])
      | Some (b, off) \<Rightarrow> guardr OutOfRange (off + n \<le> length (cells (blocks W b)))
          (Inr (map (\<lambda>c. case c of None \<Rightarrow> z | Some x \<Rightarrow> x) (take n (drop off (cells (blocks W b)))))))"

definition cow_AppendData_buf :: "'a \<Rightarrow> 'a cow_lib \<Rightarrow> 'a cows \<Rightarrow> nat \<Rightarrow> nat \<Rightarrow> 'a cows res" where
  "cow_AppendData_buf z L W n buf =
     rbind (cow_cdata W buf) (\<lambda>p. rbind (cow_size W buf) (\<lambda>size.
     rbind (read_bytes z W p size) (\<lambda>data. cow_AppendData z L W n data)))"

definition cow_Slice :: "'a cow_lib \<Rightarrow> 'a cows \<Rightarrow> nat \<Rightarrow> nat \<Rightarrow> nat \<Rightarrow> nat \<Rightarrow> 'a cows res" where
  "cow_Slice L W s n offset len =
     (let W = Cow_copy L W s n in
      dcheck (offset \<le> csize (objs W n))
       (dcheck ((len + offset) mod 2 ^ 64 \<le> csize (objs W n))
         (Inr (set_obj s ((objs W s)\<lparr>coff := coff (objs W s) + offset, csize := len\<rparr>) W))))"

end
