(* ===== verification/CowProps.thy ===== *)
theory CowProps
  imports CowBuffer
begin

text \<open>
  What copy-on-write buffers promise: sharing cannot be observed. Any program over any number of objects behaves as if every
  object had a sequence of bytes of its own. Two inputs that break the class are at the end.
\<close>

section \<open>Invariant\<close>

definition cow_ok :: "'a cows \<Rightarrow> cow \<Rightarrow> bool" where
  "cow_ok W c \<longleftrightarrow> (case cbuf c of
     None \<Rightarrow> csize c = 0 \<and> coff c = 0
   | Some b \<Rightarrow> b < next_block W \<and> shape (blocks W b) \<and> 0 < bcap (blocks W b) \<and> coff c + csize c \<le> bsize (blocks W b))"

definition cow_inv :: "'a cows \<Rightarrow> bool" where
  "cow_inv W \<longleftrightarrow> distinct (names W) \<and> (\<forall>n \<in> set (names W). cow_ok W (objs W n))"

definition see :: "'a cows \<Rightarrow> cow \<Rightarrow> 'a option list" where
  "see W c = (case cbuf c of None \<Rightarrow> [] | Some b \<Rightarrow> take (csize c) (drop (coff c) (cells (blocks W b))))"

abbreviation view :: "'a cows \<Rightarrow> nat \<Rightarrow> 'a option list" where
  "view W n \<equiv> see W (objs W n)"

text \<open>
  What the comments of the compiled functions say: a copy shares the data; a sized buffer has the given size, and memory unless
  size and capacity are 0; after unsharing an object sees what it saw, in a buffer of its own with enough capacity, and
  so do all others.
\<close>

locale cow_library =
  fixes L :: "'a cow_lib"
  assumes copy_law: "cow_inv W \<Longrightarrow> n \<notin> set (names W) \<Longrightarrow> m \<in> set (names W) \<Longrightarrow>
      Cow_copy L W n m = (set_obj n (objs W m) W)\<lparr>names := names W @ [n]\<rparr>"
    and sized_law: "cow_inv W \<Longrightarrow> n \<notin> set (names W) \<Longrightarrow>
      \<exists>V. Cow_sized L W n k cap = Inr V \<and> cow_inv V \<and> names V = names W @ [n] \<and> (\<forall>m \<in> set (names W). view V m = view W m) \<and>
        csize (objs V n) = k \<and> coff (objs V n) = 0 \<and>
        (case cbuf (objs V n) of None \<Rightarrow> k = 0 | Some b \<Rightarrow> HasOneRef V b)"
    and unshare_law: "cow_inv W \<Longrightarrow> n \<in> set (names W) \<Longrightarrow> cbuf (objs W n) \<noteq> None \<Longrightarrow> 0 < cap \<Longrightarrow> csize (objs W n) \<le> cap \<Longrightarrow>
      \<exists>V b. UnshareAndEnsureCapacity L W n cap = Inr V \<and> cow_inv V \<and> names V = names W \<and> (\<forall>m \<in> set (names W). view V m = view W m) \<and>
        csize (objs V n) = csize (objs W n) \<and> cbuf (objs V n) = Some b \<and> HasOneRef V b \<and> cap \<le> bcap (blocks V b) - coff (objs V n)"

subsection \<open>Views\<close>

lemma ok_Some:
  assumes "cow_ok W c" "cbuf c = Some b"
  shows "shape (blocks W b)" "0 < bcap (blocks W b)" "coff c + csize c \<le> bsize (blocks W b)" "b < next_block W"
    "bsize (blocks W b) \<le> bcap (blocks W b)" "length (cells (blocks W b)) = bcap (blocks W b)"
  using assms by (auto simp: cow_ok_def shape_def)

lemma see_length: "cow_ok W c \<Longrightarrow> length (see W c) = csize c"
  by (cases "cbuf c") (auto simp: see_def cow_ok_def shape_def)

lemma consistent_ok: "cow_ok W c \<Longrightarrow> cow_IsConsistent W c = Inr True"
proof (cases "cbuf c")
  case (Some b)
  assume ok: "cow_ok W c"
  note f = ok_Some [OF ok Some]
  have "(coff c + csize c) mod 2 ^ 64 \<le> coff c + csize c" by simp
  then have "(coff c + csize c) mod 2 ^ 64 \<le> bsize (blocks W b)" using f(3) by linarith
  then show ?thesis using Some f shape_consistent [OF f(1)] by (simp add: cow_IsConsistent_def buf_capacity_def buf_size_def)
qed (auto simp: cow_IsConsistent_def cow_ok_def)

lemma with_consistent_ok: "cow_ok W (objs W n) \<Longrightarrow> with_consistent W n r = r"
  by (simp add: with_consistent_def consistent_ok)

lemma inv_ok: "cow_inv W \<Longrightarrow> n \<in> set (names W) \<Longrightarrow> cow_ok W (objs W n)"
  by (simp add: cow_inv_def)

lemma capacity_ok:
  "cow_ok W (objs W n) \<Longrightarrow> cow_capacity W n = Inr (case cbuf (objs W n) of None \<Rightarrow> 0 | Some b \<Rightarrow> bcap (blocks W b) - coff (objs W n))"
  using ok_Some(1) [of W "objs W n"]
  by (auto simp: cow_capacity_def with_consistent_ok buf_capacity_def shape_consistent split: option.splits)

lemma unique_ref:
  assumes "HasOneRef W b" "n \<in> set (names W)" "cbuf (objs W n) = Some b" "m \<in> set (names W)" "m \<noteq> n"
  shows "cbuf (objs W m) \<noteq> Some b"
proof
  assume "cbuf (objs W m) = Some b"
  then have "set [n, m] \<subseteq> set (filter (\<lambda>k. cbuf (objs W k) = Some b) (names W))" using assms by auto
  then have "card (set [n, m]) \<le> card (set (filter (\<lambda>k. cbuf (objs W k) = Some b) (names W)))" by (intro card_mono) auto
  also have "\<dots> \<le> 1" using assms(1) card_length [of "filter (\<lambda>k. cbuf (objs W k) = Some b) (names W)"] by (simp add: HasOneRef_def)
  finally show False using assms(5) by simp
qed

text \<open>A block that no other object refers to may be changed; a new block concerns nobody.\<close>

lemma see_other_block: "cbuf c \<noteq> Some b \<Longrightarrow> see (set_block b v W) c = see W c"
  by (auto simp: see_def set_block_def split: option.splits)

lemma ok_other_block: "cbuf c \<noteq> Some b \<Longrightarrow> cow_ok (set_block b v W) c = cow_ok W c"
  by (auto simp: cow_ok_def set_block_def split: option.splits)

lemma see_set_obj [simp]: "see (set_obj n c W) d = see W d" "cow_ok (set_obj n c W) d = cow_ok W d"
  by (auto simp: see_def set_obj_def cow_ok_def split: option.splits)

lemma objs_simps [simp]:
  "objs (set_obj n c W) m = (if m = n then c else objs W m)" "names (set_obj n c W) = names W" "blocks (set_obj n c W) = blocks W"
  "objs (set_block b v W) = objs W" "names (set_block b v W) = names W"
  "blocks (set_block b v W) k = (if k = b then v else blocks W k)" "next_block (set_block b v W) = next_block W"
  "next_block (set_obj n c W) = next_block W"
  by (simp_all add: set_obj_def set_block_def)

lemma own_block:
  assumes "cow_inv W" "n \<in> set (names W)" "cbuf (objs W n) = Some b" "HasOneRef W b" "shape v" "0 < bcap v" "coff c + csize c \<le> bsize v" "cbuf c = Some b"
  defines "V \<equiv> set_obj n c (set_block b v W)"
  shows "cow_inv V" "\<And>m. m \<in> set (names W) \<Longrightarrow> m \<noteq> n \<Longrightarrow> view V m = view W m" "view V n = take (csize c) (drop (coff c) (cells v))"
proof -
  have u: "cbuf (objs W m) \<noteq> Some b" if "m \<in> set (names W)" "m \<noteq> n" for m using unique_ref [OF assms(4,2,3) that] .
  then show "view V m = view W m" if "m \<in> set (names W)" "m \<noteq> n" for m using that by (simp add: V_def see_other_block)
  show "view V n = take (csize c) (drop (coff c) (cells v))" using assms(8) by (simp add: V_def see_def)
  have "cow_ok V (objs V m)" if "m \<in> set (names W)" for m
  proof (cases "m = n")
    case True
    have "b < next_block W" using inv_ok [OF assms(1,2)] assms(3) by (simp add: cow_ok_def)
    then show ?thesis using True assms(5-8) by (simp add: V_def cow_ok_def)
  qed (use that u inv_ok [OF assms(1)] in \<open>simp add: V_def ok_other_block\<close>)
  then show "cow_inv V" using assms(1) by (simp add: cow_inv_def V_def)
qed

lemma fresh_block:
  assumes "cow_inv W" "n \<in> set (names W)" "shape v" "0 < bcap v" "coff c + csize c \<le> bsize v" "cbuf c = Some (next_block W)"
  defines "V \<equiv> set_obj n c (snd (new_block v W))"
  shows "cow_inv V" "\<And>m. m \<in> set (names W) \<Longrightarrow> m \<noteq> n \<Longrightarrow> view V m = view W m" "view V n = take (csize c) (drop (coff c) (cells v))"
proof -
  have u: "cbuf (objs W m) \<noteq> Some (next_block W)" if "m \<in> set (names W)" for m
    using inv_ok [OF assms(1) that] by (auto simp: cow_ok_def)
  then show "view V m = view W m" if "m \<in> set (names W)" "m \<noteq> n" for m
    using that by (auto simp: V_def new_block_def see_def split: option.splits)
  show "view V n = take (csize c) (drop (coff c) (cells v))" using assms(6) by (simp add: V_def new_block_def see_def)
  have "cow_ok V (objs V m)" if "m \<in> set (names W)" for m
    using that u [OF that] inv_ok [OF assms(1) that] assms(3-6) by (auto simp: V_def new_block_def cow_ok_def less_Suc_eq split: option.splits if_splits)
  then show "cow_inv V" using assms(1) by (simp add: cow_inv_def V_def new_block_def)
qed

lemma new_block_simps [simp]:
  "fst (new_block v W) = next_block W" "names (snd (new_block v W)) = names W" "objs (snd (new_block v W)) = objs W"
  by (simp_all add: new_block_def)

lemma dcheck_then: "ok \<Longrightarrow> rbind (dcheck ok (Inr b)) f = f b"
  by simp

lemma obj_inv: "cow_inv W \<Longrightarrow> cow_ok W c \<Longrightarrow> cow_inv (set_obj n c W)"
  by (simp add: cow_inv_def)

lemma see_names [simp]: "see (W\<lparr>names := ns\<rparr>) c = see W c" "cow_ok (W\<lparr>names := ns\<rparr>) c = cow_ok W c"
  by (auto simp: see_def cow_ok_def split: option.splits)

lemma see_null [simp]: "see W \<lparr>cbuf = None, coff = 0, csize = 0\<rparr> = []"
  by (simp add: see_def)

lemma null_ok: "cow_ok W \<lparr>cbuf = None, coff = 0, csize = 0\<rparr>"
  by (simp add: cow_ok_def)

lemma Buffer_copy_ok: "\<exists>v. Buffer_copy xs cap = Inr v \<and> shape v \<and> bsize v = length xs \<and> bcap v = max (length xs) cap \<and> take (length xs) (cells v) = map Some xs"
proof -
  let ?c = "max (length xs) cap"
  let ?b = "\<lparr>bsize = length xs, bcap = ?c, bdata = (if ?c > 0 then Some (replicate ?c None) else None), freed = []\<rparr>"
  have s: "shape ?b" by (auto simp: shape_def cells_def)
  obtain v where v: "write_cells 0 (map Some xs) ?b = Inr v" "shape v" "cells v = overwrite 0 (map Some xs) (cells ?b)" "bsize v = length xs" "bcap v = ?c"
    using write_cells_ok [OF s, of 0 "map Some xs"] by auto
  moreover have "Buffer_copy xs cap = write_cells 0 (map Some xs) ?b"
    unfolding Buffer_copy_def Buffer_sized_def Let_def by (rule dcheck_then [OF shape_consistent [OF s]])
  ultimately show ?thesis by (auto simp: overwrite_def)
qed

section \<open>Specification\<close>

record 'a cow_spec =
  alive :: "nat list"
  bytes :: "nat \<Rightarrow> 'a option list"

datatype 'a cow_op = New nat "'a list" nat | Copy nat nat | Assign nat nat | Move nat nat | Put nat "'a list" | PutFrom nat nat | Append nat "'a list"
  | AppendFrom nat nat | SliceOf nat nat nat nat | Write nat nat 'a | Read nat nat | Size nat | Swap nat nat

datatype 'a cow_out = Unit | Cell "'a option" | Count nat

definition let_be :: "nat \<Rightarrow> 'a option list \<Rightarrow> 'a cow_spec \<Rightarrow> 'a cow_spec" where
  "let_be n v a = a\<lparr>bytes := (bytes a)(n := v)\<rparr>"

definition born :: "nat \<Rightarrow> 'a option list \<Rightarrow> 'a cow_spec \<Rightarrow> 'a cow_spec" where
  "born n v a = (let_be n v a)\<lparr>alive := alive a @ [n]\<rparr>"

fun cow_spec_step :: "'a \<Rightarrow> 'a cow_spec \<Rightarrow> 'a cow_op \<Rightarrow> ('a cow_out \<times> 'a cow_spec) res" where
  "cow_spec_step z a (New n xs cap) = Inr (Unit, born n (map Some xs) a)"
| "cow_spec_step z a (Copy n m) = Inr (Unit, born n (bytes a m) a)"
| "cow_spec_step z a (Assign n m) = Inr (Unit, let_be n (bytes a m) a)"
| "cow_spec_step z a (Move n m) = Inr (Unit, let_be m [] (let_be n (bytes a m) a))"
| "cow_spec_step z a (Put n xs) = Inr (Unit, let_be n (map Some xs) a)"
| "cow_spec_step z a (PutFrom n m) = Inr (Unit, let_be n (bytes a m) a)"
| "cow_spec_step z a (Append n xs) = Inr (Unit, let_be n (bytes a n @ map Some xs) a)"
| "cow_spec_step z a (AppendFrom n m) =
     Inr (Unit, let_be n (bytes a n @ map (\<lambda>c. Some (case c of None \<Rightarrow> z | Some x \<Rightarrow> x)) (bytes a m)) a)"
| "cow_spec_step z a (SliceOf n m off len) =
     dcheck (off + len \<le> length (bytes a m)) (Inr (Unit, born n (take len (drop off (bytes a m))) a))"
| "cow_spec_step z a (Write n i x) = dcheck (i < length (bytes a n)) (Inr (Unit, let_be n ((bytes a n)[i := Some x]) a))"
| "cow_spec_step z a (Read n i) = dcheck (i < length (bytes a n)) (Inr (Cell (bytes a n ! i), a))"
| "cow_spec_step z a (Size n) = Inr (Count (length (bytes a n)), a)"
| "cow_spec_step z a (Swap n m) = Inr (Unit, let_be n (bytes a m) (let_be m (bytes a n) a))"

text \<open>
  Objects are used while they live. To an empty object nothing may be appended that is empty, nor may its data be set to nothing: whether
  that fails depends on the buffer it holds. An object is not appended to itself, since growing its buffer frees the bytes that
  are to be appended. A slice does not wrap around.
\<close>

fun cow_legal :: "'a cow_spec \<Rightarrow> 'a cow_op \<Rightarrow> bool" where
  "cow_legal a (New n xs cap) \<longleftrightarrow> n \<notin> set (alive a)"
| "cow_legal a (Copy n m) \<longleftrightarrow> n \<notin> set (alive a) \<and> m \<in> set (alive a)"
| "cow_legal a (Assign n m) \<longleftrightarrow> n \<in> set (alive a) \<and> m \<in> set (alive a)"
| "cow_legal a (Move n m) \<longleftrightarrow> n \<in> set (alive a) \<and> m \<in> set (alive a)"
| "cow_legal a (Put n xs) \<longleftrightarrow> n \<in> set (alive a) \<and> (xs \<noteq> [] \<or> bytes a n \<noteq> [])"
| "cow_legal a (PutFrom n m) \<longleftrightarrow> n \<in> set (alive a) \<and> m \<in> set (alive a)"
| "cow_legal a (Append n xs) \<longleftrightarrow> n \<in> set (alive a) \<and> (xs \<noteq> [] \<or> bytes a n \<noteq> [])"
| "cow_legal a (AppendFrom n m) \<longleftrightarrow> n \<in> set (alive a) \<and> m \<in> set (alive a) \<and> n \<noteq> m \<and> (bytes a m \<noteq> [] \<or> bytes a n \<noteq> [])"
| "cow_legal a (SliceOf n m off len) \<longleftrightarrow> n \<notin> set (alive a) \<and> m \<in> set (alive a) \<and> off + len < 2 ^ 64"
| "cow_legal a (Write n i x) \<longleftrightarrow> n \<in> set (alive a)"
| "cow_legal a (Read n i) \<longleftrightarrow> n \<in> set (alive a)"
| "cow_legal a (Size n) \<longleftrightarrow> n \<in> set (alive a)"
| "cow_legal a (Swap n m) \<longleftrightarrow> n \<in> set (alive a) \<and> m \<in> set (alive a)"

fun cow_legal_run :: "'a \<Rightarrow> 'a cow_spec \<Rightarrow> 'a cow_op list \<Rightarrow> bool" where
  "cow_legal_run z a [] \<longleftrightarrow> True"
| "cow_legal_run z a (op # ops) \<longleftrightarrow> cow_legal a op \<and> (case cow_spec_step z a op of Inl f \<Rightarrow> True | Inr (y, b) \<Rightarrow> cow_legal_run z b ops)"

definition done_with :: "'a cows res \<Rightarrow> ('a cow_out \<times> 'a cows) res" where
  "done_with r = rbind r (\<lambda>W. Inr (Unit, W))"

fun cow_code_step :: "'a \<Rightarrow> 'a cow_lib \<Rightarrow> 'a cows \<Rightarrow> 'a cow_op \<Rightarrow> ('a cow_out \<times> 'a cows) res" where
  "cow_code_step z L W (New n xs cap) = done_with (Cow_of_data L W n xs cap)"
| "cow_code_step z L W (Copy n m) = Inr (Unit, Cow_copy L W n m)"
| "cow_code_step z L W (Assign n m) = done_with (cow_assign W n m)"
| "cow_code_step z L W (Move n m) = done_with (cow_move_assign W n m)"
| "cow_code_step z L W (Put n xs) = done_with (cow_SetData z W n xs)"
| "cow_code_step z L W (PutFrom n m) = done_with (cow_SetData_buf W n m)"
| "cow_code_step z L W (Append n xs) = done_with (cow_AppendData z L W n xs)"
| "cow_code_step z L W (AppendFrom n m) = done_with (cow_AppendData_buf z L W n m)"
| "cow_code_step z L W (SliceOf n m off len) = done_with (cow_Slice L W n m off len)"
| "cow_code_step z L W (Write n i x) = done_with (cow_index_set L W n i x)"
| "cow_code_step z L W (Read n i) = rbind (cow_index W n i) (\<lambda>c. Inr (Cell c, W))"
| "cow_code_step z L W (Size n) = rbind (cow_size W n) (\<lambda>k. Inr (Count k, W))"
| "cow_code_step z L W (Swap n m) = Inr (Unit, cow_swap W n m)"

definition cow_abstracts :: "'a cows \<Rightarrow> 'a cow_spec \<Rightarrow> bool" where
  "cow_abstracts W a \<longleftrightarrow> cow_inv W \<and> alive a = names W \<and> (\<forall>n \<in> set (names W). view W n = bytes a n)"

definition cow_sim :: "('a cow_out \<times> 'a cows) res \<Rightarrow> ('a cow_out \<times> 'a cow_spec) res \<Rightarrow> bool" where
  "cow_sim r s \<longleftrightarrow> (case s of Inl f \<Rightarrow> r = Inl f | Inr (y, a) \<Rightarrow> \<exists>W. r = Inr (y, W) \<and> cow_abstracts W a)"

lemma cow_sim_simps [simp]:
  "cow_sim r (Inl f) \<longleftrightarrow> r = Inl f" "cow_sim r (Inr (y, a)) \<longleftrightarrow> (\<exists>W. r = Inr (y, W) \<and> cow_abstracts W a)"
  by (auto simp: cow_sim_def)

section \<open>Every operation refines the specification\<close>

lemma abstracts_let:
  assumes "cow_abstracts W a" "cow_inv V" "names V = names W" "\<And>m. m \<in> set (names W) \<Longrightarrow> m \<noteq> n \<Longrightarrow> view V m = view W m" "view V n = v"
  shows "cow_abstracts V (let_be n v a)"
  using assms by (auto simp: cow_abstracts_def let_be_def)

lemma abstracts_born:
  assumes "cow_abstracts W a" "cow_inv V" "names V = names W @ [n]" "n \<notin> set (names W)" "\<And>m. m \<in> set (names W) \<Longrightarrow> view V m = view W m" "view V n = v"
  shows "cow_abstracts V (born n v a)"
  using assms by (auto simp: cow_abstracts_def born_def let_be_def)

lemma abstractsD:
  assumes "cow_abstracts W a" "n \<in> set (alive a)"
  shows "n \<in> set (names W)" "cow_ok W (objs W n)" "view W n = bytes a n" "csize (objs W n) = length (bytes a n)" "cow_inv W"
  using assms see_length [of W "objs W n"] by (auto simp: cow_abstracts_def cow_inv_def)

lemma share_object:
  assumes "cow_inv W" "m \<in> set (names W)"
  shows "cow_inv (set_obj n (objs W m) W)" "view (set_obj n (objs W m) W) n = view W m"
    "\<And>k. k \<noteq> n \<Longrightarrow> view (set_obj n (objs W m) W) k = view W k"
  using assms by (auto simp: cow_inv_def)

lemma sim_assign_cow:
  assumes "cow_abstracts W a" "cow_legal a (Assign n m)"
  shows "cow_sim (cow_code_step z L W (Assign n m)) (cow_spec_step z a (Assign n m))"
proof -
  have n: "n \<in> set (alive a)" "m \<in> set (alive a)" using assms(2) by auto
  note N = abstractsD [OF assms(1) n(1)] and M = abstractsD [OF assms(1) n(2)]
  have "cow_abstracts (if m \<noteq> n then set_obj n (objs W m) W else W) (let_be n (bytes a m) a)"
    using share_object [OF N(5) M(1), of n] M(3) N(3,5) by (intro abstracts_let [OF assms(1)]) auto
  moreover have "cow_assign W n m = Inr (if m \<noteq> n then set_obj n (objs W m) W else W)"
    using N(2) M(2) by (simp add: cow_assign_def with_consistent_ok)
  ultimately show ?thesis by (simp add: done_with_def)
qed

lemma sim_put_from:
  assumes "cow_abstracts W a" "cow_legal a (PutFrom n m)"
  shows "cow_sim (cow_code_step z L W (PutFrom n m)) (cow_spec_step z a (PutFrom n m))"
  using sim_assign_cow [OF assms(1), of n m z L] assms(2) by (simp add: cow_SetData_buf_def cow_assign_def)

lemma sim_move:
  assumes "cow_abstracts W a" "cow_legal a (Move n m)"
  shows "cow_sim (cow_code_step z L W (Move n m)) (cow_spec_step z a (Move n m))"
proof -
  have n: "n \<in> set (alive a)" "m \<in> set (alive a)" using assms(2) by auto
  note N = abstractsD [OF assms(1) n(1)] and M = abstractsD [OF assms(1) n(2)]
  define e where "e = \<lparr>cbuf = (if n = m then cbuf (objs W m) else None), coff = 0, csize = 0\<rparr>"
  define V where "V = set_obj m e (set_obj n (objs W m) W)"
  have a: "cow_abstracts (set_obj n (objs W m) W) (let_be n (bytes a m) a)"
    using share_object [OF N(5) M(1), of n] M(3) by (intro abstracts_let [OF assms(1)]) auto
  have "cow_ok W e" using M(2) by (auto simp: e_def cow_ok_def split: option.splits)
  then have "cow_inv V" unfolding V_def by (intro obj_inv N(5) M(2)) simp_all
  moreover have "see W e = []" by (simp add: e_def see_def split: option.splits)
  ultimately have "cow_abstracts V (let_be m [] (let_be n (bytes a m) a))"
    by (intro abstracts_let [OF a]) (simp_all add: V_def)
  moreover have "cow_move_assign W n m = Inr V"
    using N(2) M(2) by (auto simp: cow_move_assign_def with_consistent_ok V_def e_def Let_def set_obj_def fun_eq_iff)
  ultimately show ?thesis by (simp add: done_with_def)
qed

lemma sim_swap:
  assumes "cow_abstracts W a" "cow_legal a (Swap n m)"
  shows "cow_sim (cow_code_step z L W (Swap n m)) (cow_spec_step z a (Swap n m))"
  using assms by (auto simp: cow_swap_def cow_abstracts_def cow_inv_def let_be_def)

lemma sim_size:
  assumes "cow_abstracts W a" "cow_legal a (Size n)"
  shows "cow_sim (cow_code_step z L W (Size n)) (cow_spec_step z a (Size n))"
  using abstractsD [OF assms(1), of n] assms by (simp add: cow_size_def with_consistent_ok)

lemma size_ok: "cow_ok W (objs W n) \<Longrightarrow> cow_size W n = Inr (csize (objs W n))"
  by (simp add: cow_size_def with_consistent_ok)

lemma sim_read:
  assumes "cow_abstracts W a" "cow_legal a (Read n i)"
  shows "cow_sim (cow_code_step z L W (Read n i)) (cow_spec_step z a (Read n i))"
proof (cases "i < length (bytes a n)")
  case True
  note N = abstractsD [OF assms(1), of n]
  have n: "n \<in> set (alive a)" using assms(2) by simp
  then have i: "i < csize (objs W n)" using True N(4) by simp
  obtain b where b: "cbuf (objs W n) = Some b" using i N(2) [OF n] by (cases "cbuf (objs W n)") (auto simp: cow_ok_def)
  note B = ok_Some [OF N(2) [OF n] b]
  have "coff (objs W n) + i < length (cells (blocks W b))" using i B by simp
  moreover from this have "bytes a n ! i = cells (blocks W b) ! (coff (objs W n) + i)"
    using N(3) [OF n, symmetric] i b by (simp add: see_def)
  moreover have "cow_cdata W n = Inr (Some (b, coff (objs W n)))"
    using N(2) [OF n] b shape_consistent [OF B(1)] by (simp add: cow_cdata_def with_consistent_ok)
  ultimately show ?thesis using True i b size_ok [OF N(2) [OF n]] assms(1) by (simp add: cow_index_def)
next
  case False
  then show ?thesis using abstractsD [OF assms(1), of n] assms(2) by (simp add: cow_index_def size_ok)
qed

lemma see_whole: "bsize v = length xs \<Longrightarrow> take (length xs) (cells v) = ys \<Longrightarrow> take (length xs) (drop 0 (cells v)) = ys"
  by simp

lemma contents_cells: "contents v = xs \<Longrightarrow> shape v \<Longrightarrow> take (length xs) (cells v) = xs \<and> bsize v = length xs"
  by (auto simp: contents_def shape_def)

lemma sim_put:
  assumes "cow_abstracts W a" "cow_legal a (Put n xs)"
  shows "cow_sim (cow_code_step z L W (Put n xs)) (cow_spec_step z a (Put n xs))"
proof -
  have n: "n \<in> set (alive a)" "xs \<noteq> [] \<or> bytes a n \<noteq> []" using assms(2) by auto
  note N = abstractsD [OF assms(1) n(1)]
  have own: "cow_SetData z W n xs = Inr V \<Longrightarrow> cow_inv V \<Longrightarrow> names V = names W \<Longrightarrow>
      (\<And>m. m \<in> set (names W) \<Longrightarrow> m \<noteq> n \<Longrightarrow> view V m = view W m) \<Longrightarrow> view V n = map Some xs \<Longrightarrow> ?thesis" for V
    using abstracts_let [OF assms(1), of V n "map Some xs"] by (auto simp: done_with_def)
  have new: ?thesis if c: "cbuf (objs W n) = None \<or> (\<exists>b. cbuf (objs W n) = Some b \<and> \<not> HasOneRef W b)"
  proof -
    obtain cap where cap: "cow_capacity W n = Inr cap" using capacity_ok [OF N(2)] by simp
    define cp where "cp = (if cbuf (objs W n) = None then length xs else cap)"
    obtain v where v: "Buffer_copy xs cp = Inr v" "shape v" "bsize v = length xs" "bcap v = max (length xs) cp" "take (length xs) (cells v) = map Some xs"
      using Buffer_copy_ok [of xs cp] by blast
    let ?c = "\<lparr>cbuf = Some (next_block W), coff = 0, csize = length xs\<rparr>"
    let ?V = "set_obj n ?c (snd (new_block v W))"
    have null: "cbuf (objs W n) = None \<Longrightarrow> xs \<noteq> []" using n(2) N(3) by (auto simp: see_def)
    have "0 < max (length xs) cp"
    proof (cases "cbuf (objs W n)")
      case (Some b)
      note B = ok_Some [OF N(2) Some]
      have "0 < length xs \<or> 0 < bcap (blocks W b) - coff (objs W n)" using n(2) N(4) B(3,5) by (cases xs; cases "bytes a n") auto
      then show ?thesis using cap capacity_ok [OF N(2)] Some by (auto simp: cp_def less_max_iff_disj)
    qed (use null in \<open>simp add: cp_def\<close>)
    then have "0 < bcap v" using v(4) by simp
    then have V: "cow_inv ?V" "\<And>m. m \<in> set (names W) \<Longrightarrow> m \<noteq> n \<Longrightarrow> view ?V m = view W m" "view ?V n = map Some xs"
      using fresh_block [OF N(5,1) v(2), of ?c] v(3,5) by auto
    have k: "with_consistent ?V n (Inr ?V) = Inr ?V" using inv_ok [OF V(1), of n] N(1) by (intro with_consistent_ok) simp
    define X where "X = snd (new_block v W)"
    have nb: "new_block v W = (next_block W, X)" by (simp add: prod_eq_iff X_def)
    have so: "set_obj n ((objs (set_obj n ((objs X n)\<lparr>cbuf := Some b\<rparr>) X) n)\<lparr>coff := 0, csize := length xs\<rparr>)
        (set_obj n ((objs X n)\<lparr>cbuf := Some b\<rparr>) X) = set_obj n \<lparr>cbuf = Some b, coff = 0, csize = length xs\<rparr> X" for b
      by (cases X; cases "objs X n") (simp add: set_obj_def)
    have "cow_SetData z W n xs = Inr ?V"
    proof (cases "cbuf (objs W n)")
      case None
      then show ?thesis using k v(1) null with_consistent_ok [OF N(2)] so [of "next_block W"]
        by (simp add: cow_SetData_def cp_def nb X_def [symmetric] Let_def)
    next
      case (Some b)
      then have "\<not> HasOneRef W b" using c by simp
      then show ?thesis using k v(1) cap Some with_consistent_ok [OF N(2)] so [of "next_block W"]
        by (simp add: cow_SetData_def cp_def nb X_def [symmetric] Let_def)
    qed
    then show ?thesis using V by (intro own [of ?V]) auto
  qed
  show ?thesis
  proof (cases "\<exists>b. cbuf (objs W n) = Some b \<and> HasOneRef W b")
    case True
    then obtain b where b: "cbuf (objs W n) = Some b" "HasOneRef W b" by blast
    note B = ok_Some [OF N(2) b(1)]
    have "wf_buffer False z (blocks W b)" using B(1) by (simp add: wf_simps)
    then obtain v where v: "SetData False z xs (blocks W b) = Inr v" "wf_buffer False z v" "contents v = map Some xs"
        "bcap (blocks W b) \<le> bcap v"
      using SetData_ok [of False z "blocks W b" xs] by auto
    have sv: "shape v" "take (length xs) (cells v) = map Some xs" "bsize v = length xs"
      using v(2,3) contents_cells [OF v(3)] by (auto simp: wf_simps)
    have "0 < bcap v" using v(4) B(2) by simp
    let ?c = "\<lparr>cbuf = Some b, coff = 0, csize = length xs\<rparr>"
    let ?V = "set_obj n ?c (set_block b v W)"
    have c: "coff ?c + csize ?c \<le> bsize v" "cbuf ?c = Some b" using sv(3) by simp_all
    note V = own_block [OF N(5,1) b sv(1) \<open>0 < bcap v\<close> c]
    have Vn: "view ?V n = map Some xs" using V(3) sv(2) by simp
    have so: "set_obj n ((objs W n)\<lparr>coff := 0, csize := length xs\<rparr>) (set_block b v W) = ?V"
      using b(1) by (cases "objs W n") (simp add: set_obj_def set_block_def)
    have "with_consistent ?V n (Inr ?V) = Inr ?V" using inv_ok [OF V(1), of n] N(1) by (intro with_consistent_ok) simp
    then have "cow_SetData z W n xs = Inr ?V"
      using b v(1) with_consistent_ok [OF N(2)] so by (simp add: cow_SetData_def Let_def)
    then show ?thesis using V(1,2) Vn by (intro own [of ?V]) (simp_all del: objs_simps(1))
  qed (use new in \<open>cases "cbuf (objs W n)"; auto\<close>)
qed

lemma overwrite_single: "k < length cs \<Longrightarrow> overwrite k [y] cs = cs[k := y]"
  by (simp add: overwrite_def upd_conv_take_nth_drop)

context cow_library
begin

lemma sim_copy_cow:
  assumes "cow_abstracts W a" "cow_legal a (Copy n m)"
  shows "cow_sim (cow_code_step z L W (Copy n m)) (cow_spec_step z a (Copy n m))"
proof -
  have n: "n \<notin> set (names W)" "m \<in> set (alive a)" using assms by (auto simp: cow_abstracts_def)
  note M = abstractsD [OF assms(1) n(2)]
  let ?V = "(set_obj n (objs W m) W)\<lparr>names := names W @ [n]\<rparr>"
  have "cow_inv ?V" "\<And>k. view ?V k = (if k = n then view W m else view W k)"
    using M(5,1) n(1) by (auto simp: cow_inv_def)
  then have "cow_abstracts ?V (born n (bytes a m) a)" using n(1) M(3) by (intro abstracts_born [OF assms(1)]) auto
  then show ?thesis using copy_law [OF M(5) n(1) M(1)] by simp
qed

lemma sim_slice:
  assumes "cow_abstracts W a" "cow_legal a (SliceOf n m off len)"
  shows "cow_sim (cow_code_step z L W (SliceOf n m off len)) (cow_spec_step z a (SliceOf n m off len))"
proof -
  have n: "n \<notin> set (names W)" "m \<in> set (alive a)" "off + len < 2 ^ 64" using assms by (auto simp: cow_abstracts_def)
  note M = abstractsD [OF assms(1) n(2)]
  let ?c = "(objs W m)\<lparr>coff := coff (objs W m) + off, csize := len\<rparr>"
  let ?V = "(set_obj n ?c W)\<lparr>names := names W @ [n]\<rparr>"
  have nm: "n \<noteq> m" using n(1) M(1) by auto
  have code: "cow_Slice L W n m off len = dcheck (off \<le> csize (objs W m)) (dcheck (off + len \<le> csize (objs W m)) (Inr ?V))"
    using copy_law [OF M(5) n(1) M(1)] n(3) nm by (cases W) (simp add: cow_Slice_def add.commute set_obj_def)
  show ?thesis
  proof (cases "off + len \<le> csize (objs W m)")
    case True
    have "cow_ok W ?c \<or> cbuf (objs W m) = None" using M(2) True by (auto simp: cow_ok_def split: option.splits)
    moreover have "cow_ok W ?c" if "cbuf (objs W m) = None" using M(2) True that by (simp add: cow_ok_def)
    ultimately have "cow_inv ?V" using M(5) n(1) by (auto simp: cow_inv_def)
    moreover have c: "see W ?c = take len (drop off (bytes a m))"
      using M(3) [symmetric] True by (auto simp: see_def take_drop min_def ac_simps split: option.splits)
    ultimately have "cow_abstracts ?V (born n (take len (drop off (bytes a m))) a)" using n(1)
      by (intro abstracts_born [OF assms(1)]) auto
    then show ?thesis using code True M(4) by (auto simp: done_with_def)
  next
    case False
    then show ?thesis using code M(4) by (auto simp: done_with_def guardr_def)
  qed
qed

lemma sim_new:
  assumes "cow_abstracts W a" "cow_legal a (New n xs cap)"
  shows "cow_sim (cow_code_step z L W (New n xs cap)) (cow_spec_step z a (New n xs cap))"
proof -
  have n: "n \<notin> set (names W)" "cow_inv W" using assms by (auto simp: cow_abstracts_def)
  obtain U where U: "Cow_sized L W n (length xs) cap = Inr U" "cow_inv U" "names U = names W @ [n]"
      "\<And>m. m \<in> set (names W) \<Longrightarrow> view U m = view W m" "csize (objs U n) = length xs" "coff (objs U n) = 0"
      "case cbuf (objs U n) of None \<Rightarrow> xs = [] | Some b \<Rightarrow> HasOneRef U b"
    using sized_law [OF n(2,1), of "length xs" cap] by (auto cong: option.case_cong)
  have nU: "n \<in> set (names U)" using U(3) by simp
  show ?thesis
  proof (cases "cbuf (objs U n)")
    case None
    then have "view U n = map Some xs" using U(7) by (simp add: see_def)
    then have "cow_abstracts U (born n (map Some xs) a)" using U n by (intro abstracts_born [OF assms(1)]) auto
    then show ?thesis using U(1) None by (simp add: done_with_def Cow_of_data_def)
  next
    case (Some b)
    note B = ok_Some [OF inv_ok [OF U(2) nU] Some]
    obtain v where v: "write_cells 0 (map Some xs) (blocks U b) = Inr v" "shape v" "cells v = overwrite 0 (map Some xs) (cells (blocks U b))"
        "bsize v = bsize (blocks U b)" "bcap v = bcap (blocks U b)"
      using write_cells_ok [OF B(1), of 0 "map Some xs"] B U(5) by auto
    let ?c = "(objs U n)\<lparr>coff := 0, csize := length xs\<rparr>" and ?V = "set_obj n ((objs U n)\<lparr>coff := 0, csize := length xs\<rparr>) (set_block b v U)"
    have V: "cow_inv ?V" "\<And>m. m \<in> set (names U) \<Longrightarrow> m \<noteq> n \<Longrightarrow> view ?V m = view U m" "view ?V n = take (length xs) (cells v)"
      using own_block [OF U(2) nU Some _ v(2), of ?c] U(5,7) Some v(4,5) B by auto
    have "take (length xs) (cells v) = map Some xs" using v(3) by (simp add: overwrite_def)
    moreover have "view ?V m = view W m" if "m \<in> set (names W)" for m
    proof -
      have "m \<in> set (names U)" "m \<noteq> n" using that n(1) U(3) by auto
      then show ?thesis using V(2) U(4) [OF that] by metis
    qed
    ultimately have "cow_abstracts ?V (born n (map Some xs) a)" using V(1,3) U(3) n by (intro abstracts_born [OF assms(1)]) auto
    then show ?thesis using U(1) Some v(1) by (simp add: done_with_def Cow_of_data_def)
  qed
qed

lemma mutable_data:
  assumes "cow_abstracts W a" "n \<in> set (alive a)" "bytes a n \<noteq> []"
  obtains V b where "MutableData L W n = Inr (Some (b, coff (objs V n)), V)" "cow_abstracts V a" "cbuf (objs V n) = Some b" "HasOneRef V b"
proof -
  note N = abstractsD [OF assms(1,2)]
  have c: "0 < csize (objs W n)" using N(4) assms(3) by simp
  then obtain b where b: "cbuf (objs W n) = Some b" using N(2) by (cases "cbuf (objs W n)") (auto simp: cow_ok_def)
  note B = ok_Some [OF N(2) b]
  let ?cap = "bcap (blocks W b) - coff (objs W n)"
  have "0 < ?cap" "csize (objs W n) \<le> ?cap" using B c by linarith+
  then obtain V d where V: "UnshareAndEnsureCapacity L W n ?cap = Inr V" "cow_inv V" "names V = names W"
      "\<forall>m \<in> set (names W). view V m = view W m" "cbuf (objs V n) = Some d" "HasOneRef V d"
    using unshare_law [OF N(5,1)] b by blast
  have nV: "n \<in> set (names V)" using N(1) V(3) by simp
  have "IsConsistent (blocks V d)" using ok_Some(1) [OF inv_ok [OF V(2) nV] V(5)] by (rule shape_consistent)
  then have "MutableData L W n = Inr (Some (d, coff (objs V n)), V)"
    using b V(1,5) capacity_ok [OF N(2)] with_consistent_ok [OF N(2)] by (simp add: MutableData_def)
  moreover have "cow_abstracts V a" using assms(1) V(2-4) by (simp add: cow_abstracts_def)
  ultimately show ?thesis using that V(5,6) by blast
qed

lemma sim_write:
  assumes "cow_abstracts W a" "cow_legal a (Write n i x)"
  shows "cow_sim (cow_code_step z L W (Write n i x)) (cow_spec_step z a (Write n i x))"
proof (cases "i < length (bytes a n)")
  case True
  have n: "n \<in> set (alive a)" "bytes a n \<noteq> []" using assms(2) True by auto
  obtain V b where V: "MutableData L W n = Inr (Some (b, coff (objs V n)), V)" "cow_abstracts V a" "cbuf (objs V n) = Some b" "HasOneRef V b"
    using mutable_data [OF assms(1) n] by metis
  note N = abstractsD [OF V(2) n(1)]
  note B = ok_Some [OF N(2) V(3)]
  let ?c = "objs V n"
  have i: "i < csize ?c" "coff ?c + i < length (cells (blocks V b))" using True N(4) B by simp_all
  obtain v where v: "write_cells (coff ?c + i) [Some x] (blocks V b) = Inr v" "shape v" "cells v = overwrite (coff ?c + i) [Some x] (cells (blocks V b))"
      "bsize v = bsize (blocks V b)" "bcap v = bcap (blocks V b)"
    using write_cells_ok [OF B(1), of "coff ?c + i" "[Some x]"] i(2) B(6) by auto
  have s: "set_obj n ?c (set_block b v V) = set_block b v V" by (cases V) (simp add: set_obj_def set_block_def fun_upd_idem)
  note X = own_block [OF N(5,1) V(3,4) v(2) _ _ V(3), unfolded v(4,5) s, OF B(2,3)]
  have "view (set_block b v V) n = (bytes a n)[i := Some x]"
    unfolding X(3) v(3) overwrite_single [OF i(2)] N(3) [symmetric] by (simp add: see_def V(3) drop_update_swap take_update_swap)
  then have "cow_abstracts (set_block b v V) (let_be n ((bytes a n)[i := Some x]) a)"
    using X(1,2) by (intro abstracts_let [OF V(2)]) auto
  moreover have "cow_size W n = Inr (length (bytes a n))" using size_ok [OF abstractsD(2) [OF assms(1) n(1)]] abstractsD(4) [OF assms(1) n(1)] by simp
  ultimately show ?thesis using True V(1) v(1) by (simp add: done_with_def cow_index_set_def)
next
  case False
  then show ?thesis using abstractsD [OF assms(1), of n] assms(2) by (simp add: done_with_def cow_index_set_def size_ok)
qed

lemma append_shared:
  assumes "cow_abstracts W a" "n \<in> set (alive a)" "xs \<noteq> [] \<or> bytes a n \<noteq> []" "cbuf (objs W n) = Some b"
  shows "\<exists>V. cow_AppendData z L W n xs = Inr V \<and> cow_abstracts V (let_be n (bytes a n @ map Some xs) a)"
proof -
  note N = abstractsD [OF assms(1,2)]
  note B = ok_Some [OF N(2) assms(4)]
  let ?cap = "max (bcap (blocks W b) - coff (objs W n)) (csize (objs W n) + length xs)"
  have "0 < ?cap" "csize (objs W n) \<le> ?cap" using assms(3) N(4) by (auto simp: max_def)
  then obtain V d where V: "UnshareAndEnsureCapacity L W n ?cap = Inr V" "cow_inv V" "names V = names W"
      "\<forall>m \<in> set (names W). view V m = view W m" "cbuf (objs V n) = Some d" "HasOneRef V d"
    using unshare_law [OF N(5,1)] assms(4) by blast
  have aV: "cow_abstracts V a" using assms(1) V(2-4) by (simp add: cow_abstracts_def)
  note M = abstractsD [OF aV assms(2)]
  note D = ok_Some [OF M(2) V(5)]
  let ?c = "objs V n"
  have "wf_buffer False z (blocks V d)" using D(1) by (simp add: wf_simps)
  then obtain v where v: "SetSize False z (coff ?c + csize ?c) (blocks V d) = Inr v" "wf_buffer False z v" "bsize v = coff ?c + csize ?c"
      "take (bsize (blocks V d)) (contents v) = take (coff ?c + csize ?c) (contents (blocks V d))"
    using SetSize_ok [of False z "blocks V d"] by blast
  then obtain u where u: "AppendData False z xs v = Inr u" "wf_buffer False z u" "contents u = contents v @ map Some xs"
    using AppendData_ok [of False z v xs] by blast
  have cv: "contents v = take (coff ?c + csize ?c) (cells (blocks V d))"
    using v(2,3,4) D(3) by (auto simp: contents_def wf_simps shape_def min_def split: if_splits)
  have cu: "contents u = take (coff ?c + csize ?c) (cells (blocks V d)) @ map Some xs" using u(3) cv by simp
  have su: "shape u" "bsize u = coff ?c + csize ?c + length xs"
    using u(2) contents_cells [OF cu] D by (auto simp: wf_simps)
  let ?e = "?c\<lparr>csize := csize ?c + length xs\<rparr>"
  have e: "0 < bcap u" "coff ?e + csize ?e \<le> bsize u" "cbuf ?e = Some d" using su assms(3) M(4) V(5) by (auto simp: shape_def)
  note X = own_block [OF M(5,1) V(5,6) su(1) e]
  let ?X = "set_obj n ?e (set_block d u V)"
  have "view ?X n = drop (coff ?c) (contents u)"
    unfolding X(3) contents_def su(2) by (simp add: drop_take add.assoc)
  also have "\<dots> = bytes a n @ map Some xs" unfolding cu M(3) [symmetric] using D by (simp add: see_def V(5) drop_take)
  finally have "cow_abstracts ?X (let_be n (bytes a n @ map Some xs) a)" using X(1,2) by (intro abstracts_let [OF aV]) auto
  moreover have "with_consistent ?X n (Inr ?X) = Inr ?X" using inv_ok [OF X(1), of n] M(1) by (intro with_consistent_ok) simp
  then have "cow_AppendData z L W n xs = Inr ?X"
    using assms(4) with_consistent_ok [OF N(2)] capacity_ok [OF N(2)] V(1,5) v(1) u(1) by (simp add: cow_AppendData_def Let_def)
  ultimately show ?thesis by blast
qed

lemma append_null:
  assumes "cow_abstracts W a" "n \<in> set (alive a)" "xs \<noteq> []" "cbuf (objs W n) = None"
  shows "\<exists>V. cow_AppendData z L W n xs = Inr V \<and> cow_abstracts V (let_be n (bytes a n @ map Some xs) a)"
proof -
  note N = abstractsD [OF assms(1,2)]
  obtain v where v: "Buffer_copy xs (length xs) = Inr v" "shape v" "bsize v = length xs" "bcap v = length xs" "take (length xs) (cells v) = map Some xs"
    using Buffer_copy_ok [of xs "length xs"] by auto
  let ?c = "\<lparr>cbuf = Some (next_block W), coff = 0, csize = length xs\<rparr>"
  let ?V = "set_obj n ?c (snd (new_block v W))"
  have V: "cow_inv ?V" "\<And>m. m \<in> set (names W) \<Longrightarrow> m \<noteq> n \<Longrightarrow> view ?V m = view W m" "view ?V n = map Some xs"
    using fresh_block [OF N(5,1) v(2), of ?c] v(3-5) assms(3) by auto
  have "bytes a n = []" using N(3) assms(4) by (simp add: see_def)
  then have "cow_abstracts ?V (let_be n (bytes a n @ map Some xs) a)" using V by (intro abstracts_let [OF assms(1)]) auto
  moreover have "with_consistent ?V n (Inr ?V) = Inr ?V" using inv_ok [OF V(1), of n] N(1) by (intro with_consistent_ok) simp
  then have "cow_AppendData z L W n xs = Inr ?V"
    using assms(4) with_consistent_ok [OF N(2)] v(1) by (simp add: cow_AppendData_def Let_def split_beta)
  ultimately show ?thesis by blast
qed

lemma sim_append:
  assumes "cow_abstracts W a" "cow_legal a (Append n xs)"
  shows "cow_sim (cow_code_step z L W (Append n xs)) (cow_spec_step z a (Append n xs))"
  using append_shared [OF assms(1), of n xs _ z] append_null [OF assms(1), of n xs z] assms(2) abstractsD(3) [OF assms(1), of n]
  by (cases "cbuf (objs W n)") (auto simp: done_with_def see_def)

lemma sim_append_from:
  assumes "cow_abstracts W a" "cow_legal a (AppendFrom n m)"
  shows "cow_sim (cow_code_step z L W (AppendFrom n m)) (cow_spec_step z a (AppendFrom n m))"
proof -
  have n: "n \<in> set (alive a)" "m \<in> set (alive a)" "bytes a m \<noteq> [] \<or> bytes a n \<noteq> []" using assms(2) by auto
  note M = abstractsD [OF assms(1) n(2)]
  let ?xs = "map (\<lambda>c. case c of None \<Rightarrow> z | Some x \<Rightarrow> x) (bytes a m)"
  have "cow_AppendData_buf z L W n m = cow_AppendData z L W n ?xs"
  proof (cases "cbuf (objs W m)")
    case None
    then show ?thesis using M(2) M(3) [symmetric] size_ok [OF M(2)]
      by (simp add: cow_AppendData_buf_def cow_cdata_def read_bytes_def see_def with_consistent_ok [OF M(2)] cow_ok_def)
  next
    case (Some b)
    note B = ok_Some [OF M(2) Some]
    show ?thesis using Some B M(3) [symmetric] size_ok [OF M(2)] shape_consistent [OF B(1)]
      by (simp add: cow_AppendData_buf_def cow_cdata_def read_bytes_def see_def with_consistent_ok [OF M(2)])
  qed
  moreover have "cow_legal a (Append n ?xs)" using n by simp
  then have "cow_sim (cow_code_step z L W (Append n ?xs)) (cow_spec_step z a (Append n ?xs))" by (rule sim_append [OF assms(1)])
  moreover have "map Some ?xs = map (\<lambda>c. Some (case c of None \<Rightarrow> z | Some x \<Rightarrow> x)) (bytes a m)" by simp
  ultimately show ?thesis by (simp only: cow_code_step.simps cow_spec_step.simps)
qed

lemma cow_sim_step: "cow_abstracts W a \<Longrightarrow> cow_legal a op \<Longrightarrow> cow_sim (cow_code_step z L W op) (cow_spec_step z a op)"
  by (cases op) (simp_all only: sim_new sim_copy_cow sim_assign_cow sim_move sim_put sim_put_from sim_append sim_append_from sim_slice sim_write
    sim_read sim_size sim_swap)

lemma cow_sim_run:
  "cow_abstracts W a \<Longrightarrow> cow_legal_run z a ops \<Longrightarrow>
   (case run_list (cow_spec_step z) a ops of
      Inl f \<Rightarrow> run_list (cow_code_step z L) W ops = Inl f
    | Inr (ys, b) \<Rightarrow> \<exists>V. run_list (cow_code_step z L) W ops = Inr (ys, V) \<and> cow_abstracts V b)"
proof (induction ops arbitrary: W a)
  case (Cons op ops)
  have s: "cow_sim (cow_code_step z L W op) (cow_spec_step z a op)" using Cons.prems by (intro cow_sim_step) auto
  show ?case
  proof (cases "cow_spec_step z a op")
    case (Inr r)
    then obtain y b where r: "cow_spec_step z a op = Inr (y, b)" by (cases r) auto
    then obtain V where V: "cow_code_step z L W op = Inr (y, V)" "cow_abstracts V b" using s by auto
    show ?thesis using Cons.IH [OF V(2)] Cons.prems(2) r V(1) by (cases "run_list (cow_spec_step z) b ops") auto
  qed (use s in simp)
qed simp

end

section \<open>An implementation of the compiled functions\<close>

definition add_null :: "nat \<Rightarrow> 'a cows \<Rightarrow> 'a cows" where
  "add_null n W = (set_obj n \<lparr>cbuf = None, coff = 0, csize = 0\<rparr> W)\<lparr>names := names W @ [n]\<rparr>"

definition std_cow :: "'a cow_lib" where
  "std_cow = \<lparr>
     Cow_copy = (\<lambda>W n m. (set_obj n (objs W m) W)\<lparr>names := names W @ [n]\<rparr>),
     Cow_sized = (\<lambda>W n k cap.
       if max k cap = 0 then Inr (add_null n W)
       else rbind (Buffer_sized k cap) (\<lambda>v.
         Inr (set_obj n \<lparr>cbuf = Some (next_block W), coff = 0, csize = k\<rparr> (snd (new_block v (add_null n W)))))),
     UnshareAndEnsureCapacity = (\<lambda>W n cap.
       case cbuf (objs W n) of
         None \<Rightarrow> Inl NullDereference
       | Some b \<Rightarrow>
           let k = csize (objs W n) in
           if HasOneRef W b \<and> cap \<le> bcap (blocks W b) - coff (objs W n) then Inr W
           else Inr (set_obj n \<lparr>cbuf = Some (next_block W), coff = 0, csize = k\<rparr>
             (snd (new_block \<lparr>bsize = k, bcap = max k cap, bdata = Some (view W n @ replicate (max k cap - k) None), freed = []\<rparr> W))))\<rparr>"

lemma filter_one: "distinct xs \<Longrightarrow> n \<in> set xs \<Longrightarrow> filter (\<lambda>k. k = n) xs = [n]"
  by (induction xs) (auto simp: filter_empty_conv)

lemma fresh_unique:
  assumes "cow_inv W" "n \<in> set (names W)" "cbuf c = Some (next_block W)"
  shows "HasOneRef (set_obj n c (snd (new_block v W))) (next_block W)"
proof -
  have "filter (\<lambda>k. cbuf (objs (set_obj n c (snd (new_block v W))) k) = Some (next_block W)) (names W) = filter (\<lambda>k. k = n) (names W)"
    using assms(3) ok_Some(4) [OF inv_ok [OF assms(1)], of _ "next_block W"] by (intro filter_cong) auto
  then show ?thesis using filter_one [of "names W" n] assms(1,2) by (simp add: HasOneRef_def cow_inv_def)
qed

lemma add_null_inv:
  assumes "cow_inv W" "n \<notin> set (names W)"
  shows "cow_inv (add_null n W)" "\<And>m. m \<noteq> n \<Longrightarrow> view (add_null n W) m = view W m" "names (add_null n W) = names W @ [n]"
    "objs (add_null n W) n = \<lparr>cbuf = None, coff = 0, csize = 0\<rparr>" "next_block (add_null n W) = next_block W"
proof -
  show "cow_inv (add_null n W)" using assms null_ok by (auto simp: add_null_def cow_inv_def)
qed (simp_all add: add_null_def)

interpretation std_cow: cow_library std_cow
proof
  fix W :: "'a cows" and n k cap :: nat
  assume W: "cow_inv W" and n: "n \<notin> set (names W)"
  note U = add_null_inv [OF W n]
  show "\<exists>V. Cow_sized std_cow W n k cap = Inr V \<and> cow_inv V \<and> names V = names W @ [n] \<and> (\<forall>m \<in> set (names W). view V m = view W m) \<and>
      csize (objs V n) = k \<and> coff (objs V n) = 0 \<and> (case cbuf (objs V n) of None \<Rightarrow> k = 0 | Some b \<Rightarrow> HasOneRef V b)"
  proof (cases "max k cap = 0")
    case True
    have "\<forall>m \<in> set (names W). view (add_null n W) m = view W m" using U(2) n by metis
    then show ?thesis using True U(1,3,4) by (intro exI [of _ "add_null n W"]) (simp add: std_cow_def)
  next
    case False
    let ?v = "\<lparr>bsize = k, bcap = max k cap, bdata = Some (replicate (max k cap) None), freed = []\<rparr> :: 'a buffer"
    let ?c = "\<lparr>cbuf = Some (next_block W), coff = 0, csize = k\<rparr>"
    let ?V = "set_obj n ?c (snd (new_block ?v (add_null n W)))"
    have v: "shape ?v" "0 < bcap ?v" "coff ?c + csize ?c \<le> bsize ?v" using False by (auto simp: shape_def cells_def)
    have nU: "n \<in> set (names (add_null n W))" using U(3) by simp
    have cU: "cbuf ?c = Some (next_block (add_null n W))" using U(5) by simp
    note F = fresh_block [OF U(1) nU v cU]
    have "Buffer_sized k cap = Inr ?v" using False shape_consistent [OF v(1)] by (simp add: Buffer_sized_def Let_def)
    then have "Cow_sized std_cow W n k cap = Inr ?V" using False by (auto simp: std_cow_def)
    moreover have "HasOneRef ?V (next_block W)" using fresh_unique [OF U(1) nU cU] U(5) by simp
    moreover have "view ?V m = view W m" if "m \<in> set (names W)" for m
    proof -
      have "m \<noteq> n" "m \<in> set (names (add_null n W))" using that n U(3) by auto
      then show ?thesis using F(2) U(2) by metis
    qed
    ultimately show ?thesis using F(1) U(3) by (intro exI [of _ ?V]) simp
  qed
next
  fix W :: "'a cows" and n cap :: nat
  assume W: "cow_inv W" and n: "n \<in> set (names W)" and c: "cbuf (objs W n) \<noteq> None" "0 < cap" "csize (objs W n) \<le> cap"
  obtain b where b: "cbuf (objs W n) = Some b" using c(1) by auto
  show "\<exists>V b. UnshareAndEnsureCapacity std_cow W n cap = Inr V \<and> cow_inv V \<and> names V = names W \<and> (\<forall>m \<in> set (names W). view V m = view W m) \<and>
      csize (objs V n) = csize (objs W n) \<and> cbuf (objs V n) = Some b \<and> HasOneRef V b \<and> cap \<le> bcap (blocks V b) - coff (objs V n)"
  proof (cases "HasOneRef W b \<and> cap \<le> bcap (blocks W b) - coff (objs W n)")
    case True
    then show ?thesis using W b by (intro exI [of _ W] exI [of _ b]) (simp add: std_cow_def)
  next
    case False
    define k where "k = csize (objs W n)"
    define v where "v = (\<lparr>bsize = k, bcap = max k cap, bdata = Some (view W n @ replicate (max k cap - k) None), freed = []\<rparr> :: 'a buffer)"
    let ?c = "\<lparr>cbuf = Some (next_block W), coff = 0, csize = k\<rparr>"
    let ?V = "set_obj n ?c (snd (new_block v W))"
    have l: "length (view W n) = k" using see_length [OF inv_ok [OF W n]] by (simp add: k_def)
    have v: "shape v" "0 < bcap v" "coff ?c + csize ?c \<le> bsize v" "take k (cells v) = view W n" "bcap v = cap"
      using l c(2,3) by (auto simp: v_def shape_def cells_def k_def)
    note F = fresh_block [OF W n v(1-3), simplified]
    have "UnshareAndEnsureCapacity std_cow W n cap = Inr ?V" using False b by (auto simp: std_cow_def Let_def v_def k_def)
    moreover have "HasOneRef ?V (next_block W)" by (rule fresh_unique [OF W n]) simp
    moreover have "view ?V m = view W m" if "m \<in> set (names W)" for m
      using fresh_block(2,3) [OF W n v(1-3)] v(4) that by (cases "m = n") auto
    moreover have "cow_inv ?V" using fresh_block(1) [OF W n v(1-3)] by simp
    moreover have "blocks ?V (next_block W) = v" by (simp add: new_block_def)
    ultimately show ?thesis using v(5) by (intro exI [of _ ?V] exI [of _ "next_block W"]) (simp add: k_def)
  qed
qed (simp_all add: std_cow_def)

section \<open>Programs\<close>

definition no_cows :: "(nat \<Rightarrow> 'a buffer) \<Rightarrow> 'a cows" where
  "no_cows bs = \<lparr>blocks = bs, next_block = 0, names = [], objs = (\<lambda>n. \<lparr>cbuf = None, coff = 0, csize = 0\<rparr>)\<rparr>"

definition cow_outputs :: "('b list \<times> 's) res \<Rightarrow> 'b list res" where
  "cow_outputs r = rbind r (\<lambda>(ys, s). Inr ys)"

text \<open>
  C16. Sharing cannot be observed: a program that creates, copies, slices, assigns, moves, swaps, writes, replaces and appends
  buffers gives the results that it gives when every object holds bytes of its own, failed checks included. The compiled part behaves as its
  comments say. The program uses objects that live, does not set or append nothing to an empty object, does not append an object to itself, and
  slices without a wrap-around; the theorems below show what happens otherwise for two of these.
\<close>

theorem cow_buffers_are_values:
  fixes L :: "'a cow_lib"
  assumes "cow_library L" and "cow_legal_run z \<lparr>alive = [], bytes = (\<lambda>n. [])\<rparr> ops"
  shows "cow_outputs (run_list (cow_code_step z L) (no_cows bs) ops) =
    cow_outputs (run_list (cow_spec_step z) \<lparr>alive = [], bytes = (\<lambda>n. [])\<rparr> ops)"
proof -
  have "cow_abstracts (no_cows bs) \<lparr>alive = [], bytes = (\<lambda>n. [])\<rparr>" by (simp add: cow_abstracts_def no_cows_def cow_inv_def)
  then show ?thesis using cow_library.cow_sim_run [OF assms(1) _ assms(2)] by (fastforce simp: cow_outputs_def split: sum.splits)
qed

theorem cow_buffers_are_values_witness:
  "cow_outputs (run_list (cow_code_step 0 std_cow) (no_cows (\<lambda>b. Buffer_empty))
     [New 1 [10, 11, 12 :: u8] 3, Copy 2 1, SliceOf 3 1 1 2, Write 1 1 99, Append 2 [13], Read 2 1, Read 3 0, Read 1 1, Size 2]) =
   Inr [Unit, Unit, Unit, Unit, Unit, Cell (Some 11), Cell (Some 11), Cell (Some 99), Count 4]"
  using cow_buffers_are_values [OF std_cow.cow_library_axioms, of "0 :: u8"
      "[New 1 [10, 11, 12 :: u8] 3, Copy 2 1, SliceOf 3 1 1 2, Write 1 1 99, Append 2 [13], Read 2 1, Read 3 0, Read 1 1, Size 2]"
      "\<lambda>b. Buffer_empty"]
  by (simp add: cow_outputs_def born_def let_be_def)

section \<open>Inputs that break the class\<close>

text \<open>Appending nothing to an empty buffer allocates a buffer without capacity and fails the check of the invariant.\<close>

theorem append_nothing_fails:
  assumes "cbuf (objs W n) = None" and "cow_ok W (objs W n)"
  shows "cow_AppendData z L W n [] = Inl DCheckFailed"
proof -
  have "Buffer_copy [] 0 = Inr (Buffer_empty :: 'a buffer)"
    by (simp add: Buffer_copy_def Buffer_sized_def Buffer_empty_def IsConsistent_def write_cells_def cells_def)
  then show ?thesis using assms
    by (simp add: cow_AppendData_def with_consistent_ok split_beta)
      (simp add: with_consistent_def cow_IsConsistent_def new_block_def buf_capacity_def buf_size_def Buffer_empty_def IsConsistent_def)
qed

text \<open>
  C17. The check of \<open>Slice\<close> adds the length to the offset and wraps around: a slice of almost \<open>2 ^ 64\<close> bytes is accepted, its size is
  reported as such and its bytes behind the buffer are read.
\<close>

theorem slice_length_wraps:
  assumes "cow_library L" and "cow_inv W" and "m \<in> set (names W)" and "n \<notin> set (names W)" and "cbuf (objs W m) = Some b"
    and "0 < csize (objs W m)" and "bcap (blocks W b) < 2 ^ 64"
  shows "\<exists>V. cow_Slice L W n m 1 (2 ^ 64 - 1) = Inr V \<and> cow_size V n = Inr (2 ^ 64 - 1) \<and>
    cow_index V n (2 ^ 64 - 2) = Inl OutOfRange"
proof -
  let ?c = "(objs W m)\<lparr>coff := coff (objs W m) + 1, csize := 2 ^ 64 - 1\<rparr>"
  let ?V = "(set_obj n ?c W)\<lparr>names := names W @ [n]\<rparr>"
  note B = ok_Some [OF inv_ok [OF assms(2,3)] assms(5)]
  have nm: "n \<noteq> m" using assms(3,4) by auto
  have s: "cow_Slice L W n m 1 (2 ^ 64 - 1) = Inr ?V"
    using cow_library.copy_law [OF assms(1,2,4,3)] assms(6) nm by (cases W) (simp add: cow_Slice_def set_obj_def)
  have k: "cow_IsConsistent ?V ?c = Inr True"
  proof -
    have "(coff (objs W m) + 1 + (2 ^ 64 - 1)) mod 2 ^ 64 = coff (objs W m) mod 2 ^ 64" by simp
    moreover have "coff (objs W m) mod 2 ^ 64 \<le> coff (objs W m)" by simp
    ultimately show ?thesis using B assms(5,6) shape_consistent [OF B(1)]
      by (simp add: cow_IsConsistent_def buf_capacity_def buf_size_def)
  qed
  have sz: "cow_size ?V n = Inr (2 ^ 64 - 1)" using k by (simp add: cow_size_def with_consistent_def)
  have "cow_cdata ?V n = Inr (Some (b, coff (objs W m) + 1))"
    using k assms(5) shape_consistent [OF B(1)] by (simp add: cow_cdata_def with_consistent_def)
  then have "cow_index ?V n (2 ^ 64 - 2) = Inl OutOfRange"
    using sz B(6) assms(7) by (simp add: cow_index_def guardr_def)
  then show ?thesis using s sz by blast
qed

definition one_cow :: "u8 cows" where
  "one_cow = \<lparr>blocks = (\<lambda>b. \<lparr>bsize = 1, bcap = 1, bdata = Some [Some 7], freed = []\<rparr>), next_block = 1, names = [1],
     objs = (\<lambda>n. \<lparr>cbuf = Some 0, coff = 0, csize = 1\<rparr>)\<rparr>"

theorem slice_length_wraps_witness:
  "\<exists>V. cow_Slice std_cow one_cow 2 1 1 (2 ^ 64 - 1) = Inr V \<and> cow_size V 2 = Inr (2 ^ 64 - 1) \<and> cow_index V 2 (2 ^ 64 - 2) = Inl OutOfRange"
proof -
  have "cow_inv one_cow" by (simp add: one_cow_def cow_inv_def cow_ok_def shape_def cells_def)
  then show ?thesis using slice_length_wraps [OF std_cow.cow_library_axioms, of one_cow 1 2 0] by (simp add: one_cow_def)
qed

theorem append_nothing_fails_witness:
  "cow_AppendData 0 std_cow (add_null 1 (no_cows (\<lambda>b. Buffer_empty :: u8 buffer))) 1 [] = Inl DCheckFailed"
  by (rule append_nothing_fails) (simp_all add: add_null_def no_cows_def null_ok)

end
