(* ===== verification/Bits.thy ===== *)
theory Bits
  imports IntTypes
begin

unbundle bit_operations_syntax

text \<open>
  base/bits.h: powers of two, alignment, counting zero bits and logarithms. A value of an integer type is an integer with
  its \<open>int_type\<close>; \<open>size_t\<close> is a word of 64 bits. The compiler builtins that count zeros are undefined for 0, and the code never
  calls them there.
\<close>

section \<open>The functions\<close>

definition IsPowerOfTwo :: "int \<Rightarrow> bool" where
  "IsPowerOfTwo value \<longleftrightarrow> value > 0 \<and> value AND (value - 1) = 0"

definition Align :: "64 word \<Rightarrow> 64 word \<Rightarrow> 64 word res" where
  "Align size' alignment = dcheck (IsPowerOfTwo (uint alignment)) (Inr ((size' + alignment - 1) AND NOT (alignment - 1)))"

definition AlignDown :: "64 word \<Rightarrow> 64 word \<Rightarrow> 64 word res" where
  "AlignDown size' alignment = dcheck (IsPowerOfTwo (uint alignment)) (Inr (size' AND NOT (alignment - 1)))"

text \<open>\<open>__builtin_clz\<close> and \<open>__builtin_ctz\<close> on \<open>w\<close> bits.\<close>

fun bit_length :: "nat \<Rightarrow> nat" where
  "bit_length n = (if n = 0 then 0 else Suc (bit_length (n div 2)))"

declare bit_length.simps [simp del]

definition builtin_clz :: "nat \<Rightarrow> nat \<Rightarrow> nat res" where
  "builtin_clz w x = guardr OutOfRange (x \<noteq> 0) (Inr (w - bit_length x))"

fun trailing_zeros :: "nat \<Rightarrow> nat" where
  "trailing_zeros n = (if n = 0 \<or> odd n then 0 else Suc (trailing_zeros (n div 2)))"

declare trailing_zeros.simps [simp del]

definition builtin_ctz :: "nat \<Rightarrow> nat res" where
  "builtin_ctz x = guardr OutOfRange (x \<noteq> 0) (Inr (trailing_zeros x))"

definition CountLeadingZeroBits :: "int_type \<Rightarrow> nat \<Rightarrow> nat res" where
  "CountLeadingZeroBits t value =
     (let bits = 8 * sizeof t in
      if value \<noteq> 0 then if bits = 64 then builtin_clz 64 value else rbind (builtin_clz 32 value) (\<lambda>n. Inr (n - (32 - bits)))
      else Inr bits)"

definition CountTrailingZeroBits :: "int_type \<Rightarrow> nat \<Rightarrow> nat res" where
  "CountTrailingZeroBits t value = (if value \<noteq> 0 then builtin_ctz value else Inr (8 * sizeof t))"

definition CountLeadingZeroBits32 :: "nat \<Rightarrow> nat res" where
  "CountLeadingZeroBits32 x = CountLeadingZeroBits UInt32 x"

definition CountLeadingZeroBits64 :: "nat \<Rightarrow> nat res" where
  "CountLeadingZeroBits64 x = CountLeadingZeroBits UInt64 x"

definition CountLeadingZeroBitsSizeT :: "nat \<Rightarrow> nat res" where
  "CountLeadingZeroBitsSizeT x = CountLeadingZeroBits UInt64 x"

definition CountTrailingZeroBitsSizeT :: "nat \<Rightarrow> nat res" where
  "CountTrailingZeroBitsSizeT x = CountTrailingZeroBits UInt64 x"

text \<open>The differences of an \<open>int\<close> and an \<open>unsigned\<close> are unsigned, and are converted to the \<open>int\<close> result.\<close>

definition Log2Floor :: "nat \<Rightarrow> int res" where
  "Log2Floor n = rbind (CountLeadingZeroBits UInt32 n) (\<lambda>z. Inr (cast Int32 (cast UInt32 (31 - int z))))"

definition Log2Ceiling :: "nat \<Rightarrow> int res" where
  "Log2Ceiling n =
     rbind (CountLeadingZeroBits UInt32 (nat (cast UInt32 (int n - 1)))) (\<lambda>z.
     Inr (cast Int32 (cast UInt32 ((if n \<noteq> 0 then 32 else - 1) - int z))))"

definition LeftmostBit :: "int_type \<Rightarrow> int" where
  "LeftmostBit t = cast t (push_bit (8 * sizeof t - 1) 1)"

section \<open>Powers of two\<close>

lemma and_pred_even: "(2 * y) AND (2 * y - 1) = 2 * (y AND (y - 1))" for y :: int
proof -
  have "2 * y - 1 = 1 + 2 * (y - 1)" by simp
  moreover have "(2 * y - 1) div 2 = y - 1" by presburger
  ultimately show ?thesis by (subst and_int_rec) simp
qed

lemma and_pred_odd: "(1 + 2 * y) AND (2 * y) = 2 * y" for y :: int
  by (subst and_int_rec) simp

lemma power_of_two_iff: "IsPowerOfTwo v \<longleftrightarrow> (\<exists>k. v = 2 ^ k)"
proof
  assume "IsPowerOfTwo v"
  then have "0 < v" "v AND (v - 1) = 0" by (auto simp: IsPowerOfTwo_def)
  then show "\<exists>k. v = 2 ^ k"
  proof (induction "nat v" arbitrary: v rule: less_induct)
    case less
    show ?case
    proof (cases "even v")
      case True
      then obtain y where y: "v = 2 * y" by blast
      then have "y AND (y - 1) = 0" "0 < y" "nat y < nat v" using less.prems and_pred_even [of y] by auto
      then obtain k where "y = 2 ^ k" using less.hyps by blast
      then have "v = 2 ^ Suc k" using y by simp
      then show ?thesis by blast
    next
      case False
      then obtain y where "v = 1 + 2 * y" by (metis oddE add.commute)
      then have "v = 2 ^ 0" using less.prems and_pred_odd [of y] by simp
      then show ?thesis by blast
    qed
  qed
next
  assume "\<exists>k. v = 2 ^ k"
  then obtain k where "v = 2 ^ k" by blast
  moreover have "(2 ^ k :: int) AND (2 ^ k - 1) = 0"
    by (induction k) (simp_all add: and_pred_even)
  ultimately show "IsPowerOfTwo v" by (simp add: IsPowerOfTwo_def)
qed

lemma word_power: "IsPowerOfTwo (uint a) \<Longrightarrow> \<exists>k < 64. a = 2 ^ k" for a :: "64 word"
proof -
  assume "IsPowerOfTwo (uint a)"
  then obtain k where k: "uint a = 2 ^ k" by (auto simp: power_of_two_iff)
  have "(2::int) ^ k < 2 ^ 64" using k uint_lt2p [of a] by simp
  then have "k < 64" by (metis one_less_numeral_iff power_less_imp_less_exp semiring_norm(76))
  moreover have "word_of_int (uint a) = (word_of_int (2 ^ k) :: 64 word)" by (simp only: k)
  then have "a = 2 ^ k" by simp
  ultimately show ?thesis by blast
qed

section \<open>Alignment\<close>

lemma unat_lt_64: "unat x < 2 ^ 64" for x :: "64 word"
proof -
  have "unat x < 2 ^ LENGTH(64)" by (rule unsigned_less)
  then show ?thesis by simp
qed

lemma word_of_unat: "unat x = n \<Longrightarrow> x = of_nat n" for x :: "64 word"
  by auto

lemma and_not_low: "x AND NOT (2 ^ k - 1) = push_bit k (drop_bit k x)" for x :: "64 word"
  by (simp add: bit_eq_iff bit_and_iff bit_not_iff bit_push_bit_iff bit_drop_bit_eq bit_mask_iff flip: mask_eq_exp_minus_1) auto

lemma unat_power_of_two: "unat (2 ^ k :: 64 word) = 2 ^ k" if "k < 64"
proof -
  have "(2::nat) ^ k < 2 ^ 64" using that by (simp only: power_strict_increasing)
  then have "unat (of_nat (2 ^ k) :: 64 word) = 2 ^ k" by (simp only: unat_of_nat take_bit_nat_eq_self_iff len_bit0 len_num1) simp
  then show ?thesis by simp
qed

lemma unat_and_not_low: "unat (x AND NOT (2 ^ k - 1)) = unat x div 2 ^ k * 2 ^ k" if "k < 64" for x :: "64 word"
proof -
  have "unat x div 2 ^ k * 2 ^ k < 2 ^ 64"
  proof (rule order_le_less_trans)
    show "unat x < 2 ^ 64" by (rule unat_lt_64)
  qed (rule div_times_less_eq_dividend)
  then show ?thesis
    by (simp add: and_not_low unat_drop_bit_eq push_bit_eq_mult unat_word_ariths unat_power_of_two that drop_bit_eq_div mod_mult_left_eq)
qed

lemma align_rounds_up:
  assumes "IsPowerOfTwo (uint a)"
  shows "Align s a = Inr (of_nat (if unat s + unat a \<le> 2 ^ 64 then (unat s + unat a - 1) div unat a * unat a else 0))"
proof -
  obtain k where k: "k < 64" "a = 2 ^ k" using word_power assms by blast
  let ?x = "s + a - 1"
  have m: "unat a = 2 ^ k" using k by (simp add: unat_power_of_two)
  have lt: "unat s < 2 ^ 64" by (rule unat_lt_64)
  have mlt: "(2::nat) ^ k < 2 ^ 64" using k by (simp only: power_strict_increasing)
  have "?x = of_nat (unat s + unat a - 1)" using m by (simp add: of_nat_diff Suc_leI trans_le_add2 k(2))
  then have x: "unat ?x = (unat s + unat a - 1) mod 2 ^ 64" by (simp add: unat_of_nat take_bit_eq_mod)
  have "unat (?x AND NOT (a - 1)) = (if unat s + unat a \<le> 2 ^ 64 then (unat s + unat a - 1) div unat a * unat a else 0)"
  proof (cases "unat s + unat a \<le> 2 ^ 64")
    case True
    then have "unat ?x = unat s + unat a - 1" using x m by simp
    then show ?thesis using True k m unat_and_not_low [of k ?x] by simp
  next
    case False
    then have "unat ?x = unat s + unat a - 1 - 2 ^ 64" using x lt mlt m by (simp add: mod_if)
    then have "unat ?x < 2 ^ k" using lt m False by simp
    then show ?thesis using False k unat_and_not_low [of k ?x] by simp
  qed
  then have "?x AND NOT (a - 1) = of_nat (if unat s + unat a \<le> 2 ^ 64 then (unat s + unat a - 1) div unat a * unat a else 0)"
    by (rule word_of_unat)
  then show ?thesis using assms by (simp add: Align_def)
qed

lemma align_down_rounds:
  assumes "IsPowerOfTwo (uint a)"
  shows "AlignDown s a = Inr (of_nat (unat s div unat a * unat a))"
proof -
  obtain k where k: "k < 64" "a = 2 ^ k" using word_power assms by blast
  have "unat (s AND NOT (a - 1)) = unat s div unat a * unat a"
    using k unat_and_not_low [of k s] by (simp add: unat_power_of_two)
  then have "s AND NOT (a - 1) = of_nat (unat s div unat a * unat a)" by (rule word_of_unat)
  then show ?thesis using assms by (simp add: AlignDown_def)
qed

section \<open>Logarithms\<close>

lemma bit_length_0 [simp]: "bit_length 0 = 0"
  by (simp add: bit_length.simps)

lemma bit_length_bounds: "0 < n \<Longrightarrow> 2 ^ (bit_length n - 1) \<le> n \<and> n < 2 ^ bit_length n \<and> 0 < bit_length n"
proof (induction n rule: bit_length.induct)
  case (1 n)
  show ?case
  proof (cases "n = 1")
    case True
    then show ?thesis by (simp add: bit_length.simps)
  next
    case False
    then have pos: "0 < n div 2" using 1 by simp
    then have ih: "2 ^ (bit_length (n div 2) - 1) \<le> n div 2" "n div 2 < 2 ^ bit_length (n div 2)" "0 < bit_length (n div 2)"
      using 1 by simp_all
    obtain b where b: "bit_length (n div 2) = Suc b" using ih(3) by (cases "bit_length (n div 2)") auto
    have "bit_length n = Suc (Suc b)" using 1 b by (subst bit_length.simps) simp
    moreover have "2 * (n div 2) \<le> n" "n < 2 * (n div 2) + 2" by presburger+
    ultimately show ?thesis using ih b by simp
  qed
qed


lemma bit_length_le: "n < 2 ^ w \<Longrightarrow> bit_length n \<le> w"
proof (cases "n = 0")
  case False
  assume "n < 2 ^ w"
  then have "(2::nat) ^ (bit_length n - 1) < 2 ^ w" "0 < bit_length n"
    using False bit_length_bounds [of n] by (simp_all add: order_le_less_trans del: power_strict_increasing_iff)
  then have "bit_length n - 1 < w" by (simp only: power_strict_increasing_iff one_less_numeral_iff semiring_norm)
  then show ?thesis by simp
qed (simp add: bit_length.simps)

lemma leading_zeros_exact:
  assumes "int n \<le> highest t" "\<not> is_signed t"
  shows "CountLeadingZeroBits t n = Inr (8 * sizeof t - bit_length n)"
proof (cases t)
qed (use assms bit_length_le [of n 8] bit_length_le [of n 16] in
     \<open>auto simp: CountLeadingZeroBits_def builtin_clz_def\<close>)

lemma cast_via_unsigned: "in_type Int32 v \<Longrightarrow> cast Int32 (cast UInt32 v) = v"
  by (simp add: cast_def in_type_def mod_add_left_eq)

lemma log2_floor_length:
  assumes "n < 2 ^ 32"
  shows "Log2Floor n = Inr (int (bit_length n) - 1)"
proof -
  have "bit_length n \<le> 32" using assms by (rule bit_length_le)
  then show ?thesis using assms
    by (simp add: Log2Floor_def leading_zeros_exact cast_via_unsigned in_type_def of_nat_diff)
qed

lemma log2_ceiling_length:
  assumes "n < 2 ^ 32"
  shows "Log2Ceiling n = Inr (if n = 0 then - 1 else int (bit_length (n - 1)))"
proof (cases "n = 0")
  case True
  have "(2::nat) ^ 31 < 2 ^ bit_length 4294967295" using bit_length_bounds [of 4294967295] by simp
  then have "31 < bit_length 4294967295" by (simp only: power_strict_increasing_iff one_less_numeral_iff semiring_norm)
  then have "bit_length 4294967295 = 32" using bit_length_le [of 4294967295 32] by simp
  then show ?thesis using True
    by (simp add: Log2Ceiling_def leading_zeros_exact cast_via_unsigned in_type_def cast_def)
next
  case False
  have "bit_length (n - 1) \<le> 32" using assms by (intro bit_length_le) simp
  moreover have "nat (cast UInt32 (int n - 1)) = n - 1" using False assms by (simp add: in_type_def nat_diff_distrib)
  ultimately show ?thesis using assms False
    by (simp add: Log2Ceiling_def leading_zeros_exact cast_via_unsigned in_type_def of_nat_diff)
qed

lemma pred_length:
  assumes "0 < n"
  shows "n \<le> 2 ^ bit_length (n - 1) \<and> (bit_length (n - 1) = 0 \<or> 2 ^ (bit_length (n - 1) - 1) < n)"
proof (cases "n = 1")
  case False
  define m where "m = n - 1"
  have "0 < m" "n = Suc m" using assms False by (simp_all add: m_def)
  then show ?thesis using bit_length_bounds [of m] by simp
qed simp

theorem log2_exact:
  assumes "0 < n" "n < 2 ^ 32"
  obtains i j where "Log2Floor n = Inr (int i)" "2 ^ i \<le> n" "n < 2 ^ Suc i"
    "Log2Ceiling n = Inr (int j)" "n \<le> 2 ^ j" "j = 0 \<or> 2 ^ (j - 1) < n"
proof
  show "Log2Floor n = Inr (int (bit_length n - 1))" "2 ^ (bit_length n - 1) \<le> n" "n < 2 ^ Suc (bit_length n - 1)"
    using assms bit_length_bounds [of n] by (simp_all add: log2_floor_length of_nat_diff)
  show "Log2Ceiling n = Inr (int (bit_length (n - 1)))" using assms by (simp add: log2_ceiling_length)
  show "n \<le> 2 ^ bit_length (n - 1)" "bit_length (n - 1) = 0 \<or> 2 ^ (bit_length (n - 1) - 1) < n"
    using assms(1) pred_length [of n] by simp_all
qed

lemma trailing_zeros_bounds: "0 < n \<Longrightarrow> 2 ^ trailing_zeros n dvd n \<and> \<not> 2 ^ Suc (trailing_zeros n) dvd n"
proof (induction n rule: trailing_zeros.induct)
  case (1 n)
  show ?case
  proof (cases "odd n")
    case True
    then show ?thesis by (simp add: trailing_zeros.simps)
  next
    case False
    then obtain m where m: "n = 2 * m" by blast
    then have "trailing_zeros n = Suc (trailing_zeros m)" using 1 by (subst trailing_zeros.simps) simp
    moreover have "2 ^ trailing_zeros m dvd m \<and> \<not> 2 ^ Suc (trailing_zeros m) dvd m" using 1 m False by simp
    ultimately show ?thesis using m by simp
  qed
qed

theorem count_trailing_exact:
  assumes "0 < n"
  obtains k where "CountTrailingZeroBits t n = Inr k" "2 ^ k dvd n" "\<not> 2 ^ Suc k dvd n"
  using that [of "trailing_zeros n"] assms trailing_zeros_bounds [of n]
  by (simp add: CountTrailingZeroBits_def builtin_ctz_def)

theorem count_leading_exact:
  assumes "0 < n" "int n \<le> highest t" "\<not> is_signed t"
  obtains k where "CountLeadingZeroBits t n = Inr k" "k < 8 * sizeof t"
    "2 ^ (8 * sizeof t - Suc k) \<le> n" "n < 2 ^ (8 * sizeof t - k)"
proof
  have "bit_length n \<le> 8 * sizeof t" using assms(2,3) by (cases t) (simp_all add: bit_length_le)
  then show "8 * sizeof t - bit_length n < 8 * sizeof t" "2 ^ (8 * sizeof t - Suc (8 * sizeof t - bit_length n)) \<le> n"
      "n < 2 ^ (8 * sizeof t - (8 * sizeof t - bit_length n))"
    using bit_length_bounds [OF assms(1)] by (simp_all add: Suc_diff_Suc)
qed (use assms in \<open>simp add: leading_zeros_exact\<close>)

lemma leftmost_bit_value: "LeftmostBit t = (if is_signed t then lowest t else highest t div 2 + 1)"
  by (cases t) (simp_all add: LeftmostBit_def cast_def)

end
