(* ===== verification/Spec2Isabelle.thy ===== *)
theory Spec2Isabelle
  imports Unwrapper JsonRef Handshake UnitArith ByteIO Buffer SwapQueue MovingMax Percentile DequeProps HeapSort
    TokenStream MruProps RingBuffer FlatProps SmallMapProps SpanProps
    CheckedProps BaseTime StringNumbers StringSplit StringAscii ObserverNotify IdMapIter CowProps Bits
begin

text \<open>
  \<^bold>\<open>Verification of the WebRTC data-channel sample and of the library headers it ships\<close>

  The repository is a sample of a WebRTC data channel: a client and a server in C++ exchange session
  descriptions and ICE candidates as JSON over a WebSocket and then talk over the data channel, the
  server echoing every line the client sends. Next to the sample (src/src) it ships the headers of the
  WebRTC and Chromium libraries it is built against (src/webrtc/include); the compiled library, jsoncpp
  and websocketpp are not part of its own code.

  \<^bold>\<open>Parts and theories\<close>

  \<^item> Prelude: faults as values (\<open>'a res\<close>, with \<open>dcheck\<close> and \<open>check\<close> for \<open>RTC_DCHECK\<close> and \<open>RTC_CHECK\<close>),
    processes that stop (\<open>outcome\<close>), machine integers and shared lemmas.
  \<^item> JsonUtils, IceMessage: src/util/json_utils.h and the \<open>Ice\<close> structure of src/util/webrtc_manager.h.
    jsoncpp is the record \<open>json_lib\<close>; its documented behaviour is the locale \<open>json_library\<close>, interpreted in
    JsonRef on a printer and parser of flat objects.
  \<^item> RtcLib, RtcManager: the rest of webrtc_manager.h. One record is the \<open>Connection\<close> with its manager,
    one definition each observer callback and each method. The peer-connection library is the record
    \<open>rtc_lib\<close> of its answers, each a function of all events so far; a call without an answer is an event
    of the \<open>trace\<close>. The enumerations and structures come from api/data_channel_interface.h and
    api/peer_connection_interface.h.
  \<^item> WsServer, WsClient: src/server/server.cpp and src/client/client.cpp: constructors with their lambdas,
    WebSocket handlers, \<open>main\<close> with its input loop.
  \<^item> Signaling, Handshake: both processes, the two ends of the WebSocket and its two directions as one step relation
    \<open>sys_step\<close>; an end opens once and closes at most once, and nothing is delivered to or from a closed end. Every answer of the libraries may be a
    failure: \<open>lib_fault\<close> is the set of stops that such an answer accounts for, \<open>cooperative\<close> what has to go right for the handshake to go on. The locales
    \<open>rtc_env\<close> and \<open>handshake_env\<close> assume only the contract of the JSON library and texts that it can carry;
    the invariant is proved inside them, handler by handler, and interpreted on the reference library \<open>ref_lib\<close>.
  \<^item> ModOps, SeqNum, UnwrapSpec, Unwrapper: rtc_base/numerics/mod_ops.h and sequence_number_util.h, and
    modules/include/module_common_types_public.h, at every word width; the unwrappers share the locale of
    UnwrapSpec.
  \<^item> IntTypes, SafeNumerics: the integer overloads of safe_compare.h, safe_conversions.h, safe_minmax.h and
    divide_round.h, the type computations of the templates included.
  \<^item> Units, UnitArith: rtc_base/units/unit_base.h and the five unit classes of api/units.
  \<^item> ByteIO: modules/rtp_rtcp/source/byte_io.h.
  \<^item> Buffer: rtc_base/buffer.h with the memory blocks it allocated and released; the locale \<open>growable\<close>
    carries the append lemmas.
  \<^item> SwapQueue: rtc_base/swap_queue.h, as a sequential queue and as atomic steps of two threads.
  \<^item> MovingMax, Percentile: moving_max_counter.h, percentile_filter.h and moving_median_filter.h, with the
    float arithmetic of the percentile index.
  \<^item> CircularDeque: base/containers/circular_deque.h over vector_buffer.h, object lifetimes and iterator
    generations included. DequeRing, DequeEnds and DequeMiddle prove each operation against the list the
    deque holds; DequeProps has the locale \<open>deque_interface\<close>, its interpretation and the properties.
  \<^item> IntrusiveHeap: base/containers/intrusive_heap.h, the vector with moved-from slots and the handle of
    every element. HeapInv states the order around a hole and proves the two loops, in the locale
    \<open>strict_weak\<close> of the comparison (theory StrictWeak); HeapOps and HeapProps prove each operation; HeapSort
    shows that the heap is a \<open>priority_queue\<close> (a sublocale) and has the properties.
  \<^item> Tokenizer, TokenStream: base/strings/string_tokenizer.h, and the division of a text into fields and
    delimiters that both modes of the tokenizer follow (the locale \<open>token_stream\<close>, interpreted twice).
  \<^item> MruCache, MruProps: base/containers/mru_cache.h over list nodes with an identity, and the list of entries
    in the order of their last use that it refines.
  \<^item> RingBuffer: base/containers/ring_buffer.h with its iterators.
  \<^item> StdAlgorithms, FlatTree, FlatMapSpec, FlatProps: base/containers/flat_tree.h, flat_map.h and the fixed
    containers over the algorithms of the standard library they call. FlatMapSpec shows, in \<open>strict_weak\<close>, what
    each operation does to the map a sorted body stands for; a body is determined by that map.
  \<^item> SmallMap, SmallMapProps: base/containers/small_map.h, with the union of array and map and the lifetimes of
    the objects in it; programs over it are compared with a list of entries.
  \<^item> BaseNumerics, CheckedMath, CheckedProps, ClampedMath: base/numerics for the eight integer types. A template is a
    function of the \<open>int_type\<close> values of its parameters, an operation class returns its verdict and the result
    variable; the compiler (overflow builtins of GCC, of Clang, or none) is an argument. The locale \<open>sound_op\<close> is what
    \<open>CheckedNumeric::MathOp\<close> relies on, interpreted on every operation class. Expressions are trees of operators.
  \<^item> BaseTime: base/time/time.h on the clamped and checked operations: durations, time points, integer units.
  \<^item> StringNumbers: base/strings/string_number_conversions_internal.h over strings of \<open>char\<close>: printing, parsing with the
    bounds of the type, hexadecimal bytes.
  \<^item> Utf: base/third_party/icu/icu_utf.h, the code point tests of utf_string_conversion_utils.h and \<open>DoIsStringUTF8\<close>.
  \<^item> StringPiece: base/strings/string_piece.h and char_traits.h; the searches, whose code is in the compiled library, are
    the operations of the locale \<open>piece_search\<close>, interpreted on the searches of \<open>std::basic_string\<close>.
  \<^item> StringReplace, StringUtil, StringAscii: base/strings/string_util_internal.h: replacement in a buffer, trimming, whitespace,
    prefixes, comparisons without case, placeholders, and the ASCII test by machine words. StringSplit: splitting
    (string_split_internal.h) and joining.
  \<^item> LinkedList: base/containers/linked_list.h on a heap of nodes; the pointer surgery of the compiled library is the locale
    \<open>link_nodes\<close>. ObserverList, ObserverProps, ObserverNotify: base/observer_list.h and observer_list_internal.h, their
    refinement of a sequence with cursors, and the notification loop.
  \<^item> IdMap, IdMapProps, IdMapIter: base/containers/id_map.h over the flat set of FlatTree; the order of the hash table is the
    locale \<open>hash_table\<close>.
  \<^item> CowBuffer, CowProps: rtc_base/copy_on_write_buffer.h as objects that refer to a heap of the buffers of Buffer; the
    functions of the compiled library are the locale \<open>cow_library\<close>.
  \<^item> Bits: base/bits.h: powers of two, alignment of sizes (with its wrap-around), zero counts and logarithms.
  \<^item> Span, SpanProps: base/containers/span.h, checked_iterators.h and buffer_iterator.h over an array; pointers are
    indices.

  \<^bold>\<open>What is shown\<close>

  In any interleaving of callbacks, messages and closings the two processes stop only by a failing answer of a library and agree on the descriptions,
  and while the connection is open and the libraries cooperate they can complete the handshake; the exceptions (an early candidate, a null check that comes too
  late) are theorems as well. The echo service and the input loop do what the README says. The containers
  refine lists, multisets and bounded queues on every branch, faults included, and clear, shrink or move
  their memory as promised; the heap sorts and keeps every handle right, the cache keeps what was used
  recently, the tokenizer returns exactly the pieces of the text but restarts wrongly in one mode; the flat
  containers and the small map are maps, whatever the order, the hints and the array size, and spans never leave
  their view, with the two exceptions that the theorems state. Expressions of checked numbers (without remainder, bitwise operators and the negation of unsigned numbers) are exact or
  rejected, clamped numbers saturate, and durations are extended integers, except where a signed operand meets
  \<open>uint64_t\<close>, which the theorems describe as well; the sharing of copy-on-write buffers cannot be
  observed, but two inputs break the class; entries may leave the map of ids and observers may leave while they are visited, but a list
  cannot be cleared after that; replacement, whitespace, splitting, the tests of encodings and the texts of
  numbers agree with their definitions by lists, but the test for ASCII forms a pointer in front of a short array; the other numeric headers are exact, round to
  nearest, or overflow exactly where the theorems say.

  \<^bold>\<open>Bounds and fuel\<close>

  A loop that is no recursion over a list is a function with fuel; the fuel is the number of cells of the
  buffer or the requested count, and every theorem about such a loop states that it returns. Sizes of
  containers are natural numbers: allocation does not fail and no container reaches \<open>2 ^ 64\<close> elements. The
  percentile filter is exact up to \<open>2 ^ 24 + 1\<close> samples, the integers a \<open>float\<close> represents.

  \<^bold>\<open>Not modelled\<close>

  The browser client webrtc_client.js; copies and iterators of the intrusive heap; reverse iterators and the
  comparison of whole flat containers; the alignment of objects in a buffer; the destruction of threads and the
  scheduling inside websocketpp; the bit scans of the Microsoft compiler;
  log output of the libraries; floating-point overloads of the numeric headers, the time classes and the number texts; clocks and
  the calendar; Arm assembler; the text output of units;
  references that alias elements of a container, replacement texts that alias the string; \<open>Erase\<close> and \<open>EraseIf\<close> over base/ranges; all headers whose
  code is in the compiled library.
\<close>

section \<open>ICE messages through the JSON library\<close>

text \<open>
  C5. An ICE candidate survives the signaling channel: what \<open>Ice::ToJsonString\<close> prints,
  \<open>Ice::FromJsonString\<close> reads back unchanged if the candidate is complete, and rejects with the
  documented exception if a text is empty or the index is the default -1; in any case what it accepts is
  complete. The JSON library is any implementation of its contract.
\<close>

theorem ice_roundtrip:
  assumes "json_library J doc text_ok" "text_ok (candidate i)" "text_ok (sdp_mid i)"
  shows "FromJsonString J (ToJsonString J i) =
      (if ice_complete i then Inr i else Inl (RuntimeError ''Invalid json string for ICE.'')) \<and>
    (FromJsonString J s = Inr i' \<longrightarrow> ice_complete i')"
  using json_library.FromJsonString_ToJsonString [OF assms] FromJsonString_complete by blast

theorem ice_roundtrip_witness:
  "FromJsonString ref_json (ToJsonString ref_json \<lparr>candidate = ''c'', sdp_mid = ''data'', sdp_mline_index = 0\<rparr>) =
     Inr \<lparr>candidate = ''c'', sdp_mid = ''data'', sdp_mline_index = 0\<rparr>"
  using ice_roundtrip [OF ref_json.json_library_axioms,
      of "\<lparr>candidate = ''c'', sdp_mid = ''data'', sdp_mline_index = 0\<rparr>"]
  by (simp add: ice_complete_def)

end
